(* ===== verification/Prelude.thy ===== *)
theory Prelude
  imports Main "HOL-Library.Word" "HOL-Library.Sublist"
begin

text \<open>
  Shared material of the OpenPBS development: the C integer types as words, C strings as
  character lists, the character arithmetic of the source (\<open>value % 10 + '0'\<close>,
  \<open>c - '0'\<close>, \<open>memcmp\<close>, \<open>strlen\<close>), decimal numerals and the
  theorem collections the component theories extend.

  Conventions. \<open>unsigned\<close> is a 32-bit word, \<open>unsigned long\<close>,
  \<open>u_Long\<close> and \<open>size_t\<close> are 64 bits (the LP64 model the daemons are built for).
  A character is one byte, and plain \<open>char\<close> is signed (x86), so \<^term>\<open>''a''\<close> read
  through an \<open>int\<close> is sign extended.
\<close>

named_theorems safe_intro \<open>composition rules for what readers keep on every path\<close>
named_theorems wire_intro \<open>composition rules for writers and readers of one wire format\<close>
named_theorems msg_intro \<open>the same for whole messages, with lengths stated by fits\<close>

type_synonym uint = "32 word"
type_synonym ulong = "64 word"

text \<open>The error number the library routines return when an allocation fails.\<close>

definition PBSE_SYSTEM :: int where "PBSE_SYSTEM = 15010"

subsection \<open>Words\<close>

lemma unat_of_nat_small: "n < 2 ^ LENGTH('a) \<Longrightarrow> unat (of_nat n :: 'a::len word) = n"
  by (simp add: unat_of_nat)

lemma unat_uint_less: "unat (v :: uint) < 4294967296"
  using unsigned_less [of v, where ?'a = nat] by simp

lemma unat_ulong_less: "unat (v :: ulong) < 18446744073709551616"
  using unsigned_less [of v, where ?'a = nat] by simp

lemma sint_of_nat_uint: "n < 2147483648 \<Longrightarrow> sint (of_nat n :: uint) = int n"
  by (simp add: signed_of_nat signed_take_bit_int_eq_self)

lemma unat_ucast_fits:
  "unat (v :: 'a::len word) < 2 ^ LENGTH('b) \<Longrightarrow> unat (ucast v :: 'b::len word) = unat v"
  by (simp add: unsigned_ucast_eq take_bit_nat_eq_self_iff)

lemma ucast_of_nat_uint: "n < 4294967296 \<Longrightarrow> (ucast (of_nat n :: uint) :: ulong) = of_nat n"
  by (simp add: word_unat_eq_iff unat_ucast_fits unat_of_nat_small)

lemma sint_of_int_word: "sint (word_of_int k :: 'a::len word) = signed_take_bit (LENGTH('a) - 1) k"
  by (simp add: signed_of_int)

lemma sint_neg_unat:
  fixes u :: "'a::len word"
  assumes "unat u \<le> 2 ^ (LENGTH('a) - 1)"
  shows "sint (- u) = - int (unat u)"
proof -
  have "int (unat u) \<le> 2 ^ (LENGTH('a) - 1)"
    using assms by (metis of_nat_le_iff of_nat_numeral of_nat_power)
  moreover have "0 \<le> int (unat u)" "(0::int) < 2 ^ (LENGTH('a) - 1)" by simp_all
  ultimately have "signed_take_bit (LENGTH('a) - 1) (- int (unat u)) = - int (unat u)"
    by (intro signed_take_bit_int_eq_self) linarith+
  moreover have "- u = word_of_int (- int (unat u))" by simp
  ultimately show ?thesis by (simp only: sint_of_int_word)
qed

lemma sint_pos_unat:
  fixes u :: "'a::len word"
  assumes "unat u < 2 ^ (LENGTH('a) - 1)"
  shows "sint u = int (unat u)"
proof -
  have "int (unat u) < 2 ^ (LENGTH('a) - 1)"
    using assms by (metis of_nat_less_iff of_nat_numeral of_nat_power)
  moreover have "0 \<le> int (unat u)" "(0::int) < 2 ^ (LENGTH('a) - 1)" by simp_all
  ultimately have "signed_take_bit (LENGTH('a) - 1) (int (unat u)) = int (unat u)"
    by (intro signed_take_bit_int_eq_self) linarith+
  moreover have "u = word_of_int (int (unat u))" by simp
  ultimately show ?thesis by (metis sint_of_int_word)
qed

lemma sint_bounds: "- (2 ^ (LENGTH('a) - 1)) \<le> sint (v :: 'a::len word)" "sint v < 2 ^ (LENGTH('a) - 1)"
  using sint_greater_eq [of v] sint_less [of v] by simp_all

lemma unat_of_sint_nonneg:
  fixes v :: "'a::len word"
  assumes "0 \<le> sint v"
  shows "unat v = nat (sint v)"
proof -
  have "sint v < 2 ^ LENGTH('a)"
    using sint_bounds(2) [of v] power_increasing [of "LENGTH('a) - 1" "LENGTH('a)" "2::int"] by linarith
  then have "uint (word_of_int (sint v) :: 'a word) = sint v"
    using assms by (simp only: uint_word_of_int) simp
  then have "uint v = sint v" by simp
  then show ?thesis by (simp only: unat_eq_nat_uint)
qed

lemma unat_minus_sint_neg:
  fixes v :: "'a::len word"
  assumes "sint v < 0"
  shows "unat (- v) = nat (- sint v)"
proof -
  have "(2::int) ^ (LENGTH('a) - 1) < 2 ^ LENGTH('a)"
    by (rule power_strict_increasing) simp_all
  then have "- sint v < 2 ^ LENGTH('a)" using sint_bounds(1) [of v] by linarith
  then have "uint (word_of_int (- sint v) :: 'a word) = - sint v"
    using assms by (simp only: uint_word_of_int) simp
  moreover have "word_of_int (- sint v) = - v" by simp
  ultimately have "uint (- v) = - sint v" by simp
  then show ?thesis by (simp only: unat_eq_nat_uint)
qed

subsection \<open>Characters\<close>

abbreviation NUL :: char where
  "NUL \<equiv> CHR 0x00"

text \<open>The code of a character as an \<open>unsigned char\<close>, and as a (signed) \<open>char\<close> converted to \<open>int\<close>.\<close>

definition uchar :: "char \<Rightarrow> nat" where
  "uchar c = of_char c"

definition schar :: "char \<Rightarrow> int" where
  "schar c = (if uchar c < 128 then int (uchar c) else int (uchar c) - 256)"

definition char_of_int :: "int \<Rightarrow> char" where
  "char_of_int i = char_of (nat (i mod 256))"

definition digit_char :: "nat \<Rightarrow> char" where
  "digit_char d = char_of (48 + d)"

definition is_digit :: "char \<Rightarrow> bool" where
  "is_digit c \<longleftrightarrow> 48 \<le> uchar c \<and> uchar c \<le> 57"

lemma uchar_less [simp]: "uchar c < 256"
  unfolding uchar_def using range_nat_of_char by auto

lemma uchar_inject: "uchar a = uchar b \<Longrightarrow> a = b"
  by (simp add: uchar_def)

lemma uchar_digit_char [simp]: "d < 10 \<Longrightarrow> uchar (digit_char d) = 48 + d"
  by (simp add: uchar_def digit_char_def of_char_of)

lemma is_digit_digit_char [simp]: "d < 10 \<Longrightarrow> is_digit (digit_char d)"
  by (simp add: is_digit_def)

lemma schar_digit_char [simp]: "d < 10 \<Longrightarrow> schar (digit_char d) = 48 + int d"
  by (simp add: schar_def)

lemma schar_is_digit: "is_digit c \<longleftrightarrow> 48 \<le> schar c \<and> schar c \<le> 57"
proof (cases "uchar c < 128")
  case False
  then have "\<not> uchar c \<le> 57" "schar c < 0"
    using uchar_less [of c] by (simp_all add: schar_def del: uchar_less)
  then show ?thesis by (simp add: is_digit_def)
qed (auto simp: is_digit_def schar_def)

lemma is_digit_schar: "is_digit c \<Longrightarrow> schar c = int (uchar c)"
  by (auto simp: is_digit_def schar_def)

lemma char_of_int_schar [simp]: "char_of_int (schar c) = c"
proof -
  have "nat (schar c mod 256) = uchar c"
    using uchar_less [of c] by (auto simp: schar_def)
  then show ?thesis by (simp add: char_of_int_def uchar_def)
qed

lemma schar_sign [simp]: "schar CHR ''+'' = 43" "schar CHR ''-'' = 45"
  by (simp_all add: schar_def uchar_def)

lemma schar_eq_iff [simp]: "schar a = schar b \<longleftrightarrow> a = b"
  by (metis char_of_int_schar)

subsection \<open>C strings and memory comparison\<close>

definition strlen :: "string \<Rightarrow> nat" where
  "strlen s = length (takeWhile (\<lambda>c. c \<noteq> NUL) s)"

definition c_string :: "string \<Rightarrow> bool" where
  "c_string s \<longleftrightarrow> NUL \<notin> set s"

text \<open>\<open>memcmp(a, b, n) > 0\<close> on two blocks of equal length: the first differing byte decides.\<close>

fun memcmp_gt :: "string \<Rightarrow> string \<Rightarrow> bool" where
  "memcmp_gt (a # as) (b # bs) =
     (if uchar a = uchar b then memcmp_gt as bs else uchar b < uchar a)"
| "memcmp_gt _ _ = False"

lemma strlen_c_string [simp]: "c_string s \<Longrightarrow> strlen s = length s"
  unfolding strlen_def c_string_def by (subst takeWhile_eq_all_conv [THEN iffD2]) auto

lemma strlen_le: "strlen s \<le> length s"
  by (simp add: strlen_def length_takeWhile_le)

lemma c_string_take_strlen: "c_string (take (strlen s) s)"
proof -
  have "take (strlen s) s = takeWhile (\<lambda>c. c \<noteq> NUL) s"
    unfolding strlen_def by (metis takeWhile_eq_take)
  then show ?thesis
    using set_takeWhileD by (fastforce simp: c_string_def)
qed

text \<open>A C string of at most \<open>n\<close> characters: what an array of \<open>n + 1\<close> holds.\<close>

definition fits :: "nat \<Rightarrow> string \<Rightarrow> bool" where
  "fits n v \<longleftrightarrow> c_string v \<and> length v \<le> n"

lemma fitsD: "fits n v \<Longrightarrow> c_string v" "fits n v \<Longrightarrow> length v \<le> n"
  by (simp_all add: fits_def)

lemma c_string_simps [simp]:
  "c_string []" "c_string (c # s) \<longleftrightarrow> c \<noteq> NUL \<and> c_string s"
  "c_string (s @ t) \<longleftrightarrow> c_string s \<and> c_string t"
  by (auto simp: c_string_def)

subsection \<open>Decimal numerals\<close>

definition dec_val :: "string \<Rightarrow> nat" where
  "dec_val ds = foldl (\<lambda>v c. 10 * v + (uchar c - 48)) 0 ds"

text \<open>The loop \<open>while (value > 9) { *--cp = value % 10 + '0'; value /= 10; } *--cp = value + '0'\<close>.\<close>

fun dec_digits :: "nat \<Rightarrow> string \<Rightarrow> string" where
  "dec_digits v cp =
     (if v > 9 then dec_digits (v div 10) (digit_char (v mod 10) # cp) else digit_char v # cp)"

declare dec_digits.simps [simp del]

lemma dec_digits_append: "dec_digits v cp = dec_digits v [] @ cp"
proof (induction v arbitrary: cp rule: less_induct)
  case (less v)
  show ?case
  proof (cases "v > 9")
    case True
    then have lt: "v div 10 < v" by simp
    show ?thesis
      using less.IH [OF lt, of "digit_char (v mod 10) # cp"] less.IH [OF lt, of "[digit_char (v mod 10)]"] True
      by (simp add: dec_digits.simps [of v])
  next
    case False
    then show ?thesis by (simp add: dec_digits.simps)
  qed
qed

definition dec_str :: "nat \<Rightarrow> string" where
  "dec_str v = dec_digits v []"

lemma dec_str_rec: "dec_str v = (if v > 9 then dec_str (v div 10) @ [digit_char (v mod 10)] else [digit_char v])"
  unfolding dec_str_def
  by (subst dec_digits.simps) (simp add: dec_digits_append [of "v div 10" "[digit_char (v mod 10)]"])

lemma dec_str_ne [simp]: "dec_str v \<noteq> []"
  by (subst dec_str_rec) simp

lemma dec_val_snoc: "dec_val (ds @ [c]) = 10 * dec_val ds + (uchar c - 48)"
  by (simp add: dec_val_def)

lemma dec_val_dec_str [simp]: "dec_val (dec_str v) = v"
proof (induction v rule: less_induct)
  case (less v)
  show ?case
  proof (cases "v > 9")
    case True
    then show ?thesis
      using less.IH [of "v div 10"] by (subst dec_str_rec) (simp add: dec_val_snoc)
  next
    case False
    then show ?thesis by (subst dec_str_rec) (simp add: dec_val_def)
  qed
qed

lemma dec_str_digits: "c \<in> set (dec_str v) \<Longrightarrow> is_digit c"
proof (induction v rule: less_induct)
  case (less v)
  show ?case
  proof (cases "v > 9")
    case True
    then show ?thesis
      using less.IH [of "v div 10"] less.prems by (subst (asm) (2) dec_str_rec) auto
  next
    case False
    then show ?thesis using less.prems by (subst (asm) dec_str_rec) auto
  qed
qed

lemma dec_str_length_pow: "0 < k \<Longrightarrow> length (dec_str v) \<le> k \<longleftrightarrow> v < 10 ^ k"
proof (induction k arbitrary: v)
  case (Suc k)
  show ?case
  proof (cases "v > 9")
    case True
    then have len: "length (dec_str v) = Suc (length (dec_str (v div 10)))"
      by (subst dec_str_rec) simp
    show ?thesis
    proof (cases "k = 0")
      case True
      with \<open>v > 9\<close> len show ?thesis by simp
    next
      case False
      then have "length (dec_str (v div 10)) \<le> k \<longleftrightarrow> v div 10 < 10 ^ k"
        using Suc.IH by simp
      then show ?thesis using len by (simp add: div_less_iff_less_mult mult.commute)
    qed
  next
    case False
    then have "length (dec_str v) = 1" by (subst dec_str_rec) simp
    moreover have "(10::nat) \<le> 10 ^ Suc k" by simp
    then have "v < 10 ^ Suc k" using False by linarith
    ultimately show ?thesis by simp
  qed
qed simp

lemma dec_str_leading: "0 < v \<Longrightarrow> hd (dec_str v) \<noteq> digit_char 0"
proof (induction v rule: less_induct)
  case (less v)
  show ?case
  proof (cases "v > 9")
    case True
    then show ?thesis
      using less.IH [of "v div 10"] by (subst dec_str_rec) simp
  next
    case False
    have "uchar (digit_char v) \<noteq> uchar (digit_char 0)"
      using False less.prems by simp
    then have "digit_char v \<noteq> digit_char 0" by metis
    with False show ?thesis by (subst dec_str_rec) simp
  qed
qed

text \<open>Digit strings of equal length compare by \<open>memcmp\<close> as their values do.\<close>

lemma foldl_dec:
  "foldl (\<lambda>v c. 10 * v + (uchar c - 48)) a ds = a * 10 ^ length ds + dec_val ds"
proof (induction ds rule: rev_induct)
  case (snoc c ds)
  then show ?case by (simp add: dec_val_snoc algebra_simps)
qed (simp add: dec_val_def)

lemma dec_val_Cons: "dec_val (c # ds) = (uchar c - 48) * 10 ^ length ds + dec_val ds"
  using foldl_dec [of "uchar c - 48" ds] by (simp add: dec_val_def)

lemma dec_val_less: "\<forall>c \<in> set ds. is_digit c \<Longrightarrow> dec_val ds < 10 ^ length ds"
proof (induction ds)
  case (Cons c ds)
  then have "uchar c - 48 \<le> 9" "dec_val ds < 10 ^ length ds"
    by (auto simp: is_digit_def)
  then have "(uchar c - 48) * 10 ^ length ds + dec_val ds < 9 * 10 ^ length ds + 10 ^ length ds"
    by (meson add_le_less_mono mult_le_mono1)
  then show ?case by (simp add: dec_val_Cons)
qed (simp add: dec_val_def)

lemma memcmp_gt_dec_val:
  "length as = length bs \<Longrightarrow> \<forall>c \<in> set as. is_digit c \<Longrightarrow> \<forall>c \<in> set bs. is_digit c \<Longrightarrow>
   memcmp_gt as bs \<longleftrightarrow> dec_val bs < dec_val as"
proof (induction as bs rule: list_induct2)
  case (Cons a as b bs)
  have a: "dec_val as < 10 ^ length as" and b: "dec_val bs < 10 ^ length as"
    using Cons dec_val_less [of as] dec_val_less [of bs] by auto
  have ltI: "i * 10 ^ length as + x < j * 10 ^ length as + y"
    if "i < j" "x < 10 ^ length as" for i j x y :: nat
  proof -
    have "i * 10 ^ length as + x < Suc i * 10 ^ length as" using that(2) by simp
    also have "\<dots> \<le> j * 10 ^ length as" using that(1) by (simp only: mult_le_mono1 Suc_leI)
    finally show ?thesis by simp
  qed
  consider "uchar a = uchar b" | "uchar a < uchar b" | "uchar b < uchar a" by linarith
  then show ?case
  proof cases
    case 1
    then show ?thesis using Cons by (simp add: dec_val_Cons)
  next
    case 2
    then have "uchar a - 48 < uchar b - 48" using Cons.prems by (auto simp: is_digit_def)
    from ltI [OF this a, of "dec_val bs"] 2 show ?thesis
      using Cons.hyps by (simp add: dec_val_Cons)
  next
    case 3
    then have "uchar b - 48 < uchar a - 48" using Cons.prems by (auto simp: is_digit_def)
    from ltI [OF this b, of "dec_val as"] 3 show ?thesis
      using Cons.hyps by (simp add: dec_val_Cons)
  qed
qed simp

section \<open>The length of job identifiers\<close>

text \<open>The longest identifier of a job; the arrays that hold one have \<open>PBS_MAXSVRJOBID + 1\<close> characters.\<close>

abbreviation PBS_MAXSVRJOBID :: nat where "PBS_MAXSVRJOBID \<equiv> 268"

end
