(* ===== verification/Dis.thy ===== *)
theory Dis
  imports Prelude
begin

text \<open>
  The Data-is-Strings library (\<open>src/src/lib/Libdis\<close>): every datum of the batch
  protocol travels as a counted decimal numeral or a counted string. This theory holds the
  writers (\<open>disw*\<close>) and the readers (\<open>disr*\<close>) over an arbitrary transport.

  The transport is what the C code reaches through its global function pointers
  \<open>dis_getc\<close>, \<open>dis_gets\<close>, \<open>dis_puts\<close>, \<open>disr_skip\<close>,
  \<open>disr_commit\<close> and \<open>disw_commit\<close>: here a record of functions on a stream
  state \<^typ>\<open>'s\<close>, to which \<open>malloc\<close> is added, since several readers
  allocate. A reader returns its status (\<open>*retval\<close>), its value and the new state; a
  writer its status and the new state. Out-parameters that the C caller leaves uninitialised
  are arguments of the model (\<open>neg0\<close>), so that reading them is visible. An
  internal routine whose C name ends in an underscore has a prime here (\<open>disrsi_\<close> is
  \<open>disrsi'\<close>).
\<close>

section \<open>Status codes and the transport\<close>

abbreviation DIS_SUCCESS :: int where "DIS_SUCCESS \<equiv> 0"
abbreviation DIS_OVERFLOW :: int where "DIS_OVERFLOW \<equiv> 1"
abbreviation DIS_BADSIGN :: int where "DIS_BADSIGN \<equiv> 3"
abbreviation DIS_LEADZRO :: int where "DIS_LEADZRO \<equiv> 4"
abbreviation DIS_NONDIGIT :: int where "DIS_NONDIGIT \<equiv> 5"
abbreviation DIS_NULLSTR :: int where "DIS_NULLSTR \<equiv> 6"
abbreviation DIS_EOD :: int where "DIS_EOD \<equiv> 7"
abbreviation DIS_NOMALLOC :: int where "DIS_NOMALLOC \<equiv> 8"
abbreviation DIS_PROTO :: int where "DIS_PROTO \<equiv> 9"
abbreviation DIS_NOCOMMIT :: int where "DIS_NOCOMMIT \<equiv> 10"
abbreviation DIS_EOF :: int where "DIS_EOF \<equiv> 11"

definition DIS_BUFSIZ :: nat where "DIS_BUFSIZ = 64"

definition DIS_RECURSIVE_LIMIT :: nat where "DIS_RECURSIVE_LIMIT = 30"

text \<open>
  \<open>dis_gets s n\<close> returns the \<open>int\<close> result and the characters it stored; they are
  meaningful only when the result is \<open>n\<close>. \<open>dis_puts s str\<close> writes the whole of
  \<open>str\<close> (the C argument pair string and count).
\<close>

record 's dis_ops =
  dis_getc :: "'s \<Rightarrow> int \<times> 's"
  dis_gets :: "'s \<Rightarrow> nat \<Rightarrow> int \<times> string \<times> 's"
  dis_puts :: "'s \<Rightarrow> string \<Rightarrow> int \<times> 's"
  disr_skip :: "'s \<Rightarrow> nat \<Rightarrow> int \<times> 's"
  disr_commit :: "'s \<Rightarrow> bool \<Rightarrow> int \<times> 's"
  disw_commit :: "'s \<Rightarrow> bool \<Rightarrow> int \<times> 's"
  c_malloc :: "'s \<Rightarrow> nat \<Rightarrow> bool \<times> 's"

section \<open>Writers\<close>

text \<open>
  The conversion routines fill \<open>dis_buffer\<close> backwards: \<open>*--cp\<close> is a cons, and
  the number of digits is how much longer the buffer suffix became.
\<close>

definition discui' :: "string \<Rightarrow> uint \<Rightarrow> string \<times> uint" where
  "discui' cp value = (let cp' = dec_digits (unat value) cp in (cp', of_nat (length cp' - length cp)))"

definition discul' :: "string \<Rightarrow> ulong \<Rightarrow> string \<times> uint" where
  "discul' cp value = (let cp' = dec_digits (unat value) cp in (cp', of_nat (length cp' - length cp)))"

definition discull' :: "string \<Rightarrow> ulong \<Rightarrow> string \<times> uint" where
  "discull' cp value = (let cp' = dec_digits (unat value) cp in (cp', of_nat (length cp' - length cp)))"

text \<open>\<open>while (ndigs > 1) cp = discui_(cp, ndigs, &ndigs);\<close>\<close>

lemma length_dec_str_le: "length (dec_str v) \<le> Suc v"
proof (induction v rule: less_induct)
  case (less v)
  show ?case
  proof (cases "v > 9")
    case True
    then have "length (dec_str (v div 10)) \<le> Suc (v div 10)" using less.IH by simp
    then show ?thesis using True by (subst dec_str_rec) simp
  next
    case False
    then show ?thesis by (subst dec_str_rec) simp
  qed
qed

lemma length_dec_str_less: "1 < v \<Longrightarrow> length (dec_str v) < v"
proof (cases "v > 9")
  case True
  then have "length (dec_str (v div 10)) \<le> Suc (v div 10)" by (simp add: length_dec_str_le)
  then show ?thesis using True by (subst dec_str_rec) simp
next
  case False
  assume "1 < v"
  then show ?thesis using False by (subst dec_str_rec) simp
qed

lemma dec_digits_length: "length (dec_digits v cp) - length cp = length (dec_str v)"
  by (subst dec_digits_append) (simp add: dec_str_def)

lemma dec_str_uint_length: "length (dec_str (unat (v :: uint))) \<le> 10"
proof -
  have "unat v < 10 ^ 10" using unat_uint_less [of v] by simp
  then show ?thesis by (subst dec_str_length_pow) simp_all
qed

lemma dec_str_ulong_length: "length (dec_str (unat (v :: ulong))) \<le> 20"
proof -
  have "unat v < 10 ^ 20" using unat_ulong_less [of v] by simp
  then show ?thesis by (subst dec_str_length_pow) simp_all
qed

function dis_counts :: "string \<Rightarrow> uint \<Rightarrow> string" where
  "dis_counts cp ndigs =
     (if ndigs > 1 then let (cp', ndigs') = discui' cp ndigs in dis_counts cp' ndigs' else cp)"
  by pat_completeness auto
termination
proof (relation "measure (\<lambda>(cp, n). unat n)")
  fix cp :: string and ndigs :: uint and x cp' ndigs'
  assume *: "1 < ndigs" "x = discui' cp ndigs" "(cp', ndigs') = x"
  have "unat ndigs' = length (dec_str (unat ndigs))"
    using * dec_str_uint_length [of ndigs]
    by (simp add: discui'_def dec_digits_length unat_of_nat_small Let_def)
  moreover have "1 < unat ndigs" using * by (simp add: word_less_nat_alt)
  ultimately show "((cp', ndigs'), cp, ndigs) \<in> measure (\<lambda>(cp, n). unat n)"
    using length_dec_str_less by simp
qed simp

declare dis_counts.simps [simp del]

definition diswui' :: "'s dis_ops \<Rightarrow> 's \<Rightarrow> uint \<Rightarrow> int \<times> 's" where
  "diswui' ops s value =
     (let (cp, ndigs) = discui' [] value;
          cp = dis_counts (CHR ''+'' # cp) ndigs;
          (r, s) = dis_puts ops s cp
      in if r < 0 then (DIS_PROTO, s) else (DIS_SUCCESS, s))"

text \<open>The common last lines of the writers: commit on success, roll back on failure.\<close>

definition disw_finish :: "'s dis_ops \<Rightarrow> int \<times> 's \<Rightarrow> int \<times> 's" where
  "disw_finish ops = (\<lambda>(retval, s).
     let (r, s) = disw_commit ops s (retval = DIS_SUCCESS)
     in (if r < 0 then DIS_NOCOMMIT else retval, s))"

definition diswui :: "'s dis_ops \<Rightarrow> 's \<Rightarrow> uint \<Rightarrow> int \<times> 's" where
  "diswui ops s value = disw_finish ops (diswui' ops s value)"

definition diswsi :: "'s dis_ops \<Rightarrow> 's \<Rightarrow> uint \<Rightarrow> int \<times> 's" where
  "diswsi ops s value =
     (let (uval, c) = (if sint value < 0 then (- (value + 1) + 1, CHR ''-'') else (value, CHR ''+''));
          (cp, ndigs) = discui' [] uval;
          cp = dis_counts (c # cp) ndigs;
          (r, s) = dis_puts ops s cp
      in disw_finish ops (if r < 0 then DIS_PROTO else DIS_SUCCESS, s))"

definition diswul :: "'s dis_ops \<Rightarrow> 's \<Rightarrow> ulong \<Rightarrow> int \<times> 's" where
  "diswul ops s value =
     (let (cp, ndigs) = discul' [] value;
          cp = dis_counts (CHR ''+'' # cp) ndigs;
          (r, s) = dis_puts ops s cp
      in disw_finish ops (if r < 0 then DIS_PROTO else DIS_SUCCESS, s))"

definition diswsl :: "'s dis_ops \<Rightarrow> 's \<Rightarrow> ulong \<Rightarrow> int \<times> 's" where
  "diswsl ops s value =
     (let (ulval, c) = (if sint value < 0 then (- (value + 1) + 1, CHR ''-'') else (value, CHR ''+''));
          (cp, ndigs) = discul' [] ulval;
          cp = dis_counts (c # cp) ndigs;
          (r, s) = dis_puts ops s cp
      in disw_finish ops (if r < 0 then DIS_PROTO else DIS_SUCCESS, s))"

definition diswull :: "'s dis_ops \<Rightarrow> 's \<Rightarrow> ulong \<Rightarrow> int \<times> 's" where
  "diswull ops s value =
     (let (cp, ndigs) = discull' [] value;
          cp = dis_counts (CHR ''+'' # cp) ndigs;
          (r, s) = dis_puts ops s cp
      in disw_finish ops (if r < 0 then DIS_PROTO else DIS_SUCCESS, s))"

definition diswcs :: "'s dis_ops \<Rightarrow> 's \<Rightarrow> string \<Rightarrow> nat \<Rightarrow> int \<times> 's" where
  "diswcs ops s value nchars =
     disw_finish ops
       (let (retval, s) = diswui' ops s (of_nat nchars)
        in if retval = DIS_SUCCESS \<and> nchars > 0 then
             let (r, s) = dis_puts ops s (take nchars value)
             in if (of_int r :: ulong) \<noteq> of_nat nchars then (DIS_PROTO, s) else (retval, s)
           else (retval, s))"

text \<open>The macros \<open>diswst\<close>, \<open>diswuc\<close> and \<open>diswus\<close> of \<open>dis.h\<close>.\<close>

definition diswst :: "'s dis_ops \<Rightarrow> 's \<Rightarrow> string \<Rightarrow> int \<times> 's" where
  "diswst ops s value = diswcs ops s value (strlen value)"

definition diswuc :: "'s dis_ops \<Rightarrow> 's \<Rightarrow> 8 word \<Rightarrow> int \<times> 's" where
  "diswuc ops s value = diswui ops s (ucast value)"

section \<open>Readers\<close>

text \<open>\<open>dis_umax\<close> and \<open>ulmax\<close>: the digits of the greatest value, set up by \<open>dis_init_tables\<close>.\<close>

definition dis_umax :: string where
  "dis_umax = fst (discui' [] (- 1))"

definition ulmax :: string where
  "ulmax = fst (discull' [] (- 1))"

text \<open>
  The digit loops \<open>if ((c = *cp++) < '0' || c > '9') return DIS_NONDIGIT; v = 10 * v + c - '0'\<close>;
  the arithmetic is that of the unsigned type.
\<close>

fun dig_loop :: "'a::len word \<Rightarrow> string \<Rightarrow> 'a word option" where
  "dig_loop v [] = Some v"
| "dig_loop v (c # cs) =
     (if schar c < 48 \<or> schar c > 57 then None else dig_loop (10 * v + of_int (schar c) - 48) cs)"

text \<open>
  \<open>disrsi_\<close>, \<open>disrsl_\<close> and \<open>disrsll_\<close> are one text at two widths. They
  differ in one place: \<open>disrsl_\<close> assigns \<open>*negate\<close> after the test
  \<open>count > ulmaxdigs\<close>, the others before it (\<open>early\<close>). The out-parameters
  \<open>*negate\<close> and \<open>*value\<close> are passed in and returned.
\<close>

function disrs' :: "'s dis_ops \<Rightarrow> bool \<Rightarrow> string \<Rightarrow> nat \<Rightarrow> 'a::len word \<Rightarrow> 's \<Rightarrow> bool \<Rightarrow> 'a word
     \<Rightarrow> int \<times> bool \<times> 'a word \<times> 's" where
  "disrs' ops early umax recursv count s negate value =
     (if Suc recursv > DIS_RECURSIVE_LIMIT then (DIS_PROTO, negate, value, s)
      else let (c, s) = dis_getc ops s in
        if c = 45 \<or> c = 43 then
          let neg = (c = 45) in
          if unat count > length umax then (DIS_OVERFLOW, if early then neg else negate, - 1, s)
          else let (r, buf, s) = dis_gets ops s (unat count) in
            if of_int r \<noteq> count then (DIS_EOD, neg, value, s)
            else if unat count = length umax \<and> memcmp_gt buf umax then (DIS_OVERFLOW, neg, - 1, s)
            else (case dig_loop 0 buf of
                    None \<Rightarrow> (DIS_NONDIGIT, neg, value, s)
                  | Some locval \<Rightarrow> (DIS_SUCCESS, neg, locval, s))
        else if c = 48 then (DIS_LEADZRO, negate, value, s)
        else if 49 \<le> c \<and> c \<le> 57 then
          let ndigs = of_int c - 48 in
          if count > 1 then
            if unat count > length umax then (DIS_OVERFLOW, False, - 1, s)
            else let (r, buf, s) = dis_gets ops s (unat count - 1) in
              if of_int r \<noteq> count - 1 then (DIS_EOD, negate, value, s)
              else if unat count = length umax \<and> memcmp_gt (char_of_int c # buf) umax
              then (DIS_OVERFLOW, False, - 1, s)
              else (case dig_loop ndigs buf of
                      None \<Rightarrow> (DIS_NONDIGIT, negate, value, s)
                    | Some ndigs \<Rightarrow> disrs' ops early umax (Suc recursv) ndigs s negate value)
          else disrs' ops early umax (Suc recursv) ndigs s negate value
        else if c = - 1 then (DIS_EOD, negate, value, s)
        else if c = - 2 then (DIS_EOF, negate, value, s)
        else (DIS_NONDIGIT, negate, value, s))"
  by pat_completeness auto
termination
  by (relation "measure (\<lambda>(ops, e, u, recursv, c, s, n, v). DIS_RECURSIVE_LIMIT - recursv)") auto

declare disrs'.simps [simp del]

definition disrsi' :: "'s dis_ops \<Rightarrow> 's \<Rightarrow> bool \<Rightarrow> uint \<Rightarrow> int \<times> bool \<times> uint \<times> 's" where
  "disrsi' ops s negate value = disrs' ops True dis_umax 0 1 s negate value"

definition disrsl' :: "'s dis_ops \<Rightarrow> 's \<Rightarrow> bool \<Rightarrow> ulong \<Rightarrow> int \<times> bool \<times> ulong \<times> 's" where
  "disrsl' ops s negate value = disrs' ops False ulmax 0 1 s negate value"

definition disrsll' :: "'s dis_ops \<Rightarrow> 's \<Rightarrow> bool \<Rightarrow> ulong \<Rightarrow> int \<times> bool \<times> ulong \<times> 's" where
  "disrsll' ops s negate value = disrs' ops True ulmax 0 1 s negate value"

text \<open>The common last lines of the readers: \<open>*retval = (disr_commit(...) < 0) ? DIS_NOCOMMIT : locret\<close>.\<close>

definition disr_finish :: "'s dis_ops \<Rightarrow> int \<times> 'v \<times> 's \<Rightarrow> int \<times> 'v \<times> 's" where
  "disr_finish ops = (\<lambda>(locret, value, s).
     let (r, s) = disr_commit ops s (locret = DIS_SUCCESS)
     in (if r < 0 then DIS_NOCOMMIT else locret, value, s))"

definition disrui :: "'s dis_ops \<Rightarrow> 's \<Rightarrow> int \<times> uint \<times> 's" where
  "disrui ops s =
     (let (locret, negate, value, s) = disrsi' ops s False 0
      in disr_finish ops
           (if locret \<noteq> DIS_SUCCESS then (locret, 0, s)
            else if negate then (DIS_BADSIGN, 0, s)
            else (locret, value, s)))"

definition disrul :: "'s dis_ops \<Rightarrow> 's \<Rightarrow> int \<times> ulong \<times> 's" where
  "disrul ops s =
     (let (locret, negate, value, s) = disrsl' ops s False 0
      in disr_finish ops
           (if locret \<noteq> DIS_SUCCESS then (locret, 0, s)
            else if negate then (DIS_BADSIGN, 0, s)
            else (locret, value, s)))"

definition disrull :: "'s dis_ops \<Rightarrow> 's \<Rightarrow> int \<times> ulong \<times> 's" where
  "disrull ops s =
     (let (locret, negate, value, s) = disrsll' ops s False 0
      in disr_finish ops
           (if locret \<noteq> DIS_SUCCESS then (locret, 0, s)
            else if negate then (DIS_BADSIGN, 0, s)
            else (locret, value, s)))"

definition disrus :: "'s dis_ops \<Rightarrow> 's \<Rightarrow> int \<times> 16 word \<times> 's" where
  "disrus ops s =
     (let (locret, negate, value, s) = disrsi' ops s False 0;
          (locret, value, s) =
            (if locret \<noteq> DIS_SUCCESS then (locret, 0, s)
             else if negate then (DIS_BADSIGN, 0, s)
             else if value > 0xFFFF then (DIS_OVERFLOW, 0xFFFF, s)
             else (locret, value, s))
      in disr_finish ops (locret, ucast value, s))"

definition disruc :: "'s dis_ops \<Rightarrow> 's \<Rightarrow> int \<times> 8 word \<times> 's" where
  "disruc ops s =
     (let (locret, negate, value, s) = disrsi' ops s False 0;
          (locret, value, s) =
            (if locret \<noteq> DIS_SUCCESS then (locret, 0, s)
             else if negate then (DIS_BADSIGN, 0, s)
             else if value > 0xFF then (DIS_OVERFLOW, 0xFF, s)
             else (locret, value, s))
      in disr_finish ops (locret, ucast value, s))"

text \<open>
  The signed readers. \<open>(unsigned)-(INT_MIN + 1) + 1\<close> is \<open>0x80000000\<close>. The
  \<open>switch\<close> falls through from a value out of range into the overflow case.
  In \<open>disrsc\<close> and \<open>disrss\<close> the test is \<open>-uvalue >= SCHAR_MIN\<close>,
  where both sides are converted to \<open>unsigned\<close>.
\<close>

definition disrsi :: "'s dis_ops \<Rightarrow> bool \<Rightarrow> 's \<Rightarrow> int \<times> uint \<times> 's" where
  "disrsi ops neg0 s =
     (let (locret, negate, uvalue, s) = disrsi' ops s neg0 0;
          out = (if negate then 0x80000000 else 0x7FFFFFFF)
      in disr_finish ops
           (if locret = DIS_SUCCESS then
              if (if negate then uvalue \<le> 0x80000000 else uvalue \<le> 0x7FFFFFFF)
              then (locret, if negate then - uvalue else uvalue, s)
              else (DIS_OVERFLOW, out, s)
            else if locret = DIS_OVERFLOW then (locret, out, s)
            else (locret, 0, s)))"

definition disrsl :: "'s dis_ops \<Rightarrow> bool \<Rightarrow> 's \<Rightarrow> int \<times> ulong \<times> 's" where
  "disrsl ops neg0 s =
     (let (locret, negate, uvalue, s) = disrsl' ops s neg0 0;
          out = (if negate then 0x8000000000000000 else 0x7FFFFFFFFFFFFFFF)
      in disr_finish ops
           (if locret = DIS_SUCCESS then
              if (if negate then uvalue \<le> 0x8000000000000000 else uvalue \<le> 0x7FFFFFFFFFFFFFFF)
              then (locret, if negate then - uvalue else uvalue, s)
              else (DIS_OVERFLOW, out, s)
            else if locret = DIS_OVERFLOW then (locret, out, s)
            else (locret, 0, s)))"

definition disrss :: "'s dis_ops \<Rightarrow> bool \<Rightarrow> 's \<Rightarrow> int \<times> 16 word \<times> 's" where
  "disrss ops neg0 s =
     (let (locret, negate, uvalue, s) = disrsi' ops s neg0 0;
          out = (if negate then 0x8000 else 0x7FFF)
      in disr_finish ops
           (if locret = DIS_SUCCESS then
              if (if negate then - uvalue \<ge> of_int (- 32768) else uvalue \<le> 0x7FFF)
              then (locret, ucast (if negate then - uvalue else uvalue), s)
              else (DIS_OVERFLOW, out, s)
            else if locret = DIS_OVERFLOW then (locret, out, s)
            else (locret, 0, s)))"

definition disrsc :: "'s dis_ops \<Rightarrow> bool \<Rightarrow> 's \<Rightarrow> int \<times> 8 word \<times> 's" where
  "disrsc ops neg0 s =
     (let (locret, negate, uvalue, s) = disrsi' ops s neg0 0;
          out = (if negate then 0x80 else 0x7F)
      in disr_finish ops
           (if locret = DIS_SUCCESS then
              if (if negate then - uvalue \<ge> of_int (- 128) else uvalue \<le> 0x7F)
              then (locret, ucast (if negate then - uvalue else uvalue), s)
              else (DIS_OVERFLOW, out, s)
            else if locret = DIS_OVERFLOW then (locret, out, s)
            else (locret, 0, s)))"

text \<open>
  String readers. \<open>disrst\<close> and \<open>disrcs\<close> allocate; \<open>disrfst\<close> and
  \<open>disrfcs\<close> fill a caller's array of \<open>achars\<close> bytes. A pointer result is an
  \<open>option\<close>. For \<open>disrfst\<close> the value is the memory image it leaves from
  \<open>value\<close> on: the \<open>count\<close> characters and the terminator on success, that is
  \<open>achars + 1\<close> bytes for a count of \<open>achars\<close>; on failure the characters copied so
  far with the first one overwritten by a terminator. The embedded-NUL test of \<open>disrst\<close> and
  \<open>disrfst\<close> is compiled in unless \<open>NDEBUG\<close> is set; no build file sets it.
\<close>

definition disrst :: "'s dis_ops \<Rightarrow> 's \<Rightarrow> int \<times> string option \<times> 's" where
  "disrst ops s =
     (let (locret, negate, count, s) = disrsi' ops s False 0;
          (locret, value, s) =
            (if locret = DIS_SUCCESS then
               if negate then (DIS_BADSIGN, None, s)
               else let (ok, s) = c_malloc ops s (unat count + 1) in
                 if \<not> ok then (DIS_NOMALLOC, None, s)
                 else let (r, buf, s) = dis_gets ops s (unat count) in
                   if (of_int r :: ulong) \<noteq> ucast count then (DIS_PROTO, Some buf, s)
                   else if NUL \<in> set buf then (DIS_NULLSTR, Some buf, s)
                   else (locret, Some buf, s)
             else (locret, None, s));
          (locret, value, s) = disr_finish ops (locret, value, s)
      in (locret, if locret \<noteq> DIS_SUCCESS then None else value, s))"

definition disrcs :: "'s dis_ops \<Rightarrow> bool \<Rightarrow> 's \<Rightarrow> int \<times> (string option \<times> nat) \<times> 's" where
  "disrcs ops neg0 s =
     (let (locret, negate, count, s) = disrsi' ops s neg0 0;
          locret = (if negate then DIS_BADSIGN else locret);
          (locret, value, s) =
            (if locret = DIS_SUCCESS then
               let (ok, s) = c_malloc ops s (unat count + 1) in
                 if \<not> ok then (DIS_NOMALLOC, None, s)
                 else let (r, buf, s) = dis_gets ops s (unat count) in
                   if (of_int r :: ulong) \<noteq> ucast count then (DIS_PROTO, Some buf, s)
                   else (locret, Some buf, s)
             else (locret, None, s));
          (locret, value, s) = disr_finish ops (locret, value, s)
      in if locret \<noteq> DIS_SUCCESS \<and> value \<noteq> None then (locret, (None, 0), s)
         else (locret, (value, unat count), s))"

definition disrfst :: "'s dis_ops \<Rightarrow> nat \<Rightarrow> 's \<Rightarrow> int \<times> string \<times> 's" where
  "disrfst ops achars s =
     (let (locret, negate, count, s) = disrsi' ops s False 0;
          (locret, value, s) =
            (if locret = DIS_SUCCESS then
               if negate then (DIS_BADSIGN, [], s)
               else if unat count > achars then (DIS_OVERFLOW, [], s)
               else let (r, buf, s) = dis_gets ops s (unat count) in
                 if (of_int r :: ulong) \<noteq> ucast count then (DIS_PROTO, buf, s)
                 else if NUL \<in> set buf then (DIS_NULLSTR, buf, s)
                 else (locret, buf @ [NUL], s)
             else (locret, [], s));
          (r, s) = disr_commit ops s (locret = DIS_SUCCESS);
          locret = (if r \<noteq> 0 then DIS_NOCOMMIT else locret)
      in (locret, if locret \<noteq> DIS_SUCCESS then NUL # tl value else value, s))"

definition disrfcs :: "'s dis_ops \<Rightarrow> nat \<Rightarrow> 's \<Rightarrow> int \<times> (nat \<times> string) \<times> 's" where
  "disrfcs ops achars s =
     (let (locret, negate, count, s) = disrsi' ops s False 0;
          (locret, value, s) =
            (if locret = DIS_SUCCESS then
               if negate then (DIS_BADSIGN, [], s)
               else if unat count > achars then (DIS_OVERFLOW, [], s)
               else let (r, buf, s) = dis_gets ops s (unat count) in
                 if (of_int r :: ulong) \<noteq> ucast count then (DIS_PROTO, buf, s)
                 else (locret, buf, s)
             else (locret, [], s));
          (r, s) = disr_commit ops s (locret = DIS_SUCCESS);
          locret = (if r \<noteq> 0 then DIS_NOCOMMIT else locret)
      in (locret, (if locret \<noteq> DIS_SUCCESS then 0 else unat count, value), s))"

end
