(* ===== verification/Dis_Laws.thy ===== *)
theory Dis_Laws
  imports Dis
begin

text \<open>
  The contract of a DIS transport and what the DIS routines guarantee over it.

  \<open>dis_stream\<close> states the safety laws: what each transport operation may do to the
  characters already read since the last commit (\<open>taken\<close>), the characters that can be
  read next (\<open>avail\<close>), the committed output (\<open>outp\<close>) and the output not yet
  committed (\<open>pend\<close>). From them follow the facts that hold on every path, errors
  included: a failed read puts its characters back, a successful one consumed exactly one
  well-formed numeral. \<open>Dis_Live\<close> adds what it takes for reads and writes to succeed.
\<close>

section \<open>The wire format\<close>

text \<open>
  Numerals on the wire: a chain of counts, the sign, the digits. The chain is empty for one
  digit, the number of digits for two to nine of them, and that number preceded by its own
  length \<open>2\<close> from ten digits on.
\<close>

definition wire_counts :: "nat \<Rightarrow> string" where
  "wire_counts k = (if k \<le> 1 then [] else if k \<le> 9 then dec_str k else dec_str 2 @ dec_str k)"

definition wire_num :: "char \<Rightarrow> nat \<Rightarrow> string" where
  "wire_num c v = wire_counts (length (dec_str v)) @ c # dec_str v"

abbreviation wire_u :: "nat \<Rightarrow> string" where
  "wire_u v \<equiv> wire_num CHR ''+'' v"

definition wire_s :: "int \<Rightarrow> string" where
  "wire_s i = (if i < 0 then wire_num CHR ''-'' (nat (- i)) else wire_u (nat i))"

definition wire_cs :: "string \<Rightarrow> string" where
  "wire_cs s = wire_u (length s) @ s"

lemma length_dec_str_1: "k \<le> 9 \<Longrightarrow> length (dec_str k) = 1"
  by (subst dec_str_rec) simp

lemma length_dec_str_2: "9 < k \<Longrightarrow> k \<le> 99 \<Longrightarrow> length (dec_str k) = 2"
  by (subst dec_str_rec, subst dec_str_rec) simp

lemma dec_digits_dec_str: "dec_digits v cp = dec_str v @ cp"
  by (subst dec_digits_append) (simp add: dec_str_def)

lemma discui'_eq: "discui' cp v = (dec_str (unat v) @ cp, of_nat (length (dec_str (unat v))))"
  by (simp add: discui'_def dec_digits_dec_str)

lemma discul'_eq: "discul' cp v = (dec_str (unat v) @ cp, of_nat (length (dec_str (unat v))))"
  by (simp add: discul'_def dec_digits_dec_str)

lemma discull'_eq: "discull' cp v = (dec_str (unat v) @ cp, of_nat (length (dec_str (unat v))))"
  by (simp add: discull'_def dec_digits_dec_str)

lemma dis_counts_step:
  "k \<le> 99 \<Longrightarrow> dis_counts cp (of_nat k) =
     (if k > 1 then dis_counts (dec_str k @ cp) (of_nat (length (dec_str k))) else cp)"
  by (subst dis_counts.simps) (simp add: discui'_eq word_less_nat_alt unat_of_nat_small)

lemma dis_counts_eq:
  assumes "k \<le> 99"
  shows "dis_counts cp (of_nat k) = wire_counts k @ cp"
proof -
  consider "k \<le> 1" | "1 < k" "k \<le> 9" | "9 < k" by linarith
  then show ?thesis
  proof cases
    case 1
    then show ?thesis using assms by (simp add: dis_counts_step wire_counts_def)
  next
    case 2
    then have "dis_counts (dec_str k @ cp) (of_nat 1) = dec_str k @ cp"
      by (subst dis_counts_step) simp_all
    with 2 show ?thesis
      using dis_counts_step [OF assms, of cp] by (simp add: wire_counts_def length_dec_str_1)
  next
    case 3
    have "dis_counts (dec_str 2 @ dec_str k @ cp) (of_nat 1) = dec_str 2 @ dec_str k @ cp"
      by (subst dis_counts_step) simp_all
    then have "dis_counts (dec_str k @ cp) (of_nat 2) = dec_str 2 @ dec_str k @ cp"
      by (subst dis_counts_step) (simp_all add: length_dec_str_1)
    with 3 show ?thesis
      using dis_counts_step [OF assms, of cp] assms by (simp add: wire_counts_def length_dec_str_2)
  qed
qed

lemma dis_counts_uint: "dis_counts (c # dec_str (unat v)) (of_nat (length (dec_str (unat (v :: uint))))) = wire_num c (unat v)"
  using dec_str_uint_length [of v] by (simp add: dis_counts_eq wire_num_def)

lemma dis_counts_ulong: "dis_counts (c # dec_str (unat v)) (of_nat (length (dec_str (unat (v :: ulong))))) = wire_num c (unat v)"
  using dec_str_ulong_length [of v] by (simp add: dis_counts_eq wire_num_def)

lemma wire_s_word:
  "wire_s (sint v) = (if sint v < 0 then wire_num CHR ''-'' (unat (- v)) else wire_u (unat v))"
  by (simp add: wire_s_def unat_of_sint_nonneg unat_minus_sint_neg)

lemma wire_counts_length: "k \<le> 99 \<Longrightarrow> length (wire_counts k) \<le> 3"
  by (auto simp: wire_counts_def length_dec_str_1 length_dec_str_2)

lemma wire_num_length:
  "v < 2 ^ 64 \<Longrightarrow> length (wire_num c v) \<le> 24"
proof -
  assume "v < 2 ^ 64"
  then have "v < 10 ^ 20" by simp
  then have *: "length (dec_str v) \<le> 20" by (subst dec_str_length_pow) simp_all
  then have "length (wire_counts (length (dec_str v))) \<le> 3"
    by (intro wire_counts_length) simp
  with * show ?thesis by (simp add: wire_num_def)
qed

section \<open>The digit loop\<close>

lemma dig_loop_digits:
  "\<forall>c \<in> set ds. is_digit c \<Longrightarrow>
   dig_loop (of_nat a) ds = Some (of_nat (a * 10 ^ length ds + dec_val ds) :: 'a::len word)"
proof (induction ds arbitrary: a)
  case (Cons c ds)
  then have d: "is_digit c" by simp
  have c: "48 \<le> uchar c" "schar c = int (uchar c)" "\<not> schar c < 48" "\<not> schar c > 57"
    using d schar_is_digit [of c] is_digit_schar [OF d] by (simp_all add: is_digit_def)
  have *: "10 * of_nat a + of_int (schar c) - 48 = (of_nat (10 * a + (uchar c - 48)) :: 'a word)"
    using c(1,2) by (simp add: of_nat_diff)
  have "dig_loop (of_nat a) (c # ds) = dig_loop (of_nat (10 * a + (uchar c - 48)) :: 'a word) ds"
    using c(3,4) by (simp only: dig_loop.simps * if_False simp_thms)
  also have "\<dots> = Some (of_nat ((10 * a + (uchar c - 48)) * 10 ^ length ds + dec_val ds))"
    using Cons by (intro Cons.IH) simp
  also have "(10 * a + (uchar c - 48)) * 10 ^ length ds + dec_val ds =
      a * 10 ^ length (c # ds) + dec_val (c # ds)"
    by (simp add: dec_val_Cons add_mult_distrib)
  finally show ?case .
qed (simp add: dec_val_def)

lemma dig_loop_sound: "dig_loop v ds = Some w \<Longrightarrow> \<forall>c \<in> set ds. is_digit c"
  by (induction ds arbitrary: v) (auto simp: schar_is_digit split: if_splits)

lemma dig_loop_0:
  "dig_loop 0 ds = Some (w :: 'a::len word) \<longleftrightarrow> (\<forall>c \<in> set ds. is_digit c) \<and> w = of_nat (dec_val ds)"
  using dig_loop_digits [of ds 0, where ?'a = 'a] dig_loop_sound [of 0 ds w] by fastforce

lemma dis_umax_eq: "dis_umax = dec_str (2 ^ 32 - 1)"
  by (simp add: dis_umax_def discui'_eq unsigned_minus_1_eq_mask mask_eq_exp_minus_1)

lemma ulmax_eq: "ulmax = dec_str (2 ^ 64 - 1)"
  by (simp add: ulmax_def discull'_eq unsigned_minus_1_eq_mask mask_eq_exp_minus_1)

text \<open>What the readers need of the table entry for a width: the greatest value's digits.\<close>

definition umax_for :: "'a::len itself \<Rightarrow> string \<Rightarrow> bool" where
  "umax_for _ umax \<longleftrightarrow> umax = dec_str (2 ^ LENGTH('a) - 1) \<and> 200 < (2::nat) ^ LENGTH('a)
     \<and> length umax \<le> 99"

lemma umax_for_uint: "umax_for TYPE(32) dis_umax"
proof -
  have "length (dec_str (2 ^ 32 - 1)) \<le> 10" by (subst dec_str_length_pow) simp_all
  then show ?thesis by (simp add: umax_for_def dis_umax_eq)
qed

lemma umax_for_ulong: "umax_for TYPE(64) ulmax"
proof -
  have "length (dec_str (2 ^ 64 - 1)) \<le> 20" by (subst dec_str_length_pow) simp_all
  then show ?thesis by (simp add: umax_for_def ulmax_eq)
qed

lemma dec_str_length_mono: "v \<le> w \<Longrightarrow> length (dec_str v) \<le> length (dec_str w)"
proof -
  assume "v \<le> w"
  have "0 < length (dec_str w)" by simp
  then have "w < 10 ^ length (dec_str w)" using dec_str_length_pow by blast
  with \<open>v \<le> w\<close> show ?thesis by (subst dec_str_length_pow) simp_all
qed

lemma memcmp_gt_dec_str:
  "length (dec_str v) = length (dec_str w) \<Longrightarrow> memcmp_gt (dec_str v) (dec_str w) \<longleftrightarrow> w < v"
  by (subst memcmp_gt_dec_val) (auto simp: dec_str_digits)

text \<open>The text of a numeral: counts, the sign, the digits of the value.\<close>

definition num_form :: "char \<Rightarrow> nat \<Rightarrow> string \<Rightarrow> bool" where
  "num_form sg v x \<longleftrightarrow> (\<exists>cs ds. x = cs @ sg # ds \<and> (\<forall>c \<in> set cs. is_digit c) \<and>
     (\<forall>c \<in> set ds. is_digit c) \<and> v = dec_val ds)"

text \<open>The text of a counted string.\<close>

definition str_form :: "string \<Rightarrow> string \<Rightarrow> bool" where
  "str_form v x \<longleftrightarrow> (\<exists>h. x = h @ v \<and> num_form CHR ''+'' (length v) h)"

definition sint_form :: "'a::len word \<Rightarrow> string \<Rightarrow> bool" where
  "sint_form v x \<longleftrightarrow> (\<exists>n. num_form CHR ''+'' n x \<and> sint v = int n \<or> num_form CHR ''-'' n x \<and> sint v = - int n)"

text \<open>How the result of \<open>dis_gets\<close> compares with a small requested count.\<close>

lemma gets_result_ok:
  "n \<le> 99 \<Longrightarrow> of_int (sint (of_nat n :: uint)) = (of_nat n :: 'a::len word)"
proof -
  assume n: "n \<le> 99"
  have "sint (of_nat n :: uint) = int n"
    using n by (simp add: sint_of_nat_uint)
  then show ?thesis by simp
qed

lemma gets_result_fail:
  assumes "n \<le> 99" "0 < n" "200 < (2::nat) ^ LENGTH('a)" "r \<in> {0, - 1, - 2}"
  shows "of_int r \<noteq> (of_nat n :: 'a::len word)"
proof
  assume *: "of_int r = (of_nat n :: 'a::len word)"
  define M :: int where "M = 2 ^ LENGTH('a)"
  have "int 200 < int (2 ^ LENGTH('a))" using assms(3) by (simp only: of_nat_less_iff)
  then have M: "200 < M" by (simp add: M_def)
  from * have "uint (of_int r :: 'a word) = uint (of_nat n :: 'a word)" by simp
  then have eq: "r mod M = int n mod M"
    by (simp add: M_def uint_word_of_int unsigned_of_nat take_bit_eq_mod zmod_int)
  have n: "int n mod M = int n" using assms(1) M by simp
  have "(- 1) mod M = M - 1" using M by (simp add: zmod_minus1)
  moreover have "(- 2) mod M = M - 2"
    using M mod_pos_pos_trivial [of "M - 2" M] mod_add_self2 [of "- 2" M] by simp
  ultimately show False using eq n assms M by auto
qed

lemma dec_val_fits:
  assumes umax: "umax_for TYPE('a::len) umax"
    and len: "length ds \<le> length umax"
    and digits: "\<forall>c \<in> set ds. is_digit c"
    and cmp: "\<not> (length ds = length umax \<and> memcmp_gt ds umax)"
  shows "dec_val ds < 2 ^ LENGTH('a)"
proof (cases "length ds = length umax")
  case True
  have "\<not> dec_val umax < dec_val ds"
    using cmp True umax memcmp_gt_dec_val [OF True digits]
    by (auto simp: umax_for_def dec_str_digits)
  then show ?thesis using umax by (simp add: umax_for_def not_less less_eq_Suc_le)
next
  case False
  then have lt: "length ds < length umax" using len by simp
  have "dec_val ds < 10 ^ length ds" using dec_val_less [OF digits] .
  show ?thesis
  proof (cases "length ds = 0")
    case True
    then show ?thesis by (simp add: dec_val_def)
  next
    case False
    then have "\<not> (2::nat) ^ LENGTH('a) - 1 < 10 ^ length ds"
      using lt umax dec_str_length_pow [of "length ds" "2 ^ LENGTH('a) - 1"]
      by (simp add: umax_for_def)
    then show ?thesis using \<open>dec_val ds < 10 ^ length ds\<close> by simp
  qed
qed

section \<open>The transport contract\<close>

locale dis_stream =
  fixes ops :: "'s dis_ops"
    and invar :: "'s \<Rightarrow> bool"
    and taken :: "'s \<Rightarrow> string"
    and avail :: "'s \<Rightarrow> string"
    and outp :: "'s \<Rightarrow> string"
    and pend :: "'s \<Rightarrow> string"
  assumes getc_law: "invar s \<Longrightarrow> dis_getc ops s = (c, s') \<Longrightarrow>
      invar s' \<and> outp s' = outp s \<and> pend s' = pend s \<and>
      ((\<exists>ch. c = schar ch \<and> avail s = ch # avail s' \<and> taken s' = taken s @ [ch])
       \<or> (c \<in> {- 1, - 2} \<and> taken s' = taken s \<and> prefix (avail s) (avail s')))"
    and gets_law: "invar s \<Longrightarrow> dis_gets ops s n = (r, x, s') \<Longrightarrow>
      invar s' \<and> outp s' = outp s \<and> pend s' = pend s \<and>
      ((r = sint (of_nat n :: uint) \<and> length x = n \<and> avail s = x @ avail s' \<and> taken s' = taken s @ x)
       \<or> (r \<in> {0, - 1, - 2} \<and> 0 < n \<and> taken s' = taken s \<and> prefix (avail s) (avail s')))"
    and rcommit_law: "invar s \<Longrightarrow> disr_commit ops s b = (r, s') \<Longrightarrow>
      r = 0 \<and> invar s' \<and> outp s' = outp s \<and> pend s' = pend s \<and> taken s' = [] \<and>
      avail s' = (if b then avail s else taken s @ avail s)"
    and puts_law: "invar s \<Longrightarrow> dis_puts ops s str = (r, s') \<Longrightarrow>
      invar s' \<and> taken s' = taken s \<and> avail s' = avail s \<and>
      ((r = sint (of_nat (length str) :: uint) \<and> outp s' = outp s \<and> pend s' = pend s @ str)
       \<or> (r = - 1 \<and> pend s' = pend s))"
    and wcommit_law: "invar s \<Longrightarrow> disw_commit ops s b = (r, s') \<Longrightarrow>
      r = 0 \<and> invar s' \<and> taken s' = taken s \<and> avail s' = avail s \<and> pend s' = [] \<and>
      outp s' = outp s @ (if b then pend s else [])"
    and malloc_law: "invar s \<Longrightarrow> c_malloc ops s n = (ok, s') \<Longrightarrow>
      invar s' \<and> taken s' = taken s \<and> avail s' = avail s \<and> outp s' = outp s \<and> pend s' = pend s"
begin

text \<open>
  One reading step from \<open>s\<close> to \<open>t\<close>: the characters \<open>x\<close> moved from what was
  readable to what can be put back. After a failure more may have become readable, so only
  the prefix is kept; after a success nothing else was consumed.
\<close>

definition moved :: "'s \<Rightarrow> 's \<Rightarrow> string \<Rightarrow> bool" where
  "moved s t x \<longleftrightarrow> invar t \<and> outp t = outp s \<and> pend t = pend s \<and> taken t = taken s @ x
     \<and> prefix (avail s) (x @ avail t)"

definition moved_exact :: "'s \<Rightarrow> 's \<Rightarrow> string \<Rightarrow> bool" where
  "moved_exact s t x \<longleftrightarrow> invar t \<and> outp t = outp s \<and> pend t = pend s \<and> taken t = taken s @ x
     \<and> avail s = x @ avail t"

lemma moved_refl: "invar s \<Longrightarrow> moved_exact s s []"
  by (simp add: moved_exact_def)

lemma moved_exact_moved: "moved_exact s t x \<Longrightarrow> moved s t x"
  by (simp add: moved_def moved_exact_def)

lemma moved_exact_trans: "moved_exact s t x \<Longrightarrow> moved_exact t u y \<Longrightarrow> moved_exact s u (x @ y)"
  by (simp add: moved_exact_def)

lemma moved_trans: "moved_exact s t x \<Longrightarrow> moved t u y \<Longrightarrow> moved s u (x @ y)"
  by (auto simp: moved_def moved_exact_def)

lemma moved_invar: "moved s t x \<Longrightarrow> invar t"
  by (simp add: moved_def)

lemma moved_exact_invar: "moved_exact s t x \<Longrightarrow> invar t"
  by (simp add: moved_exact_def)

lemma getc_cases [consumes 2, case_names char fail]:
  assumes "invar s" "dis_getc ops s = (c, s')"
  obtains (char) ch where "c = schar ch" "moved_exact s s' [ch]"
  | (fail) "c \<in> {- 1, - 2}" "moved s s' []"
  using getc_law [OF assms] by (auto simp: moved_def moved_exact_def)

lemma gets_cases [consumes 2, case_names chars fail]:
  assumes "invar s" "dis_gets ops s n = (r, x, s')"
  obtains (chars) "r = sint (of_nat n :: uint)" "length x = n" "moved_exact s s' x"
  | (fail) "r \<in> {0, - 1, - 2}" "0 < n" "moved s s' []"
  using gets_law [OF assms] by (auto simp: moved_def moved_exact_def)

lemma malloc_moved:
  assumes "invar s" "c_malloc ops s n = (ok, s')"
  shows "moved_exact s s' []"
  using malloc_law [OF assms] by (simp add: moved_exact_def)

text \<open>
  What a completed call of a number reader has done: the characters \<open>x\<close> were consumed and
  can be put back; on success they are counts, a sign and the digits of the value returned, and
  the value did not wrap.
\<close>

definition num_read :: "'s \<Rightarrow> int \<times> bool \<times> 'a::len word \<times> 's \<Rightarrow> bool" where
  "num_read s = (\<lambda>(rc, neg, v, s').
     (\<exists>x. moved s s' x) \<and>
     (rc = DIS_SUCCESS \<longrightarrow> (\<exists>cs sg ds. moved_exact s s' (cs @ sg # ds) \<and> (\<forall>c \<in> set cs. is_digit c) \<and>
        sg \<in> {CHR ''+'', CHR ''-''} \<and> neg = (sg = CHR ''-'') \<and> (\<forall>c \<in> set ds. is_digit c) \<and>
        unat v = dec_val ds)))"

lemma num_read_fail: "moved s s' x \<Longrightarrow> rc \<noteq> 0 \<Longrightarrow> num_read s (rc, neg, v, s')"
  by (auto simp: num_read_def)

lemma num_readI:
  assumes "moved_exact s s' (cs @ sg # ds)" "\<forall>c \<in> set cs. is_digit c"
    "sg \<in> {CHR ''+'', CHR ''-''}" "neg = (sg = CHR ''-'')" "\<forall>c \<in> set ds. is_digit c" "unat v = dec_val ds"
  shows "num_read s (rc, neg, v, s')"
  using assms moved_exact_moved [OF assms(1)] unfolding num_read_def by blast

lemma num_read_step:
  assumes "moved_exact s t x" "\<forall>c \<in> set x. is_digit c" "num_read t res"
  shows "num_read s res"
proof -
  obtain rc neg v s' where res: "res = (rc, neg, v, s')" by (cases res)
  have "\<exists>x'. moved s s' x'"
    using assms(1,3) moved_trans by (fastforce simp: num_read_def res)
  moreover have "\<exists>cs sg ds. moved_exact s s' (cs @ sg # ds) \<and> (\<forall>c \<in> set cs. is_digit c) \<and>
        sg \<in> {CHR ''+'', CHR ''-''} \<and> neg = (sg = CHR ''-'') \<and> (\<forall>c \<in> set ds. is_digit c) \<and>
        unat v = dec_val ds" if success: "rc = 0"
  proof -
    from assms(3) success obtain cs sg ds where
      *: "moved_exact t s' (cs @ sg # ds)" "\<forall>c \<in> set cs. is_digit c" "sg \<in> {CHR ''+'', CHR ''-''}"
        "neg = (sg = CHR ''-'')" "\<forall>c \<in> set ds. is_digit c" "unat v = dec_val ds"
      by (auto simp: num_read_def res)
    have "moved_exact s s' ((x @ cs) @ sg # ds)"
      using moved_exact_trans [OF assms(1) *(1)] by simp
    then show ?thesis using assms(2) *(2-6)
      by (intro exI [of _ "x @ cs"] exI [of _ sg] exI [of _ ds]) auto
  qed
  ultimately show ?thesis by (simp add: num_read_def res)
qed

lemma sign_read:
  fixes count :: "'a::len word"
  assumes umax: "umax_for TYPE('a) umax"
    and m: "moved_exact s s1 [ch]" "ch \<in> {CHR ''+'', CHR ''-''}"
    and b: "dis_gets ops s1 (unat count) = (r, buf, s2)"
    and ok: "of_int r = count" "unat count \<le> length umax"
      "\<not> (unat count = length umax \<and> memcmp_gt buf umax)"
    and v: "dig_loop 0 buf = Some (v :: 'a word)"
  shows "num_read s (DIS_SUCCESS, ch = CHR ''-'', v, s2)"
  using moved_exact_invar [OF m(1)] b
proof (cases rule: gets_cases)
  case chars
  have digits: "\<forall>c \<in> set buf. is_digit c" and "v = of_nat (dec_val buf)"
    using v by (simp_all add: dig_loop_0)
  moreover have "dec_val buf < 2 ^ LENGTH('a)"
    using dec_val_fits [OF umax _ digits] ok chars by simp
  ultimately have "unat v = dec_val buf" by (simp add: unat_of_nat_small)
  then show ?thesis
    using moved_exact_trans [OF m(1) chars(3)] m(2) digits
    by (intro num_readI [of s s2 "[]" ch buf]) simp_all
next
  case fail
  have "200 < (2::nat) ^ LENGTH('a)" "unat count \<le> 99"
    using umax ok(2) unfolding umax_for_def by linarith+
  then show ?thesis
    using fail ok(1) gets_result_fail [of "unat count" r, where ?'a = 'a] by simp
qed

lemma count_read:
  fixes count :: "'a::len word"
  assumes umax: "umax_for TYPE('a) umax"
    and m: "moved_exact s s1 [ch]" "is_digit ch"
    and b: "dis_gets ops s1 (unat count - Suc 0) = (r, buf, s2)"
    and ok: "of_int r = count - 1" "1 < count" "unat count \<le> length umax"
    and n: "dig_loop k buf = Some (n :: 'a word)"
  shows "\<exists>x. moved_exact s s2 x \<and> (\<forall>c \<in> set x. is_digit c)"
  using moved_exact_invar [OF m(1)] b
proof (cases rule: gets_cases)
  case chars
  then show ?thesis
    using moved_exact_trans [OF m(1) chars(3)] m(2) dig_loop_sound [OF n]
    by (intro exI [of _ "ch # buf"]) simp
next
  case fail
  have "200 < (2::nat) ^ LENGTH('a)" "unat count - Suc 0 \<le> 99"
    using umax ok(3) unfolding umax_for_def by linarith+
  moreover have "of_nat (unat count - Suc 0) = count - 1"
    using ok(2) by (simp add: word_less_nat_alt)
  ultimately show ?thesis
    using fail ok(1) gets_result_fail [of "unat count - Suc 0" r, where ?'a = 'a] by simp
qed

lemma disrs'_sound:
  fixes count :: "'a::len word"
  assumes umax: "umax_for TYPE('a) umax"
  shows "invar s \<Longrightarrow> num_read s (disrs' ops early umax recursv count s neg val)"
proof (induction "DIS_RECURSIVE_LIMIT - recursv" arbitrary: recursv count s rule: less_induct)
  case less
  note inv = less.prems
  show ?case
  proof (cases "Suc recursv > DIS_RECURSIVE_LIMIT")
    case True
    then show ?thesis
      by (subst disrs'.simps)
        (simp add: num_read_fail [OF moved_exact_moved [OF moved_refl [OF inv]]])
  next
    case limit: False
    have rec: "num_read t (disrs' ops early umax (Suc recursv) k t neg val)" if "invar t" for k t
      using less.hyps [of "Suc recursv" t k] that limit by simp
    obtain c s1 where g: "dis_getc ops s = (c, s1)" by (cases "dis_getc ops s")
    from inv g show ?thesis
    proof (cases rule: getc_cases)
      case fail
      then show ?thesis
        using limit by (subst disrs'.simps) (auto simp: g num_read_fail [OF fail(2)])
    next
      case (char ch)
      note inv1 = moved_exact_invar [OF char(2)]
      note m1 = num_read_fail [OF moved_exact_moved [OF char(2)]]
      obtain r buf s2 where b: "dis_gets ops s1 (unat count) = (r, buf, s2)"
        by (cases "dis_gets ops s1 (unat count)")
      obtain r' buf' s2' where b': "dis_gets ops s1 (unat count - Suc 0) = (r', buf', s2')"
        by (cases "dis_gets ops s1 (unat count - Suc 0)")
      obtain x where m2: "moved s s2 x"
        using gets_cases [OF inv1 b] char(2) by (metis moved_exact_moved moved_trans)
      obtain x' where m2': "moved s s2' x'"
        using gets_cases [OF inv1 b'] char(2) by (metis moved_exact_moved moved_trans)
      note fails = m1 num_read_fail [OF m2] num_read_fail [OF m2']
      consider (sign) "ch \<in> {CHR ''+'', CHR ''-''}" | (digit) "49 \<le> schar ch" "schar ch \<le> 57"
        | (other) "schar ch \<noteq> 45" "schar ch \<noteq> 43" "\<not> (49 \<le> schar ch \<and> schar ch \<le> 57)"
        using schar_eq_iff [of ch "CHR ''+''"] schar_eq_iff [of ch "CHR ''-''"] by auto
      then show ?thesis
      proof cases
        case sign
        then have c: "c = 45 \<or> c = 43" "c = 45 \<longleftrightarrow> ch = CHR ''-''" using char(1) by auto
        show ?thesis
          using limit c sign_read [OF umax char(2) sign b]
          by (subst disrs'.simps) (auto simp: g b Let_def fails split: option.splits)
      next
        case digit
        then have c: "c \<noteq> 45" "c \<noteq> 43" "c \<noteq> 48" "49 \<le> c" "c \<le> 57" using char(1) by auto
        have d: "is_digit ch" using digit by (simp add: schar_is_digit)
        have step1: "num_read s (disrs' ops early umax (Suc recursv) k s1 neg val)" for k
          using num_read_step [OF char(2) _ rec [OF inv1]] d by simp
        have step2: "num_read s (disrs' ops early umax (Suc recursv) n s2' neg val)"
          if "of_int r' = count - 1" "1 < count" "unat count \<le> length umax" "dig_loop k buf' = Some n" for k n
          using count_read [OF umax char(2) d b' that] num_read_step rec moved_exact_invar by blast
        show ?thesis
          using limit c step2
          by (subst disrs'.simps) (auto simp: g b' Let_def fails step1 split: option.splits)
      next
        case other
        then show ?thesis
          using limit char(1) by (subst disrs'.simps) (auto simp: g Let_def fails)
      qed
    qed
  qed
qed

subsection \<open>Completed reads\<close>

text \<open>
  \<open>read_done P s res\<close>: the public reader ended with \<open>res\<close>, having started in
  \<open>s\<close>. A failure has put every character back; a success consumed a text that stands
  in the relation \<open>P\<close> to the value.
\<close>

definition read_done :: "('v \<Rightarrow> string \<Rightarrow> bool) \<Rightarrow> 's \<Rightarrow> int \<times> 'v \<times> 's \<Rightarrow> bool" where
  "read_done P s = (\<lambda>(rc, v, t). invar t \<and> outp t = outp s \<and> pend t = pend s \<and> taken t = [] \<and>
     (rc \<noteq> DIS_SUCCESS \<longrightarrow> prefix (avail s) (avail t)) \<and>
     (rc = DIS_SUCCESS \<longrightarrow> (\<exists>x. avail s = x @ avail t \<and> P v x)))"

lemma rcommit_fail:
  assumes "moved s t x" "taken s = []" "disr_commit ops t False = (r, u)"
  shows "r = 0 \<and> invar u \<and> outp u = outp s \<and> pend u = pend s \<and> taken u = [] \<and> prefix (avail s) (avail u)"
  using rcommit_law [OF moved_invar [OF assms(1)] assms(3)] assms by (simp add: moved_def)

lemma rcommit_ok:
  assumes "moved_exact s t x" "taken s = []" "disr_commit ops t True = (r, u)"
  shows "r = 0 \<and> invar u \<and> outp u = outp s \<and> pend u = pend s \<and> taken u = [] \<and> avail s = x @ avail u"
  using rcommit_law [OF moved_exact_invar [OF assms(1)] assms(3)] assms by (simp add: moved_exact_def)

lemma disr_finish_fail:
  assumes "moved s t x" "taken s = []" "rc \<noteq> 0"
  shows "read_done P s (disr_finish ops (rc, v, t))"
  using rcommit_fail [OF assms(1,2)] assms(3)
  by (auto simp: disr_finish_def read_done_def split: prod.splits)

lemma disr_finish_ok:
  assumes "moved_exact s t x" "taken s = []" "P v x"
  shows "read_done P s (disr_finish ops (0, v, t))"
  using rcommit_ok [OF assms(1,2)] assms(3)
  by (auto simp: disr_finish_def read_done_def split: prod.splits)

lemma num_read_cases:
  assumes "num_read s (rc, neg, v, t)"
  shows "(\<exists>x. moved s t x) \<and> (rc = 0 \<longrightarrow> (\<exists>x. moved_exact s t x \<and>
      num_form (if neg then CHR ''-'' else CHR ''+'') (unat v) x))"
  using assms unfolding num_read_def num_form_def by (auto split: if_splits) blast+

lemmas num_sound_uint = disrs'_sound [OF umax_for_uint]
lemmas num_sound_ulong = disrs'_sound [OF umax_for_ulong]

lemma disrsi'_cases:
  assumes "invar s" "disrsi' ops s neg0 v0 = (rc, neg, v, t)"
  shows "(\<exists>x. moved s t x) \<and> (rc = 0 \<longrightarrow> (\<exists>x. moved_exact s t x \<and>
      num_form (if neg then CHR ''-'' else CHR ''+'') (unat v) x))"
  by (rule num_read_cases [of s rc neg v t])
    (use num_sound_uint [OF assms(1), of True 0 1 neg0 v0] assms(2) in \<open>simp add: disrsi'_def\<close>)

lemma disrsl'_cases:
  assumes "invar s" "disrsl' ops s neg0 v0 = (rc, neg, v, t)"
  shows "(\<exists>x. moved s t x) \<and> (rc = 0 \<longrightarrow> (\<exists>x. moved_exact s t x \<and>
      num_form (if neg then CHR ''-'' else CHR ''+'') (unat v) x))"
  by (rule num_read_cases [of s rc neg v t])
    (use num_sound_ulong [OF assms(1), of False 0 1 neg0 v0] assms(2) in \<open>simp add: disrsl'_def\<close>)

lemma disrsll'_cases:
  assumes "invar s" "disrsll' ops s neg0 v0 = (rc, neg, v, t)"
  shows "(\<exists>x. moved s t x) \<and> (rc = 0 \<longrightarrow> (\<exists>x. moved_exact s t x \<and>
      num_form (if neg then CHR ''-'' else CHR ''+'') (unat v) x))"
  by (rule num_read_cases [of s rc neg v t])
    (use num_sound_ulong [OF assms(1), of True 0 1 neg0 v0] assms(2) in \<open>simp add: disrsll'_def\<close>)

lemma disrui_done:
  assumes "invar s" "taken s = []"
  shows "read_done (\<lambda>v. num_form CHR ''+'' (unat v)) s (disrui ops s)"
proof -
  obtain rc neg v t where e: "disrsi' ops s False 0 = (rc, neg, v, t)" by (cases "disrsi' ops s False 0")
  show ?thesis
    using disrsi'_cases [OF assms(1) e] assms(2)
    by (auto simp: disrui_def e intro: disr_finish_fail disr_finish_ok)
qed

lemma disrul_done:
  assumes "invar s" "taken s = []"
  shows "read_done (\<lambda>v. num_form CHR ''+'' (unat v)) s (disrul ops s)"
proof -
  obtain rc neg v t where e: "disrsl' ops s False 0 = (rc, neg, v, t)" by (cases "disrsl' ops s False 0")
  show ?thesis
    using disrsl'_cases [OF assms(1) e] assms(2)
    by (auto simp: disrul_def e intro: disr_finish_fail disr_finish_ok)
qed

lemma disrull_done:
  assumes "invar s" "taken s = []"
  shows "read_done (\<lambda>v. num_form CHR ''+'' (unat v)) s (disrull ops s)"
proof -
  obtain rc neg v t where e: "disrsll' ops s False 0 = (rc, neg, v, t)" by (cases "disrsll' ops s False 0")
  show ?thesis
    using disrsll'_cases [OF assms(1) e] assms(2)
    by (auto simp: disrull_def e intro: disr_finish_fail disr_finish_ok)
qed

lemma disrsi_done:
  assumes "invar s" "taken s = []"
  shows "read_done sint_form s (disrsi ops neg0 s)"
proof -
  obtain rc neg v t where e: "disrsi' ops s neg0 0 = (rc, neg, v, t)" by (cases "disrsi' ops s neg0 0")
  note m = disrsi'_cases [OF assms(1) e]
  let ?fits = "if neg then v \<le> 0x80000000 else v \<le> 0x7FFFFFFF"
  have form: "sint_form (if neg then - v else v) x"
    if "num_form (if neg then CHR ''-'' else CHR ''+'') (unat v) x" ?fits for x
    using that sint_neg_unat [of v] sint_pos_unat [of v]
    by (auto simp: sint_form_def word_le_nat_alt split: if_splits)
  consider (ok) "rc = 0" ?fits | (range) "rc = 0" "\<not> ?fits" | (fail) "rc \<noteq> 0" by blast
  then show ?thesis
  proof cases
    case ok
    with m obtain x where "moved_exact s t x" "sint_form (if neg then - v else v) x"
      using form by blast
    then show ?thesis
      using disr_finish_ok [OF _ assms(2)] ok by (cases neg) (simp_all add: disrsi_def e Let_def)
  next
    case range
    with m show ?thesis
      by (auto simp: disrsi_def e Let_def intro: disr_finish_fail [OF _ assms(2)])
  next
    case fail
    with m show ?thesis
      by (auto simp: disrsi_def e Let_def intro: disr_finish_fail [OF _ assms(2)])
  qed
qed

lemma disrsl_done:
  assumes "invar s" "taken s = []"
  shows "read_done sint_form s (disrsl ops neg0 s)"
proof -
  obtain rc neg v t where e: "disrsl' ops s neg0 0 = (rc, neg, v, t)" by (cases "disrsl' ops s neg0 0")
  note m = disrsl'_cases [OF assms(1) e]
  let ?fits = "if neg then v \<le> 0x8000000000000000 else v \<le> 0x7FFFFFFFFFFFFFFF"
  have form: "sint_form (if neg then - v else v) x"
    if "num_form (if neg then CHR ''-'' else CHR ''+'') (unat v) x" ?fits for x
    using that sint_neg_unat [of v] sint_pos_unat [of v]
    by (auto simp: sint_form_def word_le_nat_alt split: if_splits)
  consider (ok) "rc = 0" ?fits | (range) "rc = 0" "\<not> ?fits" | (fail) "rc \<noteq> 0" by blast
  then show ?thesis
  proof cases
    case ok
    with m obtain x where "moved_exact s t x" "sint_form (if neg then - v else v) x"
      using form by blast
    then show ?thesis
      using disr_finish_ok [OF _ assms(2)] ok by (cases neg) (simp_all add: disrsl_def e Let_def)
  next
    case range
    with m show ?thesis
      by (auto simp: disrsl_def e Let_def intro: disr_finish_fail [OF _ assms(2)])
  next
    case fail
    with m show ?thesis
      by (auto simp: disrsl_def e Let_def intro: disr_finish_fail [OF _ assms(2)])
  qed
qed

text \<open>
  The string readers. \<open>dis_gets\<close> is compared with the count as a \<open>size_t\<close>: for the
  64-bit comparison any count below \<open>2 ^ 32\<close> is small.
\<close>

lemma gets_ulong_fail:
  assumes "r \<in> {0, - 1, - 2}" "0 < unat (n :: uint)"
  shows "(of_int r :: ulong) \<noteq> ucast n"
proof
  assume "(of_int r :: ulong) = ucast n"
  then have "uint (of_int r :: ulong) = uint (ucast n :: ulong)" by simp
  moreover have "uint n < 18446744073709551616"
    using unsigned_less [of n, where ?'a = int] by simp
  then have "uint (ucast n :: ulong) = int (unat n)"
    by (simp add: unsigned_ucast_eq take_bit_int_eq_self_iff)
  moreover have "uint (of_int r :: ulong) = r mod 2 ^ 64"
    by (simp add: uint_word_of_int)
  moreover have "0 < int (unat n)" "int (unat n) < int 4294967296"
    using assms(2) unat_uint_less [of n] by (simp_all only: of_nat_less_iff of_nat_0_less_iff)
  ultimately show False using assms(1) by auto
qed

lemma string_read:
  assumes m: "moved_exact s t x" "num_form CHR ''+'' (unat count) x"
    and b: "dis_gets ops t (unat (count :: uint)) = (r, buf, u)"
  shows "\<exists>y. moved s u y"
    and "(of_int r :: ulong) = ucast count \<Longrightarrow> moved_exact s u (x @ buf) \<and> str_form buf (x @ buf)
      \<and> length buf = unat count"
proof -
  have inv: "invar t" using m(1) by (rule moved_exact_invar)
  from inv b show "\<exists>y. moved s u y"
    by (cases rule: gets_cases) (use m(1) in \<open>blast intro: moved_trans moved_exact_moved\<close>)+
  assume ok: "(of_int r :: ulong) = ucast count"
  from inv b show "moved_exact s u (x @ buf) \<and> str_form buf (x @ buf) \<and> length buf = unat count"
  proof (cases rule: gets_cases)
    case chars
    then show ?thesis
      using moved_exact_trans [OF m(1) chars(3)] m(2) by (auto simp: str_form_def)
  next
    case fail
    then show ?thesis using ok gets_ulong_fail by blast
  qed
qed

text \<open>The result of a reader before its commit.\<close>

definition uncommitted :: "('v \<Rightarrow> string \<Rightarrow> bool) \<Rightarrow> 's \<Rightarrow> int \<times> 'v \<times> 's \<Rightarrow> bool" where
  "uncommitted P s = (\<lambda>(rc, v, t). rc \<noteq> 0 \<and> (\<exists>x. moved s t x) \<or> rc = 0 \<and> (\<exists>x. moved_exact s t x \<and> P v x))"

lemma disr_finish_uncommitted:
  "uncommitted P s res \<Longrightarrow> taken s = [] \<Longrightarrow> read_done P s (disr_finish ops res)"
  by (cases res) (auto simp: uncommitted_def intro: disr_finish_fail disr_finish_ok)

lemma read_done_mono: "read_done P s res \<Longrightarrow> (\<And>v x. P v x \<Longrightarrow> Q v x) \<Longrightarrow> read_done Q s res"
  by (cases res) (auto simp: read_done_def)

lemma read_done_mask:
  "read_done P s res \<Longrightarrow> read_done P s (case res of (rc, v, t) \<Rightarrow> (rc, if rc \<noteq> 0 then w else v, t))"
  by (cases res) (simp add: read_done_def)

lemma disrst_done:
  assumes "invar s" "taken s = []"
  shows "read_done (\<lambda>v x. \<exists>buf. v = Some buf \<and> c_string buf \<and> str_form buf x) s (disrst ops s)"
proof -
  obtain rc neg count t where e: "disrsi' ops s False 0 = (rc, neg, count, t)"
    by (cases "disrsi' ops s False 0")
  note m = disrsi'_cases [OF assms(1) e]
  obtain ok t' where ma: "c_malloc ops t (Suc (unat count)) = (ok, t')"
    by (cases "c_malloc ops t (Suc (unat count))")
  obtain r buf u where b: "dis_gets ops t' (unat count) = (r, buf, u)" by (cases "dis_gets ops t' (unat count)")
  have "uncommitted (\<lambda>v x. \<exists>buf. v = Some buf \<and> c_string buf \<and> str_form buf x) s
      (if rc = 0 then
         if neg then (DIS_BADSIGN, None, t)
         else if \<not> ok then (DIS_NOMALLOC, None, t')
         else if (of_int r :: ulong) \<noteq> ucast count then (DIS_PROTO, Some buf, u)
         else if NUL \<in> set buf then (DIS_NULLSTR, Some buf, u)
         else (rc, Some buf, u)
       else (rc, None, t))" (is "uncommitted _ _ ?res")
  proof (cases "rc = 0 \<and> \<not> neg")
    case True
    with m obtain x where x: "moved_exact s t x" "num_form CHR ''+'' (unat count) x" by auto
    have x': "moved_exact s t' x"
      using moved_exact_trans [OF x(1) malloc_moved [OF moved_exact_invar [OF x(1)] ma]] by simp
    show ?thesis
      using True string_read [OF x' x(2) b] moved_exact_moved [OF x'(1)]
      by (auto simp: uncommitted_def c_string_def)
  next
    case False
    with m show ?thesis by (auto simp: uncommitted_def)
  qed
  note fin = read_done_mask [OF disr_finish_uncommitted [OF this assms(2)], of None]
  have "disrst ops s = (case disr_finish ops ?res of (rc, v, t) \<Rightarrow> (rc, if rc \<noteq> 0 then None else v, t))"
    by (auto simp: disrst_def e ma b Let_def)
  with fin show ?thesis by simp
qed

lemma disrcs_done:
  assumes "invar s" "taken s = []"
  shows "read_done (\<lambda>(v, n) x. \<exists>buf. v = Some buf \<and> n = length buf \<and> str_form buf x) s (disrcs ops neg0 s)"
proof -
  obtain rc neg count t where e: "disrsi' ops s neg0 0 = (rc, neg, count, t)"
    by (cases "disrsi' ops s neg0 0")
  note m = disrsi'_cases [OF assms(1) e]
  obtain ok t' where ma: "c_malloc ops t (Suc (unat count)) = (ok, t')"
    by (cases "c_malloc ops t (Suc (unat count))")
  obtain r buf u where b: "dis_gets ops t' (unat count) = (r, buf, u)" by (cases "dis_gets ops t' (unat count)")
  let ?P = "\<lambda>v x. \<exists>buf. v = Some buf \<and> unat count = length buf \<and> str_form buf x"
  define res where "res =
      (if (if neg then DIS_BADSIGN else rc) = 0 then
         if \<not> ok then (DIS_NOMALLOC, None, t')
         else if (of_int r :: ulong) \<noteq> ucast count then (DIS_PROTO, Some buf, u)
         else (if neg then DIS_BADSIGN else rc, Some buf, u)
       else (if neg then DIS_BADSIGN else rc, None, t))"
  have un: "uncommitted ?P s res"
  proof (cases "rc = 0 \<and> \<not> neg")
    case True
    with m obtain x where x: "moved_exact s t x" "num_form CHR ''+'' (unat count) x" by auto
    have x': "moved_exact s t' x"
      using moved_exact_trans [OF x(1) malloc_moved [OF moved_exact_invar [OF x(1)] ma]] by simp
    show ?thesis
      using True string_read [OF x' x(2) b] moved_exact_moved [OF x'(1)]
      by (auto simp: uncommitted_def res_def)
  next
    case False
    with m show ?thesis by (auto simp: uncommitted_def res_def)
  qed
  obtain l v y where fin: "disr_finish ops res = (l, v, y)" by (cases "disr_finish ops res")
  have "disrcs ops neg0 s = (if l \<noteq> 0 \<and> v \<noteq> None then (l, (None, 0), y) else (l, (v, unat count), y))"
    using fin by (simp add: disrcs_def e ma b Let_def res_def split: if_splits)
  with disr_finish_uncommitted [OF un assms(2)] show ?thesis
    by (auto simp: read_done_def fin split: if_splits)
qed

lemma commit_uncommitted:
  assumes "uncommitted P s (rc, v, t)" "taken s = []" "disr_commit ops t (rc = 0) = (r, u)"
  shows "r = 0" "read_done P s (rc, v, u)"
  using assms(1) rcommit_fail [OF _ assms(2), of t _ r u] rcommit_ok [OF _ assms(2), of t _ r u] assms(3)
  by (auto simp: uncommitted_def read_done_def)

lemma disrfst_done:
  assumes "invar s" "taken s = []"
  shows "read_done (\<lambda>v x. \<exists>buf. v = buf @ [NUL] \<and> c_string buf \<and> length buf \<le> achars \<and> str_form buf x) s
    (disrfst ops achars s)"
proof -
  obtain rc neg count t where e: "disrsi' ops s False 0 = (rc, neg, count, t)"
    by (cases "disrsi' ops s False 0")
  note m = disrsi'_cases [OF assms(1) e]
  obtain r buf u where b: "dis_gets ops t (unat count) = (r, buf, u)" by (cases "dis_gets ops t (unat count)")
  define res where "res =
      (if rc = 0 then
         if neg then (DIS_BADSIGN, [], t)
         else if unat count > achars then (DIS_OVERFLOW, [], t)
         else if (of_int r :: ulong) \<noteq> ucast count then (DIS_PROTO, buf, u)
         else if NUL \<in> set buf then (DIS_NULLSTR, buf, u)
         else (rc, buf @ [NUL], u)
       else (rc, [], t))"
  have un: "uncommitted (\<lambda>v x. \<exists>buf. v = buf @ [NUL] \<and> c_string buf \<and> length buf \<le> achars \<and> str_form buf x) s res"
  proof (cases "rc = 0 \<and> \<not> neg")
    case True
    with m obtain x where x: "moved_exact s t x" "num_form CHR ''+'' (unat count) x" by auto
    show ?thesis
      using True string_read [OF x b] moved_exact_moved [OF x(1)]
      by (auto simp: uncommitted_def c_string_def res_def)
  next
    case False
    with m show ?thesis by (auto simp: uncommitted_def res_def)
  qed
  obtain l v w where res: "res = (l, v, w)" by (cases res)
  obtain q y where c: "disr_commit ops w (l = 0) = (q, y)" by (cases "disr_commit ops w (l = 0)")
  have "disrfst ops achars s = (if q \<noteq> 0 then DIS_NOCOMMIT else l,
      if (if q \<noteq> 0 then DIS_NOCOMMIT else l) \<noteq> 0 then NUL # tl v else v, y)"
    using res c by (auto simp: disrfst_def e b Let_def res_def split: if_splits)
  with commit_uncommitted [OF un [unfolded res] assms(2) c] show ?thesis
    by (auto simp: read_done_def)
qed

lemma disrfcs_done:
  assumes "invar s" "taken s = []"
  shows "read_done (\<lambda>(n, buf) x. n = length buf \<and> n \<le> achars \<and> str_form buf x) s (disrfcs ops achars s)"
proof -
  obtain rc neg count t where e: "disrsi' ops s False 0 = (rc, neg, count, t)"
    by (cases "disrsi' ops s False 0")
  note m = disrsi'_cases [OF assms(1) e]
  obtain r buf u where b: "dis_gets ops t (unat count) = (r, buf, u)" by (cases "dis_gets ops t (unat count)")
  define res where "res =
      (if rc = 0 then
         if neg then (DIS_BADSIGN, [], t)
         else if unat count > achars then (DIS_OVERFLOW, [], t)
         else if (of_int r :: ulong) \<noteq> ucast count then (DIS_PROTO, buf, u)
         else (rc, buf, u)
       else (rc, [], t))"
  have un: "uncommitted (\<lambda>v x. unat count = length v \<and> unat count \<le> achars \<and> str_form v x) s res"
  proof (cases "rc = 0 \<and> \<not> neg")
    case True
    with m obtain x where x: "moved_exact s t x" "num_form CHR ''+'' (unat count) x" by auto
    show ?thesis
      using True string_read [OF x b] moved_exact_moved [OF x(1)]
      by (auto simp: uncommitted_def res_def)
  next
    case False
    with m show ?thesis by (auto simp: uncommitted_def res_def)
  qed
  obtain l v w where res: "res = (l, v, w)" by (cases res)
  obtain q y where c: "disr_commit ops w (l = 0) = (q, y)" by (cases "disr_commit ops w (l = 0)")
  have "disrfcs ops achars s = (if q \<noteq> 0 then DIS_NOCOMMIT else l,
      (if (if q \<noteq> 0 then DIS_NOCOMMIT else l) \<noteq> 0 then 0 else unat count, v), y)"
    using res c by (auto simp: disrfcs_def e b Let_def res_def split: if_splits)
  with commit_uncommitted [OF un [unfolded res] assms(2) c] show ?thesis
    by (auto simp: read_done_def)
qed

end

end
