(* ===== verification/Dis_Live.thy ===== *)
theory Dis_Live
  imports Dis_Laws
begin

text \<open>
  Round trips over a transport that does not fail. Two extensions of the safety contract of
  \<open>Dis_Laws\<close> add a predicate \<open>calm\<close> on states: in \<open>dis_sink\<close>
  it says that output is accepted, in \<open>dis_source\<close> that characters that have
  arrived can be read and that \<open>malloc\<close> succeeds. Inside the first, \<open>wr_ok w bs\<close>
  says that a writer \<open>w\<close> commits exactly the text \<open>bs\<close>; inside the second,
  \<open>rd_ok f bs v\<close> says that a reader \<open>f\<close> facing \<open>bs\<close> takes exactly
  \<open>bs\<close> and returns \<open>v\<close>. Both compose, which is how the message codecs get
  their round trips.
\<close>

section \<open>Writers\<close>

locale dis_sink = dis_stream ops invar taken avail outp pend
  for ops :: "'s dis_ops" and invar taken avail outp pend +
  fixes calm :: "'s \<Rightarrow> bool"
  assumes calm_puts: "invar s \<Longrightarrow> calm s \<Longrightarrow> dis_puts ops s str = (r, s') \<Longrightarrow>
      calm s' \<and> r = sint (of_nat (length str) :: uint) \<and> outp s' = outp s \<and> pend s' = pend s @ str"
    and calm_wcommit: "invar s \<Longrightarrow> calm s \<Longrightarrow> disw_commit ops s b = (r, s') \<Longrightarrow> calm s'"
begin

definition wr_ok :: "('s \<Rightarrow> int \<times> 's) \<Rightarrow> string \<Rightarrow> bool" where
  "wr_ok w bs \<longleftrightarrow> (\<forall>s. invar s \<and> calm s \<and> pend s = [] \<longrightarrow>
     (\<exists>t. w s = (DIS_SUCCESS, t) \<and> invar t \<and> calm t \<and> pend t = [] \<and> outp t = outp s @ bs
        \<and> taken t = taken s \<and> avail t = avail s))"

lemma disw_finish_ok:
  assumes "invar s" "calm s"
  obtains t where "disw_finish ops (DIS_SUCCESS, s) = (DIS_SUCCESS, t)" "invar t" "calm t" "pend t = []"
    "outp t = outp s @ pend s" "taken t = taken s" "avail t = avail s"
proof -
  obtain r t where c: "disw_commit ops s True = (r, t)" by (cases "disw_commit ops s True")
  show ?thesis
    using that [of t] wcommit_law [OF assms(1) c] calm_wcommit [OF assms c] c
    by (simp add: disw_finish_def)
qed

lemma puts_ok:
  assumes "invar s" "calm s" "length str < 2147483648"
  obtains t where "dis_puts ops s str = (int (length str), t)" "invar t" "calm t" "outp t = outp s"
    "pend t = pend s @ str" "taken t = taken s" "avail t = avail s"
proof -
  obtain r t where p: "dis_puts ops s str = (r, t)" by (cases "dis_puts ops s str")
  show ?thesis
    using that [of t] puts_law [OF assms(1) p] calm_puts [OF assms(1,2) p] p assms(3)
    by (auto simp: sint_of_nat_uint)
qed

text \<open>The body shared by the number writers: put the numeral, commit.\<close>

lemma put_finish_ok:
  assumes "length bs < 2147483648"
  shows "wr_ok (\<lambda>s. let (r, s) = dis_puts ops s bs in disw_finish ops (if r < 0 then DIS_PROTO else DIS_SUCCESS, s)) bs"
  unfolding wr_ok_def
proof (intro allI impI, elim conjE)
  fix s assume s: "invar s" "calm s" "pend s = []"
  obtain t where t: "dis_puts ops s bs = (int (length bs), t)" "invar t" "calm t" "outp t = outp s"
    "pend t = pend s @ bs" "taken t = taken s" "avail t = avail s"
    using puts_ok [OF s(1,2) assms] .
  obtain u where "disw_finish ops (DIS_SUCCESS, t) = (DIS_SUCCESS, u)" "invar u" "calm u" "pend u = []"
    "outp u = outp t @ pend t" "taken u = taken t" "avail u = avail t"
    using disw_finish_ok [OF t(2,3)] .
  with t s show "\<exists>u. (let (r, s) = dis_puts ops s bs in disw_finish ops (if r < 0 then DIS_PROTO else DIS_SUCCESS, s))
      = (DIS_SUCCESS, u) \<and> invar u \<and> calm u \<and> pend u = [] \<and> outp u = outp s @ bs
      \<and> taken u = taken s \<and> avail u = avail s"
    by simp
qed

lemma wire_num_short: "v < 2 ^ 64 \<Longrightarrow> length (wire_num c v) < 2147483648"
  using wire_num_length [of v c] by simp

lemma diswui_ok [wire_intro]: "wr_ok (\<lambda>s. diswui ops s v) (wire_u (unat v))"
proof -
  have "(\<lambda>s. diswui ops s v) = (\<lambda>s. let (r, s) = dis_puts ops s (wire_u (unat v))
      in disw_finish ops (if r < 0 then DIS_PROTO else DIS_SUCCESS, s))"
    by (rule ext) (simp add: diswui_def diswui'_def discui'_eq dis_counts_uint split: prod.splits)
  moreover have "length (wire_u (unat v)) < 2147483648"
    using unat_uint_less [of v] by (intro wire_num_short) simp
  ultimately show ?thesis using put_finish_ok by simp
qed

lemma diswul_ok [wire_intro]: "wr_ok (\<lambda>s. diswul ops s v) (wire_u (unat v))"
proof -
  have "(\<lambda>s. diswul ops s v) = (\<lambda>s. let (r, s) = dis_puts ops s (wire_u (unat v))
      in disw_finish ops (if r < 0 then DIS_PROTO else DIS_SUCCESS, s))"
    by (rule ext) (simp add: diswul_def discul'_eq dis_counts_ulong)
  moreover have "length (wire_u (unat v)) < 2147483648"
    using unat_ulong_less [of v] by (intro wire_num_short) simp
  ultimately show ?thesis using put_finish_ok by simp
qed

lemma diswull_ok [wire_intro]: "wr_ok (\<lambda>s. diswull ops s v) (wire_u (unat v))"
proof -
  have "(\<lambda>s. diswull ops s v) = (\<lambda>s. let (r, s) = dis_puts ops s (wire_u (unat v))
      in disw_finish ops (if r < 0 then DIS_PROTO else DIS_SUCCESS, s))"
    by (rule ext) (simp add: diswull_def discull'_eq dis_counts_ulong)
  moreover have "length (wire_u (unat v)) < 2147483648"
    using unat_ulong_less [of v] by (intro wire_num_short) simp
  ultimately show ?thesis using put_finish_ok by simp
qed

lemma diswsi_ok [wire_intro]: "wr_ok (\<lambda>s. diswsi ops s v) (wire_s (sint v))"
proof -
  have neg: "- (v + 1) + 1 = - v" by simp
  have "(\<lambda>s. diswsi ops s v) = (\<lambda>s. let (r, s) = dis_puts ops s (wire_s (sint v))
      in disw_finish ops (if r < 0 then DIS_PROTO else DIS_SUCCESS, s))"
    by (rule ext) (simp add: diswsi_def neg discui'_eq dis_counts_uint wire_s_word)
  moreover have "length (wire_s (sint v)) < 2147483648"
    using unat_uint_less [of v] unat_uint_less [of "- v"] by (auto simp: wire_s_word intro!: wire_num_short)
  ultimately show ?thesis using put_finish_ok by simp
qed

lemma diswsl_ok [wire_intro]: "wr_ok (\<lambda>s. diswsl ops s v) (wire_s (sint v))"
proof -
  have neg: "- (v + 1) + 1 = - v" by simp
  have "(\<lambda>s. diswsl ops s v) = (\<lambda>s. let (r, s) = dis_puts ops s (wire_s (sint v))
      in disw_finish ops (if r < 0 then DIS_PROTO else DIS_SUCCESS, s))"
    by (rule ext) (simp add: diswsl_def neg discul'_eq dis_counts_ulong wire_s_word)
  moreover have "length (wire_s (sint v)) < 2147483648"
    using unat_ulong_less [of v] unat_ulong_less [of "- v"] by (auto simp: wire_s_word intro!: wire_num_short)
  ultimately show ?thesis using put_finish_ok by simp
qed

lemma diswcs_ok [wire_intro]:
  assumes "length v < 2147483648"
  shows "wr_ok (\<lambda>s. diswcs ops s v (length v)) (wire_cs v)"
  unfolding wr_ok_def
proof (intro allI impI, elim conjE)
  fix s assume s: "invar s" "calm s" "pend s = []"
  let ?n = "of_nat (length v) :: uint"
  have n: "unat ?n = length v" using assms by (simp add: unat_of_nat_small)
  have "length (wire_u (length v)) < 2147483648"
    using assms by (intro wire_num_short) simp
  from puts_ok [OF s(1,2) this] obtain t where
    t: "dis_puts ops s (wire_u (length v)) = (int (length (wire_u (length v))), t)" "invar t" "calm t"
      "outp t = outp s" "pend t = pend s @ wire_u (length v)" "taken t = taken s" "avail t = avail s" .
  have hdr: "diswui' ops s ?n = (DIS_SUCCESS, t)"
    using t(1) dis_counts_uint [of "CHR ''+''" ?n] by (simp add: diswui'_def discui'_eq n)
  from puts_ok [OF t(2,3) assms] obtain u where
    u: "dis_puts ops t v = (int (length v), u)" "invar u" "calm u" "outp u = outp t"
      "pend u = pend t @ v" "taken u = taken t" "avail u = avail t" .
  define w where "w = (if length v > 0 then u else t)"
  have w: "invar w" "calm w" "outp w = outp s" "pend w = wire_cs v" "taken w = taken s" "avail w = avail s"
    using t u s by (auto simp: w_def wire_cs_def)
  have "diswcs ops s v (length v) = disw_finish ops (DIS_SUCCESS, w)"
    using hdr u(1) by (simp add: diswcs_def w_def)
  moreover obtain x where "disw_finish ops (DIS_SUCCESS, w) = (DIS_SUCCESS, x)" "invar x" "calm x" "pend x = []"
    "outp x = outp w @ pend w" "taken x = taken w" "avail x = avail w"
    using disw_finish_ok [OF w(1,2)] .
  ultimately show "\<exists>t. diswcs ops s v (length v) = (DIS_SUCCESS, t) \<and> invar t \<and> calm t \<and> pend t = [] \<and>
      outp t = outp s @ wire_cs v \<and> taken t = taken s \<and> avail t = avail s"
    using w by simp
qed

lemma diswst_ok [wire_intro]:
  "c_string v \<Longrightarrow> length v < 2147483648 \<Longrightarrow> wr_ok (\<lambda>s. diswst ops s v) (wire_cs v)"
  using diswcs_ok [of v] by (simp add: diswst_def)

lemma diswuc_ok [wire_intro]: "wr_ok (\<lambda>s. diswuc ops s v) (wire_u (unat v))"
proof -
  have "unat (ucast v :: uint) = unat v"
    using unsigned_less [of v, where ?'a = nat] by (simp add: unat_ucast_fits)
  then show ?thesis using diswui_ok [of "ucast v"] by (simp add: diswuc_def)
qed

end

section \<open>Readers\<close>

locale dis_source = dis_stream ops invar taken avail outp pend
  for ops :: "'s dis_ops" and invar taken avail outp pend +
  fixes calm :: "'s \<Rightarrow> bool"
  assumes calm_getc: "invar s \<Longrightarrow> calm s \<Longrightarrow> avail s = ch # cs \<Longrightarrow> dis_getc ops s = (c, s') \<Longrightarrow>
      calm s' \<and> c = schar ch \<and> avail s' = cs"
    and calm_gets: "invar s \<Longrightarrow> calm s \<Longrightarrow> n \<le> length (avail s) \<Longrightarrow> dis_gets ops s n = (r, x, s') \<Longrightarrow>
      calm s' \<and> avail s' = drop n (avail s)"
    and calm_rcommit: "invar s \<Longrightarrow> calm s \<Longrightarrow> disr_commit ops s b = (r, s') \<Longrightarrow> calm s'"
    and calm_malloc: "invar s \<Longrightarrow> calm s \<Longrightarrow> c_malloc ops s n = (ok, s') \<Longrightarrow> calm s' \<and> ok"
begin

definition rd_ok :: "('s \<Rightarrow> int \<times> 'v \<times> 's) \<Rightarrow> string \<Rightarrow> 'v \<Rightarrow> bool" where
  "rd_ok f bs v \<longleftrightarrow> (\<forall>s rest. invar s \<and> calm s \<and> taken s = [] \<and> avail s = bs @ rest \<longrightarrow>
     (\<exists>t. f s = (DIS_SUCCESS, v, t) \<and> invar t \<and> calm t \<and> taken t = [] \<and> avail t = rest
        \<and> outp t = outp s \<and> pend t = pend s))"

lemma live_getc:
  assumes "invar s" "calm s" "avail s = ch # cs"
  obtains t where "dis_getc ops s = (schar ch, t)" "moved_exact s t [ch]" "calm t" "avail t = cs"
proof -
  obtain c t where g: "dis_getc ops s = (c, t)" by (cases "dis_getc ops s")
  have *: "calm t" "c = schar ch" "avail t = cs" using calm_getc [OF assms g] by simp_all
  moreover have "moved_exact s t [ch]"
    using getc_law [OF assms(1) g] * assms(3)
    by (auto simp: moved_exact_def dest: prefix_length_le)
  ultimately show ?thesis using that g by simp
qed

lemma live_gets:
  assumes "invar s" "calm s" "avail s = x @ rest"
  obtains t where "dis_gets ops s (length x) = (sint (of_nat (length x) :: uint), x, t)"
    "moved_exact s t x" "calm t" "avail t = rest"
proof -
  obtain r y t where g: "dis_gets ops s (length x) = (r, y, t)" by (cases "dis_gets ops s (length x)")
  have *: "calm t" "avail t = rest" using calm_gets [OF assms(1,2) _ g] assms(3) by simp_all
  have "r = sint (of_nat (length x) :: uint) \<and> y = x \<and> moved_exact s t x"
    using gets_law [OF assms(1) g] * assms(3)
    by (auto simp: moved_exact_def dest: prefix_length_le)
  then show ?thesis using that * g by simp
qed

lemma limit_30: "Suc r > DIS_RECURSIVE_LIMIT \<longleftrightarrow> 30 < Suc r"
  by (simp add: DIS_RECURSIVE_LIMIT_def)

lemma disrs'_value:
  assumes umax: "umax_for TYPE('a::len) umax"
    and s: "invar s" "calm s" "avail s = sg # dec_str v @ rest" "sg \<in> {CHR ''+'', CHR ''-''}"
    and v: "v < 2 ^ LENGTH('a)" and r: "Suc recursv \<le> 30"
  obtains t where
    "disrs' ops early umax recursv (of_nat (length (dec_str v)) :: 'a word) s n0 v0 = (DIS_SUCCESS, sg = CHR ''-'', of_nat v, t)"
    "moved_exact s t (sg # dec_str v)" "calm t" "avail t = rest"
proof -
  have vmax: "v \<le> 2 ^ LENGTH('a) - 1" using v by simp
  have len: "length (dec_str v) \<le> length umax"
    using dec_str_length_mono [OF vmax] umax by (simp add: umax_for_def)
  then have small: "length (dec_str v) \<le> 99" using umax unfolding umax_for_def by linarith
  then have cnt: "unat (of_nat (length (dec_str v)) :: 'a word) = length (dec_str v)"
    using umax by (intro unat_of_nat_small) (simp add: umax_for_def)
  have cmp: "\<not> (length (dec_str v) = length umax \<and> memcmp_gt (dec_str v) umax)"
    using memcmp_gt_dec_str [of v "2 ^ LENGTH('a) - 1"] vmax umax by (auto simp: umax_for_def)
  obtain s1 where s1: "dis_getc ops s = (schar sg, s1)" "moved_exact s s1 [sg]" "calm s1" "avail s1 = dec_str v @ rest"
    using live_getc [OF s(1,2,3)] .
  obtain s2 where s2: "dis_gets ops s1 (length (dec_str v)) = (sint (of_nat (length (dec_str v)) :: uint), dec_str v, s2)"
    "moved_exact s1 s2 (dec_str v)" "calm s2" "avail s2 = rest"
    using live_gets [OF moved_exact_invar [OF s1(2)] s1(3,4)] .
  have g2: "dis_gets ops s1 (length (dec_str v)) = (int (length (dec_str v)), dec_str v, s2)"
    using s2(1) small by (simp add: sint_of_nat_uint)
  have dl: "dig_loop 0 (dec_str v) = Some (of_nat v :: 'a word)"
    by (simp add: dig_loop_0 dec_str_digits)
  have sg: "schar sg = 45 \<or> schar sg = 43" "schar sg = 45 \<longleftrightarrow> sg = CHR ''-''" using s(4) by auto
  have "disrs' ops early umax recursv (of_nat (length (dec_str v)) :: 'a word) s n0 v0
      = (DIS_SUCCESS, sg = CHR ''-'', of_nat v, s2)"
    using r sg len cmp
    by (subst disrs'.simps) (simp add: limit_30 s1(1) g2 cnt dl Let_def)
  moreover have "moved_exact s s2 (sg # dec_str v)"
    using moved_exact_trans [OF s1(2) s2(2)] by simp
  ultimately show ?thesis using that s2 by blast
qed

lemma disrs'_count:
  assumes umax: "umax_for TYPE('a::len) umax"
    and s: "invar s" "calm s" "avail s = dec_str k @ rest"
    and k: "1 \<le> k" "k \<le> 99" and r: "Suc recursv \<le> 30"
  obtains t where
    "disrs' ops early umax recursv (of_nat (length (dec_str k)) :: 'a word) s n0 v0
       = disrs' ops early umax (Suc recursv) (of_nat k) t n0 v0"
    "moved_exact s t (dec_str k)" "calm t" "avail t = rest"
proof (cases "k \<le> 9")
  case True
  then have d: "dec_str k = [digit_char k]" by (subst dec_str_rec) simp
  then obtain t where t: "dis_getc ops s = (schar (digit_char k), t)" "moved_exact s t [digit_char k]" "calm t" "avail t = rest"
    using live_getc [OF s(1,2)] s(3) by auto
  have "of_int (schar (digit_char k)) - 48 = (of_nat k :: 'a word)" using True by simp
  moreover have "\<not> (1::'a word) < of_nat (length (dec_str k))" by (simp add: d)
  ultimately have "disrs' ops early umax recursv (of_nat (length (dec_str k)) :: 'a word) s n0 v0
      = disrs' ops early umax (Suc recursv) (of_nat k) t n0 v0"
    using r k(1) True by (subst disrs'.simps) (simp add: limit_30 t(1) Let_def)
  with t d that show ?thesis by simp
next
  case False
  then have d: "dec_str k = [digit_char (k div 10), digit_char (k mod 10)]"
    using k(2) by (subst dec_str_rec, subst dec_str_rec) simp
  obtain s1 where s1: "dis_getc ops s = (schar (digit_char (k div 10)), s1)" "moved_exact s s1 [digit_char (k div 10)]" "calm s1"
    "avail s1 = [digit_char (k mod 10)] @ rest"
    using live_getc [OF s(1,2)] s(3) d by auto
  obtain s2 where "dis_gets ops s1 (length [digit_char (k mod 10)])
      = (sint (of_nat (length [digit_char (k mod 10)]) :: uint), [digit_char (k mod 10)], s2)"
    and s2: "moved_exact s1 s2 [digit_char (k mod 10)]" "calm s2" "avail s2 = rest"
    using live_gets [OF moved_exact_invar [OF s1(2)] s1(3,4)] .
  then have g: "dis_gets ops s1 (Suc 0) = (1, [digit_char (k mod 10)], s2)" by simp
  have dl: "dig_loop (of_int (schar (digit_char (k div 10))) - 48) [digit_char (k mod 10)] = Some (of_nat k :: 'a word)"
  proof -
    have "of_int (schar (digit_char (k div 10))) - 48 = (of_nat (k div 10) :: 'a word)"
      using k(2) by (subst schar_digit_char) simp_all
    moreover have "dec_val [digit_char (k mod 10)] = k mod 10" by (simp add: dec_val_def)
    ultimately show ?thesis
      using dig_loop_digits [of "[digit_char (k mod 10)]" "k div 10", where ?'a = 'a]
      by (simp del: dig_loop.simps of_nat_add of_nat_mult)
  qed
  have umax3: "2 < length umax"
  proof -
    have "(200::nat) < 2 ^ LENGTH('a)" using umax by (simp add: umax_for_def)
    then have "\<not> (2::nat) ^ LENGTH('a) - 1 < 100" by linarith
    then show ?thesis
      using umax dec_str_length_pow [of 2 "2 ^ LENGTH('a) - 1"] by (simp add: umax_for_def)
  qed
  have "unat (of_nat 2 :: 'a word) = 2"
    using umax by (intro unat_of_nat_small) (simp add: umax_for_def)
  then have cnt: "unat (2 :: 'a word) = 2" "(1::'a word) < 2" by (simp_all add: word_less_nat_alt)
  have L1: "LENGTH('a) \<noteq> Suc 0" using umax by (auto simp: umax_for_def)
  have lead: "49 \<le> schar (digit_char (k div 10))" "schar (digit_char (k div 10)) \<le> 57"
    using k(2) False by (subst schar_digit_char; simp)+
  have "disrs' ops early umax recursv (of_nat (length (dec_str k)) :: 'a word) s n0 v0
      = disrs' ops early umax (Suc recursv) (of_nat k) s2 n0 v0"
    using r lead umax3 L1
    by (subst disrs'.simps) (simp add: limit_30 s1(1) g cnt dl Let_def d del: dig_loop.simps)
  moreover have "moved_exact s s2 (dec_str k)"
    using moved_exact_trans [OF s1(2) s2(1)] d by simp
  ultimately show ?thesis using that s2 by blast
qed

lemma disrs'_wire:
  assumes umax: "umax_for TYPE('a::len) umax"
    and s: "invar s" "calm s" "avail s = wire_num sg v @ rest" "sg \<in> {CHR ''+'', CHR ''-''}"
    and v: "v < 2 ^ LENGTH('a)"
  obtains t where "disrs' ops early umax 0 (1 :: 'a word) s n0 v0 = (DIS_SUCCESS, sg = CHR ''-'', of_nat v, t)"
    "moved_exact s t (wire_num sg v)" "calm t" "avail t = rest"
proof -
  let ?k = "length (dec_str v)"
  have vmax: "v \<le> 2 ^ LENGTH('a) - 1" using v by simp
  have k99: "?k \<le> 99"
    using dec_str_length_mono [OF vmax] umax by (auto simp: umax_for_def)
  have k1: "1 \<le> ?k" by (simp add: Suc_le_eq)
  have one: "of_nat (length (dec_str k)) = (1 :: 'a word)" if "k \<le> 9" for k
    using that by (simp add: length_dec_str_1)
  consider "?k = 1" | "1 < ?k" "?k \<le> 9" | "9 < ?k" using k1 by linarith
  then show ?thesis
  proof cases
    case 1
    then have "avail s = sg # dec_str v @ rest" using s(3) by (simp add: wire_num_def wire_counts_def)
    from disrs'_value [OF umax s(1,2) this s(4) v, of 0 early n0 v0] obtain t where
      t: "disrs' ops early umax 0 (of_nat ?k :: 'a word) s n0 v0 = (DIS_SUCCESS, sg = CHR ''-'', of_nat v, t)"
        "moved_exact s t (sg # dec_str v)" "calm t" "avail t = rest" by auto
    from that [of t] show ?thesis using t 1 by (simp add: wire_num_def wire_counts_def)
  next
    case 2
    then have "avail s = dec_str ?k @ sg # dec_str v @ rest" using s(3) by (simp add: wire_num_def wire_counts_def)
    from disrs'_count [OF umax s(1,2) this k1 k99, of 0 early n0 v0] obtain t where
      t: "disrs' ops early umax 0 (of_nat (length (dec_str ?k)) :: 'a word) s n0 v0
            = disrs' ops early umax (Suc 0) (of_nat ?k) t n0 v0"
        "moved_exact s t (dec_str ?k)" "calm t" "avail t = sg # dec_str v @ rest" by auto
    from disrs'_value [OF umax moved_exact_invar [OF t(2)] t(3,4) s(4) v, of 1 early n0 v0] obtain u where
      u: "disrs' ops early umax 1 (of_nat ?k :: 'a word) t n0 v0 = (DIS_SUCCESS, sg = CHR ''-'', of_nat v, u)"
        "moved_exact t u (sg # dec_str v)" "calm u" "avail u = rest" by auto
    from that [of u] show ?thesis
      using t(1) u moved_exact_trans [OF t(2) u(2)] one [OF 2(2)] 2
      by (simp add: wire_num_def wire_counts_def)
  next
    case 3
    then have "avail s = dec_str 2 @ dec_str ?k @ sg # dec_str v @ rest"
      using s(3) by (simp add: wire_num_def wire_counts_def)
    from disrs'_count [OF umax s(1,2) this, of 0 early n0 v0] obtain t where
      t: "disrs' ops early umax 0 (of_nat (length (dec_str 2)) :: 'a word) s n0 v0
            = disrs' ops early umax (Suc 0) (of_nat 2) t n0 v0"
        "moved_exact s t (dec_str 2)" "calm t" "avail t = dec_str ?k @ sg # dec_str v @ rest" by auto
    from disrs'_count [OF umax moved_exact_invar [OF t(2)] t(3,4) k1 k99, of "Suc 0" early n0 v0] obtain u where
      u: "disrs' ops early umax (Suc 0) (of_nat (length (dec_str ?k)) :: 'a word) t n0 v0
            = disrs' ops early umax 2 (of_nat ?k) u n0 v0"
        "moved_exact t u (dec_str ?k)" "calm u" "avail u = sg # dec_str v @ rest" by (auto simp: numeral_2_eq_2)
    from disrs'_value [OF umax moved_exact_invar [OF u(2)] u(3,4) s(4) v, of 2 early n0 v0] obtain w where
      w: "disrs' ops early umax 2 (of_nat ?k :: 'a word) u n0 v0 = (DIS_SUCCESS, sg = CHR ''-'', of_nat v, w)"
        "moved_exact u w (sg # dec_str v)" "calm w" "avail w = rest" by auto
    have two: "length (dec_str ?k) = 2" using 3 k99 by (simp add: length_dec_str_2)
    have "disrs' ops early umax 0 (1 :: 'a word) s n0 v0 = (DIS_SUCCESS, sg = CHR ''-'', of_nat v, w)"
      using t(1) u(1) w(1) one [of 2] by (simp only: two)
    moreover have "moved_exact s w (wire_num sg v)"
      using moved_exact_trans [OF moved_exact_trans [OF t(2) u(2)] w(2)] 3
      by (simp add: wire_num_def wire_counts_def)
    ultimately show ?thesis using that w by blast
  qed
qed

lemma disr_finish_live:
  assumes "moved_exact s t x" "taken s = []" "calm t"
  obtains u where "disr_finish ops (DIS_SUCCESS, v, t) = (DIS_SUCCESS, v, u)" "invar u" "calm u" "taken u = []"
    "avail u = avail t" "outp u = outp s" "pend u = pend s"
proof -
  obtain r u where c: "disr_commit ops t True = (r, u)" by (cases "disr_commit ops t True")
  have inv: "invar t" using assms(1) by (rule moved_exact_invar)
  show ?thesis
    using that [of u] rcommit_law [OF inv c] calm_rcommit [OF inv assms(3) c] assms(1) c
    by (simp add: disr_finish_def moved_exact_def)
qed

lemma disrui_ok [wire_intro]: "rd_ok (disrui ops) (wire_u (unat v)) v"
  unfolding rd_ok_def
proof (intro allI impI, elim conjE)
  fix s rest assume s: "invar s" "calm s" "taken s = []" "avail s = wire_u (unat v) @ rest"
  obtain t where t: "disrsi' ops s False 0 = (DIS_SUCCESS, False, v, t)"
    "moved_exact s t (wire_u (unat v))" "calm t" "avail t = rest"
    using disrs'_wire [OF umax_for_uint s(1,2,4), of True False 0] unat_uint_less [of v]
    by (auto simp: disrsi'_def)
  obtain u where "disr_finish ops (DIS_SUCCESS, v, t) = (DIS_SUCCESS, v, u)" "invar u" "calm u" "taken u = []"
    "avail u = avail t" "outp u = outp s" "pend u = pend s"
    using disr_finish_live [OF t(2) s(3) t(3)] .
  then show "\<exists>u. disrui ops s = (DIS_SUCCESS, v, u) \<and> invar u \<and> calm u \<and> taken u = [] \<and> avail u = rest
      \<and> outp u = outp s \<and> pend u = pend s"
    using t by (simp add: disrui_def)
qed

lemma disrul_ok [wire_intro]: "rd_ok (disrul ops) (wire_u (unat v)) v"
  unfolding rd_ok_def
proof (intro allI impI, elim conjE)
  fix s rest assume s: "invar s" "calm s" "taken s = []" "avail s = wire_u (unat v) @ rest"
  obtain t where t: "disrsl' ops s False 0 = (DIS_SUCCESS, False, v, t)"
    "moved_exact s t (wire_u (unat v))" "calm t" "avail t = rest"
    using disrs'_wire [OF umax_for_ulong s(1,2,4), of False False 0] unat_ulong_less [of v]
    by (auto simp: disrsl'_def)
  obtain u where "disr_finish ops (DIS_SUCCESS, v, t) = (DIS_SUCCESS, v, u)" "invar u" "calm u" "taken u = []"
    "avail u = avail t" "outp u = outp s" "pend u = pend s"
    using disr_finish_live [OF t(2) s(3) t(3)] .
  then show "\<exists>u. disrul ops s = (DIS_SUCCESS, v, u) \<and> invar u \<and> calm u \<and> taken u = [] \<and> avail u = rest
      \<and> outp u = outp s \<and> pend u = pend s"
    using t by (simp add: disrul_def)
qed

lemma disrull_ok [wire_intro]: "rd_ok (disrull ops) (wire_u (unat v)) v"
  unfolding rd_ok_def
proof (intro allI impI, elim conjE)
  fix s rest assume s: "invar s" "calm s" "taken s = []" "avail s = wire_u (unat v) @ rest"
  obtain t where t: "disrsll' ops s False 0 = (DIS_SUCCESS, False, v, t)"
    "moved_exact s t (wire_u (unat v))" "calm t" "avail t = rest"
    using disrs'_wire [OF umax_for_ulong s(1,2,4), of True False 0] unat_ulong_less [of v]
    by (auto simp: disrsll'_def)
  obtain u where "disr_finish ops (DIS_SUCCESS, v, t) = (DIS_SUCCESS, v, u)" "invar u" "calm u" "taken u = []"
    "avail u = avail t" "outp u = outp s" "pend u = pend s"
    using disr_finish_live [OF t(2) s(3) t(3)] .
  then show "\<exists>u. disrull ops s = (DIS_SUCCESS, v, u) \<and> invar u \<and> calm u \<and> taken u = [] \<and> avail u = rest
      \<and> outp u = outp s \<and> pend u = pend s"
    using t by (simp add: disrull_def)
qed

lemma disrsi_ok [wire_intro]: "rd_ok (disrsi ops neg0) (wire_s (sint v)) v"
  unfolding rd_ok_def
proof (intro allI impI, elim conjE)
  fix s rest assume s: "invar s" "calm s" "taken s = []" "avail s = wire_s (sint v) @ rest"
  define neg where "neg = (sint v < 0)"
  define w where "w = (if neg then - v else v)"
  define sg where "sg = (if neg then CHR ''-'' else CHR ''+'')"
  have sg: "sg \<in> {CHR ''+'', CHR ''-''}" "(sg = CHR ''-'') = neg" by (simp_all add: sg_def)
  have wire: "wire_s (sint v) = wire_num sg (unat w)"
    by (simp add: wire_s_word neg_def w_def sg_def)
  have fits: "if neg then w \<le> 0x80000000 else w \<le> 0x7FFFFFFF"
    using sint_bounds [of v] unat_minus_sint_neg [of v] unat_of_sint_nonneg [of v]
    by (auto simp: neg_def w_def word_le_nat_alt nat_le_iff)
  obtain t where t: "disrsi' ops s neg0 0 = (DIS_SUCCESS, neg, w, t)"
    "moved_exact s t (wire_s (sint v))" "calm t" "avail t = rest"
    using disrs'_wire [OF umax_for_uint s(1,2) s(4) [unfolded wire] sg(1), of True neg0 0] unat_uint_less [of w] sg(2)
    by (auto simp: disrsi'_def wire)
  obtain u where "disr_finish ops (DIS_SUCCESS, v, t) = (DIS_SUCCESS, v, u)" "invar u" "calm u" "taken u = []"
    "avail u = avail t" "outp u = outp s" "pend u = pend s"
    using disr_finish_live [OF t(2) s(3) t(3)] .
  moreover have "(if neg then - w else w) = v" by (simp add: w_def)
  ultimately show "\<exists>u. disrsi ops neg0 s = (DIS_SUCCESS, v, u) \<and> invar u \<and> calm u \<and> taken u = [] \<and> avail u = rest
      \<and> outp u = outp s \<and> pend u = pend s"
    using t fits by (simp add: disrsi_def Let_def)
qed

lemma disrsl_ok [wire_intro]: "rd_ok (disrsl ops neg0) (wire_s (sint v)) v"
  unfolding rd_ok_def
proof (intro allI impI, elim conjE)
  fix s rest assume s: "invar s" "calm s" "taken s = []" "avail s = wire_s (sint v) @ rest"
  define neg where "neg = (sint v < 0)"
  define w where "w = (if neg then - v else v)"
  define sg where "sg = (if neg then CHR ''-'' else CHR ''+'')"
  have sg: "sg \<in> {CHR ''+'', CHR ''-''}" "(sg = CHR ''-'') = neg" by (simp_all add: sg_def)
  have wire: "wire_s (sint v) = wire_num sg (unat w)"
    by (simp add: wire_s_word neg_def w_def sg_def)
  have fits: "if neg then w \<le> 0x8000000000000000 else w \<le> 0x7FFFFFFFFFFFFFFF"
    using sint_bounds [of v] unat_minus_sint_neg [of v] unat_of_sint_nonneg [of v]
    by (auto simp: neg_def w_def word_le_nat_alt nat_le_iff)
  obtain t where t: "disrsl' ops s neg0 0 = (DIS_SUCCESS, neg, w, t)"
    "moved_exact s t (wire_s (sint v))" "calm t" "avail t = rest"
    using disrs'_wire [OF umax_for_ulong s(1,2) s(4) [unfolded wire] sg(1), of False neg0 0] unat_ulong_less [of w] sg(2)
    by (auto simp: disrsl'_def wire)
  obtain u where "disr_finish ops (DIS_SUCCESS, v, t) = (DIS_SUCCESS, v, u)" "invar u" "calm u" "taken u = []"
    "avail u = avail t" "outp u = outp s" "pend u = pend s"
    using disr_finish_live [OF t(2) s(3) t(3)] .
  moreover have "(if neg then - w else w) = v" by (simp add: w_def)
  ultimately show "\<exists>u. disrsl ops neg0 s = (DIS_SUCCESS, v, u) \<and> invar u \<and> calm u \<and> taken u = [] \<and> avail u = rest
      \<and> outp u = outp s \<and> pend u = pend s"
    using t fits by (simp add: disrsl_def Let_def)
qed

text \<open>The header of a counted string and its characters.\<close>

lemma string_hdr:
  assumes "invar s" "calm s" "avail s = wire_cs v @ rest" "length v < 2147483648"
  obtains t where "disrsi' ops s neg0 v0 = (DIS_SUCCESS, False, of_nat (length v), t)"
    "moved_exact s t (wire_u (length v))" "calm t" "avail t = v @ rest"
proof -
  have "avail s = wire_u (length v) @ v @ rest" using assms(3) by (simp add: wire_cs_def)
  from disrs'_wire [OF umax_for_uint assms(1,2) this, of True neg0 v0] assms(4) that
  show ?thesis by (auto simp: disrsi'_def)
qed

lemma string_chars:
  assumes "moved_exact s t x" "calm t" "avail t = v @ rest" "length v < 2147483648"
  obtains u where "dis_gets ops t (length v) = (int (length v), v, u)" "moved_exact s u (x @ v)" "calm u" "avail u = rest"
proof -
  from live_gets [OF moved_exact_invar [OF assms(1)] assms(2,3)] obtain u where
    "dis_gets ops t (length v) = (sint (of_nat (length v) :: uint), v, u)" "moved_exact t u v" "calm u" "avail u = rest" .
  then show ?thesis
    using that moved_exact_trans [OF assms(1)] assms(4) by (auto simp: sint_of_nat_uint)
qed

lemma live_malloc:
  assumes "moved_exact s t x" "calm t"
  obtains u where "c_malloc ops t n = (True, u)" "moved_exact s u x" "calm u" "avail u = avail t"
proof -
  obtain ok u where m: "c_malloc ops t n = (ok, u)" by (cases "c_malloc ops t n")
  have inv: "invar t" using assms(1) by (rule moved_exact_invar)
  have "moved_exact s u x"
    using moved_exact_trans [OF assms(1) malloc_moved [OF inv m]] by simp
  then show ?thesis
    using that m calm_malloc [OF inv assms(2) m] malloc_law [OF inv m] by simp
qed

lemma commit_live:
  assumes "moved_exact s t x" "taken s = []" "calm t"
  obtains u where "disr_commit ops t True = (0, u)" "invar u" "calm u" "taken u = []"
    "avail u = avail t" "outp u = outp s" "pend u = pend s"
proof -
  obtain r u where c: "disr_commit ops t True = (r, u)" by (cases "disr_commit ops t True")
  have inv: "invar t" using assms(1) by (rule moved_exact_invar)
  show ?thesis
    using that [of u] rcommit_law [OF inv c] calm_rcommit [OF inv assms(3) c] assms(1) c
    by (simp add: moved_exact_def)
qed

lemma disrst_ok [wire_intro]:
  assumes v: "c_string v" "length v < 2147483648"
  shows "rd_ok (disrst ops) (wire_cs v) (Some v)"
  unfolding rd_ok_def
proof (intro allI impI, elim conjE)
  fix s rest assume s: "invar s" "calm s" "taken s = []" "avail s = wire_cs v @ rest"
  obtain t where t: "disrsi' ops s False 0 = (DIS_SUCCESS, False, of_nat (length v), t)"
    "moved_exact s t (wire_u (length v))" "calm t" "avail t = v @ rest"
    using string_hdr [OF s(1,2,4) v(2)] .
  obtain t' where t': "c_malloc ops t (Suc (length v)) = (True, t')" "moved_exact s t' (wire_u (length v))"
    "calm t'" "avail t' = avail t"
    using live_malloc [OF t(2,3)] .
  obtain u where u: "dis_gets ops t' (length v) = (int (length v), v, u)"
    "moved_exact s u (wire_u (length v) @ v)" "calm u" "avail u = rest"
    using string_chars [OF t'(2,3) _ v(2)] t'(4) t(4) by auto
  obtain w where "disr_finish ops (DIS_SUCCESS, Some v, u) = (DIS_SUCCESS, Some v, w)" "invar w" "calm w" "taken w = []"
    "avail w = avail u" "outp w = outp s" "pend w = pend s"
    using disr_finish_live [OF u(2) s(3) u(3)] .
  then show "\<exists>w. disrst ops s = (DIS_SUCCESS, Some v, w) \<and> invar w \<and> calm w \<and> taken w = [] \<and> avail w = rest
      \<and> outp w = outp s \<and> pend w = pend s"
    using t(1) t'(1) u(1,4) v
    by (simp add: disrst_def unat_of_nat_small ucast_of_nat_uint c_string_def)
qed

lemma disrcs_ok [wire_intro]:
  assumes v: "length v < 2147483648"
  shows "rd_ok (disrcs ops neg0) (wire_cs v) (Some v, length v)"
  unfolding rd_ok_def
proof (intro allI impI, elim conjE)
  fix s rest assume s: "invar s" "calm s" "taken s = []" "avail s = wire_cs v @ rest"
  obtain t where t: "disrsi' ops s neg0 0 = (DIS_SUCCESS, False, of_nat (length v), t)"
    "moved_exact s t (wire_u (length v))" "calm t" "avail t = v @ rest"
    using string_hdr [OF s(1,2,4) v] .
  obtain t' where t': "c_malloc ops t (Suc (length v)) = (True, t')" "moved_exact s t' (wire_u (length v))"
    "calm t'" "avail t' = avail t"
    using live_malloc [OF t(2,3)] .
  obtain u where u: "dis_gets ops t' (length v) = (int (length v), v, u)"
    "moved_exact s u (wire_u (length v) @ v)" "calm u" "avail u = rest"
    using string_chars [OF t'(2,3) _ v] t'(4) t(4) by auto
  obtain w where "disr_finish ops (DIS_SUCCESS, Some v, u) = (DIS_SUCCESS, Some v, w)" "invar w" "calm w" "taken w = []"
    "avail w = avail u" "outp w = outp s" "pend w = pend s"
    using disr_finish_live [OF u(2) s(3) u(3)] .
  then show "\<exists>w. disrcs ops neg0 s = (DIS_SUCCESS, (Some v, length v), w) \<and> invar w \<and> calm w \<and> taken w = []
      \<and> avail w = rest \<and> outp w = outp s \<and> pend w = pend s"
    using t(1) t'(1) u(1,4) v by (simp add: disrcs_def unat_of_nat_small ucast_of_nat_uint)
qed

lemma disrfst_ok [wire_intro]:
  assumes v: "c_string v" "length v \<le> achars" "length v < 2147483648"
  shows "rd_ok (disrfst ops achars) (wire_cs v) (v @ [NUL])"
  unfolding rd_ok_def
proof (intro allI impI, elim conjE)
  fix s rest assume s: "invar s" "calm s" "taken s = []" "avail s = wire_cs v @ rest"
  obtain t where t: "disrsi' ops s False 0 = (DIS_SUCCESS, False, of_nat (length v), t)"
    "moved_exact s t (wire_u (length v))" "calm t" "avail t = v @ rest"
    using string_hdr [OF s(1,2,4) v(3)] .
  obtain u where u: "dis_gets ops t (length v) = (int (length v), v, u)"
    "moved_exact s u (wire_u (length v) @ v)" "calm u" "avail u = rest"
    using string_chars [OF t(2,3,4) v(3)] .
  obtain w where "disr_commit ops u True = (0, w)" "invar w" "calm w" "taken w = []"
    "avail w = avail u" "outp w = outp s" "pend w = pend s"
    using commit_live [OF u(2) s(3) u(3)] .
  then show "\<exists>w. disrfst ops achars s = (DIS_SUCCESS, v @ [NUL], w) \<and> invar w \<and> calm w \<and> taken w = []
      \<and> avail w = rest \<and> outp w = outp s \<and> pend w = pend s"
    using t(1) u(1,4) v
    by (simp add: disrfst_def unat_of_nat_small ucast_of_nat_uint c_string_def)
qed

lemma disrfcs_ok [wire_intro]:
  assumes v: "length v \<le> achars" "length v < 2147483648"
  shows "rd_ok (disrfcs ops achars) (wire_cs v) (length v, v)"
  unfolding rd_ok_def
proof (intro allI impI, elim conjE)
  fix s rest assume s: "invar s" "calm s" "taken s = []" "avail s = wire_cs v @ rest"
  obtain t where t: "disrsi' ops s False 0 = (DIS_SUCCESS, False, of_nat (length v), t)"
    "moved_exact s t (wire_u (length v))" "calm t" "avail t = v @ rest"
    using string_hdr [OF s(1,2,4) v(2)] .
  obtain u where u: "dis_gets ops t (length v) = (int (length v), v, u)"
    "moved_exact s u (wire_u (length v) @ v)" "calm u" "avail u = rest"
    using string_chars [OF t(2,3,4) v(2)] .
  obtain w where "disr_commit ops u True = (0, w)" "invar w" "calm w" "taken w = []"
    "avail w = avail u" "outp w = outp s" "pend w = pend s"
    using commit_live [OF u(2) s(3) u(3)] .
  then show "\<exists>w. disrfcs ops achars s = (DIS_SUCCESS, (length v, v), w) \<and> invar w \<and> calm w \<and> taken w = []
      \<and> avail w = rest \<and> outp w = outp s \<and> pend w = pend s"
    using t(1) u(1,4) v by (simp add: disrfcs_def unat_of_nat_small ucast_of_nat_uint)
qed

lemma disruc_ok [wire_intro]: "rd_ok (disruc ops) (wire_u (unat (v :: 8 word))) v"
  unfolding rd_ok_def
proof (intro allI impI, elim conjE)
  fix s rest assume s: "invar s" "calm s" "taken s = []" "avail s = wire_u (unat v) @ rest"
  have v: "unat v < 256" using unsigned_less [of v, where ?'a = nat] by simp
  have u: "unat (ucast v :: uint) = unat v" using v by (simp add: unat_ucast_fits)
  have w: "of_nat (unat v) = (ucast v :: uint)" "\<not> (ucast v :: uint) > 0xFF" "ucast (ucast v :: uint) = v"
    using v u by (simp_all add: word_less_nat_alt word_unat_eq_iff unat_of_nat_small unat_ucast_fits)
  obtain t where t: "disrsi' ops s False 0 = (DIS_SUCCESS, False, ucast v, t)"
    "moved_exact s t (wire_u (unat v))" "calm t" "avail t = rest"
    using disrs'_wire [OF umax_for_uint s(1,2,4), of True False 0] v w(1)
    by (auto simp: disrsi'_def)
  obtain u where "disr_finish ops (DIS_SUCCESS, v, t) = (DIS_SUCCESS, v, u)" "invar u" "calm u" "taken u = []"
    "avail u = avail t" "outp u = outp s" "pend u = pend s"
    using disr_finish_live [OF t(2) s(3) t(3)] .
  then show "\<exists>u. disruc ops s = (DIS_SUCCESS, v, u) \<and> invar u \<and> calm u \<and> taken u = [] \<and> avail u = rest
      \<and> outp u = outp s \<and> pend u = pend s"
    using t w(2,3) by (simp add: disruc_def)
qed

end

end
