(* ===== verification/Tcp_Dis.thy ===== *)
theory Tcp_Dis
  imports Dis_Live
begin

text \<open>
  The TCP transport of DIS (\<open>src/src/lib/Libifl/tcp_dis.c\<close>): a read and a write buffer
  per file descriptor, each with a committed mark (\<open>tdis_trail\<close>), a current position
  (\<open>tdis_lead\<close>) and an end of data (\<open>tdis_eod\<close>).

  The socket is the environment: per descriptor a script of the outcomes of the successive
  completed \<open>poll\<close>/\<open>CS_read\<close> and \<open>CS_write\<close> calls (calls interrupted by
  a signal are repeated by the code and are not listed), and the bytes the kernel accepted. A
  script that ends means a peer that sends nothing more, respectively a kernel that accepts
  everything. \<open>mal n\<close> says whether \<open>realloc\<close> of \<open>n\<close> bytes succeeds. Fresh
  memory has unspecified contents in C; here it holds NUL bytes, which no operation reads
  before they are overwritten.

  The second part proves that this transport meets the contracts \<open>dis_stream\<close>,
  \<open>dis_sink\<close> and \<open>dis_source\<close>.
\<close>

section \<open>State\<close>

definition THE_BUF_SIZE :: nat where "THE_BUF_SIZE = 1024"

record tcpdisbuf =
  tdis_lead :: nat
  tdis_trail :: nat
  tdis_eod :: nat
  tdis_bufsize :: nat
  tdis_thebuf :: string

record tcp_chan =
  readbuf :: tcpdisbuf
  writebuf :: tcpdisbuf

datatype net_in = InTimeout | InPollErr | InReadErr | InEof | InData string

datatype poll_end = PollReady | PollTimeout | PollErr

datatype net_out = OutAccept nat | OutFail | OutAgain poll_end

record tcp_state =
  tcparray :: "tcp_chan option list"
  sock_in :: "nat \<Rightarrow> net_in list"
  sock_out :: "nat \<Rightarrow> net_out list"
  sent :: "nat \<Rightarrow> string"

text \<open>\<open>size_t\<close> subtraction wraps around.\<close>

definition size_sub :: "nat \<Rightarrow> nat \<Rightarrow> nat" where
  "size_sub a b = (if b \<le> a then a - b else a + 2 ^ 64 - b)"

text \<open>\<open>memcpy\<close> into a block at an offset, and \<open>realloc\<close>.\<close>

definition store_at :: "string \<Rightarrow> nat \<Rightarrow> string \<Rightarrow> string" where
  "store_at buf pos d = take pos buf @ d @ drop (pos + length d) buf"

definition c_realloc :: "string \<Rightarrow> nat \<Rightarrow> string" where
  "c_realloc buf n = take n buf @ replicate (n - length buf) NUL"

definition the_chan :: "nat \<Rightarrow> tcp_state \<Rightarrow> tcp_chan" where
  "the_chan fd st = the (tcparray st ! fd)"

definition tcp_get_readbuf :: "nat \<Rightarrow> tcp_state \<Rightarrow> tcpdisbuf" where
  "tcp_get_readbuf fd st = readbuf (the_chan fd st)"

definition tcp_get_writebuf :: "nat \<Rightarrow> tcp_state \<Rightarrow> tcpdisbuf" where
  "tcp_get_writebuf fd st = writebuf (the_chan fd st)"

text \<open>Assignment through the pointers these two return.\<close>

definition set_readbuf :: "nat \<Rightarrow> tcpdisbuf \<Rightarrow> tcp_state \<Rightarrow> tcp_state" where
  "set_readbuf fd tp st = st\<lparr>tcparray := (tcparray st)[fd := Some ((the_chan fd st)\<lparr>readbuf := tp\<rparr>)]\<rparr>"

definition set_writebuf :: "nat \<Rightarrow> tcpdisbuf \<Rightarrow> tcp_state \<Rightarrow> tcp_state" where
  "set_writebuf fd tp st = st\<lparr>tcparray := (tcparray st)[fd := Some ((the_chan fd st)\<lparr>writebuf := tp\<rparr>)]\<rparr>"

section \<open>Operations\<close>

definition tcp_pack_buff :: "tcpdisbuf \<Rightarrow> tcpdisbuf" where
  "tcp_pack_buff tp =
     (let start = tdis_trail tp in
      if start \<noteq> 0 then
        let amt = size_sub (tdis_eod tp) start in
        tp\<lparr>tdis_thebuf := fold (\<lambda>i b. b[i := b ! (i + start)]) [0..<amt] (tdis_thebuf tp),
           tdis_lead := size_sub (tdis_lead tp) start,
           tdis_trail := size_sub (tdis_trail tp) start,
           tdis_eod := size_sub (tdis_eod tp) start\<rparr>
      else tp)"

text \<open>The \<open>poll\<close> and \<open>CS_read\<close> calls of \<open>tcp_read\<close>, with \<open>n\<close> bytes of room.\<close>

fun cs_read :: "nat \<Rightarrow> net_in list \<Rightarrow> int \<times> string \<times> net_in list" where
  "cs_read n [] = (0, [], [])"
| "cs_read n (InTimeout # es) = (0, [], es)"
| "cs_read n (InPollErr # es) = (- 1, [], es)"
| "cs_read n (InReadErr # es) = (- 1, [], es)"
| "cs_read n (InEof # es) = (- 2, [], InEof # es)"
| "cs_read n (InData d # es) =
     (if d = [] \<or> n = 0 then (- 2, [], InData d # es)
      else if length d \<le> n then (int (length d), d, es)
      else (int n, take n d, InData (drop n d) # es))"

definition tcp_read :: "(nat \<Rightarrow> bool) \<Rightarrow> nat \<Rightarrow> tcp_state \<Rightarrow> int \<times> tcp_state" where
  "tcp_read mal fd st =
     (let tp = tcp_pack_buff (tcp_get_readbuf fd st);
          small = size_sub (tdis_bufsize tp) (tdis_eod tp) < 20;
          tp = (if small then tp\<lparr>tdis_bufsize := tdis_bufsize tp + THE_BUF_SIZE\<rparr> else tp)
      in if small \<and> \<not> mal (tdis_bufsize tp) then (- 1, set_readbuf fd tp st)
         else
           let tp = (if small then tp\<lparr>tdis_thebuf := c_realloc (tdis_thebuf tp) (tdis_bufsize tp)\<rparr> else tp);
               (i, d, es) = cs_read (size_sub (tdis_bufsize tp) (tdis_eod tp)) (sock_in st fd);
               tp = (if i > 0 then tp\<lparr>tdis_thebuf := store_at (tdis_thebuf tp) (tdis_eod tp) d,
                                      tdis_eod := tdis_eod tp + length d\<rparr> else tp)
           in (i, set_readbuf fd tp (st\<lparr>sock_in := (sock_in st)(fd := es)\<rparr>)))"

text \<open>The write loop of \<open>DIS_tcp_wflush\<close>: whether all of \<open>pb\<close> went out, and what did.\<close>

fun cs_write_loop :: "string \<Rightarrow> net_out list \<Rightarrow> bool \<times> string \<times> net_out list" where
  "cs_write_loop pb [] = (True, pb, [])"
| "cs_write_loop pb (OutAccept n # es) =
     (if length pb \<le> n then (True, pb, es)
      else let (ok, w, es') = cs_write_loop (drop n pb) es in (ok, take n pb @ w, es'))"
| "cs_write_loop pb (OutFail # es) = (False, [], es)"
| "cs_write_loop pb (OutAgain PollReady # es) = cs_write_loop pb es"
| "cs_write_loop pb (OutAgain PollTimeout # es) = (False, [], es)"
| "cs_write_loop pb (OutAgain PollErr # es) = (False, [], es)"

definition DIS_tcp_wflush :: "nat \<Rightarrow> tcp_state \<Rightarrow> int \<times> tcp_state" where
  "DIS_tcp_wflush fd st =
     (let tp = tcp_get_writebuf fd st; ct = tdis_trail tp in
      if ct = 0 then (0, st)
      else
        let (ok, w, es) = cs_write_loop (take ct (tdis_thebuf tp)) (sock_out st fd);
            st = st\<lparr>sock_out := (sock_out st)(fd := es), sent := (sent st)(fd := sent st fd @ w)\<rparr>
        in if \<not> ok then (- 1, st)
           else (0, set_writebuf fd (tcp_pack_buff (tp\<lparr>tdis_eod := tdis_lead tp\<rparr>)) st))"

definition DIS_tcp_clear :: "tcpdisbuf \<Rightarrow> tcpdisbuf" where
  "DIS_tcp_clear tp = tp\<lparr>tdis_lead := 0, tdis_trail := 0, tdis_eod := 0\<rparr>"

definition DIS_tcp_reset :: "nat \<Rightarrow> int \<Rightarrow> tcp_state \<Rightarrow> tcp_state" where
  "DIS_tcp_reset fd i st =
     (if i = 0 then set_readbuf fd (DIS_tcp_clear (tcp_get_readbuf fd st)) st
      else set_writebuf fd (DIS_tcp_clear (tcp_get_writebuf fd st)) st)"

definition tcp_rskip :: "nat \<Rightarrow> tcp_state \<Rightarrow> nat \<Rightarrow> int \<times> tcp_state" where
  "tcp_rskip fd st ct =
     (let tp = tcp_get_readbuf fd st;
          ct = (if size_sub (tdis_lead tp) (tdis_eod tp) < ct then size_sub (tdis_lead tp) (tdis_eod tp) else ct)
      in (sint (of_nat ct :: uint), set_readbuf fd (tp\<lparr>tdis_lead := tdis_lead tp + ct\<rparr>) st))"

definition tcp_getc :: "(nat \<Rightarrow> bool) \<Rightarrow> nat \<Rightarrow> tcp_state \<Rightarrow> int \<times> tcp_state" where
  "tcp_getc mal fd st =
     (let tp = tcp_get_readbuf fd st;
          (x, st) = (if tdis_lead tp \<ge> tdis_eod tp then tcp_read mal fd st else (1, st))
      in if x \<le> 0 then (if x = - 2 then - 2 else - 1, st)
         else let tp = tcp_get_readbuf fd st
              in (schar (tdis_thebuf tp ! tdis_lead tp), set_readbuf fd (tp\<lparr>tdis_lead := tdis_lead tp + 1\<rparr>) st))"

text \<open>The bytes a script still delivers bound the number of successful reads.\<close>

fun net_bytes :: "net_in list \<Rightarrow> nat" where
  "net_bytes [] = 0"
| "net_bytes (InData d # es) = length d + net_bytes es"
| "net_bytes (e # es) = net_bytes es"

lemma cs_read_bytes: "cs_read n es = (i, d, es') \<Longrightarrow> i > 0 \<Longrightarrow> net_bytes es' < net_bytes es"
  by (cases "(n, es)" rule: cs_read.cases) (auto split: if_splits)

lemma sock_in_set_readbuf [simp]: "sock_in (set_readbuf fd tp st) = sock_in st"
  by (simp add: set_readbuf_def)

lemma tcp_read_bytes:
  "tcp_read mal fd st = (i, st') \<Longrightarrow> i > 0 \<Longrightarrow> net_bytes (sock_in st' fd) < net_bytes (sock_in st fd)"
  by (auto simp: tcp_read_def Let_def split: if_splits prod.splits dest: cs_read_bytes)

text \<open>The loop \<open>while (tdis_eod - tdis_lead < ct) { x = tcp_read(fd); if (x <= 0) return x; }\<close>.\<close>

function tcp_fill :: "(nat \<Rightarrow> bool) \<Rightarrow> nat \<Rightarrow> tcp_state \<Rightarrow> nat \<Rightarrow> int \<times> tcp_state" where
  "tcp_fill mal fd st ct =
     (let tp = tcp_get_readbuf fd st in
      if size_sub (tdis_eod tp) (tdis_lead tp) < ct then
        (case tcp_read mal fd st of (x, st') \<Rightarrow> if x \<le> 0 then (x, st') else tcp_fill mal fd st' ct)
      else (1, st))"
  by pat_completeness auto
termination
  by (relation "measure (\<lambda>(mal, fd, st, ct). net_bytes (sock_in st fd))") (auto dest: tcp_read_bytes [OF sym])

declare tcp_fill.simps [simp del]

definition tcp_gets :: "(nat \<Rightarrow> bool) \<Rightarrow> nat \<Rightarrow> tcp_state \<Rightarrow> nat \<Rightarrow> int \<times> string \<times> tcp_state" where
  "tcp_gets mal fd st ct =
     (let (x, st) = tcp_fill mal fd st ct in
      if x \<le> 0 then (x, [], st)
      else let tp = tcp_get_readbuf fd st
           in (sint (of_nat ct :: uint), take ct (drop (tdis_lead tp) (tdis_thebuf tp)),
               set_readbuf fd (tp\<lparr>tdis_lead := tdis_lead tp + ct\<rparr>) st))"

definition tcp_puts :: "(nat \<Rightarrow> bool) \<Rightarrow> nat \<Rightarrow> tcp_state \<Rightarrow> string \<Rightarrow> int \<times> tcp_state" where
  "tcp_puts mal fd st str =
     (let ct = length str;
          tp = tcp_get_writebuf fd st;
          full = size_sub (tdis_bufsize tp) (tdis_lead tp) < ct;
          (r, st) = (if full then DIS_tcp_wflush fd st else (0, st))
      in if r < 0 then (- 1, st)
         else
           let tp = tcp_get_writebuf fd st;
               grow = full \<and> size_sub (tdis_bufsize tp) (tdis_lead tp) < ct;
               tp = (if grow then tp\<lparr>tdis_bufsize := ((ct + tdis_lead tp) div THE_BUF_SIZE + 1) * THE_BUF_SIZE\<rparr> else tp)
           in if grow \<and> \<not> mal (tdis_bufsize tp) then (- 1, set_writebuf fd tp st)
              else
                let tp = (if grow then tp\<lparr>tdis_thebuf := c_realloc (tdis_thebuf tp) (tdis_bufsize tp)\<rparr> else tp)
                in (sint (of_nat ct :: uint),
                    set_writebuf fd (tp\<lparr>tdis_thebuf := store_at (tdis_thebuf tp) (tdis_lead tp) str,
                                        tdis_lead := tdis_lead tp + ct\<rparr>) st))"

definition tcp_rcommit :: "nat \<Rightarrow> tcp_state \<Rightarrow> bool \<Rightarrow> int \<times> tcp_state" where
  "tcp_rcommit fd st commit_flag =
     (let tp = tcp_get_readbuf fd st
      in (0, set_readbuf fd (if commit_flag then tp\<lparr>tdis_trail := tdis_lead tp\<rparr>
                             else tp\<lparr>tdis_lead := tdis_trail tp\<rparr>) st))"

definition tcp_wcommit :: "nat \<Rightarrow> tcp_state \<Rightarrow> bool \<Rightarrow> int \<times> tcp_state" where
  "tcp_wcommit fd st commit_flag =
     (let tp = tcp_get_writebuf fd st
      in (0, set_writebuf fd (if commit_flag then tp\<lparr>tdis_trail := tdis_lead tp\<rparr>
                              else tp\<lparr>tdis_lead := tdis_trail tp\<rparr>) st))"

text \<open>\<open>DIS_tcp_funcs\<close>: the function pointers of DIS set to this transport.\<close>

definition DIS_tcp_funcs :: "(nat \<Rightarrow> bool) \<Rightarrow> nat \<Rightarrow> tcp_state dis_ops" where
  "DIS_tcp_funcs mal fd =
     \<lparr>dis_getc = tcp_getc mal fd, dis_gets = tcp_gets mal fd, dis_puts = tcp_puts mal fd,
      disr_skip = tcp_rskip fd, disr_commit = tcp_rcommit fd, disw_commit = tcp_wcommit fd,
      c_malloc = (\<lambda>st n. (mal n, st))\<rparr>"

text \<open>
  \<open>DIS_tcp_setup\<close>: the array grows to \<open>fd + 10\<close> entries when the descriptor is
  beyond it, and a channel is allocated on first use (allocation failure is an
  \<open>assert\<close>).
\<close>

definition new_tcpdisbuf :: tcpdisbuf where
  "new_tcpdisbuf = \<lparr>tdis_lead = 0, tdis_trail = 0, tdis_eod = 0, tdis_bufsize = THE_BUF_SIZE,
     tdis_thebuf = replicate THE_BUF_SIZE NUL\<rparr>"

definition DIS_tcp_setup :: "int \<Rightarrow> tcp_state \<Rightarrow> tcp_state" where
  "DIS_tcp_setup fd st =
     (if fd < 0 then st
      else
        let n = nat fd;
            arr = (if n \<ge> length (tcparray st)
                   then tcparray st @ replicate (n + 10 - length (tcparray st)) None else tcparray st);
            tcp = (case arr ! n of None \<Rightarrow> \<lparr>readbuf = new_tcpdisbuf, writebuf = new_tcpdisbuf\<rparr> | Some tcp \<Rightarrow> tcp)
        in st\<lparr>tcparray := arr[n := Some (tcp\<lparr>readbuf := DIS_tcp_clear (readbuf tcp),
                                              writebuf := DIS_tcp_clear (writebuf tcp)\<rparr>)]\<rparr>)"

section \<open>Views and the buffer invariant\<close>

fun net_avail :: "net_in list \<Rightarrow> string" where
  "net_avail (InData d # es) = d @ net_avail es"
| "net_avail _ = []"

definition wf_readbuf :: "tcpdisbuf \<Rightarrow> bool" where
  "wf_readbuf tp \<longleftrightarrow> tdis_trail tp \<le> tdis_lead tp \<and> tdis_lead tp \<le> tdis_eod tp \<and>
     tdis_eod tp \<le> tdis_bufsize tp \<and> tdis_bufsize tp = length (tdis_thebuf tp)"

definition wf_writebuf :: "tcpdisbuf \<Rightarrow> bool" where
  "wf_writebuf tp \<longleftrightarrow> tdis_trail tp \<le> tdis_lead tp \<and> tdis_lead tp \<le> tdis_bufsize tp \<and>
     tdis_bufsize tp = length (tdis_thebuf tp)"

definition tcp_ok :: "nat \<Rightarrow> tcp_state \<Rightarrow> bool" where
  "tcp_ok fd st \<longleftrightarrow> fd < length (tcparray st) \<and> tcparray st ! fd \<noteq> None \<and>
     wf_readbuf (tcp_get_readbuf fd st) \<and> wf_writebuf (tcp_get_writebuf fd st) \<and>
     InData [] \<notin> set (sock_in st fd)"

definition slice :: "nat \<Rightarrow> nat \<Rightarrow> 'a list \<Rightarrow> 'a list" where
  "slice a b xs = take (b - a) (drop a xs)"

definition tcp_taken :: "nat \<Rightarrow> tcp_state \<Rightarrow> string" where
  "tcp_taken fd st = (let tp = tcp_get_readbuf fd st in slice (tdis_trail tp) (tdis_lead tp) (tdis_thebuf tp))"

definition tcp_avail :: "nat \<Rightarrow> tcp_state \<Rightarrow> string" where
  "tcp_avail fd st = (let tp = tcp_get_readbuf fd st
     in slice (tdis_lead tp) (tdis_eod tp) (tdis_thebuf tp) @ net_avail (sock_in st fd))"

definition tcp_outp :: "nat \<Rightarrow> tcp_state \<Rightarrow> string" where
  "tcp_outp fd st = (let tp = tcp_get_writebuf fd st in sent st fd @ take (tdis_trail tp) (tdis_thebuf tp))"

definition tcp_pend :: "nat \<Rightarrow> tcp_state \<Rightarrow> string" where
  "tcp_pend fd st = (let tp = tcp_get_writebuf fd st in slice (tdis_trail tp) (tdis_lead tp) (tdis_thebuf tp))"

text \<open>A kernel that accepts output, in whatever portions.\<close>

definition tcp_calm :: "nat \<Rightarrow> tcp_state \<Rightarrow> bool" where
  "tcp_calm fd st \<longleftrightarrow> (\<forall>e \<in> set (sock_out st fd). \<exists>n. e = OutAccept n)"

lemmas tcp_views = tcp_taken_def tcp_avail_def tcp_outp_def tcp_pend_def Let_def

subsection \<open>Buffer updates\<close>

lemma get_set_buf [simp]:
  assumes "fd < length (tcparray st)"
  shows "tcp_get_readbuf fd (set_readbuf fd tp st) = tp"
    "tcp_get_writebuf fd (set_readbuf fd tp st) = tcp_get_writebuf fd st"
    "tcp_get_writebuf fd (set_writebuf fd tp st) = tp"
    "tcp_get_readbuf fd (set_writebuf fd tp st) = tcp_get_readbuf fd st"
  using assms
  by (simp_all add: tcp_get_readbuf_def tcp_get_writebuf_def set_readbuf_def set_writebuf_def the_chan_def)

lemma set_buf_env [simp]:
  "sock_in (set_writebuf fd tp st) = sock_in st"
  "sock_out (set_readbuf fd tp st) = sock_out st" "sock_out (set_writebuf fd tp st) = sock_out st"
  "sent (set_readbuf fd tp st) = sent st" "sent (set_writebuf fd tp st) = sent st"
  "length (tcparray (set_readbuf fd tp st)) = length (tcparray st)"
  "length (tcparray (set_writebuf fd tp st)) = length (tcparray st)"
  by (simp_all add: set_readbuf_def set_writebuf_def)

lemma get_buf_env [simp]:
  "tcp_get_readbuf fd (sock_in_update f st) = tcp_get_readbuf fd st"
  "tcp_get_writebuf fd (sock_in_update f st) = tcp_get_writebuf fd st"
  "tcp_get_readbuf fd (sock_out_update g st) = tcp_get_readbuf fd st"
  "tcp_get_writebuf fd (sock_out_update g st) = tcp_get_writebuf fd st"
  "tcp_get_readbuf fd (sent_update h st) = tcp_get_readbuf fd st"
  "tcp_get_writebuf fd (sent_update h st) = tcp_get_writebuf fd st"
  by (simp_all add: tcp_get_readbuf_def tcp_get_writebuf_def the_chan_def)

lemma set_buf_Some [simp]:
  "fd < length (tcparray st) \<Longrightarrow> tcparray (set_readbuf fd tp st) ! fd \<noteq> None"
  "fd < length (tcparray st) \<Longrightarrow> tcparray (set_writebuf fd tp st) ! fd \<noteq> None"
  by (simp_all add: set_readbuf_def set_writebuf_def)

lemma length_slice [simp]: "b \<le> length xs \<Longrightarrow> length (slice a b xs) = b - a"
  by (simp add: slice_def)

lemma slice_append: "a \<le> b \<Longrightarrow> b \<le> c \<Longrightarrow> c \<le> length xs \<Longrightarrow> slice a b xs @ slice b c xs = slice a c xs"
proof -
  assume *: "a \<le> b" "b \<le> c" "c \<le> length xs"
  have "slice a c xs = take (b - a) (drop a xs) @ take (c - b) (drop (b - a) (drop a xs))"
    using * unfolding slice_def by (metis Nat.diff_add_assoc2 add.commute diff_add_inverse2 le_add_diff_inverse take_add)
  then show ?thesis using * by (simp add: slice_def)
qed

lemma slice_0: "slice 0 b xs = take b xs"
  by (simp add: slice_def)

lemma slice_Cons: "a < b \<Longrightarrow> b \<le> length xs \<Longrightarrow> slice a b xs = xs ! a # slice (Suc a) b xs"
proof -
  assume *: "a < b" "b \<le> length xs"
  then have "drop a xs = xs ! a # drop (Suc a) xs" by (simp add: Cons_nth_drop_Suc)
  moreover have "b - a = Suc (b - Suc a)" using * by simp
  ultimately show ?thesis by (simp add: slice_def)
qed

lemma pack_loop:
  "start + amt \<le> length buf \<Longrightarrow>
   fold (\<lambda>i b. b[i := b ! (i + start)]) [0..<amt] buf = take amt (drop start buf) @ drop amt buf"
proof (induction amt)
  case (Suc n)
  let ?b = "take n (drop start buf) @ drop n buf"
  have len: "length (take n (drop start buf)) = n" using Suc.prems by simp
  have "?b ! (n + start) = buf ! (n + start)"
    using Suc.prems len by (simp add: nth_append)
  moreover have "drop n buf = buf ! n # drop (Suc n) buf"
    using Suc.prems by (simp add: Cons_nth_drop_Suc)
  moreover have "take (Suc n) (drop start buf) = take n (drop start buf) @ [buf ! (n + start)]"
    using Suc.prems by (simp add: take_Suc_conv_app_nth add.commute)
  ultimately show ?case
    using Suc len by (simp add: list_update_append)
qed simp

lemma pack_buff_eq:
  assumes "tdis_trail tp \<le> tdis_lead tp" "tdis_trail tp \<le> tdis_eod tp" "tdis_eod tp \<le> length (tdis_thebuf tp)"
  shows "tcp_pack_buff tp = tp\<lparr>tdis_lead := tdis_lead tp - tdis_trail tp, tdis_trail := 0,
      tdis_eod := tdis_eod tp - tdis_trail tp,
      tdis_thebuf := slice (tdis_trail tp) (tdis_eod tp) (tdis_thebuf tp)
        @ drop (tdis_eod tp - tdis_trail tp) (tdis_thebuf tp)\<rparr>"
  using assms
  by (cases tp; cases "tdis_trail tp = 0")
    (simp_all add: tcp_pack_buff_def Let_def size_sub_def pack_loop slice_def)

lemma slice_left:
  "b \<le> length xs \<Longrightarrow> slice a b (xs @ ys) = slice a b xs"
  by (simp add: slice_def)

lemma slice_slice: "a \<le> b \<Longrightarrow> b \<le> c \<Longrightarrow> c \<le> length xs \<Longrightarrow> t \<le> a \<Longrightarrow> slice (a - t) (b - t) (slice t c xs) = slice a b xs"
  by (simp add: slice_def drop_take min_def)

subsection \<open>Reading from the socket\<close>

lemma cs_read_avail:
  assumes "cs_read n es = (i, d, es')" "InData [] \<notin> set es" "0 < n"
  shows "(i > 0 \<longrightarrow> i = int (length d) \<and> length d \<le> n \<and> d \<noteq> [] \<and> net_avail es = d @ net_avail es')"
    and "(i \<le> 0 \<longrightarrow> i \<in> {0, - 1, - 2} \<and> net_avail es = [])"
    and "InData [] \<notin> set es'"
  using assms by (cases "(n, es)" rule: cs_read.cases; auto split: if_splits)+

text \<open>
  One \<open>tcp_read\<close>: the unread and uncommitted characters are kept, what can be read only
  grows, and a positive result made at least one more character readable in the buffer.
\<close>

lemma store_at_slice:
  assumes "pos + length d \<le> length buf"
  shows "length (store_at buf pos d) = length buf"
    "b \<le> pos \<Longrightarrow> slice a b (store_at buf pos d) = slice a b buf"
    "a \<le> pos \<Longrightarrow> slice a (pos + length d) (store_at buf pos d) = slice a pos buf @ d"
    "b \<le> pos \<Longrightarrow> take b (store_at buf pos d) = take b buf"
proof -
  let ?p = "take pos buf"
  have p: "length ?p = pos" using assms by simp
  have left: "slice a b (store_at buf pos d) = slice a b buf" if "b \<le> pos" for a b
    using that p slice_left [of b ?p a "d @ drop (pos + length d) buf"] slice_left [of b ?p a "drop pos buf"]
    by (simp add: store_at_def)
  show len: "length (store_at buf pos d) = length buf"
    using assms p by (simp only: store_at_def length_append length_drop)
  show "b \<le> pos \<Longrightarrow> slice a b (store_at buf pos d) = slice a b buf" by (rule left)
  show "b \<le> pos \<Longrightarrow> take b (store_at buf pos d) = take b buf"
    using left [of b 0] by (simp add: slice_0)
  assume "a \<le> pos"
  then have "slice a (pos + length d) (store_at buf pos d) =
      slice a pos (store_at buf pos d) @ slice pos (pos + length d) (store_at buf pos d)"
    using assms len by (intro slice_append [symmetric]) simp_all
  moreover have "slice pos (pos + length d) (store_at buf pos d) = d"
    using p by (simp add: slice_def store_at_def)
  ultimately show "slice a (pos + length d) (store_at buf pos d) = slice a pos buf @ d"
    using left by simp
qed

lemma c_realloc_grow:
  assumes "length buf \<le> n"
  shows "length (c_realloc buf n) = n" "b \<le> length buf \<Longrightarrow> slice a b (c_realloc buf n) = slice a b buf"
    "b \<le> length buf \<Longrightarrow> take b (c_realloc buf n) = take b buf"
  using assms by (simp_all add: c_realloc_def slice_def)

text \<open>A read buffer seen as the characters taken, the characters unread and the room left.\<close>

definition buf_view :: "tcpdisbuf \<Rightarrow> string \<times> string" where
  "buf_view tp = (slice (tdis_trail tp) (tdis_lead tp) (tdis_thebuf tp), slice (tdis_lead tp) (tdis_eod tp) (tdis_thebuf tp))"

lemma pack_readbuf:
  assumes "wf_readbuf tp"
  shows "wf_readbuf (tcp_pack_buff tp)" "buf_view (tcp_pack_buff tp) = buf_view tp"
proof -
  let ?t = "tdis_trail tp" and ?l = "tdis_lead tp" and ?e = "tdis_eod tp" and ?b = "tdis_thebuf tp"
  have le: "?t \<le> ?l" "?l \<le> ?e" "?e \<le> length ?b" "tdis_bufsize tp = length ?b"
    using assms by (simp_all add: wf_readbuf_def)
  have eq: "tcp_pack_buff tp = tp\<lparr>tdis_lead := ?l - ?t, tdis_trail := 0, tdis_eod := ?e - ?t,
      tdis_thebuf := slice ?t ?e ?b @ drop (?e - ?t) ?b\<rparr>"
    by (rule pack_buff_eq) (use le in simp_all)
  show "wf_readbuf (tcp_pack_buff tp)" using le by (auto simp: eq wf_readbuf_def)
  have "slice 0 (?l - ?t) (slice ?t ?e ?b) = slice ?t ?l ?b"
    using slice_slice [of ?t ?l ?e ?b ?t] le by simp
  moreover have "slice (?l - ?t) (?e - ?t) (slice ?t ?e ?b) = slice ?l ?e ?b"
    using slice_slice [of ?l ?e ?e ?b ?t] le by simp
  ultimately show "buf_view (tcp_pack_buff tp) = buf_view tp"
    using le by (simp add: eq buf_view_def slice_left)
qed

definition read_more :: "tcpdisbuf \<Rightarrow> string \<Rightarrow> tcpdisbuf" where
  "read_more tp d = tp\<lparr>tdis_thebuf := store_at (tdis_thebuf tp) (tdis_eod tp) d, tdis_eod := tdis_eod tp + length d\<rparr>"

lemma read_more_view:
  assumes "wf_readbuf tp" "tdis_eod tp + length d \<le> tdis_bufsize tp"
  shows "wf_readbuf (read_more tp d)" "buf_view (read_more tp d) = (fst (buf_view tp), snd (buf_view tp) @ d)"
  using assms store_at_slice [of "tdis_eod tp" d "tdis_thebuf tp"]
  by (simp_all add: wf_readbuf_def read_more_def buf_view_def)

definition grow_readbuf :: "tcpdisbuf \<Rightarrow> tcpdisbuf" where
  "grow_readbuf tp = (if size_sub (tdis_bufsize tp) (tdis_eod tp) < 20
     then tp\<lparr>tdis_bufsize := tdis_bufsize tp + THE_BUF_SIZE,
             tdis_thebuf := c_realloc (tdis_thebuf tp) (tdis_bufsize tp + THE_BUF_SIZE)\<rparr> else tp)"

lemma grow_readbuf_view:
  assumes "wf_readbuf tp"
  shows "wf_readbuf (grow_readbuf tp)" "buf_view (grow_readbuf tp) = buf_view tp"
    "tdis_eod (grow_readbuf tp) + 20 \<le> tdis_bufsize (grow_readbuf tp)"
  using assms c_realloc_grow [of "tdis_thebuf tp" "tdis_bufsize tp + THE_BUF_SIZE"]
  by (auto simp: wf_readbuf_def grow_readbuf_def buf_view_def size_sub_def THE_BUF_SIZE_def)

lemma tcp_read_eq:
  assumes "\<And>n. mal n"
  shows "tcp_read mal fd st =
    (let tp = grow_readbuf (tcp_pack_buff (tcp_get_readbuf fd st));
         (i, d, es) = cs_read (size_sub (tdis_bufsize tp) (tdis_eod tp)) (sock_in st fd)
     in (i, set_readbuf fd (if i > 0 then read_more tp d else tp) (st\<lparr>sock_in := (sock_in st)(fd := es)\<rparr>)))"
  using assms by (simp add: tcp_read_def grow_readbuf_def read_more_def Let_def split: prod.splits)

lemma tcp_view_buf:
  "tcp_taken fd st = fst (buf_view (tcp_get_readbuf fd st))"
  "tcp_avail fd st = snd (buf_view (tcp_get_readbuf fd st)) @ net_avail (sock_in st fd)"
  by (simp_all add: tcp_views buf_view_def)

lemma tcp_ok_readbuf:
  assumes "tcp_ok fd st" "wf_readbuf tp" "InData [] \<notin> set es"
  shows "tcp_ok fd (set_readbuf fd tp (st\<lparr>sock_in := (sock_in st)(fd := es)\<rparr>))"
  using assms by (simp add: tcp_ok_def)

lemma tcp_ok_set_readbuf:
  "tcp_ok fd st \<Longrightarrow> wf_readbuf tp \<Longrightarrow> tcp_ok fd (set_readbuf fd tp st)"
  by (simp add: tcp_ok_def)

lemma tcp_ok_set_writebuf:
  "tcp_ok fd st \<Longrightarrow> wf_writebuf tp \<Longrightarrow> tcp_ok fd (set_writebuf fd tp st)"
  by (simp add: tcp_ok_def)

lemma tcp_okD:
  assumes "tcp_ok fd st"
  shows "fd < length (tcparray st)" "wf_readbuf (tcp_get_readbuf fd st)"
    "wf_writebuf (tcp_get_writebuf fd st)" "InData [] \<notin> set (sock_in st fd)"
  using assms by (simp_all add: tcp_ok_def)

text \<open>The fields a reading operation leaves alone.\<close>

definition same_write :: "nat \<Rightarrow> tcp_state \<Rightarrow> tcp_state \<Rightarrow> bool" where
  "same_write fd st st' \<longleftrightarrow> tcp_get_writebuf fd st' = tcp_get_writebuf fd st \<and> sock_out st' = sock_out st \<and> sent st' = sent st"

lemma same_write_views:
  "same_write fd st st' \<Longrightarrow> tcp_outp fd st' = tcp_outp fd st \<and> tcp_pend fd st' = tcp_pend fd st \<and>
     tcp_calm fd st' = tcp_calm fd st"
  by (simp add: same_write_def tcp_views tcp_calm_def)

lemma same_write_trans: "same_write fd a b \<Longrightarrow> same_write fd b c \<Longrightarrow> same_write fd a c"
  by (simp add: same_write_def)

lemma tcp_read_law:
  assumes "\<And>n. mal n" "tcp_ok fd st" "tcp_read mal fd st = (i, st')"
  shows "tcp_ok fd st'" "same_write fd st st'" "tcp_taken fd st' = tcp_taken fd st"
    and "i > 0 \<Longrightarrow> tcp_avail fd st' = tcp_avail fd st \<and>
      length (snd (buf_view (tcp_get_readbuf fd st'))) > length (snd (buf_view (tcp_get_readbuf fd st)))"
    and "i \<le> 0 \<Longrightarrow> i \<in> {0, - 1, - 2} \<and> net_avail (sock_in st fd) = [] \<and> prefix (tcp_avail fd st) (tcp_avail fd st')"
proof -
  define tp where "tp = grow_readbuf (tcp_pack_buff (tcp_get_readbuf fd st))"
  note fd = tcp_okD(1) [OF assms(2)] and wf = tcp_okD(2) [OF assms(2)] and ne = tcp_okD(4) [OF assms(2)]
  have tp: "wf_readbuf tp" "buf_view tp = buf_view (tcp_get_readbuf fd st)" "tdis_eod tp + 20 \<le> tdis_bufsize tp"
    using grow_readbuf_view [OF pack_readbuf(1) [OF wf]] pack_readbuf(2) [OF wf] by (simp_all add: tp_def)
  let ?room = "size_sub (tdis_bufsize tp) (tdis_eod tp)"
  have room: "?room = tdis_bufsize tp - tdis_eod tp" "0 < ?room" using tp(3) by (simp_all add: size_sub_def)
  obtain j d es where c: "cs_read ?room (sock_in st fd) = (j, d, es)" by (cases "cs_read ?room (sock_in st fd)")
  have eq: "i = j" "st' = set_readbuf fd (if j > 0 then read_more tp d else tp) (st\<lparr>sock_in := (sock_in st)(fd := es)\<rparr>)"
    using assms(3) c by (auto simp: tcp_read_eq [OF assms(1)] tp_def [symmetric] Let_def)
  note av = cs_read_avail [OF c ne room(2)]
  have more: "wf_readbuf (read_more tp d)" "buf_view (read_more tp d) = (fst (buf_view tp), snd (buf_view tp) @ d)" if "j > 0"
    using read_more_view [OF tp(1), of d] av(1) that room(1) tp(3) by auto
  show "tcp_ok fd st'"
    using more(1) tp(1) av(3) tcp_ok_readbuf [OF assms(2)] by (simp add: eq(2))
  show "same_write fd st st'" using fd by (simp add: eq(2) same_write_def)
  show "tcp_taken fd st' = tcp_taken fd st"
    using more(2) tp(2) fd by (simp add: eq(2) tcp_view_buf)
  show "i > 0 \<Longrightarrow> tcp_avail fd st' = tcp_avail fd st \<and>
      length (snd (buf_view (tcp_get_readbuf fd st'))) > length (snd (buf_view (tcp_get_readbuf fd st)))"
    using more(2) tp(2) fd av(1) by (simp add: eq tcp_view_buf)
  show "i \<le> 0 \<Longrightarrow> i \<in> {0, - 1, - 2} \<and> net_avail (sock_in st fd) = [] \<and> prefix (tcp_avail fd st) (tcp_avail fd st')"
    using tp(2) fd av(2) by (simp add: eq tcp_view_buf)
qed

lemma buf_view_length:
  "wf_readbuf tp \<Longrightarrow> length (snd (buf_view tp)) = tdis_eod tp - tdis_lead tp"
  by (simp add: buf_view_def wf_readbuf_def)

lemma buf_view_advance:
  assumes "wf_readbuf tp" "n \<le> tdis_eod tp - tdis_lead tp"
  shows "wf_readbuf (tp\<lparr>tdis_lead := tdis_lead tp + n\<rparr>)"
    "buf_view (tp\<lparr>tdis_lead := tdis_lead tp + n\<rparr>) =
      (fst (buf_view tp) @ take n (snd (buf_view tp)), drop n (snd (buf_view tp)))"
proof -
  let ?t = "tdis_trail tp" and ?l = "tdis_lead tp" and ?e = "tdis_eod tp" and ?b = "tdis_thebuf tp"
  have le: "?t \<le> ?l" "?l \<le> ?e" "?e \<le> length ?b" "?l + n \<le> ?e"
    using assms unfolding wf_readbuf_def by linarith+
  show "wf_readbuf (tp\<lparr>tdis_lead := ?l + n\<rparr>)" using assms by (auto simp: wf_readbuf_def)
  have "take n (slice ?l ?e ?b) = slice ?l (?l + n) ?b" "drop n (slice ?l ?e ?b) = slice (?l + n) ?e ?b"
    using le by (simp_all add: slice_def drop_take add.commute)
  then show "buf_view (tp\<lparr>tdis_lead := ?l + n\<rparr>) =
      (fst (buf_view tp) @ take n (snd (buf_view tp)), drop n (snd (buf_view tp)))"
    using le slice_append [of ?t ?l "?l + n" ?b] by (simp add: buf_view_def)
qed

lemma tcp_fill_law:
  "(\<forall>n. mal n) \<Longrightarrow> tcp_ok fd st \<Longrightarrow> tcp_fill mal fd st ct = (x, st') \<Longrightarrow>
    tcp_ok fd st' \<and> same_write fd st st' \<and> tcp_taken fd st' = tcp_taken fd st \<and>
    (x > 0 \<longrightarrow> tcp_avail fd st' = tcp_avail fd st \<and> ct \<le> length (snd (buf_view (tcp_get_readbuf fd st')))) \<and>
    (x \<le> 0 \<longrightarrow> x \<in> {0, - 1, - 2} \<and> length (tcp_avail fd st) < ct \<and> prefix (tcp_avail fd st) (tcp_avail fd st'))"
proof (induction mal fd st ct arbitrary: x st' rule: tcp_fill.induct)
  case (1 mal fd st ct)
  note mal = "1.prems"(1) [rule_format] and ok = "1.prems"(2)
  let ?unread = "\<lambda>st. snd (buf_view (tcp_get_readbuf fd st))"
  note wf = tcp_okD(2) [OF ok]
  have len: "size_sub (tdis_eod (tcp_get_readbuf fd st)) (tdis_lead (tcp_get_readbuf fd st)) = length (?unread st)"
    using wf buf_view_length [OF wf] by (simp add: size_sub_def wf_readbuf_def)
  show ?case
  proof (cases "length (?unread st) < ct")
    case False
    then have "x = 1" "st' = st"
      using "1.prems"(3) by (simp_all add: tcp_fill.simps [of mal fd st] Let_def len)
    with False ok show ?thesis by (simp add: same_write_def)
  next
    case True
    obtain i st1 where r: "tcp_read mal fd st = (i, st1)" by (cases "tcp_read mal fd st")
    note law = tcp_read_law [OF mal ok r]
    show ?thesis
    proof (cases "i \<le> 0")
      case fail: True
      then have "x = i" "st' = st1"
        using "1.prems"(3) True r by (simp_all add: tcp_fill.simps [of mal fd st] Let_def len)
      moreover have "tcp_avail fd st = ?unread st"
        using law(5) fail by (simp add: tcp_view_buf)
      ultimately show ?thesis using law(1-3) law(5) [OF fail] True fail by simp
    next
      case more: False
      then have rec: "tcp_fill mal fd st1 ct = (x, st')"
        using "1.prems"(3) True r by (simp add: tcp_fill.simps [of mal fd st] Let_def len)
      have "tcp_ok fd st' \<and> same_write fd st1 st' \<and> tcp_taken fd st' = tcp_taken fd st1 \<and>
        (x > 0 \<longrightarrow> tcp_avail fd st' = tcp_avail fd st1 \<and> ct \<le> length (?unread st')) \<and>
        (x \<le> 0 \<longrightarrow> x \<in> {0, - 1, - 2} \<and> length (tcp_avail fd st1) < ct \<and> prefix (tcp_avail fd st1) (tcp_avail fd st'))"
        using "1.IH" [OF refl _ r [symmetric] more "1.prems"(1) law(1) rec] True len by simp
      with law(2,3,4) more show ?thesis
        using same_write_trans by (auto simp: not_le)
    qed
  qed
qed

subsection \<open>The safety laws\<close>

lemma set_readbuf_law:
  assumes "tcp_ok fd st" "wf_readbuf tp"
  shows "tcp_ok fd (set_readbuf fd tp st)" "same_write fd st (set_readbuf fd tp st)"
    "tcp_taken fd (set_readbuf fd tp st) = fst (buf_view tp)"
    "tcp_avail fd (set_readbuf fd tp st) = snd (buf_view tp) @ net_avail (sock_in st fd)"
  using assms tcp_okD(1) [OF assms(1)] tcp_ok_set_readbuf
  by (simp_all add: same_write_def tcp_view_buf)

lemma tcp_getc_law:
  assumes "\<And>n. mal n" "tcp_ok fd st" "tcp_getc mal fd st = (c, st')"
  shows "tcp_ok fd st' \<and> same_write fd st st' \<and>
    ((\<exists>ch. c = schar ch \<and> tcp_avail fd st = ch # tcp_avail fd st' \<and> tcp_taken fd st' = tcp_taken fd st @ [ch])
     \<or> (c \<in> {- 1, - 2} \<and> tcp_avail fd st = [] \<and> tcp_taken fd st' = tcp_taken fd st))"
proof -
  let ?tp = "tcp_get_readbuf fd"
  let ?unread = "\<lambda>st. snd (buf_view (?tp st))"
  note wf = tcp_okD(2) [OF assms(2)]
  obtain x st1 where x: "(if tdis_lead (?tp st) \<ge> tdis_eod (?tp st) then tcp_read mal fd st else (1, st)) = (x, st1)"
    by (cases "if tdis_lead (?tp st) \<ge> tdis_eod (?tp st) then tcp_read mal fd st else (1, st)")
  have fail: "x \<in> {0, - 1, - 2} \<and> tcp_avail fd st = []" if "x \<le> 0"
  proof -
    from x that have "tdis_lead (?tp st) \<ge> tdis_eod (?tp st)" "tcp_read mal fd st = (x, st1)"
      by (auto split: if_splits)
    then show ?thesis
      using tcp_read_law(5) [OF assms(1,2) _ that] buf_view_length [OF wf] by (simp add: tcp_view_buf)
  qed
  have st1: "tcp_ok fd st1" "same_write fd st st1" "tcp_taken fd st1 = tcp_taken fd st"
    using x assms(2) tcp_read_law(1-3) [OF assms(1,2)] by (auto simp: same_write_def split: if_splits)
  show ?thesis
  proof (cases "x \<le> 0")
    case True
    then have "st' = st1" "c = (if x = - 2 then - 2 else - 1)"
      using assms(3) x by (simp_all add: tcp_getc_def Let_def)
    with st1 fail [OF True] show ?thesis by auto
  next
    case False
    note wf1 = tcp_okD(2) [OF st1(1)]
    have av: "tcp_avail fd st1 = tcp_avail fd st" "?unread st1 \<noteq> []"
      using x False tcp_read_law(4) [OF assms(1,2)] buf_view_length [OF wf]
      by (fastforce split: if_splits)+
    then have lt: "tdis_lead (?tp st1) < tdis_eod (?tp st1)"
      using buf_view_length [OF wf1] length_greater_0_conv [of "?unread st1"] by linarith
    let ?new = "(?tp st1)\<lparr>tdis_lead := tdis_lead (?tp st1) + 1\<rparr>"
    let ?ch = "tdis_thebuf (?tp st1) ! tdis_lead (?tp st1)"
    have st': "st' = set_readbuf fd ?new st1" "c = schar ?ch"
      using assms(3) x False by (simp_all add: tcp_getc_def Let_def)
    have hd: "?unread st1 = ?ch # tl (?unread st1)"
      using slice_Cons [OF lt, of "tdis_thebuf (?tp st1)"] wf1 lt by (simp add: buf_view_def wf_readbuf_def)
    note adv = buf_view_advance [OF wf1, of 1]
    have "take 1 (?unread st1) = [?ch]" "drop 1 (?unread st1) = tl (?unread st1)"
      by (subst hd, simp) (simp add: drop_Suc)
    then have new: "wf_readbuf ?new" "buf_view ?new = (fst (buf_view (?tp st1)) @ [?ch], tl (?unread st1))"
      using adv lt by simp_all
    have "tcp_avail fd st = ?unread st1 @ net_avail (sock_in st1 fd)"
      using av(1) by (simp add: tcp_view_buf)
    also have "\<dots> = ?ch # tl (?unread st1) @ net_avail (sock_in st1 fd)"
      by (subst hd) simp
    finally have "tcp_avail fd st = ?ch # tl (?unread st1) @ net_avail (sock_in st1 fd)" .
    then show ?thesis
      using set_readbuf_law [OF st1(1) new(1)] new(2) st1(2,3) same_write_trans
      by (auto simp: st' tcp_view_buf)
  qed
qed

lemma tcp_gets_law:
  assumes "\<forall>n. mal n" "tcp_ok fd st" "tcp_gets mal fd st n = (r, x, st')"
  shows "tcp_ok fd st' \<and> same_write fd st st' \<and>
    ((r = sint (of_nat n :: uint) \<and> length x = n \<and> tcp_avail fd st = x @ tcp_avail fd st' \<and> tcp_taken fd st' = tcp_taken fd st @ x)
     \<or> (r \<in> {0, - 1, - 2} \<and> length (tcp_avail fd st) < n \<and> tcp_taken fd st' = tcp_taken fd st
         \<and> prefix (tcp_avail fd st) (tcp_avail fd st')))"
proof -
  obtain i st1 where f: "tcp_fill mal fd st n = (i, st1)" by (cases "tcp_fill mal fd st n")
  note law = tcp_fill_law [OF assms(1,2) f]
  let ?tp = "tcp_get_readbuf fd st1"
  show ?thesis
  proof (cases "i \<le> 0")
    case True
    then show ?thesis using law assms(3) f by (simp add: tcp_gets_def)
  next
    case False
    then have le: "n \<le> length (snd (buf_view ?tp))" and wf: "wf_readbuf ?tp" and ok: "tcp_ok fd st1"
      using law tcp_okD(2) by auto
    let ?new = "?tp\<lparr>tdis_lead := tdis_lead ?tp + n\<rparr>"
    have x: "x = take n (drop (tdis_lead ?tp) (tdis_thebuf ?tp))" "r = sint (of_nat n :: uint)" "st' = set_readbuf fd ?new st1"
      using assms(3) f False by (simp_all add: tcp_gets_def Let_def)
    have n: "n \<le> tdis_eod ?tp - tdis_lead ?tp" using le buf_view_length [OF wf] by simp
    then have x': "x = take n (snd (buf_view ?tp))" by (simp add: x(1) buf_view_def slice_def min_def)
    note adv = buf_view_advance [OF wf n]
    note new = set_readbuf_law [OF ok adv(1)]
    have "tcp_avail fd st = snd (buf_view ?tp) @ net_avail (sock_in st1 fd)"
      using law False tcp_view_buf(2) [of fd st1] by simp
    also have "\<dots> = x @ tcp_avail fd st'" by (simp add: x(3) new(4) adv(2)) (simp add: x')
    finally have "tcp_avail fd st = x @ tcp_avail fd st'" .
    moreover have "tcp_taken fd st' = tcp_taken fd st @ x"
      using law by (simp add: x(3) new(3) adv(2)) (simp add: x' tcp_view_buf)
    moreover have "same_write fd st st'" using law new(2) same_write_trans unfolding x(3) by blast
    ultimately show ?thesis using new(1) le by (simp add: x(2,3)) (simp add: x')
  qed
qed

lemma tcp_rcommit_law:
  assumes "tcp_ok fd st" "tcp_rcommit fd st b = (r, st')"
  shows "r = 0 \<and> tcp_ok fd st' \<and> same_write fd st st' \<and> tcp_taken fd st' = [] \<and>
    tcp_avail fd st' = (if b then tcp_avail fd st else tcp_taken fd st @ tcp_avail fd st)"
proof -
  let ?tp = "tcp_get_readbuf fd st"
  define new where "new = (if b then ?tp\<lparr>tdis_trail := tdis_lead ?tp\<rparr> else ?tp\<lparr>tdis_lead := tdis_trail ?tp\<rparr>)"
  note wf = tcp_okD(2) [OF assms(1)]
  have "slice (tdis_trail ?tp) (tdis_lead ?tp) (tdis_thebuf ?tp) @ slice (tdis_lead ?tp) (tdis_eod ?tp) (tdis_thebuf ?tp)
      = slice (tdis_trail ?tp) (tdis_eod ?tp) (tdis_thebuf ?tp)"
    using wf by (intro slice_append) (simp_all add: wf_readbuf_def)
  then have v: "wf_readbuf new" "buf_view new = ([], (if b then [] else fst (buf_view ?tp)) @ snd (buf_view ?tp))"
    using wf by (auto simp: new_def wf_readbuf_def buf_view_def slice_def)
  moreover have "st' = set_readbuf fd new st" "r = 0"
    using assms(2) by (simp_all add: tcp_rcommit_def Let_def new_def)
  ultimately show ?thesis using set_readbuf_law [OF assms(1) v(1)] by (simp add: tcp_view_buf)
qed

subsection \<open>Writing\<close>

definition same_read :: "nat \<Rightarrow> tcp_state \<Rightarrow> tcp_state \<Rightarrow> bool" where
  "same_read fd st st' \<longleftrightarrow> tcp_get_readbuf fd st' = tcp_get_readbuf fd st \<and> sock_in st' = sock_in st"

lemma same_read_views:
  "same_read fd st st' \<Longrightarrow> tcp_taken fd st' = tcp_taken fd st \<and> tcp_avail fd st' = tcp_avail fd st"
  by (simp add: same_read_def tcp_views)

lemma cs_write_loop_ok:
  "cs_write_loop pb es = (ok, w, es') \<Longrightarrow>
     (ok \<longrightarrow> w = pb) \<and> set es' \<subseteq> set es \<and> prefix w pb \<and>
     ((\<forall>e \<in> set es. \<exists>n. e = OutAccept n) \<longrightarrow> ok)"
proof (induction pb es arbitrary: w es' rule: cs_write_loop.induct)
  case (2 pb n es)
  show ?case
  proof (cases "length pb \<le> n")
    case False
    obtain ok' w' es1 where r: "cs_write_loop (drop n pb) es = (ok', w', es1)"
      by (cases "cs_write_loop (drop n pb) es")
    then have "ok = ok'" "w = take n pb @ w'" "es' = es1" using "2.prems" False by simp_all
    moreover have "prefix (take n pb @ w') pb \<longleftrightarrow> prefix w' (drop n pb)"
      using same_prefix_prefix [of "take n pb" w' "drop n pb"] by simp
    ultimately show ?thesis using "2.IH" [OF False] r by auto
  qed (use "2.prems" in auto)
qed auto

lemma set_writebuf_law:
  assumes "tcp_ok fd st" "wf_writebuf tp"
  shows "tcp_ok fd (set_writebuf fd tp st)" "same_read fd st (set_writebuf fd tp st)"
    "tcp_outp fd (set_writebuf fd tp st) = sent st fd @ take (tdis_trail tp) (tdis_thebuf tp)"
    "tcp_pend fd (set_writebuf fd tp st) = slice (tdis_trail tp) (tdis_lead tp) (tdis_thebuf tp)"
    "tcp_calm fd (set_writebuf fd tp st) = tcp_calm fd st"
  using assms tcp_okD(1) [OF assms(1)] tcp_ok_set_writebuf
  by (simp_all add: same_read_def tcp_views tcp_calm_def)

lemma tcp_wcommit_law:
  assumes "tcp_ok fd st" "tcp_wcommit fd st b = (r, st')"
  shows "r = 0 \<and> tcp_ok fd st' \<and> same_read fd st st' \<and> tcp_pend fd st' = [] \<and>
    tcp_outp fd st' = tcp_outp fd st @ (if b then tcp_pend fd st else []) \<and> tcp_calm fd st' = tcp_calm fd st"
proof -
  let ?tp = "tcp_get_writebuf fd st"
  define new where "new = (if b then ?tp\<lparr>tdis_trail := tdis_lead ?tp\<rparr> else ?tp\<lparr>tdis_lead := tdis_trail ?tp\<rparr>)"
  note wf = tcp_okD(3) [OF assms(1)]
  have "take (tdis_lead ?tp) (tdis_thebuf ?tp) =
      take (tdis_trail ?tp) (tdis_thebuf ?tp) @ slice (tdis_trail ?tp) (tdis_lead ?tp) (tdis_thebuf ?tp)"
    using slice_append [of 0 "tdis_trail ?tp" "tdis_lead ?tp" "tdis_thebuf ?tp"] wf
    by (simp add: slice_0 wf_writebuf_def)
  moreover have "wf_writebuf new" using wf by (auto simp: new_def wf_writebuf_def)
  moreover have "st' = set_writebuf fd new st" "r = 0"
    using assms(2) by (simp_all add: tcp_wcommit_def Let_def new_def)
  ultimately show ?thesis using set_writebuf_law [OF assms(1), of new]
    by (auto simp: new_def tcp_views) (simp add: slice_def)+
qed

lemma tcp_ok_sock_out:
  "tcp_ok fd (st\<lparr>sock_out := so, sent := se\<rparr>) = tcp_ok fd st"
  by (simp add: tcp_ok_def)

lemma DIS_tcp_wflush_law:
  assumes "tcp_ok fd st" "DIS_tcp_wflush fd st = (r, st')"
  shows "tcp_ok fd st' \<and> same_read fd st st' \<and> tcp_pend fd st' = tcp_pend fd st \<and>
    (r = 0 \<and> tcp_outp fd st' = tcp_outp fd st \<and> sent st' fd = tcp_outp fd st \<or> r = - 1) \<and>
    (tcp_calm fd st \<longrightarrow> r = 0 \<and> tcp_calm fd st')"
proof (cases "tdis_trail (tcp_get_writebuf fd st) = 0")
  case True
  then show ?thesis using assms by (auto simp: DIS_tcp_wflush_def same_read_def tcp_outp_def)
next
  case False
  let ?tp = "tcp_get_writebuf fd st"
  let ?t = "tdis_trail ?tp" and ?l = "tdis_lead ?tp" and ?b = "tdis_thebuf ?tp"
  note wf = tcp_okD(3) [OF assms(1)]
  then have le: "?t \<le> ?l" "?l \<le> length ?b" "tdis_bufsize ?tp = length ?b" by (simp_all add: wf_writebuf_def)
  obtain ok w es where c: "cs_write_loop (take ?t ?b) (sock_out st fd) = (ok, w, es)"
    by (cases "cs_write_loop (take ?t ?b) (sock_out st fd)")
  note wl = cs_write_loop_ok [OF c]
  define st1 where "st1 = st\<lparr>sock_out := (sock_out st)(fd := es), sent := (sent st)(fd := sent st fd @ w)\<rparr>"
  have st1: "tcp_ok fd st1" "same_read fd st st1" "tcp_pend fd st1 = tcp_pend fd st"
    "tcp_calm fd st \<Longrightarrow> tcp_calm fd st1 \<and> ok" "sent st1 fd = sent st fd @ w"
    using assms(1) wl by (auto simp: st1_def tcp_ok_sock_out same_read_def tcp_pend_def tcp_calm_def)
  define new where "new = tcp_pack_buff (?tp\<lparr>tdis_eod := ?l\<rparr>)"
  have new: "new = ?tp\<lparr>tdis_lead := ?l - ?t, tdis_trail := 0, tdis_eod := ?l - ?t,
      tdis_thebuf := slice ?t ?l ?b @ drop (?l - ?t) ?b\<rparr>"
    using le pack_buff_eq [of "?tp\<lparr>tdis_eod := ?l\<rparr>"] by (simp add: new_def)
  have "wf_writebuf new" using le by (auto simp: new wf_writebuf_def)
  note sw = set_writebuf_law [OF st1(1) this]
  have pend: "slice 0 (?l - ?t) (slice ?t ?l ?b @ drop (?l - ?t) ?b) = tcp_pend fd st"
    using le by (simp add: slice_0 tcp_pend_def Let_def)
  have res: "(r, st') = (if ok then (0, set_writebuf fd new st1) else (- 1, st1))"
    using assms(2) False c by (cases ok) (simp_all add: DIS_tcp_wflush_def Let_def st1_def new_def)
  show ?thesis
  proof (cases ok)
    case True
    then have "sent st1 fd = tcp_outp fd st" using wl st1(5) by (simp add: tcp_outp_def Let_def)
    then show ?thesis using res True sw st1 pend by (auto simp: new same_read_def)
  next
    case False
    then show ?thesis using res st1 by auto
  qed
qed

definition grow_writebuf :: "nat \<Rightarrow> tcpdisbuf \<Rightarrow> tcpdisbuf" where
  "grow_writebuf ct tp =
     (let sz = ((ct + tdis_lead tp) div THE_BUF_SIZE + 1) * THE_BUF_SIZE
      in if size_sub (tdis_bufsize tp) (tdis_lead tp) < ct
         then tp\<lparr>tdis_bufsize := sz, tdis_thebuf := c_realloc (tdis_thebuf tp) sz\<rparr> else tp)"

definition put_more :: "string \<Rightarrow> tcpdisbuf \<Rightarrow> tcpdisbuf" where
  "put_more str tp = tp\<lparr>tdis_thebuf := store_at (tdis_thebuf tp) (tdis_lead tp) str, tdis_lead := tdis_lead tp + length str\<rparr>"

lemma tcp_puts_eq:
  assumes "\<forall>n. mal n"
  shows "tcp_puts mal fd st str =
    (let tp = tcp_get_writebuf fd st;
         full = size_sub (tdis_bufsize tp) (tdis_lead tp) < length str;
         (r, st) = (if full then DIS_tcp_wflush fd st else (0, st))
     in if r < 0 then (- 1, st)
        else (sint (of_nat (length str) :: uint),
              set_writebuf fd (put_more str (if full then grow_writebuf (length str) (tcp_get_writebuf fd st)
                 else tcp_get_writebuf fd st)) st))"
  using assms by (simp add: tcp_puts_def grow_writebuf_def put_more_def Let_def split: prod.splits)

lemma grow_writebuf_view:
  assumes "wf_writebuf tp"
  shows "wf_writebuf (grow_writebuf ct tp)" "tdis_lead (grow_writebuf ct tp) = tdis_lead tp"
    "tdis_trail (grow_writebuf ct tp) = tdis_trail tp"
    "tdis_lead tp + ct \<le> tdis_bufsize (grow_writebuf ct tp)"
    "slice (tdis_trail tp) (tdis_lead tp) (tdis_thebuf (grow_writebuf ct tp)) = slice (tdis_trail tp) (tdis_lead tp) (tdis_thebuf tp)"
    "take (tdis_trail tp) (tdis_thebuf (grow_writebuf ct tp)) = take (tdis_trail tp) (tdis_thebuf tp)"
proof -
  define sz where "sz = ((ct + tdis_lead tp) div THE_BUF_SIZE + 1) * THE_BUF_SIZE"
  have sz: "ct + tdis_lead tp \<le> sz"
    using div_mult_mod_eq [of "ct + tdis_lead tp" THE_BUF_SIZE] mod_less_divisor [of THE_BUF_SIZE "ct + tdis_lead tp"]
    by (simp add: sz_def THE_BUF_SIZE_def)
  have wf: "tdis_trail tp \<le> tdis_lead tp" "tdis_lead tp \<le> length (tdis_thebuf tp)" "tdis_bufsize tp = length (tdis_thebuf tp)"
    using assms by (simp_all add: wf_writebuf_def)
  have g: "length (tdis_thebuf tp) \<le> sz" if "size_sub (tdis_bufsize tp) (tdis_lead tp) < ct"
    using that sz wf by (simp add: size_sub_def)
  have "grow_writebuf ct tp = (if size_sub (tdis_bufsize tp) (tdis_lead tp) < ct
      then tp\<lparr>tdis_bufsize := sz, tdis_thebuf := c_realloc (tdis_thebuf tp) sz\<rparr> else tp)"
    by (simp only: grow_writebuf_def Let_def sz_def)
  note defs = this wf_writebuf_def
  show "wf_writebuf (grow_writebuf ct tp)"
    using wf sz g c_realloc_grow(1) by (auto simp: defs)
  show "tdis_lead (grow_writebuf ct tp) = tdis_lead tp" "tdis_trail (grow_writebuf ct tp) = tdis_trail tp"
    by (simp_all add: defs)
  show "tdis_lead tp + ct \<le> tdis_bufsize (grow_writebuf ct tp)"
    using sz wf by (auto simp: defs size_sub_def)
  show "slice (tdis_trail tp) (tdis_lead tp) (tdis_thebuf (grow_writebuf ct tp)) = slice (tdis_trail tp) (tdis_lead tp) (tdis_thebuf tp)"
    using wf g c_realloc_grow(2) by (auto simp: defs)
  show "take (tdis_trail tp) (tdis_thebuf (grow_writebuf ct tp)) = take (tdis_trail tp) (tdis_thebuf tp)"
    using wf g c_realloc_grow(3) by (auto simp: defs)
qed

lemma put_more_view:
  assumes "wf_writebuf tp" "tdis_lead tp + length str \<le> tdis_bufsize tp"
  shows "wf_writebuf (put_more str tp)" "tdis_trail (put_more str tp) = tdis_trail tp"
    "take (tdis_trail tp) (tdis_thebuf (put_more str tp)) = take (tdis_trail tp) (tdis_thebuf tp)"
    "slice (tdis_trail tp) (tdis_lead (put_more str tp)) (tdis_thebuf (put_more str tp))
       = slice (tdis_trail tp) (tdis_lead tp) (tdis_thebuf tp) @ str"
  using assms store_at_slice [of "tdis_lead tp" str "tdis_thebuf tp"]
  by (simp_all add: wf_writebuf_def put_more_def)

lemma tcp_puts_law:
  assumes "\<forall>n. mal n" "tcp_ok fd st" "tcp_puts mal fd st str = (r, st')"
  shows "tcp_ok fd st' \<and> same_read fd st st' \<and>
    (r = sint (of_nat (length str) :: uint) \<and> tcp_outp fd st' = tcp_outp fd st \<and> tcp_pend fd st' = tcp_pend fd st @ str
     \<or> r = - 1 \<and> tcp_pend fd st' = tcp_pend fd st) \<and>
    (tcp_calm fd st \<longrightarrow> tcp_calm fd st' \<and> r = sint (of_nat (length str) :: uint) \<and>
       tcp_outp fd st' = tcp_outp fd st \<and> tcp_pend fd st' = tcp_pend fd st @ str)"
proof -
  define full where "full \<longleftrightarrow> size_sub (tdis_bufsize (tcp_get_writebuf fd st)) (tdis_lead (tcp_get_writebuf fd st)) < length str"
  obtain q st1 where q: "(if full then DIS_tcp_wflush fd st else (0, st)) = (q, st1)"
    by (cases "if full then DIS_tcp_wflush fd st else (0, st)")
  have st1: "tcp_ok fd st1" "same_read fd st st1" "tcp_pend fd st1 = tcp_pend fd st"
    "q = 0 \<and> tcp_outp fd st1 = tcp_outp fd st \<or> q = - 1" "tcp_calm fd st \<Longrightarrow> q = 0 \<and> tcp_calm fd st1"
    using q DIS_tcp_wflush_law [OF assms(2)] assms(2) by (auto simp: same_read_def split: if_splits)
  let ?tp = "tcp_get_writebuf fd st1"
  define new where "new = (if full then grow_writebuf (length str) ?tp else ?tp)"
  have res: "(r, st') = (if q < 0 then (- 1, st1) else (sint (of_nat (length str) :: uint), set_writebuf fd (put_more str new) st1))"
    using assms(3) q unfolding tcp_puts_eq [OF assms(1)] full_def [symmetric] Let_def new_def
    by (cases full; cases "q < 0") simp_all
  note wf1 = tcp_okD(3) [OF st1(1)]
  have room: "tdis_lead ?tp + length str \<le> tdis_bufsize ?tp" if "\<not> full"
  proof -
    have "st1 = st" using q that by simp
    then show ?thesis using that wf1 by (auto simp: full_def size_sub_def wf_writebuf_def split: if_splits)
  qed
  have new: "wf_writebuf new" "tdis_lead new = tdis_lead ?tp" "tdis_trail new = tdis_trail ?tp"
    "tdis_lead new + length str \<le> tdis_bufsize new"
    "slice (tdis_trail ?tp) (tdis_lead ?tp) (tdis_thebuf new) = slice (tdis_trail ?tp) (tdis_lead ?tp) (tdis_thebuf ?tp)"
    "take (tdis_trail ?tp) (tdis_thebuf new) = take (tdis_trail ?tp) (tdis_thebuf ?tp)"
    using grow_writebuf_view [OF wf1, of "length str"] wf1 room by (cases full; simp add: new_def)+
  note put = put_more_view [OF new(1,4)]
  note sw = set_writebuf_law [OF st1(1) put(1)]
  show ?thesis
  proof (cases "q < 0")
    case True
    then show ?thesis using res st1 by auto
  next
    case False
    have "tcp_outp fd (set_writebuf fd (put_more str new) st1) = tcp_outp fd st1"
      "tcp_pend fd (set_writebuf fd (put_more str new) st1) = tcp_pend fd st1 @ str"
      using sw(3,4) put(2,3,4) new(2,3,5,6) by (simp_all add: tcp_views)
    moreover have "same_read fd st (set_writebuf fd (put_more str new) st1)"
      using st1(2) sw(2) by (simp add: same_read_def)
    ultimately show ?thesis using False res st1 sw(1,5) by auto
  qed
qed

subsection \<open>Setting up a channel\<close>

text \<open>What is left of a channel between two set-ups: buffers of the size recorded for them.\<close>

definition chan_sized :: "tcp_chan \<Rightarrow> bool" where
  "chan_sized ch \<longleftrightarrow> tdis_bufsize (readbuf ch) = length (tdis_thebuf (readbuf ch)) \<and>
     tdis_bufsize (writebuf ch) = length (tdis_thebuf (writebuf ch))"

definition fd_sized :: "nat \<Rightarrow> tcp_state \<Rightarrow> bool" where
  "fd_sized fd st \<longleftrightarrow> InData [] \<notin> set (sock_in st fd) \<and>
     (\<forall>ch. fd < length (tcparray st) \<longrightarrow> tcparray st ! fd = Some ch \<longrightarrow> chan_sized ch)"

lemma tcp_ok_fd_sized: "tcp_ok fd st \<Longrightarrow> fd_sized fd st"
  by (auto simp: tcp_ok_def fd_sized_def chan_sized_def wf_readbuf_def wf_writebuf_def
      tcp_get_readbuf_def tcp_get_writebuf_def the_chan_def)

lemma DIS_tcp_setup_law:
  assumes "fd_sized fd st"
  shows "tcp_ok fd (DIS_tcp_setup (int fd) st)" "tcp_taken fd (DIS_tcp_setup (int fd) st) = []"
    "tcp_avail fd (DIS_tcp_setup (int fd) st) = net_avail (sock_in st fd)"
    "tcp_pend fd (DIS_tcp_setup (int fd) st) = []" "tcp_outp fd (DIS_tcp_setup (int fd) st) = sent st fd"
    "tcp_calm fd (DIS_tcp_setup (int fd) st) = tcp_calm fd st"
proof -
  define arr where "arr = (if fd \<ge> length (tcparray st)
      then tcparray st @ replicate (fd + 10 - length (tcparray st)) None else tcparray st)"
  define ch where "ch = (case arr ! fd of None \<Rightarrow> \<lparr>readbuf = new_tcpdisbuf, writebuf = new_tcpdisbuf\<rparr> | Some tcp \<Rightarrow> tcp)"
  let ?st = "st\<lparr>tcparray := arr[fd := Some (ch\<lparr>readbuf := DIS_tcp_clear (readbuf ch), writebuf := DIS_tcp_clear (writebuf ch)\<rparr>)]\<rparr>"
  have eq: "DIS_tcp_setup (int fd) st = ?st"
    by (simp add: DIS_tcp_setup_def Let_def arr_def ch_def)
  have fd: "fd < length arr" by (simp add: arr_def)
  have "chan_sized ch"
    using assms by (auto simp: ch_def arr_def fd_sized_def chan_sized_def new_tcpdisbuf_def nth_append split: option.split)
  moreover have get: "tcp_get_readbuf fd ?st = DIS_tcp_clear (readbuf ch)" "tcp_get_writebuf fd ?st = DIS_tcp_clear (writebuf ch)"
    using fd by (simp_all add: tcp_get_readbuf_def tcp_get_writebuf_def the_chan_def)
  ultimately show "tcp_ok fd (DIS_tcp_setup (int fd) st)"
    using fd assms unfolding eq tcp_ok_def
    by (simp add: fd_sized_def wf_readbuf_def wf_writebuf_def DIS_tcp_clear_def chan_sized_def)
  show "tcp_taken fd (DIS_tcp_setup (int fd) st) = []"
    "tcp_avail fd (DIS_tcp_setup (int fd) st) = net_avail (sock_in st fd)"
    "tcp_pend fd (DIS_tcp_setup (int fd) st) = []" "tcp_outp fd (DIS_tcp_setup (int fd) st) = sent st fd"
    "tcp_calm fd (DIS_tcp_setup (int fd) st) = tcp_calm fd st"
    unfolding eq tcp_views get by (simp_all add: DIS_tcp_clear_def slice_def tcp_calm_def)
qed

section \<open>Failed flushes, and other descriptors\<close>

text \<open>A flush that fails has sent a prefix of the committed output and kept all of it in the buffer.\<close>

lemma DIS_tcp_wflush_fail:
  assumes "DIS_tcp_wflush fd st = (r, st')" "r \<noteq> 0"
  shows "r = - 1 \<and> tcparray st' = tcparray st \<and>
    (\<exists>w. prefix w (take (tdis_trail (tcp_get_writebuf fd st)) (tdis_thebuf (tcp_get_writebuf fd st))) \<and> sent st' fd = sent st fd @ w)"
  using assms cs_write_loop_ok
  by (auto simp: DIS_tcp_wflush_def Let_def split: if_splits prod.splits)

text \<open>What an operation on \<open>fd\<close> leaves alone: every other descriptor's channel, input and output.\<close>

definition same_others :: "nat \<Rightarrow> tcp_state \<Rightarrow> tcp_state \<Rightarrow> bool" where
  "same_others fd st st' \<longleftrightarrow> length (tcparray st) \<le> length (tcparray st') \<and>
     (\<forall>d. d \<noteq> fd \<longrightarrow> (d < length (tcparray st) \<longrightarrow> tcparray st' ! d = tcparray st ! d) \<and>
        sock_in st' d = sock_in st d \<and> sock_out st' d = sock_out st d \<and> sent st' d = sent st d)"

lemma same_others_refl [simp]: "same_others fd st st"
  by (simp add: same_others_def)

lemma same_others_trans: "same_others fd a b \<Longrightarrow> same_others fd b c \<Longrightarrow> same_others fd a c"
  by (simp add: same_others_def)

lemma same_others_set [simp]:
  "same_others fd st (set_readbuf fd tp st)" "same_others fd st (set_writebuf fd tp st)"
  "same_others fd st (set_readbuf fd tp (st\<lparr>sock_in := (sock_in st)(fd := es)\<rparr>))"
  "same_others fd st (st\<lparr>sock_out := (sock_out st)(fd := os), sent := (sent st)(fd := w)\<rparr>)"
  "same_others fd st (set_writebuf fd tp (st\<lparr>sock_out := (sock_out st)(fd := os), sent := (sent st)(fd := w)\<rparr>))"
  by (simp_all add: same_others_def set_readbuf_def set_writebuf_def)

lemma same_others_read: "tcp_read mal fd st = (i, st') \<Longrightarrow> same_others fd st st'"
  by (auto simp: tcp_read_def Let_def split: if_splits prod.splits)

lemma same_others_fill: "tcp_fill mal fd st ct = (i, st') \<Longrightarrow> same_others fd st st'"
proof (induction mal fd st ct rule: tcp_fill.induct)
  case (1 mal fd st ct)
  then show ?case
    by (subst (asm) (2) tcp_fill.simps)
      (auto simp: Let_def split: if_splits prod.splits dest: same_others_read intro: same_others_trans)
qed

lemma same_others_wflush: "DIS_tcp_wflush fd st = (r, st') \<Longrightarrow> same_others fd st st'"
  by (auto simp: DIS_tcp_wflush_def Let_def split: if_splits prod.splits)

lemma same_others_getc: "tcp_getc mal fd st = (r, st') \<Longrightarrow> same_others fd st st'"
  by (auto simp: tcp_getc_def Let_def split: if_splits prod.splits dest: same_others_read intro: same_others_trans)

lemma same_others_gets: "tcp_gets mal fd st n = (r, v, st') \<Longrightarrow> same_others fd st st'"
  by (auto simp: tcp_gets_def Let_def split: if_splits prod.splits dest: same_others_fill intro: same_others_trans)

lemma same_others_puts: "tcp_puts mal fd st v = (r, st') \<Longrightarrow> same_others fd st st'"
  by (auto simp: tcp_puts_def Let_def split: if_splits prod.splits dest: same_others_wflush intro: same_others_trans)

lemma same_others_commit:
  "tcp_rcommit fd st b = (r, st') \<Longrightarrow> same_others fd st st'" "tcp_wcommit fd st b = (r, st') \<Longrightarrow> same_others fd st st'"
  by (auto simp: tcp_rcommit_def tcp_wcommit_def Let_def)

lemma same_others_setup: "same_others fd st (DIS_tcp_setup (int fd) st)"
  by (auto simp: DIS_tcp_setup_def Let_def same_others_def nth_append nth_list_update)

section \<open>The transport meets its contract\<close>

interpretation tcp: dis_stream "DIS_tcp_funcs (\<lambda>_. True) fd" "tcp_ok fd" "tcp_taken fd" "tcp_avail fd"
  "tcp_outp fd" "tcp_pend fd" for fd
proof unfold_locales
  let ?ops = "DIS_tcp_funcs (\<lambda>_. True) fd"
  fix s s' :: tcp_state and c r :: int and x str :: string and n :: nat and b ok :: bool and ch :: char and cs
  assume ok: "tcp_ok fd s"
  show "tcp_ok fd s' \<and> tcp_outp fd s' = tcp_outp fd s \<and> tcp_pend fd s' = tcp_pend fd s \<and>
      ((\<exists>ch. c = schar ch \<and> tcp_avail fd s = ch # tcp_avail fd s' \<and> tcp_taken fd s' = tcp_taken fd s @ [ch])
       \<or> (c \<in> {- 1, - 2} \<and> tcp_taken fd s' = tcp_taken fd s \<and> prefix (tcp_avail fd s) (tcp_avail fd s')))"
    if "dis_getc ?ops s = (c, s')"
    using tcp_getc_law [of "\<lambda>_. True", OF TrueI ok] that same_write_views by (fastforce simp: DIS_tcp_funcs_def)
  show "tcp_ok fd s' \<and> tcp_outp fd s' = tcp_outp fd s \<and> tcp_pend fd s' = tcp_pend fd s \<and>
      ((r = sint (of_nat n :: uint) \<and> length x = n \<and> tcp_avail fd s = x @ tcp_avail fd s' \<and> tcp_taken fd s' = tcp_taken fd s @ x)
       \<or> (r \<in> {0, - 1, - 2} \<and> 0 < n \<and> tcp_taken fd s' = tcp_taken fd s \<and> prefix (tcp_avail fd s) (tcp_avail fd s')))"
    if "dis_gets ?ops s n = (r, x, s')"
    using tcp_gets_law [of "\<lambda>_. True", OF _ ok, of n r x s'] that same_write_views [of fd s s'] by (auto simp: DIS_tcp_funcs_def)
  show "r = 0 \<and> tcp_ok fd s' \<and> tcp_outp fd s' = tcp_outp fd s \<and> tcp_pend fd s' = tcp_pend fd s \<and> tcp_taken fd s' = [] \<and>
      tcp_avail fd s' = (if b then tcp_avail fd s else tcp_taken fd s @ tcp_avail fd s)"
    if "disr_commit ?ops s b = (r, s')"
    using tcp_rcommit_law [OF ok] that same_write_views [of fd s s'] by (simp add: DIS_tcp_funcs_def)
  show "tcp_ok fd s' \<and> tcp_taken fd s' = tcp_taken fd s \<and> tcp_avail fd s' = tcp_avail fd s \<and>
      ((r = sint (of_nat (length str) :: uint) \<and> tcp_outp fd s' = tcp_outp fd s \<and> tcp_pend fd s' = tcp_pend fd s @ str)
       \<or> (r = - 1 \<and> tcp_pend fd s' = tcp_pend fd s))"
    if "dis_puts ?ops s str = (r, s')"
    using tcp_puts_law [of "\<lambda>_. True", OF _ ok, of str r s'] that same_read_views [of fd s s'] by (auto simp: DIS_tcp_funcs_def)
  show "r = 0 \<and> tcp_ok fd s' \<and> tcp_taken fd s' = tcp_taken fd s \<and> tcp_avail fd s' = tcp_avail fd s \<and> tcp_pend fd s' = [] \<and>
      tcp_outp fd s' = tcp_outp fd s @ (if b then tcp_pend fd s else [])"
    if "disw_commit ?ops s b = (r, s')"
    using tcp_wcommit_law [OF ok] that same_read_views [of fd s s'] by (simp add: DIS_tcp_funcs_def)
  show "tcp_ok fd s' \<and> tcp_taken fd s' = tcp_taken fd s \<and> tcp_avail fd s' = tcp_avail fd s \<and>
      tcp_outp fd s' = tcp_outp fd s \<and> tcp_pend fd s' = tcp_pend fd s"
    if "c_malloc ?ops s n = (b, s')"
    using ok that by (simp add: DIS_tcp_funcs_def)
qed

text \<open>The kernel must accept output for writes to succeed; reads only need the bytes to have arrived.\<close>

interpretation tcp_out: dis_sink "DIS_tcp_funcs (\<lambda>_. True) fd" "tcp_ok fd" "tcp_taken fd" "tcp_avail fd"
  "tcp_outp fd" "tcp_pend fd" "tcp_calm fd" for fd
proof unfold_locales
  let ?ops = "DIS_tcp_funcs (\<lambda>_. True) fd"
  fix s s' :: tcp_state and r :: int and str :: string and b :: bool
  assume ok: "tcp_ok fd s" and calm: "tcp_calm fd s"
  show "tcp_calm fd s' \<and> r = sint (of_nat (length str) :: uint) \<and> tcp_outp fd s' = tcp_outp fd s \<and> tcp_pend fd s' = tcp_pend fd s @ str"
    if "dis_puts ?ops s str = (r, s')"
    using tcp_puts_law [of "\<lambda>_. True", OF _ ok, of str r s'] that calm by (auto simp: DIS_tcp_funcs_def)
  show "tcp_calm fd s'" if "disw_commit ?ops s b = (r, s')"
    using tcp_wcommit_law [OF ok] that calm by (simp add: DIS_tcp_funcs_def)
qed

interpretation tcp_in: dis_source "DIS_tcp_funcs (\<lambda>_. True) fd" "tcp_ok fd" "tcp_taken fd" "tcp_avail fd"
  "tcp_outp fd" "tcp_pend fd" "\<lambda>_. True" for fd
proof unfold_locales
  let ?ops = "DIS_tcp_funcs (\<lambda>_. True) fd"
  fix s s' :: tcp_state and c r :: int and x :: string and n :: nat and b :: bool and ch :: char and cs
  assume ok: "tcp_ok fd s"
  show "True \<and> c = schar ch \<and> tcp_avail fd s' = cs"
    if "tcp_avail fd s = ch # cs" "dis_getc ?ops s = (c, s')"
    using tcp_getc_law [of "\<lambda>_. True", OF TrueI ok] that same_write_views [of fd s s'] by (fastforce simp: DIS_tcp_funcs_def)
  show "True \<and> tcp_avail fd s' = drop n (tcp_avail fd s)"
    if "n \<le> length (tcp_avail fd s)" "dis_gets ?ops s n = (r, x, s')"
    using tcp_gets_law [of "\<lambda>_. True", OF _ ok, of n r x s'] that same_write_views [of fd s s']
    by (auto simp: DIS_tcp_funcs_def)
  show True if "disr_commit ?ops s b = (r, s')"
    using tcp_rcommit_law [OF ok] that same_write_views [of fd s s'] by (simp add: DIS_tcp_funcs_def)
  show "True \<and> b" if "c_malloc ?ops s n = (b, s')"
    using that by (simp add: DIS_tcp_funcs_def)
qed

end
