(* ===== verification/Codec.thy ===== *)
theory Codec
  imports Tcp_Dis
begin

text \<open>
  The shapes the message encoders and decoders of \<open>src/src/lib/Libifl\<close> are written in, and
  how their correctness follows from that of their fields.

  An encoder is a chain \<open>if ((rc = w1) || (rc = w2) ...) return rc\<close>: \<open>enc_seq\<close>.
  Many of them write \<open>(rc = w != 0)\<close>, which assigns the comparison: \<open>ne0\<close>. A decoder
  fills a structure field by field and returns at the first error, leaving what it has filled so
  far: it maps the structure and the stream to a status, the structure and the stream, and the
  chain is \<open>dec_seq\<close>. A loop over a list or a count is such a chain over \<open>map\<close> or
  \<open>replicate\<close>.
\<close>

section \<open>Combinators\<close>

type_synonym 's enc = "'s \<Rightarrow> int \<times> 's"
type_synonym ('s, 'r) dec = "'r \<Rightarrow> 's \<Rightarrow> int \<times> 'r \<times> 's"

fun enc_seq :: "'s enc list \<Rightarrow> 's enc" where
  "enc_seq [] s = (0, s)"
| "enc_seq (w # ws) s = (case w s of (rc, s') \<Rightarrow> if rc \<noteq> 0 then (rc, s') else enc_seq ws s')"

definition ne0 :: "'s enc \<Rightarrow> 's enc" where
  "ne0 w s = (case w s of (rc, s') \<Rightarrow> (if rc \<noteq> 0 then 1 else 0, s'))"

fun dec_seq :: "('s, 'r) dec list \<Rightarrow> ('s, 'r) dec" where
  "dec_seq [] r s = (0, r, s)"
| "dec_seq (d # ds) r s = (case d r s of (rc, r', s') \<Rightarrow> if rc \<noteq> 0 then (rc, r', s') else dec_seq ds r' s')"

text \<open>\<open>preq->field = disrXX(sock, &rc)\<close>: the field is assigned whatever \<open>rc\<close> is.\<close>

definition rd_to :: "('s \<Rightarrow> int \<times> 'v \<times> 's) \<Rightarrow> ('v \<Rightarrow> 'r \<Rightarrow> 'r) \<Rightarrow> ('s, 'r) dec" where
  "rd_to f upd r s = (case f s of (rc, v, s') \<Rightarrow> (rc, upd v r, s'))"

text \<open>\<open>local = disrXX(sock, &rc); if (rc) return rc; ...\<close>\<close>

definition rd_let :: "('s \<Rightarrow> int \<times> 'v \<times> 's) \<Rightarrow> ('v \<Rightarrow> ('s, 'r) dec) \<Rightarrow> ('s, 'r) dec" where
  "rd_let f k r s = (case f s of (rc, v, s') \<Rightarrow> if rc \<noteq> 0 then (rc, r, s') else k v r s')"

text \<open>Assignments that read nothing (\<open>CLEAR_HEAD\<close>, \<open>= NULL\<close>).\<close>

definition dec_set :: "('r \<Rightarrow> 'r) \<Rightarrow> ('s, 'r) dec" where
  "dec_set upd r s = (0, upd r, s)"

text \<open>\<open>return code\<close> or \<open>rc = code\<close> without reading.\<close>

definition dec_rc :: "int \<Rightarrow> ('s, 'r) dec" where
  "dec_rc rc r s = (rc, r, s)"

text \<open>The C string a memory image starts with, and \<open>disrfst\<close> into a character array.\<close>

definition c_str :: "string \<Rightarrow> string" where
  "c_str img = takeWhile (\<lambda>c. c \<noteq> NUL) img"

definition rd_fst :: "'s dis_ops \<Rightarrow> nat \<Rightarrow> (string \<Rightarrow> 'r \<Rightarrow> 'r) \<Rightarrow> ('s, 'r) dec" where
  "rd_fst ops achars upd = rd_to (disrfst ops achars) (\<lambda>img. upd (c_str img))"

lemma c_str_terminated [simp]: "c_string v \<Longrightarrow> c_str (v @ NUL # rest) = v"
  unfolding c_str_def c_string_def by (subst takeWhile_append2) auto

lemma c_str_c_string: "c_string (c_str img)"
  using set_takeWhileD by (fastforce simp: c_str_def c_string_def)

section \<open>Writers compose\<close>

context dis_sink
begin

lemma wr_ok_Nil [wire_intro]: "wr_ok (enc_seq []) (concat [])"
  by (simp add: wr_ok_def)

lemma wr_ok_Cons [wire_intro]:
  assumes "wr_ok w b" "wr_ok (enc_seq ws) (concat bs)"
  shows "wr_ok (enc_seq (w # ws)) (concat (b # bs))"
  unfolding wr_ok_def
proof (intro allI impI, elim conjE)
  fix s assume s: "invar s" "calm s" "pend s = []"
  obtain t where t: "w s = (0, t)" "invar t" "calm t" "pend t = []" "outp t = outp s @ b"
    "taken t = taken s" "avail t = avail s"
    using assms(1) s unfolding wr_ok_def by blast
  moreover obtain u where "enc_seq ws t = (0, u)" "invar u" "calm u" "pend u = []" "outp u = outp t @ concat bs"
    "taken u = taken t" "avail u = avail t"
    using assms(2) t(2-4) unfolding wr_ok_def by blast
  ultimately show "\<exists>u. enc_seq (w # ws) s = (0, u) \<and> invar u \<and> calm u \<and> pend u = [] \<and>
      outp u = outp s @ concat (b # bs) \<and> taken u = taken s \<and> avail u = avail s"
    by simp
qed

lemma wr_ok_ne0 [wire_intro]: "wr_ok w b \<Longrightarrow> wr_ok (ne0 w) b"
  unfolding wr_ok_def ne0_def by fastforce

lemma wr_ok_map:
  assumes "\<And>x. x \<in> set xs \<Longrightarrow> wr_ok (f x) (g x)"
  shows "wr_ok (enc_seq (map f xs)) (concat (map g xs))"
  using assms
proof (induction xs)
  case (Cons x xs)
  then show ?case using wr_ok_Cons [of "f x" "g x" "map f xs" "map g xs"] by (simp del: enc_seq.simps)
qed (simp add: wr_ok_def)

end

section \<open>Readers compose\<close>

context dis_source
begin

lemma rd_okD:
  assumes "rd_ok f bs v" "invar s" "calm s" "taken s = []" "avail s = bs @ rest"
  obtains t where "f s = (0, v, t)" "invar t" "calm t" "taken t = []" "avail t = rest"
    "outp t = outp s" "pend t = pend s"
  using assms unfolding rd_ok_def by blast

lemma rd_ok_to [wire_intro]: "rd_ok f bs v \<Longrightarrow> rd_ok (rd_to f upd r) bs (upd v r)"
  unfolding rd_ok_def rd_to_def by fastforce

lemma rd_ok_seq_Nil [wire_intro]: "rd_ok (dec_seq [] r) (concat []) r"
  by (simp add: rd_ok_def)

lemma rd_ok_step:
  assumes f: "rd_ok f b v" and g: "rd_ok g bs w"
    and h: "\<And>s t. f s = (0, v, t) \<Longrightarrow> h s = g t"
  shows "rd_ok h (b @ bs) w"
  unfolding rd_ok_def
proof (intro allI impI, elim conjE)
  fix s rest assume s: "invar s" "calm s" "taken s = []" "avail s = (b @ bs) @ rest"
  obtain t where t: "f s = (0, v, t)" "invar t" "calm t" "taken t = []" "avail t = bs @ rest"
    "outp t = outp s" "pend t = pend s"
    using rd_okD [OF f s(1-3), of "bs @ rest"] s(4) by auto
  obtain u where "g t = (0, w, u)" "invar u" "calm u" "taken u = []" "avail u = rest"
    "outp u = outp t" "pend u = pend t"
    using rd_okD [OF g t(2-5)] .
  then show "\<exists>u. h s = (0, w, u) \<and> invar u \<and> calm u \<and> taken u = [] \<and> avail u = rest \<and>
      outp u = outp s \<and> pend u = pend s"
    using h [OF t(1)] t(6,7) by auto
qed

lemma rd_ok_seq_Cons [wire_intro]:
  assumes "rd_ok (d r) b r'" "rd_ok (dec_seq ds r') (concat bs) r''"
  shows "rd_ok (dec_seq (d # ds) r) (concat (b # bs)) r''"
  using rd_ok_step [OF assms, of "dec_seq (d # ds) r"] by simp

lemma rd_ok_set [wire_intro]:
  assumes "rd_ok (dec_seq ds (upd r)) bs r'"
  shows "rd_ok (dec_seq (dec_set upd # ds) r) bs r'"
  using assms by (simp add: rd_ok_def dec_set_def)

lemma rd_ok_let [wire_intro]:
  assumes "rd_ok f b v" "rd_ok (k v r) (concat bs) r'"
  shows "rd_ok (rd_let f k r) (concat (b # bs)) r'"
  using rd_ok_step [OF assms, of "rd_let f k r"] by (simp add: rd_let_def)

lemma rd_ok_fst [wire_intro]:
  assumes "c_string v" "length v \<le> achars" "length v < 2147483648"
  shows "rd_ok (rd_fst ops achars upd r) (wire_cs v) (upd v r)"
  using rd_ok_to [OF disrfst_ok [of v achars], of "\<lambda>img. upd (c_str img)" r] assms
  by (simp add: rd_fst_def)

lemma rd_ok_loop:
  assumes "\<And>x r. x \<in> set xs \<Longrightarrow> rd_ok (d r) (g x) (step x r)"
  shows "rd_ok (dec_seq (replicate (length xs) d) r) (concat (map g xs)) (fold step xs r)"
  using assms
proof (induction xs arbitrary: r)
  case (Cons x xs)
  then show ?case using rd_ok_seq_Cons [of d r "g x" "step x r" _ "map g xs"] by (simp del: dec_seq.simps)
qed (simp add: rd_ok_def)

end

section \<open>What readers keep on every path\<close>

text \<open>
  \<open>rd_safe\<close>: whatever arrives and whatever the status, the transport's invariant holds,
  nothing is left uncommitted, the output side is untouched, and the input has only been
  advanced over some characters \<open>x\<close> (with more having arrived behind it, at most).
\<close>

context dis_stream
begin

definition rd_safe :: "('s \<Rightarrow> int \<times> 'v \<times> 's) \<Rightarrow> bool" where
  "rd_safe f \<longleftrightarrow> (\<forall>s rc v t. invar s \<and> taken s = [] \<and> f s = (rc, v, t) \<longrightarrow>
     invar t \<and> taken t = [] \<and> outp t = outp s \<and> pend t = pend s \<and> (\<exists>x. prefix (avail s) (x @ avail t)))"

lemma rd_safe_done:
  assumes "\<And>s. invar s \<Longrightarrow> taken s = [] \<Longrightarrow> read_done P s (f s)"
  shows "rd_safe f"
  unfolding rd_safe_def
proof (intro allI impI, elim conjE)
  fix s rc v t assume s: "invar s" "taken s = []" "f s = (rc, v, t)"
  have "read_done P s (rc, v, t)" using assms [OF s(1,2)] s(3) by simp
  moreover from this have "\<exists>x. prefix (avail s) (x @ avail t)"
    by (cases "rc = 0") (auto simp: read_done_def intro: exI [of _ "[]"])
  ultimately show "invar t \<and> taken t = [] \<and> outp t = outp s \<and> pend t = pend s \<and> (\<exists>x. prefix (avail s) (x @ avail t))"
    by (simp add: read_done_def)
qed

lemma rd_safe_prims [safe_intro]:
  "rd_safe (disrui ops)" "rd_safe (disrul ops)" "rd_safe (disrull ops)" "rd_safe (disrsi ops neg0)" "rd_safe (disrsl ops neg0)"
  "rd_safe (disrst ops)" "rd_safe (disrcs ops neg0)" "rd_safe (disrfst ops n)" "rd_safe (disrfcs ops n)"
  by (rule rd_safe_done, rule disrui_done disrul_done disrull_done disrsi_done disrsl_done disrst_done
      disrcs_done disrfst_done disrfcs_done; assumption)+

lemma rd_safe_disruc [safe_intro]: "rd_safe (disruc ops)"
proof (rule rd_safe_done [where P = "\<lambda>_ _. True"])
  fix s assume s: "invar s" "taken s = []"
  obtain rc neg v t where e: "disrsi' ops s False 0 = (rc, neg, v, t)" by (cases "disrsi' ops s False 0")
  show "read_done (\<lambda>_ _. True) s (disruc ops s)"
    using disrsi'_cases [OF s(1) e] s(2)
    by (auto simp: disruc_def e intro: disr_finish_fail disr_finish_ok)
qed

text \<open>A reader run after another, however the statuses are used.\<close>

lemma rd_safe_bind:
  assumes "rd_safe f" "\<And>rc v. rd_safe (g rc v)"
    "\<And>s. h s = (case f s of (rc, v, t) \<Rightarrow> g rc v t)"
  shows "rd_safe h"
  unfolding rd_safe_def
proof (intro allI impI, elim conjE)
  fix s rc v u assume s: "invar s" "taken s = []" "h s = (rc, v, u)"
  obtain rc' v' t where f: "f s = (rc', v', t)" by (cases "f s")
  then have g: "g rc' v' t = (rc, v, u)" using assms(3) [of s] s(3) by simp
  from assms(1) s f obtain x where t: "invar t" "taken t = []" "outp t = outp s" "pend t = pend s"
    "prefix (avail s) (x @ avail t)"
    unfolding rd_safe_def by blast
  from assms(2) [of rc' v'] t g obtain y where "invar u" "taken u = []" "outp u = outp t" "pend u = pend t"
    "prefix (avail t) (y @ avail u)"
    unfolding rd_safe_def by blast
  moreover from this t(5) have "prefix (avail s) ((x @ y) @ avail u)"
    by (metis append_assoc prefix_order.trans same_prefix_prefix)
  ultimately show "invar u \<and> taken u = [] \<and> outp u = outp s \<and> pend u = pend s \<and> (\<exists>x. prefix (avail s) (x @ avail u))"
    using t by metis
qed

lemma rd_safe_const [safe_intro]: "rd_safe (\<lambda>s. (rc, v, s))"
  unfolding rd_safe_def by (auto intro: exI [of _ "[]"])

lemma rd_safe_malloc:
  "rd_safe (\<lambda>s. case c_malloc ops s n of (ok, t) \<Rightarrow> (0, ok, t))"
  unfolding rd_safe_def using malloc_law by (auto split: prod.splits intro: exI [of _ "[]"])

lemma rd_safe_set [safe_intro]: "rd_safe (dec_set upd r)"
  by (rule rd_safe_bind [OF rd_safe_const rd_safe_const]) (simp add: dec_set_def)

lemma rd_safe_rc [safe_intro]: "rd_safe (dec_rc rc r)"
  by (rule rd_safe_bind [OF rd_safe_const rd_safe_const]) (simp add: dec_rc_def)

lemma rd_safe_to [safe_intro]: "rd_safe f \<Longrightarrow> rd_safe (rd_to f upd r)"
  by (rule rd_safe_bind [of f "\<lambda>rc v s. (rc, upd v r, s)"]) (auto intro: rd_safe_const simp: rd_to_def)

lemma rd_safe_fst [safe_intro]: "rd_safe (rd_fst ops n upd r)"
  unfolding rd_fst_def by (intro safe_intro)

lemma rd_safe_if [safe_intro]: "(c \<Longrightarrow> rd_safe f) \<Longrightarrow> (\<not> c \<Longrightarrow> rd_safe g) \<Longrightarrow> rd_safe (if c then f else g)"
  by simp

lemma rd_safe_let [safe_intro]:
  assumes "rd_safe f" "\<And>v. rd_safe (k v r)"
  shows "rd_safe (rd_let f k r)"
  by (rule rd_safe_bind [OF assms(1), of "\<lambda>rc v. if rc \<noteq> 0 then (\<lambda>s. (rc, r, s)) else k v r"])
    (auto simp: rd_let_def intro: assms(2) rd_safe_const split: prod.splits)

lemma rd_safe_seq_Nil [safe_intro]: "rd_safe (dec_seq [] r)"
  by (rule rd_safe_bind [OF rd_safe_const rd_safe_const]) simp

lemma rd_safe_seq:
  assumes "\<And>d r. d \<in> set ds \<Longrightarrow> rd_safe (d r)"
  shows "rd_safe (dec_seq ds r)"
  using assms
proof (induction ds arbitrary: r)
  case (Cons d ds)
  show ?case
    by (rule rd_safe_bind [of "d r" "\<lambda>rc r'. if rc \<noteq> 0 then (\<lambda>s. (rc, r', s)) else dec_seq ds r'"])
      (use Cons in \<open>auto intro: rd_safe_const split: prod.splits\<close>)
qed (rule rd_safe_seq_Nil)

lemma rd_safe_seq_Cons [safe_intro]:
  assumes "rd_safe (d r)" "\<And>r'. rd_safe (dec_seq ds r')"
  shows "rd_safe (dec_seq (d # ds) r)"
  by (rule rd_safe_bind [of "d r" "\<lambda>rc r'. if rc \<noteq> 0 then (\<lambda>s. (rc, r', s)) else dec_seq ds r'"])
    (use assms in \<open>auto intro: rd_safe_const split: prod.splits\<close>)

lemma rd_safe_loop [safe_intro]: "(\<And>r. rd_safe (d r)) \<Longrightarrow> rd_safe (dec_seq (replicate n d) r)"
  by (rule rd_safe_seq) simp

end

section \<open>Messages over TCP\<close>

text \<open>
  \<open>tcp_carries enc dec v\<close>: on any well-formed channel whose kernel accepts output, \<open>enc\<close>
  succeeds and appends some text to the channel's output; and on any well-formed channel where
  that text has arrived, in whatever portions and followed by anything, \<open>dec\<close> returns
  success and \<open>v\<close>, and leaves exactly what followed.
\<close>

abbreviation tcp_ops :: "nat \<Rightarrow> tcp_state dis_ops" where
  "tcp_ops fd \<equiv> DIS_tcp_funcs (\<lambda>_. True) fd"

definition tcp_carries :: "(tcp_state dis_ops \<Rightarrow> tcp_state enc) \<Rightarrow>
    (tcp_state dis_ops \<Rightarrow> tcp_state \<Rightarrow> int \<times> 'v \<times> tcp_state) \<Rightarrow> 'v \<Rightarrow> bool" where
  "tcp_carries enc dec v \<longleftrightarrow> (\<exists>bs.
     (\<forall>fd s. tcp_ok fd s \<and> tcp_calm fd s \<and> tcp_pend fd s = [] \<longrightarrow>
        (\<exists>t. enc (tcp_ops fd) s = (DIS_SUCCESS, t) \<and> tcp_ok fd t \<and> tcp_pend fd t = []
          \<and> tcp_outp fd t = tcp_outp fd s @ bs)) \<and>
     (\<forall>fd s rest. tcp_ok fd s \<and> tcp_taken fd s = [] \<and> tcp_avail fd s = bs @ rest \<longrightarrow>
        (\<exists>t. dec (tcp_ops fd) s = (DIS_SUCCESS, v, t) \<and> tcp_ok fd t \<and> tcp_taken fd t = []
          \<and> tcp_avail fd t = rest)))"

lemma tcp_carriesI:
  assumes "\<And>fd. tcp_out.wr_ok fd (enc (tcp_ops fd)) bs" "\<And>fd. tcp_in.rd_ok fd (dec (tcp_ops fd)) bs v"
  shows "tcp_carries enc dec v"
  unfolding tcp_carries_def
proof (intro exI [of _ bs] conjI allI impI; elim conjE)
  fix fd s assume "tcp_ok fd s" "tcp_calm fd s" "tcp_pend fd s = []"
  then show "\<exists>t. enc (tcp_ops fd) s = (DIS_SUCCESS, t) \<and> tcp_ok fd t \<and> tcp_pend fd t = []
      \<and> tcp_outp fd t = tcp_outp fd s @ bs"
    using assms(1) [of fd] unfolding tcp_out.wr_ok_def by blast
next
  fix fd s rest assume "tcp_ok fd s" "tcp_taken fd s = []" "tcp_avail fd s = bs @ rest"
  then show "\<exists>t. dec (tcp_ops fd) s = (DIS_SUCCESS, v, t) \<and> tcp_ok fd t \<and> tcp_taken fd t = []
      \<and> tcp_avail fd t = rest"
    using assms(2) [of fd] unfolding tcp_in.rd_ok_def by blast
qed

text \<open>\<open>tcp_safe dec\<close>: on any input, the channel stays well-formed and the decoder leaves nothing uncommitted.\<close>

definition tcp_safe :: "(tcp_state dis_ops \<Rightarrow> tcp_state \<Rightarrow> int \<times> 'v \<times> tcp_state) \<Rightarrow> bool" where
  "tcp_safe dec \<longleftrightarrow> (\<forall>fd s. tcp_ok fd s \<and> tcp_taken fd s = [] \<longrightarrow>
     (case dec (tcp_ops fd) s of (rc, v, t) \<Rightarrow> tcp_ok fd t \<and> tcp_taken fd t = [] \<and>
        tcp_outp fd t = tcp_outp fd s \<and> tcp_pend fd t = tcp_pend fd s \<and>
        (\<exists>x. prefix (tcp_avail fd s) (x @ tcp_avail fd t))))"

lemma tcp_safeI:
  assumes "\<And>fd. tcp.rd_safe fd (dec (tcp_ops fd))"
  shows "tcp_safe dec"
  unfolding tcp_safe_def
proof (intro allI impI, elim conjE)
  fix fd s assume s: "tcp_ok fd s" "tcp_taken fd s = []"
  obtain rc v t where d: "dec (tcp_ops fd) s = (rc, v, t)" by (cases "dec (tcp_ops fd) s")
  show "case dec (tcp_ops fd) s of (rc, v, t) \<Rightarrow> tcp_ok fd t \<and> tcp_taken fd t = [] \<and>
      tcp_outp fd t = tcp_outp fd s \<and> tcp_pend fd t = tcp_pend fd s \<and> (\<exists>x. prefix (tcp_avail fd s) (x @ tcp_avail fd t))"
    unfolding d prod.case using assms [of fd] s d unfolding tcp.rd_safe_def by blast
qed

text \<open>
  \<open>tcp_sound P dec\<close>: on any input whatever, \<open>dec\<close> keeps the channel well-formed; when it
  fails, every character it looked at is there to be read again; when it succeeds, the characters
  it took away stand in the relation \<open>P\<close> to the value.
\<close>

definition tcp_sound :: "('v \<Rightarrow> string \<Rightarrow> bool) \<Rightarrow> (tcp_state dis_ops \<Rightarrow> tcp_state \<Rightarrow> int \<times> 'v \<times> tcp_state) \<Rightarrow> bool" where
  "tcp_sound P dec \<longleftrightarrow> (\<forall>fd s. tcp_ok fd s \<and> tcp_taken fd s = [] \<longrightarrow>
     (case dec (tcp_ops fd) s of (rc, v, t) \<Rightarrow> tcp_ok fd t \<and> tcp_taken fd t = [] \<and>
        tcp_outp fd t = tcp_outp fd s \<and> tcp_pend fd t = tcp_pend fd s \<and>
        (if rc = DIS_SUCCESS then \<exists>x. tcp_avail fd s = x @ tcp_avail fd t \<and> P v x
         else prefix (tcp_avail fd s) (tcp_avail fd t))))"

lemma tcp_soundI:
  assumes "\<And>fd s. tcp_ok fd s \<Longrightarrow> tcp_taken fd s = [] \<Longrightarrow> tcp.read_done fd P s (dec (tcp_ops fd) s)"
  shows "tcp_sound P dec"
  unfolding tcp_sound_def
proof (intro allI impI, elim conjE)
  fix fd s assume s: "tcp_ok fd s" "tcp_taken fd s = []"
  obtain rc v t where d: "dec (tcp_ops fd) s = (rc, v, t)" by (cases "dec (tcp_ops fd) s")
  have "tcp.read_done fd P s (rc, v, t)" using assms [OF s] d by simp
  then show "case dec (tcp_ops fd) s of (rc, v, t) \<Rightarrow> tcp_ok fd t \<and> tcp_taken fd t = [] \<and>
        tcp_outp fd t = tcp_outp fd s \<and> tcp_pend fd t = tcp_pend fd s \<and>
        (if rc = DIS_SUCCESS then \<exists>x. tcp_avail fd s = x @ tcp_avail fd t \<and> P v x
         else prefix (tcp_avail fd s) (tcp_avail fd t))"
    unfolding d prod.case tcp.read_done_def by simp
qed

end
