(* ===== verification/Attr_Wire.thy ===== *)
theory Attr_Wire
  imports Codec
begin

text \<open>
  Attribute lists on the wire. Clients send \<open>attropl\<close> or \<open>attrl\<close> lists
  (\<open>enc_attropl.c\<close>, \<open>enc_attrl.c\<close>), servers send \<open>svrattrl\<close> lists
  (\<open>enc_svrattrl.c\<close>); the three encodings agree, and each kind of list can be decoded into
  a server list (\<open>dec_svrattrl.c\<close>) or a client list (\<open>dec_attropl.c\<close>,
  \<open>dec_attrl.c\<close>). \<open>struct attrl\<close> has the fields of \<open>struct attropl\<close>, so
  one record serves both. Linked lists are lists. A \<open>char *\<close> that the code dereferences
  unconditionally is a \<open>string\<close>, one that may be \<open>NULL\<close> a \<open>string option\<close>.
\<close>

section \<open>Data\<close>

record attropl =
  at_name :: string
  at_resource :: "string option"
  at_value :: string
  at_op :: uint

record svrattrl =
  al_name :: string
  al_resc :: "string option"
  al_value :: string
  al_op :: uint
  al_tsize :: uint
  al_nameln :: uint
  al_rescln :: uint
  al_valln :: uint
  al_flags :: nat
  al_refct :: int

text \<open>\<open>enum batch_op\<close> starts with \<open>SET\<close>. Structure sizes are those of the LP64 ABI.\<close>

definition batch_op_SET :: uint where "batch_op_SET = 0"

definition sizeof_attropl :: nat where "sizeof_attropl = 40"
definition sizeof_svrattrl :: nat where "sizeof_svrattrl = 96"

abbreviation put_ui :: "'s dis_ops \<Rightarrow> uint \<Rightarrow> 's enc" where "put_ui ops v \<equiv> \<lambda>s. diswui ops s v"
abbreviation put_si :: "'s dis_ops \<Rightarrow> uint \<Rightarrow> 's enc" where "put_si ops v \<equiv> \<lambda>s. diswsi ops s v"
abbreviation put_ul :: "'s dis_ops \<Rightarrow> ulong \<Rightarrow> 's enc" where "put_ul ops v \<equiv> \<lambda>s. diswul ops s v"
abbreviation put_sl :: "'s dis_ops \<Rightarrow> ulong \<Rightarrow> 's enc" where "put_sl ops v \<equiv> \<lambda>s. diswsl ops s v"
abbreviation put_uc :: "'s dis_ops \<Rightarrow> 8 word \<Rightarrow> 's enc" where "put_uc ops v \<equiv> \<lambda>s. diswuc ops s v"
abbreviation put_st :: "'s dis_ops \<Rightarrow> string \<Rightarrow> 's enc" where "put_st ops v \<equiv> \<lambda>s. diswst ops s v"
abbreviation put_cs :: "'s dis_ops \<Rightarrow> string \<Rightarrow> nat \<Rightarrow> 's enc" where "put_cs ops v n \<equiv> \<lambda>s. diswcs ops s v n"

section \<open>Encoders\<close>

text \<open>The loop body the three encoders share; \<open>has\<close> says whether a resource name follows.\<close>

definition name_len :: "string \<Rightarrow> string option \<Rightarrow> string \<Rightarrow> uint" where
  "name_len nm resc val = of_nat (strlen nm) + of_nat (strlen val) + 2
     + (case resc of None \<Rightarrow> 0 | Some r \<Rightarrow> of_nat (strlen r) + 1)"

definition enc_attr :: "'s dis_ops \<Rightarrow> bool \<Rightarrow> string \<Rightarrow> string option \<Rightarrow> string \<Rightarrow> uint \<Rightarrow> 's enc" where
  "enc_attr ops has nm resc val opn =
     enc_seq ([put_ui ops (name_len nm resc val), put_st ops nm]
       @ (if has then [put_ui ops 1, put_st ops (case resc of None \<Rightarrow> [] | Some r \<Rightarrow> r)] else [put_ui ops 0])
       @ [put_st ops val, put_ui ops opn])"

definition encode_DIS_attropl :: "'s dis_ops \<Rightarrow> attropl list \<Rightarrow> 's enc" where
  "encode_DIS_attropl ops l = enc_seq (put_ui ops (of_nat (length l)) #
     map (\<lambda>a. enc_attr ops (at_resource a \<noteq> None) (at_name a) (at_resource a) (at_value a) (at_op a)) l)"

definition encode_DIS_attrl :: "'s dis_ops \<Rightarrow> attropl list \<Rightarrow> 's enc" where
  "encode_DIS_attrl ops l = enc_seq (put_ui ops (of_nat (length l)) #
     map (\<lambda>a. enc_attr ops (at_resource a \<noteq> None) (at_name a) (at_resource a) (at_value a) batch_op_SET) l)"

definition encode_DIS_svrattrl :: "'s dis_ops \<Rightarrow> svrattrl list \<Rightarrow> 's enc" where
  "encode_DIS_svrattrl ops l = enc_seq (put_ui ops (of_nat (length l)) #
     map (\<lambda>a. enc_attr ops (al_rescln a \<noteq> 0) (al_name a) (al_resc a) (al_value a) (al_op a)) l)"

section \<open>Decoders\<close>

text \<open>\<open>if (flag) d\<close> inside a chain, and a reader whose arguments depend on the structure.\<close>

definition dec_opt :: "bool \<Rightarrow> ('s, 'r) dec \<Rightarrow> ('s, 'r) dec" where
  "dec_opt c d r s = (if c then d r s else (0, r, s))"

definition rd_at :: "('r \<Rightarrow> 's \<Rightarrow> int \<times> 'v \<times> 's) \<Rightarrow> ('v \<Rightarrow> 'r \<Rightarrow> 'r) \<Rightarrow> ('s, 'r) dec" where
  "rd_at f upd r = rd_to (f r) upd r"

definition opt_str :: "string option \<Rightarrow> string" where
  "opt_str p = (case p of None \<Rightarrow> [] | Some s \<Rightarrow> s)"

definition dec_attr_fields :: "'s dis_ops \<Rightarrow> ('s, attropl) dec" where
  "dec_attr_fields ops = dec_seq
     [rd_to (disrst ops) (\<lambda>v. at_name_update (\<lambda>_. opt_str v)),
      rd_let (disrui ops) (\<lambda>hasresc. dec_opt (hasresc \<noteq> 0) (rd_to (disrst ops) (\<lambda>v. at_resource_update (\<lambda>_. v)))),
      rd_to (disrst ops) (\<lambda>v. at_value_update (\<lambda>_. opt_str v)),
      rd_to (disrui ops) (\<lambda>v. at_op_update (\<lambda>_. v))]"

text \<open>
  The result holds the linked list and whether its last entry has been freed: when the size of a
  later entry cannot be read, \<open>pat\<close> still points to the entry linked before it, and
  \<open>PBS_free_aopl(pat)\<close> frees that one.
\<close>

definition dec_attropl_item :: "'s dis_ops \<Rightarrow> ('s, attropl list \<times> bool) dec" where
  "dec_attropl_item ops = (\<lambda>(pats, freed) s.
     case disrui ops s of (rc, _, s) \<Rightarrow>
       if rc \<noteq> 0 then (rc, (pats, pats \<noteq> []), s)
       else case c_malloc ops s sizeof_attropl of (ok, s) \<Rightarrow>
         if \<not> ok then (DIS_NOMALLOC, (pats, freed), s)
         else case dec_attr_fields ops \<lparr>at_name = [], at_resource = None, at_value = [], at_op = 0\<rparr> s of (rc, pat, s) \<Rightarrow>
           if rc \<noteq> 0 then (rc, (pats, freed), s) else (0, (pats @ [pat], freed), s))"

definition decode_DIS_attropl :: "'s dis_ops \<Rightarrow> 's \<Rightarrow> int \<times> (attropl list \<times> bool) \<times> 's" where
  "decode_DIS_attropl ops = rd_let (disrui ops) (\<lambda>numpat. dec_seq (replicate (unat numpat) (dec_attropl_item ops))) ([], False)"

text \<open>\<open>dec_attrl.c\<close> is the same text with \<open>new_attrl()\<close> for the allocation.\<close>

definition decode_DIS_attrl :: "'s dis_ops \<Rightarrow> 's \<Rightarrow> int \<times> (attropl list \<times> bool) \<times> 's" where
  "decode_DIS_attrl ops = rd_let (disrui ops) (\<lambda>numpat. dec_seq (replicate (unat numpat) (dec_attropl_item ops))) ([], False)"

text \<open>
  Server lists: name, resource and value are stored one after the other behind the structure, in
  a block sized by the length the sender announced; \<open>data_len\<close> is what is left of it.
\<close>

definition new_svrattrl :: "uint \<Rightarrow> svrattrl" where
  "new_svrattrl data_len = \<lparr>al_name = [], al_resc = None, al_value = [], al_op = 0,
     al_tsize = of_nat (sizeof_svrattrl + unat data_len), al_nameln = 0, al_rescln = 0, al_valln = 0,
     al_flags = 0, al_refct = 1\<rparr>"

definition dec_svrattrl_fields :: "'s dis_ops \<Rightarrow> ('s, svrattrl \<times> uint) dec" where
  "dec_svrattrl_fields ops = dec_seq
     [rd_at (\<lambda>r. disrfcs ops (unat (snd r)))
        (\<lambda>(ls, str) (p, data_len). (p\<lparr>al_name := str, al_nameln := of_nat (Suc ls)\<rparr>, data_len - of_nat (Suc ls))),
      rd_let (disrui ops) (\<lambda>hasresc. dec_opt (hasresc \<noteq> 0)
        (rd_at (\<lambda>r. disrfcs ops (unat (snd r)))
          (\<lambda>(ls, str) (p, data_len). (p\<lparr>al_resc := Some str, al_rescln := of_nat (Suc ls)\<rparr>, data_len - of_nat (Suc ls))))),
      rd_at (\<lambda>r. disrfcs ops (unat (snd r)))
        (\<lambda>(ls, str) (p, data_len). (p\<lparr>al_value := str, al_valln := of_nat (Suc ls)\<rparr>, data_len)),
      rd_to (disrui ops) (\<lambda>v (p, data_len). (p\<lparr>al_op := v\<rparr>, data_len))]"

definition dec_svrattrl_item :: "'s dis_ops \<Rightarrow> ('s, svrattrl list) dec" where
  "dec_svrattrl_item ops = rd_let (disrui ops) (\<lambda>data_len phead s.
     case c_malloc ops s (sizeof_svrattrl + unat data_len) of (ok, s) \<Rightarrow>
       if \<not> ok then (DIS_NOMALLOC, phead, s)
       else case dec_svrattrl_fields ops (new_svrattrl data_len, data_len) s of (rc, (psvrat, _), s) \<Rightarrow>
         if rc \<noteq> 0 then (rc, phead, s) else (0, phead @ [psvrat], s))"

definition decode_DIS_svrattrl :: "'s dis_ops \<Rightarrow> ('s, svrattrl list) dec" where
  "decode_DIS_svrattrl ops = rd_let (disrui ops) (\<lambda>numattr. dec_seq (replicate (unat numattr) (dec_svrattrl_item ops)))"

section \<open>The text of an attribute\<close>

definition attr_len :: "string \<Rightarrow> string option \<Rightarrow> string \<Rightarrow> nat" where
  "attr_len nm resc val = length nm + length val + 2 + (case resc of None \<Rightarrow> 0 | Some r \<Rightarrow> length r + 1)"

definition wire_attr :: "string \<Rightarrow> string option \<Rightarrow> string \<Rightarrow> uint \<Rightarrow> string" where
  "wire_attr nm resc val opn = concat ([wire_u (attr_len nm resc val), wire_cs nm]
     @ [case resc of None \<Rightarrow> concat [wire_u 0] | Some r \<Rightarrow> concat [wire_u 1, wire_cs r]]
     @ [wire_cs val, wire_u (unat opn)])"

definition attr_ok :: "string \<Rightarrow> string option \<Rightarrow> string \<Rightarrow> bool" where
  "attr_ok nm resc val \<longleftrightarrow> c_string nm \<and> c_string val \<and> (\<forall>r. resc = Some r \<longrightarrow> c_string r) \<and>
     attr_len nm resc val < 2147483648"

definition wf_attropl :: "attropl \<Rightarrow> bool" where
  "wf_attropl a \<longleftrightarrow> attr_ok (at_name a) (at_resource a) (at_value a)"

text \<open>A server entry as the code builds them: a resource name exactly when its length is set.\<close>

definition wf_svrattrl :: "svrattrl \<Rightarrow> bool" where
  "wf_svrattrl a \<longleftrightarrow> attr_ok (al_name a) (al_resc a) (al_value a) \<and> (al_rescln a \<noteq> 0 \<longleftrightarrow> al_resc a \<noteq> None)"

definition attr_list_ok :: "('a \<Rightarrow> bool) \<Rightarrow> 'a list \<Rightarrow> bool" where
  "attr_list_ok ok l \<longleftrightarrow> length l < 4294967296 \<and> (\<forall>a \<in> set l. ok a)"

text \<open>The server entry built from a name, resource, value and operation.\<close>

definition mk_svrattrl :: "string \<Rightarrow> string option \<Rightarrow> string \<Rightarrow> uint \<Rightarrow> svrattrl" where
  "mk_svrattrl nm resc val opn = \<lparr>al_name = nm, al_resc = resc, al_value = val, al_op = opn,
     al_tsize = of_nat (sizeof_svrattrl + attr_len nm resc val), al_nameln = of_nat (length nm + 1),
     al_rescln = (case resc of None \<Rightarrow> 0 | Some r \<Rightarrow> of_nat (length r + 1)),
     al_valln = of_nat (length val + 1), al_flags = 0, al_refct = 1\<rparr>"

definition attropl_svr :: "attropl \<Rightarrow> svrattrl" where
  "attropl_svr a = mk_svrattrl (at_name a) (at_resource a) (at_value a) (at_op a)"

definition svr_attropl :: "svrattrl \<Rightarrow> attropl" where
  "svr_attropl a = \<lparr>at_name = al_name a, at_resource = al_resc a, at_value = al_value a, at_op = al_op a\<rparr>"

definition wire_attropls :: "attropl list \<Rightarrow> string" where
  "wire_attropls l = concat (wire_u (length l) # map (\<lambda>a. wire_attr (at_name a) (at_resource a) (at_value a) (at_op a)) l)"

lemma name_len_eq: "attr_ok nm resc val \<Longrightarrow> unat (name_len nm resc val) = attr_len nm resc val"
proof -
  assume ok: "attr_ok nm resc val"
  then have "name_len nm resc val = of_nat (attr_len nm resc val)"
    by (cases resc) (simp_all add: name_len_def attr_len_def attr_ok_def)
  then show ?thesis using ok by (simp add: attr_ok_def unat_of_nat_small)
qed

lemma attr_okD:
  assumes "attr_ok nm resc val"
  shows "c_string nm" "c_string val" "length nm < 2147483648" "length val < 2147483648"
    "resc = Some r \<Longrightarrow> c_string r" "resc = Some r \<Longrightarrow> length r < 2147483648"
  using assms by (auto simp: attr_ok_def attr_len_def)

context dis_sink
begin

lemma enc_attr_ok:
  assumes "attr_ok nm resc val" "has = (resc \<noteq> None)"
  shows "wr_ok (enc_attr ops has nm resc val opn) (wire_attr nm resc val opn)"
proof -
  note ok = attr_okD [OF assms(1)]
  note len = name_len_eq [OF assms(1)]
  show ?thesis
  proof (cases resc)
    case None
    have "wr_ok (enc_seq [put_ui ops (name_len nm resc val), put_st ops nm, put_ui ops 0, put_st ops val, put_ui ops opn])
      (concat [wire_u (unat (name_len nm resc val)), wire_cs nm, wire_u (unat (0 :: uint)), wire_cs val, wire_u (unat opn)])"
      using ok by (intro wire_intro)
    then show ?thesis using None assms(2) len by (simp add: enc_attr_def wire_attr_def del: enc_seq.simps)
  next
    case (Some r)
    have "wr_ok (enc_seq [put_ui ops (name_len nm resc val), put_st ops nm, put_ui ops 1, put_st ops r, put_st ops val, put_ui ops opn])
      (concat [wire_u (unat (name_len nm resc val)), wire_cs nm, wire_u (unat (1 :: uint)), wire_cs r, wire_cs val, wire_u (unat opn)])"
      using ok Some by (intro wire_intro) simp_all
    then show ?thesis using Some assms(2) len by (simp add: enc_attr_def wire_attr_def del: enc_seq.simps)
  qed
qed

lemma enc_attr_list_ok:
  assumes "length l < 4294967296" "\<And>a. a \<in> set l \<Longrightarrow> wr_ok (f a) (g a)"
  shows "wr_ok (enc_seq (put_ui ops (of_nat (length l)) # map f l)) (concat (wire_u (length l) # map g l))"
proof -
  have "unat (of_nat (length l) :: uint) = length l" using assms(1) by (simp add: unat_of_nat_small)
  then have "wr_ok (put_ui ops (of_nat (length l))) (wire_u (length l))"
    using diswui_ok [of "of_nat (length l)"] by simp
  then show ?thesis using wr_ok_map [OF assms(2)] by (rule wr_ok_Cons)
qed

lemma encode_DIS_attropl_ok [wire_intro]:
  "attr_list_ok wf_attropl l \<Longrightarrow> wr_ok (encode_DIS_attropl ops l) (wire_attropls l)"
  unfolding encode_DIS_attropl_def wire_attropls_def
  by (rule enc_attr_list_ok) (auto simp: attr_list_ok_def wf_attropl_def intro: enc_attr_ok)

lemma encode_DIS_attrl_ok [wire_intro]:
  "attr_list_ok wf_attropl l \<Longrightarrow> wr_ok (encode_DIS_attrl ops l) (wire_attropls (map (at_op_update (\<lambda>_. batch_op_SET)) l))"
  unfolding encode_DIS_attrl_def wire_attropls_def length_map map_map
  by (rule enc_attr_list_ok) (auto simp: attr_list_ok_def wf_attropl_def intro: enc_attr_ok)

lemma encode_DIS_svrattrl_ok [wire_intro]:
  "attr_list_ok wf_svrattrl l \<Longrightarrow> wr_ok (encode_DIS_svrattrl ops l) (wire_attropls (map svr_attropl l))"
  unfolding encode_DIS_svrattrl_def wire_attropls_def length_map map_map
  by (rule enc_attr_list_ok) (auto simp: attr_list_ok_def wf_svrattrl_def svr_attropl_def intro: enc_attr_ok)

end

lemma word_sub_Suc: "Suc k \<le> n \<Longrightarrow> (of_nat n :: uint) - (1 + of_nat k) = of_nat (n - Suc k)"
  by (simp add: of_nat_diff)

context dis_source
begin

lemma rd_ok_opt_True: "c \<Longrightarrow> rd_ok (d r) b r' \<Longrightarrow> rd_ok (dec_opt c d r) (concat [b]) r'"
  by (simp add: rd_ok_def dec_opt_def)

lemma rd_ok_opt_False: "\<not> c \<Longrightarrow> rd_ok (dec_opt c d r) (concat []) r"
  by (simp add: rd_ok_def dec_opt_def)

lemma rd_ok_cong: "rd_ok f bs v \<Longrightarrow> v = w \<Longrightarrow> rd_ok f bs w"
  by simp

lemma disrui_nat [wire_intro]: "n < 4294967296 \<Longrightarrow> rd_ok (disrui ops) (wire_u n) (of_nat n)"
  using disrui_ok [of "of_nat n"] by (simp add: unat_of_nat_small)

lemma rd_ok_at [wire_intro]: "rd_ok (f r) bs v \<Longrightarrow> rd_ok (rd_at f upd r) bs (upd v r)"
  unfolding rd_at_def by (rule rd_ok_to)

text \<open>Allocating a structure, filling it and linking it in.\<close>

lemma rd_ok_alloc:
  assumes "rd_ok f bs v"
    and "\<And>s ok t. c_malloc ops s n = (ok, t) \<Longrightarrow> ok \<Longrightarrow> h s = (case f t of (rc, p, u) \<Rightarrow> if rc \<noteq> 0 then (rc, e, u) else (0, g p, u))"
  shows "rd_ok h bs (g v)"
  unfolding rd_ok_def
proof (intro allI impI, elim conjE)
  fix s rest assume s: "invar s" "calm s" "taken s = []" "avail s = bs @ rest"
  obtain t where t: "c_malloc ops s n = (True, t)" "moved_exact s t []" "calm t" "avail t = bs @ rest"
    using live_malloc [OF moved_refl [OF s(1)] s(2), of n] s(4) by metis
  then have t': "invar t" "taken t = []" "outp t = outp s" "pend t = pend s"
    using s(3) by (simp_all add: moved_exact_def)
  obtain u where "f t = (0, v, u)" "invar u" "calm u" "taken u = []" "avail u = rest" "outp u = outp t" "pend u = pend t"
    using rd_okD [OF assms(1) t'(1) t(3) t'(2) t(4)] .
  then show "\<exists>u. h s = (0, g v, u) \<and> invar u \<and> calm u \<and> taken u = [] \<and> avail u = rest \<and> outp u = outp s \<and> pend u = pend s"
    using assms(2) [OF t(1)] t' by simp
qed

lemma dec_attr_fields_ok:
  assumes ok: "attr_ok nm resc val"
  shows "rd_ok (dec_attr_fields ops \<lparr>at_name = [], at_resource = None, at_value = [], at_op = 0\<rparr>)
    (concat [wire_cs nm, case resc of None \<Rightarrow> concat [wire_u 0] | Some r \<Rightarrow> concat [wire_u 1, wire_cs r], wire_cs val, wire_u (unat opn)])
    \<lparr>at_name = nm, at_resource = resc, at_value = val, at_op = opn\<rparr>"
proof (cases resc)
  case None
  show ?thesis
    unfolding None option.case dec_attr_fields_def
    by (rule rd_ok_cong, (rule rd_ok_opt_False wire_intro | simp add: opt_str_def attr_okD [OF ok] unat_uint_less)+)
next
  case (Some r)
  show ?thesis
    unfolding Some option.case dec_attr_fields_def
    by (rule rd_ok_cong, (rule rd_ok_opt_True wire_intro | simp add: opt_str_def attr_okD [OF ok] Some unat_uint_less)+)
qed

lemma dec_svrattrl_fields_ok:
  assumes ok: "attr_ok nm resc val"
  shows "\<exists>dl. rd_ok (dec_svrattrl_fields ops (new_svrattrl (of_nat (attr_len nm resc val)), of_nat (attr_len nm resc val)))
    (concat [wire_cs nm, case resc of None \<Rightarrow> concat [wire_u 0] | Some r \<Rightarrow> concat [wire_u 1, wire_cs r], wire_cs val, wire_u (unat opn)])
    (mk_svrattrl nm resc val opn, dl)"
proof -
  define L where "L = attr_len nm resc val"
  define mk where "mk = mk_svrattrl nm resc val opn"
  note ok' = attr_okD [OF ok]
  have L: "L < 4294967296" "Suc (length nm) \<le> L"
    using ok by (simp_all add: L_def attr_ok_def attr_len_def)
  then have L': "length nm \<le> unat (of_nat L :: uint)" by (simp add: unat_of_nat_small)
  show ?thesis
  proof (cases resc)
    case None
    have *: "length val \<le> unat ((of_nat L :: uint) - (1 + of_nat (length nm)))"
      unfolding word_sub_Suc [OF L(2)] by (subst unat_of_nat_small) (use L(1) in \<open>simp_all add: L_def None attr_len_def\<close>)
    show ?thesis
      unfolding None option.case dec_svrattrl_fields_def L_def [symmetric, unfolded None] mk_def [symmetric, unfolded None]
      by (rule exI [of _ "of_nat L - (1 + of_nat (length nm))"], rule rd_ok_cong,
          (rule rd_ok_opt_False wire_intro | simp add: ok' unat_uint_less L' *)+, simp add: mk_def mk_svrattrl_def new_svrattrl_def L_def [symmetric, unfolded None] L unat_of_nat_small None)
  next
    case (Some r)
    have r: "Suc (length r) \<le> L - Suc (length nm)" by (simp add: L_def Some attr_len_def)
    have *: "length r \<le> unat ((of_nat L :: uint) - (1 + of_nat (length nm)))"
      "length val \<le> unat ((of_nat L :: uint) - (1 + of_nat (length nm)) - (1 + of_nat (length r)))"
      unfolding word_sub_Suc [OF L(2)] word_sub_Suc [OF r]
      by (subst unat_of_nat_small; use L(1) in \<open>simp add: L_def Some attr_len_def\<close>)+
    show ?thesis
      unfolding Some option.case dec_svrattrl_fields_def L_def [symmetric, unfolded Some] mk_def [symmetric, unfolded Some]
      by (rule exI [of _ "of_nat L - (1 + of_nat (length nm)) - (1 + of_nat (length r))"], rule rd_ok_cong,
          (rule rd_ok_opt_True wire_intro | simp add: ok' Some unat_uint_less L' * *(2) [simplified])+, simp add: mk_def mk_svrattrl_def new_svrattrl_def L_def [symmetric, unfolded Some] L unat_of_nat_small Some)
  qed
qed

lemma dec_attropl_item_ok:
  assumes "wf_attropl a"
  shows "rd_ok (dec_attropl_item ops (pats, False)) (wire_attr (at_name a) (at_resource a) (at_value a) (at_op a)) (pats @ [a], False)"
proof -
  let ?nm = "at_name a" and ?r = "at_resource a" and ?v = "at_value a"
  let ?new = "\<lparr>at_name = [], at_resource = None, at_value = [], at_op = 0\<rparr>"
  have ok: "attr_ok ?nm ?r ?v" using assms by (simp add: wf_attropl_def)
  have len: "attr_len ?nm ?r ?v < 4294967296" using ok by (simp add: attr_ok_def)
  define fill where "fill s = (case c_malloc ops s sizeof_attropl of (ok, s) \<Rightarrow>
         if \<not> ok then (DIS_NOMALLOC, (pats, False), s)
         else case dec_attr_fields ops ?new s of (rc, pat, s) \<Rightarrow>
           if rc \<noteq> 0 then (rc, (pats, False), s) else (0, (pats @ [pat], False), s))" for s
  have "rd_ok fill (concat [wire_cs ?nm, case ?r of None \<Rightarrow> concat [wire_u 0] | Some r \<Rightarrow> concat [wire_u 1, wire_cs r], wire_cs ?v,
      wire_u (unat (at_op a))]) (pats @ [\<lparr>at_name = ?nm, at_resource = ?r, at_value = ?v, at_op = at_op a\<rparr>], False)"
    by (rule rd_ok_alloc [OF dec_attr_fields_ok [OF ok], of sizeof_attropl fill "(pats, False)" "\<lambda>p. (pats @ [p], False)"])
      (simp add: fill_def)
  note rest = rd_ok_step [OF disrui_nat [OF len] this, of "dec_attropl_item ops (pats, False)"]
  have "rd_ok (dec_attropl_item ops (pats, False)) (wire_u (attr_len ?nm ?r ?v) @ concat [wire_cs ?nm,
      case ?r of None \<Rightarrow> concat [wire_u 0] | Some r \<Rightarrow> concat [wire_u 1, wire_cs r], wire_cs ?v, wire_u (unat (at_op a))])
      (pats @ [\<lparr>at_name = ?nm, at_resource = ?r, at_value = ?v, at_op = at_op a\<rparr>], False)"
    by (rule rest) (simp add: dec_attropl_item_def fill_def)
  then show ?thesis by (cases a) (simp add: wire_attr_def)
qed

lemma dec_svrattrl_item_ok:
  assumes "attr_ok nm resc val"
  shows "rd_ok (dec_svrattrl_item ops phead) (wire_attr nm resc val opn) (phead @ [mk_svrattrl nm resc val opn])"
proof -
  let ?L = "of_nat (attr_len nm resc val) :: uint"
  have len: "attr_len nm resc val < 4294967296" using assms by (simp add: attr_ok_def)
  obtain dl where f: "rd_ok (dec_svrattrl_fields ops (new_svrattrl ?L, ?L))
    (concat [wire_cs nm, case resc of None \<Rightarrow> concat [wire_u 0] | Some r \<Rightarrow> concat [wire_u 1, wire_cs r], wire_cs val, wire_u (unat opn)])
    (mk_svrattrl nm resc val opn, dl)"
    using dec_svrattrl_fields_ok [OF assms] by blast
  define fill where "fill s = (case c_malloc ops s (sizeof_svrattrl + unat ?L) of (ok, s) \<Rightarrow>
       if \<not> ok then (DIS_NOMALLOC, phead, s)
       else case dec_svrattrl_fields ops (new_svrattrl ?L, ?L) s of (rc, (psvrat, _), s) \<Rightarrow>
         if rc \<noteq> 0 then (rc, phead, s) else (0, phead @ [psvrat], s))" for s
  have "rd_ok fill (concat [wire_cs nm, case resc of None \<Rightarrow> concat [wire_u 0] | Some r \<Rightarrow> concat [wire_u 1, wire_cs r], wire_cs val,
      wire_u (unat opn)]) (phead @ [fst (mk_svrattrl nm resc val opn, dl)])"
    by (rule rd_ok_alloc [OF f, of "sizeof_svrattrl + unat ?L" fill phead "\<lambda>p. phead @ [fst p]"])
      (simp add: fill_def split: prod.splits)
  note rest = rd_ok_step [OF disrui_nat [OF len] this, of "dec_svrattrl_item ops phead"]
  have "rd_ok (dec_svrattrl_item ops phead) (wire_u (attr_len nm resc val) @ concat [wire_cs nm,
      case resc of None \<Rightarrow> concat [wire_u 0] | Some r \<Rightarrow> concat [wire_u 1, wire_cs r], wire_cs val, wire_u (unat opn)])
      (phead @ [fst (mk_svrattrl nm resc val opn, dl)])"
    by (rule rest) (simp add: dec_svrattrl_item_def rd_let_def fill_def)
  then show ?thesis by (simp add: wire_attr_def)
qed

lemma fold_append_map: "fold (\<lambda>x r. r @ [f x]) xs r = r @ map f xs"
  by (induction xs arbitrary: r) simp_all

lemma decode_DIS_svrattrl_ok [wire_intro]:
  assumes "attr_list_ok wf_attropl l"
  shows "rd_ok (decode_DIS_svrattrl ops phead) (wire_attropls l) (phead @ map attropl_svr l)"
proof -
  have n: "length l < 4294967296" "unat (of_nat (length l) :: uint) = length l"
    using assms by (simp_all add: attr_list_ok_def unat_of_nat_small)
  have "rd_ok (dec_seq (replicate (length l) (dec_svrattrl_item ops)) phead)
      (concat (map (\<lambda>a. wire_attr (at_name a) (at_resource a) (at_value a) (at_op a)) l)) (fold (\<lambda>a r. r @ [attropl_svr a]) l phead)"
    unfolding attropl_svr_def
    by (rule rd_ok_loop, rule dec_svrattrl_item_ok) (use assms in \<open>auto simp: attr_list_ok_def wf_attropl_def\<close>)
  then show ?thesis
    unfolding decode_DIS_svrattrl_def wire_attropls_def fold_append_map
    by (intro rd_ok_let [OF disrui_nat [OF n(1)]]) (simp add: n(2))
qed

lemma dec_attropl_list_ok:
  assumes "attr_list_ok wf_attropl l"
  shows "rd_ok (rd_let (disrui ops) (\<lambda>numpat. dec_seq (replicate (unat numpat) (dec_attropl_item ops))) ([], False)) (wire_attropls l) (l, False)"
proof -
  have n: "length l < 4294967296" "unat (of_nat (length l) :: uint) = length l"
    using assms by (simp_all add: attr_list_ok_def unat_of_nat_small)
  have "rd_ok (dec_seq (replicate (length l) (dec_attropl_item ops)) (p, False))
      (concat (map (\<lambda>a. wire_attr (at_name a) (at_resource a) (at_value a) (at_op a)) l)) (p @ l, False)" for p
    using assms
  proof (induction l arbitrary: p)
    case (Cons a l)
    have "wf_attropl a" "attr_list_ok wf_attropl l" using Cons.prems by (simp_all add: attr_list_ok_def)
    with Cons.IH [of "p @ [a]"] dec_attropl_item_ok [of a p] show ?case
      using rd_ok_seq_Cons [of "dec_attropl_item ops" "(p, False)"] by (simp del: dec_seq.simps)
  qed (simp add: rd_ok_def)
  from this [of "[]"] show ?thesis
    unfolding wire_attropls_def by (intro rd_ok_let [OF disrui_nat [OF n(1)]]) (simp add: n(2))
qed

lemma decode_DIS_attropl_ok [wire_intro]:
  "attr_list_ok wf_attropl l \<Longrightarrow> rd_ok (decode_DIS_attropl ops) (wire_attropls l) (l, False)"
  unfolding decode_DIS_attropl_def by (rule dec_attropl_list_ok)

lemma decode_DIS_attrl_ok [wire_intro]:
  "attr_list_ok wf_attropl l \<Longrightarrow> rd_ok (decode_DIS_attrl ops) (wire_attropls l) (l, False)"
  unfolding decode_DIS_attrl_def by (rule dec_attropl_list_ok)

end

context dis_stream
begin

lemma rd_safe_opt [safe_intro]:
  assumes "rd_safe (d r)"
  shows "rd_safe (dec_opt c d r)"
proof (cases c)
  case True
  then have "dec_opt c d r = d r" by (simp add: dec_opt_def fun_eq_iff)
  then show ?thesis using assms by simp
next
  case False
  then have "dec_opt c d r = (\<lambda>s. (0, r, s))" by (simp add: dec_opt_def fun_eq_iff)
  then show ?thesis using rd_safe_const by simp
qed

lemma rd_safe_at [safe_intro]: "rd_safe (f r) \<Longrightarrow> rd_safe (rd_at f upd r)"
  unfolding rd_at_def by (rule rd_safe_to)

lemma rd_safe_alloc:
  assumes "rd_safe f" "\<And>s. h s = (case c_malloc ops s n of (ok, t) \<Rightarrow> if \<not> ok then (e, r, t)
      else case f t of (rc, p, u) \<Rightarrow> if rc \<noteq> 0 then (rc, r, u) else (0, g p, u))"
  shows "rd_safe h"
proof -
  have link: "rd_safe (\<lambda>t. case f t of (rc, p, u) \<Rightarrow> if rc \<noteq> 0 then (rc, r, u) else (0, g p, u))"
    by (rule rd_safe_bind [OF assms(1), of "\<lambda>rc p. if rc \<noteq> 0 then (\<lambda>s. (rc, r, s)) else (\<lambda>s. (0, g p, s))"])
      (auto intro: rd_safe_const split: prod.splits)
  show ?thesis
    by (rule rd_safe_bind [OF rd_safe_malloc [of n], of "\<lambda>_ ok. if \<not> ok then (\<lambda>t. (e, r, t))
        else (\<lambda>t. case f t of (rc, p, u) \<Rightarrow> if rc \<noteq> 0 then (rc, r, u) else (0, g p, u))"])
      (use link assms(2) in \<open>auto intro: rd_safe_const split: prod.splits\<close>)
qed

lemma rd_safe_attropl_item: "rd_safe (dec_attropl_item ops r)"
proof -
  obtain pats freed where r: "r = (pats, freed)" by (cases r)
  define fill where "fill s = (case c_malloc ops s sizeof_attropl of (ok, s) \<Rightarrow>
         if \<not> ok then (DIS_NOMALLOC, (pats, freed), s)
         else case dec_attr_fields ops \<lparr>at_name = [], at_resource = None, at_value = [], at_op = 0\<rparr> s of (rc, pat, s) \<Rightarrow>
           if rc \<noteq> 0 then (rc, (pats, freed), s) else (0, (pats @ [pat], freed), s))" for s
  have "rd_safe fill"
    by (rule rd_safe_alloc [where g = "\<lambda>p. (pats @ [p], freed)", OF _ fill_def])
      (unfold dec_attr_fields_def, intro safe_intro)
  then have step: "rd_safe (if rc \<noteq> 0 then (\<lambda>s. (rc, (pats, pats \<noteq> []), s)) else fill)" for rc :: int
    by (simp add: rd_safe_const)
  have "dec_attropl_item ops r s = (case disrui ops s of (rc, _, t) \<Rightarrow>
      (if rc \<noteq> 0 then (\<lambda>s. (rc, (pats, pats \<noteq> []), s)) else fill) t)" for s
    by (cases "disrui ops s") (simp add: dec_attropl_item_def fill_def r)
  then show ?thesis
    by (rule rd_safe_bind [OF rd_safe_prims(1) step])
qed

lemma rd_safe_svrattrl_item: "rd_safe (dec_svrattrl_item ops phead)"
  unfolding dec_svrattrl_item_def
proof (intro safe_intro)
  fix dl :: uint
  have f: "rd_safe (dec_svrattrl_fields ops (new_svrattrl dl, dl))"
    unfolding dec_svrattrl_fields_def by (intro safe_intro)
  show "rd_safe (\<lambda>s. case c_malloc ops s (sizeof_svrattrl + unat dl) of (ok, s) \<Rightarrow>
       if \<not> ok then (DIS_NOMALLOC, phead, s)
       else case dec_svrattrl_fields ops (new_svrattrl dl, dl) s of (rc, (psvrat, _), s) \<Rightarrow>
         if rc \<noteq> 0 then (rc, phead, s) else (0, phead @ [psvrat], s))"
    by (rule rd_safe_alloc [OF f, where n = "sizeof_svrattrl + unat dl" and e = DIS_NOMALLOC and r = phead and g = "\<lambda>p. phead @ [fst p]"])
      (simp add: case_prod_beta)
qed

lemma rd_safe_svrattrl [safe_intro]: "rd_safe (decode_DIS_svrattrl ops phead)"
  unfolding decode_DIS_svrattrl_def by (intro safe_intro rd_safe_svrattrl_item)

lemma rd_safe_attropl [safe_intro]: "rd_safe (decode_DIS_attropl ops)"
  unfolding decode_DIS_attropl_def by (intro safe_intro rd_safe_attropl_item)

lemma rd_safe_attrl [safe_intro]: "rd_safe (decode_DIS_attrl ops)"
  unfolding decode_DIS_attrl_def by (intro safe_intro rd_safe_attropl_item)

end

end
