(* ===== verification/Req_Wire.thy ===== *)
theory Req_Wire
  imports Attr_Wire
begin

text \<open>
  The bodies of the batch requests: for each pair \<open>enc_X.c\<close>, \<open>dec_X.c\<close> of
  \<open>src/src/lib/Libifl\<close> the encoder a client (or a server relaying to MOM) calls and the
  decoder \<open>dis_request_read\<close> dispatches to, with the arm of \<open>union indep_request\<close>
  it fills as a record. A character array is the C string it holds; only for \<open>rq_queuejob\<close>
  the bytes of its two adjacent arrays are kept, since there a decoder may write past the first.
  For every pair the text written is the text read back; every decoder keeps the transport's
  invariant on any input.
\<close>

section \<open>Limits\<close>

abbreviation PBS_MAXHOSTNAME :: nat where "PBS_MAXHOSTNAME \<equiv> 255"
abbreviation PBS_MAXUSER :: nat where "PBS_MAXUSER \<equiv> 256"
abbreviation PBS_MAXGRPN :: nat where "PBS_MAXGRPN \<equiv> 256"
abbreviation PBS_MAXCLTJOBID :: nat where "PBS_MAXCLTJOBID \<equiv> 530"
abbreviation PBS_MAXDEST :: nat where "PBS_MAXDEST \<equiv> 256"
abbreviation PBS_SIGNAMESZ :: nat where "PBS_SIGNAMESZ \<equiv> 16"
abbreviation STR_LIMIT :: nat where "STR_LIMIT \<equiv> 2147483647"

definition MGR_OBJ_RESV :: uint where "MGR_OBJ_RESV = 4"

section \<open>Composition rules with lengths\<close>

context dis_sink
begin

lemma put_st_ok [msg_intro]: "fits n v \<Longrightarrow> n \<le> STR_LIMIT \<Longrightarrow> wr_ok (put_st ops v) (wire_cs v)"
  using diswst_ok [of v] fitsD [of n v] by simp

lemma put_cs_ok [msg_intro]: "length v = n \<Longrightarrow> n \<le> STR_LIMIT \<Longrightarrow> wr_ok (put_cs ops v n) (wire_cs v)"
  using diswcs_ok [of v] by auto

lemmas put_rules [msg_intro] = wr_ok_Nil wr_ok_Cons wr_ok_ne0 diswui_ok diswsi_ok diswul_ok diswsl_ok diswuc_ok
  encode_DIS_attropl_ok encode_DIS_attrl_ok encode_DIS_svrattrl_ok

end

context dis_source
begin

lemma get_fst_ok [msg_intro]:
  assumes "fits n v" "n \<le> achars" "n \<le> STR_LIMIT"
  shows "rd_ok (rd_fst ops achars upd r) (wire_cs v) (upd v r)"
  using rd_ok_fst [of v achars upd r] fitsD [OF assms(1)] assms(2,3) by simp

lemma get_st_ok [msg_intro]: "fits n v \<Longrightarrow> n \<le> STR_LIMIT \<Longrightarrow> rd_ok (disrst ops) (wire_cs v) (Some v)"
  using disrst_ok [of v] fitsD [of n v] by simp

lemma get_cs_ok [msg_intro]: "length v \<le> STR_LIMIT \<Longrightarrow> rd_ok (disrcs ops neg0) (wire_cs v) (Some v, length v)"
  using disrcs_ok [of v] by simp

lemmas get_rules [msg_intro] = rd_ok_set rd_ok_seq_Nil rd_ok_seq_Cons rd_ok_let rd_ok_at rd_ok_to disrui_ok disrsi_ok disrul_ok disrsl_ok
  disruc_ok decode_DIS_svrattrl_ok decode_DIS_attrl_ok

end

section \<open>Managing objects: Manager, DeleteJob, HoldJob, ModifyJob, ReleaseJob\<close>

record rq_manage =
  mg_cmd :: uint
  mg_objtype :: uint
  mg_objname :: string
  mg_attr :: "svrattrl list"

definition encode_DIS_Manage :: "'s dis_ops \<Rightarrow> uint \<Rightarrow> uint \<Rightarrow> string \<Rightarrow> attropl list \<Rightarrow> 's enc" where
  "encode_DIS_Manage ops command objtype objname aoplp =
     enc_seq [ne0 (put_ui ops command), ne0 (put_ui ops objtype), ne0 (put_st ops objname), encode_DIS_attropl ops aoplp]"

definition decode_DIS_Manage :: "'s dis_ops \<Rightarrow> ('s, rq_manage) dec" where
  "decode_DIS_Manage ops = dec_seq
     [dec_set (mg_attr_update (\<lambda>_. [])),
      rd_to (disrui ops) (\<lambda>v. mg_cmd_update (\<lambda>_. v)),
      rd_to (disrui ops) (\<lambda>v. mg_objtype_update (\<lambda>_. v)),
      rd_fst ops (PBS_MAXSVRJOBID + 1) (\<lambda>v. mg_objname_update (\<lambda>_. v)),
      rd_at (\<lambda>r. decode_DIS_svrattrl ops (mg_attr r)) (\<lambda>v. mg_attr_update (\<lambda>_. v))]"

definition encode_DIS_ModifyResv :: "'s dis_ops \<Rightarrow> string option \<Rightarrow> attropl list \<Rightarrow> 's enc" where
  "encode_DIS_ModifyResv ops resv_id aoplp =
     enc_seq [put_ui ops MGR_OBJ_RESV, put_st ops (opt_str resv_id), encode_DIS_attropl ops aoplp]"

definition decode_DIS_ModifyResv :: "'s dis_ops \<Rightarrow> ('s, rq_manage) dec" where
  "decode_DIS_ModifyResv ops = dec_seq
     [dec_set (mg_attr_update (\<lambda>_. [])),
      rd_to (disrui ops) (\<lambda>v. mg_objtype_update (\<lambda>_. v)),
      rd_fst ops (PBS_MAXSVRJOBID + 1) (\<lambda>v. mg_objname_update (\<lambda>_. v)),
      rd_at (\<lambda>r. decode_DIS_svrattrl ops (mg_attr r)) (\<lambda>v. mg_attr_update (\<lambda>_. v))]"

context dis_sink
begin

lemma encode_DIS_Manage_ok [msg_intro]:
  assumes "fits PBS_MAXSVRJOBID objname" "attr_list_ok wf_attropl aoplp"
  shows "wr_ok (encode_DIS_Manage ops command objtype objname aoplp)
    (concat [wire_u (unat command), wire_u (unat objtype), wire_cs objname, wire_attropls aoplp])"
  unfolding encode_DIS_Manage_def by (rule msg_intro assms | simp)+

lemma encode_DIS_ModifyResv_ok [msg_intro]:
  assumes "fits PBS_MAXSVRJOBID (opt_str resv_id)" "attr_list_ok wf_attropl aoplp"
  shows "wr_ok (encode_DIS_ModifyResv ops resv_id aoplp)
    (concat [wire_u (unat MGR_OBJ_RESV), wire_cs (opt_str resv_id), wire_attropls aoplp])"
  unfolding encode_DIS_ModifyResv_def by (rule msg_intro assms | simp)+

end

context dis_source
begin

lemma decode_DIS_Manage_ok [msg_intro]:
  assumes "fits PBS_MAXSVRJOBID objname" "attr_list_ok wf_attropl aoplp"
  shows "rd_ok (decode_DIS_Manage ops r)
    (concat [wire_u (unat command), wire_u (unat objtype), wire_cs objname, wire_attropls aoplp])
    \<lparr>mg_cmd = command, mg_objtype = objtype, mg_objname = objname, mg_attr = map attropl_svr aoplp\<rparr>"
  unfolding decode_DIS_Manage_def by (rule rd_ok_cong, (rule msg_intro assms | simp)+)

lemma decode_DIS_ModifyResv_ok [msg_intro]:
  assumes "fits PBS_MAXSVRJOBID objname" "attr_list_ok wf_attropl aoplp"
  shows "rd_ok (decode_DIS_ModifyResv ops r) (concat [wire_u (unat objtype), wire_cs objname, wire_attropls aoplp])
    (r\<lparr>mg_objtype := objtype, mg_objname := objname, mg_attr := map attropl_svr aoplp\<rparr>)"
  unfolding decode_DIS_ModifyResv_def by (rule rd_ok_cong, (rule msg_intro assms | simp)+)

end

section \<open>Submitting: QueueJob, SubmitResv, job files, Commit\<close>

text \<open>
  \<open>struct rq_queuejob\<close> starts with \<open>char rq_destin[PBS_MAXDEST+1]\<close> followed by
  \<open>char rq_jid[PBS_MAXSVRJOBID+1]\<close>; \<open>qj_mem\<close> is their \<open>257 + 269\<close> bytes. The
  decoder lets the destination have up to \<open>PBS_MAXSVRJOBID+1\<close> characters.
\<close>

record rq_queuejob =
  qj_mem :: string
  qj_attr :: "svrattrl list"

definition qj_destin :: "rq_queuejob \<Rightarrow> string" where
  "qj_destin r = c_str (qj_mem r)"

definition qj_jid :: "rq_queuejob \<Rightarrow> string" where
  "qj_jid r = c_str (drop (PBS_MAXDEST + 1) (qj_mem r))"

definition qj_store :: "nat \<Rightarrow> string \<Rightarrow> rq_queuejob \<Rightarrow> rq_queuejob" where
  "qj_store off img r = r\<lparr>qj_mem := store_at (qj_mem r) off img\<rparr>"

definition encode_DIS_QueueJob :: "'s dis_ops \<Rightarrow> string option \<Rightarrow> string option \<Rightarrow> attropl list \<Rightarrow> 's enc" where
  "encode_DIS_QueueJob ops jobid destin aoplp =
     enc_seq [ne0 (put_st ops (opt_str jobid)), ne0 (put_st ops (opt_str destin)), encode_DIS_attropl ops aoplp]"

definition decode_DIS_QueueJob :: "'s dis_ops \<Rightarrow> ('s, rq_queuejob) dec" where
  "decode_DIS_QueueJob ops = dec_seq
     [dec_set (qj_attr_update (\<lambda>_. [])),
      rd_to (disrfst ops (PBS_MAXSVRJOBID + 1)) (qj_store (PBS_MAXDEST + 1)),
      rd_to (disrfst ops (PBS_MAXSVRJOBID + 1)) (qj_store 0),
      rd_at (\<lambda>r. decode_DIS_svrattrl ops (qj_attr r)) (\<lambda>v. qj_attr_update (\<lambda>_. v))]"

definition encode_DIS_SubmitResv :: "'s dis_ops \<Rightarrow> string option \<Rightarrow> attropl list \<Rightarrow> 's enc" where
  "encode_DIS_SubmitResv ops resv_id aoplp =
     enc_seq [ne0 (put_st ops (opt_str resv_id)), ne0 (put_st ops []), encode_DIS_attropl ops aoplp]"

text \<open>Job script and job files; \<open>len\<close> is an \<open>int\<close> that becomes a \<open>size_t\<close> for \<open>diswcs\<close>.\<close>

record rq_jobfile =
  jf_sequence :: uint
  jf_type :: uint
  jf_size :: ulong
  jf_jobid :: string
  jf_data :: "string option"

definition int_size :: "uint \<Rightarrow> nat" where
  "int_size len = unat (of_int (sint len) :: ulong)"

definition encode_DIS_JobFile :: "'s dis_ops \<Rightarrow> uint \<Rightarrow> string \<Rightarrow> uint \<Rightarrow> string option \<Rightarrow> uint \<Rightarrow> 's enc" where
  "encode_DIS_JobFile ops seq buf len jobid which =
     enc_seq [ne0 (put_ui ops seq), ne0 (put_ui ops which), ne0 (put_ui ops len), ne0 (put_st ops (opt_str jobid)),
              ne0 (put_cs ops buf (int_size len))]"

text \<open>
  The last lines of the file decoders: read the counted data, report \<open>DIS_EOD\<close> when it is
  not as long as announced, and drop it on any error.
\<close>

definition rd_data :: "'s dis_ops \<Rightarrow> bool \<Rightarrow> ('r \<Rightarrow> ulong) \<Rightarrow> (string option \<Rightarrow> 'r \<Rightarrow> 'r) \<Rightarrow> ('s, 'r) dec" where
  "rd_data ops neg0 sz upd r s =
     (let (rc, (data, amt), s) = disrcs ops neg0 s;
          rc = (if of_nat amt \<noteq> sz r \<and> rc = 0 then DIS_EOD else rc)
      in (rc, upd (if rc \<noteq> 0 then None else data) r, s))"

definition decode_DIS_JobFile :: "'s dis_ops \<Rightarrow> bool \<Rightarrow> ('s, rq_jobfile) dec" where
  "decode_DIS_JobFile ops neg0 = dec_seq
     [dec_set (jf_data_update (\<lambda>_. None)),
      rd_to (disrui ops) (\<lambda>v. jf_sequence_update (\<lambda>_. v)),
      rd_to (disrui ops) (\<lambda>v. jf_type_update (\<lambda>_. v)),
      rd_to (disrui ops) (\<lambda>v. jf_size_update (\<lambda>_. ucast v)),
      rd_fst ops (PBS_MAXSVRJOBID + 1) (\<lambda>v. jf_jobid_update (\<lambda>_. v)),
      rd_data ops neg0 jf_size (\<lambda>v. jf_data_update (\<lambda>_. v))]"

text \<open>The argument of RdytoCommit, Commit, Rerun and LocateJob.\<close>

definition encode_DIS_JobId :: "'s dis_ops \<Rightarrow> string \<Rightarrow> 's enc" where
  "encode_DIS_JobId ops jobid = put_st ops jobid"

definition decode_DIS_JobId :: "'s dis_ops \<Rightarrow> ('s, string) dec" where
  "decode_DIS_JobId ops = rd_fst ops (PBS_MAXSVRJOBID + 1) (\<lambda>v _. v)"

text \<open>Hook files; \<open>MAXPATHLEN\<close> comes from the system headers.\<close>

record rq_hookfile =
  hf_sequence :: uint
  hf_size :: ulong
  hf_filename :: string
  hf_data :: "string option"

definition encode_DIS_CopyHookFile :: "'s dis_ops \<Rightarrow> uint \<Rightarrow> string \<Rightarrow> uint \<Rightarrow> string \<Rightarrow> 's enc" where
  "encode_DIS_CopyHookFile ops seq buf len filename =
     enc_seq [ne0 (put_ui ops seq), ne0 (put_ui ops len), ne0 (put_st ops filename), ne0 (put_cs ops buf (int_size len))]"

definition decode_DIS_CopyHookFile :: "'s dis_ops \<Rightarrow> nat \<Rightarrow> bool \<Rightarrow> ('s, rq_hookfile) dec" where
  "decode_DIS_CopyHookFile ops maxpathlen neg0 = dec_seq
     [dec_set (hf_data_update (\<lambda>_. None)),
      rd_to (disrui ops) (\<lambda>v. hf_sequence_update (\<lambda>_. v)),
      rd_to (disrui ops) (\<lambda>v. hf_size_update (\<lambda>_. ucast v)),
      rd_fst ops (maxpathlen + 1) (\<lambda>v. hf_filename_update (\<lambda>_. v)),
      rd_data ops neg0 hf_size (\<lambda>v. hf_data_update (\<lambda>_. v))]"

definition encode_DIS_DelHookFile :: "'s dis_ops \<Rightarrow> string \<Rightarrow> 's enc" where
  "encode_DIS_DelHookFile ops filename = enc_seq [ne0 (put_st ops filename)]"

definition decode_DIS_DelHookFile :: "'s dis_ops \<Rightarrow> nat \<Rightarrow> ('s, rq_hookfile) dec" where
  "decode_DIS_DelHookFile ops maxpathlen = dec_seq [rd_fst ops (maxpathlen + 1) (\<lambda>v. hf_filename_update (\<lambda>_. v))]"

lemma int_size_small: "n \<le> STR_LIMIT \<Longrightarrow> int_size (of_nat n) = n"
  by (simp add: int_size_def sint_of_nat_uint unat_of_nat_small)

lemma unat_of_nat_limit: "n \<le> STR_LIMIT \<Longrightarrow> unat (of_nat n :: uint) = n"
  by (simp add: unat_of_nat_small)

lemma ucast_limit: "n \<le> STR_LIMIT \<Longrightarrow> ucast (of_nat n :: uint) = (of_nat n :: ulong)"
  by (simp add: ucast_of_nat_uint)

lemma fits_Nil: "fits n []"
  by (simp add: fits_def)

context dis_sink
begin

lemma encode_DIS_QueueJob_ok [msg_intro]:
  assumes "fits n (opt_str jobid)" "n \<le> STR_LIMIT" "fits k (opt_str destin)" "k \<le> STR_LIMIT" "attr_list_ok wf_attropl aoplp"
  shows "wr_ok (encode_DIS_QueueJob ops jobid destin aoplp)
    (concat [wire_cs (opt_str jobid), wire_cs (opt_str destin), wire_attropls aoplp])"
  unfolding encode_DIS_QueueJob_def by (rule msg_intro assms | simp)+

lemma encode_DIS_SubmitResv_ok [msg_intro]:
  assumes "fits PBS_MAXSVRJOBID (opt_str resv_id)" "attr_list_ok wf_attropl aoplp"
  shows "wr_ok (encode_DIS_SubmitResv ops resv_id aoplp)
    (concat [wire_cs (opt_str resv_id), wire_cs [], wire_attropls aoplp])"
  unfolding encode_DIS_SubmitResv_def by (rule msg_intro assms fits_Nil [of PBS_MAXDEST] | simp)+

lemma encode_DIS_JobFile_ok [msg_intro]:
  assumes "fits PBS_MAXSVRJOBID (opt_str jobid)" "length buf \<le> STR_LIMIT"
  shows "wr_ok (encode_DIS_JobFile ops seq buf (of_nat (length buf)) jobid which)
    (concat [wire_u (unat seq), wire_u (unat which), wire_u (unat (of_nat (length buf) :: uint)), wire_cs (opt_str jobid), wire_cs buf])"
  unfolding encode_DIS_JobFile_def int_size_small [OF assms(2)] by (rule msg_intro assms refl | simp)+

lemma encode_DIS_JobId_ok [msg_intro]:
  "fits PBS_MAXSVRJOBID jobid \<Longrightarrow> wr_ok (encode_DIS_JobId ops jobid) (wire_cs jobid)"
  unfolding encode_DIS_JobId_def by (rule put_st_ok, assumption, simp)

lemma encode_DIS_CopyHookFile_ok [msg_intro]:
  assumes "fits n filename" "n \<le> STR_LIMIT" "length buf \<le> STR_LIMIT"
  shows "wr_ok (encode_DIS_CopyHookFile ops seq buf (of_nat (length buf)) filename)
    (concat [wire_u (unat seq), wire_u (unat (of_nat (length buf) :: uint)), wire_cs filename, wire_cs buf])"
  unfolding encode_DIS_CopyHookFile_def int_size_small [OF assms(3)] by (rule msg_intro assms refl | simp)+

lemma encode_DIS_DelHookFile_ok [msg_intro]:
  assumes "fits n filename" "n \<le> STR_LIMIT"
  shows "wr_ok (encode_DIS_DelHookFile ops filename) (concat [wire_cs filename])"
  unfolding encode_DIS_DelHookFile_def by (rule msg_intro assms)+

end

text \<open>Both strings of a QueueJob survive when each fits its own array.\<close>

lemma c_str_store:
  assumes "c_string v" "off + length v < length mem"
  shows "c_str (drop off (store_at mem off (v @ [NUL]))) = v"
  using assms by (simp add: store_at_def)

lemma drop_store_below:
  assumes "length img \<le> off" "off \<le> length mem"
  shows "drop off (store_at mem 0 img) = drop off mem"
  using assms by (simp add: store_at_def)

lemma qj_fields:
  assumes "length (qj_mem r) = 526" "fits PBS_MAXSVRJOBID jid" "fits PBS_MAXDEST destin"
  shows "qj_jid (qj_store 0 (destin @ [NUL]) (qj_store (PBS_MAXDEST + 1) (jid @ [NUL]) r)) = jid"
    "qj_destin (qj_store 0 (destin @ [NUL]) (qj_store (PBS_MAXDEST + 1) (jid @ [NUL]) r)) = destin"
proof -
  let ?m = "store_at (qj_mem r) 257 (jid @ [NUL])"
  have len: "length ?m = 526"
    using assms(1) fitsD(2) [OF assms(2)] by (simp add: store_at_def)
  have "drop 257 (store_at ?m 0 (destin @ [NUL])) = drop 257 ?m"
    using fitsD(2) [OF assms(3)] len by (intro drop_store_below) simp_all
  then show "qj_jid (qj_store 0 (destin @ [NUL]) (qj_store (PBS_MAXDEST + 1) (jid @ [NUL]) r)) = jid"
    using c_str_store [of jid 257 "qj_mem r"] assms fitsD [OF assms(2)] by (simp add: qj_jid_def qj_store_def)
  show "qj_destin (qj_store 0 (destin @ [NUL]) (qj_store (PBS_MAXDEST + 1) (jid @ [NUL]) r)) = destin"
    using c_str_store [of destin 0 ?m] len fitsD [OF assms(3)] by (simp add: qj_destin_def qj_store_def)
qed

context dis_source
begin

lemma get_image_ok:
  assumes "c_string v" "length v \<le> n" "n \<le> STR_LIMIT"
  shows "rd_ok (rd_to (disrfst ops n) upd r) (wire_cs v) (upd (v @ [NUL]) r)"
  by (rule rd_ok_to, rule disrfst_ok) (use assms in simp_all)

lemma decode_DIS_QueueJob_ok:
  assumes "c_string jid" "length jid \<le> PBS_MAXSVRJOBID + 1" "c_string destin" "length destin \<le> PBS_MAXSVRJOBID + 1"
    "attr_list_ok wf_attropl aoplp"
  shows "rd_ok (decode_DIS_QueueJob ops r) (concat [wire_cs jid, wire_cs destin, wire_attropls aoplp])
    (qj_store 0 (destin @ [NUL]) (qj_store (PBS_MAXDEST + 1) (jid @ [NUL]) r)\<lparr>qj_attr := map attropl_svr aoplp\<rparr>)"
  unfolding decode_DIS_QueueJob_def
  by (rule rd_ok_cong, (rule get_image_ok assms msg_intro | simp add: qj_store_def)+)

lemma rd_data_ok:
  assumes "length v \<le> STR_LIMIT" "sz r = of_nat (length v)"
  shows "rd_ok (rd_data ops neg0 sz upd r) (wire_cs v) (upd (Some v) r)"
  using get_cs_ok [OF assms(1), of neg0] assms(2) unfolding rd_ok_def rd_data_def by fastforce

lemma decode_DIS_JobFile_ok [msg_intro]:
  assumes "fits PBS_MAXSVRJOBID jobid" "length buf \<le> STR_LIMIT"
  shows "rd_ok (decode_DIS_JobFile ops neg0 r)
    (concat [wire_u (unat seq), wire_u (unat which), wire_u (unat (of_nat (length buf) :: uint)), wire_cs jobid, wire_cs buf])
    \<lparr>jf_sequence = seq, jf_type = which, jf_size = of_nat (length buf), jf_jobid = jobid, jf_data = Some buf\<rparr>"
  unfolding decode_DIS_JobFile_def
  by (rule rd_ok_cong, (rule rd_data_ok msg_intro assms | simp add: ucast_limit assms)+)

lemma decode_DIS_JobId_ok [msg_intro]:
  "fits PBS_MAXSVRJOBID jobid \<Longrightarrow> rd_ok (decode_DIS_JobId ops r) (wire_cs jobid) jobid"
  unfolding decode_DIS_JobId_def by (rule get_fst_ok, assumption, simp_all)

lemma decode_DIS_CopyHookFile_ok [msg_intro]:
  assumes "fits maxpathlen filename" "maxpathlen \<le> STR_LIMIT" "length buf \<le> STR_LIMIT"
  shows "rd_ok (decode_DIS_CopyHookFile ops maxpathlen neg0 r)
    (concat [wire_u (unat seq), wire_u (unat (of_nat (length buf) :: uint)), wire_cs filename, wire_cs buf])
    \<lparr>hf_sequence = seq, hf_size = of_nat (length buf), hf_filename = filename, hf_data = Some buf\<rparr>"
  unfolding decode_DIS_CopyHookFile_def
  by (rule rd_ok_cong, (rule rd_data_ok msg_intro assms | simp add: ucast_limit assms)+)

lemma decode_DIS_DelHookFile_ok [msg_intro]:
  assumes "fits maxpathlen filename" "maxpathlen \<le> STR_LIMIT"
  shows "rd_ok (decode_DIS_DelHookFile ops maxpathlen r) (concat [wire_cs filename]) (r\<lparr>hf_filename := filename\<rparr>)"
  unfolding decode_DIS_DelHookFile_def by (rule rd_ok_cong, (rule msg_intro assms | simp)+)

end

end
