(* ===== verification/Job_Wire.thy ===== *)
theory Job_Wire
  imports Req_Wire
begin

text \<open>
  The remaining request bodies: operations on one job, status, dependencies,
  credentials, and the file requests a server sends to MOM. Same conventions as in
  \<open>Req_Wire\<close>.
\<close>

section \<open>Operations on a job\<close>

record rq_move =
  mv_jid :: string
  mv_destin :: string

definition encode_DIS_MoveJob :: "'s dis_ops \<Rightarrow> string \<Rightarrow> string \<Rightarrow> 's enc" where
  "encode_DIS_MoveJob ops jobid destin = enc_seq [ne0 (put_st ops jobid), ne0 (put_st ops destin)]"

definition decode_DIS_MoveJob :: "'s dis_ops \<Rightarrow> ('s, rq_move) dec" where
  "decode_DIS_MoveJob ops = dec_seq
     [rd_fst ops (PBS_MAXSVRJOBID + 1) (\<lambda>v. mv_jid_update (\<lambda>_. v)),
      rd_fst ops (PBS_MAXDEST + 1) (\<lambda>v. mv_destin_update (\<lambda>_. v))]"

record rq_runjob =
  rn_jid :: string
  rn_destin :: "string option"
  rn_resch :: ulong

definition encode_DIS_Run :: "'s dis_ops \<Rightarrow> string \<Rightarrow> string \<Rightarrow> ulong \<Rightarrow> 's enc" where
  "encode_DIS_Run ops jid wher arg = enc_seq [ne0 (put_st ops jid), ne0 (put_st ops wher), ne0 (put_ul ops arg)]"

definition decode_DIS_Run :: "'s dis_ops \<Rightarrow> ('s, rq_runjob) dec" where
  "decode_DIS_Run ops = dec_seq
     [rd_fst ops (PBS_MAXSVRJOBID + 1) (\<lambda>v. rn_jid_update (\<lambda>_. v)),
      rd_to (disrst ops) (\<lambda>v. rn_destin_update (\<lambda>_. v)),
      rd_to (disrul ops) (\<lambda>v. rn_resch_update (\<lambda>_. v))]"

record rq_signal =
  sg_jid :: string
  sg_signame :: string

definition encode_DIS_SignalJob :: "'s dis_ops \<Rightarrow> string \<Rightarrow> string \<Rightarrow> 's enc" where
  "encode_DIS_SignalJob ops jobid sig = enc_seq [ne0 (put_st ops jobid), ne0 (put_st ops sig)]"

definition decode_DIS_SignalJob :: "'s dis_ops \<Rightarrow> ('s, rq_signal) dec" where
  "decode_DIS_SignalJob ops = dec_seq
     [rd_fst ops (PBS_MAXSVRJOBID + 1) (\<lambda>v. sg_jid_update (\<lambda>_. v)),
      rd_fst ops (PBS_SIGNAMESZ + 1) (\<lambda>v. sg_signame_update (\<lambda>_. v))]"

record rq_message =
  ms_file :: uint
  ms_jid :: string
  ms_text :: "string option"

definition encode_DIS_MessageJob :: "'s dis_ops \<Rightarrow> string \<Rightarrow> uint \<Rightarrow> string \<Rightarrow> 's enc" where
  "encode_DIS_MessageJob ops jobid fileopt msg =
     enc_seq [ne0 (put_st ops jobid), ne0 (put_ui ops fileopt), ne0 (put_st ops msg)]"

definition decode_DIS_MessageJob :: "'s dis_ops \<Rightarrow> ('s, rq_message) dec" where
  "decode_DIS_MessageJob ops = dec_seq
     [dec_set (ms_text_update (\<lambda>_. None)),
      rd_fst ops (PBS_MAXSVRJOBID + 1) (\<lambda>v. ms_jid_update (\<lambda>_. v)),
      rd_to (disrui ops) (\<lambda>v. ms_file_update (\<lambda>_. v)),
      rd_to (disrst ops) (\<lambda>v. ms_text_update (\<lambda>_. v))]"

record rq_relnodes =
  rl_jid :: string
  rl_node_list :: "string option"

definition encode_DIS_RelnodesJob :: "'s dis_ops \<Rightarrow> string \<Rightarrow> string \<Rightarrow> 's enc" where
  "encode_DIS_RelnodesJob ops jobid node_list = enc_seq [ne0 (put_st ops jobid), ne0 (put_st ops node_list)]"

definition decode_DIS_RelnodesJob :: "'s dis_ops \<Rightarrow> ('s, rq_relnodes) dec" where
  "decode_DIS_RelnodesJob ops = dec_seq
     [dec_set (rl_node_list_update (\<lambda>_. None)),
      rd_fst ops (PBS_MAXSVRJOBID + 1) (\<lambda>v. rl_jid_update (\<lambda>_. v)),
      rd_to (disrst ops) (\<lambda>v. rl_node_list_update (\<lambda>_. v))]"

section \<open>PySpawn\<close>

text \<open>
  Two arrays of non-empty strings, each ended by an empty one. The loop of
  \<open>read_carray\<close> goes on until it reads the empty string, so the model takes fuel;
  \<open>CARRAY_FUEL\<close> is a status the C code never returns. \<open>read_carray_returns\<close>
  below shows that as much fuel as there are characters to read is enough. \<open>i\<close> entries
  have been stored, \<open>num\<close> slots are allocated. On an error \<open>*arrloc\<close> keeps its
  value.
\<close>

definition CARRAY_FUEL :: int where "CARRAY_FUEL = - 99"

fun read_carray_loop :: "nat \<Rightarrow> 's dis_ops \<Rightarrow> nat \<Rightarrow> string list \<Rightarrow> 's \<Rightarrow> int \<times> string list option \<times> 's" where
  "read_carray_loop 0 ops num carr s = (CARRAY_FUEL, None, s)"
| "read_carray_loop (Suc fuel) ops num carr s =
     (case disrst ops s of (ret, cp, s) \<Rightarrow>
        case cp of None \<Rightarrow> (PBSE_SYSTEM, None, s)
        | Some str \<Rightarrow>
            if ret \<noteq> DIS_SUCCESS then (PBSE_SYSTEM, None, s)
            else if str = [] then (ret, Some carr, s)
            else if length carr = num - 1 then
              (case c_malloc ops s (num * 2 * 8) of (ok, s) \<Rightarrow>
                 if \<not> ok then (PBSE_SYSTEM, None, s)
                 else read_carray_loop fuel ops (num * 2) (carr @ [str]) s)
            else read_carray_loop fuel ops num (carr @ [str]) s)"

definition read_carray :: "nat \<Rightarrow> 's dis_ops \<Rightarrow> ('s, string list option) dec" where
  "read_carray fuel ops arrloc s =
     (case c_malloc ops s (4 * 8) of (ok, s) \<Rightarrow>
        if \<not> ok then (PBSE_SYSTEM, arrloc, s)
        else case read_carray_loop fuel ops 4 [] s of (rc, arr, s) \<Rightarrow>
          (rc, case arr of None \<Rightarrow> arrloc | Some a \<Rightarrow> Some a, s))"

record rq_py_spawn =
  py_jid :: string
  py_argv :: "string list option"
  py_envp :: "string list option"

definition encode_DIS_PySpawn :: "'s dis_ops \<Rightarrow> string \<Rightarrow> string list option \<Rightarrow> string list option \<Rightarrow> 's enc" where
  "encode_DIS_PySpawn ops jobid argv envp =
     enc_seq ([put_st ops jobid]
       @ (case argv of None \<Rightarrow> [] | Some a \<Rightarrow> map (\<lambda>cp. put_cs ops cp (strlen cp)) a) @ [put_cs ops [] 0]
       @ (case envp of None \<Rightarrow> [] | Some e \<Rightarrow> map (\<lambda>cp. put_cs ops cp (strlen cp)) e) @ [put_cs ops [] 0])"

definition decode_DIS_PySpawn :: "nat \<Rightarrow> 's dis_ops \<Rightarrow> ('s, rq_py_spawn) dec" where
  "decode_DIS_PySpawn fuel ops = dec_seq
     [rd_fst ops (PBS_MAXSVRJOBID + 1) (\<lambda>v. py_jid_update (\<lambda>_. v)),
      rd_at (\<lambda>r. read_carray fuel ops (py_argv r)) (\<lambda>v. py_argv_update (\<lambda>_. v)),
      rd_at (\<lambda>r. read_carray fuel ops (py_envp r)) (\<lambda>v. py_envp_update (\<lambda>_. v))]"

section \<open>Status, shutdown, tracking, dependencies\<close>

record rq_status =
  st_id :: "string option"
  st_attr :: "svrattrl list"

definition encode_DIS_Status :: "'s dis_ops \<Rightarrow> string \<Rightarrow> attropl list \<Rightarrow> 's enc" where
  "encode_DIS_Status ops objid pattrl = enc_seq [ne0 (put_st ops objid), ne0 (encode_DIS_attrl ops pattrl)]"

definition decode_DIS_Status :: "'s dis_ops \<Rightarrow> bool \<Rightarrow> ('s, rq_status) dec" where
  "decode_DIS_Status ops neg0 = dec_seq
     [dec_set (st_id_update (\<lambda>_. None)), dec_set (st_attr_update (\<lambda>_. [])),
      rd_to (disrcs ops neg0) (\<lambda>v. st_id_update (\<lambda>_. fst v)),
      rd_at (\<lambda>r. decode_DIS_svrattrl ops (st_attr r)) (\<lambda>v. st_attr_update (\<lambda>_. v))]"

definition encode_DIS_ShutDown :: "'s dis_ops \<Rightarrow> uint \<Rightarrow> 's enc" where
  "encode_DIS_ShutDown ops manner = put_ui ops manner"

definition decode_DIS_ShutDown :: "'s dis_ops \<Rightarrow> ('s, uint) dec" where
  "decode_DIS_ShutDown ops = rd_to (disrui ops) (\<lambda>v _. v)"

record rq_track =
  tk_hopcount :: uint
  tk_jid :: string
  tk_location :: string
  tk_state :: "8 word"

definition encode_DIS_TrackJob :: "'s dis_ops \<Rightarrow> rq_track \<Rightarrow> 's enc" where
  "encode_DIS_TrackJob ops r =
     enc_seq [ne0 (put_st ops (tk_jid r)), ne0 (put_ui ops (tk_hopcount r)), ne0 (put_st ops (tk_location r)),
              ne0 (put_uc ops (tk_state r))]"

definition decode_DIS_TrackJob :: "'s dis_ops \<Rightarrow> ('s, rq_track) dec" where
  "decode_DIS_TrackJob ops = dec_seq
     [rd_fst ops (PBS_MAXSVRJOBID + 1) (\<lambda>v. tk_jid_update (\<lambda>_. v)),
      rd_to (disrui ops) (\<lambda>v. tk_hopcount_update (\<lambda>_. v)),
      rd_fst ops (PBS_MAXDEST + 1) (\<lambda>v. tk_location_update (\<lambda>_. v)),
      rd_to (disruc ops) (\<lambda>v. tk_state_update (\<lambda>_. v))]"

record rq_register =
  rg_owner :: string
  rg_svr :: string
  rg_parent :: string
  rg_child :: string
  rg_dependtype :: uint
  rg_op :: uint
  rg_cost :: ulong

definition encode_DIS_Register :: "'s dis_ops \<Rightarrow> rq_register \<Rightarrow> 's enc" where
  "encode_DIS_Register ops r =
     enc_seq [ne0 (put_st ops (rg_owner r)), ne0 (put_st ops (rg_parent r)), ne0 (put_st ops (rg_child r)),
              ne0 (put_ui ops (rg_dependtype r)), ne0 (put_ui ops (rg_op r)), ne0 (put_sl ops (rg_cost r))]"

definition decode_DIS_Register :: "'s dis_ops \<Rightarrow> bool \<Rightarrow> ('s, rq_register) dec" where
  "decode_DIS_Register ops neg0 = dec_seq
     [rd_fst ops PBS_MAXUSER (\<lambda>v. rg_owner_update (\<lambda>_. v)),
      rd_fst ops PBS_MAXSVRJOBID (\<lambda>v. rg_parent_update (\<lambda>_. v)),
      rd_fst ops PBS_MAXCLTJOBID (\<lambda>v. rg_child_update (\<lambda>_. v)),
      rd_to (disrui ops) (\<lambda>v. rg_dependtype_update (\<lambda>_. v)),
      rd_to (disrui ops) (\<lambda>v. rg_op_update (\<lambda>_. v)),
      rd_to (disrsl ops neg0) (\<lambda>v. rg_cost_update (\<lambda>_. v))]"

section \<open>Credentials and authentication\<close>

record rq_jobcred =
  jc_type :: uint
  jc_size :: nat
  jc_data :: "string option"

definition encode_DIS_JobCred :: "'s dis_ops \<Rightarrow> uint \<Rightarrow> string \<Rightarrow> uint \<Rightarrow> 's enc" where
  "encode_DIS_JobCred ops typ cred len = enc_seq [put_ui ops typ, put_cs ops cred (int_size len)]"

definition decode_DIS_JobCred :: "'s dis_ops \<Rightarrow> bool \<Rightarrow> ('s, rq_jobcred) dec" where
  "decode_DIS_JobCred ops neg0 = dec_seq
     [dec_set (jc_data_update (\<lambda>_. None)),
      rd_to (disrui ops) (\<lambda>v. jc_type_update (\<lambda>_. v)),
      rd_to (disrcs ops neg0) (\<lambda>(data, n) r. r\<lparr>jc_data := data, jc_size := n\<rparr>)]"

record rq_usercred =
  uc_user :: string
  uc_type :: uint
  uc_size :: nat
  uc_data :: "string option"

definition encode_DIS_UserCred :: "'s dis_ops \<Rightarrow> string \<Rightarrow> uint \<Rightarrow> string \<Rightarrow> uint \<Rightarrow> 's enc" where
  "encode_DIS_UserCred ops user typ cred len =
     enc_seq [put_st ops user, put_ui ops typ, put_cs ops cred (int_size len)]"

definition decode_DIS_UserCred :: "'s dis_ops \<Rightarrow> bool \<Rightarrow> ('s, rq_usercred) dec" where
  "decode_DIS_UserCred ops neg0 = dec_seq
     [rd_fst ops (PBS_MAXUSER + 1) (\<lambda>v. uc_user_update (\<lambda>_. v)),
      rd_to (disrui ops) (\<lambda>v. uc_type_update (\<lambda>_. v)),
      dec_set (uc_data_update (\<lambda>_. None)),
      rd_to (disrcs ops neg0) (\<lambda>(data, n) r. r\<lparr>uc_data := data, uc_size := n\<rparr>)]"

definition encode_DIS_UserMigrate :: "'s dis_ops \<Rightarrow> string \<Rightarrow> 's enc" where
  "encode_DIS_UserMigrate ops tohost = put_st ops tohost"

definition decode_DIS_UserMigrate :: "'s dis_ops \<Rightarrow> ('s, string) dec" where
  "decode_DIS_UserMigrate ops = rd_fst ops (PBS_MAXHOSTNAME + 1) (\<lambda>v _. v)"

definition decode_DIS_AuthenResvPort :: "'s dis_ops \<Rightarrow> ('s, uint) dec" where
  "decode_DIS_AuthenResvPort ops = rd_to (disrui ops) (\<lambda>v _. v)"

text \<open>
  \<open>rq_authkey\<close> has \<open>PBS_AUTH_KEY_LEN\<close> (129) bytes; the bound given to
  \<open>disrfst\<close> is the number the peer sent, a negative one as a huge \<open>size_t\<close>. The status
  of \<open>disrfst\<close> is turned into 0 or 1.
\<close>

record rq_authen_external =
  ax_auth_type :: "8 word"
  ax_authkey :: string

definition decode_DIS_AuthExternal :: "'s dis_ops \<Rightarrow> bool \<Rightarrow> ('s, rq_authen_external) dec" where
  "decode_DIS_AuthExternal ops neg0 = dec_seq
     [rd_to (disruc ops) (\<lambda>v. ax_auth_type_update (\<lambda>_. v)),
      rd_let (disrsi ops neg0) (\<lambda>cred_len r s.
        if ax_auth_type r = 1 then
          (case rd_fst ops (int_size cred_len) (\<lambda>v. ax_authkey_update (\<lambda>_. v)) r s of (rc, r, s) \<Rightarrow>
             (if rc \<noteq> 0 then 1 else 0, r, s))
        else (DIS_EOF, r, s))]"

section \<open>Resource queries\<close>

definition PBSE_RMSYSTEM :: int where "PBSE_RMSYSTEM = 15205"

record rq_rescq =
  rs_rhandle :: uint
  rs_num :: uint
  rs_list :: "string option list"

text \<open>
  The loops \<open>for (i=0; i<ct; i++)\<close> compare \<open>int\<close>s, so a count of \<open>2 ^ 31\<close> or more
  reads nothing. The array starts out as \<open>NULL\<close>s and is filled from the front.
\<close>

definition loop_count :: "uint \<Rightarrow> nat" where
  "loop_count ct = (if sint ct < 0 then 0 else unat ct)"

definition rescl_item :: "'s dis_ops \<Rightarrow> nat \<Rightarrow> ('s, rq_rescq) dec" where
  "rescl_item ops i = rd_to (disrst ops) (\<lambda>v. rs_list_update (\<lambda>l. l[i := v]))"

definition decode_DIS_Rescl :: "'s dis_ops \<Rightarrow> bool \<Rightarrow> ('s, rq_rescq) dec" where
  "decode_DIS_Rescl ops neg0 = dec_seq
     [rd_to (disrsi ops neg0) (\<lambda>v. rs_rhandle_update (\<lambda>_. v)),
      rd_let (disrui ops) (\<lambda>ct r s.
        let r = r\<lparr>rs_num := ct\<rparr> in
        if ct \<noteq> 0 then
          case c_malloc ops s (unat (of_int (sint ct) * 8 :: ulong)) of (ok, s) \<Rightarrow>
            if \<not> ok then (PBSE_RMSYSTEM, r, s)
            else dec_seq (map (rescl_item ops) [0..<loop_count ct])
                   (r\<lparr>rs_list := replicate (loop_count ct) None\<rparr>) s
        else (0, r, s))]"

section \<open>File copies between server and MOM\<close>

record rqfpair =
  fp_flag :: uint
  fp_local :: string
  fp_rmt :: "string option"

record rq_cpyfile =
  cf_jobid :: string
  cf_owner :: string
  cf_user :: string
  cf_group :: string
  cf_dir :: uint
  cf_pair :: "rqfpair list"

definition enc_pair :: "'s dis_ops \<Rightarrow> rqfpair \<Rightarrow> 's enc" where
  "enc_pair ops p = enc_seq [ne0 (put_ui ops (fp_flag p)), ne0 (put_st ops (fp_local p)), ne0 (put_st ops (opt_str (fp_rmt p)))]"

definition encode_DIS_CopyFiles :: "'s dis_ops \<Rightarrow> rq_cpyfile \<Rightarrow> 's enc" where
  "encode_DIS_CopyFiles ops r =
     enc_seq [ne0 (put_st ops (cf_jobid r)), ne0 (put_st ops (cf_owner r)), ne0 (put_st ops (cf_user r)),
              ne0 (put_st ops (cf_group r)), ne0 (put_ui ops (cf_dir r)), ne0 (put_ui ops (of_nat (length (cf_pair r)))),
              enc_seq (map (enc_pair ops) (cf_pair r))]"

record rq_cpyfile_cred =
  cc_copyfile :: rq_cpyfile
  cc_credtype :: uint
  cc_credlen :: nat
  cc_pcred :: "string option"

definition encode_DIS_CopyFiles_Cred :: "'s dis_ops \<Rightarrow> rq_cpyfile_cred \<Rightarrow> 's enc" where
  "encode_DIS_CopyFiles_Cred ops r =
     enc_seq [encode_DIS_CopyFiles ops (cc_copyfile r), put_ui ops (cc_credtype r),
              put_cs ops (opt_str (cc_pcred r)) (cc_credlen r)]"

definition dec_pair :: "'s dis_ops \<Rightarrow> ('s, rq_cpyfile) dec" where
  "dec_pair ops r s =
     (case c_malloc ops s 40 of (ok, s) \<Rightarrow>
        if \<not> ok then (DIS_NOMALLOC, r, s)
        else case dec_seq
            [rd_to (disrui ops) (\<lambda>v. fp_flag_update (\<lambda>_. v)),
             rd_to (disrst ops) (\<lambda>v. fp_local_update (\<lambda>_. opt_str v)),
             rd_to (disrst ops) (\<lambda>v. fp_rmt_update (\<lambda>_. v))]
            \<lparr>fp_flag = 0, fp_local = [], fp_rmt = None\<rparr> s of (rc, ppair, s) \<Rightarrow>
          if rc \<noteq> 0 then (rc, r, s) else (0, r\<lparr>cf_pair := cf_pair r @ [ppair]\<rparr>, s))"

definition decode_DIS_CopyFiles :: "'s dis_ops \<Rightarrow> ('s, rq_cpyfile) dec" where
  "decode_DIS_CopyFiles ops = dec_seq
     [dec_set (cf_pair_update (\<lambda>_. [])),
      rd_fst ops PBS_MAXSVRJOBID (\<lambda>v. cf_jobid_update (\<lambda>_. v)),
      rd_fst ops PBS_MAXUSER (\<lambda>v. cf_owner_update (\<lambda>_. v)),
      rd_fst ops PBS_MAXUSER (\<lambda>v. cf_user_update (\<lambda>_. v)),
      rd_fst ops PBS_MAXGRPN (\<lambda>v. cf_group_update (\<lambda>_. v)),
      rd_to (disrui ops) (\<lambda>v. cf_dir_update (\<lambda>_. v)),
      rd_let (disrui ops) (\<lambda>pair_ct. dec_seq (replicate (unat pair_ct) (dec_pair ops)))]"

definition decode_DIS_CopyFiles_Cred :: "'s dis_ops \<Rightarrow> bool \<Rightarrow> ('s, rq_cpyfile_cred) dec" where
  "decode_DIS_CopyFiles_Cred ops neg0 = dec_seq
     [rd_at (\<lambda>r. decode_DIS_CopyFiles ops (cc_copyfile r)) (\<lambda>v. cc_copyfile_update (\<lambda>_. v)),
      rd_to (disrui ops) (\<lambda>v. cc_credtype_update (\<lambda>_. v)),
      rd_to (disrcs ops neg0) (\<lambda>(cred, n) r. r\<lparr>cc_pcred := cred, cc_credlen := n\<rparr>)]"

record rq_momrestart =
  mr_momhost :: string
  mr_port :: uint

definition decode_DIS_MomRestart :: "'s dis_ops \<Rightarrow> ('s, rq_momrestart) dec" where
  "decode_DIS_MomRestart ops = dec_seq
     [rd_fst ops PBS_MAXHOSTNAME (\<lambda>v. mr_momhost_update (\<lambda>_. v)),
      rd_to (disrui ops) (\<lambda>v. mr_port_update (\<lambda>_. v))]"

section \<open>What is written is what is read\<close>

definition wire_pair :: "rqfpair \<Rightarrow> string" where
  "wire_pair p = concat [wire_u (unat (fp_flag p)), wire_cs (fp_local p), wire_cs (opt_str (fp_rmt p))]"

definition wire_cpyfile :: "rq_cpyfile \<Rightarrow> string" where
  "wire_cpyfile r = concat [wire_cs (cf_jobid r), wire_cs (cf_owner r), wire_cs (cf_user r), wire_cs (cf_group r),
     wire_u (unat (cf_dir r)), wire_u (unat (of_nat (length (cf_pair r)) :: uint)), concat (map wire_pair (cf_pair r))]"

definition wf_pair :: "rqfpair \<Rightarrow> bool" where
  "wf_pair p \<longleftrightarrow> fits STR_LIMIT (fp_local p) \<and> fits STR_LIMIT (opt_str (fp_rmt p))"

definition wf_cpyfile :: "rq_cpyfile \<Rightarrow> bool" where
  "wf_cpyfile r \<longleftrightarrow> fits PBS_MAXSVRJOBID (cf_jobid r) \<and> fits PBS_MAXUSER (cf_owner r) \<and> fits PBS_MAXUSER (cf_user r) \<and>
     fits PBS_MAXGRPN (cf_group r) \<and> length (cf_pair r) < 4294967296 \<and> (\<forall>p \<in> set (cf_pair r). wf_pair p)"

text \<open>What the decoder makes of a file list: an absent remote name comes back as an empty one.\<close>

definition pair_sent :: "rqfpair \<Rightarrow> rqfpair" where
  "pair_sent p = p\<lparr>fp_rmt := Some (opt_str (fp_rmt p))\<rparr>"

definition wire_carray :: "string list \<Rightarrow> string" where
  "wire_carray l = concat (map wire_cs l @ [wire_cs []])"

definition carray_ok :: "string list \<Rightarrow> bool" where
  "carray_ok l \<longleftrightarrow> (\<forall>x \<in> set l. x \<noteq> [] \<and> fits STR_LIMIT x)"

definition opt_list :: "'a list option \<Rightarrow> 'a list" where
  "opt_list l = (case l of None \<Rightarrow> [] | Some x \<Rightarrow> x)"

context dis_sink
begin

lemma encode_job_ok [msg_intro]:
  assumes "fits PBS_MAXSVRJOBID jobid"
  shows "fits PBS_MAXDEST destin \<Longrightarrow> wr_ok (encode_DIS_MoveJob ops jobid destin) (concat [wire_cs jobid, wire_cs destin])"
    "fits STR_LIMIT dest \<Longrightarrow> wr_ok (encode_DIS_Run ops jobid dest arg) (concat [wire_cs jobid, wire_cs dest, wire_u (unat arg)])"
    "fits PBS_SIGNAMESZ sig \<Longrightarrow> wr_ok (encode_DIS_SignalJob ops jobid sig) (concat [wire_cs jobid, wire_cs sig])"
    "fits STR_LIMIT msg \<Longrightarrow> wr_ok (encode_DIS_MessageJob ops jobid fo msg) (concat [wire_cs jobid, wire_u (unat fo), wire_cs msg])"
    "fits STR_LIMIT nl \<Longrightarrow> wr_ok (encode_DIS_RelnodesJob ops jobid nl) (concat [wire_cs jobid, wire_cs nl])"
  unfolding encode_DIS_MoveJob_def encode_DIS_Run_def encode_DIS_SignalJob_def encode_DIS_MessageJob_def
    encode_DIS_RelnodesJob_def
  by (rule msg_intro assms | assumption | simp; fail)+

lemma wr_ok_append:
  assumes "wr_ok (enc_seq ws) (concat bs)" "wr_ok (enc_seq us) (concat cs)"
  shows "wr_ok (enc_seq (ws @ us)) (concat (bs @ cs))"
proof -
  have "enc_seq (ws @ us) s = (case enc_seq ws s of (rc, t) \<Rightarrow> if rc \<noteq> 0 then (rc, t) else enc_seq us t)" for s
    by (induction ws arbitrary: s) (auto split: prod.splits)
  then have "enc_seq (ws @ us) = enc_seq [enc_seq ws, enc_seq us]"
    by (auto simp: fun_eq_iff split: prod.splits)
  then show ?thesis
    using wr_ok_Cons [OF assms(1) wr_ok_Cons [OF assms(2) wr_ok_Nil]] by (simp del: enc_seq.simps)
qed

lemma put_carray_ok:
  assumes "carray_ok l"
  shows "wr_ok (enc_seq (map (\<lambda>cp. put_cs ops cp (strlen cp)) l @ [put_cs ops [] 0])) (wire_carray l)"
  unfolding wire_carray_def
proof (rule wr_ok_append)
  show "wr_ok (enc_seq (map (\<lambda>cp. put_cs ops cp (strlen cp)) l)) (concat (map wire_cs l))"
    by (rule wr_ok_map, rule put_cs_ok) (use assms in \<open>auto simp: carray_ok_def fits_def\<close>)
  show "wr_ok (enc_seq [put_cs ops [] 0]) (concat [wire_cs []])"
    by (rule msg_intro | simp)+
qed

lemma encode_DIS_PySpawn_ok [msg_intro]:
  assumes "fits PBS_MAXSVRJOBID jobid" "carray_ok (opt_list argv)" "carray_ok (opt_list envp)"
  shows "wr_ok (encode_DIS_PySpawn ops jobid argv envp) (concat [wire_cs jobid, wire_carray (opt_list argv), wire_carray (opt_list envp)])"
proof -
  have "encode_DIS_PySpawn ops jobid argv envp = enc_seq ([put_st ops jobid] @
      (map (\<lambda>cp. put_cs ops cp (strlen cp)) (opt_list argv) @ [put_cs ops [] 0]) @
      (map (\<lambda>cp. put_cs ops cp (strlen cp)) (opt_list envp) @ [put_cs ops [] 0]))"
    by (simp add: encode_DIS_PySpawn_def opt_list_def split: option.splits)
  moreover have "wr_ok \<dots> (concat ([wire_cs jobid] @ [wire_carray (opt_list argv)] @ [wire_carray (opt_list envp)]))"
  proof (intro wr_ok_append)
    show "wr_ok (enc_seq [put_st ops jobid]) (concat [wire_cs jobid])" by (rule msg_intro assms | simp)+
  qed (use put_carray_ok assms in \<open>simp_all add: concat.simps del: enc_seq.simps\<close>)
  ultimately show ?thesis by simp
qed

lemma encode_misc_ok [msg_intro]:
  "fits STR_LIMIT objid \<Longrightarrow> attr_list_ok wf_attropl l \<Longrightarrow>
     wr_ok (encode_DIS_Status ops objid l) (concat [wire_cs objid, wire_attropls (map (at_op_update (\<lambda>_. batch_op_SET)) l)])"
  "wr_ok (encode_DIS_ShutDown ops manner) (wire_u (unat manner))"
  "fits PBS_MAXSVRJOBID (tk_jid tk) \<Longrightarrow> fits PBS_MAXDEST (tk_location tk) \<Longrightarrow>
     wr_ok (encode_DIS_TrackJob ops tk) (concat [wire_cs (tk_jid tk), wire_u (unat (tk_hopcount tk)), wire_cs (tk_location tk), wire_u (unat (tk_state tk))])"
  "fits PBS_MAXUSER (rg_owner rg) \<Longrightarrow> fits PBS_MAXSVRJOBID (rg_parent rg) \<Longrightarrow> fits PBS_MAXCLTJOBID (rg_child rg) \<Longrightarrow>
     wr_ok (encode_DIS_Register ops rg) (concat [wire_cs (rg_owner rg), wire_cs (rg_parent rg), wire_cs (rg_child rg),
       wire_u (unat (rg_dependtype rg)), wire_u (unat (rg_op rg)), wire_s (sint (rg_cost rg))])"
  "fits PBS_MAXHOSTNAME tohost \<Longrightarrow> wr_ok (encode_DIS_UserMigrate ops tohost) (wire_cs tohost)"
  unfolding encode_DIS_Status_def encode_DIS_ShutDown_def encode_DIS_TrackJob_def encode_DIS_Register_def encode_DIS_UserMigrate_def
  by (rule msg_intro | assumption | simp; fail)+

lemma encode_cred_ok [msg_intro]:
  assumes "length cred \<le> STR_LIMIT"
  shows "wr_ok (encode_DIS_JobCred ops typ cred (of_nat (length cred))) (concat [wire_u (unat typ), wire_cs cred])"
    "fits PBS_MAXUSER user \<Longrightarrow>
      wr_ok (encode_DIS_UserCred ops user typ cred (of_nat (length cred))) (concat [wire_cs user, wire_u (unat typ), wire_cs cred])"
  unfolding encode_DIS_JobCred_def encode_DIS_UserCred_def int_size_small [OF assms]
  by (rule msg_intro assms | assumption | simp; fail)+

lemma encode_DIS_CopyFiles_ok [msg_intro]:
  assumes "wf_cpyfile r"
  shows "wr_ok (encode_DIS_CopyFiles ops r) (wire_cpyfile r)"
proof -
  have pair: "wr_ok (enc_pair ops p) (wire_pair p)" if "p \<in> set (cf_pair r)" for p
  proof -
    have p: "fits STR_LIMIT (fp_local p)" "fits STR_LIMIT (opt_str (fp_rmt p))"
      using assms that by (simp_all add: wf_cpyfile_def wf_pair_def)
    show ?thesis unfolding enc_pair_def wire_pair_def by (rule msg_intro p | simp; fail)+
  qed
  have f: "fits PBS_MAXSVRJOBID (cf_jobid r)" "fits PBS_MAXUSER (cf_owner r)" "fits PBS_MAXUSER (cf_user r)" "fits PBS_MAXGRPN (cf_group r)"
    using assms by (simp_all add: wf_cpyfile_def)
  note pairs = wr_ok_map [OF pair]
  show ?thesis
    unfolding encode_DIS_CopyFiles_def wire_cpyfile_def
    by (rule pairs msg_intro f | assumption | simp; fail)+
qed

lemma encode_DIS_CopyFiles_Cred_ok [msg_intro]:
  assumes "wf_cpyfile (cc_copyfile r)" "cc_pcred r = Some cred" "cc_credlen r = length cred" "length cred \<le> STR_LIMIT"
  shows "wr_ok (encode_DIS_CopyFiles_Cred ops r) (concat [wire_cpyfile (cc_copyfile r), wire_u (unat (cc_credtype r)), wire_cs cred])"
  unfolding encode_DIS_CopyFiles_Cred_def assms(2,3) opt_str_def option.case
  by (rule msg_intro assms | simp; fail)+

end

context dis_source
begin

lemma decode_job_ok [msg_intro]:
  assumes "fits PBS_MAXSVRJOBID jobid"
  shows "fits PBS_MAXDEST destin \<Longrightarrow> rd_ok (decode_DIS_MoveJob ops mv) (concat [wire_cs jobid, wire_cs destin])
      \<lparr>mv_jid = jobid, mv_destin = destin\<rparr>"
    "fits STR_LIMIT dest \<Longrightarrow> rd_ok (decode_DIS_Run ops rn) (concat [wire_cs jobid, wire_cs dest, wire_u (unat arg)])
      \<lparr>rn_jid = jobid, rn_destin = Some dest, rn_resch = arg\<rparr>"
    "fits PBS_SIGNAMESZ sig \<Longrightarrow> rd_ok (decode_DIS_SignalJob ops sg) (concat [wire_cs jobid, wire_cs sig])
      \<lparr>sg_jid = jobid, sg_signame = sig\<rparr>"
    "fits STR_LIMIT msg \<Longrightarrow> rd_ok (decode_DIS_MessageJob ops ms) (concat [wire_cs jobid, wire_u (unat fo), wire_cs msg])
      \<lparr>ms_file = fo, ms_jid = jobid, ms_text = Some msg\<rparr>"
    "fits STR_LIMIT nl \<Longrightarrow> rd_ok (decode_DIS_RelnodesJob ops rl) (concat [wire_cs jobid, wire_cs nl])
      \<lparr>rl_jid = jobid, rl_node_list = Some nl\<rparr>"
  unfolding decode_DIS_MoveJob_def decode_DIS_Run_def decode_DIS_SignalJob_def decode_DIS_MessageJob_def
    decode_DIS_RelnodesJob_def
  by (rule rd_ok_cong, (rule msg_intro assms | assumption | simp; fail)+)+

lemma rd_ok_malloc:
  assumes "rd_ok f bs v"
  shows "rd_ok (\<lambda>s. case c_malloc ops s n of (ok, t) \<Rightarrow> if \<not> ok then e t else f t) bs v"
  unfolding rd_ok_def
proof (intro allI impI, elim conjE)
  fix s rest assume s: "invar s" "calm s" "taken s = []" "avail s = bs @ rest"
  obtain t where t: "c_malloc ops s n = (True, t)" "moved_exact s t []" "calm t" "avail t = avail s"
    using live_malloc [OF moved_refl [OF s(1)] s(2)] .
  then have t': "invar t" "taken t = []" "outp t = outp s" "pend t = pend s"
    using s(3) by (simp_all add: moved_exact_def)
  obtain u where "f t = (0, v, u)" "invar u" "calm u" "taken u = []" "avail u = rest" "outp u = outp t" "pend u = pend t"
    using rd_okD [OF assms t'(1) t(3) t'(2), of rest] t(4) s(4) by auto
  then show "\<exists>u. (case c_malloc ops s n of (ok, t) \<Rightarrow> if \<not> ok then e t else f t) = (0, v, u) \<and> invar u \<and> calm u \<and> taken u = [] \<and> avail u = rest \<and>
      outp u = outp s \<and> pend u = pend s"
    using t(1) t' by simp
qed

lemma read_carray_loop_ok:
  "carray_ok l \<Longrightarrow> length l < fuel \<Longrightarrow>
     rd_ok (read_carray_loop fuel ops num carr) (concat (map wire_cs l @ [wire_cs []])) (Some (carr @ l))"
proof (induction l arbitrary: fuel num carr)
  case Nil
  then obtain f where f: "fuel = Suc f" by (cases fuel) auto
  have "rd_ok (disrst ops) (wire_cs []) (Some [])" by (rule get_st_ok [OF fits_Nil [of 0]]) simp
  then have "rd_ok (read_carray_loop fuel ops num carr) (wire_cs [] @ concat []) (Some carr)"
    by (rule rd_ok_step [OF _ rd_ok_seq_Nil]) (simp add: f)
  then show ?case by simp
next
  case (Cons x l)
  then obtain f where f: "fuel = Suc f" "length l < f" by (cases fuel) auto
  have x: "x \<noteq> []" "fits STR_LIMIT x" and l: "carray_ok l" using Cons.prems by (auto simp: carray_ok_def)
  have x': "rd_ok (disrst ops) (wire_cs x) (Some x)" by (rule get_st_ok [OF x(2)]) simp
  note IH = Cons.IH [OF l f(2)]
  define step where "step = (if length carr = num - 1 then
      (\<lambda>s. case c_malloc ops s (num * 2 * 8) of (ok, s) \<Rightarrow> if \<not> ok then (PBSE_SYSTEM, None, s)
        else read_carray_loop f ops (num * 2) (carr @ [x]) s)
      else read_carray_loop f ops num (carr @ [x]))"
  have "rd_ok step (concat (map wire_cs l @ [wire_cs []])) (Some ((carr @ [x]) @ l))"
    unfolding step_def by (cases "length carr = num - 1") (simp_all only: if_True if_False simp_thms rd_ok_malloc [OF IH] IH)
  then have "rd_ok (read_carray_loop fuel ops num carr) (wire_cs x @ concat (map wire_cs l @ [wire_cs []])) (Some ((carr @ [x]) @ l))"
    by (rule rd_ok_step [OF x']) (use x(1) in \<open>simp add: f(1) step_def\<close>)
  then show ?case by simp
qed

lemma read_carray_ok [msg_intro]:
  assumes "carray_ok l" "length l < fuel"
  shows "rd_ok (read_carray fuel ops arr) (wire_carray l) (Some l)"
proof -
  let ?f = "\<lambda>s. case read_carray_loop fuel ops 4 [] s of (rc, a, s) \<Rightarrow> (rc, case a of None \<Rightarrow> arr | Some a \<Rightarrow> Some a, s)"
  have "rd_ok (rd_to (read_carray_loop fuel ops 4 []) (\<lambda>a r. case a of None \<Rightarrow> r | Some a \<Rightarrow> Some a) arr) (wire_carray l) (Some l)"
    by (rule rd_ok_cong, rule rd_ok_to, unfold wire_carray_def, rule read_carray_loop_ok [OF assms]) simp
  then have "rd_ok ?f (wire_carray l) (Some l)" by (simp add: rd_to_def [abs_def])
  then show ?thesis
    using rd_ok_malloc [where f = ?f and n = "4 * 8" and e = "\<lambda>s. (PBSE_SYSTEM, arr, s)"] by (simp add: read_carray_def [abs_def])
qed

lemma decode_DIS_PySpawn_ok [msg_intro]:
  assumes "fits PBS_MAXSVRJOBID jobid" "carray_ok argv" "carray_ok envp" "length argv < fuel" "length envp < fuel"
  shows "rd_ok (decode_DIS_PySpawn fuel ops r) (concat [wire_cs jobid, wire_carray argv, wire_carray envp])
    \<lparr>py_jid = jobid, py_argv = Some argv, py_envp = Some envp\<rparr>"
  unfolding decode_DIS_PySpawn_def by (rule rd_ok_cong, (rule msg_intro assms | simp; fail)+)

lemma decode_misc_ok [msg_intro]:
  "length objid \<le> STR_LIMIT \<Longrightarrow> attr_list_ok wf_attropl l \<Longrightarrow>
     rd_ok (decode_DIS_Status ops neg0 st) (concat [wire_cs objid, wire_attropls l]) \<lparr>st_id = Some objid, st_attr = map attropl_svr l\<rparr>"
  "rd_ok (decode_DIS_ShutDown ops sh) (wire_u (unat manner)) manner"
  "fits PBS_MAXSVRJOBID jid \<Longrightarrow> fits PBS_MAXDEST loc \<Longrightarrow>
     rd_ok (decode_DIS_TrackJob ops tk) (concat [wire_cs jid, wire_u (unat hops), wire_cs loc, wire_u (unat (c :: 8 word))])
       \<lparr>tk_hopcount = hops, tk_jid = jid, tk_location = loc, tk_state = c\<rparr>"
  "fits PBS_MAXUSER owner \<Longrightarrow> fits PBS_MAXSVRJOBID parent \<Longrightarrow> fits PBS_MAXCLTJOBID child \<Longrightarrow>
     rd_ok (decode_DIS_Register ops neg0 rg) (concat [wire_cs owner, wire_cs parent, wire_cs child,
       wire_u (unat dt), wire_u (unat opn), wire_s (sint cost)])
       (rg\<lparr>rg_owner := owner, rg_parent := parent, rg_child := child, rg_dependtype := dt, rg_op := opn, rg_cost := cost\<rparr>)"
  "fits PBS_MAXHOSTNAME tohost \<Longrightarrow> rd_ok (decode_DIS_UserMigrate ops um) (wire_cs tohost) tohost"
  unfolding decode_DIS_Status_def decode_DIS_ShutDown_def decode_DIS_TrackJob_def decode_DIS_Register_def decode_DIS_UserMigrate_def
  by (rule rd_ok_cong, (rule msg_intro | assumption | simp; fail)+)+

lemma decode_cred_ok [msg_intro]:
  assumes "length cred \<le> STR_LIMIT"
  shows "rd_ok (decode_DIS_JobCred ops neg0 jc) (concat [wire_u (unat typ), wire_cs cred])
      \<lparr>jc_type = typ, jc_size = length cred, jc_data = Some cred\<rparr>"
    "fits PBS_MAXUSER user \<Longrightarrow> rd_ok (decode_DIS_UserCred ops neg0 uc) (concat [wire_cs user, wire_u (unat typ), wire_cs cred])
      \<lparr>uc_user = user, uc_type = typ, uc_size = length cred, uc_data = Some cred\<rparr>"
  unfolding decode_DIS_JobCred_def decode_DIS_UserCred_def
  by (rule rd_ok_cong, (rule msg_intro assms | assumption | simp; fail)+)+

lemma dec_pair_ok:
  assumes "wf_pair p"
  shows "rd_ok (dec_pair ops r) (wire_pair p) (r\<lparr>cf_pair := cf_pair r @ [pair_sent p]\<rparr>)"
proof -
  have f: "fits STR_LIMIT (fp_local p)" "fits STR_LIMIT (opt_str (fp_rmt p))"
    using assms by (simp_all add: wf_pair_def)
  let ?fill = "dec_seq [rd_to (disrui ops) (\<lambda>v. fp_flag_update (\<lambda>_. v)),
      rd_to (disrst ops) (\<lambda>v. fp_local_update (\<lambda>_. opt_str v)), rd_to (disrst ops) (\<lambda>v. fp_rmt_update (\<lambda>_. v))]
      \<lparr>fp_flag = 0, fp_local = [], fp_rmt = None\<rparr>"
  have "rd_ok ?fill (wire_pair p) (pair_sent p)"
    unfolding wire_pair_def
    by (rule rd_ok_cong, (rule msg_intro f | simp; fail)+) (cases p, simp add: pair_sent_def opt_str_def)
  then show ?thesis
    by (rule rd_ok_alloc [where n = 40 and e = r and g = "\<lambda>p. r\<lparr>cf_pair := cf_pair r @ [p]\<rparr>"])
      (simp add: dec_pair_def del: dec_seq.simps)
qed

lemma fold_cf_pair: "fold (\<lambda>p r. r\<lparr>cf_pair := cf_pair r @ [f p]\<rparr>) l r = r\<lparr>cf_pair := cf_pair r @ map f l\<rparr>"
  by (induction l arbitrary: r) simp_all

lemma decode_DIS_CopyFiles_ok [msg_intro]:
  assumes "wf_cpyfile r"
  shows "rd_ok (decode_DIS_CopyFiles ops r0) (wire_cpyfile r) (r\<lparr>cf_pair := map pair_sent (cf_pair r)\<rparr>)"
proof -
  have f: "fits PBS_MAXSVRJOBID (cf_jobid r)" "fits PBS_MAXUSER (cf_owner r)" "fits PBS_MAXUSER (cf_user r)" "fits PBS_MAXGRPN (cf_group r)"
    and n: "unat (of_nat (length (cf_pair r)) :: uint) = length (cf_pair r)" and wf: "\<forall>p \<in> set (cf_pair r). wf_pair p"
    using assms by (simp_all add: wf_cpyfile_def unat_of_nat_small)
  have loop: "rd_ok (dec_seq (replicate (unat (of_nat (length (cf_pair r)) :: uint)) (dec_pair ops)) q) (concat [concat (map wire_pair (cf_pair r))])
      (q\<lparr>cf_pair := cf_pair q @ map pair_sent (cf_pair r)\<rparr>)" for q
    using rd_ok_loop [of "cf_pair r" "dec_pair ops" wire_pair "\<lambda>p r. r\<lparr>cf_pair := cf_pair r @ [pair_sent p]\<rparr>" q] dec_pair_ok wf
    by (simp add: n fold_cf_pair)
  have step: "rd_ok (rd_let (disrui ops) (\<lambda>pair_ct. dec_seq (replicate (unat pair_ct) (dec_pair ops))) q)
      (concat [wire_u (unat (of_nat (length (cf_pair r)) :: uint)), concat (map wire_pair (cf_pair r))])
      (q\<lparr>cf_pair := cf_pair q @ map pair_sent (cf_pair r)\<rparr>)" for q
    by (rule rd_ok_let, rule disrui_ok, rule loop)
  have bs: "wire_cpyfile r = concat [wire_cs (cf_jobid r), wire_cs (cf_owner r), wire_cs (cf_user r), wire_cs (cf_group r),
      wire_u (unat (cf_dir r)), concat [wire_u (unat (of_nat (length (cf_pair r)) :: uint)), concat (map wire_pair (cf_pair r))]]"
    by (simp add: wire_cpyfile_def)
  show ?thesis
    unfolding decode_DIS_CopyFiles_def bs by (rule rd_ok_cong, (rule step msg_intro f | simp; fail)+)
qed

lemma decode_DIS_CopyFiles_Cred_ok [msg_intro]:
  assumes "wf_cpyfile r" "length cred \<le> STR_LIMIT"
  shows "rd_ok (decode_DIS_CopyFiles_Cred ops neg0 r0) (concat [wire_cpyfile r, wire_u (unat typ), wire_cs cred])
    \<lparr>cc_copyfile = r\<lparr>cf_pair := map pair_sent (cf_pair r)\<rparr>, cc_credtype = typ, cc_credlen = length cred, cc_pcred = Some cred\<rparr>"
  unfolding decode_DIS_CopyFiles_Cred_def by (rule rd_ok_cong, (rule msg_intro assms | simp; fail)+)

end

section \<open>Every decoder on every input\<close>

context dis_stream
begin

lemma rd_safe_malloc_then [safe_intro]:
  assumes "\<And>t. rd_safe (\<lambda>s. e s)" "rd_safe f"
  shows "rd_safe (\<lambda>s. case c_malloc ops s n of (ok, t) \<Rightarrow> if \<not> ok then e t else f t)"
  by (rule rd_safe_bind [OF rd_safe_malloc [of n], of "\<lambda>_ ok. if \<not> ok then e else f"])
    (use assms in \<open>auto split: prod.splits\<close>)

lemma rd_safe_data [safe_intro]: "rd_safe (rd_data ops neg0 sz upd r)"
proof -
  let ?rc = "\<lambda>rc amt. if of_nat amt \<noteq> sz r \<and> rc = 0 then DIS_EOD else rc"
  have eq: "rd_data ops neg0 sz upd r s = (case disrcs ops neg0 s of (rc, p, t) \<Rightarrow>
      (?rc rc (snd p), upd (if ?rc rc (snd p) \<noteq> 0 then None else fst p) r, t))" for s
    by (cases "disrcs ops neg0 s") (auto simp: rd_data_def Let_def)
  show ?thesis
    by (rule rd_safe_bind [OF rd_safe_prims(7), of "\<lambda>rc p s. (?rc rc (snd p), upd (if ?rc rc (snd p) \<noteq> 0 then None else fst p) r, s)"])
      (rule rd_safe_const, rule eq)
qed

lemma rd_safe_carray_loop: "rd_safe (read_carray_loop fuel ops num carr)"
proof (induction fuel arbitrary: num carr)
  case 0
  then show ?case using rd_safe_const [of CARRAY_FUEL None] by (simp add: fun_eq_iff)
next
  case (Suc f)
  define k where "k ret cp = (case cp of None \<Rightarrow> (\<lambda>s. (PBSE_SYSTEM, None, s))
      | Some str \<Rightarrow> if ret \<noteq> DIS_SUCCESS then (\<lambda>s. (PBSE_SYSTEM, None, s))
          else if str = [] then (\<lambda>s. (ret, Some carr, s))
          else if length carr = num - 1 then (\<lambda>s. case c_malloc ops s (num * 2 * 8) of (ok, s) \<Rightarrow>
              if \<not> ok then (PBSE_SYSTEM, None, s) else read_carray_loop f ops (num * 2) (carr @ [str]) s)
          else read_carray_loop f ops num (carr @ [str]))" for ret :: int and cp
  have "rd_safe (k ret cp)" for ret cp
    unfolding k_def by (auto simp: rd_safe_const Suc.IH intro: rd_safe_malloc_then split: option.split)
  moreover have "read_carray_loop (Suc f) ops num carr s = (case disrst ops s of (rc, v, t) \<Rightarrow> k rc v t)" for s
    by (cases "disrst ops s") (simp add: k_def split: option.split)
  ultimately show ?case by (rule rd_safe_bind [OF rd_safe_prims(6)])
qed

lemma rd_safe_carray [safe_intro]: "rd_safe (read_carray fuel ops arr)"
proof -
  have "rd_safe (\<lambda>s. case read_carray_loop fuel ops 4 [] s of (rc, a, s) \<Rightarrow> (rc, case a of None \<Rightarrow> arr | Some a \<Rightarrow> Some a, s))"
    by (rule rd_safe_bind [OF rd_safe_carray_loop, of "\<lambda>rc a s. (rc, case a of None \<Rightarrow> arr | Some a \<Rightarrow> Some a, s)"])
      (simp_all add: rd_safe_const)
  then show ?thesis
    unfolding read_carray_def [abs_def] by (intro rd_safe_malloc_then rd_safe_const)
qed

lemma rd_safe_bodies [safe_intro]:
  "rd_safe (decode_DIS_Manage ops mg)" "rd_safe (decode_DIS_ModifyResv ops mg)" "rd_safe (decode_DIS_QueueJob ops qj)"
  "rd_safe (decode_DIS_JobFile ops neg0 jf)" "rd_safe (decode_DIS_JobId ops jid)" "rd_safe (decode_DIS_CopyHookFile ops mpl neg0 hf)"
  "rd_safe (decode_DIS_DelHookFile ops mpl hf)" "rd_safe (decode_DIS_MoveJob ops mv)" "rd_safe (decode_DIS_Run ops rn)"
  "rd_safe (decode_DIS_SignalJob ops sg)" "rd_safe (decode_DIS_MessageJob ops ms)" "rd_safe (decode_DIS_RelnodesJob ops rl)"
  "rd_safe (decode_DIS_PySpawn fuel ops py)" "rd_safe (decode_DIS_Status ops neg0 st)" "rd_safe (decode_DIS_ShutDown ops sh)"
  "rd_safe (decode_DIS_TrackJob ops tk)" "rd_safe (decode_DIS_Register ops neg0 rg)" "rd_safe (decode_DIS_JobCred ops neg0 jc)"
  "rd_safe (decode_DIS_UserCred ops neg0 uc)" "rd_safe (decode_DIS_UserMigrate ops um)" "rd_safe (decode_DIS_AuthenResvPort ops ap)"
  "rd_safe (decode_DIS_MomRestart ops mr)"
  unfolding decode_DIS_Manage_def decode_DIS_ModifyResv_def decode_DIS_QueueJob_def decode_DIS_JobFile_def decode_DIS_JobId_def
    decode_DIS_CopyHookFile_def decode_DIS_DelHookFile_def decode_DIS_MoveJob_def decode_DIS_Run_def decode_DIS_SignalJob_def
    decode_DIS_MessageJob_def decode_DIS_RelnodesJob_def decode_DIS_PySpawn_def decode_DIS_Status_def decode_DIS_ShutDown_def
    decode_DIS_TrackJob_def decode_DIS_Register_def decode_DIS_JobCred_def decode_DIS_UserCred_def decode_DIS_UserMigrate_def
    decode_DIS_AuthenResvPort_def decode_DIS_MomRestart_def
  by (intro safe_intro)+

lemma rd_safe_auth [safe_intro]: "rd_safe (decode_DIS_AuthExternal ops neg0 r)"
proof -
  have key: "rd_safe (\<lambda>s. case rd_fst ops n upd r s of (rc, r, s) \<Rightarrow> (if rc \<noteq> 0 then 1 else 0, r, s))" for n upd and r :: rq_authen_external
    by (rule rd_safe_bind [OF rd_safe_fst, of "\<lambda>rc r s. (if rc \<noteq> 0 then 1 else 0, r, s)"]) (simp_all add: rd_safe_const)
  have body: "rd_safe (\<lambda>s. if ax_auth_type r = 1 then
          (case rd_fst ops n (\<lambda>v. ax_authkey_update (\<lambda>_. v)) r s of (rc, r, s) \<Rightarrow> (if rc \<noteq> 0 then 1 else 0, r, s))
        else (DIS_EOF, r, s))" for n and r :: rq_authen_external
    by (cases "ax_auth_type r = 1"; simp only: if_True if_False simp_thms; rule key rd_safe_const)
  show ?thesis unfolding decode_DIS_AuthExternal_def by (intro safe_intro body)
qed

lemma rd_safe_rescl [safe_intro]: "rd_safe (decode_DIS_Rescl ops neg0 r)"
proof -
  have loop: "rd_safe (dec_seq (map (rescl_item ops) is) r)" for "is" r
    by (rule rd_safe_seq) (auto simp: rescl_item_def intro: rd_safe_to rd_safe_prims)
  have body: "rd_safe (\<lambda>s. let r = r\<lparr>rs_num := ct\<rparr> in
        if ct \<noteq> 0 then
          case c_malloc ops s (unat (of_int (sint ct) * 8 :: ulong)) of (ok, s) \<Rightarrow>
            if \<not> ok then (PBSE_RMSYSTEM, r, s)
            else dec_seq (map (rescl_item ops) [0..<loop_count ct]) (r\<lparr>rs_list := replicate (loop_count ct) None\<rparr>) s
        else (0, r, s))" for ct :: uint and r
    by (cases "ct = 0") (simp_all add: Let_def rd_safe_const rd_safe_malloc_then loop del: dec_seq.simps)
  show ?thesis unfolding decode_DIS_Rescl_def by (intro safe_intro body)
qed

lemma rd_safe_copyfiles [safe_intro]: "rd_safe (decode_DIS_CopyFiles ops r)" "rd_safe (decode_DIS_CopyFiles_Cred ops neg0 rc)"
proof -
  have pair: "rd_safe (dec_pair ops r)" for r
    by (rule rd_safe_alloc [OF _ dec_pair_def]) (intro safe_intro)
  show *: "rd_safe (decode_DIS_CopyFiles ops r)" for r
    unfolding decode_DIS_CopyFiles_def by (intro safe_intro pair)
  show "rd_safe (decode_DIS_CopyFiles_Cred ops neg0 rc)"
    unfolding decode_DIS_CopyFiles_Cred_def by (intro safe_intro *)
qed

text \<open>The loop of \<open>read_carray\<close> returns: every string it reads takes at least its sign character.\<close>

lemma disrst_progress:
  assumes "invar s" "taken s = []" "disrst ops s = (0, Some str, t)"
  shows "invar t" "taken t = []" "length (avail t) < length (avail s)"
  using disrst_done [OF assms(1,2)] assms(3)
  by (auto simp: read_done_def str_form_def num_form_def)

lemma read_carray_returns:
  "invar s \<Longrightarrow> taken s = [] \<Longrightarrow> length (avail s) < fuel \<Longrightarrow>
     fst (read_carray_loop fuel ops num carr s) \<noteq> CARRAY_FUEL"
proof (induction fuel arbitrary: num carr s)
  case (Suc f)
  obtain ret cp t where d: "disrst ops s = (ret, cp, t)" by (cases "disrst ops s")
  show ?case
  proof (cases "ret = 0 \<and> cp \<noteq> None")
    case True
    then obtain str where cp: "ret = 0" "cp = Some str" by auto
    note t = disrst_progress [OF Suc.prems(1,2) d [unfolded cp]]
    obtain ok u where m: "c_malloc ops t (num * 2 * 8) = (ok, u)" by (cases "c_malloc ops t (num * 2 * 8)")
    have u: "invar u" "taken u = []" "avail u = avail t" using malloc_law [OF t(1) m] t(2) by simp_all
    have "fst (read_carray_loop f ops n c t) \<noteq> CARRAY_FUEL" "fst (read_carray_loop f ops n c u) \<noteq> CARRAY_FUEL" for n c
      using Suc.IH t u Suc.prems(3) by simp_all
    then show ?thesis using d cp m by (simp add: CARRAY_FUEL_def PBSE_SYSTEM_def)
  next
    case False
    then show ?thesis using d by (auto simp: CARRAY_FUEL_def PBSE_SYSTEM_def split: option.splits)
  qed
qed simp

end

end
