(* ===== verification/Dis_Request.thy ===== *)
theory Dis_Request
  imports Job_Wire
begin

text \<open>
  Whole batch requests. \<open>dis_request_read\<close> (\<open>src/src/server/dis_read.c\<close>) reads the
  header, dispatches on the request type to the body decoders of \<open>Req_Wire\<close> and
  \<open>Job_Wire\<close>, and reads the extension; the \<open>*_put\<close> functions of
  \<open>src/src/lib/Libifl/int_*.c\<close> write header, body and extension and flush. The arms of
  \<open>union indep_request\<close> are the constructors of a datatype; the request comes zeroed from
  \<open>alloc_br\<close>, so each arm starts out as zeros.
\<close>

section \<open>Header and extension\<close>

abbreviation PBS_BATCH_PROT_TYPE :: uint where "PBS_BATCH_PROT_TYPE \<equiv> 2"
abbreviation PBS_BATCH_PROT_VER :: uint where "PBS_BATCH_PROT_VER \<equiv> 1"
abbreviation PBSE_DISPROTO :: int where "PBSE_DISPROTO \<equiv> 15056"
abbreviation PBSE_UNKREQ :: int where "PBSE_UNKREQ \<equiv> 15005"
abbreviation PBSE_PROTOCOL :: int where "PBSE_PROTOCOL \<equiv> 15031"

record rq_defschrpy =
  dr_cmd :: uint
  dr_id :: "string option"
  dr_err :: uint
  dr_txt :: "string option"

datatype rq_ind =
    Ind_none
  | Ind_queuejob rq_queuejob
  | Ind_jobcred rq_jobcred
  | Ind_usercred rq_usercred
  | Ind_user_migrate string
  | Ind_gssdata "string option \<times> nat"
  | Ind_jobfile rq_jobfile
  | Ind_commit string
  | Ind_locate string
  | Ind_manager rq_manage
  | Ind_message rq_message
  | Ind_shutdown uint
  | Ind_signal rq_signal
  | Ind_status rq_status
  | Ind_py_spawn rq_py_spawn
  | Ind_authen_external rq_authen_external
  | Ind_relnodes rq_relnodes
  | Ind_move rq_move
  | Ind_run rq_runjob
  | Ind_defrpy rq_defschrpy
  | Ind_select "svrattrl list \<times> svrattrl list"
  | Ind_track rq_track
  | Ind_rescq rq_rescq
  | Ind_register rq_register
  | Ind_authen_resvport uint
  | Ind_momrestart rq_momrestart
  | Ind_modify rq_manage
  | Ind_hookfile rq_hookfile
  | Ind_cpyfile rq_cpyfile
  | Ind_cpyfile_cred rq_cpyfile_cred

record batch_request =
  rq_type :: uint
  rq_user :: string
  rq_extend :: "string option"
  rq_ind :: rq_ind

definition encode_DIS_ReqHdr :: "'s dis_ops \<Rightarrow> uint \<Rightarrow> string \<Rightarrow> 's enc" where
  "encode_DIS_ReqHdr ops reqt user =
     enc_seq [put_ui ops PBS_BATCH_PROT_TYPE, put_ui ops PBS_BATCH_PROT_VER, put_ui ops reqt, put_st ops user]"

text \<open>The out-parameters \<open>*proto_type\<close> and \<open>*proto_ver\<close> accompany the request.\<close>

definition decode_DIS_ReqHdr :: "'s dis_ops \<Rightarrow> ('s, batch_request \<times> uint \<times> uint) dec" where
  "decode_DIS_ReqHdr ops = dec_seq
     [rd_to (disrui ops) (\<lambda>v (preq, _, ver). (preq, v, ver)),
      (\<lambda>r. if fst (snd r) \<noteq> PBS_BATCH_PROT_TYPE then dec_rc DIS_PROTO r else dec_rc 0 r),
      rd_to (disrui ops) (\<lambda>v (preq, typ, _). (preq, typ, v)),
      rd_to (disrui ops) (\<lambda>v (preq, pv). (preq\<lparr>rq_type := v\<rparr>, pv)),
      rd_fst ops (PBS_MAXUSER + 1) (\<lambda>v (preq, pv). (preq\<lparr>rq_user := v\<rparr>, pv))]"

definition encode_DIS_ReqExtend :: "'s dis_ops \<Rightarrow> string option \<Rightarrow> 's enc" where
  "encode_DIS_ReqExtend ops ext =
     (if ext = None \<or> strlen (opt_str ext) = 0 then put_ui ops 0
      else enc_seq [put_ui ops 1, put_st ops (opt_str ext)])"

definition decode_DIS_ReqExtend :: "'s dis_ops \<Rightarrow> ('s, batch_request) dec" where
  "decode_DIS_ReqExtend ops =
     rd_let (disrui ops) (\<lambda>i. dec_opt (i \<noteq> 0) (rd_to (disrst ops) (\<lambda>v. rq_extend_update (\<lambda>_. v))))"

section \<open>The body\<close>

text \<open>
  \<open>mom\<close> tells whether \<open>PBS_MOM\<close> is defined for the program; \<open>neg0\<close> stands for
  the uninitialised local of the signed readers, \<open>fuel\<close> bounds \<open>read_carray\<close>,
  \<open>mpl\<close> is \<open>MAXPATHLEN\<close>. \<open>rd_arm con d\<close> runs the decoder of one arm.
\<close>

definition rd_arm :: "('a \<Rightarrow> rq_ind) \<Rightarrow> ('s \<Rightarrow> int \<times> 'a \<times> 's) \<Rightarrow> 's \<Rightarrow> int \<times> rq_ind \<times> 's" where
  "rd_arm con f s = (case f s of (rc, x, s) \<Rightarrow> (rc, con x, s))"

definition zero_manage :: rq_manage where
  "zero_manage = \<lparr>mg_cmd = 0, mg_objtype = 0, mg_objname = [], mg_attr = []\<rparr>"
definition zero_queuejob :: rq_queuejob where
  "zero_queuejob = \<lparr>qj_mem = replicate 526 NUL, qj_attr = []\<rparr>"
definition zero_jobfile :: rq_jobfile where
  "zero_jobfile = \<lparr>jf_sequence = 0, jf_type = 0, jf_size = 0, jf_jobid = [], jf_data = None\<rparr>"
definition zero_hookfile :: rq_hookfile where
  "zero_hookfile = \<lparr>hf_sequence = 0, hf_size = 0, hf_filename = [], hf_data = None\<rparr>"
definition zero_register :: rq_register where
  "zero_register = \<lparr>rg_owner = [], rg_svr = [], rg_parent = [], rg_child = [], rg_dependtype = 0, rg_op = 0, rg_cost = 0\<rparr>"
definition zero_cpyfile :: rq_cpyfile where
  "zero_cpyfile = \<lparr>cf_jobid = [], cf_owner = [], cf_user = [], cf_group = [], cf_dir = 0, cf_pair = []\<rparr>"
definition zero_defrpy :: rq_defschrpy where
  "zero_defrpy = \<lparr>dr_cmd = 0, dr_id = None, dr_err = 0, dr_txt = None\<rparr>"

definition decode_DefSchReply :: "'s dis_ops \<Rightarrow> bool \<Rightarrow> ('s, rq_defschrpy) dec" where
  "decode_DefSchReply ops neg0 = dec_seq
     [rd_to (disrsi ops neg0) (\<lambda>v. dr_cmd_update (\<lambda>_. v)),
      rd_to (disrst ops) (\<lambda>v. dr_id_update (\<lambda>_. v)),
      rd_to (disrsi ops neg0) (\<lambda>v. dr_err_update (\<lambda>_. v)),
      rd_let (disrsi ops neg0) (\<lambda>i. dec_opt (i \<noteq> 0) (rd_to (disrst ops) (\<lambda>v. dr_txt_update (\<lambda>_. v))))]"

text \<open>Selection: the status of the first list is overwritten by that of the second.\<close>

definition decode_SelStat :: "'s dis_ops \<Rightarrow> 's \<Rightarrow> int \<times> (svrattrl list \<times> svrattrl list) \<times> 's" where
  "decode_SelStat ops s =
     (case decode_DIS_svrattrl ops [] s of (_, sel, s) \<Rightarrow>
        case decode_DIS_svrattrl ops [] s of (rc, rtn, s) \<Rightarrow> (rc, (sel, rtn), s))"

text \<open>ModifyResv: the status of the decoder is not looked at.\<close>

definition ignore_rc :: "('s \<Rightarrow> int \<times> 'a \<times> 's) \<Rightarrow> 's \<Rightarrow> int \<times> 'a \<times> 's" where
  "ignore_rc f s = (case f s of (_, x, s) \<Rightarrow> (0, x, s))"

definition decode_body_common :: "nat \<Rightarrow> bool \<Rightarrow> 's dis_ops \<Rightarrow> uint \<Rightarrow> ('s \<Rightarrow> int \<times> rq_ind \<times> 's) option" where
  "decode_body_common fuel neg0 ops t =
     (if t = 0 then Some (\<lambda>s. (0, Ind_none, s))
      else if t \<in> {1, 70} then Some (rd_arm Ind_queuejob (decode_DIS_QueueJob ops zero_queuejob))
      else if t = 62 then Some (rd_arm Ind_jobcred (decode_DIS_JobCred ops neg0 \<lparr>jc_type = 0, jc_size = 0, jc_data = None\<rparr>))
      else if t = 73 then Some (rd_arm Ind_usercred (decode_DIS_UserCred ops neg0 \<lparr>uc_user = [], uc_type = 0, uc_size = 0, uc_data = None\<rparr>))
      else if t = 74 then Some (rd_arm Ind_user_migrate (decode_DIS_UserMigrate ops []))
      else if t = 65 then Some (rd_arm Ind_gssdata (disrcs ops neg0))
      else if t \<in> {3, 57} then Some (rd_arm Ind_jobfile (decode_DIS_JobFile ops neg0 zero_jobfile))
      else if t \<in> {4, 5, 14} then Some (rd_arm Ind_commit (decode_DIS_JobId ops []))
      else if t \<in> {6, 72, 92, 7, 11} then Some (rd_arm Ind_manager (decode_DIS_Manage ops zero_manage))
      else if t = 10 then Some (rd_arm Ind_message (decode_DIS_MessageJob ops \<lparr>ms_file = 0, ms_jid = [], ms_text = None\<rparr>))
      else if t \<in> {17, 27} then Some (rd_arm Ind_shutdown (decode_DIS_ShutDown ops 0))
      else if t = 18 then Some (rd_arm Ind_signal (decode_DIS_SignalJob ops \<lparr>sg_jid = [], sg_signame = []\<rparr>))
      else if t = 19 then Some (rd_arm Ind_status (decode_DIS_Status ops neg0 \<lparr>st_id = None, st_attr = []\<rparr>))
      else if t = 84 then Some (rd_arm Ind_py_spawn (decode_DIS_PySpawn fuel ops \<lparr>py_jid = [], py_argv = None, py_envp = None\<rparr>))
      else if t = 88 then Some (rd_arm Ind_authen_external (decode_DIS_AuthExternal ops neg0 \<lparr>ax_auth_type = 0, ax_authkey = []\<rparr>))
      else None)"

definition decode_body_server :: "bool \<Rightarrow> 's dis_ops \<Rightarrow> uint \<Rightarrow> ('s \<Rightarrow> int \<times> rq_ind \<times> 's) option" where
  "decode_body_server neg0 ops t =
     (if t = 90 then Some (rd_arm Ind_relnodes (decode_DIS_RelnodesJob ops \<lparr>rl_jid = [], rl_node_list = None\<rparr>))
      else if t = 8 then Some (rd_arm Ind_locate (decode_DIS_JobId ops []))
      else if t \<in> {9, 13} then Some (rd_arm Ind_manager (decode_DIS_Manage ops zero_manage))
      else if t \<in> {12, 50} then Some (rd_arm Ind_move (decode_DIS_MoveJob ops \<lparr>mv_jid = [], mv_destin = []\<rparr>))
      else if t \<in> {15, 23, 48, 75} then Some (rd_arm Ind_run (decode_DIS_Run ops \<lparr>rn_jid = [], rn_destin = None, rn_resch = 0\<rparr>))
      else if t = 80 then Some (rd_arm Ind_defrpy (decode_DefSchReply ops neg0 zero_defrpy))
      else if t \<in> {16, 51} then Some (rd_arm Ind_select (decode_SelStat ops))
      else if t \<in> {58, 71, 20, 21, 81, 82, 83} then Some (rd_arm Ind_status (decode_DIS_Status ops neg0 \<lparr>st_id = None, st_attr = []\<rparr>))
      else if t = 22 then Some (rd_arm Ind_track (decode_DIS_TrackJob ops \<lparr>tk_hopcount = 0, tk_jid = [], tk_location = [], tk_state = 0\<rparr>))
      else if t \<in> {24, 25, 26} then Some (rd_arm Ind_rescq (decode_DIS_Rescl ops neg0 \<lparr>rs_rhandle = 0, rs_num = 0, rs_list = []\<rparr>))
      else if t = 52 then Some (rd_arm Ind_register (decode_DIS_Register ops neg0 zero_register))
      else if t = 49 then Some (rd_arm Ind_authen_resvport (decode_DIS_AuthenResvPort ops 0))
      else if t = 87 then Some (rd_arm Ind_momrestart (decode_DIS_MomRestart ops \<lparr>mr_momhost = [], mr_port = 0\<rparr>))
      else if t = 91 then Some (rd_arm Ind_modify (ignore_rc (decode_DIS_ModifyResv ops zero_manage)))
      else None)"

definition decode_body_mom :: "nat \<Rightarrow> bool \<Rightarrow> 's dis_ops \<Rightarrow> uint \<Rightarrow> ('s \<Rightarrow> int \<times> rq_ind \<times> 's) option" where
  "decode_body_mom mpl neg0 ops t =
     (if t = 85 then Some (rd_arm Ind_hookfile (decode_DIS_CopyHookFile ops mpl neg0 zero_hookfile))
      else if t = 86 then Some (rd_arm Ind_hookfile (decode_DIS_DelHookFile ops mpl zero_hookfile))
      else if t \<in> {54, 55} then Some (rd_arm Ind_cpyfile (decode_DIS_CopyFiles ops zero_cpyfile))
      else if t \<in> {63, 64} then Some (rd_arm Ind_cpyfile_cred (decode_DIS_CopyFiles_Cred ops neg0
          \<lparr>cc_copyfile = zero_cpyfile, cc_credtype = 0, cc_credlen = 0, cc_pcred = None\<rparr>))
      else None)"

definition decode_body :: "bool \<Rightarrow> nat \<Rightarrow> nat \<Rightarrow> bool \<Rightarrow> 's dis_ops \<Rightarrow> uint \<Rightarrow> 's \<Rightarrow> int \<times> rq_ind \<times> 's" where
  "decode_body mom mpl fuel neg0 ops t =
     (case decode_body_common fuel neg0 ops t of Some d \<Rightarrow> d
      | None \<Rightarrow> (case (if mom then decode_body_mom mpl neg0 ops t else decode_body_server neg0 ops t) of Some d \<Rightarrow> d
                 | None \<Rightarrow> (\<lambda>s. (PBSE_UNKREQ, Ind_none, s))))"

section \<open>Reading a request\<close>

text \<open>\<open>EOF\<close> is \<open>-1\<close>; PBS_BATCH_Disconnect (59) returns it too. \<open>proto_ver\<close> is an \<open>int\<close>.\<close>

definition dis_request_read :: "bool \<Rightarrow> nat \<Rightarrow> nat \<Rightarrow> bool \<Rightarrow> 's dis_ops \<Rightarrow> ('s, batch_request) dec" where
  "dis_request_read mom mpl fuel neg0 ops request s =
     (case decode_DIS_ReqHdr ops (request, 0, 0) s of (rc, (request, proto_type, proto_ver), s) \<Rightarrow>
        if rc \<noteq> 0 then (if rc = DIS_EOF then - 1 else PBSE_DISPROTO, request, s)
        else if sint proto_ver > sint PBS_BATCH_PROT_VER then (PBSE_DISPROTO, request, s)
        else if rq_type request = 59 then (- 1, request, s)
        else case decode_body mom mpl fuel neg0 ops (rq_type request) s of (rc, ind, s) \<Rightarrow>
          let request = request\<lparr>rq_ind := ind\<rparr> in
          if rc = 0 then
            case decode_DIS_ReqExtend ops request s of (rc, request, s) \<Rightarrow>
              (if rc \<noteq> 0 then PBSE_DISPROTO else 0, request, s)
          else (if rc \<noteq> PBSE_UNKREQ then PBSE_DISPROTO else rc, request, s))"

text \<open>Over TCP the channel is set up, that is its buffers are cleared, before the header is read.\<close>

definition alloc_br :: "uint \<Rightarrow> batch_request" where
  "alloc_br typ = \<lparr>rq_type = typ, rq_user = [], rq_extend = None, rq_ind = Ind_none\<rparr>"

definition dis_request_read_tcp :: "bool \<Rightarrow> nat \<Rightarrow> nat \<Rightarrow> bool \<Rightarrow> nat \<Rightarrow> (tcp_state, batch_request) dec" where
  "dis_request_read_tcp mom mpl fuel neg0 fd request st =
     dis_request_read mom mpl fuel neg0 (tcp_ops fd) request (DIS_tcp_setup (int fd) st)"

section \<open>Sending a request\<close>

text \<open>
  The shape of the \<open>*_put\<close> functions over TCP (\<open>rpp\<close> 0): set up the channel, encode
  header, body and extension, flush. When an encoder fails, the message of the DIS code is copied
  into the connection (\<open>strdup\<close>, which may fail) and \<open>PBSE_PROTOCOL\<close> is returned.
\<close>

definition send_request :: "bool \<Rightarrow> nat \<Rightarrow> uint \<Rightarrow> string \<Rightarrow> (tcp_state dis_ops \<Rightarrow> tcp_state enc) \<Rightarrow> string option \<Rightarrow> tcp_state enc" where
  "send_request strdup_ok sock reqt user body ext st =
     (let ops = tcp_ops sock;
          (rc, st) = enc_seq [encode_DIS_ReqHdr ops reqt user, body ops, encode_DIS_ReqExtend ops ext] (DIS_tcp_setup (int sock) st)
      in if rc \<noteq> 0 then (if strdup_ok then PBSE_PROTOCOL else PBSE_SYSTEM, st)
         else let (r, st) = DIS_tcp_wflush sock st in (if r \<noteq> 0 then PBSE_PROTOCOL else 0, st))"

definition PBSD_mgr_put :: "bool \<Rightarrow> nat \<Rightarrow> string \<Rightarrow> uint \<Rightarrow> uint \<Rightarrow> uint \<Rightarrow> string \<Rightarrow> attropl list \<Rightarrow> string option \<Rightarrow> tcp_state enc" where
  "PBSD_mgr_put strdup_ok sock user fnc command objtype objname aoplp ext =
     send_request strdup_ok sock fnc user (\<lambda>ops. encode_DIS_Manage ops command objtype objname aoplp) ext"

definition PBSD_sig_put :: "bool \<Rightarrow> nat \<Rightarrow> string \<Rightarrow> string \<Rightarrow> string \<Rightarrow> string option \<Rightarrow> tcp_state enc" where
  "PBSD_sig_put strdup_ok sock user jobid sig ext =
     send_request strdup_ok sock 18 user (\<lambda>ops. encode_DIS_SignalJob ops jobid sig) ext"

definition PBSD_msg_put :: "nat \<Rightarrow> string \<Rightarrow> string \<Rightarrow> uint \<Rightarrow> string \<Rightarrow> string option \<Rightarrow> tcp_state enc" where
  "PBSD_msg_put sock user jobid fileopt msg ext =
     send_request True sock 10 user (\<lambda>ops. encode_DIS_MessageJob ops jobid fileopt msg) ext"

definition PBSD_py_spawn_put :: "nat \<Rightarrow> string \<Rightarrow> string \<Rightarrow> string list option \<Rightarrow> string list option \<Rightarrow> tcp_state enc" where
  "PBSD_py_spawn_put sock user jobid argv envp =
     send_request True sock 84 user (\<lambda>ops. encode_DIS_PySpawn ops jobid argv envp) None"

definition PBSD_relnodes_put :: "nat \<Rightarrow> string \<Rightarrow> string \<Rightarrow> string \<Rightarrow> string option \<Rightarrow> tcp_state enc" where
  "PBSD_relnodes_put sock user jobid node_list ext =
     send_request True sock 90 user (\<lambda>ops. encode_DIS_RelnodesJob ops jobid node_list) ext"

definition PBSD_status_put :: "bool \<Rightarrow> nat \<Rightarrow> string \<Rightarrow> uint \<Rightarrow> string \<Rightarrow> attropl list \<Rightarrow> string option \<Rightarrow> tcp_state enc" where
  "PBSD_status_put strdup_ok sock user fnc objid attrib ext =
     send_request strdup_ok sock fnc user (\<lambda>ops. encode_DIS_Status ops objid attrib) ext"

lemmas decode_body_defs = decode_body_def decode_body_common_def decode_body_server_def decode_body_mom_def

lemma decode_body_eqs:
  "reqt \<in> {6, 7, 9, 11, 13, 72, 92} \<Longrightarrow> decode_body False mpl fuel neg0 ops reqt = rd_arm Ind_manager (decode_DIS_Manage ops zero_manage)"
  "reqt \<in> {19, 20, 21, 58, 71, 81, 82, 83} \<Longrightarrow>
     decode_body False mpl fuel neg0 ops reqt = rd_arm Ind_status (decode_DIS_Status ops neg0 \<lparr>st_id = None, st_attr = []\<rparr>)"
  "decode_body mom mpl fuel neg0 ops 18 = rd_arm Ind_signal (decode_DIS_SignalJob ops \<lparr>sg_jid = [], sg_signame = []\<rparr>)"
  "decode_body mom mpl fuel neg0 ops 10 = rd_arm Ind_message (decode_DIS_MessageJob ops \<lparr>ms_file = 0, ms_jid = [], ms_text = None\<rparr>)"
  "decode_body False mpl fuel neg0 ops 90 = rd_arm Ind_relnodes (decode_DIS_RelnodesJob ops \<lparr>rl_jid = [], rl_node_list = None\<rparr>)"
  "decode_body mom mpl fuel neg0 ops 84 = rd_arm Ind_py_spawn (decode_DIS_PySpawn fuel ops \<lparr>py_jid = [], py_argv = None, py_envp = None\<rparr>)"
  by (elim insertE emptyE; simp add: decode_body_defs | simp add: decode_body_defs)+

section \<open>Correctness of header and extension\<close>

definition wire_hdr :: "uint \<Rightarrow> string \<Rightarrow> string" where
  "wire_hdr reqt user = concat [wire_u 2, wire_u 1, wire_u (unat reqt), wire_cs user]"

definition wire_ext :: "string option \<Rightarrow> string" where
  "wire_ext ext = (if opt_str ext = [] then wire_u 0 else concat [wire_u 1, wire_cs (opt_str ext)])"

definition ext_read :: "string option \<Rightarrow> string option" where
  "ext_read ext = (if opt_str ext = [] then None else ext)"

context dis_sink
begin

lemma put_ui_nat: "n < 4294967296 \<Longrightarrow> wr_ok (put_ui ops (of_nat n)) (wire_u n)"
  using diswui_ok [of "of_nat n"] by (simp add: unat_of_nat_small)

lemma encode_DIS_ReqHdr_ok [msg_intro]:
  assumes "fits PBS_MAXUSER user"
  shows "wr_ok (encode_DIS_ReqHdr ops reqt user) (wire_hdr reqt user)"
  unfolding encode_DIS_ReqHdr_def wire_hdr_def
  using put_ui_nat [of 2] put_ui_nat [of 1] by (intro wr_ok_Cons wr_ok_Nil put_st_ok [OF assms] diswui_ok) simp_all

lemma encode_DIS_ReqExtend_ok [msg_intro]:
  assumes "fits STR_LIMIT (opt_str ext)"
  shows "wr_ok (encode_DIS_ReqExtend ops ext) (wire_ext ext)"
proof (cases "opt_str ext = []")
  case True
  then show ?thesis using put_ui_nat [of 0] by (simp add: encode_DIS_ReqExtend_def wire_ext_def strlen_def)
next
  case False
  then have "ext \<noteq> None" "strlen (opt_str ext) \<noteq> 0"
    using fitsD(1) [OF assms] by (cases ext; simp add: opt_str_def)+
  moreover have "wr_ok (enc_seq [put_ui ops 1, put_st ops (opt_str ext)]) (concat [wire_u 1, wire_cs (opt_str ext)])"
    using put_ui_nat [of 1] by (intro wr_ok_Cons wr_ok_Nil put_st_ok [OF assms]) simp_all
  ultimately show ?thesis using False by (auto simp: encode_DIS_ReqExtend_def wire_ext_def simp del: enc_seq.simps)
qed

end

context dis_source
begin

lemma decode_DIS_ReqHdr_ok:
  assumes "fits PBS_MAXUSER user"
  shows "rd_ok (decode_DIS_ReqHdr ops (preq, 0, 0)) (wire_hdr reqt user) (preq\<lparr>rq_type := reqt, rq_user := user\<rparr>, 2, 1)"
proof -
  let ?chk = "\<lambda>r :: batch_request \<times> uint \<times> uint. if fst (snd r) \<noteq> PBS_BATCH_PROT_TYPE then dec_rc DIS_PROTO r else dec_rc 0 r"
  have chk: "rd_ok (?chk (p, 2, v)) [] (p, 2, v)" for p v by (simp add: rd_ok_def dec_rc_def)
  let ?set_typ = "\<lambda>(v :: uint) (p :: batch_request, _ :: uint, ver :: uint). (p, v, ver)"
  let ?set_ver = "\<lambda>(v :: uint) (p :: batch_request, typ :: uint, _ :: uint). (p, typ, v)"
  have ty: "rd_ok (rd_to (disrui ops) ?set_typ (p, 0, 0)) (wire_u 2) (p, 2, 0)" for p
    using rd_ok_to [OF disrui_nat [of 2], of ?set_typ "(p, 0, 0)"] by simp
  have ver: "rd_ok (rd_to (disrui ops) ?set_ver (p, 2, 0)) (wire_u 1) (p, 2, 1)" for p
    using rd_ok_to [OF disrui_nat [of 1], of ?set_ver "(p, 2, 0)"] by simp
  have "rd_ok (decode_DIS_ReqHdr ops (preq, 0, 0)) (concat [wire_u 2, [], wire_u 1, wire_u (unat reqt), wire_cs user])
      (preq\<lparr>rq_type := reqt, rq_user := user\<rparr>, 2, 1)"
    unfolding decode_DIS_ReqHdr_def
    by (rule rd_ok_cong, (rule ty ver chk rd_ok_seq_Cons rd_ok_seq_Nil rd_ok_to disrui_ok get_fst_ok [OF assms] | simp; fail)+)
  then show ?thesis by (simp add: wire_hdr_def)
qed

lemma decode_DIS_ReqExtend_ok:
  assumes "fits STR_LIMIT (opt_str ext)" "rq_extend preq = None"
  shows "rd_ok (decode_DIS_ReqExtend ops preq) (wire_ext ext) (preq\<lparr>rq_extend := ext_read ext\<rparr>)"
proof (cases "opt_str ext = []")
  case True
  have "rd_ok (decode_DIS_ReqExtend ops preq) (concat [wire_u 0]) preq"
    unfolding decode_DIS_ReqExtend_def by (rule rd_ok_let, rule disrui_nat, simp, rule rd_ok_opt_False, simp)
  moreover have "preq\<lparr>rq_extend := None\<rparr> = preq" using assms(2) by (cases preq) simp
  ultimately show ?thesis using True by (simp add: wire_ext_def ext_read_def)
next
  case False
  have "rd_ok (decode_DIS_ReqExtend ops preq) (concat [wire_u 1, wire_cs (opt_str ext)]) (preq\<lparr>rq_extend := Some (opt_str ext)\<rparr>)"
    unfolding decode_DIS_ReqExtend_def
    by (rule rd_ok_let, rule disrui_nat, simp, rule rd_ok_opt_True, simp, rule rd_ok_to, rule get_st_ok [OF assms(1)], simp)
  then show ?thesis using False by (cases ext) (simp_all add: wire_ext_def ext_read_def opt_str_def)
qed

lemma dis_request_read_ok:
  assumes "fits PBS_MAXUSER user" "reqt \<noteq> 59" "rd_ok (decode_body mom mpl fuel neg0 ops reqt) body ind"
    "fits STR_LIMIT (opt_str ext)" "rq_extend preq = None"
  shows "rd_ok (dis_request_read mom mpl fuel neg0 ops preq) (wire_hdr reqt user @ body @ wire_ext ext)
    (preq\<lparr>rq_type := reqt, rq_user := user, rq_extend := ext_read ext, rq_ind := ind\<rparr>)"
proof -
  let ?q = "preq\<lparr>rq_type := reqt, rq_user := user\<rparr>"
  define fin where "fin s = (case decode_body mom mpl fuel neg0 ops reqt s of (rc, ind, s) \<Rightarrow>
      let request = ?q\<lparr>rq_ind := ind\<rparr> in
      if rc = 0 then case decode_DIS_ReqExtend ops request s of (rc, request, s) \<Rightarrow> (if rc \<noteq> 0 then PBSE_DISPROTO else 0, request, s)
      else (if rc \<noteq> PBSE_UNKREQ then PBSE_DISPROTO else rc, request, s))" for s
  have ext: "rd_ok (decode_DIS_ReqExtend ops (?q\<lparr>rq_ind := ind\<rparr>)) (wire_ext ext) (?q\<lparr>rq_ind := ind, rq_extend := ext_read ext\<rparr>)"
    by (rule decode_DIS_ReqExtend_ok [OF assms(4)]) (simp add: assms(5))
  have "rd_ok (\<lambda>s. case decode_DIS_ReqExtend ops (?q\<lparr>rq_ind := ind\<rparr>) s of (rc, request, s) \<Rightarrow>
      (if rc \<noteq> 0 then PBSE_DISPROTO else 0, request, s)) (wire_ext ext) (?q\<lparr>rq_ind := ind, rq_extend := ext_read ext\<rparr>)"
    using ext unfolding rd_ok_def by fastforce
  then have "rd_ok fin (body @ wire_ext ext) (?q\<lparr>rq_ind := ind, rq_extend := ext_read ext\<rparr>)"
    by (rule rd_ok_step [OF assms(3)]) (simp add: fin_def)
  then have "rd_ok (dis_request_read mom mpl fuel neg0 ops preq) (wire_hdr reqt user @ body @ wire_ext ext)
      (?q\<lparr>rq_ind := ind, rq_extend := ext_read ext\<rparr>)"
    by (rule rd_ok_step [OF decode_DIS_ReqHdr_ok [OF assms(1), of preq reqt]]) (simp add: dis_request_read_def fin_def assms(2))
  then show ?thesis by (cases preq) simp
qed

lemma rd_arm_ok: "rd_ok f bs v \<Longrightarrow> rd_ok (rd_arm con f) bs (con v)"
  unfolding rd_ok_def rd_arm_def by fastforce

text \<open>The body the server reads for the requests the client functions send.\<close>

lemma decode_body_ok:
  assumes "fits PBS_MAXSVRJOBID jobid"
  shows "fits PBS_MAXSVRJOBID objname \<Longrightarrow> attr_list_ok wf_attropl l \<Longrightarrow> reqt \<in> {6, 7, 9, 11, 13, 72, 92} \<Longrightarrow>
      rd_ok (decode_body False mpl fuel neg0 ops reqt)
        (concat [wire_u (unat command), wire_u (unat objtype), wire_cs objname, wire_attropls l])
        (Ind_manager \<lparr>mg_cmd = command, mg_objtype = objtype, mg_objname = objname, mg_attr = map attropl_svr l\<rparr>)"
    "fits PBS_SIGNAMESZ sig \<Longrightarrow> rd_ok (decode_body mom mpl fuel neg0 ops 18) (concat [wire_cs jobid, wire_cs sig])
        (Ind_signal \<lparr>sg_jid = jobid, sg_signame = sig\<rparr>)"
    "fits STR_LIMIT msg \<Longrightarrow> rd_ok (decode_body mom mpl fuel neg0 ops 10) (concat [wire_cs jobid, wire_u (unat fo), wire_cs msg])
        (Ind_message \<lparr>ms_file = fo, ms_jid = jobid, ms_text = Some msg\<rparr>)"
    "fits STR_LIMIT nl \<Longrightarrow> rd_ok (decode_body False mpl fuel neg0 ops 90) (concat [wire_cs jobid, wire_cs nl])
        (Ind_relnodes \<lparr>rl_jid = jobid, rl_node_list = Some nl\<rparr>)"
    "carray_ok argv \<Longrightarrow> carray_ok envp \<Longrightarrow> length argv < fuel \<Longrightarrow> length envp < fuel \<Longrightarrow>
      rd_ok (decode_body mom mpl fuel neg0 ops 84) (concat [wire_cs jobid, wire_carray argv, wire_carray envp])
        (Ind_py_spawn \<lparr>py_jid = jobid, py_argv = Some argv, py_envp = Some envp\<rparr>)"
    "length objid \<le> STR_LIMIT \<Longrightarrow> attr_list_ok wf_attropl l \<Longrightarrow> reqt \<in> {19, 20, 21, 58, 71, 81, 82, 83} \<Longrightarrow>
      rd_ok (decode_body False mpl fuel neg0 ops reqt) (concat [wire_cs objid, wire_attropls l])
        (Ind_status \<lparr>st_id = Some objid, st_attr = map attropl_svr l\<rparr>)"
  by (simp_all only: decode_body_eqs rd_arm_ok decode_DIS_Manage_ok decode_job_ok decode_DIS_PySpawn_ok decode_misc_ok assms)

end

section \<open>Every request on every input\<close>

context dis_stream
begin

lemma rd_safe_arm [safe_intro]: "rd_safe f \<Longrightarrow> rd_safe (rd_arm con f)"
  by (rule rd_safe_bind [of f "\<lambda>rc x s. (rc, con x, s)"]) (simp_all add: rd_arm_def rd_safe_const)

lemma rd_safe_ignore [safe_intro]: "rd_safe f \<Longrightarrow> rd_safe (ignore_rc f)"
  by (rule rd_safe_bind [of f "\<lambda>rc x s. (0, x, s)"]) (simp_all add: ignore_rc_def rd_safe_const)

lemma rd_safe_selstat [safe_intro]: "rd_safe (decode_SelStat ops)"
proof -
  have "rd_safe (\<lambda>s. case decode_DIS_svrattrl ops [] s of (rc, rtn, s) \<Rightarrow> (rc, (sel, rtn), s))" for sel :: "svrattrl list"
    by (rule rd_safe_bind [OF rd_safe_svrattrl, of "\<lambda>rc rtn s. (rc, (sel, rtn), s)"]) (simp_all add: rd_safe_const)
  then show ?thesis by (rule rd_safe_bind [OF rd_safe_svrattrl]) (simp add: decode_SelStat_def)
qed

lemma rd_safe_defschreply [safe_intro]: "rd_safe (decode_DefSchReply ops neg0 r)"
  unfolding decode_DefSchReply_def by (intro safe_intro)

lemma rd_safe_body: "rd_safe (decode_body mom mpl fuel neg0 ops t)"
proof -
  have "rd_safe d" if "decode_body_common fuel neg0 ops t = Some d" for d
    using that unfolding decode_body_common_def by (auto split: if_splits intro!: safe_intro)
  moreover have "rd_safe d" if "decode_body_server neg0 ops t = Some d" for d
    using that unfolding decode_body_server_def by (auto split: if_splits intro!: safe_intro)
  moreover have "rd_safe d" if "decode_body_mom mpl neg0 ops t = Some d" for d
    using that unfolding decode_body_mom_def by (auto split: if_splits intro!: safe_intro)
  ultimately show ?thesis
    by (auto simp: decode_body_def rd_safe_const split: option.split)
qed

lemma rd_safe_hdr: "rd_safe (decode_DIS_ReqHdr ops r)"
  unfolding decode_DIS_ReqHdr_def by (intro safe_intro)

lemma rd_safe_ext: "rd_safe (decode_DIS_ReqExtend ops r)"
  unfolding decode_DIS_ReqExtend_def by (intro safe_intro)

lemma rd_safe_request: "rd_safe (dis_request_read mom mpl fuel neg0 ops preq)"
proof -
  have ext: "rd_safe (\<lambda>s. case decode_DIS_ReqExtend ops r s of (rc, request, s) \<Rightarrow> (if rc \<noteq> 0 then PBSE_DISPROTO else 0, request, s))" for r
    by (rule rd_safe_bind [OF rd_safe_ext, of "\<lambda>rc q s. (if rc \<noteq> 0 then PBSE_DISPROTO else 0, q, s)"]) (simp_all add: rd_safe_const)
  define tail where "tail r rc ind = (let request = r\<lparr>rq_ind := ind\<rparr> in
      if rc = 0 then (\<lambda>s. case decode_DIS_ReqExtend ops request s of (rc, request, s) \<Rightarrow> (if rc \<noteq> 0 then PBSE_DISPROTO else 0, request, s))
      else (\<lambda>s. (if rc \<noteq> PBSE_UNKREQ then PBSE_DISPROTO else rc, request, s)))" for r :: batch_request and rc :: int and ind
  have tail: "rd_safe (tail r rc ind)" for r rc ind
    unfolding tail_def Let_def by (simp only: ext rd_safe_const if_split simp_thms)
  have body: "rd_safe (\<lambda>s. case decode_body mom mpl fuel neg0 ops t s of (rc, ind, s) \<Rightarrow> tail r rc ind s)" for t r
    by (rule rd_safe_bind [OF rd_safe_body tail]) simp
  define k where "k rc q = (case q of (request, proto_type, proto_ver) \<Rightarrow>
        if rc \<noteq> 0 then (\<lambda>s. (if rc = DIS_EOF then - 1 else PBSE_DISPROTO, request, s))
        else if sint proto_ver > sint PBS_BATCH_PROT_VER then (\<lambda>s. (PBSE_DISPROTO, request, s))
        else if rq_type request = 59 then (\<lambda>s. (- 1, request, s))
        else (\<lambda>s. case decode_body mom mpl fuel neg0 ops (rq_type request) s of (rc, ind, s) \<Rightarrow> tail request rc ind s))"
    for rc :: int and q :: "batch_request \<times> uint \<times> uint"
  have k: "rd_safe (k rc q)" for rc q
    by (cases q) (simp add: k_def rd_safe_const body)
  have "dis_request_read mom mpl fuel neg0 ops preq s = (case decode_DIS_ReqHdr ops (preq, 0, 0) s of (rc, q, s) \<Rightarrow> k rc q s)" for s
    by (cases "decode_DIS_ReqHdr ops (preq, 0, 0) s") (auto simp: dis_request_read_def k_def tail_def Let_def split: prod.splits)
  then show ?thesis by (rule rd_safe_bind [OF rd_safe_hdr k])
qed

end

section \<open>From client to server\<close>

text \<open>
  A request sent over a fresh or reused channel of the client arrives whole: the client function
  returns 0 and the kernel has the text of header, body and extension; a server that has that
  text waiting on its socket reads the same request, whatever follows.
\<close>

lemma send_request_ok:
  assumes "fd_sized fd st" "tcp_calm fd st" "fits PBS_MAXUSER user" "fits STR_LIMIT (opt_str ext)"
    "tcp_out.wr_ok fd (body (tcp_ops fd)) bs"
  shows "\<exists>st'. send_request strdup_ok fd reqt user body ext st = (0, st') \<and>
    sent st' fd = sent st fd @ wire_hdr reqt user @ bs @ wire_ext ext"
proof -
  note su = DIS_tcp_setup_law [OF assms(1)]
  let ?su = "DIS_tcp_setup (int fd) st"
  have "tcp_out.wr_ok fd (enc_seq [encode_DIS_ReqHdr (tcp_ops fd) reqt user, body (tcp_ops fd), encode_DIS_ReqExtend (tcp_ops fd) ext])
      (concat [wire_hdr reqt user, bs, wire_ext ext])"
    by (intro tcp_out.wr_ok_Cons tcp_out.wr_ok_Nil tcp_out.encode_DIS_ReqHdr_ok tcp_out.encode_DIS_ReqExtend_ok assms)
  then obtain t where t: "enc_seq [encode_DIS_ReqHdr (tcp_ops fd) reqt user, body (tcp_ops fd), encode_DIS_ReqExtend (tcp_ops fd) ext] ?su = (0, t)"
    "tcp_ok fd t" "tcp_calm fd t" "tcp_outp fd t = tcp_outp fd ?su @ concat [wire_hdr reqt user, bs, wire_ext ext]"
    using su assms(2) unfolding tcp_out.wr_ok_def by blast
  obtain r u where f: "DIS_tcp_wflush fd t = (r, u)" by (cases "DIS_tcp_wflush fd t")
  have "r = 0" "sent u fd = tcp_outp fd t" using DIS_tcp_wflush_law [OF t(2) f] t(3) by auto
  then show ?thesis using t(1,4) f su(5) by (simp add: send_request_def Let_def)
qed

lemma read_request_ok:
  assumes "fd_sized fd st" "net_avail (sock_in st fd) = (wire_hdr reqt user @ bs @ wire_ext ext) @ rest"
    "fits PBS_MAXUSER user" "reqt \<noteq> 59" "fits STR_LIMIT (opt_str ext)"
    "tcp_in.rd_ok fd (decode_body mom mpl fuel neg0 (tcp_ops fd) reqt) bs ind"
  shows "\<exists>st'. dis_request_read_tcp mom mpl fuel neg0 fd (alloc_br typ) st =
      (0, \<lparr>rq_type = reqt, rq_user = user, rq_extend = ext_read ext, rq_ind = ind\<rparr>, st') \<and> tcp_ok fd st' \<and> tcp_avail fd st' = rest"
proof -
  note su = DIS_tcp_setup_law [OF assms(1)]
  have "tcp_in.rd_ok fd (dis_request_read mom mpl fuel neg0 (tcp_ops fd) (alloc_br typ)) (wire_hdr reqt user @ bs @ wire_ext ext)
      \<lparr>rq_type = reqt, rq_user = user, rq_extend = ext_read ext, rq_ind = ind\<rparr>"
    using tcp_in.dis_request_read_ok [OF assms(3,4,6,5), of "alloc_br typ"] by (simp add: alloc_br_def)
  then show ?thesis
    using su assms(2) unfolding tcp_in.rd_ok_def dis_request_read_tcp_def by fastforce
qed

text \<open>
  \<open>delivered put get v\<close>: on any usable descriptor whose kernel accepts output, \<open>put\<close>
  returns 0 and hands one message to the kernel; and on any usable descriptor where that message has
  arrived, followed by anything, \<open>get\<close> returns 0 and \<open>v\<close>, and leaves what followed.
\<close>

definition delivered :: "(nat \<Rightarrow> tcp_state enc) \<Rightarrow> (nat \<Rightarrow> tcp_state \<Rightarrow> int \<times> 'v \<times> tcp_state) \<Rightarrow> 'v \<Rightarrow> bool" where
  "delivered put get v \<longleftrightarrow> (\<exists>bs.
     (\<forall>fd st. fd_sized fd st \<and> tcp_calm fd st \<longrightarrow>
        (\<exists>st'. put fd st = (0, st') \<and> sent st' fd = sent st fd @ bs)) \<and>
     (\<forall>fd st rest. fd_sized fd st \<and> net_avail (sock_in st fd) = bs @ rest \<longrightarrow>
        (\<exists>st'. get fd st = (0, v, st') \<and> tcp_ok fd st' \<and> tcp_avail fd st' = rest)))"

lemma request_delivered:
  assumes "fits PBS_MAXUSER user" "reqt \<noteq> 59" "fits STR_LIMIT (opt_str ext)"
    "\<And>fd. tcp_out.wr_ok fd (body (tcp_ops fd)) bs"
    "\<And>fd. tcp_in.rd_ok fd (decode_body mom mpl fuel neg0 (tcp_ops fd) reqt) bs ind"
  shows "delivered (\<lambda>fd. send_request strdup_ok fd reqt user body ext)
    (\<lambda>fd. dis_request_read_tcp mom mpl fuel neg0 fd (alloc_br t0))
    \<lparr>rq_type = reqt, rq_user = user, rq_extend = ext_read ext, rq_ind = ind\<rparr>"
  unfolding delivered_def
proof (intro exI [of _ "wire_hdr reqt user @ bs @ wire_ext ext"] conjI allI impI; elim conjE)
  fix fd st assume "fd_sized fd st" "tcp_calm fd st"
  then show "\<exists>st'. send_request strdup_ok fd reqt user body ext st = (0, st') \<and>
      sent st' fd = sent st fd @ wire_hdr reqt user @ bs @ wire_ext ext"
    using send_request_ok [where fd = fd and st = st and body = body and bs = bs] assms(1,3,4) by blast
next
  fix fd st rest assume "fd_sized fd st" "net_avail (sock_in st fd) = (wire_hdr reqt user @ bs @ wire_ext ext) @ rest"
  then show "\<exists>st'. dis_request_read_tcp mom mpl fuel neg0 fd (alloc_br t0) st =
      (0, \<lparr>rq_type = reqt, rq_user = user, rq_extend = ext_read ext, rq_ind = ind\<rparr>, st') \<and> tcp_ok fd st' \<and> tcp_avail fd st' = rest"
    using read_request_ok [where fd = fd and st = st and bs = bs and ind = ind] assms(1,2,3,5) by blast
qed

end
