(* ===== verification/Reply_Wire.thy ===== *)
theory Reply_Wire
  imports Dis_Request
begin

text \<open>
  Batch replies: \<open>encode_DIS_reply\<close> (\<open>enc_reply.c\<close>), the decoder of commands
  (\<open>decode_DIS_replyCmd\<close>, \<open>dec_rpyc.c\<close>) and that of servers
  (\<open>decode_DIS_replySvr\<close>, \<open>src/src/server/dis_read.c\<close>). \<open>brp_choice\<close> is the
  discriminator of the union \<open>brp_un\<close>; the union's arms are constructors, and an arm read
  under another choice is empty.
\<close>

section \<open>Data\<close>

record brp_status =
  bs_objtype :: uint
  bs_objname :: string
  bs_attr :: "svrattrl list"

record brp_cmdstat =
  bc_objtype :: uint
  bc_objname :: string
  bc_attrl :: "attropl list"

record brp_rescq =
  brq_number :: uint
  brq_avail :: "uint list"
  brq_alloc :: "uint list"
  brq_resvd :: "uint list"
  brq_down :: "uint list"

datatype brp_un =
    Brp_none
  | Brp_jid string
  | Brp_select "string list"
  | Brp_status "brp_status list"
  | Brp_statc "brp_cmdstat list"
  | Brp_txt "string option" nat
  | Brp_locate string
  | Brp_rescq brp_rescq

record batch_reply =
  brp_code :: uint
  brp_auxcode :: uint
  brp_choice :: uint
  brp_union :: brp_un

abbreviation CHOICE_NULL :: uint where "CHOICE_NULL \<equiv> 1"
abbreviation CHOICE_Queue :: uint where "CHOICE_Queue \<equiv> 2"
abbreviation CHOICE_RdytoCom :: uint where "CHOICE_RdytoCom \<equiv> 3"
abbreviation CHOICE_Commit :: uint where "CHOICE_Commit \<equiv> 4"
abbreviation CHOICE_Select :: uint where "CHOICE_Select \<equiv> 5"
abbreviation CHOICE_Status :: uint where "CHOICE_Status \<equiv> 6"
abbreviation CHOICE_Text :: uint where "CHOICE_Text \<equiv> 7"
abbreviation CHOICE_Locate :: uint where "CHOICE_Locate \<equiv> 8"
abbreviation CHOICE_RescQuery :: uint where "CHOICE_RescQuery \<equiv> 9"

fun un_jid :: "brp_un \<Rightarrow> string" where "un_jid (Brp_jid s) = s" | "un_jid _ = []"
fun un_select :: "brp_un \<Rightarrow> string list" where "un_select (Brp_select l) = l" | "un_select _ = []"
fun un_status :: "brp_un \<Rightarrow> brp_status list" where "un_status (Brp_status l) = l" | "un_status _ = []"
fun un_txt :: "brp_un \<Rightarrow> string \<times> nat" where "un_txt (Brp_txt s n) = (opt_str s, n)" | "un_txt _ = ([], 0)"
fun un_locate :: "brp_un \<Rightarrow> string" where "un_locate (Brp_locate s) = s" | "un_locate _ = []"

definition zero_rescq :: brp_rescq where
  "zero_rescq = \<lparr>brq_number = 0, brq_avail = [], brq_alloc = [], brq_resvd = [], brq_down = []\<rparr>"

fun un_rescq :: "brp_un \<Rightarrow> brp_rescq" where "un_rescq (Brp_rescq r) = r" | "un_rescq _ = zero_rescq"

section \<open>Encoding\<close>

definition enc_status :: "'s dis_ops \<Rightarrow> brp_status \<Rightarrow> 's enc" where
  "enc_status ops p = enc_seq [put_ui ops (bs_objtype p), put_st ops (bs_objname p), encode_DIS_svrattrl ops (bs_attr p)]"

text \<open>The four loops over \<open>brq_avail\<close> and the others run for \<open>brq_number\<close> entries.\<close>

definition enc_ints :: "'s dis_ops \<Rightarrow> uint \<Rightarrow> uint list \<Rightarrow> 's enc" where
  "enc_ints ops ct l = enc_seq (map (\<lambda>i. put_ui ops (l ! i)) [0..<loop_count ct])"

definition encode_DIS_reply_un :: "'s dis_ops \<Rightarrow> uint \<Rightarrow> brp_un \<Rightarrow> 's enc" where
  "encode_DIS_reply_un ops choice un =
     (if choice = CHOICE_NULL then (\<lambda>s. (0, s))
      else if choice \<in> {CHOICE_Queue, CHOICE_RdytoCom, CHOICE_Commit} then put_st ops (un_jid un)
      else if choice = CHOICE_Select then
        enc_seq (put_ui ops (of_nat (length (un_select un))) # map (put_st ops) (un_select un))
      else if choice = CHOICE_Status then
        enc_seq (put_ui ops (of_nat (length (un_status un))) # map (enc_status ops) (un_status un))
      else if choice = CHOICE_Text then put_cs ops (fst (un_txt un)) (snd (un_txt un))
      else if choice = CHOICE_Locate then put_st ops (un_locate un)
      else if choice = CHOICE_RescQuery then
        let q = un_rescq un; ct = brq_number q in
        enc_seq [put_ui ops ct, enc_ints ops ct (brq_avail q), enc_ints ops ct (brq_alloc q), enc_ints ops ct (brq_resvd q),
                 enc_ints ops ct (brq_down q)]
      else (\<lambda>s. (- 1, s)))"

definition encode_DIS_reply_inner :: "'s dis_ops \<Rightarrow> batch_reply \<Rightarrow> 's enc" where
  "encode_DIS_reply_inner ops reply =
     enc_seq [put_si ops (brp_code reply), put_si ops (brp_auxcode reply), put_ui ops (brp_choice reply),
              encode_DIS_reply_un ops (brp_choice reply) (brp_union reply)]"

definition encode_DIS_reply :: "'s dis_ops \<Rightarrow> batch_reply \<Rightarrow> 's enc" where
  "encode_DIS_reply ops reply =
     enc_seq [put_ui ops PBS_BATCH_PROT_TYPE, put_ui ops PBS_BATCH_PROT_VER, encode_DIS_reply_inner ops reply]"

section \<open>Decoding\<close>

text \<open>The parts the two decoders share: the header and a list of job identifiers.\<close>

definition rd_const :: "'s dis_ops \<Rightarrow> uint \<Rightarrow> ('s, 'r) dec" where
  "rd_const ops c = rd_let (disrui ops) (\<lambda>i. if i \<noteq> c then dec_rc DIS_PROTO else dec_rc 0)"

definition dec_reply_head :: "'s dis_ops \<Rightarrow> bool \<Rightarrow> ('s, batch_reply) dec" where
  "dec_reply_head ops neg0 = dec_seq
     [rd_to (disrsi ops neg0) (\<lambda>v. brp_code_update (\<lambda>_. v)),
      rd_to (disrsi ops neg0) (\<lambda>v. brp_auxcode_update (\<lambda>_. v)),
      rd_to (disrui ops) (\<lambda>v. brp_choice_update (\<lambda>_. v))]"

definition dec_select_item :: "'s dis_ops \<Rightarrow> ('s, string list) dec" where
  "dec_select_item ops l s =
     (case c_malloc ops s 280 of (ok, s) \<Rightarrow>
        if \<not> ok then (DIS_NOMALLOC, l, s)
        else case rd_fst ops (PBS_MAXSVRJOBID + 1) (\<lambda>v _. v) [] s of (rc, jid, s) \<Rightarrow>
          if rc \<noteq> 0 then (rc, l, s) else (0, l @ [jid], s))"

definition dec_select :: "'s dis_ops \<Rightarrow> 's \<Rightarrow> int \<times> string list \<times> 's" where
  "dec_select ops = rd_let (disrui ops) (\<lambda>ct. dec_seq (replicate (unat ct) (dec_select_item ops))) []"

definition dec_stat_head :: "'s dis_ops \<Rightarrow> 's \<Rightarrow> int \<times> (uint \<times> string) \<times> 's" where
  "dec_stat_head ops = dec_seq
     [rd_to (disrui ops) (\<lambda>v (_, n). (v, n)), rd_fst ops (PBS_MAXSVRJOBID + 1) (\<lambda>v (t, _). (t, v))] (0, [])"

definition dec_cmdstat_item :: "'s dis_ops \<Rightarrow> ('s, brp_cmdstat list) dec" where
  "dec_cmdstat_item ops l s =
     (case c_malloc ops s 296 of (ok, s) \<Rightarrow>
        if \<not> ok then (DIS_NOMALLOC, l, s)
        else case rd_let (dec_stat_head ops)
            (\<lambda>(t, n). rd_to (decode_DIS_attrl ops) (\<lambda>a _. \<lparr>bc_objtype = t, bc_objname = n, bc_attrl = fst a\<rparr>))
            \<lparr>bc_objtype = 0, bc_objname = [], bc_attrl = []\<rparr> s of (rc, pst, s) \<Rightarrow>
          if rc \<noteq> 0 then (rc, l, s) else (0, l @ [pst], s))"

text \<open>In the server's loop the status of \<open>decode_DIS_svrattrl\<close> is not tested before the next object.\<close>

fun dec_status_loop :: "nat \<Rightarrow> 's dis_ops \<Rightarrow> int \<Rightarrow> ('s, brp_status list) dec" where
  "dec_status_loop 0 ops rc l s = (rc, l, s)"
| "dec_status_loop (Suc ct) ops rc l s =
     (case c_malloc ops s 328 of (ok, s) \<Rightarrow>
        if \<not> ok then (DIS_NOMALLOC, l, s)
        else case dec_stat_head ops s of (rc, (t, n), s) \<Rightarrow>
          if rc \<noteq> 0 then (rc, l, s)
          else case decode_DIS_svrattrl ops [] s of (rc, attr, s) \<Rightarrow>
            dec_status_loop ct ops rc (l @ [\<lparr>bs_objtype = t, bs_objname = n, bs_attr = attr\<rparr>]) s)"

text \<open>
  Resource query replies, read by commands only: four arrays of \<open>ct\<close> integers are allocated
  and filled until a read fails.
\<close>

definition dec_ints :: "'s dis_ops \<Rightarrow> uint \<Rightarrow> (uint \<Rightarrow> brp_rescq \<Rightarrow> brp_rescq) \<Rightarrow> ('s, brp_rescq) dec" where
  "dec_ints ops ct upd = dec_seq (replicate (loop_count ct) (rd_to (disrui ops) upd))"

definition dec_alloc :: "'s dis_ops \<Rightarrow> nat \<Rightarrow> ('s, 'r) dec" where
  "dec_alloc ops n r s = (case c_malloc ops s n of (ok, s) \<Rightarrow> (if \<not> ok then DIS_NOMALLOC else 0, r, s))"

definition dec_rescq :: "'s dis_ops \<Rightarrow> ('s, brp_rescq) dec" where
  "dec_rescq ops = rd_let (disrui ops) (\<lambda>ct. dec_seq (
     let sz = unat (of_int (sint ct) * 4 :: ulong) in
     [dec_set (brq_number_update (\<lambda>_. ct)), dec_alloc ops sz, dec_alloc ops sz, dec_alloc ops sz, dec_alloc ops sz,
      dec_ints ops ct (\<lambda>v. brq_avail_update (\<lambda>l. l @ [v])), dec_ints ops ct (\<lambda>v. brq_alloc_update (\<lambda>l. l @ [v])),
      dec_ints ops ct (\<lambda>v. brq_resvd_update (\<lambda>l. l @ [v])), dec_ints ops ct (\<lambda>v. brq_down_update (\<lambda>l. l @ [v]))]))"

definition rd_un :: "('a \<Rightarrow> brp_un) \<Rightarrow> ('s \<Rightarrow> int \<times> 'a \<times> 's) \<Rightarrow> ('s, batch_reply) dec" where
  "rd_un con f = rd_to f (\<lambda>v. brp_union_update (\<lambda>_. con v))"

text \<open>
  The command's decoder. For the job identifiers of Queue, RdytoCommit and Commit the result of
  \<open>disrfst\<close> is dropped: \<open>rc\<close> is still that of the choice.
\<close>

definition decode_DIS_replyCmd :: "'s dis_ops \<Rightarrow> bool \<Rightarrow> ('s, batch_reply) dec" where
  "decode_DIS_replyCmd ops neg0 = dec_seq
     [rd_const ops PBS_BATCH_PROT_TYPE, rd_const ops PBS_BATCH_PROT_VER, dec_reply_head ops neg0,
      (\<lambda>r. (let c = brp_choice r in
        if c = CHOICE_NULL then dec_rc 0
        else if c \<in> {CHOICE_Queue, CHOICE_RdytoCom, CHOICE_Commit} then
          rd_un Brp_jid (ignore_rc (rd_fst ops (PBS_MAXSVRJOBID + 1) (\<lambda>v _. v) []))
        else if c = CHOICE_Select then rd_un Brp_select (dec_select ops)
        else if c = CHOICE_Status then
          rd_un Brp_statc (rd_let (disrui ops) (\<lambda>ct. dec_seq (replicate (unat ct) (dec_cmdstat_item ops))) [])
        else if c = CHOICE_Text then rd_un (\<lambda>(str, n). Brp_txt str n) (disrcs ops neg0)
        else if c = CHOICE_Locate then rd_un Brp_locate (rd_fst ops (PBS_MAXDEST + 1) (\<lambda>v _. v) [])
        else if c = CHOICE_RescQuery then rd_un Brp_rescq (dec_rescq ops zero_rescq)
        else dec_rc (- 1)) r)]"

definition decode_DIS_replySvr_inner :: "'s dis_ops \<Rightarrow> bool \<Rightarrow> ('s, batch_reply) dec" where
  "decode_DIS_replySvr_inner ops neg0 = dec_seq
     [dec_reply_head ops neg0,
      (\<lambda>r. (let c = brp_choice r in
        if c = CHOICE_NULL then dec_rc 0
        else if c \<in> {CHOICE_Queue, CHOICE_RdytoCom, CHOICE_Commit} then
          rd_un Brp_jid (rd_fst ops (PBS_MAXSVRJOBID + 1) (\<lambda>v _. v) [])
        else if c = CHOICE_Select then rd_un Brp_select (dec_select ops)
        else if c = CHOICE_Status then rd_un Brp_status (rd_let (disrui ops) (\<lambda>ct. dec_status_loop (unat ct) ops 0) [])
        else if c = CHOICE_Text then rd_un (\<lambda>(str, n). Brp_txt str n) (disrcs ops neg0)
        else if c = CHOICE_Locate then rd_un Brp_locate (rd_fst ops (PBS_MAXDEST + 1) (\<lambda>v _. v) [])
        else dec_rc (- 1)) r)]"

definition decode_DIS_replySvr :: "'s dis_ops \<Rightarrow> bool \<Rightarrow> ('s, batch_reply) dec" where
  "decode_DIS_replySvr ops neg0 = dec_seq
     [rd_const ops PBS_BATCH_PROT_TYPE, rd_const ops PBS_BATCH_PROT_VER, decode_DIS_replySvr_inner ops neg0]"

definition DIS_reply_read :: "bool \<Rightarrow> nat \<Rightarrow> (tcp_state, batch_reply) dec" where
  "DIS_reply_read neg0 fd reply st = decode_DIS_replySvr (tcp_ops fd) neg0 reply (DIS_tcp_setup (int fd) st)"

section \<open>What is written is what is read\<close>

definition wire_status :: "brp_status \<Rightarrow> string" where
  "wire_status p = concat [wire_u (unat (bs_objtype p)), wire_cs (bs_objname p), wire_attropls (map svr_attropl (bs_attr p))]"

definition wf_status :: "brp_status \<Rightarrow> bool" where
  "wf_status p \<longleftrightarrow> fits PBS_MAXSVRJOBID (bs_objname p) \<and> attr_list_ok wf_svrattrl (bs_attr p)"

definition wire_ints :: "uint list \<Rightarrow> string" where
  "wire_ints l = concat (map (\<lambda>v. wire_u (unat v)) l)"

definition wf_rescq :: "brp_rescq \<Rightarrow> bool" where
  "wf_rescq q \<longleftrightarrow> loop_count (brq_number q) = length (brq_avail q) \<and> length (brq_alloc q) = length (brq_avail q) \<and>
     length (brq_resvd q) = length (brq_avail q) \<and> length (brq_down q) = length (brq_avail q)"

text \<open>A choice together with its arm of the union, its text, and what commands and servers read from
  it; a null reply leaves the union \<open>un0\<close> of the reader's structure alone.\<close>

inductive reply_form :: "brp_un \<Rightarrow> uint \<Rightarrow> brp_un \<Rightarrow> string \<Rightarrow> brp_un \<Rightarrow> brp_un \<Rightarrow> bool" for un0 where
  form_null: "reply_form un0 CHOICE_NULL un [] un0 un0"
| form_jid: "c \<in> {CHOICE_Queue, CHOICE_RdytoCom, CHOICE_Commit} \<Longrightarrow> fits PBS_MAXSVRJOBID jid \<Longrightarrow>
    reply_form un0 c (Brp_jid jid) (wire_cs jid) (Brp_jid jid) (Brp_jid jid)"
| form_select: "length l < 4294967296 \<Longrightarrow> (\<forall>x \<in> set l. fits PBS_MAXSVRJOBID x) \<Longrightarrow>
    reply_form un0 CHOICE_Select (Brp_select l) (concat (wire_u (length l) # map wire_cs l)) (Brp_select l) (Brp_select l)"
| form_status: "length l < 4294967296 \<Longrightarrow> (\<forall>x \<in> set l. wf_status x) \<Longrightarrow>
    reply_form un0 CHOICE_Status (Brp_status l) (concat (wire_u (length l) # map wire_status l))
      (Brp_statc (map (\<lambda>p. \<lparr>bc_objtype = bs_objtype p, bc_objname = bs_objname p, bc_attrl = map svr_attropl (bs_attr p)\<rparr>) l))
      (Brp_status (map (bs_attr_update (map (attropl_svr \<circ> svr_attropl))) l))"
| form_text: "length tx \<le> STR_LIMIT \<Longrightarrow>
    reply_form un0 CHOICE_Text (Brp_txt (Some tx) (length tx)) (wire_cs tx) (Brp_txt (Some tx) (length tx)) (Brp_txt (Some tx) (length tx))"
| form_locate: "fits PBS_MAXDEST loc \<Longrightarrow> reply_form un0 CHOICE_Locate (Brp_locate loc) (wire_cs loc) (Brp_locate loc) (Brp_locate loc)"

lemma attr_list_ok_svr: "attr_list_ok wf_svrattrl l \<Longrightarrow> attr_list_ok wf_attropl (map svr_attropl l)"
  by (auto simp: attr_list_ok_def wf_svrattrl_def wf_attropl_def svr_attropl_def)

context dis_sink
begin

lemma put_list_ok:
  assumes "length l < 4294967296" "\<And>x. x \<in> set l \<Longrightarrow> wr_ok (f x) (g x)"
  shows "wr_ok (enc_seq (put_ui ops (of_nat (length l)) # map f l)) (concat (wire_u (length l) # map g l))"
  by (rule wr_ok_Cons [OF put_ui_nat [OF assms(1)] wr_ok_map [OF assms(2)]])

lemma enc_status_ok: "wf_status p \<Longrightarrow> wr_ok (enc_status ops p) (wire_status p)"
  unfolding enc_status_def wire_status_def wf_status_def
  by (elim conjE) (rule msg_intro | assumption | simp; fail)+

lemma encode_DIS_reply_un_ok:
  assumes "reply_form un0 c un bs cmd svr"
  shows "wr_ok (encode_DIS_reply_un ops c un) bs"
  using assms
proof cases
  case form_null
  then show ?thesis by (simp add: encode_DIS_reply_un_def wr_ok_def)
next
  case (form_jid jid)
  then show ?thesis using put_st_ok [of PBS_MAXSVRJOBID jid] by (auto simp: encode_DIS_reply_un_def)
next
  case (form_select l)
  then have "wr_ok (put_st ops x) (wire_cs x)" if "x \<in> set l" for x
    using that put_st_ok [of PBS_MAXSVRJOBID x] by simp
  then show ?thesis using form_select put_list_ok [of l "put_st ops" wire_cs]
    by (simp add: encode_DIS_reply_un_def del: enc_seq.simps concat.simps)
next
  case (form_status l)
  then show ?thesis using put_list_ok [of l "enc_status ops" wire_status] enc_status_ok
    by (simp add: encode_DIS_reply_un_def del: enc_seq.simps concat.simps)
next
  case (form_text tx)
  then show ?thesis using put_cs_ok [of tx "length tx"] by (simp add: encode_DIS_reply_un_def opt_str_def)
next
  case (form_locate loc)
  then show ?thesis using put_st_ok [of PBS_MAXDEST loc] by (simp add: encode_DIS_reply_un_def)
qed

lemma encode_DIS_reply_ok:
  assumes "reply_form un0 (brp_choice r) (brp_union r) bs cmd svr"
  shows "wr_ok (encode_DIS_reply ops r) (concat [wire_u 2, wire_u 1, concat [wire_s (sint (brp_code r)), wire_s (sint (brp_auxcode r)),
      wire_u (unat (brp_choice r)), bs]])"
  unfolding encode_DIS_reply_def encode_DIS_reply_inner_def
  using put_ui_nat [of 2] put_ui_nat [of 1]
  by (intro wr_ok_Cons wr_ok_Nil diswsi_ok diswui_ok encode_DIS_reply_un_ok [OF assms]) simp_all

end

context dis_source
begin

lemma rd_un_ok: "rd_ok f bs v \<Longrightarrow> rd_ok (rd_un con f r) bs (r\<lparr>brp_union := con v\<rparr>)"
  unfolding rd_un_def by (rule rd_ok_to)

lemma rd_ok_ignore: "rd_ok f bs v \<Longrightarrow> rd_ok (ignore_rc f) bs v"
  unfolding rd_ok_def ignore_rc_def by fastforce

lemma rd_const_ok: "c = of_nat n \<Longrightarrow> n < 4294967296 \<Longrightarrow> rd_ok (rd_const ops c r) (wire_u n) r"
proof -
  assume "c = of_nat n" "n < 4294967296"
  then have "rd_ok ((if of_nat n \<noteq> c then dec_rc DIS_PROTO else dec_rc 0) r) (concat []) r" by (simp add: rd_ok_def dec_rc_def)
  then have "rd_ok (rd_const ops c r) (concat [wire_u n]) r"
    unfolding rd_const_def by (intro rd_ok_let [OF disrui_nat [OF \<open>n < 4294967296\<close>]])
  then show ?thesis by simp
qed

lemma rd_list_ok:
  assumes "length l < 4294967296" "\<And>x r. x \<in> set l \<Longrightarrow> rd_ok (d r) (g x) (r @ [h x])"
  shows "rd_ok (rd_let (disrui ops) (\<lambda>ct. dec_seq (replicate (unat ct) d)) []) (concat (wire_u (length l) # map g l)) (map h l)"
proof -
  have n: "unat (of_nat (length l) :: uint) = length l" using assms(1) by (simp add: unat_of_nat_small)
  have "rd_ok (dec_seq (replicate (length l) d) []) (concat (map g l)) (fold (\<lambda>x r. r @ [h x]) l [])"
    by (rule rd_ok_loop) (rule assms(2))
  then show ?thesis
    by (intro rd_ok_let [OF disrui_nat [OF assms(1)]]) (simp add: n fold_append_map)
qed

lemma dec_select_item_ok: "fits PBS_MAXSVRJOBID x \<Longrightarrow> rd_ok (dec_select_item ops l) (wire_cs x) (l @ [x])"
  by (rule rd_ok_alloc [where n = 280 and e = l and g = "\<lambda>x. l @ [x]", OF get_fst_ok [of PBS_MAXSVRJOBID x "PBS_MAXSVRJOBID + 1" "\<lambda>v _. v" "[]"]])
    (simp_all add: dec_select_item_def)

lemma dec_stat_head_ok:
  "fits PBS_MAXSVRJOBID n \<Longrightarrow> rd_ok (dec_stat_head ops) (concat [wire_u (unat t), wire_cs n]) (t, n)"
  unfolding dec_stat_head_def by (rule rd_ok_cong, (rule msg_intro | assumption | simp; fail)+)

lemma dec_cmdstat_item_ok:
  assumes "wf_status p"
  shows "rd_ok (dec_cmdstat_item ops l) (wire_status p)
    (l @ [\<lparr>bc_objtype = bs_objtype p, bc_objname = bs_objname p, bc_attrl = map svr_attropl (bs_attr p)\<rparr>])"
proof -
  have f: "fits PBS_MAXSVRJOBID (bs_objname p)" "attr_list_ok wf_attropl (map svr_attropl (bs_attr p))"
    using assms attr_list_ok_svr by (simp_all add: wf_status_def)
  let ?r = "\<lparr>bc_objtype = bs_objtype p, bc_objname = bs_objname p, bc_attrl = map svr_attropl (bs_attr p)\<rparr>"
  let ?k = "\<lambda>(t, n). rd_to (decode_DIS_attrl ops) (\<lambda>a _. \<lparr>bc_objtype = t, bc_objname = n, bc_attrl = fst a\<rparr>)"
  have "rd_ok (?k (bs_objtype p, bs_objname p) r0) (wire_attropls (map svr_attropl (bs_attr p))) ?r" for r0 :: brp_cmdstat
    using rd_ok_to [OF decode_DIS_attrl_ok [OF f(2)], of "\<lambda>a _. \<lparr>bc_objtype = bs_objtype p, bc_objname = bs_objname p, bc_attrl = fst a\<rparr>" r0] by simp
  then have "rd_ok (rd_let (dec_stat_head ops) ?k r0)
      (concat [concat [wire_u (unat (bs_objtype p)), wire_cs (bs_objname p)], wire_attropls (map svr_attropl (bs_attr p))]) ?r" for r0
    by (intro rd_ok_let [OF dec_stat_head_ok [OF f(1)]]) simp
  then have "rd_ok (rd_let (dec_stat_head ops) ?k \<lparr>bc_objtype = 0, bc_objname = [], bc_attrl = []\<rparr>) (wire_status p) ?r"
    by (simp add: wire_status_def)
  then show ?thesis
    by (rule rd_ok_alloc [where n = 296 and e = l and g = "\<lambda>x. l @ [x]"]) (simp add: dec_cmdstat_item_def)
qed

lemma dec_status_loop_ok:
  assumes "\<forall>x \<in> set l. wf_status x"
  shows "rd_ok (dec_status_loop (length l) ops 0 a) (concat (map wire_status l)) (a @ map (bs_attr_update (map (attropl_svr \<circ> svr_attropl))) l)"
  using assms
proof (induction l arbitrary: a)
  case Nil
  then show ?case by (simp add: rd_ok_def)
next
  case (Cons p l)
  have f: "fits PBS_MAXSVRJOBID (bs_objname p)" "attr_list_ok wf_attropl (map svr_attropl (bs_attr p))"
    using Cons.prems attr_list_ok_svr by (simp_all add: wf_status_def)
  let ?a = "map attropl_svr (map svr_attropl (bs_attr p))"
  let ?p = "\<lparr>bs_objtype = bs_objtype p, bs_objname = bs_objname p, bs_attr = ?a\<rparr>"
  have p: "?p = bs_attr_update (map (attropl_svr \<circ> svr_attropl)) p" by (cases p) simp
  define k1 where "k1 s = (case decode_DIS_svrattrl ops [] s of (rc, attr, s) \<Rightarrow>
      dec_status_loop (length l) ops rc (a @ [\<lparr>bs_objtype = bs_objtype p, bs_objname = bs_objname p, bs_attr = attr\<rparr>]) s)" for s
  have "rd_ok (decode_DIS_svrattrl ops []) (wire_attropls (map svr_attropl (bs_attr p))) ?a"
    using decode_DIS_svrattrl_ok [OF f(2), of "[]"] by simp
  moreover have "rd_ok (dec_status_loop (length l) ops 0 (a @ [?p])) (concat (map wire_status l))
      ((a @ [?p]) @ map (bs_attr_update (map (attropl_svr \<circ> svr_attropl))) l)"
    by (rule Cons.IH) (use Cons.prems in simp)
  ultimately have "rd_ok k1 (wire_attropls (map svr_attropl (bs_attr p)) @ concat (map wire_status l))
      ((a @ [?p]) @ map (bs_attr_update (map (attropl_svr \<circ> svr_attropl))) l)"
    by (rule rd_ok_step) (simp add: k1_def)
  then have "rd_ok (\<lambda>s. case dec_stat_head ops s of (rc, (t, n), s) \<Rightarrow> if rc \<noteq> 0 then (rc, a, s)
          else case decode_DIS_svrattrl ops [] s of (rc, attr, s) \<Rightarrow>
            dec_status_loop (length l) ops rc (a @ [\<lparr>bs_objtype = t, bs_objname = n, bs_attr = attr\<rparr>]) s)
      (concat [wire_u (unat (bs_objtype p)), wire_cs (bs_objname p)] @ wire_attropls (map svr_attropl (bs_attr p)) @ concat (map wire_status l))
      ((a @ [?p]) @ map (bs_attr_update (map (attropl_svr \<circ> svr_attropl))) l)"
    by (rule rd_ok_step [OF dec_stat_head_ok [OF f(1), of "bs_objtype p"]]) (simp add: k1_def)
  note loop = rd_ok_malloc [OF this, where n = 328 and e = "\<lambda>s. (DIS_NOMALLOC, a, s)"]
  have eq: "dec_status_loop (length (p # l)) ops 0 a = (\<lambda>s. case c_malloc ops s 328 of (ok, t) \<Rightarrow> if \<not> ok then (DIS_NOMALLOC, a, t)
      else case dec_stat_head ops t of (rc, (t, n), s) \<Rightarrow> if rc \<noteq> 0 then (rc, a, s)
          else case decode_DIS_svrattrl ops [] s of (rc, attr, s) \<Rightarrow>
            dec_status_loop (length l) ops rc (a @ [\<lparr>bs_objtype = t, bs_objname = n, bs_attr = attr\<rparr>]) s)"
    by (simp add: fun_eq_iff)
  have bs: "concat (map wire_status (p # l)) = concat [wire_u (unat (bs_objtype p)), wire_cs (bs_objname p)] @
      wire_attropls (map svr_attropl (bs_attr p)) @ concat (map wire_status l)"
    by (simp add: wire_status_def [of p])
  have res: "a @ map (bs_attr_update (map (attropl_svr \<circ> svr_attropl))) (p # l) =
      (a @ [?p]) @ map (bs_attr_update (map (attropl_svr \<circ> svr_attropl))) l"
    unfolding p by simp
  show ?case unfolding eq bs res by (rule loop)
qed

lemma dec_reply_head_ok:
  "rd_ok (dec_reply_head ops neg0 r) (concat [wire_s (sint code), wire_s (sint aux), wire_u (unat choice)])
    (r\<lparr>brp_code := code, brp_auxcode := aux, brp_choice := choice\<rparr>)"
  unfolding dec_reply_head_def by (rule rd_ok_cong, (rule msg_intro | simp; fail)+)

lemmas get_jid_ok = get_fst_ok [where achars = "PBS_MAXSVRJOBID + 1" and upd = "\<lambda>v _. v" and r = "[]"]
lemmas get_dest_ok = get_fst_ok [where achars = "PBS_MAXDEST + 1" and upd = "\<lambda>v _. v" and r = "[]"]

lemma dec_select_ok:
  assumes "length l < 4294967296" "\<forall>x \<in> set l. fits PBS_MAXSVRJOBID x"
  shows "rd_ok (dec_select ops) (concat (wire_u (length l) # map wire_cs l)) l"
  using rd_list_ok [of l "dec_select_item ops" wire_cs "\<lambda>x. x"] assms dec_select_item_ok
  by (simp add: dec_select_def del: concat.simps)

lemma dec_status_ok:
  assumes "length l < 4294967296" "\<forall>x \<in> set l. wf_status x"
  shows "rd_ok (rd_let (disrui ops) (\<lambda>ct. dec_status_loop (unat ct) ops 0) []) (concat (wire_u (length l) # map wire_status l))
    (map (bs_attr_update (map (attropl_svr \<circ> svr_attropl))) l)"
  using dec_status_loop_ok [OF assms(2), of "[]"] assms(1)
  by (intro rd_ok_let [OF disrui_nat [OF assms(1)]]) (simp add: unat_of_nat_small)

lemma dec_cmdstats_ok:
  assumes "length l < 4294967296" "\<forall>x \<in> set l. wf_status x"
  shows "rd_ok (rd_let (disrui ops) (\<lambda>ct. dec_seq (replicate (unat ct) (dec_cmdstat_item ops))) [])
    (concat (wire_u (length l) # map wire_status l))
    (map (\<lambda>p. \<lparr>bc_objtype = bs_objtype p, bc_objname = bs_objname p, bc_attrl = map svr_attropl (bs_attr p)\<rparr>) l)"
  by (rule rd_list_ok [OF assms(1)], rule dec_cmdstat_item_ok) (use assms(2) in blast)

text \<open>The union part, as commands and as servers read it.\<close>

lemma dec_cmd_un_ok:
  assumes "reply_form un0 c un bs cmd svr" "brp_union r = un0" "brp_choice r = c"
  shows "rd_ok ((let c = brp_choice r in
        if c = CHOICE_NULL then dec_rc 0
        else if c \<in> {CHOICE_Queue, CHOICE_RdytoCom, CHOICE_Commit} then
          rd_un Brp_jid (ignore_rc (rd_fst ops (PBS_MAXSVRJOBID + 1) (\<lambda>v _. v) []))
        else if c = CHOICE_Select then rd_un Brp_select (dec_select ops)
        else if c = CHOICE_Status then
          rd_un Brp_statc (rd_let (disrui ops) (\<lambda>ct. dec_seq (replicate (unat ct) (dec_cmdstat_item ops))) [])
        else if c = CHOICE_Text then rd_un (\<lambda>(str, n). Brp_txt str n) (disrcs ops neg0)
        else if c = CHOICE_Locate then rd_un Brp_locate (rd_fst ops (PBS_MAXDEST + 1) (\<lambda>v _. v) [])
        else if c = CHOICE_RescQuery then rd_un Brp_rescq (dec_rescq ops zero_rescq)
        else dec_rc (- 1)) r) bs (r\<lparr>brp_union := cmd\<rparr>)"
  using assms(1)
proof cases
  case form_null
  moreover have "r\<lparr>brp_union := un0\<rparr> = r" using assms(2) by (cases r) simp
  ultimately show ?thesis using assms(3) by (simp add: rd_ok_def dec_rc_def)
next
  case (form_jid jid)
  then have "rd_ok (rd_un Brp_jid (ignore_rc (rd_fst ops (PBS_MAXSVRJOBID + 1) (\<lambda>v _. v) [])) r) (wire_cs jid) (r\<lparr>brp_union := Brp_jid jid\<rparr>)"
    by (intro rd_un_ok rd_ok_ignore get_jid_ok [of PBS_MAXSVRJOBID]) simp_all
  then show ?thesis using form_jid assms(3) by auto
next
  case (form_select l)
  then show ?thesis using rd_un_ok [OF dec_select_ok, of l Brp_select r] assms(3) by (simp del: concat.simps)
next
  case (form_status l)
  then show ?thesis using rd_un_ok [OF dec_cmdstats_ok, of l Brp_statc r] assms(3) by (simp del: concat.simps dec_seq.simps)
next
  case (form_text tx)
  then show ?thesis using rd_un_ok [OF get_cs_ok, of tx "\<lambda>(str, n). Brp_txt str n" neg0 r] assms(3) by simp
next
  case (form_locate loc)
  then show ?thesis using rd_un_ok [OF get_dest_ok, of PBS_MAXDEST loc Brp_locate r] assms(3) by simp
qed

lemma dec_svr_un_ok:
  assumes "reply_form un0 c un bs cmd svr" "brp_union r = un0" "brp_choice r = c"
  shows "rd_ok ((let c = brp_choice r in
        if c = CHOICE_NULL then dec_rc 0
        else if c \<in> {CHOICE_Queue, CHOICE_RdytoCom, CHOICE_Commit} then
          rd_un Brp_jid (rd_fst ops (PBS_MAXSVRJOBID + 1) (\<lambda>v _. v) [])
        else if c = CHOICE_Select then rd_un Brp_select (dec_select ops)
        else if c = CHOICE_Status then rd_un Brp_status (rd_let (disrui ops) (\<lambda>ct. dec_status_loop (unat ct) ops 0) [])
        else if c = CHOICE_Text then rd_un (\<lambda>(str, n). Brp_txt str n) (disrcs ops neg0)
        else if c = CHOICE_Locate then rd_un Brp_locate (rd_fst ops (PBS_MAXDEST + 1) (\<lambda>v _. v) [])
        else dec_rc (- 1)) r) bs (r\<lparr>brp_union := svr\<rparr>)"
  using assms(1)
proof cases
  case form_null
  moreover have "r\<lparr>brp_union := un0\<rparr> = r" using assms(2) by (cases r) simp
  ultimately show ?thesis using assms(3) by (simp add: rd_ok_def dec_rc_def)
next
  case (form_jid jid)
  then have "rd_ok (rd_un Brp_jid (rd_fst ops (PBS_MAXSVRJOBID + 1) (\<lambda>v _. v) []) r) (wire_cs jid) (r\<lparr>brp_union := Brp_jid jid\<rparr>)"
    by (intro rd_un_ok get_jid_ok [of PBS_MAXSVRJOBID]) simp_all
  then show ?thesis using form_jid assms(3) by auto
next
  case (form_select l)
  then show ?thesis using rd_un_ok [OF dec_select_ok, of l Brp_select r] assms(3) by (simp del: concat.simps)
next
  case (form_status l)
  then show ?thesis using rd_un_ok [OF dec_status_ok, of l Brp_status r] assms(3) by (simp del: concat.simps)
next
  case (form_text tx)
  then show ?thesis using rd_un_ok [OF get_cs_ok, of tx "\<lambda>(str, n). Brp_txt str n" neg0 r] assms(3) by simp
next
  case (form_locate loc)
  then show ?thesis using rd_un_ok [OF get_dest_ok, of PBS_MAXDEST loc Brp_locate r] assms(3) by simp
qed

lemma decode_DIS_replyCmd_ok:
  assumes "reply_form (brp_union r) choice un bs cmd svr"
  shows "rd_ok (decode_DIS_replyCmd ops neg0 r)
    (concat [wire_u 2, wire_u 1, concat [wire_s (sint code), wire_s (sint aux), wire_u (unat choice), bs]])
    \<lparr>brp_code = code, brp_auxcode = aux, brp_choice = choice, brp_union = cmd\<rparr>"
proof -
  let ?r = "r\<lparr>brp_code := code, brp_auxcode := aux, brp_choice := choice\<rparr>"
  note un = dec_cmd_un_ok [OF assms, of ?r neg0]
  have "rd_ok (decode_DIS_replyCmd ops neg0 r)
      (concat [wire_u 2, wire_u 1, concat [wire_s (sint code), wire_s (sint aux), wire_u (unat choice)], bs]) (?r\<lparr>brp_union := cmd\<rparr>)"
    unfolding decode_DIS_replyCmd_def
    by (rule rd_ok_seq_Cons rd_ok_seq_Nil rd_const_ok dec_reply_head_ok un | simp; fail)+
  then show ?thesis by (cases r) simp
qed

lemma decode_DIS_replySvr_ok:
  assumes "reply_form (brp_union r) choice un bs cmd svr"
  shows "rd_ok (decode_DIS_replySvr ops neg0 r)
    (concat [wire_u 2, wire_u 1, concat [wire_s (sint code), wire_s (sint aux), wire_u (unat choice), bs]])
    \<lparr>brp_code = code, brp_auxcode = aux, brp_choice = choice, brp_union = svr\<rparr>"
proof -
  let ?r = "r\<lparr>brp_code := code, brp_auxcode := aux, brp_choice := choice\<rparr>"
  note un = dec_svr_un_ok [OF assms, of ?r neg0]
  have "rd_ok (decode_DIS_replySvr ops neg0 r)
      (concat [wire_u 2, wire_u 1, concat [concat [wire_s (sint code), wire_s (sint aux), wire_u (unat choice)], bs]]) (?r\<lparr>brp_union := svr\<rparr>)"
    unfolding decode_DIS_replySvr_def decode_DIS_replySvr_inner_def
    by (rule rd_ok_seq_Cons rd_ok_seq_Nil rd_const_ok dec_reply_head_ok un | simp; fail)+
  then show ?thesis by (cases r) simp
qed

end

section \<open>Every reply on every input\<close>

context dis_stream
begin

lemma rd_safe_const_dec [safe_intro]: "rd_safe (rd_const ops c r)"
  unfolding rd_const_def by (intro safe_intro) (simp add: rd_safe_rc)

lemma rd_safe_reply_head [safe_intro]: "rd_safe (dec_reply_head ops neg0 r)"
  unfolding dec_reply_head_def by (intro safe_intro)

lemma rd_safe_stat_head [safe_intro]: "rd_safe (dec_stat_head ops)"
  unfolding dec_stat_head_def by (intro safe_intro)

lemma rd_safe_dec_alloc [safe_intro]: "rd_safe (dec_alloc ops n r)"
  by (rule rd_safe_bind [OF rd_safe_malloc [of n], of "\<lambda>_ ok s. (if \<not> ok then DIS_NOMALLOC else 0, r, s)"])
    (simp_all add: dec_alloc_def rd_safe_const split: prod.split)

lemma rd_safe_un [safe_intro]: "rd_safe f \<Longrightarrow> rd_safe (rd_un con f r)"
  unfolding rd_un_def by (rule rd_safe_to)

lemma rd_safe_select [safe_intro]: "rd_safe (dec_select ops)"
proof -
  have "rd_safe (dec_select_item ops l)" for l
    by (rule rd_safe_alloc [OF _ dec_select_item_def]) (intro safe_intro)
  then show ?thesis unfolding dec_select_def by (intro safe_intro)
qed

lemma rd_safe_cmdstats [safe_intro]: "rd_safe (dec_seq (replicate n (dec_cmdstat_item ops)) l)"
proof (rule rd_safe_loop)
  fix l
  have "rd_safe ((case h of (t, n) \<Rightarrow> rd_to (decode_DIS_attrl ops) (\<lambda>a _. \<lparr>bc_objtype = t, bc_objname = n, bc_attrl = fst a\<rparr>)) r)"
    for h and r :: brp_cmdstat
    by (cases h) (simp add: rd_safe_to rd_safe_attrl)
  then show "rd_safe (dec_cmdstat_item ops l)"
    by (intro rd_safe_alloc [OF _ dec_cmdstat_item_def] safe_intro)
qed

lemma rd_safe_status_loop [safe_intro]: "rd_safe (dec_status_loop n ops rc l)"
proof (induction n arbitrary: rc l)
  case 0
  have "dec_status_loop 0 ops rc l = (\<lambda>s. (rc, l, s))" by (simp add: fun_eq_iff)
  then show ?case by (simp add: rd_safe_const)
next
  case (Suc n)
  have attrs: "rd_safe (\<lambda>s. case decode_DIS_svrattrl ops [] s of (rc, attr, s) \<Rightarrow>
      dec_status_loop n ops rc (l @ [\<lparr>bs_objtype = t, bs_objname = nm, bs_attr = attr\<rparr>]) s)" for t nm
    by (rule rd_safe_bind [OF rd_safe_svrattrl Suc.IH]) simp
  define k where "k rc h = (if rc \<noteq> 0 then (\<lambda>s. (rc, l, s)) else (\<lambda>s. case decode_DIS_svrattrl ops [] s of (rc, attr, s) \<Rightarrow>
      dec_status_loop n ops rc (l @ [\<lparr>bs_objtype = fst h, bs_objname = snd h, bs_attr = attr\<rparr>]) s))" for rc :: int and h
  have k: "rd_safe (k rc h)" for rc h unfolding k_def by (simp add: rd_safe_const attrs)
  have "rd_safe (\<lambda>s. case dec_stat_head ops s of (rc, h, s) \<Rightarrow> k rc h s)"
    by (rule rd_safe_bind [OF rd_safe_stat_head k]) simp
  then have "rd_safe (\<lambda>s. case c_malloc ops s 328 of (ok, t) \<Rightarrow> if \<not> ok then (DIS_NOMALLOC, l, t)
      else (\<lambda>s. case dec_stat_head ops s of (rc, h, s) \<Rightarrow> k rc h s) t)"
    by (intro rd_safe_malloc_then rd_safe_const)
  moreover have "dec_status_loop (Suc n) ops rc l = (\<lambda>s. case c_malloc ops s 328 of (ok, t) \<Rightarrow> if \<not> ok then (DIS_NOMALLOC, l, t)
      else (\<lambda>s. case dec_stat_head ops s of (rc, h, s) \<Rightarrow> k rc h s) t)"
    by (auto simp: fun_eq_iff k_def split: prod.splits)
  ultimately show ?case by simp
qed

lemma rd_safe_rescq [safe_intro]: "rd_safe (dec_rescq ops r)"
  unfolding dec_rescq_def dec_ints_def Let_def by (intro safe_intro)

lemma rd_safe_replies:
  "rd_safe (decode_DIS_replyCmd ops neg0 r)" "rd_safe (decode_DIS_replySvr ops neg0 r)"
  unfolding decode_DIS_replyCmd_def decode_DIS_replySvr_def decode_DIS_replySvr_inner_def Let_def
  by (intro safe_intro; auto intro!: safe_intro)+

end

end
