(* ===== verification/Long_Conv.thy ===== *)
theory Long_Conv
  imports Prelude
begin

text \<open>
  Conversion between numerals and the largest integer types (\<open>src/src/lib/Libattr\<close>:
  \<open>strTouL.c\<close>, \<open>strToL.c\<close>, \<open>uLTostr.c\<close>, \<open>LTostr.c\<close>), on which
  the attribute functions for sizes and 64-bit integers rest. \<open>u_Long\<close> and \<open>Long\<close> are
  64-bit words, read unsigned or signed. A string is the list of characters before its NUL; a
  pointer into it is the suffix it points at. \<open>errno\<close> and \<open>Long_neg\<close>, which are
  global, are passed in and returned.
\<close>

section \<open>Digits\<close>

definition Long_dig :: string where
  "Long_dig = ''0123456789ABCDEFGHIJKLMNOPQRSTUVWXYZ''"

text \<open>The entry of \<open>table\<close> for a character: its value as a digit, \<open>CHAR_MAX\<close> for the rest.\<close>

definition CHAR_MAX :: nat where "CHAR_MAX = 127"

definition dig_table :: "char \<Rightarrow> nat" where
  "dig_table c =
     (let k = uchar c in
      if 48 \<le> k \<and> k \<le> 57 then k - 48
      else if 65 \<le> k \<and> k \<le> 90 then k - 65 + 10
      else if 97 \<le> k \<and> k \<le> 122 then k - 97 + 10
      else CHAR_MAX)"

definition x_val :: nat where "x_val = dig_table CHR ''x''"

definition isspace :: "char \<Rightarrow> bool" where
  "isspace c \<longleftrightarrow> uchar c = 32 \<or> 9 \<le> uchar c \<and> uchar c \<le> 13"

abbreviation ERANGE :: int where "ERANGE \<equiv> 34"
abbreviation EDOM :: int where "EDOM \<equiv> 33"

section \<open>Reading\<close>

datatype scan_state = Unknown1 | Unknown2 | Hex1 | Hex2 | Hex3 | Known | Working | Overflow

text \<open>
  The \<open>while\<close> loop of \<open>strTouL\<close> over the characters from \<open>nptr\<close> on. The result
  holds the state, the value, \<open>errno\<close> and the characters from the one that ended the loop on.
\<close>

fun scan :: "scan_state \<Rightarrow> nat \<Rightarrow> ulong \<Rightarrow> ulong \<Rightarrow> int \<Rightarrow> string \<Rightarrow> scan_state \<times> ulong \<times> int \<times> string" where
  "scan st base limit value errno [] = (st, value, errno, [])"
| "scan st base limit value errno (c # cs) =
     (let digit = dig_table c in
      if digit = CHAR_MAX then (st, value, errno, c # cs)
      else case st of
        Unknown1 \<Rightarrow> if digit \<ge> 10 then (st, value, errno, c # cs)
          else if digit = 0 then scan Unknown2 base limit value errno cs
          else scan Working 10 (- 1 div 10) (of_nat digit) errno cs
      | Unknown2 \<Rightarrow> if digit \<ge> 8 then
            if digit \<noteq> x_val then (st, value, errno, c # cs) else scan Hex3 16 limit value errno cs
          else scan Working 8 (- 1 div 8) (of_nat digit) errno cs
      | Hex1 \<Rightarrow> if digit \<ge> base then (st, value, errno, c # cs)
          else if digit = 0 then scan Hex2 base limit value errno cs
          else scan Working base (- 1 div 16) (of_nat digit) errno cs
      | Hex2 \<Rightarrow> if digit = x_val then scan Hex3 base limit value errno cs
          else if digit \<ge> base then (st, value, errno, c # cs)
          else scan Working base (- 1 div of_nat base) (of_nat digit) errno cs
      | Hex3 \<Rightarrow> if digit \<ge> base then (st, value, errno, c # cs)
          else scan Working base (- 1 div of_nat base) (of_nat digit) errno cs
      | Known \<Rightarrow> if digit \<ge> base then (st, value, errno, c # cs)
          else scan Working base (- 1 div of_nat base) (of_nat digit) errno cs
      | Working \<Rightarrow> if digit \<ge> base then (st, value, errno, c # cs)
          else if value < limit then scan Working base limit (value * of_nat base + of_nat digit) errno cs
          else if value > limit \<or> - 1 - value * of_nat base < of_nat digit then scan Overflow base limit (- 1) ERANGE cs
          else scan Working base limit (value * of_nat base + of_nat digit) errno cs
      | Overflow \<Rightarrow> if digit \<ge> base then (st, value, errno, c # cs)
          else scan Overflow base limit value errno cs)"

text \<open>The result: the value, \<open>*endptr\<close>, \<open>errno\<close> and \<open>Long_neg\<close>.\<close>

definition strTouL :: "string option \<Rightarrow> int \<Rightarrow> int \<Rightarrow> bool \<Rightarrow> ulong \<times> string option \<times> int \<times> bool" where
  "strTouL nptr base errno long_neg =
     (case nptr of None \<Rightarrow> (0, None, errno, long_neg)
      | Some s \<Rightarrow>
        if base < 0 \<or> base = 1 \<or> base > int (length Long_dig) then (0, Some s, EDOM, long_neg)
        else
          let st = (if base = 0 then Unknown1 else if base = 16 then Hex1 else Known);
              p = dropWhile isspace s;
              long_neg = (p \<noteq> [] \<and> hd p = CHR ''-'');
              p = (if p \<noteq> [] \<and> hd p \<in> {CHR ''-'', CHR ''+''} then tl p else p);
              (st, value, errno, q) = scan st (nat base) 0 0 errno p;
              back = (if st = Hex3 then 1 else 0)
          in (value, Some (drop (length s - length q - back) s), if long_neg then ERANGE else errno, long_neg))"

definition strToL :: "string option \<Rightarrow> int \<Rightarrow> int \<Rightarrow> bool \<Rightarrow> ulong \<times> string option \<times> int \<times> bool" where
  "strToL nptr base errno long_neg =
     (let (value, endptr, errno, long_neg) = strTouL nptr base errno long_neg in
      if long_neg then
        if sint value \<ge> 0 then (0x8000000000000000, endptr, ERANGE, long_neg) else (value, endptr, errno, long_neg)
      else if sint value < 0 then (0x7FFFFFFFFFFFFFFF, endptr, ERANGE, long_neg)
      else (value, endptr, errno, long_neg))"

section \<open>Writing\<close>

text \<open>The \<open>do\<close> loop of \<open>uLTostr\<close>, which fills its buffer from the end; the base is at least 2.\<close>

function to_base :: "nat \<Rightarrow> nat \<Rightarrow> string \<Rightarrow> string" where
  "to_base b v cp =
     (let cp = Long_dig ! (v mod b) # cp in if b \<ge> 2 \<and> v div b \<noteq> 0 then to_base b (v div b) cp else cp)"
  by pat_completeness auto
termination
proof (relation "measure (\<lambda>(b, v, cp). v)")
  fix b v :: nat and cp x
  assume "b \<ge> 2 \<and> v div b \<noteq> 0"
  then have "0 < v" "1 < b" by (auto intro: gr0I)
  then show "((b, v div b, x), b, v, cp) \<in> measure (\<lambda>(b, v, cp). v)" by simp
qed simp

declare to_base.simps [simp del]

definition uLTostr :: "ulong \<Rightarrow> int \<Rightarrow> int \<Rightarrow> string \<times> int" where
  "uLTostr value base errno =
     (if base < 2 \<or> base > int (length Long_dig) then ([], EDOM)
      else let bp = to_base (nat base) (unat value) []
           in (if base = 16 then ''0x'' @ bp else if base = 8 then CHR ''0'' # bp else bp, errno))"

definition LTostr :: "ulong \<Rightarrow> int \<Rightarrow> int \<Rightarrow> string \<times> int" where
  "LTostr value base errno =
     (if sint value < 0 then
        let (bp, errno) = uLTostr (- value) base errno in (if bp = [] then [] else CHR ''-'' # bp, errno)
      else uLTostr value base errno)"

section \<open>Values of numerals\<close>

definition num_val :: "nat \<Rightarrow> nat \<Rightarrow> string \<Rightarrow> nat" where
  "num_val b v cs = foldl (\<lambda>v c. v * b + dig_table c) v cs"

lemma num_val_simps [simp]:
  "num_val b v [] = v" "num_val b v (c # cs) = num_val b (v * b + dig_table c) cs"
  "num_val b v (cs @ ds) = num_val b (num_val b v cs) ds"
  by (simp_all add: num_val_def)

lemma num_val_ge: "v \<le> num_val b v cs" if "0 < b"
  using that
proof (induction cs arbitrary: v)
  case (Cons c cs)
  have "v \<le> v * b + dig_table c" using Cons.prems by (simp add: trans_le_add1)
  also have "\<dots> \<le> num_val b (v * b + dig_table c) cs" using Cons by simp
  finally show ?case by simp
qed simp

text \<open>\<open>ds\<close> are the digits and \<open>rest\<close> starts with something else, or is empty.\<close>

definition digits_then :: "nat \<Rightarrow> string \<Rightarrow> string \<Rightarrow> bool" where
  "digits_then b ds rest \<longleftrightarrow> (\<forall>c \<in> set ds. dig_table c < b) \<and> (rest \<noteq> [] \<longrightarrow> dig_table (hd rest) \<ge> b)"

lemma digits_then_Cons [simp]: "digits_then b (c # ds) rest \<longleftrightarrow> dig_table c < b \<and> digits_then b ds rest"
  by (auto simp: digits_then_def)

lemma scan_stop:
  "rest = [] \<or> dig_table (hd rest) \<ge> b \<Longrightarrow> b \<le> 36 \<Longrightarrow> st \<in> {Known, Hex3, Working, Overflow} \<Longrightarrow>
     scan st b limit value errno rest = (st, value, errno, rest)"
  by (cases rest) (auto simp: Let_def)

lemma scan_overflow:
  "digits_then b ds rest \<Longrightarrow> b \<le> 36 \<Longrightarrow> scan Overflow b limit value errno (ds @ rest) = (Overflow, value, errno, rest)"
proof (induction ds)
  case Nil
  then show ?case using scan_stop [of rest b Overflow] by (auto simp: digits_then_def)
qed (simp add: Let_def CHAR_MAX_def)

lemma limit_step:
  fixes v d b :: nat
  assumes "v < 2 ^ 64" "d < b" "2 \<le> b" "b \<le> 36"
  defines "lim \<equiv> (- 1 :: ulong) div of_nat b"
  shows "((of_nat v :: ulong) < lim \<or> \<not> ((of_nat v :: ulong) > lim \<or> - 1 - of_nat v * of_nat b < (of_nat d :: ulong)))
    \<longleftrightarrow> v * b + d < 2 ^ 64"
proof -
  define L :: nat where "L = (2 ^ 64 - 1) div b"
  have b: "unat (of_nat b :: ulong) = b" using assms by (simp add: unat_of_nat_small)
  have v: "unat (of_nat v :: ulong) = v" "unat (of_nat d :: ulong) = d" using assms by (simp_all add: unat_of_nat_small)
  have m: "unat (- 1 :: ulong) = 2 ^ 64 - 1" by (simp add: unsigned_minus_1_eq_mask mask_eq_exp_minus_1)
  have lim: "unat lim = L" by (simp only: lim_def unat_div_distrib b m L_def)
  have Lb: "L * b \<le> 2 ^ 64 - 1" "2 ^ 64 - 1 < (L + 1) * b"
    using div_times_less_eq_dividend [of "2 ^ 64 - 1" b] dividend_less_div_times [of b "2 ^ 64 - 1"] assms(3)
    by (simp_all add: L_def)
  have cmp: "(of_nat v :: ulong) < lim \<longleftrightarrow> v < L" "(of_nat v :: ulong) > lim \<longleftrightarrow> L < v"
    by (simp_all only: word_less_nat_alt v lim)
  consider "v < L" | "v > L" | "v = L" by linarith
  then show ?thesis
  proof cases
    case 1
    then have "v * b + d < (v + 1) * b" using assms(2) by simp
    also have "\<dots> \<le> L * b" using 1 by (intro mult_right_mono) simp_all
    finally show ?thesis using 1 cmp Lb(1) by simp
  next
    case 2
    then have "(L + 1) * b \<le> v * b" by (intro mult_right_mono) simp_all
    then show ?thesis using 2 cmp Lb(2) by simp
  next
    case 3
    have "unat (of_nat (v * b) :: ulong) = v * b"
      using Lb(1) 3 by (intro unat_of_nat_small) simp
    then have "unat (of_nat v * of_nat b :: ulong) = v * b" by (simp only: of_nat_mult)
    moreover have "(of_nat v * of_nat b :: ulong) \<le> - 1" by simp
    ultimately have "unat (- 1 - of_nat v * of_nat b :: ulong) = 2 ^ 64 - 1 - v * b"
      by (simp only: unat_sub m)
    then have "- 1 - of_nat v * of_nat b < (of_nat d :: ulong) \<longleftrightarrow> 2 ^ 64 - 1 - v * b < d"
      by (simp only: word_less_nat_alt v)
    then show ?thesis using 3 cmp Lb(1) by auto
  qed
qed

lemma scan_working:
  assumes "digits_then b ds rest" "2 \<le> b" "b \<le> 36" "v < 2 ^ 64"
  shows "scan Working b (- 1 div of_nat b) (of_nat v) errno (ds @ rest) =
    (if num_val b v ds < 2 ^ 64 then (Working, of_nat (num_val b v ds), errno, rest) else (Overflow, - 1, ERANGE, rest))"
  using assms(1,4)
proof (induction ds arbitrary: v)
  case Nil
  then show ?case using scan_stop [of rest b Working] assms(3) by (auto simp: digits_then_def)
next
  case (Cons c ds)
  let ?d = "dig_table c" and ?lim = "- 1 div of_nat b :: ulong"
  have d: "?d < b" "?d \<noteq> CHAR_MAX" "digits_then b ds rest" using Cons.prems(1) assms(3) by (simp_all add: CHAR_MAX_def)
  note step = limit_step [OF Cons.prems(2) d(1) assms(2,3)]
  show ?case
  proof (cases "v * b + ?d < 2 ^ 64")
    case True
    then have "scan Working b ?lim (of_nat v) errno ((c # ds) @ rest) = scan Working b ?lim (of_nat (v * b + ?d)) errno (ds @ rest)"
      using step d by (auto simp: Let_def)
    then show ?thesis using Cons.IH [OF d(3) True] by simp
  next
    case False
    then have "scan Working b ?lim (of_nat v) errno ((c # ds) @ rest) = scan Overflow b ?lim (- 1) ERANGE (ds @ rest)"
      using step d by (auto simp: Let_def)
    moreover have "\<not> num_val b v (c # ds) < 2 ^ 64"
      using False num_val_ge [of b "v * b + ?d" ds] assms(2) by simp
    ultimately show ?thesis using scan_overflow [OF d(3) assms(3)] by simp
  qed
qed

section \<open>What the readers return\<close>

lemma dig_table_char:
  assumes "dig_table c < 127"
  shows "\<not> isspace c" "c \<noteq> CHR ''-''" "c \<noteq> CHR ''+''"
  using assms by (auto simp: dig_table_def isspace_def uchar_def CHAR_MAX_def Let_def split: if_splits)

lemma sign_char: "\<not> isspace CHR ''-''" "\<not> isspace CHR ''+''"
  by (simp_all add: isspace_def uchar_def)

text \<open>The value of a numeral as \<open>strTouL\<close> returns it: saturated at the greatest value.\<close>

definition sat :: "nat \<Rightarrow> ulong" where
  "sat n = (if n < 2 ^ 64 then of_nat n else - 1)"

lemma scan_known:
  assumes "digits_then b ds rest" "ds \<noteq> []" "2 \<le> b" "b \<le> 36" "st \<in> {Known, Hex3}"
  shows "\<exists>st'. scan st b limit 0 errno (ds @ rest) =
    (st', sat (num_val b 0 ds), if num_val b 0 ds < 2 ^ 64 then errno else ERANGE, rest) \<and> st' \<noteq> Hex3"
proof -
  obtain c cs where ds: "ds = c # cs" using assms(2) by (cases ds) auto
  have c: "dig_table c < b" "dig_table c \<noteq> CHAR_MAX" "digits_then b cs rest"
    using assms ds by (simp_all add: CHAR_MAX_def)
  then have "scan st b limit 0 errno (ds @ rest) = scan Working b (- 1 div of_nat b) (of_nat (dig_table c)) errno (cs @ rest)"
    using assms(5) by (auto simp: ds Let_def)
  then show ?thesis
    using scan_working [OF c(3) assms(3,4), of "dig_table c" errno] c(1) assms(4) by (simp add: ds sat_def)
qed

definition sign_str :: "string \<Rightarrow> bool" where
  "sign_str sg \<longleftrightarrow> sg \<in> {[], ''+'', ''-''}"

lemma strip_sign:
  assumes "\<forall>c \<in> set ws. isspace c" "sign_str sg" "digits_then b ds rest" "ds \<noteq> []" "b \<le> 36"
  shows "dropWhile isspace (ws @ sg @ ds @ rest) = sg @ ds @ rest"
    "(sg @ ds @ rest \<noteq> [] \<and> hd (sg @ ds @ rest) = CHR ''-'') \<longleftrightarrow> sg = ''-''"
    "(if sg @ ds @ rest \<noteq> [] \<and> hd (sg @ ds @ rest) \<in> {CHR ''-'', CHR ''+''} then tl (sg @ ds @ rest) else sg @ ds @ rest) = ds @ rest"
proof -
  obtain c cs where ds: "ds = c # cs" using assms(4) by (cases ds) auto
  then have c: "\<not> isspace c" "c \<noteq> CHR ''-''" "c \<noteq> CHR ''+''"
    using assms(3,5) dig_table_char [of c] by simp_all
  have "dropWhile isspace (ws @ x) = dropWhile isspace x" for x using assms(1) by (induction ws) simp_all
  then show "dropWhile isspace (ws @ sg @ ds @ rest) = sg @ ds @ rest"
    using c assms(2) sign_char by (auto simp: ds sign_str_def)
  show "(sg @ ds @ rest \<noteq> [] \<and> hd (sg @ ds @ rest) = CHR ''-'') \<longleftrightarrow> sg = ''-''"
    "(if sg @ ds @ rest \<noteq> [] \<and> hd (sg @ ds @ rest) \<in> {CHR ''-'', CHR ''+''} then tl (sg @ ds @ rest) else sg @ ds @ rest) = ds @ rest"
    using c assms(2) by (auto simp: ds sign_str_def)
qed

lemma strTouL_numeral:
  assumes "\<forall>c \<in> set ws. isspace c" "sign_str sg" "digits_then b ds rest" "ds \<noteq> []" "2 \<le> b" "b \<le> 36" "b \<noteq> 16"
  shows "strTouL (Some (ws @ sg @ ds @ rest)) (int b) errno neg =
    (sat (num_val b 0 ds), Some rest,
     if sg = ''-'' \<or> \<not> num_val b 0 ds < 2 ^ 64 then ERANGE else errno, sg = ''-'')"
proof -
  obtain st where sc: "scan Known b 0 0 errno (ds @ rest) =
      (st, sat (num_val b 0 ds), if num_val b 0 ds < 2 ^ 64 then errno else ERANGE, rest)" "st \<noteq> Hex3"
    using scan_known [OF assms(3,4,5,6), of Known 0 errno] by auto
  have base: "\<not> (int b < 0 \<or> int b = 1 \<or> int b > int (length Long_dig))" "int b \<noteq> 0" "int b \<noteq> 16"
    using assms(5-7) by (simp_all add: Long_dig_def)
  have len: "drop (length (ws @ sg @ ds @ rest) - length rest) (ws @ sg @ ds @ rest) = rest"
    by (simp add: diff_diff_add [symmetric])
  show ?thesis
    unfolding strTouL_def option.case strip_sign(1) [OF assms(1-4,6)] Let_def strip_sign(2,3) [OF assms(1-4,6)]
    by (simp only: base sc(1) if_False nat_int prod.case HOL.simp_thms) (simp add: sc(2) len)
qed

text \<open>A sign makes \<open>strToL\<close> give up: it returns the least value for every negative numeral.\<close>

lemma strToL_numeral:
  assumes "\<forall>c \<in> set ws. isspace c" "sign_str sg" "digits_then b ds rest" "ds \<noteq> []" "2 \<le> b" "b \<le> 36" "b \<noteq> 16"
    "num_val b 0 ds < 2 ^ 63"
  shows "strToL (Some (ws @ sg @ ds @ rest)) (int b) errno neg =
    (if sg = ''-'' then (0x8000000000000000, Some rest, ERANGE, True) else (of_nat (num_val b 0 ds), Some rest, errno, False))"
proof -
  have v: "unat (of_nat (num_val b 0 ds) :: ulong) = num_val b 0 ds" using assms(8) by (simp add: unat_of_nat_small)
  have "sint (of_nat (num_val b 0 ds) :: ulong) = int (num_val b 0 ds)"
    using sint_pos_unat [of "of_nat (num_val b 0 ds) :: ulong"] assms(8) by (simp only: v) simp
  moreover have "num_val b 0 ds < 2 ^ 64" using assms(8) by simp
  ultimately show ?thesis
    unfolding strToL_def strTouL_numeral [OF assms(1-7)] sat_def by (simp add: Let_def)
qed

section \<open>What the writers return\<close>

lemma Long_dig_table: "i < 36 \<Longrightarrow> dig_table (Long_dig ! i) = i"
proof -
  have "list_all (\<lambda>i. dig_table (Long_dig ! i) = i) [0..<36]"
    by code_simp
  then show "i < 36 \<Longrightarrow> dig_table (Long_dig ! i) = i"
    by (simp only: list_all_iff set_upt) simp
qed

lemma to_base_step:
  "to_base b v cp = (if b \<ge> 2 \<and> v div b \<noteq> 0 then to_base b (v div b) (Long_dig ! (v mod b) # cp) else Long_dig ! (v mod b) # cp)"
  by (subst to_base.simps) (simp add: Let_def)

lemma to_base_append: "to_base b v cp = to_base b v [] @ cp"
proof (induction v arbitrary: cp rule: less_induct)
  case (less v)
  show ?case
  proof (cases "b \<ge> 2 \<and> v div b \<noteq> 0")
    case True
    then have "v div b < v" by (intro div_less_dividend) (auto intro: gr0I)
    note IH = less.IH [OF this]
    show ?thesis
      unfolding to_base_step [of b v] using True IH [of "Long_dig ! (v mod b) # cp"] IH [of "[Long_dig ! (v mod b)]"] by simp
  next
    case False
    then show ?thesis using to_base_step [of b v cp] to_base_step [of b v "[]"] by (simp only: if_False append.simps)
  qed
qed

lemma to_base_rec:
  "to_base b v [] = (if b \<ge> 2 \<and> v div b \<noteq> 0 then to_base b (v div b) [] else []) @ [Long_dig ! (v mod b)]"
  using to_base_append [of b "v div b" "[Long_dig ! (v mod b)]"] by (subst to_base_step) simp

lemma to_base_ne: "to_base b v [] \<noteq> []"
  by (subst to_base_rec) simp

lemma to_base_digits:
  assumes "2 \<le> b" "b \<le> 36"
  shows "(\<forall>c \<in> set (to_base b v []). dig_table c < b) \<and> num_val b 0 (to_base b v []) = v"
proof (induction v rule: less_induct)
  case (less v)
  have "v mod b < b" using assms by simp
  then have d: "dig_table (Long_dig ! (v mod b)) = v mod b" using assms by (intro Long_dig_table) linarith
  show ?case
  proof (cases "v div b \<noteq> 0")
    case True
    then have "v div b < v" using assms by (intro div_less_dividend) (auto intro: gr0I)
    from less.IH [OF this] True show ?thesis
      using assms d by (subst (1 2) to_base_rec) simp
  next
    case False
    then have "v < b" using assms by (simp add: div_eq_0_iff)
    then show ?thesis using False assms d by (subst (1 2) to_base_rec) simp
  qed
qed

lemma to_base_length:
  assumes "2 \<le> b"
  shows "v < b ^ k \<Longrightarrow> 0 < k \<Longrightarrow> length (to_base b v []) \<le> k"
proof (induction k arbitrary: v)
  case (Suc k)
  show ?case
  proof (cases "v div b \<noteq> 0")
    case True
    have "v div b < b ^ k" using Suc.prems by (simp add: less_mult_imp_div_less mult.commute)
    moreover from this have "0 < k" using True by (cases k) simp_all
    ultimately have "length (to_base b (v div b) []) \<le> k" by (rule Suc.IH)
    then show ?thesis using True assms by (subst to_base_rec) simp
  next
    case False
    then show ?thesis by (subst to_base_rec) simp
  qed
qed simp

lemma to_base_hd:
  assumes "2 \<le> b" "b \<le> 36"
  shows "v \<noteq> 0 \<Longrightarrow> dig_table (hd (to_base b v [])) \<noteq> 0"
proof (induction v rule: less_induct)
  case (less v)
  show ?case
  proof (cases "v div b \<noteq> 0")
    case True
    then have "v div b < v" using assms by (intro div_less_dividend) (auto intro: gr0I)
    then show ?thesis using less.IH [of "v div b"] True assms to_base_ne [of b "v div b"] by (subst to_base_rec) simp
  next
    case False
    then have "v mod b = v" "v < 36" using assms by (simp_all add: div_eq_0_iff)
    then show ?thesis using False less.prems Long_dig_table [of v] by (subst to_base_rec) simp
  qed
qed

lemma to_base_then:
  "2 \<le> b \<Longrightarrow> b \<le> 36 \<Longrightarrow> rest = [] \<or> dig_table (hd rest) \<ge> b \<Longrightarrow> digits_then b (to_base b v []) rest"
  using to_base_digits by (auto simp: digits_then_def)

lemma uLTostr_eq:
  assumes "2 \<le> b" "b \<le> 36"
  shows "uLTostr v (int b) errno =
    ((if b = 16 then ''0x'' else if b = 8 then ''0'' else []) @ to_base b (unat v) [], errno)"
  using assms by (auto simp: uLTostr_def Long_dig_def Let_def)

lemma sat_unat [simp]: "sat (unat v) = v"
  using unat_ulong_less [of v] by (simp add: sat_def)

lemma dig_chars [simp]: "dig_table CHR ''0'' = 0" "dig_table CHR ''x'' = 33" "x_val = 33"
  by (simp_all add: dig_table_def uchar_def x_val_def)

lemma strTouL_plain:
  assumes "s \<noteq> []" "dig_table (hd s) < 127" "0 \<le> base" "base \<noteq> 1" "base \<le> 36"
  shows "strTouL (Some s) base errno neg =
    (case scan (if base = 0 then Unknown1 else if base = 16 then Hex1 else Known) (nat base) 0 0 errno s of
       (st, value, errno, q) \<Rightarrow> (value, Some (drop (length s - length q - (if st = Hex3 then 1 else 0)) s), errno, False))"
proof -
  obtain c cs where s: "s = c # cs" using assms(1) by (cases s) auto
  have c: "\<not> isspace c" "c \<noteq> CHR ''-''" "c \<noteq> CHR ''+''" using dig_table_char assms(2) s by auto
  then show ?thesis
    using assms(3-5) by (simp add: strTouL_def s Long_dig_def Let_def del: scan.simps split: prod.split)
qed

text \<open>Whatever the base, the text written is read back, with nothing left over.\<close>

lemma strTouL_uLTostr:
  assumes "2 \<le> b" "b \<le> 36"
  shows "strTouL (Some (fst (uLTostr v (int b) e))) (int b) errno neg = (v, Some [], errno, False)"
proof -
  let ?ds = "to_base b (unat v) []"
  have d: "digits_then b ?ds []" "?ds \<noteq> []" using assms to_base_ne by (auto intro: to_base_then)
  have v: "num_val b 0 ?ds = unat v" "num_val b 0 ?ds < 2 ^ 64"
    using to_base_digits [OF assms, of "unat v"] unat_ulong_less [of v] by simp_all
  show ?thesis
  proof (cases "b = 16")
    case False
    define pre :: string where "pre = (if b = 8 then ''0'' else [])"
    have "digits_then b (pre @ ?ds) []" using d(1) assms by (auto simp: pre_def)
    moreover have "num_val b 0 (pre @ ?ds) = unat v" using v by (auto simp: pre_def)
    ultimately show ?thesis
      using strTouL_numeral [of "[]" "[]" b "pre @ ?ds" "[]" errno neg] d(2) False assms unat_ulong_less [of v]
      by (simp add: sign_str_def uLTostr_eq pre_def)
  next
    case True
    obtain st where "scan Hex3 16 0 0 errno (?ds @ []) = (st, sat (unat v), errno, [])" "st \<noteq> Hex3"
      using scan_known [OF d assms, of Hex3 0 errno] v True by auto
    then show ?thesis
      using strTouL_plain [of "''0x'' @ ?ds" 16 errno neg] uLTostr_eq [OF assms, of v e]
      by (simp add: True CHAR_MAX_def)
  qed
qed

text \<open>With base 0 the reader recognises octal, decimal and hexadecimal texts.\<close>

lemma strTouL_base0:
  assumes "b \<in> {8, 10, 16}"
  shows "strTouL (Some (fst (uLTostr v (int b) e))) 0 errno neg = (v, Some [], errno, False)"
proof -
  let ?ds = "to_base b (unat v) []"
  have b: "2 \<le> b" "b \<le> 36" using assms by auto
  have d: "digits_then b ?ds []" "?ds \<noteq> []" using b to_base_ne by (auto intro: to_base_then)
  have v: "num_val b 0 ?ds = unat v" "unat v < 2 ^ 64"
    using to_base_digits [OF b, of "unat v"] unat_ulong_less [of v] by simp_all
  obtain c cs where cs: "?ds = c # cs" using d(2) by (cases ?ds) auto
  have c: "dig_table c < b" "dig_table c \<noteq> CHAR_MAX" "digits_then b cs []" using d(1) b cs by (simp_all add: CHAR_MAX_def)
  have w: "scan Working b (- 1 div of_nat b) (of_nat (dig_table c)) errno cs = (Working, v, errno, [])"
    using scan_working [OF c(3) b, of "dig_table c" errno] c(1) b(2) v cs by simp
  note ueq = uLTostr_eq [OF b, of v e]
  consider "b = 8" | "b = 10" | "b = 16" using assms by auto
  then show ?thesis
  proof cases
    case 1
    then show ?thesis
      using strTouL_plain [of "''0'' @ ?ds" 0 errno neg] c w b ueq by (simp add: cs [unfolded 1] CHAR_MAX_def)
  next
    case 2
    show ?thesis
    proof (cases "v = 0")
      case True
      have "?ds = ''0''" using True by (subst to_base_rec) (simp add: Long_dig_def)
      then show ?thesis
        using strTouL_plain [of "''0''" 0 errno neg] 2 True ueq by (simp add: CHAR_MAX_def)
    next
      case False
      then have "dig_table c \<noteq> 0" using to_base_hd [OF b, of "unat v"] cs by (simp add: unat_eq_zero)
      then show ?thesis
        using strTouL_plain [of ?ds 0 errno neg] 2 c w b ueq by (simp add: cs [unfolded 2])
    qed
  next
    case 3
    obtain st where "scan Hex3 16 0 0 errno (?ds @ []) = (st, sat (unat v), errno, [])" "st \<noteq> Hex3"
      using scan_known [OF d b, of Hex3 0 errno] v 3 by auto
    then show ?thesis
      using strTouL_plain [of "''0x'' @ ?ds" 0 errno neg] ueq by (simp add: 3 CHAR_MAX_def)
  qed
qed

text \<open>Every text fits the static buffer of \<open>LBUFSIZ\<close> bytes, sign and terminator included.\<close>

definition LBUFSIZ :: nat where "LBUFSIZ = 66"

lemma LTostr_bound: "length (fst (LTostr v base errno)) < LBUFSIZ"
proof (cases "2 \<le> base \<and> base \<le> 36")
  case True
  define b where "b = nat base"
  have b: "2 \<le> b" "b \<le> 36" "base = int b" using True by (auto simp: b_def)
  have u: "length (fst (uLTostr w base e)) \<le> 64" for w :: ulong and e
  proof -
    have "length (to_base b (unat w) []) \<le> (if b = 8 \<or> b = 16 then 22 else 64)"
    proof (cases "b = 8 \<or> b = 16")
      case True
      then show ?thesis using to_base_length [OF b(1), of "unat w" 22] unat_ulong_less [of w] by auto
    next
      case False
      have "(2::nat) ^ 64 \<le> b ^ 64" using b(1) by (rule power_mono) simp
      then show ?thesis using False to_base_length [OF b(1), of "unat w" 64] unat_ulong_less [of w] by simp
    qed
    then show ?thesis by (auto simp: b(3) uLTostr_eq [OF b(1,2)] split: if_splits)
  qed
  show ?thesis
  proof (cases "sint v < 0")
    case True
    then show ?thesis using u [of "- v" errno] by (auto simp: LTostr_def LBUFSIZ_def Let_def split: prod.splits)
  next
    case False
    then show ?thesis using u [of v errno] by (simp add: LTostr_def LBUFSIZ_def)
  qed
next
  case False
  then show ?thesis by (auto simp: LTostr_def uLTostr_def LBUFSIZ_def Long_dig_def)
qed

end
