(* ===== verification/Attr_Value.thy ===== *)
theory Attr_Value
  imports Attr_Wire Long_Conv "HOL-Library.Signed_Division"
begin

unbundle bit_operations_syntax

text \<open>
  Attributes and the functions that decode, encode, set and compare their values
  (\<open>src/src/lib/Libattr\<close>): the common part of \<open>attr_func.c\<close> and the value types
  boolean (\<open>attr_fn_b.c\<close>), long (\<open>attr_fn_l.c\<close>), 64-bit integer
  (\<open>attr_fn_ll.c\<close>), character (\<open>attr_fn_c.c\<close>), string (\<open>attr_fn_str.c\<close>),
  hold (\<open>attr_fn_hold.c\<close>), interactive (\<open>attr_fn_intr.c\<close>) and time
  (\<open>attr_fn_time.c\<close>).

  A decode or set function returns its status and the attribute it changed; an encode function its
  status, the list \<open>phead\<close> it appended to (\<open>None\<close> for \<open>NULL\<close>) and \<open>*rtnl\<close>. The
  union \<open>attr_val\<close> is a datatype, the arm being the one written last; zeroed memory is
  \<open>At_zero\<close>. \<open>mal n\<close> says whether an allocation of \<open>n\<close> bytes succeeds. Arithmetic on
  \<open>long\<close> wraps around, as it does in the compiled code. The functions \<open>set_*\<close> assert that
  the new value is set; that is a precondition here. Releasing memory is not modelled: freeing a
  value or a cached encoding forgets it.
\<close>

section \<open>Attributes\<close>

record size_value =
  atsv_num :: ulong
  atsv_shift :: nat
  atsv_units :: nat

text \<open>
  The strings of an \<open>array_strings\<close> stand one after the other, each with its terminator, in \<open>as_buf\<close>
  (\<open>None\<close> for \<open>NULL\<close>; its length is \<open>as_bufsize\<close>); \<open>as_next\<close> and the pointers in use are
  offsets into it, and \<open>as_usedptr\<close> is the number of these.
\<close>

record array_strings =
  as_npointers :: nat
  as_buf :: "char list option"
  as_next :: nat
  as_string :: "nat list"

text \<open>The members of a list (\<open>at_list\<close>), resources in the attributes modelled here, are of type \<open>'r\<close>.\<close>

datatype 'r attr_val = At_zero | At_long ulong | At_ll ulong | At_char char | At_str "string option" | At_size size_value
  | At_arst "array_strings option" | At_list "'r list"

fun at_long :: "'r attr_val \<Rightarrow> ulong" where
  "at_long (At_long v) = v" | "at_long _ = 0"

fun at_ll :: "'r attr_val \<Rightarrow> ulong" where
  "at_ll (At_ll v) = v" | "at_ll _ = 0"

fun at_char :: "'r attr_val \<Rightarrow> char" where
  "at_char (At_char c) = c" | "at_char _ = NUL"

fun at_str :: "'r attr_val \<Rightarrow> string option" where
  "at_str (At_str s) = s" | "at_str _ = None"

fun at_size :: "'r attr_val \<Rightarrow> size_value" where
  "at_size (At_size z) = z" | "at_size _ = \<lparr>atsv_num = 0, atsv_shift = 0, atsv_units = 0\<rparr>"

fun at_arst :: "'r attr_val \<Rightarrow> array_strings option" where
  "at_arst (At_arst p) = p" | "at_arst _ = None"

fun at_list :: "'r attr_val \<Rightarrow> 'r list" where
  "at_list (At_list l) = l" | "at_list _ = []"

record 'r attribute =
  at_flags :: "16 word"
  at_type :: nat
  at_user_encoded :: "svrattrl option"
  at_priv_encoded :: "svrattrl option"
  at_val :: "'r attr_val"

abbreviation ATR_VFLAG_SET :: "16 word" where "ATR_VFLAG_SET \<equiv> 1"
abbreviation ATR_VFLAG_MODIFY :: "16 word" where "ATR_VFLAG_MODIFY \<equiv> 2"
abbreviation ATR_VFLAG_MODCACHE :: "16 word" where "ATR_VFLAG_MODCACHE \<equiv> 8"
abbreviation ATR_VFLAG_INDIRECT :: "16 word" where "ATR_VFLAG_INDIRECT \<equiv> 16"
abbreviation ATR_VFLAG_TARGET :: "16 word" where "ATR_VFLAG_TARGET \<equiv> 32"

abbreviation ATR_TYPE_SIZE :: nat where "ATR_TYPE_SIZE \<equiv> 5"

abbreviation PBSE_BADATVAL :: int where "PBSE_BADATVAL \<equiv> 15014"
abbreviation PBSE_INTERNAL :: int where "PBSE_INTERNAL \<equiv> 15011"

abbreviation batch_op_INCR :: uint where "batch_op_INCR \<equiv> 2"
abbreviation batch_op_DECR :: uint where "batch_op_DECR \<equiv> 3"

definition is_set :: "'r attribute \<Rightarrow> bool" where
  "is_set a \<longleftrightarrow> at_flags a AND ATR_VFLAG_SET \<noteq> 0"

text \<open>\<open>at_flags |= SET | MODIFY | MODCACHE\<close> and \<open>at_flags = (at_flags & ~SET) | MODIFY | MODCACHE\<close>.\<close>

definition mark_set :: "'r attribute \<Rightarrow> 'r attribute" where
  "mark_set a = a\<lparr>at_flags := at_flags a OR (ATR_VFLAG_SET OR ATR_VFLAG_MODIFY OR ATR_VFLAG_MODCACHE)\<rparr>"

definition mark_unset :: "'r attribute \<Rightarrow> 'r attribute" where
  "mark_unset a = a\<lparr>at_flags := (at_flags a AND NOT ATR_VFLAG_SET) OR (ATR_VFLAG_MODIFY OR ATR_VFLAG_MODCACHE)\<rparr>"

definition free_svrcache :: "'r attribute \<Rightarrow> 'r attribute" where
  "free_svrcache a = a\<lparr>at_user_encoded := None, at_priv_encoded := None\<rparr>"

definition free_null :: "'r attribute \<Rightarrow> 'r attribute" where
  "free_null a =
     (let a = a\<lparr>at_val := (if at_type a = ATR_TYPE_SIZE then At_size \<lparr>atsv_num = 0, atsv_shift = 10, atsv_units = 0\<rparr> else At_zero),
                at_flags := at_flags a AND NOT (ATR_VFLAG_SET OR ATR_VFLAG_INDIRECT OR ATR_VFLAG_TARGET)\<rparr>
      in if at_user_encoded a \<noteq> None \<or> at_priv_encoded a \<noteq> None then free_svrcache a else a)"

definition free_none :: "'r attribute \<Rightarrow> 'r attribute" where
  "free_none a = (if at_user_encoded a \<noteq> None \<or> at_priv_encoded a \<noteq> None then free_svrcache a else a)"

definition decode_null :: "'r attribute \<Rightarrow> string \<Rightarrow> string option \<Rightarrow> string option \<Rightarrow> int \<times> 'r attribute" where
  "decode_null patr name rn val = (0, patr)"

definition set_null :: "'r attribute \<Rightarrow> 'r attribute \<Rightarrow> uint \<Rightarrow> int \<times> 'r attribute" where
  "set_null pattr new opn = (0, pattr)"

definition comp_null :: "'r attribute \<Rightarrow> 'r attribute \<Rightarrow> int" where
  "comp_null attr with = 0"

text \<open>
  \<open>attrlist_alloc\<close>: one block for the structure and its three strings; the contents of the
  strings are unspecified until written, here empty.
\<close>

definition attrlist_alloc :: "(nat \<Rightarrow> bool) \<Rightarrow> int \<Rightarrow> int \<Rightarrow> int \<Rightarrow> svrattrl option" where
  "attrlist_alloc mal szname szresc szval =
     (if szname < 0 \<or> szresc < 0 \<or> szval < 0 then None
      else let tsize = sizeof_svrattrl + nat szname + nat szresc + nat szval in
        if \<not> mal tsize then None
        else Some \<lparr>al_name = [], al_resc = (if szresc \<noteq> 0 then Some [] else None), al_value = [], al_op = batch_op_SET,
               al_tsize = of_nat tsize, al_nameln = of_int szname, al_rescln = of_int szresc, al_valln = of_int szval,
               al_flags = 0, al_refct = 0\<rparr>)"

definition attrlist_create :: "(nat \<Rightarrow> bool) \<Rightarrow> string \<Rightarrow> string option \<Rightarrow> int \<Rightarrow> svrattrl option" where
  "attrlist_create mal aname rname vsize =
     (let asz = strlen aname + 1; rsz = (case rname of None \<Rightarrow> 0 | Some r \<Rightarrow> strlen r + 1)
      in case attrlist_alloc mal (int asz) (int rsz) vsize of None \<Rightarrow> None
         | Some pal \<Rightarrow> Some (pal\<lparr>al_name := aname, al_resc := (if rsz \<noteq> 0 then rname else al_resc pal), al_refct := al_refct pal + 1\<rparr>))"

text \<open>The last lines the encode functions share: create the entry, copy text and flags, append.\<close>

type_synonym encoded = "int \<times> svrattrl list option \<times> svrattrl option"

definition encode_text :: "(nat \<Rightarrow> bool) \<Rightarrow> 'r attribute \<Rightarrow> svrattrl list option \<Rightarrow> string \<Rightarrow> string option \<Rightarrow> int \<Rightarrow> string \<Rightarrow> encoded" where
  "encode_text mal attr phead atname rsname vsize value =
     (case attrlist_create mal atname rsname vsize of None \<Rightarrow> (- 1, phead, None)
      | Some pal \<Rightarrow>
        let pal = pal\<lparr>al_value := value, al_flags := unat (at_flags attr)\<rparr>
        in (1, map_option (\<lambda>l. l @ [pal]) phead, Some pal))"

section \<open>Booleans\<close>

definition is_true_or_false :: "string \<Rightarrow> int" where
  "is_true_or_false val =
     (if val \<in> {''True'', ''TRUE'', ''true'', ''t'', ''T'', ''1'', ''y'', ''Y''} then 1
      else if val \<in> {''False'', ''FALSE'', ''false'', ''f'', ''F'', ''0'', ''n'', ''N''} then 0
      else - 1)"

definition decode_b :: "'r attribute \<Rightarrow> string \<Rightarrow> string option \<Rightarrow> string option \<Rightarrow> int \<times> 'r attribute" where
  "decode_b patr name rescn val =
     (if val = None \<or> strlen (the val) = 0 then (0, (mark_unset patr)\<lparr>at_val := At_long 0\<rparr>)
      else let i = is_true_or_false (the val) in
        if i \<noteq> - 1 then (0, mark_set (patr\<lparr>at_val := At_long (of_int i)\<rparr>))
        else (PBSE_BADATVAL, patr))"

definition encode_b :: "(nat \<Rightarrow> bool) \<Rightarrow> 'r attribute option \<Rightarrow> svrattrl list option \<Rightarrow> string \<Rightarrow> string option \<Rightarrow> int \<Rightarrow> encoded" where
  "encode_b mal attr phead atname rsname mode =
     (case attr of None \<Rightarrow> (- 1, phead, None)
      | Some attr \<Rightarrow>
        if \<not> is_set attr then (0, phead, None)
        else let value = (if at_long (at_val attr) \<noteq> 0 then ''True'' else ''False'')
             in encode_text mal attr phead atname rsname (int (strlen value) + 1) value)"

definition set_b :: "'r attribute \<Rightarrow> 'r attribute \<Rightarrow> uint \<Rightarrow> int \<times> 'r attribute" where
  "set_b attr new opn =
     (let a = at_long (at_val attr); n = at_long (at_val new) in
      if opn = batch_op_SET then (0, mark_set (attr\<lparr>at_val := At_long n\<rparr>))
      else if opn = batch_op_INCR then (0, mark_set (attr\<lparr>at_val := At_long (a OR n)\<rparr>))
      else if opn = batch_op_DECR then (0, mark_set (attr\<lparr>at_val := At_long (a AND NOT n)\<rparr>))
      else (PBSE_INTERNAL, attr))"

definition comp_b :: "'r attribute option \<Rightarrow> 'r attribute option \<Rightarrow> int" where
  "comp_b attr with =
     (case (attr, with) of
        (Some a, Some w) \<Rightarrow> if (at_long (at_val a) = 0) = (at_long (at_val w) = 0) then 0 else 1
      | _ \<Rightarrow> 1)"

section \<open>Long integers\<close>

text \<open>
  The C library's \<open>strtol(s, NULL, 10)\<close>: white space, a sign and digits; the value is clamped,
  and the flag says whether \<open>errno\<close> becomes \<open>ERANGE\<close>. \<open>%ld\<close> is \<open>ld_str\<close>.
\<close>

definition strtol10 :: "string \<Rightarrow> ulong \<times> bool" where
  "strtol10 s =
     (let p = dropWhile isspace s;
          neg = (p \<noteq> [] \<and> hd p = CHR ''-'');
          p = (if p \<noteq> [] \<and> hd p \<in> {CHR ''-'', CHR ''+''} then tl p else p);
          n = dec_val (takeWhile is_digit p)
      in if neg then if n \<le> 2 ^ 63 then (- of_nat n, False) else (0x8000000000000000, True)
         else if n < 2 ^ 63 then (of_nat n, False) else (0x7FFFFFFFFFFFFFFF, True))"

definition int_str :: "int \<Rightarrow> string" where
  "int_str k = (if k < 0 then CHR ''-'' # dec_str (nat (- k)) else dec_str (nat k))"

definition ld_str :: "ulong \<Rightarrow> string" where
  "ld_str v = int_str (sint v)"

definition decode_l :: "'r attribute \<Rightarrow> string \<Rightarrow> string option \<Rightarrow> string option \<Rightarrow> int \<times> 'r attribute" where
  "decode_l patr name rescn val =
     (if val \<noteq> None \<and> strlen (the val) \<noteq> 0 then
        let v = the val; pc = (if hd v = CHR ''+'' \<or> hd v = CHR ''-'' then tl v else v) in
        if \<not> (\<forall>c \<in> set pc. is_digit c) then (PBSE_BADATVAL, patr)
        else (0, (mark_set patr)\<lparr>at_val := At_long (fst (strtol10 v))\<rparr>)
      else (0, (mark_unset patr)\<lparr>at_val := At_long 0\<rparr>))"

definition encode_l :: "(nat \<Rightarrow> bool) \<Rightarrow> 'r attribute option \<Rightarrow> svrattrl list option \<Rightarrow> string \<Rightarrow> string option \<Rightarrow> int \<Rightarrow> encoded" where
  "encode_l mal attr phead atname rsname mode =
     (case attr of None \<Rightarrow> (- 1, phead, None)
      | Some attr \<Rightarrow>
        if \<not> is_set attr then (0, phead, None)
        else let cvnbuf = ld_str (at_long (at_val attr))
             in encode_text mal attr phead atname rsname (int (strlen cvnbuf) + 1) cvnbuf)"

definition set_l :: "'r attribute \<Rightarrow> 'r attribute \<Rightarrow> uint \<Rightarrow> int \<times> 'r attribute" where
  "set_l attr new opn =
     (let a = at_long (at_val attr); n = at_long (at_val new) in
      if opn = batch_op_SET then (0, mark_set (attr\<lparr>at_val := At_long n\<rparr>))
      else if opn = batch_op_INCR then (0, mark_set (attr\<lparr>at_val := At_long (a + n)\<rparr>))
      else if opn = batch_op_DECR then (0, mark_set (attr\<lparr>at_val := At_long (a - n)\<rparr>))
      else (PBSE_INTERNAL, attr))"

text \<open>The three-way comparison of \<open>comp_l\<close>, \<open>comp_ll\<close> and \<open>comp_c\<close>.\<close>

definition cmp3 :: "int \<Rightarrow> int \<Rightarrow> int" where
  "cmp3 a w = (if a < w then - 1 else if a > w then 1 else 0)"

definition comp_l :: "'r attribute option \<Rightarrow> 'r attribute option \<Rightarrow> int" where
  "comp_l attr with =
     (case (attr, with) of (Some a, Some w) \<Rightarrow> cmp3 (sint (at_long (at_val a))) (sint (at_long (at_val w))) | _ \<Rightarrow> - 1)"

section \<open>64-bit integers\<close>

definition decode_ll :: "int \<Rightarrow> bool \<Rightarrow> 'r attribute \<Rightarrow> string \<Rightarrow> string option \<Rightarrow> string option \<Rightarrow> int \<times> 'r attribute" where
  "decode_ll errno long_neg patr name rescn val =
     (if val \<noteq> None \<and> strlen (the val) \<noteq> 0 then
        let (v, pc, _, _) = strTouL val 0 errno long_neg; patr = patr\<lparr>at_val := At_ll v\<rparr> in
        if pc \<noteq> Some [] then (PBSE_BADATVAL, patr) else (0, mark_set patr)
      else (0, (mark_unset patr)\<lparr>at_val := At_ll 0\<rparr>))"

definition encode_ll :: "(nat \<Rightarrow> bool) \<Rightarrow> 'r attribute option \<Rightarrow> svrattrl list option \<Rightarrow> string \<Rightarrow> string option \<Rightarrow> int \<Rightarrow> encoded" where
  "encode_ll mal attr phead atname rsname mode =
     (case attr of None \<Rightarrow> (- 1, phead, None)
      | Some attr \<Rightarrow>
        if \<not> is_set attr then (0, phead, None)
        else let cvn = fst (uLTostr (at_ll (at_val attr)) 10 0)
             in encode_text mal attr phead atname rsname (int (strlen cvn) + 1) cvn)"

definition set_ll :: "'r attribute \<Rightarrow> 'r attribute \<Rightarrow> uint \<Rightarrow> int \<times> 'r attribute" where
  "set_ll attr new opn =
     (let a = at_ll (at_val attr); n = at_ll (at_val new) in
      if opn = batch_op_SET then (0, mark_set (attr\<lparr>at_val := At_ll n\<rparr>))
      else if opn = batch_op_INCR then (0, mark_set (attr\<lparr>at_val := At_ll (a + n)\<rparr>))
      else if opn = batch_op_DECR then (0, mark_set (attr\<lparr>at_val := At_ll (a - n)\<rparr>))
      else (PBSE_INTERNAL, attr))"

definition comp_ll :: "'r attribute option \<Rightarrow> 'r attribute option \<Rightarrow> int" where
  "comp_ll attr with =
     (case (attr, with) of (Some a, Some w) \<Rightarrow> cmp3 (sint (at_ll (at_val a))) (sint (at_ll (at_val w))) | _ \<Rightarrow> - 1)"

section \<open>Characters\<close>

definition decode_c :: "'r attribute \<Rightarrow> string \<Rightarrow> string option \<Rightarrow> string option \<Rightarrow> int \<times> 'r attribute" where
  "decode_c patr name rescn val =
     (if val = None \<or> strlen (the val) = 0 then (0, (mark_unset patr)\<lparr>at_val := At_char NUL\<rparr>)
      else (0, (mark_set patr)\<lparr>at_val := At_char (hd (the val))\<rparr>))"

definition encode_c :: "(nat \<Rightarrow> bool) \<Rightarrow> 'r attribute option \<Rightarrow> svrattrl list option \<Rightarrow> string \<Rightarrow> string option \<Rightarrow> int \<Rightarrow> encoded" where
  "encode_c mal attr phead atname rsname mode =
     (case attr of None \<Rightarrow> (- 1, phead, None)
      | Some attr \<Rightarrow>
        if \<not> is_set attr then (0, phead, None)
        else encode_text mal attr phead atname rsname 2 [at_char (at_val attr)])"

definition set_c :: "'r attribute \<Rightarrow> 'r attribute \<Rightarrow> uint \<Rightarrow> int \<times> 'r attribute" where
  "set_c attr new opn =
     (let a = at_char (at_val attr); n = at_char (at_val new) in
      if opn = batch_op_SET then (0, mark_set (attr\<lparr>at_val := At_char n\<rparr>))
      else if opn = batch_op_INCR then (0, mark_set (attr\<lparr>at_val := At_char (char_of_int (schar a + schar n))\<rparr>))
      else if opn = batch_op_DECR then (0, mark_set (attr\<lparr>at_val := At_char (char_of_int (schar a - schar n))\<rparr>))
      else (PBSE_INTERNAL, attr))"

definition comp_c :: "'r attribute option \<Rightarrow> 'r attribute option \<Rightarrow> int" where
  "comp_c attr with =
     (case (attr, with) of (Some a, Some w) \<Rightarrow> cmp3 (schar (at_char (at_val a))) (schar (at_char (at_val w))) | _ \<Rightarrow> - 1)"

section \<open>Strings\<close>

definition decode_str :: "(nat \<Rightarrow> bool) \<Rightarrow> 'r attribute \<Rightarrow> string \<Rightarrow> string option \<Rightarrow> string option \<Rightarrow> int \<times> 'r attribute" where
  "decode_str mal patr name rescn val =
     (if val \<noteq> None \<and> strlen (the val) + 1 > 1 then
        if \<not> mal (strlen (the val) + 1) then (PBSE_SYSTEM, patr\<lparr>at_val := At_str None\<rparr>)
        else (0, mark_set (patr\<lparr>at_val := At_str val\<rparr>))
      else (0, (mark_unset patr)\<lparr>at_val := At_str None\<rparr>))"

definition encode_str :: "(nat \<Rightarrow> bool) \<Rightarrow> 'r attribute option \<Rightarrow> svrattrl list option \<Rightarrow> string \<Rightarrow> string option \<Rightarrow> int \<Rightarrow> encoded" where
  "encode_str mal attr phead atname rsname mode =
     (case attr of None \<Rightarrow> (- 1, phead, None)
      | Some attr \<Rightarrow>
        (case at_str (at_val attr) of None \<Rightarrow> (0, phead, None)
         | Some str \<Rightarrow>
           if \<not> is_set attr \<or> strlen str = 0 then (0, phead, None)
           else encode_text mal attr phead atname rsname (int (strlen str) + 1) str))"

text \<open>
  The \<open>DECR\<close> loop: \<open>p\<close> runs from the last place where the pattern could stand down to the
  start of the string; after a removal it stands past the end of the shortened string, one step
  before its terminator. \<open>str_decr n s k\<close> is the loop with \<open>p\<close> at offset \<open>k - 1\<close>.
\<close>

function str_decr :: "string \<Rightarrow> string \<Rightarrow> nat \<Rightarrow> string" where
  "str_decr n s 0 = s"
| "str_decr n s (Suc p) =
     (if n \<noteq> [] \<and> p + length n \<le> length s \<and> take (length n) (drop p s) = n
      then let s = take p s @ drop (p + length n) s in str_decr n s (Suc (length s))
      else str_decr n s p)"
  by pat_completeness auto
termination
proof (relation "measures [\<lambda>(n, s, k). length s, \<lambda>(n, s, k). k]")
  fix n s :: string and p x
  assume a: "n \<noteq> [] \<and> p + length n \<le> length s \<and> take (length n) (drop p s) = n" "x = take p s @ drop (p + length n) s"
  then have "0 < length n" "p + length n \<le> length s" by simp_all
  moreover from this have "length x = p + (length s - (p + length n))" using a(2) by simp
  ultimately have "length x < length s" by linarith
  then show "((n, x, Suc (length x)), n, s, Suc p) \<in> measures [\<lambda>(n, s, k). length s, \<lambda>(n, s, k). k]" by simp
qed simp_all

definition set_str :: "(nat \<Rightarrow> bool) \<Rightarrow> 'r attribute \<Rightarrow> 'r attribute \<Rightarrow> uint \<Rightarrow> int \<times> 'r attribute" where
  "set_str mal attr new opn =
     (let n = opt_str (at_str (at_val new)); nsize = strlen n + 1; cur = at_str (at_val attr);
          opn = (if opn = batch_op_INCR \<and> cur = None then batch_op_SET else opn);
          fin = (\<lambda>a. (0, if at_str (at_val a) \<noteq> None \<and> at_str (at_val a) \<noteq> Some [] then mark_set a
                          else a\<lparr>at_flags := at_flags a AND NOT ATR_VFLAG_SET\<rparr>))
      in if opn = batch_op_SET then
           if \<not> mal nsize then (PBSE_SYSTEM, attr\<lparr>at_val := At_str None\<rparr>)
           else fin (attr\<lparr>at_val := At_str (Some n)\<rparr>)
         else if opn = batch_op_INCR then
           if \<not> mal (nsize + strlen (opt_str cur)) then (PBSE_SYSTEM, attr)
           else fin (attr\<lparr>at_val := At_str (Some (opt_str cur @ n))\<rparr>)
         else if opn = batch_op_DECR then
           case cur of None \<Rightarrow> fin attr
           | Some str \<Rightarrow>
             if n = [] then fin attr
             else fin (attr\<lparr>at_val := At_str (Some (if length n \<le> length str then str_decr n str (Suc (length str - length n)) else str))\<rparr>)
         else (PBSE_INTERNAL, attr))"

text \<open>\<open>strcmp\<close>, of which only the sign is specified.\<close>

fun strcmp :: "string \<Rightarrow> string \<Rightarrow> int" where
  "strcmp [] [] = 0"
| "strcmp [] (b # bs) = - 1"
| "strcmp (a # as) [] = 1"
| "strcmp (a # as) (b # bs) = (if uchar a < uchar b then - 1 else if uchar b < uchar a then 1 else strcmp as bs)"

definition comp_str :: "'r attribute option \<Rightarrow> 'r attribute \<Rightarrow> int" where
  "comp_str attr with =
     (case attr of None \<Rightarrow> - 1
      | Some a \<Rightarrow> (case at_str (at_val a) of None \<Rightarrow> - 1 | Some str \<Rightarrow> strcmp str (opt_str (at_str (at_val with)))))"

definition free_str :: "'r attribute \<Rightarrow> 'r attribute" where
  "free_str attr = (free_null attr)\<lparr>at_val := At_str None\<rparr>"

definition PBS_MAXJOBNAME :: nat where "PBS_MAXJOBNAME = 236"

definition decode_jobname :: "(nat \<Rightarrow> bool) \<Rightarrow> 'r attribute \<Rightarrow> string \<Rightarrow> string option \<Rightarrow> string option \<Rightarrow> int \<times> 'r attribute" where
  "decode_jobname mal patr name rescn val =
     (if val \<noteq> None \<and> strlen (the val) > PBS_MAXJOBNAME then (PBSE_BADATVAL, patr)
      else decode_str mal patr name rescn val)"

section \<open>Holds\<close>

abbreviation HOLD_u :: ulong where "HOLD_u \<equiv> 1"
abbreviation HOLD_o :: ulong where "HOLD_o \<equiv> 2"
abbreviation HOLD_s :: ulong where "HOLD_s \<equiv> 4"
abbreviation HOLD_bad_password :: ulong where "HOLD_bad_password \<equiv> 8"

fun hold_loop :: "ulong \<Rightarrow> string \<Rightarrow> int \<times> ulong" where
  "hold_loop v [] = (0, v)"
| "hold_loop v (c # cs) =
     (if c = CHR ''n'' then hold_loop 0 cs
      else if c = CHR ''u'' then hold_loop (v OR HOLD_u) cs
      else if c = CHR ''o'' then hold_loop (v OR HOLD_o) cs
      else if c = CHR ''s'' then hold_loop (v OR HOLD_s) cs
      else if c = CHR ''p'' then hold_loop (v OR HOLD_bad_password) cs
      else (PBSE_BADATVAL, v))"

definition decode_hold :: "'r attribute \<Rightarrow> string \<Rightarrow> string option \<Rightarrow> string option \<Rightarrow> int \<times> 'r attribute" where
  "decode_hold patr name rescn val =
     (if val \<noteq> None \<and> strlen (the val) > 0 then
        let (rc, v) = hold_loop 0 (the val); patr = patr\<lparr>at_val := At_long v\<rparr> in
        if rc \<noteq> 0 then (rc, patr) else (0, mark_set patr)
      else (0, mark_unset (patr\<lparr>at_val := At_long 0\<rparr>)))"

definition HOLD_ENCODE_SIZE :: nat where "HOLD_ENCODE_SIZE = 4"

definition hold_text :: "ulong \<Rightarrow> string" where
  "hold_text v =
     (if v = 0 then ''n''
      else (if v AND HOLD_s \<noteq> 0 then ''s'' else []) @ (if v AND HOLD_o \<noteq> 0 then ''o'' else []) @
           (if v AND HOLD_u \<noteq> 0 then ''u'' else []) @ (if v AND HOLD_bad_password \<noteq> 0 then ''p'' else []))"

definition encode_hold :: "(nat \<Rightarrow> bool) \<Rightarrow> 'r attribute option \<Rightarrow> svrattrl list option \<Rightarrow> string \<Rightarrow> string option \<Rightarrow> int \<Rightarrow> encoded" where
  "encode_hold mal attr phead atname rsname mode =
     (case attr of None \<Rightarrow> (- 1, phead, None)
      | Some attr \<Rightarrow>
        if \<not> is_set attr then (0, phead, None)
        else encode_text mal attr phead atname rsname (int HOLD_ENCODE_SIZE + 1) (hold_text (at_long (at_val attr))))"

definition comp_hold :: "'r attribute option \<Rightarrow> 'r attribute option \<Rightarrow> int" where
  "comp_hold attr with =
     (case (attr, with) of (Some a, Some w) \<Rightarrow> if at_long (at_val a) = at_long (at_val w) then 0 else 1 | _ \<Rightarrow> - 1)"

text \<open>The interactive attribute is a flag for clients and hooks, a port number otherwise.\<close>

definition encode_inter :: "(nat \<Rightarrow> bool) \<Rightarrow> 'r attribute option \<Rightarrow> svrattrl list option \<Rightarrow> string \<Rightarrow> string option \<Rightarrow> int \<Rightarrow> encoded" where
  "encode_inter mal attr phead atname rsname mode =
     (if mode = 0 \<or> mode = 4 then encode_b mal attr phead atname rsname mode else encode_l mal attr phead atname rsname mode)"

section \<open>Times\<close>

text \<open>
  The loop of \<open>decode_time\<close>: the character before (none at the start), the colons so far, the value
  so far, the digits since the last colon, and the rest of the text. It gives the value, the digits of
  the last field and the fraction.
\<close>

definition prev_digit :: "char option \<Rightarrow> bool" where
  "prev_digit c = (case c of None \<Rightarrow> False | Some d \<Rightarrow> is_digit d)"

fun time_loop :: "char option \<Rightarrow> nat \<Rightarrow> ulong \<Rightarrow> string \<Rightarrow> string \<Rightarrow> (ulong \<times> string \<times> string) option" where
  "time_loop prev ncolon rv workval [] = Some (rv, workval, [])"
| "time_loop prev ncolon rv workval (c # cs) =
     (if c = CHR '':'' then
        if ncolon + 1 > 2 \<or> \<not> prev_digit prev then None
        else (case strtol10 workval of (v, erange) \<Rightarrow>
                if sint v < 0 \<or> erange then None else time_loop (Some c) (ncolon + 1) (rv * 60 + v) [] cs)
      else if c = CHR ''.'' then
        if \<not> prev_digit prev \<or> \<not> (\<forall>d \<in> set cs. is_digit d) then None else Some (rv, workval, cs)
      else if \<not> is_digit c then None
      else time_loop (Some c) ncolon rv (workval @ [c]) cs)"

definition PBS_MAX_TIME :: int where "PBS_MAX_TIME = 2 ^ 63 - 2"

definition decode_time :: "(nat \<Rightarrow> bool) \<Rightarrow> 'r attribute \<Rightarrow> string \<Rightarrow> string option \<Rightarrow> string option \<Rightarrow> int \<times> 'r attribute" where
  "decode_time mal patr name rescn val =
     (if val = None \<or> strlen (the val) = 0 then (0, (mark_unset patr)\<lparr>at_val := At_long 0\<rparr>)
      else if \<not> mal (strlen (the val) + 1) then (PBSE_SYSTEM, patr)
      else case time_loop None 0 0 [] (the val) of None \<Rightarrow> (PBSE_BADATVAL, patr)
        | Some (rv, workval, frac) \<Rightarrow>
          (case strtol10 workval of (v, erange) \<Rightarrow>
             if sint v < 0 \<or> erange then (PBSE_BADATVAL, patr)
             else let rv = rv * 60 + v in
               if sint rv > PBS_MAX_TIME \<or> sint rv < 0 then (PBSE_BADATVAL, patr)
               else let msec = take 3 (take 3 frac @ ''000'');
                        rv = (if dec_val msec \<ge> 500 then rv + 1 else rv)
                    in (0, mark_set (patr\<lparr>at_val := At_long rv\<rparr>))))"

text \<open>\<open>%02d\<close> and \<open>%02ld\<close>; division and remainder of C truncate towards zero.\<close>

definition fmt02 :: "int \<Rightarrow> string" where
  "fmt02 k = (let s = int_str k in if length s < 2 then CHR ''0'' # s else s)"

definition time_text :: "ulong \<Rightarrow> string" where
  "time_text v =
     (let n = sint v; hr = n sdiv 3600; n = n smod 3600; mn = n sdiv 60; sec = n smod 60
      in fmt02 hr @ '':'' @ fmt02 mn @ '':'' @ fmt02 sec)"

text \<open>
  The text is printed into \<open>char cvnbuf[CVNBUFSZ]\<close>: with its terminator it needs to have at most \<open>CVNBUFSZ\<close> bytes. A
  longer one, hours of more than fourteen digits, overruns the buffer; nothing is known of what follows, and the value of the model
  is unspecified.
\<close>

definition CVNBUFSZ_time :: nat where "CVNBUFSZ_time = 21"

definition encode_time :: "(nat \<Rightarrow> bool) \<Rightarrow> 'r attribute option \<Rightarrow> svrattrl list option \<Rightarrow> string \<Rightarrow> string option \<Rightarrow> int \<Rightarrow> encoded" where
  "encode_time mal attr phead atname rsname mode =
     (case attr of None \<Rightarrow> (- 1, phead, None)
      | Some attr \<Rightarrow>
        if \<not> is_set attr then (0, phead, None)
        else let cvnbuf = time_text (at_long (at_val attr))
             in if length cvnbuf < CVNBUFSZ_time then encode_text mal attr phead atname rsname (int (strlen cvnbuf) + 1) cvnbuf
                else undefined)"

definition at_non_zero_time :: "'r attribute \<Rightarrow> int" where
  "at_non_zero_time pattr = (if \<not> is_set pattr then 0 else if at_long (at_val pattr) = 0 then PBSE_BADATVAL else 0)"

section \<open>Flags and texts\<close>

lemma flag_bits:
  "(f :: 16 word) AND 1 \<noteq> 0 \<longleftrightarrow> bit f 0" "(f :: 16 word) AND 2 \<noteq> 0 \<longleftrightarrow> bit f 1" "(f :: 16 word) AND 8 \<noteq> 0 \<longleftrightarrow> bit f 3"
  using and_exp_eq_0_iff_not_bit [of f 0] and_exp_eq_0_iff_not_bit [of f 1] and_exp_eq_0_iff_not_bit [of f 3] by simp_all

lemma is_set_mark [simp]:
  "is_set (mark_set a)" "\<not> is_set (mark_unset a)" "is_set (a\<lparr>at_val := v\<rparr>) = is_set a"
  "is_set (a\<lparr>at_flags := at_flags a AND NOT ATR_VFLAG_SET\<rparr>) = False"
  by (simp_all add: is_set_def flag_bits mark_set_def mark_unset_def bit_simps)

lemma mark_fields [simp]:
  "at_val (mark_set a) = at_val a" "at_type (mark_set a) = at_type a" "at_val (mark_unset a) = at_val a"
  "at_type (mark_unset a) = at_type a"
  by (simp_all add: mark_set_def mark_unset_def)

lemma mark_modified:
  "at_flags (mark_set a) AND ATR_VFLAG_MODIFY \<noteq> 0" "at_flags (mark_unset a) AND ATR_VFLAG_MODIFY \<noteq> 0"
  by (simp_all add: flag_bits mark_set_def mark_unset_def bit_simps)

lemma free_unset [simp]: "\<not> is_set (free_null a)" "\<not> is_set (free_str a)"
  by (simp_all add: is_set_def flag_bits free_null_def free_svrcache_def free_str_def Let_def bit_simps)

text \<open>An entry of the encoded form: name, resource, text and flags of the attribute.\<close>

definition entry_for :: "'r attribute \<Rightarrow> string \<Rightarrow> string option \<Rightarrow> string \<Rightarrow> svrattrl \<Rightarrow> bool" where
  "entry_for a nm rn tx pal \<longleftrightarrow> al_name pal = nm \<and> al_resc pal = rn \<and> al_value pal = tx \<and>
     al_op pal = batch_op_SET \<and> al_flags pal = unat (at_flags a)"

lemma encode_text_ok:
  assumes "0 \<le> vsize"
  shows "\<exists>pal. encode_text (\<lambda>_. True) a phead nm rn vsize tx = (1, map_option (\<lambda>l. l @ [pal]) phead, Some pal) \<and> entry_for a nm rn tx pal"
  using assms by (auto simp: encode_text_def attrlist_create_def attrlist_alloc_def Let_def entry_for_def split: option.split)

lemma encode_text_fail: "encode_text (\<lambda>_. False) a phead nm rn vsize tx = (- 1, phead, None)"
  by (auto simp: encode_text_def attrlist_create_def attrlist_alloc_def Let_def split: option.split)

section \<open>Numbers as text\<close>

lemma is_digit_char:
  assumes "is_digit c"
  shows "\<not> isspace c" "c \<noteq> CHR ''-''" "c \<noteq> CHR ''+''" "c \<noteq> CHR '':''" "c \<noteq> CHR ''.''" "c \<noteq> NUL"
  using assms by (auto simp: is_digit_def isspace_def uchar_def)

lemma strtol10_digits:
  assumes "\<forall>c \<in> set ds. is_digit c" "dec_val ds < 2 ^ 63"
  shows "strtol10 ds = (of_nat (dec_val ds), False)"
proof -
  have p: "dropWhile isspace ds = ds" "takeWhile is_digit ds = ds"
    using assms(1) is_digit_char by (cases ds; auto)+
  have h: "ds \<noteq> [] \<Longrightarrow> hd ds \<noteq> CHR ''-''" "ds \<noteq> [] \<Longrightarrow> hd ds \<noteq> CHR ''+''"
    using assms(1) is_digit_char by (cases ds; auto)+
  have "(ds \<noteq> [] \<and> hd ds = CHR ''-'') = False" "(ds \<noteq> [] \<and> hd ds \<in> {CHR ''-'', CHR ''+''}) = False" using h by auto
  then show ?thesis unfolding strtol10_def Let_def p using assms(2) by (simp only: if_False p) simp
qed

lemma strtol10_neg:
  assumes "\<forall>c \<in> set ds. is_digit c" "dec_val ds \<le> 2 ^ 63"
  shows "strtol10 (CHR ''-'' # ds) = (- of_nat (dec_val ds), False)"
proof -
  have p: "takeWhile is_digit ds = ds" using assms(1) by (simp add: takeWhile_eq_all_conv)
  show ?thesis using assms(2) sign_char by (simp add: strtol10_def Let_def p)
qed

lemma strtol10_ld_str: "strtol10 (ld_str v) = (v, False)"
proof (cases "sint v < 0")
  case True
  have "nat (- sint v) \<le> 2 ^ 63" using sint_bounds(1) [of v] True by (simp add: nat_le_iff)
  then have "strtol10 (ld_str v) = (- of_nat (nat (- sint v)), False)"
    using True strtol10_neg [of "dec_str (nat (- sint v))"] dec_str_digits by (simp add: ld_str_def int_str_def)
  moreover have "- of_nat (nat (- sint v)) = v" using True by simp
  ultimately show ?thesis by simp
next
  case False
  have "nat (sint v) < 2 ^ 63" using sint_bounds(2) [of v] False by (simp add: nat_less_iff)
  then have "strtol10 (ld_str v) = (of_nat (nat (sint v)), False)"
    using False strtol10_digits [of "dec_str (nat (sint v))"] dec_str_digits by (simp add: ld_str_def int_str_def)
  moreover have "of_nat (nat (sint v)) = v" using False by simp
  ultimately show ?thesis by simp
qed

lemma dec_str_c_string [simp]: "c_string (dec_str n)"
  using dec_str_digits is_digit_char(6) by (auto simp: c_string_def)

lemma int_str_c_string [simp]: "c_string (int_str k)" "int_str k \<noteq> []"
  by (simp_all add: int_str_def)

lemma decode_l_text: "decode_l b nm rn (Some (ld_str v)) = (0, (mark_set b)\<lparr>at_val := At_long v\<rparr>)"
proof -
  have "strlen (ld_str v) \<noteq> 0" by (simp add: ld_str_def)
  moreover have "\<forall>c \<in> set (if hd (ld_str v) = CHR ''+'' \<or> hd (ld_str v) = CHR ''-'' then tl (ld_str v) else ld_str v). is_digit c"
  proof (cases "sint v < 0")
    case False
    have "hd (dec_str n) \<in> set (dec_str n)" for n by (rule hd_in_set) simp
    then have "is_digit (hd (dec_str n))" for n using dec_str_digits by blast
    then show ?thesis using False dec_str_digits is_digit_char(2,3) by (auto simp: ld_str_def int_str_def)
  qed (use dec_str_digits in \<open>auto simp: ld_str_def int_str_def\<close>)
  ultimately show ?thesis by (simp add: decode_l_def strtol10_ld_str Let_def)
qed

lemma decode_b_text:
  "decode_b b nm rn (Some (if v \<noteq> 0 then ''True'' else ''False'')) = (0, mark_set (b\<lparr>at_val := At_long (if v \<noteq> 0 then 1 else 0)\<rparr>))"
  by (simp add: decode_b_def is_true_or_false_def strlen_def)

lemma decode_ll_text: "decode_ll e neg b nm rn (Some (fst (uLTostr v 10 0))) = (0, mark_set (b\<lparr>at_val := At_ll v\<rparr>))"
proof -
  have u: "fst (uLTostr v 10 0) = to_base 10 (unat v) []" using uLTostr_eq [of 10 v 0] by simp
  have "dig_table c < 10 \<Longrightarrow> c \<noteq> NUL" for c by (auto simp: dig_table_def uchar_def CHAR_MAX_def)
  then have "c_string (to_base 10 (unat v) [])" using to_base_digits [of 10 "unat v"] by (auto simp: c_string_def)
  then have "strlen (fst (uLTostr v 10 0)) \<noteq> 0" using to_base_ne [of 10 "unat v"] by (simp add: u)
  then show ?thesis using strTouL_base0 [of 10 v 0 e neg] by (simp add: decode_ll_def)
qed

lemma decode_c_text: "c \<noteq> NUL \<Longrightarrow> decode_c b nm rn (Some [c]) = (0, (mark_set b)\<lparr>at_val := At_char c\<rparr>)"
  by (simp add: decode_c_def strlen_def)

lemma decode_str_text:
  "c_string s \<Longrightarrow> s \<noteq> [] \<Longrightarrow> decode_str (\<lambda>_. True) b nm rn (Some s) = (0, mark_set (b\<lparr>at_val := At_str (Some s)\<rparr>))"
  by (simp add: decode_str_def)

lemma hold_text_loop: "v < 16 \<Longrightarrow> hold_loop 0 (hold_text v) = (0, v)"
proof -
  assume "v < 16"
  then have "unat v < 16" by (simp add: word_less_nat_alt)
  moreover have "list_all (\<lambda>i. hold_loop 0 (hold_text (of_nat i)) = (0, of_nat i)) [0..<16]" by code_simp
  then have "i < 16 \<Longrightarrow> hold_loop 0 (hold_text (of_nat i)) = (0, of_nat i)" for i
    by (simp only: list_all_iff set_upt) simp
  ultimately have "hold_loop 0 (hold_text (of_nat (unat v))) = (0, of_nat (unat v))" by blast
  then show "hold_loop 0 (hold_text v) = (0, v)" by simp
qed

lemma hold_text_ne: "c_string (hold_text v)" "v < 16 \<Longrightarrow> hold_text v \<noteq> []"
proof -
  assume "v < 16"
  then show "hold_text v \<noteq> []" using hold_text_loop [of v] by (cases "v = 0") (auto simp: hold_text_def)
qed (simp add: hold_text_def)

lemma decode_hold_text: "v < 16 \<Longrightarrow> decode_hold b nm rn (Some (hold_text v)) = (0, mark_set (b\<lparr>at_val := At_long v\<rparr>))"
  using hold_text_loop [of v] hold_text_ne [of v] by (simp add: decode_hold_def)

section \<open>Times as text\<close>

lemma time_loop_digits:
  assumes "\<forall>c \<in> set ds. is_digit c" "ds \<noteq> []"
  shows "time_loop prev nc rv wv (ds @ cs) = time_loop (Some (last ds)) nc rv (wv @ ds) cs"
  using assms
proof (induction ds arbitrary: prev wv)
  case (Cons c ds)
  have "c \<noteq> CHR '':''" "c \<noteq> CHR ''.''" "is_digit c" using Cons.prems is_digit_char by auto
  then show ?case using Cons.IH [of "Some c" "wv @ [c]"] Cons.prems by (cases "ds = []") simp_all
qed simp

lemma time_loop_field:
  assumes "\<forall>c \<in> set ds. is_digit c" "ds \<noteq> []" "dec_val ds < 2 ^ 63" "nc < 2"
  shows "time_loop prev nc rv [] (ds @ CHR '':'' # cs) = time_loop (Some CHR '':'') (nc + 1) (rv * 60 + of_nat (dec_val ds)) [] cs"
proof -
  have "unat (of_nat (dec_val ds) :: ulong) = dec_val ds" using assms(3) by (simp add: unat_of_nat_small)
  then have "\<not> sint (of_nat (dec_val ds) :: ulong) < 0"
    using sint_pos_unat [of "of_nat (dec_val ds) :: ulong"] assms(3) by simp
  moreover have "prev_digit (Some (last ds))" using assms(1,2) by (simp add: prev_digit_def)
  ultimately show ?thesis
    using assms(4) by (simp add: time_loop_digits [OF assms(1,2)] strtol10_digits [OF assms(1,3)])
qed

lemma fmt02_digits:
  assumes "0 \<le> k"
  shows "(\<forall>c \<in> set (fmt02 k). is_digit c)" "fmt02 k \<noteq> []" "dec_val (fmt02 k) = nat k"
  using assms dec_str_digits by (auto simp: fmt02_def int_str_def Let_def dec_val_Cons uchar_def is_digit_def split: if_splits)

lemma sdiv_nonneg: "0 \<le> k \<Longrightarrow> 0 < l \<Longrightarrow> k sdiv l = k div (l::int)" "0 \<le> k \<Longrightarrow> 0 < l \<Longrightarrow> k smod l = k mod (l::int)"
  by (cases "k = 0"; simp add: signed_divide_int_def signed_modulo_int_def)+

lemma time_split: "0 \<le> (n::int) \<Longrightarrow> (n div 3600 * 60 + n mod 3600 div 60) * 60 + n mod 3600 mod 60 = n"
proof -
  have "(q * 60 + m) * 60 + s = n" if "3600 * q + r = n" "60 * m + s = r" for q r m s :: int
    using that by (simp add: algebra_simps)
  from this [OF mult_div_mod_eq mult_div_mod_eq] show ?thesis .
qed

lemma fmt02_length:
  assumes "0 \<le> k" "k < 10 ^ d" "2 \<le> d"
  shows "length (fmt02 k) \<le> d"
proof -
  have "nat k < 10 ^ d" using assms(2) by (simp add: nat_less_iff)
  then have "length (dec_str (nat k)) \<le> d" using assms(3) by (subst dec_str_length_pow) simp_all
  then show ?thesis using assms(1,3) by (simp add: fmt02_def int_str_def Let_def)
qed

lemma time_text_length:
  assumes "0 \<le> sint v" "sint v < 3600 * 10 ^ 14"
  shows "length (time_text v) < CVNBUFSZ_time"
proof -
  have "length (fmt02 (sint v div 3600)) \<le> 14" using assms by (intro fmt02_length) (simp_all add: pos_imp_zdiv_nonneg_iff)
  moreover have "length (fmt02 (sint v mod 3600 div 60)) \<le> 2" "length (fmt02 (sint v mod 3600 mod 60)) \<le> 2"
    by (rule fmt02_length; simp add: pos_imp_zdiv_nonneg_iff)+
  ultimately show ?thesis using assms by (simp add: time_text_def Let_def sdiv_nonneg CVNBUFSZ_time_def)
qed

lemma decode_time_text:
  assumes "0 \<le> sint v" "sint v \<le> PBS_MAX_TIME"
  shows "decode_time (\<lambda>_. True) b nm rn (Some (time_text v)) = (0, mark_set (b\<lparr>at_val := At_long v\<rparr>))"
proof -
  define n where "n = sint v"
  define h m s where "h = n div 3600" and "m = n mod 3600 div 60" and "s = n mod 3600 mod 60"
  have n: "0 \<le> n" "n < 2 ^ 63" using assms sint_bounds(2) [of v] by (simp_all add: n_def)
  then have nn: "0 \<le> h" "0 \<le> m" "0 \<le> s" by (simp_all add: h_def m_def s_def pos_imp_zdiv_nonneg_iff)
  have lt: "nat h < 2 ^ 63" "nat m < 2 ^ 63" "nat s < 2 ^ 63"
    using n by (auto simp: h_def m_def s_def nat_less_iff)
  have tx: "time_text v = fmt02 h @ CHR '':'' # fmt02 m @ CHR '':'' # fmt02 s"
    using n by (simp add: time_text_def Let_def n_def h_def m_def s_def sdiv_nonneg)
  have "time_loop None 0 0 [] (time_text v) = Some (of_nat (nat h) * 60 + of_nat (nat m), fmt02 s, [])"
    unfolding tx
    using time_loop_field [OF fmt02_digits(1,2) [OF nn(1)], unfolded fmt02_digits(3) [OF nn(1)], OF lt(1), of 0 None 0]
      time_loop_field [OF fmt02_digits(1,2) [OF nn(2)], unfolded fmt02_digits(3) [OF nn(2)], OF lt(2), of 1]
      time_loop_digits [OF fmt02_digits(1,2) [OF nn(3)], where cs = "[]"] by simp
  moreover have sec: "strtol10 (fmt02 s) = (of_nat (nat s), False)"
    using strtol10_digits [OF fmt02_digits(1) [OF nn(3)]] lt(3) fmt02_digits(3) [OF nn(3)] by simp
  moreover have "\<not> sint (of_nat (nat s) :: ulong) < 0"
    using sint_pos_unat [of "of_nat (nat s) :: ulong"] lt(3) by (simp add: unat_of_nat_small)
  moreover have rv: "(of_nat (nat h) * 60 + of_nat (nat m)) * 60 + of_nat (nat s) = v"
  proof -
    have "(word_of_int h * 60 + word_of_int m) * 60 + word_of_int s = (word_of_int ((h * 60 + m) * 60 + s) :: ulong)" by simp
    also have "\<dots> = v" using time_split [OF n(1)] by (simp only: h_def m_def s_def) (simp add: n_def)
    finally show ?thesis using nn by simp
  qed
  moreover have "c_string (time_text v)" "time_text v \<noteq> []"
    using fmt02_digits(1) nn is_digit_char(6) by (auto simp: tx c_string_def)
  ultimately show ?thesis
    using assms n by (simp add: decode_time_def Let_def n_def uchar_def dec_val_Cons dec_val_def [of "[]"])
qed

end
