(* ===== verification/Attr_Size.thy ===== *)
theory Attr_Size
  imports Attr_Value
begin

unbundle bit_operations_syntax

text \<open>
  Size attributes (\<open>src/src/lib/Libattr/attr_fn_size.c\<close>): a number, a binary exponent (0, 10, 20,
  30, 40 or 50, written as nothing, \<open>k\<close>, \<open>m\<close>, \<open>g\<close>, \<open>t\<close>, \<open>p\<close>) and a unit
  (bytes or words of \<open>SIZEOF_WORD\<close> bytes). Comparison and arithmetic first bring both
  operands to kilobytes or more, rounding up, and to the smaller exponent.
\<close>

section \<open>Operations\<close>

abbreviation ATR_SV_WORDSZ :: nat where "ATR_SV_WORDSZ \<equiv> 1"
abbreviation ATR_SV_BYTESZ :: nat where "ATR_SV_BYTESZ \<equiv> 0"
abbreviation SIZEOF_WORD :: ulong where "SIZEOF_WORD \<equiv> 8"

text \<open>
  The suffix of a size: the two \<open>switch\<close> statements of \<open>to_size\<close> on the characters after the
  number. \<open>None\<close> stands for \<open>PBSE_BADATVAL\<close>; the exponent is unchanged when no letter gives one.
\<close>

definition suffix_shift :: "char \<Rightarrow> nat option" where
  "suffix_shift c =
     (if c \<in> {CHR ''k'', CHR ''K''} then Some 10 else if c \<in> {CHR ''m'', CHR ''M''} then Some 20
      else if c \<in> {CHR ''g'', CHR ''G''} then Some 30 else if c \<in> {CHR ''t'', CHR ''T''} then Some 40
      else if c \<in> {CHR ''p'', CHR ''P''} then Some 50 else None)"

definition suffix_unit :: "char \<Rightarrow> nat option" where
  "suffix_unit c =
     (if c \<in> {CHR ''b'', CHR ''B''} then Some ATR_SV_BYTESZ
      else if c \<in> {CHR ''w'', CHR ''W''} then Some ATR_SV_WORDSZ else None)"

fun size_suffix :: "string \<Rightarrow> size_value \<Rightarrow> size_value option" where
  "size_suffix [] z = Some z"
| "size_suffix [c] z =
     (case suffix_shift c of Some k \<Rightarrow> Some (z\<lparr>atsv_shift := k\<rparr>)
      | None \<Rightarrow> (case suffix_unit c of Some u \<Rightarrow> Some (z\<lparr>atsv_units := u\<rparr>) | None \<Rightarrow> None))"
| "size_suffix [c, d] z =
     (case suffix_shift c of Some k \<Rightarrow>
        (case suffix_unit d of Some u \<Rightarrow> Some (z\<lparr>atsv_shift := k, atsv_units := u\<rparr>) | None \<Rightarrow> None)
      | None \<Rightarrow> None)"
| "size_suffix _ z = None"

text \<open>\<open>to_size\<close> returns its status, the size and \<open>errno\<close>; a size that is refused is left half assigned.\<close>

definition to_size :: "string option \<Rightarrow> size_value \<Rightarrow> int \<Rightarrow> bool \<Rightarrow> int \<times> size_value \<times> int" where
  "to_size val z errno long_neg =
     (case val of None \<Rightarrow> (PBSE_BADATVAL, z, errno)
      | Some v \<Rightarrow>
        (case strTouL val 10 errno long_neg of (n, pc, errno, _) \<Rightarrow>
           let z = z\<lparr>atsv_units := ATR_SV_BYTESZ, atsv_num := n\<rparr> in
           if pc = Some v then (PBSE_BADATVAL, z, errno)
           else case size_suffix (opt_str pc) z of None \<Rightarrow> (PBSE_BADATVAL, z, errno) | Some z \<Rightarrow> (0, z, errno)))"

definition decode_size :: "bool \<Rightarrow> 'r attribute \<Rightarrow> string \<Rightarrow> string option \<Rightarrow> string option \<Rightarrow> int \<times> 'r attribute" where
  "decode_size long_neg patr name rescn val =
     (let z = (at_size (at_val patr))\<lparr>atsv_num := 0, atsv_shift := 0\<rparr> in
      if val \<noteq> None \<and> strlen (the val) \<noteq> 0 then
        case to_size val z 0 long_neg of (rc, z, errno) \<Rightarrow>
          let patr = patr\<lparr>at_val := At_size z\<rparr> in
          if rc \<noteq> 0 then (PBSE_BADATVAL, patr) else if errno \<noteq> 0 then (PBSE_BADATVAL, patr) else (0, mark_set patr)
      else (0, mark_unset (patr\<lparr>at_val := At_size z\<rparr>)))"

definition from_size :: "size_value \<Rightarrow> string" where
  "from_size z =
     dec_str (unat (atsv_num z)) @
     (if atsv_shift z = 10 then ''k'' else if atsv_shift z = 20 then ''m'' else if atsv_shift z = 30 then ''g''
      else if atsv_shift z = 40 then ''t'' else if atsv_shift z = 50 then ''p'' else []) @
     (if atsv_units z AND ATR_SV_WORDSZ \<noteq> 0 then ''w'' else ''b'')"

definition encode_size :: "(nat \<Rightarrow> bool) \<Rightarrow> 'r attribute option \<Rightarrow> svrattrl list option \<Rightarrow> string \<Rightarrow> string option \<Rightarrow> int \<Rightarrow> encoded" where
  "encode_size mal attr phead atname rsname mode =
     (case attr of None \<Rightarrow> (- 1, phead, None)
      | Some attr \<Rightarrow>
        if \<not> is_set attr then (0, phead, None)
        else let cvnbuf = from_size (at_size (at_val attr))
             in encode_text mal attr phead atname rsname (int (strlen cvnbuf) + 1) cvnbuf)"

text \<open>\<open>normalize_size\<close>: whether it succeeds, and the two operands it leaves.\<close>

definition to_bytes :: "size_value \<Rightarrow> size_value" where
  "to_bytes z = z\<lparr>atsv_num := atsv_num z * SIZEOF_WORD, atsv_units := ATR_SV_BYTESZ\<rparr>"

definition to_kilo :: "size_value \<Rightarrow> size_value" where
  "to_kilo z = (if atsv_shift z = 0 then z\<lparr>atsv_num := drop_bit 10 (atsv_num z + 1023), atsv_shift := 10\<rparr> else z)"

definition normalize_size :: "size_value \<Rightarrow> size_value \<Rightarrow> bool \<times> size_value \<times> size_value" where
  "normalize_size a b =
     (let aw = (atsv_units a = ATR_SV_WORDSZ); bw = (atsv_units b = ATR_SV_WORDSZ);
          ta = to_kilo (if aw \<and> \<not> bw then to_bytes a else a);
          tb = to_kilo (if \<not> aw \<and> bw then to_bytes b else b)
      in if atsv_shift ta > atsv_shift tb then
           let adj = atsv_shift ta - atsv_shift tb in
           if adj > 64 \<or> drop_bit adj (push_bit adj (atsv_num ta)) \<noteq> atsv_num ta then (False, ta, tb)
           else (True, ta\<lparr>atsv_shift := atsv_shift tb, atsv_num := push_bit adj (atsv_num ta)\<rparr>, tb)
         else if atsv_shift ta < atsv_shift tb then
           let adj = atsv_shift tb - atsv_shift ta in
           if adj > 64 \<or> drop_bit adj (push_bit adj (atsv_num tb)) \<noteq> atsv_num tb then (False, ta, tb)
           else (True, ta, tb\<lparr>atsv_shift := atsv_shift ta, atsv_num := push_bit adj (atsv_num tb)\<rparr>)
         else (True, ta, tb))"

definition set_size :: "'r attribute \<Rightarrow> 'r attribute \<Rightarrow> uint \<Rightarrow> int \<times> 'r attribute" where
  "set_size attr new opn =
     (let opn = (if opn = batch_op_INCR \<and> (\<not> is_set attr \<or> atsv_num (at_size (at_val attr)) = 0) then batch_op_SET else opn)
      in if opn = batch_op_SET then (0, mark_set (attr\<lparr>at_val := At_size (at_size (at_val new))\<rparr>))
         else if opn = batch_op_INCR then
           case normalize_size (at_size (at_val attr)) (at_size (at_val new)) of (ok, tmpa, tmpn) \<Rightarrow>
             if \<not> ok then (PBSE_BADATVAL, attr)
             else let sum = atsv_num tmpa + atsv_num tmpn in
               if sum < atsv_num tmpa then (PBSE_BADATVAL, attr)
               else (0, mark_set (attr\<lparr>at_val := At_size (tmpa\<lparr>atsv_num := sum\<rparr>)\<rparr>))
         else if opn = batch_op_DECR then
           case normalize_size (at_size (at_val attr)) (at_size (at_val new)) of (ok, tmpa, tmpn) \<Rightarrow>
             if \<not> ok then (PBSE_BADATVAL, attr)
             else let diff = atsv_num tmpa - atsv_num tmpn in
               if diff > atsv_num tmpa then (PBSE_BADATVAL, attr)
               else (0, mark_set (attr\<lparr>at_val := At_size (tmpa\<lparr>atsv_num := diff\<rparr>)\<rparr>))
         else (PBSE_INTERNAL, attr))"

definition comp_size :: "'r attribute \<Rightarrow> 'r attribute \<Rightarrow> int" where
  "comp_size attr with =
     (case normalize_size (at_size (at_val attr)) (at_size (at_val with)) of (ok, tmpa, tmpw) \<Rightarrow>
        if \<not> ok then
          if atsv_shift tmpa > atsv_shift tmpw then 1 else if atsv_shift tmpa < atsv_shift tmpw then - 1 else 0
        else if atsv_num tmpa > atsv_num tmpw then 1
        else if atsv_num tmpa < atsv_num tmpw then - 1
        else 0)"

definition get_kilobytes_from_attr :: "'r attribute option \<Rightarrow> ulong" where
  "get_kilobytes_from_attr attr =
     (case attr of None \<Rightarrow> 0
      | Some a \<Rightarrow>
        if \<not> is_set a \<or> at_type a \<noteq> ATR_TYPE_SIZE then 0
        else let z = at_size (at_val a);
                 val = (if atsv_units z = ATR_SV_WORDSZ then atsv_num z * SIZEOF_WORD else atsv_num z)
             in if atsv_shift z = 0 then drop_bit 10 (val + 1023) else push_bit (atsv_shift z - 10) val)"

definition get_bytes_from_attr :: "'r attribute option \<Rightarrow> ulong" where
  "get_bytes_from_attr attr =
     (case attr of None \<Rightarrow> 0
      | Some a \<Rightarrow>
        if \<not> is_set a \<or> at_type a \<noteq> ATR_TYPE_SIZE then 0
        else let z = at_size (at_val a);
                 val = (if atsv_units z = ATR_SV_WORDSZ then atsv_num z * SIZEOF_WORD else atsv_num z)
             in if atsv_shift z \<noteq> 0 then push_bit (atsv_shift z) val else val)"

section \<open>Sizes as text\<close>

definition wf_size :: "size_value \<Rightarrow> bool" where
  "wf_size z \<longleftrightarrow> atsv_shift z \<in> {0, 10, 20, 30, 40, 50} \<and> atsv_units z \<in> {ATR_SV_BYTESZ, ATR_SV_WORDSZ}"

lemma num_val_dec: "\<forall>c \<in> set ds. is_digit c \<Longrightarrow> num_val 10 v ds = foldl (\<lambda>v c. 10 * v + (uchar c - 48)) v ds"
proof (induction ds arbitrary: v)
  case (Cons c ds)
  then have "dig_table c = uchar c - 48" by (simp add: dig_table_def is_digit_def Let_def)
  then show ?case using Cons by (simp add: mult.commute)
qed simp

lemma digit_dig_table: "is_digit c \<Longrightarrow> dig_table c < 10"
  by (auto simp: dig_table_def is_digit_def Let_def)

lemma dec_str_digits_then: "rest = [] \<or> dig_table (hd rest) \<ge> 10 \<Longrightarrow> digits_then 10 (dec_str n) rest"
  using dec_str_digits digit_dig_table by (auto simp: digits_then_def)

lemma strTouL_dec_str:
  assumes "rest = [] \<or> dig_table (hd rest) \<ge> 10"
  shows "strTouL (Some (dec_str (unat v) @ rest)) 10 errno neg = (v, Some rest, errno, False)"
proof -
  have "num_val 10 0 (dec_str (unat v)) = unat v"
    using num_val_dec [of "dec_str (unat v)" 0] dec_str_digits dec_val_dec_str [of "unat v"] by (simp add: dec_val_def)
  then show ?thesis
    using strTouL_numeral [of "[]" "[]" 10 "dec_str (unat v)" rest errno neg] dec_str_digits_then [OF assms]
      unat_ulong_less [of v] by (simp add: sign_str_def)
qed

lemma to_size_from_size:
  assumes "wf_size z" "atsv_shift y = 0"
  shows "to_size (Some (from_size z)) y errno neg = (0, z, errno)"
proof -
  define sh :: string where "sh = (if atsv_shift z = 10 then ''k'' else if atsv_shift z = 20 then ''m'' else if atsv_shift z = 30 then ''g''
      else if atsv_shift z = 40 then ''t'' else if atsv_shift z = 50 then ''p'' else [])"
  define u :: string where "u = (if atsv_units z AND ATR_SV_WORDSZ \<noteq> 0 then ''w'' else ''b'')"
  have tx: "from_size z = dec_str (unat (atsv_num z)) @ sh @ u" by (simp add: from_size_def sh_def u_def)
  have "dig_table (hd (sh @ u)) \<ge> 10" "sh @ u \<noteq> []" by (auto simp: sh_def u_def dig_table_def uchar_def)
  then have n: "strTouL (Some (dec_str (unat (atsv_num z)) @ sh @ u)) 10 errno neg = (atsv_num z, Some (sh @ u), errno, False)"
    by (intro strTouL_dec_str) simp
  have ne: "sh @ u \<noteq> dec_str (unat (atsv_num z)) @ sh @ u" by simp
  have "size_suffix (sh @ u) (y\<lparr>atsv_units := 0, atsv_num := atsv_num z\<rparr>) = Some z"
    using assms by (cases z, cases y) (auto simp: wf_size_def sh_def u_def suffix_shift_def suffix_unit_def)
  then show ?thesis using n ne by (simp add: to_size_def tx opt_str_def Let_def)
qed

lemma from_size_c_string: "c_string (from_size z)" "from_size z \<noteq> []"
  by (simp_all add: from_size_def)

lemma decode_size_text:
  assumes "wf_size z"
  shows "decode_size neg b nm rn (Some (from_size z)) = (0, mark_set (b\<lparr>at_val := At_size z\<rparr>))"
  using to_size_from_size [OF assms] from_size_c_string [of z] by (simp add: decode_size_def)

lemma from_size_bound: "length (from_size z) + 1 \<le> 23"
proof -
  have "length (dec_str (unat (atsv_num z))) \<le> 20" by (rule dec_str_ulong_length)
  then show ?thesis by (simp add: from_size_def)
qed

section \<open>Sizes as quantities\<close>

text \<open>
  What a size amounts to, in units of 1024 bytes or, when both operands are given in words, in units
  of 1024 words: exact for every exponent but 0, where it is rounded up.
\<close>

definition size_units :: "bool \<Rightarrow> size_value \<Rightarrow> nat" where
  "size_units words z = unat (atsv_num z) * (if \<not> words \<and> atsv_units z = ATR_SV_WORDSZ then 8 else 1)"

definition size_kb :: "bool \<Rightarrow> size_value \<Rightarrow> nat" where
  "size_kb words z =
     (if atsv_shift z = 0 then (size_units words z + 1023) div 1024 else size_units words z * 2 ^ (atsv_shift z - 10))"

definition size_fits :: "bool \<Rightarrow> size_value \<Rightarrow> bool" where
  "size_fits words z \<longleftrightarrow> wf_size z \<and> size_units words z + 1023 < 2 ^ 64"

definition both_words :: "size_value \<Rightarrow> size_value \<Rightarrow> bool" where
  "both_words a b \<longleftrightarrow> atsv_units a = ATR_SV_WORDSZ \<and> atsv_units b = ATR_SV_WORDSZ"

text \<open>The operand as \<open>normalize_size\<close> has it before the exponents are made equal.\<close>

definition kilo_operand :: "bool \<Rightarrow> size_value \<Rightarrow> size_value" where
  "kilo_operand words z = to_kilo (if \<not> words \<and> atsv_units z = ATR_SV_WORDSZ then to_bytes z else z)"

definition kilo_val :: "size_value \<Rightarrow> nat" where
  "kilo_val z = unat (atsv_num z) * 2 ^ (atsv_shift z - 10)"

lemma unat_drop_bit_div: "unat (drop_bit n (w :: ulong)) = unat w div 2 ^ n"
  by (simp add: unat_drop_bit_eq flip: drop_bit_eq_div)

lemma unat_push_bit_mod: "unat (push_bit k (w :: ulong)) = unat w * 2 ^ k mod 2 ^ 64"
  by (simp only: unsigned_push_bit_eq) (simp add: push_bit_eq_mult take_bit_eq_mod)

lemma kilo_operand_units:
  assumes "size_fits words z"
  shows "unat (atsv_num (if \<not> words \<and> atsv_units z = ATR_SV_WORDSZ then to_bytes z else z)) = size_units words z"
  using assms by (auto simp: size_fits_def size_units_def to_bytes_def unat_word_ariths)

lemma kilo_operand_val:
  assumes "size_fits words z"
  shows "kilo_val (kilo_operand words z) = size_kb words z" "atsv_shift (kilo_operand words z) \<in> {10, 20, 30, 40, 50}"
    "atsv_units (kilo_operand words z) = (if words then atsv_units z else ATR_SV_BYTESZ)"
proof -
  define y where "y = (if \<not> words \<and> atsv_units z = ATR_SV_WORDSZ then to_bytes z else z)"
  have u: "unat (atsv_num y) = size_units words z" using kilo_operand_units [OF assms] by (simp add: y_def)
  have "unat (atsv_num y + 1023) = size_units words z + 1023"
    using assms u by (simp add: size_fits_def unat_word_ariths)
  moreover have sh: "atsv_shift y = atsv_shift z" by (simp add: y_def to_bytes_def)
  moreover have ko: "kilo_operand words z = to_kilo y" by (simp add: kilo_operand_def y_def)
  ultimately show "kilo_val (kilo_operand words z) = size_kb words z"
    using u by (simp add: kilo_val_def to_kilo_def size_kb_def unat_drop_bit_div)
  show "atsv_shift (kilo_operand words z) \<in> {10, 20, 30, 40, 50}"
    using assms sh by (auto simp: ko to_kilo_def size_fits_def wf_size_def)
  show "atsv_units (kilo_operand words z) = (if words then atsv_units z else ATR_SV_BYTESZ)"
    using assms by (auto simp: kilo_operand_def to_kilo_def to_bytes_def size_fits_def wf_size_def)
qed

lemma shift_back:
  assumes "k < 64"
  shows "drop_bit k (push_bit k (w :: ulong)) = w \<longleftrightarrow> unat w * 2 ^ k < 2 ^ 64"
proof -
  have split: "(2::nat) ^ 64 = 2 ^ (64 - k) * 2 ^ k" using assms by (simp flip: power_add)
  have "unat w * 2 ^ k mod 2 ^ 64 div 2 ^ k = unat w mod 2 ^ (64 - k)"
    unfolding split by (simp add: mod_mult_mult2 del: power_add)
  then have "unat (drop_bit k (push_bit k w)) = unat w mod 2 ^ (64 - k)" by (simp add: unat_drop_bit_div unat_push_bit_mod)
  then have "drop_bit k (push_bit k w) = w \<longleftrightarrow> unat w mod 2 ^ (64 - k) = unat w" by (metis word_unat_eq_iff)
  also have "\<dots> \<longleftrightarrow> unat w < 2 ^ (64 - k)" by (metis mod_less mod_less_divisor zero_less_numeral zero_less_power)
  finally show ?thesis by (simp only: split) simp
qed

lemma unat_push_bit_fits: "unat w * 2 ^ k < 2 ^ 64 \<Longrightarrow> unat (push_bit k (w :: ulong)) = unat w * 2 ^ k"
  by (simp add: unat_push_bit_mod)

text \<open>
  Two operands that fit: \<open>normalize_size\<close> succeeds exactly when the operand with the larger
  exponent can be expressed with the smaller one in 64 bits, and then both keep their value.
\<close>

lemma normalize_size_operands:
  "normalize_size a b =
     (let w = both_words a b; ta = kilo_operand w a; tb = kilo_operand w b
      in if atsv_shift ta > atsv_shift tb then
           let adj = atsv_shift ta - atsv_shift tb in
           if adj > 64 \<or> drop_bit adj (push_bit adj (atsv_num ta)) \<noteq> atsv_num ta then (False, ta, tb)
           else (True, ta\<lparr>atsv_shift := atsv_shift tb, atsv_num := push_bit adj (atsv_num ta)\<rparr>, tb)
         else if atsv_shift ta < atsv_shift tb then
           let adj = atsv_shift tb - atsv_shift ta in
           if adj > 64 \<or> drop_bit adj (push_bit adj (atsv_num tb)) \<noteq> atsv_num tb then (False, ta, tb)
           else (True, ta, tb\<lparr>atsv_shift := atsv_shift ta, atsv_num := push_bit adj (atsv_num tb)\<rparr>)
         else (True, ta, tb))"
  by (auto simp: normalize_size_def kilo_operand_def both_words_def Let_def)

definition common_shift :: "size_value \<Rightarrow> size_value \<Rightarrow> nat" where
  "common_shift a b = min (max 10 (atsv_shift a)) (max 10 (atsv_shift b)) - 10"

lemma kilo_operand_shift:
  "atsv_shift (kilo_operand w z) = (if atsv_shift z = 0 then 10 else atsv_shift z)"
  by (simp add: kilo_operand_def to_kilo_def to_bytes_def)

lemma common_shift_eq:
  assumes "size_fits w a" "size_fits w b"
  shows "common_shift a b + 10 = min (atsv_shift (kilo_operand w a)) (atsv_shift (kilo_operand w b))"
  using assms by (auto simp: common_shift_def kilo_operand_shift size_fits_def wf_size_def)

lemma kilo_rescale:
  assumes "10 \<le> t" "t \<le> atsv_shift z"
  shows "kilo_val z = unat (atsv_num z) * 2 ^ (atsv_shift z - t) * 2 ^ (t - 10)"
  using assms by (simp add: kilo_val_def mult.assoc flip: power_add)

lemma kilo_below:
  assumes "atsv_shift z = s + 10"
  shows "kilo_val z < 2 ^ (64 + s)"
proof -
  have "unat (atsv_num z) < 2 ^ 64" using unat_ulong_less [of "atsv_num z"] by simp
  then have "unat (atsv_num z) * 2 ^ s < 2 ^ 64 * 2 ^ s" by (rule mult_strict_right_mono) simp
  then show ?thesis using assms by (simp add: kilo_val_def power_add)
qed

lemma rescaled:
  assumes "10 \<le> t" "t < atsv_shift z" "atsv_shift z \<le> 50"
  shows "drop_bit (atsv_shift z - t) (push_bit (atsv_shift z - t) (atsv_num z)) = atsv_num z \<longleftrightarrow> kilo_val z < 2 ^ (64 + (t - 10))"
    "kilo_val z < 2 ^ (64 + (t - 10)) \<Longrightarrow> unat (push_bit (atsv_shift z - t) (atsv_num z)) * 2 ^ (t - 10) = kilo_val z"
proof -
  have kv: "kilo_val z = unat (atsv_num z) * 2 ^ (atsv_shift z - t) * 2 ^ (t - 10)" using kilo_rescale assms by simp
  have lt: "kilo_val z < 2 ^ (64 + (t - 10)) \<longleftrightarrow> unat (atsv_num z) * 2 ^ (atsv_shift z - t) < 2 ^ 64"
    unfolding kv power_add by simp
  show "drop_bit (atsv_shift z - t) (push_bit (atsv_shift z - t) (atsv_num z)) = atsv_num z \<longleftrightarrow> kilo_val z < 2 ^ (64 + (t - 10))"
    using shift_back [of "atsv_shift z - t"] assms lt by simp
  show "kilo_val z < 2 ^ (64 + (t - 10)) \<Longrightarrow> unat (push_bit (atsv_shift z - t) (atsv_num z)) * 2 ^ (t - 10) = kilo_val z"
    using unat_push_bit_fits [of "atsv_num z" "atsv_shift z - t"] lt kv by simp
qed

definition normalized :: "size_value \<Rightarrow> size_value \<Rightarrow> bool \<times> size_value \<times> size_value \<Rightarrow> bool" where
  "normalized a b r = (case r of (ok, x, y) \<Rightarrow>
     let w = both_words a b; s = common_shift a b; limit = 2 ^ (64 + s) in
     if ok then size_kb w a < limit \<and> size_kb w b < limit \<and>
       unat (atsv_num x) * 2 ^ s = size_kb w a \<and> unat (atsv_num y) * 2 ^ s = size_kb w b \<and>
       atsv_shift x = s + 10 \<and> atsv_shift y = s + 10 \<and> atsv_units x = (if w then ATR_SV_WORDSZ else ATR_SV_BYTESZ)
     else (atsv_shift y < atsv_shift x \<and> limit \<le> size_kb w a \<and> size_kb w b < limit) \<or>
       (atsv_shift x < atsv_shift y \<and> limit \<le> size_kb w b \<and> size_kb w a < limit))"

lemma normalize_size_spec:
  assumes "size_fits (both_words a b) a" "size_fits (both_words a b) b"
  shows "normalized a b (normalize_size a b)"
proof -
  define w s where "w = both_words a b" and "s = common_shift a b"
  define ta tb where "ta = kilo_operand w a" and "tb = kilo_operand w b"
  note a = kilo_operand_val [OF assms(1), folded w_def ta_def]
  note b = kilo_operand_val [OF assms(2), folded w_def tb_def]
  have cs: "s + 10 = min (atsv_shift ta) (atsv_shift tb)" using common_shift_eq [OF assms] by (simp add: w_def s_def ta_def tb_def)
  have wu: "w \<Longrightarrow> atsv_units a = 1" by (simp add: w_def both_words_def)
  have rng: "10 \<le> atsv_shift ta" "atsv_shift ta \<le> 50" "10 \<le> atsv_shift tb" "atsv_shift tb \<le> 50" using a(2) b(2) by auto
  then have adj: "\<not> 64 < atsv_shift ta - atsv_shift tb" "\<not> 64 < atsv_shift tb - atsv_shift ta" by arith+
  note n = normalize_size_operands [of a b, unfolded Let_def, folded w_def, folded ta_def tb_def]
    normalized_def [of a b, unfolded Let_def, folded w_def s_def]
  consider (gt) "atsv_shift ta > atsv_shift tb" | (lt) "atsv_shift ta < atsv_shift tb" | (eq) "atsv_shift ta = atsv_shift tb"
    by linarith
  then show ?thesis
  proof cases
    case gt
    then have s: "atsv_shift tb = s + 10" using cs by simp
    have *: "kilo_val tb < 2 ^ (64 + s)" "kilo_val tb = unat (atsv_num tb) * 2 ^ s" using kilo_below [OF s] s by (simp_all add: kilo_val_def)
    show ?thesis using gt rng(2) rescaled [of "s + 10" ta] * a(1,3) b(1) s wu adj(1) by (simp add: n)
  next
    case lt
    then have s: "atsv_shift ta = s + 10" using cs by simp
    have *: "kilo_val ta < 2 ^ (64 + s)" "kilo_val ta = unat (atsv_num ta) * 2 ^ s" using kilo_below [OF s] s by (simp_all add: kilo_val_def)
    show ?thesis using lt rng(4) rescaled [of "s + 10" tb] * a(1,3) b(1) s wu adj(2) by (simp add: n)
  next
    case eq
    then have s: "atsv_shift ta = s + 10" "atsv_shift tb = s + 10" using cs by simp_all
    have "kilo_val ta < 2 ^ (64 + s)" "kilo_val ta = unat (atsv_num ta) * 2 ^ s"
      "kilo_val tb < 2 ^ (64 + s)" "kilo_val tb = unat (atsv_num tb) * 2 ^ s"
      using kilo_below [OF s(1)] kilo_below [OF s(2)] s by (simp_all add: kilo_val_def)
    then show ?thesis using a(1,3) b(1) s wu by (simp add: n)
  qed
qed

text \<open>Comparison is the comparison of the quantities, also when the exponents are too far apart.\<close>

lemma comp_size_spec:
  assumes "size_fits (both_words (at_size (at_val a)) (at_size (at_val b))) (at_size (at_val a))"
    "size_fits (both_words (at_size (at_val a)) (at_size (at_val b))) (at_size (at_val b))"
  shows "comp_size a b =
    (let w = both_words (at_size (at_val a)) (at_size (at_val b))
     in cmp3 (int (size_kb w (at_size (at_val a)))) (int (size_kb w (at_size (at_val b)))))"
proof -
  let ?a = "at_size (at_val a)" and ?b = "at_size (at_val b)"
  obtain ok x y where n: "normalize_size ?a ?b = (ok, x, y)" by (cases "normalize_size ?a ?b")
  have sp: "normalized ?a ?b (ok, x, y)" using normalize_size_spec [OF assms] n by simp
  show ?thesis
  proof (cases ok)
    case True
    then have k: "unat (atsv_num x) * 2 ^ common_shift ?a ?b = size_kb (both_words ?a ?b) ?a"
      "unat (atsv_num y) * 2 ^ common_shift ?a ?b = size_kb (both_words ?a ?b) ?b"
      using sp by (simp_all add: normalized_def Let_def)
    have "atsv_num y < atsv_num x \<longleftrightarrow> size_kb (both_words ?a ?b) ?b < size_kb (both_words ?a ?b) ?a"
      "atsv_num x < atsv_num y \<longleftrightarrow> size_kb (both_words ?a ?b) ?a < size_kb (both_words ?a ?b) ?b"
      by (simp_all add: word_less_nat_alt flip: k)
    then show ?thesis using True n by (simp add: comp_size_def Let_def cmp3_def)
  qed (use sp n in \<open>auto simp: comp_size_def normalized_def Let_def cmp3_def\<close>)
qed

text \<open>
  Addition and subtraction: exact on the quantities, in bytes unless both operands are in words; an
  error, with the attribute untouched, when an operand or the sum does not fit in 64 bits at the smaller exponent or
  when the difference would be negative.
\<close>

definition size_incr_fits :: "size_value \<Rightarrow> size_value \<Rightarrow> bool" where
  "size_incr_fits a b \<longleftrightarrow> size_kb (both_words a b) a + size_kb (both_words a b) b < 2 ^ (64 + common_shift a b)"

definition size_decr_fits :: "size_value \<Rightarrow> size_value \<Rightarrow> bool" where
  "size_decr_fits a b \<longleftrightarrow> size_kb (both_words a b) a < 2 ^ (64 + common_shift a b) \<and> size_kb (both_words a b) b \<le> size_kb (both_words a b) a"

lemma word_sum_wraps: "x + y < (x :: ulong) \<longleftrightarrow> 2 ^ 64 \<le> unat x + unat y"
  using unat_ulong_less [of x] unat_ulong_less [of y]
  by (auto simp: word_less_nat_alt unat_plus_if')

lemma word_diff_wraps: "x < x - (y :: ulong) \<longleftrightarrow> unat x < unat y"
  using unat_ulong_less [of x] unat_ulong_less [of y] by (auto simp: word_less_nat_alt unat_sub_if')

lemma normalize_size_cases:
  assumes "size_fits (both_words a b) a" "size_fits (both_words a b) b"
  obtains x y where "normalize_size a b = (True, x, y)" "normalized a b (True, x, y)"
  | x y where "normalize_size a b = (False, x, y)" "\<not> size_incr_fits a b" "\<not> size_decr_fits a b"
proof -
  obtain ok x y where n: "normalize_size a b = (ok, x, y)" by (cases "normalize_size a b")
  then have "normalized a b (ok, x, y)" using normalize_size_spec [OF assms] by simp
  then show ?thesis using that n
    by (cases ok) (auto simp: normalized_def Let_def size_incr_fits_def size_decr_fits_def)
qed

definition size_result :: "size_value \<Rightarrow> size_value \<Rightarrow> nat \<Rightarrow> size_value \<Rightarrow> bool" where
  "size_result a b k z \<longleftrightarrow> size_kb (both_words a b) z = k \<and> atsv_shift z \<ge> 10 \<and>
     atsv_units z = (if both_words a b then ATR_SV_WORDSZ else ATR_SV_BYTESZ)"

lemma size_resultI:
  assumes "normalized a b (True, x, y)" "unat v * 2 ^ common_shift a b = k"
  shows "size_result a b k (x\<lparr>atsv_num := v\<rparr>)"
  using assms by (auto simp: normalized_def Let_def size_result_def size_kb_def size_units_def)

lemma set_size_incr:
  assumes "size_fits (both_words (at_size (at_val a)) (at_size (at_val n))) (at_size (at_val a))"
    "size_fits (both_words (at_size (at_val a)) (at_size (at_val n))) (at_size (at_val n))"
    "is_set a" "atsv_num (at_size (at_val a)) \<noteq> 0"
  defines "w \<equiv> both_words (at_size (at_val a)) (at_size (at_val n))"
  shows "if size_incr_fits (at_size (at_val a)) (at_size (at_val n))
    then \<exists>z. set_size a n batch_op_INCR = (0, mark_set (a\<lparr>at_val := At_size z\<rparr>)) \<and>
      size_result (at_size (at_val a)) (at_size (at_val n)) (size_kb w (at_size (at_val a)) + size_kb w (at_size (at_val n))) z
    else set_size a n batch_op_INCR = (PBSE_BADATVAL, a)"
  using assms(1,2)
proof (cases rule: normalize_size_cases)
  case (1 x y)
  let ?s = "common_shift (at_size (at_val a)) (at_size (at_val n))"
  have k: "size_kb w (at_size (at_val a)) + size_kb w (at_size (at_val n)) = (unat (atsv_num x) + unat (atsv_num y)) * 2 ^ ?s"
    using 1(2) by (simp add: normalized_def Let_def w_def algebra_simps)
  have f: "size_incr_fits (at_size (at_val a)) (at_size (at_val n)) \<longleftrightarrow> unat (atsv_num x) + unat (atsv_num y) < 2 ^ 64"
    unfolding size_incr_fits_def w_def [symmetric] k power_add by simp
  have r: "set_size a n batch_op_INCR =
    (if atsv_num x + atsv_num y < atsv_num x then (PBSE_BADATVAL, a)
     else (0, mark_set (a\<lparr>at_val := At_size (x\<lparr>atsv_num := atsv_num x + atsv_num y\<rparr>)\<rparr>)))"
    using assms(3,4) 1(1) by (simp add: set_size_def batch_op_SET_def)
  show ?thesis
    using r size_resultI [OF 1(2), of "atsv_num x + atsv_num y"] k
    by (auto simp: f word_sum_wraps unat_word_ariths)
qed (use assms(3,4) in \<open>simp add: set_size_def batch_op_SET_def\<close>)

lemma set_size_decr:
  assumes "size_fits (both_words (at_size (at_val a)) (at_size (at_val n))) (at_size (at_val a))"
    "size_fits (both_words (at_size (at_val a)) (at_size (at_val n))) (at_size (at_val n))"
  defines "w \<equiv> both_words (at_size (at_val a)) (at_size (at_val n))"
  shows "if size_decr_fits (at_size (at_val a)) (at_size (at_val n))
    then \<exists>z. set_size a n batch_op_DECR = (0, mark_set (a\<lparr>at_val := At_size z\<rparr>)) \<and>
      size_result (at_size (at_val a)) (at_size (at_val n)) (size_kb w (at_size (at_val a)) - size_kb w (at_size (at_val n))) z
    else set_size a n batch_op_DECR = (PBSE_BADATVAL, a)"
  using assms(1,2)
proof (cases rule: normalize_size_cases)
  case (1 x y)
  let ?s = "common_shift (at_size (at_val a)) (at_size (at_val n))"
  have k: "size_kb w (at_size (at_val a)) = unat (atsv_num x) * 2 ^ ?s" "size_kb w (at_size (at_val n)) = unat (atsv_num y) * 2 ^ ?s"
    "size_kb w (at_size (at_val a)) < 2 ^ (64 + ?s)"
    using 1(2) by (simp_all add: normalized_def Let_def w_def)
  have f: "size_decr_fits (at_size (at_val a)) (at_size (at_val n)) \<longleftrightarrow> unat (atsv_num y) \<le> unat (atsv_num x)"
    using k(3) unfolding size_decr_fits_def w_def [symmetric] k by simp
  have r: "set_size a n batch_op_DECR =
    (if atsv_num x < atsv_num x - atsv_num y then (PBSE_BADATVAL, a)
     else (0, mark_set (a\<lparr>at_val := At_size (x\<lparr>atsv_num := atsv_num x - atsv_num y\<rparr>)\<rparr>)))"
    using 1(1) by (simp add: set_size_def batch_op_SET_def)
  show ?thesis
    using r size_resultI [OF 1(2), of "atsv_num x - atsv_num y"] k
    by (auto simp: f word_diff_wraps unat_sub_if' diff_mult_distrib)
qed (simp add: set_size_def batch_op_SET_def)

text \<open>Beyond those bounds the product of words and word size wraps: 2^61 kilowords compare as less than one kilobyte.\<close>

lemma word_operand_wraps:
  assumes "at_val a = At_size \<lparr>atsv_num = 2305843009213693952, atsv_shift = 10, atsv_units = ATR_SV_WORDSZ\<rparr>"
    "at_val b = At_size \<lparr>atsv_num = 1, atsv_shift = 10, atsv_units = ATR_SV_BYTESZ\<rparr>"
  shows "comp_size a b = - 1"
proof -
  have "\<not> 1 < (18446744073709551616 :: ulong)" by code_simp
  then show ?thesis
    by (simp add: assms comp_size_def normalize_size_def to_bytes_def to_kilo_def Let_def)
qed

end
