(* ===== verification/Attr_Func.thy ===== *)
theory Attr_Func
  imports Attr_Value "HOL-Library.Multiset"
begin

unbundle bit_operations_syntax

text \<open>
  The list and string utilities of \<open>src/src/lib/Libattr/attr_func.c\<close>: the comma-separated lists the
  array attributes are decoded from, lists of encoded attributes (\<open>svrattrl\<close>), arrays of strings and
  their delimited form with quotes and escapes. A static position that a tokenizer keeps between calls
  is an argument and a result: the rest of the string, \<open>None\<close> for \<open>NULL\<close>. Arrays that end with a
  \<open>NULL\<close> entry are lists, and linked lists are lists.
\<close>

definition ESC_CHAR :: char where "ESC_CHAR = CHR 0x5C"
definition NEWLINE :: char where "NEWLINE = CHR 0x0A"

text \<open>\<open>strcasecmp\<close> in the C locale.\<close>

definition tolower :: "char \<Rightarrow> char" where
  "tolower c = (if 65 \<le> uchar c \<and> uchar c \<le> 90 then char_of (uchar c + 32) else c)"

definition strcasecmp :: "string \<Rightarrow> string \<Rightarrow> int" where
  "strcasecmp a b = strcmp (map tolower a) (map tolower b)"

section \<open>Comma-separated strings\<close>

text \<open>
  \<open>comma_end prev c\<close> tells whether \<open>c\<close> ends a substring, \<open>prev\<close> being the character of the
  substring before it. Removing the spaces before an empty substring is left out: it changes nothing that
  is read later.
\<close>

definition comma_end :: "char option \<Rightarrow> char \<Rightarrow> bool" where
  "comma_end prev c \<longleftrightarrow> c = CHR '','' \<and> prev \<noteq> Some ESC_CHAR \<or> c = NEWLINE"

fun comma_scan :: "char option \<Rightarrow> string \<Rightarrow> string \<times> string" where
  "comma_scan prev [] = ([], [])"
| "comma_scan prev (c # cs) =
     (if comma_end prev c then ([], c # cs) else case comma_scan (Some c) cs of (t, r) \<Rightarrow> (c # t, r))"

definition strip_trailing :: "string \<Rightarrow> string" where
  "strip_trailing s = rev (dropWhile isspace (rev s))"

definition parse_comma_string :: "string \<Rightarrow> (string \<times> string) option" where
  "parse_comma_string pc =
     (if pc = [] then None
      else let pc = dropWhile (\<lambda>c. c \<noteq> NEWLINE \<and> isspace c) pc
           in case comma_scan None pc of (rv, rest) \<Rightarrow> Some (strip_trailing rv, tl rest))"

text \<open>
  \<open>count_substrings\<close>: the number of substrings, and the string without the last character when that
  is a separator. An empty string is not passed to it.
\<close>

fun comma_count :: "char option \<Rightarrow> string \<Rightarrow> nat" where
  "comma_count prev [] = 0"
| "comma_count prev (c # cs) = (if comma_end prev c then 1 else 0) + comma_count (Some c) cs"

definition count_substrings :: "string option \<Rightarrow> int \<times> (nat \<times> string)" where
  "count_substrings val =
     (case val of None \<Rightarrow> (PBSE_INTERNAL, 0, [])
      | Some v \<Rightarrow>
        let ns = 1 + comma_count None v in
        if v \<noteq> [] \<and> (last v = NEWLINE \<or> last v = CHR '','') then (0, ns - 1, butlast v) else (0, ns, v))"

section \<open>Lists of encoded attributes\<close>

abbreviation ATR_VFLAG_DEFLT :: nat where "ATR_VFLAG_DEFLT \<equiv> 4"
abbreviation ATR_VFLAG_HOOK :: nat where "ATR_VFLAG_HOOK \<equiv> 64"
abbreviation batch_op_DFLT :: uint where "batch_op_DFLT \<equiv> 10"

definition attrl_fixlink :: "svrattrl list \<Rightarrow> svrattrl list" where
  "attrl_fixlink l =
     map (\<lambda>pal. pal\<lparr>al_op := (if al_flags pal AND ATR_VFLAG_DEFLT \<noteq> 0 then batch_op_DFLT else batch_op_SET)\<rparr>) l"

text \<open>The first part of \<open>add_to_svrattrl_list\<close> and \<open>add_to_svrattrl_list_sorted\<close>: the new entry.\<close>

definition svrattrl_entry :: "(nat \<Rightarrow> bool) \<Rightarrow> string \<Rightarrow> string option \<Rightarrow> string option \<Rightarrow> nat \<Rightarrow> string option \<Rightarrow> svrattrl option" where
  "svrattrl_entry mal name_str resc_str val_str flag name_prefix =
     (if name_prefix \<noteq> None \<and> \<not> mal (strlen (the name_prefix) + strlen name_str + 2) then None
      else let the_str = (case name_prefix of None \<Rightarrow> name_str | Some p \<Rightarrow> p @ ''.'' @ name_str);
               valln = (case val_str of None \<Rightarrow> 0 | Some v \<Rightarrow> strlen v + 1)
           in case attrlist_create mal the_str resc_str (int valln) of None \<Rightarrow> None
              | Some psvrat \<Rightarrow> Some (psvrat\<lparr>al_value := (case val_str of None \<Rightarrow> al_value psvrat | Some v \<Rightarrow> v), al_flags := flag\<rparr>))"

definition add_to_svrattrl_list :: "(nat \<Rightarrow> bool) \<Rightarrow> svrattrl list \<Rightarrow> string option \<Rightarrow> string option \<Rightarrow> string option \<Rightarrow> nat \<Rightarrow> string option \<Rightarrow>
    int \<times> svrattrl list" where
  "add_to_svrattrl_list mal phead name_str resc_str val_str flag name_prefix =
     (case name_str of None \<Rightarrow> (- 1, phead)
      | Some nm \<Rightarrow>
        (case svrattrl_entry mal nm resc_str val_str flag name_prefix of None \<Rightarrow> (- 1, phead)
         | Some psvrat \<Rightarrow> (0, phead @ [psvrat])))"

fun link_sorted :: "svrattrl \<Rightarrow> svrattrl list \<Rightarrow> svrattrl list" where
  "link_sorted psvrat [] = [psvrat]"
| "link_sorted psvrat (cur # l) =
     (if strcmp (al_name cur) (al_name psvrat) > 0 then psvrat # cur # l else cur # link_sorted psvrat l)"

definition add_to_svrattrl_list_sorted :: "(nat \<Rightarrow> bool) \<Rightarrow> svrattrl list \<Rightarrow> string \<Rightarrow> string option \<Rightarrow> string option \<Rightarrow> nat \<Rightarrow> string option \<Rightarrow>
    int \<times> svrattrl list" where
  "add_to_svrattrl_list_sorted mal phead name_str resc_str val_str flag name_prefix =
     (case svrattrl_entry mal name_str resc_str val_str flag name_prefix of None \<Rightarrow> (- 1, phead)
      | Some psvrat \<Rightarrow> (0, link_sorted psvrat phead))"

text \<open>The loop passes the entry's operator where \<open>add_to_svrattrl_list\<close> expects the flags.\<close>

fun copy_loop :: "(nat \<Rightarrow> bool) \<Rightarrow> svrattrl list \<Rightarrow> svrattrl list \<Rightarrow> int \<times> svrattrl list" where
  "copy_loop mal [] to = (0, to)"
| "copy_loop mal (p # ps) to =
     (case add_to_svrattrl_list mal to (Some (al_name p)) (al_resc p) (Some (al_value p)) (unat (al_op p)) None of
        (rc, to) \<Rightarrow> if rc = - 1 then (- 1, []) else copy_loop mal ps to)"

definition copy_svrattrl_list :: "(nat \<Rightarrow> bool) \<Rightarrow> svrattrl list option \<Rightarrow> svrattrl list option \<Rightarrow> int \<times> svrattrl list option" where
  "copy_svrattrl_list mal from_head to_head =
     (case (from_head, to_head) of
        (Some from, Some _) \<Rightarrow> (case copy_loop mal from [] of (rc, to) \<Rightarrow> (rc, Some to))
      | _ \<Rightarrow> (- 1, to_head))"

text \<open>\<open>strcmp\<close> is applied to the entry's resource name whenever one is asked for: it must not be \<open>NULL\<close>.\<close>

fun find_svrattrl_list_entry :: "svrattrl list \<Rightarrow> string option \<Rightarrow> string option \<Rightarrow> svrattrl option" where
  "find_svrattrl_list_entry l None resc = None"
| "find_svrattrl_list_entry [] (Some name) resc = None"
| "find_svrattrl_list_entry (p # ps) (Some name) resc =
     (if al_name p = name \<and> (resc = None \<or> al_resc p = resc) then Some p
      else find_svrattrl_list_entry ps (Some name) resc)"

definition get_svrattrl_flag :: "string option \<Rightarrow> string option \<Rightarrow> string \<Rightarrow> svrattrl list \<Rightarrow> int \<Rightarrow> nat" where
  "get_svrattrl_flag name resc val l hook_set_flag =
     (let flag = (case find_svrattrl_list_entry l name resc of None \<Rightarrow> 0 | Some e \<Rightarrow> al_flags e)
      in if hook_set_flag = 1 then flag OR ATR_VFLAG_HOOK else flag)"

text \<open>\<open>compare_svrattrl_list\<close>: for every entry of the first list the first equal one of the second is removed.\<close>

fun remove_match :: "svrattrl \<Rightarrow> svrattrl list \<Rightarrow> svrattrl list option" where
  "remove_match p [] = None"
| "remove_match p (q # qs) =
     (if strcmp (al_name p) (al_name q) = 0 \<and> strcmp (al_value p) (al_value q) = 0 then Some qs
      else map_option (Cons q) (remove_match p qs))"

fun compare_loop :: "svrattrl list \<Rightarrow> svrattrl list \<Rightarrow> int" where
  "compare_loop [] qs = (if qs = [] then 1 else 0)"
| "compare_loop (p # ps) qs = (case remove_match p qs of None \<Rightarrow> 0 | Some qs' \<Rightarrow> compare_loop ps qs')"

definition compare_svrattrl_list :: "(nat \<Rightarrow> bool) \<Rightarrow> svrattrl list option \<Rightarrow> svrattrl list option \<Rightarrow> int" where
  "compare_svrattrl_list mal l1 l2 =
     (case copy_svrattrl_list mal l1 (Some []) of (rc, list1) \<Rightarrow>
        if rc = - 1 then 0
        else case copy_svrattrl_list mal l2 (Some []) of (rc, list2) \<Rightarrow>
          if rc = - 1 then 0 else compare_loop (the list1) (the list2))"

section \<open>Arrays of strings\<close>

definition svrattrl_to_str_array :: "(nat \<Rightarrow> bool) \<Rightarrow> svrattrl list option \<Rightarrow> string list option" where
  "svrattrl_to_str_array mal pbs_list =
     (case pbs_list of None \<Rightarrow> None
      | Some l \<Rightarrow>
        if \<not> mal ((length l + 1) * 8) then None
        else if \<exists>p \<in> set l. \<not> mal (strlen (al_value p) + 1) then None
        else Some (map al_value l))"

fun add_strs :: "(nat \<Rightarrow> bool) \<Rightarrow> string list \<Rightarrow> svrattrl list \<Rightarrow> string option \<Rightarrow> int \<times> svrattrl list" where
  "add_strs mal [] to nm = (0, to)"
| "add_strs mal (s # ss) to nm =
     (case add_to_svrattrl_list mal to nm None (Some s) 0 None of
        (rc, to) \<Rightarrow> if rc = - 1 then (- 1, []) else add_strs mal ss to nm)"

definition str_array_to_svrattrl :: "(nat \<Rightarrow> bool) \<Rightarrow> string list option \<Rightarrow> svrattrl list option \<Rightarrow> string option \<Rightarrow> int \<times> svrattrl list option" where
  "str_array_to_svrattrl mal str_array to_head name_str =
     (case (str_array, to_head) of
        (Some a, Some _) \<Rightarrow> (case add_strs mal a [] name_str of (rc, to) \<Rightarrow> (rc, Some to))
      | _ \<Rightarrow> (- 1, to_head))"

fun join_with :: "char \<Rightarrow> string \<Rightarrow> string list \<Rightarrow> string" where
  "join_with d acc [] = acc"
| "join_with d acc (s # ss) = join_with d (acc @ [d] @ s) ss"

definition str_array_to_str :: "(nat \<Rightarrow> bool) \<Rightarrow> string list option \<Rightarrow> char \<Rightarrow> string option" where
  "str_array_to_str mal str_array delimiter =
     (case str_array of None \<Rightarrow> None
      | Some a \<Rightarrow>
        let len = (\<Sum>s \<leftarrow> a. strlen s + 1) + 1
        in if len > 1 then if \<not> mal len then None else Some (join_with delimiter (hd a) (tl a)) else None)"

text \<open>\<open>env_len\<close> is the size of the block \<open>env_array_to_str\<close> allocates; \<open>escape\<close> keeps its value over an entry without \<open>=\<close>.\<close>

definition needs_escape :: "char \<Rightarrow> char \<Rightarrow> bool" where
  "needs_escape d c \<longleftrightarrow> c = d \<or> c = ESC_CHAR"

definition env_var :: "string \<Rightarrow> string" where
  "env_var e = takeWhile (\<lambda>c. c \<noteq> CHR ''='') e"

definition env_val :: "string \<Rightarrow> string option" where
  "env_val e = (if CHR ''='' \<in> set e then Some (tl (dropWhile (\<lambda>c. c \<noteq> CHR ''='') e)) else None)"

fun env_len :: "char \<Rightarrow> nat \<Rightarrow> string list \<Rightarrow> nat" where
  "env_len d escape [] = 1"
| "env_len d escape (e # es) =
     (let escape = (case env_val e of None \<Rightarrow> escape | Some v \<Rightarrow> length (filter (needs_escape d) v))
      in strlen e + escape + 1 + env_len d escape es)"

definition escape_val :: "char \<Rightarrow> string \<Rightarrow> string" where
  "escape_val d v = concat (map (\<lambda>c. if needs_escape d c then [ESC_CHAR, c] else [c]) v)"

definition env_entry :: "char \<Rightarrow> string \<Rightarrow> string" where
  "env_entry d e = env_var e @ ''='' @ (case env_val e of None \<Rightarrow> [] | Some v \<Rightarrow> escape_val d v)"

definition env_array_to_str :: "(nat \<Rightarrow> bool) \<Rightarrow> string list option \<Rightarrow> char \<Rightarrow> string option" where
  "env_array_to_str mal env_array delimiter =
     (case env_array of None \<Rightarrow> None
      | Some a \<Rightarrow>
        let len = env_len delimiter 0 a
        in if len > 1 then if \<not> mal len then None
             else Some (join_with delimiter (env_entry delimiter (hd a)) (map (env_entry delimiter) (tl a)))
           else None)"

fun prune_esc_backslash :: "string \<Rightarrow> string" where
  "prune_esc_backslash [] = []"
| "prune_esc_backslash [c] = (if c = ESC_CHAR then [] else [c])"
| "prune_esc_backslash (c # d # cs) =
     (if c = ESC_CHAR then d # prune_esc_backslash cs else c # prune_esc_backslash (d # cs))"

text \<open>
  The loops of \<open>strtok_quoted\<close>: \<open>tok\<close> is what stands between \<open>stok\<close> and \<open>pc\<close>. The first is the
  outer loop; the second looks for the quote that closes \<open>q\<close> and resumes the outer loop after it.
\<close>

definition unescaped :: "string \<Rightarrow> bool" where
  "unescaped tok \<longleftrightarrow> tok = [] \<or> last tok \<noteq> ESC_CHAR \<or> length tok < 2 \<or> last (butlast tok) = ESC_CHAR"

fun tok_scan :: "char \<Rightarrow> char option \<Rightarrow> string \<Rightarrow> string \<Rightarrow> string \<times> string option" where
  "tok_scan d None tok [] = (tok, Some [])"
| "tok_scan d None tok (c # cs) =
     (if c = d \<and> unescaped tok then (tok, Some cs)
      else if c = CHR 0x27 \<or> c = CHR 0x22 then
        if cs = [] \<or> hd cs = d then (tok @ [c], Some (tl cs)) else tok_scan d (Some c) (tok @ [c]) cs
      else tok_scan d None (tok @ [c]) cs)"
| "tok_scan d (Some q) tok [] = (tok, None)"
| "tok_scan d (Some q) tok (c # cs) =
     (if c = q then
        if cs = [] \<or> hd cs = d then tok_scan d None (tok @ [c]) cs else tok_scan d (Some q) (tok @ [c]) cs
      else if c = d \<and> unescaped tok then (tok, Some cs)
      else tok_scan d (Some q) (tok @ [c]) cs)"

definition strtok_quoted :: "string option \<Rightarrow> char \<Rightarrow> (string \<times> string option) option" where
  "strtok_quoted pc delimiter =
     (case pc of None \<Rightarrow> None
      | Some p \<Rightarrow>
        if p = [] then None
        else case tok_scan delimiter None [] p of (stok, pc) \<Rightarrow> Some (prune_esc_backslash stok, pc))"

lemma tok_scan_shorter:
  "tok_scan d q tok p = (t, Some r) \<Longrightarrow> if p = [] then r = [] else length r < length p"
  by (induction d q tok p arbitrary: t r rule: tok_scan.induct) (auto split: if_splits intro: less_SucI)

function strtok_all :: "char \<Rightarrow> string option \<Rightarrow> string list" where
  "strtok_all d pc = (case strtok_quoted pc d of None \<Rightarrow> [] | Some (t, pc) \<Rightarrow> t # strtok_all d pc)"
  by pat_completeness auto
termination
  by (relation "measure (\<lambda>(d, pc). case pc of None \<Rightarrow> 0 | Some p \<Rightarrow> Suc (length p))")
    (auto simp: strtok_quoted_def split: option.splits if_splits prod.splits dest: tok_scan_shorter)

declare strtok_all.simps [simp del]

text \<open>The string is tokenized twice, to count and to copy; both passes see the same string.\<close>

definition str_to_str_array :: "(nat \<Rightarrow> bool) \<Rightarrow> string option \<Rightarrow> char \<Rightarrow> string list option" where
  "str_to_str_array mal str delimiter =
     (case str of None \<Rightarrow> None
      | Some s \<Rightarrow>
        if \<not> mal (strlen s + 1) then None
        else let a = strtok_all delimiter (Some s) in
          if \<not> mal ((length a + 1) * 8) then None
          else if \<exists>t \<in> set a. \<not> mal (strlen t + 1) then None else Some a)"

section \<open>Order and equality of names\<close>

lemma uchar_eq [simp]: "uchar a = uchar b \<longleftrightarrow> a = b"
  by (simp add: uchar_def)

lemma strcmp_eq_0 [simp]: "strcmp a b = 0 \<longleftrightarrow> a = b"
  by (induction a b rule: strcmp.induct) (auto simp: not_less_iff_gr_or_eq)

lemma strcmp_swap: "strcmp b a = - strcmp a b"
  by (induction a b rule: strcmp.induct) auto

lemma strcmp_le_Cons: "strcmp (a # as) (b # bs) \<le> 0 \<longleftrightarrow> uchar a < uchar b \<or> a = b \<and> strcmp as bs \<le> 0"
  by (auto simp: not_less_iff_gr_or_eq)

lemma strcmp_trans: "strcmp a b \<le> 0 \<Longrightarrow> strcmp b c \<le> 0 \<Longrightarrow> strcmp a c \<le> 0"
proof (induction a arbitrary: b c)
  case Nil
  show ?case by (cases c) simp_all
next
  case (Cons x a)
  then obtain y b' where "b = y # b'" by (cases b) simp_all
  moreover from this Cons.prems obtain z c' where "c = z # c'" by (cases c) simp_all
  ultimately show ?case using Cons.prems Cons.IH [of b' c'] by (auto simp only: strcmp_le_Cons intro: less_trans)
qed

definition names_sorted :: "svrattrl list \<Rightarrow> bool" where
  "names_sorted l \<longleftrightarrow> sorted_wrt (\<lambda>p q. strcmp (al_name p) (al_name q) \<le> 0) l"

lemma link_sorted_set: "mset (link_sorted p l) = add_mset p (mset l)"
  by (induction l) auto

lemma link_sorted_sorted: "names_sorted l \<Longrightarrow> names_sorted (link_sorted p l)"
proof (induction l)
  case (Cons q l)
  have s: "set (link_sorted p l) = insert p (set l)" using link_sorted_set [of p l] by (metis set_mset_mset set_mset_add_mset_insert)
  show ?case
  proof (cases "strcmp (al_name q) (al_name p) > 0")
    case True
    then have "strcmp (al_name p) (al_name q) \<le> 0" using strcmp_swap [of "al_name p" "al_name q"] by simp
    then show ?thesis using True Cons.prems strcmp_trans by (auto simp: names_sorted_def)
  next
    case False
    then show ?thesis using Cons s by (auto simp: names_sorted_def)
  qed
qed (simp add: names_sorted_def)

section \<open>Copies and comparison of lists\<close>

definition entry_key :: "svrattrl \<Rightarrow> string \<times> string" where
  "entry_key p = (al_name p, al_value p)"

lemma entry_key_eq: "al_name p = al_name q \<and> al_value p = al_value q \<longleftrightarrow> entry_key p = entry_key q"
  by (simp add: entry_key_def)

lemma svrattrl_entry_ok:
  "\<exists>p. svrattrl_entry (\<lambda>_. True) nm rn (Some v) flag None = Some p \<and> al_name p = nm \<and> al_resc p = rn \<and> al_value p = v \<and> al_flags p = flag \<and> al_op p = batch_op_SET"
  by (auto simp: svrattrl_entry_def attrlist_create_def attrlist_alloc_def Let_def split: option.split)

lemma copy_loop_ok:
  "\<exists>l'. copy_loop (\<lambda>_. True) l to = (0, to @ l') \<and> map entry_key l' = map entry_key l \<and> map al_resc l' = map al_resc l \<and>
     map al_flags l' = map (unat \<circ> al_op) l \<and> (\<forall>p \<in> set l'. al_op p = batch_op_SET)"
proof (induction l arbitrary: to)
  case (Cons p l)
  obtain q where q: "svrattrl_entry (\<lambda>_. True) (al_name p) (al_resc p) (Some (al_value p)) (unat (al_op p)) None = Some q"
    "entry_key q = entry_key p" "al_resc q = al_resc p" "al_flags q = unat (al_op p)" "al_op q = batch_op_SET"
    using svrattrl_entry_ok [of "al_name p" "al_resc p" "al_value p" "unat (al_op p)"] by (auto simp: entry_key_def)
  from Cons [of "to @ [q]"] obtain l' where l': "copy_loop (\<lambda>_. True) l (to @ [q]) = (0, (to @ [q]) @ l')"
    "map entry_key l' = map entry_key l" "map al_resc l' = map al_resc l" "map al_flags l' = map (unat \<circ> al_op) l"
    "\<forall>p \<in> set l'. al_op p = batch_op_SET" by blast
  then show ?case using q by (intro exI [of _ "q # l'"]) (simp add: add_to_svrattrl_list_def)
qed simp

lemma remove_match_mset:
  "case remove_match p qs of None \<Rightarrow> entry_key p \<notin> set (map entry_key qs)
   | Some qs' \<Rightarrow> mset (map entry_key qs) = add_mset (entry_key p) (mset (map entry_key qs'))"
  by (induction qs) (auto simp: entry_key_eq split: option.splits)

lemma compare_loop_mset:
  "compare_loop ps qs = (if mset (map entry_key ps) = mset (map entry_key qs) then 1 else 0)"
proof (induction ps arbitrary: qs)
  case (Cons p ps)
  show ?case
  proof (cases "remove_match p qs")
    case None
    then have "entry_key p \<notin># mset (map entry_key qs)" using remove_match_mset [of p qs] by simp
    then have "mset (map entry_key (p # ps)) \<noteq> mset (map entry_key qs)" by (metis list.map(2) mset.simps(2) union_single_eq_member)
    then show ?thesis using None by simp
  next
    case (Some qs')
    then show ?thesis using remove_match_mset [of p qs] Cons [of qs'] by simp
  qed
qed auto

lemma compare_svrattrl_list_mset:
  "compare_svrattrl_list (\<lambda>_. True) (Some l1) (Some l2) = (if mset (map entry_key l1) = mset (map entry_key l2) then 1 else 0)"
  using copy_loop_ok [of l1 "[]"] copy_loop_ok [of l2 "[]"]
  by (auto simp: compare_svrattrl_list_def copy_svrattrl_list_def compare_loop_mset simp flip: mset_map)

section \<open>Delimited strings\<close>

lemma join_with_eq: "join_with d acc ss = acc @ concat (map (Cons d) ss)"
  by (induction ss arbitrary: acc) simp_all

text \<open>A token that the scanner reads whole, at the end of the string and before a delimiter.\<close>

definition tok_text :: "char \<Rightarrow> string \<Rightarrow> bool" where
  "tok_text d t \<longleftrightarrow> t \<noteq> [] \<and> (\<forall>r. tok_scan d None [] (t @ d # r) = (t, Some r)) \<and> tok_scan d None [] t = (t, Some [])"

lemma tok_textI:
  assumes "t \<noteq> []" "\<And>r. tok_scan d None [] (t @ r) = tok_scan d None t r" "unescaped t"
  shows "tok_text d t"
  using assms(1,3) assms(2) [of "[]"] by (simp add: tok_text_def assms(2))

lemma strtok_all_join:
  assumes "tok_text d t" "\<forall>u \<in> set ts. tok_text d u"
  shows "strtok_all d (Some (join_with d t ts)) = map prune_esc_backslash (t # ts)"
  using assms
proof (induction ts arbitrary: t)
  case Nil
  have "strtok_all d (Some []) = []" by (simp add: strtok_all.simps [of d "Some []"] strtok_quoted_def)
  then show ?case using Nil by (simp add: strtok_all.simps [of d "Some t"] strtok_quoted_def tok_text_def)
next
  case (Cons u ts)
  have "strtok_all d (Some (join_with d t (u # ts))) = prune_esc_backslash t # strtok_all d (Some (join_with d u ts))"
    using Cons.prems(1) by (subst strtok_all.simps) (simp add: strtok_quoted_def tok_text_def join_with_eq)
  then show ?case using Cons by simp
qed

definition quote_char :: "char \<Rightarrow> bool" where
  "quote_char c \<longleftrightarrow> c = CHR 0x27 \<or> c = CHR 0x22"

definition plain_str :: "char \<Rightarrow> string \<Rightarrow> bool" where
  "plain_str d t \<longleftrightarrow> (\<forall>c \<in> set t. c \<noteq> d \<and> c \<noteq> ESC_CHAR \<and> \<not> quote_char c)"

lemma tok_scan_plain:
  "plain_str d t \<Longrightarrow> tok_scan d None tok (t @ r) = tok_scan d None (tok @ t) r"
  by (induction t arbitrary: tok) (auto simp: plain_str_def quote_char_def)

lemma prune_Cons [simp]: "c \<noteq> ESC_CHAR \<Longrightarrow> prune_esc_backslash (c # cs) = c # prune_esc_backslash cs"
  by (cases cs) simp_all

lemma prune_plain: "plain_str d t \<Longrightarrow> prune_esc_backslash (t @ s) = t @ prune_esc_backslash s"
  by (induction t) (simp_all add: plain_str_def)

lemma plain_tok_text: "plain_str d t \<Longrightarrow> t \<noteq> [] \<Longrightarrow> tok_text d t"
proof (rule tok_textI)
  assume t: "plain_str d t" "t \<noteq> []"
  then have "last t \<noteq> ESC_CHAR" by (auto simp: plain_str_def)
  then show "unescaped t" by (simp add: unescaped_def)
qed (simp_all add: tok_scan_plain)

text \<open>Arrays of plain strings survive the delimited form.\<close>

lemma str_array_roundtrip:
  assumes "a \<noteq> []" "\<forall>t \<in> set a. t \<noteq> [] \<and> plain_str d t"
  shows "str_to_str_array (\<lambda>_. True) (str_array_to_str (\<lambda>_. True) (Some a) d) d = Some a"
proof -
  obtain t ts where a: "a = t # ts" using assms(1) by (cases a) simp_all
  have "prune_esc_backslash u = u" if "u \<in> set a" for u using prune_plain [of d u "[]"] assms(2) that by simp
  then have "map prune_esc_backslash a = a" by (simp add: map_idI)
  moreover have "tok_text d u" if "u \<in> set a" for u using assms(2) that plain_tok_text by blast
  ultimately show ?thesis
    using strtok_all_join [of d t ts] by (simp add: a str_array_to_str_def str_to_str_array_def)
qed

section \<open>Environment strings\<close>

fun esc_delim_free :: "char \<Rightarrow> string \<Rightarrow> bool" where
  "esc_delim_free d (a # b # cs) = (\<not> (a = ESC_CHAR \<and> b = d) \<and> esc_delim_free d (b # cs))"
| "esc_delim_free d _ = True"

lemma escape_val_simps [simp]:
  "escape_val d [] = []"
  "escape_val d (c # v) = (if needs_escape d c then [ESC_CHAR, c] else [c]) @ escape_val d v"
  "escape_val d (v @ w) = escape_val d v @ escape_val d w"
  by (simp_all add: escape_val_def)

lemma ESC_CHAR_not_quote [simp]: "ESC_CHAR \<noteq> CHR 0x27" "ESC_CHAR \<noteq> CHR 0x22" "ESC_CHAR \<noteq> CHR ''=''"
  "CHR ''='' \<noteq> ESC_CHAR"
  by (simp_all add: ESC_CHAR_def)

lemma tok_scan_escaped:
  assumes "d \<noteq> ESC_CHAR" "\<not> quote_char d" "tok \<noteq> []" "last tok = ESC_CHAR \<Longrightarrow> v = [] \<or> hd v \<noteq> d"
    "esc_delim_free d v" "\<forall>c \<in> set v. \<not> quote_char c"
  shows "tok_scan d None tok (escape_val d v @ r) = tok_scan d None (tok @ escape_val d v) r"
  using assms
proof (induction v arbitrary: tok)
  case (Cons c v)
  have fr: "esc_delim_free d v" "c = ESC_CHAR \<Longrightarrow> v = [] \<or> hd v \<noteq> d" using Cons.prems(5) by (cases v; simp)+
  have IH: "tok_scan d None (tok @ t @ [c]) (escape_val d v @ r) = tok_scan d None (tok @ t @ [c] @ escape_val d v) r" for t
    using Cons.IH [of "tok @ t @ [c]"] Cons.prems fr by simp
  consider (delim) "c = d" | (esc) "c = ESC_CHAR" "c \<noteq> d" | (other) "c \<noteq> ESC_CHAR" "c \<noteq> d" by blast
  then show ?case
  proof cases
    case delim
    have "\<not> unescaped (tok @ [ESC_CHAR])"
      using Cons.prems(3,4) delim by (cases tok) (auto simp: unescaped_def)
    then show ?thesis using delim Cons.prems(1,2) IH [of "[ESC_CHAR]"] by (simp add: needs_escape_def quote_char_def)
  next
    case esc
    then show ?thesis using IH [of "[ESC_CHAR]"] by (simp add: needs_escape_def)
  next
    case other
    then show ?thesis using IH [of "[]"] Cons.prems(6) by (simp add: needs_escape_def quote_char_def)
  qed
qed simp

lemma unescaped_escape_val:
  assumes "tok \<noteq> []" "last tok \<noteq> ESC_CHAR" "d \<noteq> ESC_CHAR"
  shows "unescaped (tok @ escape_val d v)"
  using assms by (cases v rule: rev_cases) (auto simp: unescaped_def needs_escape_def butlast_append)

lemma prune_escape_val: "d \<noteq> ESC_CHAR \<Longrightarrow> prune_esc_backslash (escape_val d v) = v"
  by (induction v) (auto simp: needs_escape_def)

text \<open>
  Entries that come back from the escaped form: a name without special characters, and a value without
  quotes in which no escape character stands directly before a delimiter.
\<close>

definition env_plain :: "char \<Rightarrow> string \<Rightarrow> bool" where
  "env_plain d e \<longleftrightarrow> (\<exists>v. env_val e = Some v \<and> plain_str d (env_var e) \<and> esc_delim_free d v \<and> (\<forall>c \<in> set v. \<not> quote_char c))"

lemma env_split: "env_val e = Some v \<Longrightarrow> e = env_var e @ CHR ''='' # v"
proof -
  assume a: "env_val e = Some v"
  then have "CHR ''='' \<in> set e" by (simp add: env_val_def split: if_splits)
  then have "dropWhile (\<lambda>c. c \<noteq> CHR ''='') e \<noteq> []" by (auto simp: dropWhile_eq_Nil_conv)
  then have "dropWhile (\<lambda>c. c \<noteq> CHR ''='') e = CHR ''='' # tl (dropWhile (\<lambda>c. c \<noteq> CHR ''='') e)"
    using hd_dropWhile [of "\<lambda>c. c \<noteq> CHR ''=''" e] by (metis list.collapse)
  moreover have "tl (dropWhile (\<lambda>c. c \<noteq> CHR ''='') e) = v" using a by (simp add: env_val_def split: if_splits)
  ultimately show ?thesis by (metis env_var_def takeWhile_dropWhile_id)
qed

lemma env_entry_tok:
  assumes "env_plain d e" "d \<noteq> ESC_CHAR" "\<not> quote_char d" "d \<noteq> CHR ''=''"
  shows "tok_text d (env_entry d e)" "prune_esc_backslash (env_entry d e) = e"
proof -
  obtain v where v: "env_val e = Some v" "plain_str d (env_var e)" "esc_delim_free d v" "\<forall>c \<in> set v. \<not> quote_char c"
    using assms(1) by (auto simp: env_plain_def)
  let ?h = "env_var e @ ''=''"
  have ent: "env_entry d e = ?h @ escape_val d v" by (simp add: env_entry_def v(1))
  have h: "plain_str d ?h" using v(2) assms(4) by (simp add: plain_str_def quote_char_def ball_Un ESC_CHAR_def)
  show "tok_text d (env_entry d e)"
  proof (rule tok_textI)
    show "tok_scan d None [] (env_entry d e @ r) = tok_scan d None (env_entry d e) r" for r
    proof -
      have "tok_scan d None [] (?h @ (escape_val d v @ r)) = tok_scan d None ?h (escape_val d v @ r)"
        using tok_scan_plain [OF h, of "[]" "escape_val d v @ r"] by (simp only: append_Nil)
      also have "\<dots> = tok_scan d None (?h @ escape_val d v) r"
        using tok_scan_escaped [OF assms(2,3), of ?h v r] v(3,4) by (simp only: last_snoc ESC_CHAR_not_quote) simp
      finally show ?thesis by (simp only: ent append_assoc)
    qed
    show "unescaped (env_entry d e)" using unescaped_escape_val [of ?h d v] assms(2) by (simp add: ent)
  qed (simp add: ent)
  show "prune_esc_backslash (env_entry d e) = e"
    using prune_plain [OF h, of "escape_val d v"] prune_escape_val [OF assms(2), of v] env_split [OF v(1)] by (simp add: ent)
qed

lemma env_len_pos: "env_len d x a \<ge> 1"
  by (induction d x a rule: env_len.induct) (simp_all add: Let_def)

lemma env_roundtrip:
  assumes "a \<noteq> []" "\<forall>e \<in> set a. env_plain d e" "d \<noteq> ESC_CHAR" "\<not> quote_char d" "d \<noteq> CHR ''=''"
  shows "str_to_str_array (\<lambda>_. True) (env_array_to_str (\<lambda>_. True) (Some a) d) d = Some a"
proof -
  obtain e es where a: "a = e # es" using assms(1) by (cases a) simp_all
  have "env_len d 0 a > 1" using env_len_pos [of d _ es] by (auto simp: a Let_def Suc_le_eq trans_less_add2)
  moreover have "tok_text d (env_entry d x)" "prune_esc_backslash (env_entry d x) = x" if "x \<in> set a" for x
    using env_entry_tok assms(2-5) that by blast+
  ultimately show ?thesis
    using strtok_all_join [of d "env_entry d e" "map (env_entry d) es"]
    by (simp add: a env_array_to_str_def str_to_str_array_def comp_def map_idI)
qed

text \<open>An escape character before a delimiter is not kept apart from the escape of the delimiter.\<close>

lemma env_esc_delim_lost:
  "str_to_str_array (\<lambda>_. True) (env_array_to_str (\<lambda>_. True) (Some [''a=b'' @ [ESC_CHAR] @ '',c'']) CHR '','') CHR '','' = Some [''a=b'' @ [ESC_CHAR], ''c'']"
  by (simp add: ESC_CHAR_def) code_simp

text \<open>The block \<open>env_array_to_str\<close> allocates is large enough when at most one entry has no \<open>=\<close>.\<close>

definition no_eq :: "string \<Rightarrow> bool" where
  "no_eq e \<longleftrightarrow> CHR ''='' \<notin> set e"

lemma length_escape_val: "length (escape_val d v) = length v + length (filter (needs_escape d) v)"
  by (induction v) simp_all

lemma length_env_entry:
  "length (env_entry d e) = length e + (if no_eq e then 1 else 0) + (case env_val e of None \<Rightarrow> 0 | Some v \<Rightarrow> length (filter (needs_escape d) v))"
proof (cases "env_val e")
  case None
  then have "CHR ''='' \<notin> set e" by (simp add: env_val_def split: if_splits)
  moreover from this have "env_var e = e" by (auto simp: env_var_def takeWhile_eq_all_conv)
  ultimately show ?thesis using None by (simp add: env_entry_def no_eq_def)
next
  case (Some v)
  then have "\<not> no_eq e" by (simp add: env_val_def no_eq_def split: if_splits)
  moreover have "length e = length (env_var e) + 1 + length v" using env_split [OF Some] by (metis length_append length_Cons add.assoc add_Suc_right One_nat_def add_0_right plus_1_eq_Suc)
  ultimately show ?thesis using Some by (simp add: env_entry_def length_escape_val)
qed

lemma env_len_bound:
  assumes "\<forall>e \<in> set a. c_string e"
  shows "length (concat (map (\<lambda>e. d # env_entry d e) a)) + 1 \<le> env_len d x a + length (filter no_eq a)"
  using assms
proof (induction a arbitrary: x)
  case (Cons e a)
  let ?x = "case env_val e of None \<Rightarrow> x | Some v \<Rightarrow> length (filter (needs_escape d) v)"
  have "(case env_val e of None \<Rightarrow> 0 | Some v \<Rightarrow> length (filter (needs_escape d) v)) \<le> ?x" by (simp split: option.split)
  then show ?case using Cons.IH [of ?x] Cons.prems by (simp add: Let_def length_env_entry)
qed simp

lemma env_block_bound:
  assumes "a \<noteq> []" "\<forall>e \<in> set a. c_string e" "length (filter no_eq a) \<le> 1" "env_array_to_str (\<lambda>_. True) (Some a) d = Some s"
  shows "length s + 1 \<le> env_len d 0 a"
proof -
  obtain e es where a: "a = e # es" using assms(1) by (cases a) simp_all
  have "s = join_with d (env_entry d e) (map (env_entry d) es)" using assms(4) by (auto simp: a env_array_to_str_def Let_def split: if_splits)
  then have "length s + 1 = length (concat (map (\<lambda>e. d # env_entry d e) a))" by (simp add: a join_with_eq comp_def)
  then show ?thesis using env_len_bound [OF assms(2), of d 0] assms(3) by linarith
qed

lemma env_block_overflow:
  "env_len CHR '','' 0 [''a'', ''b''] = 5 \<and> env_array_to_str (\<lambda>_. True) (Some [''a'', ''b'']) CHR '','' = Some ''a=,b=''"
  by (simp add: env_array_to_str_def env_entry_def env_val_def env_var_def strlen_def)

end
