(* ===== verification/Attr_Arst.thy ===== *)
theory Attr_Arst
  imports Attr_Func
begin

unbundle bit_operations_syntax

text \<open>
  Arrays of strings (\<open>src/src/lib/Libattr/attr_fn_arst.c\<close>): one buffer that holds the strings one after
  the other and an array of pointers into it. The operations are the code's, on buffer and pointers;
  the lemmas show that each implements an operation on a list of strings. The contents of fresh memory are
  unspecified and never read before they are written; \<open>NUL\<close> stands for them.
\<close>

section \<open>The buffer\<close>

definition sizeof_array_strings :: nat where "sizeof_array_strings = 40"
definition BUF_SIZE :: nat where "BUF_SIZE = 512"
abbreviation ATR_TYPE_ARST :: nat where "ATR_TYPE_ARST \<equiv> 4"
abbreviation ATR_ENCODE_SAVE :: int where "ATR_ENCODE_SAVE \<equiv> 3"

definition as_bytes :: "array_strings \<Rightarrow> char list" where
  "as_bytes p = (case as_buf p of None \<Rightarrow> [] | Some b \<Rightarrow> b)"

definition as_bufsize :: "array_strings \<Rightarrow> nat" where
  "as_bufsize p = length (as_bytes p)"

definition as_usedptr :: "array_strings \<Rightarrow> nat" where
  "as_usedptr p = length (as_string p)"

text \<open>The string a pointer designates, \<open>strcpy\<close> into the buffer, and the loop that appends strings.\<close>

definition as_str :: "array_strings \<Rightarrow> nat \<Rightarrow> string" where
  "as_str p off = takeWhile (\<lambda>c. c \<noteq> NUL) (drop off (as_bytes p))"

definition as_strs :: "array_strings \<Rightarrow> string list" where
  "as_strs p = map (as_str p) (as_string p)"

definition put_str :: "char list \<Rightarrow> nat \<Rightarrow> string \<Rightarrow> char list" where
  "put_str b off s = take off b @ s @ [NUL] @ drop (off + length s + 1) b"

definition append_str :: "string \<Rightarrow> array_strings \<Rightarrow> array_strings" where
  "append_str s p = p\<lparr>as_buf := Some (put_str (as_bytes p) (as_next p) s), as_string := as_string p @ [as_next p],
     as_next := as_next p + length s + 1\<rparr>"

definition append_strs :: "string list \<Rightarrow> array_strings \<Rightarrow> array_strings" where
  "append_strs ss p = fold append_str ss p"

section \<open>Operations\<close>

fun comma_tokens :: "(string \<Rightarrow> (string \<times> string) option) \<Rightarrow> nat \<Rightarrow> string \<Rightarrow> string list" where
  "comma_tokens parse 0 p = []"
| "comma_tokens parse (Suc n) p = (case parse p of None \<Rightarrow> [] | Some (t, r) \<Rightarrow> t # comma_tokens parse n r)"

text \<open>
  The body \<open>decode_arst_direct\<close> and \<open>decode_arst_direct_bs\<close> share: \<open>cnt\<close> and \<open>parse\<close> are the two
  functions in which they differ.
\<close>

definition decode_direct :: "(string option \<Rightarrow> int \<times> (nat \<times> string)) \<Rightarrow> (string \<Rightarrow> (string \<times> string) option) \<Rightarrow>
    (nat \<Rightarrow> bool) \<Rightarrow> 'r attribute \<Rightarrow> string option \<Rightarrow> int \<times> 'r attribute" where
  "decode_direct cnt parse mal patr val =
     (if val = None then (PBSE_INTERNAL, patr)
      else case cnt val of (rc, ns, v) \<Rightarrow>
        if rc \<noteq> 0 then (rc, patr)
        else let slen = strlen v in
          if \<not> mal (slen + 1) then (PBSE_SYSTEM, patr)
          else if \<not> mal (ns * 8 + sizeof_array_strings - 8) then (PBSE_SYSTEM, patr)
          else if slen \<ge> BUF_SIZE \<and> \<not> mal (slen + 1) then (PBSE_SYSTEM, patr)
          else let stp = append_strs (comma_tokens parse ns v)
                     \<lparr>as_npointers = ns, as_buf = Some (replicate (slen + 1) NUL), as_next = 0, as_string = []\<rparr>
               in (0, (mark_set patr)\<lparr>at_val := At_arst (Some stp)\<rparr>))"

definition decode_arst_direct :: "(nat \<Rightarrow> bool) \<Rightarrow> 'r attribute \<Rightarrow> string option \<Rightarrow> int \<times> 'r attribute" where
  "decode_arst_direct = decode_direct count_substrings parse_comma_string"

definition free_arst :: "'r attribute \<Rightarrow> 'r attribute" where
  "free_arst attr = free_null attr"

text \<open>The \<open>for\<close> loops of \<open>DECR\<close>: the first string equal to \<open>s\<close> is cut out of the buffer and its pointer dropped.\<close>

fun find_str :: "array_strings \<Rightarrow> string \<Rightarrow> nat list \<Rightarrow> nat option" where
  "find_str p s [] = None"
| "find_str p s (off # offs) = (if strcmp (as_str p off) s = 0 then Some 0 else map_option Suc (find_str p s offs))"

definition remove_str :: "string \<Rightarrow> array_strings \<Rightarrow> array_strings" where
  "remove_str s p =
     (case find_str p s (as_string p) of None \<Rightarrow> p
      | Some i \<Rightarrow>
        let off = as_string p ! i; nsize = strlen (as_str p off) + 1; pc = off + nsize; need = as_next p - pc; b = as_bytes p
        in p\<lparr>as_buf := Some (take off b @ take need (drop pc b) @ drop (off + need) b), as_next := as_next p - nsize,
             as_string := take i (as_string p) @ map (\<lambda>o'. o' - nsize) (drop (Suc i) (as_string p))\<rparr>)"

text \<open>The \<open>INCR\<close> arm: more buffer and more pointers when needed, then the loop that appends.\<close>

definition grow_arst :: "(nat \<Rightarrow> bool) \<Rightarrow> array_strings \<Rightarrow> array_strings \<Rightarrow> int \<times> array_strings" where
  "grow_arst mal pas x =
     (let nsize = as_next x; used = as_next pas;
          need = as_bufsize pas + 2 * nsize;
          big = nsize > as_bufsize pas - used
      in if big \<and> \<not> mal need then (PBSE_SYSTEM, pas)
         else let pas = (if big then pas\<lparr>as_buf := Some (as_bytes pas @ replicate (2 * nsize) NUL)\<rparr> else pas);
                  j = as_usedptr pas + as_usedptr x
              in if j > as_npointers pas then
                   let j = 3 * j div 2 in
                   if \<not> mal (sizeof_array_strings + (j - 1) * 8) then (PBSE_SYSTEM, pas) else (0, pas\<lparr>as_npointers := j\<rparr>)
                 else (0, pas))"

definition arst_incr :: "(nat \<Rightarrow> bool) \<Rightarrow> 'r attribute \<Rightarrow> array_strings \<Rightarrow> array_strings \<Rightarrow> int \<times> 'r attribute" where
  "arst_incr mal attr x p = (case grow_arst mal p x of (rc, p) \<Rightarrow>
     if rc \<noteq> 0 then (rc, attr\<lparr>at_val := At_arst (Some p)\<rparr>) else (0, mark_set (attr\<lparr>at_val := At_arst (Some (append_strs (as_strs x) p))\<rparr>)))"

definition new_arst :: "nat \<Rightarrow> array_strings" where
  "new_arst j = \<lparr>as_npointers = j, as_buf = None, as_next = 0, as_string = []\<rparr>"

text \<open>
  The \<open>SET\<close> arm up to the point where it falls into \<open>INCR\<close>. When the larger buffer cannot be allocated the old
  one has been freed: \<open>as_buf\<close> is \<open>NULL\<close> and \<open>as_next\<close> still points to where the old buffer was. Such a pointer is
  no offset into a buffer; the value of the model is unspecified. Without an old buffer it is \<open>NULL\<close>.
\<close>

definition empty_arst :: "(nat \<Rightarrow> bool) \<Rightarrow> array_strings \<Rightarrow> array_strings \<Rightarrow> int \<times> array_strings" where
  "empty_arst mal pas x =
     (let pas = pas\<lparr>as_string := [], as_next := 0\<rparr>; nsize = as_next x
      in if nsize > as_bufsize pas then
           let nsize = nsize + nsize div 2 in
           if \<not> mal nsize then (PBSE_SYSTEM, pas\<lparr>as_buf := None, as_next := (if as_buf pas = None then 0 else undefined)\<rparr>)
           else (0, pas\<lparr>as_buf := Some (replicate nsize NUL)\<rparr>)
         else (0, pas\<lparr>as_buf := map_option (\<lambda>b. replicate (length b) NUL) (as_buf pas)\<rparr>))"

definition set_arst :: "(nat \<Rightarrow> bool) \<Rightarrow> 'r attribute \<Rightarrow> 'r attribute \<Rightarrow> uint \<Rightarrow> int \<times> 'r attribute" where
  "set_arst mal attr new opn =
     (case at_arst (at_val new) of None \<Rightarrow> (PBSE_INTERNAL, attr)
      | Some x \<Rightarrow>
        if at_arst (at_val attr) = None \<and> as_npointers x < 1 then (PBSE_INTERNAL, attr)
        else if at_arst (at_val attr) = None \<and> \<not> mal (sizeof_array_strings + (as_npointers x - 1) * 8) then (PBSE_SYSTEM, attr)
        else let pas = (case at_arst (at_val attr) of None \<Rightarrow> new_arst (as_npointers x) | Some p \<Rightarrow> p);
                 opn = (if opn = batch_op_INCR \<and> as_buf pas = None then batch_op_SET else opn);
                 put = (\<lambda>p. attr\<lparr>at_val := At_arst (Some p)\<rparr>)
             in if opn = batch_op_SET then
                  case empty_arst mal pas x of (rc, p) \<Rightarrow> if rc \<noteq> 0 then (rc, put p) else arst_incr mal attr x p
                else if opn = batch_op_INCR then arst_incr mal attr x pas
                else if opn = batch_op_DECR then (0, mark_set (put (fold remove_str (as_strs x) pas)))
                else (PBSE_INTERNAL, put pas))"

definition unset_arst :: "'r attribute \<Rightarrow> 'r attribute" where
  "unset_arst patr = (let a = free_arst patr in a\<lparr>at_flags := at_flags a OR (ATR_VFLAG_MODIFY OR ATR_VFLAG_MODCACHE)\<rparr>)"

definition decode_into :: "('r attribute \<Rightarrow> string option \<Rightarrow> int \<times> 'r attribute) \<Rightarrow> (nat \<Rightarrow> bool) \<Rightarrow> 'r attribute \<Rightarrow> string option \<Rightarrow> int \<times> 'r attribute" where
  "decode_into direct mal patr val =
     (if val = None \<or> strlen (the val) = 0 then (0, unset_arst patr)
      else if is_set patr \<and> at_arst (at_val patr) \<noteq> None then
        case direct \<lparr>at_flags = 0, at_type = ATR_TYPE_ARST, at_user_encoded = None, at_priv_encoded = None, at_val = At_arst None\<rparr> val of
          (rc, temp) \<Rightarrow> if rc \<noteq> 0 then (rc, patr) else set_arst mal patr temp batch_op_SET
      else direct patr val)"

definition decode_arst :: "(nat \<Rightarrow> bool) \<Rightarrow> 'r attribute \<Rightarrow> string \<Rightarrow> string option \<Rightarrow> string option \<Rightarrow> int \<times> 'r attribute" where
  "decode_arst mal patr name rescn val = decode_into (decode_arst_direct mal) mal patr val"

definition encode_arst :: "(nat \<Rightarrow> bool) \<Rightarrow> 'r attribute option \<Rightarrow> svrattrl list option \<Rightarrow> string \<Rightarrow> string option \<Rightarrow> int \<Rightarrow> encoded" where
  "encode_arst mal attr phead atname rsname mode =
     (case attr of None \<Rightarrow> (- 2, phead, None)
      | Some attr \<Rightarrow>
        (case at_arst (at_val attr) of None \<Rightarrow> (0, phead, None)
         | Some p \<Rightarrow>
           if \<not> is_set attr \<or> as_usedptr p = 0 then (0, phead, None)
           else let separator = (if mode = ATR_ENCODE_SAVE then NEWLINE else CHR '','');
                    i = as_next p; j = (if mode = ATR_ENCODE_SAVE then i + 1 else i);
                    value = map (\<lambda>c. if c = NUL then separator else c) (take i (as_bytes p))
                in encode_text mal attr phead atname rsname (int j) (if mode = ATR_ENCODE_SAVE then value else butlast value)))"

definition comp_arst :: "'r attribute option \<Rightarrow> 'r attribute option \<Rightarrow> int" where
  "comp_arst attr with =
     (case (attr, with) of
        (Some a, Some w) \<Rightarrow>
          (case (at_arst (at_val a), at_arst (at_val w)) of
             (Some apa, Some bpb) \<Rightarrow>
               if at_type a \<noteq> ATR_TYPE_ARST \<or> at_type w \<noteq> ATR_TYPE_ARST then 1
               else let match = length (filter (\<lambda>s. \<exists>t \<in> set (as_strs apa). strcmp s t = 0) (as_strs bpb))
                    in if match = as_usedptr bpb then 0 else 1
           | _ \<Rightarrow> 1)
      | _ \<Rightarrow> 1)"

definition arst_string :: "string \<Rightarrow> 'r attribute \<Rightarrow> string option" where
  "arst_string str pattr =
     (if at_type pattr \<noteq> ATR_TYPE_ARST \<or> \<not> is_set pattr then None
      else case at_arst (at_val pattr) of None \<Rightarrow> None
        | Some parst \<Rightarrow> find (\<lambda>s. take (length str) s = str) (as_strs parst))"

section \<open>Arrays with escapes\<close>

definition esc_special :: "char \<Rightarrow> bool" where
  "esc_special c \<longleftrightarrow> c = CHR 0x22 \<or> c = CHR 0x27 \<or> c = CHR '','' \<or> c = ESC_CHAR"

fun unesc_scan :: "string \<Rightarrow> string \<times> string" where
  "unesc_scan [] = ([], [])"
| "unesc_scan [c] = (if c = ESC_CHAR then ([], []) else if c = CHR '','' then ([], [c]) else ([c], []))"
| "unesc_scan (c # d # cs) =
     (if c = ESC_CHAR then
        case unesc_scan cs of (t, r) \<Rightarrow> if esc_special d then (d # t, r) else (ESC_CHAR # d # t, r)
      else if c = CHR '','' then ([], c # d # cs)
      else case unesc_scan (d # cs) of (t, r) \<Rightarrow> (c # t, r))"

definition parse_comma_string_bs :: "string \<Rightarrow> (string \<times> string) option" where
  "parse_comma_string_bs pc =
     (let pc = dropWhile isspace pc
      in if pc = [] then None else case unesc_scan pc of (rv, rest) \<Rightarrow> Some (strip_trailing rv, tl rest))"

fun comma_count_bs :: "string \<Rightarrow> nat" where
  "comma_count_bs [] = 0"
| "comma_count_bs [c] = (if c = CHR '','' then 1 else 0)"
| "comma_count_bs (c # d # cs) =
     (if c = ESC_CHAR then comma_count_bs cs else (if c = CHR '','' then 1 else 0) + comma_count_bs (d # cs))"

definition count_substrings_bs :: "string option \<Rightarrow> int \<times> (nat \<times> string)" where
  "count_substrings_bs val =
     (case val of None \<Rightarrow> (PBSE_INTERNAL, 0, [])
      | Some v \<Rightarrow>
        let ns = 1 + comma_count_bs v in
        if v \<noteq> [] \<and> last v = CHR '','' then (0, ns - 1, butlast v) else (0, ns, v))"

definition decode_arst_direct_bs :: "(nat \<Rightarrow> bool) \<Rightarrow> 'r attribute \<Rightarrow> string option \<Rightarrow> int \<times> 'r attribute" where
  "decode_arst_direct_bs = decode_direct count_substrings_bs parse_comma_string_bs"

definition decode_arst_bs :: "(nat \<Rightarrow> bool) \<Rightarrow> 'r attribute \<Rightarrow> string \<Rightarrow> string option \<Rightarrow> string option \<Rightarrow> int \<times> 'r attribute" where
  "decode_arst_bs mal patr name rescn val = decode_into (decode_arst_direct_bs mal) mal patr val"

definition escape_bytes :: "char list \<Rightarrow> string" where
  "escape_bytes b = concat (map (\<lambda>c. if esc_special c then [ESC_CHAR, c] else if c = NUL then [CHR '',''] else [c]) b)"

definition encode_arst_bs :: "(nat \<Rightarrow> bool) \<Rightarrow> 'r attribute option \<Rightarrow> svrattrl list \<Rightarrow> string \<Rightarrow> string option \<Rightarrow> int \<Rightarrow> encoded" where
  "encode_arst_bs mal attr phead atname rsname mode =
     (case attr of None \<Rightarrow> (- 2, Some phead, None)
      | Some attr \<Rightarrow>
        (case at_arst (at_val attr) of None \<Rightarrow> (0, Some phead, None)
         | Some p \<Rightarrow>
           if \<not> is_set attr \<or> as_usedptr p = 0 then (0, Some phead, None)
           else let from = take (as_next p) (as_bytes p); j = as_next p + length (filter esc_special from)
                in encode_text mal attr (Some phead) atname rsname (int j) (butlast (escape_bytes from))))"

text \<open>The loop of \<open>set_arst_uniq\<close>: a string is appended unless one equal to it, ignoring case, is there.\<close>

definition append_uniq :: "string \<Rightarrow> array_strings \<Rightarrow> array_strings" where
  "append_uniq s p = (if \<exists>t \<in> set (as_strs p). strcasecmp s t = 0 then p else append_str s p)"

definition set_arst_uniq :: "(nat \<Rightarrow> bool) \<Rightarrow> 'r attribute \<Rightarrow> 'r attribute \<Rightarrow> uint \<Rightarrow> int \<times> 'r attribute" where
  "set_arst_uniq mal attr new opn =
     (if opn = batch_op_DECR then set_arst mal attr new opn
      else case at_arst (at_val new) of None \<Rightarrow> (PBSE_INTERNAL, attr)
      | Some x \<Rightarrow>
        let attr = (if opn = batch_op_SET then free_arst attr else attr);
            cur = (if opn = batch_op_SET then None else at_arst (at_val attr))
        in if cur = None \<and> as_npointers x < 1 then (PBSE_INTERNAL, attr)
           else if cur = None \<and> \<not> mal (sizeof_array_strings + (as_npointers x - 1) * 8) then (PBSE_SYSTEM, attr)
           else let pas = (case cur of None \<Rightarrow> new_arst (as_npointers x) | Some p \<Rightarrow> p);
                    put = (\<lambda>p. attr\<lparr>at_val := At_arst (Some p)\<rparr>)
                in case grow_arst mal pas x of (rc, p) \<Rightarrow>
                     if rc \<noteq> 0 then (rc, put p) else (0, mark_set (put (fold append_uniq (as_strs x) p))))"

definition check_duplicates :: "array_strings option \<Rightarrow> int" where
  "check_duplicates strarr =
     (case strarr of None \<Rightarrow> 0
      | Some p \<Rightarrow> if \<exists>i < as_usedptr p. \<exists>j < as_usedptr p. i < j \<and> strcmp (as_strs p ! i) (as_strs p ! j) = 0 then 1 else 0)"

section \<open>Arrays represent lists of strings\<close>

definition strs_image :: "string list \<Rightarrow> char list" where
  "strs_image ss = concat (map (\<lambda>s. s @ [NUL]) ss)"

fun strs_offs :: "nat \<Rightarrow> string list \<Rightarrow> nat list" where
  "strs_offs k [] = []"
| "strs_offs k (s # ss) = k # strs_offs (k + length s + 1) ss"

definition arst_rep :: "array_strings \<Rightarrow> string list \<Rightarrow> bool" where
  "arst_rep p ss \<longleftrightarrow> (\<forall>s \<in> set ss. c_string s) \<and> as_string p = strs_offs 0 ss \<and> as_next p = length (strs_image ss) \<and>
     length ss \<le> as_npointers p \<and> (as_buf p = None \<longrightarrow> ss = []) \<and> (\<exists>r. as_bytes p = strs_image ss @ r)"

lemma strs_image_simps [simp]:
  "strs_image [] = []" "strs_image (s # ss) = s @ NUL # strs_image ss" "strs_image (ss @ ts) = strs_image ss @ strs_image ts"
  by (simp_all add: strs_image_def)

lemma strs_offs_append: "strs_offs k (ss @ ts) = strs_offs k ss @ strs_offs (k + length (strs_image ss)) ts"
  by (induction ss arbitrary: k) (simp_all add: ac_simps)

lemma strs_offs_shift: "strs_offs (k + n) ss = map (\<lambda>o'. o' + n) (strs_offs k ss)"
proof (induction ss arbitrary: k)
  case (Cons s ss)
  show ?case using Cons [of "k + length s + 1"] by (simp add: ac_simps)
qed simp

lemma length_strs_offs [simp]: "length (strs_offs k ss) = length ss"
  by (induction ss arbitrary: k) simp_all

lemma as_str_at:
  assumes "as_bytes p = pre @ s @ NUL # r" "c_string s"
  shows "as_str p (length pre) = s"
proof -
  have "takeWhile (\<lambda>c. c \<noteq> NUL) (s @ NUL # r) = s" using assms(2) by (auto simp: c_string_def takeWhile_tail takeWhile_eq_all_conv)
  then show ?thesis by (simp add: as_str_def assms(1))
qed

lemma map_as_str:
  assumes "as_bytes p = pre @ strs_image ss @ r" "\<forall>s \<in> set ss. c_string s"
  shows "map (as_str p) (strs_offs (length pre) ss) = ss"
  using assms
proof (induction ss arbitrary: pre)
  case (Cons s ss)
  have "map (as_str p) (strs_offs (length (pre @ s @ [NUL])) ss) = ss" using Cons.prems by (intro Cons.IH) simp_all
  moreover have "as_str p (length pre) = s" using Cons.prems by (intro as_str_at [of p pre s "strs_image ss @ r"]) simp_all
  ultimately show ?case by (simp add: add.assoc)
qed simp

lemma arst_rep_strs: "arst_rep p ss \<Longrightarrow> as_strs p = ss"
  using map_as_str [of p "[]" ss] by (auto simp: arst_rep_def as_strs_def)

lemma arst_rep_used: "arst_rep p ss \<Longrightarrow> as_usedptr p = length ss"
  by (simp add: arst_rep_def as_usedptr_def)

lemma arst_rep_fits: "arst_rep p ss \<Longrightarrow> as_next p \<le> as_bufsize p"
  by (auto simp: arst_rep_def as_bufsize_def)

lemma append_str_rep:
  assumes "arst_rep p ss" "c_string s" "as_next p + length s + 1 \<le> as_bufsize p" "length ss < as_npointers p"
  shows "arst_rep (append_str s p) (ss @ [s])" "as_bufsize (append_str s p) = as_bufsize p" "as_npointers (append_str s p) = as_npointers p"
proof -
  obtain r where r: "as_bytes p = strs_image ss @ r" using assms(1) by (auto simp: arst_rep_def)
  then have "length r \<ge> length s + 1" using assms(1,3) by (simp add: as_bufsize_def arst_rep_def)
  then have "as_bytes (append_str s p) = strs_image (ss @ [s]) @ drop (length s + 1) r"
    using assms(1) r by (simp add: append_str_def as_bytes_def put_str_def arst_rep_def)
  moreover from this \<open>length r \<ge> length s + 1\<close> show "as_bufsize (append_str s p) = as_bufsize p" by (simp add: as_bufsize_def r)
  ultimately show "arst_rep (append_str s p) (ss @ [s])"
    using assms(1,2,4) by (auto simp: arst_rep_def strs_offs_append append_str_def)
qed (simp add: append_str_def)

lemma append_strs_rep:
  assumes "arst_rep p ss" "\<forall>s \<in> set ts. c_string s" "as_next p + length (strs_image ts) \<le> as_bufsize p"
    "length ss + length ts \<le> as_npointers p"
  shows "arst_rep (append_strs ts p) (ss @ ts) \<and> as_bufsize (append_strs ts p) = as_bufsize p"
  using assms
proof (induction ts arbitrary: p ss)
  case (Cons t ts)
  have a: "arst_rep (append_str t p) (ss @ [t])" "as_bufsize (append_str t p) = as_bufsize p" "as_npointers (append_str t p) = as_npointers p"
    using append_str_rep [of p ss t] Cons.prems by simp_all
  have "as_next (append_str t p) = as_next p + length t + 1" by (simp add: append_str_def)
  then show ?case using Cons.IH [OF a(1)] a(2,3) Cons.prems by (simp add: append_strs_def)
qed (simp add: append_strs_def)

lemma find_str_first:
  "case find_str p s offs of None \<Rightarrow> s \<notin> set (map (as_str p) offs)
   | Some i \<Rightarrow> i < length offs \<and> map (as_str p) offs ! i = s \<and> s \<notin> set (take i (map (as_str p) offs))"
  by (induction offs) (auto split: option.splits)

lemma remove_str_rep:
  assumes "arst_rep p ss"
  shows "arst_rep (remove_str s p) (remove1 s ss)"
proof (cases "find_str p s (as_string p)")
  case None
  then have "s \<notin> set ss" using find_str_first [where p = p and s = s and offs = "as_string p"] arst_rep_strs [OF assms] by (auto simp: as_strs_def)
  then show ?thesis using assms None by (simp add: remove_str_def remove1_idem)
next
  case (Some i)
  have ss: "map (as_str p) (as_string p) = ss" using arst_rep_strs [OF assms] by (simp add: as_strs_def)
  then have i: "i < length ss" "ss ! i = s" "s \<notin> set (take i ss)"
    using find_str_first [where p = p and s = s and offs = "as_string p"] Some by auto
  define pre post where "pre = take i ss" and "post = drop (Suc i) ss"
  have sp: "ss = pre @ s # post" using id_take_nth_drop [OF i(1)] i(2) by (simp add: pre_def post_def)
  have np: "s \<notin> set pre" using i(3) by (simp add: pre_def)
  then have rm: "remove1 s ss = pre @ post" by (simp add: sp remove1_append)
  have cs: "c_string s" using assms by (simp add: arst_rep_def sp)
  obtain r where r: "as_bytes p = strs_image pre @ s @ NUL # strs_image post @ r" using assms by (auto simp: arst_rep_def sp)
  have os: "as_string p = strs_offs 0 pre @ length (strs_image pre) # strs_offs (length (strs_image pre) + length s + 1) post"
    using assms by (simp add: arst_rep_def sp strs_offs_append)
  have len: "length (strs_offs 0 pre) = i" using i(1) by (simp add: pre_def)
  then have off: "as_string p ! i = length (strs_image pre)" "take i (as_string p) = strs_offs 0 pre"
    "drop (Suc i) (as_string p) = strs_offs (length (strs_image pre) + length s + 1) post" by (simp_all add: os nth_append)
  have st: "strlen (as_str p (length (strs_image pre))) = length s" using as_str_at [OF r cs] cs by simp
  have nx: "as_next p = length (strs_image pre) + length s + 1 + length (strs_image post)" using assms by (simp add: arst_rep_def sp)
  have shift: "map (\<lambda>o'. o' - Suc (length s)) (strs_offs (Suc (length (strs_image pre) + length s)) post) = strs_offs (length (strs_image pre)) post"
    using strs_offs_shift [of "length (strs_image pre)" "Suc (length s)" post] by (simp add: comp_def)
  have q: "as_string (remove_str s p) = strs_offs 0 pre @ strs_offs (length (strs_image pre)) post"
    "as_next (remove_str s p) = length (strs_image pre) + length (strs_image post)"
    "as_bytes (remove_str s p) = strs_image pre @ strs_image post @ drop (length (strs_image post)) (s @ NUL # strs_image post @ r)"
    "as_npointers (remove_str s p) = as_npointers p" "as_buf (remove_str s p) \<noteq> None"
    using shift by (simp_all add: remove_str_def Some Let_def off st nx r as_bytes_def [of "_\<lparr>as_buf := _, as_next := _, as_string := _\<rparr>"])
  then show ?thesis using assms unfolding rm
    by (auto simp: arst_rep_def sp strs_offs_append)
qed

lemma remove_strs_rep: "arst_rep p ss \<Longrightarrow> arst_rep (fold remove_str ts p) (fold remove1 ts ss)"
  by (induction ts arbitrary: p ss) (simp_all add: remove_str_rep)

section \<open>The operations on the represented lists\<close>

lemma grow_arst_rep:
  assumes "arst_rep p ss" "arst_rep x xs"
  shows "case grow_arst mal p x of (rc, q) \<Rightarrow> arst_rep q ss \<and> (rc = 0 \<or> rc = PBSE_SYSTEM \<and> \<not> (\<forall>n. mal n)) \<and>
    (rc = 0 \<longrightarrow> as_next q + length (strs_image xs) \<le> as_bufsize q \<and> length ss + length xs \<le> as_npointers q)"
proof -
  define q where "q = (if as_next x > as_bufsize p - as_next p then p\<lparr>as_buf := Some (as_bytes p @ replicate (2 * as_next x) NUL)\<rparr> else p)"
  have nx: "as_next x = length (strs_image xs)" using assms(2) by (simp add: arst_rep_def)
  have q: "arst_rep q ss" "as_next q + length (strs_image xs) \<le> as_bufsize q" "as_usedptr q = length ss"
    using assms(1) arst_rep_fits [OF assms(1)] nx
    by (auto simp: q_def arst_rep_def as_bytes_def as_bufsize_def as_usedptr_def)
  have more: "arst_rep (q\<lparr>as_npointers := j\<rparr>) ss" if "length ss \<le> j" for j using q(1) that by (simp add: arst_rep_def as_bytes_def)
  have "grow_arst mal p x = (if as_next x > as_bufsize p - as_next p \<and> \<not> mal (as_bufsize p + 2 * as_next x) then (PBSE_SYSTEM, p)
     else if as_usedptr q + as_usedptr x > as_npointers q then
       if \<not> mal (sizeof_array_strings + (3 * (as_usedptr q + as_usedptr x) div 2 - 1) * 8) then (PBSE_SYSTEM, q)
       else (0, q\<lparr>as_npointers := 3 * (as_usedptr q + as_usedptr x) div 2\<rparr>)
     else (0, q))"
    by (simp only: grow_arst_def Let_def q_def)
  moreover have "length ss + length xs \<le> 3 * (length ss + length xs) div 2" by simp
  ultimately show ?thesis
    using assms(1) q more [of "3 * (length ss + length xs) div 2"] arst_rep_used [OF assms(2)]
    by (auto simp add: as_bufsize_def as_bytes_def PBSE_SYSTEM_def)
qed

lemma empty_arst_rep:
  "case empty_arst mal p x of (rc, q) \<Rightarrow> (rc = 0 \<or> rc = PBSE_SYSTEM \<and> \<not> (\<forall>n. mal n)) \<and>
    (rc = 0 \<or> as_buf p = None \<longrightarrow> arst_rep q []) \<and> (rc \<noteq> 0 \<longrightarrow> as_buf q = None \<and> as_string q = [])"
  by (auto simp: empty_arst_def Let_def arst_rep_def as_bytes_def PBSE_SYSTEM_def split: option.splits)

lemma new_arst_rep: "arst_rep (new_arst j) []"
  by (simp add: new_arst_def arst_rep_def as_bytes_def)

text \<open>The strings of an attribute, and when an attribute holds an array that is well-formed.\<close>

definition arst_ok :: "'r attribute \<Rightarrow> bool" where
  "arst_ok a \<longleftrightarrow> (case at_arst (at_val a) of None \<Rightarrow> True | Some p \<Rightarrow> arst_rep p (as_strs p))"

definition arst_list :: "'r attribute \<Rightarrow> string list" where
  "arst_list a = (case at_arst (at_val a) of None \<Rightarrow> [] | Some p \<Rightarrow> as_strs p)"

text \<open>What a failed \<open>SET\<close> may leave: no strings and no buffer, and a pointer \<open>as_next\<close> that means nothing.\<close>

definition arst_emptied :: "'r attribute \<Rightarrow> bool" where
  "arst_emptied a \<longleftrightarrow> (case at_arst (at_val a) of None \<Rightarrow> False | Some p \<Rightarrow> as_buf p = None \<and> as_string p = [])"

lemma arst_emptied_list: "arst_emptied a \<Longrightarrow> arst_list a = []"
  by (auto simp: arst_emptied_def arst_list_def as_strs_def split: option.splits)

lemma arst_okI: "arst_rep p ss \<Longrightarrow> at_val a = At_arst (Some p) \<Longrightarrow> arst_ok a \<and> arst_list a = ss"
  using arst_rep_strs [of p ss] by (simp add: arst_ok_def arst_list_def)

definition arst_op :: "uint \<Rightarrow> string list \<Rightarrow> string list \<Rightarrow> string list" where
  "arst_op opn old new =
     (if opn = batch_op_SET then new else if opn = batch_op_INCR then old @ new else fold remove1 new old)"

lemma arst_incr_spec:
  assumes "arst_rep p ss" "arst_rep x xs"
  shows "case arst_incr mal attr x p of (rc, a) \<Rightarrow> arst_ok a \<and> (rc = 0 \<or> rc = PBSE_SYSTEM \<and> \<not> (\<forall>n. mal n)) \<and> arst_list a = (if rc = 0 then ss @ xs else ss) \<and>
    (rc = 0 \<longrightarrow> is_set a)"
proof -
  obtain rc q where g: "grow_arst mal p x = (rc, q)" by (cases "grow_arst mal p x")
  then have q: "arst_rep q ss" "rc = 0 \<or> rc = PBSE_SYSTEM \<and> \<not> (\<forall>n. mal n)"
    "rc = 0 \<Longrightarrow> as_next q + length (strs_image xs) \<le> as_bufsize q \<and> length ss + length xs \<le> as_npointers q"
    using grow_arst_rep [OF assms, of mal] by auto
  have "\<forall>s \<in> set xs. c_string s" using assms(2) by (simp add: arst_rep_def)
  then have "rc = 0 \<Longrightarrow> arst_rep (append_strs xs q) (ss @ xs)" using append_strs_rep [OF q(1)] q(3) by simp
  then show ?thesis using g q(1,2) arst_rep_strs [OF assms(2)]
    by (auto simp: arst_incr_def arst_okI)
qed

text \<open>
  \<open>set_arst\<close> on every path: when it succeeds the attribute is set and holds the list the operation stands for; the only
  error is lack of memory, after which \<open>INCR\<close> and \<open>DECR\<close> leave the list as it was and \<open>SET\<close> leaves no strings. An
  attribute that a failed \<open>SET\<close> has emptied can be set and added to again.
\<close>

definition set_arst_outcome :: "uint \<Rightarrow> 'r attribute \<Rightarrow> 'r attribute \<Rightarrow> int \<Rightarrow> 'r attribute \<Rightarrow> bool" where
  "set_arst_outcome opn attr new rc a \<longleftrightarrow>
     (if rc = 0 then is_set a \<and> arst_ok a \<and> arst_list a = arst_op opn (arst_list attr) (arst_list new)
      else if opn = batch_op_SET then arst_list a = [] \<and> (arst_ok a \<or> arst_emptied a)
      else arst_ok a \<and> arst_list a = arst_list attr)"

lemma set_arst_spec:
  assumes "arst_ok attr \<or> arst_emptied attr \<and> opn \<noteq> batch_op_DECR" "arst_ok new" "at_arst (at_val new) = Some x"
    "opn \<in> {batch_op_SET, batch_op_INCR, batch_op_DECR}" "as_npointers x \<ge> 1"
  shows "case set_arst mal attr new opn of (rc, a) \<Rightarrow> (rc = 0 \<or> rc = PBSE_SYSTEM \<and> \<not> (\<forall>n. mal n)) \<and> set_arst_outcome opn attr new rc a"
proof (cases "at_arst (at_val attr) = None \<and> \<not> mal (sizeof_array_strings + (as_npointers x - 1) * 8)")
  case True
  then show ?thesis using assms by (auto simp: set_arst_def PBSE_SYSTEM_def set_arst_outcome_def arst_list_def arst_ok_def)
next
  case False
  define p where "p = (case at_arst (at_val attr) of None \<Rightarrow> new_arst (as_npointers x) | Some p \<Rightarrow> p)"
  have x: "arst_rep x (arst_list new)" using assms(2,3) by (simp add: arst_ok_def arst_list_def)
  have p: "arst_rep p (arst_list attr) \<or> as_buf p = None \<and> arst_list attr = [] \<and> opn \<noteq> batch_op_DECR"
    using assms(1) new_arst_rep arst_emptied_list [of attr]
    by (auto simp: p_def arst_ok_def arst_emptied_def arst_list_def split: option.splits)
  have r: "set_arst mal attr new opn =
     (let opn = (if opn = batch_op_INCR \<and> as_buf p = None then batch_op_SET else opn)
      in if opn = batch_op_SET then
           case empty_arst mal p x of (rc, q) \<Rightarrow> if rc \<noteq> 0 then (rc, attr\<lparr>at_val := At_arst (Some q)\<rparr>) else arst_incr mal attr x q
         else if opn = batch_op_INCR then arst_incr mal attr x p
         else if opn = batch_op_DECR then (0, mark_set (attr\<lparr>at_val := At_arst (Some (fold remove_str (as_strs x) p))\<rparr>))
         else (PBSE_INTERNAL, attr\<lparr>at_val := At_arst (Some p)\<rparr>))"
    using False assms(3,5) unfolding set_arst_def p_def by (simp only: option.case not_less [symmetric] if_False if_True) (simp add: Let_def)
  have nobuf: "as_buf p = None \<Longrightarrow> arst_list attr = []" using p by (auto simp: arst_rep_def)
  consider (set) "opn = batch_op_SET \<or> opn = batch_op_INCR \<and> as_buf p = None" | (incr) "opn = batch_op_INCR" "as_buf p \<noteq> None"
    | (decr) "opn = batch_op_DECR" using assms(4) by blast
  then show ?thesis
  proof cases
    case set
    obtain rc q where e: "empty_arst mal p x = (rc, q)" by (cases "empty_arst mal p x")
    then have q: "rc = 0 \<or> rc = PBSE_SYSTEM \<and> \<not> (\<forall>n. mal n)" "rc = 0 \<or> as_buf p = None \<Longrightarrow> arst_rep q []"
      "rc \<noteq> 0 \<Longrightarrow> as_buf q = None \<and> as_string q = []"
      using empty_arst_rep [of mal p x] by auto
    define a where "a = attr\<lparr>at_val := At_arst (Some q)\<rparr>"
    have fresh: "set_arst mal attr new opn = (if rc \<noteq> 0 then (rc, a) else arst_incr mal attr x q)"
      unfolding r using set e by (auto simp: a_def)
    show ?thesis
    proof (cases "rc = 0")
      case True
      then show ?thesis unfolding fresh
        using arst_incr_spec [OF q(2) x, of mal attr] set nobuf by (auto simp: set_arst_outcome_def arst_op_def)
    next
      case False
      then have "arst_emptied a" using q(3) by (simp add: arst_emptied_def a_def)
      moreover have "as_buf p = None \<Longrightarrow> arst_ok a" using arst_okI [OF q(2), of a] by (simp add: a_def)
      ultimately show ?thesis unfolding fresh
        using False q(1) set nobuf arst_emptied_list [of a] by (auto simp: set_arst_outcome_def)
    qed
  next
    case incr
    then have "arst_rep p (arst_list attr)" using p by blast
    then show ?thesis unfolding r
      using incr arst_incr_spec [OF _ x, of p "arst_list attr" mal attr] by (auto simp: set_arst_outcome_def arst_op_def batch_op_SET_def)
  next
    case decr
    then have "arst_rep (fold remove_str (as_strs x) p) (fold remove1 (arst_list new) (arst_list attr))"
      using remove_strs_rep p arst_rep_strs [OF x] by metis
    then show ?thesis unfolding r using decr by (simp add: set_arst_outcome_def arst_op_def batch_op_SET_def arst_okI)
  qed
qed

text \<open>
  The tokens of a value fit the buffer that is allocated for them: a parser that returns a token and the
  rest has consumed at least the token, and one separator more when there is a rest.
\<close>

definition token_parser :: "(string \<Rightarrow> (string \<times> string) option) \<Rightarrow> bool" where
  "token_parser parse \<longleftrightarrow> (\<forall>p t r. parse p = Some (t, r) \<longrightarrow> length t + length r + (if r = [] then 0 else 1) \<le> length p \<and>
     set t \<subseteq> set p \<and> set r \<subseteq> set p) \<and> parse [] = None"

lemma comma_tokens_image:
  assumes "token_parser parse"
  shows "length (strs_image (comma_tokens parse n p)) \<le> length p + 1 \<and> (\<forall>t \<in> set (comma_tokens parse n p). set t \<subseteq> set p) \<and>
    length (comma_tokens parse n p) \<le> n"
proof (induction n arbitrary: p)
  case (Suc n)
  show ?case
  proof (cases "parse p")
    case (Some tr)
    obtain t r where tr: "tr = (t, r)" by (cases tr)
    have p: "length t + length r + (if r = [] then 0 else 1) \<le> length p" "set t \<subseteq> set p" "set r \<subseteq> set p"
      using assms Some by (auto simp: token_parser_def tr)
    have "comma_tokens parse n [] = []" using assms by (cases n) (simp_all add: token_parser_def)
    then show ?thesis using Suc [of r] p Some by (cases "r = []") (auto simp: tr)
  qed simp
qed simp

lemma strip_trailing_le: "length (strip_trailing s) \<le> length s" "set (strip_trailing s) \<subseteq> set s"
proof -
  show "length (strip_trailing s) \<le> length s" using length_dropWhile_le [of isspace "rev s"] by (simp add: strip_trailing_def)
  show "set (strip_trailing s) \<subseteq> set s" using set_dropWhileD by (fastforce simp: strip_trailing_def)
qed

lemma comma_scan_split: "comma_scan prev p = (t, r) \<Longrightarrow> p = t @ r"
  by (induction prev p arbitrary: t r rule: comma_scan.induct) (auto split: if_splits prod.splits)

lemma unesc_scan_le: "unesc_scan p = (t, r) \<Longrightarrow> length t + length r \<le> length p \<and> set t \<subseteq> set p \<and> set r \<subseteq> set p"
  by (induction p arbitrary: t r rule: unesc_scan.induct) (fastforce split: if_splits prod.splits)+

lemma token_split:
  assumes "length t + length r \<le> length (q :: string)" "set t \<subseteq> set q" "set r \<subseteq> set q" "q = dropWhile P p"
  shows "length (strip_trailing t) + length (tl r) + (if tl r = [] then 0 else 1) \<le> length p \<and>
    set (strip_trailing t) \<subseteq> set p \<and> set (tl r) \<subseteq> set p"
proof -
  have "length q \<le> length p" "set q \<subseteq> set p" using assms(4) length_dropWhile_le [of P p] set_dropWhileD by fastforce+
  moreover have "length (tl r) + (if tl r = [] then 0 else 1) \<le> length r" by (cases r) auto
  moreover have "set (tl r) \<subseteq> set r" by (cases r) auto
  ultimately show ?thesis using assms(1-3) strip_trailing_le [of t] by (auto 0 3)
qed

lemma token_parser_comma: "token_parser parse_comma_string"
proof -
  have "length t + length r + (if r = [] then 0 else 1) \<le> length p \<and> set t \<subseteq> set p \<and> set r \<subseteq> set p"
    if a: "parse_comma_string p = Some (t, r)" for p t r
  proof -
    define q where "q = dropWhile (\<lambda>c. c \<noteq> NEWLINE \<and> isspace c) p"
    obtain u v where uv: "comma_scan None q = (u, v)" by (cases "comma_scan None q")
    then have t: "t = strip_trailing u" "r = tl v"
      using a by (simp_all add: parse_comma_string_def q_def Let_def split: if_splits)
    have "q = u @ v" using uv by (rule comma_scan_split)
    then show ?thesis unfolding t by (intro token_split [OF _ _ _ q_def]) simp_all
  qed
  then show ?thesis by (simp add: token_parser_def parse_comma_string_def)
qed

lemma token_parser_comma_bs: "token_parser parse_comma_string_bs"
proof -
  have "length t + length r + (if r = [] then 0 else 1) \<le> length p \<and> set t \<subseteq> set p \<and> set r \<subseteq> set p"
    if a: "parse_comma_string_bs p = Some (t, r)" for p t r
  proof -
    define q where "q = dropWhile isspace p"
    obtain u v where uv: "unesc_scan q = (u, v)" by (cases "unesc_scan q")
    then have t: "t = strip_trailing u" "r = tl v"
      using a by (simp_all add: parse_comma_string_bs_def q_def Let_def split: if_splits)
    show ?thesis unfolding t by (intro token_split [OF _ _ _ q_def]) (use unesc_scan_le [OF uv] in simp_all)
  qed
  then show ?thesis by (simp add: token_parser_def parse_comma_string_bs_def)
qed

lemma decode_direct_spec:
  assumes "token_parser parse" "cnt (Some v) = (0, ns, w)" "c_string w" "decode_direct cnt parse mal a (Some v) = (rc, b)"
  shows "rc = 0 \<or> rc = PBSE_SYSTEM \<and> b = a \<and> \<not> (\<forall>n. mal n)"
    "rc = 0 \<Longrightarrow> arst_ok b \<and> is_set b \<and> arst_list b = comma_tokens parse ns w \<and> (\<forall>p. at_arst (at_val b) = Some p \<longrightarrow> as_npointers p = ns)"
proof -
  let ?ts = "comma_tokens parse ns w"
  let ?p = "\<lparr>as_npointers = ns, as_buf = Some (replicate (length w + 1) NUL), as_next = 0, as_string = []\<rparr>"
  have t: "length (strs_image ?ts) \<le> length w + 1" "\<forall>t \<in> set ?ts. set t \<subseteq> set w" "length ?ts \<le> ns"
    using comma_tokens_image [OF assms(1)] by blast+
  have "arst_rep (append_strs ?ts ?p) ([] @ ?ts)"
    by (rule append_strs_rep [THEN conjunct1])
      (use t assms(3) in \<open>auto simp: arst_rep_def as_bytes_def as_bufsize_def c_string_def\<close>)
  moreover have "as_npointers (append_strs ss p) = as_npointers p" for ss p
    by (induction ss arbitrary: p) (simp_all add: append_strs_def append_str_def)
  ultimately have "arst_ok (x\<lparr>at_val := At_arst (Some (append_strs ?ts ?p))\<rparr>) \<and> arst_list (x\<lparr>at_val := At_arst (Some (append_strs ?ts ?p))\<rparr>) = ?ts"
    "as_npointers (append_strs ?ts ?p) = ns" for x :: "'a attribute"
    by (simp_all add: arst_okI)
  then show "rc = 0 \<or> rc = PBSE_SYSTEM \<and> b = a \<and> \<not> (\<forall>n. mal n)"
    "rc = 0 \<Longrightarrow> arst_ok b \<and> is_set b \<and> arst_list b = ?ts \<and> (\<forall>p. at_arst (at_val b) = Some p \<longrightarrow> as_npointers p = ns)"
    using assms(2-4) by (auto simp: decode_direct_def Let_def PBSE_SYSTEM_def split: if_splits)
qed

lemma arst_image_encoded:
  assumes "arst_rep p ss" "sep \<noteq> NUL"
  shows "map (\<lambda>c. if c = NUL then sep else c) (take (as_next p) (as_bytes p)) = concat (map (\<lambda>s. s @ [sep]) ss)"
proof -
  have "take (as_next p) (as_bytes p) = strs_image ss" using assms by (auto simp: arst_rep_def)
  moreover have "map (\<lambda>c. if c = NUL then sep else c) (strs_image ts) = concat (map (\<lambda>s. s @ [sep]) ts)" if "\<forall>s \<in> set ts. c_string s" for ts
    using that
  proof (induction ts)
    case (Cons t ts)
    have "map (\<lambda>c. if c = NUL then sep else c) t = t" using Cons.prems by (auto simp: c_string_def intro: map_idI)
    then show ?case using Cons by simp
  qed simp
  ultimately show ?thesis using assms(1) by (simp add: arst_rep_def)
qed

lemma comp_arst_subset:
  assumes "at_arst (at_val a) = Some p" "at_arst (at_val w) = Some q" "at_type a = ATR_TYPE_ARST" "at_type w = ATR_TYPE_ARST"
  shows "comp_arst (Some a) (Some w) = (if set (as_strs q) \<subseteq> set (as_strs p) then 0 else 1)"
proof -
  have "length (filter P xs) = length xs \<longleftrightarrow> (\<forall>x \<in> set xs. P x)" for P :: "string \<Rightarrow> bool" and xs
    by (metis filter_id_conv length_filter_less less_irrefl)
  moreover have "as_usedptr q = length (as_strs q)" by (simp add: as_usedptr_def as_strs_def)
  ultimately show ?thesis using assms by (auto simp: comp_arst_def)
qed

lemma check_duplicates_distinct: "check_duplicates (Some p) = (if distinct (as_strs p) then 0 else 1)"
proof -
  have "as_usedptr p = length (as_strs p)" by (simp add: as_usedptr_def as_strs_def)
  moreover have "(\<exists>i < length xs. \<exists>j < length xs. i < j \<and> xs ! i = xs ! j) \<longleftrightarrow> \<not> distinct xs" for xs :: "string list"
    unfolding distinct_conv_nth by (metis nat_neq_iff)
  ultimately show ?thesis by (simp add: check_duplicates_def)
qed

lemma decode_into_spec:
  assumes "token_parser parse" "cnt (Some v) = (0, ns, w)" "c_string w" "strlen v \<noteq> 0" "1 \<le> ns" "arst_ok a" "\<forall>n. mal n"
  shows "\<exists>b. decode_into (decode_direct cnt parse mal) mal a (Some v) = (0, b) \<and> is_set b \<and> arst_ok b \<and> arst_list b = comma_tokens parse ns w"
proof -
  have d: "\<exists>b. decode_direct cnt parse mal c (Some v) = (0, b) \<and> is_set b \<and> arst_ok b \<and> arst_list b = comma_tokens parse ns w \<and>
      (\<exists>p. at_arst (at_val b) = Some p \<and> as_npointers p = ns)" for c :: "'a attribute"
  proof -
    obtain rc b where r: "decode_direct cnt parse mal c (Some v) = (rc, b)" by (cases "decode_direct cnt parse mal c (Some v)")
    have "at_arst (at_val b) \<noteq> None" if "rc = 0"
      using r that assms(2,7) by (auto simp: decode_direct_def Let_def PBSE_SYSTEM_def split: if_splits)
    then show ?thesis using decode_direct_spec [OF assms(1-3) r] assms(7) r by auto
  qed
  show ?thesis
  proof (cases "is_set a \<and> at_arst (at_val a) \<noteq> None")
    case True
    let ?t = "\<lparr>at_flags = 0, at_type = ATR_TYPE_ARST, at_user_encoded = None, at_priv_encoded = None, at_val = At_arst None\<rparr> :: 'a attribute"
    obtain b p where b: "decode_direct cnt parse mal ?t (Some v) = (0, b)" "arst_ok b" "arst_list b = comma_tokens parse ns w"
      "at_arst (at_val b) = Some p" "as_npointers p = ns" using d [of ?t] by blast
    have "decode_into (decode_direct cnt parse mal) mal a (Some v) = set_arst mal a b batch_op_SET"
      using True assms(4) b(1) by (simp add: decode_into_def)
    then show ?thesis
      using set_arst_spec [OF disjI1 [OF assms(6)] b(2,4), of batch_op_SET mal] b(3,5) assms(5,7)
      by (cases "set_arst mal a b batch_op_SET") (simp add: arst_op_def set_arst_outcome_def)
  next
    case False
    then have "decode_into (decode_direct cnt parse mal) mal a (Some v) = decode_direct cnt parse mal a (Some v)"
      using assms(4) by (auto simp: decode_into_def)
    then show ?thesis using d [of a] by auto
  qed
qed

section \<open>Round trips\<close>

lemma sep_image_join: "butlast (concat (map (\<lambda>s. s @ [sep]) (s # ss))) = join_with sep s ss"
proof (induction ss arbitrary: s)
  case (Cons t ss)
  then show ?case by (simp add: join_with_eq butlast_append)
qed (simp add: join_with_eq)

text \<open>Items that the plain form keeps: no separators or white space at the ends, and no escape character at the end.\<close>

definition trimmed :: "string \<Rightarrow> bool" where
  "trimmed s \<longleftrightarrow> s \<noteq> [] \<and> c_string s \<and> \<not> isspace (hd s) \<and> \<not> isspace (last s)"

definition plain_item :: "string \<Rightarrow> bool" where
  "plain_item s \<longleftrightarrow> trimmed s \<and> (\<forall>c \<in> set s. c \<noteq> CHR '','' \<and> c \<noteq> NEWLINE) \<and> last s \<noteq> ESC_CHAR"

lemma strip_trimmed: "trimmed s \<Longrightarrow> strip_trailing s = s"
  by (cases s rule: rev_cases) (simp_all add: trimmed_def strip_trailing_def)

lemma comma_scan_item:
  assumes "\<forall>c \<in> set s. c \<noteq> CHR '','' \<and> c \<noteq> NEWLINE" "s \<noteq> [] \<Longrightarrow> last s \<noteq> ESC_CHAR" "s = [] \<Longrightarrow> prev \<noteq> Some ESC_CHAR"
    "r = [] \<or> hd r = CHR '',''"
  shows "comma_scan prev (s @ r) = (s, r)" "comma_count prev (s @ r) = (if r = [] then 0 else 1 + comma_count (Some CHR '','') (tl r))"
  using assms
proof (induction s arbitrary: prev)
  case Nil
  { case 1 then show ?case by (cases r) (auto simp: comma_end_def) }
  { case 2 then show ?case by (cases r) (auto simp: comma_end_def) }
next
  case (Cons c s)
  { case 1 then show ?case using Cons.IH(1) [of "Some c"] by (auto simp: comma_end_def split: if_splits) }
  { case 2 then show ?case using Cons.IH(2) [of "Some c"] by (auto simp: comma_end_def split: if_splits) }
qed

lemma comma_join:
  assumes "plain_item s" "\<forall>t \<in> set ss. plain_item t"
  shows "comma_tokens parse_comma_string (Suc (length ss)) (join_with CHR '','' s ss) = s # ss \<and>
    (\<forall>prev. comma_count prev (join_with CHR '','' s ss) = length ss)"
  using assms
proof (induction ss arbitrary: s)
  case Nil
  have s: "\<forall>c \<in> set s. c \<noteq> CHR '','' \<and> c \<noteq> NEWLINE" "last s \<noteq> ESC_CHAR" "s \<noteq> []" "trimmed s" "\<not> isspace (hd s)"
    using Nil.prems by (simp_all add: plain_item_def trimmed_def)
  have "dropWhile (\<lambda>c. c \<noteq> NEWLINE \<and> isspace c) s = s" using s(3,5) by (cases s) auto
  then have "parse_comma_string s = Some (s, [])" using comma_scan_item(1) [of s None "[]"] s strip_trimmed [OF s(4)] by (simp add: parse_comma_string_def)
  moreover have "comma_count prev s = 0" for prev using comma_scan_item(2) [of s prev "[]"] s by simp
  ultimately show ?case by simp
next
  case (Cons t ss)
  have s: "\<forall>c \<in> set s. c \<noteq> CHR '','' \<and> c \<noteq> NEWLINE" "last s \<noteq> ESC_CHAR" "s \<noteq> []" "trimmed s" "\<not> isspace (hd s)"
    using Cons.prems by (simp_all add: plain_item_def trimmed_def)
  have j: "join_with CHR '','' s (t # ss) = s @ CHR '','' # join_with CHR '','' t ss" by (simp add: join_with_eq)
  have "dropWhile (\<lambda>c. c \<noteq> NEWLINE \<and> isspace c) (s @ r) = s @ r" for r using s(3,5) by (cases s) auto
  then have "parse_comma_string (join_with CHR '','' s (t # ss)) = Some (s, join_with CHR '','' t ss)"
    using comma_scan_item(1) [of s None "CHR '','' # join_with CHR '','' t ss"] s strip_trimmed [OF s(4)]
    unfolding j by (simp add: parse_comma_string_def)
  moreover have "comma_count prev (join_with CHR '','' s (t # ss)) = 1 + comma_count (Some CHR '','') (join_with CHR '','' t ss)" for prev
    using comma_scan_item(2) [of s prev "CHR '','' # join_with CHR '','' t ss"] s unfolding j by simp
  ultimately show ?case using Cons.IH [of t] Cons.prems by simp
qed

lemma c_string_join: "d \<noteq> NUL \<Longrightarrow> c_string s \<Longrightarrow> \<forall>t \<in> set ss. c_string t \<Longrightarrow> c_string (join_with d s ss)"
  by (auto simp: join_with_eq c_string_def)

lemma last_join_with: "s \<noteq> [] \<Longrightarrow> \<forall>t \<in> set ss. t \<noteq> [] \<Longrightarrow> last (join_with d s ss) = last (last (s # ss))"
  by (induction ss arbitrary: s) (simp_all add: join_with_eq)

text \<open>An array of plain items, encoded and decoded again into any attribute of that type, comes back.\<close>

lemma arst_roundtrip:
  fixes a :: "'r attribute"
  assumes "arst_ok a" "is_set a" "arst_list a \<noteq> []" "\<forall>s \<in> set (arst_list a). plain_item s" "mode \<noteq> ATR_ENCODE_SAVE"
  shows "\<exists>pal. encode_arst (\<lambda>_. True) (Some a) phead nm rn mode = (1, map_option (\<lambda>l. l @ [pal]) phead, Some pal) \<and>
    entry_for a nm rn (al_value pal) pal \<and> c_string (al_value pal) \<and> al_value pal \<noteq> [] \<and>
    (\<forall>(b :: 'r attribute) nm' rn'. arst_ok b \<longrightarrow> (\<exists>b'. decode_arst (\<lambda>_. True) b nm' rn' (Some (al_value pal)) = (0, b') \<and> is_set b' \<and> arst_ok b' \<and> arst_list b' = arst_list a))"
proof -
  obtain p where p: "at_arst (at_val a) = Some p" using assms(3) by (auto simp: arst_list_def split: option.splits)
  then have rep: "arst_rep p (arst_list a)" using assms(1) by (simp add: arst_ok_def arst_list_def)
  obtain s ss where l: "arst_list a = s # ss" using assms(3) by (cases "arst_list a") simp_all
  have pl: "plain_item s" "\<forall>t \<in> set ss. plain_item t" using assms(4) by (simp_all add: l)
  let ?v = "join_with CHR '','' s ss"
  have "butlast (map (\<lambda>c. if c = NUL then CHR '','' else c) (take (as_next p) (as_bytes p))) = ?v"
    using arst_image_encoded [OF rep, of "CHR '',''"] sep_image_join [of "CHR '',''" s ss] by (simp add: l)
  moreover have "as_usedptr p \<noteq> 0" using arst_rep_used [OF rep] l by simp
  ultimately have enc: "encode_arst (\<lambda>_. True) (Some a) phead nm rn mode = encode_text (\<lambda>_. True) a phead nm rn (int (as_next p)) ?v"
    using assms(2,5) p by (simp add: encode_arst_def)
  have ne: "\<forall>t \<in> set (s # ss). t \<noteq> [] \<and> c_string t \<and> last t \<noteq> CHR '','' \<and> last t \<noteq> NEWLINE"
    using pl by (auto simp: plain_item_def trimmed_def)
  then have "last (last (s # ss)) \<noteq> CHR '','' \<and> last (last (s # ss)) \<noteq> NEWLINE" using last_in_set [of "s # ss"] by blast
  then have "last ?v \<noteq> CHR '','' \<and> last ?v \<noteq> NEWLINE" using last_join_with [of s ss] ne by simp
  then have cnt: "count_substrings (Some ?v) = (0, Suc (length ss), ?v)" using comma_join [OF pl] by (simp add: count_substrings_def)
  have cs: "c_string ?v" by (rule c_string_join) (use ne in auto)
  have nv: "?v \<noteq> []" using ne by (simp add: join_with_eq)
  then have "strlen ?v \<noteq> 0" using cs by simp
  then have "\<exists>b'. decode_arst (\<lambda>_. True) b nm' rn' (Some ?v) = (0, b') \<and> is_set b' \<and> arst_ok b' \<and> arst_list b' = arst_list a"
    if "arst_ok b" for b :: "'r attribute" and nm' rn'
    using decode_into_spec [where cnt = count_substrings and mal = "\<lambda>_. True", OF token_parser_comma cnt cs _ _ that] comma_join [OF pl]
    by (auto simp: decode_arst_def decode_arst_direct_def l)
  moreover obtain pal where "encode_arst (\<lambda>_. True) (Some a) phead nm rn mode = (1, map_option (\<lambda>l. l @ [pal]) phead, Some pal)" "entry_for a nm rn ?v pal"
    using encode_text_ok [of "int (as_next p)" a phead nm rn ?v] enc by auto
  moreover from this have "al_value pal = ?v" by (simp add: entry_for_def)
  ultimately show ?thesis using cs nv by (intro exI [of _ pal]) simp
qed

text \<open>
  With escapes every character but white space at the ends is kept. The exception is a comma at the very
  end of the last item: \<open>count_substrings_bs\<close> takes it for a trailing separator.
\<close>

definition escape_item :: "string \<Rightarrow> string" where
  "escape_item s = concat (map (\<lambda>c. if esc_special c then [ESC_CHAR, c] else [c]) s)"

lemma escape_item_simps [simp]:
  "escape_item [] = []" "escape_item (c # s) = (if esc_special c then [ESC_CHAR, c] else [c]) @ escape_item s"
  "escape_item (s @ t) = escape_item s @ escape_item t"
  by (simp_all add: escape_item_def)

lemma esc_special_simps [simp]: "esc_special ESC_CHAR" "esc_special CHR '',''" "\<not> esc_special NUL" "ESC_CHAR \<noteq> CHR '',''" "ESC_CHAR \<noteq> NUL" "\<not> isspace ESC_CHAR"
  "CHR '','' \<noteq> ESC_CHAR" "NUL \<noteq> ESC_CHAR"
  by (simp_all add: esc_special_def ESC_CHAR_def isspace_def uchar_def)

lemma escape_bytes_image:
  "\<forall>s \<in> set ss. c_string s \<Longrightarrow> escape_bytes (strs_image ss) = concat (map (\<lambda>s. s @ [CHR '','']) (map escape_item ss))"
proof (induction ss)
  case (Cons s ss)
  have "escape_bytes (t @ NUL # r) = escape_item t @ CHR '','' # escape_bytes r" if "c_string t" for t r
    using that by (induction t) (auto simp: escape_bytes_def c_string_def)
  then show ?case using Cons by simp
qed (simp add: escape_bytes_def)

lemma unesc_Cons:
  "c \<noteq> ESC_CHAR \<Longrightarrow> c \<noteq> CHR '','' \<Longrightarrow> unesc_scan (c # cs) = (c # fst (unesc_scan cs), snd (unesc_scan cs))"
  "unesc_scan (CHR '','' # cs) = ([], CHR '','' # cs)"
  "c \<noteq> ESC_CHAR \<Longrightarrow> comma_count_bs (c # cs) = (if c = CHR '','' then 1 else 0) + comma_count_bs cs"
  by (cases cs, simp, simp only: unesc_scan.simps comma_count_bs.simps case_prod_beta if_False if_True esc_special_simps, simp?)+

lemma unesc_item:
  assumes "r = [] \<or> hd r = CHR '',''"
  shows "unesc_scan (escape_item s @ r) = (s, r)" "comma_count_bs (escape_item s @ r) = comma_count_bs r"
proof (induction s)
  case Nil
  { case 1 show ?case using assms by (cases r) (auto simp: unesc_Cons) }
  { case 2 show ?case by simp }
next
  case (Cons c s)
  have "\<not> esc_special c \<Longrightarrow> c \<noteq> ESC_CHAR \<and> c \<noteq> CHR '',''" by auto
  { case 1 show ?case using Cons \<open>\<not> esc_special c \<Longrightarrow> _\<close> by (auto simp: unesc_Cons) }
  { case 2 show ?case using Cons \<open>\<not> esc_special c \<Longrightarrow> _\<close> by (auto simp: unesc_Cons) }
qed

lemma escape_item_ends: "s \<noteq> [] \<Longrightarrow> escape_item s \<noteq> [] \<and> last (escape_item s) = last s"
  by (cases s rule: rev_cases) simp_all

lemma drop_space_item: "trimmed s \<Longrightarrow> dropWhile isspace (escape_item s @ r) = escape_item s @ r"
  by (cases s) (simp_all add: trimmed_def)

lemma comma_join_bs:
  assumes "trimmed s" "\<forall>t \<in> set ss. trimmed t"
  shows "comma_tokens parse_comma_string_bs (Suc (length ss)) (join_with CHR '','' (escape_item s) (map escape_item ss)) = s # ss \<and>
    comma_count_bs (join_with CHR '','' (escape_item s) (map escape_item ss)) = length ss"
  using assms
proof (induction ss arbitrary: s)
  case Nil
  then have "escape_item s \<noteq> []" "trimmed s" using escape_item_ends [of s] by (simp_all add: trimmed_def)
  then have "parse_comma_string_bs (escape_item s) = Some (s, [])"
    using drop_space_item [of s "[]"] unesc_item(1) [of "[]" s] strip_trimmed [of s] by (simp add: parse_comma_string_bs_def)
  then show ?case using unesc_item(2) [of "[]" s] by simp
next
  case (Cons t ss)
  let ?j = "join_with CHR '','' (escape_item t) (map escape_item ss)"
  have j: "join_with CHR '','' (escape_item s) (map escape_item (t # ss)) = escape_item s @ CHR '','' # ?j" by (simp add: join_with_eq)
  have "parse_comma_string_bs (escape_item s @ CHR '','' # ?j) = Some (s, ?j)"
    using drop_space_item [of s "CHR '','' # ?j"] unesc_item(1) [of "CHR '','' # ?j" s] strip_trimmed [of s] Cons.prems
    by (simp add: parse_comma_string_bs_def)
  moreover have "comma_count_bs (escape_item s @ CHR '','' # ?j) = 1 + comma_count_bs ?j"
    using unesc_item(2) [of "CHR '','' # ?j" s] by (simp add: unesc_Cons(3))
  ultimately show ?case unfolding j using Cons.IH [of t] Cons.prems by simp
qed

lemma c_string_escape_item: "c_string s \<Longrightarrow> c_string (escape_item s)"
  by (auto simp: c_string_def escape_item_def split: if_splits)

lemma arst_bs_encoded:
  assumes "arst_ok a" "is_set a" "arst_list a = s # ss"
  shows "encode_arst_bs (\<lambda>_. True) (Some a) phead nm rn mode =
    encode_text (\<lambda>_. True) a (Some phead) nm rn (int (as_next (the (at_arst (at_val a))) + length (filter esc_special (strs_image (s # ss)))))
      (join_with CHR '','' (escape_item s) (map escape_item ss))"
proof -
  obtain p where p: "at_arst (at_val a) = Some p" using assms(3) by (auto simp: arst_list_def split: option.splits)
  then have rep: "arst_rep p (s # ss)" using assms(1,3) by (simp add: arst_ok_def arst_list_def)
  then have im: "take (as_next p) (as_bytes p) = strs_image (s # ss)" by (auto simp: arst_rep_def)
  have "butlast (escape_bytes (strs_image (s # ss))) = join_with CHR '','' (escape_item s) (map escape_item ss)"
    using escape_bytes_image [of "s # ss"] sep_image_join [of "CHR '',''" "escape_item s" "map escape_item ss"] rep by (simp add: arst_rep_def)
  moreover have "as_usedptr p \<noteq> 0" using arst_rep_used [OF rep] by simp
  ultimately show ?thesis using assms(2) p im by (simp add: encode_arst_bs_def)
qed

lemma arst_bs_roundtrip:
  assumes "arst_ok a" "is_set a" "arst_list a \<noteq> []" "\<forall>s \<in> set (arst_list a). trimmed s" "last (last (arst_list a)) \<noteq> CHR '',''" "arst_ok b"
  shows "\<exists>pal b'. encode_arst_bs (\<lambda>_. True) (Some a) phead nm rn mode = (1, Some (phead @ [pal]), Some pal) \<and>
    entry_for a nm rn (al_value pal) pal \<and>
    decode_arst_bs (\<lambda>_. True) b nm rn (Some (al_value pal)) = (0, b') \<and> is_set b' \<and> arst_list b' = arst_list a"
proof -
  obtain s ss where l: "arst_list a = s # ss" using assms(3) by (cases "arst_list a") simp_all
  have pl: "trimmed s" "\<forall>t \<in> set ss. trimmed t" using assms(4) by (simp_all add: l)
  let ?v = "join_with CHR '','' (escape_item s) (map escape_item ss)"
  have ne: "\<forall>t \<in> set (s # ss). t \<noteq> [] \<and> c_string t" using pl by (auto simp: trimmed_def)
  then have ne': "escape_item s \<noteq> []" "\<forall>t \<in> set (map escape_item ss). t \<noteq> []" using escape_item_ends by auto
  have "last (map escape_item (s # ss)) = escape_item (last (s # ss))" by (rule last_map) simp
  moreover have "last (s # ss) \<noteq> []" using ne last_in_set [of "s # ss"] by blast
  ultimately have "last ?v = last (last (s # ss))"
    using last_join_with [OF ne', of "CHR '',''"] escape_item_ends [of "last (s # ss)"] by simp
  then have cnt: "count_substrings_bs (Some ?v) = (0, Suc (length ss), ?v)"
    using comma_join_bs [OF pl] assms(5) l by (simp add: count_substrings_bs_def)
  have cs: "c_string ?v" by (rule c_string_join) (use ne c_string_escape_item in auto)
  have "?v \<noteq> []" using ne' by (simp add: join_with_eq)
  then have "strlen ?v \<noteq> 0" using cs by simp
  then obtain b' where b': "decode_arst_bs (\<lambda>_. True) b nm rn (Some ?v) = (0, b')" "is_set b'" "arst_list b' = s # ss"
    using decode_into_spec [where cnt = count_substrings_bs and mal = "\<lambda>_. True", OF token_parser_comma_bs cnt cs _ _ assms(6)] comma_join_bs [OF pl]
    by (auto simp: decode_arst_bs_def decode_arst_direct_bs_def)
  obtain pal where "encode_arst_bs (\<lambda>_. True) (Some a) phead nm rn mode = (1, Some (phead @ [pal]), Some pal)" "entry_for a nm rn ?v pal"
    unfolding arst_bs_encoded [OF assms(1,2) l] using encode_text_ok [of "int k" a "Some phead" nm rn ?v for k] by (metis of_nat_0_le_iff option.map(2))
  moreover from this have "al_value pal = ?v" by (simp add: entry_for_def)
  ultimately show ?thesis using b' l by (intro exI [of _ pal] exI [of _ b']) simp
qed

text \<open>The exception: the last item of the array is lost when it ends with a comma.\<close>

lemma count_substrings_bs_drops:
  assumes "trimmed s" "\<forall>t \<in> set ss. trimmed t" "last (last (s # ss)) = CHR '',''"
  shows "fst (snd (count_substrings_bs (Some (join_with CHR '','' (escape_item s) (map escape_item ss))))) = length ss"
proof -
  have ne: "escape_item s \<noteq> []" "\<forall>t \<in> set (map escape_item ss). t \<noteq> []" "last (s # ss) \<noteq> []"
    using assms(1,2) escape_item_ends by (auto simp: trimmed_def)
  have "last (map escape_item (s # ss)) = escape_item (last (s # ss))" by (rule last_map) simp
  then have "last (join_with CHR '','' (escape_item s) (map escape_item ss)) = CHR '',''"
    using last_join_with [OF ne(1,2), of "CHR '',''"] escape_item_ends [OF ne(3)] assms(3) by simp
  then show ?thesis using comma_join_bs [OF assms(1,2)] ne(1) by (simp add: count_substrings_bs_def join_with_eq)
qed

section \<open>Arrays without duplicates\<close>

definition add_uniq :: "string \<Rightarrow> string list \<Rightarrow> string list" where
  "add_uniq s l = (if map tolower s \<in> map tolower ` set l then l else l @ [s])"

lemma append_uniq_rep:
  assumes "arst_rep p ss" "c_string s" "as_next p + length s + 1 \<le> as_bufsize p" "length ss < as_npointers p"
  shows "arst_rep (append_uniq s p) (add_uniq s ss)" "as_bufsize (append_uniq s p) = as_bufsize p"
    "as_npointers (append_uniq s p) = as_npointers p" "as_next (append_uniq s p) \<le> as_next p + length s + 1"
    "length (add_uniq s ss) \<le> Suc (length ss)"
  using append_str_rep [OF assms] assms(1) arst_rep_strs [OF assms(1)]
  by (auto simp: append_uniq_def add_uniq_def strcasecmp_def append_str_def)

lemma append_uniqs_rep:
  assumes "arst_rep p ss" "\<forall>s \<in> set ts. c_string s" "as_next p + length (strs_image ts) \<le> as_bufsize p"
    "length ss + length ts \<le> as_npointers p"
  shows "arst_rep (fold append_uniq ts p) (fold add_uniq ts ss)"
  using assms
proof (induction ts arbitrary: p ss)
  case (Cons t ts)
  note a = append_uniq_rep [of p ss t]
  have "arst_rep (fold append_uniq ts (append_uniq t p)) (fold add_uniq ts (add_uniq t ss))"
    using a Cons.prems by (intro Cons.IH) simp_all
  then show ?case by simp
qed simp

lemma distinct_add_uniq: "distinct (map (map tolower) l) \<Longrightarrow> distinct (map (map tolower) (add_uniq s l))"
  by (auto simp: add_uniq_def)

lemma distinct_add_uniqs: "distinct (map (map tolower) l) \<Longrightarrow> distinct (map (map tolower) (fold add_uniq ss l))"
  by (induction ss arbitrary: l) (simp_all add: distinct_add_uniq)

lemma set_arst_uniq_spec:
  assumes "arst_ok attr" "arst_ok new" "at_arst (at_val new) = Some x" "opn \<in> {batch_op_SET, batch_op_INCR}" "as_npointers x \<ge> 1" "\<forall>n. mal n"
  shows "\<exists>a. set_arst_uniq mal attr new opn = (0, a) \<and> is_set a \<and> arst_ok a \<and>
    arst_list a = fold add_uniq (arst_list new) (if opn = batch_op_SET then [] else arst_list attr)"
proof -
  define p where "p = (case if opn = batch_op_SET then None else at_arst (at_val attr) of None \<Rightarrow> new_arst (as_npointers x) | Some p \<Rightarrow> p)"
  define old where "old = (if opn = batch_op_SET then [] else arst_list attr)"
  have x: "arst_rep x (arst_list new)" using assms(2,3) by (simp add: arst_ok_def arst_list_def)
  have p: "arst_rep p old"
    using assms(1) new_arst_rep by (auto simp: p_def old_def arst_ok_def arst_list_def split: option.splits)
  obtain q where q: "grow_arst mal p x = (0, q)" "arst_rep q old"
    "as_next q + length (strs_image (arst_list new)) \<le> as_bufsize q" "length old + length (arst_list new) \<le> as_npointers q"
    using grow_arst_rep [OF p x, of mal] assms(6) by (cases "grow_arst mal p x") auto
  have "\<forall>s \<in> set (arst_list new). c_string s" using x by (simp add: arst_rep_def)
  then have rep: "arst_rep (fold append_uniq (arst_list new) q) (fold add_uniq (arst_list new) old)" using append_uniqs_rep q(2-4) by blast
  define a where "a = (if opn = batch_op_SET then free_arst attr else attr)"
  have va: "(if opn = batch_op_SET then None else at_arst (at_val a)) = (if opn = batch_op_SET then None else at_arst (at_val attr))" by (simp add: a_def)
  have "opn \<noteq> batch_op_DECR" using assms(4) by (auto simp: batch_op_SET_def)
  then have "set_arst_uniq mal attr new opn = (0, mark_set (a\<lparr>at_val := At_arst (Some (fold append_uniq (as_strs x) q))\<rparr>))"
    using assms(3,5,6) q(1) va
    by (simp add: set_arst_uniq_def p_def [symmetric] Let_def flip: a_def)
  then show ?thesis using rep arst_rep_strs [OF x] by (simp add: arst_okI old_def)
qed

end
