(* ===== verification/Attr_Codec.thy ===== *)
theory Attr_Codec
  imports Attr_Size Attr_Arst
begin

text \<open>
  The contract every attribute type keeps towards the code that decodes, sets and sends attributes through
  the function pointers of an \<open>attribute_def\<close> (\<open>src/src/include/attribute.h\<close>), and the proof that
  the types of the library keep it.
\<close>

section \<open>The contract\<close>

text \<open>
  An attribute's value is kept when what the encoder writes is what the decoder reads; \<open>entry_for\<close> says that the
  entry has the name and the flags of the attribute.

  \<open>legal\<close> are the values the type represents as text, \<open>same\<close> is equality of values (of the contents, for
  arrays of strings), \<open>wf\<close> what is required of an attribute that is decoded or copied into.
\<close>

definition value_kept :: "('r attribute \<Rightarrow> string \<Rightarrow> string option \<Rightarrow> string option \<Rightarrow> int \<times> 'r attribute) \<Rightarrow>
    ('r attribute option \<Rightarrow> svrattrl list option \<Rightarrow> string \<Rightarrow> string option \<Rightarrow> int \<Rightarrow> encoded) \<Rightarrow>
    ('r attr_val \<Rightarrow> 'r attr_val \<Rightarrow> bool) \<Rightarrow> int \<Rightarrow> 'r attribute \<Rightarrow> 'r attribute \<Rightarrow> bool" where
  "value_kept dec enc same mode a b \<longleftrightarrow> (\<forall>phead nm rn. \<exists>pal b'.
     enc (Some a) phead nm rn mode = (1, map_option (\<lambda>l. l @ [pal]) phead, Some pal) \<and> entry_for a nm rn (al_value pal) pal \<and>
     dec b nm rn (Some (al_value pal)) = (0, b') \<and> is_set b' \<and> same (at_val b') (at_val a))"

locale attr_codec =
  fixes decode :: "'r attribute \<Rightarrow> string \<Rightarrow> string option \<Rightarrow> string option \<Rightarrow> int \<times> 'r attribute"
    and encode :: "'r attribute option \<Rightarrow> svrattrl list option \<Rightarrow> string \<Rightarrow> string option \<Rightarrow> int \<Rightarrow> encoded"
    and setf :: "'r attribute \<Rightarrow> 'r attribute \<Rightarrow> uint \<Rightarrow> int \<times> 'r attribute"
    and freef :: "'r attribute \<Rightarrow> 'r attribute"
    and legal :: "'r attr_val \<Rightarrow> bool"
    and same :: "'r attr_val \<Rightarrow> 'r attr_val \<Rightarrow> bool"
    and wf :: "'r attr_val \<Rightarrow> bool"
    and modes :: "int set"
  assumes encode_legal: "is_set a \<Longrightarrow> legal (at_val a) \<Longrightarrow> mode \<in> modes \<Longrightarrow>
      \<exists>pal. encode (Some a) phead nm rn mode = (1, map_option (\<lambda>l. l @ [pal]) phead, Some pal) \<and>
        entry_for a nm rn (al_value pal) pal \<and> c_string (al_value pal) \<and> al_value pal \<noteq> [] \<and>
        (\<forall>b nm' rn'. wf (at_val b) \<longrightarrow> (\<exists>b'. decode b nm' rn' (Some (al_value pal)) = (0, b') \<and> is_set b' \<and>
           legal (at_val b') \<and> wf (at_val b') \<and> same (at_val b') (at_val a)))"
    and encode_unset: "\<not> is_set a \<Longrightarrow> encode (Some a) phead nm rn mode = (0, phead, None)"
    and decode_empty: "val = None \<or> strlen (the val) = 0 \<Longrightarrow>
      \<exists>b'. decode b nm rn val = (0, b') \<and> \<not> is_set b' \<and> at_flags b' AND ATR_VFLAG_MODIFY \<noteq> 0"
    and set_SET: "is_set n \<Longrightarrow> legal (at_val n) \<Longrightarrow> wf (at_val n) \<Longrightarrow> wf (at_val a) \<Longrightarrow>
      \<exists>a'. setf a n batch_op_SET = (0, a') \<and> is_set a' \<and> legal (at_val a') \<and> wf (at_val a') \<and> same (at_val a') (at_val n)"
    and free_unset: "\<not> is_set (freef a)"
    and same_trans: "same u v \<Longrightarrow> same v w \<Longrightarrow> same u w"
    and wf_zero: "wf At_zero"
begin

lemma kept: "is_set a \<Longrightarrow> legal (at_val a) \<Longrightarrow> mode \<in> modes \<Longrightarrow> wf (at_val b) \<Longrightarrow> value_kept decode encode same mode a b"
  unfolding value_kept_def using encode_legal by blast

text \<open>What is decoded from an encoded value and then set is the value that was encoded.\<close>

lemma encode_decode_set:
  assumes "is_set a" "legal (at_val a)" "mode \<in> modes" "wf (at_val b)" "wf (at_val n)"
  shows "\<exists>pal t n'. encode (Some a) phead nm rn mode = (1, map_option (\<lambda>l. l @ [pal]) phead, Some pal) \<and>
    entry_for a nm rn (al_value pal) pal \<and> decode b nm rn (Some (al_value pal)) = (0, t) \<and> is_set t \<and>
    setf n t batch_op_SET = (0, n') \<and> is_set n' \<and> same (at_val n') (at_val a)"
proof -
  obtain pal where p: "encode (Some a) phead nm rn mode = (1, map_option (\<lambda>l. l @ [pal]) phead, Some pal)"
    "entry_for a nm rn (al_value pal) pal"
    "\<forall>b nm' rn'. wf (at_val b) \<longrightarrow> (\<exists>b'. decode b nm' rn' (Some (al_value pal)) = (0, b') \<and> is_set b' \<and>
       legal (at_val b') \<and> wf (at_val b') \<and> same (at_val b') (at_val a))"
    using encode_legal [OF assms(1-3)] by blast
  then obtain t where t: "decode b nm rn (Some (al_value pal)) = (0, t)" "is_set t" "legal (at_val t)" "wf (at_val t)" "same (at_val t) (at_val a)"
    using assms(4) by blast
  obtain n' where "setf n t batch_op_SET = (0, n')" "is_set n'" "same (at_val n') (at_val t)"
    using set_SET [OF t(2-4) assms(5)] by blast
  then show ?thesis using p(1,2) t(1,2,5) same_trans by blast
qed

end

section \<open>The types that keep the contract\<close>

text \<open>A type whose encoder writes \<open>text_of\<close> the value and whose decoder reads that text.\<close>

lemma encode_text_legal:
  assumes "encode (Some a) phead nm rn mode = encode_text (\<lambda>_. True) a phead nm rn (int k) tx" "c_string tx" "tx \<noteq> []"
    "\<And>b nm' rn'. W (at_val b) \<Longrightarrow> \<exists>b'. decode b nm' rn' (Some tx) = (0, b') \<and> is_set b' \<and> at_val b' = at_val a"
    "L (at_val a)" "W (at_val a)" "S (at_val a) (at_val a)"
  shows "\<exists>pal. encode (Some a) phead nm rn mode = (1, map_option (\<lambda>l. l @ [pal]) phead, Some pal) \<and>
        entry_for a nm rn (al_value pal) pal \<and> c_string (al_value pal) \<and> al_value pal \<noteq> [] \<and>
        (\<forall>b nm' rn'. W (at_val b) \<longrightarrow> (\<exists>b'. decode b nm' rn' (Some (al_value pal)) = (0, b') \<and> is_set b' \<and>
           L (at_val b') \<and> W (at_val b') \<and> S (at_val b') (at_val a)))"
proof -
  obtain pal where pal: "encode_text (\<lambda>_. True) a phead nm rn (int k) tx = (1, map_option (\<lambda>l. l @ [pal]) phead, Some pal)" "entry_for a nm rn tx pal"
    using encode_text_ok [of "int k" a phead nm rn tx] by auto
  then have "al_value pal = tx" by (simp add: entry_for_def)
  moreover have "\<exists>b'. decode b nm' rn' (Some tx) = (0, b') \<and> is_set b' \<and> L (at_val b') \<and> W (at_val b') \<and> S (at_val b') (at_val a)"
    if "W (at_val b)" for b nm' rn'
    using assms(4) [OF that, of nm' rn'] assms(5-7) by metis
  ultimately show ?thesis using pal assms(1-3) by metis
qed

definition any_value :: "'r attr_val \<Rightarrow> bool" where "any_value v \<longleftrightarrow> True"
definition same_value :: "'r attr_val \<Rightarrow> 'r attr_val \<Rightarrow> bool" where "same_value v w \<longleftrightarrow> v = w"

definition legal_b :: "'r attr_val \<Rightarrow> bool" where "legal_b v \<longleftrightarrow> v = At_long 0 \<or> v = At_long 1"
definition legal_l :: "'r attr_val \<Rightarrow> bool" where "legal_l v \<longleftrightarrow> (\<exists>n. v = At_long n)"
definition legal_ll :: "'r attr_val \<Rightarrow> bool" where "legal_ll v \<longleftrightarrow> (\<exists>n. v = At_ll n)"
definition legal_c :: "'r attr_val \<Rightarrow> bool" where "legal_c v \<longleftrightarrow> (\<exists>c. v = At_char c \<and> c \<noteq> NUL)"
definition legal_str :: "'r attr_val \<Rightarrow> bool" where "legal_str v \<longleftrightarrow> (\<exists>s. v = At_str (Some s) \<and> c_string s \<and> s \<noteq> [])"
definition legal_hold :: "'r attr_val \<Rightarrow> bool" where "legal_hold v \<longleftrightarrow> (\<exists>n. v = At_long n \<and> n < 16)"
definition legal_time :: "'r attr_val \<Rightarrow> bool" where "legal_time v \<longleftrightarrow> (\<exists>n. v = At_long n \<and> 0 \<le> sint n \<and> sint n < 3600 * 10 ^ 14)"
definition legal_size :: "'r attr_val \<Rightarrow> bool" where "legal_size v \<longleftrightarrow> (\<exists>z. v = At_size z \<and> wf_size z)"

lemmas codec_simps = any_value_def same_value_def mark_modified

lemma strlen_pos: "c_string s \<Longrightarrow> s \<noteq> [] \<Longrightarrow> strlen s \<noteq> 0"
  by simp

lemma attr_codecI:
  assumes enc: "\<And>a phead nm rn mode. is_set a \<Longrightarrow> L (at_val a) \<Longrightarrow>
      \<exists>k. encode (Some a) phead nm rn mode = encode_text (\<lambda>_. True) a phead nm rn (int k) (tx (at_val a))"
    and tx: "\<And>v. L v \<Longrightarrow> c_string (tx v)" "\<And>v. L v \<Longrightarrow> tx v \<noteq> []"
    and dec: "\<And>v b nm rn. L v \<Longrightarrow> \<exists>b'. decode b nm rn (Some (tx v)) = (0, b') \<and> is_set b' \<and> at_val b' = v"
    and "\<And>a phead nm rn mode. \<not> is_set a \<Longrightarrow> encode (Some a) phead nm rn mode = (0, phead, None)"
    and "\<And>val b nm rn. val = None \<or> strlen (the val) = 0 \<Longrightarrow>
      \<exists>b'. decode b nm rn val = (0, b') \<and> \<not> is_set b' \<and> at_flags b' AND ATR_VFLAG_MODIFY \<noteq> 0"
    and st: "\<And>n a. is_set n \<Longrightarrow> L (at_val n) \<Longrightarrow> setf a n batch_op_SET = (0, mark_set (a\<lparr>at_val := at_val n\<rparr>))"
    and "\<And>a. \<not> is_set (freef a)"
  shows "attr_codec decode encode setf freef L same_value any_value UNIV"
proof
  fix a :: "'a attribute" and phead nm rn mode
  assume a: "is_set a" "L (at_val a)"
  obtain k where "encode (Some a) phead nm rn mode = encode_text (\<lambda>_. True) a phead nm rn (int k) (tx (at_val a))" using enc [OF a] by blast
  then show "\<exists>pal. encode (Some a) phead nm rn mode = (1, map_option (\<lambda>l. l @ [pal]) phead, Some pal) \<and>
        entry_for a nm rn (al_value pal) pal \<and> c_string (al_value pal) \<and> al_value pal \<noteq> [] \<and>
        (\<forall>b nm' rn'. any_value (at_val b) \<longrightarrow> (\<exists>b'. decode b nm' rn' (Some (al_value pal)) = (0, b') \<and> is_set b' \<and>
           L (at_val b') \<and> any_value (at_val b') \<and> same_value (at_val b') (at_val a)))"
    by (rule encode_text_legal [OF _ tx [OF a(2)]]) (use a(2) dec [OF a(2)] in \<open>simp_all add: codec_simps\<close>)
qed (use assms(5-8) in \<open>simp_all add: codec_simps\<close>)

text \<open>The text each type writes.\<close>

fun text_b :: "'r attr_val \<Rightarrow> string" where
  "text_b v = (if at_long v \<noteq> 0 then ''True'' else ''False'')"

lemma c_string_True_False: "c_string ''True''" "c_string ''False''"
  by (simp_all add: c_string_def)

interpretation b: attr_codec decode_b "encode_b (\<lambda>_. True)" set_b free_null legal_b same_value any_value UNIV
proof (rule attr_codecI [where tx = text_b])
  show "\<exists>k. encode_b (\<lambda>_. True) (Some a) phead nm rn mode = encode_text (\<lambda>_. True) a phead nm rn (int k) (text_b (at_val a))"
    if "is_set a" "legal_b (at_val a)" for a :: "'r attribute" and phead nm rn mode
    using that by (intro exI [of _ "strlen (text_b (at_val a)) + 1"]) (simp add: encode_b_def Let_def ac_simps)
  show "\<exists>b'. decode_b b nm rn (Some (text_b v)) = (0, b') \<and> is_set b' \<and> at_val b' = v" if "legal_b v" for v and b :: "'r attribute" and nm rn
    using decode_b_text [of b nm rn "at_long v"] that by (auto simp: legal_b_def)
qed (auto simp: encode_b_def decode_b_def set_b_def codec_simps legal_b_def c_string_True_False)

lemma c_string_ld_str: "c_string (ld_str v)" "ld_str v \<noteq> []"
  by (simp_all add: ld_str_def)

interpretation l: attr_codec decode_l "encode_l (\<lambda>_. True)" set_l free_null legal_l same_value any_value UNIV
proof (rule attr_codecI [where tx = "\<lambda>v. ld_str (at_long v)"])
  show "\<exists>k. encode_l (\<lambda>_. True) (Some a) phead nm rn mode = encode_text (\<lambda>_. True) a phead nm rn (int k) (ld_str (at_long (at_val a)))"
    if "is_set a" for a :: "'r attribute" and phead nm rn mode
    using that by (intro exI [of _ "strlen (ld_str (at_long (at_val a))) + 1"]) (simp add: encode_l_def Let_def ac_simps)
  show "\<exists>b'. decode_l b nm rn (Some (ld_str (at_long v))) = (0, b') \<and> is_set b' \<and> at_val b' = v" if "legal_l v" for v and b :: "'r attribute" and nm rn
    using decode_l_text [of b nm rn "at_long v"] that by (auto simp: legal_l_def)
qed (auto simp: encode_l_def decode_l_def set_l_def codec_simps legal_l_def c_string_ld_str)

lemma uLTostr_c_string: "c_string (fst (uLTostr v 10 0))" "fst (uLTostr v 10 0) \<noteq> []"
proof -
  have u: "fst (uLTostr v 10 0) = to_base 10 (unat v) []" using uLTostr_eq [of 10 v 0] by simp
  have "dig_table c < 10 \<Longrightarrow> c \<noteq> NUL" for c by (auto simp: dig_table_def uchar_def CHAR_MAX_def)
  then show "c_string (fst (uLTostr v 10 0))" using to_base_digits [of 10 "unat v"] by (auto simp: c_string_def u)
  show "fst (uLTostr v 10 0) \<noteq> []" using to_base_ne [of 10 "unat v"] by (simp add: u)
qed

interpretation ll: attr_codec "decode_ll e neg" "encode_ll (\<lambda>_. True)" set_ll free_null legal_ll same_value any_value UNIV for e neg
proof (rule attr_codecI [where tx = "\<lambda>v. fst (uLTostr (at_ll v) 10 0)"])
  show "\<exists>k. encode_ll (\<lambda>_. True) (Some a) phead nm rn mode = encode_text (\<lambda>_. True) a phead nm rn (int k) (fst (uLTostr (at_ll (at_val a)) 10 0))"
    if "is_set a" for a :: "'r attribute" and phead nm rn mode
    using that by (intro exI [of _ "strlen (fst (uLTostr (at_ll (at_val a)) 10 0)) + 1"]) (simp add: encode_ll_def Let_def ac_simps)
  show "\<exists>b'. decode_ll e neg b nm rn (Some (fst (uLTostr (at_ll v) 10 0))) = (0, b') \<and> is_set b' \<and> at_val b' = v"
    if "legal_ll v" for v and b :: "'r attribute" and nm rn
    using decode_ll_text [of e neg b nm rn "at_ll v"] that by (auto simp: legal_ll_def)
qed (auto simp: encode_ll_def decode_ll_def set_ll_def codec_simps legal_ll_def uLTostr_c_string)

interpretation c: attr_codec decode_c "encode_c (\<lambda>_. True)" set_c free_null legal_c same_value any_value UNIV
proof (rule attr_codecI [where tx = "\<lambda>v. [at_char v]"])
  show "\<exists>k. encode_c (\<lambda>_. True) (Some a) phead nm rn mode = encode_text (\<lambda>_. True) a phead nm rn (int k) [at_char (at_val a)]"
    if "is_set a" for a :: "'r attribute" and phead nm rn mode
    using that by (intro exI [of _ 2]) (simp add: encode_c_def)
qed (auto simp: encode_c_def decode_c_def set_c_def codec_simps legal_c_def c_string_def strlen_def)

interpretation str: attr_codec "decode_str (\<lambda>_. True)" "encode_str (\<lambda>_. True)" "set_str (\<lambda>_. True)" free_str legal_str same_value any_value UNIV
proof (rule attr_codecI [where tx = "\<lambda>v. opt_str (at_str v)"])
  show "\<exists>k. encode_str (\<lambda>_. True) (Some a) phead nm rn mode = encode_text (\<lambda>_. True) a phead nm rn (int k) (opt_str (at_str (at_val a)))"
    if "is_set a" "legal_str (at_val a)" for a :: "'r attribute" and phead nm rn mode
    using that by (intro exI [of _ "strlen (opt_str (at_str (at_val a))) + 1"]) (auto simp: encode_str_def legal_str_def opt_str_def ac_simps)
qed (auto simp: encode_str_def decode_str_def set_str_def codec_simps legal_str_def opt_str_def split: option.split)

interpretation hold: attr_codec decode_hold "encode_hold (\<lambda>_. True)" set_b free_null legal_hold same_value any_value UNIV
proof (rule attr_codecI [where tx = "\<lambda>v. hold_text (at_long v)"])
  show "\<exists>k. encode_hold (\<lambda>_. True) (Some a) phead nm rn mode = encode_text (\<lambda>_. True) a phead nm rn (int k) (hold_text (at_long (at_val a)))"
    if "is_set a" for a :: "'r attribute" and phead nm rn mode
    using that by (intro exI [of _ 5]) (simp add: encode_hold_def HOLD_ENCODE_SIZE_def)
  show "\<exists>b'. decode_hold b nm rn (Some (hold_text (at_long v))) = (0, b') \<and> is_set b' \<and> at_val b' = v"
    if "legal_hold v" for v and b :: "'r attribute" and nm rn
    using that decode_hold_text [of "at_long v" b nm rn] by (auto simp: legal_hold_def)
qed (auto simp: encode_hold_def decode_hold_def set_b_def codec_simps legal_hold_def hold_text_ne)

lemma time_text_c_string: "c_string (time_text v)" "time_text v \<noteq> []"
proof -
  have "c_string (fmt02 k)" for k using int_str_c_string [of k] by (auto simp: fmt02_def Let_def c_string_def)
  then show "c_string (time_text v)" by (auto simp: time_text_def Let_def c_string_def)
qed (simp add: time_text_def Let_def)

interpretation time: attr_codec "decode_time (\<lambda>_. True)" "encode_time (\<lambda>_. True)" set_l free_null legal_time same_value any_value UNIV
proof (rule attr_codecI [where tx = "\<lambda>v. time_text (at_long v)"])
  show "\<exists>k. encode_time (\<lambda>_. True) (Some a) phead nm rn mode = encode_text (\<lambda>_. True) a phead nm rn (int k) (time_text (at_long (at_val a)))"
    if "is_set a" "legal_time (at_val a)" for a :: "'r attribute" and phead nm rn mode
    using that time_text_length
    by (intro exI [of _ "strlen (time_text (at_long (at_val a))) + 1"]) (auto simp: encode_time_def legal_time_def Let_def ac_simps)
  show "\<exists>b'. decode_time (\<lambda>_. True) b nm rn (Some (time_text (at_long v))) = (0, b') \<and> is_set b' \<and> at_val b' = v"
    if "legal_time v" for v and b :: "'r attribute" and nm rn
    using that decode_time_text [of "at_long v" b nm rn] by (auto simp: legal_time_def PBS_MAX_TIME_def)
qed (auto simp: encode_time_def decode_time_def set_l_def codec_simps legal_time_def time_text_c_string)

interpretation size: attr_codec "decode_size neg" "encode_size (\<lambda>_. True)" set_size free_null legal_size same_value any_value UNIV for neg
proof (rule attr_codecI [where tx = "\<lambda>v. from_size (at_size v)"])
  show "\<exists>k. encode_size (\<lambda>_. True) (Some a) phead nm rn mode = encode_text (\<lambda>_. True) a phead nm rn (int k) (from_size (at_size (at_val a)))"
    if "is_set a" for a :: "'r attribute" and phead nm rn mode
    using that by (intro exI [of _ "strlen (from_size (at_size (at_val a))) + 1"]) (simp add: encode_size_def Let_def ac_simps)
  show "\<exists>b'. decode_size neg b nm rn (Some (from_size (at_size v))) = (0, b') \<and> is_set b' \<and> at_val b' = v"
    if "legal_size v" for v and b :: "'r attribute" and nm rn
    using that decode_size_text [of "at_size v" neg b nm rn] by (auto simp: legal_size_def)
qed (auto simp: encode_size_def decode_size_def set_size_def codec_simps legal_size_def from_size_c_string batch_op_SET_def)

text \<open>
  Arrays of strings keep their contents, not their layout; the form saved to files ends every string with
  a newline and is left out.
\<close>

definition val_arst_ok :: "'r attr_val \<Rightarrow> bool" where
  "val_arst_ok v \<longleftrightarrow> (case at_arst v of None \<Rightarrow> True | Some p \<Rightarrow> arst_rep p (as_strs p))"

definition val_arst_list :: "'r attr_val \<Rightarrow> string list" where
  "val_arst_list v = (case at_arst v of None \<Rightarrow> [] | Some p \<Rightarrow> as_strs p)"

definition same_arst :: "'r attr_val \<Rightarrow> 'r attr_val \<Rightarrow> bool" where
  "same_arst v w \<longleftrightarrow> val_arst_list v = val_arst_list w"

definition legal_arst :: "'r attr_val \<Rightarrow> bool" where
  "legal_arst v \<longleftrightarrow> val_arst_ok v \<and> val_arst_list v \<noteq> [] \<and> (\<forall>s \<in> set (val_arst_list v). plain_item s)"

lemma arst_ok_val: "arst_ok a \<longleftrightarrow> val_arst_ok (at_val a)" "arst_list a = val_arst_list (at_val a)"
  by (simp_all add: arst_ok_def val_arst_ok_def arst_list_def val_arst_list_def)

lemma unset_arst_unset: "\<not> is_set (unset_arst b)" "at_flags (unset_arst b) AND ATR_VFLAG_MODIFY \<noteq> 0"
  by (simp_all add: unset_arst_def free_arst_def is_set_def flag_bits free_null_def free_svrcache_def Let_def bit_simps)

interpretation arst: attr_codec "decode_arst (\<lambda>_. True)" "encode_arst (\<lambda>_. True)" "set_arst (\<lambda>_. True)" free_arst
    legal_arst same_arst val_arst_ok "- {ATR_ENCODE_SAVE}"
proof
  fix a :: "'r attribute" and phead nm rn mode
  assume a: "is_set a" "legal_arst (at_val a)" "mode \<in> - {ATR_ENCODE_SAVE}"
  then have l: "arst_ok a" "arst_list a \<noteq> []" "\<forall>s \<in> set (arst_list a). plain_item s" by (simp_all add: legal_arst_def arst_ok_val)
  have lg: "legal_arst (at_val b)" if "arst_ok b" "arst_list b = arst_list a" for b :: "'r attribute"
    using l that by (simp add: legal_arst_def arst_ok_val)
  obtain pal where "encode_arst (\<lambda>_. True) (Some a) phead nm rn mode = (1, map_option (\<lambda>l. l @ [pal]) phead, Some pal)"
    "entry_for a nm rn (al_value pal) pal" "c_string (al_value pal)" "al_value pal \<noteq> []" and
    dec: "\<And>(b :: 'r attribute) nm' rn'. arst_ok b \<Longrightarrow> \<exists>b'. decode_arst (\<lambda>_. True) b nm' rn' (Some (al_value pal)) = (0, b') \<and> is_set b' \<and> arst_ok b' \<and> arst_list b' = arst_list a"
    using arst_roundtrip [OF l(1) a(1) l(2,3), of mode phead nm rn] a(3) by auto
  moreover have "\<exists>b'. decode_arst (\<lambda>_. True) b nm' rn' (Some (al_value pal)) = (0, b') \<and> is_set b' \<and>
      legal_arst (at_val b') \<and> val_arst_ok (at_val b') \<and> same_arst (at_val b') (at_val a)" if "val_arst_ok (at_val b)" for b :: "'r attribute" and nm' rn'
    using dec [of b nm' rn'] that lg by (auto simp: arst_ok_val same_arst_def)
  ultimately show "\<exists>pal. encode_arst (\<lambda>_. True) (Some a) phead nm rn mode = (1, map_option (\<lambda>l. l @ [pal]) phead, Some pal) \<and>
        entry_for a nm rn (al_value pal) pal \<and> c_string (al_value pal) \<and> al_value pal \<noteq> [] \<and>
        (\<forall>b nm' rn'. val_arst_ok (at_val b) \<longrightarrow> (\<exists>b'. decode_arst (\<lambda>_. True) b nm' rn' (Some (al_value pal)) = (0, b') \<and> is_set b' \<and>
           legal_arst (at_val b') \<and> val_arst_ok (at_val b') \<and> same_arst (at_val b') (at_val a)))"
    by (intro exI [of _ pal]) simp
next
  fix n a :: "'r attribute"
  assume n: "is_set n" "legal_arst (at_val n)" "val_arst_ok (at_val n)" "val_arst_ok (at_val a)"
  then obtain x where x: "at_arst (at_val n) = Some x" by (auto simp: legal_arst_def val_arst_list_def split: option.splits)
  then have "length (as_strs x) \<le> as_npointers x" "as_strs x \<noteq> []" using n(2) by (simp_all add: legal_arst_def val_arst_list_def val_arst_ok_def arst_rep_def)
  then have "as_npointers x \<ge> 1" by (cases "as_strs x") simp_all
  then show "\<exists>a'. set_arst (\<lambda>_. True) a n batch_op_SET = (0, a') \<and> is_set a' \<and> legal_arst (at_val a') \<and> val_arst_ok (at_val a') \<and> same_arst (at_val a') (at_val n)"
    using set_arst_spec [of a batch_op_SET n x "\<lambda>_. True"] n x
    by (cases "set_arst (\<lambda>_. True) a n batch_op_SET") (auto simp: arst_ok_val arst_op_def set_arst_outcome_def same_arst_def legal_arst_def)
qed (auto simp: encode_arst_def decode_arst_def decode_into_def free_arst_def same_arst_def val_arst_ok_def unset_arst_unset split: option.split)

end
