(* ===== verification/Attr_Resc.thy ===== *)
theory Attr_Resc
  imports Attr_Codec
begin

unbundle bit_operations_syntax

text \<open>
  Resource lists (\<open>src/src/lib/Libattr/attr_fn_resc.c\<close>): an attribute whose value is a list of resources
  kept in the order of their names. The table \<open>svr_resc_def\<close> is the argument \<open>defs\<close>, a pointer to a
  definition is its index there, and a pointer to a resource is its position in the list. The global
  \<open>resc_access_perm\<close> is the argument \<open>perm\<close>. A resource's own value is never a list of resources.
\<close>

section \<open>Definitions and resources\<close>

record resource_def =
  rs_name :: string
  rs_decode :: "unit attribute \<Rightarrow> string \<Rightarrow> string option \<Rightarrow> string option \<Rightarrow> int \<times> unit attribute"
  rs_encode :: "unit attribute option \<Rightarrow> svrattrl list option \<Rightarrow> string \<Rightarrow> string option \<Rightarrow> int \<Rightarrow> encoded"
  rs_set :: "unit attribute \<Rightarrow> unit attribute \<Rightarrow> uint \<Rightarrow> int \<times> unit attribute"
  rs_comp :: "unit attribute \<Rightarrow> unit attribute \<Rightarrow> int"
  rs_free :: "unit attribute \<Rightarrow> unit attribute"
  rs_flags :: nat
  rs_type :: nat

record resource =
  rs_defin :: nat
  rs_value :: "unit attribute"

definition RESOURCE_UNKNOWN :: string where "RESOURCE_UNKNOWN = ''|unknown|''"

abbreviation PBSE_UNKRESC :: int where "PBSE_UNKRESC \<equiv> 15035"
abbreviation PBSE_ATTRRO :: int where "PBSE_ATTRRO \<equiv> 15003"
abbreviation PBSE_BADNDATVAL :: int where "PBSE_BADNDATVAL \<equiv> 15067"
abbreviation ATR_DFLAG_WRACC :: nat where "ATR_DFLAG_WRACC \<equiv> 0x6AA"
abbreviation ATR_DFLAG_ACCESS :: nat where "ATR_DFLAG_ACCESS \<equiv> 0x7FF"
abbreviation ATR_PERM_ALLOW_INDIRECT :: nat where "ATR_PERM_ALLOW_INDIRECT \<equiv> 0x1000000"
abbreviation ATR_ENCODE_CLIENT :: int where "ATR_ENCODE_CLIENT \<equiv> 0"
abbreviation ATR_ENCODE_SVR :: int where "ATR_ENCODE_SVR \<equiv> 1"
abbreviation ATR_ENCODE_MOM :: int where "ATR_ENCODE_MOM \<equiv> 2"
abbreviation ATR_ENCODE_HOOK :: int where "ATR_ENCODE_HOOK \<equiv> 4"
abbreviation ATR_ENCODE_DB :: int where "ATR_ENCODE_DB \<equiv> 5"

section \<open>Operations\<close>

fun find_resc_def :: "resource_def list \<Rightarrow> string option \<Rightarrow> nat option" where
  "find_resc_def defs None = None"
| "find_resc_def [] (Some name) = None"
| "find_resc_def (d # ds) (Some name) =
     (if strcasecmp (rs_name d) name = 0 then Some 0 else map_option Suc (find_resc_def ds (Some name)))"

fun builtin_loop :: "resource_def list \<Rightarrow> bool \<Rightarrow> string \<Rightarrow> int" where
  "builtin_loop [] builtin_resc name = - 1"
| "builtin_loop (d # ds) builtin_resc name =
     (if strcmp (rs_name d) RESOURCE_UNKNOWN = 0 then builtin_loop ds False name
      else if strcasecmp (rs_name d) name = 0 then if builtin_resc then 1 else 0
      else builtin_loop ds builtin_resc name)"

definition is_builtin :: "resource_def list \<Rightarrow> resource_def option \<Rightarrow> int" where
  "is_builtin defs rscdef = (case rscdef of None \<Rightarrow> - 1 | Some d \<Rightarrow> builtin_loop defs True (rs_name d))"

fun entry_index :: "resource list \<Rightarrow> nat \<Rightarrow> nat option" where
  "entry_index [] rscdf = None"
| "entry_index (r # rs) rscdf = (if rs_defin r = rscdf then Some 0 else map_option Suc (entry_index rs rscdf))"

definition find_resc_entry :: "resource attribute \<Rightarrow> nat \<Rightarrow> nat option" where
  "find_resc_entry pattr rscdf = entry_index (at_list (at_val pattr)) rscdf"

text \<open>The loop of \<open>add_resource_entry\<close>: whether a resource of that name is there, and where it is or belongs.\<close>

fun entry_pos :: "resource_def list \<Rightarrow> nat \<Rightarrow> resource list \<Rightarrow> bool \<times> nat" where
  "entry_pos defs prdef [] = (False, 0)"
| "entry_pos defs prdef (r # rs) =
     (let i = strcasecmp (rs_name (defs ! rs_defin r)) (rs_name (defs ! prdef))
      in if i = 0 then (True, 0) else if i > 0 then (False, 0)
         else case entry_pos defs prdef rs of (found, k) \<Rightarrow> (found, Suc k))"

definition new_resource :: "resource_def list \<Rightarrow> nat \<Rightarrow> resource" where
  "new_resource defs prdef =
     \<lparr>rs_defin = prdef,
      rs_value = rs_free (defs ! prdef)
        \<lparr>at_flags = 0, at_type = rs_type (defs ! prdef), at_user_encoded = None, at_priv_encoded = None, at_val = At_zero\<rparr>\<rparr>"

definition sizeof_resource :: nat where "sizeof_resource = 72"

definition add_resource_entry :: "(nat \<Rightarrow> bool) \<Rightarrow> resource_def list \<Rightarrow> resource attribute \<Rightarrow> nat \<Rightarrow> nat option \<times> resource attribute" where
  "add_resource_entry mal defs pattr prdef =
     (let l = at_list (at_val pattr) in
      case entry_pos defs prdef l of (found, k) \<Rightarrow>
        if found then (Some k, pattr)
        else if \<not> mal sizeof_resource then (None, pattr)
        else (Some k, mark_set (pattr\<lparr>at_val := At_list (take k l @ new_resource defs prdef # drop k l)\<rparr>)))"

definition find_or_add :: "(nat \<Rightarrow> bool) \<Rightarrow> resource_def list \<Rightarrow> resource attribute \<Rightarrow> nat \<Rightarrow> nat option \<times> resource attribute" where
  "find_or_add mal defs patr prdef =
     (case find_resc_entry patr prdef of Some k \<Rightarrow> (Some k, patr) | None \<Rightarrow> add_resource_entry mal defs patr prdef)"

definition set_rs_value :: "resource attribute \<Rightarrow> nat \<Rightarrow> unit attribute \<Rightarrow> resource attribute" where
  "set_rs_value patr k v = (let l = at_list (at_val patr) in patr\<lparr>at_val := At_list (l[k := (l ! k)\<lparr>rs_value := v\<rparr>])\<rparr>)"

text \<open>The table has an entry for unknown resources; without it the code would follow a null pointer.\<close>

definition decode_resc :: "(nat \<Rightarrow> bool) \<Rightarrow> resource_def list \<Rightarrow> nat \<Rightarrow> resource attribute option \<Rightarrow> string \<Rightarrow> string option \<Rightarrow> string option \<Rightarrow>
    int \<times> resource attribute option" where
  "decode_resc mal defs perm patr name rescn val =
     (case patr of None \<Rightarrow> (PBSE_INTERNAL, None)
      | Some patr \<Rightarrow>
        if rescn = None then (PBSE_UNKRESC, Some patr)
        else let patr = (if is_set patr then patr else patr\<lparr>at_val := At_list []\<rparr>);
                 (rc, prdef) = (case find_resc_def defs rescn of Some i \<Rightarrow> (0, i)
                   | None \<Rightarrow> (PBSE_UNKRESC, case find_resc_def defs (Some RESOURCE_UNKNOWN) of Some i \<Rightarrow> i | None \<Rightarrow> length defs))
             in case find_or_add mal defs patr prdef of (None, patr) \<Rightarrow> (PBSE_SYSTEM, Some patr)
                | (Some k, patr) \<Rightarrow>
                  let prsc = at_list (at_val patr) ! k in
                  if rs_flags (defs ! rs_defin prsc) AND perm AND ATR_DFLAG_WRACC = 0 \<and> perm AND ATR_DFLAG_ACCESS \<noteq> ATR_DFLAG_ACCESS
                  then (PBSE_ATTRRO, Some patr)
                  else let patr = mark_set patr;
                           (rv, v) = (if perm AND ATR_PERM_ALLOW_INDIRECT \<noteq> 0 \<and> val \<noteq> None \<and> the val \<noteq> [] \<and> hd (the val) = CHR ''@'' then
                               if strcmp (the rescn) ''ncpus'' \<noteq> 0 then
                                 case decode_str mal (rs_value prsc) name rescn val of (rv, v) \<Rightarrow>
                                   (rv, if rv = 0 then v\<lparr>at_flags := at_flags v OR ATR_VFLAG_INDIRECT\<rparr> else v)
                               else (PBSE_BADNDATVAL, rs_value prsc)
                             else rs_decode (defs ! prdef) (rs_value prsc) name rescn val)
                       in (if rv \<noteq> 0 then rv else rc, Some (set_rs_value patr k v)))"

text \<open>Whether \<open>encode_resc\<close> sends a resource, and its loop.\<close>

definition encode_wanted :: "resource_def list \<Rightarrow> nat \<Rightarrow> int \<Rightarrow> resource \<Rightarrow> bool" where
  "encode_wanted defs access mode prsc =
     (let perm = rs_flags (defs ! rs_defin prsc) AND access \<noteq> 0; dflt = at_flags (rs_value prsc) AND 4 \<noteq> 0
      in mode = ATR_ENCODE_CLIENT \<and> perm \<or> mode = ATR_ENCODE_HOOK \<or> mode = ATR_ENCODE_DB \<or> mode = ATR_ENCODE_MOM \<and> perm \<or>
         mode = ATR_ENCODE_SAVE \<or> mode = ATR_ENCODE_SVR \<and> \<not> dflt \<and> perm)"

fun encode_loop :: "(nat \<Rightarrow> bool) \<Rightarrow> resource_def list \<Rightarrow> nat \<Rightarrow> string \<Rightarrow> int \<Rightarrow> resource list \<Rightarrow> svrattrl list option \<Rightarrow> svrattrl option \<Rightarrow> int \<Rightarrow> encoded" where
  "encode_loop mal defs access atname mode [] phead rtnl grandtotal = (grandtotal, phead, rtnl)"
| "encode_loop mal defs access atname mode (prsc # ps) phead rtnl grandtotal =
     (if encode_wanted defs access mode prsc then
        let d = defs ! rs_defin prsc; rsname = Some (rs_name d) in
        case (if at_flags (rs_value prsc) AND ATR_VFLAG_INDIRECT \<noteq> 0 then encode_str mal (Some (rs_value prsc)) phead atname rsname mode
              else rs_encode d (Some (rs_value prsc)) phead atname rsname mode) of
          (rc, phead, xrtnl) \<Rightarrow>
            if rc < 0 then (rc, phead, rtnl)
            else if xrtnl = None then encode_loop mal defs access atname mode ps phead rtnl grandtotal
            else encode_loop mal defs access atname mode ps phead (if rtnl = None then xrtnl else rtnl) (grandtotal + rc)
      else encode_loop mal defs access atname mode ps phead rtnl grandtotal)"

definition encode_resc :: "(nat \<Rightarrow> bool) \<Rightarrow> resource_def list \<Rightarrow> nat \<Rightarrow> resource attribute option \<Rightarrow> svrattrl list option \<Rightarrow> string \<Rightarrow> string option \<Rightarrow> int \<Rightarrow> encoded" where
  "encode_resc mal defs access attr phead atname rsname mode =
     (case attr of None \<Rightarrow> (- 1, phead, None)
      | Some attr \<Rightarrow>
        if \<not> is_set attr then (0, phead, None)
        else encode_loop mal defs access atname mode (at_list (at_val attr)) phead None 0)"

text \<open>One round of the loop of \<open>set_resc\<close>, and the loop.\<close>

definition set_one :: "(nat \<Rightarrow> bool) \<Rightarrow> resource_def list \<Rightarrow> uint \<Rightarrow> resource attribute \<Rightarrow> resource \<Rightarrow> int \<times> resource attribute" where
  "set_one mal defs opn old newresc =
     (case find_or_add mal defs old (rs_defin newresc) of (None, old) \<Rightarrow> (PBSE_SYSTEM, old)
      | (Some k, old) \<Rightarrow>
        let oldresc = at_list (at_val old) ! k; d = defs ! rs_defin oldresc; n = rs_value newresc; ov = rs_value oldresc in
        if is_set n then
          let ov = (if at_flags ov AND ATR_VFLAG_INDIRECT \<noteq> 0 then free_str ov else ov);
              (rc, ov) = (if at_flags n AND ATR_VFLAG_INDIRECT \<noteq> 0 then
                  case set_str mal (rs_free d ov) n opn of (rc, v) \<Rightarrow> (rc, v\<lparr>at_flags := at_flags v OR ATR_VFLAG_INDIRECT\<rparr>)
                else case rs_set d ov n opn of (rc, v) \<Rightarrow> (rc, v\<lparr>at_flags := at_flags v AND NOT ATR_VFLAG_INDIRECT\<rparr>))
          in if rc \<noteq> 0 then (rc, set_rs_value old k ov)
             else (0, set_rs_value old k (ov\<lparr>at_flags := at_flags ov OR (at_flags n AND 4)\<rparr>))
        else (0, set_rs_value old k (rs_free d ov)))"

fun set_loop :: "(nat \<Rightarrow> bool) \<Rightarrow> resource_def list \<Rightarrow> uint \<Rightarrow> resource attribute \<Rightarrow> resource list \<Rightarrow> int \<times> resource attribute" where
  "set_loop mal defs opn old [] = (0, mark_set old)"
| "set_loop mal defs opn old (n # ns) =
     (case set_one mal defs opn old n of (rc, old) \<Rightarrow> if rc \<noteq> 0 then (rc, old) else set_loop mal defs opn old ns)"

definition set_resc :: "(nat \<Rightarrow> bool) \<Rightarrow> resource_def list \<Rightarrow> resource attribute \<Rightarrow> resource attribute \<Rightarrow> uint \<Rightarrow> int \<times> resource attribute" where
  "set_resc mal defs old new opn = set_loop mal defs opn old (at_list (at_val new))"

text \<open>\<open>comp_resc\<close> returns its status and the four global counters.\<close>

record comp_resc_counts =
  comp_resc_gt :: nat
  comp_resc_eq :: nat
  comp_resc_lt :: nat
  comp_resc_nc :: nat

definition comp_one :: "resource_def list \<Rightarrow> resource attribute \<Rightarrow> resource \<Rightarrow> comp_resc_counts \<Rightarrow> comp_resc_counts" where
  "comp_one defs attr wiresc c =
     (if \<not> is_set (rs_value wiresc) then c
      else case find_resc_entry attr (rs_defin wiresc) of None \<Rightarrow> c\<lparr>comp_resc_nc := comp_resc_nc c + 1\<rparr>
        | Some k \<Rightarrow>
          let atresc = at_list (at_val attr) ! k in
          if \<not> is_set (rs_value atresc) then c
          else let rc = rs_comp (defs ! rs_defin atresc) (rs_value atresc) (rs_value wiresc)
               in if rc > 0 then c\<lparr>comp_resc_gt := comp_resc_gt c + 1\<rparr>
                  else if rc < 0 then c\<lparr>comp_resc_lt := comp_resc_lt c + 1\<rparr>
                  else c\<lparr>comp_resc_eq := comp_resc_eq c + 1\<rparr>)"

definition comp_resc :: "resource_def list \<Rightarrow> resource attribute option \<Rightarrow> resource attribute option \<Rightarrow> int \<times> comp_resc_counts" where
  "comp_resc defs attr with =
     (let zero = \<lparr>comp_resc_gt = 0, comp_resc_eq = 0, comp_resc_lt = 0, comp_resc_nc = 0\<rparr>
      in case (attr, with) of
           (Some a, Some w) \<Rightarrow> (0, fold (comp_one defs a) (at_list (at_val w)) zero)
         | _ \<Rightarrow> (- 1, zero))"

definition free_resc :: "resource attribute \<Rightarrow> resource attribute" where
  "free_resc pattr = (free_null pattr)\<lparr>at_val := At_list []\<rparr>"

section \<open>Lists in the order of names\<close>

definition lower_name :: "resource_def list \<Rightarrow> nat \<Rightarrow> string" where
  "lower_name defs i = map tolower (rs_name (defs ! i))"

definition table_ok :: "resource_def list \<Rightarrow> bool" where
  "table_ok defs \<longleftrightarrow> (\<forall>i < length defs. \<forall>j < length defs. lower_name defs i = lower_name defs j \<longrightarrow> i = j)"

definition resc_sorted :: "resource_def list \<Rightarrow> resource list \<Rightarrow> bool" where
  "resc_sorted defs l \<longleftrightarrow> (\<forall>r \<in> set l. rs_defin r < length defs) \<and>
     sorted_wrt (\<lambda>r s. strcmp (lower_name defs (rs_defin r)) (lower_name defs (rs_defin s)) < 0) l"

text \<open>What a list means: the value of every definition that has one.\<close>

definition resc_map :: "resource list \<Rightarrow> nat \<Rightarrow> unit attribute option" where
  "resc_map l = map_of (map (\<lambda>r. (rs_defin r, rs_value r)) l)"

lemma strcasecmp_lower: "strcasecmp (rs_name (defs ! i)) (rs_name (defs ! j)) = strcmp (lower_name defs i) (lower_name defs j)"
  by (simp add: strcasecmp_def lower_name_def)

lemma strcmp_refl [simp]: "strcmp a a = 0"
  by simp

lemma strcmp_less_trans: "strcmp a b < 0 \<Longrightarrow> strcmp b c < 0 \<Longrightarrow> strcmp a c < 0"
proof -
  assume a: "strcmp a b < 0" "strcmp b c < 0"
  then have "strcmp a c \<le> 0" using strcmp_trans [of a b c] by simp
  moreover have "a \<noteq> c" using a strcmp_swap [of a b] by auto
  ultimately show "strcmp a c < 0" by (metis order_le_less strcmp_eq_0)
qed

lemma resc_sorted_Cons:
  "resc_sorted defs (r # l) \<longleftrightarrow> rs_defin r < length defs \<and> resc_sorted defs l \<and>
     (\<forall>s \<in> set l. strcmp (lower_name defs (rs_defin r)) (lower_name defs (rs_defin s)) < 0)"
  by (auto simp: resc_sorted_def)

lemma resc_sorted_Nil [simp]: "resc_sorted defs []"
  by (simp add: resc_sorted_def)

lemma resc_map_simps [simp]:
  "resc_map [] = Map.empty" "resc_map (r # l) = (resc_map l)(rs_defin r \<mapsto> rs_value r)"
  by (simp_all add: resc_map_def)

lemma resc_map_None: "resc_map l i = None \<longleftrightarrow> i \<notin> rs_defin ` set l"
  by (induction l) (auto simp: fun_upd_def)

lemma resc_sorted_notin: "resc_sorted defs (r # l) \<Longrightarrow> rs_defin r \<notin> rs_defin ` set l"
proof
  assume s: "resc_sorted defs (r # l)" and i: "rs_defin r \<in> rs_defin ` set l"
  then obtain s where "s \<in> set l" "rs_defin s = rs_defin r" by auto
  then have "strcmp (lower_name defs (rs_defin r)) (lower_name defs (rs_defin r)) < 0" using s by (metis resc_sorted_Cons)
  then show False by (simp only: strcmp_refl)
qed

lemma entry_index_spec:
  "case entry_index l i of None \<Rightarrow> resc_map l i = None | Some k \<Rightarrow> k < length l \<and> rs_defin (l ! k) = i \<and> resc_map l i = Some (rs_value (l ! k))"
  by (induction l) (auto split: option.splits)

text \<open>The position at which a resource is added keeps the order.\<close>

lemma entry_pos_spec:
  assumes "table_ok defs" "resc_sorted defs l" "i < length defs" "entry_pos defs i l = (found, k)"
  shows "if found then i \<in> rs_defin ` set l
    else k \<le> length l \<and> (\<forall>r. rs_defin r = i \<longrightarrow> resc_sorted defs (take k l @ r # drop k l) \<and>
      resc_map (take k l @ r # drop k l) = (resc_map l)(i \<mapsto> rs_value r))"
  using assms(2,4)
proof (induction l arbitrary: found k)
  case Nil
  then show ?case using assms(3) by (simp add: resc_sorted_Cons)
next
  case (Cons s l)
  let ?c = "strcmp (lower_name defs (rs_defin s)) (lower_name defs i)"
  have s: "rs_defin s < length defs" "resc_sorted defs l" "\<forall>t \<in> set l. strcmp (lower_name defs (rs_defin s)) (lower_name defs (rs_defin t)) < 0"
    using Cons.prems(1) by (simp_all add: resc_sorted_Cons)
  consider (eq) "?c = 0" | (gt) "?c > 0" | (lt) "?c < 0" by linarith
  then show ?case
  proof cases
    case eq
    then have "rs_defin s = i" using assms(1,3) s(1) by (simp add: table_ok_def)
    then show ?thesis using eq Cons.prems(2) by (auto simp: strcasecmp_lower)
  next
    case gt
    have lt: "strcmp (lower_name defs i) (lower_name defs (rs_defin s)) < 0" using gt strcmp_swap [of "lower_name defs i" "lower_name defs (rs_defin s)"] by simp
    then have "\<forall>t \<in> set l. strcmp (lower_name defs i) (lower_name defs (rs_defin t)) < 0" using s(3) strcmp_less_trans by blast
    moreover have "lower_name defs (rs_defin s) \<noteq> lower_name defs i" using gt by (auto simp only: strcmp_refl)
    then have "\<not> found" "k = 0" using gt Cons.prems(2) by (simp_all add: strcasecmp_lower)
    ultimately show ?thesis using Cons.prems(1) lt assms(3) by (auto simp: resc_sorted_Cons)
  next
    case lt
    have ne: "rs_defin s \<noteq> i" "lower_name defs (rs_defin s) \<noteq> lower_name defs i" using lt by (auto simp only: strcmp_refl)
    then obtain k' where k': "entry_pos defs i l = (found, k')" "k = Suc k'"
      using lt Cons.prems(2) by (auto simp: strcasecmp_lower split: prod.splits if_splits)
    show ?thesis
    proof (cases found)
      case True
      then show ?thesis using Cons.IH [OF s(2) k'(1)] by simp
    next
      case False
      then have IH: "k' \<le> length l" "\<And>r. rs_defin r = i \<Longrightarrow> resc_sorted defs (take k' l @ r # drop k' l) \<and>
          resc_map (take k' l @ r # drop k' l) = (resc_map l)(i \<mapsto> rs_value r)" using Cons.IH [OF s(2) k'(1)] by simp_all
      have "set (take k' l @ r # drop k' l) = insert r (set l)" for r by (metis append_take_drop_id set_append list.set(2) Un_insert_right)
      then show ?thesis using False IH s(1,3) lt ne(1) k'(2) by (auto simp: resc_sorted_Cons fun_upd_twist)
    qed
  qed
qed

lemma update_sorted:
  assumes "resc_sorted defs l" "k < length l"
  shows "resc_sorted defs (l[k := (l ! k)\<lparr>rs_value := v\<rparr>])" "resc_map (l[k := (l ! k)\<lparr>rs_value := v\<rparr>]) = (resc_map l)(rs_defin (l ! k) \<mapsto> v)"
proof -
  have "map rs_defin (l[k := (l ! k)\<lparr>rs_value := v\<rparr>]) = map rs_defin l" using assms(2) by (simp add: map_update list_update_same_conv)
  moreover have "resc_sorted defs m \<longleftrightarrow> (\<forall>i \<in> set (map rs_defin m). i < length defs) \<and>
      sorted_wrt (\<lambda>i j. strcmp (lower_name defs i) (lower_name defs j) < 0) (map rs_defin m)" for m
    by (simp add: resc_sorted_def sorted_wrt_map)
  ultimately show "resc_sorted defs (l[k := (l ! k)\<lparr>rs_value := v\<rparr>])" using assms(1) by metis
  show "resc_map (l[k := (l ! k)\<lparr>rs_value := v\<rparr>]) = (resc_map l)(rs_defin (l ! k) \<mapsto> v)"
    using assms
  proof (induction l arbitrary: k)
    case (Cons r l)
    show ?case
    proof (cases k)
      case (Suc j)
      have "rs_defin (l ! j) \<noteq> rs_defin r" using resc_sorted_notin [OF Cons.prems(1)] Cons.prems(2) Suc by (metis imageI length_Cons nth_mem Suc_less_eq)
      then show ?thesis using Cons Suc by (auto simp: resc_sorted_Cons fun_eq_iff)
    qed (simp add: fun_eq_iff)
  qed simp
qed

lemma find_or_add_spec:
  assumes "table_ok defs" "resc_sorted defs (at_list (at_val a))" "i < length defs" "\<forall>n. mal n"
  shows "\<exists>k b. find_or_add mal defs a i = (Some k, b) \<and> k < length (at_list (at_val b)) \<and> rs_defin (at_list (at_val b) ! k) = i \<and>
    resc_sorted defs (at_list (at_val b)) \<and> (is_set a \<longrightarrow> is_set b) \<and>
    resc_map (at_list (at_val b)) = (case resc_map (at_list (at_val a)) i of
       None \<Rightarrow> (resc_map (at_list (at_val a)))(i \<mapsto> rs_value (new_resource defs i)) | Some _ \<Rightarrow> resc_map (at_list (at_val a))) \<and>
    rs_value (at_list (at_val b) ! k) = the (resc_map (at_list (at_val b)) i)"
proof (cases "find_resc_entry a i")
  case (Some k)
  then show ?thesis using entry_index_spec [where l = "at_list (at_val a)" and i = i] assms(2)
    by (auto simp: find_or_add_def find_resc_entry_def)
next
  case None
  let ?l = "at_list (at_val a)" and ?r = "new_resource defs i"
  have none: "resc_map ?l i = None" using None entry_index_spec [where l = ?l and i = i] by (simp add: find_resc_entry_def)
  obtain found k where e: "entry_pos defs i ?l = (found, k)" by (cases "entry_pos defs i ?l")
  have "\<not> found" using entry_pos_spec [OF assms(1-3) e] none by (auto simp: resc_map_None)
  then have k: "k \<le> length ?l" "resc_sorted defs (take k ?l @ ?r # drop k ?l)"
      "resc_map (take k ?l @ ?r # drop k ?l) = (resc_map ?l)(i \<mapsto> rs_value ?r)"
    using entry_pos_spec [OF assms(1-3) e] by (simp_all add: new_resource_def)
  have nth: "(take k ?l @ ?r # drop k ?l) ! k = ?r" using k(1) by (simp add: nth_append)
  have "find_or_add mal defs a i = (Some k, mark_set (a\<lparr>at_val := At_list (take k ?l @ ?r # drop k ?l)\<rparr>))"
    using None e \<open>\<not> found\<close> assms(4) by (simp add: find_or_add_def add_resource_entry_def Let_def)
  then show ?thesis using k nth none by (simp add: new_resource_def)
qed

lemma find_resc_def_less: "find_resc_def defs (Some nm) = Some i \<Longrightarrow> i < length defs \<and> strcasecmp (rs_name (defs ! i)) nm = 0"
  by (induction defs "Some nm" arbitrary: i rule: find_resc_def.induct) (auto split: if_splits)

lemma find_resc_def_self:
  assumes "table_ok defs" "i < length defs"
  shows "find_resc_def defs (Some (rs_name (defs ! i))) = Some i"
proof -
  have "\<exists>j. find_resc_def ds (Some nm) = Some j" if "\<exists>d \<in> set ds. strcasecmp (rs_name d) nm = 0" for ds nm
    using that by (induction ds) auto
  then obtain j where j: "find_resc_def defs (Some (rs_name (defs ! i))) = Some j"
    using assms(2) by (metis nth_mem strcasecmp_def strcmp_refl)
  then have "j < length defs" "lower_name defs j = lower_name defs i"
    using find_resc_def_less [OF j] by (simp_all add: strcasecmp_lower)
  then show ?thesis using assms j by (auto simp: table_ok_def)
qed

definition resc_list :: "resource attribute \<Rightarrow> resource list" where
  "resc_list a = (if is_set a then at_list (at_val a) else [])"

definition resc_wf :: "resource_def list \<Rightarrow> resource attribute \<Rightarrow> bool" where
  "resc_wf defs a \<longleftrightarrow> resc_sorted defs (resc_list a)"

definition resc_writable :: "resource_def list \<Rightarrow> nat \<Rightarrow> nat \<Rightarrow> bool" where
  "resc_writable defs perm i \<longleftrightarrow> rs_flags (defs ! i) AND perm AND ATR_DFLAG_WRACC \<noteq> 0 \<or> perm AND ATR_DFLAG_ACCESS = ATR_DFLAG_ACCESS"

definition resc_current :: "resource_def list \<Rightarrow> resource attribute \<Rightarrow> nat \<Rightarrow> unit attribute" where
  "resc_current defs a i = (case resc_map (resc_list a) i of None \<Rightarrow> rs_value (new_resource defs i) | Some v \<Rightarrow> v)"

lemma set_rs_value_list [simp]:
  "at_list (at_val (set_rs_value a k v)) = (at_list (at_val a))[k := (at_list (at_val a) ! k)\<lparr>rs_value := v\<rparr>]"
  "is_set (set_rs_value a k v) = is_set a"
  by (simp_all add: set_rs_value_def Let_def)

lemma found_value:
  assumes "resc_map lb = (case resc_map la i of None \<Rightarrow> (resc_map la)(i \<mapsto> w) | Some _ \<Rightarrow> resc_map la)"
  shows "the (resc_map lb i) = (case resc_map la i of None \<Rightarrow> w | Some v \<Rightarrow> v)" "(resc_map lb)(i \<mapsto> v) = (resc_map la)(i \<mapsto> v)"
  using assms by (auto split: option.splits)

text \<open>
  Decoding a known resource that the caller may write: the resource's own decoder is applied to its
  current value, the result is stored under that definition, and nothing else changes.
\<close>

lemma decode_resc_known:
  assumes "table_ok defs" "resc_wf defs a" "find_resc_def defs (Some rn) = Some i" "\<forall>n. mal n"
    "resc_writable defs perm i" "perm AND ATR_PERM_ALLOW_INDIRECT = 0"
    "rs_decode (defs ! i) (resc_current defs a i) nm (Some rn) val = (rv, v)"
  shows "\<exists>b. decode_resc mal defs perm (Some a) nm (Some rn) val = (rv, Some b) \<and> is_set b \<and> resc_wf defs b \<and>
    resc_map (resc_list b) = (resc_map (resc_list a))(i \<mapsto> v)"
proof -
  define a0 where "a0 = (if is_set a then a else a\<lparr>at_val := At_list []\<rparr>)"
  have l0: "at_list (at_val a0) = resc_list a" by (simp add: a0_def resc_list_def)
  have i: "i < length defs" using find_resc_def_less [OF assms(3)] by simp
  obtain k b where b: "find_or_add mal defs a0 i = (Some k, b)" "k < length (at_list (at_val b))" "rs_defin (at_list (at_val b) ! k) = i"
    "resc_sorted defs (at_list (at_val b))"
    "resc_map (at_list (at_val b)) = (case resc_map (resc_list a) i of
       None \<Rightarrow> (resc_map (resc_list a))(i \<mapsto> rs_value (new_resource defs i)) | Some _ \<Rightarrow> resc_map (resc_list a))"
    "rs_value (at_list (at_val b) ! k) = the (resc_map (at_list (at_val b)) i)"
    using find_or_add_spec [OF assms(1) _ i assms(4), of a0, unfolded l0] assms(2) unfolding resc_wf_def by blast
  have cur: "rs_value (at_list (at_val b) ! k) = resc_current defs a i" using b(6) found_value(1) [OF b(5)] by (simp add: resc_current_def)
  have dec: "rs_decode (defs ! i) (rs_value (at_list (at_val (mark_set b)) ! k)) nm (Some rn) val = (rv, v)" using cur assms(7) by simp
  have "decode_resc mal defs perm (Some a) nm (Some rn) val = (rv, Some (set_rs_value (mark_set b) k v))"
    using assms(3,5,6) b(1,3) dec unfolding resc_writable_def
    by (auto simp: decode_resc_def a0_def [symmetric] Let_def)
  moreover have "resc_map (resc_list (set_rs_value (mark_set b) k v)) = (resc_map (resc_list a))(i \<mapsto> v)"
    using update_sorted(2) [OF b(4,2), of v] found_value(2) [OF b(5), of v] b(3) by (simp add: resc_list_def)
  ultimately show ?thesis using update_sorted(1) [OF b(4,2), of v] by (simp add: resc_wf_def resc_list_def)
qed

text \<open>A resource that may not be written is refused; an unknown one goes to the entry for unknown resources.\<close>

lemma decode_resc_readonly:
  assumes "table_ok defs" "resc_wf defs a" "find_resc_def defs (Some rn) = Some i" "\<forall>n. mal n" "\<not> resc_writable defs perm i"
  shows "fst (decode_resc mal defs perm (Some a) nm (Some rn) val) = PBSE_ATTRRO"
proof -
  define a0 where "a0 = (if is_set a then a else a\<lparr>at_val := At_list []\<rparr>)"
  have l0: "at_list (at_val a0) = resc_list a" by (simp add: a0_def resc_list_def)
  have i: "i < length defs" using find_resc_def_less [OF assms(3)] by simp
  obtain k b where "find_or_add mal defs a0 i = (Some k, b)" "rs_defin (at_list (at_val b) ! k) = i"
    using find_or_add_spec [OF assms(1) _ i assms(4), of a0, unfolded l0] assms(2) unfolding resc_wf_def by blast
  then show ?thesis using assms(3,5) unfolding resc_writable_def by (auto simp: decode_resc_def a0_def [symmetric] Let_def)
qed

section \<open>Tables whose types keep their contract\<close>

text \<open>The loop of a receiver: every entry of an encoded resource list is decoded into the same attribute.\<close>

fun decode_entries :: "(nat \<Rightarrow> bool) \<Rightarrow> resource_def list \<Rightarrow> nat \<Rightarrow> svrattrl list \<Rightarrow> resource attribute \<Rightarrow> int \<times> resource attribute" where
  "decode_entries mal defs perm [] a = (0, a)"
| "decode_entries mal defs perm (p # ps) a =
     (case decode_resc mal defs perm (Some a) (al_name p) (al_resc p) (Some (al_value p)) of
        (rc, b) \<Rightarrow> if rc \<noteq> 0 then (rc, the b) else decode_entries mal defs perm ps (the b))"

text \<open>
  A resource that can be sent (set, legal, not indirect, wanted by the encoder), the entry it is sent as, a resource
  that can be copied from, a list into which can be copied, and the result of copying. The arguments are the table
  and, for each definition, the values that are legal, equal and well-formed.
\<close>

definition sendable :: "resource_def list \<Rightarrow> (nat \<Rightarrow> unit attr_val \<Rightarrow> bool) \<Rightarrow> nat \<Rightarrow> int \<Rightarrow> resource \<Rightarrow> bool" where
  "sendable defs legal access mode r \<longleftrightarrow> rs_defin r < length defs \<and> is_set (rs_value r) \<and> legal (rs_defin r) (at_val (rs_value r)) \<and>
     at_flags (rs_value r) AND ATR_VFLAG_INDIRECT = 0 \<and> encode_wanted defs access mode r"

definition sent_rescs :: "resource_def list \<Rightarrow> nat \<Rightarrow> int \<Rightarrow> resource attribute \<Rightarrow> resource list" where
  "sent_rescs defs access mode a = filter (\<lambda>r. encode_wanted defs access mode r \<and> is_set (rs_value r)) (resc_list a)"

definition sent_as :: "resource_def list \<Rightarrow> (nat \<Rightarrow> unit attr_val \<Rightarrow> unit attr_val \<Rightarrow> bool) \<Rightarrow> (nat \<Rightarrow> unit attr_val \<Rightarrow> bool) \<Rightarrow> string \<Rightarrow> resource \<Rightarrow> svrattrl \<Rightarrow> bool" where
  "sent_as defs same ok nm r p \<longleftrightarrow> rs_defin r < length defs \<and> al_name p = nm \<and> al_resc p = Some (rs_name (defs ! rs_defin r)) \<and>
     (\<forall>b nm rn. ok (rs_defin r) (at_val b) \<longrightarrow> (\<exists>b'. rs_decode (defs ! rs_defin r) b nm rn (Some (al_value p)) = (0, b') \<and>
        is_set b' \<and> same (rs_defin r) (at_val b') (at_val (rs_value r))))"

definition settable :: "resource_def list \<Rightarrow> (nat \<Rightarrow> unit attr_val \<Rightarrow> bool) \<Rightarrow> (nat \<Rightarrow> unit attr_val \<Rightarrow> bool) \<Rightarrow> resource \<Rightarrow> bool" where
  "settable defs legal ok r \<longleftrightarrow> rs_defin r < length defs \<and> (is_set (rs_value r) \<longrightarrow> legal (rs_defin r) (at_val (rs_value r)) \<and>
     ok (rs_defin r) (at_val (rs_value r)) \<and> at_flags (rs_value r) AND ATR_VFLAG_INDIRECT = 0)"

definition direct :: "resource_def list \<Rightarrow> (nat \<Rightarrow> unit attr_val \<Rightarrow> bool) \<Rightarrow> resource attribute \<Rightarrow> bool" where
  "direct defs ok a \<longleftrightarrow> resc_sorted defs (at_list (at_val a)) \<and>
     (\<forall>i v. resc_map (at_list (at_val a)) i = Some v \<longrightarrow> ok i (at_val v) \<and> at_flags v AND ATR_VFLAG_INDIRECT = 0)"

definition copied :: "(nat \<Rightarrow> unit attr_val \<Rightarrow> unit attr_val \<Rightarrow> bool) \<Rightarrow> resource \<Rightarrow> unit attribute option \<Rightarrow> bool" where
  "copied same r v \<longleftrightarrow> (\<exists>w. v = Some w \<and>
     (if is_set (rs_value r) then is_set w \<and> same (rs_defin r) (at_val w) (at_val (rs_value r)) else \<not> is_set w))"

locale resc_table =
  fixes defs :: "resource_def list"
    and legal :: "nat \<Rightarrow> unit attr_val \<Rightarrow> bool"
    and same :: "nat \<Rightarrow> unit attr_val \<Rightarrow> unit attr_val \<Rightarrow> bool"
    and wf :: "nat \<Rightarrow> unit attr_val \<Rightarrow> bool"
    and modes :: "int set"
  assumes names: "table_ok defs"
    and codec: "i < length defs \<Longrightarrow>
      attr_codec (rs_decode (defs ! i)) (rs_encode (defs ! i)) (rs_set (defs ! i)) (rs_free (defs ! i)) (legal i) (same i) (wf i) modes"
    and fresh: "i < length defs \<Longrightarrow> wf i (at_val (rs_value (new_resource defs i)))"
begin

lemma encode_loop_entries:
  assumes "\<forall>r \<in> set l. sendable defs legal access mode r" "mode \<in> modes"
  shows "\<exists>ps rtnl'. encode_loop mal defs access nm mode l (Some ph) rtnl g = (g + int (length l), Some (ph @ ps), rtnl') \<and> list_all2 (sent_as defs same wf nm) l ps"
  using assms(1)
proof (induction l arbitrary: ph rtnl g)
  case (Cons r l)
  let ?d = "defs ! rs_defin r"
  have r: "rs_defin r < length defs" "is_set (rs_value r)" "legal (rs_defin r) (at_val (rs_value r))"
    "at_flags (rs_value r) AND ATR_VFLAG_INDIRECT = 0" "encode_wanted defs access mode r" using Cons.prems by (simp_all add: sendable_def)
  obtain p where p: "rs_encode ?d (Some (rs_value r)) (Some ph) nm (Some (rs_name ?d)) mode = (1, Some (ph @ [p]), Some p)"
    "entry_for (rs_value r) nm (Some (rs_name ?d)) (al_value p) p"
    "\<forall>b nm' rn'. wf (rs_defin r) (at_val b) \<longrightarrow> (\<exists>b'. rs_decode ?d b nm' rn' (Some (al_value p)) = (0, b') \<and> is_set b' \<and>
       legal (rs_defin r) (at_val b') \<and> wf (rs_defin r) (at_val b') \<and> same (rs_defin r) (at_val b') (at_val (rs_value r)))"
    using attr_codec.encode_legal [OF codec [OF r(1)] r(2,3) assms(2), of "Some ph" nm "Some (rs_name ?d)"] by auto
  have "al_name p = nm" "al_resc p = Some (rs_name ?d)" using p(2) by (simp_all add: entry_for_def)
  then have "sent_as defs same wf nm r p" unfolding sent_as_def using p(3) r(1) by blast
  moreover obtain ps rtnl' where "encode_loop mal defs access nm mode l (Some (ph @ [p])) (if rtnl = None then Some p else rtnl) (g + 1) =
      (g + 1 + int (length l), Some ((ph @ [p]) @ ps), rtnl')" "list_all2 (sent_as defs same wf nm) l ps" using Cons by fastforce
  ultimately show ?case using r(4,5) p(1)
    by (intro exI [of _ "p # ps"] exI [of _ rtnl']) (simp add: Let_def ac_simps)
qed simp

text \<open>Resources without a value or not wanted leave no trace.\<close>

lemma encode_loop_sent:
  assumes "\<forall>r \<in> set l. rs_defin r < length defs"
  shows "encode_loop mal defs access nm mode l ph rtnl g =
    encode_loop mal defs access nm mode (filter (\<lambda>r. encode_wanted defs access mode r \<and> is_set (rs_value r)) l) ph rtnl g"
  using assms
proof (induction l arbitrary: ph rtnl g)
  case (Cons r l)
  have "rs_encode (defs ! rs_defin r) (Some (rs_value r)) ph nm rn mode = (0, ph, None)" if "\<not> is_set (rs_value r)" for rn ph
    using attr_codec.encode_unset [OF codec that] Cons.prems by simp
  moreover have "encode_str mal (Some (rs_value r)) ph nm rn mode = (0, ph, None)" if "\<not> is_set (rs_value r)" for rn ph
    using that by (simp add: encode_str_def split: option.split)
  ultimately show ?case using Cons by (auto simp: Let_def split: prod.splits)
qed simp

lemma decode_entries_spec:
  assumes "list_all2 (sent_as defs same wf nm) l ps" "resc_wf defs a" "\<forall>r \<in> set l. resc_map (resc_list a) (rs_defin r) = None" "distinct (map rs_defin l)"
    "\<forall>r \<in> set l. resc_writable defs perm (rs_defin r)" "perm AND ATR_PERM_ALLOW_INDIRECT = 0" "\<forall>n. mal n"
  shows "\<exists>b. decode_entries mal defs perm ps a = (0, b) \<and> resc_wf defs b \<and>
    (\<forall>r \<in> set l. \<exists>v. resc_map (resc_list b) (rs_defin r) = Some v \<and> is_set v \<and> same (rs_defin r) (at_val v) (at_val (rs_value r))) \<and>
    (\<forall>i. i \<notin> rs_defin ` set l \<longrightarrow> resc_map (resc_list b) i = resc_map (resc_list a) i)"
  using assms(1-5)
proof (induction l ps arbitrary: a rule: list_all2_induct)
  case (Cons r l p ps)
  let ?i = "rs_defin r"
  have sa: "?i < length defs" "al_resc p = Some (rs_name (defs ! ?i))" using Cons.hyps(1) by (simp_all add: sent_as_def)
  have "resc_current defs a ?i = rs_value (new_resource defs ?i)" using Cons.prems(2) by (simp add: resc_current_def)
  then obtain v where v: "rs_decode (defs ! ?i) (resc_current defs a ?i) (al_name p) (al_resc p) (Some (al_value p)) = (0, v)" "is_set v"
    "same ?i (at_val v) (at_val (rs_value r))"
    using Cons.hyps(1) fresh [OF sa(1)] unfolding sent_as_def by metis
  obtain b where b: "decode_resc mal defs perm (Some a) (al_name p) (al_resc p) (Some (al_value p)) = (0, Some b)" "resc_wf defs b"
    "resc_map (resc_list b) = (resc_map (resc_list a))(?i \<mapsto> v)"
    using decode_resc_known [OF names Cons.prems(1) find_resc_def_self [OF names sa(1)] assms(7) _ assms(6), of "al_name p" "Some (al_value p)" 0 v]
      v(1) sa(2) Cons.prems(4) by auto
  have "\<forall>r' \<in> set l. rs_defin r' \<noteq> ?i" using Cons.prems(3) by (force simp: image_iff)
  then obtain c where c: "decode_entries mal defs perm ps b = (0, c)" "resc_wf defs c"
    "\<forall>r \<in> set l. \<exists>v. resc_map (resc_list c) (rs_defin r) = Some v \<and> is_set v \<and> same (rs_defin r) (at_val v) (at_val (rs_value r))"
    "\<forall>i. i \<notin> rs_defin ` set l \<longrightarrow> resc_map (resc_list c) i = resc_map (resc_list b) i"
    using Cons.IH [OF b(2)] Cons.prems b(3) by auto
  have "?i \<notin> rs_defin ` set l" using Cons.prems(3) by auto
  then show ?case using b(1) c v(2,3) b(3) by auto
qed simp

text \<open>
  Setting resources: every resource of the new list that has a value is copied, one without a value is
  unset, all others stay as they are.
\<close>

lemma flag_clear: "(((f :: 16 word) AND NOT ATR_VFLAG_INDIRECT) OR (g AND 4)) AND ATR_VFLAG_INDIRECT = 0"
  using and_exp_eq_0_iff_not_bit [of "((f :: 16 word) AND NOT ATR_VFLAG_INDIRECT) OR (g AND 4)" 4] by (simp add: bit_simps)

lemma set_one_spec:
  assumes "direct defs wf old" "settable defs legal wf r" "\<forall>n. mal n" "\<And>v. wf (rs_defin r) (at_val v) \<Longrightarrow> wf (rs_defin r) (at_val (rs_free (defs ! rs_defin r) v))"
    "\<And>v. at_flags v AND ATR_VFLAG_INDIRECT = 0 \<Longrightarrow> at_flags (rs_free (defs ! rs_defin r) v) AND ATR_VFLAG_INDIRECT = 0"
  shows "\<exists>b. set_one mal defs batch_op_SET old r = (0, b) \<and> direct defs wf b \<and> copied same r (resc_map (at_list (at_val b)) (rs_defin r)) \<and>
    (\<forall>i. i \<noteq> rs_defin r \<longrightarrow> resc_map (at_list (at_val b)) i = resc_map (at_list (at_val old)) i)"
proof -
  let ?i = "rs_defin r" and ?l = "at_list (at_val old)"
  let ?d = "defs ! ?i"
  have i: "?i < length defs" using assms(2) by (simp add: settable_def)
  have old: "resc_sorted defs ?l" "\<And>i v. resc_map ?l i = Some v \<Longrightarrow> wf i (at_val v) \<and> at_flags v AND ATR_VFLAG_INDIRECT = 0"
    using assms(1) by (simp_all add: direct_def)
  obtain k b where b: "find_or_add mal defs old ?i = (Some k, b)" "k < length (at_list (at_val b))" "rs_defin (at_list (at_val b) ! k) = ?i"
    "resc_sorted defs (at_list (at_val b))"
    "resc_map (at_list (at_val b)) = (case resc_map ?l ?i of None \<Rightarrow> (resc_map ?l)(?i \<mapsto> rs_value (new_resource defs ?i)) | Some _ \<Rightarrow> resc_map ?l)"
    "rs_value (at_list (at_val b) ! k) = the (resc_map (at_list (at_val b)) ?i)"
    using find_or_add_spec [OF names old(1) i assms(3)] by blast
  define ov where "ov = rs_value (at_list (at_val b) ! k)"
  have nf: "at_flags (rs_value (new_resource defs ?i)) AND ATR_VFLAG_INDIRECT = 0"
    using assms(5) by (simp add: new_resource_def)
  have ov: "wf ?i (at_val ov)" "at_flags ov AND ATR_VFLAG_INDIRECT = 0"
    using b(5,6) old(2) [of ?i] fresh [OF i] nf by (auto simp: ov_def split: option.splits)
  have res: "direct defs wf (set_rs_value b k v) \<and> resc_map (at_list (at_val (set_rs_value b k v))) ?i = Some v \<and>
      (\<forall>i. i \<noteq> ?i \<longrightarrow> resc_map (at_list (at_val (set_rs_value b k v))) i = resc_map ?l i)"
    if "wf ?i (at_val v)" "at_flags v AND ATR_VFLAG_INDIRECT = 0" for v
  proof -
    have m: "resc_map (at_list (at_val (set_rs_value b k v))) = (resc_map ?l)(?i \<mapsto> v)"
      using update_sorted(2) [OF b(4,2), of v] found_value(2) [OF b(5), of v] b(3) by simp
    then show ?thesis using update_sorted(1) [OF b(4,2), of v] that old(2) by (simp add: direct_def)
  qed
  show ?thesis
  proof (cases "is_set (rs_value r)")
    case True
    then have r: "legal ?i (at_val (rs_value r))" "wf ?i (at_val (rs_value r))" "at_flags (rs_value r) AND ATR_VFLAG_INDIRECT = 0"
      using assms(2) by (simp_all add: settable_def)
    obtain v where v: "rs_set ?d ov (rs_value r) batch_op_SET = (0, v)" "is_set v" "wf ?i (at_val v)" "same ?i (at_val v) (at_val (rs_value r))"
      using attr_codec.set_SET [OF codec [OF i] True r(1,2) ov(1)] by blast
    define w where "w = v\<lparr>at_flags := (at_flags v AND NOT ATR_VFLAG_INDIRECT) OR (at_flags (rs_value r) AND 4)\<rparr>"
    have w: "is_set w" "at_val w = at_val v" "at_flags w AND ATR_VFLAG_INDIRECT = 0"
      using v(2) flag_clear by (simp_all add: w_def is_set_def flag_bits bit_simps)
    have "set_one mal defs batch_op_SET old r = (0, set_rs_value b k w)"
      using b(1,3) True r(3) ov(2) v(1) by (simp add: set_one_def Let_def ov_def [symmetric] w_def)
    then show ?thesis using res [of w] w v(3,4) True by (auto simp: copied_def)
  next
    case False
    have "set_one mal defs batch_op_SET old r = (0, set_rs_value b k (rs_free ?d ov))"
      using b(1,3) False by (simp add: set_one_def Let_def ov_def)
    then show ?thesis using res [of "rs_free ?d ov"] assms(4,5) ov attr_codec.free_unset [OF codec [OF i], of ov] False by (auto simp: copied_def)
  qed
qed

lemma set_loop_spec:
  assumes "direct defs wf old" "\<forall>r \<in> set ns. settable defs legal wf r" "distinct (map rs_defin ns)" "\<forall>n. mal n"
    "\<And>i v. i < length defs \<Longrightarrow> wf i (at_val v) \<Longrightarrow> wf i (at_val (rs_free (defs ! i) v))"
    "\<And>i v. i < length defs \<Longrightarrow> at_flags v AND ATR_VFLAG_INDIRECT = 0 \<Longrightarrow> at_flags (rs_free (defs ! i) v) AND ATR_VFLAG_INDIRECT = 0"
  shows "\<exists>b. set_loop mal defs batch_op_SET old ns = (0, b) \<and> is_set b \<and> direct defs wf b \<and>
    (\<forall>r \<in> set ns. copied same r (resc_map (at_list (at_val b)) (rs_defin r))) \<and>
    (\<forall>i. i \<notin> rs_defin ` set ns \<longrightarrow> resc_map (at_list (at_val b)) i = resc_map (at_list (at_val old)) i)"
  using assms(1-3)
proof (induction ns arbitrary: old)
  case Nil
  then show ?case by (simp add: direct_def)
next
  case (Cons r ns)
  have i: "rs_defin r < length defs" using Cons.prems(2) by (simp add: settable_def)
  obtain b where b: "set_one mal defs batch_op_SET old r = (0, b)" "direct defs wf b" "copied same r (resc_map (at_list (at_val b)) (rs_defin r))"
    "\<forall>i. i \<noteq> rs_defin r \<longrightarrow> resc_map (at_list (at_val b)) i = resc_map (at_list (at_val old)) i"
    using set_one_spec [OF Cons.prems(1) bspec [OF Cons.prems(2)] assms(4) assms(5) [OF i] assms(6) [OF i]] by auto
  obtain c where c: "set_loop mal defs batch_op_SET b ns = (0, c)" "is_set c" "direct defs wf c"
    "\<forall>r \<in> set ns. copied same r (resc_map (at_list (at_val c)) (rs_defin r))"
    "\<forall>i. i \<notin> rs_defin ` set ns \<longrightarrow> resc_map (at_list (at_val c)) i = resc_map (at_list (at_val b)) i"
    using Cons.IH [OF b(2)] Cons.prems by auto
  have "rs_defin r \<notin> rs_defin ` set ns" using Cons.prems(3) by auto
  then show ?case using b c by auto
qed

text \<open>
  A resource list that is encoded and decoded again holds the resources that were sent. On their way the entries may be
  changed (\<open>f\<close>) where the decoder does not look.
\<close>

lemma sent_sorted:
  assumes "resc_wf defs a"
  shows "distinct (map rs_defin (sent_rescs defs access mode a))"
proof -
  have "distinct (map rs_defin m)" if "resc_sorted defs m" for m
    using that by (induction m) (auto simp: resc_sorted_Cons dest: resc_sorted_notin [unfolded resc_sorted_Cons])
  then have "distinct (map rs_defin (resc_list a))" using assms by (simp add: resc_wf_def)
  then show ?thesis by (simp add: sent_rescs_def distinct_map_filter)
qed

lemma decode_entries_map:
  "(\<And>p. al_name (f p) = al_name p \<and> al_resc (f p) = al_resc p \<and> al_value (f p) = al_value p) \<Longrightarrow>
    decode_entries mal defs perm (map f ps) a = decode_entries mal defs perm ps a"
  by (induction ps arbitrary: a) (auto split: prod.split)

lemma resc_roundtrip:
  assumes "is_set a" "resc_wf defs a" "\<forall>r \<in> set (sent_rescs defs access mode a). sendable defs legal access mode r \<and> resc_writable defs perm (rs_defin r)"
    "mode \<in> modes" "perm AND ATR_PERM_ALLOW_INDIRECT = 0" "resc_list b = []"
  shows "\<exists>ps rtnl b'. encode_resc (\<lambda>_. True) defs access (Some a) (Some ph) nm rn mode =
      (int (length (sent_rescs defs access mode a)), Some (ph @ ps), rtnl) \<and>
    list_all2 (sent_as defs same wf nm) (sent_rescs defs access mode a) ps \<and>
    decode_entries (\<lambda>_. True) defs perm ps b = (0, b') \<and> resc_wf defs b' \<and>
    (\<forall>i. case resc_map (sent_rescs defs access mode a) i of None \<Rightarrow> resc_map (resc_list b') i = None
      | Some v \<Rightarrow> \<exists>w. resc_map (resc_list b') i = Some w \<and> is_set w \<and> same i (at_val w) (at_val v))"
proof -
  let ?l = "sent_rescs defs access mode a"
  have l: "at_list (at_val a) = resc_list a" using assms(1) by (simp add: resc_list_def)
  obtain ps rtnl where ps: "encode_loop (\<lambda>_. True) defs access nm mode ?l (Some ph) None 0 = (int (length ?l), Some (ph @ ps), rtnl)" "list_all2 (sent_as defs same wf nm) ?l ps"
    using encode_loop_entries [of ?l access mode "\<lambda>_. True" nm ph None 0] assms(3,4) by auto
  have "\<forall>r \<in> set (resc_list a). rs_defin r < length defs" using assms(2) by (simp add: resc_wf_def resc_sorted_def)
  from encode_loop_sent [OF this] have enc: "encode_resc (\<lambda>_. True) defs access (Some a) (Some ph) nm rn mode = (int (length ?l), Some (ph @ ps), rtnl)"
    using ps(1) assms(1) l by (simp add: encode_resc_def sent_rescs_def)
  have w: "resc_wf defs b" using assms(6) by (simp add: resc_wf_def)
  obtain b' where b': "decode_entries (\<lambda>_. True) defs perm ps b = (0, b')" "resc_wf defs b'"
    "\<forall>r \<in> set ?l. \<exists>v. resc_map (resc_list b') (rs_defin r) = Some v \<and> is_set v \<and> same (rs_defin r) (at_val v) (at_val (rs_value r))"
    "\<forall>i. i \<notin> rs_defin ` set ?l \<longrightarrow> resc_map (resc_list b') i = resc_map (resc_list b) i"
    using decode_entries_spec [OF ps(2) w _ sent_sorted [OF assms(2)] _ assms(5), of "\<lambda>_. True"] assms(3,6) by auto
  have "case resc_map ?l i of None \<Rightarrow> resc_map (resc_list b') i = None
      | Some v \<Rightarrow> \<exists>w. resc_map (resc_list b') i = Some w \<and> is_set w \<and> same i (at_val w) (at_val v)" for i
  proof (cases "resc_map ?l i")
    case None
    then have "resc_map (resc_list b') i = None" using b'(4) assms(6) by (simp add: resc_map_None)
    then show ?thesis using None by simp
  next
    case (Some v)
    then have "(i, v) \<in> set (map (\<lambda>r. (rs_defin r, rs_value r)) ?l)" unfolding resc_map_def by (rule map_of_SomeD)
    then show ?thesis using b'(3) Some by auto
  qed
  then show ?thesis using enc ps(2) b'(1,2) by blast
qed

end

section \<open>Built-in resources\<close>

text \<open>
  Entries of the built-in table (\<open>src/src/lib/Libattr/master_resc_def_all.xml\<close>) for the resources
  jobs are usually given. \<open>READ_WRITE\<close> is \<open>0x3F\<close>, \<open>READ_ONLY\<close> is \<open>0x15\<close>.
\<close>

definition time_resc :: "string \<Rightarrow> nat \<Rightarrow> resource_def" where
  "time_resc nm fl = \<lparr>rs_name = nm, rs_decode = decode_time (\<lambda>_. True), rs_encode = encode_time (\<lambda>_. True), rs_set = set_l,
     rs_comp = (\<lambda>a w. comp_l (Some a) (Some w)), rs_free = free_null, rs_flags = fl, rs_type = 1\<rparr>"

definition long_resc :: "string \<Rightarrow> nat \<Rightarrow> resource_def" where
  "long_resc nm fl = \<lparr>rs_name = nm, rs_decode = decode_l, rs_encode = encode_l (\<lambda>_. True), rs_set = set_l,
     rs_comp = (\<lambda>a w. comp_l (Some a) (Some w)), rs_free = free_null, rs_flags = fl, rs_type = 1\<rparr>"

definition size_resc :: "string \<Rightarrow> nat \<Rightarrow> resource_def" where
  "size_resc nm fl = \<lparr>rs_name = nm, rs_decode = decode_size False, rs_encode = encode_size (\<lambda>_. True), rs_set = set_size,
     rs_comp = comp_size, rs_free = free_null, rs_flags = fl, rs_type = ATR_TYPE_SIZE\<rparr>"

definition str_resc :: "string \<Rightarrow> nat \<Rightarrow> resource_def" where
  "str_resc nm fl = \<lparr>rs_name = nm, rs_decode = decode_str (\<lambda>_. True), rs_encode = encode_str (\<lambda>_. True), rs_set = set_str (\<lambda>_. True),
     rs_comp = (\<lambda>a w. comp_str (Some a) w), rs_free = free_str, rs_flags = fl, rs_type = 3\<rparr>"

text \<open>
  A table is a list of such entries; the properties hold for every table whose names differ. \<open>core_resc_def\<close> is one with
  the names and flags of some built-in resources.
\<close>

datatype resc_kind = RK_time | RK_long | RK_size | RK_str

fun kind_resc :: "resc_kind \<times> string \<times> nat \<Rightarrow> resource_def" where
  "kind_resc (RK_time, nm, fl) = time_resc nm fl"
| "kind_resc (RK_long, nm, fl) = long_resc nm fl"
| "kind_resc (RK_size, nm, fl) = size_resc nm fl"
| "kind_resc (RK_str, nm, fl) = str_resc nm fl"

fun resc_kind_legal :: "resc_kind \<Rightarrow> unit attr_val \<Rightarrow> bool" where
  "resc_kind_legal RK_time = legal_time"
| "resc_kind_legal RK_long = legal_l"
| "resc_kind_legal RK_size = legal_size"
| "resc_kind_legal RK_str = legal_str"

definition resc_defs :: "(resc_kind \<times> string \<times> nat) list \<Rightarrow> resource_def list" where
  "resc_defs tbl = map kind_resc tbl"

definition resc_legal :: "(resc_kind \<times> string \<times> nat) list \<Rightarrow> nat \<Rightarrow> unit attr_val \<Rightarrow> bool" where
  "resc_legal tbl i = resc_kind_legal (fst (tbl ! i))"

lemma resc_table_kinds:
  assumes "table_ok (resc_defs tbl)"
  shows "resc_table (resc_defs tbl) (resc_legal tbl) (\<lambda>_. same_value) (\<lambda>_. any_value) UNIV"
proof (rule resc_table.intro)
  fix i assume "i < length (resc_defs tbl)"
  moreover obtain k nm fl where "tbl ! i = (k, nm, fl)" by (cases "tbl ! i") auto
  ultimately have "resc_defs tbl ! i = kind_resc (k, nm, fl)" "resc_legal tbl i = resc_kind_legal k" by (simp_all add: resc_defs_def resc_legal_def)
  then show "attr_codec (rs_decode (resc_defs tbl ! i)) (rs_encode (resc_defs tbl ! i)) (rs_set (resc_defs tbl ! i))
      (rs_free (resc_defs tbl ! i)) (resc_legal tbl i) same_value any_value UNIV"
    by (cases k; simp add: time_resc_def long_resc_def size_resc_def str_resc_def
        time.attr_codec_axioms size.attr_codec_axioms l.attr_codec_axioms str.attr_codec_axioms)
qed (simp_all add: assms any_value_def)

definition core_resc_kinds :: "(resc_kind \<times> string \<times> nat) list" where
  "core_resc_kinds =
    [(RK_time, ''cput'', 0xC3F), (RK_size, ''mem'', 0x2C43F), (RK_time, ''walltime'', 0xC3F), (RK_long, ''ncpus'', 0x2C43F),
     (RK_long, ''nodect'', 0x4035), (RK_str, ''arch'', 0x2043F), (RK_size, ''file'', 0x43F), (RK_size, ''vmem'', 0x2C43F), (RK_str, ''host'', 0x2003F)]"

definition core_resc_def :: "resource_def list" where
  "core_resc_def = resc_defs core_resc_kinds"

lemmas core_resc_simps = core_resc_def_def resc_defs_def core_resc_kinds_def

lemma core_cases: "i < length core_resc_def \<Longrightarrow> i \<in> {0, 1, 2, 3, 4, 5, 6, 7, 8}"
  by (auto simp: core_resc_simps)

lemma core_names: "table_ok core_resc_def"
proof -
  have "distinct (map (lower_name core_resc_def) [0..<9])"
    by (simp add: lower_name_def core_resc_simps time_resc_def long_resc_def size_resc_def str_resc_def tolower_def uchar_def upt_rec)
  then show ?thesis by (auto simp: table_ok_def distinct_map inj_on_def core_resc_simps)
qed

interpretation core: resc_table core_resc_def "resc_legal core_resc_kinds" "\<lambda>_. same_value" "\<lambda>_. any_value" UNIV
  unfolding core_resc_def_def by (rule resc_table_kinds [OF core_names [unfolded core_resc_def_def]])

lemma core_free_flags:
  "at_flags (rs_free (time_resc nm fl) v) AND ATR_VFLAG_INDIRECT = 0" "at_flags (rs_free (long_resc nm fl) v) AND ATR_VFLAG_INDIRECT = 0"
  "at_flags (rs_free (size_resc nm fl) v) AND ATR_VFLAG_INDIRECT = 0" "at_flags (rs_free (str_resc nm fl) v) AND ATR_VFLAG_INDIRECT = 0"
proof -
  have "at_flags (free_null (w :: unit attribute)) AND ATR_VFLAG_INDIRECT = 0" for w
    using and_exp_eq_0_iff_not_bit [of "at_flags (free_null w)" 4]
    by (simp add: free_null_def free_svrcache_def Let_def bit_simps)
  then show "at_flags (rs_free (time_resc nm fl) v) AND ATR_VFLAG_INDIRECT = 0" "at_flags (rs_free (long_resc nm fl) v) AND ATR_VFLAG_INDIRECT = 0"
    "at_flags (rs_free (size_resc nm fl) v) AND ATR_VFLAG_INDIRECT = 0" "at_flags (rs_free (str_resc nm fl) v) AND ATR_VFLAG_INDIRECT = 0"
    by (simp_all add: time_resc_def long_resc_def size_resc_def str_resc_def free_str_def)
qed

end
