(* ===== verification/Attr_Atomic.thy ===== *)
theory Attr_Atomic
  imports Attr_Resc
begin

unbundle bit_operations_syntax

text \<open>
  Setting a whole array of attributes at once (\<open>src/src/lib/Libattr/attr_atomic.c\<close>), with the lookup
  and initialisation of attributes (\<open>attr_func.c\<close>), the loop that encodes a job's attributes
  (\<open>send_job\<close> in \<open>src/src/server/svr_movejob.c\<close>), and the loop that decodes the attributes of a
  new job (\<open>req_quejob\<close> in \<open>src/src/server/req_quejob.c\<close>).

  The functions of an attribute definition take \<open>resc_access_perm\<close>, a global that is set before each
  of them is called, as their first argument. Arrays of attributes and of definitions are lists of the
  same length \<open>limit\<close>.
\<close>

section \<open>Definitions of attributes\<close>

record attribute_def =
  ad_name :: string
  ad_decode :: "nat \<Rightarrow> resource attribute \<Rightarrow> string \<Rightarrow> string option \<Rightarrow> string option \<Rightarrow> int \<times> resource attribute"
  ad_encode :: "nat \<Rightarrow> resource attribute option \<Rightarrow> svrattrl list option \<Rightarrow> string \<Rightarrow> string option \<Rightarrow> int \<Rightarrow> encoded"
  ad_set :: "resource attribute \<Rightarrow> resource attribute \<Rightarrow> uint \<Rightarrow> int \<times> resource attribute"
  ad_set_is_null :: bool
  ad_free :: "resource attribute \<Rightarrow> resource attribute"
  ad_flags :: nat
  ad_type :: nat

abbreviation PBSE_NOATTR :: int where "PBSE_NOATTR \<equiv> 15002"
abbreviation ATR_DFLAG_SvWR :: nat where "ATR_DFLAG_SvWR \<equiv> 0x200"
abbreviation ATR_TYPE_RESC :: nat where "ATR_TYPE_RESC \<equiv> 6"
abbreviation ATR_TYPE_LIST :: nat where "ATR_TYPE_LIST \<equiv> 7"

text \<open>User, operator and manager read and write, and server write: what a hook may set.\<close>

definition hook_privilege :: nat where "hook_privilege = 0x23F"

definition clear_attr :: "attribute_def \<Rightarrow> resource attribute" where
  "clear_attr pdef =
     \<lparr>at_flags = 0, at_type = ad_type pdef, at_user_encoded = None, at_priv_encoded = None,
      at_val = (if ad_type pdef = ATR_TYPE_RESC \<or> ad_type pdef = ATR_TYPE_LIST then At_list [] else At_zero)\<rparr>"

fun find_attr :: "attribute_def list \<Rightarrow> string \<Rightarrow> int" where
  "find_attr [] name = - 1"
| "find_attr (d # ds) name =
     (if strcasecmp (ad_name d) name = 0 then 0 else let i = find_attr ds name in if i < 0 then - 1 else i + 1)"

section \<open>Atomic operations\<close>

definition clear_modified :: "'r attribute \<Rightarrow> 'r attribute" where
  "clear_modified a = a\<lparr>at_flags := at_flags a AND NOT (ATR_VFLAG_MODIFY OR ATR_VFLAG_MODCACHE)\<rparr>"

definition clear_resc_modified :: "resource attribute \<Rightarrow> resource attribute" where
  "clear_resc_modified a =
     (if at_type a = ATR_TYPE_RESC
      then a\<lparr>at_val := At_list (map (\<lambda>r. r\<lparr>rs_value := clear_modified (rs_value r)\<rparr>) (at_list (at_val a)))\<rparr> else a)"

text \<open>One round of the loop of \<open>attr_atomic_set\<close>: its status and the new array.\<close>

definition atomic_step :: "attribute_def list \<Rightarrow> int \<Rightarrow> nat \<Rightarrow> resource attribute list \<Rightarrow> svrattrl \<Rightarrow> resource attribute list \<Rightarrow> int \<times> resource attribute list" where
  "atomic_step pdef unkn privil old p new =
     (let found = find_attr pdef (al_name p) in
      if found < 0 \<and> unkn < 0 then (PBSE_NOATTR, new)
      else let index = nat (if found < 0 then unkn else found); d = pdef ! index;
               privil2 = (if al_flags p AND ATR_VFLAG_HOOK \<noteq> 0 then hook_privilege else privil);
               acc = ad_flags d AND ATR_DFLAG_ACCESS
           in if acc AND privil2 AND ATR_DFLAG_WRACC = 0 then if privil2 AND ATR_DFLAG_SvWR \<noteq> 0 then (0, new) else (PBSE_ATTRRO, new)
              else case ad_decode d privil2 (clear_attr d) (al_name p) (al_resc p) (Some (al_value p)) of (rc, temp) \<Rightarrow>
                if rc \<noteq> 0 then if rc = PBSE_UNKRESC \<and> unkn > 0 then (0, new) else (rc, new)
                else case (if is_set (old ! index) \<and> \<not> is_set (new ! index) then
                        case ad_set d (new ! index) (old ! index) batch_op_SET of (rc, n) \<Rightarrow>
                          (rc, if rc \<noteq> 0 then n else clear_resc_modified (clear_modified n))
                      else (0, new ! index)) of (rc, n) \<Rightarrow>
                  if rc \<noteq> 0 then (rc, new[index := n])
                  else let opn = (if al_op p \<noteq> batch_op_INCR \<and> al_op p \<noteq> batch_op_DECR \<and> al_op p \<noteq> batch_op_SET then batch_op_SET else al_op p)
                       in if is_set temp then case ad_set d n temp opn of (rc, n) \<Rightarrow> (rc, new[index := n])
                          else if at_flags temp AND ATR_VFLAG_MODIFY \<noteq> 0 then
                            let n = ad_free d n in (0, new[index := n\<lparr>at_flags := at_flags n OR (ATR_VFLAG_MODIFY OR ATR_VFLAG_MODCACHE)\<rparr>])
                          else (0, new[index := n]))"

fun atomic_loop :: "attribute_def list \<Rightarrow> int \<Rightarrow> nat \<Rightarrow> resource attribute list \<Rightarrow> svrattrl list \<Rightarrow> nat \<Rightarrow> resource attribute list \<Rightarrow>
    int \<times> nat \<times> resource attribute list" where
  "atomic_loop pdef unkn privil old [] listidx new = (0, listidx, new)"
| "atomic_loop pdef unkn privil old (p # ps) listidx new =
     (case atomic_step pdef unkn privil old p new of (rc, new) \<Rightarrow>
        if rc \<noteq> 0 then (rc, listidx, new) else atomic_loop pdef unkn privil old ps (listidx + 1) new)"

text \<open>The result is the status, \<open>*badattr\<close> when it is written, and the new array.\<close>

definition attr_atomic_set :: "svrattrl list \<Rightarrow> resource attribute list \<Rightarrow> attribute_def list \<Rightarrow> int \<Rightarrow> nat \<Rightarrow> int \<times> nat option \<times> resource attribute list" where
  "attr_atomic_set plist old pdef unkn privil =
     (case atomic_loop pdef unkn privil old plist 1 (map clear_attr pdef) of (rc, listidx, new) \<Rightarrow>
        if rc \<noteq> 0 then (rc, Some listidx, map2 ad_free pdef new) else (rc, None, new))"

definition attr_atomic_kill :: "resource attribute list \<Rightarrow> attribute_def list \<Rightarrow> resource attribute list" where
  "attr_atomic_kill temp pdef = map2 ad_free pdef temp"

definition copy_attr :: "attribute_def \<Rightarrow> resource attribute \<Rightarrow> resource attribute \<Rightarrow> resource attribute" where
  "copy_attr d to from =
     (let to = (if is_set to \<and> \<not> ad_set_is_null d then ad_free d to else to);
          to = (if \<not> ad_set_is_null d then clear_attr d else to)
      in if is_set from then (snd (ad_set d to from batch_op_SET))\<lparr>at_flags := at_flags from\<rparr> else to)"

definition attr_atomic_copy :: "resource attribute list \<Rightarrow> resource attribute list \<Rightarrow> attribute_def list \<Rightarrow> resource attribute list" where
  "attr_atomic_copy to from pdef = map2 (\<lambda>d (t, f). copy_attr d t f) pdef (zip to from)"

text \<open>
  The loop of \<open>send_job\<close>: the attributes the receiver may have, in the order of the definitions, with the
  operators that \<open>attrl_fixlink\<close> gives them.
\<close>

definition encode_attr :: "nat \<Rightarrow> int \<Rightarrow> attribute_def \<times> resource attribute \<Rightarrow> svrattrl list option \<Rightarrow> svrattrl list option" where
  "encode_attr access encode_type da attrl =
     (case da of (d, a) \<Rightarrow>
        if ad_flags d AND access \<noteq> 0 then fst (snd (ad_encode d access (Some a) attrl (ad_name d) None encode_type)) else attrl)"

definition encode_attrs :: "nat \<Rightarrow> int \<Rightarrow> attribute_def list \<Rightarrow> resource attribute list \<Rightarrow> svrattrl list" where
  "encode_attrs access encode_type pdef attrs = attrl_fixlink (the (fold (encode_attr access encode_type) (zip pdef attrs) (Some [])))"

text \<open>
  The loop of \<open>req_quejob\<close> (\<open>src/src/server/req_quejob.c\<close>, as compiled for the server) that decodes the attributes of a
  queue-job request into those of the new job: \<open>unkn\<close> and \<open>rsrc\<close> are the indices \<open>JOB_ATR_UNKN\<close> and
  \<open>JOB_ATR_resource\<close>, \<open>exec\<close> tells whether the queue is an execution queue, \<open>perm\<close> is \<open>resc_access_perm\<close> before
  the loop. The result is the status, the entry that \<open>reply_badattr\<close> reports, and the attributes. The flag \<open>set_project\<close>, which
  records that an entry named the project, is left out.
\<close>

abbreviation ATR_DFLAG_Creat :: nat where "ATR_DFLAG_Creat \<equiv> 0x80"

text \<open>User, operator, manager and server write, and create: what a hook may give a new job.\<close>

definition hook_create_perm :: nat where "hook_create_perm = 0x2AA"

definition quejob_step :: "attribute_def list \<Rightarrow> nat \<Rightarrow> nat \<Rightarrow> bool \<Rightarrow> nat \<Rightarrow> svrattrl \<Rightarrow> resource attribute list \<Rightarrow> int \<times> resource attribute list" where
  "quejob_step pdef unkn rsrc exec perm psatl wattr =
     (let found = find_attr pdef (al_name psatl); index = (if found < 0 then unkn else nat found); d = pdef ! index;
          perm = (if al_flags psatl AND ATR_VFLAG_HOOK \<noteq> 0 then hook_create_perm else perm)
      in if ad_flags d AND perm = 0 then (PBSE_ATTRRO, wattr)
         else case (if index = rsrc \<and> al_resc psatl \<noteq> None \<and> strcmp (the (al_resc psatl)) ''neednodes'' = 0 then (0, wattr ! index)
                    else ad_decode d perm (wattr ! index) (al_name psatl) (al_resc psatl) (Some (al_value psatl))) of
           (rc, a) \<Rightarrow> (if rc = PBSE_UNKRESC \<and> \<not> exec then 0 else rc, wattr[index := a]))"

fun quejob_attrs :: "attribute_def list \<Rightarrow> nat \<Rightarrow> nat \<Rightarrow> bool \<Rightarrow> nat \<Rightarrow> svrattrl list \<Rightarrow> resource attribute list \<Rightarrow>
    int \<times> svrattrl option \<times> resource attribute list" where
  "quejob_attrs pdef unkn rsrc exec perm [] wattr = (0, None, wattr)"
| "quejob_attrs pdef unkn rsrc exec perm (psatl # ps) wattr =
     (case quejob_step pdef unkn rsrc exec perm psatl wattr of (rc, wattr) \<Rightarrow>
        if rc \<noteq> 0 then (rc, Some psatl, wattr) else quejob_attrs pdef unkn rsrc exec perm ps wattr)"

text \<open>The permissions of a job on the move: what the sender encodes, and what the receiver lets another server write.\<close>

definition move_access :: nat where "move_access = 0x12A"
definition create_perm :: nat where "create_perm = 0x2A2"

section \<open>What the loop does on every input\<close>

lemma find_attr_bounds: "find_attr ds nm = - 1 \<or> 0 \<le> find_attr ds nm \<and> find_attr ds nm < int (length ds) \<and> strcasecmp (ad_name (ds ! nat (find_attr ds nm))) nm = 0"
  by (induction ds) (auto simp: Let_def nat_add_distrib)

text \<open>A round keeps the length of the array and changes at most the attribute the entry names, which the caller may write.\<close>

definition entry_privilege :: "nat \<Rightarrow> svrattrl \<Rightarrow> nat" where
  "entry_privilege privil p = (if al_flags p AND ATR_VFLAG_HOOK \<noteq> 0 then hook_privilege else privil)"

definition named_index :: "attribute_def list \<Rightarrow> int \<Rightarrow> svrattrl \<Rightarrow> nat" where
  "named_index pdef unkn p = nat (if find_attr pdef (al_name p) < 0 then unkn else find_attr pdef (al_name p))"

definition may_write :: "attribute_def list \<Rightarrow> int \<Rightarrow> nat \<Rightarrow> svrattrl \<Rightarrow> nat \<Rightarrow> bool" where
  "may_write pdef unkn privil p i \<longleftrightarrow> i = named_index pdef unkn p \<and> (find_attr pdef (al_name p) \<ge> 0 \<or> unkn \<ge> 0) \<and>
     (ad_flags (pdef ! i) AND ATR_DFLAG_ACCESS) AND entry_privilege privil p AND ATR_DFLAG_WRACC \<noteq> 0"

lemma atomic_step_frame:
  assumes "atomic_step pdef unkn privil old p new = (rc, new')" "\<not> may_write pdef unkn privil p i"
  shows "new' ! i = new ! i"
  using assms
  by (auto simp: atomic_step_def may_write_def named_index_def entry_privilege_def Let_def nth_list_update split: if_splits prod.splits)

lemma atomic_step_length: "atomic_step pdef unkn privil old p new = (rc, new') \<Longrightarrow> length new' = length new"
  by (auto simp: atomic_step_def Let_def split: if_splits prod.splits)

lemma atomic_loop_all:
  assumes "atomic_loop pdef unkn privil old ps idx new = (rc, idx', new')"
  shows "length new' = length new \<and> ((\<forall>p \<in> set ps. \<not> may_write pdef unkn privil p i) \<longrightarrow> new' ! i = new ! i) \<and>
    (if rc = 0 then idx' = idx + length ps else idx \<le> idx' \<and> idx' < idx + length ps)"
  using assms
proof (induction ps arbitrary: idx new)
  case (Cons p ps)
  obtain r m where st: "atomic_step pdef unkn privil old p new = (r, m)" by (cases "atomic_step pdef unkn privil old p new")
  then show ?case using Cons.IH [of "idx + 1" m] Cons.prems atomic_step_length [OF st] atomic_step_frame [OF st, of i]
    by (auto split: if_splits)
qed simp

lemmas atomic_loop_frame = atomic_loop_all [THEN conjunct1] atomic_loop_all [THEN conjunct2, THEN conjunct1, rule_format]
  atomic_loop_all [THEN conjunct2, THEN conjunct2]

lemma atomic_set_frame:
  assumes "attr_atomic_set plist old pdef unkn privil = (0, bad, new)" "i < length pdef" "\<forall>p \<in> set plist. \<not> may_write pdef unkn privil p i"
  shows "new ! i = clear_attr (pdef ! i)" "length new = length pdef" "bad = None"
proof -
  obtain k where l: "atomic_loop pdef unkn privil old plist 1 (map clear_attr pdef) = (0, k, new)" and "bad = None"
    using assms(1) by (auto simp: attr_atomic_set_def split: prod.splits if_splits)
  then show "bad = None" by simp
  show "length new = length pdef" using atomic_loop_frame(1) [OF l] by simp
  show "new ! i = clear_attr (pdef ! i)" using atomic_loop_frame(2) [OF l, of i] assms(2,3) by simp
qed

lemma atomic_set_error:
  assumes "attr_atomic_set plist old pdef unkn privil = (rc, bad, new)" "rc \<noteq> 0"
  shows "\<exists>k. bad = Some k \<and> 1 \<le> k \<and> k \<le> length plist" "length new = length pdef" "\<And>i. i < length pdef \<Longrightarrow> \<exists>a. new ! i = ad_free (pdef ! i) a"
proof -
  obtain r k m where l: "atomic_loop pdef unkn privil old plist 1 (map clear_attr pdef) = (r, k, m)"
    by (cases "atomic_loop pdef unkn privil old plist 1 (map clear_attr pdef)") auto
  then have e: "r = rc" "bad = Some k" "new = map2 ad_free pdef m" using assms by (auto simp: attr_atomic_set_def split: if_splits)
  have "length m = length pdef" using atomic_loop_frame(1) [OF l] by simp
  then show "length new = length pdef" "\<And>i. i < length pdef \<Longrightarrow> \<exists>a. new ! i = ad_free (pdef ! i) a" by (auto simp: e(3))
  show "\<exists>k. bad = Some k \<and> 1 \<le> k \<and> k \<le> length plist" using atomic_loop_frame(3) [OF l] assms(2) e(1,2) by simp
qed

text \<open>What arrives of an entry that is sent as an \<open>attropl\<close>.\<close>

lemma resent_fields [simp]:
  "al_name (attropl_svr (svr_attropl p)) = al_name p" "al_flags (attropl_svr (svr_attropl p)) = 0"
  "al_value (attropl_svr (svr_attropl p)) = al_value p" "al_resc (attropl_svr (svr_attropl p)) = al_resc p"
  by (simp_all add: attropl_svr_def svr_attropl_def mk_svrattrl_def)

section \<open>Tables whose types keep their contract\<close>

locale attr_table =
  fixes pdef :: "attribute_def list"
    and legal :: "nat \<Rightarrow> resource attr_val \<Rightarrow> bool"
    and same :: "nat \<Rightarrow> resource attr_val \<Rightarrow> resource attr_val \<Rightarrow> bool"
    and wf :: "nat \<Rightarrow> resource attr_val \<Rightarrow> bool"
    and modes :: "int set"
  assumes names: "i < length pdef \<Longrightarrow> j < length pdef \<Longrightarrow> strcasecmp (ad_name (pdef ! i)) (ad_name (pdef ! j)) = 0 \<Longrightarrow> i = j"
    and codec: "i < length pdef \<Longrightarrow>
      attr_codec (ad_decode (pdef ! i) perm) (ad_encode (pdef ! i) perm) (ad_set (pdef ! i)) (ad_free (pdef ! i)) (legal i) (same i) (wf i) modes"
    and cleared: "i < length pdef \<Longrightarrow> wf i (at_val (clear_attr (pdef ! i)))"
    and perm_free: "i < length pdef \<Longrightarrow> ad_decode (pdef ! i) perm = ad_decode (pdef ! i) perm'"
begin

lemma find_attr_self:
  assumes "i < length pdef"
  shows "find_attr pdef (ad_name (pdef ! i)) = int i"
proof -
  have "find_attr ds nm \<ge> 0" if "d \<in> set ds" "strcasecmp (ad_name d) nm = 0" for d ds nm
    using that by (induction ds) (auto simp: Let_def)
  then have "find_attr pdef (ad_name (pdef ! i)) \<ge> 0" using assms nth_mem [OF assms] by (metis strcasecmp_def strcmp_refl)
  then show ?thesis using find_attr_bounds [of pdef "ad_name (pdef ! i)"] names [of "nat (find_attr pdef (ad_name (pdef ! i)))" i] assms
    by (auto simp: nat_less_iff)
qed

text \<open>After an error no attribute of the new array is set.\<close>

lemma atomic_error_unset:
  assumes "attr_atomic_set plist old pdef unkn privil = (rc, bad, new)" "rc \<noteq> 0" "i < length pdef"
  shows "\<not> is_set (new ! i)"
  using atomic_set_error(3) [OF assms(1,2,3)] attr_codec.free_unset [OF codec [OF assms(3)]] by auto

text \<open>An entry that carries the value \<open>v\<close> for the attribute \<open>i\<close>.\<close>

definition carries :: "svrattrl \<Rightarrow> nat \<Rightarrow> resource attr_val \<Rightarrow> bool" where
  "carries p i v \<longleftrightarrow> i < length pdef \<and> al_name p = ad_name (pdef ! i) \<and> al_op p \<noteq> batch_op_INCR \<and> al_op p \<noteq> batch_op_DECR \<and>
     (\<forall>b perm nm rn. wf i (at_val b) \<longrightarrow> (\<exists>b'. ad_decode (pdef ! i) perm b nm rn (Some (al_value p)) = (0, b') \<and> is_set b' \<and>
        legal i (at_val b') \<and> wf i (at_val b') \<and> same i (at_val b') v))"

lemma atomic_step_carries:
  assumes "carries p i v" "may_write pdef unkn privil p i" "\<not> is_set (old ! i)" "new ! i = clear_attr (pdef ! i)" "i < length new"
  shows "\<exists>n. atomic_step pdef unkn privil old p new = (0, new[i := n]) \<and> is_set n \<and> same i (at_val n) v"
proof -
  have i: "i < length pdef" "find_attr pdef (al_name p) = int i" using assms(1) find_attr_self by (simp_all add: carries_def)
  obtain t where t: "ad_decode (pdef ! i) (entry_privilege privil p) (clear_attr (pdef ! i)) (al_name p) (al_resc p) (Some (al_value p)) = (0, t)"
    "is_set t" "legal i (at_val t)" "wf i (at_val t)" "same i (at_val t) v"
    using assms(1) cleared [OF i(1)] unfolding carries_def by blast
  obtain n where n: "ad_set (pdef ! i) (clear_attr (pdef ! i)) t batch_op_SET = (0, n)" "is_set n" "same i (at_val n) (at_val t)"
    using attr_codec.set_SET [OF codec [OF i(1)] t(2-4) cleared [OF i(1)]] by blast
  have "same i (at_val n) v" using attr_codec.same_trans [OF codec [OF i(1)] n(3) t(5)] .
  moreover have "al_op p \<noteq> batch_op_INCR" "al_op p \<noteq> batch_op_DECR" using assms(1) by (simp_all add: carries_def)
  moreover have "(ad_flags (pdef ! i) AND ATR_DFLAG_ACCESS) AND entry_privilege privil p AND ATR_DFLAG_WRACC \<noteq> 0"
    using assms(2) unfolding may_write_def by blast
  ultimately show ?thesis
    using t(1,2) n(1,2) i(2) assms(3,4) unfolding entry_privilege_def
    by (intro exI [of _ n]) (auto simp: atomic_step_def Let_def)
qed

lemma atomic_loop_carries:
  assumes "list_all2 (\<lambda>p (i, v). carries p i v \<and> may_write pdef unkn privil p i \<and> \<not> is_set (old ! i)) ps ivs" "distinct (map fst ivs)"
    "\<forall>i \<in> fst ` set ivs. new ! i = clear_attr (pdef ! i)" "length new = length pdef"
  shows "\<exists>idx' new'. atomic_loop pdef unkn privil old ps idx new = (0, idx', new') \<and> length new' = length pdef \<and>
    (\<forall>(i, v) \<in> set ivs. is_set (new' ! i) \<and> same i (at_val (new' ! i)) v) \<and> (\<forall>i. i \<notin> fst ` set ivs \<longrightarrow> new' ! i = new ! i)"
  using assms
proof (induction ps ivs arbitrary: idx new rule: list_all2_induct)
  case (Cons p ps iv ivs)
  obtain i v where iv: "iv = (i, v)" by (cases iv)
  have h: "carries p i v" "may_write pdef unkn privil p i" "\<not> is_set (old ! i)" using Cons.hyps(1) by (simp_all add: iv)
  have i: "i < length new" using h(1) Cons.prems(3) by (simp add: carries_def)
  obtain n where n: "atomic_step pdef unkn privil old p new = (0, new[i := n])" "is_set n" "same i (at_val n) v"
    using atomic_step_carries [OF h _ i] Cons.prems(2) iv by auto
  have ni: "i \<notin> fst ` set ivs" using Cons.prems(1) by (auto simp: iv)
  then have "\<forall>j \<in> fst ` set ivs. new[i := n] ! j = clear_attr (pdef ! j)" using Cons.prems(2) by (auto simp: nth_list_update) (metis fst_conv image_eqI nth_list_update_neq)
  then obtain idx' new' where r: "atomic_loop pdef unkn privil old ps (idx + 1) (new[i := n]) = (0, idx', new')" "length new' = length pdef"
    "\<forall>(i, v) \<in> set ivs. is_set (new' ! i) \<and> same i (at_val (new' ! i)) v" "\<forall>j. j \<notin> fst ` set ivs \<longrightarrow> new' ! j = new[i := n] ! j"
    using Cons.IH [of "new[i := n]" "idx + 1"] Cons.prems(1,3) by (auto simp: iv)
  have "new' ! i = n" using r(4) ni i by simp
  then show ?case using n r iv by (auto simp: nth_list_update)
qed simp

text \<open>What \<open>send_job\<close> sends: one entry for every attribute that is set and that the receiver may have.\<close>

definition sent_indices :: "nat \<Rightarrow> resource attribute list \<Rightarrow> nat list" where
  "sent_indices access attrs = filter (\<lambda>i. ad_flags (pdef ! i) AND access \<noteq> 0 \<and> is_set (attrs ! i)) [0..<length pdef]"

lemma encode_fold:
  assumes "\<forall>i < n. is_set (attrs ! i) \<longrightarrow> legal i (at_val (attrs ! i))" "mode \<in> modes" "n \<le> length pdef"
  shows "\<exists>ps. fold (\<lambda>i. encode_attr access mode (pdef ! i, attrs ! i)) [0..<n] (Some []) = Some ps \<and>
    list_all2 (\<lambda>p i. carries p i (at_val (attrs ! i)) \<and> c_string (al_value p) \<and> al_value p \<noteq> [] \<and> al_resc p = None)
      ps (filter (\<lambda>i. ad_flags (pdef ! i) AND access \<noteq> 0 \<and> is_set (attrs ! i)) [0..<n])"
  using assms(1,3)
proof (induction n)
  case (Suc n)
  let ?d = "pdef ! n" and ?a = "attrs ! n"
  let ?R = "\<lambda>p i. carries p i (at_val (attrs ! i)) \<and> c_string (al_value p) \<and> al_value p \<noteq> [] \<and> al_resc p = None"
  obtain ps where ps: "fold (\<lambda>i. encode_attr access mode (pdef ! i, attrs ! i)) [0..<n] (Some []) = Some ps"
    "list_all2 ?R ps (filter (\<lambda>i. ad_flags (pdef ! i) AND access \<noteq> 0 \<and> is_set (attrs ! i)) [0..<n])" using Suc by auto
  have n: "n < length pdef" using Suc.prems(2) by simp
  show ?case
  proof (cases "ad_flags ?d AND access \<noteq> 0 \<and> is_set ?a")
    case True
    have lg: "legal n (at_val ?a)" using Suc.prems(1) True by simp
    obtain p where p: "ad_encode ?d access (Some ?a) (Some ps) (ad_name ?d) None mode = (1, Some (ps @ [p]), Some p)"
      "entry_for ?a (ad_name ?d) None (al_value p) p" "c_string (al_value p)" "al_value p \<noteq> []"
      "\<forall>b nm' rn'. wf n (at_val b) \<longrightarrow> (\<exists>b'. ad_decode ?d access b nm' rn' (Some (al_value p)) = (0, b') \<and> is_set b' \<and>
         legal n (at_val b') \<and> wf n (at_val b') \<and> same n (at_val b') (at_val ?a))"
      using attr_codec.encode_legal [OF codec [OF n, of access] conjunct2 [OF True] lg assms(2), of "Some ps" "ad_name ?d" None] by auto
    have dec: "ad_decode ?d perm = ad_decode ?d access" for perm using perm_free [OF n] by blast
    have "\<exists>b'. ad_decode ?d perm b nm rn (Some (al_value p)) = (0, b') \<and> is_set b' \<and> legal n (at_val b') \<and> wf n (at_val b') \<and> same n (at_val b') (at_val ?a)"
      if "wf n (at_val b)" for b perm nm rn using p(5) that unfolding dec [of perm] by blast
    moreover have "al_name p = ad_name ?d" "al_op p = 0" "al_resc p = None" using p(2) by (simp_all add: entry_for_def batch_op_SET_def)
    ultimately have "?R p n" using p(3,4) n by (simp add: carries_def)
    moreover have "encode_attr access mode (?d, ?a) (Some ps) = Some (ps @ [p])" using p(1) True by (simp add: encode_attr_def)
    ultimately show ?thesis using ps True by (intro exI [of _ "ps @ [p]"]) (simp add: list_all2_appendI)
  next
    case False
    have "\<not> is_set ?a \<Longrightarrow> ad_encode ?d access (Some ?a) (Some ps) (ad_name ?d) None mode = (0, Some ps, None)"
      using attr_codec.encode_unset [OF codec [OF n]] by blast
    then have "encode_attr access mode (?d, ?a) (Some ps) = Some ps" using False by (auto simp: encode_attr_def)
    then show ?thesis using ps False by (intro exI [of _ ps]) auto
  qed
qed simp

lemma encode_attrs_carries:
  assumes "length attrs = length pdef" "\<forall>i < length pdef. is_set (attrs ! i) \<longrightarrow> legal i (at_val (attrs ! i))" "mode \<in> modes"
  shows "list_all2 (\<lambda>p i. carries p i (at_val (attrs ! i)) \<and> c_string (al_value p) \<and> al_value p \<noteq> [] \<and> al_resc p = None)
    (encode_attrs access mode pdef attrs) (sent_indices access attrs)"
proof -
  have "zip pdef attrs = map (\<lambda>i. (pdef ! i, attrs ! i)) [0..<length pdef]"
    using assms(1) by (intro nth_equalityI) simp_all
  then have "fold (encode_attr access mode) (zip pdef attrs) (Some []) = fold (\<lambda>i. encode_attr access mode (pdef ! i, attrs ! i)) [0..<length pdef] (Some [])"
    by (simp add: fold_map comp_def)
  moreover have "carries (p\<lparr>al_op := (if b then batch_op_DFLT else batch_op_SET)\<rparr>) i v" if "carries p i v" for p b i v
    using that by (simp add: carries_def batch_op_SET_def)
  ultimately show ?thesis
    using encode_fold [OF assms(2,3), of access]
    by (auto simp: encode_attrs_def sent_indices_def attrl_fixlink_def list_all2_map1 elim!: list.rel_mono_strong)
qed

text \<open>
  An array of attributes encoded by one server and set by another that may write them arrives whole:
  the attributes that were sent have their values, the others are not set.
\<close>

lemma carries_resent: "carries p i v \<Longrightarrow> carries (attropl_svr (svr_attropl p)) i v"
  by (simp add: carries_def attropl_svr_def svr_attropl_def mk_svrattrl_def)

text \<open>The same entries decoded into a new job: those of the receiver keep the contract too.\<close>

lemma quejob_step_carries:
  assumes "carries p i v" "al_flags p = 0" "al_resc p = None" "ad_flags (pdef ! i) AND perm \<noteq> 0" "wf i (at_val (w ! i))"
  shows "\<exists>n. quejob_step pdef unkn rsrc exec perm p w = (0, w[i := n]) \<and> is_set n \<and> same i (at_val n) v"
proof -
  have i: "i < length pdef" "al_name p = ad_name (pdef ! i)" using assms(1) by (simp_all add: carries_def)
  obtain n where "ad_decode (pdef ! i) perm (w ! i) (al_name p) (al_resc p) (Some (al_value p)) = (0, n)" "is_set n" "same i (at_val n) v"
    using assms(1) [unfolded carries_def] assms(5) by blast
  then show ?thesis
    using find_attr_self [OF i(1)] assms(2-4) by (intro exI [of _ n]) (simp add: quejob_step_def i(2))
qed

lemma quejob_attrs_carries:
  assumes "list_all2 (\<lambda>p (i, v). carries p i v \<and> al_flags p = 0 \<and> al_resc p = None \<and> ad_flags (pdef ! i) AND perm \<noteq> 0) ps ivs"
    "distinct (map fst ivs)" "\<forall>i \<in> fst ` set ivs. wf i (at_val (w ! i))" "length w = length pdef"
  shows "\<exists>new. quejob_attrs pdef unkn rsrc exec perm ps w = (0, None, new) \<and>
    (\<forall>(i, v) \<in> set ivs. is_set (new ! i) \<and> same i (at_val (new ! i)) v) \<and> (\<forall>i. i \<notin> fst ` set ivs \<longrightarrow> new ! i = w ! i)"
  using assms
proof (induction ps ivs arbitrary: w rule: list_all2_induct)
  case (Cons p ps iv ivs)
  obtain i v where iv: "iv = (i, v)" by (cases iv)
  have h: "carries p i v" "al_flags p = 0" "al_resc p = None" "ad_flags (pdef ! i) AND perm \<noteq> 0" using Cons.hyps(1) by (simp_all add: iv)
  have i: "i < length w" using h(1) Cons.prems(3) by (simp add: carries_def)
  obtain n where n: "quejob_step pdef unkn rsrc exec perm p w = (0, w[i := n])" "is_set n" "same i (at_val n) v"
    using quejob_step_carries [OF h, of w unkn rsrc exec] Cons.prems(2) iv by auto
  have ni: "i \<notin> fst ` set ivs" using Cons.prems(1) by (auto simp: iv)
  then have "w[i := n] ! j = w ! j" if "j \<in> fst ` set ivs" for j using that by (cases "i = j") simp_all
  then have "\<forall>j \<in> fst ` set ivs. wf j (at_val (w[i := n] ! j))" using Cons.prems(2) by simp
  then obtain new where r: "quejob_attrs pdef unkn rsrc exec perm ps (w[i := n]) = (0, None, new)"
    "\<forall>(i, v) \<in> set ivs. is_set (new ! i) \<and> same i (at_val (new ! i)) v" "\<forall>j. j \<notin> fst ` set ivs \<longrightarrow> new ! j = w[i := n] ! j"
    using Cons.IH [of "w[i := n]"] Cons.prems(1,3) by (auto simp: iv)
  have "new ! i = n" using r(3) ni i by simp
  then show ?case using n r iv by (auto simp: nth_list_update)
qed simp

lemma quejob_attrs_resent:
  assumes "length attrs = length pdef" "\<forall>i < length pdef. is_set (attrs ! i) \<longrightarrow> legal i (at_val (attrs ! i))" "mode \<in> modes"
    "length w = length pdef" "\<forall>i < length pdef. wf i (at_val (w ! i))"
    "\<forall>i < length pdef. ad_flags (pdef ! i) AND access \<noteq> 0 \<longrightarrow> ad_flags (pdef ! i) AND perm \<noteq> 0"
  shows "\<exists>new. quejob_attrs pdef unkn rsrc exec perm (map (attropl_svr \<circ> svr_attropl) (encode_attrs access mode pdef attrs)) w = (0, None, new) \<and>
    (\<forall>i < length pdef. if ad_flags (pdef ! i) AND access \<noteq> 0 \<and> is_set (attrs ! i)
       then is_set (new ! i) \<and> same i (at_val (new ! i)) (at_val (attrs ! i)) else new ! i = w ! i)"
proof -
  let ?ps = "encode_attrs access mode pdef attrs" and ?is = "sent_indices access attrs"
  let ?f = "attropl_svr \<circ> svr_attropl" and ?g = "\<lambda>i. (i, at_val (attrs ! i))"
  have sent: "i < length pdef" "ad_flags (pdef ! i) AND access \<noteq> 0" if "i \<in> set ?is" for i using that by (simp_all add: sent_indices_def)
  have "carries (?f p) i (at_val (attrs ! i)) \<and> al_flags (?f p) = 0 \<and> al_resc (?f p) = None \<and> ad_flags (pdef ! i) AND perm \<noteq> 0"
    if "carries p i (at_val (attrs ! i)) \<and> c_string (al_value p) \<and> al_value p \<noteq> [] \<and> al_resc p = None" "i \<in> set ?is" for p i
    using carries_resent that sent [OF that(2)] assms(6) by simp
  then have "list_all2 (\<lambda>p i. carries (?f p) i (at_val (attrs ! i)) \<and> al_flags (?f p) = 0 \<and> al_resc (?f p) = None \<and> ad_flags (pdef ! i) AND perm \<noteq> 0) ?ps ?is"
    using encode_attrs_carries [OF assms(1-3), of access] by (auto elim!: list.rel_mono_strong)
  then have r: "list_all2 (\<lambda>p (i, v). carries p i v \<and> al_flags p = 0 \<and> al_resc p = None \<and> ad_flags (pdef ! i) AND perm \<noteq> 0) (map ?f ?ps) (map ?g ?is)"
    by (simp add: list_all2_map1 list_all2_map2)
  have d: "distinct (map fst (map ?g ?is))" by (simp add: sent_indices_def comp_def)
  have w: "\<forall>i \<in> fst ` set (map ?g ?is). wf i (at_val (w ! i))" using sent(1) assms(5) by auto
  obtain new where n: "quejob_attrs pdef unkn rsrc exec perm (map ?f ?ps) w = (0, None, new)"
    "\<forall>(i, v) \<in> set (map ?g ?is). is_set (new ! i) \<and> same i (at_val (new ! i)) v"
    "\<forall>i. i \<notin> fst ` set (map ?g ?is) \<longrightarrow> new ! i = w ! i"
    using quejob_attrs_carries [OF r d w assms(4)] by blast
  have "if ad_flags (pdef ! i) AND access \<noteq> 0 \<and> is_set (attrs ! i) then is_set (new ! i) \<and> same i (at_val (new ! i)) (at_val (attrs ! i)) else new ! i = w ! i"
    if "i < length pdef" for i
    using n(2,3) that by (auto simp: sent_indices_def image_iff)
  then show ?thesis using n(1) by blast
qed

lemma atomic_set_resent:
  assumes "length attrs = length pdef" "\<forall>i < length pdef. is_set (attrs ! i) \<longrightarrow> legal i (at_val (attrs ! i))" "mode \<in> modes"
    "\<forall>i < length pdef. \<not> is_set (old ! i)"
    "\<forall>i < length pdef. ad_flags (pdef ! i) AND access \<noteq> 0 \<longrightarrow> (ad_flags (pdef ! i) AND ATR_DFLAG_ACCESS) AND privil AND ATR_DFLAG_WRACC \<noteq> 0"
  shows "\<exists>new. attr_atomic_set (map (attropl_svr \<circ> svr_attropl) (encode_attrs access mode pdef attrs)) old pdef unkn privil = (0, None, new) \<and>
    (\<forall>i < length pdef. if ad_flags (pdef ! i) AND access \<noteq> 0 \<and> is_set (attrs ! i)
       then is_set (new ! i) \<and> same i (at_val (new ! i)) (at_val (attrs ! i)) else \<not> is_set (new ! i))"
proof -
  let ?ps = "encode_attrs access mode pdef attrs" and ?is = "sent_indices access attrs"
  let ?f = "attropl_svr \<circ> svr_attropl" and ?g = "\<lambda>i. (i, at_val (attrs ! i))"
  have sent: "i < length pdef" "ad_flags (pdef ! i) AND access \<noteq> 0" if "i \<in> set ?is" for i using that by (simp_all add: sent_indices_def)
  have "carries (?f p) i (at_val (attrs ! i)) \<and> may_write pdef unkn privil (?f p) i \<and> \<not> is_set (old ! i)"
    if "carries p i (at_val (attrs ! i))" "i \<in> set ?is" for p i
  proof -
    have nm: "al_name p = ad_name (pdef ! i)" using that(1) by (simp add: carries_def)
    then have "named_index pdef unkn (?f p) = i" "find_attr pdef (al_name p) \<ge> 0" using find_attr_self [OF sent(1) [OF that(2)]] by (simp_all add: named_index_def)
    then show ?thesis using carries_resent [OF that(1)] sent [OF that(2)] assms(4,5) by (simp add: may_write_def entry_privilege_def)
  qed
  then have "list_all2 (\<lambda>p i. carries (?f p) i (at_val (attrs ! i)) \<and> may_write pdef unkn privil (?f p) i \<and> \<not> is_set (old ! i)) ?ps ?is"
    using encode_attrs_carries [OF assms(1-3), of access] by (auto elim!: list.rel_mono_strong)
  then have r: "list_all2 (\<lambda>p (i, v). carries p i v \<and> may_write pdef unkn privil p i \<and> \<not> is_set (old ! i)) (map ?f ?ps) (map ?g ?is)"
    by (simp add: list_all2_map1 list_all2_map2)
  have d: "distinct (map fst (map ?g ?is))" by (simp add: sent_indices_def comp_def)
  have c: "\<forall>i \<in> fst ` set (map ?g ?is). map clear_attr pdef ! i = clear_attr (pdef ! i)" using sent(1) by auto
  obtain idx new where n: "atomic_loop pdef unkn privil old (map ?f ?ps) 1 (map clear_attr pdef) = (0, idx, new)"
    "\<forall>(i, v) \<in> set (map ?g ?is). is_set (new ! i) \<and> same i (at_val (new ! i)) v"
    "\<forall>i. i \<notin> fst ` set (map ?g ?is) \<longrightarrow> new ! i = map clear_attr pdef ! i"
    using atomic_loop_carries [OF r d c, of 1] by auto
  have "\<not> is_set (clear_attr d)" for d by (simp add: clear_attr_def is_set_def)
  then have "if ad_flags (pdef ! i) AND access \<noteq> 0 \<and> is_set (attrs ! i) then is_set (new ! i) \<and> same i (at_val (new ! i)) (at_val (attrs ! i)) else \<not> is_set (new ! i)"
    if "i < length pdef" for i
    using n(2,3) that by (auto simp: sent_indices_def image_iff)
  then show ?thesis using n(1) by (simp add: attr_atomic_set_def)
qed

end

section \<open>Job attributes\<close>

text \<open>
  Entries of tables of attributes (\<open>job_attr_def\<close> and its kind, generated from \<open>src/src/lib/Libattr/master_job_attr_def.xml\<close> and
  its kind): a name, the functions of one of the types modelled, and flags. The properties hold for every table of such
  entries whose names differ; \<open>core_job_attr_def\<close> is one with the names and flags of some job attributes.
\<close>

definition simple_attr :: "string \<Rightarrow> (resource attribute \<Rightarrow> string \<Rightarrow> string option \<Rightarrow> string option \<Rightarrow> int \<times> resource attribute) \<Rightarrow>
    (resource attribute option \<Rightarrow> svrattrl list option \<Rightarrow> string \<Rightarrow> string option \<Rightarrow> int \<Rightarrow> encoded) \<Rightarrow>
    (resource attribute \<Rightarrow> resource attribute \<Rightarrow> uint \<Rightarrow> int \<times> resource attribute) \<Rightarrow> (resource attribute \<Rightarrow> resource attribute) \<Rightarrow>
    nat \<Rightarrow> nat \<Rightarrow> attribute_def" where
  "simple_attr nm dec enc st fr fl ty = \<lparr>ad_name = nm, ad_decode = (\<lambda>_. dec), ad_encode = (\<lambda>_. enc), ad_set = st, ad_set_is_null = False,
     ad_free = fr, ad_flags = fl, ad_type = ty\<rparr>"

datatype attr_kind = AK_c | AK_str | AK_hold | AK_arst | AK_l | AK_b | AK_time

fun kind_attr :: "attr_kind \<times> string \<times> nat \<Rightarrow> attribute_def" where
  "kind_attr (AK_c, nm, fl) = simple_attr nm decode_c (encode_c (\<lambda>_. True)) set_c free_null fl 2"
| "kind_attr (AK_str, nm, fl) = simple_attr nm (decode_str (\<lambda>_. True)) (encode_str (\<lambda>_. True)) (set_str (\<lambda>_. True)) free_str fl 3"
| "kind_attr (AK_hold, nm, fl) = simple_attr nm decode_hold (encode_hold (\<lambda>_. True)) set_b free_null fl 1"
| "kind_attr (AK_arst, nm, fl) = simple_attr nm (decode_arst (\<lambda>_. True)) (encode_arst (\<lambda>_. True)) (set_arst (\<lambda>_. True)) free_arst fl ATR_TYPE_ARST"
| "kind_attr (AK_l, nm, fl) = simple_attr nm decode_l (encode_l (\<lambda>_. True)) set_l free_null fl 1"
| "kind_attr (AK_b, nm, fl) = simple_attr nm decode_b (encode_b (\<lambda>_. True)) set_b free_null fl 11"
| "kind_attr (AK_time, nm, fl) = simple_attr nm (decode_time (\<lambda>_. True)) (encode_time (\<lambda>_. True)) set_l free_null fl 1"

fun kind_legal :: "attr_kind \<Rightarrow> resource attr_val \<Rightarrow> bool" where
  "kind_legal AK_c = legal_c" | "kind_legal AK_str = legal_str" | "kind_legal AK_hold = legal_hold" | "kind_legal AK_arst = legal_arst"
| "kind_legal AK_l = legal_l" | "kind_legal AK_b = legal_b" | "kind_legal AK_time = legal_time"

definition attr_defs :: "(attr_kind \<times> string \<times> nat) list \<Rightarrow> attribute_def list" where
  "attr_defs tbl = map kind_attr tbl"

definition attr_legal :: "(attr_kind \<times> string \<times> nat) list \<Rightarrow> nat \<Rightarrow> resource attr_val \<Rightarrow> bool" where
  "attr_legal tbl i = kind_legal (fst (tbl ! i))"

definition attr_same :: "(attr_kind \<times> string \<times> nat) list \<Rightarrow> nat \<Rightarrow> resource attr_val \<Rightarrow> resource attr_val \<Rightarrow> bool" where
  "attr_same tbl i = (if fst (tbl ! i) = AK_arst then same_arst else same_value)"

definition attr_wf :: "(attr_kind \<times> string \<times> nat) list \<Rightarrow> nat \<Rightarrow> resource attr_val \<Rightarrow> bool" where
  "attr_wf tbl i = (if fst (tbl ! i) = AK_arst then val_arst_ok else any_value)"

definition names_differ :: "attribute_def list \<Rightarrow> bool" where
  "names_differ pdef \<longleftrightarrow> distinct (map (\<lambda>d. map tolower (ad_name d)) pdef)"

lemma attr_codec_modes:
  assumes "attr_codec dec enc st fr L S W M" "M' \<subseteq> M"
  shows "attr_codec dec enc st fr L S W M'"
  using assms unfolding attr_codec_def by (auto dest: subsetD)

lemma attr_table_kinds:
  assumes "names_differ (attr_defs tbl)"
  shows "attr_table (attr_defs tbl) (attr_legal tbl) (attr_same tbl) (attr_wf tbl) (- {ATR_ENCODE_SAVE})"
proof (rule attr_table.intro)
  show "i = j" if "i < length (attr_defs tbl)" "j < length (attr_defs tbl)" "strcasecmp (ad_name (attr_defs tbl ! i)) (ad_name (attr_defs tbl ! j)) = 0" for i j
    using that assms nth_eq_iff_index_eq [of "map (\<lambda>d. map tolower (ad_name d)) (attr_defs tbl)" i j] by (simp add: strcasecmp_def names_differ_def)
  fix i perm perm' assume "i < length (attr_defs tbl)"
  moreover obtain k nm fl where "tbl ! i = (k, nm, fl)" by (cases "tbl ! i") auto
  ultimately have d: "attr_defs tbl ! i = kind_attr (k, nm, fl)" and k: "fst (tbl ! i) = k" by (simp_all add: attr_defs_def)
  note ax = b.attr_codec_axioms c.attr_codec_axioms l.attr_codec_axioms hold.attr_codec_axioms str.attr_codec_axioms time.attr_codec_axioms
  note ax' = ax [THEN attr_codec_modes, OF subset_UNIV] arst.attr_codec_axioms
  show "attr_codec (ad_decode (attr_defs tbl ! i) perm) (ad_encode (attr_defs tbl ! i) perm) (ad_set (attr_defs tbl ! i))
      (ad_free (attr_defs tbl ! i)) (attr_legal tbl i) (attr_same tbl i) (attr_wf tbl i) (- {ATR_ENCODE_SAVE})"
    unfolding d attr_legal_def attr_same_def attr_wf_def k by (cases k; simp add: simple_attr_def ax')
  show "attr_wf tbl i (at_val (clear_attr (attr_defs tbl ! i)))"
    by (simp add: attr_wf_def any_value_def val_arst_ok_def clear_attr_def)
  show "ad_decode (attr_defs tbl ! i) perm = ad_decode (attr_defs tbl ! i) perm'"
    unfolding d by (cases k; simp add: simple_attr_def)
qed

definition core_job_kinds :: "(attr_kind \<times> string \<times> nat) list" where
  "core_job_kinds =
    [(AK_c, ''job_state'', 0x215), (AK_str, ''Account_Name'', 0x4243F), (AK_hold, ''Hold_Types'', 0x283F), (AK_arst, ''Mail_Users'', 0x283F),
     (AK_l, ''Priority'', 0x83F), (AK_b, ''Rerunable'', 0x283F), (AK_time, ''eligible_time'', 0xB3D)]"

definition core_job_attr_def :: "attribute_def list" where
  "core_job_attr_def = attr_defs core_job_kinds"

lemmas core_job_simps = core_job_attr_def_def attr_defs_def core_job_kinds_def simple_attr_def

lemma core_job_names: "names_differ core_job_attr_def"
  by (simp add: names_differ_def core_job_simps tolower_def uchar_def)

interpretation job: attr_table core_job_attr_def "attr_legal core_job_kinds" "attr_same core_job_kinds" "attr_wf core_job_kinds" "- {ATR_ENCODE_SAVE}"
  unfolding core_job_attr_def_def by (rule attr_table_kinds [OF core_job_names [unfolded core_job_attr_def_def]])

section \<open>Resource lists of jobs\<close>

text \<open>
  The entry of an attribute that is a resource list. The loop of \<open>req_quejob\<close> decodes the entries of one list into the same
  attribute, one after the other.
\<close>

definition resc_attr :: "resource_def list \<Rightarrow> string \<Rightarrow> nat \<Rightarrow> attribute_def" where
  "resc_attr defs nm fl = \<lparr>ad_name = nm,
     ad_decode = (\<lambda>perm patr name rescn val. case decode_resc (\<lambda>_. True) defs perm (Some patr) name rescn val of (rc, b) \<Rightarrow> (rc, the b)),
     ad_encode = encode_resc (\<lambda>_. True) defs, ad_set = (\<lambda>old new. set_resc (\<lambda>_. True) defs old new), ad_set_is_null = False,
     ad_free = free_resc, ad_flags = fl, ad_type = ATR_TYPE_RESC\<rparr>"

lemma quejob_attrs_resc:
  assumes "find_attr pdef nm = int i" "i < length pdef" "pdef ! i = resc_attr defs nm' fl" "fl AND perm \<noteq> 0" "length w = length pdef"
    "\<forall>p \<in> set ps. al_name p = nm \<and> al_flags p = 0 \<and> (i = rsrc \<longrightarrow> al_resc p \<noteq> Some ''neednodes'')"
    "decode_entries (\<lambda>_. True) defs perm ps (w ! i) = (0, b)"
  shows "quejob_attrs pdef unkn rsrc exec perm ps w = (0, None, w[i := b])"
  using assms(5-7)
proof (induction ps arbitrary: w)
  case (Cons p ps)
  obtain rc c where d: "decode_resc (\<lambda>_. True) defs perm (Some (w ! i)) (al_name p) (al_resc p) (Some (al_value p)) = (rc, c)"
    by (cases "decode_resc (\<lambda>_. True) defs perm (Some (w ! i)) (al_name p) (al_resc p) (Some (al_value p))")
  then have c: "rc = 0" "decode_entries (\<lambda>_. True) defs perm ps (the c) = (0, b)" using Cons.prems(3) by (simp_all split: if_splits)
  have "quejob_step pdef unkn rsrc exec perm p w = (0, w[i := the c])"
    using assms(1-4) Cons.prems(1,2) d c(1) by (auto simp: quejob_step_def resc_attr_def)
  then show ?case using Cons.IH [of "w[i := the c]"] Cons.prems(1,2) c(2) assms(2) by simp
next
  case (Nil w)
  then show ?case using list_update_id [of w i] by simp
qed

end
