(* ===== verification/Attr_Acl.thy ===== *)
theory Attr_Acl
  imports Attr_Arst "HOL-Library.List_Lexorder"
begin

unbundle bit_operations_syntax

text \<open>
  Access control lists (\<open>src/src/lib/Libattr/attr_fn_acl.c\<close>): which hosts, users and groups may use a server or a queue.
  A list is an array of strings kept in a special order; an entry starts with \<open>+\<close> (allow), \<open>-\<close> (deny) or
  neither (allow), and the first entry that matches a name decides. Host names are compared from the end, so that
  \<open>*.example.com\<close> stands for all hosts of a domain.

  Parameters stand for the host the server runs on and for the groups of a user, which the code asks the
  operating system for. The strings are read backwards by the code; the loops here run over the reversed strings,
  a pointer that stands at the start of a string being a list of one character.
\<close>

section \<open>Comparing names\<close>

definition signed_entry :: "string \<Rightarrow> bool" where
  "signed_entry s \<longleftrightarrow> s \<noteq> [] \<and> (hd s = CHR ''+'' \<or> hd s = CHR ''-'')"

definition bare :: "string \<Rightarrow> string" where
  "bare s = (if signed_entry s then tl s else s)"

fun hacl_loop :: "string \<Rightarrow> string \<Rightarrow> int" where
  "hacl_loop (c # c' # cs) (m # m' # ms) = (if tolower c \<noteq> tolower m then 1 else hacl_loop (c' # cs) (m' # ms))"
| "hacl_loop pc [m] = (if m = CHR ''*'' then 0 else if length pc = 1 \<and> tolower (hd pc) = tolower m then 0 else 1)"
| "hacl_loop pc pm = 1"

definition hacl_match :: "string \<Rightarrow> string \<Rightarrow> int" where
  "hacl_match can master = hacl_loop (rev can) (rev master)"

text \<open>An empty name is never compared with an empty entry: the code would read past both.\<close>

fun user_match :: "string \<Rightarrow> string \<Rightarrow> int" where
  "user_match [] ms = 1"
| "user_match cs [] = 1"
| "user_match (c # cs) (m # ms) =
     (if m \<noteq> c then 1
      else if ms = [] then if cs = [] \<or> hd cs = CHR ''@'' then 0 else 1
      else if hd ms = CHR ''@'' then if cs = [] \<or> hd cs \<noteq> CHR ''@'' then 1 else hacl_match (tl cs) (tl ms)
      else user_match cs ms)"

definition gacl_match :: "(string \<Rightarrow> string list option) \<Rightarrow> string \<Rightarrow> string \<Rightarrow> int" where
  "gacl_match groups can master = (case groups can of None \<Rightarrow> 1 | Some gs \<Rightarrow> if master \<in> set gs then 0 else 1)"

fun host_loop :: "string \<Rightarrow> string \<Rightarrow> int" where
  "host_loop (a # a' # as) (b # b' # bs) = (if schar b \<noteq> schar a then schar b - schar a else host_loop (a' # as) (b' # bs))"
| "host_loop [a] [b] = (if a = CHR ''*'' then 1 else if b = CHR ''*'' then - 1 else schar b - schar a)"
| "host_loop [a] bs = 1"
| "host_loop as bs = - 1"

definition host_order :: "string \<Rightarrow> string \<Rightarrow> int" where
  "host_order s1 s2 = host_loop (rev (bare s1)) (rev (bare s2))"

text \<open>
  Two equal names without a host part are followed into the bytes after their terminators, which depend on where
  the two entries stand: \<open>past s1 s2\<close> stands for what the comparison of those bytes gives. Setting a list compares an
  entry of it and a new entry at most once, so that any outcome is that of some function \<open>past\<close>.
\<close>

fun user_loop :: "int \<Rightarrow> string \<Rightarrow> string \<Rightarrow> int" where
  "user_loop past [] [] = past"
| "user_loop past [] (b # bs) = - schar b"
| "user_loop past (a # as) [] = schar a"
| "user_loop past (a # as) (b # bs) =
     (if schar a \<noteq> schar b then schar a - schar b else if a = CHR ''@'' then host_order as bs else user_loop past as bs)"

definition user_order :: "(string \<Rightarrow> string \<Rightarrow> int) \<Rightarrow> string \<Rightarrow> string \<Rightarrow> int" where
  "user_order past s1 s2 = user_loop (past s1 s2) (bare s1) (bare s2)"

definition group_order :: "string \<Rightarrow> string \<Rightarrow> int" where
  "group_order s1 s2 = strcmp (bare s1) (bare s2)"

section \<open>Checking a name\<close>

text \<open>The types of lists; a number that is none of the three is \<open>ACL_Other\<close>.\<close>

datatype acl_type = ACL_Host | ACL_User | ACL_Group | ACL_Other

fun acl_loop :: "(string \<Rightarrow> string \<Rightarrow> int) \<Rightarrow> string \<Rightarrow> string list \<Rightarrow> int \<Rightarrow> int" where
  "acl_loop match_func name [] default_rtn = default_rtn"
| "acl_loop match_func name (s # ss) default_rtn =
     (let default_rtn = (if signed_entry s \<and> tl s = [] then if hd s = CHR ''+'' then 1 else 0 else default_rtn)
      in if match_func name (bare s) = 0 then if s \<noteq> [] \<and> hd s = CHR ''-'' then 0 else 1
         else acl_loop match_func name ss default_rtn)"

definition acl_match :: "(string \<Rightarrow> string list option) \<Rightarrow> acl_type \<Rightarrow> string \<Rightarrow> string \<Rightarrow> int" where
  "acl_match groups type = (case type of ACL_Host \<Rightarrow> hacl_match | ACL_User \<Rightarrow> user_match | ACL_Group \<Rightarrow> gacl_match groups | _ \<Rightarrow> strcmp)"

text \<open>The default of the build, without \<open>HOST_ACL_DEFAULT_ALL\<close>.\<close>

definition acl_check :: "string \<Rightarrow> (string \<Rightarrow> string list option) \<Rightarrow> 'r attribute \<Rightarrow> string option \<Rightarrow> acl_type \<Rightarrow> int" where
  "acl_check server_host groups pattr name type =
     (case name of None \<Rightarrow> 0
      | Some name \<Rightarrow>
        (case at_arst (at_val pattr) of
           Some pas \<Rightarrow>
             if \<not> is_set pattr \<or> as_usedptr pas = 0
             then if type = ACL_Host then if hacl_match name server_host = 0 then 1 else 0 else 0
             else acl_loop (acl_match groups type) name (as_strs pas) 0
         | None \<Rightarrow> if type = ACL_Host then if hacl_match name server_host = 0 then 1 else 0 else 0))"

section \<open>Setting a list\<close>

abbreviation PBSE_DUPLIST :: int where "PBSE_DUPLIST \<equiv> 15055"

definition chk_dup_acl :: "array_strings \<Rightarrow> array_strings \<Rightarrow> int" where
  "chk_dup_acl old new =
     (if \<exists>i < as_usedptr new. (\<exists>j < as_usedptr new. i \<noteq> j \<and> strcmp (as_strs new ! i) (as_strs new ! j) = 0) \<or>
           (\<exists>j < as_usedptr old. strcmp (as_strs new ! i) (as_strs old ! j) = 0) then 1 else 0)"

text \<open>The loop that finds the place of a string, and the one that moves the data after it up.\<close>

fun acl_place :: "(string \<Rightarrow> string \<Rightarrow> int) \<Rightarrow> string \<Rightarrow> string list \<Rightarrow> nat" where
  "acl_place order s [] = 0"
| "acl_place order s (t # ts) = (if order t s > 0 then 0 else Suc (acl_place order s ts))"

definition shift_up :: "nat \<Rightarrow> nat \<Rightarrow> nat \<Rightarrow> char list \<Rightarrow> char list" where
  "shift_up place nxt offset b = take (place + offset) b @ take (nxt - place) (drop place b) @ drop (nxt + offset) b"

definition insert_str :: "(string \<Rightarrow> string \<Rightarrow> int) \<Rightarrow> string \<Rightarrow> array_strings \<Rightarrow> array_strings" where
  "insert_str order s pas =
     (let j = acl_place order s (as_strs pas); offset = strlen s + 1;
          place = (if j < as_usedptr pas then as_string pas ! j else as_next pas);
          b = (if j < as_usedptr pas then shift_up place (as_next pas) offset (as_bytes pas) else as_bytes pas)
      in pas\<lparr>as_buf := Some (put_str b place s),
             as_string := take j (as_string pas) @ place # map (\<lambda>k. k + offset) (drop j (as_string pas)),
             as_next := as_next pas + offset\<rparr>)"

definition acl_incr :: "(nat \<Rightarrow> bool) \<Rightarrow> (string \<Rightarrow> string \<Rightarrow> int) \<Rightarrow> 'r attribute \<Rightarrow> array_strings \<Rightarrow> array_strings \<Rightarrow> int \<times> 'r attribute" where
  "acl_incr mal order attr x p =
     (if chk_dup_acl p x \<noteq> 0 then (PBSE_DUPLIST, attr\<lparr>at_val := At_arst (Some p)\<rparr>)
      else case grow_arst mal p x of (rc, p) \<Rightarrow>
        if rc \<noteq> 0 then (rc, attr\<lparr>at_val := At_arst (Some p)\<rparr>)
        else (0, mark_set (attr\<lparr>at_val := At_arst (Some (fold (insert_str order) (as_strs x) p))\<rparr>)))"

definition set_allacl :: "(nat \<Rightarrow> bool) \<Rightarrow> (string \<Rightarrow> string \<Rightarrow> int) \<Rightarrow> 'r attribute \<Rightarrow> 'r attribute \<Rightarrow> uint \<Rightarrow> int \<times> 'r attribute" where
  "set_allacl mal order attr new opn =
     (case at_arst (at_val new) of None \<Rightarrow> (PBSE_INTERNAL, attr)
      | Some x \<Rightarrow>
        if at_arst (at_val attr) = None \<and> \<not> mal ((as_npointers x - 1) * 8 + sizeof_array_strings) then (PBSE_SYSTEM, attr)
        else let pas = (case at_arst (at_val attr) of None \<Rightarrow> new_arst (as_npointers x) | Some p \<Rightarrow> p);
                 put = (\<lambda>p. attr\<lparr>at_val := At_arst (Some p)\<rparr>)
             in if opn = batch_op_SET then
                  if as_usedptr x = 0 then (0, mark_set (put (pas\<lparr>as_string := [], as_next := 0\<rparr>)))
                  else case empty_arst mal pas x of (rc, p) \<Rightarrow> if rc \<noteq> 0 then (rc, put p) else acl_incr mal order attr x p
                else if opn = batch_op_INCR then acl_incr mal order attr x pas
                else if opn = batch_op_DECR then (0, mark_set (put (fold remove_str (as_strs x) pas)))
                else (PBSE_INTERNAL, put pas))"

definition set_uacl :: "(nat \<Rightarrow> bool) \<Rightarrow> (string \<Rightarrow> string \<Rightarrow> int) \<Rightarrow> 'r attribute \<Rightarrow> 'r attribute \<Rightarrow> uint \<Rightarrow> int \<times> 'r attribute" where
  "set_uacl mal past = set_allacl mal (user_order past)"

definition set_gacl :: "(nat \<Rightarrow> bool) \<Rightarrow> 'r attribute \<Rightarrow> 'r attribute \<Rightarrow> uint \<Rightarrow> int \<times> 'r attribute" where
  "set_gacl mal = set_allacl mal group_order"

definition set_hostacl :: "(nat \<Rightarrow> bool) \<Rightarrow> 'r attribute \<Rightarrow> 'r attribute \<Rightarrow> uint \<Rightarrow> int \<times> 'r attribute" where
  "set_hostacl mal = set_allacl mal host_order"

section \<open>The packed buffer holds the sorted list\<close>

definition acl_insert :: "(string \<Rightarrow> string \<Rightarrow> int) \<Rightarrow> string \<Rightarrow> string list \<Rightarrow> string list" where
  "acl_insert order s ss = takeWhile (\<lambda>t. \<not> order t s > 0) ss @ s # dropWhile (\<lambda>t. \<not> order t s > 0) ss"

lemma set_acl_insert: "set (acl_insert order s ss) = insert s (set ss)"
proof -
  have "set (takeWhile P ss) \<union> set (dropWhile P ss) = set ss" for P by (metis set_append takeWhile_dropWhile_id)
  then show ?thesis by (simp add: acl_insert_def)
qed

lemma acl_place_eq: "acl_place order s ss = length (takeWhile (\<lambda>t. \<not> order t s > 0) ss)"
  by (induction ss) auto

lemma insert_str_rep:
  assumes "arst_rep p ss" "c_string s" "as_next p + length s + 1 \<le> as_bufsize p" "length ss < as_npointers p"
  shows "arst_rep (insert_str order s p) (acl_insert order s ss)" "as_bufsize (insert_str order s p) = as_bufsize p"
    "as_npointers (insert_str order s p) = as_npointers p" "as_next (insert_str order s p) = as_next p + length s + 1"
proof -
  define pre post where "pre = takeWhile (\<lambda>t. \<not> order t s > 0) ss" and "post = dropWhile (\<lambda>t. \<not> order t s > 0) ss"
  have sp: "ss = pre @ post" by (simp add: pre_def post_def)
  obtain r where r: "as_bytes p = strs_image pre @ strs_image post @ r" using assms(1) by (auto simp: arst_rep_def sp)
  have nx: "as_next p = length (strs_image pre) + length (strs_image post)" using assms(1) by (simp add: arst_rep_def sp)
  have len: "length r \<ge> length s + 1" using assms(3) by (simp add: as_bufsize_def r nx)
  have os: "as_string p = strs_offs 0 pre @ strs_offs (length (strs_image pre)) post" using assms(1) by (simp add: arst_rep_def sp strs_offs_append)
  have j: "acl_place order s (as_strs p) = length pre" by (simp add: acl_place_eq arst_rep_strs [OF assms(1)] pre_def)
  have place: "(if length pre < as_usedptr p then as_string p ! length pre else as_next p) = length (strs_image pre)"
    by (cases post) (simp_all add: as_usedptr_def os nth_append nx)
  have sl: "strlen s = length s" using assms(2) by simp
  let ?b = "if length pre < as_usedptr p then shift_up (length (strs_image pre)) (as_next p) (length s + 1) (as_bytes p) else as_bytes p"
  have b: "put_str ?b (length (strs_image pre)) s = strs_image pre @ s @ NUL # strs_image post @ drop (length s + 1) r"
  proof (cases post)
    case Nil
    then show ?thesis by (simp add: as_usedptr_def os put_str_def r)
  next
    case (Cons q qs)
    have "shift_up (length (strs_image pre)) (as_next p) (length s + 1) (as_bytes p) =
        take (length (strs_image pre) + (length s + 1)) (as_bytes p) @ strs_image post @ drop (length s + 1) r"
      by (simp add: shift_up_def r nx)
    moreover have "length (take (length (strs_image pre) + (length s + 1)) (as_bytes p)) = length (strs_image pre) + (length s + 1)" using len by (simp add: r)
    moreover have "take (length (strs_image pre)) (take (length (strs_image pre) + (length s + 1)) (as_bytes p)) = strs_image pre" by (simp add: r)
    ultimately show ?thesis by (simp add: Cons as_usedptr_def os put_str_def)
  qed
  have d: "insert_str order s p = p\<lparr>as_buf := Some (put_str ?b (length (strs_image pre)) s),
      as_string := take (length pre) (as_string p) @ length (strs_image pre) # map (\<lambda>k. k + (length s + 1)) (drop (length pre) (as_string p)),
      as_next := as_next p + (length s + 1)\<rparr>"
    unfolding insert_str_def Let_def j place sl ..
  have q: "as_bytes (insert_str order s p) = strs_image (pre @ s # post) @ drop (length s + 1) r"
    "as_string (insert_str order s p) = strs_offs 0 (pre @ s # post)"
    "as_next (insert_str order s p) = as_next p + length s + 1"
    "as_npointers (insert_str order s p) = as_npointers p" "as_buf (insert_str order s p) \<noteq> None"
  proof -
    show "as_bytes (insert_str order s p) = strs_image (pre @ s # post) @ drop (length s + 1) r"
      unfolding d b by (simp add: as_bytes_def)
    have "strs_offs (length (strs_image pre) + (length s + 1)) post = map (\<lambda>k. k + (length s + 1)) (strs_offs (length (strs_image pre)) post)"
      by (rule strs_offs_shift)
    then show "as_string (insert_str order s p) = strs_offs 0 (pre @ s # post)"
      by (simp add: d os strs_offs_append)
  qed (simp_all add: d)
  have "acl_insert order s ss = pre @ s # post" by (simp add: acl_insert_def pre_def post_def)
  then show "arst_rep (insert_str order s p) (acl_insert order s ss)"
    using q assms(1,2,4) nx by (auto simp: arst_rep_def sp)
  show "as_bufsize (insert_str order s p) = as_bufsize p" using len by (simp add: as_bufsize_def q(1) r)
qed (use assms(2) in \<open>simp_all add: insert_str_def Let_def\<close>)

lemma insert_strs_rep:
  assumes "arst_rep p ss" "\<forall>s \<in> set ts. c_string s" "as_next p + length (strs_image ts) \<le> as_bufsize p" "length ss + length ts \<le> as_npointers p"
  shows "arst_rep (fold (insert_str order) ts p) (fold (acl_insert order) ts ss)"
  using assms
proof (induction ts arbitrary: p ss)
  case (Cons t ts)
  have a: "arst_rep (insert_str order t p) (acl_insert order t ss)" "as_bufsize (insert_str order t p) = as_bufsize p"
    "as_npointers (insert_str order t p) = as_npointers p" "as_next (insert_str order t p) = as_next p + length t + 1"
    using insert_str_rep [of p ss t order] Cons.prems by simp_all
  have "length (acl_insert order t ss) = Suc (length ss)"
    unfolding acl_insert_def by (metis length_append length_Cons add_Suc_right takeWhile_dropWhile_id)
  then show ?case using Cons.IH [OF a(1)] a(2-4) Cons.prems by simp
qed simp

lemma chk_dup_iff: "chk_dup_acl old new = (if distinct (as_strs new) \<and> set (as_strs new) \<inter> set (as_strs old) = {} then 0 else 1)"
proof -
  have l: "as_usedptr p = length (as_strs p)" for p by (simp add: as_usedptr_def as_strs_def)
  have "(\<exists>i < length ns. (\<exists>j < length ns. i \<noteq> j \<and> ns ! i = ns ! j) \<or> (\<exists>j < length os. ns ! i = os ! j)) \<longleftrightarrow>
      \<not> (distinct ns \<and> set ns \<inter> set os = {})" for ns os :: "string list"
    unfolding distinct_conv_nth by (auto simp: set_conv_nth)
  then show ?thesis by (simp add: chk_dup_acl_def l)
qed

definition acl_dups :: "uint \<Rightarrow> string list \<Rightarrow> string list \<Rightarrow> bool" where
  "acl_dups opn old new \<longleftrightarrow> opn \<noteq> batch_op_DECR \<and> \<not> (distinct new \<and> (opn = batch_op_SET \<or> set new \<inter> set old = {}))"

definition acl_op :: "(string \<Rightarrow> string \<Rightarrow> int) \<Rightarrow> uint \<Rightarrow> string list \<Rightarrow> string list \<Rightarrow> string list" where
  "acl_op order opn old new =
     (if opn = batch_op_SET then fold (acl_insert order) new [] else if opn = batch_op_INCR then fold (acl_insert order) new old
      else fold remove1 new old)"

lemma acl_incr_spec:
  assumes "arst_rep p ss" "arst_rep x xs"
  shows "case acl_incr mal order attr x p of (rc, a) \<Rightarrow> arst_ok a \<and>
    (distinct xs \<and> set xs \<inter> set ss = {} \<longrightarrow> rc = 0 \<or> rc = PBSE_SYSTEM \<and> \<not> (\<forall>n. mal n)) \<and>
    (\<not> (distinct xs \<and> set xs \<inter> set ss = {}) \<longrightarrow> rc = PBSE_DUPLIST) \<and> (rc = 0 \<longrightarrow> is_set a) \<and>
    arst_list a = (if rc = 0 then fold (acl_insert order) xs ss else ss)"
proof (cases "distinct xs \<and> set xs \<inter> set ss = {}")
  case False
  then have "chk_dup_acl p x = 1" by (auto simp: chk_dup_iff arst_rep_strs [OF assms(1)] arst_rep_strs [OF assms(2)])
  then show ?thesis using assms(1) False by (auto simp: acl_incr_def arst_okI)
next
  case True
  obtain rc q where g: "grow_arst mal p x = (rc, q)" by (cases "grow_arst mal p x")
  then have q: "arst_rep q ss" "rc = 0 \<or> rc = PBSE_SYSTEM \<and> \<not> (\<forall>n. mal n)"
    "rc = 0 \<Longrightarrow> as_next q + length (strs_image xs) \<le> as_bufsize q \<and> length ss + length xs \<le> as_npointers q"
    using grow_arst_rep [OF assms, of mal] by auto
  have "\<forall>s \<in> set xs. c_string s" using assms(2) by (simp add: arst_rep_def)
  then have "rc = 0 \<Longrightarrow> arst_rep (fold (insert_str order) xs q) (fold (acl_insert order) xs ss)" using insert_strs_rep [OF q(1)] q(3) by blast
  then show ?thesis using g q(1,2) True arst_rep_strs [OF assms(2)] arst_rep_strs [OF assms(1)]
    by (auto simp: acl_incr_def chk_dup_iff arst_okI)
qed

text \<open>
  \<open>set_allacl\<close> on every path. Duplicates are refused; otherwise, unless memory runs out, the attribute holds the
  strings inserted in order, or the strings that remain. After an error \<open>INCR\<close> leaves the old list, and \<open>SET\<close> no strings: when
  memory ran out maybe without a buffer, from where it takes another \<open>SET\<close> to get a list again.
\<close>

definition acl_outcome :: "(nat \<Rightarrow> bool) \<Rightarrow> (string \<Rightarrow> string \<Rightarrow> int) \<Rightarrow> uint \<Rightarrow> 'r attribute \<Rightarrow> 'r attribute \<Rightarrow> int \<times> 'r attribute \<Rightarrow> bool" where
  "acl_outcome mal order opn attr new r \<longleftrightarrow>
     (fst r = 0 \<or> fst r = PBSE_SYSTEM \<and> \<not> (\<forall>n. mal n) \<or> fst r = PBSE_DUPLIST \<and> acl_dups opn (arst_list attr) (arst_list new)) \<and>
     (arst_ok (snd r) \<or> fst r = PBSE_SYSTEM \<and> opn = batch_op_SET \<and> arst_emptied (snd r)) \<and>
     (if fst r = 0 then is_set (snd r) \<and> \<not> acl_dups opn (arst_list attr) (arst_list new) \<and> arst_list (snd r) = acl_op order opn (arst_list attr) (arst_list new)
      else arst_list (snd r) = (if opn = batch_op_SET then [] else arst_list attr))"

lemma set_allacl_spec:
  assumes "arst_ok attr \<or> arst_emptied attr \<and> opn = batch_op_SET" "arst_ok new" "at_arst (at_val new) = Some x"
    "opn \<in> {batch_op_SET, batch_op_INCR, batch_op_DECR}"
  shows "acl_outcome mal order opn attr new (set_allacl mal order attr new opn)"
proof (cases "at_arst (at_val attr) = None \<and> \<not> mal ((as_npointers x - 1) * 8 + sizeof_array_strings)")
  case True
  then show ?thesis using assms by (auto simp: acl_outcome_def set_allacl_def PBSE_SYSTEM_def arst_ok_def arst_list_def)
next
  case False
  define p where "p = (case at_arst (at_val attr) of None \<Rightarrow> new_arst (as_npointers x) | Some p \<Rightarrow> p)"
  have x: "arst_rep x (arst_list new)" using assms(2,3) by (simp add: arst_ok_def arst_list_def)
  have p: "arst_rep p (arst_list attr) \<or> as_buf p = None \<and> opn = batch_op_SET"
    using assms(1) new_arst_rep by (auto simp: p_def arst_ok_def arst_emptied_def arst_list_def split: option.splits)
  have r: "set_allacl mal order attr new opn =
     (if opn = batch_op_SET then
        if as_usedptr x = 0 then (0, mark_set (attr\<lparr>at_val := At_arst (Some (p\<lparr>as_string := [], as_next := 0\<rparr>))\<rparr>))
        else case empty_arst mal p x of (rc, q) \<Rightarrow> if rc \<noteq> 0 then (rc, attr\<lparr>at_val := At_arst (Some q)\<rparr>) else acl_incr mal order attr x q
      else if opn = batch_op_INCR then acl_incr mal order attr x p
      else if opn = batch_op_DECR then (0, mark_set (attr\<lparr>at_val := At_arst (Some (fold remove_str (as_strs x) p))\<rparr>))
      else (PBSE_INTERNAL, attr\<lparr>at_val := At_arst (Some p)\<rparr>))"
    unfolding set_allacl_def p_def assms(3) option.case Let_def using False by (simp only: if_False)
  consider (none) "opn = batch_op_SET" "as_usedptr x = 0" | (set) "opn = batch_op_SET" "as_usedptr x \<noteq> 0"
    | (incr) "opn = batch_op_INCR" | (decr) "opn = batch_op_DECR" using assms(4) by blast
  then show ?thesis
  proof cases
    case none
    have "arst_rep (p\<lparr>as_string := [], as_next := 0\<rparr>) []" by (simp add: arst_rep_def as_bytes_def)
    then show ?thesis unfolding r
      using none arst_rep_used [OF x] by (simp add: acl_outcome_def acl_op_def acl_dups_def arst_okI)
  next
    case set
    obtain rc q where e: "empty_arst mal p x = (rc, q)" by (cases "empty_arst mal p x")
    then have q: "rc = 0 \<or> rc = PBSE_SYSTEM \<and> \<not> (\<forall>n. mal n)" "rc = 0 \<Longrightarrow> arst_rep q []" "rc \<noteq> 0 \<Longrightarrow> as_buf q = None \<and> as_string q = []"
      using empty_arst_rep [of mal p x] by auto
    define a where "a = attr\<lparr>at_val := At_arst (Some q)\<rparr>"
    have fresh: "set_allacl mal order attr new opn = (if rc \<noteq> 0 then (rc, a) else acl_incr mal order attr x q)"
      unfolding r using set e by (auto simp: a_def)
    show ?thesis
    proof (cases "rc = 0")
      case True
      then show ?thesis unfolding fresh
        using acl_incr_spec [OF q(2) x, of mal order attr] set by (auto simp: acl_outcome_def acl_op_def acl_dups_def batch_op_SET_def)
    next
      case False
      then have "arst_emptied a" using q(3) by (simp add: arst_emptied_def a_def)
      then show ?thesis unfolding fresh using False q(1) set arst_emptied_list [of a] by (auto simp: acl_outcome_def)
    qed
  next
    case incr
    then have "arst_rep p (arst_list attr)" using p by (auto simp: batch_op_SET_def)
    then show ?thesis unfolding r
      using incr acl_incr_spec [OF _ x, of p "arst_list attr" mal order attr] by (auto simp: acl_outcome_def acl_op_def acl_dups_def batch_op_SET_def)
  next
    case decr
    then have "arst_rep p (arst_list attr)" using p by (auto simp: batch_op_SET_def)
    then have "arst_rep (fold remove_str (as_strs x) p) (fold remove1 (arst_list new) (arst_list attr))"
      using remove_strs_rep arst_rep_strs [OF x] by metis
    then show ?thesis unfolding r using decr by (simp add: acl_outcome_def acl_op_def acl_dups_def batch_op_SET_def arst_okI)
  qed
qed

section \<open>Sorted lists\<close>

definition acl_sorted :: "(string \<Rightarrow> int list) \<Rightarrow> (string \<Rightarrow> bool) \<Rightarrow> (string \<Rightarrow> bool) \<Rightarrow> string list \<Rightarrow> bool" where
  "acl_sorted key valid counts ss \<longleftrightarrow> (\<forall>s \<in> set ss. valid s) \<and> sorted (map key (filter counts ss))"

text \<open>
  What an order function promises: it compares a key, for the strings that count (\<open>counts\<close>) among those that are
  valid; for a string that does not count the search for a place goes on.
\<close>

locale acl_order =
  fixes order :: "string \<Rightarrow> string \<Rightarrow> int" and key :: "string \<Rightarrow> int list" and valid :: "string \<Rightarrow> bool" and counts :: "string \<Rightarrow> bool"
  assumes greater: "valid s \<Longrightarrow> valid t \<Longrightarrow> counts s \<Longrightarrow> counts t \<Longrightarrow> order t s > 0 \<Longrightarrow> key s \<le> key t"
    and not_greater: "valid s \<Longrightarrow> valid t \<Longrightarrow> counts s \<Longrightarrow> counts t \<Longrightarrow> \<not> order t s > 0 \<Longrightarrow> key t \<le> key s"
    and passed: "valid s \<Longrightarrow> valid t \<Longrightarrow> counts s \<Longrightarrow> \<not> counts t \<Longrightarrow> \<not> order t s > 0"
begin

lemma filter_acl_insert:
  assumes "valid s" "\<forall>t \<in> set ss. valid t"
  shows "filter counts (acl_insert order s ss) = (if counts s then acl_insert order s (filter counts ss) else filter counts ss)"
proof (cases "counts s")
  case False
  have "filter counts (takeWhile P ss) @ filter counts (dropWhile P ss) = filter counts ss" for P
    by (metis filter_append takeWhile_dropWhile_id)
  then show ?thesis using False by (simp add: acl_insert_def)
next
  case True
  have "filter counts (acl_insert order s ss) = acl_insert order s (filter counts ss)"
    using assms(2)
  proof (induction ss)
    case (Cons t ss)
    then show ?case using passed [OF assms(1), of t] True by (cases "order t s > 0") (auto simp: acl_insert_def)
  qed (simp add: acl_insert_def True)
  then show ?thesis using True by simp
qed

lemma acl_insert_sorted:
  assumes "valid s" "counts s" "\<forall>t \<in> set ss. valid t \<and> counts t" "sorted (map key ss)"
  shows "sorted (map key (acl_insert order s ss))"
  using assms(3,4)
proof (induction ss)
  case (Cons t ss)
  show ?case
  proof (cases "order t s > 0")
    case True
    then have "key s \<le> key t" using greater assms(1,2) Cons.prems(1) by simp
    then show ?thesis using True Cons.prems(2) by (auto simp: acl_insert_def)
  next
    case False
    have "key t \<le> key s" using not_greater [OF assms(1) _ assms(2)] False Cons.prems(1) by simp
    moreover have "sorted (map key (acl_insert order s ss))" using Cons by simp
    ultimately have "\<forall>u \<in> set (acl_insert order s ss). key t \<le> key u" "sorted (map key (acl_insert order s ss))"
      using Cons.prems(2) by (auto simp: set_acl_insert)
    moreover have "acl_insert order s (t # ss) = t # acl_insert order s ss" using False by (simp add: acl_insert_def)
    ultimately show ?thesis by simp
  qed
qed (simp add: acl_insert_def)

lemma acl_inserts_sorted: "acl_sorted key valid counts ss \<Longrightarrow> \<forall>t \<in> set ts. valid t \<Longrightarrow> acl_sorted key valid counts (fold (acl_insert order) ts ss)"
proof (induction ts arbitrary: ss)
  case (Cons t ts)
  have "acl_sorted key valid counts (acl_insert order t ss)"
  proof -
    have v: "valid t" "\<forall>u \<in> set ss. valid u" "sorted (map key (filter counts ss))" using Cons.prems by (simp_all add: acl_sorted_def)
    have "\<forall>u \<in> set (filter counts ss). valid u \<and> counts u" using v(2) by simp
    then have i: "counts t \<Longrightarrow> sorted (map key (acl_insert order t (filter counts ss)))" using acl_insert_sorted [OF v(1) _ _ v(3)] by blast
    have "sorted (map key (filter counts (acl_insert order t ss)))"
      unfolding filter_acl_insert [OF v(1,2)] using i v(3) by (cases "counts t") (simp_all only: if_True if_False)
    then show ?thesis using v(1,2) by (simp add: acl_sorted_def set_acl_insert)
  qed
  then show ?case using Cons by simp
qed simp

lemma acl_sorted_remove: "acl_sorted key valid counts ss \<Longrightarrow> acl_sorted key valid counts (remove1 t ss)"
proof -
  assume a: "acl_sorted key valid counts ss"
  have "filter counts (remove1 t ss) = remove1 t (filter counts ss)"
    by (induction ss) (auto simp: remove1_idem)
  moreover have "sorted (map key (remove1 t (filter counts ss)))" using a sorted_map_remove1 by (auto simp: acl_sorted_def)
  moreover have "set (remove1 t ss) \<subseteq> set ss" by (rule set_remove1_subset)
  ultimately show ?thesis using a by (auto simp: acl_sorted_def)
qed

lemma acl_op_sorted:
  assumes "acl_sorted key valid counts old" "\<forall>t \<in> set new. valid t"
  shows "acl_sorted key valid counts (acl_op order opn old new)"
proof -
  have "acl_sorted key valid counts (fold remove1 ts ss)" if "acl_sorted key valid counts ss" for ts ss using that by (induction ts arbitrary: ss) (simp_all add: acl_sorted_remove)
  then show ?thesis using assms acl_inserts_sorted [of "[]" new] acl_inserts_sorted [OF assms] by (simp add: acl_op_def acl_sorted_def)
qed

end

text \<open>
  The keys. Host names are compared from the end, by descending characters, longer names first, and a
  wildcard after every name of its length.
\<close>

fun host_key :: "string \<Rightarrow> int list" where
  "host_key [] = []"
| "host_key [c] = [if c = CHR ''*'' then 1000 else 500 - schar c]"
| "host_key (c # c' # cs) = - schar c # host_key (c' # cs)"

fun user_key :: "string \<Rightarrow> int list" where
  "user_key [] = [0]"
| "user_key (c # cs) = schar c # (if c = CHR ''@'' then host_key (rev (bare cs)) else user_key cs)"

fun user_valid :: "string \<Rightarrow> bool" where
  "user_valid [] \<longleftrightarrow> True"
| "user_valid (c # cs) \<longleftrightarrow> c \<noteq> NUL \<and> (if c = CHR ''@'' then bare cs \<noteq> [] else user_valid cs)"

lemma schar_bounds: "- 128 \<le> schar c" "schar c \<le> 127"
  using uchar_less [of c] unfolding schar_def by (cases "uchar c < 128"; simp only: if_True if_False; linarith)+

lemma schar_inj: "schar a = schar b \<longleftrightarrow> a = b"
proof -
  have "uchar a < 256" "uchar b < 256" by (rule uchar_less)+
  then have "schar a = schar b \<Longrightarrow> uchar a = uchar b"
    unfolding schar_def by (cases "uchar a < 128"; cases "uchar b < 128"; simp only: if_True if_False; linarith)
  then show ?thesis by (auto simp: uchar_def)
qed

lemma schar_linear: "a \<noteq> b \<Longrightarrow> \<not> schar a < schar b \<Longrightarrow> schar b < schar a" "b \<noteq> a \<Longrightarrow> \<not> schar a < schar b \<Longrightarrow> schar b < schar a"
  using schar_inj [of a b] by (metis linorder_neqE)+

lemma host_key_longer: "host_key (c # c' # cs) < host_key [d]"
  using schar_bounds [of c] schar_bounds [of d] by auto

lemma host_loop_key:
  "a \<noteq> [] \<Longrightarrow> b \<noteq> [] \<Longrightarrow> (host_loop a b > 0 \<longrightarrow> host_key b \<le> host_key a) \<and> (\<not> host_loop a b > 0 \<longrightarrow> host_key a \<le> host_key b)"
proof (induction a b rule: host_loop.induct)
  case (2 a b)
  then show ?case using schar_bounds [of a] schar_bounds [of b] by (auto intro: schar_linear)
qed (auto simp: less_imp_le [OF host_key_longer] simp del: host_key.simps(2,3) intro: less_imp_le [OF host_key_longer], auto intro: schar_linear)

lemma strcmp_key: "(strcmp a b > 0 \<longrightarrow> map (int \<circ> uchar) b \<le> map (int \<circ> uchar) a) \<and> (\<not> strcmp a b > 0 \<longrightarrow> map (int \<circ> uchar) a \<le> map (int \<circ> uchar) b)"
  by (induction a b rule: strcmp.induct) auto

lemma user_loop_key:
  "user_valid a \<Longrightarrow> user_valid b \<Longrightarrow>
    (user_loop past a b > 0 \<longrightarrow> user_key b \<le> user_key a) \<and> (\<not> user_loop past a b > 0 \<longrightarrow> user_key a \<le> user_key b)"
proof (induction past a b rule: user_loop.induct)
  case (2 past b bs)
  have "schar b \<noteq> 0" using 2 schar_inj [of b NUL] by (simp add: schar_def uchar_def)
  then show ?case by auto
next
  case (3 past a as)
  have "schar a \<noteq> 0" using 3 schar_inj [of a NUL] by (simp add: schar_def uchar_def)
  then show ?case by auto
next
  case (4 past a as b bs)
  show ?case
  proof (cases "schar a = schar b")
    case True
    then have "a = b" by (simp add: schar_inj)
    then show ?thesis using 4 host_loop_key [of "rev (bare as)" "rev (bare bs)"] by (simp add: host_order_def split: if_splits)
  next
    case False
    then show ?thesis by (auto intro: schar_linear)
  qed
qed simp

interpretation host: acl_order host_order "\<lambda>s. host_key (rev (bare s))" "\<lambda>_. True" "\<lambda>s. bare s \<noteq> []"
proof unfold_locales
  show "host_key (rev (bare s)) \<le> host_key (rev (bare t))" if "bare s \<noteq> []" "bare t \<noteq> []" "host_order t s > 0" for s t
    using host_loop_key [of "rev (bare t)" "rev (bare s)"] that by (simp add: host_order_def)
  show "host_key (rev (bare t)) \<le> host_key (rev (bare s))" if "bare s \<noteq> []" "bare t \<noteq> []" "\<not> host_order t s > 0" for s t
    using host_loop_key [of "rev (bare t)" "rev (bare s)"] that by (simp add: host_order_def)
  show "\<not> host_order t s > 0" if "\<not> bare t \<noteq> []" for s t
    using that by (simp add: host_order_def)
qed

interpretation group: acl_order group_order "\<lambda>s. map (int \<circ> uchar) (bare s)" "\<lambda>_. True" "\<lambda>_. True"
  using strcmp_key by unfold_locales (auto simp: group_order_def)

interpretation user: acl_order "user_order past" "\<lambda>s. user_key (bare s)" "\<lambda>s. user_valid (bare s)" "\<lambda>_. True"
  using user_loop_key by unfold_locales (auto simp: user_order_def)

section \<open>What a host list decides\<close>

definition wild :: "string \<Rightarrow> bool" where
  "wild m \<longleftrightarrow> m \<noteq> [] \<and> hd m = CHR ''*''"

text \<open>A host name matches an entry that is equal to it or a wildcard whose rest is a proper end of it, whatever the case.\<close>

definition host_matches :: "string \<Rightarrow> string \<Rightarrow> bool" where
  "host_matches can m \<longleftrightarrow> m \<noteq> [] \<and>
     (if wild m then length m \<le> length can \<and> suffix (map tolower (tl m)) (map tolower can) else map tolower can = map tolower m)"

lemma hacl_loop_iff:
  assumes "c \<noteq> []" "m \<noteq> []"
  shows "hacl_loop c m = 0 \<longleftrightarrow>
    (if last m = CHR ''*'' then length m \<le> length c \<and> take (length m - 1) (map tolower c) = map tolower (butlast m)
     else map tolower c = map tolower m)"
  using assms
proof (induction c m rule: hacl_loop.induct)
  case (2 pc m)
  then show ?case by (cases pc) (auto simp: Suc_le_eq)
qed auto

lemma hacl_match_iff:
  assumes "can \<noteq> []"
  shows "hacl_match can m = 0 \<longleftrightarrow> host_matches can m"
proof (cases m)
  case Nil
  then show ?thesis by (simp add: hacl_match_def host_matches_def)
next
  case (Cons a as)
  have e: "take (length as) (map tolower (rev can)) = map tolower (rev as) \<longleftrightarrow> suffix (map tolower as) (map tolower can)" if "length as \<le> length can"
  proof -
    have "suffix (map tolower as) (map tolower can) \<longleftrightarrow> prefix (map tolower (rev as)) (map tolower (rev can))"
      by (simp add: suffix_to_prefix rev_map)
    also have "\<dots> \<longleftrightarrow> take (length as) (map tolower (rev can)) = map tolower (rev as)" by (metis append_eq_conv_conj length_map length_rev prefix_def take_is_prefix)
    finally show ?thesis by blast
  qed
  have "last (rev m) = a" "butlast (rev m) = rev as" "length m = Suc (length as)" by (simp_all add: Cons)
  then have "hacl_match can m = 0 \<longleftrightarrow>
    (if a = CHR ''*'' then Suc (length as) \<le> length can \<and> take (length as) (map tolower (rev can)) = map tolower (rev as) else map tolower (rev can) = map tolower (rev m))"
    unfolding hacl_match_def using hacl_loop_iff [of "rev can" "rev m"] assms Cons by simp
  moreover have "map tolower (rev can) = map tolower (rev m) \<longleftrightarrow> map tolower can = map tolower m" by (metis rev_map rev_rev_ident)
  ultimately show ?thesis using e by (auto simp: host_matches_def wild_def Cons simp del: rev.simps)
qed

text \<open>An entry is more specific than another when it is longer or, of the same length, no wildcard where the other is.\<close>

definition more_specific :: "string \<Rightarrow> string \<Rightarrow> bool" where
  "more_specific m n \<longleftrightarrow> length m > length n \<or> length m = length n \<and> \<not> wild m \<and> wild n"

definition lower :: "string \<Rightarrow> bool" where
  "lower s \<longleftrightarrow> map tolower s = s"

text \<open>An entry without capitals that matches is, up to its first character, the end of the host name.\<close>

lemma matches_end:
  assumes "host_matches can m" "lower m"
  shows "tl m = drop (length can - (length m - 1)) (map tolower can) \<and> length m \<le> length can"
proof (cases "wild m")
  case True
  then have m: "length m \<le> length can" "suffix (map tolower (tl m)) (map tolower can)" using assms(1) by (simp_all add: host_matches_def)
  have "map tolower (tl m) = tl m" using assms(2) by (metis lower_def map_tl)
  then obtain zs where z: "map tolower can = zs @ tl m" using m(2) by (auto simp: suffix_def)
  then have "length can = length zs + (length m - 1)" by (metis length_append length_map length_tl)
  then show ?thesis using m(1) z by simp
next
  case False
  then have "map tolower can = m" "m \<noteq> []" using assms by (simp_all add: host_matches_def lower_def)
  then show ?thesis by (cases m) auto
qed

lemma host_key_prefix: "host_key (p @ [x]) = map (\<lambda>c. - schar c) p @ host_key [x]"
proof (induction p)
  case (Cons a p)
  then show ?case by (cases p) auto
qed simp

lemma host_key_snoc: "q \<noteq> [] \<Longrightarrow> host_key (p @ q) = map (\<lambda>c. - schar c) p @ host_key q"
proof (induction p)
  case (Cons a p)
  then show ?case by (cases "p @ q") auto
qed simp

lemma lex_prefix [simp]: "p @ a < p @ b \<longleftrightarrow> a < (b :: int list)"
  by (induction p) auto

lemma specific_first:
  assumes "host_matches can m" "host_matches can n" "lower m" "lower n" "more_specific m n"
  shows "host_key (rev m) < host_key (rev n)"
proof -
  obtain x ms y ns where m: "m = x # ms" and n: "n = y # ns" using assms(1,2) by (cases m; cases n) (auto simp: host_matches_def)
  have e: "ms = drop (length can - length ms) (map tolower can)" "ns = drop (length can - length ns) (map tolower can)"
    "length ms < length can" "length ns < length can"
    using matches_end [OF assms(1,3)] matches_end [OF assms(2,4)] by (simp_all add: m n)
  have k: "host_key (rev n) = map (\<lambda>c. - schar c) (rev ns) @ host_key [y]" using host_key_prefix [of "rev ns" y] by (simp add: n)
  show ?thesis
  proof (cases "length m > length n")
    case True
    define d where "d = take (length ms - length ns) ms"
    have "length ms - length ns + (length can - length ms) = length can - length ns" using True e(3) by (simp add: m n)
    then have "drop (length ms - length ns) ms = ns" using e(1,2) by (metis drop_drop)
    then have ms: "ms = d @ ns" unfolding d_def by (metis append_take_drop_id)
    have "d \<noteq> []" using True ms m n by auto
    have "host_key (rev m) = map (\<lambda>c. - schar c) (rev ns) @ host_key (rev d @ [x])" using host_key_snoc [of "rev d @ [x]" "rev ns"] by (simp add: m ms)
    moreover obtain c c' cs where "rev d @ [x] = c # c' # cs" using \<open>d \<noteq> []\<close> by (cases "rev d"; cases "tl (rev d)") auto
    ultimately show ?thesis using k host_key_longer [of c c' cs y] by (simp del: host_key.simps)
  next
    case False
    then have l: "length ms = length ns" "x \<noteq> CHR ''*''" "y = CHR ''*''" using assms(5) m n by (auto simp: more_specific_def wild_def)
    then have "ms = ns" using e by simp
    then have "host_key (rev m) = map (\<lambda>c. - schar c) (rev ns) @ host_key [x]" using host_key_prefix [of "rev ms" x] by (simp add: m)
    moreover have "host_key [x] < host_key [y]" using l schar_bounds [of x] by auto
    ultimately show ?thesis using k by (simp del: host_key.simps)
  qed
qed

text \<open>The first entry that matches decides.\<close>

lemma acl_loop_first:
  "acl_loop match name ss d = (case find (\<lambda>s. match name (bare s) = 0) ss of Some s \<Rightarrow> if s \<noteq> [] \<and> hd s = CHR ''-'' then 0 else 1
     | None \<Rightarrow> (case filter (\<lambda>s. s = ''+'' \<or> s = ''-'') ss of [] \<Rightarrow> d | us \<Rightarrow> if last us = ''+'' then 1 else 0))"
proof (induction ss arbitrary: d)
  case (Cons s ss)
  have "signed_entry s \<and> tl s = [] \<longleftrightarrow> s = ''+'' \<or> s = ''-''" by (cases s) (auto simp: signed_entry_def)
  then show ?case using Cons by (auto split: list.splits option.splits)
qed simp

lemma host_acl_specific:
  assumes "acl_sorted (\<lambda>s. host_key (rev (bare s))) (\<lambda>_. True) (\<lambda>s. bare s \<noteq> []) ss" "\<forall>s \<in> set ss. lower s" "can \<noteq> []"
    "find (\<lambda>s. hacl_match can (bare s) = 0) ss = Some s" "t \<in> set ss" "host_matches can (bare t)"
  shows "\<not> more_specific (bare t) (bare s)"
proof
  assume a: "more_specific (bare t) (bare s)"
  obtain i where i: "i < length ss" "hacl_match can (bare (ss ! i)) = 0" "s = ss ! i" "\<forall>j < i. hacl_match can (bare (ss ! j)) \<noteq> 0"
    using assms(4) by (auto simp: find_Some_iff)
  have hs: "host_matches can (bare s)" using i hacl_match_iff [OF assms(3)] by simp
  have lw: "lower (bare u)" if "u \<in> set ss" for u
    using assms(2) that by (auto simp: lower_def bare_def map_tl)
  have k: "host_key (rev (bare t)) < host_key (rev (bare s))"
    using specific_first [OF assms(6) hs lw [OF assms(5)] _ a] lw [of s] i by simp
  have "t \<in> set (drop i ss)"
  proof -
    obtain j where j: "j < length ss" "t = ss ! j" using assms(5) by (auto simp: in_set_conv_nth)
    then have "\<not> j < i" using i(4) assms(6) hacl_match_iff [OF assms(3)] by auto
    then have "t = drop i ss ! (j - i)" "j - i < length (drop i ss)" using j by simp_all
    then show ?thesis by (metis nth_mem)
  qed
  moreover have "ss = take i ss @ s # drop (Suc i) ss" using id_take_nth_drop i by blast
  moreover have "drop i ss = s # drop (Suc i) ss" using Cons_nth_drop_Suc i by metis
  moreover have "t \<noteq> s" using a by (auto simp: more_specific_def)
  ultimately have "sorted (map (\<lambda>s. host_key (rev (bare s))) (filter (\<lambda>s. bare s \<noteq> []) (take i ss @ s # drop (Suc i) ss)))" "t \<in> set (drop (Suc i) ss)"
    using assms(1) by (auto simp: acl_sorted_def)
  then have "host_key (rev (bare s)) \<le> host_key (rev (bare t))"
    using hs assms(6) by (auto simp: sorted_append host_matches_def)
  then show False using k by simp
qed

section \<open>Properties\<close>

text \<open>
  C19. Setting an access control list: \<open>set_hostacl\<close>, \<open>set_gacl\<close> and \<open>set_uacl\<close>, which move bytes inside one packed buffer,
  implement insertion into and removal from a sorted list of strings; an entry that is there already is refused;
  and the list stays sorted, by host names from their ends with the most specific first, by group names, or by user names and
  then hosts, whatever is read behind the ends of two equal user names. Errors are duplicates and lack of memory: they leave the old
  list to \<open>INCR\<close>, but \<open>SET\<close> has lost it and leaves no strings, and when memory ran out maybe no buffer (\<open>arst_emptied\<close>, a
  stale \<open>as_next\<close>); the next \<open>SET\<close> is right from there too.
\<close>

theorem acl_lists_sorted:
  assumes "arst_ok attr \<or> arst_emptied attr \<and> opn = batch_op_SET" "arst_ok new" "at_arst (at_val new) = Some x"
    "opn \<in> {batch_op_SET, batch_op_INCR, batch_op_DECR}"
  shows "acl_outcome mal host_order opn attr new (set_hostacl mal attr new opn) \<and>
    acl_outcome mal group_order opn attr new (set_gacl mal attr new opn) \<and>
    acl_outcome mal (user_order past) opn attr new (set_uacl mal past attr new opn) \<and>
    (acl_sorted (\<lambda>s. host_key (rev (bare s))) (\<lambda>_. True) (\<lambda>s. bare s \<noteq> []) (arst_list attr) \<longrightarrow>
     acl_sorted (\<lambda>s. host_key (rev (bare s))) (\<lambda>_. True) (\<lambda>s. bare s \<noteq> []) (acl_op host_order opn (arst_list attr) (arst_list new))) \<and>
    (acl_sorted (\<lambda>s. map (int \<circ> uchar) (bare s)) (\<lambda>_. True) (\<lambda>_. True) (arst_list attr) \<longrightarrow>
     acl_sorted (\<lambda>s. map (int \<circ> uchar) (bare s)) (\<lambda>_. True) (\<lambda>_. True) (acl_op group_order opn (arst_list attr) (arst_list new))) \<and>
    (acl_sorted (\<lambda>s. user_key (bare s)) (\<lambda>s. user_valid (bare s)) (\<lambda>_. True) (arst_list attr) \<and> (\<forall>t \<in> set (arst_list new). user_valid (bare t)) \<longrightarrow>
     acl_sorted (\<lambda>s. user_key (bare s)) (\<lambda>s. user_valid (bare s)) (\<lambda>_. True) (acl_op (user_order past) opn (arst_list attr) (arst_list new)))"
proof -
  note set_allacl_spec [OF assms, of mal]
  moreover note host.acl_op_sorted group.acl_op_sorted user.acl_op_sorted
  ultimately show ?thesis by (simp add: set_hostacl_def set_gacl_def set_uacl_def)
qed

definition example_acl :: "unit attribute" where
  "example_acl = \<lparr>at_flags = 1, at_type = ATR_TYPE_ARST, at_user_encoded = None, at_priv_encoded = None,
     at_val = At_arst (Some \<lparr>as_npointers = 2, as_buf = Some (''-a.com'' @ [NUL] @ ''+*.com'' @ [NUL]), as_next = 14, as_string = [0, 7]\<rparr>)\<rparr>"

lemma example_acl_ok: "arst_ok example_acl" "arst_list example_acl = [''-a.com'', ''+*.com'']" "is_set example_acl"
proof -
  let ?p = "\<lparr>as_npointers = 2, as_buf = Some (''-a.com'' @ [NUL] @ ''+*.com'' @ [NUL]), as_next = 14, as_string = [0, 7]\<rparr>"
  have "arst_rep ?p [''-a.com'', ''+*.com'']" by (simp add: arst_rep_def as_bytes_def c_string_def)
  then show "arst_ok example_acl" "arst_list example_acl = [''-a.com'', ''+*.com'']"
    using arst_okI [of ?p "[''-a.com'', ''+*.com'']" example_acl] by (simp_all add: example_acl_def)
  show "is_set example_acl" by (simp add: example_acl_def is_set_def)
qed

theorem acl_lists_sorted_witness:
  "acl_outcome (\<lambda>_. True) host_order batch_op_INCR example_acl example_acl (set_hostacl (\<lambda>_. True) example_acl example_acl batch_op_INCR) \<and>
   fst (set_hostacl (\<lambda>_. True) example_acl example_acl batch_op_INCR) = PBSE_DUPLIST"
proof -
  obtain x where x: "at_arst (at_val example_acl) = Some x" by (simp add: example_acl_def)
  have d: "acl_dups batch_op_INCR (arst_list example_acl) (arst_list example_acl)" by (simp add: acl_dups_def example_acl_ok(2) batch_op_SET_def)
  show ?thesis using acl_lists_sorted [OF disjI1 [OF example_acl_ok(1)] example_acl_ok(1) x, of batch_op_INCR "\<lambda>_. True"] d by (auto simp: acl_outcome_def)
qed

text \<open>
  C20. Who is let in by a list of hosts: the first entry that matches the name decides, and on a sorted list whose entries
  are in lower case no other entry that matches is more specific (longer, or a name where the other is a wildcard); without a
  match the last entry that is a sign alone decides, and without that the answer is no.
\<close>

theorem host_acl_decides:
  assumes "arst_ok a" "is_set a" "arst_list a \<noteq> []" "can \<noteq> []"
    "acl_sorted (\<lambda>s. host_key (rev (bare s))) (\<lambda>_. True) (\<lambda>s. bare s \<noteq> []) (arst_list a)" "\<forall>s \<in> set (arst_list a). lower s"
  shows "acl_check server_host groups a (Some can) ACL_Host =
      (case find (\<lambda>s. host_matches can (bare s)) (arst_list a) of Some s \<Rightarrow> if s \<noteq> [] \<and> hd s = CHR ''-'' then 0 else 1
       | None \<Rightarrow> (case filter (\<lambda>s. s = ''+'' \<or> s = ''-'') (arst_list a) of [] \<Rightarrow> 0 | us \<Rightarrow> if last us = ''+'' then 1 else 0)) \<and>
    (\<forall>s t. find (\<lambda>s. host_matches can (bare s)) (arst_list a) = Some s \<and> t \<in> set (arst_list a) \<and> host_matches can (bare t) \<longrightarrow> \<not> more_specific (bare t) (bare s))"
proof -
  obtain p where p: "at_arst (at_val a) = Some p" using assms(3) by (auto simp: arst_list_def split: option.splits)
  have l: "arst_list a = as_strs p" "as_usedptr p \<noteq> 0" using assms(3) p by (auto simp: arst_list_def as_usedptr_def as_strs_def)
  have m: "(\<lambda>s. hacl_match can (bare s) = 0) = (\<lambda>s. host_matches can (bare s))" using hacl_match_iff [OF assms(4)] by auto
  have "acl_check server_host groups a (Some can) ACL_Host = acl_loop hacl_match can (arst_list a) 0"
    using assms(2) l by (simp add: acl_check_def acl_match_def p)
  then show ?thesis
    using acl_loop_first [of hacl_match can "arst_list a" 0] host_acl_specific [OF assms(5,6,4)] unfolding m by (intro conjI) (simp, blast)
qed

theorem host_acl_decides_witness: "acl_check ''srv'' (\<lambda>_. None) example_acl (Some ''a.com'') ACL_Host = 0"
proof -
  have s: "acl_sorted (\<lambda>s. host_key (rev (bare s))) (\<lambda>_. True) (\<lambda>s. bare s \<noteq> []) (arst_list example_acl)" unfolding example_acl_ok(2) by code_simp
  have l: "\<forall>s \<in> set (arst_list example_acl). lower s" unfolding example_acl_ok(2) by code_simp
  have "host_matches ''a.com'' (bare ''-a.com'')" by code_simp
  then have "find (\<lambda>s. host_matches ''a.com'' (bare s)) (arst_list example_acl) = Some ''-a.com''" by (simp add: example_acl_ok(2))
  then show ?thesis using host_acl_decides [OF example_acl_ok(1,3) _ _ s l, of "''a.com''" "''srv''" "\<lambda>_. None"] example_acl_ok(2) by simp
qed

text \<open>
  With capitals the promise fails: the order of the entries distinguishes case, the comparison with a name does not. The
  sorted list below has the wildcard that allows before the entry that denies the host.
\<close>

lemma host_acl_case:
  "acl_sorted (\<lambda>s. host_key (rev (bare s))) (\<lambda>_. True) (\<lambda>s. bare s \<noteq> []) [''+*.com'', ''-a.COM'']"
  "host_matches ''a.com'' (bare ''-a.COM'')" "acl_loop hacl_match ''a.com'' [''+*.com'', ''-a.COM''] 0 = 1"
  by code_simp+

end
