(* ===== verification/List_Link.thy ===== *)
theory List_Link
  imports Prelude
begin

text \<open>
  Doubly linked lists (\<open>src/src/lib/Libifl/list_link.c\<close>, \<open>src/src/include/list_link.h\<close>). All lists of the
  program are rings of links embedded in the objects they hold, with one more link as the head. The
  memory of the links is a heap of three fields; an address is a number, \<open>0\<close> is \<open>NULL\<close>. The functions are those of a
  build with assertions: a failed assertion, after which the code aborts, is \<open>None\<close>.

  A ring represents the list of the addresses of its links. The lemmas show that each function performs
  one operation on that list and touches no other list, which is why the other theories
  write the lists of the program as lists.
\<close>

section \<open>The heap of links\<close>

record links =
  ll_prior :: "nat \<Rightarrow> nat"
  ll_next :: "nat \<Rightarrow> nat"
  ll_struct :: "nat \<Rightarrow> nat"

definition put_prior :: "nat \<Rightarrow> nat \<Rightarrow> links \<Rightarrow> links" where
  "put_prior p q h = h\<lparr>ll_prior := (ll_prior h)(p := q)\<rparr>"

definition put_next :: "nat \<Rightarrow> nat \<Rightarrow> links \<Rightarrow> links" where
  "put_next p q h = h\<lparr>ll_next := (ll_next h)(p := q)\<rparr>"

definition put_struct :: "nat \<Rightarrow> nat \<Rightarrow> links \<Rightarrow> links" where
  "put_struct p q h = h\<lparr>ll_struct := (ll_struct h)(p := q)\<rparr>"

lemma link_fields [simp]:
  "ll_prior (put_prior p q h) = (ll_prior h)(p := q)" "ll_prior (put_next p q h) = ll_prior h" "ll_prior (put_struct p q h) = ll_prior h"
  "ll_next (put_prior p q h) = ll_next h" "ll_next (put_next p q h) = (ll_next h)(p := q)" "ll_next (put_struct p q h) = ll_next h"
  "ll_struct (put_prior p q h) = ll_struct h" "ll_struct (put_next p q h) = ll_struct h" "ll_struct (put_struct p q h) = (ll_struct h)(p := q)"
  by (simp_all add: put_prior_def put_next_def put_struct_def)

section \<open>Operations\<close>

text \<open>The macros \<open>CLEAR_HEAD\<close> and \<open>CLEAR_LINK\<close>.\<close>

definition CLEAR_LINK :: "nat \<Rightarrow> links \<Rightarrow> links" where
  "CLEAR_LINK e h = put_prior e e (put_next e e h)"

definition CLEAR_HEAD :: "nat \<Rightarrow> links \<Rightarrow> links" where
  "CLEAR_HEAD e h = put_struct e 0 (CLEAR_LINK e h)"

definition LINK_INSET_BEFORE :: int where "LINK_INSET_BEFORE = 0"
definition LINK_INSET_AFTER :: int where "LINK_INSET_AFTER = 1"

definition insert_link :: "nat \<Rightarrow> nat \<Rightarrow> nat \<Rightarrow> int \<Rightarrow> links \<Rightarrow> links option" where
  "insert_link oldp newp pobj position h =
     (if pobj = 0 \<or> oldp = 0 \<or> ll_prior h oldp = 0 \<or> ll_next h oldp = 0 \<or> ll_prior h newp \<noteq> newp \<or> ll_next h newp \<noteq> newp then None
      else let h = (if position = LINK_INSET_AFTER then
                 let h = put_prior newp oldp h; h = put_next newp (ll_next h oldp) h; h = put_prior (ll_next h oldp) newp h
                 in put_next oldp newp h
               else
                 let h = put_next newp oldp h; h = put_prior newp (ll_prior h oldp) h; h = put_next (ll_prior h oldp) newp h
                 in put_prior oldp newp h)
           in Some (put_struct newp (if pobj \<noteq> 0 then pobj else newp) h))"

definition append_link :: "nat \<Rightarrow> nat \<Rightarrow> nat \<Rightarrow> links \<Rightarrow> links option" where
  "append_link head newp pobj h =
     (if pobj = 0 \<or> ll_prior h head = 0 \<or> ll_next h head = 0 \<or> ll_prior h newp \<noteq> newp \<or> ll_next h newp \<noteq> newp then None
      else let h = put_next (ll_prior h head) newp h; h = put_prior newp (ll_prior h head) h;
               h = put_next newp head h; h = put_prior head newp h
           in Some (put_struct newp (if pobj \<noteq> 0 then pobj else newp) h))"

definition delete_link :: "nat \<Rightarrow> links \<Rightarrow> links" where
  "delete_link oldp h =
     (let h = (if ll_prior h oldp \<noteq> 0 \<and> ll_prior h oldp \<noteq> oldp \<and> ll_next h (ll_prior h oldp) = oldp
               then put_next (ll_prior h oldp) (ll_next h oldp) h else h);
          h = (if ll_next h oldp \<noteq> 0 \<and> ll_next h oldp \<noteq> oldp \<and> ll_prior h (ll_next h oldp) = oldp
               then put_prior (ll_next h oldp) (ll_prior h oldp) h else h);
          h = put_next oldp oldp h
      in put_prior oldp oldp h)"

definition swap_link :: "nat \<Rightarrow> nat \<Rightarrow> links \<Rightarrow> links option" where
  "swap_link pone ptwo h =
     (if ll_next h pone = ptwo then
        let h = delete_link pone h in insert_link ptwo pone (ll_struct h pone) LINK_INSET_AFTER h
      else if ll_next h ptwo = pone then
        let h = delete_link ptwo h in insert_link pone ptwo (ll_struct h ptwo) LINK_INSET_AFTER h
      else let p1p = ll_prior h pone; p2p = ll_prior h ptwo; h = delete_link pone h
           in case insert_link p2p pone (ll_struct h pone) LINK_INSET_AFTER h of None \<Rightarrow> None
              | Some h \<Rightarrow> let h = delete_link ptwo h in insert_link p1p ptwo (ll_struct h ptwo) LINK_INSET_AFTER h)"

text \<open>The loop of \<open>is_linked\<close> runs forever on links that do not form a ring: \<open>None\<close>.\<close>

partial_function (option) linked_loop :: "nat \<Rightarrow> nat \<Rightarrow> links \<Rightarrow> nat \<Rightarrow> int option" where
  "linked_loop head entry h pl =
     (if pl = head then Some 0 else if pl = entry then Some 1 else linked_loop head entry h (ll_next h pl))"

definition is_linked :: "nat \<Rightarrow> nat \<Rightarrow> links \<Rightarrow> int option" where
  "is_linked head entry h = linked_loop head entry h (ll_next h head)"

text \<open>
  The link is passed by value, so that its comparison with the address of the parameter never holds and
  only the test for \<open>NULL\<close> remains.
\<close>

definition get_next :: "nat \<Rightarrow> links \<Rightarrow> nat option" where
  "get_next pl h = (if ll_next h pl = 0 then None else Some (ll_struct h (ll_next h pl)))"

definition get_prior :: "nat \<Rightarrow> links \<Rightarrow> nat option" where
  "get_prior pl h = (if ll_prior h pl = 0 then None else Some (ll_struct h (ll_prior h pl)))"

definition list_move :: "nat \<Rightarrow> nat \<Rightarrow> links \<Rightarrow> links" where
  "list_move from to h =
     (if ll_next h from = from then put_prior to to (put_next to to h)
      else let h = put_next to (ll_next h from) h; h = put_prior (ll_next h to) to h;
               h = put_prior to (ll_prior h from) h; h = put_next (ll_prior h to) to h
           in CLEAR_HEAD from h)"

section \<open>Rings\<close>

fun dlseg :: "links \<Rightarrow> nat \<Rightarrow> nat list \<Rightarrow> nat \<Rightarrow> bool" where
  "dlseg h p [] q \<longleftrightarrow> ll_next h p = q \<and> ll_prior h q = p"
| "dlseg h p (x # xs) q \<longleftrightarrow> ll_next h p = x \<and> ll_prior h x = p \<and> dlseg h x xs q"

definition ring :: "links \<Rightarrow> nat list \<Rightarrow> bool" where
  "ring h l \<longleftrightarrow> l \<noteq> [] \<and> distinct l \<and> 0 \<notin> set l \<and> dlseg h (hd l) (tl l) (hd l)"

lemma dlseg_append [simp]: "dlseg h p (xs @ y # ys) q \<longleftrightarrow> dlseg h p xs y \<and> dlseg h y ys q"
  by (induction xs arbitrary: p) auto

lemma dlseg_cong:
  assumes "dlseg h p xs q" "\<And>x. x \<in> set (p # xs) \<Longrightarrow> ll_next h' x = ll_next h x" "\<And>x. x \<in> set (xs @ [q]) \<Longrightarrow> ll_prior h' x = ll_prior h x"
  shows "dlseg h' p xs q"
  using assms by (induction xs arbitrary: p) auto

lemma ring_rotate1: "ring h (x # xs) \<Longrightarrow> ring h (xs @ [x])"
  by (cases xs) (auto simp: ring_def)

lemma ring_rotate: "ring h (xs @ ys) \<Longrightarrow> ring h (ys @ xs)"
proof (induction xs arbitrary: ys)
  case (Cons x xs)
  have "ring h (xs @ (ys @ [x]))" using ring_rotate1 [of h x "xs @ ys"] Cons.prems by simp
  then show ?case using Cons.IH by fastforce
qed simp

text \<open>The neighbours of a link, and a ring at any of its links.\<close>

lemma ring_last: "ring h (b # m) \<Longrightarrow> ll_prior h b = last (b # m) \<and> ll_next h (last (b # m)) = b"
  by (cases m rule: rev_cases) (auto simp: ring_def)

lemma ring_cong:
  assumes "ring h l" "\<And>x. x \<in> set l \<Longrightarrow> ll_next h' x = ll_next h x \<and> ll_prior h' x = ll_prior h x"
  shows "ring h' l"
  using assms by (cases l) (auto simp: ring_def intro: dlseg_cong)

text \<open>Inserting between the last and the first link of a ring, and removing the last link.\<close>

lemma ring_insert:
  assumes "ring h (b # m)" "new \<notin> set (b # m)" "new \<noteq> 0"
    "ll_next h' = (ll_next h)(new := b, last (b # m) := new)" "ll_prior h' = (ll_prior h)(new := last (b # m), b := new)"
  shows "ring h' (b # m @ [new])"
proof -
  have "dlseg h' b m new"
  proof (cases m rule: rev_cases)
    case (snoc m' a)
    have "dlseg h b m' a" using assms(1) by (simp add: ring_def snoc)
    then have "dlseg h' b m' a" using assms unfolding snoc by (intro dlseg_cong [of h b m' a h']) (auto simp: ring_def)
    then show ?thesis using assms(2,4,5) by (auto simp: snoc)
  qed (use assms in auto)
  moreover have "ll_next h' new = b" "ll_prior h' b = new" using assms by (auto simp: ring_def)
  ultimately show ?thesis using assms(1-3) by (auto simp: ring_def)
qed

lemma ring_delete:
  assumes "ring h (b # m @ [x])" "ll_next h' = (ll_next h)(x := u, last (b # m) := b)" "ll_prior h' = (ll_prior h)(x := v, b := last (b # m))"
  shows "ring h' (b # m)"
proof -
  have "dlseg h' b m b"
  proof (cases m rule: rev_cases)
    case (snoc m' a)
    have "dlseg h b m' a" using assms(1) by (simp add: ring_def snoc)
    then have "dlseg h' b m' a" using assms unfolding snoc by (intro dlseg_cong [of h b m' a h']) (auto simp: ring_def)
    then show ?thesis using assms by (auto simp: snoc ring_def)
  qed (use assms in \<open>auto simp: ring_def\<close>)
  then show ?thesis using assms(1) by (auto simp: ring_def)
qed

section \<open>The operations on rings\<close>

definition unlinked :: "links \<Rightarrow> nat \<Rightarrow> bool" where
  "unlinked h p \<longleftrightarrow> p \<noteq> 0 \<and> ll_next h p = p \<and> ll_prior h p = p"

text \<open>Nothing outside a set of links changes.\<close>

definition only :: "nat set \<Rightarrow> links \<Rightarrow> links \<Rightarrow> bool" where
  "only S h h' \<longleftrightarrow> (\<forall>p. p \<notin> S \<longrightarrow> ll_next h' p = ll_next h p \<and> ll_prior h' p = ll_prior h p \<and> ll_struct h' p = ll_struct h p)"

lemma only_trans: "only S h h' \<Longrightarrow> only S h' h'' \<Longrightarrow> only S h h''"
  by (simp add: only_def)

lemma ring_next: "ring h (as @ a # bs) \<Longrightarrow> ll_next h a = hd (bs @ as @ [a])"
proof -
  assume "ring h (as @ a # bs)"
  then have r: "ring h (bs @ as @ [a])" using ring_rotate [of h "as @ [a]" bs] by simp
  obtain b m where bm: "bs @ as @ [a] = b # m" by (cases "bs @ as @ [a]") auto
  have "last (b # m) = a" by (simp flip: bm)
  then show ?thesis using ring_last [of h b m] r by (simp add: bm)
qed

lemma ring_prior: "ring h (as @ a # bs) \<Longrightarrow> ll_prior h a = last (a # bs @ as)"
  using ring_rotate [of h as "a # bs"] ring_last [of h a "bs @ as"] by simp

lemma ring_nonzero: "ring h l \<Longrightarrow> x \<in> set l \<Longrightarrow> x \<noteq> 0 \<and> ll_next h x \<in> set l \<and> ll_prior h x \<in> set l"
proof -
  assume r: "ring h l" and x: "x \<in> set l"
  then obtain as bs where l: "l = as @ x # bs" by (meson split_list)
  have "hd (bs @ as @ [x]) \<in> set (bs @ as @ [x])" "last (x # bs @ as) \<in> set (x # bs @ as)" by (rule hd_in_set last_in_set, simp)+
  then show ?thesis using ring_next [of h as x bs] ring_prior [of h as x bs] r x by (auto simp: l ring_def)
qed

lemma insert_after:
  assumes "ring h (as @ a # bs)" "unlinked h new" "new \<notin> set (as @ a # bs)" "pobj \<noteq> 0"
  shows "\<exists>h'. insert_link a new pobj LINK_INSET_AFTER h = Some h' \<and> ring h' (as @ a # new # bs) \<and>
    ll_struct h' = (ll_struct h)(new := pobj) \<and> only (set (as @ a # bs) \<union> {new}) h h'"
proof -
  have r: "ring h (bs @ as @ [a])" using ring_rotate [of h "as @ [a]" bs] assms(1) by simp
  obtain b m where bm: "bs @ as @ [a] = b # m" by (cases "bs @ as @ [a]") auto
  have l: "last (b # m) = a" "set (b # m) = set (as @ a # bs)" by (auto simp flip: bm)
  have n: "ll_next h a = b" using ring_next [OF assms(1)] by (simp add: bm)
  have z: "a \<noteq> 0" "ll_prior h a \<noteq> 0" "b \<noteq> 0" using ring_nonzero [OF assms(1)] n l(2) by (metis in_set_conv_decomp)+
  have b: "b \<in> set (as @ a # bs)" "new \<noteq> a" "new \<noteq> b" "new \<notin> set (b # m)" using assms(3) l(2) by (metis in_set_conv_decomp list.set_intros(1))+
  let ?h = "put_struct new pobj (put_next a new (put_prior b new (put_next new b (put_prior new a h))))"
  have i: "insert_link a new pobj LINK_INSET_AFTER h = Some ?h"
    using assms(2,4) z n b(2) by (simp add: insert_link_def unlinked_def)
  have "ring ?h (b # m @ [new])"
    using assms(2) r b l(1) by (intro ring_insert [of h b m new]) (auto simp: bm unlinked_def)
  then have "ring ?h (bs @ (as @ [a, new]))" using bm by (metis append.assoc append_Cons append_Nil)
  from ring_rotate [OF this] have "ring ?h (as @ a # new # bs)" by simp
  moreover have "only (set (as @ a # bs) \<union> {new}) h ?h" using b by (auto simp: only_def)
  ultimately show ?thesis using i by (intro exI [of _ ?h]) simp
qed

lemma insert_before:
  assumes "ring h (as @ a # bs)" "unlinked h new" "new \<notin> set (as @ a # bs)" "pobj \<noteq> 0"
  shows "\<exists>h'. insert_link a new pobj LINK_INSET_BEFORE h = Some h' \<and> append_link a new pobj h = Some h' \<and> ring h' (as @ new # a # bs) \<and>
    ll_struct h' = (ll_struct h)(new := pobj) \<and> only (set (as @ a # bs) \<union> {new}) h h'"
proof -
  have r: "ring h (a # bs @ as)" using ring_rotate [of h as "a # bs"] assms(1) by simp
  let ?z = "last (a # bs @ as)"
  have n: "ll_prior h a = ?z" "?z \<in> set (as @ a # bs)" using ring_prior [OF assms(1)] last_in_set [of "a # bs @ as"] by auto
  have z: "a \<noteq> 0" "ll_next h a \<noteq> 0" "?z \<noteq> 0" using ring_nonzero [OF assms(1)] n(2) by (metis in_set_conv_decomp)+
  have b: "new \<noteq> a" "new \<noteq> ?z" "new \<notin> set (a # bs @ as)" using assms(3) n(2) by auto
  let ?h = "put_struct new pobj (put_prior a new (put_next ?z new (put_prior new ?z (put_next new a h))))"
  have i: "insert_link a new pobj LINK_INSET_BEFORE h = Some ?h"
    using assms(2,4) z n(1) b(1) by (simp add: insert_link_def unlinked_def LINK_INSET_BEFORE_def LINK_INSET_AFTER_def)
  have "append_link a new pobj h = Some ?h"
    using assms(2,4) z n(1) b(1,2) by (auto simp: append_link_def unlinked_def put_next_def put_prior_def put_struct_def fun_upd_twist)
  moreover have "ring ?h (a # (bs @ as) @ [new])"
    using assms(2) r b by (intro ring_insert [of h a "bs @ as" new]) (auto simp: unlinked_def)
  then have "ring ?h (as @ new # a # bs)" using ring_rotate [of ?h "a # bs" "as @ [new]"] by simp
  moreover have "only (set (as @ a # bs) \<union> {new}) h ?h" using b n(2) by (auto simp: only_def)
  ultimately show ?thesis using i by (intro exI [of _ ?h]) simp
qed

lemma delete_ring:
  assumes "ring h (as @ x # bs)" "as @ bs \<noteq> []"
  shows "ring (delete_link x h) (as @ bs) \<and> unlinked (delete_link x h) x \<and> ll_struct (delete_link x h) = ll_struct h \<and>
    only (set (as @ x # bs)) h (delete_link x h)"
proof -
  have r: "ring h (bs @ as @ [x])" using ring_rotate [of h "as @ [x]" bs] assms(1) by simp
  obtain b m where bm: "bs @ as = b # m" using assms(2) by (cases "bs @ as") auto
  let ?z = "last (b # m)"
  have e: "set (b # m) = set (as @ bs)" unfolding bm [symmetric] by auto
  have s: "b \<in> set (as @ bs)" "?z \<in> set (as @ bs)" unfolding e [symmetric] by (simp, rule last_in_set, simp)
  have s': "x \<notin> set (as @ bs)" "0 \<notin> set (as @ x # bs)" using assms(1) by (auto simp: ring_def)
  note s = s s'
  have bm': "bs @ as @ [x] = b # m @ [x]" using bm by (metis append.assoc append_Cons)
  have nx: "ll_next h x = b" "ll_prior h x = ?z" using ring_next [OF assms(1)] ring_prior [OF assms(1)] by (simp_all add: bm bm')
  have "ring h (b # m @ [x])" using r bm' by simp
  then have rx: "ring h (x # b # m)" using ring_rotate [of h "b # m" "[x]"] by simp
  have nz: "ll_next h ?z = x" using ring_last [OF rx] by simp
  have pb: "ll_prior h b = x" using ring_prior [of h "[x]" b m] rx by simp
  have d: "delete_link x h = put_prior x x (put_next x x (put_prior b ?z (put_next ?z b h)))"
    using nx nz pb s by (auto simp: delete_link_def Let_def)
  have "ring (delete_link x h) (b # m)"
    using \<open>ring h (b # m @ [x])\<close> s by (intro ring_delete [of h b m x _ x x]) (auto simp: d fun_upd_twist)
  then have "ring (delete_link x h) (as @ bs)" using ring_rotate [of _ bs as] by (simp add: bm)
  then show ?thesis using s by (auto simp: d unlinked_def only_def)
qed

lemma linked_loop_ring:
  assumes "dlseg h p xs head" "head \<notin> set xs" "q = hd (xs @ [head])"
  shows "linked_loop head entry h q = Some (if entry \<in> set xs then 1 else 0)"
  using assms
proof (induction xs arbitrary: p q)
  case (Cons x xs)
  have "ll_next h x = hd (xs @ [head])" using Cons.prems(1) by (cases xs) auto
  then show ?case using Cons by (subst linked_loop.simps) auto
qed (simp add: linked_loop.simps)

section \<open>Lists\<close>

text \<open>The list at a head: the links after it, in order; only the head has no object.\<close>

definition holds :: "links \<Rightarrow> nat \<Rightarrow> nat list \<Rightarrow> bool" where
  "holds h head xs \<longleftrightarrow> ring h (head # xs) \<and> ll_struct h head = 0 \<and> (\<forall>x \<in> set xs. ll_struct h x \<noteq> 0)"

lemma holds_frame: "holds h head xs \<Longrightarrow> only S h h' \<Longrightarrow> S \<inter> set (head # xs) = {} \<Longrightarrow> holds h' head xs"
proof -
  assume a: "holds h head xs" "only S h h'" "S \<inter> set (head # xs) = {}"
  then have "ll_next h' x = ll_next h x \<and> ll_prior h' x = ll_prior h x \<and> ll_struct h' x = ll_struct h x" if "x \<in> set (head # xs)" for x
    using that by (auto simp: only_def)
  then show ?thesis using a(1) ring_cong [of h "head # xs" h'] by (simp add: holds_def)
qed

lemma unlinked_frame: "unlinked h p \<Longrightarrow> only S h h' \<Longrightarrow> p \<notin> S \<Longrightarrow> unlinked h' p"
  by (simp add: unlinked_def only_def)

lemma CLEAR_HEAD_holds: "e \<noteq> 0 \<Longrightarrow> holds (CLEAR_HEAD e h) e [] \<and> only {e} h (CLEAR_HEAD e h)"
  by (simp add: holds_def ring_def only_def CLEAR_HEAD_def CLEAR_LINK_def)

lemma append_link_holds:
  assumes "holds h head xs" "unlinked h new" "new \<notin> set (head # xs)" "pobj \<noteq> 0"
  shows "\<exists>h'. append_link head new pobj h = Some h' \<and> holds h' head (xs @ [new]) \<and> ll_struct h' = (ll_struct h)(new := pobj) \<and>
    only (set (head # xs) \<union> {new}) h h'"
proof -
  obtain h' where h': "append_link head new pobj h = Some h'" "ring h' (new # head # xs)" "ll_struct h' = (ll_struct h)(new := pobj)"
    "only (set (head # xs) \<union> {new}) h h'"
    using insert_before [of h "[]" head xs new pobj] assms by (auto simp: holds_def)
  then have "ring h' (head # xs @ [new])" using ring_rotate1 [of h' new "head # xs"] by simp
  then show ?thesis using h' assms by (auto simp: holds_def)
qed

lemma insert_link_holds:
  assumes "holds h head (as @ x # bs)" "unlinked h new" "new \<notin> set (head # as @ x # bs)" "pobj \<noteq> 0"
  shows "\<exists>h'. insert_link x new pobj pos h = Some h' \<and>
    holds h' head (if pos = LINK_INSET_AFTER then as @ x # new # bs else as @ new # x # bs) \<and> ll_struct h' = (ll_struct h)(new := pobj) \<and>
    only (set (head # as @ x # bs) \<union> {new}) h h'"
proof -
  have r: "ring h ((head # as) @ x # bs)" using assms(1) by (simp add: holds_def)
  have e: "insert_link x new pobj pos h = insert_link x new pobj LINK_INSET_BEFORE h" if "pos \<noteq> LINK_INSET_AFTER"
    using that by (simp add: insert_link_def LINK_INSET_BEFORE_def LINK_INSET_AFTER_def)
  have n: "new \<notin> set ((head # as) @ x # bs)" using assms(3) by simp
  have st: "ll_struct h head = 0" "\<forall>y \<in> set (as @ x # bs). ll_struct h y \<noteq> 0" "new \<noteq> head" using assms(1,3) by (simp_all add: holds_def)
  show ?thesis
  proof (cases "pos = LINK_INSET_AFTER")
    case True
    obtain h' where "insert_link x new pobj LINK_INSET_AFTER h = Some h'" "ring h' ((head # as) @ x # new # bs)"
      "ll_struct h' = (ll_struct h)(new := pobj)" "only (set ((head # as) @ x # bs) \<union> {new}) h h'"
      using insert_after [OF r assms(2) n assms(4)] by blast
    then show ?thesis using True st assms(4) by (intro exI [of _ h']) (simp add: holds_def)
  next
    case False
    obtain h' where "insert_link x new pobj LINK_INSET_BEFORE h = Some h'" "ring h' ((head # as) @ new # x # bs)"
      "ll_struct h' = (ll_struct h)(new := pobj)" "only (set ((head # as) @ x # bs) \<union> {new}) h h'"
      using insert_before [OF r assms(2) n assms(4)] by blast
    then show ?thesis using False e st assms(4) by (intro exI [of _ h']) (simp add: holds_def)
  qed
qed

lemma delete_link_holds:
  assumes "holds h head (as @ x # bs)"
  shows "holds (delete_link x h) head (as @ bs) \<and> unlinked (delete_link x h) x \<and> ll_struct (delete_link x h) = ll_struct h \<and>
    only (set (head # as @ x # bs)) h (delete_link x h)"
  using delete_ring [of h "head # as" x bs] assms by (simp add: holds_def)

lemma is_linked_holds:
  assumes "holds h head xs"
  shows "is_linked head entry h = Some (if entry \<in> set xs then 1 else 0)"
proof -
  have "dlseg h head xs head" "head \<notin> set xs" "ll_next h head = hd (xs @ [head])" using assms by (cases xs; simp add: holds_def ring_def)+
  then show ?thesis unfolding is_linked_def by (rule linked_loop_ring)
qed

lemma list_move_holds:
  assumes "holds h from xs" "to \<notin> set (from # xs)" "to \<noteq> 0" "ll_struct h to = 0"
  shows "holds (list_move from to h) to xs \<and> holds (list_move from to h) from [] \<and> only (set (from # to # xs)) h (list_move from to h)"
proof (cases xs rule: rev_cases)
  case Nil
  then show ?thesis using assms by (auto simp: holds_def ring_def list_move_def only_def)
next
  case (snoc ys z)
  obtain y ws where y: "ys @ [z] = y # ws" by (cases "ys @ [z]") auto
  have d: "dlseg h from (ys @ [z]) from" and ds: "distinct (from # ys @ [z])" "0 \<notin> set (from # ys @ [z])" using assms(1) by (simp_all add: holds_def ring_def snoc)
  have f: "ll_next h from = y" "ll_prior h from = z" using d unfolding y by (simp, use d in simp)
  have in_xs: "y \<in> set xs" "z \<in> set xs" using y by (auto simp: snoc) (metis in_set_conv_decomp list.set_intros(1) snoc set_append Un_iff set_ConsD)
  let ?h = "put_next z to (put_prior to z (put_prior y to (put_next to y h)))"
  have m: "list_move from to h = CLEAR_HEAD from ?h"
    using f assms(2) in_xs ds by (auto simp: list_move_def snoc)
  let ?g = "CLEAR_HEAD from ?h"
  have "dlseg ?g to xs to"
  proof (cases ys)
    case Nil
    then show ?thesis using assms(2) y ds by (simp add: snoc CLEAR_HEAD_def CLEAR_LINK_def)
  next
    case (Cons a as)
    then have "a = y" "dlseg h y as z" using d y by simp_all
    then have "dlseg ?g y as z" using assms(2) ds Cons by (intro dlseg_cong [of h y as z ?g]) (auto simp: snoc CLEAR_HEAD_def CLEAR_LINK_def)
    then show ?thesis using assms(2) ds Cons \<open>a = y\<close> by (auto simp: snoc CLEAR_HEAD_def CLEAR_LINK_def)
  qed
  moreover have "only (set (from # to # xs)) h ?g" using in_xs by (auto simp: only_def CLEAR_HEAD_def CLEAR_LINK_def)
  moreover have "ll_struct ?g = (ll_struct h)(from := 0)" by (simp add: CLEAR_HEAD_def CLEAR_LINK_def)
  moreover have "holds ?g from []" using CLEAR_HEAD_holds [of "from" ?h] ds by simp
  ultimately show ?thesis using assms unfolding m by (auto simp: holds_def ring_def)
qed

text \<open>Taking a link out and putting it back after another one, the step of \<open>swap_link\<close>.\<close>

lemma relink:
  assumes "ring h (as @ x # bs)" "as @ bs = cs @ z # ds" "ll_struct h x \<noteq> 0"
  shows "\<exists>h'. insert_link z x (ll_struct h x) LINK_INSET_AFTER (delete_link x h) = Some h' \<and> ring h' (cs @ z # x # ds) \<and>
    ll_struct h' = ll_struct h \<and> only (set (as @ x # bs)) h h'"
proof -
  have n: "as @ bs \<noteq> []" using assms(2) by simp
  note d = delete_ring [OF assms(1) n]
  have "x \<notin> set (as @ bs)" using assms(1) by (simp add: ring_def)
  then obtain h' where h': "insert_link z x (ll_struct h x) LINK_INSET_AFTER (delete_link x h) = Some h'" "ring h' (cs @ z # x # ds)"
    "ll_struct h' = (ll_struct h)(x := ll_struct h x)" "only (set (cs @ z # ds) \<union> {x}) (delete_link x h) h'"
    using insert_after [of "delete_link x h" cs z ds x "ll_struct h x"] d assms(3) by (auto simp: assms(2))
  moreover have "set (as @ x # bs) = set (as @ bs) \<union> {x}" by auto
  then have "set (as @ x # bs) = set (cs @ z # ds) \<union> {x}" by (simp only: assms(2))
  ultimately have "only (set (as @ x # bs)) h h'" using d only_trans by metis
  then show ?thesis using h' by simp
qed

definition exchange :: "nat \<Rightarrow> nat \<Rightarrow> nat \<Rightarrow> nat" where
  "exchange x y z = (if z = x then y else if z = y then x else z)"

lemma exchange_other: "x \<notin> set l \<Longrightarrow> y \<notin> set l \<Longrightarrow> map (exchange x y) l = l"
  by (auto simp: exchange_def intro: map_idI)

lemma swap_two:
  assumes "ring h (as @ x # m @ y # bs)" "as \<noteq> []" "m \<noteq> []" "ll_struct h x \<noteq> 0" "ll_struct h y \<noteq> 0" "{p, q} = {x, y}"
  shows "\<exists>h'. swap_link p q h = Some h' \<and> ring h' (as @ y # m @ x # bs) \<and> ll_struct h' = ll_struct h \<and> only (set (as @ x # m @ y # bs)) h h'"
proof -
  define a as' where a: "a = last as" "as' = butlast as"
  define b m' where b: "b = last m" "m' = butlast m"
  have e: "as = as' @ [a]" "m = m' @ [b]" using assms(2,3) by (simp_all add: a b)
  have d: "distinct (as @ x # m @ y # bs)" using assms(1) by (simp add: ring_def)
  have px: "ll_prior h x = a" "ll_prior h y = b"
    using ring_prior [of h as x "m @ y # bs"] ring_prior [of h "as @ x # m" y bs] assms(1) by (simp_all add: e)
  have nx: "ll_next h x \<noteq> y" "ll_next h y \<noteq> x"
    using ring_next [of h as x "m @ y # bs"] ring_next [of h "as @ x # m" y bs] assms(1) d by (cases m'; cases bs; cases as'; auto simp: e)+
  have S: "ll_struct h' u = ll_struct h u" if "ll_struct h' = ll_struct h" for h' u using that by simp
  from assms(6) consider "p = x" "q = y" | "p = y" "q = x" by (auto simp: doubleton_eq_iff)
  then show ?thesis
  proof cases
    case 1
    obtain h1 where h1: "insert_link b x (ll_struct h x) LINK_INSET_AFTER (delete_link x h) = Some h1" "ring h1 (as @ m @ x # y # bs)"
      "ll_struct h1 = ll_struct h" "only (set (as @ x # m @ y # bs)) h h1"
      using relink [of h as x "m @ y # bs" "as @ m'" b "y # bs"] assms(1,4) by (auto simp: e)
    obtain h2 where h2: "insert_link a y (ll_struct h y) LINK_INSET_AFTER (delete_link y h1) = Some h2" "ring h2 (as @ y # m @ x # bs)"
      "ll_struct h2 = ll_struct h" "only (set (as @ m @ x # y # bs)) h1 h2"
      using relink [of h1 "as @ m @ [x]" y bs as' a "m @ x # bs"] h1(2,3) assms(5) by (auto simp: e)
    have "set (as @ m @ x # y # bs) = set (as @ x # m @ y # bs)" by auto
    then have "only (set (as @ x # m @ y # bs)) h h2" using h1(4) h2(4) only_trans by metis
    then show ?thesis using h1 h2 nx px 1 delete_ring [of h as x "m @ y # bs"] delete_ring [of h1 "as @ m @ [x]" y bs] assms(1,2)
      by (intro exI [of _ h2]) (simp add: swap_link_def Let_def)
  next
    case 2
    obtain h1 where h1: "insert_link a y (ll_struct h y) LINK_INSET_AFTER (delete_link y h) = Some h1" "ring h1 (as @ y # x # m @ bs)"
      "ll_struct h1 = ll_struct h" "only (set (as @ x # m @ y # bs)) h h1"
      using relink [of h "as @ x # m" y bs as' a "x # m @ bs"] assms(1,5) by (auto simp: e)
    obtain h2 where h2: "insert_link b x (ll_struct h x) LINK_INSET_AFTER (delete_link x h1) = Some h2" "ring h2 (as @ y # m @ x # bs)"
      "ll_struct h2 = ll_struct h" "only (set (as @ y # x # m @ bs)) h1 h2"
      using relink [of h1 "as @ [y]" x "m @ bs" "as @ y # m'" b bs] h1(2,3) assms(4) by (auto simp: e)
    have "set (as @ y # x # m @ bs) = set (as @ x # m @ y # bs)" by auto
    then have "only (set (as @ x # m @ y # bs)) h h2" using h1(4) h2(4) only_trans by metis
    then show ?thesis using h1 h2 nx px 2 delete_ring [of h "as @ x # m" y bs] delete_ring [of h1 "as @ [y]" x "m @ bs"] assms(1,2)
      by (intro exI [of _ h2]) (simp add: swap_link_def Let_def)
  qed
qed

lemma swap_adjacent:
  assumes "ring h (as @ x # y # bs)" "as \<noteq> []" "ll_struct h x \<noteq> 0" "{p, q} = {x, y}"
  shows "\<exists>h'. swap_link p q h = Some h' \<and> ring h' (as @ y # x # bs) \<and> ll_struct h' = ll_struct h \<and> only (set (as @ x # y # bs)) h h'"
proof -
  have d: "distinct (as @ x # y # bs)" using assms(1) by (simp add: ring_def)
  have n: "ll_next h x = y" "ll_next h y = hd (bs @ as @ [x, y])"
    using ring_next [of h as x "y # bs"] ring_next [of h "as @ [x]" y bs] assms(1) by simp_all
  have n': "ll_next h y \<noteq> x" "x \<noteq> y" using d assms(2) by (cases bs; cases as; auto simp: n(2))+
  note n = n(1) n'
  obtain h' where h': "insert_link y x (ll_struct h x) LINK_INSET_AFTER (delete_link x h) = Some h'" "ring h' (as @ y # x # bs)"
    "ll_struct h' = ll_struct h" "only (set (as @ x # y # bs)) h h'"
    using relink [of h as x "y # bs" as y bs] assms(1,3) by auto
  have sx: "ll_struct (delete_link x h) x = ll_struct h x" using delete_ring [of h as x "y # bs"] assms(1) by simp
  from assms(4) consider "p = x" "q = y" | "p = y" "q = x" by (auto simp: doubleton_eq_iff)
  then have "swap_link p q h = Some h'"
  proof cases
    case 1
    then show ?thesis using n(1) h'(1) sx by (simp add: swap_link_def Let_def)
  next
    case 2
    then show ?thesis using n h'(1) sx by (simp add: swap_link_def Let_def)
  qed
  then show ?thesis using h' by blast
qed

lemma swap_link_holds:
  assumes "holds h head xs" "x \<in> set xs" "y \<in> set xs" "x \<noteq> y"
  shows "\<exists>h'. swap_link x y h = Some h' \<and> holds h' head (map (exchange x y) xs) \<and> ll_struct h' = ll_struct h \<and> only (set (head # xs)) h h'"
proof -
  obtain as bs where ab: "xs = as @ y # bs" "y \<notin> set as" using assms(3) by (meson split_list_first)
  then have "x \<in> set as \<or> x \<in> set bs" using assms(2,4) by auto
  then obtain as u m v bs where xs: "xs = as @ u # m @ v # bs" and uv: "{x, y} = {u, v}"
  proof (elim disjE)
    assume "x \<in> set as"
    then obtain cs m where "as = cs @ x # m" by (meson split_list)
    then show ?thesis using that [of cs x m y bs] ab(1) by simp
  next
    assume "x \<in> set bs"
    then obtain m cs where "bs = m @ x # cs" by (meson split_list)
    then show ?thesis using that [of as y m x cs] ab(1) by (simp add: insert_commute)
  qed
  have r: "ring h ((head # as) @ u # m @ v # bs)" and d: "distinct xs" and st: "ll_struct h u \<noteq> 0" "ll_struct h v \<noteq> 0"
    using assms(1) by (simp_all add: holds_def ring_def xs)
  have "\<exists>h'. swap_link x y h = Some h' \<and> ring h' ((head # as) @ v # m @ u # bs) \<and> ll_struct h' = ll_struct h \<and> only (set (head # xs)) h h'"
    using swap_two [OF r _ _ st uv] swap_adjacent [of h "head # as" u v bs x y] r st uv by (cases m) (auto simp: xs)
  moreover have "map (exchange x y) xs = as @ v # m @ u # bs"
  proof -
    have "exchange x y = exchange u v" using uv by (auto simp: exchange_def doubleton_eq_iff fun_eq_iff)
    then show ?thesis using d by (simp add: xs exchange_other) (simp add: exchange_def)
  qed
  moreover have "\<forall>z \<in> set (as @ v # m @ u # bs). ll_struct h z \<noteq> 0" "ll_struct h head = 0" using assms(1) by (auto simp: holds_def xs)
  ultimately show ?thesis by (auto simp: holds_def)
qed

section \<open>Walking a list\<close>

text \<open>
  The loops of the program that visit every object of a list: \<open>for (p = GET_NEXT(head); p; p = GET_NEXT(p->link))\<close>.
  \<open>link\<close> gives the address of the link inside an object.
\<close>

partial_function (option) list_walk :: "(nat \<Rightarrow> nat) \<Rightarrow> links \<Rightarrow> nat \<Rightarrow> nat list option" where
  "list_walk link h pl =
     Option.bind (get_next pl h) (\<lambda>p. if p = 0 then Some [] else Option.bind (list_walk link h (link p)) (\<lambda>ps. Some (p # ps)))"

lemma list_walk_holds:
  assumes "holds h head xs" "\<forall>x \<in> set xs. link (ll_struct h x) = x"
  shows "list_walk link h head = Some (map (ll_struct h) xs)"
proof -
  have w: "list_walk link h p = Some (map (ll_struct h) ys)"
    if "dlseg h p ys head" "set ys \<subseteq> set xs" for p ys
    using that
  proof (induction ys arbitrary: p)
    case Nil
    then show ?case using assms(1) by (subst list_walk.simps) (auto simp: get_next_def holds_def ring_def)
  next
    case (Cons y ys)
    then have "y \<in> set xs" by simp
    then have "y \<noteq> 0" using ring_nonzero [of h "head # xs" y] assms(1) by (simp add: holds_def)
    moreover have "ll_struct h y \<noteq> 0" "link (ll_struct h y) = y" using \<open>y \<in> set xs\<close> assms by (simp_all add: holds_def)
    ultimately show ?case using Cons by (subst list_walk.simps) (simp add: get_next_def)
  qed
  have "dlseg h head xs head" using assms(1) by (simp add: holds_def ring_def)
  then show ?thesis by (rule w) simp
qed

section \<open>The interface\<close>

text \<open>Appending many objects, each with its link.\<close>

fun append_all :: "(nat \<Rightarrow> nat \<Rightarrow> nat \<Rightarrow> 'h \<Rightarrow> 'h option) \<Rightarrow> nat \<Rightarrow> (nat \<times> nat) list \<Rightarrow> 'h \<Rightarrow> 'h option" where
  "append_all app head [] h = Some h"
| "append_all app head (p # ps) h = Option.bind (app head (fst p) (snd p) h) (append_all app head ps)"

text \<open>
  What the rest of the program relies on: every function acts on the list at one head, links and
  objects stay where they are, and lists whose links are disjoint from those of the list are not disturbed.
\<close>

locale link_list =
  fixes rep :: "'h \<Rightarrow> nat \<Rightarrow> nat list \<Rightarrow> bool" and idle :: "'h \<Rightarrow> nat \<Rightarrow> bool" and obj :: "'h \<Rightarrow> nat \<Rightarrow> nat"
    and app :: "nat \<Rightarrow> nat \<Rightarrow> nat \<Rightarrow> 'h \<Rightarrow> 'h option" and del :: "nat \<Rightarrow> 'h \<Rightarrow> 'h"
  assumes fresh: "rep h head xs \<Longrightarrow> head \<notin> set xs \<and> distinct xs"
    and app_rep: "rep h head xs \<Longrightarrow> idle h new \<Longrightarrow> new \<notin> set (head # xs) \<Longrightarrow> pobj \<noteq> 0 \<Longrightarrow>
      \<exists>h'. app head new pobj h = Some h' \<and> rep h' head (xs @ [new]) \<and> obj h' = (obj h)(new := pobj) \<and>
        (\<forall>p. p \<notin> set (head # new # xs) \<longrightarrow> idle h p \<longrightarrow> idle h' p) \<and>
        (\<forall>o' ys. set (o' # ys) \<inter> set (head # new # xs) = {} \<longrightarrow> rep h o' ys \<longrightarrow> rep h' o' ys)"
    and del_rep: "rep h head xs \<Longrightarrow> x \<in> set xs \<Longrightarrow>
      rep (del x h) head (remove1 x xs) \<and> idle (del x h) x \<and> obj (del x h) = obj h \<and>
        (\<forall>p. p \<notin> set (head # xs) \<longrightarrow> idle h p \<longrightarrow> idle (del x h) p) \<and>
        (\<forall>o' ys. set (o' # ys) \<inter> set (head # xs) = {} \<longrightarrow> rep h o' ys \<longrightarrow> rep (del x h) o' ys)"
begin

lemma append_all_rep:
  assumes "rep h head xs" "\<forall>p \<in> set ps. idle h (fst p) \<and> fst p \<notin> set (head # xs) \<and> snd p \<noteq> 0" "distinct (map fst ps)"
  shows "\<exists>h'. append_all app head ps h = Some h' \<and> rep h' head (xs @ map fst ps) \<and> map (obj h') (xs @ map fst ps) = map (obj h) xs @ map snd ps"
  using assms
proof (induction ps arbitrary: h xs)
  case (Cons p ps)
  obtain g where g: "app head (fst p) (snd p) h = Some g" "rep g head (xs @ [fst p])" "obj g = (obj h)(fst p := snd p)"
    "\<forall>q. q \<notin> set (head # fst p # xs) \<longrightarrow> idle h q \<longrightarrow> idle g q"
    using app_rep [of h head xs "fst p" "snd p"] Cons.prems(1,2) by auto
  have "idle g (fst q) \<and> fst q \<notin> set (head # xs @ [fst p]) \<and> snd q \<noteq> 0" if "q \<in> set ps" for q
  proof -
    have "fst q \<noteq> fst p" using Cons.prems(3) that by (metis distinct.simps(2) list.simps(9) image_eqI set_map)
    then show ?thesis using Cons.prems(2) g(4) that by simp
  qed
  then obtain h' where h': "append_all app head ps g = Some h'" "rep h' head ((xs @ [fst p]) @ map fst ps)"
    "map (obj h') ((xs @ [fst p]) @ map fst ps) = map (obj g) (xs @ [fst p]) @ map snd ps"
    using Cons.IH [OF g(2)] Cons.prems(3) by auto
  have "fst p \<notin> set xs" using Cons.prems(2) by simp
  then have "map (obj g) (xs @ [fst p]) = map (obj h) xs @ [snd p]" by (simp add: g(3))
  then show ?case using g(1) h' by simp
qed simp

lemma drain_rep:
  assumes "rep h head xs"
  shows "rep (fold del xs h) head [] \<and> obj (fold del xs h) = obj h \<and> (\<forall>x \<in> set xs. idle (fold del xs h) x)"
proof -
  have "rep (fold del ys g) head [] \<and> obj (fold del ys g) = obj g \<and> (\<forall>x. x \<in> set ys \<or> x \<noteq> head \<and> idle g x \<longrightarrow> idle (fold del ys g) x)"
    if "rep g head ys" for ys g
    using that
  proof (induction ys arbitrary: g)
    case (Cons y ys)
    have d: "rep (del y g) head ys" "idle (del y g) y" "obj (del y g) = obj g" "y \<noteq> head"
      "\<forall>p. p \<notin> set (head # y # ys) \<longrightarrow> idle g p \<longrightarrow> idle (del y g) p"
      using del_rep [OF Cons.prems, of y] fresh [OF Cons.prems] by auto
    show ?case using Cons.IH [OF d(1)] d by auto
  qed auto
  then show ?thesis using assms by blast
qed

end

lemma holds_frame_disjoint:
  assumes "only S h h'" "S \<inter> set (p # ys) = {}" "holds h p ys"
  shows "holds h' p ys"
  using holds_frame assms by blast

interpretation ll: link_list holds unlinked ll_struct append_link delete_link
proof (rule link_list.intro)
  fix h head xs assume a: "holds h head xs"
  show "head \<notin> set xs \<and> distinct xs" using a by (simp add: holds_def ring_def)
  {
    fix new pobj assume b: "unlinked h new" "new \<notin> set (head # xs)" "pobj \<noteq> (0::nat)"
    obtain h' where "append_link head new pobj h = Some h'" "holds h' head (xs @ [new])" "ll_struct h' = (ll_struct h)(new := pobj)"
      "only (set (head # xs) \<union> {new}) h h'" using append_link_holds [OF a b] by blast
    moreover have "set (head # xs) \<union> {new} = set (head # new # xs)" by auto
    ultimately show "\<exists>h'. append_link head new pobj h = Some h' \<and> holds h' head (xs @ [new]) \<and> ll_struct h' = (ll_struct h)(new := pobj) \<and>
        (\<forall>p. p \<notin> set (head # new # xs) \<longrightarrow> unlinked h p \<longrightarrow> unlinked h' p) \<and>
        (\<forall>o' ys. set (o' # ys) \<inter> set (head # new # xs) = {} \<longrightarrow> holds h o' ys \<longrightarrow> holds h' o' ys)"
      using unlinked_frame [of h _ "set (head # new # xs)" h'] holds_frame_disjoint [of "set (head # new # xs)" h h']
      by (intro exI [of _ h']) (simp only: Int_commute, blast)
  }
  fix x assume "x \<in> set xs"
  then obtain as bs where xs: "xs = as @ x # bs" "x \<notin> set as" by (meson split_list_first)
  note d = delete_link_holds [OF a [unfolded xs(1)]]
  have r: "remove1 x xs = as @ bs" "set (head # as @ x # bs) = set (head # xs)" using xs by (simp_all add: remove1_append)
  have u: "unlinked (delete_link x h) p" if "p \<notin> set (head # xs)" "unlinked h p" for p
    using unlinked_frame that d r(2) by metis
  have f: "holds (delete_link x h) o' ys" if "set (o' # ys) \<inter> set (head # xs) = {}" "holds h o' ys" for o' ys
    using holds_frame_disjoint [of "set (head # xs)" h "delete_link x h" o' ys] that d r(2) by (metis Int_commute)
  show "holds (delete_link x h) head (remove1 x xs) \<and> unlinked (delete_link x h) x \<and> ll_struct (delete_link x h) = ll_struct h \<and>
        (\<forall>p. p \<notin> set (head # xs) \<longrightarrow> unlinked h p \<longrightarrow> unlinked (delete_link x h) p) \<and>
        (\<forall>o' ys. set (o' # ys) \<inter> set (head # xs) = {} \<longrightarrow> holds h o' ys \<longrightarrow> holds (delete_link x h) o' ys)"
    using d u f unfolding r(1) by blast
qed

section \<open>Properties\<close>

text \<open>
  C9. The linked lists of the program are lists: on a ring of links that represents a list, \<open>append_link\<close>, \<open>insert_link\<close>,
  \<open>delete_link\<close>, \<open>swap_link\<close> and \<open>list_move\<close> append, insert, remove, exchange and move; \<open>is_linked\<close> ends and tells
  membership; and the loops over a list visit its objects in order. \<open>insert_link\<close> is stated for its two positions
  \<open>LINK_INSET_BEFORE\<close> and \<open>LINK_INSET_AFTER\<close>. None of the functions that change a list touches a link outside the
  lists it is given.
\<close>

theorem list_functions:
  assumes "holds h head xs"
  shows "(\<forall>new pobj. unlinked h new \<and> new \<notin> set (head # xs) \<and> pobj \<noteq> 0 \<longrightarrow>
      (\<exists>h'. append_link head new pobj h = Some h' \<and> holds h' head (xs @ [new]) \<and> ll_struct h' = (ll_struct h)(new := pobj) \<and> only (set (head # xs) \<union> {new}) h h')) \<and>
    (\<forall>as x bs new pobj. xs = as @ x # bs \<and> unlinked h new \<and> new \<notin> set (head # xs) \<and> pobj \<noteq> 0 \<longrightarrow>
      (\<exists>h'. insert_link x new pobj LINK_INSET_AFTER h = Some h' \<and> holds h' head (as @ x # new # bs) \<and> only (set (head # xs) \<union> {new}) h h') \<and>
      (\<exists>h'. insert_link x new pobj LINK_INSET_BEFORE h = Some h' \<and> holds h' head (as @ new # x # bs) \<and> only (set (head # xs) \<union> {new}) h h')) \<and>
    (\<forall>x \<in> set xs. holds (delete_link x h) head (remove1 x xs) \<and> unlinked (delete_link x h) x \<and> only (set (head # xs)) h (delete_link x h)) \<and>
    (\<forall>x \<in> set xs. \<forall>y \<in> set xs. x \<noteq> y \<longrightarrow> (\<exists>h'. swap_link x y h = Some h' \<and> holds h' head (map (exchange x y) xs) \<and> only (set (head # xs)) h h')) \<and>
    (\<forall>to. to \<notin> set (head # xs) \<and> to \<noteq> 0 \<and> ll_struct h to = 0 \<longrightarrow> holds (list_move head to h) to xs \<and> holds (list_move head to h) head [] \<and>
      only (set (head # to # xs)) h (list_move head to h)) \<and>
    (\<forall>entry. is_linked head entry h = Some (if entry \<in> set xs then 1 else 0)) \<and>
    (\<forall>link. (\<forall>x \<in> set xs. link (ll_struct h x) = x) \<longrightarrow> list_walk link h head = Some (map (ll_struct h) xs))"
proof -
  have del: "holds (delete_link x h) head (remove1 x xs) \<and> unlinked (delete_link x h) x \<and> only (set (head # xs)) h (delete_link x h)" if x: "x \<in> set xs" for x
  proof -
    obtain as bs where xs: "xs = as @ x # bs" "x \<notin> set as" using x by (meson split_list_first)
    then show ?thesis using delete_link_holds [OF assms [unfolded xs(1)]] by (simp add: remove1_append)
  qed
  show ?thesis
  proof (intro conjI allI impI ballI, goal_cases)
    case (1 new pobj)
    then show ?case using append_link_holds [OF assms] by blast
  next
    case (2 as x bs new pobj)
    then show ?case using insert_link_holds [of h head as x bs new pobj LINK_INSET_AFTER] assms by auto
  next
    case (3 as x bs new pobj)
    then show ?case using insert_link_holds [of h head as x bs new pobj LINK_INSET_BEFORE] assms by (auto simp: LINK_INSET_BEFORE_def LINK_INSET_AFTER_def)
  next
    case (7 x y)
    then show ?case using swap_link_holds [OF assms] by blast
  qed (use del list_move_holds [OF assms] is_linked_holds [OF assms] list_walk_holds [OF assms] in blast)+
qed

definition empty_heap :: links where
  "empty_heap = \<lparr>ll_prior = (\<lambda>p. p), ll_next = (\<lambda>p. p), ll_struct = (\<lambda>_. 0)\<rparr>"

theorem list_functions_witness:
  "\<exists>h. append_link 1 2 7 empty_heap = Some h \<and> holds h 1 [2] \<and> is_linked 1 2 empty_heap = Some 0"
proof -
  have e: "holds empty_heap 1 []" by (simp add: holds_def ring_def empty_heap_def)
  have "unlinked empty_heap 2 \<and> (2 :: nat) \<notin> set [1] \<and> (7 :: nat) \<noteq> 0" by (simp add: unlinked_def empty_heap_def)
  then show ?thesis using list_functions [OF e] by (elim conjE allE [of _ 2] allE [of _ 7]) auto
qed

end
