(* ===== verification/Pbs_Bitmap.thy ===== *)
theory Pbs_Bitmap
  imports Prelude
begin

unbundle bit_operations_syntax

text \<open>
  The bitmaps of the scheduler (\<open>src/src/scheduler/pbs_bitmap.c\<close>), which record the nodes a job can run on.
  A bitmap is an array of 64-bit longs that grows on demand. Bit numbers are natural numbers (a negative one would index
  before the array); the functions that return a bit number return an \<open>int\<close>, so the number
  is reduced to 32 bits. The predicate \<open>cal\<close> says which allocations succeed. \<open>NULL\<close> in \<open>bits\<close> is the empty list.

  The lemmas show that a bitmap represents a finite set and what each operation does to that set.
\<close>

section \<open>Operations\<close>

record pbs_bitmap =
  bits :: "ulong list"
  num_longs :: nat
  num_bits :: nat

definition BYTES_TO_BITS :: "nat \<Rightarrow> nat" where "BYTES_TO_BITS x = x * 8"

text \<open>The number of bits of an \<open>unsigned long\<close>.\<close>

abbreviation LONG_BITS :: nat where "LONG_BITS \<equiv> BYTES_TO_BITS 8"

text \<open>The value of a \<open>long\<close> returned as an \<open>int\<close>.\<close>

definition as_int :: "nat \<Rightarrow> int" where "as_int n = sint (of_nat n :: uint)"

definition test_bit :: "ulong \<Rightarrow> nat \<Rightarrow> bool" where
  "test_bit w i \<longleftrightarrow> w AND push_bit i 1 \<noteq> 0"

definition pbs_bitmap_get_bit :: "pbs_bitmap option \<Rightarrow> nat \<Rightarrow> int" where
  "pbs_bitmap_get_bit pbm b =
     (case pbm of None \<Rightarrow> 0
      | Some pbm \<Rightarrow> if b \<ge> num_bits pbm then 0 else if test_bit (bits pbm ! (b div LONG_BITS)) (b mod LONG_BITS) then 1 else 0)"

text \<open>The two loops over the bits of a long, from \<open>i\<close> on.\<close>

definition find_bit :: "ulong \<Rightarrow> nat \<Rightarrow> nat option" where
  "find_bit w i = find (test_bit w) [i..<LONG_BITS]"

text \<open>The loop over the longs that are zero.\<close>

function skip_zero :: "pbs_bitmap \<Rightarrow> nat \<Rightarrow> nat" where
  "skip_zero pbm l = (if l < num_longs pbm \<and> bits pbm ! l = 0 then skip_zero pbm (l + 1) else l)"
  by auto
termination by (relation "measure (\<lambda>(pbm, l). num_longs pbm - l)") auto

definition next_long :: "pbs_bitmap \<Rightarrow> nat \<Rightarrow> int" where
  "next_long pbm l =
     (let l = skip_zero pbm l in
      if l = num_longs pbm then - 1
      else case find_bit (bits pbm ! l) 0 of Some i \<Rightarrow> as_int (l * LONG_BITS + i) | None \<Rightarrow> - 1)"

definition pbs_bitmap_next_on_bit :: "pbs_bitmap option \<Rightarrow> nat \<Rightarrow> int" where
  "pbs_bitmap_next_on_bit pbm start_bit =
     (case pbm of None \<Rightarrow> - 1
      | Some pbm \<Rightarrow>
        if start_bit \<ge> num_bits pbm then - 1
        else let l = start_bit div LONG_BITS; b = start_bit mod LONG_BITS in
          if bits pbm ! l \<noteq> 0 then
            case find_bit (bits pbm ! l) (b + 1) of Some i \<Rightarrow> as_int (l * LONG_BITS + i)
            | None \<Rightarrow> next_long pbm (if l < num_longs pbm then l + 1 else l)
          else next_long pbm l)"

definition pbs_bitmap_first_on_bit :: "pbs_bitmap option \<Rightarrow> int" where
  "pbs_bitmap_first_on_bit bm = (if pbs_bitmap_get_bit bm 0 \<noteq> 0 then 0 else pbs_bitmap_next_on_bit bm 0)"

text \<open>
  The second part of \<open>pbs_bitmap_alloc\<close>, all of it when the bitmap does not shrink. The status says whether the
  result is not \<open>NULL\<close>. When the allocation fails, the numbers of bits and longs have already been changed.
\<close>

definition bitmap_resize :: "(nat \<Rightarrow> bool) \<Rightarrow> pbs_bitmap \<Rightarrow> nat \<Rightarrow> bool \<times> pbs_bitmap" where
  "bitmap_resize cal bm n =
     (if num_longs bm * LONG_BITS \<ge> n then (True, bm\<lparr>num_bits := n\<rparr>)
      else let longs = n div LONG_BITS + (if n mod LONG_BITS > 0 then 1 else 0);
               bm' = bm\<lparr>num_bits := n, num_longs := longs\<rparr>
           in if \<not> cal (longs * 8) then (False, bm')
              else (True, bm'\<lparr>bits := take (num_longs bm) (bits bm) @ replicate (longs - num_longs bm) 0\<rparr>))"

text \<open>
  \<open>pbs_bitmap_bit_on\<close> and \<open>pbs_bitmap_bit_off\<close> ask \<open>pbs_bitmap_alloc\<close> for more bits than there are, so that it does not shrink
  the bitmap: \<open>grow_for_bit\<close> is that call.
\<close>

definition grow_for_bit :: "(nat \<Rightarrow> bool) \<Rightarrow> pbs_bitmap \<Rightarrow> nat \<Rightarrow> bool \<times> pbs_bitmap" where
  "grow_for_bit cal pbm b = (if b \<ge> num_bits pbm then bitmap_resize cal pbm (b + 1) else (True, pbm))"

definition change_bit :: "(ulong \<Rightarrow> ulong \<Rightarrow> ulong) \<Rightarrow> (nat \<Rightarrow> bool) \<Rightarrow> pbs_bitmap option \<Rightarrow> nat \<Rightarrow> int \<times> pbs_bitmap option" where
  "change_bit f cal pbm b =
     (case pbm of None \<Rightarrow> (0, None)
      | Some pbm \<Rightarrow>
        case grow_for_bit cal pbm b of (ok, pbm) \<Rightarrow>
          if \<not> ok then (0, Some pbm)
          else let l = b div LONG_BITS; m = push_bit (b mod LONG_BITS) 1
               in (1, Some (pbm\<lparr>bits := (bits pbm)[l := f (bits pbm ! l) m]\<rparr>)))"

definition pbs_bitmap_bit_on :: "(nat \<Rightarrow> bool) \<Rightarrow> pbs_bitmap option \<Rightarrow> nat \<Rightarrow> int \<times> pbs_bitmap option" where
  "pbs_bitmap_bit_on = change_bit (\<lambda>w m. w OR m)"

definition pbs_bitmap_bit_off :: "(nat \<Rightarrow> bool) \<Rightarrow> pbs_bitmap option \<Rightarrow> nat \<Rightarrow> int \<times> pbs_bitmap option" where
  "pbs_bitmap_bit_off = change_bit (\<lambda>w m. w AND NOT m)"

text \<open>
  The loop that turns off the bits after \<open>i\<close>. Bit numbers increase and stay below the number of
  bits there is room for, which is the fuel.
\<close>

fun clear_after :: "nat \<Rightarrow> (nat \<Rightarrow> bool) \<Rightarrow> pbs_bitmap \<Rightarrow> nat \<Rightarrow> pbs_bitmap" where
  "clear_after 0 cal bm i = bm"
| "clear_after (Suc n) cal bm i =
     (let j = pbs_bitmap_next_on_bit (Some bm) i in
      if j = - 1 then bm else clear_after n cal (the (snd (pbs_bitmap_bit_off cal (Some bm) (nat j)))) (nat j))"

definition zero_longs :: "pbs_bitmap \<Rightarrow> nat \<Rightarrow> pbs_bitmap" where
  "zero_longs bm i = bm\<lparr>bits := map (\<lambda>k. if i \<le> k \<and> k < num_longs bm then 0 else bits bm ! k) [0..<length (bits bm)]\<rparr>"

definition pbs_bitmap_alloc :: "(nat \<Rightarrow> bool) \<Rightarrow> pbs_bitmap option \<Rightarrow> int \<Rightarrow> bool \<times> pbs_bitmap option" where
  "pbs_bitmap_alloc cal pbm n =
     (if n \<le> 0 then (False, pbm)
      else if pbm = None \<and> \<not> cal 24 then (False, None)
      else let bm = (case pbm of None \<Rightarrow> \<lparr>bits = [], num_longs = 0, num_bits = 0\<rparr> | Some bm \<Rightarrow> bm);
               bm = (if nat n < num_bits bm then
                   clear_after (num_longs bm * LONG_BITS) cal (zero_longs bm (nat n div LONG_BITS + 1)) (nat n) else bm)
           in case bitmap_resize cal bm (nat n) of (ok, bm) \<Rightarrow> (ok, if \<not> ok \<and> pbm = None then None else Some bm))"

definition pbs_bitmap_assign :: "(nat \<Rightarrow> bool) \<Rightarrow> pbs_bitmap option \<Rightarrow> pbs_bitmap option \<Rightarrow> int \<times> pbs_bitmap option" where
  "pbs_bitmap_assign cal L R =
     (case (L, R) of
        (Some l, Some r) \<Rightarrow>
          (case (if num_longs r > num_longs l then pbs_bitmap_alloc cal (Some l) (int (BYTES_TO_BITS (num_longs r * 8))) else (True, Some l)) of
             (ok, l) \<Rightarrow>
               if \<not> ok then (0, l)
               else (1, map_option (\<lambda>l. l\<lparr>bits := take (num_longs r) (bits r) @ replicate (num_longs l - num_longs r) 0, num_bits := num_bits r\<rparr>) l))
      | _ \<Rightarrow> (0, L))"

definition pbs_bitmap_is_equal :: "pbs_bitmap option \<Rightarrow> pbs_bitmap option \<Rightarrow> int" where
  "pbs_bitmap_is_equal L R =
     (case (L, R) of
        (Some l, Some r) \<Rightarrow>
          if num_bits l \<noteq> num_bits r then 0
          else if \<exists>i < num_longs l. bits l ! i \<noteq> bits r ! i then 0 else 1
      | _ \<Rightarrow> 0)"

section \<open>Bitmaps as sets\<close>

definition bm_wf :: "pbs_bitmap \<Rightarrow> bool" where
  "bm_wf bm \<longleftrightarrow> num_longs bm = length (bits bm) \<and> num_bits bm \<le> 64 * num_longs bm \<and> 64 * num_longs bm < 2 ^ 31"

text \<open>The bits that are on in the array, also those past the number of bits.\<close>

definition bm_set :: "pbs_bitmap \<Rightarrow> nat set" where
  "bm_set bm = {b. b < 64 * length (bits bm) \<and> bit (bits bm ! (b div 64)) (b mod 64)}"

definition bm_clean :: "pbs_bitmap \<Rightarrow> bool" where
  "bm_clean bm \<longleftrightarrow> bm_set bm \<subseteq> {..<num_bits bm}"

lemma LONG_BITS_64 [simp]: "LONG_BITS = 64" by (simp add: BYTES_TO_BITS_def)

lemma test_bit_iff [simp]: "test_bit w i \<longleftrightarrow> bit w i"
  by (simp add: test_bit_def push_bit_of_1 and_exp_eq_0_iff_not_bit)

lemma get_bit_iff:
  assumes "bm_wf bm" "bm_clean bm"
  shows "pbs_bitmap_get_bit (Some bm) b = (if b \<in> bm_set bm then 1 else 0)"
  using assms by (auto simp: pbs_bitmap_get_bit_def bm_set_def bm_wf_def bm_clean_def)

lemma bm_set_upd:
  assumes "l < length (bits bm)"
  shows "bm_set (bm\<lparr>bits := (bits bm)[l := w]\<rparr>) = {b \<in> bm_set bm. b div 64 \<noteq> l} \<union> {b. b div 64 = l \<and> bit w (b mod 64)}"
  using assms by (auto simp: bm_set_def nth_list_update split: if_splits)

lemma div_mod_64: "b div 64 = c div 64 \<Longrightarrow> b mod 64 = c mod 64 \<Longrightarrow> b = (c::nat)"
  by (metis mult_div_mod_eq)

lemma bit_one_bit: "i < 64 \<Longrightarrow> bit (push_bit k (1 :: ulong)) i \<longleftrightarrow> i = k"
  by (auto simp: bit_exp_iff)

text \<open>Growing and changing one bit.\<close>

lemma resize_wf:
  assumes "bm_wf bm" "cal = (\<lambda>_. True)" "n \<le> 2 ^ 31 - 64"
  shows "\<exists>bm'. bitmap_resize cal bm n = (True, bm') \<and> bm_wf bm' \<and> bm_set bm' = bm_set bm \<and> num_bits bm' = n \<and> n \<le> 64 * length (bits bm') \<and>
    (n \<le> 64 * num_longs bm \<longrightarrow> length (bits bm') = length (bits bm))"
proof (cases "num_longs bm * 64 \<ge> n")
  case True
  then show ?thesis using assms(1) by (simp add: bitmap_resize_def bm_wf_def bm_set_def)
next
  case False
  let ?m = "n div 64 + (if n mod 64 > 0 then 1 else 0)"
  obtain q k where qk: "n div 64 = q" "n mod 64 = k" by simp
  have n: "n = 64 * q + k" "k < 64" using qk by auto
  have m: "n \<le> 64 * ?m" "64 * ?m < 2 ^ 31" "num_longs bm < ?m"
    unfolding qk using n assms(3) False by (cases "k > 0"; simp)+
  let ?bm = "bm\<lparr>num_bits := n, num_longs := ?m, bits := bits bm @ replicate (?m - num_longs bm) 0\<rparr>"
  have "bitmap_resize cal bm n = (True, ?bm)"
    using False assms(1,2) by (simp add: bitmap_resize_def bm_wf_def Let_def)
  moreover have "bm_wf ?bm" using m assms(1) by (simp add: bm_wf_def)
  moreover have "bm_set ?bm = bm_set bm"
  proof -
    have "(b < 64 * ?m \<and> bit (bits ?bm ! (b div 64)) (b mod 64)) = (b < 64 * length (bits bm) \<and> bit (bits bm ! (b div 64)) (b mod 64))" for b
      using m(3) assms(1) by (auto simp: bm_wf_def nth_append split: if_splits)
    then show ?thesis using m(3) assms(1) by (simp add: bm_set_def bm_wf_def)
  qed
  ultimately show ?thesis using m assms(1) False by (intro exI [of _ ?bm]) (simp add: bm_wf_def)
qed

lemma change_bit_set:
  assumes "bm_wf bm" "b < 2 ^ 31 - 64"
  shows "\<exists>bm'. change_bit f (\<lambda>_. True) (Some bm) b = (1, Some bm') \<and> bm_wf bm' \<and> num_bits bm' = max (num_bits bm) (b + 1) \<and>
    (b < 64 * num_longs bm \<longrightarrow> num_longs bm' = num_longs bm) \<and>
    (\<exists>w. (\<forall>i < 64. bit w i \<longleftrightarrow> 64 * (b div 64) + i \<in> bm_set bm) \<and>
      bm_set bm' = {c \<in> bm_set bm. c div 64 \<noteq> b div 64} \<union> {c. c div 64 = b div 64 \<and> bit (f w (push_bit (b mod 64) 1)) (c mod 64)})"
proof -
  obtain bm1 where g: "grow_for_bit (\<lambda>_. True) bm b = (True, bm1)" "bm_wf bm1" "bm_set bm1 = bm_set bm" "num_bits bm1 = max (num_bits bm) (b + 1)"
    "b < 64 * length (bits bm1)" "b < 64 * num_longs bm \<longrightarrow> num_longs bm1 = num_longs bm"
  proof (cases "b \<ge> num_bits bm")
    case True
    then show ?thesis using resize_wf [OF assms(1) refl, of "b + 1"] assms that by (auto simp: grow_for_bit_def bm_wf_def)
  next
    case False
    then show ?thesis using assms that [of bm] by (simp add: grow_for_bit_def bm_wf_def)
  qed
  let ?l = "b div 64" and ?w = "bits bm1 ! (b div 64)"
  have l: "?l < length (bits bm1)" using g(5) by auto
  let ?bm = "bm1\<lparr>bits := (bits bm1)[?l := f ?w (push_bit (b mod 64) 1)]\<rparr>"
  have "change_bit f (\<lambda>_. True) (Some bm) b = (1, Some ?bm)" by (simp add: change_bit_def g(1) Let_def)
  moreover have "bm_wf ?bm" using g(2) by (simp add: bm_wf_def)
  moreover have "\<forall>i < 64. bit ?w i \<longleftrightarrow> 64 * ?l + i \<in> bm_set bm" unfolding g(3) [symmetric] using l by (auto simp: bm_set_def)
  moreover note bm_set_upd [OF l, of "f ?w (push_bit (b mod 64) 1)"]
  ultimately show ?thesis using g(3,4,6) by (intro exI [of _ ?bm] conjI exI [of _ ?w]) simp_all
qed

lemma bit_on_set:
  assumes "bm_wf bm" "b < 2 ^ 31 - 64"
  shows "\<exists>bm'. pbs_bitmap_bit_on (\<lambda>_. True) (Some bm) b = (1, Some bm') \<and> bm_wf bm' \<and> num_bits bm' = max (num_bits bm) (b + 1) \<and>
    bm_set bm' = insert b (bm_set bm)"
proof -
  obtain bm' and w :: ulong where w: "pbs_bitmap_bit_on (\<lambda>_. True) (Some bm) b = (1, Some bm')" "bm_wf bm'" "num_bits bm' = max (num_bits bm) (b + 1)"
    "\<forall>i < 64. bit w i \<longleftrightarrow> 64 * (b div 64) + i \<in> bm_set bm"
    "bm_set bm' = {c \<in> bm_set bm. c div 64 \<noteq> b div 64} \<union> {c. c div 64 = b div 64 \<and> bit (w OR push_bit (b mod 64) 1) (c mod 64)}"
    using change_bit_set [OF assms, of "\<lambda>w m. w OR m"] unfolding pbs_bitmap_bit_on_def by blast
  have "bit (w OR push_bit (b mod 64) 1) (c mod 64) \<longleftrightarrow> c = b \<or> c \<in> bm_set bm" if "c div 64 = b div 64" for c
  proof -
    have e: "64 * (b div 64) + c mod 64 = c" unfolding that [symmetric] by (rule mult_div_mod_eq)
    have "bit w (c mod 64) \<longleftrightarrow> c \<in> bm_set bm" using w(4) [rule_format, of "c mod 64", unfolded e] by simp
    moreover have "c mod 64 = b mod 64 \<longleftrightarrow> c = b" using div_mod_64 that by blast
    ultimately show ?thesis using bit_one_bit [of "c mod 64" "b mod 64"] by (simp only: bit_or_iff) auto
  qed
  then show ?thesis using w by auto
qed

lemma bit_off_set:
  assumes "bm_wf bm" "b < 2 ^ 31 - 64"
  shows "\<exists>bm'. pbs_bitmap_bit_off (\<lambda>_. True) (Some bm) b = (1, Some bm') \<and> bm_wf bm' \<and> num_bits bm' = max (num_bits bm) (b + 1) \<and>
    (b < 64 * num_longs bm \<longrightarrow> num_longs bm' = num_longs bm) \<and> bm_set bm' = bm_set bm - {b}"
proof -
  obtain bm' and w :: ulong where w: "pbs_bitmap_bit_off (\<lambda>_. True) (Some bm) b = (1, Some bm')" "bm_wf bm'" "num_bits bm' = max (num_bits bm) (b + 1)"
    "b < 64 * num_longs bm \<longrightarrow> num_longs bm' = num_longs bm" "\<forall>i < 64. bit w i \<longleftrightarrow> 64 * (b div 64) + i \<in> bm_set bm"
    "bm_set bm' = {c \<in> bm_set bm. c div 64 \<noteq> b div 64} \<union> {c. c div 64 = b div 64 \<and> bit (w AND NOT (push_bit (b mod 64) 1)) (c mod 64)}"
    using change_bit_set [OF assms, of "\<lambda>w m. w AND NOT m"] unfolding pbs_bitmap_bit_off_def by blast
  have "bit (w AND NOT (push_bit (b mod 64) 1)) (c mod 64) \<longleftrightarrow> c \<noteq> b \<and> c \<in> bm_set bm" if "c div 64 = b div 64" for c
  proof -
    have e: "64 * (b div 64) + c mod 64 = c" unfolding that [symmetric] by (rule mult_div_mod_eq)
    have "bit w (c mod 64) \<longleftrightarrow> c \<in> bm_set bm" using w(5) [rule_format, of "c mod 64", unfolded e] by simp
    moreover have "c mod 64 = b mod 64 \<longleftrightarrow> c = b" using div_mod_64 that by blast
    ultimately show ?thesis using bit_one_bit [of "c mod 64" "b mod 64"] by (simp only: bit_and_iff bit_not_iff) auto
  qed
  then show ?thesis using w by auto
qed

section \<open>Searching\<close>

text \<open>The least element of a set from a number on, or \<open>-1\<close>.\<close>

definition next_in :: "nat set \<Rightarrow> nat \<Rightarrow> int" where
  "next_in S lo = (if \<exists>b \<in> S. lo \<le> b then int (LEAST b. b \<in> S \<and> lo \<le> b) else - 1)"

lemma next_in_eq: "b \<in> S \<Longrightarrow> lo \<le> b \<Longrightarrow> (\<And>c. c \<in> S \<Longrightarrow> lo \<le> c \<Longrightarrow> b \<le> c) \<Longrightarrow> next_in S lo = int b"
  by (auto simp: next_in_def intro: Least_equality)

lemma next_in_none: "(\<And>c. c \<in> S \<Longrightarrow> lo \<le> c \<Longrightarrow> False) \<Longrightarrow> next_in S lo = - 1"
  by (auto simp: next_in_def)

lemma next_in_skip: "(\<And>c. c \<in> S \<Longrightarrow> lo \<le> c \<Longrightarrow> c < hi \<Longrightarrow> False) \<Longrightarrow> lo \<le> hi \<Longrightarrow> next_in S lo = next_in S hi"
proof -
  assume a: "\<And>c. c \<in> S \<Longrightarrow> lo \<le> c \<Longrightarrow> c < hi \<Longrightarrow> False" "lo \<le> hi"
  then have "b \<in> S \<and> lo \<le> b \<longleftrightarrow> b \<in> S \<and> hi \<le> b" for b by (meson le_trans not_less)
  then show ?thesis unfolding next_in_def by auto
qed

lemma next_in_cases:
  obtains "next_in S lo = - 1" "\<And>c. c \<in> S \<Longrightarrow> lo \<le> c \<Longrightarrow> False"
  | b where "next_in S lo = int b" "b \<in> S" "lo \<le> b" "\<And>c. c \<in> S \<Longrightarrow> lo \<le> c \<Longrightarrow> b \<le> c"
proof (cases "\<exists>b \<in> S. lo \<le> b")
  case True
  let ?b = "LEAST b. b \<in> S \<and> lo \<le> b"
  have "?b \<in> S \<and> lo \<le> ?b" using True LeastI_ex [of "\<lambda>b. b \<in> S \<and> lo \<le> b"] by blast
  moreover have "?b \<le> c" if "c \<in> S" "lo \<le> c" for c using Least_le [of "\<lambda>b. b \<in> S \<and> lo \<le> b" c] that by blast
  ultimately show ?thesis using that(2) [of ?b] True by (simp add: next_in_def)
qed (use that(1) in \<open>auto simp: next_in_def\<close>)

lemma find_bit_None: "find_bit w i = None \<longleftrightarrow> (\<forall>j. i \<le> j \<and> j < 64 \<longrightarrow> \<not> bit w j)"
  by (auto simp: find_bit_def find_None_iff)

lemma find_bit_Some: "find_bit w i = Some j \<Longrightarrow> i \<le> j \<and> j < 64 \<and> bit w j \<and> (\<forall>k. i \<le> k \<and> k < j \<longrightarrow> \<not> bit w k)"
proof -
  assume "find_bit w i = Some j"
  then obtain n where n: "n < length [i..<64]" "bit w ([i..<64] ! n)" "j = [i..<64] ! n" "\<forall>m < n. \<not> bit w ([i..<64] ! m)"
    by (auto simp: find_bit_def find_Some_iff)
  then have j: "j = i + n" "n < 64 - i" by simp_all
  have "\<not> bit w k" if "i \<le> k" "k < j" for k using n(4) [rule_format, of "k - i"] that j by simp
  then show ?thesis using n(2,3) j by simp
qed

lemma as_int_small: "n < 2 ^ 31 \<Longrightarrow> as_int n = int n"
  by (simp add: as_int_def sint_of_nat_uint)

text \<open>The first bit of a long from bit \<open>i\<close> on is the first bit of the set from \<open>64 * l + i\<close> on.\<close>

lemma bm_set_in_long: "j < 64 \<Longrightarrow> 64 * l + j \<in> bm_set bm \<longleftrightarrow> l < length (bits bm) \<and> bit (bits bm ! l) j"
  by (auto simp: bm_set_def)

lemma find_in_long:
  assumes "bm_wf bm" "l < num_longs bm" "i \<le> 64"
  shows "(case find_bit (bits bm ! l) i of Some j \<Rightarrow> as_int (l * 64 + j) | None \<Rightarrow> next_in (bm_set bm) (64 * (l + 1))) = next_in (bm_set bm) (64 * l + i)"
proof (cases "find_bit (bits bm ! l) i")
  case None
  have "\<not> (c \<in> bm_set bm \<and> 64 * l + i \<le> c \<and> c < 64 * (l + 1))" for c
  proof
    assume c: "c \<in> bm_set bm \<and> 64 * l + i \<le> c \<and> c < 64 * (l + 1)"
    then have "c div 64 = l" by auto
    then have e: "c = 64 * l + c mod 64" by (metis mult_div_mod_eq)
    then have "i \<le> c mod 64" using c by linarith
    moreover have "c mod 64 < 64" by simp
    moreover note e
    ultimately have "c = 64 * l + c mod 64" "i \<le> c mod 64" "c mod 64 < 64" by blast+
    then show False using None c bm_set_in_long [of "c mod 64" l bm] by (metis find_bit_None)
  qed
  then show ?thesis using None assms(3) next_in_skip [of "bm_set bm" "64 * l + i" "64 * (l + 1)"] by (simp add: mult.commute)
next
  case (Some j)
  note j = find_bit_Some [OF Some]
  have m: "64 * l + j \<in> bm_set bm" using j assms by (simp add: bm_set_in_long bm_wf_def)
  have "64 * l + j \<le> c" if "c \<in> bm_set bm" "64 * l + i \<le> c" for c
  proof (rule ccontr)
    assume n: "\<not> 64 * l + j \<le> c"
    then have "c = 64 * l + (c - 64 * l)" "i \<le> c - 64 * l" "c - 64 * l < j" using that(2) by simp_all
    then show False using j that(1) bm_set_in_long [of "c - 64 * l" l bm] by (metis less_trans)
  qed
  then have "next_in (bm_set bm) (64 * l + i) = int (64 * l + j)" using m j by (intro next_in_eq) auto
  moreover have "64 * l + j < 2 ^ 31" using assms(1,2) j by (simp add: bm_wf_def)
  ultimately show ?thesis using Some by (simp add: as_int_small mult.commute)
qed

lemma next_long_eq:
  assumes "bm_wf bm" "l \<le> num_longs bm"
  shows "next_long bm l = next_in (bm_set bm) (64 * l)"
  using assms(2)
proof (induction rule: inc_induct)
  case base
  have "next_in (bm_set bm) (64 * num_longs bm) = - 1" using assms(1) by (intro next_in_none) (auto simp: bm_set_def bm_wf_def)
  then show ?case by (simp add: next_long_def skip_zero.simps)
next
  case (step l)
  note f = find_in_long [OF assms(1) step(2), of 0]
  show ?case
  proof (cases "bits bm ! l = 0")
    case True
    have "next_long bm l = next_long bm (Suc l)" unfolding next_long_def using True step(2) by (subst skip_zero.simps) simp
    moreover have "find_bit (bits bm ! l) 0 = None" using True by (simp add: find_bit_None)
    ultimately show ?thesis using step(3) f by simp
  next
    case False
    have "find_bit (bits bm ! l) 0 \<noteq> None"
    proof
      assume "find_bit (bits bm ! l) 0 = None"
      then have "bits bm ! l = 0" by (intro bit_word_eqI) (simp add: find_bit_None)
      then show False using False by simp
    qed
    then show ?thesis using False f step(2) by (auto simp: next_long_def skip_zero.simps)
  qed
qed

lemma next_on_bit_eq:
  assumes "bm_wf bm"
  shows "pbs_bitmap_next_on_bit (Some bm) s = (if s \<ge> num_bits bm then - 1 else next_in (bm_set bm) (s + 1))"
proof (cases "s \<ge> num_bits bm")
  case False
  let ?l = "s div 64"
  have l: "?l < num_longs bm" using False assms by (auto simp: bm_wf_def)
  have s: "64 * ?l + (s mod 64 + 1) = s + 1" by simp
  have "s mod 64 + 1 \<le> 64" using mod_less_divisor [of 64 s] by linarith
  note f = find_in_long [OF assms l this, unfolded s]
  show ?thesis
  proof (cases "bits bm ! ?l = 0")
    case True
    then have "find_bit (bits bm ! ?l) (s mod 64 + 1) = None" "find_bit (bits bm ! ?l) 0 = None" by (simp_all add: find_bit_None)
    moreover have "next_long bm ?l = next_in (bm_set bm) (64 * ?l)" using next_long_eq [OF assms] l by simp
    ultimately show ?thesis using f find_in_long [OF assms l, of 0] True False by (simp add: pbs_bitmap_next_on_bit_def)
  next
    case nz: False
    have "next_long bm (?l + 1) = next_in (bm_set bm) (64 * (?l + 1))" using next_long_eq [OF assms] l by simp
    then show ?thesis using f nz False l by (simp add: pbs_bitmap_next_on_bit_def Let_def split: option.splits)
  qed
qed (simp add: pbs_bitmap_next_on_bit_def)

lemma first_on_bit_eq:
  assumes "bm_wf bm" "bm_clean bm"
  shows "pbs_bitmap_first_on_bit (Some bm) = next_in (bm_set bm) 0"
proof (cases "0 \<in> bm_set bm")
  case True
  then have "next_in (bm_set bm) 0 = int 0" by (intro next_in_eq) auto
  then show ?thesis using True get_bit_iff [OF assms, of 0] by (simp add: pbs_bitmap_first_on_bit_def)
next
  case False
  have "next_in (bm_set bm) 0 = next_in (bm_set bm) 1"
  proof (rule next_in_skip)
    show "False" if "c \<in> bm_set bm" "c < 1" for c using that False by (cases c) auto
  qed simp
  moreover have "num_bits bm = 0 \<Longrightarrow> next_in (bm_set bm) 1 = - 1" using assms(2) by (intro next_in_none) (auto simp: bm_clean_def)
  ultimately show ?thesis using False get_bit_iff [OF assms, of 0] next_on_bit_eq [OF assms(1), of 0] by (auto simp: pbs_bitmap_first_on_bit_def)
qed

text \<open>
  The loops of the scheduler over a bitmap, \<open>for (i = first_on_bit(bm); i >= 0; i = next_on_bit(bm, i))\<close>, with the number of
  bits as fuel, visit the elements of the set in increasing order.
\<close>

fun on_bits :: "nat \<Rightarrow> pbs_bitmap \<Rightarrow> int \<Rightarrow> nat list" where
  "on_bits 0 bm i = []"
| "on_bits (Suc n) bm i = (if i < 0 then [] else nat i # on_bits n bm (pbs_bitmap_next_on_bit (Some bm) (nat i)))"

lemma on_bits_sorted:
  assumes "bm_wf bm" "bm_clean bm"
  shows "on_bits (num_bits bm) bm (pbs_bitmap_first_on_bit (Some bm)) = sorted_list_of_set (bm_set bm)"
proof -
  have fin: "finite (bm_set bm)" using assms(2) finite_subset by (auto simp: bm_clean_def)
  have "on_bits n bm (next_in (bm_set bm) lo) = sorted_list_of_set {b \<in> bm_set bm. lo \<le> b}" if "num_bits bm \<le> n + lo" for n lo
    using that
  proof (induction n arbitrary: lo)
    case 0
    then have e: "{b \<in> bm_set bm. lo \<le> b} = {}" using assms(2) by (auto simp: bm_clean_def)
    show ?case unfolding e by simp
  next
    case (Suc n)
    show ?case
    proof (cases rule: next_in_cases [of "bm_set bm" lo])
      case 1
      then have e: "{b \<in> bm_set bm. lo \<le> b} = {}" by auto
      show ?thesis unfolding e using 1(1) by simp
    next
      case (2 b)
      have b: "b < num_bits bm" using 2(2) assms(2) by (auto simp: bm_clean_def)
      have "{c \<in> bm_set bm. lo \<le> c} = insert b {c \<in> bm_set bm. b + 1 \<le> c}" proof (intro set_eqI iffI)
        fix c assume c: "c \<in> {c \<in> bm_set bm. lo \<le> c}"
        then have "b \<le> c" using 2(4) by blast
        then show "c \<in> insert b {c \<in> bm_set bm. b + 1 \<le> c}" using c by auto
      qed (use 2(2,3) in auto)
      moreover have "sorted_list_of_set (insert b {c \<in> bm_set bm. b + 1 \<le> c}) = b # sorted_list_of_set {c \<in> bm_set bm. b + 1 \<le> c}"
        using fin by (subst sorted_list_of_set_insert) (auto intro!: insort_is_Cons)
      moreover have "on_bits n bm (next_in (bm_set bm) (b + 1)) = sorted_list_of_set {c \<in> bm_set bm. b + 1 \<le> c}"
        using Suc 2(3) by simp
      ultimately show ?thesis using 2(1) b by (simp add: next_on_bit_eq [OF assms(1)])
    qed
  qed
  from this [of "num_bits bm" 0] show ?thesis by (simp add: first_on_bit_eq [OF assms])
qed

section \<open>Shrinking, copying and comparing\<close>

lemma clear_after_set:
  assumes "bm_wf bm" "i < num_bits bm" "64 * num_longs bm \<le> n + i" "64 * num_longs bm \<le> 2 ^ 31 - 64"
  shows "bm_wf (clear_after n (\<lambda>_. True) bm i) \<and> bm_set (clear_after n (\<lambda>_. True) bm i) = bm_set bm \<inter> {..i} \<and>
    num_longs (clear_after n (\<lambda>_. True) bm i) = num_longs bm"
  using assms
proof (induction n arbitrary: bm i)
  case 0
  then show ?case by (simp add: bm_wf_def)
next
  case (Suc n)
  have nx: "pbs_bitmap_next_on_bit (Some bm) i = next_in (bm_set bm) (i + 1)" using next_on_bit_eq [OF Suc.prems(1)] Suc.prems(2) by simp
  show ?case
  proof (cases rule: next_in_cases [of "bm_set bm" "i + 1"])
    case 1
    then have "c \<le> i" if "c \<in> bm_set bm" for c using that by (metis Suc_eq_plus1 not_less_eq_eq)
    then have "bm_set bm = bm_set bm \<inter> {..i}" by auto
    then show ?thesis using 1(1) nx Suc.prems(1) by simp
  next
    case (2 b)
    have b: "b < 64 * num_longs bm" using 2(2) Suc.prems(1) by (simp add: bm_set_def bm_wf_def)
    then have b': "b < 2 ^ 31 - 64" using Suc.prems(4) by linarith
    obtain bm' where bm': "pbs_bitmap_bit_off (\<lambda>_. True) (Some bm) b = (1, Some bm')" "bm_wf bm'" "num_bits bm' = max (num_bits bm) (b + 1)"
      "num_longs bm' = num_longs bm" "bm_set bm' = bm_set bm - {b}" using bit_off_set [OF Suc.prems(1) b'] b by blast
    have "bm_set bm' \<inter> {..b} = bm_set bm \<inter> {..i}"
    proof -
      have "c \<le> i" if "c \<in> bm_set bm" "c \<le> b" "c \<noteq> b" for c using 2(4) [OF that(1)] that(2,3) by (cases "i + 1 \<le> c") auto
      then show ?thesis using bm'(5) 2(3) by auto
    qed
    then show ?thesis using Suc.IH [OF bm'(2), of b] bm' nx 2(1,3) Suc.prems(3,4) by simp
  qed
qed

lemma zero_longs_set:
  assumes "bm_wf bm"
  shows "bm_wf (zero_longs bm l) \<and> bm_set (zero_longs bm l) = bm_set bm \<inter> {..<64 * l} \<and> num_longs (zero_longs bm l) = num_longs bm \<and>
    num_bits (zero_longs bm l) = num_bits bm"
proof -
  have "b \<in> bm_set (zero_longs bm l) \<longleftrightarrow> b \<in> bm_set bm \<and> b < 64 * l" for b
  proof (cases "b < 64 * length (bits bm)")
    case True
    then have "b div 64 < length (bits bm)" by auto
    then have "bits (zero_longs bm l) ! (b div 64) = (if l \<le> b div 64 then 0 else bits bm ! (b div 64))"
      using assms by (simp add: zero_longs_def bm_wf_def)
    moreover have "b < 64 * l \<longleftrightarrow> \<not> l \<le> b div 64" by auto
    ultimately show ?thesis using True by (simp add: bm_set_def zero_longs_def)
  qed (simp add: bm_set_def zero_longs_def)
  then show ?thesis using assms by (auto simp: zero_longs_def bm_wf_def)
qed

text \<open>
  Shrinking keeps the bit whose number is the new number of bits: the loop starts with the bit after it. The
  bit is no longer visible, but it is there again when the bitmap grows.
\<close>

lemma alloc_set:
  assumes "bm_wf bm" "0 < n" "n \<le> 2 ^ 31 - 64" "64 * num_longs bm \<le> 2 ^ 31 - 64"
  shows "\<exists>bm'. pbs_bitmap_alloc (\<lambda>_. True) (Some bm) (int n) = (True, Some bm') \<and> bm_wf bm' \<and> num_bits bm' = n \<and> n \<le> 64 * length (bits bm') \<and>
    bm_set bm' = (if n < num_bits bm then bm_set bm \<inter> {..n} else bm_set bm)"
proof (cases "n < num_bits bm")
  case False
  then show ?thesis using resize_wf [OF assms(1) refl assms(3)] assms(2) by (auto simp: pbs_bitmap_alloc_def)
next
  case True
  note z = zero_longs_set [OF assms(1), of "n div 64 + 1"]
  let ?bm = "clear_after (num_longs bm * 64) (\<lambda>_. True) (zero_longs bm (n div 64 + 1)) n"
  have c: "bm_wf ?bm" "bm_set ?bm = bm_set bm \<inter> {..<64 * (n div 64 + 1)} \<inter> {..n}" "num_longs ?bm = num_longs bm"
    using clear_after_set [of "zero_longs bm (n div 64 + 1)" n "num_longs bm * 64"] z True assms(4) by auto
  have "{..<64 * (n div 64 + 1)} \<inter> {..n} = {..n}" by auto
  then have "bm_set ?bm = bm_set bm \<inter> {..n}" using c(2) by (simp add: Int_assoc)
  then show ?thesis using resize_wf [OF c(1) refl assms(3)] True assms(2) by (auto simp: pbs_bitmap_alloc_def)
qed

lemma assign_set:
  assumes "bm_wf l" "bm_wf r" "bm_clean r" "64 * num_longs l \<le> 2 ^ 31 - 64" "64 * num_longs r \<le> 2 ^ 31 - 64"
  shows "\<exists>l'. pbs_bitmap_assign (\<lambda>_. True) (Some l) (Some r) = (1, Some l') \<and> bm_wf l' \<and> bm_clean l' \<and> num_bits l' = num_bits r \<and>
    bm_set l' = bm_set r \<and> num_longs r \<le> num_longs l'"
proof -
  obtain l1 where l1: "(if num_longs r > num_longs l then pbs_bitmap_alloc (\<lambda>_. True) (Some l) (int (BYTES_TO_BITS (num_longs r * 8))) else (True, Some l)) = (True, Some l1)"
    "bm_wf l1" "num_longs r \<le> num_longs l1"
  proof (cases "num_longs r > num_longs l")
    case True
    then have "\<not> num_longs r * 64 < num_bits l" using assms(1) by (simp add: bm_wf_def)
    then show ?thesis using alloc_set [OF assms(1), of "num_longs r * 64"] assms(4,5) True that by (auto simp: BYTES_TO_BITS_def bm_wf_def mult.commute)
  qed (use assms that in auto)
  let ?l = "l1\<lparr>bits := bits r @ replicate (num_longs l1 - num_longs r) 0, num_bits := num_bits r\<rparr>"
  have a: "pbs_bitmap_assign (\<lambda>_. True) (Some l) (Some r) = (1, Some ?l)"
    using l1(1) assms(2) by (simp add: pbs_bitmap_assign_def bm_wf_def)
  have w: "bm_wf ?l" using l1(2,3) assms(2) by (simp add: bm_wf_def)
  have "(b < 64 * length (bits ?l) \<and> bit (bits ?l ! (b div 64)) (b mod 64)) = (b < 64 * length (bits r) \<and> bit (bits r ! (b div 64)) (b mod 64))" for b
    using l1(3) assms(2) by (auto simp: bm_wf_def nth_append split: if_splits)
  then have "bm_set ?l = bm_set r" by (simp add: bm_set_def)
  then show ?thesis using a w assms(3) l1(3) by (intro exI [of _ ?l]) (simp add: bm_clean_def)
qed

lemma is_equal_iff:
  assumes "bm_wf l" "bm_wf r" "bm_clean l" "bm_clean r" "num_longs l \<le> num_longs r"
  shows "pbs_bitmap_is_equal (Some l) (Some r) = (if num_bits l = num_bits r \<and> bm_set l = bm_set r then 1 else 0)"
proof -
  have "(\<exists>i < num_longs l. bits l ! i \<noteq> bits r ! i) \<longleftrightarrow> bm_set l \<noteq> bm_set r" if n: "num_bits l = num_bits r"
  proof
    assume "\<exists>i < num_longs l. bits l ! i \<noteq> bits r ! i"
    then obtain i where i: "i < num_longs l" "bits l ! i \<noteq> bits r ! i" by blast
    then have "\<exists>j < 64. bit (bits l ! i) j \<noteq> bit (bits r ! i) j" using bit_word_eqI [of "bits l ! i" "bits r ! i"] by auto
    then obtain j where "i < num_longs l" "bit (bits l ! i) j \<noteq> bit (bits r ! i) j" "j < 64" using i(1) by blast
    then have "64 * i + j \<in> bm_set l \<longleftrightarrow> 64 * i + j \<notin> bm_set r" using assms(1,2,5) by (auto simp: bm_set_in_long bm_wf_def)
    then show "bm_set l \<noteq> bm_set r" by blast
  next
    assume "bm_set l \<noteq> bm_set r"
    then obtain b where b: "b \<in> bm_set l \<longleftrightarrow> b \<notin> bm_set r" by blast
    then have "b < num_bits l" using assms(3,4) n by (auto simp: bm_clean_def)
    then have "b < 64 * num_longs l" using assms(1) by (simp add: bm_wf_def)
    then have "b div 64 < num_longs l" "b < 64 * length (bits l)" "b < 64 * length (bits r)" using assms(1,2,5) by (auto simp: bm_wf_def)
    then show "\<exists>i < num_longs l. bits l ! i \<noteq> bits r ! i" using b by (auto simp: bm_set_def)
  qed
  then show ?thesis by (simp add: pbs_bitmap_is_equal_def)
qed

section \<open>Properties\<close>

text \<open>
  C21. A bitmap is a set of numbers: \<open>pbs_bitmap_bit_on\<close> and \<open>pbs_bitmap_bit_off\<close> add and remove a number, growing the
  array when it is too small; \<open>pbs_bitmap_get_bit\<close> tells membership; starting with \<open>pbs_bitmap_first_on_bit\<close> and following
  \<open>pbs_bitmap_next_on_bit\<close> visits the elements in increasing order, each once; \<open>pbs_bitmap_assign\<close> copies the set; and
  \<open>pbs_bitmap_is_equal\<close> gives 1 exactly for bitmaps of the same number of bits and the same set, 0 otherwise, when the array of the second is not the
  shorter one (the code compares as many longs as the first has).
\<close>

theorem bitmap_is_set:
  assumes "bm_wf bm" "bm_clean bm" "b < 2 ^ 31 - 64" "bm_wf l" "64 * num_longs l \<le> 2 ^ 31 - 64" "64 * num_longs bm \<le> 2 ^ 31 - 64"
  shows "pbs_bitmap_get_bit (Some bm) b = (if b \<in> bm_set bm then 1 else 0) \<and>
    (\<exists>bm'. pbs_bitmap_bit_on (\<lambda>_. True) (Some bm) b = (1, Some bm') \<and> bm_wf bm' \<and> bm_clean bm' \<and> bm_set bm' = insert b (bm_set bm)) \<and>
    (\<exists>bm'. pbs_bitmap_bit_off (\<lambda>_. True) (Some bm) b = (1, Some bm') \<and> bm_wf bm' \<and> bm_clean bm' \<and> bm_set bm' = bm_set bm - {b}) \<and>
    on_bits (num_bits bm) bm (pbs_bitmap_first_on_bit (Some bm)) = sorted_list_of_set (bm_set bm) \<and>
    (\<exists>l'. pbs_bitmap_assign (\<lambda>_. True) (Some l) (Some bm) = (1, Some l') \<and> bm_wf l' \<and> bm_clean l' \<and> bm_set l' = bm_set bm \<and> num_bits l' = num_bits bm \<and> num_longs bm \<le> num_longs l') \<and>
    (\<forall>r. bm_wf r \<and> bm_clean r \<and> num_longs bm \<le> num_longs r \<longrightarrow>
       pbs_bitmap_is_equal (Some bm) (Some r) = (if num_bits bm = num_bits r \<and> bm_set bm = bm_set r then 1 else 0))"
proof -
  obtain l' where l': "pbs_bitmap_assign (\<lambda>_. True) (Some l) (Some bm) = (1, Some l')" "bm_wf l'" "bm_clean l'" "num_bits l' = num_bits bm" "bm_set l' = bm_set bm" "num_longs bm \<le> num_longs l'"
    using assign_set [OF assms(4,1,2,5,6)] by blast
  have "bm_set bm \<subseteq> {..<num_bits bm}" using assms(2) by (simp add: bm_clean_def)
  moreover from this have "insert b (bm_set bm) \<subseteq> {..<max (num_bits bm) (b + 1)}" "bm_set bm - {b} \<subseteq> {..<max (num_bits bm) (b + 1)}" by auto
  ultimately show ?thesis
    using is_equal_iff [OF assms(1) _ assms(2)] get_bit_iff [OF assms(1,2)] bit_on_set [OF assms(1,3)] bit_off_set [OF assms(1,3)] on_bits_sorted [OF assms(1,2)] l' by (auto simp: bm_clean_def)
qed

text \<open>Numbers 0 and 2.\<close>

definition small_bitmap :: pbs_bitmap where
  "small_bitmap = \<lparr>bits = [1 OR push_bit 2 1], num_longs = 1, num_bits = 3\<rparr>"

lemma small_bitmap_set: "bm_set small_bitmap = {0, 2}"
proof -
  have "bit (1 OR push_bit 2 1 :: ulong) i \<longleftrightarrow> i \<in> {0, 2}" if "i < 64" for i
    using bit_one_bit [OF that, of 2] bit_one_bit [OF that, of 0] unfolding push_bit_0_id id_apply bit_or_iff by blast
  then show ?thesis unfolding bm_set_def small_bitmap_def by (auto simp only: pbs_bitmap.simps list.size nth_Cons_0 div_less mod_less) simp_all
qed

lemma small_bitmap_ok: "bm_wf small_bitmap" "bm_clean small_bitmap" "64 * num_longs small_bitmap \<le> 2 ^ 31 - 64"
  using small_bitmap_set by (simp_all add: bm_wf_def bm_clean_def) (simp_all add: small_bitmap_def)

theorem bitmap_is_set_witness:
  "\<exists>bm'. pbs_bitmap_bit_on (\<lambda>_. True) (Some small_bitmap) 70 = (1, Some bm') \<and> bm_set bm' = {0, 2, 70}"
  using bitmap_is_set [OF small_bitmap_ok(1,2) _ small_bitmap_ok(1,3,3), of 70] by (auto simp: small_bitmap_set)

text \<open>
  Making a bitmap smaller does not turn off all the bits that are cut: \<open>pbs_bitmap_alloc\<close> starts after the bit with the
  number of the new size. If that bit was on, it is on in the array beyond the last bit of the bitmap, and it comes
  back when the bitmap grows again.
\<close>

theorem bitmap_shrink_keeps:
  assumes "bm_wf bm" "0 < n" "n < num_bits bm" "n \<in> bm_set bm" "64 * num_longs bm \<le> 2 ^ 31 - 64"
  shows "\<exists>bm' bm''. pbs_bitmap_alloc (\<lambda>_. True) (Some bm) (int n) = (True, Some bm') \<and> num_bits bm' = n \<and> \<not> bm_clean bm' \<and> bm_set bm' = bm_set bm \<inter> {..n} \<and>
    pbs_bitmap_alloc (\<lambda>_. True) (Some bm') (int n + 1) = (True, Some bm'') \<and> pbs_bitmap_get_bit (Some bm'') n = 1"
proof -
  have n: "n \<le> 2 ^ 31 - 64" using assms(1,3,5) by (simp add: bm_wf_def)
  obtain bm' where b: "pbs_bitmap_alloc (\<lambda>_. True) (Some bm) (int n) = (True, Some bm')" "bm_wf bm'" "num_bits bm' = n" "bm_set bm' = bm_set bm \<inter> {..n}"
    using alloc_set [OF assms(1,2) n assms(5)] assms(3) by auto
  have "n < 64 * num_longs bm" using assms(1,3) by (simp add: bm_wf_def)
  have in': "n \<in> bm_set bm'" using b(4) assms(4) by simp
  then have l: "n < 64 * num_longs bm'" using b(2) by (auto simp: bm_set_def bm_wf_def)
  then have r: "pbs_bitmap_alloc (\<lambda>_. True) (Some bm') (int n + 1) = (True, Some (bm'\<lparr>num_bits := n + 1\<rparr>))"
    using b(3) by (simp add: pbs_bitmap_alloc_def bitmap_resize_def nat_add_distrib)
  have "pbs_bitmap_get_bit (Some (bm'\<lparr>num_bits := n + 1\<rparr>)) n = 1" using in' by (simp add: pbs_bitmap_get_bit_def bm_set_def)
  moreover have "\<not> bm_clean bm'" using in' b(3) by (auto simp: bm_clean_def)
  ultimately show ?thesis using b r by blast
qed

theorem bitmap_shrink_keeps_witness:
  "\<exists>bm' bm''. pbs_bitmap_alloc (\<lambda>_. True) (Some small_bitmap) 2 = (True, Some bm') \<and> num_bits bm' = 2 \<and>
     pbs_bitmap_alloc (\<lambda>_. True) (Some bm') 3 = (True, Some bm'') \<and> pbs_bitmap_get_bit (Some bm'') 2 = 1"
proof -
  have "2 < num_bits small_bitmap" by (simp add: small_bitmap_def)
  then show ?thesis using bitmap_shrink_keeps [OF small_bitmap_ok(1), of 2] small_bitmap_ok(3) by (auto simp: small_bitmap_set)
qed

end
