(* ===== verification/Work_Task.thy ===== *)
theory Work_Task
  imports Prelude "HOL-Library.Multiset"
begin

text \<open>
  Work tasks of the daemons, \<open>lib/Libutil/work_task.c\<close>: functions to be called at once, at a time or after an event. A task is known
  by its address; its three links put it on one of the lists of immediate, timed and event tasks, and on lists
  of the objects it is about. Linked lists are lists (theory \<open>List_Link\<close>). The functions that tasks call are other code: they are the
  parameter \<open>run\<close>, which takes the number of the function, the task and the state to a state. Every
  dispatched task is appended to \<open>tk_done\<close>. What the functions may do is a condition of the lemmas: \<open>runner_ok\<close>, that the lists stay well
  formed, and \<open>makes_tasks\<close>, that new tasks are made and waiting ones left alone.
\<close>

section \<open>Structures\<close>

datatype work_type = WORK_Immed | WORK_Timed | WORK_Deferred_Child | WORK_Deferred_Reply | WORK_Deferred_Local | WORK_Deferred_Other
  | WORK_Deferred_Cmp | WORK_Deferred_cmd

datatype wtask_delete_option = DELETE_ONE | DELETE_ALL

text \<open>
  A pointer that is null is 0; the function is a number, \<open>None\<close> when it is null. Events are integers: the only arithmetic on
  them is the difference of two times of day.
\<close>

record work_task =
  wt_event :: int
  wt_event2 :: "string option"
  wt_type :: work_type
  wt_func :: "nat option"
  wt_parm1 :: nat
  wt_parm2 :: nat
  wt_parm3 :: nat
  wt_aux :: int
  wt_aux2 :: int

text \<open>\<open>tk_obj\<close> has the lists of objects by their heads, through either of the two other links; \<open>tk_world\<close> is the state of the rest of the daemon.\<close>

record 'w tasks =
  tk_immed :: "nat list"
  tk_timed :: "nat list"
  tk_event :: "nat list"
  tk_obj :: "nat \<Rightarrow> nat list"
  tk_task :: "nat \<Rightarrow> work_task option"
  svr_delay_entry :: bool
  tk_done :: "nat list"
  tk_world :: 'w

type_synonym 'w runner = "nat \<Rightarrow> nat \<Rightarrow> 'w tasks \<Rightarrow> 'w tasks"

section \<open>Making and deleting tasks\<close>

definition new_task :: "work_type \<Rightarrow> int \<Rightarrow> nat option \<Rightarrow> nat \<Rightarrow> work_task" where
  "new_task type event_id func parm =
     \<lparr>wt_event = event_id, wt_event2 = None, wt_type = type, wt_func = func, wt_parm1 = parm, wt_parm2 = 0, wt_parm3 = 0, wt_aux = 0, wt_aux2 = 0\<rparr>"

text \<open>The loop over the timed tasks looks for the first one that is later, and the new one is put before it.\<close>

definition insert_timed :: "(nat \<Rightarrow> int) \<Rightarrow> nat \<Rightarrow> nat list \<Rightarrow> nat list" where
  "insert_timed time pnew ts = takeWhile (\<lambda>pold. \<not> time pold > time pnew) ts @ pnew # dropWhile (\<lambda>pold. \<not> time pold > time pnew) ts"

definition task_time :: "'w tasks \<Rightarrow> nat \<Rightarrow> int" where
  "task_time s p = (case tk_task s p of Some t \<Rightarrow> wt_event t | None \<Rightarrow> 0)"

text \<open>\<open>mem\<close> is what \<open>malloc\<close> returns.\<close>

definition set_task :: "nat option \<Rightarrow> work_type \<Rightarrow> int \<Rightarrow> nat option \<Rightarrow> nat \<Rightarrow> 'w tasks \<Rightarrow> nat option \<times> 'w tasks" where
  "set_task mem type event_id func parm s =
     (case mem of None \<Rightarrow> (None, s)
      | Some pnew \<Rightarrow>
        let s = s\<lparr>tk_task := (tk_task s)(pnew \<mapsto> new_task type event_id func parm)\<rparr> in
        (Some pnew,
         if type = WORK_Immed then s\<lparr>tk_immed := tk_immed s @ [pnew]\<rparr>
         else if type = WORK_Timed then s\<lparr>tk_timed := insert_timed (task_time s) pnew (tk_timed s)\<rparr>
         else s\<lparr>tk_event := tk_event s @ [pnew]\<rparr>))"

text \<open>The three calls of \<open>delete_link\<close>, and \<open>free\<close>.\<close>

definition unlink_task :: "nat \<Rightarrow> 'w tasks \<Rightarrow> 'w tasks" where
  "unlink_task p s = s\<lparr>tk_immed := remove1 p (tk_immed s), tk_timed := remove1 p (tk_timed s), tk_event := remove1 p (tk_event s),
     tk_obj := (\<lambda>h. removeAll p (tk_obj s h))\<rparr>"

definition free_task :: "nat \<Rightarrow> 'w tasks \<Rightarrow> 'w tasks" where
  "free_task p s = s\<lparr>tk_task := (tk_task s)(p := None)\<rparr>"

definition delete_task :: "nat \<Rightarrow> 'w tasks \<Rightarrow> 'w tasks" where
  "delete_task p s = free_task p (unlink_task p s)"

definition dispatch_task :: "'w runner \<Rightarrow> nat \<Rightarrow> 'w tasks \<Rightarrow> 'w tasks" where
  "dispatch_task run p s =
     (let s = unlink_task p s; s = s\<lparr>tk_done := tk_done s @ [p]\<rparr>;
          s = (case Option.bind (tk_task s p) wt_func of None \<Rightarrow> s | Some f \<Rightarrow> run f p s)
      in free_task p s)"

text \<open>
  One of the three loops of \<open>delete_task_by_parm1\<close> and \<open>has_task_by_parm1\<close>. The next task is read before the current
  one is deleted, which deletes no other. The flag says that the function has returned.
\<close>

definition has_parm1 :: "nat \<Rightarrow> 'w tasks \<Rightarrow> nat \<Rightarrow> bool" where
  "has_parm1 parm1 s p \<longleftrightarrow> (case tk_task s p of Some t \<Rightarrow> wt_parm1 t \<noteq> 0 \<and> wt_parm1 t = parm1 | None \<Rightarrow> False)"

fun delete_loop :: "nat \<Rightarrow> wtask_delete_option \<Rightarrow> nat list \<Rightarrow> 'w tasks \<Rightarrow> bool \<times> 'w tasks" where
  "delete_loop parm1 opt [] s = (False, s)"
| "delete_loop parm1 opt (p # ps) s =
     (if has_parm1 parm1 s p then
        let s = delete_task p s in if opt = DELETE_ONE then (True, s) else delete_loop parm1 opt ps s
      else delete_loop parm1 opt ps s)"

definition delete_task_by_parm1 :: "nat \<Rightarrow> wtask_delete_option \<Rightarrow> 'w tasks \<Rightarrow> 'w tasks" where
  "delete_task_by_parm1 parm1 opt s =
     (case delete_loop parm1 opt (tk_event s) s of (True, s) \<Rightarrow> s
      | (False, s) \<Rightarrow> (case delete_loop parm1 opt (tk_timed s) s of (True, s) \<Rightarrow> s
          | (False, s) \<Rightarrow> snd (delete_loop parm1 opt (tk_immed s) s)))"

definition has_task_by_parm1 :: "nat \<Rightarrow> 'w tasks \<Rightarrow> int" where
  "has_task_by_parm1 parm1 s =
     (if list_ex (has_parm1 parm1 s) (tk_event s) then 1
      else if list_ex (has_parm1 parm1 s) (tk_timed s) then 1
      else if list_ex (has_parm1 parm1 s) (tk_immed s) then 1 else 0)"

section \<open>The next tasks\<close>

text \<open>
  \<open>GET_NEXT\<close> of a task: the one after it on the list it is on. The link of a task that is on no list points to itself, and a loop
  that follows it does not end: the value is \<open>None\<close>.
\<close>

definition successor :: "nat \<Rightarrow> nat list \<Rightarrow> nat option" where
  "successor p xs = (case dropWhile (\<lambda>x. x \<noteq> p) xs of _ # y # _ \<Rightarrow> Some y | _ \<Rightarrow> None)"

definition next_task :: "nat \<Rightarrow> 'w tasks \<Rightarrow> nat option option" where
  "next_task p s =
     (if p \<in> set (tk_event s) then Some (successor p (tk_event s))
      else if p \<in> set (tk_immed s) then Some (successor p (tk_immed s))
      else if p \<in> set (tk_timed s) then Some (successor p (tk_timed s))
      else None)"

text \<open>
  The three loops of \<open>default_next_task\<close>; a value \<open>None\<close> is a loop that does not end, or that reads a task that has been freed by a
  function of another.
\<close>

partial_function (option) deferred_loop :: "'w runner \<Rightarrow> nat option \<Rightarrow> 'w tasks \<Rightarrow> 'w tasks option" where
  "deferred_loop run ptask s =
     (case ptask of None \<Rightarrow> Some s
      | Some p \<Rightarrow>
        (case tk_task s p of None \<Rightarrow> None
         | Some t \<Rightarrow>
           (case next_task p s of None \<Rightarrow> None
            | Some nxt \<Rightarrow> deferred_loop run nxt (if wt_type t = WORK_Deferred_Cmp then dispatch_task run p s else s))))"

partial_function (option) immed_loop :: "'w runner \<Rightarrow> 'w tasks \<Rightarrow> 'w tasks option" where
  "immed_loop run s = (case tk_immed s of [] \<Rightarrow> Some s | p # _ \<Rightarrow> immed_loop run (dispatch_task run p s))"

partial_function (option) timed_loop :: "'w runner \<Rightarrow> int \<Rightarrow> 'w tasks \<Rightarrow> (int \<times> 'w tasks) option" where
  "timed_loop run now s =
     (case tk_timed s of [] \<Rightarrow> Some (2, s)
      | p # _ \<Rightarrow>
        let delay = task_time s p - now in
        if delay > 0 then Some (if 2 > delay then delay else 2, s) else timed_loop run now (dispatch_task run p s))"

definition default_next_task :: "'w runner \<Rightarrow> int \<Rightarrow> 'w tasks \<Rightarrow> (int \<times> 'w tasks) option" where
  "default_next_task run now s =
     Option.bind
       (if svr_delay_entry s
        then map_option (\<lambda>s. s\<lparr>svr_delay_entry := False\<rparr>) (deferred_loop run (case tk_event s of [] \<Rightarrow> None | p # _ \<Rightarrow> Some p) s)
        else Some s)
       (\<lambda>s. Option.bind (immed_loop run s) (timed_loop run now))"

section \<open>Well-formed lists of tasks\<close>

definition tk_ok :: "'w tasks \<Rightarrow> bool" where
  "tk_ok s \<longleftrightarrow> distinct (tk_immed s @ tk_timed s @ tk_event s) \<and> (\<forall>p \<in> set (tk_immed s @ tk_timed s @ tk_event s). tk_task s p \<noteq> None) \<and>
     sorted (map (task_time s) (tk_timed s))"

text \<open>The functions that tasks call keep the lists well formed.\<close>

definition runner_ok :: "'w runner \<Rightarrow> bool" where
  "runner_ok run \<longleftrightarrow> (\<forall>f p s. tk_ok s \<and> p \<notin> set (tk_immed s @ tk_timed s @ tk_event s) \<longrightarrow>
     tk_ok (run f p s) \<and> p \<notin> set (tk_immed (run f p s) @ tk_timed (run f p s) @ tk_event (run f p s)))"

lemma insert_timed_sorted:
  "sorted (map time ts) \<Longrightarrow> sorted (map time (insert_timed time p ts))"
proof (induction ts)
  case (Cons t ts)
  then show ?case
    by (cases "time t > time p") (auto simp: insert_timed_def dest!: set_takeWhileD dest: set_dropWhileD)
qed (simp add: insert_timed_def)

lemma mset_insert_timed: "mset (insert_timed time p ts) = add_mset p (mset ts)"
proof -
  have "mset (takeWhile (\<lambda>x. \<not> time x > time p) ts) + mset (dropWhile (\<lambda>x. \<not> time x > time p) ts) = mset ts"
    by (simp add: flip: mset_append)
  then show ?thesis by (simp add: insert_timed_def)
qed

lemma set_insert_timed [simp]: "set (insert_timed time p ts) = insert p (set ts)"
  using mset_insert_timed [of time p ts] by (metis set_mset_add_mset_insert set_mset_mset)

lemma distinct_insert_timed: "distinct (insert_timed time p ts) \<longleftrightarrow> p \<notin> set ts \<and> distinct ts"
  using mset_insert_timed [of time p ts] by (metis distinct.simps(2) mset.simps(2) mset_eq_imp_distinct_iff)

lemma sorted_remove1: "sorted (map f xs) \<Longrightarrow> sorted (map f (remove1 p xs))"
  by (induction xs) (auto dest: set_remove1_subset [THEN subsetD])

abbreviation linked :: "'w tasks \<Rightarrow> nat set" where
  "linked s \<equiv> set (tk_immed s @ tk_timed s @ tk_event s)"

lemma sorted_cong: "(\<And>p. p \<in> set xs \<Longrightarrow> f p = g p) \<Longrightarrow> sorted (map f xs) = sorted (map g xs)"
  by (metis map_cong)

lemma task_time_frame [simp]:
  "task_time (s\<lparr>tk_immed := a\<rparr>) = task_time s" "task_time (s\<lparr>tk_timed := a\<rparr>) = task_time s" "task_time (s\<lparr>tk_event := a\<rparr>) = task_time s"
  "task_time (s\<lparr>tk_obj := b\<rparr>) = task_time s" "task_time (s\<lparr>tk_done := a\<rparr>) = task_time s" "task_time (s\<lparr>svr_delay_entry := c\<rparr>) = task_time s" "task_time (s\<lparr>tk_world := w\<rparr>) = task_time s"
  by (simp_all add: task_time_def fun_eq_iff)

lemma set_task_ok:
  assumes "tk_ok s" "p \<notin> linked s"
  shows "tk_ok (snd (set_task (Some p) type event_id func parm s))"
proof -
  let ?s = "s\<lparr>tk_task := (tk_task s)(p \<mapsto> new_task type event_id func parm)\<rparr>"
  have "task_time ?s q = task_time s q" if "q \<in> set (tk_timed s)" for q using that assms(2) by (auto simp: task_time_def)
  then have so: "sorted (map (task_time ?s) (tk_timed s))" using assms(1) sorted_cong [of "tk_timed s" "task_time ?s" "task_time s"] by (simp add: tk_ok_def)
  show ?thesis using assms so insert_timed_sorted [OF so, of p] by (auto simp: set_task_def tk_ok_def Let_def distinct_insert_timed)
qed

lemma unlink_ok:
  assumes "tk_ok s"
  shows "tk_ok (unlink_task p s)" "p \<notin> linked (unlink_task p s)" "linked (unlink_task p s) = linked s - {p}"
proof -
  have t: "task_time (unlink_task p s) = task_time s" by (simp add: unlink_task_def)
  show "linked (unlink_task p s) = linked s - {p}" using assms by (auto simp: unlink_task_def tk_ok_def set_remove1_eq)
  then show "p \<notin> linked (unlink_task p s)" by blast
  show "tk_ok (unlink_task p s)"
    using assms unfolding tk_ok_def t by (auto simp: unlink_task_def sorted_remove1 distinct_remove1 set_remove1_eq)
qed

lemma free_ok:
  assumes "tk_ok s" "p \<notin> linked s"
  shows "tk_ok (free_task p s)" "linked (free_task p s) = linked s"
proof -
  have "task_time (free_task p s) q = task_time s q" if "q \<in> set (tk_timed s)" for q using that assms(2) by (auto simp: task_time_def free_task_def)
  then have "sorted (map (task_time (free_task p s)) (tk_timed s)) = sorted (map (task_time s) (tk_timed s))" by (intro sorted_cong)
  then show "tk_ok (free_task p s)" "linked (free_task p s) = linked s" using assms by (auto simp: tk_ok_def free_task_def)
qed

lemma delete_task_ok:
  assumes "tk_ok s"
  shows "tk_ok (delete_task p s)" "linked (delete_task p s) = linked s - {p}"
  using unlink_ok [OF assms, of p] free_ok [OF unlink_ok(1,2) [OF assms, of p]] by (simp_all add: delete_task_def)

lemma done_ok [simp]: "tk_ok (s\<lparr>tk_done := d\<rparr>) = tk_ok s" "tk_ok (s\<lparr>svr_delay_entry := b\<rparr>) = tk_ok s" "tk_ok (s\<lparr>tk_world := w\<rparr>) = tk_ok s"
  by (simp_all add: tk_ok_def)

lemma dispatch_ok:
  assumes "tk_ok s" "runner_ok run"
  shows "tk_ok (dispatch_task run p s)"
proof -
  let ?s = "(unlink_task p s)\<lparr>tk_done := tk_done (unlink_task p s) @ [p]\<rparr>"
  have o: "tk_ok ?s" "p \<notin> linked ?s" using unlink_ok [OF assms(1), of p] by simp_all
  then have "tk_ok (run f p ?s) \<and> p \<notin> linked (run f p ?s)" for f using assms(2) unfolding runner_ok_def by blast
  then show ?thesis using o by (auto simp: dispatch_task_def Let_def intro!: free_ok(1) split: option.splits)
qed

lemma delete_loop_ok: "tk_ok s \<Longrightarrow> tk_ok (snd (delete_loop parm1 opt ps s))"
  by (induction parm1 opt ps s rule: delete_loop.induct) (auto simp: Let_def delete_task_ok(1))

lemma delete_by_parm1_ok: "tk_ok s \<Longrightarrow> tk_ok (delete_task_by_parm1 parm1 opt s)"
  using delete_loop_ok [of s parm1 opt "tk_event s"]
    delete_loop_ok [of "snd (delete_loop parm1 opt (tk_event s) s)" parm1 opt "tk_timed (snd (delete_loop parm1 opt (tk_event s) s))"]
  by (auto simp: delete_task_by_parm1_def intro!: delete_loop_ok split: prod.splits bool.splits)

section \<open>Deleting by parameter\<close>

lemma has_parm1_delete: "has_parm1 parm1 (delete_task p s) q \<longleftrightarrow> has_parm1 parm1 s q \<and> q \<noteq> p"
  by (auto simp: has_parm1_def delete_task_def free_task_def unlink_task_def split: option.splits)

lemma delete_loop_all:
  assumes "tk_ok s" "delete_loop parm1 DELETE_ALL ps s = (r, s')"
  shows "\<not> r \<and> linked s' = {q \<in> linked s. \<not> (q \<in> set ps \<and> has_parm1 parm1 s q)} \<and> (\<forall>q. has_parm1 parm1 s' q \<longleftrightarrow> has_parm1 parm1 s q \<and> q \<notin> set ps) \<and>
    set (tk_timed s') \<subseteq> set (tk_timed s) \<and> set (tk_immed s') \<subseteq> set (tk_immed s) \<and> set (tk_event s') \<subseteq> set (tk_event s)"
  using assms
proof (induction ps arbitrary: s)
  case (Cons p ps)
  show ?case
  proof (cases "has_parm1 parm1 s p")
    case True
    have f: "set (tk_timed (delete_task p s)) \<subseteq> set (tk_timed s)" "set (tk_immed (delete_task p s)) \<subseteq> set (tk_immed s)" "set (tk_event (delete_task p s)) \<subseteq> set (tk_event s)"
      using set_remove1_subset by (simp_all add: delete_task_def free_task_def unlink_task_def)
    have d: "tk_ok (delete_task p s)" "delete_loop parm1 DELETE_ALL ps (delete_task p s) = (r, s')" using Cons.prems True by (simp_all add: delete_task_ok)
    show ?thesis using Cons.IH [OF d] delete_task_ok(2) [OF Cons.prems(1), of p] f True by (auto simp: has_parm1_delete)
  next
    case False
    then show ?thesis using Cons.IH [of s] Cons.prems by auto
  qed
qed auto

section \<open>What is left when the next tasks have run\<close>

text \<open>Whatever the tasks do: if the loops end, the lists are well formed and no timed task is due.\<close>

lemma deferred_loop_ok: "deferred_loop run ptask s = Some s' \<Longrightarrow> runner_ok run \<longrightarrow> tk_ok s \<longrightarrow> tk_ok s'"
proof (rule deferred_loop.raw_induct [where P = "\<lambda>run ptask s s'. runner_ok run \<longrightarrow> tk_ok s \<longrightarrow> tk_ok s'"], goal_cases)
  case (1 f run ptask s s')
  then show ?case by (cases ptask) (auto simp: dispatch_ok split: option.splits if_splits)
qed assumption

lemma immed_loop_ok: "immed_loop run s = Some s' \<Longrightarrow> runner_ok run \<longrightarrow> tk_immed s' = [] \<and> (tk_ok s \<longrightarrow> tk_ok s')"
proof (rule immed_loop.raw_induct [where P = "\<lambda>run s s'. runner_ok run \<longrightarrow> tk_immed s' = [] \<and> (tk_ok s \<longrightarrow> tk_ok s')"], goal_cases)
  case (1 f run s s')
  then show ?case by (cases "tk_immed s") (auto simp: dispatch_ok)
qed assumption

definition until_due :: "int \<Rightarrow> 'w tasks \<Rightarrow> int" where
  "until_due now s = (case tk_timed s of [] \<Rightarrow> 2 | p # _ \<Rightarrow> min 2 (task_time s p - now))"

lemma timed_loop_ok:
  "timed_loop run now s = Some r \<Longrightarrow> runner_ok run \<longrightarrow> tk_ok s \<longrightarrow> tk_ok (snd r) \<and> fst r = until_due now (snd r) \<and> (\<forall>p \<in> set (tk_timed (snd r)). now < task_time (snd r) p)"
proof (rule timed_loop.raw_induct [where P = "\<lambda>run now s r. runner_ok run \<longrightarrow> tk_ok s \<longrightarrow> tk_ok (snd r) \<and> fst r = until_due now (snd r) \<and>
    (\<forall>p \<in> set (tk_timed (snd r)). now < task_time (snd r) p)"], goal_cases)
  case (1 f run now s r)
  show ?case
  proof (cases "tk_timed s")
    case Nil
    then show ?thesis using 1 by (auto simp: until_due_def)
  next
    case (Cons p ps)
    show ?thesis
    proof (cases "task_time s p - now > 0")
      case True
      then have "r = (if 2 > task_time s p - now then task_time s p - now else 2, s)" using 1 Cons by (simp add: Let_def)
      moreover have "tk_ok s \<longrightarrow> (\<forall>q \<in> set ps. task_time s p \<le> task_time s q)" using Cons by (auto simp: tk_ok_def)
      ultimately show ?thesis using True Cons by (fastforce simp: until_due_def)
    next
      case False
      then show ?thesis using 1 Cons by (auto simp: dispatch_ok Let_def)
    qed
  qed
qed assumption

lemma default_next_task_ok:
  assumes "runner_ok run" "tk_ok s" "default_next_task run now s = Some (d, s')"
  shows "tk_ok s' \<and> d = until_due now s' \<and> (\<forall>p \<in> set (tk_timed s'). now < task_time s' p)"
proof -
  obtain s1 s2 where "(if svr_delay_entry s then map_option (\<lambda>s. s\<lparr>svr_delay_entry := False\<rparr>) (deferred_loop run (case tk_event s of [] \<Rightarrow> None | p # _ \<Rightarrow> Some p) s) else Some s) = Some s1"
    "immed_loop run s1 = Some s2" "timed_loop run now s2 = Some (d, s')" using assms(3) by (auto simp: default_next_task_def bind_eq_Some_conv)
  moreover from this(1) have "tk_ok s1" using assms(1,2) by (auto split: if_splits dest: deferred_loop_ok)
  ultimately show ?thesis using immed_loop_ok timed_loop_ok assms(1) by fastforce
qed

section \<open>Functions that make tasks\<close>

text \<open>
  What the functions of tasks do most: they make new tasks, to be called again later or at once, and leave the waiting ones alone. The tasks that wait call
  functions of a set \<open>F\<close>.
\<close>

definition calls :: "nat set \<Rightarrow> 'w tasks \<Rightarrow> bool" where
  "calls F s \<longleftrightarrow> (\<forall>p \<in> linked s. \<forall>f. Option.bind (tk_task s p) wt_func = Some f \<longrightarrow> f \<in> F)"

definition due :: "int \<Rightarrow> 'w tasks \<Rightarrow> nat list" where
  "due now s = filter (\<lambda>p. task_time s p \<le> now) (tk_timed s)"

definition late :: "int \<Rightarrow> 'w tasks \<Rightarrow> nat list" where
  "late now s = filter (\<lambda>p. \<not> task_time s p \<le> now) (tk_timed s)"

definition completed :: "'w tasks \<Rightarrow> nat \<Rightarrow> bool" where
  "completed s p \<longleftrightarrow> (case tk_task s p of Some t \<Rightarrow> wt_type t = WORK_Deferred_Cmp | None \<Rightarrow> False)"

text \<open>
  The lists of \<open>s'\<close> are those of \<open>s\<close> with new tasks: immediate ones and event ones, not completed, at the end, timed ones at any place. The waiting tasks are the same. The
  new tasks that can be called before \<open>default_next_task\<close> returns, that is the immediate ones and those that are due, are paid from a budget that the rest of the daemon has.
\<close>

definition grown :: "nat set \<Rightarrow> int \<Rightarrow> ('w \<Rightarrow> nat) \<Rightarrow> 'w tasks \<Rightarrow> 'w tasks \<Rightarrow> bool" where
  "grown F now budget s s' \<longleftrightarrow> tk_ok s' \<and> calls F s' \<and>
     (\<exists>ims. tk_immed s' = tk_immed s @ ims \<and> length ims + length (due now s') + budget (tk_world s') \<le> length (due now s) + budget (tk_world s)) \<and>
     subseq (tk_timed s) (tk_timed s') \<and> (\<exists>es. tk_event s' = tk_event s @ es \<and> (\<forall>q \<in> set es. \<not> completed s' q)) \<and>
     (\<forall>q \<in> linked s. tk_task s' q = tk_task s q)"

definition makes_tasks :: "nat set \<Rightarrow> int \<Rightarrow> ('w \<Rightarrow> nat) \<Rightarrow> 'w runner \<Rightarrow> bool" where
  "makes_tasks F now budget run \<longleftrightarrow> (\<forall>f \<in> F. \<forall>p s. tk_ok s \<and> calls F s \<and> p \<notin> linked s \<longrightarrow>
     grown F now budget s (run f p s) \<and> p \<notin> linked (run f p s) \<and> tk_done (run f p s) = tk_done s)"

lemma subseq_set: "subseq xs ys \<Longrightarrow> set xs \<subseteq> set ys"
  by (auto dest: list_emb_set)

lemma subseq_distinct: "subseq xs ys \<Longrightarrow> distinct ys \<Longrightarrow> distinct xs"
  by (induction rule: list_emb.induct) (auto dest: list_emb_set)

lemma grown_refl: "tk_ok s \<Longrightarrow> calls F s \<Longrightarrow> grown F now budget s s"
  by (simp add: grown_def)

lemma grown_linked: "grown F now budget s s' \<Longrightarrow> linked s \<subseteq> linked s'"
  by (auto simp: grown_def dest: subseq_set)

lemma grown_task: "grown F now budget s s' \<Longrightarrow> q \<in> linked s \<Longrightarrow> tk_task s' q = tk_task s q"
  by (simp add: grown_def)

lemma grown_time: "grown F now budget s s' \<Longrightarrow> q \<in> linked s \<Longrightarrow> task_time s' q = task_time s q"
  by (simp add: grown_task task_time_def)

lemma grown_completed: "grown F now budget s s' \<Longrightarrow> q \<in> linked s \<Longrightarrow> completed s' q = completed s q"
  by (simp add: grown_task completed_def)

lemma grown_trans:
  assumes "grown F now budget s s'" "grown F now budget s' s''"
  shows "grown F now budget s s''"
proof -
  obtain ims es where i: "tk_immed s' = tk_immed s @ ims" "length ims + length (due now s') + budget (tk_world s') \<le> length (due now s) + budget (tk_world s)"
    and e: "tk_event s' = tk_event s @ es" "\<forall>q \<in> set es. \<not> completed s' q" using assms(1) by (auto simp: grown_def)
  obtain ims' es' where i': "tk_immed s'' = tk_immed s' @ ims'" "length ims' + length (due now s'') + budget (tk_world s'') \<le> length (due now s') + budget (tk_world s')"
    and e': "tk_event s'' = tk_event s' @ es'" "\<forall>q \<in> set es'. \<not> completed s'' q" using assms(2) by (auto simp: grown_def)
  have "\<forall>q \<in> set (es @ es'). \<not> completed s'' q" using e e' grown_completed [OF assms(2)] by auto
  then have "\<exists>es. tk_event s'' = tk_event s @ es \<and> (\<forall>q \<in> set es. \<not> completed s'' q)" using e(1) e'(1) by (intro exI [of _ "es @ es'"]) simp
  moreover have "\<exists>ims. tk_immed s'' = tk_immed s @ ims \<and> length ims + length (due now s'') + budget (tk_world s'') \<le> length (due now s) + budget (tk_world s)"
    using i i' by (intro exI [of _ "ims @ ims'"]) simp
  moreover have "\<forall>q \<in> linked s. tk_task s'' q = tk_task s q" using grown_linked [OF assms(1)] grown_task [OF assms(1)] grown_task [OF assms(2)] by (metis subsetD)
  moreover have "subseq (tk_timed s) (tk_timed s'')" using assms subseq_order.order_trans unfolding grown_def by blast
  ultimately show ?thesis using assms(2) by (simp add: grown_def)
qed

lemma due_frame [simp]:
  "due now (s\<lparr>tk_immed := a\<rparr>) = due now s" "due now (s\<lparr>tk_event := a\<rparr>) = due now s" "due now (s\<lparr>tk_obj := b\<rparr>) = due now s" "due now (s\<lparr>tk_done := a\<rparr>) = due now s"
  "due now (s\<lparr>svr_delay_entry := c\<rparr>) = due now s" "due now (s\<lparr>tk_timed := late now s\<rparr>) = []"
  by (simp_all add: due_def late_def filter_empty_conv)

lemma due_grows:
  assumes "grown F now budget s s'"
  shows "subseq (due now s) (due now s')" "subseq (late now s) (late now s')"
proof -
  have "due now s = filter (\<lambda>p. task_time s' p \<le> now) (tk_timed s)" "late now s = filter (\<lambda>p. \<not> task_time s' p \<le> now) (tk_timed s)"
    using grown_time [OF assms] by (auto simp: due_def late_def intro!: filter_cong)
  then show "subseq (due now s) (due now s')" "subseq (late now s) (late now s')" using assms by (auto simp: due_def late_def grown_def)
qed

text \<open>The tasks that have been called may be left out on both sides.\<close>

lemma grown_immed:
  assumes "grown F now budget s s'"
  shows "grown F now budget (s\<lparr>tk_immed := []\<rparr>) (s'\<lparr>tk_immed := []\<rparr>)"
  using assms by (auto simp: grown_def tk_ok_def calls_def completed_def)

lemma grown_late:
  assumes "grown F now budget s s'"
  shows "grown F now budget (s\<lparr>tk_timed := late now s\<rparr>) (s'\<lparr>tk_timed := late now s'\<rparr>)"
proof -
  have "length (due now s) \<le> length (due now s')" using due_grows(1) [OF assms] by (rule list_emb_length)
  moreover have "sorted (map (task_time s') (late now s'))" using assms by (auto simp: late_def grown_def tk_ok_def intro: sorted_filter)
  moreover have "set (late now s') \<subseteq> set (tk_timed s')" "set (late now s) \<subseteq> set (tk_timed s)" "distinct (tk_timed s') \<longrightarrow> distinct (late now s')" by (auto simp: late_def)
  ultimately show ?thesis using assms due_grows(2) [OF assms] unfolding grown_def tk_ok_def calls_def completed_def by auto
qed

lemma grown_event:
  assumes "grown F now budget s s'" "tk_event s' = tk_event s @ es" "subseq es0 (tk_event s)"
  shows "grown F now budget (s\<lparr>tk_event := es0\<rparr>) (s'\<lparr>tk_event := es0 @ es\<rparr>)"
proof -
  have "set es0 \<subseteq> set (tk_event s)" using subseq_set [OF assms(3)] by blast
  moreover have "distinct (tk_event s) \<longrightarrow> distinct es0" using assms(3) subseq_distinct by blast
  moreover have "\<forall>q \<in> set es. \<not> completed s' q" using assms(1,2) by (auto simp: grown_def)
  ultimately show ?thesis using assms(1,2) by (auto simp: grown_def tk_ok_def calls_def completed_def)
qed

lemma grown_cong:
  assumes "grown F now budget s s'" "tk_immed t = tk_immed s" "tk_timed t = tk_timed s" "tk_event t = tk_event s" "tk_task t = tk_task s" "tk_world t = tk_world s"
  shows "grown F now budget t s'"
  using assms by (simp add: grown_def due_def task_time_def)

lemma grown_flag: "grown F now budget s (s'\<lparr>svr_delay_entry := c\<rparr>) = grown F now budget s s'"
  by (simp add: grown_def calls_def completed_def)

lemma grown_free:
  assumes "grown F now budget s s'" "p \<notin> linked s" "p \<notin> linked s'"
  shows "grown F now budget s (free_task p s')"
proof -
  have "task_time (free_task p s') q = task_time s' q" "completed (free_task p s') q = completed s' q" if "q \<in> linked s'" for q
    using that assms(3) by (auto simp: task_time_def completed_def free_task_def)
  then have "due now (free_task p s') = due now s'" "\<And>es. set es \<subseteq> set (tk_event s') \<Longrightarrow> (\<forall>q \<in> set es. \<not> completed (free_task p s') q) = (\<forall>q \<in> set es. \<not> completed s' q)"
    by (auto simp: due_def free_task_def intro!: filter_cong)
  moreover have "calls F (free_task p s')" using assms(1,3) by (auto simp: grown_def calls_def free_task_def)
  moreover have "tk_ok s'" using assms(1) by (simp add: grown_def)
  ultimately show ?thesis using assms free_ok [of s' p] by (auto simp: grown_def free_task_def)
qed

lemma dispatch_grown:
  assumes "makes_tasks F now budget run" "tk_ok s" "calls F s" "p \<in> linked s"
  shows "grown F now budget (unlink_task p s) (dispatch_task run p s)" "tk_done (dispatch_task run p s) = tk_done s @ [p]"
proof -
  let ?u = "unlink_task p s"
  let ?s = "?u\<lparr>tk_done := tk_done ?u @ [p]\<rparr>"
  let ?r = "case Option.bind (tk_task ?s p) wt_func of None \<Rightarrow> ?s | Some f \<Rightarrow> run f p ?s"
  note o = unlink_ok [OF assms(2), of p]
  have u: "tk_task ?s = tk_task s" "tk_done ?u = tk_done s" by (simp_all add: unlink_task_def)
  then have c: "tk_ok ?s" "calls F ?s" "p \<notin> linked ?s" using o assms(3) by (auto simp: calls_def unlink_task_def)
  have r: "grown F now budget ?s ?r \<and> p \<notin> linked ?r \<and> tk_done ?r = tk_done s @ [p]"
  proof (cases "Option.bind (tk_task ?s p) wt_func")
    case None
    then show ?thesis using grown_refl [OF c(1,2)] c(3) u by simp
  next
    case (Some f)
    then have "f \<in> F" using assms(3,4) unfolding calls_def u(1) by blast
    then show ?thesis using assms(1) c Some u unfolding makes_tasks_def by auto
  qed
  have d: "dispatch_task run p s = free_task p ?r" by (simp add: dispatch_task_def Let_def)
  then show "tk_done (dispatch_task run p s) = tk_done s @ [p]" using r by (simp add: free_task_def)
  have g: "grown F now budget ?u ?r" by (rule grown_cong [OF r [THEN conjunct1]]) simp_all
  have "grown F now budget ?u (free_task p ?r)" using g r o(2) free_ok [of ?r p] by (intro grown_free) auto
  then show "grown F now budget ?u (dispatch_task run p s)" unfolding d .
qed

text \<open>A function that calls \<open>set_task\<close> is of this kind, when the new task is paid for if it can be called at once.\<close>

lemma insert_timed_due: "length (filter P (insert_timed time p ts)) = length (filter P ts) + (if P p then 1 else 0)"
proof -
  have "length (filter P (insert_timed time p ts)) = size (filter_mset P (mset (insert_timed time p ts)))" by (simp flip: mset_filter)
  then show ?thesis by (simp add: mset_insert_timed flip: mset_filter)
qed

lemma subseq_insert_timed: "subseq ts (insert_timed time p ts)"
proof -
  let ?P = "\<lambda>q. \<not> time q > time p"
  have "subseq (takeWhile ?P ts @ dropWhile ?P ts) (insert_timed time p ts)" unfolding insert_timed_def by (intro list_emb_append_mono list_emb_Cons) simp_all
  then show ?thesis by simp
qed

lemma set_task_grown:
  assumes "tk_ok s" "calls F s" "p \<notin> linked s" "set_option func \<subseteq> F" "type \<noteq> WORK_Deferred_Cmp"
    and "(if type = WORK_Immed \<or> type = WORK_Timed \<and> event_id \<le> now then 1 else 0) + budget w \<le> budget (tk_world s)"
  shows "grown F now budget s ((snd (set_task (Some p) type event_id func parm s))\<lparr>tk_world := w\<rparr>)"
    and "linked (snd (set_task (Some p) type event_id func parm s)) = insert p (linked s)" and "tk_done (snd (set_task (Some p) type event_id func parm s)) = tk_done s"
proof -
  let ?t = "s\<lparr>tk_task := (tk_task s)(p \<mapsto> new_task type event_id func parm)\<rparr>" and ?s = "snd (set_task (Some p) type event_id func parm s)"
  show l: "linked ?s = insert p (linked s)" "tk_done ?s = tk_done s" by (auto simp: set_task_def Let_def)
  have t: "tk_task ?s = tk_task ?t" "task_time ?s = task_time ?t" by (simp_all add: set_task_def Let_def)
  have old: "task_time ?t q = task_time s q" if "q \<in> linked s" for q using that assms(3) by (auto simp: task_time_def)
  have new: "task_time ?t p = event_id" "\<not> completed ?s p" using assms(5) t by (simp_all add: task_time_def new_task_def completed_def)
  have f: "filter (\<lambda>q. task_time ?t q \<le> now) (tk_timed s) = due now s" using old by (auto simp: due_def intro!: filter_cong)
  have "length (due now ?s) = length (due now s) + (if type = WORK_Timed \<and> event_id \<le> now then 1 else 0)"
    unfolding due_def t(2) using f new by (auto simp: set_task_def Let_def insert_timed_due due_def)
  moreover have "calls F ?s" using assms(2-4) unfolding calls_def l t(1) by (auto simp: new_task_def split: if_splits)
  moreover note set_task_ok [OF assms(1,3), of type event_id func parm]
  moreover have "\<forall>q \<in> linked s. tk_task ?s q = tk_task s q" using assms(3) t(1) by auto
  ultimately show "grown F now budget s (?s\<lparr>tk_world := w\<rparr>)"
    using assms(5,6) new(2) unfolding grown_def by (auto simp: set_task_def Let_def subseq_insert_timed calls_def completed_def due_def)
qed

section \<open>The three loops\<close>

lemma immed_runs:
  assumes "makes_tasks F now budget run" "tk_ok s" "calls F s"
  shows "\<exists>s' ims. immed_loop run s = Some s' \<and> tk_done s' = tk_done s @ tk_immed s @ ims \<and> grown F now budget (s\<lparr>tk_immed := []\<rparr>) s' \<and>
    length ims + length (due now s') + budget (tk_world s') \<le> length (due now s) + budget (tk_world s)"
  using assms(2,3)
proof (induction "length (tk_immed s) + length (due now s) + budget (tk_world s)" arbitrary: s rule: less_induct)
  case less
  show ?case
  proof (cases "tk_immed s")
    case Nil
    then have "grown F now budget (s\<lparr>tk_immed := []\<rparr>) s" by (intro grown_cong [OF grown_refl [OF less.prems]]) simp_all
    then show ?thesis using Nil by (intro exI [of _ s] exI [of _ "[]"]) (simp add: immed_loop.simps)
  next
    case (Cons p ps)
    let ?s = "dispatch_task run p s"
    have p: "p \<in> linked s" using Cons by simp
    note g = dispatch_grown [OF assms(1) less.prems p]
    have u: "tk_immed (unlink_task p s) = ps" "tk_timed (unlink_task p s) = tk_timed s" "tk_event (unlink_task p s) = tk_event s" "tk_task (unlink_task p s) = tk_task s"
      "tk_world (unlink_task p s) = tk_world s" "due now (unlink_task p s) = due now s"
      using less.prems(1) Cons by (auto simp: unlink_task_def tk_ok_def remove1_idem due_def)
    obtain ims where i: "tk_immed ?s = ps @ ims" "length ims + length (due now ?s) + budget (tk_world ?s) \<le> length (due now s) + budget (tk_world s)"
      using g(1) u by (auto simp: grown_def)
    have ok: "tk_ok ?s" "calls F ?s" using g(1) by (simp_all add: grown_def)
    obtain s' ims' where s': "immed_loop run ?s = Some s'" "tk_done s' = tk_done ?s @ tk_immed ?s @ ims'" "grown F now budget (?s\<lparr>tk_immed := []\<rparr>) s'"
      "length ims' + length (due now s') + budget (tk_world s') \<le> length (due now ?s) + budget (tk_world ?s)"
      using less.hyps [OF _ ok] i Cons by auto
    have "grown F now budget ((unlink_task p s)\<lparr>tk_immed := []\<rparr>) s'" by (rule grown_trans [OF grown_immed [OF g(1)] s'(3)])
    then have "grown F now budget (s\<lparr>tk_immed := []\<rparr>) s'" by (rule grown_cong) (simp_all add: u)
    moreover have "immed_loop run s = Some s'" using s'(1) Cons by (subst immed_loop.simps) simp
    ultimately show ?thesis using s'(2,4) i g(2) Cons by (intro exI [of _ s'] exI [of _ "ims @ ims'"]) auto
  qed
qed

lemma due_head:
  assumes "tk_ok s" "tk_timed s = p # ps"
  shows "now < task_time s p \<Longrightarrow> due now s = [] \<and> late now s = tk_timed s"
    "task_time s p \<le> now \<Longrightarrow> due now s = p # due now (unlink_task p s) \<and> late now s = late now (unlink_task p s)"
proof -
  have "\<forall>q \<in> set ps. task_time s p \<le> task_time s q" using assms by (auto simp: tk_ok_def)
  then show "now < task_time s p \<Longrightarrow> due now s = [] \<and> late now s = tk_timed s" using assms(2) by (auto simp: due_def late_def filter_empty_conv filter_id_conv)
  have "task_time (unlink_task p s) = task_time s" "tk_timed (unlink_task p s) = ps" using assms(2) by (simp_all add: unlink_task_def)
  then show "task_time s p \<le> now \<Longrightarrow> due now s = p # due now (unlink_task p s) \<and> late now s = late now (unlink_task p s)" using assms(2) by (simp add: due_def late_def)
qed

lemma timed_runs:
  assumes "makes_tasks F now budget run" "tk_ok s" "calls F s"
  shows "\<exists>s' ts. timed_loop run now s = Some (until_due now s', s') \<and> tk_done s' = tk_done s @ ts \<and> subseq (due now s) ts \<and>
    grown F now budget (s\<lparr>tk_timed := late now s\<rparr>) s' \<and> length ts + budget (tk_world s') \<le> length (due now s) + budget (tk_world s)"
  using assms(2,3)
proof (induction "length (due now s) + budget (tk_world s)" arbitrary: s rule: less_induct)
  case less
  have idle: ?case if "due now s = []" "late now s = tk_timed s" "timed_loop run now s = Some (until_due now s, s)"
    using that grown_refl [OF less.prems] by (intro exI [of _ s] exI [of _ "[]"]) simp
  show ?case
  proof (cases "tk_timed s")
    case Nil
    then have "due now s = []" "late now s = tk_timed s" "timed_loop run now s = Some (until_due now s, s)" by (simp_all add: due_def late_def until_due_def timed_loop.simps)
    then show ?thesis by (rule idle)
  next
    case (Cons p ps)
    show ?thesis
    proof (cases "now < task_time s p")
      case True
      then show ?thesis using due_head(1) [OF less.prems(1) Cons True] Cons by (intro idle) (auto simp: until_due_def timed_loop.simps Let_def)
    next
      case False
      let ?u = "unlink_task p s" and ?s = "dispatch_task run p s"
      have p: "p \<in> linked s" using Cons by simp
      note g = dispatch_grown [OF assms(1) less.prems p]
      have h: "due now s = p # due now ?u" "late now s = late now ?u" using due_head(2) [OF less.prems(1) Cons] False by auto
      have w: "tk_world ?u = tk_world s" by (simp add: unlink_task_def)
      have le: "length (due now ?s) + budget (tk_world ?s) \<le> length (due now ?u) + budget (tk_world s)" using g(1) w by (auto simp: grown_def)
      have ok: "tk_ok ?s" "calls F ?s" using g(1) by (simp_all add: grown_def)
      obtain s' ts where s': "timed_loop run now ?s = Some (until_due now s', s')" "tk_done s' = tk_done ?s @ ts" "subseq (due now ?s) ts"
        "grown F now budget (?s\<lparr>tk_timed := late now ?s\<rparr>) s'" "length ts + budget (tk_world s') \<le> length (due now ?s) + budget (tk_world ?s)"
        using less.hyps [OF _ ok] le h(1) by auto
      have "grown F now budget (?u\<lparr>tk_timed := late now ?u\<rparr>) s'" by (rule grown_trans [OF grown_late [OF g(1)] s'(4)])
      then have "grown F now budget (s\<lparr>tk_timed := late now s\<rparr>) s'"
        by (rule grown_cong) (use less.prems(1) Cons in \<open>auto simp: h(2) unlink_task_def tk_ok_def remove1_idem\<close>)
      moreover have "subseq (due now ?u) ts" using due_grows(1) [OF g(1)] s'(3) subseq_order.order_trans by blast
      moreover have "timed_loop run now s = Some (until_due now s', s')" using s'(1) False Cons by (subst timed_loop.simps) (simp add: Let_def)
      ultimately show ?thesis using s'(2,5) le g(2) h(1) by (intro exI [of _ s'] exI [of _ "p # ts"]) auto
    qed
  qed
qed

text \<open>The walk over event tasks of which none is completed calls nothing.\<close>

lemma next_event:
  assumes "tk_ok s" "tk_event s = ks @ p # xs"
  shows "next_task p s = Some (case xs of [] \<Rightarrow> None | q # _ \<Rightarrow> Some q)" "\<exists>t. tk_task s p = Some t" "remove1 p (tk_event s) = ks @ xs"
    "remove1 p (tk_immed s) = tk_immed s" "remove1 p (tk_timed s) = tk_timed s"
proof -
  have d: "p \<notin> set ks" "p \<notin> set xs" "p \<in> set (tk_event s)" "p \<notin> set (tk_immed s)" "p \<notin> set (tk_timed s)" using assms by (auto simp: tk_ok_def)
  have "dropWhile (\<lambda>x. x \<noteq> p) (tk_event s) = p # xs" using d unfolding assms(2) by (subst dropWhile_append2) auto
  then show "next_task p s = Some (case xs of [] \<Rightarrow> None | q # _ \<Rightarrow> Some q)" using d(3) by (auto simp: next_task_def successor_def split: list.splits)
  show "\<exists>t. tk_task s p = Some t" using assms by (auto simp: tk_ok_def)
  show "remove1 p (tk_event s) = ks @ xs" using d(1) by (simp add: assms(2) remove1_append)
  show "remove1 p (tk_immed s) = tk_immed s" "remove1 p (tk_timed s) = tk_timed s" using d by (simp_all add: remove1_idem)
qed

lemma deferred_none:
  assumes "tk_ok s" "tk_event s = ks @ zs" "\<forall>q \<in> set zs. \<not> completed s q"
  shows "deferred_loop run (case zs of [] \<Rightarrow> None | p # _ \<Rightarrow> Some p) s = Some s"
  using assms(2,3)
proof (induction zs arbitrary: ks)
  case (Cons p zs)
  obtain t where t: "tk_task s p = Some t" using next_event(2) [OF assms(1) Cons.prems(1)] by blast
  have "deferred_loop run (case zs of [] \<Rightarrow> None | p # _ \<Rightarrow> Some p) s = Some s" using Cons.IH [of "ks @ [p]"] Cons.prems by simp
  then show ?case using t next_event(1) [OF assms(1) Cons.prems(1)] Cons.prems(2) by (subst deferred_loop.simps) (simp add: completed_def)
qed (simp add: deferred_loop.simps)

lemma deferred_runs:
  assumes "makes_tasks F now budget run" "tk_ok s" "calls F s" "tk_event s = ks @ ys @ zs" "\<forall>q \<in> set zs. \<not> completed s q"
  shows "\<exists>s'. deferred_loop run (case ys @ zs of [] \<Rightarrow> None | p # _ \<Rightarrow> Some p) s = Some s' \<and> tk_done s' = tk_done s @ filter (completed s) ys \<and>
    grown F now budget (s\<lparr>tk_event := ks @ filter (\<lambda>q. \<not> completed s q) ys @ zs\<rparr>) s'"
  using assms(2-)
proof (induction ys arbitrary: s ks zs)
  case Nil
  then have "grown F now budget (s\<lparr>tk_event := ks @ zs\<rparr>) s" by (intro grown_cong [OF grown_refl [OF Nil.prems(1,2)]]) simp_all
  then show ?case using deferred_none [of s ks zs run] Nil.prems by (intro exI [of _ s]) simp
next
  case (Cons p ys)
  have "tk_event s = ks @ p # (ys @ zs)" using Cons.prems(3) by simp
  note e = next_event [OF Cons.prems(1) this]
  obtain t where t: "tk_task s p = Some t" using e(2) by blast
  show ?case
  proof (cases "completed s p")
    case False
    obtain s' where "deferred_loop run (case ys @ zs of [] \<Rightarrow> None | q # _ \<Rightarrow> Some q) s = Some s'" "tk_done s' = tk_done s @ filter (completed s) ys"
      "grown F now budget (s\<lparr>tk_event := (ks @ [p]) @ filter (\<lambda>q. \<not> completed s q) ys @ zs\<rparr>) s'"
      using Cons.IH [OF Cons.prems(1,2), of "ks @ [p]" zs] Cons.prems(3,4) by auto
    then show ?thesis using False t e(1) by (subst deferred_loop.simps) (auto simp: completed_def)
  next
    case True
    let ?u = "unlink_task p s" and ?s = "dispatch_task run p s"
    have p: "p \<in> linked s" using Cons.prems(3) by simp
    note g = dispatch_grown [OF assms(1) Cons.prems(1,2) p]
    have u: "tk_event ?u = ks @ ys @ zs" "tk_immed ?u = tk_immed s" "tk_timed ?u = tk_timed s" "tk_task ?u = tk_task s" "tk_world ?u = tk_world s"
      using e by (simp_all add: unlink_task_def)
    obtain es where es: "tk_event ?s = tk_event ?u @ es" "\<forall>q \<in> set es. \<not> completed ?s q" using g(1) by (auto simp: grown_def)
    have same: "completed ?s q = completed s q" if "q \<in> set (ys @ zs)" for q
      using grown_completed [OF g(1), of q] that by (auto simp: u completed_def)
    have f: "filter (completed ?s) ys = filter (completed s) ys" "filter (\<lambda>q. \<not> completed ?s q) ys = filter (\<lambda>q. \<not> completed s q) ys" using same by (auto intro!: filter_cong)
    let ?E = "ks @ filter (\<lambda>q. \<not> completed s q) ys @ zs"
    have "grown F now budget (?u\<lparr>tk_event := ?E\<rparr>) (?s\<lparr>tk_event := ?E @ es\<rparr>)"
      using es(1) by (rule grown_event [OF g(1)]) (auto simp: u intro!: list_emb_append_mono subseq_filter_left)
    then have g': "grown F now budget (s\<lparr>tk_event := ?E\<rparr>) (?s\<lparr>tk_event := ?E @ es\<rparr>)" by (rule grown_cong) (simp_all add: u)
    have ok: "tk_ok ?s" "calls F ?s" using g(1) by (simp_all add: grown_def)
    obtain s' where s': "deferred_loop run (case ys @ zs of [] \<Rightarrow> None | q # _ \<Rightarrow> Some q) ?s = Some s'" "tk_done s' = tk_done ?s @ filter (completed s) ys"
      "grown F now budget (?s\<lparr>tk_event := ?E @ es\<rparr>) s'"
    proof (cases "ys @ zs")
      case Nil
      then show ?thesis using that [of ?s] grown_cong [OF grown_refl [OF ok], of "?s\<lparr>tk_event := ?E @ es\<rparr>"] es(1) u(1) by (simp add: deferred_loop.simps)
    next
      case (Cons q qs)
      then have "(case ys @ zs @ es of [] \<Rightarrow> None | q # _ \<Rightarrow> Some q) = (case ys @ zs of [] \<Rightarrow> None | q # _ \<Rightarrow> Some q)" by (simp flip: append_assoc)
      moreover have "\<forall>q \<in> set (zs @ es). \<not> completed ?s q" using es(2) same Cons.prems(4) by auto
      ultimately show ?thesis using that Cons.IH [OF ok, of ks "zs @ es"] es(1) by (auto simp: u f)
    qed
    have "deferred_loop run (case (p # ys) @ zs of [] \<Rightarrow> None | q # _ \<Rightarrow> Some q) s = Some s'" using True t e(1) s'(1) by (subst deferred_loop.simps) (auto simp: completed_def)
    then show ?thesis using True s'(2) g(2) grown_trans [OF g' s'(3)] by auto
  qed
qed

section \<open>Properties\<close>

text \<open>
  C32. The lists of tasks stay in order: making a task, deleting one or all with a parameter, dispatching one and running the next
  tasks keep every task on at most one list, the timed ones in the order of their times, and no list with a task that has been
  freed, whatever the functions of the tasks do to the lists as long as they keep this too. When \<open>default_next_task\<close>
  returns, no timed task is due, and the delay it returns is the time to the first one, at most 2 seconds.
\<close>

theorem task_lists_ok:
  assumes "tk_ok s" "runner_ok run"
  shows "(\<forall>p type event_id func parm. p \<notin> linked s \<longrightarrow> tk_ok (snd (set_task (Some p) type event_id func parm s))) \<and>
    (\<forall>p. tk_ok (delete_task p s) \<and> linked (delete_task p s) = linked s - {p}) \<and> (\<forall>parm1 opt. tk_ok (delete_task_by_parm1 parm1 opt s)) \<and>
    (\<forall>p. tk_ok (dispatch_task run p s)) \<and>
    (\<forall>now d s'. default_next_task run now s = Some (d, s') \<longrightarrow> tk_ok s' \<and> d = until_due now s' \<and> (\<forall>p \<in> set (tk_timed s'). now < task_time s' p))"
proof (intro conjI allI impI, goal_cases)
  case (1 p type event_id func parm) then show ?case by (rule set_task_ok [OF assms(1)])
next
  case (2 p) show ?case by (rule delete_task_ok [OF assms(1)])
next
  case (3 p) show ?case by (rule delete_task_ok [OF assms(1)])
next
  case (4 parm1 opt) show ?case by (rule delete_by_parm1_ok [OF assms(1)])
next
  case (5 p) show ?case by (rule dispatch_ok [OF assms])
qed (use default_next_task_ok [OF assms(2,1)] in blast)+

definition two_tasks :: "unit tasks" where
  "two_tasks = \<lparr>tk_immed = [1], tk_timed = [2, 3], tk_event = [], tk_obj = (\<lambda>_. []), tk_task = [1 \<mapsto> new_task WORK_Immed 0 None 7, 2 \<mapsto> new_task WORK_Timed 50 None 7, 3 \<mapsto> new_task WORK_Timed 90 None 8],
     svr_delay_entry = False, tk_done = [], tk_world = ()\<rparr>"

lemma two_tasks_ok: "tk_ok two_tasks"
  by (simp add: tk_ok_def two_tasks_def task_time_def new_task_def)

theorem task_lists_ok_witness: "tk_ok (snd (set_task (Some 4) WORK_Timed 70 None 7 two_tasks)) \<and> tk_ok (delete_task_by_parm1 7 DELETE_ALL two_tasks)"
proof -
  have "runner_ok (\<lambda>f p (s :: unit tasks). s)" by (simp add: runner_ok_def)
  moreover have "4 \<notin> linked two_tasks" by (simp add: two_tasks_def)
  ultimately show ?thesis using task_lists_ok [OF two_tasks_ok] by blast
qed

text \<open>
  C37. The next tasks are all run, in order, and the loops end. The functions of the tasks (those of the set \<open>F\<close>, which are all that the waiting tasks and the new ones call)
  may make new tasks, of any kind but completed ones and for any time, but do not delete or change a task that waits, and make only as many immediate or due tasks as a budget allows
  (\<open>makes_tasks\<close>). Then \<open>default_next_task\<close> returns. It has dispatched, when the flag is set, the completed event tasks in the order of their list, then all immediate tasks in order and
  \<open>ims\<close>, those that were made meanwhile, then \<open>ts\<close>, in which the timed tasks that were due stand in the order of their times; besides the tasks that were ready no more have been dispatched
  than the budget has paid. The other tasks wait where they were, unchanged (\<open>grown\<close>): new ones stand after the event tasks and among the later timed ones.
\<close>

theorem next_tasks_run:
  assumes "makes_tasks F now budget run" "tk_ok s" "calls F s"
  shows "\<exists>s' ims ts. default_next_task run now s = Some (until_due now s', s') \<and>
    tk_done s' = tk_done s @ (if svr_delay_entry s then filter (completed s) (tk_event s) else []) @ tk_immed s @ ims @ ts \<and> subseq (due now s) ts \<and>
    length ims + length ts + budget (tk_world s') \<le> length (due now s) + budget (tk_world s) \<and>
    grown F now budget (s\<lparr>tk_immed := [], tk_timed := late now s, tk_event := (if svr_delay_entry s then filter (\<lambda>p. \<not> completed s p) (tk_event s) else tk_event s)\<rparr>) s'"
proof -
  let ?cs = "if svr_delay_entry s then filter (completed s) (tk_event s) else []"
  let ?t = "s\<lparr>tk_event := (if svr_delay_entry s then filter (\<lambda>p. \<not> completed s p) (tk_event s) else tk_event s)\<rparr>"
  obtain s1 where s1: "(if svr_delay_entry s then map_option (\<lambda>s. s\<lparr>svr_delay_entry := False\<rparr>) (deferred_loop run (case tk_event s of [] \<Rightarrow> None | p # _ \<Rightarrow> Some p) s) else Some s) = Some s1"
    "tk_done s1 = tk_done s @ ?cs" "grown F now budget ?t s1"
  proof (cases "svr_delay_entry s")
    case True
    obtain s1 where "deferred_loop run (case tk_event s of [] \<Rightarrow> None | p # _ \<Rightarrow> Some p) s = Some s1" "tk_done s1 = tk_done s @ ?cs" "grown F now budget ?t s1"
      using deferred_runs [OF assms, of "[]" "tk_event s" "[]"] True by auto
    then show ?thesis using True that [of "s1\<lparr>svr_delay_entry := False\<rparr>"] by (simp add: grown_flag)
  qed (use grown_refl [OF assms(2,3)] that [of s] in simp)
  obtain i1 where i1: "tk_immed s1 = tk_immed s @ i1" "length i1 + length (due now s1) + budget (tk_world s1) \<le> length (due now s) + budget (tk_world s)"
    using s1(3) by (auto simp: grown_def)
  have ok1: "tk_ok s1" "calls F s1" using s1(3) by (simp_all add: grown_def)
  obtain s2 i2 where s2: "immed_loop run s1 = Some s2" "tk_done s2 = tk_done s1 @ tk_immed s1 @ i2" "grown F now budget (s1\<lparr>tk_immed := []\<rparr>) s2"
    "length i2 + length (due now s2) + budget (tk_world s2) \<le> length (due now s1) + budget (tk_world s1)" using immed_runs [OF assms(1) ok1] by auto
  have g2: "grown F now budget (?t\<lparr>tk_immed := []\<rparr>) s2" by (rule grown_trans [OF grown_immed [OF s1(3)] s2(3)])
  have ok2: "tk_ok s2" "calls F s2" using g2 by (simp_all add: grown_def)
  obtain s3 ts where s3: "timed_loop run now s2 = Some (until_due now s3, s3)" "tk_done s3 = tk_done s2 @ ts" "subseq (due now s2) ts"
    "grown F now budget (s2\<lparr>tk_timed := late now s2\<rparr>) s3" "length ts + budget (tk_world s3) \<le> length (due now s2) + budget (tk_world s2)"
    using timed_runs [OF assms(1) ok2] by auto
  have l: "late now (?t\<lparr>tk_immed := []\<rparr>) = late now s" by (simp add: late_def)
  have "grown F now budget (?t\<lparr>tk_immed := [], tk_timed := late now s\<rparr>) s3" using grown_trans [OF grown_late [OF g2] s3(4)] unfolding l .
  then have "grown F now budget (s\<lparr>tk_immed := [], tk_timed := late now s, tk_event := (if svr_delay_entry s then filter (\<lambda>p. \<not> completed s p) (tk_event s) else tk_event s)\<rparr>) s3" 
    by (rule grown_cong) simp_all
  moreover have "subseq (due now s) ts" using due_grows(1) [OF g2] s3(3) subseq_order.order_trans by auto
  moreover have "default_next_task run now s = Some (until_due now s3, s3)" using s1(1) s2(1) s3(1) by (simp add: default_next_task_def)
  ultimately show ?thesis using s1(2) s2(2,4) s3(2,5) i1 by (intro exI [of _ s3] exI [of _ "i1 @ i2"] exI [of _ ts]) simp
qed

text \<open>Function 0 calls itself again later, function 1 makes an immediate task for function 0 while the count of the daemon allows.\<close>

definition rearm :: "nat runner" where
  "rearm f p s =
     (let q = Suc (foldr max (p # tk_immed s @ tk_timed s @ tk_event s) 0) in
      if f = 0 then snd (set_task (Some q) WORK_Timed 100 (Some 0) 7 s)
      else if 0 < tk_world s then (snd (set_task (Some q) WORK_Immed 0 (Some 0) 7 s))\<lparr>tk_world := tk_world s - 1\<rparr> else s)"

lemma rearm_makes: "makes_tasks {0, 1} 60 (\<lambda>n. n) rearm"
proof -
  have le: "q \<in> set xs \<Longrightarrow> q \<le> foldr max xs 0" for q :: nat and xs by (induction xs) auto
  have fresh: "Suc (foldr max (p # xs) 0) \<notin> set (p # xs)" for p :: nat and xs using le [of "Suc (foldr max (p # xs) 0)" "p # xs"] by (metis Suc_n_not_le_n)
  have "grown {0, 1} 60 (\<lambda>n. n) s (rearm f p s) \<and> p \<notin> linked (rearm f p s) \<and> tk_done (rearm f p s) = tk_done s" 
    if "tk_ok s" "calls {0, 1} s" "p \<notin> linked s" for f p s
  proof -
    let ?q = "Suc (foldr max (p # tk_immed s @ tk_timed s @ tk_event s) 0)"
    have q: "?q \<notin> linked s" "p \<noteq> ?q" using fresh [of p "tk_immed s @ tk_timed s @ tk_event s"] by simp_all
    note g = set_task_grown [OF that(1,2) q(1), of "Some 0", simplified]
    show ?thesis
      using g(1) [of WORK_Timed 100 60 "\<lambda>n. n" "tk_world s"] g(1) [of WORK_Immed 0 60 "\<lambda>n. n" "tk_world s - 1"] grown_refl [OF that(1,2)] that(3) q(2)
      by (auto simp: rearm_def Let_def set_task_def)
  qed
  then show ?thesis by (simp add: makes_tasks_def)
qed

definition five_tasks :: "nat tasks" where
  "five_tasks = \<lparr>tk_immed = [1], tk_timed = [2, 3], tk_event = [4, 5], tk_obj = (\<lambda>_. []),
     tk_task = [1 \<mapsto> new_task WORK_Immed 0 (Some 1) 7, 2 \<mapsto> new_task WORK_Timed 50 (Some 0) 7, 3 \<mapsto> new_task WORK_Timed 90 None 8,
       4 \<mapsto> new_task WORK_Deferred_Child 9 (Some 0) 7, 5 \<mapsto> new_task WORK_Deferred_Cmp 9 (Some 0) 7],
     svr_delay_entry = True, tk_done = [], tk_world = 1\<rparr>"

theorem next_tasks_run_witness:
  "\<exists>s ims ts. default_next_task rearm 60 five_tasks = Some (until_due 60 s, s) \<and> tk_done s = [5, 1] @ ims @ ts \<and> subseq [2] ts \<and> length ims + length ts \<le> 2 \<and>
    subseq [3] (tk_timed s)"
proof -
  have ok: "tk_ok five_tasks" "calls {0, 1} five_tasks" by (simp_all add: tk_ok_def calls_def five_tasks_def task_time_def new_task_def)
  have l: "due 60 five_tasks = [2]" "late 60 five_tasks = [3]" "filter (completed five_tasks) (tk_event five_tasks) = [5]"
    "svr_delay_entry five_tasks" "tk_immed five_tasks = [1]" "tk_done five_tasks = []" "tk_world five_tasks = 1"
    by (simp_all add: due_def late_def completed_def five_tasks_def task_time_def new_task_def)
  obtain s ims ts where r: "default_next_task rearm 60 five_tasks = Some (until_due 60 s, s)" "tk_done s = [5, 1] @ ims @ ts" "subseq [2] ts"
    "length ims + length ts + tk_world s \<le> 2"
    "grown {0, 1} 60 (\<lambda>n. n) (five_tasks\<lparr>tk_immed := [], tk_timed := [3], tk_event := filter (\<lambda>p. \<not> completed five_tasks p) (tk_event five_tasks)\<rparr>) s"
    using next_tasks_run [OF rearm_makes ok] unfolding l if_P [OF l(4)] by auto
  then have "subseq [3] (tk_timed s)" by (simp add: grown_def)
  then show ?thesis using r by (intro exI [of _ s] exI [of _ ims] exI [of _ ts]) simp
qed

end
