(* ===== verification/Sched_Range.thy ===== *)
theory Sched_Range
  imports Attr_Value "HOL-Library.Signed_Division" "HOL-Library.Multiset"
begin

text \<open>
  The scheduler's ranges of subjob indices, \<open>scheduler/range.c\<close>: a list of \<open>range\<close> structures, read from and
  written as text of the form \<open>X,X-Y:Z,...\<close>. The list linked through \<open>next\<close> is a list, \<open>NULL\<close> is the empty one.
  Indices are \<open>int\<close>; where the code adds or subtracts, \<open>c_int\<close> is the 32-bit result. The specification is the list of
  values a list of ranges stands for, \<open>range_vals\<close>: membership, enumeration, insertion, removal and
  intersection are proved against it, and so is the round trip through text.
\<close>

section \<open>C arithmetic and numerals\<close>

definition c_int :: "int \<Rightarrow> int" where "c_int k = signed_take_bit 31 k"

abbreviation INT_LIMIT :: int where "INT_LIMIT \<equiv> 2147483648"
abbreviation INT_MAX :: int where "INT_MAX \<equiv> 2147483647"

text \<open>\<open>(int)strtol(s, &eptr, 10)\<close> with \<open>eptr\<close>.\<close>

definition strtol_end :: "string \<Rightarrow> int \<times> string" where
  "strtol_end s =
     (let p = dropWhile isspace s; p = (if p \<noteq> [] \<and> hd p \<in> {CHR ''-'', CHR ''+''} then tl p else p)
      in (c_int (sint (fst (strtol10 s))), if takeWhile is_digit p = [] then s else dropWhile is_digit p))"

text \<open>The character a pointer into a string points at.\<close>

definition char_at :: "string \<Rightarrow> char" where
  "char_at s = (case s of [] \<Rightarrow> NUL | c # _ \<Rightarrow> c)"

section \<open>The structure\<close>

record sched_range =
  rg_start :: int
  rg_end :: int
  rg_count :: int
  rg_step :: int

abbreviation sizeof_range :: nat where "sizeof_range \<equiv> 24"

definition new_range :: "(nat \<Rightarrow> bool) \<Rightarrow> sched_range option" where
  "new_range mal = (if mal sizeof_range then Some \<lparr>rg_start = 0, rg_end = 0, rg_count = 0, rg_step = 1\<rparr> else None)"

definition dup_range :: "(nat \<Rightarrow> bool) \<Rightarrow> sched_range \<Rightarrow> sched_range option" where
  "dup_range mal old_r =
     map_option (\<lambda>r. r\<lparr>rg_start := rg_start old_r, rg_end := rg_end old_r, rg_step := rg_step old_r, rg_count := rg_count old_r\<rparr>) (new_range mal)"

text \<open>The loop of \<open>dup_range_list\<close>: the list built so far and whether \<open>prev_new_r\<close> is not \<open>NULL\<close>.\<close>

fun dup_loop :: "(nat \<Rightarrow> bool) \<Rightarrow> sched_range list \<Rightarrow> bool \<Rightarrow> sched_range list \<Rightarrow> sched_range list" where
  "dup_loop mal head prev [] = head"
| "dup_loop mal head prev (cur # rs) =
     (case dup_range mal cur of
        Some r \<Rightarrow> dup_loop mal (if prev then head @ [r] else [r]) True rs
      | None \<Rightarrow> dup_loop mal (if prev then head else []) False rs)"

definition dup_range_list :: "(nat \<Rightarrow> bool) \<Rightarrow> sched_range list \<Rightarrow> sched_range list" where
  "dup_range_list mal old_r = dup_loop mal [] False old_r"

definition range_contains_single :: "sched_range \<Rightarrow> int \<Rightarrow> bool" where
  "range_contains_single r val \<longleftrightarrow> val \<ge> rg_start r \<and> val \<le> rg_end r \<and> c_int (val - rg_start r) smod rg_step r = 0"

fun range_contains :: "sched_range list \<Rightarrow> int \<Rightarrow> bool" where
  "range_contains [] val = False"
| "range_contains (cur # rs) val = (range_contains_single cur val \<or> range_contains rs val)"

section \<open>Parsing\<close>

text \<open>\<open>parse_subjob_index\<close> of \<open>range.c\<close>: the value \<open>None\<close> is the return code 1; otherwise \<open>ep\<close>, \<open>px\<close>, \<open>py\<close>, \<open>pz\<close>, \<open>pct\<close>.\<close>

definition sched_subjob_index :: "string option \<Rightarrow> (string \<times> int \<times> int \<times> int \<times> int) option" where
  "sched_subjob_index pc =
     (case pc of None \<Rightarrow> None
      | Some pc \<Rightarrow>
        let pc = (if char_at pc = CHR '','' \<or> isspace (char_at pc) then tl pc else pc) in
        if \<not> is_digit (char_at pc) then None
        else let (x, pc) = strtol_end pc;
                 yz = (if char_at pc = CHR '','' \<or> char_at pc = NUL then Some (x, 1, pc)
                       else if char_at pc \<noteq> CHR ''-'' then None
                       else let (y, pc) = strtol_end (tl pc) in
                         if char_at pc = NUL \<or> char_at pc = CHR '','' then Some (y, 1, pc)
                         else if char_at pc \<noteq> CHR '':'' then None
                         else let (z, pc) = strtol_end (tl pc) in
                           if char_at pc \<noteq> CHR '','' \<and> char_at pc \<noteq> NUL then None else Some (y, z, pc))
             in case yz of None \<Rightarrow> None
                | Some (y, z, pc) \<Rightarrow> if x > y \<or> z < 1 then None else Some (pc, x, y, z, c_int (c_int (y - x) + z) sdiv z))"

text \<open>The loop that moves the end down to a value of the range.\<close>

function settle_end :: "sched_range \<Rightarrow> int \<Rightarrow> int \<Rightarrow> int" where
  "settle_end r x y = (if \<not> range_contains [r] y \<and> y > x then settle_end r x (y - 1) else y)"
  by auto
termination by (relation "measure (\<lambda>(r, x, y). nat (y - x))") auto

lemma strtol_end_shorter: "length (snd (strtol_end s)) \<le> length s"
proof -
  have "length (dropWhile is_digit (tl (dropWhile isspace s))) \<le> length s" "length (dropWhile is_digit (dropWhile isspace s)) \<le> length s"
    using length_dropWhile_le [of is_digit "tl (dropWhile isspace s)"] length_dropWhile_le [of is_digit "dropWhile isspace s"] length_dropWhile_le [of isspace s]
    by simp_all
  then show ?thesis by (simp add: strtol_end_def Let_def)
qed

lemma strtol_end_digit: "is_digit (char_at s) \<Longrightarrow> length (snd (strtol_end s)) < length s"
proof (cases s)
  case (Cons c cs)
  moreover assume "is_digit (char_at s)"
  ultimately have "is_digit c" by (simp add: char_at_def)
  then show ?thesis using Cons length_dropWhile_le [of is_digit cs] is_digit_char [of c] by (auto simp: strtol_end_def Let_def)
qed (simp add: char_at_def is_digit_def uchar_def)

lemma sched_subjob_index_shorter: "sched_subjob_index (Some p) = Some (ep, r) \<Longrightarrow> length ep < length p"
proof -
  assume a: "sched_subjob_index (Some p) = Some (ep, r)"
  define q where "q = (if char_at p = CHR '','' \<or> isspace (char_at p) then tl p else p)"
  have q: "length q \<le> length p" by (simp add: q_def)
  have tl: "length (snd (strtol_end (tl w))) \<le> length w" for w using strtol_end_shorter [of "tl w"] by simp
  have d: "is_digit (char_at q)" "length ep \<le> length (snd (strtol_end q))"
    using a tl [of "snd (strtol_end q)"] tl [of "snd (strtol_end (tl (snd (strtol_end q))))"]
    by (auto simp: sched_subjob_index_def q_def [symmetric] Let_def split: if_splits prod.splits option.splits)
  then show ?thesis using strtol_end_digit [OF d(1)] q by linarith
qed

function parse_ranges :: "(nat \<Rightarrow> bool) \<Rightarrow> sched_range list \<Rightarrow> string \<Rightarrow> sched_range list" where
  "parse_ranges mal head p =
     (case sched_subjob_index (Some p) of None \<Rightarrow> []
      | Some (endp, x, y, z, ct) \<Rightarrow>
        (case new_range mal of None \<Rightarrow> []
         | Some r \<Rightarrow>
           let r = r\<lparr>rg_start := x, rg_end := y, rg_step := z, rg_count := ct\<rparr>; y = settle_end r x y in
           if range_contains [r] y then
             let head = head @ [r\<lparr>rg_end := y\<rparr>] in if char_at endp = CHR '','' then parse_ranges mal head endp else head
           else []))"
  by pat_completeness auto
termination by (relation "measure (\<lambda>(mal, head, p). length p)") (auto simp: sched_subjob_index_shorter)

definition range_parse :: "(nat \<Rightarrow> bool) \<Rightarrow> string option \<Rightarrow> sched_range list" where
  "range_parse mal str = (case str of None \<Rightarrow> [] | Some p \<Rightarrow> parse_ranges mal [] p)"

section \<open>Enumeration, removal, insertion, intersection\<close>

fun next_loop :: "sched_range list \<Rightarrow> int \<Rightarrow> int \<Rightarrow> int" where
  "next_loop [] cur_value ret_val = ret_val"
| "next_loop (cur # rs) cur_value ret_val =
     (if ret_val < 0 then
        next_loop rs cur_value
          (if range_contains_single cur cur_value then
             if cur_value = rg_end cur then (case rs of [] \<Rightarrow> ret_val | r # _ \<Rightarrow> rg_start r)
             else c_int (cur_value + rg_step cur)
           else ret_val)
      else ret_val)"

definition range_next_value :: "sched_range list \<Rightarrow> int \<Rightarrow> int" where
  "range_next_value r cur_value =
     (case r of [] \<Rightarrow> - 1
      | r0 # _ \<Rightarrow> if cur_value < 0 then rg_start r0 else if \<not> range_contains r cur_value then - 1 else next_loop r cur_value (- 2))"

text \<open>
  The loop of \<open>range_remove_value\<close> with the removal of a section that became empty; \<open>None\<close> when no section starts or
  ends with the value.
\<close>

fun remove_loop :: "sched_range list \<Rightarrow> int \<Rightarrow> sched_range list option" where
  "remove_loop [] val = None"
| "remove_loop (cur # rs) val =
     (let keep = (\<lambda>c. if rg_start c > rg_end c then rs else c # rs) in
      if rg_start cur = val then Some (keep (cur\<lparr>rg_start := c_int (rg_start cur + rg_step cur), rg_count := c_int (rg_count cur - 1)\<rparr>))
      else if rg_end cur = val then Some (keep (cur\<lparr>rg_end := c_int (rg_end cur - rg_step cur), rg_count := c_int (rg_count cur - 1)\<rparr>))
      else map_option ((#) cur) (remove_loop rs val))"

definition range_remove_value :: "sched_range list \<Rightarrow> int \<Rightarrow> int \<times> sched_range list" where
  "range_remove_value r val =
     (if r = [] \<or> \<not> range_contains r val then (0, r)
      else case remove_loop r val of Some r' \<Rightarrow> (1, r') | None \<Rightarrow> (0, r))"

datatype range_step_type = DISABLE_SUBRANGE_STEPPING | ENABLE_SUBRANGE_STEPPING

text \<open>The loop of \<open>range_add_value\<close>: \<open>None\<close> when it ends with \<open>done\<close> not set.\<close>

fun add_loop :: "sched_range list \<Rightarrow> int \<Rightarrow> sched_range list option" where
  "add_loop [] val = None"
| "add_loop (cur # rs) val =
     (if rg_count cur = 0 then Some (cur\<lparr>rg_start := val, rg_end := val, rg_count := c_int (rg_count cur + 1)\<rparr> # rs)
      else if val = c_int (rg_start cur - rg_step cur) then Some (cur\<lparr>rg_start := val, rg_count := c_int (rg_count cur + 1)\<rparr> # rs)
      else if val = c_int (rg_end cur + rg_step cur) then Some (cur\<lparr>rg_end := val, rg_count := c_int (rg_count cur + 1)\<rparr> # rs)
      else map_option ((#) cur) (add_loop rs val))"

definition range_add_value :: "(nat \<Rightarrow> bool) \<Rightarrow> sched_range list \<Rightarrow> int \<Rightarrow> range_step_type \<Rightarrow> int \<times> sched_range list" where
  "range_add_value mal r val type =
     (if r = [] then (0, r)
      else if range_contains r val then (0, r)
      else case add_loop r val of Some r' \<Rightarrow> (1, r')
        | None \<Rightarrow>
          let prev = last r in
          if rg_count prev = 1 \<and> type = ENABLE_SUBRANGE_STEPPING then
            let prev = (if rg_start prev < val then prev\<lparr>rg_end := val\<rparr> else prev\<lparr>rg_start := val\<rparr>)
            in (1, butlast r @ [prev\<lparr>rg_step := c_int (rg_end prev - rg_start prev), rg_count := c_int (rg_count prev + 1)\<rparr>])
          else case new_range mal of None \<Rightarrow> (0, r)
            | Some new \<Rightarrow> (1, r @ [new\<lparr>rg_start := val, rg_end := val, rg_count := 1\<rparr>]))"

text \<open>
  The loop of \<open>range_intersection\<close>. It follows \<open>range_next_value\<close> and ends when that is negative; a
  value of \<open>None\<close> is a loop that does not end. The result of \<open>new_range\<close> is used without a test.
\<close>

partial_function (option) inter_loop :: "sched_range list \<Rightarrow> sched_range list \<Rightarrow> int \<Rightarrow> sched_range list \<Rightarrow> sched_range list option" where
  "inter_loop r1 r2 cur acc =
     (if cur \<ge> 0 then
        inter_loop r1 r2 (range_next_value r1 cur)
          (if range_contains r2 cur then
             if acc = [] then [\<lparr>rg_start = cur, rg_end = cur, rg_count = 1, rg_step = 1\<rparr>]
             else snd (range_add_value (\<lambda>_. True) acc cur ENABLE_SUBRANGE_STEPPING)
           else acc)
      else Some acc)"

definition range_intersection :: "sched_range list \<Rightarrow> sched_range list \<Rightarrow> sched_range list option" where
  "range_intersection r1 r2 =
     (if r1 = [] \<or> r2 = [] then Some [] else inter_loop r1 r2 (range_next_value r1 (- 1)) [])"

section \<open>Printing\<close>

text \<open>One turn of the loop of \<open>range_to_str\<close>, and the loop; \<open>%d\<close> is \<open>int_str\<close>.\<close>

definition section_str :: "sched_range \<Rightarrow> string" where
  "section_str r =
     (if rg_count r > 1 then int_str (rg_start r) @ ''-'' @ int_str (rg_end r) else int_str (rg_start r)) @
     (if rg_step r > 1 then '':'' @ int_str (rg_step r) else [])"

definition range_to_str :: "sched_range list \<Rightarrow> string" where
  "range_to_str r =
     (if r = [] then []
      else let range_str = concat (map (\<lambda>cur_r. section_str cur_r @ '','') r)
           in if last range_str = CHR '','' then butlast range_str else range_str)"

section \<open>Names of subjobs\<close>

text \<open>
  \<open>create_subjob_name\<close> of \<open>scheduler/job_info.c\<close>. The part up to the bracket goes through \<open>tmpid\<close>, the name through
  \<open>buf\<close>; the value is \<open>None\<close> where one of the two arrays is overrun, and otherwise what is returned.
\<close>

definition TMPID_SIZE :: nat where "TMPID_SIZE = 128"
definition SUBJOB_BUF_SIZE :: nat where "SUBJOB_BUF_SIZE = 1024"

definition create_subjob_name :: "string \<Rightarrow> int \<Rightarrow> string option option" where
  "create_subjob_name array_id index =
     (let spn = length (takeWhile (\<lambda>c. c \<noteq> CHR ''['') array_id) in
      if spn = 0 then Some None
      else let rest = drop (spn + 1) array_id in
        if char_at rest \<noteq> CHR '']'' then Some None
        else if spn + 2 > TMPID_SIZE then None
        else let buf = take (spn + 1) array_id @ int_str index @ rest
             in if length buf + 1 > SUBJOB_BUF_SIZE then None else Some (Some buf))"

section \<open>The values of a list of ranges\<close>

definition rg_vals :: "sched_range \<Rightarrow> int list" where
  "rg_vals r = map (\<lambda>k. rg_start r + int k * rg_step r) [0..<nat (rg_count r)]"

definition range_vals :: "sched_range list \<Rightarrow> int list" where
  "range_vals rs = concat (map rg_vals rs)"

text \<open>A section that is not empty, with its end among its values, all of them indices below \<open>INT_MAX\<close>, so that their number fits an \<open>int\<close> too.\<close>

definition rg_wf :: "sched_range \<Rightarrow> bool" where
  "rg_wf r \<longleftrightarrow> 0 \<le> rg_start r \<and> 1 \<le> rg_count r \<and> 1 \<le> rg_step r \<and> rg_step r < INT_LIMIT \<and>
     rg_end r = rg_start r + (rg_count r - 1) * rg_step r \<and> rg_end r < INT_MAX"

text \<open>Room for one more step after the end, without which the code overflows.\<close>

definition rg_room :: "sched_range \<Rightarrow> bool" where
  "rg_room r \<longleftrightarrow> rg_end r + rg_step r < INT_LIMIT"

lemma range_vals_simps [simp]: "range_vals [] = []" "range_vals (r # rs) = rg_vals r @ range_vals rs" "range_vals (rs @ rs') = range_vals rs @ range_vals rs'"
  by (simp_all add: range_vals_def)

lemma c_int_small: "- INT_LIMIT \<le> k \<Longrightarrow> k < INT_LIMIT \<Longrightarrow> c_int k = k"
  by (simp add: c_int_def signed_take_bit_int_eq_self)

lemma c_int_over: "INT_LIMIT \<le> k \<Longrightarrow> k < 2 * INT_LIMIT \<Longrightarrow> c_int k < 0"
proof -
  assume a: "INT_LIMIT \<le> k" "k < 2 * INT_LIMIT"
  have "(k + INT_LIMIT) mod 4294967296 = (k - INT_LIMIT) mod 4294967296" using mod_add_self2 [of "k - INT_LIMIT" 4294967296] by (simp add: add.commute)
  then have "c_int k = c_int (k - 4294967296)" by (simp add: c_int_def signed_take_bit_eq_take_bit_shift take_bit_eq_mod)
  then show ?thesis using a c_int_small [of "k - 4294967296"] by simp
qed

lemma smod_zero: "0 \<le> k \<Longrightarrow> 1 \<le> s \<Longrightarrow> (k :: int) smod s = 0 \<longleftrightarrow> s dvd k"
  by (cases "k = 0") (simp_all add: signed_modulo_int_def dvd_eq_mod_eq_0)

lemma rg_wf_count: "rg_wf r \<Longrightarrow> rg_count r \<le> rg_end r + 1"
  using mult_left_mono [of 1 "rg_step r" "rg_count r - 1"] by (simp add: rg_wf_def)

lemma contains_single_iff:
  assumes "rg_wf r"
  shows "range_contains_single r v \<longleftrightarrow> v \<in> set (rg_vals r)"
proof
  assume c: "range_contains_single r v"
  then have v: "rg_start r \<le> v" "v \<le> rg_end r" "rg_step r dvd v - rg_start r"
    using assms by (auto simp: range_contains_single_def rg_wf_def c_int_small smod_zero)
  then obtain k where k: "v - rg_start r = rg_step r * k" by (elim dvdE)
  have "0 \<le> rg_step r * k" "rg_step r * k \<le> rg_step r * (rg_count r - 1)" using k v assms by (simp_all add: rg_wf_def algebra_simps)
  then have "0 \<le> k" "k \<le> rg_count r - 1" using assms by (auto simp: rg_wf_def zero_le_mult_iff mult_le_cancel_left)
  then have "nat k \<in> set [0..<nat (rg_count r)]" "v = rg_start r + int (nat k) * rg_step r" using k by (auto simp: algebra_simps)
  then show "v \<in> set (rg_vals r)" unfolding rg_vals_def set_map by (rule image_eqI [rotated])
next
  assume "v \<in> set (rg_vals r)"
  then obtain k where k: "k < nat (rg_count r)" "v = rg_start r + int k * rg_step r" by (auto simp: rg_vals_def)
  have "int k * rg_step r \<le> (rg_count r - 1) * rg_step r" using k assms by (intro mult_right_mono) (auto simp: rg_wf_def)
  moreover have "0 \<le> int k * rg_step r" using assms by (simp add: rg_wf_def)
  moreover from calculation have "c_int (int k * rg_step r) = int k * rg_step r" using assms unfolding rg_wf_def by (intro c_int_small) linarith+
  ultimately show "range_contains_single r v" using k assms by (auto simp: range_contains_single_def rg_wf_def smod_zero)
qed

lemma contains_iff: "\<forall>r \<in> set rs. rg_wf r \<Longrightarrow> range_contains rs v \<longleftrightarrow> v \<in> set (range_vals rs)"
  by (induction rs) (auto simp: contains_single_iff)

lemma rg_vals_bounds:
  assumes "rg_wf r" "v \<in> set (rg_vals r)"
  shows "rg_start r \<le> v" "v \<le> rg_end r" "0 \<le> v" "v < INT_MAX"
proof -
  have "range_contains_single r v" using assms contains_single_iff by blast
  then show "rg_start r \<le> v" "v \<le> rg_end r" by (simp_all add: range_contains_single_def)
  then show "0 \<le> v" "v < INT_MAX" using assms(1) by (simp_all add: rg_wf_def)
qed

section \<open>Enumeration\<close>

text \<open>What follows the first occurrence of a value.\<close>

definition after :: "int list \<Rightarrow> int \<Rightarrow> int" where
  "after xs v = (case dropWhile (\<lambda>x. x \<noteq> v) xs of _ # w # _ \<Rightarrow> w | _ \<Rightarrow> - 2)"

lemma next_loop_found: "0 \<le> ret \<Longrightarrow> next_loop rs v ret = ret"
  by (cases rs) simp_all

lemma rg_vals_split:
  assumes "k < nat (rg_count r)"
  shows "rg_vals r = map (\<lambda>k. rg_start r + int k * rg_step r) [0..<k] @ (rg_start r + int k * rg_step r) # map (\<lambda>k. rg_start r + int k * rg_step r) [Suc k..<nat (rg_count r)]"
proof -
  have "[0..<nat (rg_count r)] = [0..<k] @ k # [Suc k..<nat (rg_count r)]"
    using assms upt_add_eq_append [of 0 k "nat (rg_count r) - k"] by (simp add: upt_conv_Cons)
  then show ?thesis unfolding rg_vals_def by simp
qed

lemma drop_until:
  assumes "rg_wf r" "k < nat (rg_count r)" "v = rg_start r + int k * rg_step r"
  shows "dropWhile (\<lambda>x. x \<noteq> v) (rg_vals r @ ys) = v # map (\<lambda>k. rg_start r + int k * rg_step r) [Suc k..<nat (rg_count r)] @ ys"
proof -
  have "\<forall>x \<in> set (map (\<lambda>k. rg_start r + int k * rg_step r) [0..<k]). x \<noteq> v" using assms(1,3) by (auto simp: rg_wf_def)
  then show ?thesis unfolding rg_vals_split [OF assms(2)] append_assoc append_Cons assms(3) [symmetric]
    by (subst dropWhile_append2) auto
qed

lemma rg_vals_Cons: "rg_wf r \<Longrightarrow> \<exists>xs. rg_vals r = rg_start r # xs"
  by (auto simp: rg_vals_def rg_wf_def upt_conv_Cons)

lemma next_loop_eq:
  "\<forall>r \<in> set rs. rg_wf r \<Longrightarrow> next_loop rs v (- 2) = after (range_vals rs) v"
proof (induction rs)
  case (Cons r rs)
  show ?case
  proof (cases "range_contains_single r v")
    case False
    then have "\<forall>x \<in> set (rg_vals r). x \<noteq> v" using Cons.prems contains_single_iff by auto
    then show ?thesis using False Cons by (simp add: after_def dropWhile_append2)
  next
    case True
    have w: "rg_wf r" using Cons.prems by simp
    obtain k where k: "k < nat (rg_count r)" "v = rg_start r + int k * rg_step r"
      using True contains_single_iff [OF w] by (auto simp: rg_vals_def)
    note d = drop_until [OF w k, of "range_vals rs"]
    show ?thesis
    proof (cases "v = rg_end r")
      case e: True
      then have "(rg_count r - 1 - int k) * rg_step r = 0" using k w by (simp add: rg_wf_def algebra_simps)
      then have "Suc k = nat (rg_count r)" using k w by (auto simp: rg_wf_def)
      then have d': "dropWhile (\<lambda>x. x \<noteq> v) (range_vals (r # rs)) = v # range_vals rs" using d by simp
      show ?thesis
      proof (cases rs)
        case Nil
        then show ?thesis using True e d' by (simp add: after_def)
      next
        case (Cons r' rs')
        then have "rg_wf r'" using Cons.prems by simp
        then show ?thesis using True e d' Cons rg_vals_Cons [of r'] by (auto simp: after_def next_loop_found rg_wf_def)
      qed
    next
      case e: False
      then have "k + 1 < nat (rg_count r)" using k w by (cases "k + 1 = nat (rg_count r)") (auto simp: rg_wf_def)
      then have "after (range_vals (r # rs)) v = rg_start r + int (Suc k) * rg_step r" "rg_start r + int (Suc k) * rg_step r \<in> set (rg_vals r)"
        using d by (simp add: after_def upt_conv_Cons, unfold rg_vals_def set_map, intro imageI) simp
      moreover have "rg_start r + int (Suc k) * rg_step r = v + rg_step r" using k by (simp add: algebra_simps)
      ultimately have a: "after (range_vals (r # rs)) v = v + rg_step r" "0 \<le> v + rg_step r" "v + rg_step r < INT_MAX"
        using rg_vals_bounds [OF w] by auto
      then show ?thesis using True e by (simp add: next_loop_found c_int_small)
    qed
  qed
qed (simp add: after_def)

lemma next_value_eq:
  assumes "\<forall>r \<in> set rs. rg_wf r" "v \<in> set (range_vals rs)"
  shows "range_next_value rs v = after (range_vals rs) v"
proof -
  obtain r where "r \<in> set rs" "v \<in> set (rg_vals r)" using assms(2) by (auto simp: range_vals_def)
  then have "rs \<noteq> []" "\<not> v < 0" using assms(1) rg_vals_bounds(3) [of r v] by auto
  then show ?thesis using assms(2) contains_iff [OF assms(1), of v] next_loop_eq [OF assms(1), of v]
    by (simp only: range_next_value_def neq_Nil_conv) (elim exE, simp only: list.case if_False not_True_eq_False)
qed

lemma next_value_first:
  assumes "\<forall>r \<in> set rs. rg_wf r" "rs \<noteq> []"
  shows "range_next_value rs (- 1) = hd (range_vals rs)"
proof -
  obtain r rs' where rs: "rs = r # rs'" using assms(2) by (cases rs) auto
  then show ?thesis using assms(1) rg_vals_Cons [of r] by (auto simp: range_next_value_def)
qed

section \<open>Removal and insertion\<close>

lemma rg_vals_start:
  assumes "rg_wf r" "rg_count r > 1"
  shows "rg_vals r = rg_start r # rg_vals (r\<lparr>rg_start := rg_start r + rg_step r, rg_count := rg_count r - 1\<rparr>)"
proof -
  have "[0..<nat (rg_count r)] = 0 # map Suc [0..<nat (rg_count r - 1)]"
    using assms(2) by (simp add: map_Suc_upt upt_conv_Cons nat_diff_distrib)
  then show ?thesis by (simp add: rg_vals_def algebra_simps)
qed

lemma rg_vals_end:
  assumes "rg_wf r"
  shows "rg_vals r = rg_vals (r\<lparr>rg_end := e, rg_count := rg_count r - 1\<rparr>) @ [rg_end r]"
proof -
  have "[0..<nat (rg_count r)] = [0..<nat (rg_count r - 1)] @ [nat (rg_count r - 1)]"
    using assms upt_Suc_append [of 0 "nat (rg_count r - 1)"] by (simp add: rg_wf_def Suc_nat_eq_nat_zadd1)
  then show ?thesis using assms by (simp add: rg_vals_def rg_wf_def)
qed

lemma rg_vals_single: "rg_wf r \<Longrightarrow> rg_count r = 1 \<Longrightarrow> rg_vals r = [rg_start r] \<and> rg_end r = rg_start r"
  by (simp add: rg_vals_def rg_wf_def)

lemma rg_more: "rg_wf r \<Longrightarrow> rg_count r > 1 \<Longrightarrow> rg_start r + rg_step r \<le> rg_end r"
  using mult_right_mono [of 1 "rg_count r - 1" "rg_step r"] by (simp add: rg_wf_def)

lemma remove_loop_spec:
  assumes "\<forall>r \<in> set rs. rg_wf r \<and> rg_room r" "remove_loop rs v = Some rs'"
  shows "mset (range_vals rs) = add_mset v (mset (range_vals rs')) \<and> (\<forall>r \<in> set rs'. rg_wf r \<and> rg_room r)"
  using assms
proof (induction rs arbitrary: rs')
  case (Cons r rs)
  have w: "rg_wf r" "rg_room r" using Cons.prems(1) by auto
  have b: "rg_count r \<le> rg_end r + 1" "rg_end r < INT_MAX" "0 \<le> rg_start r" "1 \<le> rg_count r" "1 \<le> rg_step r" "rg_step r < INT_LIMIT"
    using rg_wf_count [OF w(1)] w(1) by (simp_all add: rg_wf_def)
  have se: "rg_start r \<le> rg_end r" using w(1) by (simp add: rg_wf_def)
  have ci: "c_int (rg_start r + rg_step r) = rg_start r + rg_step r" "c_int (rg_count r - 1) = rg_count r - 1" "c_int (rg_end r - rg_step r) = rg_end r - rg_step r"
    using b w(2) se by (simp_all add: c_int_small rg_room_def)
  consider (one) "rg_count r = 1" "rg_start r = v" | (start) "rg_count r > 1" "rg_start r = v" | (last) "rg_start r \<noteq> v" "rg_end r = v" | (other) "rg_start r \<noteq> v" "rg_end r \<noteq> v"
    using b by fastforce
  then show ?case
  proof cases
    case one
    then have "rs' = rs" using Cons.prems(2) ci rg_vals_single [OF w(1)] b by (simp add: Let_def)
    then show ?thesis using one Cons.prems(1) rg_vals_single [OF w(1)] by simp
  next
    case start
    define r' where "r' = r\<lparr>rg_start := rg_start r + rg_step r, rg_count := rg_count r - 1\<rparr>"
    have "rs' = r' # rs" using Cons.prems(2) ci start rg_more [OF w(1)] by (simp add: Let_def r'_def)
    moreover have "rg_wf r' \<and> rg_room r'" using w start b by (auto simp: rg_wf_def rg_room_def r'_def algebra_simps)
    ultimately show ?thesis using start Cons.prems(1) rg_vals_start [OF w(1) start(1)] by (simp add: r'_def)
  next
    case last
    define r' where "r' = r\<lparr>rg_end := rg_end r - rg_step r, rg_count := rg_count r - 1\<rparr>"
    have c: "rg_count r > 1" using last rg_vals_single [OF w(1)] b(4) by fastforce
    have "rs' = r' # rs" using Cons.prems(2) ci last rg_more [OF w(1) c] by (simp add: Let_def r'_def)
    moreover have "rg_wf r' \<and> rg_room r'" using w c b by (auto simp: rg_wf_def rg_room_def r'_def algebra_simps)
    ultimately show ?thesis using last Cons.prems(1) rg_vals_end [OF w(1), of "rg_end r - rg_step r"] by (simp add: r'_def)
  next
    case other
    then obtain t where t: "remove_loop rs v = Some t" "rs' = r # t" using Cons.prems(2) by (auto simp: Let_def)
    then show ?thesis using Cons.IH [OF _ t(1)] Cons.prems(1) by simp
  qed
qed simp

lemma remove_loop_None: "remove_loop rs v = None \<longleftrightarrow> (\<forall>r \<in> set rs. rg_start r \<noteq> v \<and> rg_end r \<noteq> v)"
  by (induction rs) (auto simp: Let_def)

lemma range_remove_spec:
  assumes "\<forall>r \<in> set rs. rg_wf r" "\<forall>r \<in> set rs. rg_room r"
  shows "\<exists>code rs'. range_remove_value rs v = (code, rs') \<and> (\<forall>r \<in> set rs'. rg_wf r) \<and>
    (if \<exists>r \<in> set rs. v = rg_start r \<or> v = rg_end r then code = 1 \<and> mset (range_vals rs) = add_mset v (mset (range_vals rs')) else code = 0 \<and> rs' = rs)"
proof (cases "remove_loop rs v")
  case None
  then have "\<forall>r \<in> set rs. rg_start r \<noteq> v \<and> rg_end r \<noteq> v" by (simp add: remove_loop_None)
  then show ?thesis using None assms(1) by (auto simp: range_remove_value_def)
next
  case (Some rs')
  then have e: "\<exists>r \<in> set rs. v = rg_start r \<or> v = rg_end r" using remove_loop_None [of rs v] by fastforce
  have s: "mset (range_vals rs) = add_mset v (mset (range_vals rs'))" "\<forall>r \<in> set rs'. rg_wf r"
    using remove_loop_spec [of rs v rs'] assms Some by auto
  have "v \<in> set (range_vals rs)" using s(1) by (metis set_mset_mset union_single_eq_member)
  then show ?thesis using Some e s contains_iff [OF assms(1), of v] by (auto simp: range_remove_value_def)
qed

lemma add_loop_spec:
  assumes "\<forall>r \<in> set rs. rg_wf r" "0 \<le> v" "v < INT_MAX" "add_loop rs v = Some rs'"
  shows "mset (range_vals rs') = add_mset v (mset (range_vals rs)) \<and> (\<forall>r \<in> set rs'. rg_wf r)"
  using assms
proof (induction rs arbitrary: rs')
  case (Cons r rs)
  have w: "rg_wf r" using Cons.prems(1) by auto
  have b: "rg_count r \<le> rg_end r + 1" "rg_end r < INT_MAX" "0 \<le> rg_start r" "1 \<le> rg_count r" "1 \<le> rg_step r" "rg_step r < INT_LIMIT" "rg_start r \<le> rg_end r"
    using rg_wf_count [OF w(1)] w(1) by (simp_all add: rg_wf_def)
  have cs: "c_int (rg_start r - rg_step r) = rg_start r - rg_step r" using b by (simp add: c_int_small)
  have ce: "v = c_int (rg_end r + rg_step r) \<longleftrightarrow> v = rg_end r + rg_step r"
    using c_int_small [of "rg_end r + rg_step r"] c_int_over [of "rg_end r + rg_step r"] b Cons.prems(2,3) by (cases "rg_end r + rg_step r < INT_LIMIT") auto
  consider (start) "v = rg_start r - rg_step r" | (last) "v \<noteq> rg_start r - rg_step r" "v = rg_end r + rg_step r" | (other) "v \<noteq> rg_start r - rg_step r" "v \<noteq> rg_end r + rg_step r"
    by blast
  then show ?case
  proof cases
    case start
    define r' where "r' = r\<lparr>rg_start := v, rg_count := rg_count r + 1\<rparr>"
    have r': "rg_wf r'" using w start b Cons.prems(2) by (auto simp: rg_wf_def r'_def algebra_simps)
    then have "c_int (rg_count r + 1) = rg_count r + 1" using rg_wf_count [OF r'] b by (simp add: r'_def c_int_small)
    then have "rs' = r' # rs" using Cons.prems(4) b cs start by (simp add: r'_def)
    moreover have "rg_vals r' = v # rg_vals r" using rg_vals_start [OF r'] b start by (simp add: r'_def)
    ultimately show ?thesis using r' Cons.prems(1) by simp
  next
    case last
    define r' where "r' = r\<lparr>rg_end := v, rg_count := rg_count r + 1\<rparr>"
    have r': "rg_wf r'" using w last b Cons.prems(3) by (auto simp: rg_wf_def r'_def algebra_simps)
    then have "c_int (rg_count r + 1) = rg_count r + 1" using rg_wf_count [OF r'] b Cons.prems(3) by (simp add: r'_def c_int_small)
    then have "rs' = r' # rs" using Cons.prems(4) b cs ce last by (auto simp: r'_def)
    moreover have "rg_vals r' = rg_vals r @ [v]" using rg_vals_end [OF r', of "rg_end r"] by (simp add: r'_def)
    ultimately show ?thesis using r' Cons.prems(1) by simp
  next
    case other
    then obtain t where t: "add_loop rs v = Some t" "rs' = r # t" using Cons.prems(4) b cs ce by auto
    then show ?thesis using Cons.IH [OF _ Cons.prems(2,3) t(1)] Cons.prems(1) by simp
  qed
qed simp

lemma range_add_spec:
  assumes "\<forall>r \<in> set rs. rg_wf r" "0 \<le> v" "v < INT_MAX" "rs \<noteq> []" "v \<notin> set (range_vals rs)"
  shows "\<exists>rs'. range_add_value (\<lambda>_. True) rs v type = (1, rs') \<and> mset (range_vals rs') = add_mset v (mset (range_vals rs)) \<and> (\<forall>r \<in> set rs'. rg_wf r) \<and> rs' \<noteq> []"
proof (cases "add_loop rs v")
  case (Some rs')
  then show ?thesis using add_loop_spec [OF assms(1-3) Some] assms contains_iff [OF assms(1)] by (cases rs') (auto simp: range_add_value_def)
next
  case None
  define p where "p = last rs"
  have rs: "rs = butlast rs @ [p]" using assms(4) by (simp add: p_def)
  have p: "rg_wf p" using assms(1,4) by (simp add: p_def)
  show ?thesis
  proof (cases "rg_count p = 1 \<and> type = ENABLE_SUBRANGE_STEPPING")
    case True
    note one = rg_vals_single [OF p conjunct1 [OF True]]
    have "rg_start p \<in> set (range_vals rs)" using one by (subst rs) simp
    then have ne: "v \<noteq> rg_start p" using assms(5) by auto
    define q where "q = (if rg_start p < v then p\<lparr>rg_end := v\<rparr> else p\<lparr>rg_start := v\<rparr>)"
    define q' where "q' = q\<lparr>rg_step := rg_end q - rg_start q, rg_count := 2\<rparr>"
    have "0 \<le> rg_start q" "rg_end q < INT_MAX" "rg_start q < rg_end q"
      using one p ne assms(2,3) by (auto simp: q_def rg_wf_def)
    then have "rg_wf q'" "c_int (rg_end q - rg_start q) = rg_end q - rg_start q" by (simp_all add: rg_wf_def q'_def c_int_small)
    moreover have "mset (rg_vals q') = {#v, rg_start p#}" using one True by (auto simp: rg_vals_def q'_def q_def numeral_2_eq_2)
    moreover have "range_add_value (\<lambda>_. True) rs v type = (1, butlast rs @ [q'])"
      using None True assms(4,5) contains_iff [OF assms(1)] calculation(2) by (simp add: range_add_value_def p_def [symmetric] q_def [symmetric] q'_def Let_def) (simp add: q_def c_int_small)
    moreover have "mset (range_vals rs) = mset (range_vals (butlast rs)) + {#rg_start p#}" using one by (subst rs) simp
    moreover have "\<forall>r \<in> set (butlast rs). rg_wf r" using assms(1) by (meson in_set_butlastD)
    ultimately show ?thesis by auto
  next
    case False
    define n where "n = \<lparr>rg_start = v, rg_end = v, rg_count = 1, rg_step = 1\<rparr>"
    have "range_add_value (\<lambda>_. True) rs v type = (1, rs @ [n])"
      using None False assms(4,5) contains_iff [OF assms(1)] by (auto simp: range_add_value_def p_def [symmetric] Let_def new_range_def n_def)
    moreover have "rg_wf n" "rg_vals n = [v]" using assms(2,3) by (simp_all add: rg_wf_def rg_vals_def n_def)
    ultimately show ?thesis using assms(1) by auto
  qed
qed

section \<open>Intersection\<close>

text \<open>One turn of the loop of \<open>range_intersection\<close>.\<close>

definition inter_step :: "sched_range list \<Rightarrow> sched_range list \<Rightarrow> int \<Rightarrow> sched_range list" where
  "inter_step r2 acc cur =
     (if range_contains r2 cur then
        if acc = [] then [\<lparr>rg_start = cur, rg_end = cur, rg_count = 1, rg_step = 1\<rparr>]
        else snd (range_add_value (\<lambda>_. True) acc cur ENABLE_SUBRANGE_STEPPING)
      else acc)"

lemma after_split: "distinct (xs @ v # ys) \<Longrightarrow> after (xs @ v # ys) v = (case ys of [] \<Rightarrow> - 2 | w # _ \<Rightarrow> w)"
  by (subst after_def, subst dropWhile_append2) (auto split: list.splits)

lemma inter_loop_eq:
  assumes "\<forall>r \<in> set r1. rg_wf r" "distinct (range_vals r1)" "range_vals r1 = xs @ ys"
  shows "inter_loop r1 r2 (case ys of [] \<Rightarrow> - 2 | w # _ \<Rightarrow> w) acc = Some (foldl (inter_step r2) acc ys)"
  using assms(3)
proof (induction ys arbitrary: xs acc)
  case Nil
  then show ?case by (subst inter_loop.simps) simp
next
  case (Cons y ys)
  have y: "y \<in> set (range_vals r1)" using Cons.prems by simp
  then have "0 \<le> y" using assms(1) rg_vals_bounds(3) by (auto simp: range_vals_def)
  moreover have "range_next_value r1 y = (case ys of [] \<Rightarrow> - 2 | w # _ \<Rightarrow> w)"
    using next_value_eq [OF assms(1) y] after_split [of xs y ys] assms(2) Cons.prems by simp
  moreover have "range_vals r1 = (xs @ [y]) @ ys" using Cons.prems by simp
  ultimately show ?case using Cons.IH [of "xs @ [y]"] by (subst inter_loop.simps) (simp add: inter_step_def [of r2 acc y])
qed

lemma inter_fold:
  assumes "\<forall>v \<in> set ys. 0 \<le> v \<and> v < INT_MAX" "distinct ys" "\<forall>r \<in> set acc. rg_wf r" "set ys \<inter> set (range_vals acc) = {}" "\<forall>r \<in> set r2. rg_wf r"
  shows "mset (range_vals (foldl (inter_step r2) acc ys)) = mset (range_vals acc) + mset (filter (\<lambda>v. v \<in> set (range_vals r2)) ys) \<and>
    (\<forall>r \<in> set (foldl (inter_step r2) acc ys). rg_wf r)"
  using assms(1-4)
proof (induction ys arbitrary: acc)
  case (Cons y ys)
  have y: "0 \<le> y" "y < INT_MAX" "y \<notin> set (range_vals acc)" using Cons.prems by auto
  have s: "mset (range_vals (inter_step r2 acc y)) = mset (range_vals acc) + mset (filter (\<lambda>v. v \<in> set (range_vals r2)) [y]) \<and> (\<forall>r \<in> set (inter_step r2 acc y). rg_wf r)"
  proof (cases "acc = []")
    case True
    then show ?thesis using y contains_iff [OF assms(5), of y] by (simp add: inter_step_def rg_wf_def rg_vals_def)
  next
    case False
    then show ?thesis using range_add_spec [OF Cons.prems(3) y(1,2) False y(3), of ENABLE_SUBRANGE_STEPPING] contains_iff [OF assms(5), of y] Cons.prems(3)
      by (auto simp: inter_step_def)
  qed
  then have "set (range_vals (inter_step r2 acc y)) \<subseteq> insert y (set (range_vals acc))"
    using mset_eq_setD [of "range_vals (inter_step r2 acc y)" "range_vals acc @ filter (\<lambda>v. v \<in> set (range_vals r2)) [y]"] by (auto split: if_splits)
  then have "set ys \<inter> set (range_vals (inter_step r2 acc y)) = {}" using Cons.prems by auto
  then show ?case using Cons.IH [of "inter_step r2 acc y"] Cons.prems s by simp
qed simp

lemma range_intersection_spec:
  assumes "\<forall>r \<in> set r1. rg_wf r" "distinct (range_vals r1)" "\<forall>r \<in> set r2. rg_wf r"
  shows "\<exists>rs. range_intersection r1 r2 = Some rs \<and> (\<forall>r \<in> set rs. rg_wf r) \<and>
    mset (range_vals rs) = mset (filter (\<lambda>v. v \<in> set (range_vals r2)) (range_vals r1))"
proof (cases "r1 = [] \<or> r2 = []")
  case False
  then have "range_vals r1 \<noteq> []" using assms(1) rg_vals_Cons [of "hd r1"] by (cases r1) auto
  then have "range_next_value r1 (- 1) = (case range_vals r1 of [] \<Rightarrow> - 2 | w # _ \<Rightarrow> w)"
    using next_value_first [OF assms(1)] False by (cases "range_vals r1") auto
  then have "range_intersection r1 r2 = Some (foldl (inter_step r2) [] (range_vals r1))"
    using False inter_loop_eq [OF assms(1,2), of "[]" "range_vals r1" r2 "[]"] by (simp add: range_intersection_def)
  moreover have "\<forall>v \<in> set (range_vals r1). 0 \<le> v \<and> v < INT_MAX" using assms(1) rg_vals_bounds(3,4) by (force simp: range_vals_def)
  ultimately show ?thesis using inter_fold [of "range_vals r1" "[]" r2] assms(2,3) by simp
qed (auto simp: range_intersection_def)

section \<open>Text\<close>

text \<open>A section of one value is printed with its step, which the parser refuses, unless the step is 1.\<close>

definition rg_plain :: "sched_range \<Rightarrow> bool" where
  "rg_plain r \<longleftrightarrow> rg_wf r \<and> rg_room r \<and> (rg_count r = 1 \<longrightarrow> rg_step r = 1)"

lemma strtol_end_int_str:
  assumes "0 \<le> k" "k < INT_LIMIT" "\<not> is_digit (char_at rest)"
  shows "strtol_end (int_str k @ rest) = (k, rest)"
proof -
  obtain d ds where d: "int_str k = d # ds" using int_str_c_string(2) [of k] by (cases "int_str k") auto
  have all: "\<forall>c \<in> set (int_str k). is_digit c" using assms(1) dec_str_digits by (auto simp: int_str_def)
  have dg: "is_digit d" using all d by simp
  have tw: "takeWhile is_digit (int_str k @ rest) = int_str k" "dropWhile is_digit (int_str k @ rest) = rest"
    using all assms(3) by (cases rest; auto simp: char_at_def takeWhile_append2 dropWhile_append2)+
  have sp: "dropWhile isspace (int_str k @ rest) = int_str k @ rest" using is_digit_char(1) [OF dg] by (simp add: d)
  have sg: "(int_str k @ rest \<noteq> [] \<and> hd (int_str k @ rest) \<in> {CHR ''-'', CHR ''+''}) = False" "(int_str k @ rest \<noteq> [] \<and> hd (int_str k @ rest) = CHR ''-'') = False"
    using is_digit_char [OF dg] by (simp_all add: d)
  have v: "dec_val (int_str k) = nat k" using assms(1) by (simp add: int_str_def)
  have "strtol10 (int_str k @ rest) = (of_nat (nat k), False)"
    unfolding strtol10_def Let_def sp sg if_False tw v using assms(1,2) by simp
  moreover have "sint (of_nat (nat k) :: ulong) = k" using assms(1,2) by (simp add: signed_of_int signed_take_bit_int_eq_self)
  ultimately show ?thesis unfolding strtol_end_def Let_def sp sg if_False tw using assms(1,2) by (simp add: d c_int_small)
qed

lemma char_at_simps [simp]: "char_at (c # s) = c" "char_at [] = NUL" "\<not> is_digit NUL" "\<not> is_digit CHR '',''" "\<not> is_digit CHR ''-''" "\<not> is_digit CHR '':''"
  by (simp_all add: char_at_def is_digit_def uchar_def)

lemma char_at_int_str:
  assumes "0 \<le> k"
  shows "is_digit (char_at (int_str k @ rest))" "char_at (int_str k @ rest) \<noteq> CHR '',''" "\<not> isspace (char_at (int_str k @ rest))"
proof -
  obtain d ds where d: "int_str k = d # ds" using int_str_c_string(2) [of k] by (cases "int_str k") auto
  then have "d \<in> set (dec_str (nat k))" using assms by (simp add: int_str_def)
  then show dg: "is_digit (char_at (int_str k @ rest))" using dec_str_digits by (simp add: d)
  then show "char_at (int_str k @ rest) \<noteq> CHR '',''" by auto
  show "\<not> isspace (char_at (int_str k @ rest))" using dg is_digit_char(1) by blast
qed

lemma count_of: "rg_wf r \<Longrightarrow> rg_room r \<Longrightarrow> c_int (c_int (rg_end r - rg_start r) + rg_step r) sdiv rg_step r = rg_count r"
proof -
  assume w: "rg_wf r" and m: "rg_room r"
  have b: "rg_start r \<le> rg_end r" "0 \<le> rg_start r" "rg_end r < INT_MAX" "1 \<le> rg_step r" "rg_end r + rg_step r < INT_LIMIT"
    using w m by (simp_all add: rg_wf_def rg_room_def)
  then have "c_int (rg_end r - rg_start r) = rg_end r - rg_start r" by (intro c_int_small) linarith+
  moreover have "rg_end r - rg_start r + rg_step r = rg_count r * rg_step r" using w by (simp add: rg_wf_def algebra_simps)
  moreover have "c_int (rg_end r - rg_start r + rg_step r) = rg_end r - rg_start r + rg_step r"
    using b by (intro c_int_small) linarith+
  moreover have "rg_count r * rg_step r sdiv rg_step r = rg_count r" using w by (simp add: rg_wf_def signed_divide_int_def sgn_mult abs_mult)
  ultimately show ?thesis by simp
qed

lemma section_parse:
  assumes "rg_plain r" "char_at rest = CHR '','' \<or> rest = []" "pre = [] \<or> pre = '',''"
  shows "sched_subjob_index (Some (pre @ section_str r @ rest)) = Some (rest, rg_start r, rg_end r, rg_step r, rg_count r)"
proof -
  have w: "rg_wf r" "rg_room r" "rg_count r = 1 \<longrightarrow> rg_step r = 1" using assms(1) by (auto simp: rg_plain_def)
  have b: "0 \<le> rg_start r" "rg_start r \<le> rg_end r" "rg_end r < INT_LIMIT" "1 \<le> rg_step r" "rg_step r < INT_LIMIT" using w(1) by (simp_all add: rg_wf_def)
  have rc: "\<not> is_digit (char_at rest)" "char_at rest = NUL \<or> char_at rest = CHR '',''" using assms(2) by auto
  define tx where "tx = (if rg_count r > 1 then ''-'' @ int_str (rg_end r) @ (if rg_step r > 1 then '':'' @ int_str (rg_step r) else []) else [])"
  have s: "section_str r = int_str (rg_start r) @ tx" using w by (auto simp: section_str_def tx_def rg_wf_def)
  have p: "(if char_at (pre @ section_str r @ rest) = CHR '','' \<or> isspace (char_at (pre @ section_str r @ rest)) then tl (pre @ section_str r @ rest) else pre @ section_str r @ rest)
      = int_str (rg_start r) @ tx @ rest"
    using assms(3) char_at_int_str [OF b(1), of "tx @ rest"] by (auto simp: s)
  have tx: "\<not> is_digit (char_at (tx @ rest))" using rc by (simp add: tx_def)
  have b': "rg_start r < INT_LIMIT" using b by simp
  note x = strtol_end_int_str [OF b(1) b' tx]
  consider (one) "rg_count r = 1" "rg_step r = 1" "rg_end r = rg_start r" | (unit) "rg_count r > 1" "rg_step r = 1" | (steps) "rg_count r > 1" "rg_step r > 1"
    using w b(4) by (auto simp: rg_wf_def) fastforce+
  then show ?thesis
  proof cases
    case one
    then show ?thesis using x rc char_at_int_str [OF b(1), of "tx @ rest"] count_of [OF w(1,2)]
      unfolding sched_subjob_index_def option.case Let_def p by (auto simp: tx_def)
  next
    case unit
    then show ?thesis using x rc char_at_int_str [OF b(1), of "tx @ rest"] count_of [OF w(1,2)] strtol_end_int_str [of "rg_end r" rest] b
      unfolding sched_subjob_index_def option.case Let_def p by (auto simp: tx_def)
  next
    case steps
    then show ?thesis using x rc char_at_int_str [OF b(1), of "tx @ rest"] count_of [OF w(1,2)]
      strtol_end_int_str [of "rg_end r" "'':'' @ int_str (rg_step r) @ rest"] strtol_end_int_str [of "rg_step r" rest] b
      unfolding sched_subjob_index_def option.case Let_def p by (auto simp: tx_def)
  qed
qed

lemma range_to_str_Nil [simp]: "range_to_str [] = []"
  by (simp add: range_to_str_def)

lemma range_to_str_Cons: "range_to_str (r # rs) = section_str r @ (if rs = [] then [] else CHR '','' # range_to_str rs)"
proof -
  have "range_to_str (r # rs) = butlast (concat (map (\<lambda>c. section_str c @ '','') (r # rs)))" for r rs
  proof -
    have "last (concat (map (\<lambda>c. section_str c @ '','') (r # rs))) = CHR '',''" by (induction rs arbitrary: r) auto
    then show ?thesis by (simp add: range_to_str_def Let_def)
  qed
  then show ?thesis by (cases rs) (simp_all add: butlast_append)
qed

lemma settle_end_wf: "rg_wf r \<Longrightarrow> settle_end r x (rg_end r) = rg_end r"
  by (subst settle_end.simps) (simp add: contains_single_iff rg_vals_end [of r "0"])

lemma parse_printed:
  "rs \<noteq> [] \<Longrightarrow> \<forall>r \<in> set rs. rg_plain r \<Longrightarrow> pre = [] \<or> pre = '','' \<Longrightarrow> parse_ranges (\<lambda>_. True) head (pre @ range_to_str rs) = head @ rs"
proof (induction rs arbitrary: head pre)
  case (Cons r rs)
  have r: "rg_plain r" "rg_wf r" using Cons.prems(2) by (auto simp: rg_plain_def)
  define rest where "rest = (if rs = [] then [] else CHR '','' # range_to_str rs)"
  note sp = section_parse [OF r(1), of rest pre]
  have c: "range_contains [r] (rg_end r)" using contains_single_iff [OF r(2)] rg_vals_end [OF r(2), of 0] by simp
  have sect: "\<lparr>rg_start = rg_start r, rg_end = rg_end r, rg_count = rg_count r, rg_step = rg_step r\<rparr> = r" by simp
  show ?case
  proof (cases "rs = []")
    case True
    then show ?thesis using sp Cons.prems(3) c settle_end_wf [OF r(2)] by (subst parse_ranges.simps) (simp add: range_to_str_Cons rest_def new_range_def Let_def sect)
  next
    case False
    have "parse_ranges (\<lambda>_. True) (head @ [r]) ('','' @ range_to_str rs) = (head @ [r]) @ rs" using Cons.IH [OF False, of "'',''" "head @ [r]"] Cons.prems by simp
    then show ?thesis using False sp Cons.prems(3) c settle_end_wf [OF r(2)] by (subst parse_ranges.simps) (simp add: range_to_str_Cons rest_def new_range_def Let_def sect)
  qed
qed simp

lemma range_text_roundtrip:
  assumes "\<forall>r \<in> set rs. rg_plain r"
  shows "range_parse (\<lambda>_. True) (Some (range_to_str rs)) = rs"
proof (cases "rs = []")
  case True
  then show ?thesis by (simp add: range_parse_def range_to_str_def sched_subjob_index_def isspace_def uchar_def)
next
  case False
  then show ?thesis using parse_printed [OF False assms, of "[]" "[]"] by (simp add: range_parse_def)
qed

section \<open>Running the subjobs of an array in order\<close>

text \<open>
  The scheduler runs the first queued index of an array (\<open>range_next_value(r, -1)\<close>) and then removes it. The
  locale states what that needs of a queue of indices.
\<close>

primrec run_firsts :: "('q \<Rightarrow> int) \<Rightarrow> ('q \<Rightarrow> int \<Rightarrow> 'q) \<Rightarrow> nat \<Rightarrow> 'q \<Rightarrow> int list \<times> 'q" where
  "run_firsts first remove 0 q = ([], q)"
| "run_firsts first remove (Suc n) q = (let v = first q; (vs, q') = run_firsts first remove n (remove q v) in (v # vs, q'))"

locale index_queue =
  fixes vals :: "'q \<Rightarrow> int list" and ok :: "'q \<Rightarrow> bool" and first :: "'q \<Rightarrow> int" and remove :: "'q \<Rightarrow> int \<Rightarrow> 'q"
  assumes first_hd: "ok q \<Longrightarrow> vals q \<noteq> [] \<Longrightarrow> first q = hd (vals q)"
    and remove_hd: "ok q \<Longrightarrow> vals q \<noteq> [] \<Longrightarrow> ok (remove q (hd (vals q))) \<and> vals (remove q (hd (vals q))) = tl (vals q)"
begin

lemma run_in_order:
  "ok q \<Longrightarrow> n \<le> length (vals q) \<Longrightarrow> \<exists>q'. run_firsts first remove n q = (take n (vals q), q') \<and> ok q' \<and> vals q' = drop n (vals q)"
proof (induction n arbitrary: q)
  case (Suc n)
  then have ne: "vals q \<noteq> []" by auto
  note r = remove_hd [OF Suc.prems(1) ne]
  obtain q' where "run_firsts first remove n (remove q (hd (vals q))) = (take n (tl (vals q)), q')" "ok q'" "vals q' = drop n (tl (vals q))"
    using Suc.IH [of "remove q (hd (vals q))"] r Suc.prems(2) by (metis Suc_leD Suc_le_mono length_Cons list.collapse ne)
  then show ?case using first_hd [OF Suc.prems(1) ne] ne by (cases "vals q") auto
qed simp

end

interpretation rq: index_queue range_vals "\<lambda>rs. \<forall>r \<in> set rs. rg_wf r \<and> rg_room r" "\<lambda>rs. range_next_value rs (- 1)" "\<lambda>rs v. snd (range_remove_value rs v)"
proof
  fix rs :: "sched_range list"
  assume ok: "\<forall>r \<in> set rs. rg_wf r \<and> rg_room r" and ne: "range_vals rs \<noteq> []"
  then have wf: "\<forall>r \<in> set rs. rg_wf r" by simp
  obtain r rs' where rs: "rs = r # rs'" using ne by (cases rs) auto
  show "range_next_value rs (- 1) = hd (range_vals rs)" using next_value_first [OF wf] rs by simp
  have hd: "hd (range_vals rs) = rg_start r" using rg_vals_Cons [of r] wf rs by auto
  have w: "rg_wf r" "rg_room r" using ok rs by auto
  obtain t where t: "remove_loop rs (rg_start r) = Some t" by (simp add: rs Let_def)
  have "range_vals t = tl (range_vals rs)"
  proof (cases "rg_count r = 1")
    case True
    have "c_int (rg_start r + rg_step r) = rg_start r + rg_step r" using w rg_vals_single [OF w(1) True] by (simp add: rg_wf_def rg_room_def c_int_small)
    then show ?thesis using t w rg_vals_single [OF w(1) True] by (auto simp: rs Let_def rg_wf_def)
  next
    case False
    then have c: "rg_count r > 1" using w by (simp add: rg_wf_def)
    have "c_int (rg_start r + rg_step r) = rg_start r + rg_step r" "c_int (rg_count r - 1) = rg_count r - 1"
      using rg_more [OF w(1) c] rg_wf_count [OF w(1)] w(1) c unfolding rg_wf_def by (intro c_int_small; linarith)+
    then show ?thesis using t rg_more [OF w(1) c] rg_vals_start [OF w(1) c] by (auto simp: rs Let_def)
  qed
  moreover have "range_contains rs (rg_start r)" using contains_iff [OF wf] ne hd hd_in_set by metis
  ultimately show "(\<forall>r \<in> set (snd (range_remove_value rs (hd (range_vals rs)))). rg_wf r \<and> rg_room r) \<and>
      range_vals (snd (range_remove_value rs (hd (range_vals rs)))) = tl (range_vals rs)"
    using t remove_loop_spec [OF ok t] by (simp add: range_remove_value_def hd)
qed

section \<open>Overlapping ranges\<close>

text \<open>
  With a value in two sections the enumeration of \<open>range_intersection\<close> goes back to the first and never ends.
\<close>

definition overlapping :: "sched_range list" where
  "overlapping = [\<lparr>rg_start = 1, rg_end = 5, rg_count = 3, rg_step = 2\<rparr>, \<lparr>rg_start = 3, rg_end = 3, rg_count = 1, rg_step = 1\<rparr>]"

lemma overlapping_parsed: "range_parse (\<lambda>_. True) (Some ''1-5:2,3'') = overlapping"
proof -
  have "range_to_str overlapping = ''1-5:2,3''" by code_simp
  moreover have "\<forall>r \<in> set overlapping. rg_plain r" by (simp add: overlapping_def rg_plain_def rg_wf_def rg_room_def)
  ultimately show ?thesis using range_text_roundtrip [of overlapping] by simp
qed

lemma overlapping_next:
  "range_next_value overlapping 1 = 3" "range_next_value overlapping 3 = 5" "range_next_value overlapping 5 = 3"
  by (simp_all add: overlapping_def range_next_value_def range_contains_single_def c_int_def signed_modulo_int_def)

lemma inter_loop_overlapping: "inter_loop r1 r2 cur acc = Some y \<Longrightarrow> r1 = overlapping \<longrightarrow> cur \<notin> {1, 3, 5}"
  by (rule inter_loop.raw_induct [of "\<lambda>r1 r2 cur acc y. r1 = overlapping \<longrightarrow> cur \<notin> {1, 3, 5}"])
    (use overlapping_next in \<open>auto split: if_splits\<close>)

lemma intersection_overlapping: "r2 \<noteq> [] \<Longrightarrow> range_intersection overlapping r2 = None"
  using inter_loop_overlapping [of overlapping r2 1 "[]"]
  by (cases "inter_loop overlapping r2 1 []") (auto simp: range_intersection_def range_next_value_def, simp_all add: overlapping_def)

section \<open>Properties\<close>

text \<open>
  C11. The scheduler's ranges of subjob indices behave as collections of indices. \<open>range_contains\<close> is membership;
  \<open>range_next_value\<close> with a negative value is the first index, and with an index of the range the one that follows it, or \<open>- 2\<close>
  after the last; \<open>range_add_value\<close> adds an index that is missing and nothing else, and leaves a range with the index
  alone; \<open>range_remove_value\<close> removes one occurrence of an index that starts or ends a section, and refuses the
  others; \<open>range_intersection\<close> of a range without duplicates ends and has the indices common to both.
\<close>

theorem ranges_are_sets:
  assumes "\<forall>r \<in> set rs. rg_wf r" "rs \<noteq> []"
  shows "(\<forall>v. range_contains rs v \<longleftrightarrow> v \<in> set (range_vals rs)) \<and>
    range_next_value rs (- 1) = hd (range_vals rs) \<and>
    (\<forall>v \<in> set (range_vals rs). range_next_value rs v = after (range_vals rs) v) \<and>
    (\<forall>v type. 0 \<le> v \<and> v < INT_MAX \<longrightarrow>
      (\<exists>code rs'. range_add_value (\<lambda>_. True) rs v type = (code, rs') \<and> (\<forall>r \<in> set rs'. rg_wf r) \<and>
        (if v \<in> set (range_vals rs) then code = 0 \<and> rs' = rs else code = 1 \<and> mset (range_vals rs') = add_mset v (mset (range_vals rs))))) \<and>
    ((\<forall>r \<in> set rs. rg_room r) \<longrightarrow> (\<forall>v. \<exists>code rs'. range_remove_value rs v = (code, rs') \<and> (\<forall>r \<in> set rs'. rg_wf r) \<and>
      (if \<exists>r \<in> set rs. v = rg_start r \<or> v = rg_end r then code = 1 \<and> mset (range_vals rs) = add_mset v (mset (range_vals rs')) else code = 0 \<and> rs' = rs))) \<and>
    (\<forall>r2. distinct (range_vals rs) \<and> (\<forall>r \<in> set r2. rg_wf r) \<longrightarrow>
      (\<exists>rs'. range_intersection rs r2 = Some rs' \<and> (\<forall>r \<in> set rs'. rg_wf r) \<and>
        mset (range_vals rs') = mset (filter (\<lambda>v. v \<in> set (range_vals r2)) (range_vals rs))))"
proof (intro conjI allI impI ballI, goal_cases)
  case (1 v) then show ?case using contains_iff [OF assms(1)] by blast
next
  case 2 then show ?case by (rule next_value_first [OF assms])
next
  case (3 v) then show ?case by (rule next_value_eq [OF assms(1)])
next
  case (4 v type)
  then show ?case using range_add_spec [OF assms(1) _ _ assms(2), of v type] contains_iff [OF assms(1), of v] assms
    by (cases "v \<in> set (range_vals rs)") (auto simp: range_add_value_def)
next
  case (5 v) then show ?case using range_remove_spec [OF assms(1)] by blast
next
  case (6 r2) then show ?case using range_intersection_spec [OF assms(1)] by blast
qed

definition odd_and_eight :: "sched_range list" where
  "odd_and_eight = [\<lparr>rg_start = 1, rg_end = 5, rg_count = 3, rg_step = 2\<rparr>, \<lparr>rg_start = 8, rg_end = 8, rg_count = 1, rg_step = 1\<rparr>]"

lemma odd_and_eight_ok:
  "\<forall>r \<in> set odd_and_eight. rg_wf r" "\<forall>r \<in> set odd_and_eight. rg_wf r \<and> rg_room r" "\<forall>r \<in> set odd_and_eight. rg_plain r"
  "range_vals odd_and_eight = [1, 3, 5, 8]" "odd_and_eight \<noteq> []"
  by (simp_all add: odd_and_eight_def rg_plain_def rg_wf_def rg_room_def rg_vals_def upt_rec)

theorem ranges_are_sets_witness:
  "range_contains odd_and_eight 3 \<and> range_next_value odd_and_eight 5 = 8 \<and> fst (range_remove_value odd_and_eight 3) = 0 \<and>
   (\<exists>rs. range_intersection odd_and_eight odd_and_eight = Some rs \<and> mset (range_vals rs) = {#1, 3, 5, 8#})"
proof -
  note p = ranges_are_sets [OF odd_and_eight_ok(1,5), unfolded odd_and_eight_ok(4)]
  have r: "\<forall>r \<in> set odd_and_eight. rg_room r" "\<not> (\<exists>r \<in> set odd_and_eight. 3 = rg_start r \<or> 3 = rg_end r)"
    using odd_and_eight_ok(2) by (simp_all add: odd_and_eight_def)
  have "range_contains odd_and_eight 3" "range_next_value odd_and_eight 5 = 8" using p by (auto simp: after_def)
  moreover have "fst (range_remove_value odd_and_eight 3) = 0"
    using p r by (metis fst_conv)
  moreover have "\<exists>rs. range_intersection odd_and_eight odd_and_eight = Some rs \<and> mset (range_vals rs) = {#1, 3, 5, 8#}"
  proof -
    have "distinct [1, 3, 5, 8 :: int] \<and> (\<forall>r \<in> set odd_and_eight. rg_wf r)" using odd_and_eight_ok(1) by simp
    then have "\<exists>rs'. range_intersection odd_and_eight odd_and_eight = Some rs' \<and> (\<forall>r \<in> set rs'. rg_wf r) \<and>
        mset (range_vals rs') = mset (filter (\<lambda>v. v \<in> set (range_vals odd_and_eight)) [1, 3, 5, 8])" using p by blast
    then show ?thesis by (auto simp: odd_and_eight_ok(4))
  qed
  ultimately show ?thesis by blast
qed

lemma lone_section:
  "snd (range_remove_value (range_parse (\<lambda>_. True) (Some ''1-3:2'')) 1) = [\<lparr>rg_start = 3, rg_end = 3, rg_count = 1, rg_step = 2\<rparr>]"
  "range_parse (\<lambda>_. True) (Some ''3:2'') = []"
proof -
  define r where "r = [\<lparr>rg_start = 1, rg_end = 3, rg_count = 2, rg_step = 2\<rparr>]"
  have "range_to_str r = ''1-3:2''" unfolding r_def by code_simp
  moreover have "\<forall>r \<in> set r. rg_plain r" by (simp add: r_def rg_plain_def rg_wf_def rg_room_def)
  ultimately have "range_parse (\<lambda>_. True) (Some ''1-3:2'') = r" using range_text_roundtrip [of r] by simp
  moreover have "snd (range_remove_value r 1) = [\<lparr>rg_start = 3, rg_end = 3, rg_count = 1, rg_step = 2\<rparr>]" unfolding r_def by code_simp
  ultimately show "snd (range_remove_value (range_parse (\<lambda>_. True) (Some ''1-3:2'')) 1) = [\<lparr>rg_start = 3, rg_end = 3, rg_count = 1, rg_step = 2\<rparr>]" by simp
  have "int_str 3 = ''3''" "is_digit CHR ''3''" "\<not> isspace CHR ''3''" by code_simp+
  moreover from this have "strtol_end ''3:2'' = (3, '':2'')" using strtol_end_int_str [of 3 "'':2''"] by simp
  ultimately have "sched_subjob_index (Some ''3:2'') = None" by (simp add: sched_subjob_index_def)
  then show "range_parse (\<lambda>_. True) (Some ''3:2'') = []" unfolding range_parse_def option.case by (subst parse_ranges.simps) (simp only: option.case)
qed

text \<open>
  C26. The text \<open>range_to_str\<close> prints for a range is parsed by \<open>range_parse\<close> into the same range, provided
  sections with one index have step 1. A section with one index and a greater step, which \<open>range_remove_value\<close>
  leaves after the other indices are gone, is printed as \<open>3:2\<close> and refused.
\<close>

theorem range_text:
  "((\<forall>r \<in> set rs. rg_plain r) \<longrightarrow> range_parse (\<lambda>_. True) (Some (range_to_str rs)) = rs) \<and>
   snd (range_remove_value (range_parse (\<lambda>_. True) (Some ''1-3:2'')) 1) = [\<lparr>rg_start = 3, rg_end = 3, rg_count = 1, rg_step = 2\<rparr>] \<and>
   range_to_str [\<lparr>rg_start = 3, rg_end = 3, rg_count = 1, rg_step = 2\<rparr>] = ''3:2'' \<and> range_parse (\<lambda>_. True) (Some ''3:2'') = []"
proof (intro conjI impI)
  assume "\<forall>r \<in> set rs. rg_plain r" then show "range_parse (\<lambda>_. True) (Some (range_to_str rs)) = rs" by (rule range_text_roundtrip)
next
  show "range_to_str [\<lparr>rg_start = 3, rg_end = 3, rg_count = 1, rg_step = 2\<rparr>] = ''3:2''" by code_simp
qed (rule lone_section)+

theorem range_text_witness: "range_parse (\<lambda>_. True) (Some (range_to_str odd_and_eight)) = odd_and_eight \<and> range_to_str odd_and_eight = ''1-5:2,8''"
proof
  show "range_parse (\<lambda>_. True) (Some (range_to_str odd_and_eight)) = odd_and_eight" using range_text [of odd_and_eight] odd_and_eight_ok(3) by blast
  show "range_to_str odd_and_eight = ''1-5:2,8''" by code_simp
qed

text \<open>
  C27. A range whose sections overlap is accepted by the parser, and the enumeration of its indices goes round for
  ever: after 5 comes 3 again. \<open>range_intersection\<close> with such a range does not end.
\<close>

theorem overlapping_never_ends:
  "range_parse (\<lambda>_. True) (Some ''1-5:2,3'') = overlapping \<and>
   range_next_value overlapping 3 = 5 \<and> range_next_value overlapping 5 = 3 \<and>
   (\<forall>r2. range_intersection overlapping r2 = (if r2 = [] then Some [] else None))"
  using overlapping_next intersection_overlapping by (auto simp: range_intersection_def overlapping_parsed)

text \<open>
  C22. Taking the first index of the range and removing it, as the scheduler does each time it runs a
  subjob, hands out the indices of the range in their order, each once, until the range is empty.
\<close>

theorem subjobs_run_in_order:
  assumes "\<forall>r \<in> set rs. rg_wf r \<and> rg_room r" "n \<le> length (range_vals rs)"
  shows "\<exists>rs'. run_firsts (\<lambda>rs. range_next_value rs (- 1)) (\<lambda>rs v. snd (range_remove_value rs v)) n rs = (take n (range_vals rs), rs') \<and>
    range_vals rs' = drop n (range_vals rs)"
  using rq.run_in_order [OF assms] by blast

theorem subjobs_run_in_order_witness:
  "fst (run_firsts (\<lambda>rs. range_next_value rs (- 1)) (\<lambda>rs v. snd (range_remove_value rs v)) 3 odd_and_eight) = [1, 3, 5]"
proof -
  have "3 \<le> length (range_vals odd_and_eight)" by (simp add: odd_and_eight_ok(4))
  from subjobs_run_in_order [OF odd_and_eight_ok(2) this] show ?thesis by (auto simp del: run_firsts.simps simp: odd_and_eight_ok(4))
qed

end
