(* ===== verification/Job_Array.thy ===== *)
theory Job_Array
  imports Sched_Range
begin

unbundle bit_operations_syntax

text \<open>
  Array jobs in the server, \<open>server/array_func.c\<close>: the table \<open>struct ajtrkhd\<close> that tracks the state of every subjob,
  the text form of the indices that remain, and the identifiers of subjobs. Of the job structure the record
  \<open>array_job\<close> has the fields these functions use. The specification of a table is that its counters are the
  numbers of entries in each state; the text of the remaining indices is proved against the scheduler that
  reads it (theory \<open>Sched_Range\<close>) and against the server that an array is moved to.
\<close>

section \<open>The tracking table\<close>

record ajtrk =
  trk_index :: int
  trk_status :: int
  trk_error :: int
  trk_exitstat :: int
  trk_substate :: int
  trk_stgout :: int

record ajtrkhd =
  tkm_size :: nat
  tkm_ct :: int
  tkm_step :: int
  tkm_flags :: int
  tkm_subjsct :: "int list"
  tkm_dsubjsct :: int
  tkm_tbl :: "ajtrk list"

abbreviation PBS_NUMJOBSTATE :: nat where "PBS_NUMJOBSTATE \<equiv> 10"
abbreviation JOB_STATE_QUEUED :: int where "JOB_STATE_QUEUED \<equiv> 1"
abbreviation JOB_STATE_RUNNING :: int where "JOB_STATE_RUNNING \<equiv> 4"
abbreviation JOB_STATE_EXITING :: int where "JOB_STATE_EXITING \<equiv> 5"
abbreviation JOB_STATE_EXPIRED :: int where "JOB_STATE_EXPIRED \<equiv> 6"
abbreviation JOB_SUBSTATE_FINISHED :: int where "JOB_SUBSTATE_FINISHED \<equiv> 92"
abbreviation JOB_SVFLG_ArrayJob :: uint where "JOB_SVFLG_ArrayJob \<equiv> 0x10000"
abbreviation PBS_MAX_ARRAY_JOB_DFL :: int where "PBS_MAX_ARRAY_JOB_DFL \<equiv> 10000"
abbreviation PBSE_MODATRRUN :: int where "PBSE_MODATRRUN \<equiv> 15015"
abbreviation PBSE_MaxArraySize :: int where "PBSE_MaxArraySize \<equiv> 15107"

datatype action_mode = ATR_ACTION_NOOP | ATR_ACTION_NEW | ATR_ACTION_ALTER | ATR_ACTION_RECOV | ATR_ACTION_FREE

record 'r array_job =
  ji_jobid :: string
  ji_state :: int
  ji_svrflags :: uint
  ji_ajtrk :: "ajtrkhd option"
  ji_array :: "'r attribute"
  ji_array_state_count :: "'r attribute"
  ji_indices_submitted :: "'r attribute"
  ji_indices_remaining :: "'r attribute"
  ji_modified :: bool

section \<open>Identifiers\<close>

datatype array_kind = IS_ARRAY_NO | IS_ARRAY_ArrayJob | IS_ARRAY_Single | IS_ARRAY_Range

text \<open>\<open>strchr\<close>: the string from the first occurrence on.\<close>

definition strchr :: "string \<Rightarrow> char \<Rightarrow> string option" where
  "strchr s c = (let r = dropWhile (\<lambda>d. d \<noteq> c) s in if r = [] then None else Some r)"

definition is_job_array :: "string \<Rightarrow> array_kind" where
  "is_job_array jid =
     (case strchr jid CHR ''['' of None \<Rightarrow> IS_ARRAY_NO
      | Some pc \<Rightarrow>
        let pc = tl pc in
        if char_at pc = CHR '']'' then IS_ARRAY_ArrayJob
        else let pc = dropWhile is_digit pc in
          if char_at pc = CHR ''-'' \<or> char_at pc = CHR '','' then IS_ARRAY_Range else IS_ARRAY_Single)"

text \<open>The search of a table for an index; \<open>-1\<close> when there is none.\<close>

definition find_offset :: "ajtrkhd option \<Rightarrow> int \<Rightarrow> int" where
  "find_offset ptbl iindx =
     (case ptbl of None \<Rightarrow> - 1
      | Some t \<Rightarrow> (case find (\<lambda>i. trk_index (tkm_tbl t ! i) = iindx) [0..<nat (tkm_ct t)] of None \<Rightarrow> - 1 | Some i \<Rightarrow> int i))"

definition numindex_to_offset :: "'r array_job \<Rightarrow> int \<Rightarrow> int" where
  "numindex_to_offset parent iindx = find_offset (ji_ajtrk parent) iindx"

definition subjob_index_to_offset :: "'r array_job \<Rightarrow> string option \<Rightarrow> int" where
  "subjob_index_to_offset parent index =
     (case index of None \<Rightarrow> - 1 | Some s \<Rightarrow> if s = [] then - 1 else find_offset (ji_ajtrk parent) (fst (strtol_end s)))"

definition get_index_from_jid :: "string \<Rightarrow> string option" where
  "get_index_from_jid newjid =
     (case (strchr newjid CHR ''['', strchr newjid CHR '']'') of
        (Some pcb, Some pce) \<Rightarrow>
          if length pce \<ge> length pcb then None else Some (take (length pcb - length pce - 1) (tl pcb))
      | _ \<Rightarrow> None)"

text \<open>
  The identifier that \<open>find_arrayparent\<close> looks up, and the one \<open>mk_subjob_id\<close> makes, both in arrays of
  \<open>PBS_MAXSVRJOBID + 1\<close> characters: \<open>None\<close> where the array is overrun.
\<close>

definition jobid_buf :: "string \<Rightarrow> string option" where
  "jobid_buf s = (if length s \<le> PBS_MAXSVRJOBID then Some s else None)"

definition arrayparent_id :: "string \<Rightarrow> string option" where
  "arrayparent_id subjobid =
     (if CHR ''['' \<notin> set (take PBS_MAXSVRJOBID subjobid) then None
      else jobid_buf (takeWhile (\<lambda>c. c \<noteq> CHR ''['') subjobid @ ''[]'' @ (case strchr subjobid CHR ''.'' of None \<Rightarrow> [] | Some pc \<Rightarrow> pc)))"

definition mk_subjob_id :: "'r array_job \<Rightarrow> nat \<Rightarrow> string option" where
  "mk_subjob_id parent offset =
     (let jid = ji_jobid parent; index = int_str (trk_index (tkm_tbl (the (ji_ajtrk parent)) ! offset));
          hold = the (strchr jid CHR '']'')
      in jobid_buf (takeWhile (\<lambda>c. c \<noteq> CHR ''['') jid @ ''['' @ index @ hold))"

definition PBS_FILE_ARRAY_INDEX_TAG :: string where "PBS_FILE_ARRAY_INDEX_TAG = ''^array_index^''"

definition strstr :: "string \<Rightarrow> string \<Rightarrow> nat option" where
  "strstr s t = find (\<lambda>i. take (length t) (drop i s) = t) [0..<length s + 1]"

definition subst_array_index :: "'r array_job option \<Rightarrow> nat \<Rightarrow> string \<Rightarrow> string" where
  "subst_array_index parentaj subjindx path =
     (case parentaj of None \<Rightarrow> path
      | Some parent \<Rightarrow>
        (case strstr path PBS_FILE_ARRAY_INDEX_TAG of None \<Rightarrow> path
         | Some i \<Rightarrow> take i path @ int_str (trk_index (tkm_tbl (the (ji_ajtrk parent)) ! subjindx)) @ drop (i + length PBS_FILE_ARRAY_INDEX_TAG) path))"

section \<open>States of subjobs\<close>

definition set_subjob_tblstate :: "'r array_job \<Rightarrow> int \<Rightarrow> int \<Rightarrow> 'r array_job" where
  "set_subjob_tblstate parent offset newstate =
     (if offset = - 1 then parent
      else case ji_ajtrk parent of None \<Rightarrow> parent
        | Some t \<Rightarrow>
          let i = nat offset; oldstate = trk_status (tkm_tbl t ! i) in
          if oldstate = newstate then parent
          else let tbl = (tkm_tbl t)[i := (tkm_tbl t ! i)\<lparr>trk_status := newstate\<rparr>];
                   ct = (tkm_subjsct t)[nat oldstate := tkm_subjsct t ! nat oldstate - 1];
                   ct = ct[nat newstate := ct ! nat newstate + 1]
               in parent\<lparr>ji_ajtrk := Some (t\<lparr>tkm_tbl := tbl, tkm_subjsct := ct\<rparr>),
                    ji_indices_remaining := (ji_indices_remaining parent)\<lparr>at_flags := at_flags (ji_indices_remaining parent) OR ATR_VFLAG_MODCACHE\<rparr>\<rparr>)"

definition get_subjob_state :: "'r array_job \<Rightarrow> int \<Rightarrow> int" where
  "get_subjob_state parent iindx = (if iindx = - 1 then - 1 else trk_status (tkm_tbl (the (ji_ajtrk parent)) ! nat iindx))"

text \<open>The text of \<open>array_state_count\<close>, written to a block of 150 characters.\<close>

definition state_ct_str :: "ajtrkhd \<Rightarrow> string" where
  "state_ct_str t =
     ''Queued:'' @ int_str (tkm_subjsct t ! 1) @ '' Running:'' @ int_str (tkm_subjsct t ! 4) @
     '' Exiting:'' @ int_str (tkm_subjsct t ! 5) @ '' Expired:'' @ int_str (tkm_subjsct t ! 6) @ '' ''"

definition update_subjob_state_ct :: "(nat \<Rightarrow> bool) \<Rightarrow> 'r array_job \<Rightarrow> 'r array_job" where
  "update_subjob_state_ct mal pjob =
     (if \<not> mal 150 then pjob
      else pjob\<lparr>ji_array_state_count := (ji_array_state_count pjob)\<lparr>at_val := At_str (Some (state_ct_str (the (ji_ajtrk pjob)))),
             at_flags := at_flags (ji_array_state_count pjob) OR (ATR_VFLAG_SET OR ATR_VFLAG_MODCACHE)\<rparr>\<rparr>)"

section \<open>Indices as text\<close>

datatype subjob_section = Section string int int int int | No_More string | Bad_Format

text \<open>\<open>parse_subjob_index\<close> of \<open>array_func.c\<close>: return codes 0 with \<open>ep\<close>, \<open>px\<close>, \<open>py\<close>, \<open>pz\<close>, \<open>pct\<close>; 1 with \<open>ep\<close>; and -1.\<close>

definition parse_subjob_index :: "string \<Rightarrow> subjob_section" where
  "parse_subjob_index pc =
     (let pc = dropWhile isspace pc in
      if char_at pc = NUL \<or> char_at pc = CHR '']'' then No_More pc
      else if \<not> is_digit (char_at pc) then Bad_Format
      else let (x, pc) = strtol_end pc; pc = dropWhile isspace pc;
               yz = (if char_at pc = CHR '','' \<or> char_at pc = NUL \<or> char_at pc = CHR '']''
                     then Some (x, 1, if char_at pc = CHR '','' then tl pc else pc)
                     else if char_at pc \<noteq> CHR ''-'' then None
                     else let (y, pc) = strtol_end (tl pc); pc = (if isspace (char_at pc) then tl pc else pc);
                              z = (if char_at pc = NUL \<or> char_at pc = CHR '','' \<or> char_at pc = CHR '']'' then Some (1, pc)
                                   else if char_at pc \<noteq> CHR '':'' then None
                                   else let (z, pc) = strtol_end (dropWhile isspace (tl pc)); pc = dropWhile isspace pc
                                        in Some (z, if char_at pc = CHR '','' then tl pc else pc))
                          in case z of None \<Rightarrow> None | Some (z, pc) \<Rightarrow> if x \<ge> y \<or> z < 1 then None else Some (y, z, pc))
           in case yz of None \<Rightarrow> Bad_Format | Some (y, z, pc) \<Rightarrow> Section pc x y z (c_int (c_int (y - x) + z) sdiv z))"

text \<open>
  The values \<open>i = x; i <= y; i += z\<close> takes in the loops of \<open>mk_subjob_index_tbl\<close> and \<open>fixup_arrayindicies\<close>; with
  \<open>None\<close> when the addition wraps around for ever.
\<close>

partial_function (option) loop_values :: "int \<Rightarrow> int \<Rightarrow> int \<Rightarrow> int list option" where
  "loop_values x y z = (if x \<le> y then Option.bind (loop_values (c_int (x + z)) y z) (\<lambda>l. Some (x # l)) else Some [])"

definition sizeof_ajtrkhd :: nat where "sizeof_ajtrkhd = 88"
definition sizeof_ajtrk :: nat where "sizeof_ajtrk = 24"

definition new_ajtrk :: "int \<Rightarrow> int \<Rightarrow> ajtrk" where
  "new_ajtrk i st = \<lparr>trk_index = i, trk_status = st, trk_error = 0, trk_exitstat = 0, trk_substate = JOB_SUBSTATE_FINISHED, trk_stgout = - 1\<rparr>"

text \<open>\<open>limit\<close> is the server's \<open>max_array_size\<close> if it is set. The entries beyond \<open>ct\<close> are written past the block.\<close>

definition mk_subjob_index_tbl :: "(nat \<Rightarrow> bool) \<Rightarrow> int option \<Rightarrow> string \<Rightarrow> int \<Rightarrow> (int + ajtrkhd) option" where
  "mk_subjob_index_tbl mal limit rng initalstate =
     (case parse_subjob_index rng of
        Section eptr x y z ct \<Rightarrow>
          if ct > (case limit of Some l \<Rightarrow> l | None \<Rightarrow> PBS_MAX_ARRAY_JOB_DFL) then Some (Inl PBSE_MaxArraySize)
          else let sz = nat (int sizeof_ajtrkhd + (ct - 1) * int sizeof_ajtrk) in
            if \<not> mal sz then Some (Inl PBSE_SYSTEM)
            else Option.bind (loop_values x y z) (\<lambda>is. Some (Inr
              \<lparr>tkm_size = sz, tkm_ct = ct, tkm_step = z, tkm_flags = 0, tkm_subjsct = (replicate PBS_NUMJOBSTATE 0)[1 := ct],
               tkm_dsubjsct = 0, tkm_tbl = map (\<lambda>i. new_ajtrk i initalstate) is\<rparr>))
      | _ \<Rightarrow> Some (Inl PBSE_BADATVAL))"

definition setup_arrayjob_attrs :: "(nat \<Rightarrow> bool) \<Rightarrow> int option \<Rightarrow> 'r attribute \<Rightarrow> 'r array_job \<Rightarrow> action_mode \<Rightarrow> (int \<times> 'r array_job) option" where
  "setup_arrayjob_attrs mal limit pattr pjob mode =
     (let pjob = pjob\<lparr>ji_array := (ji_array pjob)\<lparr>at_val := At_long 1, at_flags := ATR_VFLAG_SET OR ATR_VFLAG_MODCACHE\<rparr>,
            ji_array_state_count := free_str (ji_array_state_count pjob)\<rparr>;
          submitted = (case at_str (at_val (ji_indices_submitted pjob)) of None \<Rightarrow> [] | Some s \<Rightarrow> s);
          tbl = (if mode = ATR_ACTION_NEW \<or> mode = ATR_ACTION_RECOV then map_option Some (mk_subjob_index_tbl mal limit submitted JOB_STATE_QUEUED) else Some None)
      in case tbl of None \<Rightarrow> None
         | Some (Some (Inl err)) \<Rightarrow> Some (err, pjob\<lparr>ji_ajtrk := None\<rparr>)
         | Some t \<Rightarrow>
           let pjob = (case t of Some (Inr t) \<Rightarrow> pjob\<lparr>ji_ajtrk := Some t\<rparr> | _ \<Rightarrow> pjob) in
           if mode = ATR_ACTION_RECOV then
             Some (0, pjob\<lparr>ji_indices_remaining := (ji_indices_remaining pjob)\<lparr>at_flags := at_flags (ji_indices_remaining pjob) OR ATR_VFLAG_MODCACHE\<rparr>\<rparr>)
           else if mode \<noteq> ATR_ACTION_ALTER \<and> mode \<noteq> ATR_ACTION_NEW then Some (PBSE_BADATVAL, pjob)
           else if is_job_array (ji_jobid pjob) \<noteq> IS_ARRAY_ArrayJob then Some (PBSE_BADATVAL, pjob)
           else if mode = ATR_ACTION_ALTER \<and> ji_state pjob \<noteq> JOB_STATE_QUEUED then Some (PBSE_MODATRRUN, pjob)
           else let pjob = (if mode = ATR_ACTION_ALTER then pjob\<lparr>ji_indices_remaining := free_str (ji_indices_remaining pjob)\<rparr> else pjob);
                    pjob = (if \<not> is_set (ji_indices_remaining pjob)
                            then pjob\<lparr>ji_indices_remaining := snd (decode_str mal (ji_indices_remaining pjob) [] None (at_str (at_val pattr)))\<rparr> else pjob)
                in Some (0, pjob\<lparr>ji_svrflags := ji_svrflags pjob OR JOB_SVFLG_ArrayJob\<rparr>))"

text \<open>The inner loop of \<open>fixup_arrayindicies\<close> over the values of a section.\<close>

definition queue_values :: "'r array_job \<Rightarrow> int list \<Rightarrow> 'r array_job" where
  "queue_values pjob vs =
     foldl (\<lambda>pjob x. let i = numindex_to_offset pjob x in if i \<noteq> - 1 then set_subjob_tblstate pjob i JOB_STATE_QUEUED else pjob) pjob vs"

lemma dropWhile_length: "length (dropWhile P xs) \<le> length xs"
  by (rule length_dropWhile_le)

lemma parse_subjob_index_shorter: "parse_subjob_index p = Section ep x y z ct \<Longrightarrow> length ep < length p"
proof -
  assume a: "parse_subjob_index p = Section ep x y z ct"
  define q where "q = dropWhile isspace p"
  define u where "u = dropWhile isspace (snd (strtol_end q))"
  define v where "v = snd (strtol_end (tl u))"
  define v' where "v' = (if isspace (char_at v) then tl v else v)"
  define w where "w = dropWhile isspace (snd (strtol_end (dropWhile isspace (tl v'))))"
  have d: "is_digit (char_at q)" using a by (auto simp: parse_subjob_index_def q_def Let_def split: if_splits)
  have q: "length q \<le> length p" by (simp add: q_def dropWhile_length)
  have "length u \<le> length (snd (strtol_end q))" by (simp add: u_def dropWhile_length)
  then have u: "length u < length q" using strtol_end_digit [OF d] by linarith
  have v: "length v' \<le> length u" using strtol_end_shorter [of "tl u"] by (auto simp: v'_def v_def)
  have "length w \<le> length (dropWhile isspace (tl v'))"
    using dropWhile_length [of isspace "snd (strtol_end (dropWhile isspace (tl v')))"] strtol_end_shorter [of "dropWhile isspace (tl v')"] by (simp add: w_def)
  then have w: "length w \<le> length v'" using dropWhile_length [of isspace "tl v'"] by simp
  have "ep \<in> {u, tl u, v', w, tl w}"
    using a by (auto simp: parse_subjob_index_def Let_def q_def [symmetric] u_def [symmetric] v_def [symmetric] v'_def [symmetric] w_def [symmetric] split_beta
      split: if_splits option.splits)
  then show ?thesis using q u v w by auto
qed

text \<open>
  The outer loop: the text of the remaining indices is read section by section until one is refused or nothing is left.
\<close>

function fixup_loop :: "'r array_job \<Rightarrow> string \<Rightarrow> 'r array_job option" where
  "fixup_loop pjob str =
     (case parse_subjob_index str of
        Section ep x y z ct \<Rightarrow> (case loop_values x y z of None \<Rightarrow> None | Some vs \<Rightarrow> fixup_loop (queue_values pjob vs) ep)
      | _ \<Rightarrow> Some pjob)"
  by pat_completeness auto
termination by (relation "measure (\<lambda>(pjob, str). length str)") (auto simp: parse_subjob_index_shorter)

definition fixup_arrayindicies :: "'r attribute \<Rightarrow> 'r array_job \<Rightarrow> (int \<times> 'r array_job) option" where
  "fixup_arrayindicies pattr pjob =
     (let pjob = foldl (\<lambda>pjob i. set_subjob_tblstate pjob (int i) JOB_STATE_EXPIRED) pjob [0..<nat (tkm_ct (the (ji_ajtrk pjob)))];
          str = (case at_str (at_val pattr) of None \<Rightarrow> [] | Some s \<Rightarrow> s)
      in map_option (Pair 0) (fixup_loop pjob str))"

text \<open>The inner loop of \<open>cvt_range\<close>: the last of the consecutive entries in the state.\<close>

function run_end :: "ajtrkhd \<Rightarrow> int \<Rightarrow> nat \<Rightarrow> nat \<Rightarrow> nat" where
  "run_end t state n l = (if n < nat (tkm_ct t) \<and> trk_status (tkm_tbl t ! n) = state then run_end t state (n + 1) n else l)"
  by auto
termination by (relation "measure (\<lambda>(t, state, n, l). nat (tkm_ct t) - n)") auto

declare run_end.simps [simp del] fixup_loop.simps [simp del]

lemma run_end_ge: "l < n \<Longrightarrow> l \<le> run_end t state n l"
proof (induction t state n l rule: run_end.induct)
  case (1 t state n l)
  then show ?case by (subst run_end.simps) (auto intro: order_trans [OF less_imp_le])
qed

text \<open>
  The loop of \<open>cvt_range\<close>. Beside the text it carries the size of the static buffer and whether the text with its
  terminator has fitted it so far; the subtraction is one of \<open>size_t\<close>. The result is \<open>None\<close>, with the size already raised,
  when \<open>realloc\<close> fails.
\<close>

definition more_room :: "nat \<Rightarrow> string \<Rightarrow> bool" where
  "more_room buflen buf \<longleftrightarrow> (int buflen - int (strlen buf)) mod 2 ^ 64 < 20"

definition run_str :: "ajtrkhd \<Rightarrow> nat \<Rightarrow> nat \<Rightarrow> string" where
  "run_str t f l =
     int_str (trk_index (tkm_tbl t ! f)) @
     (if l > f + 1 then ''-'' @ int_str (trk_index (tkm_tbl t ! l)) @ (if tkm_step t > 1 then '':'' @ int_str (tkm_step t) else [])
      else if l > f then '','' @ int_str (trk_index (tkm_tbl t ! l)) else [])"

function cvt_loop :: "(nat \<Rightarrow> bool) \<Rightarrow> ajtrkhd \<Rightarrow> int \<Rightarrow> nat \<Rightarrow> bool \<Rightarrow> string \<Rightarrow> nat \<Rightarrow> bool \<Rightarrow> string option \<times> nat \<times> bool" where
  "cvt_loop mal t state f pcomma buf buflen fit =
     (if f < nat (tkm_ct t) then
        let grow = more_room buflen buf; buflen = (if grow then buflen + 500 else buflen) in
        if grow \<and> \<not> mal buflen then (None, buflen, fit)
        else if trk_status (tkm_tbl t ! f) = state then
          let l = run_end t state (f + 1) f; buf = buf @ (if pcomma then '','' else []) @ run_str t f l
          in cvt_loop mal t state (l + 1) True buf buflen (fit \<and> strlen buf + 1 \<le> buflen)
        else cvt_loop mal t state (f + 1) pcomma buf buflen fit
      else (Some buf, buflen, fit))"
  by auto
termination by (relation "measure (\<lambda>(mal, t, state, f, pcomma, buf, buflen, fit). nat (tkm_ct t) - f)")
  (auto simp: less_Suc_eq_le run_end_ge intro!: diff_less_mono2)

declare cvt_loop.simps [simp del]

text \<open>\<open>buf0\<close> is the size of the static buffer, \<open>None\<close> before the first call.\<close>

definition cvt_range :: "(nat \<Rightarrow> bool) \<Rightarrow> nat option \<Rightarrow> ajtrkhd option \<Rightarrow> int \<Rightarrow> string option \<times> nat option \<times> bool" where
  "cvt_range mal buf0 t state =
     (case t of None \<Rightarrow> (None, buf0, True)
      | Some t \<Rightarrow>
        if buf0 = None \<and> \<not> mal 1000 then (None, None, True)
        else let (r, buflen, fit) = cvt_loop mal t state 0 False [] (case buf0 of None \<Rightarrow> 1000 | Some n \<Rightarrow> n) True
             in (r, Some buflen, fit))"

section \<open>The end of an array\<close>

text \<open>The exit status of an array whose subjobs have all ended: the loop over the table.\<close>

fun array_exitstat :: "ajtrk list \<Rightarrow> int \<Rightarrow> int" where
  "array_exitstat [] e = e"
| "array_exitstat (k # ks) e = (if trk_error k > 0 then array_exitstat ks 1 else if trk_error k < 0 then 2 else array_exitstat ks e)"

text \<open>
  What \<open>chk_array_doneness\<close> does with the parent: nothing; the end-of-job processing with an exit status; or, while subjobs
  remain, its remaining indices and counts brought up to date before it is saved. The second component is the size of
  the static buffer of \<open>cvt_range\<close>.
\<close>

datatype 'r done_check = Unchanged | All_Done int | Saved "'r array_job"

definition chk_array_doneness :: "(nat \<Rightarrow> bool) \<Rightarrow> nat option \<Rightarrow> 'r array_job \<Rightarrow> 'r done_check \<times> nat option" where
  "chk_array_doneness mal buf0 parent =
     (case ji_ajtrk parent of None \<Rightarrow> (Unchanged, buf0)
      | Some t \<Rightarrow>
        if tkm_flags t mod 2 = 1 then (Unchanged, buf0)
        else if tkm_subjsct t ! 1 + tkm_subjsct t ! 4 + tkm_subjsct t ! 5 = 0 then
          (All_Done (array_exitstat (take (nat (tkm_ct t)) (tkm_tbl t)) 0), buf0)
        else if at_flags (ji_indices_remaining parent) AND ATR_VFLAG_MODCACHE \<noteq> 0 then
          let (pnewstr, buf1, _) = cvt_range mal buf0 (Some t) JOB_STATE_QUEUED;
              premain = snd (decode_str mal (free_str (ji_indices_remaining parent)) [] None (Some (case pnewstr of None \<Rightarrow> ''-'' | Some s \<Rightarrow> s)))
          in (Saved (update_subjob_state_ct mal (parent\<lparr>ji_indices_remaining := premain\<rparr>)), buf1)
        else (Saved parent, buf0))"

text \<open>The fields of a subjob that \<open>update_subjob_state\<close> reads; an attribute that is not set is \<open>None\<close>.\<close>

record subjob =
  sj_jobid :: string
  sj_subjindx :: nat
  sj_exitstat :: int
  sj_substate :: int
  sj_stageout_status :: "int option"
  sj_exit_status :: bool

text \<open>\<open>strncmp(a, b, n) == 0\<close>\<close>

definition strncmp_eq :: "string \<Rightarrow> string \<Rightarrow> nat \<Rightarrow> bool" where
  "strncmp_eq a b n \<longleftrightarrow> take n a = take n b"

definition update_trk :: "bool \<Rightarrow> subjob \<Rightarrow> ajtrk \<Rightarrow> ajtrk" where
  "update_trk hist pjob k =
     (let k = k\<lparr>trk_error := sj_exitstat pjob\<rparr>;
          k = (if hist then (let k = (case sj_stageout_status pjob of Some v \<Rightarrow> k\<lparr>trk_stgout := v\<rparr> | None \<Rightarrow> k)
                            in if sj_exit_status pjob then k\<lparr>trk_exitstat := 1\<rparr> else k) else k)
      in k\<lparr>trk_substate := sj_substate pjob\<rparr>)"

text \<open>\<open>hist\<close> is the answer of \<open>svr_chk_history_conf\<close>. A parent that is not the array of the subjob is left alone.\<close>

definition update_subjob_state :: "(nat \<Rightarrow> bool) \<Rightarrow> bool \<Rightarrow> nat option \<Rightarrow> subjob \<Rightarrow> 'r array_job option \<Rightarrow> int \<Rightarrow> 'r array_job option \<times> 'r done_check \<times> nat option" where
  "update_subjob_state mal hist buf0 pjob parentaj newstate =
     (case parentaj of None \<Rightarrow> (None, Unchanged, buf0)
      | Some parent \<Rightarrow>
        if ji_ajtrk parent = None then (Some parent, Unchanged, buf0)
        else let len = length (takeWhile (\<lambda>c. c \<noteq> CHR ''['') (sj_jobid pjob)) - 1 in
          if \<not> strncmp_eq (sj_jobid pjob) (ji_jobid parent) len then (Some parent, Unchanged, buf0)
          else let parent = set_subjob_tblstate parent (int (sj_subjindx pjob)) newstate;
                   parent = (if newstate = JOB_STATE_EXPIRED then
                       let t = the (ji_ajtrk parent); i = sj_subjindx pjob
                       in parent\<lparr>ji_ajtrk := Some (t\<lparr>tkm_tbl := (tkm_tbl t)[i := update_trk hist pjob (tkm_tbl t ! i)]\<rparr>), ji_modified := True\<rparr>
                     else parent)
               in (Some parent, chk_array_doneness mal buf0 parent))"

section \<open>The counters of a table\<close>

definition tbl_wf :: "ajtrkhd \<Rightarrow> bool" where
  "tbl_wf t \<longleftrightarrow> tkm_ct t = int (length (tkm_tbl t)) \<and> length (tkm_subjsct t) = PBS_NUMJOBSTATE \<and>
     (\<forall>k \<in> set (tkm_tbl t). 0 \<le> trk_status k \<and> trk_status k < int PBS_NUMJOBSTATE) \<and>
     (\<forall>s < PBS_NUMJOBSTATE. tkm_subjsct t ! s = int (length (filter (\<lambda>k. trk_status k = int s) (tkm_tbl t))))"

definition in_state :: "ajtrkhd \<Rightarrow> int \<Rightarrow> int list" where
  "in_state t s = map trk_index (filter (\<lambda>k. trk_status k = s) (tkm_tbl t))"

lemma filter_update_length:
  assumes "i < length xs"
  shows "int (length (filter P (xs[i := v]))) = int (length (filter P xs)) - (if P (xs ! i) then 1 else 0) + (if P v then 1 else 0)"
proof -
  have "filter P (xs[i := v]) = filter P (take i xs) @ filter P [v] @ filter P (drop (Suc i) xs)" by (simp add: upd_conv_take_nth_drop assms)
  moreover have "filter P xs = filter P (take i xs) @ filter P [xs ! i] @ filter P (drop (Suc i) xs)"
    by (metis append.left_neutral append_Cons assms filter_append id_take_nth_drop)
  ultimately show ?thesis by simp
qed

lemma set_state_table:
  assumes "ji_ajtrk j = Some t" "tbl_wf t" "i < length (tkm_tbl t)" "0 \<le> st" "st < int PBS_NUMJOBSTATE"
  shows "\<exists>t'. ji_ajtrk (set_subjob_tblstate j (int i) st) = Some t' \<and> tbl_wf t' \<and> tkm_ct t' = tkm_ct t \<and> tkm_step t' = tkm_step t \<and>
    tkm_tbl t' = (tkm_tbl t)[i := (tkm_tbl t ! i)\<lparr>trk_status := st\<rparr>]"
proof (cases "trk_status (tkm_tbl t ! i) = st")
  case True
  then have "(tkm_tbl t)[i := (tkm_tbl t ! i)\<lparr>trk_status := st\<rparr>] = tkm_tbl t" by (metis ajtrk.surjective ajtrk.update_convs(2) list_update_id)
  then show ?thesis using True assms by (simp add: set_subjob_tblstate_def)
next
  case False
  define old where "old = trk_status (tkm_tbl t ! i)"
  have old: "0 \<le> old" "old < int PBS_NUMJOBSTATE" using assms(2) nth_mem [OF assms(3)] by (auto simp: tbl_wf_def old_def)
  then have diff: "nat old \<noteq> nat st" using False assms(4) by (simp add: old_def eq_nat_nat_iff)
  define tbl where "tbl = (tkm_tbl t)[i := (tkm_tbl t ! i)\<lparr>trk_status := st\<rparr>]"
  define ct where "ct = (tkm_subjsct t)[nat old := tkm_subjsct t ! nat old - 1]"
  define ct' where "ct' = ct[nat st := ct ! nat st + 1]"
  have l: "length (tkm_subjsct t) = PBS_NUMJOBSTATE" using assms(2) by (simp add: tbl_wf_def)
  have "ct' ! s = int (length (filter (\<lambda>k. trk_status k = int s) tbl))" if "s < PBS_NUMJOBSTATE" for s
  proof -
    have "int (length (filter (\<lambda>k. trk_status k = int s) tbl)) =
        tkm_subjsct t ! s - (if old = int s then 1 else 0) + (if st = int s then 1 else 0)"
      using filter_update_length [OF assms(3)] assms(2) that by (simp add: tbl_def tbl_wf_def old_def)
    then show ?thesis using old diff assms(4,5) that l by (auto simp: ct'_def ct_def nth_list_update)
  qed
  moreover have "\<forall>k \<in> set tbl. 0 \<le> trk_status k \<and> trk_status k < int PBS_NUMJOBSTATE"
    using assms(2,4,5) set_update_subset_insert [of "tkm_tbl t" i "(tkm_tbl t ! i)\<lparr>trk_status := st\<rparr>"] by (auto simp: tbl_def tbl_wf_def)
  moreover have "tkm_ct t = int (length tbl)" "length ct' = PBS_NUMJOBSTATE" using assms(2) l by (simp_all add: tbl_wf_def tbl_def ct'_def ct_def)
  ultimately have "tbl_wf (t\<lparr>tkm_tbl := tbl, tkm_subjsct := ct'\<rparr>)" by (simp add: tbl_wf_def)
  then show ?thesis using False assms(1) by (simp add: set_subjob_tblstate_def Let_def old_def [symmetric] tbl_def [symmetric] ct_def [symmetric] ct'_def [symmetric])
qed

lemma set_states_table:
  assumes "ji_ajtrk j = Some t" "tbl_wf t" "\<forall>(i, st) \<in> set changes. i < length (tkm_tbl t) \<and> 0 \<le> st \<and> st < int PBS_NUMJOBSTATE"
  shows "\<exists>t'. ji_ajtrk (foldl (\<lambda>j (i, st). set_subjob_tblstate j (int i) st) j changes) = Some t' \<and> tbl_wf t' \<and> tkm_ct t' = tkm_ct t \<and>
    map trk_index (tkm_tbl t') = map trk_index (tkm_tbl t)"
  using assms
proof (induction changes arbitrary: j t)
  case (Cons c changes)
  obtain i st where c: "c = (i, st)" by (cases c)
  obtain u where u: "ji_ajtrk (set_subjob_tblstate j (int i) st) = Some u" "tbl_wf u" "tkm_ct u = tkm_ct t" "tkm_tbl u = (tkm_tbl t)[i := (tkm_tbl t ! i)\<lparr>trk_status := st\<rparr>]"
    using set_state_table [OF Cons.prems(1,2), of i st] Cons.prems(3) c by auto
  have "map trk_index (tkm_tbl u) = map trk_index (tkm_tbl t)" using Cons.prems(3) c by (simp add: u(4) map_update) (metis list_update_id map_update)
  then show ?case using Cons.IH [OF u(1,2)] Cons.prems(3) u(3,4) c by simp
qed simp

text \<open>The sum of the counters is the number of subjobs.\<close>

lemma counters_sum:
  assumes "tbl_wf t"
  shows "(\<Sum>s < PBS_NUMJOBSTATE. tkm_subjsct t ! s) = tkm_ct t"
proof -
  have "(\<Sum>s < n. int (length (filter (\<lambda>k. trk_status k = int s) ks))) = int (length (filter (\<lambda>k. 0 \<le> trk_status k \<and> trk_status k < int n) ks))" for ks n
  proof (induction ks)
    case (Cons k ks)
    have "(\<Sum>s < n. if trk_status k = int s then 1 else 0) = (if 0 \<le> trk_status k \<and> trk_status k < int n then 1 else (0 :: int))"
      by (induction n) auto
    moreover have "int (length (filter (\<lambda>k. trk_status k = int s) (k # ks))) = (if trk_status k = int s then 1 else 0) + int (length (filter (\<lambda>k. trk_status k = int s) ks))" for s
      by simp
    ultimately show ?case using Cons by (simp only: sum.distrib) simp
  qed simp
  from this [of "tkm_tbl t" PBS_NUMJOBSTATE] have "(\<Sum>s < PBS_NUMJOBSTATE. int (length (filter (\<lambda>k. trk_status k = int s) (tkm_tbl t)))) = int (length (tkm_tbl t))"
    using assms filter_True [of "tkm_tbl t" "\<lambda>k. 0 \<le> trk_status k \<and> trk_status k < int PBS_NUMJOBSTATE"] by (simp add: tbl_wf_def)
  then show ?thesis using assms by (simp add: tbl_wf_def)
qed

section \<open>A new table\<close>

lemma loop_values_eq:
  "- INT_LIMIT \<le> x \<Longrightarrow> 1 \<le> z \<Longrightarrow> y + z < INT_LIMIT \<Longrightarrow> x + (int n - 1) * z \<le> y \<Longrightarrow> y < x + int n * z \<Longrightarrow>
    loop_values x y z = Some (map (\<lambda>k. x + int k * z) [0..<n])"
proof (induction n arbitrary: x)
  case 0
  then show ?case by (subst loop_values.simps) simp
next
  case (Suc n)
  have "0 \<le> int n * z" using Suc.prems(2) by simp
  then have xy: "x \<le> y" using Suc.prems(4) by simp
  then have c: "c_int (x + z) = x + z" using Suc.prems(1-3) by (intro c_int_small) linarith+
  have "loop_values (x + z) y z = Some (map (\<lambda>k. x + z + int k * z) [0..<n])"
    using Suc.IH [of "x + z"] Suc.prems by (simp add: algebra_simps)
  then show ?case using xy c by (subst loop_values.simps) (simp add: upt_conv_Cons map_Suc_upt [symmetric] algebra_simps del: upt_Suc)
qed

lemma loop_values_range:
  assumes "rg_wf r" "rg_room r"
  shows "loop_values (rg_start r) (rg_end r) (rg_step r) = Some (rg_vals r)"
proof -
  have "int (nat (rg_count r)) = rg_count r" using assms(1) by (simp add: rg_wf_def)
  then show ?thesis unfolding rg_vals_def
    using assms by (intro loop_values_eq) (auto simp: rg_wf_def rg_room_def algebra_simps)
qed

lemma parse_section:
  "parse_subjob_index p = Section ep x y z ct \<Longrightarrow> x \<le> y \<and> 1 \<le> z \<and> ct = c_int (c_int (y - x) + z) sdiv z"
  by (auto simp: parse_subjob_index_def Let_def split: if_splits prod.splits option.splits)

text \<open>A table whose indices go up by the step from a first one.\<close>

definition tbl_seq :: "ajtrkhd \<Rightarrow> int \<Rightarrow> bool" where
  "tbl_seq t x \<longleftrightarrow> 0 \<le> x \<and> 1 \<le> tkm_step t \<and> x + int (length (tkm_tbl t)) * tkm_step t < INT_LIMIT \<and>
     map trk_index (tkm_tbl t) = map (\<lambda>k. x + int k * tkm_step t) [0..<length (tkm_tbl t)]"

lemma new_table:
  assumes "parse_subjob_index rng = Section ep x y z ct" "0 \<le> x" "y + z < INT_LIMIT" "ct \<le> (case limit of Some l \<Rightarrow> l | None \<Rightarrow> PBS_MAX_ARRAY_JOB_DFL)"
  shows "\<exists>t. mk_subjob_index_tbl (\<lambda>_. True) limit rng JOB_STATE_QUEUED = Some (Inr t) \<and> tbl_wf t \<and> tbl_seq t x \<and> tkm_step t = z \<and>
    length (tkm_tbl t) = nat ((y - x) div z) + 1 \<and> in_state t JOB_STATE_QUEUED = map trk_index (tkm_tbl t)"
proof -
  note p = parse_section [OF assms(1)]
  define n where "n = nat ((y - x) div z) + 1"
  have q: "0 \<le> (y - x) div z" using p by (simp add: pos_imp_zdiv_nonneg_iff)
  obtain e m where em: "e = (y - x) div z * z" "m = (y - x) mod z" by simp
  have dm: "e + m = y - x" "0 \<le> m" "m < z" using p by (simp_all add: em)
  have c: "c_int (c_int (y - x) + z) = y - x + z" using p assms(2,3) by (simp add: c_int_small)
  have "(y - x + z) div z = (y - x) div z + 1" using p div_add_self2 [of z "y - x"] by simp
  then have ct: "ct = int n" using p c q by (simp add: n_def signed_divide_int_def)
  have n1: "(int n - 1) * z = e" "int n * z = e + z" using q by (simp_all add: n_def em algebra_simps)
  have b: "x + (int n - 1) * z \<le> y" "y < x + int n * z" "x + int n * z < INT_LIMIT" unfolding n1 using dm assms(3) by linarith+
  have vs: "loop_values x y z = Some (map (\<lambda>k. x + int k * z) [0..<n])"
    using p assms(2,3) by (intro loop_values_eq [OF _ _ _ b(1,2)]) simp_all
  let ?t = "\<lparr>tkm_size = nat (int sizeof_ajtrkhd + (ct - 1) * int sizeof_ajtrk), tkm_ct = ct, tkm_step = z, tkm_flags = 0, tkm_subjsct = (replicate PBS_NUMJOBSTATE 0)[1 := ct],
               tkm_dsubjsct = 0, tkm_tbl = map (\<lambda>i. new_ajtrk i JOB_STATE_QUEUED) (map (\<lambda>k. x + int k * z) [0..<n])\<rparr>"
  have "mk_subjob_index_tbl (\<lambda>_. True) limit rng JOB_STATE_QUEUED = Some (Inr ?t)"
    using assms(4) by (simp add: mk_subjob_index_tbl_def assms(1) vs)
  moreover have "tbl_wf ?t" by (auto simp: tbl_wf_def ct new_ajtrk_def nth_list_update filter_map comp_def)
  moreover have "tbl_seq ?t x" using assms(2) p b(3) by (simp add: tbl_seq_def new_ajtrk_def)
  moreover have "in_state ?t JOB_STATE_QUEUED = map trk_index (tkm_tbl ?t)" by (simp add: in_state_def new_ajtrk_def filter_map comp_def)
  ultimately show ?thesis by (intro exI [of _ ?t]) (simp add: n_def)
qed

section \<open>The text of the indices in a state\<close>

definition one_value :: "int \<Rightarrow> sched_range" where
  "one_value v = \<lparr>rg_start = v, rg_end = v, rg_count = 1, rg_step = 1\<rparr>"

text \<open>The sections \<open>cvt_range\<close> writes for the entries from \<open>f\<close> to \<open>l\<close>: two neighbours are written one by one.\<close>

definition run_sections :: "ajtrkhd \<Rightarrow> nat \<Rightarrow> nat \<Rightarrow> sched_range list" where
  "run_sections t f l =
     (let v = (\<lambda>i. trk_index (tkm_tbl t ! i)) in
      if l > f + 1 then [\<lparr>rg_start = v f, rg_end = v l, rg_count = int (l - f) + 1, rg_step = tkm_step t\<rparr>]
      else if l > f then [one_value (v f), one_value (v l)] else [one_value (v f)])"

function state_sections :: "ajtrkhd \<Rightarrow> int \<Rightarrow> nat \<Rightarrow> sched_range list" where
  "state_sections t state f =
     (if f < nat (tkm_ct t) then
        if trk_status (tkm_tbl t ! f) = state then
          let l = run_end t state (f + 1) f in run_sections t f l @ state_sections t state (l + 1)
        else state_sections t state (f + 1)
      else [])"
  by auto
termination by (relation "measure (\<lambda>(t, state, f). nat (tkm_ct t) - f)") (auto simp: less_Suc_eq_le run_end_ge intro!: diff_less_mono2)

declare state_sections.simps [simp del]

lemma range_to_str_append: "as \<noteq> [] \<Longrightarrow> range_to_str (as @ bs) = range_to_str as @ (if bs = [] then [] else CHR '','' # range_to_str bs)"
  by (induction as) (auto simp: range_to_str_Cons)

lemma run_str_eq: "1 \<le> tkm_step t \<Longrightarrow> run_str t f l = range_to_str (run_sections t f l)"
  by (auto simp: run_str_def run_sections_def Let_def range_to_str_Cons section_str_def one_value_def)

lemma run_sections_ne [simp]: "run_sections t f l \<noteq> []"
  by (simp add: run_sections_def Let_def)

lemma cvt_loop_text:
  assumes "1 \<le> tkm_step t"
  shows "fst (cvt_loop (\<lambda>_. True) t state f pcomma buf buflen fit) =
    Some (buf @ (if pcomma \<and> state_sections t state f \<noteq> [] then '','' else []) @ range_to_str (state_sections t state f))"
proof (induction "nat (tkm_ct t) - f" arbitrary: f pcomma buf buflen fit rule: less_induct)
  case less
  define l where "l = run_end t state (f + 1) f"
  have l: "f \<le> l" by (simp add: l_def run_end_ge)
  consider (past) "\<not> f < nat (tkm_ct t)" | (run) "f < nat (tkm_ct t)" "trk_status (tkm_tbl t ! f) = state" | (skip) "f < nat (tkm_ct t)" "trk_status (tkm_tbl t ! f) \<noteq> state" by blast
  then show ?case
  proof cases
    case past
    then have "state_sections t state f = []" by (subst state_sections.simps) simp
    then show ?thesis using past by (subst cvt_loop.simps) (simp add: range_to_str_def)
  next
    case run
    then have "nat (tkm_ct t) - (l + 1) < nat (tkm_ct t) - f" using l by simp
    note IH = less [OF this]
    have "state_sections t state f = run_sections t f l @ state_sections t state (l + 1)" using run by (subst state_sections.simps) (simp add: l_def Let_def)
    then show ?thesis using run IH run_str_eq [OF assms] by (subst cvt_loop.simps) (simp add: Let_def l_def [simplified, symmetric] range_to_str_append)
  next
    case skip
    then have "nat (tkm_ct t) - (f + 1) < nat (tkm_ct t) - f" by simp
    note IH = less [OF this]
    have "state_sections t state f = state_sections t state (f + 1)" using skip by (subst state_sections.simps) simp
    then show ?thesis using skip IH by (subst cvt_loop.simps) (simp add: Let_def)
  qed
qed

lemma run_end_run:
  assumes "l < n" "\<forall>i \<in> {f..l}. trk_status (tkm_tbl t ! i) = state" "n = Suc l" "l < nat (tkm_ct t)"
  shows "run_end t state n l < nat (tkm_ct t) \<and> (\<forall>i \<in> {f..run_end t state n l}. trk_status (tkm_tbl t ! i) = state)"
  using assms
proof (induction t state n l rule: run_end.induct)
  case (1 t state n l)
  show ?case
  proof (cases "n < nat (tkm_ct t) \<and> trk_status (tkm_tbl t ! n) = state")
    case True
    have "\<forall>i \<in> {f..n}. trk_status (tkm_tbl t ! i) = state" using "1.prems" True by (auto simp: le_Suc_eq)
    moreover have "run_end t state n l = run_end t state (n + 1) n" by (subst run_end.simps) (simp only: True if_True simp_thms)
    ultimately show ?thesis using "1.IH" True by simp
  next
    case False
    then have "run_end t state n l = l" by (subst run_end.simps) (simp only: if_False)
    then show ?thesis using "1.prems" by simp
  qed
qed

lemma seq_index: "tbl_seq t x \<Longrightarrow> i < length (tkm_tbl t) \<Longrightarrow> trk_index (tkm_tbl t ! i) = x + int i * tkm_step t"
  using nth_map [of i "tkm_tbl t" trk_index] by (simp add: tbl_seq_def)

lemma seq_bound:
  assumes "tbl_seq t x" "i < length (tkm_tbl t)"
  shows "0 \<le> x + int i * tkm_step t" "x + int i * tkm_step t + tkm_step t < INT_LIMIT" "1 \<le> tkm_step t"
proof -
  have "int (Suc i) * tkm_step t \<le> int (length (tkm_tbl t)) * tkm_step t" using assms by (intro mult_right_mono) (auto simp: tbl_seq_def)
  then show "x + int i * tkm_step t + tkm_step t < INT_LIMIT" using assms(1) by (simp add: tbl_seq_def algebra_simps)
  show "0 \<le> x + int i * tkm_step t" "1 \<le> tkm_step t" using assms(1) by (simp_all add: tbl_seq_def)
qed

lemma one_value_plain:
  assumes "tbl_seq t x" "i < length (tkm_tbl t)"
  shows "rg_plain (one_value (x + int i * tkm_step t)) \<and> rg_vals (one_value (x + int i * tkm_step t)) = [x + int i * tkm_step t]"
  using seq_bound [OF assms] by (simp add: rg_plain_def rg_wf_def rg_room_def one_value_def rg_vals_def)

lemma run_sections_spec:
  assumes "tbl_seq t x" "f \<le> l" "l < length (tkm_tbl t)"
  shows "(\<forall>r \<in> set (run_sections t f l). rg_plain r) \<and> range_vals (run_sections t f l) = map (\<lambda>i. trk_index (tkm_tbl t ! i)) [f..<Suc l]"
proof -
  have f: "f < length (tkm_tbl t)" using assms by simp
  note i = seq_index [OF assms(1) f] seq_index [OF assms(1,3)]
  consider (many) "l > f + 1" | (two) "l = Suc f" | (one) "l = f" using assms(2) by linarith
  then show ?thesis
  proof cases
    case many
    define r where "r = \<lparr>rg_start = x + int f * tkm_step t, rg_end = x + int l * tkm_step t, rg_count = int (l - f) + 1, rg_step = tkm_step t\<rparr>"
    have sb: "0 \<le> x + int f * tkm_step t" "x + int l * tkm_step t + tkm_step t < INT_LIMIT" "1 \<le> tkm_step t" "0 \<le> x + int l * tkm_step t"
      using seq_bound [OF assms(1) f] seq_bound [OF assms(1,3)] by auto
    then have "rg_plain r" using many by (auto simp: rg_plain_def rg_wf_def rg_room_def r_def algebra_simps of_nat_diff)
    moreover have "rg_vals r = map (\<lambda>i. trk_index (tkm_tbl t ! i)) [f..<Suc l]"
    proof -
      have n: "nat (rg_count r) = Suc l - f" using many by (simp add: r_def nat_add_distrib Suc_diff_le)
      have "rg_vals r = map (\<lambda>k. x + int (f + k) * tkm_step t) [0..<Suc l - f]" unfolding rg_vals_def n by (simp add: r_def algebra_simps)
      also have "\<dots> = map (\<lambda>i. x + int i * tkm_step t) (map (\<lambda>k. f + k) [0..<Suc l - f])" by simp
      also have "map (\<lambda>k. f + k) [0..<Suc l - f] = [f..<Suc l]" using map_add_upt [of f "Suc l - f"] many by (simp add: add.commute)
      also have "map (\<lambda>i. x + int i * tkm_step t) [f..<Suc l] = map (\<lambda>i. trk_index (tkm_tbl t ! i)) [f..<Suc l]"
        using assms(3) by (intro map_cong refl) (auto simp: seq_index [OF assms(1)])
      finally show ?thesis .
    qed
    ultimately show ?thesis using many by (simp add: run_sections_def Let_def i r_def)
  next
    case two
    then show ?thesis using one_value_plain [OF assms(1) f] one_value_plain [OF assms(1,3)] i by (simp add: run_sections_def Let_def upt_rec)
  next
    case one
    then show ?thesis using one_value_plain [OF assms(1) f] i by (simp add: run_sections_def Let_def)
  qed
qed

lemma state_sections_spec:
  assumes "tbl_seq t x" "tkm_ct t = int (length (tkm_tbl t))"
  shows "(\<forall>r \<in> set (state_sections t state f). rg_plain r) \<and>
    range_vals (state_sections t state f) = map trk_index (filter (\<lambda>k. trk_status k = state) (drop f (tkm_tbl t)))"
proof (induction "length (tkm_tbl t) - f" arbitrary: f rule: less_induct)
  case less
  have n: "nat (tkm_ct t) = length (tkm_tbl t)" using assms(2) by simp
  define l where "l = run_end t state (f + 1) f"
  consider (past) "\<not> f < length (tkm_tbl t)" | (run) "f < length (tkm_tbl t)" "trk_status (tkm_tbl t ! f) = state" | (skip) "f < length (tkm_tbl t)" "trk_status (tkm_tbl t ! f) \<noteq> state" by blast
  then show ?case
  proof cases
    case past
    then show ?thesis by (subst (1 2) state_sections.simps) (simp add: n)
  next
    case run
    have l: "f \<le> l" "l < length (tkm_tbl t)" "\<forall>i \<in> {f..l}. trk_status (tkm_tbl t ! i) = state"
      using run_end_ge [of f "f + 1" t state] run_end_run [of f "f + 1" f t state] run n by (auto simp: l_def)
    have "length (tkm_tbl t) - (l + 1) < length (tkm_tbl t) - f" using l by simp
    note IH = less [OF this]
    have "drop f (tkm_tbl t) = take (Suc l - f) (drop f (tkm_tbl t)) @ drop (Suc l) (tkm_tbl t)"
      using l append_take_drop_id [of "Suc l - f" "drop f (tkm_tbl t)"] by simp
    moreover have "take (Suc l - f) (drop f (tkm_tbl t)) = map (\<lambda>i. tkm_tbl t ! i) [f..<Suc l]"
      using l by (intro nth_equalityI) (auto simp del: upt_Suc)
    ultimately have d: "drop f (tkm_tbl t) = map (\<lambda>i. tkm_tbl t ! i) [f..<Suc l] @ drop (Suc l) (tkm_tbl t)" by simp
    have "filter (\<lambda>k. trk_status k = state) (map (\<lambda>i. tkm_tbl t ! i) [f..<Suc l]) = map (\<lambda>i. tkm_tbl t ! i) [f..<Suc l]"
      using l by (intro filter_True) (auto simp del: upt_Suc)
    then have "map trk_index (filter (\<lambda>k. trk_status k = state) (drop f (tkm_tbl t))) =
        map (\<lambda>i. trk_index (tkm_tbl t ! i)) [f..<Suc l] @ map trk_index (filter (\<lambda>k. trk_status k = state) (drop (Suc l) (tkm_tbl t)))"
      by (subst d) (simp del: upt_Suc)
    moreover have "state_sections t state f = run_sections t f l @ state_sections t state (l + 1)" using run n by (subst state_sections.simps) (simp add: l_def Let_def)
    ultimately show ?thesis using IH run_sections_spec [OF assms(1) l(1,2)] by auto
  next
    case skip
    then have "length (tkm_tbl t) - (f + 1) < length (tkm_tbl t) - f" by simp
    note IH = less [OF this]
    have "state_sections t state f = state_sections t state (f + 1)" using skip n by (subst state_sections.simps) simp
    moreover have "drop f (tkm_tbl t) = tkm_tbl t ! f # drop (f + 1) (tkm_tbl t)" using skip by (simp add: Cons_nth_drop_Suc)
    ultimately show ?thesis using IH skip by simp
  qed
qed

lemma cvt_range_text:
  assumes "tbl_seq t x" "tbl_wf t"
  shows "\<exists>rs b fit. cvt_range (\<lambda>_. True) buf0 (Some t) state = (Some (range_to_str rs), b, fit) \<and> (\<forall>r \<in> set rs. rg_plain r) \<and> range_vals rs = in_state t state \<and>
    rs = state_sections t state 0"
proof -
  have s: "1 \<le> tkm_step t" "tkm_ct t = int (length (tkm_tbl t))" using assms by (simp_all add: tbl_seq_def tbl_wf_def)
  note c = cvt_loop_text [OF s(1), of state 0 False "[]" "case buf0 of None \<Rightarrow> 1000 | Some n \<Rightarrow> n" True]
  show ?thesis using c state_sections_spec [OF assms(1) s(2), of state 0]
    by (cases "cvt_loop (\<lambda>_. True) t state 0 False [] (case buf0 of None \<Rightarrow> 1000 | Some n \<Rightarrow> n) True") (auto simp: cvt_range_def in_state_def)
qed

text \<open>The scheduler reads what the server writes.\<close>

lemma scheduler_reads:
  assumes "tbl_seq t x" "tbl_wf t"
  shows "range_vals (range_parse (\<lambda>_. True) (fst (cvt_range (\<lambda>_. True) buf0 (Some t) state))) = in_state t state"
  using cvt_range_text [OF assms, of buf0 state] range_text_roundtrip by auto

section \<open>The static buffer of the text\<close>

text \<open>With indices and a step of at most five digits a turn of the loop adds at most eighteen characters.\<close>

lemma int_str_five: "0 \<le> k \<Longrightarrow> k < 100000 \<Longrightarrow> length (int_str k) \<le> 5"
  using dec_str_length_pow [of 5 "nat k"] by (simp add: int_str_def)

lemma run_str_short:
  assumes "\<forall>k \<in> set (tkm_tbl t). 0 \<le> trk_index k \<and> trk_index k < 100000" "tkm_step t < 100000" "l < length (tkm_tbl t)" "f \<le> l"
  shows "length (run_str t f l) \<le> 17"
proof -
  have "length (int_str (trk_index (tkm_tbl t ! i))) \<le> 5" if "i \<le> l" for i
    using that assms(1,3) by (intro int_str_five) (auto simp: all_set_conv_all_nth)
  from this [of f] this [of l] have "length (int_str (trk_index (tkm_tbl t ! f))) \<le> 5" "length (int_str (trk_index (tkm_tbl t ! l))) \<le> 5" using assms(4) by auto
  moreover have "tkm_step t > 1 \<Longrightarrow> length (int_str (tkm_step t)) \<le> 5" using assms(2) by (intro int_str_five) simp_all
  ultimately show ?thesis by (auto simp: run_str_def)
qed

lemma strlen_append: "strlen (a @ b) \<le> strlen a + length b"
proof (induction a)
  case Nil
  then show ?case by (simp add: strlen_def length_takeWhile_le)
qed (simp add: strlen_def)

lemma cvt_loop_fits:
  assumes "\<forall>k \<in> set (tkm_tbl t). 0 \<le> trk_index k \<and> trk_index k < 100000" "tkm_step t < 100000" "tkm_ct t = int (length (tkm_tbl t))"
    "fit" "strlen buf + 1 \<le> buflen" "cvt_loop mal t state f pcomma buf buflen fit = (r, b, fit')"
  shows "fit' \<and> (\<forall>s. r = Some s \<longrightarrow> strlen s + 1 \<le> b)"
  using assms(4-6)
proof (induction "nat (tkm_ct t) - f" arbitrary: f pcomma buf buflen fit rule: less_induct)
  case less
  define n where "n = (if more_room buflen buf then buflen + 500 else buflen)"
  have room: "strlen buf + 20 \<le> n"
    using less.prems(2) by (cases "buflen < strlen buf + 20") (auto simp: n_def more_room_def)
  define l where "l = run_end t state (f + 1) f"
  show ?case
  proof (cases "\<not> f < nat (tkm_ct t) \<or> more_room buflen buf \<and> \<not> mal n")
    case True
    then show ?thesis using less.prems by (subst (asm) cvt_loop.simps) (auto simp: Let_def n_def split: if_splits)
  next
    case False
    show ?thesis
    proof (cases "trk_status (tkm_tbl t ! f) = state")
      case run: True
      define tx where "tx = buf @ (if pcomma then '','' else []) @ run_str t f l"
      have l: "f \<le> l" "l < length (tkm_tbl t)" using run_end_ge [of f "f + 1" t state] run_end_run [of f "f + 1" f t state] run False assms(3) by (auto simp: l_def)
      have fits: "strlen tx + 1 \<le> n" using run_str_short [OF assms(1,2) l(2,1)] room strlen_append [of buf "(if pcomma then '','' else []) @ run_str t f l"]
        by (simp add: tx_def split: if_splits)
      have "cvt_loop mal t state (l + 1) True tx n (fit \<and> strlen tx + 1 \<le> n) = (r, b, fit')"
        using less.prems(3) False run by (subst (asm) cvt_loop.simps) (auto simp: Let_def n_def l_def tx_def split: if_splits)
      moreover have "nat (tkm_ct t) - (l + 1) < nat (tkm_ct t) - f" using l False by linarith
      ultimately show ?thesis using less.hyps [OF _ _ fits] fits less.prems(1) by simp
    next
      case skip: False
      have "cvt_loop mal t state (f + 1) pcomma buf n fit = (r, b, fit')"
        using less.prems(3) False skip by (subst (asm) cvt_loop.simps) (auto simp: Let_def n_def split: if_splits)
      moreover have "nat (tkm_ct t) - (f + 1) < nat (tkm_ct t) - f" "strlen buf + 1 \<le> n" using False room by auto
      ultimately show ?thesis using less.hyps less.prems(1) by blast
    qed
  qed
qed

section \<open>An array moved to another server\<close>

text \<open>
  The sections \<open>fixup_arrayindicies\<close> reads: after a range without a step the comma is not skipped, and the next
  section is refused.
\<close>

fun server_reads :: "sched_range list \<Rightarrow> sched_range list" where
  "server_reads [] = []"
| "server_reads (r # rs) = r # (if rg_count r > 1 \<and> rg_step r = 1 then [] else server_reads rs)"

lemma not_space [simp]: "\<not> isspace CHR '',''" "\<not> isspace CHR ''-''" "\<not> isspace CHR '':''" "\<not> isspace CHR '']''" "\<not> isspace NUL"
  by (simp_all add: isspace_def uchar_def)

lemma dropWhile_char_at: "\<not> isspace (char_at s) \<Longrightarrow> dropWhile isspace s = s"
  by (cases s) simp_all

lemma server_section:
  assumes "rg_plain r" "char_at rest = CHR '','' \<or> rest = []"
  shows "parse_subjob_index (section_str r @ rest) =
    Section (if rg_count r > 1 \<and> rg_step r = 1 then rest else tl rest) (rg_start r) (rg_end r) (rg_step r) (rg_count r)"
proof -
  have w: "rg_wf r" "rg_room r" "rg_count r = 1 \<longrightarrow> rg_step r = 1" using assms(1) by (auto simp: rg_plain_def)
  have "rg_start r \<le> rg_end r" "rg_end r < INT_MAX" using w(1) by (simp_all add: rg_wf_def)
  then have b: "0 \<le> rg_start r" "rg_start r < INT_LIMIT" "0 \<le> rg_end r" "rg_end r < INT_LIMIT" "1 \<le> rg_step r" "rg_step r < INT_LIMIT"
    using w(1) unfolding rg_wf_def by linarith+
  have rc: "\<not> is_digit (char_at rest)" "\<not> isspace (char_at rest)" "char_at rest = NUL \<or> char_at rest = CHR '',''" "rest = [] \<longleftrightarrow> char_at rest \<noteq> CHR '',''" using assms(2) by auto
  define tx where "tx = (if rg_count r > 1 then ''-'' @ int_str (rg_end r) @ (if rg_step r > 1 then '':'' @ int_str (rg_step r) else []) else [])"
  have s: "section_str r = int_str (rg_start r) @ tx" using w by (auto simp: section_str_def tx_def rg_wf_def)
  have tx: "\<not> is_digit (char_at (tx @ rest))" "\<not> isspace (char_at (tx @ rest))" using rc by (simp_all add: tx_def)
  note x = strtol_end_int_str [OF b(1,2) tx(1)]
  note ic = char_at_int_str [OF b(1), of "tx @ rest"]
  have d: "dropWhile isspace (section_str r @ rest) = int_str (rg_start r) @ tx @ rest" using dropWhile_char_at [of "section_str r @ rest"] ic by (simp add: s)
  have h: "char_at (int_str (rg_start r) @ tx @ rest) \<noteq> NUL" "char_at (int_str (rg_start r) @ tx @ rest) \<noteq> CHR '']''"
    using ic(1) by (auto simp: is_digit_def uchar_def)
  note base = parse_subjob_index_def [of "section_str r @ rest", unfolded d Let_def x prod.case dropWhile_char_at [OF tx(2)]]
  consider (one) "rg_count r = 1" "rg_step r = 1" "rg_end r = rg_start r" | (unit) "rg_count r > 1" "rg_step r = 1" | (steps) "rg_count r > 1" "rg_step r > 1"
    using w b(5) by (auto simp: rg_wf_def) fastforce+
  then show ?thesis
  proof cases
    case one
    then show ?thesis using h ic rc count_of [OF w(1,2)] unfolding base by (auto simp: tx_def)
  next
    case unit
    then show ?thesis using h ic rc count_of [OF w(1,2)] strtol_end_int_str [OF b(3,4) rc(1)] rg_more [OF w(1) unit(1)] unfolding base by (auto simp: tx_def)
  next
    case steps
    have "strtol_end (int_str (rg_end r) @ CHR '':'' # int_str (rg_step r) @ rest) = (rg_end r, CHR '':'' # int_str (rg_step r) @ rest)"
      using strtol_end_int_str [OF b(3,4), of "CHR '':'' # int_str (rg_step r) @ rest"] by simp
    moreover have "strtol_end (int_str (rg_step r) @ rest) = (rg_step r, rest)" using b by (intro strtol_end_int_str rc(1)) simp_all
    moreover have "dropWhile isspace (int_str (rg_step r) @ rest) = int_str (rg_step r) @ rest"
      using char_at_int_str(3) [of "rg_step r" rest] b by (intro dropWhile_char_at) simp
    ultimately show ?thesis using steps h ic rc count_of [OF w(1,2)] rg_more [OF w(1) steps(1)] dropWhile_char_at [OF rc(2)] unfolding base by (auto simp: tx_def)
  qed
qed

text \<open>What the operations do to the entries: the ones selected get a state.\<close>

definition retag :: "(ajtrk \<Rightarrow> bool) \<Rightarrow> int \<Rightarrow> ajtrk \<Rightarrow> ajtrk" where
  "retag P st k = (if P k then k\<lparr>trk_status := st\<rparr> else k)"

lemma find_offset_found:
  assumes "tbl_wf t" "distinct (map trk_index (tkm_tbl t))" "i < length (tkm_tbl t)"
  shows "find_offset (Some t) (trk_index (tkm_tbl t ! i)) = int i"
proof -
  have "find (\<lambda>j. trk_index (tkm_tbl t ! j) = trk_index (tkm_tbl t ! i)) [0..<length (tkm_tbl t)] = Some i"
    unfolding find_Some_iff using assms(2,3) by (intro exI [of _ i]) (auto simp: distinct_conv_nth)
  then show ?thesis using assms(1) by (simp add: find_offset_def tbl_wf_def)
qed

lemma find_offset_none:
  assumes "tbl_wf t" "v \<notin> trk_index ` set (tkm_tbl t)"
  shows "find_offset (Some t) v = - 1"
proof -
  have "find (\<lambda>j. trk_index (tkm_tbl t ! j) = v) [0..<length (tkm_tbl t)] = None"
    unfolding find_None_iff using assms(2) nth_mem by fastforce
  then show ?thesis using assms(1) by (simp add: find_offset_def tbl_wf_def)
qed

lemma queue_value:
  assumes "ji_ajtrk j = Some t" "tbl_wf t" "distinct (map trk_index (tkm_tbl t))"
  shows "\<exists>t'. ji_ajtrk (queue_values j [v]) = Some t' \<and> tbl_wf t' \<and> tkm_step t' = tkm_step t \<and>
    tkm_tbl t' = map (retag (\<lambda>k. trk_index k = v) JOB_STATE_QUEUED) (tkm_tbl t)"
proof (cases "v \<in> trk_index ` set (tkm_tbl t)")
  case True
  then obtain i where i: "i < length (tkm_tbl t)" "v = trk_index (tkm_tbl t ! i)" by (auto simp: in_set_conv_nth)
  have "queue_values j [v] = set_subjob_tblstate j (int i) JOB_STATE_QUEUED"
    using find_offset_found [OF assms(2,3) i(1)] by (simp add: queue_values_def numindex_to_offset_def assms(1) i(2))
  moreover have "(tkm_tbl t)[i := (tkm_tbl t ! i)\<lparr>trk_status := JOB_STATE_QUEUED\<rparr>] = map (retag (\<lambda>k. trk_index k = v) JOB_STATE_QUEUED) (tkm_tbl t)"
    using i assms(3) by (intro nth_equalityI) (auto simp: retag_def nth_list_update distinct_conv_nth)
  ultimately show ?thesis using set_state_table [OF assms(1,2) i(1), of JOB_STATE_QUEUED] by auto
next
  case False
  then have "map (retag (\<lambda>k. trk_index k = v) JOB_STATE_QUEUED) (tkm_tbl t) = tkm_tbl t" by (intro map_idI) (auto simp: retag_def)
  then show ?thesis using find_offset_none [OF assms(2) False] assms by (simp add: queue_values_def numindex_to_offset_def)
qed

lemma retag_index [simp]: "trk_index (retag P st k) = trk_index k"
  by (simp add: retag_def)

lemma queue_values_table:
  "ji_ajtrk j = Some t \<Longrightarrow> tbl_wf t \<Longrightarrow> distinct (map trk_index (tkm_tbl t)) \<Longrightarrow>
    \<exists>t'. ji_ajtrk (queue_values j vs) = Some t' \<and> tbl_wf t' \<and> tkm_step t' = tkm_step t \<and>
      tkm_tbl t' = map (retag (\<lambda>k. trk_index k \<in> set vs) JOB_STATE_QUEUED) (tkm_tbl t)"
proof (induction vs arbitrary: j t)
  case Nil
  have "map (retag (\<lambda>k. trk_index k \<in> set []) JOB_STATE_QUEUED) (tkm_tbl t) = tkm_tbl t" by (intro map_idI) (simp add: retag_def)
  then show ?case using Nil by (simp add: queue_values_def)
next
  case (Cons v vs)
  obtain u where u: "ji_ajtrk (queue_values j [v]) = Some u" "tbl_wf u" "tkm_step u = tkm_step t" "tkm_tbl u = map (retag (\<lambda>k. trk_index k = v) JOB_STATE_QUEUED) (tkm_tbl t)"
    using queue_value [OF Cons.prems, of v] by blast
  have "queue_values j (v # vs) = queue_values (queue_values j [v]) vs" by (simp add: queue_values_def)
  moreover have "map (retag (\<lambda>k. trk_index k \<in> set vs) JOB_STATE_QUEUED) (tkm_tbl u) = map (retag (\<lambda>k. trk_index k \<in> set (v # vs)) JOB_STATE_QUEUED) (tkm_tbl t)"
    by (auto simp: u(4) retag_def)
  moreover have "distinct (map trk_index (tkm_tbl u))" using Cons.prems(3) by (simp add: u(4) comp_def)
  ultimately show ?case using Cons.IH [OF u(1,2)] u(3) by simp
qed

lemma expire_all:
  assumes "ji_ajtrk j = Some t" "tbl_wf t" "n \<le> length (tkm_tbl t)"
  shows "\<exists>t'. ji_ajtrk (foldl (\<lambda>j i. set_subjob_tblstate j (int i) JOB_STATE_EXPIRED) j [0..<n]) = Some t' \<and> tbl_wf t' \<and> tkm_step t' = tkm_step t \<and>
    tkm_tbl t' = map (\<lambda>k. k\<lparr>trk_status := JOB_STATE_EXPIRED\<rparr>) (take n (tkm_tbl t)) @ drop n (tkm_tbl t)"
  using assms(3)
proof (induction n)
  case 0
  then show ?case using assms by simp
next
  case (Suc n)
  let ?j = "foldl (\<lambda>j i. set_subjob_tblstate j (int i) JOB_STATE_EXPIRED) j [0..<n]"
  obtain u where u: "ji_ajtrk ?j = Some u" "tbl_wf u" "tkm_step u = tkm_step t"
    "tkm_tbl u = map (\<lambda>k. k\<lparr>trk_status := JOB_STATE_EXPIRED\<rparr>) (take n (tkm_tbl t)) @ drop n (tkm_tbl t)" using Suc by auto
  have n: "n < length (tkm_tbl u)" using Suc.prems by (simp add: u(4))
  have "(tkm_tbl u)[n := (tkm_tbl u ! n)\<lparr>trk_status := JOB_STATE_EXPIRED\<rparr>] =
      map (\<lambda>k. k\<lparr>trk_status := JOB_STATE_EXPIRED\<rparr>) (take (Suc n) (tkm_tbl t)) @ drop (Suc n) (tkm_tbl t)"
    using Suc.prems by (simp add: u(4) nth_append list_update_append take_Suc_conv_app_nth Cons_nth_drop_Suc [symmetric])
  then show ?case using set_state_table [OF u(1,2) n, of JOB_STATE_EXPIRED] u(3) by auto
qed

lemma fixup_loop_table:
  "\<forall>r \<in> set rs. rg_plain r \<Longrightarrow> ji_ajtrk j = Some t \<Longrightarrow> tbl_wf t \<Longrightarrow> distinct (map trk_index (tkm_tbl t)) \<Longrightarrow>
    \<exists>j' t'. fixup_loop j (range_to_str rs) = Some j' \<and> ji_ajtrk j' = Some t' \<and> tbl_wf t' \<and> tkm_step t' = tkm_step t \<and>
      tkm_tbl t' = map (retag (\<lambda>k. trk_index k \<in> set (range_vals (server_reads rs))) JOB_STATE_QUEUED) (tkm_tbl t)"
proof (induction rs arbitrary: j t)
  case Nil
  have "parse_subjob_index [] = No_More []" by (simp add: parse_subjob_index_def)
  moreover have "map (retag (\<lambda>k. trk_index k \<in> set []) JOB_STATE_QUEUED) (tkm_tbl t) = tkm_tbl t" by (intro map_idI) (simp add: retag_def)
  ultimately show ?case using Nil by (subst fixup_loop.simps) simp
next
  case (Cons r rs)
  have r: "rg_plain r" "rg_wf r" "rg_room r" using Cons.prems(1) by (auto simp: rg_plain_def)
  define rest where "rest = (if rs = [] then [] else CHR '','' # range_to_str rs)"
  obtain u where u: "ji_ajtrk (queue_values j (rg_vals r)) = Some u" "tbl_wf u" "tkm_step u = tkm_step t"
    "tkm_tbl u = map (retag (\<lambda>k. trk_index k \<in> set (rg_vals r)) JOB_STATE_QUEUED) (tkm_tbl t)"
    using queue_values_table [OF Cons.prems(2-4), of "rg_vals r"] by blast
  have du: "distinct (map trk_index (tkm_tbl u))" using Cons.prems(4) by (simp add: u(4) comp_def)
  have rest: "char_at rest = CHR '','' \<or> rest = []" by (simp add: rest_def)
  have step: "fixup_loop j (range_to_str (r # rs)) = fixup_loop (queue_values j (rg_vals r)) (if rg_count r > 1 \<and> rg_step r = 1 then rest else tl rest)"
    using server_section [OF r(1) rest] loop_values_range [OF r(2,3)] by (subst fixup_loop.simps) (simp add: range_to_str_Cons rest_def)
  show ?case
  proof (cases "rg_count r > 1 \<and> rg_step r = 1")
    case True
    have "parse_subjob_index rest = (if rs = [] then No_More [] else Bad_Format)" by (simp add: rest_def parse_subjob_index_def)
    then have "fixup_loop (queue_values j (rg_vals r)) rest = Some (queue_values j (rg_vals r))" by (subst fixup_loop.simps) simp
    then show ?thesis using True u step by simp
  next
    case False
    then have "tl rest = range_to_str rs" by (simp add: rest_def)
    moreover obtain j' t' where "fixup_loop (queue_values j (rg_vals r)) (range_to_str rs) = Some j'" "ji_ajtrk j' = Some t'" "tbl_wf t'" "tkm_step t' = tkm_step u"
      "tkm_tbl t' = map (retag (\<lambda>k. trk_index k \<in> set (range_vals (server_reads rs))) JOB_STATE_QUEUED) (tkm_tbl u)"
      using Cons.IH [OF _ u(1,2) du] Cons.prems(1) by auto
    moreover have "map (retag (\<lambda>k. trk_index k \<in> set (range_vals (server_reads rs))) JOB_STATE_QUEUED) (tkm_tbl u) =
        map (retag (\<lambda>k. trk_index k \<in> set (range_vals (server_reads (r # rs)))) JOB_STATE_QUEUED) (tkm_tbl t)"
      using False by (auto simp: u(4) retag_def)
    ultimately show ?thesis using step u(3) unfolding if_not_P [OF False] by auto
  qed
qed

lemma fixup_table:
  assumes "\<forall>r \<in> set rs. rg_plain r" "ji_ajtrk j = Some t" "tbl_wf t" "distinct (map trk_index (tkm_tbl t))" "at_str (at_val a) = Some (range_to_str rs)"
  shows "\<exists>j' t'. fixup_arrayindicies a j = Some (0, j') \<and> ji_ajtrk j' = Some t' \<and> tbl_wf t' \<and> map trk_index (tkm_tbl t') = map trk_index (tkm_tbl t) \<and>
    (\<forall>k \<in> set (tkm_tbl t'). trk_status k = (if trk_index k \<in> set (range_vals (server_reads rs)) then JOB_STATE_QUEUED else JOB_STATE_EXPIRED))"
proof -
  have n: "nat (tkm_ct t) = length (tkm_tbl t)" using assms(3) by (simp add: tbl_wf_def)
  obtain u where u: "ji_ajtrk (foldl (\<lambda>j i. set_subjob_tblstate j (int i) JOB_STATE_EXPIRED) j [0..<length (tkm_tbl t)]) = Some u" "tbl_wf u"
    "tkm_tbl u = map (\<lambda>k. k\<lparr>trk_status := JOB_STATE_EXPIRED\<rparr>) (tkm_tbl t)"
    using expire_all [OF assms(2,3) order_refl] by auto
  have "distinct (map trk_index (tkm_tbl u))" using assms(4) by (simp add: u(3) comp_def)
  from fixup_loop_table [OF assms(1) u(1,2) this] obtain j' t' where
    f: "fixup_loop (foldl (\<lambda>j i. set_subjob_tblstate j (int i) JOB_STATE_EXPIRED) j [0..<length (tkm_tbl t)]) (range_to_str rs) = Some j'" "ji_ajtrk j' = Some t'" "tbl_wf t'"
    "tkm_tbl t' = map (retag (\<lambda>k. trk_index k \<in> set (range_vals (server_reads rs))) JOB_STATE_QUEUED) (tkm_tbl u)" by blast
  then have "fixup_arrayindicies a j = Some (0, j')" using assms(2,5) by (simp add: fixup_arrayindicies_def n)
  then show ?thesis using f by (auto simp: u(3) retag_def)
qed

lemma server_reads_all: "\<forall>r \<in> set rs. rg_count r > 1 \<longrightarrow> rg_step r \<noteq> 1 \<Longrightarrow> server_reads rs = rs"
  by (induction rs) auto

lemma state_sections_step: "r \<in> set (state_sections t state f) \<Longrightarrow> rg_count r > 1 \<Longrightarrow> rg_step r = tkm_step t"
proof (induction t state f rule: state_sections.induct)
  case (1 t state f)
  then show ?case by (subst (asm) (2) state_sections.simps)
    (auto simp: Let_def run_sections_def one_value_def split: if_splits)
qed

lemma seq_distinct: "tbl_seq t x \<Longrightarrow> distinct (map trk_index (tkm_tbl t))"
  by (auto simp: tbl_seq_def distinct_map inj_on_def)

lemma in_state_from:
  assumes "distinct (map trk_index (tkm_tbl t))" "map trk_index (tkm_tbl t') = map trk_index (tkm_tbl t)"
    "\<forall>k \<in> set (tkm_tbl t'). trk_status k = (if trk_index k \<in> set (in_state t st) then st else st')" "st \<noteq> st'"
  shows "in_state t' st = in_state t st"
proof -
  have "in_state t' st = map trk_index (filter (\<lambda>k. trk_index k \<in> set (in_state t st)) (tkm_tbl t'))"
    unfolding in_state_def [of t'] using assms(3,4) by (intro arg_cong [where f = "map trk_index"] filter_cong) auto
  also have "\<dots> = filter (\<lambda>i. i \<in> set (in_state t st)) (map trk_index (tkm_tbl t))" by (simp add: filter_map comp_def flip: assms(2))
  also have "\<dots> = map trk_index (filter (\<lambda>k. trk_index k \<in> set (in_state t st)) (tkm_tbl t))" by (simp add: filter_map comp_def)
  also have "filter (\<lambda>k. trk_index k \<in> set (in_state t st)) (tkm_tbl t) = filter (\<lambda>k. trk_status k = st) (tkm_tbl t)"
    using assms(1) by (intro filter_cong) (auto simp: in_state_def distinct_map inj_on_def)
  finally show ?thesis by (simp add: in_state_def)
qed

text \<open>An array with a step greater than one arrives with the same subjobs queued.\<close>

lemma array_arrives:
  assumes "tbl_seq t x" "tbl_wf t" "tkm_step t > 1" "ji_ajtrk j = Some t0" "tbl_wf t0" "map trk_index (tkm_tbl t0) = map trk_index (tkm_tbl t)"
    "at_str (at_val a) = fst (cvt_range (\<lambda>_. True) buf0 (Some t) JOB_STATE_QUEUED)"
  shows "\<exists>j' t'. fixup_arrayindicies a j = Some (0, j') \<and> ji_ajtrk j' = Some t' \<and> tbl_wf t' \<and>
    map trk_index (tkm_tbl t') = map trk_index (tkm_tbl t) \<and> in_state t' JOB_STATE_QUEUED = in_state t JOB_STATE_QUEUED"
proof -
  let ?rs = "state_sections t JOB_STATE_QUEUED 0"
  have rs: "fst (cvt_range (\<lambda>_. True) buf0 (Some t) JOB_STATE_QUEUED) = Some (range_to_str ?rs)" "\<forall>r \<in> set ?rs. rg_plain r" "range_vals ?rs = in_state t JOB_STATE_QUEUED"
    using cvt_range_text [OF assms(1,2), of buf0 JOB_STATE_QUEUED] by auto
  have "server_reads ?rs = ?rs" using state_sections_step assms(3) by (intro server_reads_all) fastforce
  then obtain j' t' where f: "fixup_arrayindicies a j = Some (0, j')" "ji_ajtrk j' = Some t'" "tbl_wf t'" "map trk_index (tkm_tbl t') = map trk_index (tkm_tbl t0)"
    "\<forall>k \<in> set (tkm_tbl t'). trk_status k = (if trk_index k \<in> set (in_state t JOB_STATE_QUEUED) then JOB_STATE_QUEUED else JOB_STATE_EXPIRED)"
    using fixup_table [OF rs(2) assms(4,5), of a] seq_distinct [OF assms(1)] assms(6,7) rs by auto
  moreover have "in_state t' JOB_STATE_QUEUED = in_state t JOB_STATE_QUEUED"
    using f assms(6) by (intro in_state_from [OF seq_distinct [OF assms(1)]]) auto
  ultimately show ?thesis using assms(6) by auto
qed

section \<open>Names of subjobs\<close>

text \<open>The identifier of an array: a sequence number, the brackets and the server.\<close>

definition array_id :: "string \<Rightarrow> string \<Rightarrow> string" where
  "array_id s h = s @ ''[]'' @ h"

lemma no_bracket: "\<forall>c \<in> set (int_str k). c \<noteq> CHR ''['' \<and> c \<noteq> CHR '']'' \<and> c \<noteq> CHR ''.'' \<and> c \<noteq> CHR '',''"
proof -
  have "c \<noteq> CHR ''['' \<and> c \<noteq> CHR '']'' \<and> c \<noteq> CHR ''.'' \<and> c \<noteq> CHR '',''" if "c \<in> set (dec_str n)" for c n
    using dec_str_digits [OF that] by (auto simp: is_digit_def uchar_def)
  then show ?thesis by (auto simp: int_str_def)
qed

lemma strchr_append: "\<forall>d \<in> set s. d \<noteq> c \<Longrightarrow> strchr (s @ c # r) c = Some (c # r)"
  by (simp add: strchr_def)

lemma takeWhile_until: "\<forall>d \<in> set s. d \<noteq> c \<Longrightarrow> takeWhile (\<lambda>d. d \<noteq> c) (s @ c # r) = s"
  by (simp add: takeWhile_append2)

definition subjob_id :: "string \<Rightarrow> int \<Rightarrow> string \<Rightarrow> string" where
  "subjob_id s k h = s @ ''['' @ int_str k @ '']'' @ h"

lemma subjob_id_made:
  assumes "\<forall>c \<in> set s. c \<noteq> CHR ''['' \<and> c \<noteq> CHR '']''" "s \<noteq> []"
  shows "ji_jobid j = array_id s h \<Longrightarrow> ji_ajtrk j = Some t \<Longrightarrow> mk_subjob_id j i = jobid_buf (subjob_id s (trk_index (tkm_tbl t ! i)) h)"
    "create_subjob_name (array_id s h) k = (if length s + 2 > TMPID_SIZE \<or> length (subjob_id s k h) + 1 > SUBJOB_BUF_SIZE then None else Some (Some (subjob_id s k h)))"
proof -
  have s: "\<forall>c \<in> set s. c \<noteq> CHR ''[''" "\<forall>c \<in> set (s @ ''[''). c \<noteq> CHR '']''" using assms by auto
  have e: "array_id s h = s @ CHR ''['' # CHR '']'' # h" "array_id s h = (s @ ''['') @ CHR '']'' # h" by (simp_all add: array_id_def)
  show "mk_subjob_id j i = jobid_buf (subjob_id s (trk_index (tkm_tbl t ! i)) h)" if "ji_jobid j = array_id s h" "ji_ajtrk j = Some t"
    unfolding mk_subjob_id_def Let_def that using takeWhile_until [OF s(1), of "CHR '']'' # h"] strchr_append [OF s(2), of h]
    by (simp add: e(1) subjob_id_def)
  show "create_subjob_name (array_id s h) k = (if length s + 2 > TMPID_SIZE \<or> length (subjob_id s k h) + 1 > SUBJOB_BUF_SIZE then None else Some (Some (subjob_id s k h)))"
    unfolding create_subjob_name_def Let_def e(1) takeWhile_until [OF s(1)] subjob_id_def using assms(2) by simp
qed

lemma subjob_id_read:
  assumes "\<forall>c \<in> set s. c \<noteq> CHR ''['' \<and> c \<noteq> CHR '']'' \<and> c \<noteq> CHR ''.''" "h = [] \<or> hd h = CHR ''.''" "0 \<le> k" "length (subjob_id s k h) \<le> PBS_MAXSVRJOBID"
  shows "get_index_from_jid (subjob_id s k h) = Some (int_str k)" "is_job_array (subjob_id s k h) = IS_ARRAY_Single"
    "is_job_array (array_id s h) = IS_ARRAY_ArrayJob" "arrayparent_id (subjob_id s k h) = Some (array_id s h)"
proof -
  define u where "u = s @ ''['' @ int_str k"
  have s: "\<forall>c \<in> set s. c \<noteq> CHR ''[''" "\<forall>c \<in> set u. c \<noteq> CHR '']''" "\<forall>c \<in> set (u @ '']''). c \<noteq> CHR ''.''"
    using assms(1) no_bracket [of k] by (auto simp: u_def)
  have m: "subjob_id s k h = u @ CHR '']'' # h" "subjob_id s k h = s @ CHR ''['' # (int_str k @ '']'' @ h)" by (simp_all add: subjob_id_def u_def)
  have c: "strchr (subjob_id s k h) CHR ''['' = Some (CHR ''['' # int_str k @ '']'' @ h)" "strchr (subjob_id s k h) CHR '']'' = Some (CHR '']'' # h)"
    unfolding m(2) by (rule strchr_append [OF s(1)]) (unfold m(2) [symmetric] m(1), rule strchr_append [OF s(2)])
  show "get_index_from_jid (subjob_id s k h) = Some (int_str k)" by (simp add: get_index_from_jid_def c)
  have "dropWhile is_digit (int_str k @ '']'' @ h) = '']'' @ h"
    using dec_str_digits assms(3) by (subst dropWhile_append2) (auto simp: int_str_def is_digit_def uchar_def)
  moreover have "char_at (int_str k @ '']'' @ h) \<noteq> CHR '']''" using char_at_int_str(1) [OF assms(3), of "'']'' @ h"] by (auto simp: is_digit_def uchar_def)
  ultimately show "is_job_array (subjob_id s k h) = IS_ARRAY_Single" by (simp add: is_job_array_def c)
  show "is_job_array (array_id s h) = IS_ARRAY_ArrayJob" using strchr_append [OF s(1), of "CHR '']'' # h"] by (simp add: is_job_array_def array_id_def)
  have "strchr (subjob_id s k h) CHR ''.'' = (if h = [] then None else Some h)"
  proof (cases h)
    case Nil
    have "dropWhile (\<lambda>c. c \<noteq> CHR ''.'') (u @ '']'') = []" using s(3) by (simp only: dropWhile_eq_Nil_conv)
    then show ?thesis unfolding m(1) using Nil by (simp add: strchr_def)
  next
    case (Cons c h')
    then show ?thesis unfolding m(1) using strchr_append [OF s(3), of h'] assms(2) by simp
  qed
  moreover have "int_str k \<noteq> []" using assms(3) by (simp add: int_str_def)
  then have "length (array_id s h) \<le> PBS_MAXSVRJOBID" using assms(4) by (simp add: array_id_def subjob_id_def)
  moreover have "CHR ''['' \<in> set (take PBS_MAXSVRJOBID (subjob_id s k h))" using assms(4) by (simp add: subjob_id_def)
  ultimately show "arrayparent_id (subjob_id s k h) = Some (array_id s h)"
    using takeWhile_until [OF s(1), of "int_str k @ '']'' @ h"] by (auto simp: arrayparent_id_def jobid_buf_def m(2) array_id_def)
qed

lemma index_offset:
  assumes "ji_ajtrk j = Some t" "tbl_wf t" "tbl_seq t x" "i < length (tkm_tbl t)"
  shows "0 \<le> trk_index (tkm_tbl t ! i)" "subjob_index_to_offset j (Some (int_str (trk_index (tkm_tbl t ! i)))) = int i"
proof -
  have kb: "0 \<le> trk_index (tkm_tbl t ! i)" "trk_index (tkm_tbl t ! i) < INT_LIMIT" using seq_bound [OF assms(3,4)] seq_index [OF assms(3,4)] by auto
  then show "0 \<le> trk_index (tkm_tbl t ! i)" by simp
  show "subjob_index_to_offset j (Some (int_str (trk_index (tkm_tbl t ! i)))) = int i"
    using find_offset_found [OF assms(2) seq_distinct [OF assms(3)] assms(4)] strtol_end_int_str [OF kb, of "[]"]
    by (simp add: subjob_index_to_offset_def assms(1))
qed

section \<open>The table of an array whose subjob changes state\<close>

lemma tbl_wf_update:
  assumes "tbl_wf t" "\<forall>k. trk_status (f k) = trk_status k"
  shows "tbl_wf (t\<lparr>tkm_tbl := (tkm_tbl t)[i := f (tkm_tbl t ! i)]\<rparr>)"
    "map trk_status ((tkm_tbl t)[i := f (tkm_tbl t ! i)]) = map trk_status (tkm_tbl t)"
proof -
  show m: "map trk_status ((tkm_tbl t)[i := f (tkm_tbl t ! i)]) = map trk_status (tkm_tbl t)"
    using assms(2) by (simp add: map_update) (metis list_update_id map_update)
  have "length (filter (\<lambda>k. trk_status k = c) ks) = length (filter ((=) c) (map trk_status ks))" for c ks by (induction ks) auto
  from this [of _ "tkm_tbl t"] this [of _ "(tkm_tbl t)[i := f (tkm_tbl t ! i)]"]
  have l: "length (filter (\<lambda>k. trk_status k = c) ((tkm_tbl t)[i := f (tkm_tbl t ! i)])) = length (filter (\<lambda>k. trk_status k = c) (tkm_tbl t))" for c
    by (simp only: m)
  have "set (map trk_status ((tkm_tbl t)[i := f (tkm_tbl t ! i)])) = trk_status ` set (tkm_tbl t)" by (simp only: m set_map)
  then have "\<forall>k \<in> set ((tkm_tbl t)[i := f (tkm_tbl t ! i)]). 0 \<le> trk_status k \<and> trk_status k < int PBS_NUMJOBSTATE"
    using assms(1) by (simp only: tbl_wf_def set_map) (metis (no_types, lifting) imageE imageI)
  then show "tbl_wf (t\<lparr>tkm_tbl := (tkm_tbl t)[i := f (tkm_tbl t ! i)]\<rparr>)" using assms(1) l by (simp add: tbl_wf_def)
qed

lemma update_trk_frame [simp]: "trk_status (update_trk hist p k) = trk_status k" "trk_index (update_trk hist p k) = trk_index k"
  by (simp_all add: update_trk_def Let_def split: option.splits)

lemma state_ct_frame [simp]: "ji_ajtrk (update_subjob_state_ct mal a) = ji_ajtrk a"
  by (simp add: update_subjob_state_ct_def Let_def)

text \<open>No subjob is queued, running or exiting when the three counters are zero together.\<close>

lemma counters_zero:
  assumes "tbl_wf t"
  shows "tkm_subjsct t ! 1 + tkm_subjsct t ! 4 + tkm_subjsct t ! 5 = 0 \<longleftrightarrow> (\<forall>k \<in> set (tkm_tbl t). trk_status k \<notin> {JOB_STATE_QUEUED, JOB_STATE_RUNNING, JOB_STATE_EXITING})"
proof -
  have c: "tkm_subjsct t ! s = int (length (filter (\<lambda>k. trk_status k = int s) (tkm_tbl t)))" if "s < PBS_NUMJOBSTATE" for s
    using assms that by (simp add: tbl_wf_def)
  have "tkm_subjsct t ! 1 + tkm_subjsct t ! 4 + tkm_subjsct t ! 5 = 0 \<longleftrightarrow>
      filter (\<lambda>k. trk_status k = 1) (tkm_tbl t) = [] \<and> filter (\<lambda>k. trk_status k = 4) (tkm_tbl t) = [] \<and> filter (\<lambda>k. trk_status k = 5) (tkm_tbl t) = []"
    using c [of 1] c [of 4] c [of 5] by (simp add: add_nonneg_eq_0_iff)
  then show ?thesis by (auto simp: filter_empty_conv)
qed

lemma set_state_flags: "ji_ajtrk a = Some t \<Longrightarrow> ji_ajtrk (set_subjob_tblstate a i st) = Some t' \<Longrightarrow> tkm_flags t' = tkm_flags t"
  by (auto simp: set_subjob_tblstate_def Let_def split: if_splits)

lemma update_subjob_table:
  assumes "ji_ajtrk a = Some t" "tbl_wf t" "sj_subjindx p < length (tkm_tbl t)" "0 \<le> n" "n < int PBS_NUMJOBSTATE"
    "strncmp_eq (sj_jobid p) (ji_jobid a) (length (takeWhile (\<lambda>c. c \<noteq> CHR ''['') (sj_jobid p)) - 1)"
  shows "\<exists>a' d b t'. update_subjob_state mal hist buf0 p (Some a) n = (Some a', d, b) \<and> ji_ajtrk a' = Some t' \<and> tbl_wf t' \<and>
    map trk_status (tkm_tbl t') = (map trk_status (tkm_tbl t))[sj_subjindx p := n] \<and> (\<forall>a''. d = Saved a'' \<longrightarrow> ji_ajtrk a'' = Some t') \<and>
    (tkm_flags t mod 2 = 0 \<longrightarrow> (\<exists>e. d = All_Done e) = (\<forall>k \<in> set (tkm_tbl t'). trk_status k \<notin> {JOB_STATE_QUEUED, JOB_STATE_RUNNING, JOB_STATE_EXITING}))"
proof -
  let ?i = "sj_subjindx p"
  obtain u where u: "ji_ajtrk (set_subjob_tblstate a (int ?i) n) = Some u" "tbl_wf u" "tkm_tbl u = (tkm_tbl t)[?i := (tkm_tbl t ! ?i)\<lparr>trk_status := n\<rparr>]"
    using set_state_table [OF assms(1-5)] by blast
  define t' where "t' = (if n = JOB_STATE_EXPIRED then u\<lparr>tkm_tbl := (tkm_tbl u)[?i := update_trk hist p (tkm_tbl u ! ?i)]\<rparr> else u)"
  define a' where "a' = (let b = set_subjob_tblstate a (int ?i) n in if n = JOB_STATE_EXPIRED then b\<lparr>ji_ajtrk := Some t', ji_modified := True\<rparr> else b)"
  have t': "tbl_wf t'" "map trk_status (tkm_tbl t') = (map trk_status (tkm_tbl t))[?i := n]" "tkm_flags t' = tkm_flags t"
  proof -
    note w = tbl_wf_update [OF u(2), of "update_trk hist p" ?i]
    show "tbl_wf t'" using w(1) u(2) by (cases "n = JOB_STATE_EXPIRED") (simp_all only: t'_def if_True if_False update_trk_frame simp_thms)
    have m: "map trk_status (tkm_tbl u) = (map trk_status (tkm_tbl t))[?i := n]" by (simp add: u(3) map_update)
    show "map trk_status (tkm_tbl t') = (map trk_status (tkm_tbl t))[?i := n]"
    proof (cases "n = JOB_STATE_EXPIRED")
      case True
      then have "tkm_tbl t' = (tkm_tbl u)[?i := update_trk hist p (tkm_tbl u ! ?i)]" by (simp add: t'_def)
      then show ?thesis using w(2) m by (simp only: update_trk_frame simp_thms)
    qed (use m in \<open>simp add: t'_def\<close>)
    show "tkm_flags t' = tkm_flags t" using set_state_flags [OF assms(1) u(1)] by (simp add: t'_def)
  qed
  have a': "ji_ajtrk a' = Some t'" using u(1) by (simp add: a'_def Let_def t'_def)
  obtain d b where d: "chk_array_doneness mal buf0 a' = (d, b)" by fastforce
  have "update_subjob_state mal hist buf0 p (Some a) n = (Some a', d, b)"
    using assms(1,6) u(1) d by (cases "n = JOB_STATE_EXPIRED") (auto simp: update_subjob_state_def a'_def Let_def t'_def)
  moreover have "\<forall>a''. d = Saved a'' \<longrightarrow> ji_ajtrk a'' = Some t'"
    using d a' by (auto simp: chk_array_doneness_def Let_def split: if_splits prod.splits)
  moreover have "(\<exists>e. d = All_Done e) \<longleftrightarrow> tkm_subjsct t' ! 1 + tkm_subjsct t' ! 4 + tkm_subjsct t' ! 5 = 0" if "tkm_flags t mod 2 = 0"
    using d a' t'(3) that by (auto simp: chk_array_doneness_def Let_def split: if_splits prod.splits)
  ultimately show ?thesis using a' t' counters_zero [OF t'(1)] by (intro exI [of _ a'] exI [of _ d] exI [of _ b] exI [of _ t']) simp
qed

section \<open>Properties\<close>

text \<open>
  C10. The table of an array counts its subjobs. The table \<open>mk_subjob_index_tbl\<close> makes for an accepted range has one entry
  per index, all queued; and whatever sequence of states \<open>set_subjob_tblstate\<close> is then asked to record, the counters of the
  table are the numbers of subjobs in each state, with their sum the number of subjobs, and the indices stay.
\<close>

theorem table_counts:
  assumes "parse_subjob_index rng = Section ep x y z ct" "0 \<le> x" "y + z < INT_LIMIT" "ct \<le> (case limit of Some l \<Rightarrow> l | None \<Rightarrow> PBS_MAX_ARRAY_JOB_DFL)"
  shows "\<exists>t. mk_subjob_index_tbl (\<lambda>_. True) limit rng JOB_STATE_QUEUED = Some (Inr t) \<and> tbl_wf t \<and> in_state t JOB_STATE_QUEUED = map trk_index (tkm_tbl t) \<and>
    map trk_index (tkm_tbl t) = map (\<lambda>k. x + int k * z) [0..<nat ((y - x) div z) + 1] \<and>
    (\<forall>j changes. ji_ajtrk j = Some t \<and> (\<forall>(i, st) \<in> set changes. i < length (tkm_tbl t) \<and> 0 \<le> st \<and> st < int PBS_NUMJOBSTATE) \<longrightarrow>
      (\<exists>t'. ji_ajtrk (foldl (\<lambda>j (i, st). set_subjob_tblstate j (int i) st) j changes) = Some t' \<and> tbl_wf t' \<and>
        (\<Sum>s < PBS_NUMJOBSTATE. tkm_subjsct t' ! s) = tkm_ct t \<and> map trk_index (tkm_tbl t') = map trk_index (tkm_tbl t)))"
proof -
  obtain t where t: "mk_subjob_index_tbl (\<lambda>_. True) limit rng JOB_STATE_QUEUED = Some (Inr t)" "tbl_wf t" "tbl_seq t x" "tkm_step t = z"
    "length (tkm_tbl t) = nat ((y - x) div z) + 1" "in_state t JOB_STATE_QUEUED = map trk_index (tkm_tbl t)"
    using new_table [OF assms] by blast
  moreover have "map trk_index (tkm_tbl t) = map (\<lambda>k. x + int k * z) [0..<nat ((y - x) div z) + 1]" using t(3,4,5) by (simp add: tbl_seq_def)
  moreover have "\<exists>t'. ji_ajtrk (foldl (\<lambda>j (i, st). set_subjob_tblstate j (int i) st) j changes) = Some t' \<and> tbl_wf t' \<and>
      (\<Sum>s < PBS_NUMJOBSTATE. tkm_subjsct t' ! s) = tkm_ct t \<and> map trk_index (tkm_tbl t') = map trk_index (tkm_tbl t)"
    if c: "ji_ajtrk j = Some t" "\<forall>(i, st) \<in> set changes. i < length (tkm_tbl t) \<and> 0 \<le> st \<and> st < int PBS_NUMJOBSTATE" for j :: "'b array_job" and changes
  proof -
    from set_states_table [OF c(1) t(2) c(2)] obtain t' where
      t': "ji_ajtrk (foldl (\<lambda>j (i, st). set_subjob_tblstate j (int i) st) j changes) = Some t'" "tbl_wf t'" "tkm_ct t' = tkm_ct t"
      "map trk_index (tkm_tbl t') = map trk_index (tkm_tbl t)" by auto
    then show ?thesis using counters_sum [OF t'(2)] by simp
  qed
  ultimately show ?thesis by (intro exI [of _ t]) blast
qed

definition blank :: "unit attribute" where
  "blank = \<lparr>at_flags = 0, at_type = 3, at_user_encoded = None, at_priv_encoded = None, at_val = At_str None\<rparr>"

definition example_table :: "int list \<Rightarrow> ajtrkhd" where
  "example_table sts = \<lparr>tkm_size = 184, tkm_ct = 5, tkm_step = 1, tkm_flags = 0, tkm_subjsct = map (\<lambda>s. int (length (filter (\<lambda>st. st = int s) sts))) [0..<10], tkm_dsubjsct = 0,
     tkm_tbl = map2 new_ajtrk [1, 2, 3, 4, 5] sts\<rparr>"

definition example_array :: "int list \<Rightarrow> unit array_job" where
  "example_array sts = \<lparr>ji_jobid = ''7[].srv'', ji_state = JOB_STATE_QUEUED, ji_svrflags = JOB_SVFLG_ArrayJob, ji_ajtrk = Some (example_table sts), ji_array = blank,
     ji_array_state_count = blank, ji_indices_submitted = blank, ji_indices_remaining = blank, ji_modified = False\<rparr>"

lemma example_table_ok:
  "tbl_seq (example_table [1, 1, 1, 4, 1]) 1" "tbl_wf (example_table [1, 1, 1, 4, 1])" "tbl_wf (example_table [1, 1, 1, 1, 1])"
  "in_state (example_table [1, 1, 1, 4, 1]) JOB_STATE_QUEUED = [1, 2, 3, 5]"
  by (simp_all add: tbl_seq_def tbl_wf_def example_table_def new_ajtrk_def in_state_def upt_rec less_Suc_eq numeral_eq_Suc)

lemma example_parsed: "parse_subjob_index ''1-5'' = Section [] 1 5 1 5"
proof -
  have n: "int_str 1 = ''1''" "int_str 5 = ''5''" "is_digit CHR ''1''" "\<not> isspace CHR ''1''" by code_simp+
  have "strtol_end ''1-5'' = (1, ''-5'')" "strtol_end ''5'' = (5, [])" using strtol_end_int_str [of 1 "''-5''"] strtol_end_int_str [of 5 "[]"] by (simp_all add: n)
  then show ?thesis by (simp add: parse_subjob_index_def n c_int_def signed_divide_int_def)
qed

theorem table_counts_witness:
  "\<exists>t. mk_subjob_index_tbl (\<lambda>_. True) None ''1-5'' JOB_STATE_QUEUED = Some (Inr t) \<and> tbl_wf t \<and> map trk_index (tkm_tbl t) = [1, 2, 3, 4, 5]"
proof -
  have "map (\<lambda>k. 1 + int k * 1) [0..<nat ((5 - 1) div 1) + 1] = [1, 2, 3, 4, 5]" by code_simp
  then show ?thesis using table_counts [OF example_parsed, of None] by auto
qed

text \<open>
  C3. The scheduler sees the subjobs the server has. The text \<open>cvt_range\<close> of the server writes for the subjobs in a
  state is parsed by the scheduler's \<open>range_parse\<close> into the indices of these subjobs in order; and the
  indices the scheduler then hands out, taking the first and removing it each time, are these in order.
\<close>

theorem scheduler_reads_server:
  assumes "tbl_seq t x" "tbl_wf t" "n \<le> length (in_state t state)"
  shows "\<exists>rs. range_parse (\<lambda>_. True) (fst (cvt_range (\<lambda>_. True) buf0 (Some t) state)) = rs \<and> range_vals rs = in_state t state \<and>
    fst (run_firsts (\<lambda>rs. range_next_value rs (- 1)) (\<lambda>rs v. snd (range_remove_value rs v)) n rs) = take n (in_state t state)"
proof -
  obtain rs where rs: "fst (cvt_range (\<lambda>_. True) buf0 (Some t) state) = Some (range_to_str rs)" "\<forall>r \<in> set rs. rg_plain r" "range_vals rs = in_state t state"
    using cvt_range_text [OF assms(1,2), of buf0 state] by (metis fst_conv)
  have "\<forall>r \<in> set rs. rg_wf r \<and> rg_room r" using rs(2) by (auto simp: rg_plain_def)
  then show ?thesis using rq.run_in_order [of rs n] rs range_text_roundtrip [OF rs(2)] assms(3) by auto
qed

theorem scheduler_reads_server_witness:
  "range_vals (range_parse (\<lambda>_. True) (fst (cvt_range (\<lambda>_. True) None (Some (example_table [1, 1, 1, 4, 1])) JOB_STATE_QUEUED))) = [1, 2, 3, 5]"
  using scheduler_reads_server [OF example_table_ok(1,2), of 0 JOB_STATE_QUEUED None] example_table_ok(4) by auto

text \<open>
  C4. An array moved to another server. There \<open>fixup_arrayindicies\<close> gets the text of the queued subjobs and
  a table made from the submitted range: the table is well formed again and has the same indices. With a step
  greater than one exactly the subjobs that were queued are queued, the others ended. With any step the subjobs
  queued are those of the sections up to the first one of three or more neighbours written without a step: its
  parser does not skip the comma after such a section, and the queued subjobs after it are lost.
\<close>

theorem array_moved:
  assumes "tbl_seq t x" "tbl_wf t" "ji_ajtrk j = Some t0" "tbl_wf t0" "map trk_index (tkm_tbl t0) = map trk_index (tkm_tbl t)"
    "at_str (at_val a) = fst (cvt_range (\<lambda>_. True) buf0 (Some t) JOB_STATE_QUEUED)"
  shows "\<exists>j' t'. fixup_arrayindicies a j = Some (0, j') \<and> ji_ajtrk j' = Some t' \<and> tbl_wf t' \<and> map trk_index (tkm_tbl t') = map trk_index (tkm_tbl t) \<and>
    (tkm_step t > 1 \<longrightarrow> in_state t' JOB_STATE_QUEUED = in_state t JOB_STATE_QUEUED) \<and>
    (\<forall>k \<in> set (tkm_tbl t'). trk_status k =
      (if trk_index k \<in> set (range_vals (server_reads (state_sections t JOB_STATE_QUEUED 0))) then JOB_STATE_QUEUED else JOB_STATE_EXPIRED))"
proof -
  let ?rs = "state_sections t JOB_STATE_QUEUED 0"
  have rs: "at_str (at_val a) = Some (range_to_str ?rs)" "\<forall>r \<in> set ?rs. rg_plain r" using cvt_range_text [OF assms(1,2), of buf0 JOB_STATE_QUEUED] assms(6) by auto
  have d: "distinct (map trk_index (tkm_tbl t0))" using seq_distinct [OF assms(1)] assms(5) by simp
  obtain j' t' where f: "fixup_arrayindicies a j = Some (0, j')" "ji_ajtrk j' = Some t'" "tbl_wf t'" "map trk_index (tkm_tbl t') = map trk_index (tkm_tbl t0)"
    "\<forall>k \<in> set (tkm_tbl t'). trk_status k = (if trk_index k \<in> set (range_vals (server_reads ?rs)) then JOB_STATE_QUEUED else JOB_STATE_EXPIRED)"
    using fixup_table [OF rs(2) assms(3,4) d rs(1)] by blast
  moreover have "in_state t' JOB_STATE_QUEUED = in_state t JOB_STATE_QUEUED" if "tkm_step t > 1"
    using array_arrives [OF assms(1,2) that assms(3-6)] f(1,2) by auto
  ultimately show ?thesis using assms(5) by auto
qed

definition remaining_text :: "unit attribute" where
  "remaining_text = blank\<lparr>at_val := At_str (fst (cvt_range (\<lambda>_. True) None (Some (example_table [1, 1, 1, 4, 1])) JOB_STATE_QUEUED))\<rparr>"

lemma example_sections:
  "state_sections (example_table [1, 1, 1, 4, 1]) JOB_STATE_QUEUED 0 =
     [\<lparr>rg_start = 1, rg_end = 3, rg_count = 3, rg_step = 1\<rparr>, \<lparr>rg_start = 5, rg_end = 5, rg_count = 1, rg_step = 1\<rparr>]"
  by (simp add: state_sections.simps run_end.simps example_table_def run_sections_def one_value_def new_ajtrk_def)

theorem array_moved_witness:
  "\<exists>j t. fixup_arrayindicies remaining_text (example_array [1, 1, 1, 1, 1]) = Some (0, j) \<and> ji_ajtrk j = Some t \<and>
     map trk_status (tkm_tbl t) = [JOB_STATE_QUEUED, JOB_STATE_QUEUED, JOB_STATE_QUEUED, JOB_STATE_EXPIRED, JOB_STATE_EXPIRED]"
proof -
  have i: "map trk_index (tkm_tbl (example_table sts)) = [1, 2, 3, 4, 5]" if "length sts = 5" for sts
    using that by (auto simp: example_table_def new_ajtrk_def numeral_eq_Suc length_Suc_conv)
  have a: "at_str (at_val remaining_text) = fst (cvt_range (\<lambda>_. True) None (Some (example_table [1, 1, 1, 4, 1])) JOB_STATE_QUEUED)"
    by (simp add: remaining_text_def)
  have j: "ji_ajtrk (example_array [1, 1, 1, 1, 1]) = Some (example_table [1, 1, 1, 1, 1])" by (simp add: example_array_def)
  have v: "set (range_vals (server_reads (state_sections (example_table [1, 1, 1, 4, 1]) JOB_STATE_QUEUED 0))) = {1, 2, 3}"
    by (auto simp: example_sections rg_vals_def upt_rec)
  obtain j' t' where f: "fixup_arrayindicies remaining_text (example_array [1, 1, 1, 1, 1]) = Some (0, j')" "ji_ajtrk j' = Some t'"
    "map trk_index (tkm_tbl t') = [1, 2, 3, 4, 5]" "\<forall>k \<in> set (tkm_tbl t'). trk_status k = (if trk_index k \<in> {1, 2, 3} then JOB_STATE_QUEUED else JOB_STATE_EXPIRED)"
    using array_moved [OF example_table_ok(1,2) j example_table_ok(3) _ a] i unfolding v by auto
  have "map trk_status (tkm_tbl t') = map (\<lambda>i. if i \<in> {1, 2, 3} then JOB_STATE_QUEUED else JOB_STATE_EXPIRED) (map trk_index (tkm_tbl t'))" using f(4) by simp
  then show ?thesis using f by simp
qed

text \<open>
  C23. The names of subjobs. For an array named \<open>s[]h\<close> server and scheduler both build \<open>s[k]h\<close> for the subjob of index
  \<open>k\<close>, within the limits of their arrays: the server when the name has at most \<open>PBS_MAXSVRJOBID\<close> characters, and it overruns its static array
  for any longer one; the scheduler when \<open>s\<close> has at most 126 and the name at most 1023. From a name that fits the server
  gets back the index, the entry of the table and the identifier of the array, and tells it from the array's.
\<close>

theorem subjob_ids:
  assumes "ji_jobid j = array_id s h" "s \<noteq> []" "\<forall>c \<in> set s. c \<noteq> CHR ''['' \<and> c \<noteq> CHR '']'' \<and> c \<noteq> CHR ''.''" "h = [] \<or> hd h = CHR ''.''"
    "ji_ajtrk j = Some t" "tbl_wf t" "tbl_seq t x" "i < length (tkm_tbl t)" "jid = s @ ''['' @ int_str (trk_index (tkm_tbl t ! i)) @ '']'' @ h"
  shows "mk_subjob_id j i = (if length jid \<le> PBS_MAXSVRJOBID then Some jid else None) \<and>
    create_subjob_name (ji_jobid j) (trk_index (tkm_tbl t ! i)) = (if length s \<le> 126 \<and> length jid \<le> 1023 then Some (Some jid) else None) \<and>
    (length jid \<le> PBS_MAXSVRJOBID \<longrightarrow>
       subjob_index_to_offset j (get_index_from_jid jid) = int i \<and> arrayparent_id jid = Some (ji_jobid j) \<and>
       is_job_array jid = IS_ARRAY_Single \<and> is_job_array (ji_jobid j) = IS_ARRAY_ArrayJob)"
proof -
  let ?k = "trk_index (tkm_tbl t ! i)"
  have id: "jid = subjob_id s ?k h" using assms(9) by (simp add: subjob_id_def)
  have s: "\<forall>c \<in> set s. c \<noteq> CHR ''['' \<and> c \<noteq> CHR '']''" using assms(3) by blast
  note off = index_offset [OF assms(5-8)]
  show ?thesis
    using subjob_id_made(1) [OF s assms(2,1,5), of i] subjob_id_made(2) [OF s assms(2), of h ?k]
      subjob_id_read [OF assms(3,4) off(1)] off(2) unfolding id assms(1)
    by (auto simp: jobid_buf_def TMPID_SIZE_def SUBJOB_BUF_SIZE_def)
qed

theorem subjob_ids_witness:
  "create_subjob_name ''7[].srv'' 4 = Some (Some ''7[4].srv'') \<and> mk_subjob_id (example_array [1, 1, 1, 4, 1]) 3 = Some ''7[4].srv'' \<and>
   arrayparent_id ''7[4].srv'' = Some ''7[].srv''"
proof -
  let ?j = "example_array [1, 1, 1, 4, 1]"
  have j: "ji_jobid ?j = array_id ''7'' ''.srv''" "ji_ajtrk ?j = Some (example_table [1, 1, 1, 4, 1])" by (simp_all add: example_array_def array_id_def)
  have l: "3 < length (tkm_tbl (example_table [1, 1, 1, 4, 1]))" "trk_index (tkm_tbl (example_table [1, 1, 1, 4, 1]) ! 3) = 4" by (simp_all add: example_table_def new_ajtrk_def)
  have "int_str 4 = ''4''" by code_simp
  then show ?thesis using subjob_ids [OF j(1) _ _ _ j(2) example_table_ok(2,1) l(1) refl] by (simp add: l(2) j(1)) (simp add: array_id_def)
qed

text \<open>
  The static buffer of \<open>cvt_range\<close>: with indices and a step of at most five digits every text it writes fits the
  buffer, its terminator included, whatever the size of the buffer the last call left and whether or not memory can be had.
\<close>

theorem remaining_fits:
  assumes "\<forall>k \<in> set (tkm_tbl t). 0 \<le> trk_index k \<and> trk_index k < 100000" "tkm_step t < 100000" "tkm_ct t = int (length (tkm_tbl t))"
    "case buf0 of None \<Rightarrow> True | Some n \<Rightarrow> 0 < n" "cvt_range mal buf0 (Some t) state = (r, b, fit)"
  shows "fit \<and> (\<forall>s. r = Some s \<longrightarrow> (\<exists>n. b = Some n \<and> strlen s + 1 \<le> n))"
proof (cases "buf0 = None \<and> \<not> mal 1000")
  case False
  let ?n = "case buf0 of None \<Rightarrow> 1000 | Some n \<Rightarrow> n"
  obtain r' b' fit' where c: "cvt_loop mal t state 0 False [] ?n True = (r', b', fit')" by (metis prod_cases3)
  have "strlen [] + 1 \<le> ?n" using assms(4) by (auto simp: strlen_def split: option.splits)
  from cvt_loop_fits [OF assms(1-3) _ this c] show ?thesis using assms(5) False by (auto simp: cvt_range_def c split: if_splits)
qed (use assms(5) in \<open>simp add: cvt_range_def\<close>)

theorem remaining_fits_witness: "snd (snd (cvt_range (\<lambda>_. False) (Some 1000) (Some (example_table [1, 1, 1, 4, 1])) JOB_STATE_QUEUED))"
proof -
  let ?t = "example_table [1, 1, 1, 4, 1]"
  have t: "\<forall>k \<in> set (tkm_tbl ?t). 0 \<le> trk_index k \<and> trk_index k < 100000" "tkm_step ?t < 100000" "tkm_ct ?t = int (length (tkm_tbl ?t))"
    by (simp_all add: example_table_def new_ajtrk_def)
  obtain r b fit where "cvt_range (\<lambda>_. False) (Some 1000) (Some ?t) JOB_STATE_QUEUED = (r, b, fit)" by (metis prod_cases3)
  then show ?thesis using remaining_fits [OF t, of "Some 1000" "\<lambda>_. False" JOB_STATE_QUEUED r b fit] by simp
qed

end
