(* ===== verification/Svr_Job.thy ===== *)
theory Svr_Job
  imports Job_Array
begin

unbundle bit_operations_syntax

text \<open>
  Jobs in the queues of the server, \<open>server/svr_jobfunc.c\<close>: entering and leaving a queue, changing state, the state a job
  should have, and the time it accrues. The state of the server has the list of all jobs, the queues with their lists
  of jobs, and for the server and every queue the number of jobs and the number in each state. Jobs are
  numbered, a queue is known by its name, linked lists are lists (theory \<open>List_Link\<close>). The calls these functions make
  into other parts of the server (limits, resource defaults, dependencies, accounting, the scheduler, the
  database) are recorded in order in \<open>sv_calls\<close>; what such a call returns is a field of the environment. The
  specification is that every number is the number of jobs it stands for.
\<close>

section \<open>Structures\<close>

abbreviation JOB_STATE_TRANSIT :: int where "JOB_STATE_TRANSIT \<equiv> 0"
abbreviation JOB_STATE_HELD :: int where "JOB_STATE_HELD \<equiv> 2"
abbreviation JOB_STATE_WAITING :: int where "JOB_STATE_WAITING \<equiv> 3"
abbreviation JOB_STATE_BEGUN :: int where "JOB_STATE_BEGUN \<equiv> 7"
abbreviation JOB_STATE_MOVED :: int where "JOB_STATE_MOVED \<equiv> 8"
abbreviation JOB_STATE_FINISHED :: int where "JOB_STATE_FINISHED \<equiv> 9"

abbreviation JOB_SUBSTATE_TRANSICM :: int where "JOB_SUBSTATE_TRANSICM \<equiv> 1"
abbreviation JOB_SUBSTATE_QUEUED :: int where "JOB_SUBSTATE_QUEUED \<equiv> 10"
abbreviation JOB_SUBSTATE_PRESTAGEIN :: int where "JOB_SUBSTATE_PRESTAGEIN \<equiv> 11"
abbreviation JOB_SUBSTATE_STAGECMP :: int where "JOB_SUBSTATE_STAGECMP \<equiv> 16"
abbreviation JOB_SUBSTATE_HELD :: int where "JOB_SUBSTATE_HELD \<equiv> 20"
abbreviation JOB_SUBSTATE_SYNCHOLD :: int where "JOB_SUBSTATE_SYNCHOLD \<equiv> 21"
abbreviation JOB_SUBSTATE_DEPNHOLD :: int where "JOB_SUBSTATE_DEPNHOLD \<equiv> 22"
abbreviation JOB_SUBSTATE_WAITING :: int where "JOB_SUBSTATE_WAITING \<equiv> 30"
abbreviation JOB_SUBSTATE_RUNNING :: int where "JOB_SUBSTATE_RUNNING \<equiv> 42"
abbreviation JOB_SUBSTATE_SUSPEND :: int where "JOB_SUBSTATE_SUSPEND \<equiv> 43"
abbreviation JOB_SUBSTATE_SCHSUSP :: int where "JOB_SUBSTATE_SCHSUSP \<equiv> 45"
abbreviation JOB_SUBSTATE_BEGUN :: int where "JOB_SUBSTATE_BEGUN \<equiv> 70"
abbreviation JOB_SUBSTATE_PROVISION :: int where "JOB_SUBSTATE_PROVISION \<equiv> 71"

abbreviation JOB_SVFLG_Suspend :: uint where "JOB_SVFLG_Suspend \<equiv> 0x200"
abbreviation JOB_SVFLG_StagedIn :: uint where "JOB_SVFLG_StagedIn \<equiv> 0x400"
abbreviation JOB_SVFLG_Actsuspd :: uint where "JOB_SVFLG_Actsuspd \<equiv> 0x4000"
abbreviation JOB_SVFLG_SubJob :: uint where "JOB_SVFLG_SubJob \<equiv> 0x20000"

abbreviation PBSE_UNKQUE :: int where "PBSE_UNKQUE \<equiv> 15018"
abbreviation PBSE_NEEDQUET :: int where "PBSE_NEEDQUET \<equiv> 15137"

datatype queue_type = QTYPE_Unset | QTYPE_Execution | QTYPE_RoutePush | QTYPE_RoutePull
datatype resv_state = RESV_NONE | RESV_UNCONFIRMED | RESV_CONFIRMED | RESV_WAIT | RESV_TIME_TO_RUN | RESV_RUNNING | RESV_FINISHED | RESV_BEING_DELETED | RESV_DELETED | RESV_DELETING_JOBS | RESV_DEGRADED | RESV_BEING_ALTERED
datatype job_un = Un_New | Un_Exec int int int | Un_Route int int | Un_Mom
datatype ct_op = INCR | DECR
datatype save_kind = SAVEJOB_QUICK | SAVEJOB_FULL | SAVEJOB_NEW | SAVEJOB_FULLFORCE
datatype accrual = JOB_INITIAL | JOB_INELIGIBLE | JOB_ELIGIBLE | JOB_RUNNING | JOB_EXIT
datatype sched_cmd = SCH_SCHEDULE_NEW | SCH_SCHEDULE_MVLOCAL

record resc_resv =
  ri_reservation_job :: bool
  ri_state :: resv_state
  ri_stime :: int
  ri_etime :: int

record sjob =
  js_jobid :: string
  js_state :: int
  js_substate :: int
  js_svrflags :: uint
  js_queue :: string
  js_qhdr :: "string option"
  js_qrank :: ulong
  js_in_queue :: "string option"
  js_queuetype :: "char option"
  js_qtime :: "int option"
  js_project :: "string option"
  js_un :: job_un
  js_chkpnt :: "unit attribute"
  js_depend :: bool
  js_etime :: "int option"
  js_stime :: "int option"
  js_ajtrk :: "ajtrkhd option"
  js_remaining :: "unit attribute"
  js_state_count :: "unit attribute"
  js_parentaj :: "nat option"
  js_subjindx :: nat
  js_stageout_status :: "int option"
  js_exit_status :: bool
  js_hold :: ulong
  js_exectime :: int
  js_stagein :: bool
  js_resvp :: "resc_resv option"
  js_statechar :: char
  js_accrue_type :: accrual
  js_eligible_time :: int
  js_sample_starttime :: int
  js_modified :: bool
  js_newjob :: bool

record pbs_queue =
  qu_type :: queue_type
  qu_qtype :: "string option"
  qu_started :: bool
  qu_chkmin :: "unit attribute"
  qu_numjobs :: int
  qu_njstate :: "int list"
  qu_jobs :: "nat list"

datatype svr_call =
    Avl_Oper nat bool | Unlic_Delete nat | Array_Done nat int | Account_Queue nat string | Set_Resc_Deflt nat
  | Entity_Ct_Sum_Max nat "string option" ct_op | Entity_Ct_Sum_Queued nat "string option" ct_op
  | Entity_Resc_Sum_Max nat "string option" ct_op | Entity_Resc_Sum_Queued nat "string option" ct_op
  | Depend_On_Que nat | Scheduler_Flag nat sched_cmd | Update_Resvstate nat
  | Clear_Default_Resc nat | Job_Save nat save_kind

record srv =
  sv_numjobs :: int
  sv_jobstates :: "int list"
  sv_alljobs :: "nat list"
  sv_queues :: "string \<Rightarrow> pbs_queue option"
  sv_jobs :: "nat \<Rightarrow> sjob"
  sv_cvt_buf :: "nat option"
  sv_calls :: "svr_call list"

text \<open>
  The environment of a call: the time, whether the server is initialising, the attributes \<open>eligible_time_enable\<close> and
  \<open>scheduling\<close>, whether a scheduler is found for a job, the codes that \<open>set_resc_deflt\<close>, \<open>depend_on_que\<close> and \<open>job_save\<close>
  return, whether the server is built with assertions (without \<open>NDEBUG\<close>), whether the history of jobs is kept
  (\<open>svr_chk_history_conf\<close>), and which allocations succeed. The field \<open>sv_cvt_buf\<close> is the size of the static buffer of \<open>cvt_range\<close>.
\<close>

record svr_env =
  env_now :: int
  env_init :: bool
  env_eligible :: int
  env_scheduling :: bool
  env_sched :: "nat \<Rightarrow> bool"
  env_resc_deflt :: int
  env_depend :: int
  env_save :: int
  env_debug :: bool
  env_history :: bool
  env_mal :: "nat \<Rightarrow> bool"

definition upd_job :: "nat \<Rightarrow> (sjob \<Rightarrow> sjob) \<Rightarrow> srv \<Rightarrow> srv" where
  "upd_job j f s = s\<lparr>sv_jobs := (sv_jobs s)(j := f (sv_jobs s j))\<rparr>"

definition upd_queue :: "string \<Rightarrow> (pbs_queue \<Rightarrow> pbs_queue) \<Rightarrow> srv \<Rightarrow> srv" where
  "upd_queue q f s = s\<lparr>sv_queues := (sv_queues s)(q := map_option f (sv_queues s q))\<rparr>"

definition call :: "svr_call list \<Rightarrow> srv \<Rightarrow> srv" where
  "call cs s = s\<lparr>sv_calls := sv_calls s @ cs\<rparr>"

definition bump :: "int \<Rightarrow> int \<Rightarrow> int list \<Rightarrow> int list" where
  "bump st d ct = ct[nat st := ct ! nat st + d]"

section \<open>Entering a queue\<close>

text \<open>
  The two loops of \<open>svr_enquejob\<close> walk a list from its end to the first job whose rank is not greater, and insert the job after it.
\<close>

definition insert_by_rank :: "(nat \<Rightarrow> ulong) \<Rightarrow> nat \<Rightarrow> nat list \<Rightarrow> nat list" where
  "insert_by_rank rank j js =
     (let later = takeWhile (\<lambda>c. rank j < rank c) (rev js) in take (length js - length later) js @ j # rev later)"

text \<open>The part of a job that the functions of \<open>array_func.c\<close> work on, and what they write back.\<close>

definition unset_attr :: "unit attribute" where
  "unset_attr = \<lparr>at_flags = 0, at_type = 3, at_user_encoded = None, at_priv_encoded = None, at_val = At_str None\<rparr>"

definition array_view :: "sjob \<Rightarrow> unit array_job" where
  "array_view p =
     \<lparr>ji_jobid = js_jobid p, ji_state = js_state p, ji_svrflags = js_svrflags p, ji_ajtrk = js_ajtrk p, ji_array = unset_attr,
      ji_array_state_count = js_state_count p, ji_indices_submitted = unset_attr, ji_indices_remaining = js_remaining p, ji_modified = js_modified p\<rparr>"

definition put_array :: "unit array_job \<Rightarrow> sjob \<Rightarrow> sjob" where
  "put_array a p = p\<lparr>js_ajtrk := ji_ajtrk a, js_remaining := ji_indices_remaining a, js_state_count := ji_array_state_count a, js_modified := ji_modified a\<rparr>"

definition array_states :: "nat \<Rightarrow> srv \<Rightarrow> srv" where
  "array_states j s =
     (let pjob = sv_jobs s j in
      case js_ajtrk pjob of None \<Rightarrow> s
      | Some ptbl \<Rightarrow>
        if js_svrflags pjob AND JOB_SVFLG_ArrayJob \<noteq> 0
        then upd_job j (put_array (foldl (\<lambda>a indx. set_subjob_tblstate a (int indx) (js_state pjob)) (array_view pjob) [0..<nat (tkm_ct ptbl)])) s
        else s)"

text \<open>\<open>eval_chkpnt\<close>: a checkpoint interval below the minimum of the queue is raised to it.\<close>

definition eval_chkpnt :: "unit attribute \<Rightarrow> unit attribute \<Rightarrow> unit attribute" where
  "eval_chkpnt jobckp queckp =
     (if \<not> is_set jobckp \<or> \<not> is_set queckp then jobckp
      else case at_str (at_val jobckp) of None \<Rightarrow> jobckp
        | Some pv \<Rightarrow>
          if char_at pv = CHR ''c'' \<or> char_at pv = CHR ''w'' then
            let ckt = char_at pv; pv = tl pv; pv = (if char_at pv = CHR ''='' then tl pv else pv); jobs = fst (strtol_end pv) in
            if jobs < sint (at_long (at_val queckp))
            then snd (decode_str (\<lambda>_. True) (free_str jobckp) [] None (Some ([ckt] @ ''='' @ ld_str (at_long (at_val queckp))))) else jobckp
          else jobckp)"

definition enque_exec :: "svr_env \<Rightarrow> pbs_queue \<Rightarrow> nat \<Rightarrow> srv \<Rightarrow> int \<times> srv" where
  "enque_exec env pque j s =
     (let s = upd_job j (\<lambda>p. p\<lparr>js_un := (case js_un p of Un_Exec a b c \<Rightarrow> Un_Exec a b c | _ \<Rightarrow> Un_Exec 0 0 0),
                 js_chkpnt := eval_chkpnt (js_chkpnt p) (qu_chkmin pque)\<rparr>) s;
          dep = \<not> env_init env \<and> js_depend (sv_jobs s j);
          s = (if dep then call [Depend_On_Que j] s else s)
      in if dep \<and> env_depend env \<noteq> 0 then (env_depend env, s)
         else if js_etime (sv_jobs s j) = None \<and> js_state (sv_jobs s j) = JOB_STATE_QUEUED then
           let s = upd_job j (\<lambda>p. p\<lparr>js_etime := Some (env_now env)\<rparr>) s
           in (0, if env_sched env j then call [Scheduler_Flag j SCH_SCHEDULE_NEW] s else s)
         else if env_eligible env \<noteq> 0 \<and> env_scheduling env then
           (0, if env_sched env j then call [Scheduler_Flag j SCH_SCHEDULE_MVLOCAL] s else s)
         else (0, s))"

text \<open>The lists and counts, before the attributes of the job.\<close>

definition enque_lists :: "string \<Rightarrow> nat \<Rightarrow> srv \<Rightarrow> srv" where
  "enque_lists q j s =
     (let st = js_state (sv_jobs s j); rank = (\<lambda>i. js_qrank (sv_jobs s i));
          s = call [Avl_Oper j False] (s\<lparr>sv_alljobs := insert_by_rank rank j (sv_alljobs s),
                sv_numjobs := sv_numjobs s + 1, sv_jobstates := bump st 1 (sv_jobstates s)\<rparr>);
          s = upd_job j (\<lambda>p. p\<lparr>js_qhdr := Some q\<rparr>) s
      in upd_queue q (\<lambda>pque. pque\<lparr>qu_jobs := insert_by_rank rank j (qu_jobs pque), qu_numjobs := qu_numjobs pque + 1,
           qu_njstate := bump st 1 (qu_njstate pque)\<rparr>) s)"

definition svr_enquejob :: "svr_env \<Rightarrow> nat \<Rightarrow> srv \<Rightarrow> int \<times> srv" where
  "svr_enquejob env j s =
     (let q = js_queue (sv_jobs s j); st = js_state (sv_jobs s j); hist = (st = JOB_STATE_MOVED \<or> st = JOB_STATE_FINISHED) in
      case sv_queues s q of
        None \<Rightarrow>
          if hist then
            let s = (if j \<in> set (sv_alljobs s) then s else call [Avl_Oper j False] (s\<lparr>sv_alljobs := sv_alljobs s @ [j]\<rparr>));
                s = s\<lparr>sv_numjobs := sv_numjobs s + 1, sv_jobstates := bump st 1 (sv_jobstates s)\<rparr>
            in (0, array_states j s)
          else (PBSE_UNKQUE, s)
      | Some pque \<Rightarrow>
          let s = enque_lists q j s in
          if hist then (0, array_states j s)
          else let s = upd_job j (\<lambda>p. p\<lparr>js_in_queue := Some q\<rparr>) s in
            (case qu_qtype pque of
               None \<Rightarrow> (PBSE_NEEDQUET, s)
             | Some ty \<Rightarrow>
               let s = upd_job j (\<lambda>p. p\<lparr>js_queuetype := Some (char_at ty)\<rparr>) s;
                   s = (if js_qtime (sv_jobs s j) = None then call [Account_Queue j q] (upd_job j (\<lambda>p. p\<lparr>js_qtime := Some (env_now env)\<rparr>) s) else s);
                   s = call [Set_Resc_Deflt j] s
               in if env_resc_deflt env \<noteq> 0 then (env_resc_deflt env, s)
                  else let s = upd_job j (\<lambda>p. p\<lparr>js_project := (case js_project p of None \<Rightarrow> Some ''_pbs_project_default'' | Some n \<Rightarrow> Some n)\<rparr>) s;
                           s = call [Entity_Ct_Sum_Max j (Some q) INCR, Entity_Ct_Sum_Queued j (Some q) INCR,
                                 Entity_Resc_Sum_Max j (Some q) INCR, Entity_Resc_Sum_Queued j (Some q) INCR] s
                       in if qu_type pque = QTYPE_Execution then enque_exec env pque j s
                          else if qu_type pque = QTYPE_RoutePush then (0, upd_job j (\<lambda>p. p\<lparr>js_un := Un_Route (env_now env) 0\<rparr>) s)
                          else (0, s)))"

section \<open>Leaving a queue\<close>

text \<open>
  \<open>correct_ct\<close>: all numbers are set to zero and the jobs counted again; of the ten counts by state only the first six are
  set to zero.
\<close>

definition zero_six :: "int list \<Rightarrow> int list" where
  "zero_six ct = replicate (PBS_NUMJOBSTATE - 4) 0 @ drop (PBS_NUMJOBSTATE - 4) ct"

definition count_job :: "srv \<Rightarrow> nat \<Rightarrow> srv" where
  "count_job s j =
     (let st = js_state (sv_jobs s j);
          s = s\<lparr>sv_numjobs := sv_numjobs s + 1, sv_jobstates := bump st 1 (sv_jobstates s)\<rparr>
      in case js_qhdr (sv_jobs s j) of None \<Rightarrow> s
         | Some q \<Rightarrow> upd_queue q (\<lambda>pque. pque\<lparr>qu_numjobs := qu_numjobs pque + 1, qu_njstate := bump st 1 (qu_njstate pque)\<rparr>) s)"

definition correct_ct :: "srv \<Rightarrow> srv" where
  "correct_ct s =
     (let s = s\<lparr>sv_numjobs := 0, sv_jobstates := zero_six (sv_jobstates s),
            sv_queues := (\<lambda>q. map_option (\<lambda>pque. pque\<lparr>qu_numjobs := 0, qu_njstate := zero_six (qu_njstate pque)\<rparr>) (sv_queues s q))\<rparr>
      in foldl count_job s (sv_alljobs s))"

definition svr_dequejob :: "svr_env \<Rightarrow> nat \<Rightarrow> srv \<Rightarrow> srv" where
  "svr_dequejob env j s =
     (let st = js_state (sv_jobs s j);
          (s, bad) = (if j \<in> set (sv_alljobs s) then
              let s = call [Unlic_Delete j, Avl_Oper j True] (s\<lparr>sv_alljobs := remove1 j (sv_alljobs s), sv_numjobs := sv_numjobs s - 1,
                    sv_jobstates := bump st (- 1) (sv_jobstates s)\<rparr>)
              in (s, sv_numjobs s < 0 \<or> sv_jobstates s ! nat st < 0)
            else (s, False));
          (s, bad) = (case js_qhdr (sv_jobs s j) of None \<Rightarrow> (s, bad)
            | Some q \<Rightarrow>
              let s = call [Entity_Ct_Sum_Max j (Some q) DECR, Entity_Ct_Sum_Queued j (Some q) DECR,
                    Entity_Resc_Sum_Max j (Some q) DECR, Entity_Resc_Sum_Queued j (Some q) DECR] s;
                  linked = (case sv_queues s q of None \<Rightarrow> False | Some pque \<Rightarrow> j \<in> set (qu_jobs pque));
                  s = (if linked then upd_queue q (\<lambda>pque. pque\<lparr>qu_jobs := remove1 j (qu_jobs pque), qu_numjobs := qu_numjobs pque - 1,
                        qu_njstate := bump st (- 1) (qu_njstate pque)\<rparr>) s else s);
                  bad = (bad \<or> linked \<and> (case sv_queues s q of None \<Rightarrow> False | Some pque \<Rightarrow> qu_numjobs pque < 0 \<or> qu_njstate pque ! nat st < 0))
              in (upd_job j (\<lambda>p. p\<lparr>js_qhdr := None\<rparr>) s, bad));
          s = (if env_debug env \<and> bad then correct_ct s else s);
          s = upd_job j (\<lambda>p. p\<lparr>js_qtime := None\<rparr>) s
      in call [Clear_Default_Resc j] s)"

section \<open>States\<close>

definition statechars :: string where "statechars = ''TQHWREXBMF''"

definition set_statechar :: "sjob \<Rightarrow> sjob" where
  "set_statechar p =
     p\<lparr>js_statechar :=
       (if js_state p = JOB_STATE_RUNNING \<and> js_svrflags p AND JOB_SVFLG_Suspend \<noteq> 0 then CHR ''S''
        else if js_state p = JOB_STATE_RUNNING \<and> js_svrflags p AND JOB_SVFLG_Actsuspd \<noteq> 0 then CHR ''U''
        else statechars ! nat (js_state p))\<rparr>"

definition state_char2int :: "char \<Rightarrow> int" where
  "state_char2int stc = (case find (\<lambda>i. statechars ! i = stc) [0..<length statechars] of Some i \<Rightarrow> int i | None \<Rightarrow> - 1)"

definition queued_substate :: "sjob \<Rightarrow> int" where
  "queued_substate p = (if js_svrflags p AND JOB_SVFLG_StagedIn \<noteq> 0 then JOB_SUBSTATE_STAGECMP else JOB_SUBSTATE_PRESTAGEIN)"

definition svr_evaljobstate :: "int \<Rightarrow> sjob \<Rightarrow> bool \<Rightarrow> int \<times> int" where
  "svr_evaljobstate now p forceeval =
     (let asis = (js_state p, js_substate p) in
      if js_state p = JOB_STATE_MOVED \<or> js_state p = JOB_STATE_FINISHED then asis
      else if \<not> forceeval \<and> (js_state p = JOB_STATE_RUNNING \<or> js_state p = JOB_STATE_TRANSIT) then asis
      else if js_hold p \<noteq> 0 then
        (JOB_STATE_HELD, if js_substate p = JOB_SUBSTATE_SYNCHOLD \<or> js_substate p = JOB_SUBSTATE_DEPNHOLD then js_substate p else JOB_SUBSTATE_HELD)
      else if js_exectime p > now then (JOB_STATE_WAITING, JOB_SUBSTATE_WAITING)
      else if js_resvp p \<noteq> None \<and> ri_reservation_job (the (js_resvp p)) then
        (let r = the (js_resvp p) in
         if ri_state r = RESV_UNCONFIRMED then (JOB_STATE_HELD, JOB_SUBSTATE_HELD)
         else if ri_stime r > now then (JOB_STATE_WAITING, JOB_SUBSTATE_WAITING)
         else if ri_etime r > now \<and> (ri_state r = RESV_RUNNING \<or> ri_state r = RESV_TIME_TO_RUN) then
           (JOB_STATE_QUEUED, if js_stagein p then queued_substate p else JOB_SUBSTATE_QUEUED)
         else asis)
      else if js_stagein p then (JOB_STATE_QUEUED, queued_substate p)
      else if js_svrflags p AND JOB_SVFLG_ArrayJob \<noteq> 0 then
        (case js_ajtrk p of
           Some t \<Rightarrow> if tkm_subjsct t ! 1 + tkm_dsubjsct t < tkm_ct t then (JOB_STATE_BEGUN, JOB_SUBSTATE_BEGUN) else (JOB_STATE_QUEUED, JOB_SUBSTATE_QUEUED)
         | None \<Rightarrow> (JOB_STATE_HELD, JOB_SUBSTATE_HELD))
      else (JOB_STATE_QUEUED, JOB_SUBSTATE_QUEUED))"

section \<open>Eligible time\<close>

definition determine_accruetype :: "srv \<Rightarrow> sjob \<Rightarrow> accrual option" where
  "determine_accruetype s p =
     (if js_state p = JOB_STATE_RUNNING \<and> (js_substate p = JOB_SUBSTATE_RUNNING \<or> js_substate p = JOB_SUBSTATE_PROVISION) then Some JOB_RUNNING
      else if js_state p = JOB_STATE_EXITING then Some JOB_EXIT
      else if js_exectime p \<noteq> 0 then Some JOB_INELIGIBLE
      else if js_hold p AND HOLD_u \<noteq> 0 then Some JOB_INELIGIBLE
      else if js_hold p AND HOLD_o \<noteq> 0 \<or> js_hold p AND HOLD_bad_password \<noteq> 0 \<or> js_hold p AND HOLD_s \<noteq> 0 then
        Some (if js_substate p = JOB_SUBSTATE_DEPNHOLD \<and> js_hold p AND HOLD_s \<noteq> 0 then JOB_INELIGIBLE else JOB_ELIGIBLE)
      else if js_substate p = JOB_SUBSTATE_SCHSUSP then Some JOB_ELIGIBLE
      else if js_substate p = JOB_SUBSTATE_SUSPEND then Some JOB_ELIGIBLE
      else if (case sv_queues s (js_queue p) of Some pque \<Rightarrow> \<not> qu_started pque | None \<Rightarrow> False) then Some JOB_ELIGIBLE
      else if js_depend p then Some JOB_ELIGIBLE
      else None)"

definition update_eligible_time :: "int \<Rightarrow> accrual option \<Rightarrow> sjob \<Rightarrow> int \<times> sjob" where
  "update_eligible_time now newaccruetype p =
     (case newaccruetype of None \<Rightarrow> (1, p)
      | Some ty \<Rightarrow>
        if ty = js_accrue_type p then (1, p)
        else let accrued_time = now - js_sample_starttime p;
                 p = (if js_accrue_type p = JOB_ELIGIBLE then p\<lparr>js_eligible_time := js_eligible_time p + accrued_time\<rparr> else p)
             in (0, p\<lparr>js_accrue_type := ty, js_sample_starttime := now\<rparr>))"

section \<open>The array of a subjob\<close>

text \<open>
  The call of \<open>update_subjob_state\<close> for a subjob: the table of the parent array records the state; then the array has ended, or its
  remaining indices are brought up to date and it is saved. \<open>Array_Done\<close> stands for the accounting, mail, dependencies and
  history of an array that has ended.
\<close>

definition subjob_view :: "sjob \<Rightarrow> subjob" where
  "subjob_view p =
     \<lparr>sj_jobid = js_jobid p, sj_subjindx = js_subjindx p, sj_exitstat = (case js_un p of Un_Exec _ _ e \<Rightarrow> e | _ \<Rightarrow> 0), sj_substate = js_substate p,
      sj_stageout_status = js_stageout_status p, sj_exit_status = js_exit_status p\<rparr>"

definition tell_parent :: "svr_env \<Rightarrow> nat \<Rightarrow> int \<Rightarrow> srv \<Rightarrow> srv" where
  "tell_parent env j newstate s =
     (case js_parentaj (sv_jobs s j) of None \<Rightarrow> s
      | Some pj \<Rightarrow>
        let (parent, check, buf) = update_subjob_state (env_mal env) (env_history env) (sv_cvt_buf s) (subjob_view (sv_jobs s j))
                                     (Some (array_view (sv_jobs s pj))) newstate;
            s = (upd_job pj (put_array (the parent)) s)\<lparr>sv_cvt_buf := buf\<rparr>
        in case check of Unchanged \<Rightarrow> s
           | All_Done e \<Rightarrow> call [Array_Done pj e] (upd_job pj (\<lambda>p. p\<lparr>js_un := Un_Exec 0 0 e\<rparr>) s)
           | Saved a \<Rightarrow> call [Job_Save pj SAVEJOB_FULL] (upd_job pj (put_array a) s))"

section \<open>Changing the state\<close>

text \<open>
  The counts and times of a job that is not new and changes state; then the whole branch for such a job, whose result has the state
  the job is to get and whether anything changed.
\<close>

definition move_counts :: "svr_env \<Rightarrow> nat \<Rightarrow> int \<Rightarrow> srv \<Rightarrow> srv" where
  "move_counts env j newstate s =
     (let p = sv_jobs s j; oldstate = js_state p;
          s = s\<lparr>sv_jobstates := bump newstate 1 (bump oldstate (- 1) (sv_jobstates s))\<rparr>
      in case js_qhdr p of None \<Rightarrow> s
         | Some q \<Rightarrow>
           let s = upd_queue q (\<lambda>pque. pque\<lparr>qu_njstate := bump newstate 1 (bump oldstate (- 1) (qu_njstate pque))\<rparr>) s in
           if (case sv_queues s q of Some pque \<Rightarrow> qu_type pque = QTYPE_Execution | None \<Rightarrow> False) \<and> newstate = JOB_STATE_QUEUED then
             let s = (if env_sched env j then call [Scheduler_Flag j SCH_SCHEDULE_NEW] s else s)
             in upd_job j (\<lambda>p. p\<lparr>js_etime := (case js_etime p of None \<Rightarrow> Some (env_now env) | Some t \<Rightarrow> Some t), js_stime := None\<rparr>) s
           else if newstate = JOB_STATE_HELD \<or> newstate = JOB_STATE_WAITING then upd_job j (\<lambda>p. p\<lparr>js_etime := None\<rparr>) s
           else s)"

definition change_counts :: "svr_env \<Rightarrow> nat \<Rightarrow> int \<Rightarrow> int \<Rightarrow> srv \<Rightarrow> srv \<times> int \<times> bool" where
  "change_counts env j newstate newsubstate s =
     (let p = sv_jobs s j; changed = (js_substate p \<noteq> newsubstate) in
      if js_state p = newstate then (s, newstate, changed)
      else let s = move_counts env j newstate s in
        if js_svrflags p AND JOB_SVFLG_SubJob \<noteq> 0 then
          let newstate = (if newstate = JOB_STATE_FINISHED then JOB_STATE_EXPIRED else newstate)
          in (tell_parent env j newstate s, newstate, True)
        else (s, newstate, True))"

definition svr_setjobstate :: "svr_env \<Rightarrow> nat \<Rightarrow> int \<Rightarrow> int \<Rightarrow> srv \<Rightarrow> int \<times> srv" where
  "svr_setjobstate env j newstate newsubstate s =
     (if js_state (sv_jobs s j) = JOB_STATE_FINISHED then (0, s)
      else let (s, newstate, changed) =
                 (if js_substate (sv_jobs s j) \<noteq> JOB_SUBSTATE_TRANSICM then change_counts env j newstate newsubstate s else (s, newstate, False));
               s = upd_job j (\<lambda>p. set_statechar (p\<lparr>js_state := newstate, js_substate := newsubstate\<rparr>)) s;
               s = call [Update_Resvstate j] s;
               s = (if env_eligible env = 1 then upd_job j (\<lambda>p. snd (update_eligible_time (env_now env) (determine_accruetype s p) p)) s else s);
               s = (if newstate = JOB_STATE_RUNNING \<or> newstate = JOB_STATE_BEGUN then
                     let q = js_qhdr (sv_jobs s j)
                     in call [Entity_Ct_Sum_Queued j None DECR, Entity_Ct_Sum_Queued j q DECR, Entity_Resc_Sum_Queued j None DECR, Entity_Resc_Sum_Queued j q DECR] s
                   else s)
           in if js_modified (sv_jobs s j) then (env_save env, call [Job_Save j (if js_newjob (sv_jobs s j) then SAVEJOB_NEW else SAVEJOB_FULL)] s)
              else if changed then (env_save env, call [Job_Save j SAVEJOB_QUICK] s)
              else (0, s))"

section \<open>Counting\<close>

text \<open>Ten counts that are the numbers of elements of a list in each state.\<close>

definition tally :: "('a \<Rightarrow> int) \<Rightarrow> 'a list \<Rightarrow> int list \<Rightarrow> bool" where
  "tally f xs ct \<longleftrightarrow> length ct = PBS_NUMJOBSTATE \<and> (\<forall>x \<in> set xs. 0 \<le> f x \<and> f x < int PBS_NUMJOBSTATE) \<and>
     (\<forall>s < PBS_NUMJOBSTATE. ct ! s = int (length (filter (\<lambda>x. f x = int s) xs)))"

lemma tally_cong: "(\<And>x. x \<in> set xs \<Longrightarrow> f x = g x) \<Longrightarrow> tally f xs ct \<longleftrightarrow> tally g xs ct"
proof -
  assume a: "\<And>x. x \<in> set xs \<Longrightarrow> f x = g x"
  have "filter (\<lambda>x. f x = k) xs = filter (\<lambda>x. g x = k) xs" for k using a by (intro filter_cong) auto
  then show ?thesis using a by (simp add: tally_def)
qed

lemma tally_perm: "mset xs = mset ys \<Longrightarrow> tally f xs ct \<longleftrightarrow> tally f ys ct"
proof -
  assume a: "mset xs = mset ys"
  have "length (filter P xs) = length (filter P ys)" for P using a by (metis mset_filter size_mset)
  then show ?thesis using mset_eq_setD [OF a] by (simp add: tally_def)
qed

lemma tally_add:
  assumes "tally f xs ct" "0 \<le> f x" "f x < int PBS_NUMJOBSTATE"
  shows "tally f (x # xs) (bump (f x) 1 ct)"
  using assms by (auto simp: tally_def bump_def nth_list_update)

lemma tally_del:
  assumes "tally f (x # xs) ct"
  shows "tally f xs (bump (f x) (- 1) ct)"
  using assms by (auto simp: tally_def bump_def nth_list_update)

lemma tally_change:
  assumes "tally f xs ct" "distinct xs" "x \<in> set xs" "0 \<le> n" "n < int PBS_NUMJOBSTATE"
  shows "tally (f(x := n)) xs (bump n 1 (bump (f x) (- 1) ct))"
proof -
  have m: "mset xs = mset (x # remove1 x xs)" using assms(3) by simp
  have "tally f (remove1 x xs) (bump (f x) (- 1) ct)" using assms(1) tally_perm [OF m] by (intro tally_del) simp
  moreover have "x \<notin> set (remove1 x xs)" using assms(2) by (simp add: set_remove1_eq)
  ultimately have "tally (f(x := n)) (remove1 x xs) (bump (f x) (- 1) ct)" 
    by (subst tally_cong [where g = f]) auto
  from tally_add [OF this, of x] show ?thesis using assms(4,5) tally_perm [OF m] by simp
qed

lemma insert_by_rank_eq:
  "insert_by_rank rank j js = rev (dropWhile (\<lambda>c. rank j < rank c) (rev js)) @ j # rev (takeWhile (\<lambda>c. rank j < rank c) (rev js))"
proof -
  define w where "w = takeWhile (\<lambda>c. rank j < rank c) (rev js)"
  define z where "z = dropWhile (\<lambda>c. rank j < rank c) (rev js)"
  have "rev js = w @ z" by (simp add: w_def z_def)
  then have "js = rev z @ rev w" by (metis rev_append rev_rev_ident)
  then have "take (length js - length w) js = rev z" by simp
  then show ?thesis unfolding insert_by_rank_def Let_def w_def [symmetric] z_def [symmetric] by simp
qed

lemma insert_by_rank_mset: "mset (insert_by_rank rank j js) = mset (j # js)"
proof -
  have "mset js = mset (takeWhile (\<lambda>c. rank j < rank c) (rev js) @ dropWhile (\<lambda>c. rank j < rank c) (rev js))" by simp
  then show ?thesis unfolding insert_by_rank_eq by (simp only: mset_append mset_rev mset.simps) simp
qed

text \<open>A list in the order of the ranks stays so.\<close>

lemma insert_by_rank_sorted:
  assumes "sorted (map rank js)"
  shows "sorted (map rank (insert_by_rank rank j js))"
proof -
  define w where "w = takeWhile (\<lambda>c. rank j < rank c) (rev js)"
  define z where "z = dropWhile (\<lambda>c. rank j < rank c) (rev js)"
  have "rev js = w @ z" by (simp add: w_def z_def)
  then have js: "js = rev z @ rev w" by (metis rev_append rev_rev_ident)
  have w: "\<forall>c \<in> set w. rank j < rank c" unfolding w_def using set_takeWhileD by fastforce
  have z: "rank c \<le> rank j" if "c \<in> set z" for c
  proof -
    obtain d z' where d: "z = d # z'" using \<open>c \<in> set z\<close> by (cases z) auto
    then have "\<not> rank j < rank d" by (simp add: z_def) (metis hd_dropWhile list.sel(1) list.simps(3))
    moreover have "rank c \<le> rank d" using assms that by (auto simp: js d sorted_append)
    ultimately show ?thesis by simp
  qed
  have "insert_by_rank rank j js = rev z @ j # rev w" by (simp add: insert_by_rank_eq w_def z_def)
  then show ?thesis using assms w z by (auto simp: js sorted_append less_imp_le)
qed

section \<open>The numbers are right\<close>

definition queue_ok :: "(nat \<Rightarrow> sjob) \<Rightarrow> nat list \<Rightarrow> string \<Rightarrow> pbs_queue \<Rightarrow> bool" where
  "queue_ok jobs js q pque \<longleftrightarrow> distinct (qu_jobs pque) \<and> qu_numjobs pque = int (length (qu_jobs pque)) \<and>
     tally (\<lambda>j. js_state (jobs j)) (qu_jobs pque) (qu_njstate pque) \<and> set (qu_jobs pque) = {j \<in> set js. js_qhdr (jobs j) = Some q}"

definition counts_ok :: "srv \<Rightarrow> bool" where
  "counts_ok s \<longleftrightarrow> distinct (sv_alljobs s) \<and> sv_numjobs s = int (length (sv_alljobs s)) \<and>
     tally (\<lambda>j. js_state (sv_jobs s j)) (sv_alljobs s) (sv_jobstates s) \<and>
     (\<forall>q pque. sv_queues s q = Some pque \<longrightarrow> queue_ok (sv_jobs s) (sv_alljobs s) q pque) \<and>
     (\<forall>j \<in> set (sv_alljobs s). js_substate (sv_jobs s j) \<noteq> JOB_SUBSTATE_TRANSICM \<and>
        (\<forall>q. js_qhdr (sv_jobs s j) = Some q \<longrightarrow> sv_queues s q \<noteq> None))"

lemma call_frame [simp]:
  "sv_jobs (call cs s) = sv_jobs s" "sv_alljobs (call cs s) = sv_alljobs s" "sv_queues (call cs s) = sv_queues s"
  "sv_numjobs (call cs s) = sv_numjobs s" "sv_jobstates (call cs s) = sv_jobstates s"
  by (simp_all add: call_def)

lemma upd_job_frame [simp]:
  "sv_jobs (upd_job j f s) = (sv_jobs s)(j := f (sv_jobs s j))" "sv_alljobs (upd_job j f s) = sv_alljobs s" "sv_queues (upd_job j f s) = sv_queues s"
  "sv_numjobs (upd_job j f s) = sv_numjobs s" "sv_jobstates (upd_job j f s) = sv_jobstates s"
  by (simp_all add: upd_job_def)

lemma upd_queue_frame [simp]:
  "sv_queues (upd_queue q g s) = (sv_queues s)(q := map_option g (sv_queues s q))" "sv_alljobs (upd_queue q g s) = sv_alljobs s" "sv_jobs (upd_queue q g s) = sv_jobs s"
  "sv_numjobs (upd_queue q g s) = sv_numjobs s" "sv_jobstates (upd_queue q g s) = sv_jobstates s"
  by (simp_all add: upd_queue_def)

text \<open>Calls, and changes of other fields of a job, leave the numbers as they are; so does any change of a job that is not linked.\<close>

lemma counts_ok_call [simp]: "counts_ok (call cs s) = counts_ok s"
  by (simp add: counts_ok_def call_def)

lemma put_array_frame [simp]: "js_state (put_array a p) = js_state p" "js_qhdr (put_array a p) = js_qhdr p" "js_substate (put_array a p) = js_substate p"
  by (simp_all add: put_array_def)

text \<open>What concerns a subjob's array leaves the lists, the numbers and the states of all jobs alone.\<close>

lemma tell_parent_frame [simp]:
  "sv_alljobs (tell_parent env j n s) = sv_alljobs s" "sv_numjobs (tell_parent env j n s) = sv_numjobs s" "sv_jobstates (tell_parent env j n s) = sv_jobstates s"
  "sv_queues (tell_parent env j n s) = sv_queues s" "js_state (sv_jobs (tell_parent env j n s) i) = js_state (sv_jobs s i)"
  "js_qhdr (sv_jobs (tell_parent env j n s) i) = js_qhdr (sv_jobs s i)" "js_substate (sv_jobs (tell_parent env j n s) i) = js_substate (sv_jobs s i)"
  by (auto simp: tell_parent_def Let_def split: option.splits prod.splits done_check.splits)

lemma upd_job_other:
  assumes "\<And>p. js_state (f p) = js_state p" "\<And>p. js_qhdr (f p) = js_qhdr p" "\<And>p. js_substate (f p) = js_substate p"
  shows "counts_ok (upd_job j f s) = counts_ok s"
proof -
  have "js_state (sv_jobs (upd_job j f s) i) = js_state (sv_jobs s i)" "js_qhdr (sv_jobs (upd_job j f s) i) = js_qhdr (sv_jobs s i)"
    "js_substate (sv_jobs (upd_job j f s) i) = js_substate (sv_jobs s i)" for i
    using assms by (simp_all add: upd_job_def)
  moreover have "sv_alljobs (upd_job j f s) = sv_alljobs s" "sv_numjobs (upd_job j f s) = sv_numjobs s" "sv_jobstates (upd_job j f s) = sv_jobstates s"
    "sv_queues (upd_job j f s) = sv_queues s" by (simp_all add: upd_job_def)
  ultimately show ?thesis by (simp only: counts_ok_def queue_ok_def)
qed

lemma queue_ok_cong:
  assumes "\<And>i. i \<in> set js \<Longrightarrow> js_state (jobs i) = js_state (jobs' i) \<and> js_qhdr (jobs i) = js_qhdr (jobs' i)"
  shows "queue_ok jobs js q pque = queue_ok jobs' js q pque"
proof -
  have e: "{j \<in> set js. js_qhdr (jobs j) = Some q} = {j \<in> set js. js_qhdr (jobs' j) = Some q}" using assms by auto
  have "set (qu_jobs pque) \<subseteq> set js \<Longrightarrow> tally (\<lambda>j. js_state (jobs j)) (qu_jobs pque) (qu_njstate pque) = tally (\<lambda>j. js_state (jobs' j)) (qu_jobs pque) (qu_njstate pque)"
    using assms by (intro tally_cong) auto
  then show ?thesis unfolding queue_ok_def e by auto
qed

lemma upd_job_unlinked:
  assumes "j \<notin> set (sv_alljobs s)"
  shows "counts_ok (upd_job j f s) = counts_ok s"
proof -
  let ?s = "upd_job j f s"
  have e: "sv_jobs ?s i = sv_jobs s i" if "i \<in> set (sv_alljobs s)" for i using that assms by (auto simp: upd_job_def)
  have l: "sv_alljobs ?s = sv_alljobs s" "sv_numjobs ?s = sv_numjobs s" "sv_jobstates ?s = sv_jobstates s" "sv_queues ?s = sv_queues s" by (simp_all add: upd_job_def)
  have "tally (\<lambda>i. js_state (sv_jobs ?s i)) (sv_alljobs s) ct = tally (\<lambda>i. js_state (sv_jobs s i)) (sv_alljobs s) ct" for ct using e by (intro tally_cong) simp
  moreover have "queue_ok (sv_jobs ?s) (sv_alljobs s) q pque = queue_ok (sv_jobs s) (sv_alljobs s) q pque" for q pque using e by (intro queue_ok_cong) simp
  ultimately show ?thesis using e by (simp add: counts_ok_def l)
qed

lemma queue_ok_frame:
  assumes "queue_ok jobs js q pque" "j \<notin> set js" "js_qhdr p \<noteq> Some q" "set js' = insert j (set js)"
  shows "queue_ok (jobs(j := p)) js' q pque"
proof -
  have "queue_ok (jobs(j := p)) js q pque" using assms(1,2) by (subst queue_ok_cong [where jobs' = jobs]) auto
  then show ?thesis using assms(2-4) by (auto simp: queue_ok_def)
qed

section \<open>Entering\<close>

lemma counts_cong:
  assumes "sv_jobs s = sv_jobs t" "sv_alljobs s = sv_alljobs t" "sv_queues s = sv_queues t" "sv_numjobs s = sv_numjobs t" "sv_jobstates s = sv_jobstates t"
  shows "counts_ok s = counts_ok t"
  by (simp add: counts_ok_def assms)

lemma enque_lists_ok:
  assumes "counts_ok s" "j \<notin> set (sv_alljobs s)" "sv_queues s q = Some pque" "0 \<le> js_state (sv_jobs s j)" "js_state (sv_jobs s j) < int PBS_NUMJOBSTATE"
    "js_substate (sv_jobs s j) \<noteq> JOB_SUBSTATE_TRANSICM"
  shows "counts_ok (enque_lists q j s)"
proof -
  let ?st = "\<lambda>i. js_state (sv_jobs s i)" and ?rank = "\<lambda>i. js_qrank (sv_jobs s i)" and ?p = "(sv_jobs s j)\<lparr>js_qhdr := Some q\<rparr>"
  let ?all = "insert_by_rank ?rank j (sv_alljobs s)" and ?qj = "insert_by_rank ?rank j (qu_jobs pque)"
  let ?pque = "pque\<lparr>qu_jobs := ?qj, qu_numjobs := qu_numjobs pque + 1, qu_njstate := bump (?st j) 1 (qu_njstate pque)\<rparr>"
  let ?s = "enque_lists q j s"
  have s: "sv_alljobs ?s = ?all" "sv_numjobs ?s = sv_numjobs s + 1" "sv_jobstates ?s = bump (?st j) 1 (sv_jobstates s)"
    "sv_jobs ?s = (sv_jobs s)(j := ?p)" "sv_queues ?s = (sv_queues s)(q \<mapsto> ?pque)"
    by (simp_all add: enque_lists_def Let_def upd_queue_def upd_job_def call_def assms(3))
  have st: "js_state (((sv_jobs s)(j := ?p)) i) = ?st i" "js_substate (((sv_jobs s)(j := ?p)) i) = js_substate (sv_jobs s i)" for i by simp_all
  have m: "mset ?all = mset (j # sv_alljobs s)" "mset ?qj = mset (j # qu_jobs pque)" by (simp_all only: insert_by_rank_mset)
  have qo: "queue_ok (sv_jobs s) (sv_alljobs s) q pque" using assms(1,3) by (simp add: counts_ok_def)
  have sets: "set ?all = insert j (set (sv_alljobs s))" "set ?qj = insert j (set (qu_jobs pque))" using m [THEN mset_eq_setD] by simp_all
  have len: "length ?all = length (sv_alljobs s) + 1" "length ?qj = length (qu_jobs pque) + 1" using m [THEN mset_eq_length] by simp_all
  have jq: "j \<notin> set (qu_jobs pque)" using qo assms(2) by (auto simp: queue_ok_def)
  have d: "distinct ?all" "distinct ?qj" using mset_eq_imp_distinct_iff [OF m(1)] mset_eq_imp_distinct_iff [OF m(2)] assms(1,2) qo jq by (simp_all add: counts_ok_def queue_ok_def)
  have "tally ?st ?all (bump (?st j) 1 (sv_jobstates s))"
    using tally_add [of ?st "sv_alljobs s" "sv_jobstates s" j] tally_perm [OF m(1)] assms by (simp add: counts_ok_def)
  moreover have "tally ?st ?qj (bump (?st j) 1 (qu_njstate pque))"
    using tally_add [of ?st "qu_jobs pque" "qu_njstate pque" j] tally_perm [OF m(2)] assms qo by (simp add: queue_ok_def)
  then have "queue_ok ((sv_jobs s)(j := ?p)) ?all q ?pque" using qo d(2) len(2) sets assms(2) unfolding queue_ok_def st by auto
  moreover have "queue_ok ((sv_jobs s)(j := ?p)) ?all q' pque'" if "sv_queues s q' = Some pque'" "q' \<noteq> q" for q' pque'
    using assms(1) that by (intro queue_ok_frame [OF _ assms(2) _ sets(1)]) (auto simp: counts_ok_def)
  moreover have "\<forall>i \<in> set ?all. js_substate (sv_jobs s i) \<noteq> JOB_SUBSTATE_TRANSICM \<and> (\<forall>q'. js_qhdr (((sv_jobs s)(j := ?p)) i) = Some q' \<longrightarrow> ((sv_queues s)(q \<mapsto> ?pque)) q' \<noteq> None)"
    using assms(1,6) unfolding sets(1) by (auto simp: counts_ok_def)
  ultimately show ?thesis unfolding counts_ok_def s st using d(1) len(1) assms(1) by (auto simp: counts_ok_def)
qed

lemma array_states_ok [simp]: "counts_ok (array_states j s) = counts_ok s"
  by (auto simp: array_states_def Let_def upd_job_other split: option.splits)

lemma enque_exec_ok: "counts_ok s \<Longrightarrow> counts_ok (snd (enque_exec env pque j s))"
  by (auto simp: enque_exec_def Let_def upd_job_other)

text \<open>A job that was not linked is counted, whatever \<open>svr_enquejob\<close> returns; only an unknown queue leaves it out.\<close>

lemma enquejob_ok:
  assumes "counts_ok s" "j \<notin> set (sv_alljobs s)" "0 \<le> js_state (sv_jobs s j)" "js_state (sv_jobs s j) < int PBS_NUMJOBSTATE"
    "js_substate (sv_jobs s j) \<noteq> JOB_SUBSTATE_TRANSICM" "sv_queues s (js_queue (sv_jobs s j)) = None \<longrightarrow> js_qhdr (sv_jobs s j) = None"
  shows "counts_ok (snd (svr_enquejob env j s))"
proof (cases "sv_queues s (js_queue (sv_jobs s j))")
  case None
  let ?t = "s\<lparr>sv_alljobs := sv_alljobs s @ [j], sv_numjobs := sv_numjobs s + 1, sv_jobstates := bump (js_state (sv_jobs s j)) 1 (sv_jobstates s)\<rparr>"
  have m: "mset (sv_alljobs s @ [j]) = mset (j # sv_alljobs s)" by simp
  have "tally (\<lambda>i. js_state (sv_jobs s i)) (sv_alljobs s @ [j]) (bump (js_state (sv_jobs s j)) 1 (sv_jobstates s))"
    using tally_add [of "\<lambda>i. js_state (sv_jobs s i)" "sv_alljobs s" "sv_jobstates s" j] tally_perm [OF m] assms(1,3,4) by (simp add: counts_ok_def)
  moreover have "queue_ok (sv_jobs s) (sv_alljobs s @ [j]) q pque" if "sv_queues s q = Some pque" for q pque
  proof -
    have "queue_ok (sv_jobs s) (sv_alljobs s) q pque" using assms(1) that by (simp add: counts_ok_def)
    then show ?thesis using None assms(6) by (auto simp: queue_ok_def)
  qed
  ultimately have "counts_ok ?t" using assms(1,2,5,6) None by (auto simp: counts_ok_def)
  moreover have "counts_ok ((call [Avl_Oper j False] (s\<lparr>sv_alljobs := sv_alljobs s @ [j]\<rparr>))\<lparr>sv_numjobs := sv_numjobs s + 1,
      sv_jobstates := bump (js_state (sv_jobs s j)) 1 (sv_jobstates s)\<rparr>) = counts_ok ?t" by (rule counts_cong) simp_all
  ultimately show ?thesis using None assms(1,2) by (simp add: svr_enquejob_def Let_def)
next
  case (Some pque)
  note e = enque_lists_ok [OF assms(1,2) Some assms(3-5)]
  show ?thesis using e by (auto simp: svr_enquejob_def Let_def Some upd_job_other intro!: enque_exec_ok split: option.splits)
qed

section \<open>Leaving\<close>

lemma tally_nonneg: "tally f xs ct \<Longrightarrow> s < PBS_NUMJOBSTATE \<Longrightarrow> 0 \<le> ct ! s"
  by (simp add: tally_def)

text \<open>The state after the lists are left: no count is negative.\<close>

lemma leave_all:
  assumes "counts_ok s" "j \<in> set (sv_alljobs s)" "js_qhdr (sv_jobs s j) = None"
  shows "counts_ok (s\<lparr>sv_alljobs := remove1 j (sv_alljobs s), sv_numjobs := sv_numjobs s - 1, sv_jobstates := bump (js_state (sv_jobs s j)) (- 1) (sv_jobstates s)\<rparr>)"
proof -
  have m: "mset (sv_alljobs s) = mset (j # remove1 j (sv_alljobs s))" using assms(2) by simp
  have d: "distinct (sv_alljobs s)" using assms(1) by (simp add: counts_ok_def)
  have "tally (\<lambda>i. js_state (sv_jobs s i)) (remove1 j (sv_alljobs s)) (bump (js_state (sv_jobs s j)) (- 1) (sv_jobstates s))"
    using tally_del [of "\<lambda>i. js_state (sv_jobs s i)" j "remove1 j (sv_alljobs s)" "sv_jobstates s"] tally_perm [OF m] assms(1) by (simp add: counts_ok_def)
  moreover have "queue_ok (sv_jobs s) (remove1 j (sv_alljobs s)) q pque" if "queue_ok (sv_jobs s) (sv_alljobs s) q pque" for q pque
    using that d assms(3) by (auto simp: queue_ok_def set_remove1_eq)
  moreover have "length (sv_alljobs s) \<ge> 1" using assms(2) by (cases "sv_alljobs s") auto
  ultimately show ?thesis using assms(1,2) d by (auto simp: counts_ok_def length_remove1 set_remove1_eq of_nat_diff)
qed

lemma leave_queue:
  assumes "counts_ok s" "j \<in> set (sv_alljobs s)" "js_qhdr (sv_jobs s j) = Some q" "sv_queues s q = Some pque"
  shows "j \<in> set (qu_jobs pque)" "counts_ok (upd_job j (\<lambda>p. p\<lparr>js_qhdr := None\<rparr>) (upd_queue q (\<lambda>pque. pque\<lparr>qu_jobs := remove1 j (qu_jobs pque), qu_numjobs := qu_numjobs pque - 1,
      qu_njstate := bump (js_state (sv_jobs s j)) (- 1) (qu_njstate pque)\<rparr>) s))"
proof -
  let ?st = "\<lambda>i. js_state (sv_jobs s i)"
  define jobs where "jobs = (sv_jobs s)(j := (sv_jobs s j)\<lparr>js_qhdr := None\<rparr>)"
  define qs where "qs = (sv_queues s)(q \<mapsto> pque\<lparr>qu_jobs := remove1 j (qu_jobs pque), qu_numjobs := qu_numjobs pque - 1, qu_njstate := bump (?st j) (- 1) (qu_njstate pque)\<rparr>)"
  have qo: "queue_ok (sv_jobs s) (sv_alljobs s) q pque" using assms(1,4) by (simp add: counts_ok_def)
  then show jq: "j \<in> set (qu_jobs pque)" using assms(2,3) by (auto simp: queue_ok_def)
  have st: "js_state (jobs i) = ?st i" "js_substate (jobs i) = js_substate (sv_jobs s i)" "js_qhdr (jobs i) = (if i = j then None else js_qhdr (sv_jobs s i))" for i
    by (simp_all add: jobs_def)
  have m: "mset (qu_jobs pque) = mset (j # remove1 j (qu_jobs pque))" using jq by simp
  have "tally ?st (remove1 j (qu_jobs pque)) (bump (?st j) (- 1) (qu_njstate pque))"
    using tally_del [of ?st j "remove1 j (qu_jobs pque)" "qu_njstate pque"] tally_perm [OF m] qo by (simp add: queue_ok_def)
  moreover have "length (qu_jobs pque) \<ge> 1" using jq by (cases "qu_jobs pque") auto
  ultimately have "queue_ok jobs (sv_alljobs s) q (the (qs q))" using qo jq
    by (auto simp: queue_ok_def st qs_def length_remove1 set_remove1_eq of_nat_diff)
  moreover have "queue_ok jobs (sv_alljobs s) q' pque'" if "queue_ok (sv_jobs s) (sv_alljobs s) q' pque'" "q' \<noteq> q" for q' pque'
    using that assms(3) by (auto simp: queue_ok_def st)
  ultimately have "\<forall>q' pque'. qs q' = Some pque' \<longrightarrow> queue_ok jobs (sv_alljobs s) q' pque'"
    using assms(1) by (auto simp: counts_ok_def qs_def split: if_splits)
  moreover have "\<forall>i \<in> set (sv_alljobs s). js_substate (jobs i) \<noteq> JOB_SUBSTATE_TRANSICM \<and> (\<forall>q'. js_qhdr (jobs i) = Some q' \<longrightarrow> qs q' \<noteq> None)"
    using assms(1) by (auto simp: counts_ok_def st qs_def split: if_splits)
  ultimately have "counts_ok (s\<lparr>sv_jobs := jobs, sv_queues := qs\<rparr>)" using assms(1) by (simp add: counts_ok_def st)
  moreover have "upd_job j (\<lambda>p. p\<lparr>js_qhdr := None\<rparr>) (upd_queue q (\<lambda>pque. pque\<lparr>qu_jobs := remove1 j (qu_jobs pque), qu_numjobs := qu_numjobs pque - 1,
      qu_njstate := bump (js_state (sv_jobs s j)) (- 1) (qu_njstate pque)\<rparr>) s) = s\<lparr>sv_jobs := jobs, sv_queues := qs\<rparr>"
    by (simp add: upd_job_def upd_queue_def assms(4) jobs_def qs_def)
  ultimately show "counts_ok (upd_job j (\<lambda>p. p\<lparr>js_qhdr := None\<rparr>) (upd_queue q (\<lambda>pque. pque\<lparr>qu_jobs := remove1 j (qu_jobs pque), qu_numjobs := qu_numjobs pque - 1,
      qu_njstate := bump (js_state (sv_jobs s j)) (- 1) (qu_njstate pque)\<rparr>) s))" by simp
qed

lemma dequejob_ok:
  assumes "counts_ok s"
  shows "counts_ok (svr_dequejob env j s)"
proof (cases "j \<in> set (sv_alljobs s)")
  case False
  have "j \<notin> set (qu_jobs pque)" if "sv_queues s q = Some pque" for q pque
    using assms that False by (auto simp: counts_ok_def queue_ok_def)
  then show ?thesis using False assms
    by (auto simp: svr_dequejob_def Let_def upd_job_unlinked split: option.splits)
next
  case True
  let ?st = "js_state (sv_jobs s j)"
  have st: "nat ?st < PBS_NUMJOBSTATE" using assms True by (auto simp: counts_ok_def tally_def)
  show ?thesis
  proof (cases "js_qhdr (sv_jobs s j)")
    case None
    let ?t = "s\<lparr>sv_alljobs := remove1 j (sv_alljobs s), sv_numjobs := sv_numjobs s - 1, sv_jobstates := bump ?st (- 1) (sv_jobstates s)\<rparr>"
    have t: "counts_ok ?t" by (rule leave_all [OF assms True None])
    then have "0 \<le> sv_numjobs ?t" "0 \<le> sv_jobstates ?t ! nat ?st" using st by (auto simp only: counts_ok_def intro: tally_nonneg)
    then have "svr_dequejob env j s = call [Clear_Default_Resc j] (upd_job j (\<lambda>p. p\<lparr>js_qtime := None\<rparr>) (call [Unlic_Delete j, Avl_Oper j True] ?t))"
      using None True by (simp add: svr_dequejob_def Let_def)
    then show ?thesis using t by (simp add: upd_job_other)
  next
    case (Some q)
    have "sv_queues s q \<noteq> None" using assms True Some unfolding counts_ok_def by blast
    then obtain pque where q: "sv_queues s q = Some pque" by blast
    note lq = leave_queue [OF assms True Some q]
    let ?g = "\<lambda>pque. pque\<lparr>qu_jobs := remove1 j (qu_jobs pque), qu_numjobs := qu_numjobs pque - 1, qu_njstate := bump ?st (- 1) (qu_njstate pque)\<rparr>"
    let ?u = "upd_job j (\<lambda>p. p\<lparr>js_qhdr := None\<rparr>) (upd_queue q ?g s)"
    let ?t = "?u\<lparr>sv_alljobs := remove1 j (sv_alljobs ?u), sv_numjobs := sv_numjobs ?u - 1, sv_jobstates := bump (js_state (sv_jobs ?u j)) (- 1) (sv_jobstates ?u)\<rparr>"
    have t: "counts_ok ?t" by (rule leave_all [OF lq(2)]) (simp_all add: True)
    have "sv_queues ?t q = Some (?g pque)" by (simp add: q)
    then have "queue_ok (sv_jobs ?t) (sv_alljobs ?t) q (?g pque)" using t by (simp only: counts_ok_def)
    then have "0 \<le> qu_numjobs (?g pque)" "0 \<le> qu_njstate (?g pque) ! nat ?st" using st by (auto simp only: queue_ok_def intro: tally_nonneg)
    moreover have "0 \<le> sv_numjobs ?t" "0 \<le> sv_jobstates ?t ! nat ?st" using t st by (auto simp only: counts_ok_def intro: tally_nonneg)
    ultimately obtain x where x: "svr_dequejob env j s = call [Clear_Default_Resc j] (upd_job j (\<lambda>p. p\<lparr>js_qtime := None\<rparr>) x)" and
      "sv_jobs x = sv_jobs ?t" "sv_alljobs x = sv_alljobs ?t" "sv_queues x = sv_queues ?t" "sv_numjobs x = sv_numjobs ?t" "sv_jobstates x = sv_jobstates ?t"
      using Some True q lq(1) by (simp add: svr_dequejob_def Let_def)
    then have "counts_ok x" using t counts_cong by blast
    then show ?thesis using x by (simp add: upd_job_other)
  qed
qed

section \<open>Changing state\<close>

text \<open>The counts of the server and of the queue of the job move from one state to another.\<close>

definition moved_queues :: "srv \<Rightarrow> nat \<Rightarrow> int \<Rightarrow> string \<Rightarrow> pbs_queue option" where
  "moved_queues s j n =
     (case js_qhdr (sv_jobs s j) of None \<Rightarrow> sv_queues s
      | Some q \<Rightarrow> (sv_queues s)(q := map_option (\<lambda>pque. pque\<lparr>qu_njstate := bump n 1 (bump (js_state (sv_jobs s j)) (- 1) (qu_njstate pque))\<rparr>) (sv_queues s q)))"

lemma change_counts_fields:
  assumes "change_counts env j n ns s = (s', n', ch)" "js_state (sv_jobs s j) \<noteq> n"
  shows "sv_alljobs s' = sv_alljobs s" "sv_numjobs s' = sv_numjobs s" "sv_jobstates s' = bump n 1 (bump (js_state (sv_jobs s j)) (- 1) (sv_jobstates s))"
    "sv_queues s' = moved_queues s j n" "js_state (sv_jobs s' i) = js_state (sv_jobs s i)" "js_qhdr (sv_jobs s' i) = js_qhdr (sv_jobs s i)"
    "js_substate (sv_jobs s' i) = js_substate (sv_jobs s i)"
    "n' = (if js_svrflags (sv_jobs s j) AND JOB_SVFLG_SubJob \<noteq> 0 \<and> n = JOB_STATE_FINISHED then JOB_STATE_EXPIRED else n)"
  using assms by (auto simp: change_counts_def move_counts_def Let_def moved_queues_def split: option.splits if_splits)

lemma state_moved:
  assumes "counts_ok s" "j \<in> set (sv_alljobs s)" "0 \<le> n" "n < int PBS_NUMJOBSTATE"
    "sv_alljobs t = sv_alljobs s" "sv_numjobs t = sv_numjobs s" "sv_jobstates t = bump n 1 (bump (js_state (sv_jobs s j)) (- 1) (sv_jobstates s))"
    "sv_queues t = moved_queues s j n" "\<And>i. js_state (sv_jobs t i) = (if i = j then n else js_state (sv_jobs s i))" "\<And>i. js_qhdr (sv_jobs t i) = js_qhdr (sv_jobs s i)"
    "\<And>i. i \<in> set (sv_alljobs s) \<Longrightarrow> js_substate (sv_jobs t i) \<noteq> JOB_SUBSTATE_TRANSICM"
  shows "counts_ok t"
proof -
  let ?st = "\<lambda>i. js_state (sv_jobs s i)"
  have f: "(\<lambda>i. js_state (sv_jobs t i)) = ?st(j := n)" using assms(9) by auto
  have "tally (?st(j := n)) (sv_alljobs s) (bump n 1 (bump (?st j) (- 1) (sv_jobstates s)))"
    using assms(1) by (intro tally_change [OF _ _ assms(2-4)]) (auto simp: counts_ok_def)
  moreover have "queue_ok (sv_jobs t) (sv_alljobs s) q pque" if mq: "moved_queues s j n q = Some pque" for q pque
  proof (cases "js_qhdr (sv_jobs s j) = Some q")
    case True
    then obtain p0 where p: "sv_queues s q = Some p0" "pque = p0\<lparr>qu_njstate := bump n 1 (bump (?st j) (- 1) (qu_njstate p0))\<rparr>"
      using mq by (auto simp: moved_queues_def)
    then have qo: "queue_ok (sv_jobs s) (sv_alljobs s) q p0" using assms(1) by (simp add: counts_ok_def)
    then have "tally (?st(j := n)) (qu_jobs p0) (bump n 1 (bump (?st j) (- 1) (qu_njstate p0)))"
      using True assms(2) by (intro tally_change [OF _ _ _ assms(3,4)]) (auto simp: queue_ok_def)
    then show ?thesis using qo by (simp add: queue_ok_def f p(2) assms(10))
  next
    case False
    then have q: "sv_queues s q = Some pque" using mq by (auto simp: moved_queues_def split: option.splits)
    then have qo: "queue_ok (sv_jobs s) (sv_alljobs s) q pque" using assms(1) by (simp add: counts_ok_def)
    then have "j \<notin> set (qu_jobs pque)" using False by (auto simp: queue_ok_def)
    then have "tally (?st(j := n)) (qu_jobs pque) (qu_njstate pque) = tally ?st (qu_jobs pque) (qu_njstate pque)" by (intro tally_cong) auto
    then show ?thesis using qo by (simp add: queue_ok_def f assms(10))
  qed
  moreover have "moved_queues s j n q \<noteq> None" if "sv_queues s q \<noteq> None" for q using that by (auto simp: moved_queues_def split: option.splits)
  ultimately show ?thesis using assms(1,11) unfolding counts_ok_def assms(5-8,10) f by blast
qed

lemma state_kept:
  assumes "counts_ok s" "sv_alljobs t = sv_alljobs s" "sv_numjobs t = sv_numjobs s" "sv_jobstates t = sv_jobstates s" "sv_queues t = sv_queues s"
    "\<And>i. js_state (sv_jobs t i) = js_state (sv_jobs s i)" "\<And>i. js_qhdr (sv_jobs t i) = js_qhdr (sv_jobs s i)"
    "\<And>i. i \<in> set (sv_alljobs s) \<Longrightarrow> js_substate (sv_jobs t i) \<noteq> JOB_SUBSTATE_TRANSICM"
  shows "counts_ok t"
  using assms by (simp add: counts_ok_def queue_ok_def)

text \<open>The fields of the state that matter here, before and after the last part of \<open>svr_setjobstate\<close>.\<close>

lemma eligible_frame [simp]:
  "js_state (snd (update_eligible_time now ty p)) = js_state p" "js_qhdr (snd (update_eligible_time now ty p)) = js_qhdr p"
  "js_substate (snd (update_eligible_time now ty p)) = js_substate p"
  by (auto simp: update_eligible_time_def Let_def split: option.splits)

lemma statechar_frame [simp]: "js_state (set_statechar p) = js_state p" "js_qhdr (set_statechar p) = js_qhdr p" "js_substate (set_statechar p) = js_substate p"
  by (simp_all add: set_statechar_def)

lemma setjobstate_fields:
  assumes "js_state (sv_jobs s j) \<noteq> JOB_STATE_FINISHED"
    "(if js_substate (sv_jobs s j) \<noteq> JOB_SUBSTATE_TRANSICM then change_counts env j n ns s else (s, n, False)) = (s', n', ch)" "t = snd (svr_setjobstate env j n ns s)"
  shows "sv_alljobs t = sv_alljobs s'" "sv_numjobs t = sv_numjobs s'" "sv_jobstates t = sv_jobstates s'" "sv_queues t = sv_queues s'"
    "js_state (sv_jobs t i) = (if i = j then n' else js_state (sv_jobs s' i))" "js_qhdr (sv_jobs t i) = js_qhdr (sv_jobs s' i)"
    "js_substate (sv_jobs t i) = (if i = j then ns else js_substate (sv_jobs s' i))"
  using assms(1) unfolding assms(3) svr_setjobstate_def assms(2) by (simp_all add: Let_def)

text \<open>
  A linked job changes from one state to another with the numbers kept right, unless a subjob is set to finished.
\<close>

lemma setjobstate_linked:
  assumes "counts_ok s" "j \<in> set (sv_alljobs s)" "0 \<le> n" "n < int PBS_NUMJOBSTATE" "ns \<noteq> JOB_SUBSTATE_TRANSICM"
    "\<not> (js_svrflags (sv_jobs s j) AND JOB_SVFLG_SubJob \<noteq> 0 \<and> n = JOB_STATE_FINISHED)"
  shows "counts_ok (snd (svr_setjobstate env j n ns s))"
proof (cases "js_state (sv_jobs s j) = JOB_STATE_FINISHED")
  case True
  then show ?thesis using assms(1) by (simp add: svr_setjobstate_def)
next
  case False
  have tr: "js_substate (sv_jobs s i) \<noteq> JOB_SUBSTATE_TRANSICM" if "i \<in> set (sv_alljobs s)" for i using assms(1) that by (simp add: counts_ok_def)
  obtain s' n' ch where c: "change_counts env j n ns s = (s', n', ch)" by (cases "change_counts env j n ns s") auto
  then have "(if js_substate (sv_jobs s j) \<noteq> JOB_SUBSTATE_TRANSICM then change_counts env j n ns s else (s, n, False)) = (s', n', ch)" using tr [OF assms(2)] by simp
  note t = setjobstate_fields [OF False this refl]
  show ?thesis
  proof (cases "js_state (sv_jobs s j) = n")
    case same: True
    then have "s' = s" "n' = n" using c by (simp_all add: change_counts_def)
    then show ?thesis using t tr assms(5) same by (intro state_kept [OF assms(1)]) auto
  next
    case diff: False
    note f = change_counts_fields [OF c diff]
    then have "n' = n" using assms(6) by auto
    then show ?thesis using t f tr assms(5) by (intro state_moved [OF assms(1-4)]) auto
  qed
qed

lemma setjobstate_new:
  assumes "counts_ok s" "j \<notin> set (sv_alljobs s)" "js_substate (sv_jobs s j) = JOB_SUBSTATE_TRANSICM"
  shows "counts_ok (snd (svr_setjobstate env j n ns s))"
proof (cases "js_state (sv_jobs s j) = JOB_STATE_FINISHED")
  case True
  then show ?thesis using assms(1) by (simp add: svr_setjobstate_def)
next
  case False
  let ?t = "snd (svr_setjobstate env j n ns s)"
  have "(if js_substate (sv_jobs s j) \<noteq> JOB_SUBSTATE_TRANSICM then change_counts env j n ns s else (s, n, False)) = (s, n, False)" using assms(3) by simp
  note t = setjobstate_fields [OF False this refl]
  define u where "u = s\<lparr>sv_jobs := (sv_jobs s)(j := sv_jobs ?t j)\<rparr>"
  have "counts_ok u" using upd_job_unlinked [OF assms(2), of "\<lambda>_. sv_jobs ?t j"] assms(1) by (simp add: u_def upd_job_def)
  moreover have "js_state (sv_jobs ?t i) = js_state (sv_jobs u i)" "js_qhdr (sv_jobs ?t i) = js_qhdr (sv_jobs u i)" "js_substate (sv_jobs ?t i) = js_substate (sv_jobs u i)" for i
    using t(5-7) [of i] by (cases "i = j"; simp add: u_def)+
  moreover have "sv_alljobs ?t = sv_alljobs u" "sv_numjobs ?t = sv_numjobs u" "sv_jobstates ?t = sv_jobstates u" "sv_queues ?t = sv_queues u" using t(1-4) by (simp_all add: u_def)
  ultimately show ?thesis by (simp only: counts_ok_def queue_ok_def) blast
qed

text \<open>
  The history of a server: jobs are allocated with a state of their own choosing and entered, change state and leave; new
  jobs get their first state before they are entered.
\<close>

inductive svr_step :: "srv \<Rightarrow> srv \<Rightarrow> bool" where
  alloc: "j \<notin> set (sv_alljobs s) \<Longrightarrow> svr_step s (s\<lparr>sv_jobs := (sv_jobs s)(j := p)\<rparr>)"
| enque: "j \<notin> set (sv_alljobs s) \<Longrightarrow> 0 \<le> js_state (sv_jobs s j) \<Longrightarrow> js_state (sv_jobs s j) < int PBS_NUMJOBSTATE \<Longrightarrow>
    js_substate (sv_jobs s j) \<noteq> JOB_SUBSTATE_TRANSICM \<Longrightarrow> (sv_queues s (js_queue (sv_jobs s j)) = None \<longrightarrow> js_qhdr (sv_jobs s j) = None) \<Longrightarrow>
    svr_step s (snd (svr_enquejob env j s))"
| deque: "svr_step s (svr_dequejob env j s)"
| first_state: "j \<notin> set (sv_alljobs s) \<Longrightarrow> js_substate (sv_jobs s j) = JOB_SUBSTATE_TRANSICM \<Longrightarrow> svr_step s (snd (svr_setjobstate env j n ns s))"
| next_state: "j \<in> set (sv_alljobs s) \<Longrightarrow> 0 \<le> n \<Longrightarrow> n < int PBS_NUMJOBSTATE \<Longrightarrow> ns \<noteq> JOB_SUBSTATE_TRANSICM \<Longrightarrow>
    \<not> (js_svrflags (sv_jobs s j) AND JOB_SVFLG_SubJob \<noteq> 0 \<and> n = JOB_STATE_FINISHED) \<Longrightarrow> svr_step s (snd (svr_setjobstate env j n ns s))"

lemma step_ok: "svr_step s t \<Longrightarrow> counts_ok s \<Longrightarrow> counts_ok t"
proof (induction rule: svr_step.induct)
  case (alloc j s p)
  then show ?case using upd_job_unlinked [OF alloc(1), of "\<lambda>_. p"] by (simp add: upd_job_def)
qed (auto intro: enquejob_ok dequejob_ok setjobstate_new setjobstate_linked)

lemma steps_ok: "svr_step\<^sup>*\<^sup>* s t \<Longrightarrow> counts_ok s \<Longrightarrow> counts_ok t"
  by (induction rule: rtranclp_induct) (auto intro: step_ok)

section \<open>A subjob set to finished\<close>

lemma bump_nth: "0 \<le> st \<Longrightarrow> nat st < length ct \<Longrightarrow> 0 \<le> k \<Longrightarrow> bump st d ct ! nat k = ct ! nat k + (if k = st then d else 0)"
  by (auto simp: bump_def nth_list_update eq_nat_nat_iff)

text \<open>The job is counted as finished and gets the state expired.\<close>

lemma subjob_finished:
  assumes "counts_ok s" "j \<in> set (sv_alljobs s)" "js_svrflags (sv_jobs s j) AND JOB_SVFLG_SubJob \<noteq> 0" "js_state (sv_jobs s j) \<noteq> JOB_STATE_FINISHED"
  shows "js_state (sv_jobs (snd (svr_setjobstate env j JOB_STATE_FINISHED ns s)) j) = JOB_STATE_EXPIRED"
    "sv_jobstates (snd (svr_setjobstate env j JOB_STATE_FINISHED ns s)) ! 6 =
     int (length (filter (\<lambda>i. js_state (sv_jobs (snd (svr_setjobstate env j JOB_STATE_FINISHED ns s)) i) = JOB_STATE_EXPIRED) (sv_alljobs s))) - 1"
proof -
  let ?t = "snd (svr_setjobstate env j JOB_STATE_FINISHED ns s)" and ?st = "\<lambda>i. js_state (sv_jobs s i)"
  have tr: "js_substate (sv_jobs s j) \<noteq> JOB_SUBSTATE_TRANSICM" and ta: "tally ?st (sv_alljobs s) (sv_jobstates s)" and d: "distinct (sv_alljobs s)" using assms(1,2) by (auto simp: counts_ok_def)
  obtain s' n' ch where c: "change_counts env j JOB_STATE_FINISHED ns s = (s', n', ch)" by (cases "change_counts env j JOB_STATE_FINISHED ns s") auto
  then have "(if js_substate (sv_jobs s j) \<noteq> JOB_SUBSTATE_TRANSICM then change_counts env j JOB_STATE_FINISHED ns s else (s, JOB_STATE_FINISHED, False)) = (s', n', ch)" using tr by simp
  note t = setjobstate_fields [OF assms(4) this refl] and f = change_counts_fields [OF c assms(4)]
  show "js_state (sv_jobs ?t j) = JOB_STATE_EXPIRED" using t(5) f(8) assms(3) by simp
  have e: "js_state (sv_jobs ?t i) = (?st(j := JOB_STATE_EXPIRED)) i" for i using t(5) [of i] f(5) [of i] f(8) assms(3) by simp
  have "tally (?st(j := JOB_STATE_EXPIRED)) (sv_alljobs s) (bump JOB_STATE_EXPIRED 1 (bump (?st j) (- 1) (sv_jobstates s)))"
    using tally_change [OF ta d assms(2), of JOB_STATE_EXPIRED] by simp
  then have "bump JOB_STATE_EXPIRED 1 (bump (?st j) (- 1) (sv_jobstates s)) ! 6 = int (length (filter (\<lambda>i. (?st(j := JOB_STATE_EXPIRED)) i = int 6) (sv_alljobs s)))"
    unfolding tally_def by (elim conjE allE [of _ 6]) simp
  then have "int (length (filter (\<lambda>i. js_state (sv_jobs ?t i) = JOB_STATE_EXPIRED) (sv_alljobs s))) = bump JOB_STATE_EXPIRED 1 (bump (?st j) (- 1) (sv_jobstates s)) ! 6"
    unfolding e by simp
  moreover have "sv_jobstates ?t = bump JOB_STATE_FINISHED 1 (bump (?st j) (- 1) (sv_jobstates s))" using t(3) f(3) by simp
  moreover have "length (bump (?st j) (- 1) (sv_jobstates s)) = PBS_NUMJOBSTATE" using ta by (simp add: tally_def bump_def)
  ultimately show "sv_jobstates ?t ! 6 = int (length (filter (\<lambda>i. js_state (sv_jobs ?t i) = JOB_STATE_EXPIRED) (sv_alljobs s))) - 1"
    using bump_nth [of 6 "bump (?st j) (- 1) (sv_jobstates s)" 6 1] bump_nth [of 9 "bump (?st j) (- 1) (sv_jobstates s)" 6 1] by simp
qed

lemma setjobstate_alljobs: "sv_alljobs (snd (svr_setjobstate env j n ns s)) = sv_alljobs s"
proof (cases "js_state (sv_jobs s j) = JOB_STATE_FINISHED")
  case False
  obtain s' n' ch where c: "(if js_substate (sv_jobs s j) \<noteq> JOB_SUBSTATE_TRANSICM then change_counts env j n ns s else (s, n, False)) = (s', n', ch)"
    by (metis prod_cases3)
  have "sv_alljobs s' = sv_alljobs s" using c by (auto simp: change_counts_def move_counts_def Let_def split: option.splits if_splits)
  then show ?thesis using setjobstate_fields(1) [OF False c refl] by simp
qed (simp add: svr_setjobstate_def)

section \<open>Counting again\<close>

lemma count_jobs_server:
  "length (sv_jobstates s) = PBS_NUMJOBSTATE \<Longrightarrow> \<forall>j \<in> set js. 0 \<le> js_state (sv_jobs s j) \<and> js_state (sv_jobs s j) < int PBS_NUMJOBSTATE \<Longrightarrow>
    sv_numjobs (foldl count_job s js) = sv_numjobs s + int (length js) \<and>
    (k < PBS_NUMJOBSTATE \<longrightarrow> sv_jobstates (foldl count_job s js) ! k = sv_jobstates s ! k + int (length (filter (\<lambda>j. js_state (sv_jobs s j) = int k) js)))"
proof (induction js arbitrary: s)
  case (Cons j js)
  have f: "sv_jobs (count_job s j) = sv_jobs s" "sv_numjobs (count_job s j) = sv_numjobs s + 1" "sv_jobstates (count_job s j) = bump (js_state (sv_jobs s j)) 1 (sv_jobstates s)"
    by (simp_all add: count_job_def Let_def split: option.splits)
  have l: "length (sv_jobstates (count_job s j)) = PBS_NUMJOBSTATE" using Cons.prems by (simp add: f bump_def)
  have "k < PBS_NUMJOBSTATE \<Longrightarrow> bump (js_state (sv_jobs s j)) 1 (sv_jobstates s) ! k = sv_jobstates s ! k + (if int k = js_state (sv_jobs s j) then 1 else 0)"
    using bump_nth [of "js_state (sv_jobs s j)" "sv_jobstates s" "int k" 1] Cons.prems by (simp add: nat_less_iff)
  then show ?case using Cons.IH [OF l] Cons.prems by (auto simp: f)
qed simp

text \<open>
  \<open>correct_ct\<close> restores the number of jobs and the counts of the first six states; in the others the jobs are added to what
  was there.
\<close>

lemma correct_ct_counts:
  assumes "length (sv_jobstates s) = PBS_NUMJOBSTATE" "\<forall>j \<in> set (sv_alljobs s). 0 \<le> js_state (sv_jobs s j) \<and> js_state (sv_jobs s j) < int PBS_NUMJOBSTATE" "k < PBS_NUMJOBSTATE"
  shows "sv_numjobs (correct_ct s) = int (length (sv_alljobs s))"
    "sv_jobstates (correct_ct s) ! k = (if k < 6 then 0 else sv_jobstates s ! k) + int (length (filter (\<lambda>j. js_state (sv_jobs s j) = int k) (sv_alljobs s)))"
  using count_jobs_server [of "s\<lparr>sv_numjobs := 0, sv_jobstates := zero_six (sv_jobstates s),
     sv_queues := (\<lambda>q. map_option (\<lambda>pque. pque\<lparr>qu_numjobs := 0, qu_njstate := zero_six (qu_njstate pque)\<rparr>) (sv_queues s q))\<rparr>" "sv_alljobs s" k] assms
  by (auto simp: correct_ct_def zero_six_def nth_append)

section \<open>The state a job should have\<close>

lemma evaljobstate_stable:
  "svr_evaljobstate now p f = (st, sub) \<Longrightarrow> svr_evaljobstate now (p\<lparr>js_state := st, js_substate := sub\<rparr>) f = (st, sub)"
proof -
  assume e: "svr_evaljobstate now p f = (st, sub)"
  note d = svr_evaljobstate_def Let_def queued_substate_def
  consider (asis) "js_state p = JOB_STATE_MOVED \<or> js_state p = JOB_STATE_FINISHED \<or> \<not> f \<and> (js_state p = JOB_STATE_RUNNING \<or> js_state p = JOB_STATE_TRANSIT)"
    | (eval) "js_state p \<noteq> JOB_STATE_MOVED" "js_state p \<noteq> JOB_STATE_FINISHED" "f \<or> js_state p \<noteq> JOB_STATE_RUNNING \<and> js_state p \<noteq> JOB_STATE_TRANSIT" by blast
  then show ?thesis
  proof cases
    case asis
    then have "st = js_state p" "sub = js_substate p" using e by (auto simp: svr_evaljobstate_def Let_def)
    then show ?thesis using e by simp
  next
    case eval
    consider "js_hold p \<noteq> 0" | "js_hold p = 0" "js_exectime p > now" | (resv) "js_hold p = 0" "\<not> js_exectime p > now" "js_resvp p \<noteq> None \<and> ri_reservation_job (the (js_resvp p))"
      | (none) "js_hold p = 0" "\<not> js_exectime p > now" "\<not> (js_resvp p \<noteq> None \<and> ri_reservation_job (the (js_resvp p)))" by blast
    then show ?thesis
    proof cases
      case resv
      then show ?thesis using eval e by (cases "ri_state (the (js_resvp p)) = RESV_UNCONFIRMED"; cases "ri_stime (the (js_resvp p)) > now") (auto simp: d split: if_splits)
    next
      case none
      then show ?thesis using eval e by (cases "js_stagein p") (auto simp: d split: if_splits option.splits)
    qed (use eval e in \<open>auto simp: d split: if_splits\<close>)
  qed
qed

lemma statechar_inverse:
  assumes "0 \<le> st" "st < int PBS_NUMJOBSTATE"
  shows "state_char2int (statechars ! nat st) = st"
proof -
  have "list_all (\<lambda>i. state_char2int (statechars ! i) = int i) [0..<10]" by code_simp
  then have "nat st \<in> set [0..<10] \<Longrightarrow> state_char2int (statechars ! nat st) = int (nat st)" unfolding list_all_iff by blast
  then show ?thesis using assms by simp
qed

text \<open>Time counts while a job is eligible, and only then.\<close>

lemma eligible_time_accrues:
  assumes "update_eligible_time now ty p = (rc, p')"
  shows "js_eligible_time p' = js_eligible_time p + (if rc = 0 \<and> js_accrue_type p = JOB_ELIGIBLE then now - js_sample_starttime p else 0)"
    "rc = 0 \<longleftrightarrow> (\<exists>a. ty = Some a \<and> a \<noteq> js_accrue_type p)" "rc = 0 \<Longrightarrow> ty = Some (js_accrue_type p') \<and> js_sample_starttime p' = now"
    "rc \<noteq> 0 \<Longrightarrow> p' = p"
  using assms by (auto simp: update_eligible_time_def Let_def split: option.splits if_splits)

section \<open>The array of a subjob that changes state\<close>

lemma tell_parent_table:
  assumes "js_parentaj (sv_jobs s j) = Some pj" "js_ajtrk (sv_jobs s pj) = Some t" "tbl_wf t" "js_subjindx (sv_jobs s j) < length (tkm_tbl t)" "0 \<le> n" "n < int PBS_NUMJOBSTATE"
    "strncmp_eq (js_jobid (sv_jobs s j)) (js_jobid (sv_jobs s pj)) (length (takeWhile (\<lambda>c. c \<noteq> CHR ''['') (js_jobid (sv_jobs s j))) - 1)"
  shows "\<exists>t' cs. js_ajtrk (sv_jobs (tell_parent env j n s) pj) = Some t' \<and> tbl_wf t' \<and>
    map trk_status (tkm_tbl t') = (map trk_status (tkm_tbl t))[js_subjindx (sv_jobs s j) := n] \<and> sv_calls (tell_parent env j n s) = sv_calls s @ cs \<and>
    (tkm_flags t mod 2 = 0 \<longrightarrow> (\<exists>e. Array_Done pj e \<in> set cs) = (\<forall>k \<in> set (tkm_tbl t'). trk_status k \<notin> {JOB_STATE_QUEUED, JOB_STATE_RUNNING, JOB_STATE_EXITING}))"
proof -
  let ?p = "subjob_view (sv_jobs s j)" and ?a = "array_view (sv_jobs s pj)"
  have v: "ji_ajtrk ?a = Some t" "sj_subjindx ?p < length (tkm_tbl t)" "strncmp_eq (sj_jobid ?p) (ji_jobid ?a) (length (takeWhile (\<lambda>c. c \<noteq> CHR ''['') (sj_jobid ?p)) - 1)"
    using assms(2,4,7) by (simp_all add: array_view_def subjob_view_def)
  from update_subjob_table [OF v(1) assms(3) v(2) assms(5,6) v(3), of "env_mal env" "env_history env" "sv_cvt_buf s"]
  obtain a d b t' where u: "update_subjob_state (env_mal env) (env_history env) (sv_cvt_buf s) ?p (Some ?a) n = (Some a, d, b)" "ji_ajtrk a = Some t'" "tbl_wf t'"
    "map trk_status (tkm_tbl t') = (map trk_status (tkm_tbl t))[sj_subjindx ?p := n]" "\<forall>a''. d = Saved a'' \<longrightarrow> ji_ajtrk a'' = Some t'"
    "tkm_flags t mod 2 = 0 \<longrightarrow> (\<exists>e. d = All_Done e) = (\<forall>k \<in> set (tkm_tbl t'). trk_status k \<notin> {JOB_STATE_QUEUED, JOB_STATE_RUNNING, JOB_STATE_EXITING})" by blast
  let ?cs = "case d of Unchanged \<Rightarrow> [] | All_Done e \<Rightarrow> [Array_Done pj e] | Saved _ \<Rightarrow> [Job_Save pj SAVEJOB_FULL]"
  have "js_ajtrk (sv_jobs (tell_parent env j n s) pj) = Some t'"
    using u(2,5) by (cases d) (simp_all add: tell_parent_def assms(1) u(1) put_array_def Let_def)
  moreover have "sv_calls (tell_parent env j n s) = sv_calls s @ ?cs"
    by (cases d) (simp_all add: tell_parent_def assms(1) u(1) call_def upd_job_def Let_def)
  moreover have "(\<exists>e. Array_Done pj e \<in> set ?cs) = (\<exists>e. d = All_Done e)" by (cases d) auto
  ultimately show ?thesis using u(3,4,6) by (intro exI [of _ t'] exI [of _ ?cs]) (simp add: subjob_view_def)
qed

lemma move_counts_calls:
  "\<exists>cs. sv_calls (move_counts env j n s) = sv_calls s @ cs \<and> (\<forall>pj e. Array_Done pj e \<notin> set cs)" "i \<noteq> j \<Longrightarrow> sv_jobs (move_counts env j n s) i = sv_jobs s i"
  "js_parentaj (sv_jobs (move_counts env j n s) j) = js_parentaj (sv_jobs s j)" "js_subjindx (sv_jobs (move_counts env j n s) j) = js_subjindx (sv_jobs s j)"
  "js_jobid (sv_jobs (move_counts env j n s) j) = js_jobid (sv_jobs s j)"
  by (auto simp: move_counts_def Let_def call_def upd_job_def upd_queue_def split: option.splits)

text \<open>The rest of \<open>svr_setjobstate\<close> changes no other job and calls for no end of an array.\<close>

lemma setjobstate_calls:
  assumes "js_state (sv_jobs s j) \<noteq> JOB_STATE_FINISHED" "js_substate (sv_jobs s j) \<noteq> JOB_SUBSTATE_TRANSICM" "change_counts env j n ns s = (s', n', ch)" "i \<noteq> j"
  shows "sv_jobs (snd (svr_setjobstate env j n ns s)) i = sv_jobs s' i \<and>
    (\<exists>cs. sv_calls (snd (svr_setjobstate env j n ns s)) = sv_calls s' @ cs \<and> (\<forall>pj e. Array_Done pj e \<notin> set cs))"
  using assms by (auto simp: svr_setjobstate_def Let_def call_def upd_job_def)

section \<open>Properties\<close>

text \<open>
  C1. The server's numbers of jobs are right. Whatever the order in which jobs are allocated, entered in queues, changed in state
  and removed, the number of jobs of the server and the number in each state, and those of every queue, stay the
  numbers of the jobs in the lists; a queue has exactly the jobs that point to it. The one exception, a subjob set to
  finished, is the subject of the next property.
\<close>

theorem job_counts_right:
  assumes "svr_step\<^sup>*\<^sup>* s t" "counts_ok s"
  shows "counts_ok t \<and> sv_numjobs t = int (length (sv_alljobs t)) \<and>
    (\<forall>k < PBS_NUMJOBSTATE. sv_jobstates t ! k = int (length (filter (\<lambda>j. js_state (sv_jobs t j) = int k) (sv_alljobs t)))) \<and>
    (\<forall>q pque. sv_queues t q = Some pque \<longrightarrow> set (qu_jobs pque) = {j \<in> set (sv_alljobs t). js_qhdr (sv_jobs t j) = Some q} \<and>
      (\<forall>k < PBS_NUMJOBSTATE. qu_njstate pque ! k = int (length (filter (\<lambda>j. js_state (sv_jobs t j) = int k) (qu_jobs pque)))))"
  using steps_ok [OF assms] by (simp add: counts_ok_def queue_ok_def tally_def)

definition workq :: pbs_queue where
  "workq = \<lparr>qu_type = QTYPE_Execution, qu_qtype = Some ''Execution'', qu_started = True, qu_chkmin = blank, qu_numjobs = 0, qu_njstate = replicate PBS_NUMJOBSTATE 0, qu_jobs = []\<rparr>"

definition new_sjob :: sjob where
  "new_sjob = \<lparr>js_jobid = ''1.srv'', js_state = JOB_STATE_QUEUED, js_substate = JOB_SUBSTATE_QUEUED, js_svrflags = JOB_SVFLG_SubJob, js_queue = ''workq'', js_qhdr = None, js_qrank = 1,
     js_in_queue = None, js_queuetype = None, js_qtime = None, js_project = None, js_un = Un_New, js_chkpnt = blank, js_depend = False, js_etime = None, js_stime = None,
     js_ajtrk = None, js_remaining = blank, js_state_count = blank, js_parentaj = None, js_subjindx = 0, js_stageout_status = None, js_exit_status = False, js_hold = 0, js_exectime = 0, js_stagein = False, js_resvp = None, js_statechar = CHR ''Q'', js_accrue_type = JOB_INITIAL, js_eligible_time = 0,
     js_sample_starttime = 0, js_modified = False, js_newjob = False\<rparr>"

definition empty_srv :: srv where
  "empty_srv = \<lparr>sv_numjobs = 0, sv_jobstates = replicate PBS_NUMJOBSTATE 0, sv_alljobs = [], sv_queues = [''workq'' \<mapsto> workq], sv_jobs = (\<lambda>_. new_sjob), sv_cvt_buf = None, sv_calls = []\<rparr>"

definition plain_env :: svr_env where
  "plain_env = \<lparr>env_now = 100, env_init = False, env_eligible = 0, env_scheduling = True, env_sched = (\<lambda>_. True), env_resc_deflt = 0, env_depend = 0, env_save = 0, env_debug = True, env_history = False, env_mal = (\<lambda>_. True)\<rparr>"

definition one_job :: srv where "one_job = snd (svr_enquejob plain_env 0 empty_srv)"

lemma one_job_ok:
  "counts_ok empty_srv" "svr_step empty_srv one_job" "sv_alljobs one_job = [0]" "js_state (sv_jobs one_job 0) = JOB_STATE_QUEUED"
  "js_svrflags (sv_jobs one_job 0) AND JOB_SVFLG_SubJob \<noteq> 0" "js_qhdr (sv_jobs one_job 0) = Some ''workq''" "counts_ok one_job"
proof -
  show c: "counts_ok empty_srv" by (simp add: counts_ok_def empty_srv_def queue_ok_def tally_def workq_def)
  show s: "svr_step empty_srv one_job" unfolding one_job_def by (rule svr_step.enque) (simp_all add: empty_srv_def new_sjob_def)
  show "sv_alljobs one_job = [0]" "js_state (sv_jobs one_job 0) = JOB_STATE_QUEUED" "js_svrflags (sv_jobs one_job 0) AND JOB_SVFLG_SubJob \<noteq> 0"
    "js_qhdr (sv_jobs one_job 0) = Some ''workq''"
    by (simp_all add: one_job_def svr_enquejob_def enque_lists_def enque_exec_def insert_by_rank_def empty_srv_def new_sjob_def workq_def plain_env_def Let_def)
  show "counts_ok one_job" by (rule step_ok [OF s c])
qed

theorem job_counts_right_witness:
  "sv_numjobs one_job = 1 \<and> sv_jobstates one_job ! 1 = 1 \<and>
   counts_ok (snd (svr_setjobstate plain_env 0 JOB_STATE_RUNNING JOB_SUBSTATE_RUNNING one_job)) \<and>
   counts_ok (svr_dequejob plain_env 0 (snd (svr_setjobstate plain_env 0 JOB_STATE_RUNNING JOB_SUBSTATE_RUNNING one_job)))"
proof -
  let ?t = "snd (svr_setjobstate plain_env 0 JOB_STATE_RUNNING JOB_SUBSTATE_RUNNING one_job)"
  have r: "svr_step one_job ?t" by (rule svr_step.next_state) (simp_all add: one_job_ok)
  then have rs: "svr_step\<^sup>*\<^sup>* one_job ?t" by blast
  then have rd: "svr_step\<^sup>*\<^sup>* one_job (svr_dequejob plain_env 0 ?t)" using svr_step.deque by (rule rtranclp.rtrancl_into_rtrancl)
  have e: "svr_step\<^sup>*\<^sup>* empty_srv one_job" using one_job_ok(2) by blast
  have "counts_ok ?t" using job_counts_right [OF rs one_job_ok(7)] by simp
  moreover have "counts_ok (svr_dequejob plain_env 0 ?t)" using job_counts_right [OF rd one_job_ok(7)] by simp
  moreover have "sv_numjobs one_job = 1" "sv_jobstates one_job ! 1 = 1"
  proof -
    note p = job_counts_right [OF e one_job_ok(1)]
    show "sv_numjobs one_job = 1" using p one_job_ok(3) by simp
    have "sv_jobstates one_job ! 1 = int (length (filter (\<lambda>j. js_state (sv_jobs one_job j) = int 1) (sv_alljobs one_job)))"
      using p by (elim conjE allE [of _ 1]) simp
    then show "sv_jobstates one_job ! 1 = 1" using one_job_ok(3,4) by simp
  qed
  ultimately show ?thesis by blast
qed

text \<open>
  C25. How the numbers go wrong. A subjob that \<open>svr_setjobstate\<close> sets to finished is counted in the state finished and then
  given the state expired, so the count of expired jobs is one too few; and \<open>correct_ct\<close>, which the server runs when it finds a
  negative number, restores the total and the counts of the first six states only: to the others it adds the jobs to what
  was there.
\<close>

theorem subjob_finished_miscounted:
  assumes "counts_ok s" "j \<in> set (sv_alljobs s)" "js_svrflags (sv_jobs s j) AND JOB_SVFLG_SubJob \<noteq> 0" "js_state (sv_jobs s j) \<noteq> JOB_STATE_FINISHED"
  shows "let t = snd (svr_setjobstate env j JOB_STATE_FINISHED ns s) in
    js_state (sv_jobs t j) = JOB_STATE_EXPIRED \<and> sv_jobstates t ! 6 = int (length (filter (\<lambda>i. js_state (sv_jobs t i) = JOB_STATE_EXPIRED) (sv_alljobs s))) - 1 \<and>
    \<not> counts_ok t \<and> sv_numjobs (correct_ct s) = int (length (sv_alljobs s)) \<and>
    (\<forall>k < PBS_NUMJOBSTATE. sv_jobstates (correct_ct s) ! k = (if k < 6 then 1 else 2) * int (length (filter (\<lambda>i. js_state (sv_jobs s i) = int k) (sv_alljobs s))))"
proof -
  let ?t = "snd (svr_setjobstate env j JOB_STATE_FINISHED ns s)"
  note f = subjob_finished [OF assms, of env ns]
  have "\<not> counts_ok ?t"
  proof
    assume "counts_ok ?t"
    then have "sv_jobstates ?t ! 6 = int (length (filter (\<lambda>i. js_state (sv_jobs ?t i) = int 6) (sv_alljobs ?t)))"
      unfolding counts_ok_def tally_def by (elim conjE allE [of _ 6]) simp
    moreover have "sv_alljobs ?t = sv_alljobs s" by (rule setjobstate_alljobs)
    ultimately show False using f(2) by simp
  qed
  moreover have w: "length (sv_jobstates s) = PBS_NUMJOBSTATE" "\<forall>j \<in> set (sv_alljobs s). 0 \<le> js_state (sv_jobs s j) \<and> js_state (sv_jobs s j) < int PBS_NUMJOBSTATE"
    "\<And>k. k < PBS_NUMJOBSTATE \<Longrightarrow> sv_jobstates s ! k = int (length (filter (\<lambda>i. js_state (sv_jobs s i) = int k) (sv_alljobs s)))"
    using assms(1) by (simp_all add: counts_ok_def tally_def)
  moreover have "sv_numjobs (correct_ct s) = int (length (sv_alljobs s))" by (rule correct_ct_counts(1) [OF w(1,2), of 0]) simp
  moreover have "sv_jobstates (correct_ct s) ! k = (if k < 6 then 1 else 2) * int (length (filter (\<lambda>i. js_state (sv_jobs s i) = int k) (sv_alljobs s)))"
    if "k < PBS_NUMJOBSTATE" for k using correct_ct_counts(2) [OF w(1,2) that] w(3) [OF that] by simp
  ultimately show ?thesis using f unfolding Let_def by blast
qed

theorem subjob_finished_miscounted_witness: "\<not> counts_ok (snd (svr_setjobstate plain_env 0 JOB_STATE_FINISHED JOB_SUBSTATE_FINISHED one_job))"
  using subjob_finished_miscounted [OF one_job_ok(7) _ one_job_ok(5), of plain_env JOB_SUBSTATE_FINISHED] one_job_ok(3,4) by (simp add: Let_def)

text \<open>
  C2. An array follows its subjobs. When \<open>svr_setjobstate\<close> gives a subjob another state, the entry of the subjob in the table of its parent
  array gets the same state, no other entry changes its state, and the counters of the table stay right; and unless
  deletion of the array is in progress, the end of the array is processed exactly when no subjob is queued, running or exiting
  any more.
\<close>

theorem array_follows_subjob:
  fixes env :: svr_env and ns :: int
  assumes "js_svrflags (sv_jobs s j) AND JOB_SVFLG_SubJob \<noteq> 0" "js_parentaj (sv_jobs s j) = Some pj" "pj \<noteq> j" "js_ajtrk (sv_jobs s pj) = Some t" "tbl_wf t"
    "js_subjindx (sv_jobs s j) < length (tkm_tbl t)" "0 \<le> n" "n < int PBS_NUMJOBSTATE" "js_state (sv_jobs s j) \<notin> {n, JOB_STATE_FINISHED}"
    "js_substate (sv_jobs s j) \<noteq> JOB_SUBSTATE_TRANSICM" "tkm_flags t mod 2 = 0" "\<forall>e. Array_Done pj e \<notin> set (sv_calls s)"
    "strncmp_eq (js_jobid (sv_jobs s j)) (js_jobid (sv_jobs s pj)) (length (takeWhile (\<lambda>c. c \<noteq> CHR ''['') (js_jobid (sv_jobs s j))) - 1)"
  defines "s' \<equiv> snd (svr_setjobstate env j n ns s)"
  shows "\<exists>t'. js_ajtrk (sv_jobs s' pj) = Some t' \<and> tbl_wf t' \<and> map trk_status (tkm_tbl t') = (map trk_status (tkm_tbl t))[js_subjindx (sv_jobs s j) := js_state (sv_jobs s' j)] \<and>
    ((\<exists>e. Array_Done pj e \<in> set (sv_calls s')) \<longleftrightarrow> (\<forall>k \<in> set (tkm_tbl t'). trk_status k \<notin> {JOB_STATE_QUEUED, JOB_STATE_RUNNING, JOB_STATE_EXITING}))"
proof -
  define m where "m = (if n = JOB_STATE_FINISHED then JOB_STATE_EXPIRED else n)"
  let ?s1 = "move_counts env j n s"
  have m: "0 \<le> m" "m < int PBS_NUMJOBSTATE" using assms(7,8) by (simp_all add: m_def)
  have c: "change_counts env j n ns s = (tell_parent env j m ?s1, m, True)" using assms(1,9) by (simp add: change_counts_def Let_def m_def)
  note f = move_counts_calls [where env = env and j = j and n = n and s = s]
  obtain cs where cs: "sv_calls ?s1 = sv_calls s @ cs" "\<forall>pj e. Array_Done pj e \<notin> set cs" using f(1) by blast
  have j: "sv_jobs ?s1 pj = sv_jobs s pj" using assms(3) by (rule f(2))
  have pre: "js_parentaj (sv_jobs ?s1 j) = Some pj" "js_ajtrk (sv_jobs ?s1 pj) = Some t" "js_subjindx (sv_jobs ?s1 j) < length (tkm_tbl t)"
    "strncmp_eq (js_jobid (sv_jobs ?s1 j)) (js_jobid (sv_jobs ?s1 pj)) (length (takeWhile (\<lambda>c. c \<noteq> CHR ''['') (js_jobid (sv_jobs ?s1 j))) - 1)"
    using assms(2,4,6,13) by (simp_all add: f(3-5) j)
  from tell_parent_table [OF pre(1,2) assms(5) pre(3) m pre(4), of env, unfolded f(4)] obtain t' ds where
    t': "js_ajtrk (sv_jobs (tell_parent env j m ?s1) pj) = Some t'" "tbl_wf t'" "map trk_status (tkm_tbl t') = (map trk_status (tkm_tbl t))[js_subjindx (sv_jobs s j) := m]"
    "sv_calls (tell_parent env j m ?s1) = sv_calls ?s1 @ ds"
    "(\<exists>e. Array_Done pj e \<in> set ds) = (\<forall>k \<in> set (tkm_tbl t'). trk_status k \<notin> {JOB_STATE_QUEUED, JOB_STATE_RUNNING, JOB_STATE_EXITING})"
    using assms(11) by blast
  have st: "js_state (sv_jobs s j) \<noteq> JOB_STATE_FINISHED" using assms(9) by simp
  have "js_state (sv_jobs s' j) = m" using setjobstate_fields(5) [OF st, of env n ns _ m True s' j] assms(10) c by (simp add: s'_def)
  moreover obtain es where "sv_jobs s' pj = sv_jobs (tell_parent env j m ?s1) pj" "sv_calls s' = sv_calls (tell_parent env j m ?s1) @ es" "\<forall>pj e. Array_Done pj e \<notin> set es"
    using setjobstate_calls [OF st assms(10) c assms(3)] unfolding s'_def by blast
  ultimately show ?thesis using t' cs assms(12) by (intro exI [of _ t']) auto
qed

definition array_srv :: srv where
  "array_srv = empty_srv\<lparr>sv_jobs := (\<lambda>i. if i = 0 then new_sjob\<lparr>js_jobid := ''7[5].srv'', js_parentaj := Some 1, js_subjindx := 4\<rparr>
     else new_sjob\<lparr>js_jobid := ''7[].srv'', js_svrflags := JOB_SVFLG_ArrayJob, js_ajtrk := Some (example_table [6, 6, 6, 6, 1])\<rparr>)\<rparr>"

theorem array_follows_subjob_witness:
  "\<exists>e. Array_Done 1 e \<in> set (sv_calls (snd (svr_setjobstate plain_env 0 JOB_STATE_EXPIRED JOB_SUBSTATE_FINISHED array_srv)))"
proof -
  let ?t = "example_table [6, 6, 6, 6, 1]"
  have a: "js_svrflags (sv_jobs array_srv 0) AND JOB_SVFLG_SubJob \<noteq> 0" "js_parentaj (sv_jobs array_srv 0) = Some 1" "js_ajtrk (sv_jobs array_srv 1) = Some ?t"
    "js_subjindx (sv_jobs array_srv 0) = 4" "js_state (sv_jobs array_srv 0) = JOB_STATE_QUEUED" "js_substate (sv_jobs array_srv 0) = JOB_SUBSTATE_QUEUED"
    "sv_calls array_srv = []" "js_jobid (sv_jobs array_srv 0) = ''7[5].srv''" "js_jobid (sv_jobs array_srv 1) = ''7[].srv''"
    by (simp_all add: array_srv_def new_sjob_def empty_srv_def)
  have w: "tbl_wf ?t" "tkm_flags ?t mod 2 = 0" "4 < length (tkm_tbl ?t)" "map trk_status (tkm_tbl ?t) = [6, 6, 6, 6, 1]"
    by (simp_all add: tbl_wf_def example_table_def new_ajtrk_def upt_rec less_Suc_eq numeral_eq_Suc)
  let ?s = "snd (svr_setjobstate plain_env 0 JOB_STATE_EXPIRED JOB_SUBSTATE_FINISHED array_srv)"
  have st: "js_state (sv_jobs ?s 0) = JOB_STATE_EXPIRED"
    using setjobstate_fields(5) [of array_srv 0 plain_env 6 92 _ _ _ ?s 0] a by (auto simp: change_counts_def Let_def)
  have "\<exists>t'. js_ajtrk (sv_jobs ?s 1) = Some t' \<and> tbl_wf t' \<and> map trk_status (tkm_tbl t') = (map trk_status (tkm_tbl ?t))[js_subjindx (sv_jobs array_srv 0) := js_state (sv_jobs ?s 0)] \<and>
    ((\<exists>e. Array_Done 1 e \<in> set (sv_calls ?s)) \<longleftrightarrow> (\<forall>k \<in> set (tkm_tbl t'). trk_status k \<notin> {JOB_STATE_QUEUED, JOB_STATE_RUNNING, JOB_STATE_EXITING}))"
    by (rule array_follows_subjob [OF a(1,2) _ a(3) w(1)]) (simp_all add: a w strncmp_eq_def del: One_nat_def)
  then obtain t' :: ajtrkhd where t: "map trk_status (tkm_tbl t') = (map trk_status (tkm_tbl ?t))[4 := JOB_STATE_EXPIRED]"
    "(\<exists>e. Array_Done 1 e \<in> set (sv_calls ?s)) \<longleftrightarrow> (\<forall>k \<in> set (tkm_tbl t'). trk_status k \<notin> {JOB_STATE_QUEUED, JOB_STATE_RUNNING, JOB_STATE_EXITING})"
    unfolding a(4) st by blast
  have "set (map trk_status (tkm_tbl t')) = {6}" unfolding t(1) w(4) by simp
  then have "\<forall>k \<in> set (tkm_tbl t'). trk_status k = 6" by auto
  then show ?thesis using t(2) by simp
qed

text \<open>
  The state \<open>svr_evaljobstate\<close> finds for a job. It leaves finished and moved jobs alone, and running ones unless told otherwise; a job on
  hold is held; one whose start time is to come waits; every other one outside a reservation is queued, or begun for an
  array with a subjob that is no longer queued. Evaluated again in the new state the job stays there, and the
  character shown for the state leads back to it.
\<close>

theorem job_state_decided:
  assumes "svr_evaljobstate now p force = (st, sub)"
  shows "svr_evaljobstate now (p\<lparr>js_state := st, js_substate := sub\<rparr>) force = (st, sub) \<and>
    (js_state p \<in> {JOB_STATE_MOVED, JOB_STATE_FINISHED} \<longrightarrow> st = js_state p \<and> sub = js_substate p) \<and>
    (js_state p \<in> {JOB_STATE_RUNNING, JOB_STATE_TRANSIT} \<and> \<not> force \<longrightarrow> st = js_state p \<and> sub = js_substate p) \<and>
    (js_state p \<notin> {JOB_STATE_MOVED, JOB_STATE_FINISHED, JOB_STATE_RUNNING, JOB_STATE_TRANSIT} \<and> js_resvp p = None \<longrightarrow>
      st = (if js_hold p \<noteq> 0 then JOB_STATE_HELD else if now < js_exectime p then JOB_STATE_WAITING
            else if js_stagein p \<or> js_svrflags p AND JOB_SVFLG_ArrayJob = 0 then JOB_STATE_QUEUED
            else case js_ajtrk p of None \<Rightarrow> JOB_STATE_HELD
              | Some t \<Rightarrow> if tkm_subjsct t ! 1 + tkm_dsubjsct t < tkm_ct t then JOB_STATE_BEGUN else JOB_STATE_QUEUED)) \<and>
    (0 \<le> st \<and> st < int PBS_NUMJOBSTATE \<and> st \<noteq> JOB_STATE_RUNNING \<longrightarrow>
      state_char2int (js_statechar (set_statechar (p\<lparr>js_state := st, js_substate := sub\<rparr>))) = st)"
proof (intro conjI impI, goal_cases)
  case 1 then show ?case by (rule evaljobstate_stable [OF assms])
next
  case 6 then show ?case using assms by (auto simp: svr_evaljobstate_def Let_def split: if_splits option.splits)
next
  case 7 then show ?case using statechar_inverse [of st] by (simp add: set_statechar_def)
qed (use assms in \<open>auto simp: svr_evaljobstate_def Let_def split: if_splits\<close>)

theorem job_state_decided_witness:
  "svr_evaljobstate 50 (new_sjob\<lparr>js_exectime := 60\<rparr>) False = (JOB_STATE_WAITING, JOB_SUBSTATE_WAITING) \<and>
   svr_evaljobstate 50 (new_sjob\<lparr>js_exectime := 60, js_state := JOB_STATE_WAITING, js_substate := JOB_SUBSTATE_WAITING\<rparr>) False = (JOB_STATE_WAITING, JOB_SUBSTATE_WAITING)"
proof -
  have e: "svr_evaljobstate 50 (new_sjob\<lparr>js_exectime := 60\<rparr>) False = (JOB_STATE_WAITING, JOB_SUBSTATE_WAITING)" by (simp add: svr_evaljobstate_def new_sjob_def)
  then show ?thesis using job_state_decided [OF e] by (simp add: new_sjob_def)
qed

end
