(* ===== verification/Avl_Tree.thy ===== *)
theory Avl_Tree
  imports Attr_Func "HOL-Library.Word"
begin

text \<open>
  The index trees of \<open>lib/Libutil/avltree.c\<close>, by which the daemons find jobs, nodes, streams and addresses. A tree is balanced
  by heights; every node has in \<open>balance\<close> the side that is higher, and in \<open>trace\<close> the side to which the last operation went, so
  that the traces from the root are a mark at or between records, from which the next or the previous one is found.

  Nodes are the constructor \<open>ND\<close>, with the fields of \<open>struct _node\<close>; a null pointer is \<open>NIL\<close>. A pointer to a pointer in a tree
  is the list of the directions that lead to it from the root. What a loop that goes down a tree changes in the nodes it
  passes is changed in the tree that the recursion rebuilds. A value of type \<open>way3\<close> is -1, 0 or 1. The variables with the key length and
  the treatment of duplicates are the argument \<open>ix\<close>; \<open>exit\<close> is the value \<open>None\<close>.
\<close>

unbundle bit_operations_syntax

section \<open>Records and keys\<close>

type_synonym way3 = int

abbreviation (input) way3stop :: way3 where "way3stop \<equiv> 0"
abbreviation (input) way3left :: way3 where "way3left \<equiv> - 1"
abbreviation (input) way3right :: way3 where "way3right \<equiv> 1"

definition way3sum :: "way3 \<Rightarrow> way3 \<Rightarrow> way3" where "way3sum x y = x + y"
definition way3opp :: "way3 \<Rightarrow> way3" where "way3opp x = - x"

definition makeway3 :: "int \<Rightarrow> way3" where
  "makeway3 n = (if n > 0 then way3right else if n < 0 then way3left else way3stop)"

definition way3opp2 :: "way3 \<Rightarrow> way3 \<Rightarrow> way3" where
  "way3opp2 x y = (if x = y then way3opp x else way3stop)"

text \<open>
  A key is a C string when the key length of the index is 0, else the bytes of the key. The pointer of a record is 8 bytes in memory,
  the lowest first.
\<close>

record rectype =
  recptr :: "64 word"
  rcount :: "32 word"
  rkey :: string

record ix_globals =
  ix_keylength :: int
  ix_dupkeys :: int

abbreviation (input) AVL_NO_DUP_KEYS :: int where "AVL_NO_DUP_KEYS \<equiv> 0"
abbreviation (input) AVL_DUP_KEYS_OK :: int where "AVL_DUP_KEYS_OK \<equiv> 1"
abbreviation (input) AVL_COUNT_DUPS :: int where "AVL_COUNT_DUPS \<equiv> 2"

definition ptr_bytes :: "64 word \<Rightarrow> string" where
  "ptr_bytes w = map (\<lambda>i. char_of (drop_bit (8 * i) (unat w))) [0..<8]"

text \<open>\<open>memcmp\<close>, of which only the sign is specified, on two areas of the same length.\<close>

fun memcmp_loop :: "string \<Rightarrow> string \<Rightarrow> int" where
  "memcmp_loop (a # as) (b # bs) = (if uchar a < uchar b then - 1 else if uchar b < uchar a then 1 else memcmp_loop as bs)"
| "memcmp_loop _ _ = 0"

definition memcmp :: "string \<Rightarrow> string \<Rightarrow> nat \<Rightarrow> int" where
  "memcmp a b n = memcmp_loop (take n a) (take n b)"

definition compkey :: "ix_globals \<Rightarrow> rectype \<Rightarrow> rectype \<Rightarrow> int" where
  "compkey ix r1 r2 =
     (let n = (if ix_keylength ix \<noteq> 0 then memcmp (rkey r1) (rkey r2) (nat (ix_keylength ix)) else strcmp (rkey r1) (rkey r2)) in
      if n \<noteq> 0 \<or> ix_dupkeys ix = AVL_NO_DUP_KEYS then n
      else memcmp (ptr_bytes (recptr r1)) (ptr_bytes (recptr r2)) 8)"

definition copydata :: "ix_globals \<Rightarrow> rectype \<Rightarrow> rectype \<Rightarrow> rectype" where
  "copydata ix r1 r2 = r1\<lparr>recptr := recptr r2, rcount := rcount r2,
     rkey := (if ix_keylength ix \<noteq> 0 then take (nat (ix_keylength ix)) (rkey r2) @ drop (nat (ix_keylength ix)) (rkey r1) else rkey r2)\<rparr>"

definition duprec :: "rectype \<Rightarrow> rectype option" where
  "duprec r = (if rcount r = - 1 then None else Some (r\<lparr>rcount := rcount r + 1\<rparr>))"

section \<open>Nodes\<close>

datatype avl = NIL | ND (nleft: avl) (nbalance: way3) (ntrace: way3) (ndata: rectype) (nright: avl)
  where "nbalance NIL = 0" | "ntrace NIL = 0"

text \<open>The macros \<open>stepway\<close> and \<open>stepopp\<close> as values and as places that are assigned to, and the fields that are.\<close>

fun stepway :: "avl \<Rightarrow> way3 \<Rightarrow> avl" where
  "stepway NIL x = NIL"
| "stepway (ND l b t d r) x = (if x = way3right then r else l)"

abbreviation stepopp :: "avl \<Rightarrow> way3 \<Rightarrow> avl" where
  "stepopp n x \<equiv> stepway n (way3opp x)"

fun put_way :: "avl \<Rightarrow> way3 \<Rightarrow> avl \<Rightarrow> avl" where
  "put_way NIL x n = NIL"
| "put_way (ND l b t d r) x n = (if x = way3right then ND l b t d n else ND n b t d r)"

abbreviation put_opp :: "avl \<Rightarrow> way3 \<Rightarrow> avl \<Rightarrow> avl" where
  "put_opp n x \<equiv> put_way n (way3opp x)"

fun put_balance :: "way3 \<Rightarrow> avl \<Rightarrow> avl" where
  "put_balance b NIL = NIL"
| "put_balance b (ND l b' t d r) = ND l b t d r"

fun put_trace :: "way3 \<Rightarrow> avl \<Rightarrow> avl" where
  "put_trace t NIL = NIL"
| "put_trace t (ND l b t' d r) = ND l b t d r"

fun put_data :: "rectype \<Rightarrow> avl \<Rightarrow> avl" where
  "put_data d NIL = NIL"
| "put_data d (ND l b t d' r) = ND l b t d r"

text \<open>The tree at a place, and the assignment to it.\<close>

fun at :: "way3 list \<Rightarrow> avl \<Rightarrow> avl" where
  "at [] n = n"
| "at (x # xs) n = at xs (stepway n x)"

fun upd :: "way3 list \<Rightarrow> (avl \<Rightarrow> avl) \<Rightarrow> avl \<Rightarrow> avl" where
  "upd [] f n = f n"
| "upd (x # xs) f n = put_way n x (upd xs f (stepway n x))"

text \<open>\<open>restruct\<close> on the tree at \<open>avl_t\<close>, which is \<open>avl_s\<close>; \<open>wh\<close> is \<open>avl_wayhand\<close> and \<open>r\<close> is \<open>avl_r\<close>.\<close>

definition restruct :: "bool \<Rightarrow> way3 \<Rightarrow> avl \<Rightarrow> bool \<times> avl" where
  "restruct op_del wh s =
     (let r = stepway s wh; n = nbalance r; g = (if n = way3stop then op_del else n = wh) in
      if g then (g, put_opp r wh (put_way s wh (stepopp r wh)))
      else
        let p = stepopp r wh;
            c = nbalance p;
            r = put_balance (way3opp2 c (way3opp wh)) (put_opp r wh (stepway p wh));
            s = put_balance (way3opp2 c wh) s;
            p = put_balance way3stop (put_way p wh r)
        in (g, put_opp p wh (put_way s wh (stepopp p wh))))"

section \<open>Searching\<close>

definition SRF_FINDEQUAL :: "16 word" where "SRF_FINDEQUAL = 1"
definition SRF_FINDLESS :: "16 word" where "SRF_FINDLESS = 2"
definition SRF_FINDGREAT :: "16 word" where "SRF_FINDGREAT = 4"
definition SRF_SETMARK :: "16 word" where "SRF_SETMARK = 8"
definition SRF_FROMMARK :: "16 word" where "SRF_FROMMARK = 16"

abbreviation has :: "16 word \<Rightarrow> 16 word \<Rightarrow> bool" where
  "has fl f \<equiv> fl AND f \<noteq> 0"

definition search_dir :: "16 word \<Rightarrow> way3" where
  "search_dir fl = (if has fl SRF_FINDGREAT then way3right else if has fl SRF_FINDLESS then way3left else way3stop)"

text \<open>The loop from the neighbour of a record that is marked, away from the direction of the search.\<close>

fun extreme :: "bool \<Rightarrow> way3 \<Rightarrow> avl \<Rightarrow> rectype option \<times> avl" where
  "extreme mark wayopp NIL = (None, NIL)"
| "extreme mark wayopp (ND l b t d r) =
     (let q = ND l b t d r in
      if stepway q wayopp = NIL then (Some d, if mark then put_trace way3stop q else q)
      else let (x, pp) = extreme mark wayopp (if wayopp = way3right then r else l) in
        (x, put_way (if mark then put_trace wayopp q else q) wayopp pp))"

text \<open>
  The main loop. The node \<open>p\<close> at which the direction can be changed is the last one where the search went against it: the first on the way
  back from a place where nothing was found.
\<close>

fun search_loop :: "ix_globals \<Rightarrow> 16 word \<Rightarrow> rectype \<Rightarrow> avl \<Rightarrow> rectype option \<times> avl" where
  "search_loop ix fl key NIL = (None, NIL)"
| "search_loop ix fl key (ND l b t d r) =
     (let waydir = search_dir fl; wayopp = way3opp waydir;
          aa = (if has fl SRF_FROMMARK then t else makeway3 (compkey ix key d));
          pp = ND l b (if has fl SRF_SETMARK then aa else t) d r in
      if aa = way3stop then
        if has fl SRF_FINDEQUAL then (Some d, pp)
        else if stepway pp waydir = NIL then (None, pp)
        else let (x, q) = extreme (has fl SRF_SETMARK) wayopp (stepway pp waydir) in
          (x, put_way (if has fl SRF_SETMARK then put_trace waydir pp else pp) waydir q)
      else
        let (x, c) = (if aa = way3right then search_loop ix fl key r else search_loop ix fl key l); pp = put_way pp aa c in
        if x = None \<and> aa = wayopp \<and> has fl (SRF_FINDLESS OR SRF_FINDGREAT)
        then (Some d, if has fl SRF_SETMARK then put_trace way3stop pp else pp)
        else (x, pp))"

definition avltree_search :: "ix_globals \<Rightarrow> 16 word \<Rightarrow> rectype \<Rightarrow> avl \<Rightarrow> rectype option \<times> avl" where
  "avltree_search ix fl key t =
     (if \<not> has (NOT fl) (SRF_FINDGREAT OR SRF_FINDLESS) then (None, t)
      else if \<not> has fl (SRF_FINDGREAT OR SRF_FINDEQUAL OR SRF_FINDLESS) then (None, t)
      else search_loop ix fl key t)"

fun avltree_first :: "avl \<Rightarrow> avl" where
  "avltree_first NIL = NIL"
| "avltree_first (ND l b t d r) = ND (avltree_first l) b way3left d r"

fun avltree_last :: "avl \<Rightarrow> avl" where
  "avltree_last NIL = NIL"
| "avltree_last (ND l b t d r) = ND l b way3right d (avltree_last r)"

section \<open>Inserting\<close>

text \<open>
  The new node, with the key that is set to a count of 1, and the loop that finds its place \<open>tt\<close>: \<open>t\<close> is the last place with a node that is
  not balanced. The value is \<open>None\<close> when the process exits; without a place when the record is there already.
  \<open>mal\<close> says whether memory is available.
\<close>

definition allocnode :: "ix_globals \<Rightarrow> rectype \<Rightarrow> avl" where
  "allocnode ix key = ND NIL way3stop way3stop (copydata ix \<lparr>recptr = 0, rcount = 1, rkey = []\<rparr> key) NIL"

fun insert_walk :: "ix_globals \<Rightarrow> bool \<Rightarrow> rectype \<Rightarrow> way3 list \<Rightarrow> way3 list \<Rightarrow> avl \<Rightarrow> (avl \<times> way3 list option) option" where
  "insert_walk ix mal key t tt NIL = (if mal then Some (allocnode ix (key\<lparr>rcount := 1\<rparr>), Some t) else None)"
| "insert_walk ix mal key t tt (ND l b tr d r) =
     (let aa = makeway3 (compkey ix key d) in
      if aa = way3stop then
        if ix_dupkeys ix = AVL_COUNT_DUPS then map_option (\<lambda>d. (ND l b tr d r, None)) (duprec d)
        else Some (ND l b tr d r, None)
      else
        let t = (if b \<noteq> way3stop then tt else t) in
        if aa = way3right then map_option (\<lambda>(r, x). (ND l b aa d r, x)) (insert_walk ix mal key t (tt @ [aa]) r)
        else map_option (\<lambda>(l, x). (ND l b aa d r, x)) (insert_walk ix mal key t (tt @ [aa]) l))"

text \<open>The balances below \<open>avl_r\<close> become the traces; and the balancing of the tree at \<open>avl_t\<close>. When \<open>restruct\<close> returns 1 the root is \<open>avl_r\<close> and \<open>avl_s\<close> is below it.\<close>

fun settle :: "avl \<Rightarrow> avl" where
  "settle NIL = NIL"
| "settle (ND l b t d r) = (if t = way3right then ND l t t d (settle r) else ND (settle l) t t d r)"

definition rebalance :: "avl \<Rightarrow> avl" where
  "rebalance s =
     (let wh = ntrace s in
      if wh = way3stop then s
      else
        let s = put_way s wh (settle (stepway s wh)); b = nbalance s in
        if b \<noteq> wh then put_balance (way3sum wh b) s
        else case restruct False wh s of
            (True, r) \<Rightarrow> put_balance way3stop (put_opp r wh (put_balance way3stop (stepopp r wh)))
          | (False, p) \<Rightarrow> p)"

definition avltree_insert :: "ix_globals \<Rightarrow> bool \<Rightarrow> rectype \<Rightarrow> avl \<Rightarrow> (rectype option \<times> rectype \<times> avl) option" where
  "avltree_insert ix mal key t =
     (case insert_walk ix mal key [] [] t of
        None \<Rightarrow> None
      | Some (t, None) \<Rightarrow> Some (None, key, t)
      | Some (t, Some avl_t) \<Rightarrow>
          let key = key\<lparr>rcount := 1\<rparr> in Some (Some (ndata (allocnode ix key)), key, upd avl_t rebalance t))"

section \<open>Deleting\<close>

text \<open>
  The places and the record that the loop of \<open>avltree_delete\<close> finds: \<open>dw_t\<close> is \<open>avl_t\<close>, from where heights change, \<open>dw_q\<close> the record of the node \<open>q\<close> to
  delete, at \<open>qq1\<close>, and \<open>tt1\<close> the place of the last node of the path, which is taken out in its stead. \<open>aaa\<close> is not 0 below \<open>q\<close>.
\<close>

record del_places =
  dw_t :: "way3 list"
  dw_tt1 :: "way3 list"
  dw_qq1 :: "way3 list"
  dw_q :: "rectype option"
  dw_rr :: "way3 list"

fun delete_walk :: "ix_globals \<Rightarrow> 16 word \<Rightarrow> rectype \<Rightarrow> way3 \<Rightarrow> way3 list \<Rightarrow> way3 list \<Rightarrow> del_places \<Rightarrow> avl \<Rightarrow> avl \<times> way3 \<times> del_places" where
  "delete_walk ix fl key aaa t1 tt w NIL = (NIL, aaa, w)"
| "delete_walk ix fl key aaa t1 tt w (ND l b tr d r) =
     (let aa = (if aaa \<noteq> way3stop then aaa else if has fl SRF_FROMMARK then tr else makeway3 (compkey ix key d));
          w = (if aa = way3stop then w\<lparr>dw_qq1 := tt, dw_q := Some d, dw_rr := t1\<rparr> else w);
          (aa, aaa) = (if aa = way3stop then let aa = (if b \<noteq> way3stop then b else way3left) in (aa, way3opp aa) else (aa, aaa));
          w = w\<lparr>dw_t := t1, dw_tt1 := tt\<rparr>;
          t1 = (if b = way3stop \<or> b \<noteq> aa \<and> nbalance (stepopp (ND l b tr d r) aa) = way3stop then tt else t1) in
      if aa = way3right then let (r, x) = delete_walk ix fl key aaa t1 (tt @ [aa]) w r in (ND l b aa d r, x)
      else let (l, x) = delete_walk ix fl key aaa t1 (tt @ [aa]) w l in (ND l b aa d r, x))"

text \<open>
  When no \<open>q\<close> is found \<open>aaa\<close> is still 0 and the function returns null. Otherwise the last node \<open>p\<close> is taken out of its place and put in that of \<open>q\<close>, with the pointers, the balance and the trace of \<open>q\<close>:
  here its record becomes the one at \<open>qq1\<close>, and places keep their directions. The loop that balances from \<open>avl_t\<close> along the traces down to \<open>p1\<close>, the place of which is given by the directions that are left. What
  is done at a node, \<open>adjust\<close>, does not look at the tree on the side of its trace. The last loop sets the traces to where the record was.
\<close>

definition adjust :: "avl \<Rightarrow> avl" where
  "adjust s =
     (let wh = way3opp (ntrace s); b = nbalance s in
      if b \<noteq> wh then put_balance (way3sum wh b) s
      else case restruct True wh s of
          (True, r) \<Rightarrow>
            let bb = nbalance r;
                r = (if bb \<noteq> way3stop then put_opp r wh (put_balance way3stop (stepopp r wh)) else r)
            in put_balance (way3sum (way3opp wh) bb) r
        | (False, p) \<Rightarrow> p)"

fun shrink :: "way3 list \<Rightarrow> avl \<Rightarrow> avl" where
  "shrink [] s = s"
| "shrink (_ # xs) s = adjust (put_way s (ntrace s) (shrink xs (stepway s (ntrace s))))"

fun retrace :: "ix_globals \<Rightarrow> rectype \<Rightarrow> avl \<Rightarrow> avl" where
  "retrace ix q NIL = NIL"
| "retrace ix q (ND l b t d r) =
     (let aa = makeway3 (compkey ix q d) in
      if aa = way3right then ND l b aa d (retrace ix q r) else ND (retrace ix q l) b aa d r)"

definition avltree_delete :: "ix_globals \<Rightarrow> 16 word \<Rightarrow> rectype \<Rightarrow> avl \<Rightarrow> rectype option \<times> rectype \<times> avl" where
  "avltree_delete ix fl key t =
     (case delete_walk ix fl key way3stop [] [] \<lparr>dw_t = [], dw_tt1 = [], dw_qq1 = [], dw_q = None, dw_rr = []\<rparr> t of
        (t, aaa, w) \<Rightarrow>
        (case dw_q w of None \<Rightarrow> (None, key, t)
         | Some q \<Rightarrow>
           let key = copydata ix key q;
               p = at (dw_tt1 w) t;
               t = upd (dw_tt1 w) (\<lambda>_. stepopp p (ntrace p)) t;
               t = (if dw_tt1 w \<noteq> dw_qq1 w then upd (dw_qq1 w) (put_data (ndata p)) t else t);
               t = upd (dw_t w) (shrink (drop (length (dw_t w)) (dw_tt1 w))) t;
               t = upd (dw_rr w) (retrace ix q) t
           in (Some key, key, t)))"

section \<open>Clearing\<close>

text \<open>
  The loop of \<open>avltree_clear\<close> keeps the way back in the left pointers of the nodes it has passed: here they are the list \<open>q\<close>, each node with
  the side on which its child \<open>p\<close> is. The value is the number of nodes that have been freed.
\<close>

function clear_loop :: "nat \<Rightarrow> avl \<Rightarrow> (way3 \<times> avl) list \<Rightarrow> nat" where
  "clear_loop nodecount p q =
     (if stepway p way3left \<noteq> NIL then clear_loop nodecount (stepway p way3left) ((way3left, put_way p way3left NIL) # q)
      else if stepway p way3right \<noteq> NIL then clear_loop nodecount (stepway p way3right) ((way3right, p) # q)
      else case q of [] \<Rightarrow> Suc nodecount
        | (x, p') # q \<Rightarrow> clear_loop (Suc nodecount) (put_way (if x = way3right then put_way p' way3right NIL else p') way3left NIL) q)"
  by pat_completeness auto

fun nodes :: "avl \<Rightarrow> nat" where
  "nodes NIL = 0"
| "nodes (ND l b t d r) = Suc (nodes l + nodes r)"

lemma nodes_pos: "n \<noteq> NIL \<Longrightarrow> 0 < nodes n"
  by (cases n) auto

lemma nodes_put: "n \<noteq> NIL \<Longrightarrow> nodes (put_way n x NIL) + nodes (stepway n x) = nodes n \<and> 0 < nodes (put_way n x NIL)"
  by (cases n) auto

lemma nodes_put_le: "nodes (put_way n x NIL) \<le> nodes n"
  by (cases n) auto

definition clear_left :: "avl \<Rightarrow> (way3 \<times> avl) list \<Rightarrow> nat" where
  "clear_left p q = max 1 (nodes p) + sum_list (map (\<lambda>(x, n). max 1 (nodes (put_way n x NIL))) q)"

lemma put_way_put_way [simp]: "put_way (put_way n x a) x b = put_way n x b"
  by (cases n) auto

lemma put_way_left: "x \<noteq> way3right \<Longrightarrow> put_way n x m = put_way n way3left m"
  by (cases n) auto

termination clear_loop
proof (relation "measures [\<lambda>(c, p, q). clear_left p q, \<lambda>(c, p, q). nodes p]", goal_cases)
  case (2 c p q)
  then show ?case using nodes_put [of p way3left] nodes_pos [OF 2] by (cases p) (auto simp: clear_left_def)
next
  case (3 c p q)
  then show ?case using nodes_put [of p way3right] by (cases p) (auto simp: clear_left_def max_def dest!: nodes_pos)
next
  case (4 c p q xp q' x p')
  then show ?case
    using nodes_put_le [of "put_way p' way3right NIL" way3left] put_way_left [of x p' NIL]
    by (cases "x = way3right") (auto simp: clear_left_def)
qed auto

declare clear_loop.simps [simp del]

definition avltree_clear :: "avl \<Rightarrow> nat \<times> avl" where
  "avltree_clear t = (if t = NIL then 0 else clear_loop 0 t [], NIL)"

section \<open>Indices\<close>

record AVL_IX_DESC =
  root :: avl
  keylength :: int
  dup_keys :: int

abbreviation (input) AVL_IX_OK :: int where "AVL_IX_OK \<equiv> 1"
abbreviation (input) AVL_IX_FAIL :: int where "AVL_IX_FAIL \<equiv> 0"
abbreviation (input) AVL_EOIX :: int where "AVL_EOIX \<equiv> - 2"

definition set_globals :: "AVL_IX_DESC \<Rightarrow> ix_globals" where
  "set_globals pix = \<lparr>ix_keylength = keylength pix, ix_dupkeys = dup_keys pix\<rparr>"

definition avl_create_index :: "int \<Rightarrow> int \<Rightarrow> AVL_IX_DESC option" where
  "avl_create_index dup kl =
     (if dup \<noteq> AVL_NO_DUP_KEYS \<and> dup \<noteq> AVL_DUP_KEYS_OK \<and> dup \<noteq> AVL_COUNT_DUPS then None
      else if kl < 0 then None
      else Some \<lparr>root = NIL, keylength = kl, dup_keys = dup\<rparr>)"

definition avl_destroy_index :: "AVL_IX_DESC \<Rightarrow> AVL_IX_DESC" where
  "avl_destroy_index pix = pix\<lparr>root := snd (avltree_clear (root pix))\<rparr>"

text \<open>The operations return the code, the record of the caller and the index.\<close>

definition find_flags :: "16 word" where
  "find_flags = SRF_FINDEQUAL OR SRF_SETMARK OR SRF_FINDGREAT"

definition avl_find_key :: "rectype \<Rightarrow> AVL_IX_DESC \<Rightarrow> int \<times> rectype \<times> AVL_IX_DESC" where
  "avl_find_key pe pix =
     (let ix = set_globals pix; pe = pe\<lparr>recptr := 0\<rparr>;
          (ptr, t) = avltree_search ix find_flags pe (root pix); pix = pix\<lparr>root := t\<rparr> in
      case ptr of None \<Rightarrow> (AVL_IX_FAIL, pe, pix)
      | Some ptr \<Rightarrow>
          let pe = pe\<lparr>recptr := recptr ptr, rcount := rcount ptr\<rparr> in
          (if compkey ix pe ptr \<noteq> 0 then AVL_IX_FAIL else AVL_IX_OK, pe, pix))"

definition avl_locate_key :: "rectype \<Rightarrow> AVL_IX_DESC \<Rightarrow> int \<times> rectype \<times> AVL_IX_DESC" where
  "avl_locate_key pe pix =
     (let ix = set_globals pix; pe = pe\<lparr>recptr := 0\<rparr>;
          (ptr, t) = avltree_search ix find_flags pe (root pix); pix = pix\<lparr>root := t\<rparr> in
      case ptr of None \<Rightarrow> (AVL_EOIX, pe, pix)
      | Some ptr \<Rightarrow> (if compkey ix pe ptr \<noteq> 0 then AVL_IX_FAIL else AVL_IX_OK, copydata ix pe ptr, pix))"

definition avl_add_key :: "bool \<Rightarrow> rectype \<Rightarrow> AVL_IX_DESC \<Rightarrow> (int \<times> rectype \<times> AVL_IX_DESC) option" where
  "avl_add_key mal pe pix =
     (case avltree_insert (set_globals pix) mal pe (root pix) of None \<Rightarrow> None
      | Some (x, pe, t) \<Rightarrow>
          Some (if x = None \<and> dup_keys pix \<noteq> AVL_COUNT_DUPS then AVL_IX_FAIL else AVL_IX_OK, pe, pix\<lparr>root := t\<rparr>))"

definition avl_delete_key :: "rectype \<Rightarrow> AVL_IX_DESC \<Rightarrow> int \<times> rectype \<times> AVL_IX_DESC" where
  "avl_delete_key pe pix =
     (let ix = set_globals pix;
          (ptr, t) = avltree_search ix (SRF_FINDEQUAL OR SRF_SETMARK) pe (root pix); pix = pix\<lparr>root := t\<rparr> in
      if ptr = None then (AVL_IX_FAIL, pe, pix)
      else
        let pe = (if dup_keys pix = AVL_COUNT_DUPS then pe\<lparr>rcount := rcount pe - 1\<rparr> else pe) in
        if dup_keys pix = AVL_COUNT_DUPS \<and> rcount pe \<noteq> 0 then (AVL_IX_OK, pe, pix)
        else let (_, pe, t) = avltree_delete ix SRF_FROMMARK pe (root pix) in (AVL_IX_OK, pe, pix\<lparr>root := t\<rparr>))"

definition avl_first_key :: "AVL_IX_DESC \<Rightarrow> AVL_IX_DESC" where
  "avl_first_key pix = pix\<lparr>root := avltree_first (root pix)\<rparr>"

definition avl_last_key :: "AVL_IX_DESC \<Rightarrow> AVL_IX_DESC" where
  "avl_last_key pix = pix\<lparr>root := avltree_last (root pix)\<rparr>"

definition avl_next_key :: "rectype \<Rightarrow> AVL_IX_DESC \<Rightarrow> int \<times> rectype \<times> AVL_IX_DESC" where
  "avl_next_key pe pix =
     (let ix = set_globals pix;
          (ptr, t) = avltree_search ix (SRF_FROMMARK OR SRF_SETMARK OR SRF_FINDGREAT) pe (root pix); pix = pix\<lparr>root := t\<rparr> in
      case ptr of None \<Rightarrow> (AVL_EOIX, pe, pix) | Some ptr \<Rightarrow> (AVL_IX_OK, copydata ix pe ptr, pix))"

definition avl_prev_key :: "rectype \<Rightarrow> AVL_IX_DESC \<Rightarrow> int \<times> rectype \<times> AVL_IX_DESC" where
  "avl_prev_key pe pix =
     (let ix = set_globals pix;
          (ptr, t) = avltree_search ix (SRF_FROMMARK OR SRF_SETMARK OR SRF_FINDLESS) pe (root pix); pix = pix\<lparr>root := t\<rparr> in
      case ptr of None \<Rightarrow> (AVL_EOIX, pe, pix) | Some ptr \<Rightarrow> (AVL_IX_OK, copydata ix pe ptr, pix))"

definition avl_find_exact :: "rectype \<Rightarrow> AVL_IX_DESC \<Rightarrow> int \<times> AVL_IX_DESC" where
  "avl_find_exact pe pix =
     (let (ptr, t) = avltree_search (set_globals pix) (SRF_FINDEQUAL OR SRF_FINDGREAT OR SRF_SETMARK) pe (root pix); pix = pix\<lparr>root := t\<rparr> in
      case ptr of None \<Rightarrow> (AVL_IX_FAIL, pix)
      | Some ptr \<Rightarrow> (if dup_keys pix \<noteq> AVL_NO_DUP_KEYS \<and> recptr pe \<noteq> recptr ptr then AVL_IX_FAIL else AVL_IX_OK, pix))"

text \<open>
  A record for a key. Without a key the bytes are 0; \<open>mal\<close> says whether memory is available.
\<close>

definition avlkey_create :: "bool \<Rightarrow> AVL_IX_DESC \<Rightarrow> string option \<Rightarrow> rectype option" where
  "avlkey_create mal tree key =
     (if \<not> mal then None
      else Some \<lparr>recptr = 0, rcount = 0, rkey =
        (case key of None \<Rightarrow> replicate (nat (keylength tree)) NUL
         | Some k \<Rightarrow> if keylength tree \<noteq> 0 then take (nat (keylength tree)) k else k)\<rparr>)"

definition create_tree :: "bool \<Rightarrow> int \<Rightarrow> int \<Rightarrow> AVL_IX_DESC option option" where
  "create_tree mal dups keylen = (if \<not> mal then Some None else map_option Some (avl_create_index dups keylen))"

definition find_tree :: "bool \<Rightarrow> AVL_IX_DESC \<Rightarrow> string option \<Rightarrow> 64 word \<times> AVL_IX_DESC" where
  "find_tree mal pix key =
     (case avlkey_create mal pix key of None \<Rightarrow> (0, pix)
      | Some pkey \<Rightarrow> (case avl_find_key pkey pix of (rc, pkey, pix) \<Rightarrow> (if rc = AVL_IX_OK then recptr pkey else 0, pix)))"

abbreviation (input) TREE_OP_ADD :: int where "TREE_OP_ADD \<equiv> 0"
abbreviation (input) TREE_OP_DEL :: int where "TREE_OP_DEL \<equiv> 1"

text \<open>\<open>mal\<close> is for the record, \<open>mal'\<close> for the node.\<close>

definition tree_add_del :: "bool \<Rightarrow> bool \<Rightarrow> AVL_IX_DESC \<Rightarrow> string option \<Rightarrow> 64 word \<Rightarrow> int \<Rightarrow> (int \<times> AVL_IX_DESC) option" where
  "tree_add_del mal mal' pix key data op =
     (case avlkey_create mal pix key of None \<Rightarrow> Some (- 1, pix)
      | Some pkey \<Rightarrow>
          let pkey = pkey\<lparr>recptr := data\<rparr> in
          if op = TREE_OP_ADD then map_option (\<lambda>(rc, _, pix). (if rc \<noteq> AVL_IX_OK then - 1 else 0, pix)) (avl_add_key mal' pkey pix)
          else case avl_delete_key pkey pix of (rc, _, pix) \<Rightarrow> Some (if rc \<noteq> AVL_IX_OK then 1 else 0, pix))"

end
