(* ===== verification/Avl_Laws.thy ===== *)
theory Avl_Laws
  imports Avl_Tree "HOL-Library.List_Lexorder" "HOL-Library.Product_Lexorder"
begin

text \<open>
  Laws of the index trees: the order of the records, the shape of the trees, the mark, and searching and inserting.
\<close>

section \<open>The order of records\<close>

text \<open>A comparison that orders by a key in a linear order.\<close>

locale key_order =
  fixes cmp :: "'a \<Rightarrow> 'a \<Rightarrow> int" and key :: "'a \<Rightarrow> 'k::linorder" and ok :: "'a \<Rightarrow> bool"
  assumes cmp_less: "ok a \<Longrightarrow> ok b \<Longrightarrow> cmp a b < 0 \<longleftrightarrow> key a < key b"
    and cmp_greater: "ok a \<Longrightarrow> ok b \<Longrightarrow> cmp a b > 0 \<longleftrightarrow> key b < key a"
begin

lemma cmp_equal: "ok a \<Longrightarrow> ok b \<Longrightarrow> cmp a b = 0 \<longleftrightarrow> key a = key b"
  using cmp_less [of a b] cmp_greater [of a b] by (metis linorder_neqE order_less_irrefl)

lemma makeway3_cmp:
  assumes "ok a" "ok b"
  shows "makeway3 (cmp a b) = 1 \<longleftrightarrow> key b < key a" "makeway3 (cmp a b) = - 1 \<longleftrightarrow> key a < key b" "makeway3 (cmp a b) = 0 \<longleftrightarrow> key a = key b"
  using cmp_less [OF assms] cmp_greater [OF assms] cmp_equal [OF assms] by (auto simp: makeway3_def)

end

lemma memcmp_loop_key:
  "length a = length b \<Longrightarrow> (memcmp_loop a b < 0 \<longleftrightarrow> map uchar a < map uchar b) \<and> (memcmp_loop a b > 0 \<longleftrightarrow> map uchar b < map uchar a)"
  by (induction a b rule: memcmp_loop.induct) auto

lemma strcmp_less_key: "(strcmp a b < 0 \<longleftrightarrow> map uchar a < map uchar b) \<and> (strcmp a b > 0 \<longleftrightarrow> map uchar b < map uchar a)"
  by (induction a b rule: strcmp.induct) auto

definition rec_ok :: "ix_globals \<Rightarrow> rectype \<Rightarrow> bool" where
  "rec_ok ix r \<longleftrightarrow> (if ix_keylength ix = 0 then NUL \<notin> set (rkey r) else ix_keylength ix > 0 \<and> length (rkey r) = nat (ix_keylength ix))"

definition rec_key :: "ix_globals \<Rightarrow> rectype \<Rightarrow> nat list \<times> nat list" where
  "rec_key ix r = (map uchar (rkey r), if ix_dupkeys ix = AVL_NO_DUP_KEYS then [] else map uchar (ptr_bytes (recptr r)))"

lemma compkey_key:
  assumes "rec_ok ix a" "rec_ok ix b"
  shows "(compkey ix a b < 0 \<longleftrightarrow> rec_key ix a < rec_key ix b) \<and> (compkey ix a b > 0 \<longleftrightarrow> rec_key ix b < rec_key ix a)"
proof -
  define n where "n = (if ix_keylength ix \<noteq> 0 then memcmp (rkey a) (rkey b) (nat (ix_keylength ix)) else strcmp (rkey a) (rkey b))"
  have n: "(n < 0 \<longleftrightarrow> map uchar (rkey a) < map uchar (rkey b)) \<and> (n > 0 \<longleftrightarrow> map uchar (rkey b) < map uchar (rkey a))"
    using assms strcmp_less_key [of "rkey a" "rkey b"] memcmp_loop_key [of "rkey a" "rkey b"] by (auto simp: n_def rec_ok_def memcmp_def split: if_splits)
  have m: "memcmp (ptr_bytes (recptr a)) (ptr_bytes (recptr b)) 8 = memcmp_loop (ptr_bytes (recptr a)) (ptr_bytes (recptr b))"
    by (simp add: memcmp_def ptr_bytes_def)
  have l: "length (ptr_bytes (recptr a)) = length (ptr_bytes (recptr b))" by (simp add: ptr_bytes_def)
  have "n = 0 \<Longrightarrow> map uchar (rkey a) = map uchar (rkey b)" using n by (metis linorder_neqE order_less_irrefl)
  moreover have "compkey ix a b = (if n \<noteq> 0 \<or> ix_dupkeys ix = 0 then n else memcmp_loop (ptr_bytes (recptr a)) (ptr_bytes (recptr b)))"
    by (simp only: compkey_def n_def Let_def m)
  ultimately show ?thesis using n memcmp_loop_key [OF l] by (auto simp: rec_key_def less_prod_def)
qed

interpretation ko: key_order "compkey ix" "rec_key ix" "rec_ok ix" for ix
  using compkey_key by unfold_locales blast+

section \<open>Shape and mark\<close>

fun height :: "avl \<Rightarrow> nat" where
  "height NIL = 0"
| "height (ND l b t d r) = Suc (max (height l) (height r))"

fun inorder :: "avl \<Rightarrow> rectype list" where
  "inorder NIL = []"
| "inorder (ND l b t d r) = inorder l @ d # inorder r"

fun avl_ok :: "avl \<Rightarrow> bool" where
  "avl_ok NIL \<longleftrightarrow> True"
| "avl_ok (ND l b t d r) \<longleftrightarrow> avl_ok l \<and> avl_ok r \<and> b \<in> {- 1, 0, 1} \<and> int (height r) = int (height l) + b \<and> t \<in> {- 1, 0, 1}"

text \<open>The records before the mark, at it and after it.\<close>

fun before :: "avl \<Rightarrow> rectype list" where
  "before NIL = []"
| "before (ND l b t d r) = (if t = 0 then inorder l else if t = 1 then inorder l @ d # before r else before l)"

fun here :: "avl \<Rightarrow> rectype list" where
  "here NIL = []"
| "here (ND l b t d r) = (if t = 0 then [d] else if t = 1 then here r else here l)"

fun after :: "avl \<Rightarrow> rectype list" where
  "after NIL = []"
| "after (ND l b t d r) = (if t = 0 then inorder r else if t = 1 then after r else after l @ d # inorder r)"

lemma inorder_mark: "inorder t = before t @ here t @ after t"
  by (induction t) auto

definition mark :: "avl \<Rightarrow> rectype list \<times> rectype list \<times> rectype list" where
  "mark t = (before t, here t, after t)"

lemma height_0 [simp]: "height t = 0 \<longleftrightarrow> t = NIL"
  by (cases t) auto

section \<open>Inserting keeps the balance\<close>

lemma settle_simps:
  "inorder (settle t) = inorder t" "before (settle t) = before t" "here (settle t) = here t" "after (settle t) = after t" "ntrace (settle t) = ntrace t"
  "settle t = NIL \<longleftrightarrow> t = NIL"
  by (induction t) auto

lemma nbalance_settle: "nbalance (settle t) = ntrace t"
  by (cases t) auto

text \<open>A tree that has grown: the balances on the way to the new node, settled, give a balanced tree that is higher by one.\<close>

definition grown :: "nat \<Rightarrow> avl \<Rightarrow> bool" where
  "grown h t \<longleftrightarrow> t \<noteq> NIL \<and> nbalance t = 0 \<and> avl_ok (settle t) \<and> height (settle t) = Suc h \<and> (ntrace t = 0 \<longrightarrow> h = 0)"

lemma rebalance_grown: "grown h t \<Longrightarrow> rebalance t = settle t"
  by (cases t) (auto simp: grown_def rebalance_def Let_def way3sum_def settle_simps)

lemma rebalance_node:
  assumes "avl_ok (ND l b tr d r)" "b \<noteq> 0" "aa \<in> {- 1, 1}" "grown (height (stepway (ND l b tr d r) aa)) c"
  shows "avl_ok (rebalance (put_way (ND l b aa d r) aa c)) \<and> height (rebalance (put_way (ND l b aa d r) aa c)) = height (ND l b tr d r) \<and>
    mark (rebalance (put_way (ND l b aa d r) aa c)) = mark (put_way (ND l b aa d r) aa c)"
proof -
  obtain ul ub ud ur where u: "settle c = ND ul ub ub ud ur"
    using assms(4) nbalance_settle [of c] settle_simps(5,6) [of c] by (cases "settle c") (auto simp: grown_def)
  have m: "inorder c = inorder (settle c)" "before c = before (settle c)" "here c = here (settle c)" "after c = after (settle c)"
    by (simp_all add: settle_simps)
  have g: "avl_ok (settle c)" "height (settle c) = Suc (height (stepway (ND l b tr d r) aa))" "ub = 0 \<Longrightarrow> height (stepway (ND l b tr d r) aa) = 0"
    using assms(4) nbalance_settle [of c] u by (auto simp: grown_def)
  have ub: "ub \<in> {- 1, 0, 1}" "b \<in> {- 1, 1}" using g(1) assms(1,2) by (auto simp: u)
  note defs = rebalance_def Let_def restruct_def way3sum_def way3opp_def way3opp2_def u m mark_def
  consider "b \<noteq> aa" | "b = aa" "ub = aa" | "b = aa" "ub = - aa" using ub g(2,3) assms(1,3) by force
  then show ?thesis
  proof cases
    case 1
    then have "b = - aa" using ub(2) assms(3) by auto
    then show ?thesis using assms(1,3) g(1,2) by (auto simp: defs)
  next
    case 2
    then show ?thesis using assms(1,3) g(1,2) by (auto simp: defs)
  next
    case 3
    obtain pl pb pt pd pr where p: "stepopp (settle c) aa = ND pl pb pt pd pr"
      using 3 assms(1,3) g(1,2) by (cases "stepopp (settle c) aa") (auto simp: u way3opp_def)
    then have "pb \<in> {- 1, 0, 1}" using assms(3) g(1) by (auto simp: u way3opp_def)
    then show ?thesis using 3 p assms(1,3) g(1,2) by (elim insertE emptyE) (simp_all add: defs, auto)
  qed
qed

lemma mark_inorder: "mark t = mark t' \<Longrightarrow> inorder t = inorder t'"
  by (simp add: mark_def inorder_mark)

lemma mark_put: "mark c = mark c' \<Longrightarrow> mark (put_way n (ntrace n) c) = mark (put_way n (ntrace n) c')"
  using mark_inorder [of c c'] by (cases n) (auto simp: mark_def)

lemma grown_node:
  assumes "avl_ok (ND l 0 tr d r)" "aa \<in> {- 1, 1}" "grown (height (stepway (ND l 0 tr d r) aa)) c"
  shows "grown (height (ND l 0 tr d r)) (put_way (ND l 0 aa d r) aa c)"
  using assms by (auto simp: grown_def)

lemma makeway3_cases: "makeway3 n \<in> {- 1, 0, 1}"
  by (simp add: makeway3_def)

lemma avl_step_induct:
  assumes "P NIL" "\<And>l b t d r. (\<And>x. P (stepway (ND l b t d r) x)) \<Longrightarrow> P (ND l b t d r)"
  shows "P n"
proof (induction n)
  case (ND l b t d r)
  then show ?case using assms(2) [of l b t d r] by simp
qed (rule assms(1))

lemma insert_walkE:
  assumes "insert_walk ix mal key t tt (ND l b tr d r) = Some (n', x)"
  obtains (found) d' where "makeway3 (compkey ix key d) = 0" "x = None" "n' = ND l b tr d' r"
      "if ix_dupkeys ix = AVL_COUNT_DUPS then duprec d = Some d' else d' = d"
    | (down) c aa where "aa = makeway3 (compkey ix key d)" "aa \<in> {- 1, 1}"
      "insert_walk ix mal key (if b \<noteq> 0 then tt else t) (tt @ [aa]) (stepway (ND l b tr d r) aa) = Some (c, x)" "n' = put_way (ND l b aa d r) aa c"
proof (cases "makeway3 (compkey ix key d) = 0")
  case True
  with assms found show ?thesis by (fastforce simp: Let_def split: if_splits)
next
  case False
  define aa where "aa = makeway3 (compkey ix key d)"
  have "aa \<in> {- 1, 1}" using False makeway3_cases [of "compkey ix key d"] by (auto simp: aa_def)
  moreover have "map_option (\<lambda>(c, x). (put_way (ND l b aa d r) aa c, x)) (insert_walk ix mal key (if b \<noteq> 0 then tt else t) (tt @ [aa]) (stepway (ND l b tr d r) aa)) = Some (n', x)"
    unfolding assms [symmetric] using False by (simp add: aa_def Let_def)
  ultimately show ?thesis using down [OF aa_def] by (auto simp del: stepway.simps put_way.simps)
qed

lemma insert_walk_balance:
  assumes "avl_ok n" "insert_walk ix mal key t tt n = Some (n', Some p)"
  shows "p = t \<and> grown (height n) n' \<or>
    (\<exists>xs. p = tt @ xs \<and> avl_ok (upd xs rebalance n') \<and> height (upd xs rebalance n') = height n \<and> mark (upd xs rebalance n') = mark n')"
  using assms
proof (induction n arbitrary: t tt n' p rule: avl_step_induct)
  case 1
  then show ?case by (auto simp: grown_def allocnode_def split: if_splits)
next
  case (2 l b tr d r)
  define t1 where "t1 = (if b \<noteq> 0 then tt else t)"
  from 2(3) obtain c aa where aa: "aa \<in> {- 1, 1}" and c: "insert_walk ix mal key t1 (tt @ [aa]) (stepway (ND l b tr d r) aa) = Some (c, Some p)"
    "n' = put_way (ND l b aa d r) aa c"
    unfolding t1_def by (rule insert_walkE) auto
  have "avl_ok (stepway (ND l b tr d r) aa)" using 2(2) by simp
  from 2(1) [OF this c(1)] show ?case
  proof (elim disjE conjE exE, goal_cases)
    case 1
    show ?thesis
    proof (cases "b = 0")
      case True
      then show ?thesis using grown_node [of l tr d r aa c] 2(2) aa 1 c(2) by (simp add: t1_def)
    next
      case False
      then have "p = tt @ []" using 1 by (simp add: t1_def)
      then show ?thesis using rebalance_node [OF 2(2) False aa 1(2)] c(2) by (metis upd.simps(1))
    qed
  next
    case (2 xs)
    let ?u = "upd (aa # xs) rebalance n'"
    have u: "?u = put_way (ND l b aa d r) aa (upd xs rebalance c)" by (simp add: c(2))
    have "mark ?u = mark n'" using mark_put [OF 2(4), of "ND l b aa d r"] unfolding u unfolding c(2) avl.sel .
    moreover have "avl_ok ?u \<and> height ?u = height (ND l b tr d r)"
      using \<open>avl_ok (ND l b tr d r)\<close> 2(2,3) aa unfolding u by (cases "aa = 1") simp_all
    ultimately show ?thesis using 2(1) by (intro disjI2 exI [of _ "aa # xs"]) simp
  qed
qed

lemma insert_walk_dup:
  "avl_ok n \<Longrightarrow> insert_walk ix mal key t tt n = Some (n', None) \<Longrightarrow> avl_ok n' \<and> height n' = height n"
proof (induction n arbitrary: t tt n' rule: avl_step_induct)
  case (2 l b tr d r)
  from 2(3) show ?case
  proof (cases rule: insert_walkE)
    case (down c aa)
    then show ?thesis using 2(1) [OF _ down(3)] 2(2) by (auto split: if_splits)
  qed (use 2(2) in auto)
qed (auto split: if_splits)

lemma insert_balanced:
  assumes "avl_ok t" "insert_walk ix mal key [] [] t = Some (n, Some p)"
  shows "avl_ok (upd p rebalance n) \<and> mark (upd p rebalance n) = mark n"
  using insert_walk_balance [OF assms]
proof (elim disjE conjE)
  assume "p = []" "grown (height t) n"
  then show ?thesis using rebalance_grown [of "height t" n] by (simp add: grown_def mark_def settle_simps)
qed auto

section \<open>The place of a key\<close>

definition sorted_recs :: "ix_globals \<Rightarrow> rectype list \<Rightarrow> bool" where
  "sorted_recs ix xs \<longleftrightarrow> sorted_wrt (<) (map (rec_key ix) xs) \<and> list_all (rec_ok ix) xs"

text \<open>The records below a key, equal to it and above it.\<close>

definition cut :: "ix_globals \<Rightarrow> rectype \<Rightarrow> rectype list \<Rightarrow> rectype list \<times> rectype list \<times> rectype list" where
  "cut ix key xs = (filter (\<lambda>d. rec_key ix d < rec_key ix key) xs, filter (\<lambda>d. rec_key ix d = rec_key ix key) xs, filter (\<lambda>d. rec_key ix key < rec_key ix d) xs)"

lemma sorted_recs_node:
  "sorted_recs ix (xs @ d # ys) \<longleftrightarrow> sorted_recs ix xs \<and> sorted_recs ix ys \<and> rec_ok ix d \<and>
     (\<forall>x \<in> set xs. rec_key ix x < rec_key ix d) \<and> (\<forall>y \<in> set ys. rec_key ix d < rec_key ix y)"
  by (auto simp: sorted_recs_def sorted_wrt_append intro: less_trans)

lemma cut_all:
  "\<forall>x \<in> set xs. rec_key ix x < b \<Longrightarrow> b \<le> rec_key ix key \<Longrightarrow> cut ix key xs = (xs, [], [])"
  "\<forall>x \<in> set xs. b < rec_key ix x \<Longrightarrow> rec_key ix key \<le> b \<Longrightarrow> cut ix key xs = ([], [], xs)"
  by (induction xs) (auto simp: cut_def)

lemma cut_append: "cut ix key (xs @ ys) = (case (cut ix key xs, cut ix key ys) of ((a, m, z), (a', m', z')) \<Rightarrow> (a @ a', m @ m', z @ z'))"
  by (simp add: cut_def)

lemma cut_node:
  assumes "sorted_recs ix (xs @ d # ys)"
  shows "rec_key ix d < rec_key ix key \<Longrightarrow> cut ix key (xs @ d # ys) = (case cut ix key ys of (a, m, z) \<Rightarrow> (xs @ d # a, m, z))"
    "rec_key ix d = rec_key ix key \<Longrightarrow> cut ix key (xs @ d # ys) = (xs, [d], ys)"
    "rec_key ix key < rec_key ix d \<Longrightarrow> cut ix key (xs @ d # ys) = (case cut ix key xs of (a, m, z) \<Rightarrow> (a, m, z @ d # ys))"
proof -
  have s: "\<forall>x \<in> set xs. rec_key ix x < rec_key ix d" "\<forall>x \<in> set ys. rec_key ix d < rec_key ix x" using assms by (auto simp: sorted_recs_node)
  have d: "cut ix key (xs @ d # ys) = (case (cut ix key xs, cut ix key [d], cut ix key ys) of ((a, m, z), (a1, m1, z1), (a2, m2, z2)) \<Rightarrow> (a @ a1 @ a2, m @ m1 @ m2, z @ z1 @ z2))"
    using cut_append [of ix key xs "[d] @ ys"] cut_append [of ix key "[d]" ys] by (simp split: prod.splits)
  {
    assume "rec_key ix d < rec_key ix key"
    then show "cut ix key (xs @ d # ys) = (case cut ix key ys of (a, m, z) \<Rightarrow> (xs @ d # a, m, z))"
      using cut_all(1) [OF s(1), of key] unfolding d by (auto simp: cut_def)
  next
    assume "rec_key ix d = rec_key ix key"
    then show "cut ix key (xs @ d # ys) = (xs, [d], ys)"
      using cut_all(1) [OF s(1), of key] cut_all(2) [OF s(2), of key] unfolding d by (auto simp: cut_def)
  next
    assume "rec_key ix key < rec_key ix d"
    then show "cut ix key (xs @ d # ys) = (case cut ix key xs of (a, m, z) \<Rightarrow> (a, m, z @ d # ys))"
      using cut_all(2) [OF s(2), of key] unfolding d by (auto simp: cut_def)
  }
qed

fun place :: "ix_globals \<Rightarrow> rectype \<Rightarrow> avl \<Rightarrow> avl" where
  "place ix key NIL = NIL"
| "place ix key (ND l b t d r) =
     (let aa = makeway3 (compkey ix key d) in
      if aa = 0 then ND l b 0 d r else if aa = 1 then ND l b 1 d (place ix key r) else ND (place ix key l) b aa d r)"

lemma inorder_place [simp]: "inorder (place ix key t) = inorder t"
  by (induction t) (auto simp: Let_def)

lemma avl_ok_place: "height (place ix key t) = height t \<and> (avl_ok t \<longrightarrow> avl_ok (place ix key t))"
  by (induction t) (auto simp: Let_def makeway3_def)

lemma mark_place:
  assumes "sorted_recs ix (inorder t)" "rec_ok ix key"
  shows "mark (place ix key t) = cut ix key (inorder t)"
  using assms(1)
proof (induction t)
  case (ND l b tr d r)
  have s: "sorted_recs ix (inorder l @ d # inorder r)" and ok: "rec_ok ix d" using ND.prems by (simp_all add: sorted_recs_node)
  note cmp = ko.makeway3_cmp [OF assms(2) ok]
  consider "rec_key ix d < rec_key ix key" | "rec_key ix d = rec_key ix key" | "rec_key ix key < rec_key ix d" by fastforce
  then show ?case
  proof cases
    case 1
    then show ?thesis using ND.IH(2) s cmp cut_node(1) [OF s 1] by (simp add: Let_def mark_def sorted_recs_node split: prod.splits)
  next
    case 2
    then show ?thesis using cmp cut_node(2) [OF s 2] by (simp add: Let_def mark_def)
  next
    case 3
    then show ?thesis using ND.IH(1) s cmp cut_node(3) [OF s 3] by (auto simp: Let_def mark_def sorted_recs_node split: prod.splits)
  qed
qed (simp add: mark_def cut_def)

lemma insert_walk_mark:
  assumes "sorted_recs ix (inorder t)" "rec_ok ix key" "insert_walk ix mal key tp tt t = Some (n, Some p)"
  shows "mark n = (case cut ix key (inorder t) of (a, m, z) \<Rightarrow> (a, [ndata (allocnode ix (key\<lparr>rcount := 1\<rparr>))], z)) \<and> fst (snd (cut ix key (inorder t))) = []"
  using assms(1,3)
proof (induction t arbitrary: tp tt n rule: avl_step_induct)
  case 1
  then show ?case by (auto simp: mark_def cut_def allocnode_def split: if_splits)
next
  case (2 l b tr d r)
  have s: "sorted_recs ix (inorder l @ d # inorder r)" and ok: "rec_ok ix d" using 2(2) by (simp_all add: sorted_recs_node)
  note cmp = ko.makeway3_cmp [OF assms(2) ok]
  from 2(3) obtain c aa tp' where aa: "aa \<in> {- 1, 1}" "aa = makeway3 (compkey ix key d)" and
    c: "insert_walk ix mal key tp' (tt @ [aa]) (stepway (ND l b tr d r) aa) = Some (c, Some p)" "n = put_way (ND l b aa d r) aa c"
    by (rule insert_walkE) auto
  have "sorted_recs ix (inorder (stepway (ND l b tr d r) aa))" using s by (simp add: sorted_recs_node)
  note IH = 2(1) [OF this c(1)]
  consider "aa = 1" "rec_key ix d < rec_key ix key" | "aa = - 1" "rec_key ix key < rec_key ix d" using aa cmp by auto
  then show ?case
  proof cases
    case 1
    then show ?thesis using IH cut_node(1) [OF s 1(2)] c(2) by (auto simp: mark_def split: prod.splits)
  next
    case 2
    then show ?thesis using IH cut_node(3) [OF s 2(2)] c(2) by (auto simp: mark_def split: prod.splits)
  qed
qed

lemma insert_walk_found:
  assumes "sorted_recs ix (inorder t)" "rec_ok ix key" "insert_walk ix mal key tp tt t = Some (n, None)"
  shows "\<exists>a d d' z. cut ix key (inorder t) = (a, [d], z) \<and> inorder n = a @ d' # z \<and> (if ix_dupkeys ix = AVL_COUNT_DUPS then duprec d = Some d' else d' = d)"
  using assms(1,3)
proof (induction t arbitrary: tp tt n rule: avl_step_induct)
  case 1
  then show ?case by (auto split: if_splits)
next
  case (2 l b tr d r)
  have s: "sorted_recs ix (inorder l @ d # inorder r)" and ok: "rec_ok ix d" using 2(2) by (simp_all add: sorted_recs_node)
  note cmp = ko.makeway3_cmp [OF assms(2) ok]
  from 2(3) show ?case
  proof (cases rule: insert_walkE)
    case (found d')
    then show ?thesis using cut_node(2) [OF s, of key] cmp by auto
  next
    case (down c aa)
    have "sorted_recs ix (inorder (stepway (ND l b tr d r) aa))" using s by (simp add: sorted_recs_node)
    note IH = 2(1) [OF this down(3)]
    consider "aa = 1" "rec_key ix d < rec_key ix key" | "aa = - 1" "rec_key ix key < rec_key ix d" using down(1,2) cmp by auto
    then show ?thesis
    proof cases
      case 1
      then show ?thesis using IH cut_node(1) [OF s 1(2)] down(4) by fastforce
    next
      case 2
      then show ?thesis using IH cut_node(3) [OF s 2(2)] down(4) by fastforce
    qed
  qed
qed

lemma insert_walk_exit:
  "insert_walk ix True key tp tt t = None \<Longrightarrow>
   ix_dupkeys ix = AVL_COUNT_DUPS \<and> (\<exists>d \<in> set (inorder t). makeway3 (compkey ix key d) = 0 \<and> duprec d = None)"
proof (induction t arbitrary: tp tt)
  case (ND l b tr d r)
  then show ?case by (auto simp: Let_def split: if_splits dest: ND.IH)
qed simp

section \<open>Searching\<close>

lemma extreme_right:
  "q \<noteq> NIL \<Longrightarrow> avl_ok q \<Longrightarrow> case extreme True (- 1) q of (x, q') \<Rightarrow> x = Some (hd (inorder q)) \<and> q' \<noteq> NIL \<and> avl_ok q' \<and> height q' = height q \<and>
     mark q' = ([], [hd (inorder q)], tl (inorder q))"
proof (induction q)
  case (ND l b t d r)
  show ?case
  proof (cases "l = NIL")
    case False
    then obtain l' x where "extreme True (- 1) l = (x, l')" by (cases "extreme True (- 1) l")
    moreover have "inorder l \<noteq> []" using False by (cases l) auto
    ultimately show ?thesis using ND.IH(1) [OF False] ND.prems(2) False by (auto simp: mark_def)
  qed (use ND.prems in \<open>auto simp: mark_def\<close>)
qed simp

lemma extreme_left:
  "q \<noteq> NIL \<Longrightarrow> avl_ok q \<Longrightarrow> case extreme True 1 q of (x, q') \<Rightarrow> x = Some (last (inorder q)) \<and> q' \<noteq> NIL \<and> avl_ok q' \<and> height q' = height q \<and>
     mark q' = (butlast (inorder q), [last (inorder q)], [])"
proof (induction q)
  case (ND l b t d r)
  show ?case
  proof (cases "r = NIL")
    case False
    then obtain r' x where "extreme True 1 r = (x, r')" by (cases "extreme True 1 r")
    moreover have "inorder r \<noteq> []" using False by (cases r) auto
    ultimately show ?thesis using ND.IH(2) [OF False] ND.prems(2) False by (auto simp: mark_def butlast_append)
  qed (use ND.prems in \<open>auto simp: mark_def\<close>)
qed simp

definition forward :: "bool \<Rightarrow> avl \<Rightarrow> rectype option \<times> rectype list \<times> rectype list \<times> rectype list" where
  "forward e t = (if e \<and> here t \<noteq> [] then (Some (hd (here t)), mark t)
     else case after t of [] \<Rightarrow> (None, mark t) | y # ys \<Rightarrow> (Some y, before t @ here t, [y], ys))"

definition backward :: "avl \<Rightarrow> rectype option \<times> rectype list \<times> rectype list \<times> rectype list" where
  "backward t = (if before t = [] then (None, mark t) else (Some (last (before t)), butlast (before t), [last (before t)], here t @ after t))"

lemma length_here: "here t = [] \<or> (\<exists>d. here t = [d])"
  by (induction t) auto

lemma inorder_Nil [simp]: "inorder t = [] \<longleftrightarrow> t = NIL"
  by (cases t) auto

lemma search_forward:
  assumes "has fl SRF_SETMARK" "has fl SRF_FROMMARK" "search_dir fl = 1" "has fl (SRF_FINDLESS OR SRF_FINDGREAT)" "avl_ok t"
  shows "case search_loop ix fl key t of (x, t') \<Rightarrow> (x, mark t') = forward (has fl SRF_FINDEQUAL) t \<and> avl_ok t' \<and> height t' = height t"
  using assms(5)
proof (induction t)
  case (ND l b tr d r)
  consider "tr = 0" | "tr = 1" | "tr = - 1" using ND.prems by auto
  then show ?case
  proof cases
    case 1
    show ?thesis
    proof (cases "r = NIL")
      case False
      then obtain x r' where "extreme True (- 1) r = (x, r')" by (cases "extreme True (- 1) r")
      then show ?thesis using extreme_right [OF False] ND.prems False 1 assms(1-4) mark_inorder [of r' r]
        by (cases "inorder r") (auto simp: Let_def forward_def mark_def way3opp_def)
    qed (use ND.prems 1 assms(1-4) in \<open>auto simp: Let_def forward_def mark_def\<close>)
  next
    case 2
    obtain x r' where "search_loop ix fl key r = (x, r')" by (cases "search_loop ix fl key r")
    then show ?thesis using ND.IH(2) ND.prems 2 assms(1-4)
      by (auto simp: Let_def forward_def mark_def way3opp_def split: if_splits list.splits)
  next
    case 3
    obtain x l' where "search_loop ix fl key l = (x, l')" by (cases "search_loop ix fl key l")
    then show ?thesis using ND.IH(1) ND.prems 3 assms(1-4) inorder_mark [of l']
      by (auto simp: Let_def forward_def mark_def way3opp_def split: if_splits list.splits)
  qed
qed (simp add: forward_def mark_def)

lemma search_backward:
  assumes "has fl SRF_SETMARK" "has fl SRF_FROMMARK" "search_dir fl = - 1" "has fl (SRF_FINDLESS OR SRF_FINDGREAT)" "\<not> has fl SRF_FINDEQUAL" "avl_ok t"
  shows "case search_loop ix fl key t of (x, t') \<Rightarrow> (x, mark t') = backward t \<and> avl_ok t' \<and> height t' = height t"
  using assms(6)
proof (induction t)
  case (ND l b tr d r)
  consider "tr = 0" | "tr = 1" | "tr = - 1" using ND.prems by auto
  then show ?case
  proof cases
    case 1
    show ?thesis
    proof (cases "l = NIL")
      case False
      then obtain x l' where "extreme True 1 l = (x, l')" by (cases "extreme True 1 l")
      then show ?thesis using extreme_left [OF False] ND.prems False 1 assms(1-5)
        by (auto simp: Let_def backward_def mark_def way3opp_def)
    qed (use ND.prems 1 assms(1-5) in \<open>auto simp: Let_def backward_def mark_def\<close>)
  next
    case 2
    obtain x r' where "search_loop ix fl key r = (x, r')" by (cases "search_loop ix fl key r")
    then show ?thesis using ND.IH(2) ND.prems 2 assms(1-5) inorder_mark [of r']
      by (auto simp: Let_def backward_def mark_def way3opp_def butlast_append split: if_splits)
  next
    case 3
    obtain x l' where "search_loop ix fl key l = (x, l')" by (cases "search_loop ix fl key l")
    then show ?thesis using ND.IH(1) ND.prems 3 assms(1-5)
      by (auto simp: Let_def backward_def mark_def way3opp_def split: if_splits)
  qed
qed (simp add: backward_def mark_def)

lemma search_exact:
  assumes "has fl SRF_SETMARK" "has fl SRF_FROMMARK" "search_dir fl = 0" "\<not> has fl (SRF_FINDLESS OR SRF_FINDGREAT)" "has fl SRF_FINDEQUAL" "avl_ok t"
  shows "search_loop ix fl key t = (case here t of [] \<Rightarrow> None | d # _ \<Rightarrow> Some d, t)"
  using assms(6)
proof (induction t)
  case (ND l b tr d r)
  consider "tr = 0" | "tr = 1" | "tr = - 1" using ND.prems by auto
  then show ?case using ND.IH ND.prems assms(1-5) by cases (auto simp: Let_def)
qed simp

text \<open>Searching by a key is setting the mark to its place and searching from the mark.\<close>

lemma search_place:
  assumes "has fl SRF_SETMARK" "\<not> has fl SRF_FROMMARK" "has fl' SRF_SETMARK" "has fl' SRF_FROMMARK" "search_dir fl' = search_dir fl"
    "has fl' (SRF_FINDLESS OR SRF_FINDGREAT) = has fl (SRF_FINDLESS OR SRF_FINDGREAT)" "has fl' SRF_FINDEQUAL = has fl SRF_FINDEQUAL"
  shows "search_loop ix fl key t = search_loop ix fl' key (place ix key t)"
proof (induction t)
  case (ND l b tr d r)
  consider "makeway3 (compkey ix key d) = 0" | "makeway3 (compkey ix key d) = 1" | "makeway3 (compkey ix key d) = - 1"
    using makeway3_cases [of "compkey ix key d"] by auto
  then show ?case using assms ND.IH by cases (auto simp: Let_def split: prod.split)
qed simp

end
