(* ===== verification/Avl_Delete.thy ===== *)
theory Avl_Delete
  imports Avl_Laws
begin

text \<open>
  Laws of deleting from the index trees: the tree stays balanced, the record is gone and the mark is left where it was.
\<close>

section \<open>One step of balancing\<close>

definition stops :: "avl \<Rightarrow> way3 \<Rightarrow> bool" where
  "stops n aa \<longleftrightarrow> nbalance n = 0 \<or> nbalance n \<noteq> aa \<and> nbalance (stepopp n aa) = 0"

lemma adjust_ok:
  assumes "avl_ok (ND l b tr d r)" "aa \<in> {- 1, 1}" "avl_ok c" "Suc (height c) = height (stepway (ND l b tr d r) aa)"
  shows "avl_ok (adjust (put_way (ND l b aa d' r) aa c)) \<and> inorder (adjust (put_way (ND l b aa d' r) aa c)) = inorder (put_way (ND l b aa d' r) aa c) \<and>
    height (ND l b tr d r) = (if stops (ND l b tr d r) aa then 0 else 1) + height (adjust (put_way (ND l b aa d' r) aa c))"
proof -
  note defs = adjust_def Let_def restruct_def way3sum_def way3opp_def way3opp2_def stops_def
  consider "b \<noteq> - aa" | "b = - aa" by auto
  then show ?thesis
  proof cases
    case 1
    then have "b = 0 \<or> b = aa" using assms(1,2) by auto
    moreover have "aa = 1 \<or> aa = - 1" using assms(2) by auto
    ultimately show ?thesis using assms(1,3,4) by (elim disjE) (simp_all add: defs)
  next
    case 2
    obtain ul ub ut ud ur where u: "stepopp (ND l b tr d r) aa = ND ul ub ut ud ur"
      using 2 assms by (cases "stepopp (ND l b tr d r) aa") (auto simp: way3opp_def)
    have ok: "avl_ok (ND ul ub ut ud ur)" using assms(1) unfolding u [symmetric] by simp
    have a: "aa = 1 \<or> aa = - 1" using assms(2) by auto
    consider "ub = 0 \<or> ub = - aa" | "ub = aa" using ok assms(2) by auto
    then show ?thesis
    proof cases
      case 1
      then show ?thesis using 2 a u assms(1,3,4) by (elim disjE) (simp_all add: defs, (elim conjE, intro conjI; linarith)+)
    next
      case y: 2
      obtain pl pb pt pd pr where p: "stepway (ND ul ub ut ud ur) aa = ND pl pb pt pd pr"
        using y ok assms(2) by (cases "stepway (ND ul ub ut ud ur) aa") auto
      have "pb \<in> {- 1, 0, 1}" using ok p by (auto split: if_splits)
      then show ?thesis using 2 y a u p assms(1,3,4) by (elim insertE emptyE disjE) (simp_all add: defs, (elim conjE, intro conjI; linarith)+)
    qed
  qed
qed

section \<open>Taking out the last node of the path\<close>

definition pull :: "way3 list \<Rightarrow> avl \<Rightarrow> avl" where
  "pull xs n = upd xs (\<lambda>_. stepopp (at xs n) (ntrace (at xs n))) n"

lemma way_put [simp]: "stepway (put_way (ND l b t d r) x c) x = c" "ntrace (put_way n x c) = ntrace n" "put_way n x c = NIL \<longleftrightarrow> n = NIL"
  "put_way (put_way n x c) x c' = put_way n x c'"
  by (cases n; simp)+

lemma at_Cons [simp]: "at (x # xs) (put_way (ND l b t d r) x c) = at xs c"
  by simp

lemma upd_Cons [simp]: "upd (x # xs) f (put_way (ND l b t d r) x c) = put_way (ND l b t d r) x (upd xs f c)"
  by simp

lemma pull_Cons: "pull (x # xs) (put_way (ND l b t d r) x c) = put_way (ND l b t d r) x (pull xs c)"
  by (simp only: pull_def at_Cons upd_Cons)

lemma shrink_Cons: "shrink (y # xs) (put_way (ND l b x d r) x c) = adjust (put_way (ND l b x d r) x (shrink xs c))"
  by (simp only: shrink.simps way_put avl.sel)

lemma walk_below:
  "aaa \<noteq> 0 \<Longrightarrow> aaa = 1 \<or> aaa = - 1 \<Longrightarrow> delete_walk ix fl key aaa t1 tt w (ND l b tr d r) =
     (case delete_walk ix fl key aaa (if stops (ND l b tr d r) aaa then tt else t1) (tt @ [aaa]) (w\<lparr>dw_t := t1, dw_tt1 := tt\<rparr>) (stepway (ND l b tr d r) aaa) of
        (c, x) \<Rightarrow> (put_way (ND l b aaa d r) aaa c, x))"
  by (auto simp: Let_def stops_def)

text \<open>The balancing from the place that the walk has found: above the tree, or at \<open>ys\<close> in it.\<close>

definition kept :: "way3 list \<Rightarrow> way3 list \<Rightarrow> way3 list \<Rightarrow> avl \<Rightarrow> nat \<Rightarrow> rectype list \<Rightarrow> bool" where
  "kept tt t xs m h ds \<longleftrightarrow>
     (\<exists>ys zs. xs = ys @ zs \<and> t = tt @ ys \<and> avl_ok (upd ys (shrink zs) m) \<and> height (upd ys (shrink zs) m) = h \<and> inorder (upd ys (shrink zs) m) = ds)"

definition settled :: "way3 list \<Rightarrow> way3 list \<Rightarrow> way3 list \<Rightarrow> way3 list \<Rightarrow> avl \<Rightarrow> nat \<Rightarrow> rectype list \<Rightarrow> bool" where
  "settled t1 tt t xs m h ds \<longleftrightarrow>
     t = t1 \<and> avl_ok (shrink xs m) \<and> Suc (height (shrink xs m)) = h \<and> inorder (shrink xs m) = ds \<or> kept tt t xs m h ds"

abbreviation around :: "way3 \<Rightarrow> avl \<Rightarrow> rectype \<Rightarrow> rectype list \<Rightarrow> avl \<Rightarrow> rectype list" where
  "around aa l d ds r \<equiv> (if aa = 1 then inorder l @ d # ds else ds @ d # inorder r)"

lemma kept_node:
  assumes "avl_ok (ND l b tr d r)" "aa \<in> {- 1, 1}" "kept (tt @ [aa]) t xs m (height (stepway (ND l b tr d r) aa)) ds"
  shows "kept tt t (aa # xs) (put_way (ND l b aa d' r) aa m) (height (ND l b tr d r)) (around aa l d' ds r)"
  using assms(3) unfolding kept_def
proof (elim exE conjE, goal_cases)
  case (1 ys zs)
  then show ?case using assms(1,2) by (intro exI [of _ "aa # ys"] exI [of _ zs]) auto
qed

lemma shrink_node:
  assumes "avl_ok (ND l b tr d r)" "aa \<in> {- 1, 1}" "avl_ok (shrink xs m)" "Suc (height (shrink xs m)) = height (stepway (ND l b tr d r) aa)"
  shows "avl_ok (shrink (aa # xs) (put_way (ND l b aa d' r) aa m)) \<and> inorder (shrink (aa # xs) (put_way (ND l b aa d' r) aa m)) = around aa l d' (inorder (shrink xs m)) r \<and>
    height (ND l b tr d r) = (if stops (ND l b tr d r) aa then 0 else 1) + height (shrink (aa # xs) (put_way (ND l b aa d' r) aa m))"
  using adjust_ok [OF assms, of d'] assms(2) unfolding shrink_Cons by auto

lemma settled_node:
  assumes "avl_ok (ND l b tr d r)" "aa \<in> {- 1, 1}"
    "settled (if stops (ND l b tr d r) aa then tt else t1) (tt @ [aa]) t xs m (height (stepway (ND l b tr d r) aa)) ds"
  shows "if stops (ND l b tr d r) aa then kept tt t (aa # xs) (put_way (ND l b aa d' r) aa m) (height (ND l b tr d r)) (around aa l d' ds r)
    else settled t1 tt t (aa # xs) (put_way (ND l b aa d' r) aa m) (height (ND l b tr d r)) (around aa l d' ds r)"
proof (cases "kept (tt @ [aa]) t xs m (height (stepway (ND l b tr d r) aa)) ds")
  case True
  then show ?thesis using kept_node [OF assms(1,2), of tt t xs m ds d'] by (simp add: settled_def)
next
  case False
  then have m: "t = (if stops (ND l b tr d r) aa then tt else t1)" "avl_ok (shrink xs m)"
    "Suc (height (shrink xs m)) = height (stepway (ND l b tr d r) aa)" "inorder (shrink xs m) = ds"
    using assms(3) by (simp_all add: settled_def)
  note u = shrink_node [OF assms(1,2) m(2,3), of d', unfolded m(4)]
  show ?thesis
  proof (cases "stops (ND l b tr d r) aa")
    case True
    then show ?thesis using u m(1) unfolding kept_def by (auto intro!: exI [of _ "[]"])
  next
    case False
    then show ?thesis using u m(1) by (simp add: settled_def)
  qed
qed

lemma settled_above:
  assumes "avl_ok (ND l b tr d r)" "aa \<in> {- 1, 1}"
    "settled (if stops (ND l b tr d r) aa then tt else t1) (tt @ [aa]) t xs m (height (stepway (ND l b tr d r) aa)) ds"
  shows "settled t1 tt t (aa # xs) (put_way (ND l b aa d' r) aa m) (height (ND l b tr d r)) (around aa l d' ds r)"
proof (cases "stops (ND l b tr d r) aa")
  case True
  then show ?thesis using settled_node [OF assms, of d'] unfolding settled_def if_P [OF True] by blast
next
  case False
  show ?thesis using settled_node [OF assms, of d'] unfolding if_not_P [OF False] .
qed

lemma walk_extreme:
  assumes "a \<in> {- 1, 1}" "n \<noteq> NIL" "avl_ok n"
  shows "\<exists>n' xs t. delete_walk ix fl key a t1 tt w n = (n', a, w\<lparr>dw_t := t, dw_tt1 := tt @ xs\<rparr>) \<and>
    ndata (at xs n') = (if a = 1 then last (inorder n) else hd (inorder n)) \<and>
    settled t1 tt t xs (pull xs n') (height n) (if a = 1 then butlast (inorder n) else tl (inorder n))"
  using assms(2,3)
proof (induction n arbitrary: t1 tt w rule: avl_step_induct)
  case (2 l b tr d r)
  let ?n = "ND l b tr d r"
  have a: "a \<noteq> 0" "a = 1 \<or> a = - 1" using assms(1) by auto
  note walk = walk_below [OF a, of ix fl key t1 tt w l b tr d r]
  show ?case
  proof (cases "stepway ?n a = NIL")
    case True
    have "delete_walk ix fl key a t1 tt w ?n = (put_way (ND l b a d r) a NIL, a, w\<lparr>dw_t := t1, dw_tt1 := tt @ []\<rparr>)" unfolding walk True by simp
    moreover have "ndata (at [] (put_way (ND l b a d r) a NIL)) = (if a = 1 then last (inorder ?n) else hd (inorder ?n)) \<and>
      settled t1 tt t1 [] (pull [] (put_way (ND l b a d r) a NIL)) (height ?n) (if a = 1 then butlast (inorder ?n) else tl (inorder ?n))"
      using True 2(3) a(2) by (auto simp: settled_def pull_def way3opp_def)
    ultimately show ?thesis by blast
  next
    case False
    have "avl_ok (stepway ?n a)" using 2(3) by simp
    from 2(1) [OF False this, of "if stops ?n a then tt else t1" "tt @ [a]" "w\<lparr>dw_t := t1, dw_tt1 := tt\<rparr>"]
    obtain c xs t where c: "delete_walk ix fl key a (if stops ?n a then tt else t1) (tt @ [a]) (w\<lparr>dw_t := t1, dw_tt1 := tt\<rparr>) (stepway ?n a) =
        (c, a, w\<lparr>dw_t := t1, dw_tt1 := tt\<rparr>\<lparr>dw_t := t, dw_tt1 := (tt @ [a]) @ xs\<rparr>)"
      "ndata (at xs c) = (if a = 1 then last (inorder (stepway ?n a)) else hd (inorder (stepway ?n a)))"
      "settled (if stops ?n a then tt else t1) (tt @ [a]) t xs (pull xs c) (height (stepway ?n a)) (if a = 1 then butlast (inorder (stepway ?n a)) else tl (inorder (stepway ?n a)))"
      by blast
    let ?n' = "put_way (ND l b a d r) a c"
    have "delete_walk ix fl key a t1 tt w ?n = (?n', a, w\<lparr>dw_t := t, dw_tt1 := tt @ a # xs\<rparr>)" unfolding walk c(1) by simp
    moreover have "ndata (at (a # xs) ?n') = (if a = 1 then last (inorder ?n) else hd (inorder ?n))"
      using c(2) False a(2) by (auto simp: hd_append)
    moreover have "settled t1 tt t (a # xs) (pull (a # xs) ?n') (height ?n) (if a = 1 then butlast (inorder ?n) else tl (inorder ?n))"
      using settled_above [OF 2(3) assms(1) c(3), of d] False a(2) unfolding pull_Cons
      by (elim disjE) (simp_all add: butlast_append)
    ultimately show ?thesis by blast
  qed
qed simp


section \<open>The walk to the record\<close>

definition take_out :: "way3 list \<Rightarrow> way3 list \<Rightarrow> avl \<Rightarrow> avl" where
  "take_out xs qs n = (if xs \<noteq> qs then upd qs (put_data (ndata (at xs n))) (pull xs n) else pull xs n)"

lemma take_out_Cons: "take_out (x # xs) (x # qs) (put_way (ND l b t d r) x c) = put_way (ND l b t d r) x (take_out xs qs c)"
  by (cases "xs = qs") (simp_all only: take_out_def pull_Cons at_Cons upd_Cons list.inject simp_thms if_True if_False)

lemma take_out_Nil: "take_out (x # xs) [] (put_way (ND l b t d r) x c) = put_way (ND l b t (ndata (at xs c)) r) x (pull xs c)"
  unfolding take_out_def pull_Cons at_Cons by simp

lemma walk_down:
  "tr \<noteq> 0 \<Longrightarrow> tr = 1 \<or> tr = - 1 \<Longrightarrow> has fl SRF_FROMMARK \<Longrightarrow> delete_walk ix fl key 0 t1 tt w (ND l b tr d r) =
     (case delete_walk ix fl key 0 (if stops (ND l b tr d r) tr then tt else t1) (tt @ [tr]) (w\<lparr>dw_t := t1, dw_tt1 := tt\<rparr>) (stepway (ND l b tr d r) tr) of
        (c, x) \<Rightarrow> (put_way (ND l b tr d r) tr c, x))"
  by (auto simp: Let_def stops_def)

lemma walk_found:
  "aa = (if b \<noteq> 0 then b else - 1) \<Longrightarrow> aa = 1 \<or> aa = - 1 \<Longrightarrow> has fl SRF_FROMMARK \<Longrightarrow> delete_walk ix fl key 0 t1 tt w (ND l b 0 d r) =
     (case delete_walk ix fl key (- aa) (if stops (ND l b 0 d r) aa then tt else t1) (tt @ [aa]) (w\<lparr>dw_qq1 := tt, dw_q := Some d, dw_rr := t1, dw_t := t1, dw_tt1 := tt\<rparr>)
        (stepway (ND l b 0 d r) aa) of (c, x) \<Rightarrow> (put_way (ND l b aa d r) aa c, x))"
  by (auto simp: Let_def stops_def way3opp_def)

declare delete_walk.simps(2) [simp del]

lemma butlast_last_append: "xs \<noteq> [] \<Longrightarrow> butlast xs @ last xs # ys = xs @ ys"
  using append_butlast_last_id [of xs] by (metis append.assoc append_Cons append_Nil)

lemma retrace_place: "\<forall>d \<in> set (inorder t). makeway3 (compkey ix q d) \<noteq> 0 \<Longrightarrow> retrace ix q t = place ix q t"
  by (induction t) (auto simp: Let_def)

lemma retrace_mark:
  assumes "sorted_recs ix (xs @ q # ys)" "inorder u = xs @ ys" "avl_ok u"
  shows "avl_ok (retrace ix q u) \<and> height (retrace ix q u) = height u \<and> mark (retrace ix q u) = (xs, [], ys)"
proof -
  have s: "\<forall>x \<in> set xs. rec_key ix x < rec_key ix q" "\<forall>y \<in> set ys. rec_key ix q < rec_key ix y" "rec_ok ix q" "\<forall>d \<in> set (xs @ ys). rec_ok ix d"
    using assms(1) unfolding sorted_recs_node by (auto simp: sorted_recs_def list_all_iff)
  have "makeway3 (compkey ix q d) \<noteq> 0" if "d \<in> set (inorder u)" for d
    using that s assms(2) ko.makeway3_cmp(3) [of ix q d] by auto
  then have r: "retrace ix q u = place ix q u" by (simp add: retrace_place)
  have "sorted_recs ix (inorder u)" unfolding assms(2) using assms(1) by (auto simp: sorted_recs_def sorted_wrt_append)
  then have "mark (place ix q u) = cut ix q (xs @ ys)" using mark_place [of ix u q] s(3) assms(2) by simp
  then show ?thesis using cut_all(1) [OF s(1)] cut_all(2) [OF s(2)] avl_ok_place [of ix q u] assms(3) by (simp add: r cut_append)
qed

definition walked :: "ix_globals \<Rightarrow> way3 list \<Rightarrow> way3 list \<Rightarrow> del_places \<Rightarrow> way3 list \<Rightarrow> way3 list \<Rightarrow> avl \<Rightarrow> rectype \<Rightarrow> avl \<Rightarrow> bool" where
  "walked ix t1 tt w xs qs n' q n \<longleftrightarrow>
     settled t1 tt (dw_t w) xs (take_out xs qs n') (height n) (before n @ after n) \<and> dw_rr w = t1 \<or>
     (\<exists>rs ys zs. xs = (rs @ ys) @ zs \<and> dw_t w = tt @ rs @ ys \<and> dw_rr w = tt @ rs \<and>
       (let u = upd rs (retrace ix q) (upd (rs @ ys) (shrink zs) (take_out xs qs n')) in
        avl_ok u \<and> height u = height n \<and> mark u = (before n, [], after n)))"

lemma walk_marked_found:
  assumes "has fl SRF_FROMMARK" "avl_ok (ND l b 0 d r)"
  shows "\<exists>n' a w' xs qs. delete_walk ix fl key 0 t1 tt w (ND l b 0 d r) = (n', a, w') \<and> dw_q w' = Some d \<and> dw_tt1 w' = tt @ xs \<and> dw_qq1 w' = tt @ qs \<and>
    walked ix t1 tt w' xs qs n' d (ND l b 0 d r)"
proof -
  let ?n = "ND l b 0 d r"
  define aa where "aa = (if b \<noteq> 0 then b else - 1)"
  have aa: "aa \<in> {- 1, 1}" "aa = 1 \<or> aa = - 1" "- aa \<in> {- 1, 1}" using assms(2) by (auto simp: aa_def)
  let ?w = "w\<lparr>dw_qq1 := tt, dw_q := Some d, dw_rr := t1, dw_t := t1, dw_tt1 := tt\<rparr>"
  note walk = walk_found [OF aa_def aa(2) assms(1), of ix key t1 tt w l d r]
  show ?thesis
  proof (cases "stepway ?n aa = NIL")
    case True
    let ?n' = "put_way (ND l b aa d r) aa NIL"
    have "l = NIL" "r = NIL" using True assms(2) by (auto simp: aa_def split: if_splits)
    then have "walked ix t1 tt ?w [] [] ?n' d ?n"
      by (simp add: walked_def settled_def take_out_def pull_def)
    moreover have "delete_walk ix fl key 0 t1 tt w ?n = (?n', - aa, ?w)" unfolding walk True by simp
    ultimately show ?thesis by (intro exI [of _ ?n'] exI [of _ "- aa"] exI [of _ ?w] exI [of _ "[]"]) simp
  next
    case False
    have "avl_ok (stepway ?n aa)" using assms(2) by simp
    from walk_extreme [OF aa(3) False this, of ix fl key "if stops ?n aa then tt else t1" "tt @ [aa]" ?w]
    obtain c xs t where c: "delete_walk ix fl key (- aa) (if stops ?n aa then tt else t1) (tt @ [aa]) ?w (stepway ?n aa) =
        (c, - aa, ?w\<lparr>dw_t := t, dw_tt1 := (tt @ [aa]) @ xs\<rparr>)"
      "ndata (at xs c) = (if - aa = 1 then last (inorder (stepway ?n aa)) else hd (inorder (stepway ?n aa)))"
      "settled (if stops ?n aa then tt else t1) (tt @ [aa]) t xs (pull xs c) (height (stepway ?n aa))
        (if - aa = 1 then butlast (inorder (stepway ?n aa)) else tl (inorder (stepway ?n aa)))"
      by blast
    let ?n' = "put_way (ND l b aa d r) aa c" and ?w' = "?w\<lparr>dw_t := t, dw_tt1 := (tt @ [aa]) @ xs\<rparr>"
    have "settled t1 tt t (aa # xs) (take_out (aa # xs) [] ?n') (height ?n) (before ?n @ after ?n)"
      using settled_above [OF assms(2) aa(1) c(3), of "ndata (at xs c)"] c(2) False aa(2) unfolding take_out_Nil by (elim disjE) (simp_all add: butlast_last_append)
    then have "walked ix t1 tt ?w' (aa # xs) [] ?n' d ?n" by (simp add: walked_def)
    moreover have "delete_walk ix fl key 0 t1 tt w ?n = (?n', - aa, ?w')" unfolding walk c(1) by simp
    ultimately show ?thesis by (intro exI [of _ ?n'] exI [of _ "- aa"] exI [of _ ?w'] exI [of _ "aa # xs"] exI [of _ "[]"]) simp
  qed
qed

lemma walked_node:
  assumes "avl_ok (ND l b tr d r)" "tr \<in> {- 1, 1}" "sorted_recs ix (inorder (ND l b tr d r))" "here (ND l b tr d r) = [q]"
    "walked ix (if stops (ND l b tr d r) tr then tt else t1) (tt @ [tr]) w xs qs c q (stepway (ND l b tr d r) tr)"
  shows "walked ix t1 tt w (tr # xs) (tr # qs) (put_way (ND l b tr d r) tr c) q (ND l b tr d r)"
proof -
  let ?n = "ND l b tr d r"
  have ds: "around tr l d (before (stepway ?n tr) @ after (stepway ?n tr)) r = before ?n @ after ?n" using assms(2) by auto
  have sq: "sorted_recs ix (before ?n @ q # after ?n)" using assms(3,4) inorder_mark [of ?n] by simp
  from assms(5) [unfolded walked_def] show ?thesis
  proof (elim disjE conjE exE, goal_cases)
    case 1
    note s = settled_node [OF assms(1,2) 1(1), of d, folded take_out_Cons, unfolded ds]
    show ?thesis
    proof (cases "stops ?n tr")
      case True
      then obtain ys zs where "tr # xs = ys @ zs" "dw_t w = tt @ ys" "dw_rr w = tt"
        and u: "avl_ok (upd ys (shrink zs) (take_out (tr # xs) (tr # qs) (put_way ?n tr c)))"
          "height (upd ys (shrink zs) (take_out (tr # xs) (tr # qs) (put_way ?n tr c))) = height ?n"
          "inorder (upd ys (shrink zs) (take_out (tr # xs) (tr # qs) (put_way ?n tr c))) = before ?n @ after ?n"
        using s 1(2) unfolding kept_def if_P [OF True] by blast
      then show ?thesis using retrace_mark [OF sq u(3,1)] unfolding walked_def
        by (intro disjI2 exI [of _ "[]"] exI [of _ ys] exI [of _ zs]) (simp del: before.simps after.simps)
    next
      case False
      then show ?thesis using s 1(2) unfolding walked_def if_not_P [OF False] by blast
    qed
  next
    case (2 rs ys zs)
    define u where "u = upd rs (retrace ix q) (upd (rs @ ys) (shrink zs) (take_out xs qs c))"
    have u: "avl_ok u" "height u = height (stepway ?n tr)" "mark u = (before (stepway ?n tr), [], after (stepway ?n tr))"
      using 2(4) by (simp_all add: Let_def u_def)
    have "upd (tr # rs) (retrace ix q) (upd ((tr # rs) @ ys) (shrink zs) (take_out (tr # xs) (tr # qs) (put_way ?n tr c))) = put_way ?n tr u"
      unfolding u_def take_out_Cons append_Cons upd_Cons ..
    moreover have "avl_ok (put_way ?n tr u) \<and> height (put_way ?n tr u) = height ?n \<and> mark (put_way ?n tr u) = (before ?n, [], after ?n)"
      using u assms(1,2) inorder_mark [of u] by (cases "tr = 1") (auto simp: mark_def)
    ultimately show ?thesis using 2(1-3) unfolding walked_def Let_def by (intro disjI2 exI [of _ "tr # rs"] exI [of _ ys] exI [of _ zs]) simp
  qed
qed

lemma walk_marked:
  assumes "has fl SRF_FROMMARK" "here n = [q]" "avl_ok n" "sorted_recs ix (inorder n)"
  shows "\<exists>n' a w' xs qs. delete_walk ix fl key 0 t1 tt w n = (n', a, w') \<and> dw_q w' = Some q \<and> dw_tt1 w' = tt @ xs \<and> dw_qq1 w' = tt @ qs \<and>
    walked ix t1 tt w' xs qs n' q n"
  using assms(2-4)
proof (induction n arbitrary: t1 tt w rule: avl_step_induct)
  case (2 l b tr d r)
  let ?n = "ND l b tr d r"
  show ?case
  proof (cases "tr = 0")
    case True
    then show ?thesis using walk_marked_found [OF assms(1), of l b d r ix key t1 tt w] 2(2,3) by simp
  next
    case False
    have tr: "tr = 1 \<or> tr = - 1" "tr \<in> {- 1, 1}" using False 2(3) by auto
    have child: "here (stepway ?n tr) = [q]" "avl_ok (stepway ?n tr)" "sorted_recs ix (inorder (stepway ?n tr))"
      using 2(2,3,4) tr(1) by (auto simp: sorted_recs_node)
    note walk = walk_down [OF False tr(1) assms(1), of ix key t1 tt w l b d r]
    from 2(1) [OF child, of "if stops ?n tr then tt else t1" "tt @ [tr]" "w\<lparr>dw_t := t1, dw_tt1 := tt\<rparr>"]
    obtain c a w' xs qs where c: "delete_walk ix fl key 0 (if stops ?n tr then tt else t1) (tt @ [tr]) (w\<lparr>dw_t := t1, dw_tt1 := tt\<rparr>) (stepway ?n tr) = (c, a, w')"
      "dw_q w' = Some q" "dw_tt1 w' = (tt @ [tr]) @ xs" "dw_qq1 w' = (tt @ [tr]) @ qs"
      "walked ix (if stops ?n tr then tt else t1) (tt @ [tr]) w' xs qs c q (stepway ?n tr)" by blast
    have "delete_walk ix fl key 0 t1 tt w ?n = (put_way ?n tr c, a, w')" unfolding walk c(1) by simp
    then show ?thesis using walked_node [OF 2(3) tr(2) 2(4,2) c(5)] c(2-4)
      by (intro exI [of _ "put_way ?n tr c"] exI [of _ a] exI [of _ w'] exI [of _ "tr # xs"] exI [of _ "tr # qs"]) simp
  qed
qed simp

lemma delete_marked:
  assumes "has fl SRF_FROMMARK" "here t = [q]" "avl_ok t" "sorted_recs ix (inorder t)"
  shows "\<exists>t'. avltree_delete ix fl key t = (Some (copydata ix key q), copydata ix key q, t') \<and> avl_ok t' \<and> mark t' = (before t, [], after t)"
proof -
  let ?w = "\<lparr>dw_t = [], dw_tt1 = [], dw_qq1 = [], dw_q = None, dw_rr = []\<rparr>"
  from walk_marked [OF assms, of key "[]" "[]" ?w]
  obtain n' a w xs qs where w: "delete_walk ix fl key 0 [] [] ?w t = (n', a, w)" "dw_q w = Some q" "dw_tt1 w = xs" "dw_qq1 w = qs" "walked ix [] [] w xs qs n' q t"
    by auto
  define u where "u = upd (dw_t w) (shrink (drop (length (dw_t w)) xs)) (take_out xs qs n')"
  have "avltree_delete ix fl key t = (Some (copydata ix key q), copydata ix key q, upd (dw_rr w) (retrace ix q) u)"
    using w(1-4) by (simp add: avltree_delete_def Let_def u_def take_out_def pull_def)
  moreover have sq: "sorted_recs ix (before t @ q # after t)" using assms(2,4) inorder_mark [of t] by simp
  have "avl_ok (upd (dw_rr w) (retrace ix q) u) \<and> mark (upd (dw_rr w) (retrace ix q) u) = (before t, [], after t)"
    using w(5) unfolding walked_def
  proof (elim disjE conjE exE, goal_cases)
    case 1
    then have "avl_ok u \<and> inorder u = before t @ after t" by (auto simp: settled_def kept_def u_def)
    then show ?case using retrace_mark [OF sq, of u] 1(2) by simp
  next
    case (2 rs ys zs)
    then show ?case by (simp add: Let_def u_def)
  qed
  ultimately show ?thesis by blast
qed

end
