(* ===== verification/Avl_Index.thy ===== *)
theory Avl_Index
  imports Avl_Delete
begin

text \<open>
  The indices as their callers see them: a list of records in the order of their keys, with a mark; and as a map from keys to pointers.
\<close>

section \<open>Searching by a key\<close>

lemmas SRF_defs = SRF_FINDEQUAL_def SRF_FINDLESS_def SRF_FINDGREAT_def SRF_SETMARK_def SRF_FROMMARK_def find_flags_def search_dir_def

definition place_flags :: "16 word" where
  "place_flags = SRF_FROMMARK OR find_flags"

lemma search_key:
  assumes "avl_ok t" "sorted_recs ix (inorder t)" "rec_ok ix key" "cut ix key (inorder t) = (a, m, z)"
  shows "case avltree_search ix find_flags key t of (x, t') \<Rightarrow> avl_ok t' \<and> inorder t' = inorder t \<and> x = (case m @ z of [] \<Rightarrow> None | y # _ \<Rightarrow> Some y) \<and>
    mark t' = (case m @ z of [] \<Rightarrow> (a, m, z) | y # ys \<Rightarrow> (a, [y], ys))"
proof -
  have p: "search_loop ix find_flags key t = search_loop ix place_flags key (place ix key t)"
    by (rule search_place) (simp_all add: SRF_defs place_flags_def)
  have s: "avltree_search ix find_flags key t = search_loop ix find_flags key t" by (simp add: avltree_search_def SRF_defs)
  have f: "case search_loop ix place_flags key (place ix key t) of (x, t') \<Rightarrow> (x, mark t') = forward (has place_flags SRF_FINDEQUAL) (place ix key t) \<and>
      avl_ok t' \<and> height t' = height (place ix key t)"
    by (rule search_forward) (use assms(1) avl_ok_place in \<open>auto simp: SRF_defs place_flags_def\<close>)
  have e: "has place_flags SRF_FINDEQUAL" by (simp add: SRF_defs place_flags_def)
  have "mark (place ix key t) = (a, m, z)" using mark_place [OF assms(2,3)] assms(4) by simp
  then have m: "before (place ix key t) = a" "here (place ix key t) = m" "after (place ix key t) = z" by (simp_all add: mark_def)
  have i: "inorder t = a @ m @ z" using inorder_mark [of "place ix key t"] m by simp
  obtain x t' where x: "search_loop ix place_flags key (place ix key t) = (x, t')" by (cases "search_loop ix place_flags key (place ix key t)")
  have "m = [] \<or> (\<exists>d. m = [d])" using length_here [of "place ix key t"] m by simp
  then show ?thesis using f e i inorder_mark [of t'] unfolding s p x by (auto simp: forward_def mark_def m split: list.splits)
qed

lemma search_equal:
  assumes "avl_ok t" "sorted_recs ix (inorder t)" "rec_ok ix key" "cut ix key (inorder t) = (a, m, z)"
  shows "\<exists>t'. avltree_search ix (SRF_FINDEQUAL OR SRF_SETMARK) key t = (case m of [] \<Rightarrow> None | d # _ \<Rightarrow> Some d, t') \<and> avl_ok t' \<and> inorder t' = inorder t \<and> mark t' = (a, m, z)"
proof -
  have "avltree_search ix (SRF_FINDEQUAL OR SRF_SETMARK) key t = search_loop ix (SRF_FINDEQUAL OR SRF_SETMARK) key t" by (simp add: avltree_search_def SRF_defs)
  also have "\<dots> = search_loop ix (SRF_FROMMARK OR SRF_FINDEQUAL OR SRF_SETMARK) key (place ix key t)" by (rule search_place) (simp_all add: SRF_defs)
  also have "\<dots> = (case here (place ix key t) of [] \<Rightarrow> None | d # _ \<Rightarrow> Some d, place ix key t)"
    by (rule search_exact) (use assms(1) avl_ok_place in \<open>auto simp: SRF_defs\<close>)
  finally show ?thesis using mark_place [OF assms(2,3)] assms(1,4) avl_ok_place [of ix key t] by (auto simp: mark_def)
qed

section \<open>Operations on indices\<close>

definition ix_ok :: "AVL_IX_DESC \<Rightarrow> bool" where
  "ix_ok pix \<longleftrightarrow> 0 \<le> keylength pix \<and> dup_keys pix \<in> {AVL_NO_DUP_KEYS, AVL_DUP_KEYS_OK, AVL_COUNT_DUPS} \<and> avl_ok (root pix) \<and> sorted_recs (set_globals pix) (inorder (root pix))"

abbreviation recs :: "AVL_IX_DESC \<Rightarrow> rectype list" where
  "recs pix \<equiv> inorder (root pix)"

abbreviation marked :: "AVL_IX_DESC \<Rightarrow> rectype list \<times> rectype list \<times> rectype list" where
  "marked pix \<equiv> mark (root pix)"

abbreviation key_ok :: "AVL_IX_DESC \<Rightarrow> rectype \<Rightarrow> bool" where
  "key_ok pix \<equiv> rec_ok (set_globals pix)"

abbreviation cut_at :: "AVL_IX_DESC \<Rightarrow> rectype \<Rightarrow> rectype list \<times> rectype list \<times> rectype list" where
  "cut_at pix key \<equiv> cut (set_globals pix) key (recs pix)"

lemma set_globals_root [simp]: "set_globals (pix\<lparr>root := t\<rparr>) = set_globals pix"
  by (simp add: set_globals_def)

lemma rec_key_count [simp]: "rec_key ix (r\<lparr>rcount := c\<rparr>) = rec_key ix r" "rec_ok ix (r\<lparr>rcount := c\<rparr>) = rec_ok ix r"
  by (simp_all add: rec_key_def rec_ok_def)

lemma copydata_ok: "rec_ok ix r \<Longrightarrow> length (rkey r') \<le> length (rkey r) \<or> ix_keylength ix = 0 \<Longrightarrow> copydata ix r' r = r"
  by (auto simp: copydata_def rec_ok_def split: if_splits)

lemma copydata_same: "rec_ok ix r \<Longrightarrow> rec_ok ix r' \<Longrightarrow> copydata ix r' r = r"
  by (rule copydata_ok) (auto simp: rec_ok_def split: if_splits)

lemma ndata_alloc: "rec_ok ix r \<Longrightarrow> ndata (allocnode ix r) = r"
  by (simp add: allocnode_def copydata_ok)

lemma sorted_cut:
  assumes "sorted_recs ix xs" "cut ix key xs = (a, m, z)"
  shows "xs = a @ m @ z" "sorted_recs ix (a @ z)" "rec_ok ix key \<Longrightarrow> rec_key ix d = rec_key ix key \<Longrightarrow> rec_ok ix d \<Longrightarrow> sorted_recs ix (a @ d # z)" "length m \<le> 1"
proof -
  have c: "a = filter (\<lambda>d. rec_key ix d < rec_key ix key) xs" "m = filter (\<lambda>d. rec_key ix d = rec_key ix key) xs" "z = filter (\<lambda>d. rec_key ix key < rec_key ix d) xs"
    using assms(2) by (simp_all add: cut_def)
  have "cut ix key ys = (a, m, z) \<Longrightarrow> sorted_recs ix ys \<Longrightarrow> ys = a @ m @ z \<and> length m \<le> 1" for ys a m z
  proof (induction ys arbitrary: a m z)
    case (Cons y ys)
    consider "rec_key ix y < rec_key ix key" | "rec_key ix y = rec_key ix key" | "rec_key ix key < rec_key ix y" by fastforce
    then show ?case
      using Cons.IH Cons.prems sorted_recs_node [of ix "[]" y ys] cut_node [of ix "[]" y ys key]
      by cases (auto simp: cut_def split: prod.splits)
  qed (simp add: cut_def)
  from this [OF assms(2,1)] show xs: "xs = a @ m @ z" "length m \<le> 1" by auto
  show az: "sorted_recs ix (a @ z)" using assms(1) unfolding xs(1) by (auto simp: sorted_recs_def sorted_wrt_append)
  assume "rec_ok ix key" "rec_key ix d = rec_key ix key" "rec_ok ix d"
  moreover have "sorted_recs ix a" "sorted_recs ix z" using az by (auto simp: sorted_recs_def sorted_wrt_append)
  ultimately show "sorted_recs ix (a @ d # z)" unfolding sorted_recs_node by (auto simp: c)
qed

lemma cut_mem:
  "cut ix key xs = (a, m, z) \<Longrightarrow>
   (\<forall>d \<in> set a. rec_key ix d < rec_key ix key) \<and> (\<forall>d \<in> set m. rec_key ix d = rec_key ix key) \<and> (\<forall>d \<in> set z. rec_key ix key < rec_key ix d)"
  by (auto simp: cut_def)

lemma insert_exit_cut:
  assumes "sorted_recs ix (inorder t)" "rec_ok ix key" "insert_walk ix True key tp tt t = None" "cut ix key (inorder t) = (a, m, z)"
  shows "ix_dupkeys ix = AVL_COUNT_DUPS \<and> (\<exists>d. m = [d] \<and> rcount d = - 1)"
proof -
  obtain d where d: "ix_dupkeys ix = AVL_COUNT_DUPS" "d \<in> set (inorder t)" "makeway3 (compkey ix key d) = 0" "duprec d = None"
    using insert_walk_exit [OF assms(3)] by blast
  have "rec_ok ix d" using assms(1) d(2) by (auto simp: sorted_recs_def list_all_iff)
  then have "d \<in> set m" using ko.makeway3_cmp(3) [OF assms(2)] d(2,3) assms(4) by (auto simp: cut_def)
  then show ?thesis using d(1,4) sorted_cut(4) [OF assms(1,4)] by (cases m) (auto simp: duprec_def split: if_splits)
qed

lemma add_new:
  assumes "ix_ok pix" "key_ok pix pe" "cut_at pix pe = (a, [], z)"
  shows "\<exists>t. avl_add_key True pe pix = Some (AVL_IX_OK, pe\<lparr>rcount := 1\<rparr>, pix\<lparr>root := t\<rparr>) \<and> ix_ok (pix\<lparr>root := t\<rparr>) \<and> mark t = (a, [pe\<lparr>rcount := 1\<rparr>], z)"
proof -
  let ?ix = "set_globals pix"
  have o: "avl_ok (root pix)" "sorted_recs ?ix (recs pix)" using assms(1) by (simp_all add: ix_ok_def)
  have "insert_walk ?ix True pe [] [] (root pix) \<noteq> None"
    using insert_exit_cut [OF o(2) assms(2) _ assms(3), of "[]" "[]"] by (intro notI) simp
  then obtain n p where n: "insert_walk ?ix True pe [] [] (root pix) = Some (n, p)" by auto
  moreover have "p \<noteq> None" using insert_walk_found [OF o(2) assms(2), of True "[]" "[]" n] n assms(3) by auto
  ultimately obtain xs where w: "insert_walk ?ix True pe [] [] (root pix) = Some (n, Some xs)" by auto
  let ?t = "upd xs rebalance n"
  have "mark n = (a, [ndata (allocnode ?ix (pe\<lparr>rcount := 1\<rparr>))], z)" using insert_walk_mark [OF o(2) assms(2) w] assms(3) by simp
  then have m: "mark ?t = (a, [pe\<lparr>rcount := 1\<rparr>], z)" "avl_ok ?t" using insert_balanced [OF o(1) w] assms(2) by (simp_all add: ndata_alloc)
  have "inorder ?t = a @ pe\<lparr>rcount := 1\<rparr> # z" using inorder_mark [of ?t] m(1) by (simp add: mark_def)
  then have "sorted_recs ?ix (inorder ?t)" using sorted_cut(3) [OF o(2) assms(3,2), of "pe\<lparr>rcount := 1\<rparr>"] assms(2) by simp
  then have "ix_ok (pix\<lparr>root := ?t\<rparr>)" using assms(1) m(2) by (simp add: ix_ok_def)
  then show ?thesis using m(1) w assms(2) by (intro exI [of _ ?t]) (simp add: avl_add_key_def avltree_insert_def Let_def)
qed

lemma add_again:
  assumes "ix_ok pix" "key_ok pix pe" "cut_at pix pe = (a, [d], z)"
  shows "if dup_keys pix = AVL_COUNT_DUPS \<and> rcount d = - 1 then avl_add_key True pe pix = None
    else \<exists>t. avl_add_key True pe pix = Some (if dup_keys pix = AVL_COUNT_DUPS then AVL_IX_OK else AVL_IX_FAIL, pe, pix\<lparr>root := t\<rparr>) \<and>
      ix_ok (pix\<lparr>root := t\<rparr>) \<and> inorder t = a @ (if dup_keys pix = AVL_COUNT_DUPS then d\<lparr>rcount := rcount d + 1\<rparr> else d) # z"
proof (cases "insert_walk (set_globals pix) True pe [] [] (root pix)")
  case None
  let ?ix = "set_globals pix"
  have o: "sorted_recs ?ix (recs pix)" using assms(1) by (simp_all add: ix_ok_def)
  show ?thesis using insert_exit_cut [OF o assms(2) None assms(3)] None
    by (simp add: set_globals_def avl_add_key_def avltree_insert_def)
next
  case (Some np)
  let ?ix = "set_globals pix"
  have o: "avl_ok (root pix)" "sorted_recs ?ix (recs pix)" using assms(1) by (simp_all add: ix_ok_def)
  obtain n p where n: "insert_walk ?ix True pe [] [] (root pix) = Some (n, p)" using Some by (cases np) auto
  have "p = None" using insert_walk_mark [OF o(2) assms(2), of True "[]" "[]" n] n assms(3) by (cases p) auto
  then have w: "insert_walk ?ix True pe [] [] (root pix) = Some (n, None)" using n by simp
  obtain d' where d': "inorder n = a @ d' # z" "if dup_keys pix = AVL_COUNT_DUPS then duprec d = Some d' else d' = d"
    using insert_walk_found [OF o(2) assms(2) w] assms(3) by (auto simp: set_globals_def)
  then have c: "\<not> (dup_keys pix = AVL_COUNT_DUPS \<and> rcount d = - 1)" "d' = (if dup_keys pix = AVL_COUNT_DUPS then d\<lparr>rcount := rcount d + 1\<rparr> else d)"
    by (auto simp: duprec_def split: if_splits)
  have dx: "rec_ok ?ix d" "rec_key ?ix d = rec_key ?ix pe"
    using o(2) sorted_cut(1) [OF o(2) assms(3)] cut_mem [OF assms(3)] by (auto simp: sorted_recs_def)
  then have "rec_ok ?ix d'" "rec_key ?ix d' = rec_key ?ix pe" using c(2) by simp_all
  then have "sorted_recs ?ix (inorder n)" using sorted_cut(3) [OF o(2) assms(3,2)] d'(1) by simp
  then have "ix_ok (pix\<lparr>root := n\<rparr>)" using assms(1) insert_walk_dup [OF o(1) w] by (simp add: ix_ok_def)
  then show ?thesis using c d'(1) w by (auto simp: avl_add_key_def avltree_insert_def intro!: exI [of _ n])
qed

lemma delete_there:
  assumes "ix_ok pix" "key_ok pix pe" "cut_at pix pe = (a, [d], z)" "dup_keys pix = AVL_COUNT_DUPS \<Longrightarrow> rcount pe = 1"
  shows "\<exists>t. avl_delete_key pe pix = (AVL_IX_OK, d, pix\<lparr>root := t\<rparr>) \<and> ix_ok (pix\<lparr>root := t\<rparr>) \<and> mark t = (a, [], z)"
proof -
  let ?ix = "set_globals pix"
  have o: "avl_ok (root pix)" "sorted_recs ?ix (recs pix)" using assms(1) by (simp_all add: ix_ok_def)
  obtain t1 where t1: "avltree_search ?ix (SRF_FINDEQUAL OR SRF_SETMARK) pe (root pix) = (Some d, t1)" "avl_ok t1" "inorder t1 = recs pix" "mark t1 = (a, [d], z)"
    using search_equal [OF o assms(2,3)] by auto
  let ?pe = "if dup_keys pix = AVL_COUNT_DUPS then pe\<lparr>rcount := rcount pe - 1\<rparr> else pe"
  have "has SRF_FROMMARK SRF_FROMMARK" by (simp add: SRF_defs)
  then obtain t where t: "avltree_delete ?ix SRF_FROMMARK ?pe t1 = (Some (copydata ?ix ?pe d), copydata ?ix ?pe d, t)" "avl_ok t" "mark t = (a, [], z)"
    using delete_marked [of SRF_FROMMARK t1 d ?ix ?pe] t1(2-4) o(2) by (auto simp: mark_def)
  have "rec_ok ?ix d" using o(2) sorted_cut(1) [OF o(2) assms(3)] by (auto simp: sorted_recs_def)
  then have c: "copydata ?ix ?pe d = d" using copydata_same [of ?ix d ?pe] assms(2) by simp
  have "inorder t = a @ z" using inorder_mark [of t] t(3) by (simp add: mark_def)
  then have "ix_ok (pix\<lparr>root := t\<rparr>)" using assms(1) t(2) sorted_cut(2) [OF o(2) assms(3)] by (simp add: ix_ok_def)
  then show ?thesis using t t1(1) c assms(4) by (auto simp: avl_delete_key_def Let_def)
qed

lemma delete_absent:
  assumes "ix_ok pix" "key_ok pix pe" "cut_at pix pe = (a, [], z)"
  shows "\<exists>t. avl_delete_key pe pix = (AVL_IX_FAIL, pe, pix\<lparr>root := t\<rparr>) \<and> ix_ok (pix\<lparr>root := t\<rparr>) \<and> mark t = (a, [], z)"
proof -
  have o: "avl_ok (root pix)" "sorted_recs (set_globals pix) (recs pix)" using assms(1) by (simp_all add: ix_ok_def)
  show ?thesis using search_equal [OF o assms(2,3)] assms(1) by (auto simp: avl_delete_key_def Let_def ix_ok_def)
qed

lemma next_key:
  assumes "ix_ok pix" "key_ok pix pe" "marked pix = (a, m, z)"
  shows "\<exists>t. avl_next_key pe pix = (case z of [] \<Rightarrow> (AVL_EOIX, pe, pix\<lparr>root := t\<rparr>) | y # _ \<Rightarrow> (AVL_IX_OK, y, pix\<lparr>root := t\<rparr>)) \<and>
    ix_ok (pix\<lparr>root := t\<rparr>) \<and> inorder t = recs pix \<and> mark t = (case z of [] \<Rightarrow> (a, m, z) | y # ys \<Rightarrow> (a @ m, [y], ys))"
proof -
  let ?ix = "set_globals pix" and ?fl = "SRF_FROMMARK OR SRF_SETMARK OR SRF_FINDGREAT"
  have o: "avl_ok (root pix)" "sorted_recs ?ix (recs pix)" using assms(1) by (simp_all add: ix_ok_def)
  have s: "avltree_search ?ix ?fl pe (root pix) = search_loop ?ix ?fl pe (root pix)" by (simp add: avltree_search_def SRF_defs)
  obtain x t where x: "search_loop ?ix ?fl pe (root pix) = (x, t)" by (cases "search_loop ?ix ?fl pe (root pix)")
  have f: "(x, mark t) = forward False (root pix) \<and> avl_ok t"
    using search_forward [of ?fl "root pix" ?ix pe] o(1) x by (simp add: SRF_defs)
  have m: "before (root pix) = a" "here (root pix) = m" "after (root pix) = z" using assms(3) by (simp_all add: mark_def)
  have i: "inorder t = recs pix" using f inorder_mark [of t] inorder_mark [of "root pix"] by (auto simp: forward_def mark_def m split: list.splits)
  have "rec_ok ?ix y" if "y \<in> set z" for y using o(2) that inorder_mark [of "root pix"] m by (auto simp: sorted_recs_def list_all_iff)
  then have c: "copydata ?ix pe y = y" if "y \<in> set z" for y using that assms(2) copydata_same by blast
  show ?thesis using f i c assms(1) x
    by (intro exI [of _ t]) (auto simp: avl_next_key_def Let_def s forward_def ix_ok_def mark_def m split: list.splits)
qed

lemma prev_key:
  assumes "ix_ok pix" "key_ok pix pe" "marked pix = (a, m, z)"
  shows "\<exists>t. avl_prev_key pe pix = (if a = [] then (AVL_EOIX, pe, pix\<lparr>root := t\<rparr>) else (AVL_IX_OK, last a, pix\<lparr>root := t\<rparr>)) \<and>
    ix_ok (pix\<lparr>root := t\<rparr>) \<and> inorder t = recs pix \<and> mark t = (if a = [] then (a, m, z) else (butlast a, [last a], m @ z))"
proof -
  let ?ix = "set_globals pix" and ?fl = "SRF_FROMMARK OR SRF_SETMARK OR SRF_FINDLESS"
  have o: "avl_ok (root pix)" "sorted_recs ?ix (recs pix)" using assms(1) by (simp_all add: ix_ok_def)
  have s: "avltree_search ?ix ?fl pe (root pix) = search_loop ?ix ?fl pe (root pix)" by (simp add: avltree_search_def SRF_defs)
  obtain x t where x: "search_loop ?ix ?fl pe (root pix) = (x, t)" by (cases "search_loop ?ix ?fl pe (root pix)")
  have f: "(x, mark t) = backward (root pix) \<and> avl_ok t"
    using search_backward [of ?fl "root pix" ?ix pe] o(1) x by (simp add: SRF_defs)
  have m: "before (root pix) = a" "here (root pix) = m" "after (root pix) = z" using assms(3) by (simp_all add: mark_def)
  have i: "inorder t = recs pix" using f inorder_mark [of t] inorder_mark [of "root pix"]
    by (auto simp: backward_def mark_def m butlast_last_append split: if_splits)
  have "a \<noteq> [] \<Longrightarrow> rec_ok ?ix (last a)" using o(2) inorder_mark [of "root pix"] m by (auto simp: sorted_recs_def list_all_iff)
  then have c: "a \<noteq> [] \<Longrightarrow> copydata ?ix pe (last a) = last a" using assms(2) copydata_same by blast
  show ?thesis using f i c assms(1) x
    by (intro exI [of _ t]) (auto simp: avl_prev_key_def Let_def s backward_def ix_ok_def mark_def m split: if_splits)
qed

lemma zeros_least: "list_all (\<lambda>n. n = 0) xs \<Longrightarrow> length xs = length ys \<Longrightarrow> xs \<le> (ys :: nat list)"
proof (induction xs arbitrary: ys)
  case (Cons x xs)
  then show ?case by (cases ys) auto
qed simp

lemma rec_key_least:
  assumes "rkey d = rkey pe" "recptr pe = 0"
  shows "rec_key ix pe \<le> rec_key ix d"
proof -
  have "map uchar (ptr_bytes 0) \<le> map uchar (ptr_bytes (recptr d))"
    by (rule zeros_least) (simp_all add: ptr_bytes_def list_all_iff uchar_def of_char_of)
  then show ?thesis using assms by (simp add: rec_key_def)
qed

lemma rkey_mono:
  assumes "rec_ok ix a" "rec_ok ix b" "rec_ok ix c" "rec_key ix a \<le> rec_key ix b" "rec_key ix b \<le> rec_key ix c" "rkey a = rkey c"
  shows "rkey b = rkey a"
proof -
  have "map uchar (rkey b) = map uchar (rkey a)" using assms(4-6) by (auto simp: rec_key_def)
  then show ?thesis by (metis (no_types, lifting) inj_map_eq_map injI uchar_inject)
qed

lemma find_first:
  assumes "sorted_recs ix xs" "rec_ok ix pe" "recptr pe = 0" "cut ix pe xs = (a, m, z)"
  shows "find (\<lambda>d. rkey d = rkey pe) xs = (case m @ z of [] \<Rightarrow> None | y # _ \<Rightarrow> if rkey y = rkey pe then Some y else None)"
proof -
  have ok: "\<forall>d \<in> set (a @ m @ z). rec_ok ix d" using assms(1) sorted_cut(1) [OF assms(1,4)] by (auto simp: sorted_recs_def list_all_iff)
  have a: "\<forall>d \<in> set a. rkey d \<noteq> rkey pe" using cut_mem [OF assms(4)] rec_key_least [OF _ assms(3), of _ ix] by (meson not_le)
  have "find (\<lambda>d. rkey d = rkey pe) (m @ z) = (case m @ z of [] \<Rightarrow> None | y # _ \<Rightarrow> if rkey y = rkey pe then Some y else None)"
  proof (cases "m @ z")
    case (Cons y ys)
    have "sorted_recs ix (m @ z)" using assms(1) sorted_cut(1) [OF assms(1,4)] by (auto simp: sorted_recs_def sorted_wrt_append)
    then have ys: "rec_key ix y < rec_key ix d" if "d \<in> set ys" for d using that Cons by (auto simp: sorted_recs_def)
    have y: "rec_key ix pe \<le> rec_key ix y" using cut_mem [OF assms(4)] Cons by (metis UnI1 UnI2 list.set_intros(1) order.refl order.strict_implies_order set_append Un_iff)
    have "rkey d \<noteq> rkey pe" if "rkey y \<noteq> rkey pe" "d \<in> set ys" for d
      using rkey_mono [OF assms(2) _ _ y less_imp_le [OF ys [OF that(2)]]] that ok Cons by (metis Un_iff list.set_intros set_append)
    then show ?thesis using Cons by (auto simp: find_None_iff)
  qed simp
  moreover have "find P (a @ us) = find P us" if "\<forall>d \<in> set a. \<not> P d" for P and us :: "rectype list" using that by (induction a) auto
  ultimately show ?thesis using a sorted_cut(1) [OF assms(1,4)] by simp
qed

lemma find_key:
  assumes "ix_ok pix" "key_ok pix pe"
  shows "\<exists>t pe'. avl_find_key pe pix = (case find (\<lambda>d. rkey d = rkey pe) (recs pix) of None \<Rightarrow> (AVL_IX_FAIL, pe', pix\<lparr>root := t\<rparr>)
      | Some d \<Rightarrow> (AVL_IX_OK, d, pix\<lparr>root := t\<rparr>)) \<and> ix_ok (pix\<lparr>root := t\<rparr>) \<and> inorder t = recs pix"
proof -
  let ?ix = "set_globals pix" and ?pe = "pe\<lparr>recptr := 0\<rparr>"
  have o: "avl_ok (root pix)" "sorted_recs ?ix (recs pix)" using assms(1) by (simp_all add: ix_ok_def)
  have k: "rec_ok ?ix ?pe" using assms(2) by (simp add: rec_ok_def)
  obtain a m z where c: "cut ?ix ?pe (recs pix) = (a, m, z)" by (metis prod_cases3)
  obtain x t where x: "avltree_search ?ix find_flags ?pe (root pix) = (x, t)" by (cases "avltree_search ?ix find_flags ?pe (root pix)")
  have s: "avl_ok t" "inorder t = recs pix" "x = (case m @ z of [] \<Rightarrow> None | y # _ \<Rightarrow> Some y)"
    using search_key [OF o k c] x by simp_all
  have f: "find (\<lambda>d. rkey d = rkey pe) (recs pix) = (case m @ z of [] \<Rightarrow> None | y # _ \<Rightarrow> if rkey y = rkey pe then Some y else None)"
    using find_first [OF o(2) k _ c] by (simp split: list.split)
  have i: "ix_ok (pix\<lparr>root := t\<rparr>)" using assms(1) s(1,2) o(2) by (simp add: ix_ok_def)
  have cmp: "compkey ?ix (pe\<lparr>recptr := recptr y, rcount := rcount y\<rparr>) y = 0 \<longleftrightarrow> rkey y = rkey pe" if "y \<in> set (m @ z)" for y
  proof -
    have "rec_ok ?ix y" using that o(2) sorted_cut(1) [OF o(2) c] by (auto simp: sorted_recs_def list_all_iff)
    then have "compkey ?ix (pe\<lparr>recptr := recptr y, rcount := rcount y\<rparr>) y = 0 \<longleftrightarrow> map uchar (rkey pe) = map uchar (rkey y)"
      using ko.cmp_equal [of ?ix "pe\<lparr>recptr := recptr y, rcount := rcount y\<rparr>" y] assms(2) by (simp add: rec_key_def rec_ok_def)
    then show ?thesis by (metis (no_types, lifting) inj_map_eq_map injI uchar_inject)
  qed
  show ?thesis
  proof (cases "m @ z")
    case (Cons y ys)
    then show ?thesis using x s(2,3) f i cmp [of y] by (intro exI [of _ t] exI [of _ "fst (snd (avl_find_key pe pix))"]) (auto simp: avl_find_key_def Let_def)
  qed (use x s(2,3) f i in \<open>auto simp: avl_find_key_def Let_def\<close>)
qed

section \<open>Walking through an index\<close>

text \<open>The records that \<open>n\<close> calls of \<open>avl_next_key\<close> or \<open>avl_prev_key\<close> return, up to the first that finds none.\<close>

fun next_keys :: "nat \<Rightarrow> rectype \<Rightarrow> AVL_IX_DESC \<Rightarrow> rectype list" where
  "next_keys 0 pe pix = []"
| "next_keys (Suc n) pe pix = (case avl_next_key pe pix of (rc, pe, pix) \<Rightarrow> if rc = AVL_IX_OK then pe # next_keys n pe pix else [])"

fun prev_keys :: "nat \<Rightarrow> rectype \<Rightarrow> AVL_IX_DESC \<Rightarrow> rectype list" where
  "prev_keys 0 pe pix = []"
| "prev_keys (Suc n) pe pix = (case avl_prev_key pe pix of (rc, pe, pix) \<Rightarrow> if rc = AVL_IX_OK then pe # prev_keys n pe pix else [])"

lemma marked_ok: "ix_ok pix \<Longrightarrow> marked pix = (a, m, z) \<Longrightarrow> d \<in> set (a @ m @ z) \<Longrightarrow> key_ok pix d"
  using inorder_mark [of "root pix"] by (auto simp: ix_ok_def sorted_recs_def list_all_iff mark_def)

lemma next_keys_after:
  "ix_ok pix \<Longrightarrow> key_ok pix pe \<Longrightarrow> marked pix = (a, m, z) \<Longrightarrow> next_keys n pe pix = take n z"
proof (induction n arbitrary: pe pix a m z)
  case (Suc n)
  obtain t where t: "avl_next_key pe pix = (case z of [] \<Rightarrow> (AVL_EOIX, pe, pix\<lparr>root := t\<rparr>) | y # _ \<Rightarrow> (AVL_IX_OK, y, pix\<lparr>root := t\<rparr>))"
    "ix_ok (pix\<lparr>root := t\<rparr>)" "mark t = (case z of [] \<Rightarrow> (a, m, z) | y # ys \<Rightarrow> (a @ m, [y], ys))"
    using next_key [OF Suc.prems] by blast
  show ?case
  proof (cases z)
    case (Cons y ys)
    have "key_ok pix y" using marked_ok [OF Suc.prems(1,3)] Cons by simp
    then show ?thesis using Suc.IH [OF t(2), of y "a @ m" "[y]" ys] t Cons by simp
  qed (use t in simp)
qed simp

lemma prev_keys_before:
  "ix_ok pix \<Longrightarrow> key_ok pix pe \<Longrightarrow> marked pix = (a, m, z) \<Longrightarrow> prev_keys n pe pix = take n (rev a)"
proof (induction n arbitrary: pe pix a m z)
  case (Suc n)
  obtain t where t: "avl_prev_key pe pix = (if a = [] then (AVL_EOIX, pe, pix\<lparr>root := t\<rparr>) else (AVL_IX_OK, last a, pix\<lparr>root := t\<rparr>))"
    "ix_ok (pix\<lparr>root := t\<rparr>)" "mark t = (if a = [] then (a, m, z) else (butlast a, [last a], m @ z))"
    using prev_key [OF Suc.prems] by blast
  show ?case
  proof (cases a rule: rev_cases)
    case (snoc as y)
    have "key_ok pix y" using marked_ok [OF Suc.prems(1,3)] snoc by simp
    then show ?thesis using Suc.IH [OF t(2), of y as "[y]" "m @ z"] t snoc by simp
  qed (use t in simp)
qed simp

lemma first_mark: "height (avltree_first t) = height t \<and> (avl_ok t \<longrightarrow> avl_ok (avltree_first t)) \<and> mark (avltree_first t) = ([], [], inorder t) \<and> inorder (avltree_first t) = inorder t"
  by (induction t) (auto simp: mark_def)

lemma last_mark: "height (avltree_last t) = height t \<and> (avl_ok t \<longrightarrow> avl_ok (avltree_last t)) \<and> mark (avltree_last t) = (inorder t, [], []) \<and> inorder (avltree_last t) = inorder t"
  by (induction t) (auto simp: mark_def)

lemma first_key: "ix_ok pix \<Longrightarrow> ix_ok (avl_first_key pix) \<and> marked (avl_first_key pix) = ([], [], recs pix) \<and> set_globals (avl_first_key pix) = set_globals pix"
  using first_mark [of "root pix"] by (simp add: avl_first_key_def ix_ok_def)

lemma last_key: "ix_ok pix \<Longrightarrow> ix_ok (avl_last_key pix) \<and> marked (avl_last_key pix) = (recs pix, [], []) \<and> set_globals (avl_last_key pix) = set_globals pix"
  using last_mark [of "root pix"] by (simp add: avl_last_key_def ix_ok_def)

section \<open>Depth and clearing\<close>

lemma nodes_height: "avl_ok t \<Longrightarrow> 2 ^ (height t div 2) \<le> Suc (nodes t)"
proof (induction t)
  case (ND l b tr d r)
  let ?m = "max (height l) (height r)"
  show ?case
  proof (cases ?m)
    case (Suc k)
    have "k \<le> height l" "k \<le> height r" using ND.prems Suc by auto
    then have "(2::nat) ^ (k div 2) \<le> 2 ^ (height l div 2)" "(2::nat) ^ (k div 2) \<le> 2 ^ (height r div 2)"
      by (simp_all add: div_le_mono)
    moreover have "2 ^ (height l div 2) \<le> Suc (nodes l)" "2 ^ (height r div 2) \<le> Suc (nodes r)" using ND.IH ND.prems by simp_all
    ultimately have "2 * 2 ^ (k div 2) \<le> Suc (nodes l) + Suc (nodes r)" by linarith
    moreover have "height (ND l b tr d r) div 2 = Suc (k div 2)" using Suc by simp
    ultimately show ?thesis by simp
  qed simp
qed simp

lemma nodes_inorder: "nodes t = length (inorder t)"
  by (induction t) auto

lemma clear_loop_count:
  assumes "p \<noteq> NIL" "\<forall>(x, n) \<in> set q. n \<noteq> NIL \<and> stepway n way3left = NIL \<and> (x = way3left \<or> x = way3right)"
  shows "clear_loop c p q = c + nodes p + sum_list (map (\<lambda>(x, n). nodes (put_way n x NIL)) q)"
  using assms
proof (induction c p q rule: clear_loop.induct)
  case (1 c p q)
  show ?case
  proof (cases "stepway p way3left = NIL \<and> stepway p way3right = NIL")
    case False
    then show ?thesis using 1 by (subst clear_loop.simps) (cases p, auto)
  next
    case True
    then have p: "nodes p = 1" using 1(4) by (cases p) auto
    show ?thesis
    proof (cases q)
      case Nil
      then show ?thesis using True p by (subst clear_loop.simps) simp
    next
      case (Cons xn q')
      obtain x n where xn: "xn = (x, n)" by (cases xn)
      then have n: "n \<noteq> NIL" "stepway n way3left = NIL" "x = way3left \<or> x = way3right" using 1(5) Cons by auto
      let ?p = "put_way (if x = way3right then put_way n way3right NIL else n) way3left NIL"
      have "clear_loop (Suc c) ?p q' = Suc c + nodes ?p + sum_list (map (\<lambda>(x, n). nodes (put_way n x NIL)) q')"
        using 1(3) [OF _ _ Cons xn [symmetric]] 1(5) True n(1) Cons by (auto simp del: put_way.simps)
      moreover have "nodes ?p = nodes (put_way n x NIL)" using n by (cases n) auto
      ultimately show ?thesis using True p Cons xn by (subst clear_loop.simps) simp
    qed
  qed
qed

section \<open>Indices as maps\<close>

text \<open>A sequence of additions, with a value, and deletions; and what it does to a map.\<close>

fun run_ops :: "('s \<Rightarrow> 'k \<Rightarrow> 'v \<Rightarrow> (int \<times> 's) option) \<Rightarrow> ('s \<Rightarrow> 'k \<Rightarrow> (int \<times> 's) option) \<Rightarrow> ('k \<times> 'v option) list \<Rightarrow> 's \<Rightarrow> 's option" where
  "run_ops add del [] s = Some s"
| "run_ops add del ((k, Some v) # ops) s = (case add s k v of None \<Rightarrow> None | Some (_, s) \<Rightarrow> run_ops add del ops s)"
| "run_ops add del ((k, None) # ops) s = (case del s k of None \<Rightarrow> None | Some (_, s) \<Rightarrow> run_ops add del ops s)"

fun ops_map :: "('k \<times> 'v option) list \<Rightarrow> ('k \<rightharpoonup> 'v) \<Rightarrow> ('k \<rightharpoonup> 'v)" where
  "ops_map [] m = m"
| "ops_map ((k, Some v) # ops) m = ops_map ops (if m k = None then m(k \<mapsto> v) else m)"
| "ops_map ((k, None) # ops) m = ops_map ops (m(k := None))"

text \<open>What a client of an index without duplicate keys relies on.\<close>

locale pointer_index =
  fixes inv :: "'s \<Rightarrow> bool" and valid :: "'k \<Rightarrow> bool" and map_from :: "'s \<Rightarrow> 'k \<rightharpoonup> 'v"
    and lookup :: "'s \<Rightarrow> 'k \<Rightarrow> 'v \<times> 's" and add :: "'s \<Rightarrow> 'k \<Rightarrow> 'v \<Rightarrow> (int \<times> 's) option" and del :: "'s \<Rightarrow> 'k \<Rightarrow> (int \<times> 's) option" and null :: 'v
  assumes lookup_law: "inv s \<Longrightarrow> valid k \<Longrightarrow> \<exists>s'. lookup s k = ((case map_from s k of None \<Rightarrow> null | Some v \<Rightarrow> v), s') \<and> inv s' \<and> map_from s' = map_from s"
    and add_law: "inv s \<Longrightarrow> valid k \<Longrightarrow> \<exists>s'. add s k v = Some (if map_from s k = None then 0 else - 1, s') \<and> inv s' \<and>
      map_from s' = (if map_from s k = None then (map_from s)(k \<mapsto> v) else map_from s)"
    and del_law: "inv s \<Longrightarrow> valid k \<Longrightarrow> \<exists>s'. del s k = Some (if map_from s k = None then 1 else 0, s') \<and> inv s' \<and> map_from s' = (map_from s)(k := None)"
begin

lemma history:
  "inv s \<Longrightarrow> list_all (\<lambda>op. valid (fst op)) ops \<Longrightarrow> \<exists>s'. run_ops add del ops s = Some s' \<and> inv s' \<and> map_from s' = ops_map ops (map_from s)"
proof (induction ops arbitrary: s)
  case (Cons op ops)
  obtain k v where op: "op = (k, v)" by (cases op)
  show ?case
  proof (cases v)
    case None
    then obtain s' where "del s k = Some (if map_from s k = None then 1 else 0, s')" "inv s'" "map_from s' = (map_from s)(k := None)"
      using del_law [of s k] Cons.prems op by auto
    then show ?thesis using Cons.IH [of s'] Cons.prems(2) op None by (auto simp: fun_upd_def)
  next
    case (Some x)
    then obtain s' where "add s k x = Some (if map_from s k = None then 0 else - 1, s')" "inv s'"
      "map_from s' = (if map_from s k = None then (map_from s)(k \<mapsto> x) else map_from s)"
      using add_law [of s k x] Cons.prems op by auto
    then show ?thesis using Cons.IH [of s'] Cons.prems(2) op Some by simp
  qed
qed simp

lemma history_lookup:
  assumes "inv s" "list_all (\<lambda>op. valid (fst op)) ops" "valid k"
  shows "\<exists>s'. run_ops add del ops s = Some s' \<and> fst (lookup s' k) = (case ops_map ops (map_from s) k of None \<Rightarrow> null | Some v \<Rightarrow> v)"
  using history [OF assms(1,2)] lookup_law [OF _ assms(3)] by fastforce

end

text \<open>The map of an index, and its keys: strings, or as many bytes as its key length.\<close>

definition ix_map :: "AVL_IX_DESC \<Rightarrow> string \<rightharpoonup> 64 word" where
  "ix_map pix = map_of (map (\<lambda>d. (rkey d, recptr d)) (recs pix))"

definition valid_key :: "int \<Rightarrow> string \<Rightarrow> bool" where
  "valid_key kl k \<longleftrightarrow> (if kl = 0 then NUL \<notin> set k else length k = nat kl)"

definition unique_index :: "int \<Rightarrow> AVL_IX_DESC \<Rightarrow> bool" where
  "unique_index kl pix \<longleftrightarrow> ix_ok pix \<and> dup_keys pix = AVL_NO_DUP_KEYS \<and> keylength pix = kl"

lemma unique_cut:
  assumes "unique_index kl pix" "key_ok pix pe" "cut_at pix pe = (a, m, z)"
  shows "\<forall>d \<in> set (a @ z). rkey d \<noteq> rkey pe" "\<forall>d \<in> set m. rkey d = rkey pe" "recs pix = a @ m @ z"
proof -
  have o: "sorted_recs (set_globals pix) (recs pix)" using assms(1) by (simp add: unique_index_def ix_ok_def)
  have u: "ix_dupkeys (set_globals pix) = 0" using assms(1) by (simp add: unique_index_def set_globals_def)
  show "\<forall>d \<in> set (a @ z). rkey d \<noteq> rkey pe" using cut_mem [OF assms(3)] u by (fastforce simp: rec_key_def)
  show "\<forall>d \<in> set m. rkey d = rkey pe"
    using cut_mem [OF assms(3)] by (auto simp: rec_key_def) (metis (no_types, lifting) inj_map_eq_map injI uchar_inject)
  show "recs pix = a @ m @ z" by (rule sorted_cut(1) [OF o assms(3)])
qed

abbreviation tagged :: "rectype list \<Rightarrow> (string \<times> 64 word) list" where
  "tagged \<equiv> map (\<lambda>d. (rkey d, recptr d))"

lemma map_around:
  "\<forall>d \<in> set (a @ z). rkey d \<noteq> rkey e \<Longrightarrow> map_of (tagged (a @ e # z)) = (map_of (tagged (a @ z)))(rkey e \<mapsto> recptr e)"
  by (induction a) (auto simp: fun_upd_twist)

lemma map_without: "\<forall>d \<in> set xs. rkey d \<noteq> k \<Longrightarrow> map_of (tagged xs) k = None"
  by (induction xs) auto

lemma find_map: "map_option recptr (find (\<lambda>d. rkey d = k) xs) = map_of (tagged xs) k"
  by (induction xs) auto

lemma key_record:
  assumes "unique_index kl pix" "valid_key kl k"
  obtains pk where "avlkey_create True pix (Some k) = Some pk" "\<And>p. key_ok pix (pk\<lparr>recptr := p\<rparr>)" "rkey pk = k"
proof -
  let ?pk = "\<lparr>recptr = 0, rcount = 0, rkey = k\<rparr>"
  have "0 \<le> kl" "keylength pix = kl" using assms(1) by (auto simp: unique_index_def ix_ok_def)
  then show ?thesis using assms(2) that [of ?pk]
    by (auto simp: avlkey_create_def valid_key_def rec_ok_def set_globals_def split: if_splits)
qed

lemma unique_root: "unique_index kl pix \<Longrightarrow> ix_ok (pix\<lparr>root := t\<rparr>) \<Longrightarrow> unique_index kl (pix\<lparr>root := t\<rparr>)"
  by (simp add: unique_index_def)

lemma find_tree_map:
  assumes "unique_index kl pix" "valid_key kl k"
  shows "\<exists>pix'. find_tree True pix (Some k) = ((case ix_map pix k of None \<Rightarrow> 0 | Some v \<Rightarrow> v), pix') \<and> unique_index kl pix' \<and> ix_map pix' = ix_map pix"
proof -
  obtain pk where pk: "avlkey_create True pix (Some k) = Some pk" "key_ok pix (pk\<lparr>recptr := recptr pk\<rparr>)" "rkey pk = k" using key_record [OF assms] by metis
  have ok: "ix_ok pix" "key_ok pix pk" using assms(1) pk(2) by (simp_all add: unique_index_def)
  obtain t pe' where t: "avl_find_key pk pix = (case find (\<lambda>d. rkey d = rkey pk) (recs pix) of None \<Rightarrow> (AVL_IX_FAIL, pe', pix\<lparr>root := t\<rparr>)
      | Some d \<Rightarrow> (AVL_IX_OK, d, pix\<lparr>root := t\<rparr>))" "ix_ok (pix\<lparr>root := t\<rparr>)" "inorder t = recs pix" using find_key [OF ok] by blast
  show ?thesis using find_map [of k "recs pix"] t(1) pk unique_root [OF assms(1) t(2)] t(3)
    by (intro exI [of _ "pix\<lparr>root := t\<rparr>"]) (auto simp: find_tree_def ix_map_def split: option.splits)
qed

lemma add_tree_map:
  assumes "unique_index kl pix" "valid_key kl k"
  shows "\<exists>pix'. tree_add_del True True pix (Some k) v TREE_OP_ADD = Some (if ix_map pix k = None then 0 else - 1, pix') \<and> unique_index kl pix' \<and>
    ix_map pix' = (if ix_map pix k = None then (ix_map pix)(k \<mapsto> v) else ix_map pix)"
proof -
  obtain pk where pk: "avlkey_create True pix (Some k) = Some pk" "key_ok pix (pk\<lparr>recptr := v\<rparr>)" "rkey pk = k" using key_record [OF assms] by metis
  let ?pe = "pk\<lparr>recptr := v\<rparr>"
  have ix: "ix_ok pix" "dup_keys pix = 0" using assms(1) by (simp_all add: unique_index_def)
  obtain a m z where c: "cut_at pix ?pe = (a, m, z)" by (metis prod_cases3)
  note u = unique_cut [OF assms(1) pk(2) c]
  have s: "sorted_recs (set_globals pix) (recs pix)" using ix(1) by (simp add: ix_ok_def)
  consider "m = []" | d where "m = [d]" using sorted_cut(4) [OF s c] by (cases m) auto
  then show ?thesis
  proof cases
    case 1
    obtain t where t: "avl_add_key True ?pe pix = Some (AVL_IX_OK, ?pe\<lparr>rcount := 1\<rparr>, pix\<lparr>root := t\<rparr>)" "ix_ok (pix\<lparr>root := t\<rparr>)" "mark t = (a, [?pe\<lparr>rcount := 1\<rparr>], z)"
      using add_new [OF ix(1) pk(2)] c 1 by blast
    have i: "inorder t = a @ ?pe\<lparr>rcount := 1\<rparr> # z" using inorder_mark [of t] t(3) by (simp add: mark_def)
    have "ix_map (pix\<lparr>root := t\<rparr>) = (ix_map pix)(k \<mapsto> v)"
      using map_around [of a z "?pe\<lparr>rcount := 1\<rparr>"] u i 1 pk(3) by (simp add: ix_map_def)
    moreover have "ix_map pix k = None" using map_without [of "a @ z" k] u 1 pk(3) by (simp add: ix_map_def)
    ultimately show ?thesis using t(1) pk(1) unique_root [OF assms(1) t(2)]
      by (intro exI [of _ "pix\<lparr>root := t\<rparr>"]) (simp add: tree_add_del_def)
  next
    case (2 d)
    obtain t where t: "avl_add_key True ?pe pix = Some (AVL_IX_FAIL, ?pe, pix\<lparr>root := t\<rparr>)" "ix_ok (pix\<lparr>root := t\<rparr>)" "inorder t = a @ d # z"
      using add_again [OF ix(1) pk(2)] c 2 ix(2) by auto
    have "ix_map pix k \<noteq> None" using map_around [of a z d] u 2 pk(3) by (simp add: ix_map_def)
    moreover have "ix_map (pix\<lparr>root := t\<rparr>) = ix_map pix" using t(3) u(3) 2 by (simp add: ix_map_def)
    ultimately show ?thesis using t(1) pk(1) unique_root [OF assms(1) t(2)]
      by (intro exI [of _ "pix\<lparr>root := t\<rparr>"]) (simp add: tree_add_del_def)
  qed
qed

lemma del_tree_map:
  assumes "unique_index kl pix" "valid_key kl k"
  shows "\<exists>pix'. tree_add_del True True pix (Some k) v TREE_OP_DEL = Some (if ix_map pix k = None then 1 else 0, pix') \<and> unique_index kl pix' \<and>
    ix_map pix' = (ix_map pix)(k := None)"
proof -
  obtain pk where pk: "avlkey_create True pix (Some k) = Some pk" "key_ok pix (pk\<lparr>recptr := v\<rparr>)" "rkey pk = k" using key_record [OF assms] by metis
  let ?pe = "pk\<lparr>recptr := v\<rparr>"
  have ix: "ix_ok pix" "dup_keys pix = 0" using assms(1) by (simp_all add: unique_index_def)
  obtain a m z where c: "cut_at pix ?pe = (a, m, z)" by (metis prod_cases3)
  note u = unique_cut [OF assms(1) pk(2) c]
  have s: "sorted_recs (set_globals pix) (recs pix)" using ix(1) by (simp add: ix_ok_def)
  consider "m = []" | d where "m = [d]" using sorted_cut(4) [OF s c] by (cases m) auto
  then show ?thesis
  proof cases
    case 1
    obtain t where t: "avl_delete_key ?pe pix = (AVL_IX_FAIL, ?pe, pix\<lparr>root := t\<rparr>)" "ix_ok (pix\<lparr>root := t\<rparr>)" "mark t = (a, [], z)"
      using delete_absent [OF ix(1) pk(2)] c 1 by blast
    have i: "inorder t = recs pix" using inorder_mark [of t] t(3) u(3) 1 by (simp add: mark_def)
    have "ix_map pix k = None" using map_without [of "a @ z" k] u 1 pk(3) by (simp add: ix_map_def)
    then show ?thesis using t(1) pk(1) i unique_root [OF assms(1) t(2)]
      by (intro exI [of _ "pix\<lparr>root := t\<rparr>"]) (auto simp: tree_add_del_def ix_map_def fun_eq_iff)
  next
    case (2 d)
    obtain t where t: "avl_delete_key ?pe pix = (AVL_IX_OK, d, pix\<lparr>root := t\<rparr>)" "ix_ok (pix\<lparr>root := t\<rparr>)" "mark t = (a, [], z)"
      using delete_there [OF ix(1) pk(2)] c 2 ix(2) by auto
    have i: "inorder t = a @ z" using inorder_mark [of t] t(3) by (simp add: mark_def)
    have m: "ix_map pix = (map_of (tagged (a @ z)))(k \<mapsto> recptr d)" using map_around [of a z d] u 2 pk(3) by (simp add: ix_map_def)
    have "map_of (tagged (a @ z)) k = None" using map_without [of "a @ z" k] u pk(3) by simp
    then have "ix_map (pix\<lparr>root := t\<rparr>) = (ix_map pix)(k := None)" using i m by (auto simp: ix_map_def fun_eq_iff)
    then show ?thesis using t(1) pk(1) m unique_root [OF assms(1) t(2)]
      by (intro exI [of _ "pix\<lparr>root := t\<rparr>"]) (simp add: tree_add_del_def)
  qed
qed

interpretation tr: pointer_index "unique_index kl" "valid_key kl" ix_map "\<lambda>pix k. find_tree True pix (Some k)"
  "\<lambda>pix k v. tree_add_del True True pix (Some k) v TREE_OP_ADD" "\<lambda>pix k. tree_add_del True True pix (Some k) 0 TREE_OP_DEL" 0 for kl
  using find_tree_map add_tree_map del_tree_map by unfold_locales blast+

section \<open>Properties\<close>

lemma ptr_bytes_inj: "ptr_bytes v = ptr_bytes w \<Longrightarrow> v = w"
proof -
  assume "ptr_bytes v = ptr_bytes w"
  then have b: "drop_bit (8 * i) (unat v) mod 256 = drop_bit (8 * i) (unat w) mod 256" if "i < 8" for i
    using that unfolding ptr_bytes_def by (metis (no_types, lifting) atLeast0LessThan lessThan_iff map_eq_conv of_char_of set_upt)
  show "v = w"
  proof (rule bit_word_eqI)
    fix j assume "j < LENGTH(64)"
    then have j: "j div 8 < 8" by simp
    have "bit (unat u) j = bit (drop_bit (8 * (j div 8)) (unat u) mod 256) (j mod 8)" for u :: "64 word"
    proof -
      have "drop_bit (8 * (j div 8)) (unat u) mod 256 = take_bit 8 (drop_bit (8 * (j div 8)) (unat u))" by (simp add: take_bit_eq_mod)
      then show ?thesis by (simp add: bit_take_bit_iff bit_drop_bit_eq)
    qed
    then show "bit v j = bit w j" using b [OF j] by (simp add: bit_unsigned_iff)
  qed
qed

text \<open>
  C29. An index is a list of records in the order of their keys, with a mark at one of them or between two, in a balanced tree. For a key
  the list is the records \<open>a\<close> below it, at most one \<open>m\<close> equal to it and those \<open>z\<close> above. Adding a key that is not there puts its record,
  counted once, between them and marks it; adding one that is there fails, or counts it once more when duplicates are counted, and
  the process exits when the count is at its limit. Deleting takes the record out, returns it and leaves the mark
  between its neighbours; deleting what is not there fails. Finding returns the first record with the key, whatever its pointer. The
  next and the previous record are the neighbours of the mark, which moves to them, or stays when there is none.
\<close>

theorem index_operations:
  assumes "ix_ok pix" "key_ok pix pe" "cut_at pix pe = (a, m, z)" "marked pix = (x, h, y)"
  shows "recs pix = a @ m @ z \<and> length m \<le> 1 \<and>
    (m = [] \<longrightarrow>
      (\<exists>t. avl_add_key True pe pix = Some (AVL_IX_OK, pe\<lparr>rcount := 1\<rparr>, pix\<lparr>root := t\<rparr>) \<and> ix_ok (pix\<lparr>root := t\<rparr>) \<and> mark t = (a, [pe\<lparr>rcount := 1\<rparr>], z)) \<and>
      (\<exists>t. avl_delete_key pe pix = (AVL_IX_FAIL, pe, pix\<lparr>root := t\<rparr>) \<and> ix_ok (pix\<lparr>root := t\<rparr>) \<and> mark t = (a, [], z))) \<and>
    (\<forall>d. m = [d] \<longrightarrow>
      (if dup_keys pix = AVL_COUNT_DUPS \<and> rcount d = - 1 then avl_add_key True pe pix = None
       else \<exists>t. avl_add_key True pe pix = Some (if dup_keys pix = AVL_COUNT_DUPS then AVL_IX_OK else AVL_IX_FAIL, pe, pix\<lparr>root := t\<rparr>) \<and>
         ix_ok (pix\<lparr>root := t\<rparr>) \<and> inorder t = a @ (if dup_keys pix = AVL_COUNT_DUPS then d\<lparr>rcount := rcount d + 1\<rparr> else d) # z) \<and>
      ((dup_keys pix = AVL_COUNT_DUPS \<longrightarrow> rcount pe = 1) \<longrightarrow>
        (\<exists>t. avl_delete_key pe pix = (AVL_IX_OK, d, pix\<lparr>root := t\<rparr>) \<and> ix_ok (pix\<lparr>root := t\<rparr>) \<and> mark t = (a, [], z)))) \<and>
    (\<exists>t pe'. avl_find_key pe pix = (case find (\<lambda>d. rkey d = rkey pe) (recs pix) of None \<Rightarrow> (AVL_IX_FAIL, pe', pix\<lparr>root := t\<rparr>) | Some d \<Rightarrow> (AVL_IX_OK, d, pix\<lparr>root := t\<rparr>)) \<and>
      ix_ok (pix\<lparr>root := t\<rparr>) \<and> inorder t = recs pix) \<and>
    (\<exists>t. avl_next_key pe pix = (case y of [] \<Rightarrow> (AVL_EOIX, pe, pix\<lparr>root := t\<rparr>) | d # _ \<Rightarrow> (AVL_IX_OK, d, pix\<lparr>root := t\<rparr>)) \<and>
      ix_ok (pix\<lparr>root := t\<rparr>) \<and> inorder t = recs pix \<and> mark t = (case y of [] \<Rightarrow> (x, h, y) | d # ds \<Rightarrow> (x @ h, [d], ds))) \<and>
    (\<exists>t. avl_prev_key pe pix = (if x = [] then (AVL_EOIX, pe, pix\<lparr>root := t\<rparr>) else (AVL_IX_OK, last x, pix\<lparr>root := t\<rparr>)) \<and>
      ix_ok (pix\<lparr>root := t\<rparr>) \<and> inorder t = recs pix \<and> mark t = (if x = [] then (x, h, y) else (butlast x, [last x], h @ y)))"
proof -
  have s: "sorted_recs (set_globals pix) (recs pix)" using assms(1) by (simp add: ix_ok_def)
  note ops = add_new [OF assms(1,2)] delete_absent [OF assms(1,2)] add_again [OF assms(1,2)] delete_there [OF assms(1,2)]
  have "m = [] \<longrightarrow>
      (\<exists>t. avl_add_key True pe pix = Some (AVL_IX_OK, pe\<lparr>rcount := 1\<rparr>, pix\<lparr>root := t\<rparr>) \<and> ix_ok (pix\<lparr>root := t\<rparr>) \<and> mark t = (a, [pe\<lparr>rcount := 1\<rparr>], z)) \<and>
      (\<exists>t. avl_delete_key pe pix = (AVL_IX_FAIL, pe, pix\<lparr>root := t\<rparr>) \<and> ix_ok (pix\<lparr>root := t\<rparr>) \<and> mark t = (a, [], z))"
    using ops(1,2) [of a z] assms(3) by simp
  moreover have "\<forall>d. m = [d] \<longrightarrow>
      (if dup_keys pix = AVL_COUNT_DUPS \<and> rcount d = - 1 then avl_add_key True pe pix = None
       else \<exists>t. avl_add_key True pe pix = Some (if dup_keys pix = AVL_COUNT_DUPS then AVL_IX_OK else AVL_IX_FAIL, pe, pix\<lparr>root := t\<rparr>) \<and>
         ix_ok (pix\<lparr>root := t\<rparr>) \<and> inorder t = a @ (if dup_keys pix = AVL_COUNT_DUPS then d\<lparr>rcount := rcount d + 1\<rparr> else d) # z) \<and>
      ((dup_keys pix = AVL_COUNT_DUPS \<longrightarrow> rcount pe = 1) \<longrightarrow>
        (\<exists>t. avl_delete_key pe pix = (AVL_IX_OK, d, pix\<lparr>root := t\<rparr>) \<and> ix_ok (pix\<lparr>root := t\<rparr>) \<and> mark t = (a, [], z)))"
    using ops(3,4) [of a _ z] assms(3) by blast
  ultimately show ?thesis
    using sorted_cut(1,4) [OF s assms(3)] find_key [OF assms(1,2)] next_key [OF assms(1,2,4)] prev_key [OF assms(1,2,4)] by (intro conjI)
qed

definition a_rec :: "string \<Rightarrow> 64 word \<Rightarrow> rectype" where
  "a_rec k p = \<lparr>recptr = p, rcount = 1, rkey = k\<rparr>"

definition small_index :: "int \<Rightarrow> AVL_IX_DESC" where
  "small_index dup = \<lparr>root = ND NIL 1 0 (a_rec ''b'' 8) (ND NIL 0 0 (a_rec ''d'' 16) NIL), keylength = 0, dup_keys = dup\<rparr>"

lemma small_index_ok: "dup \<in> {0, 1, 2} \<Longrightarrow> ix_ok (small_index dup)"
  by (auto simp: ix_ok_def small_index_def a_rec_def sorted_recs_def rec_ok_def rec_key_def set_globals_def uchar_def)

theorem index_operations_witness:
  "\<exists>t. avl_add_key True (a_rec ''c'' 24) (small_index 0) = Some (AVL_IX_OK, a_rec ''c'' 24, (small_index 0)\<lparr>root := t\<rparr>) \<and>
     mark t = ([a_rec ''b'' 8], [a_rec ''c'' 24], [a_rec ''d'' 16])"
proof -
  have "rec_ok (set_globals (small_index 0)) (a_rec ''c'' 24)" by (simp add: rec_ok_def set_globals_def small_index_def a_rec_def)
  moreover have "cut (set_globals (small_index 0)) (a_rec ''c'' 24) (inorder (root (small_index 0))) = ([a_rec ''b'' 8], [], [a_rec ''d'' 16])"
    by (simp add: cut_def rec_key_def set_globals_def small_index_def a_rec_def uchar_def)
  moreover have "mark (root (small_index 0)) = ([], [a_rec ''b'' 8], [a_rec ''d'' 16])" by (simp add: mark_def small_index_def)
  moreover have "(a_rec ''c'' 24)\<lparr>rcount := 1\<rparr> = a_rec ''c'' 24" by (simp add: a_rec_def)
  ultimately show ?thesis using index_operations [OF small_index_ok, of 0 "a_rec ''c'' 24" "[a_rec ''b'' 8]" "[]" "[a_rec ''d'' 16]" "[]" "[a_rec ''b'' 8]" "[a_rec ''d'' 16]"]
    by auto
qed

text \<open>
  C38. Walking through an index: calls of \<open>avl_next_key\<close> after \<open>avl_first_key\<close> return the records in order, all of them when there are enough
  calls, and calls of \<open>avl_prev_key\<close> after \<open>avl_last_key\<close> the same backwards; from any other mark they return the records on that side of it.
  A search passes at most \<open>2 log (n + 1) + 1\<close> of \<open>n\<close> nodes, and \<open>avltree_clear\<close> frees each of them once.
\<close>

theorem index_walk:
  assumes "ix_ok pix" "key_ok pix pe" "marked pix = (a, m, z)"
  shows "next_keys n pe (avl_first_key pix) = take n (recs pix) \<and> prev_keys n pe (avl_last_key pix) = take n (rev (recs pix)) \<and>
    next_keys n pe pix = take n z \<and> prev_keys n pe pix = take n (rev a) \<and>
    2 ^ (height (root pix) div 2) \<le> Suc (length (recs pix)) \<and> avltree_clear (root pix) = (length (recs pix), NIL)"
proof (intro conjI, goal_cases)
  case 1
  show ?case using first_key [OF assms(1)] next_keys_after [of "avl_first_key pix" pe "[]" "[]" "recs pix" n] assms(2) by simp
next
  case 2
  show ?case using last_key [OF assms(1)] prev_keys_before [of "avl_last_key pix" pe "recs pix" "[]" "[]" n] assms(2) by simp
next
  case 5
  show ?case using nodes_height [of "root pix"] assms(1) by (simp add: ix_ok_def nodes_inorder)
next
  case 6
  show ?case using clear_loop_count [of "root pix" "[]" 0] by (auto simp: avltree_clear_def nodes_inorder)
qed (rule next_keys_after [OF assms] prev_keys_before [OF assms])+

theorem index_walk_witness:
  "next_keys 5 (a_rec ''x'' 0) (avl_first_key (small_index 1)) = [a_rec ''b'' 8, a_rec ''d'' 16] \<and>
   prev_keys 5 (a_rec ''x'' 0) (avl_last_key (small_index 1)) = [a_rec ''d'' 16, a_rec ''b'' 8]"
proof -
  have "rec_ok (set_globals (small_index 1)) (a_rec ''x'' 0)" by (simp add: rec_ok_def set_globals_def small_index_def a_rec_def)
  moreover have "mark (root (small_index 1)) = ([], [a_rec ''b'' 8], [a_rec ''d'' 16])" by (simp add: mark_def small_index_def)
  ultimately show ?thesis using index_walk [OF small_index_ok, of 1 "a_rec ''x'' 0" "[]" "[a_rec ''b'' 8]" "[a_rec ''d'' 16]" 5]
    by (simp add: small_index_def)
qed

text \<open>
  C31. An index without duplicate keys is a map from keys to pointers. Whatever sequence of additions and deletions \<open>tree_add_del\<close> makes in
  a tree of \<open>create_tree\<close>, \<open>find_tree\<close> then returns for every key the pointer of the first addition since it was last deleted, and a null pointer when
  there is none.
\<close>

theorem index_history:
  assumes "0 \<le> kl" "list_all (\<lambda>op. valid_key kl (fst op)) ops" "valid_key kl k"
  shows "\<exists>pix pix'. create_tree True AVL_NO_DUP_KEYS kl = Some (Some pix) \<and>
    run_ops (\<lambda>pix k v. tree_add_del True True pix (Some k) v TREE_OP_ADD) (\<lambda>pix k. tree_add_del True True pix (Some k) 0 TREE_OP_DEL) ops pix = Some pix' \<and>
    fst (find_tree True pix' (Some k)) = (case ops_map ops Map.empty k of None \<Rightarrow> 0 | Some v \<Rightarrow> v)"
proof -
  let ?pix = "\<lparr>root = NIL, keylength = kl, dup_keys = AVL_NO_DUP_KEYS\<rparr>"
  have "unique_index kl ?pix" using assms(1) by (simp add: unique_index_def ix_ok_def sorted_recs_def)
  moreover have "ix_map ?pix = Map.empty" by (simp add: ix_map_def)
  moreover have "create_tree True AVL_NO_DUP_KEYS kl = Some (Some ?pix)" using assms(1) by (simp add: create_tree_def avl_create_index_def)
  ultimately show ?thesis using tr.history_lookup [OF _ assms(2,3), of ?pix] by metis
qed

theorem index_history_witness:
  "\<exists>pix pix'. create_tree True AVL_NO_DUP_KEYS 0 = Some (Some pix) \<and>
    run_ops (\<lambda>pix k v. tree_add_del True True pix (Some k) v TREE_OP_ADD) (\<lambda>pix k. tree_add_del True True pix (Some k) 0 TREE_OP_DEL)
      [(''1.srv'', Some 8), (''2.srv'', Some 16), (''1.srv'', None), (''1.srv'', Some 24), (''2.srv'', Some 32)] pix = Some pix' \<and>
    fst (find_tree True pix' (Some ''1.srv'')) = 24"
  using index_history [of 0 "[(''1.srv'', Some 8), (''2.srv'', Some 16), (''1.srv'', None), (''1.srv'', Some 24), (''2.srv'', Some 32)]" "''1.srv''"]
  by (auto simp: valid_key_def)

lemma search_keeps:
  assumes "ix_ok pix" "key_ok pix pe" "cut_at pix pe = (a, m, z)"
  shows "\<exists>t. avltree_search (set_globals pix) find_flags pe (root pix) = (case m @ z of [] \<Rightarrow> None | y # _ \<Rightarrow> Some y, t) \<and> inorder t = recs pix"
proof -
  have o: "avl_ok (root pix)" "sorted_recs (set_globals pix) (recs pix)" using assms(1) by (simp_all add: ix_ok_def)
  show ?thesis using search_key [OF o assms(2,3)] by (auto split: prod.splits)
qed

text \<open>
  C39. Where the operations do not do what their names say. \<open>avl_find_exact\<close> succeeds in an index without duplicate keys for a key that
  is not there, when a greater one is. \<open>avl_locate_key\<close> fails in an index with duplicate keys for a key that is there, unless the pointer of its
  first record is null. And in an index that counts duplicates \<open>tree_add_del\<close> reports that a record is deleted, and keeps it: the count that is lowered is not that of the
  record but that of the key, which is 0 and becomes the greatest one.
\<close>

theorem index_surprises:
  assumes "ix_ok pix" "key_ok pix pe"
  shows "(dup_keys pix = AVL_NO_DUP_KEYS \<and> cut_at pix pe = (a, [], y # z) \<longrightarrow> pe \<notin> set (recs pix) \<and> fst (avl_find_exact pe pix) = AVL_IX_OK) \<and>
    (dup_keys pix \<noteq> AVL_NO_DUP_KEYS \<and> find (\<lambda>d. rkey d = rkey pe) (recs pix) = Some d \<and> recptr d \<noteq> 0 \<longrightarrow> fst (avl_locate_key pe pix) = AVL_IX_FAIL) \<and>
    (dup_keys pix = AVL_COUNT_DUPS \<and> cut_at pix pe = (a, [d], z) \<and> avlkey_create True pix (Some (rkey pe)) = Some (pe\<lparr>recptr := 0, rcount := 0\<rparr>) \<longrightarrow>
      (\<exists>pix'. tree_add_del True True pix (Some (rkey pe)) (recptr pe) TREE_OP_DEL = Some (0, pix') \<and> recs pix' = recs pix))"
  (is "?exact \<and> ?locate \<and> ?del")
proof (intro conjI)
  let ?ix = "set_globals pix"
  have o: "avl_ok (root pix)" "sorted_recs ?ix (recs pix)" using assms(1) by (simp_all add: ix_ok_def)
  have fl: "SRF_FINDEQUAL OR SRF_FINDGREAT OR SRF_SETMARK = find_flags" by (simp add: SRF_defs)
  show ?exact
  proof
    assume c: "dup_keys pix = AVL_NO_DUP_KEYS \<and> cut_at pix pe = (a, [], y # z)"
    have "pe \<notin> set (recs pix)" using c by (auto simp: cut_def filter_empty_conv)
    then show "pe \<notin> set (recs pix) \<and> fst (avl_find_exact pe pix) = AVL_IX_OK"
      using search_keeps [OF assms, of a "[]" "y # z"] c by (auto simp: avl_find_exact_def fl)
  qed
  show ?locate
  proof
    let ?pe = "pe\<lparr>recptr := 0\<rparr>"
    assume c: "dup_keys pix \<noteq> AVL_NO_DUP_KEYS \<and> find (\<lambda>d. rkey d = rkey pe) (recs pix) = Some d \<and> recptr d \<noteq> 0"
    have k: "key_ok pix ?pe" using assms(2) by (simp add: rec_ok_def)
    obtain a m z where cut: "cut_at pix ?pe = (a, m, z)" by (metis prod_cases3)
    have f: "find (\<lambda>d. rkey d = rkey ?pe) (recs pix) = (case m @ z of [] \<Rightarrow> None | y # _ \<Rightarrow> if rkey y = rkey ?pe then Some y else None)"
      by (rule find_first [OF o(2) k _ cut]) simp
    then obtain ys where d: "m @ z = d # ys" "rkey d = rkey pe" using c by (auto split: list.splits if_splits)
    have "rec_ok ?ix d" using d(1) o(2) sorted_cut(1) [OF o(2) cut] by (auto simp: sorted_recs_def list_all_iff)
    moreover have "rec_key ?ix ?pe \<noteq> rec_key ?ix d"
    proof
      assume "rec_key ?ix ?pe = rec_key ?ix d"
      then have "map uchar (ptr_bytes 0) = map uchar (ptr_bytes (recptr d))" using c by (simp add: rec_key_def set_globals_def)
      then have "ptr_bytes 0 = ptr_bytes (recptr d)" by (metis (no_types, lifting) inj_map_eq_map injI uchar_inject)
      then show False using ptr_bytes_inj [of 0 "recptr d"] c by simp
    qed
    ultimately have "compkey ?ix ?pe d \<noteq> 0" using ko.cmp_equal [OF k] by simp
    then show "fst (avl_locate_key pe pix) = AVL_IX_FAIL"
      using search_keeps [OF assms(1) k cut] d by (auto simp: avl_locate_key_def Let_def)
  qed
  show ?del
  proof
    assume c: "dup_keys pix = AVL_COUNT_DUPS \<and> cut_at pix pe = (a, [d], z) \<and> avlkey_create True pix (Some (rkey pe)) = Some (pe\<lparr>recptr := 0, rcount := 0\<rparr>)"
    let ?pe = "pe\<lparr>rcount := 0\<rparr>"
    have "cut_at pix ?pe = (a, [d], z)" using c by (simp add: cut_def)
    then obtain t where t: "avltree_search ?ix (SRF_FINDEQUAL OR SRF_SETMARK) ?pe (root pix) = (Some d, t)" "inorder t = recs pix"
      using search_equal [OF o, of ?pe a "[d]" z] assms(2) by auto
    have "pe\<lparr>recptr := 0, rcount := 0\<rparr>\<lparr>recptr := recptr pe\<rparr> = ?pe" by simp
    then show "\<exists>pix'. tree_add_del True True pix (Some (rkey pe)) (recptr pe) TREE_OP_DEL = Some (0, pix') \<and> recs pix' = recs pix"
      using c t by (simp add: tree_add_del_def avl_delete_key_def Let_def)
  qed
qed

theorem index_surprises_witness:
  "fst (avl_find_exact (a_rec ''c'' 24) (small_index 0)) = AVL_IX_OK \<and> fst (avl_locate_key (a_rec ''d'' 16) (small_index 1)) = AVL_IX_FAIL \<and>
   (\<exists>pix. tree_add_del True True (small_index 2) (Some ''d'') 16 TREE_OP_DEL = Some (0, pix) \<and> inorder (root pix) = inorder (root (small_index 2)))"
proof -
  have k: "rec_ok (set_globals (small_index dup)) (a_rec [c] p) \<longleftrightarrow> c \<noteq> NUL" for dup c p by (auto simp: rec_ok_def set_globals_def small_index_def a_rec_def)
  have "cut (set_globals (small_index 0)) (a_rec ''c'' 24) (inorder (root (small_index 0))) = ([a_rec ''b'' 8], [], [a_rec ''d'' 16])"
    by (simp add: cut_def rec_key_def set_globals_def small_index_def a_rec_def uchar_def)
  moreover have "find (\<lambda>d. rkey d = rkey (a_rec ''d'' 16)) (inorder (root (small_index 1))) = Some (a_rec ''d'' 16)" by (simp add: small_index_def a_rec_def)
  moreover have "cut (set_globals (small_index 2)) (a_rec ''d'' 16) (inorder (root (small_index 2))) = ([a_rec ''b'' 8], [a_rec ''d'' 16], [])"
    by (simp add: cut_def rec_key_def set_globals_def small_index_def a_rec_def uchar_def)
  moreover have "avlkey_create True (small_index 2) (Some ''d'') = Some ((a_rec ''d'' 16)\<lparr>recptr := 0, rcount := 0\<rparr>)"
    by (simp add: avlkey_create_def small_index_def a_rec_def)
  ultimately show ?thesis
    using index_surprises [OF small_index_ok, of 0 "a_rec ''c'' 24" "[a_rec ''b'' 8]" "a_rec ''d'' 16" "[]" "a_rec ''d'' 16"]
      index_surprises [OF small_index_ok, of 1 "a_rec ''d'' 16" "[]" "a_rec ''d'' 16" "[]" "a_rec ''d'' 16"]
      index_surprises [OF small_index_ok, of 2 "a_rec ''d'' 16" "[a_rec ''b'' 8]" "a_rec ''d'' 16" "[]" "a_rec ''d'' 16"]
    by (simp add: k) (simp add: small_index_def a_rec_def)
qed

end
