(* ===== verification/Job_Find.thy ===== *)
theory Job_Find
  imports Svr_Job Avl_Index Req_Wire
begin

text \<open>
  Finding a job by its identifier: the index of jobs that \<open>svr_enquejob\<close> and \<open>svr_dequejob\<close> keep with \<open>svr_avljob_oper\<close>
  (\<open>server/svr_jobfunc.c\<close>), and \<open>find_job\<close> of \<open>server/job_func.c\<close> as the server is built, without \<open>PBS_MOM\<close>. The index \<open>AVL_jctx\<close> is
  \<open>None\<close> when it is null. The address of job \<open>j\<close> is \<open>addr j\<close>. A write past the end of the buffer of \<open>find_job\<close> is the value \<open>None\<close>.
\<close>

section \<open>The index of jobs\<close>

definition svr_avlkey_create :: "bool \<Rightarrow> string option \<Rightarrow> rectype option" where
  "svr_avlkey_create mal keystr =
     (case keystr of None \<Rightarrow> None | Some k \<Rightarrow> if mal then Some \<lparr>recptr = 0, rcount = 0, rkey = k\<rparr> else None)"

text \<open>When an operation fails the index is destroyed, and \<open>AVL_jctx\<close> null. \<open>mal\<close> is for the key, \<open>mal'\<close> for the node; the outer value \<open>None\<close> is an exit.\<close>

definition svr_avljob_oper :: "bool \<Rightarrow> bool \<Rightarrow> 64 word \<Rightarrow> string \<Rightarrow> bool \<Rightarrow> AVL_IX_DESC option \<Rightarrow> AVL_IX_DESC option option" where
  "svr_avljob_oper mal mal' pjob jobid delkey jctx =
     (case jctx of None \<Rightarrow> Some None
      | Some pix \<Rightarrow>
        if pjob = 0 then Some (Some pix)
        else case svr_avlkey_create mal (Some jobid) of None \<Rightarrow> Some None
          | Some pkey \<Rightarrow>
            (case (if \<not> delkey then avl_add_key mal' (pkey\<lparr>recptr := pjob\<rparr>) pix else Some (avl_delete_key pkey pix)) of None \<Rightarrow> None
             | Some (rc, _, pix) \<Rightarrow> Some (if rc \<noteq> AVL_IX_OK then None else Some pix)))"

section \<open>Finding a job\<close>

abbreviation PBS_MAXSERVERNAME :: nat where "PBS_MAXSERVERNAME \<equiv> PBS_MAXHOSTNAME"

definition strncasecmp :: "string \<Rightarrow> string \<Rightarrow> nat \<Rightarrow> int" where
  "strncasecmp a b n = strcasecmp (take n a) (take n b)"

definition in_buf :: "string \<Rightarrow> string option" where
  "in_buf s = (if length s \<le> PBS_MAXSVRJOBID then Some s else None)"

text \<open>Whether the host in an identifier is replaced by the name of the server.\<close>

definition host_is_server :: "string \<Rightarrow> string \<Rightarrow> bool" where
  "host_is_server server_name host =
     (if strncasecmp server_name host (PBS_MAXSERVERNAME + 1) \<noteq> 0 then
        (case strchr host CHR ''.'' of
           Some host_dot \<Rightarrow>
             (case strchr server_name CHR ''.'' of
                None \<Rightarrow> let len = length server_name in len = length host - length host_dot \<and> strncasecmp host server_name len = 0
              | Some _ \<Rightarrow> False)
         | None \<Rightarrow>
             (case strchr server_name CHR ''.'' of
                Some serv_dot \<Rightarrow> let len = length host in len = length server_name - length serv_dot \<and> strncasecmp host server_name len = 0
              | None \<Rightarrow> False))
      else True)"

definition full_jobid :: "string \<Rightarrow> string \<Rightarrow> string option" where
  "full_jobid server_name jobid =
     (let buf = take PBS_MAXSVRJOBID jobid;
          buf = (case strchr buf CHR ''@'' of Some p \<Rightarrow> take (length buf - length p) buf | None \<Rightarrow> buf) in
      case strchr buf CHR ''.'' of
        Some host_dot \<Rightarrow>
          if host_is_server server_name (tl host_dot) then in_buf (take (length buf - length host_dot) buf @ ''.'' @ server_name) else Some buf
      | None \<Rightarrow> in_buf (buf @ ''.'' @ server_name))"

text \<open>The list of jobs is searched when there is no index, or no memory for the key.\<close>

definition find_in_list :: "string \<Rightarrow> (64 word \<times> string) list \<Rightarrow> 64 word" where
  "find_in_list jobid jobs =
     (case find (\<lambda>(_, ji_jobid). strncasecmp jobid ji_jobid (PBS_MAXSVRJOBID + 1) = 0) jobs of None \<Rightarrow> 0 | Some (pj, _) \<Rightarrow> pj)"

definition find_job :: "bool \<Rightarrow> string \<Rightarrow> string \<Rightarrow> AVL_IX_DESC option \<Rightarrow> (64 word \<times> string) list \<Rightarrow> (64 word \<times> AVL_IX_DESC option) option" where
  "find_job mal server_name jobid jctx jobs =
     (case full_jobid server_name jobid of None \<Rightarrow> None
      | Some buf \<Rightarrow>
        (case (jctx, svr_avlkey_create mal (Some buf)) of
           (Some pix, Some pkey) \<Rightarrow>
             (case avl_find_key pkey pix of (rc, pkey, pix) \<Rightarrow> Some (if rc = AVL_IX_OK then recptr pkey else 0, Some pix))
         | _ \<Rightarrow> Some (find_in_list jobid jobs, jctx)))"

section \<open>The index follows the jobs of the server\<close>

text \<open>The calls of \<open>svr_avljob_oper\<close> in a trace, with the identifiers of the jobs at that time.\<close>

fun index_calls :: "(nat \<Rightarrow> 64 word) \<Rightarrow> (nat \<Rightarrow> string) \<Rightarrow> svr_call list \<Rightarrow> AVL_IX_DESC option \<Rightarrow> AVL_IX_DESC option option" where
  "index_calls addr jid [] x = Some x"
| "index_calls addr jid (Avl_Oper j del # cs) x =
     (case svr_avljob_oper True True (addr j) (jid j) del x of None \<Rightarrow> None | Some x \<Rightarrow> index_calls addr jid cs x)"
| "index_calls addr jid (_ # cs) x = index_calls addr jid cs x"

definition job_ids :: "srv \<Rightarrow> nat \<Rightarrow> string" where
  "job_ids s j = js_jobid (sv_jobs s j)"

text \<open>A step of the server with its index: the identifiers of the jobs in its list are different ones.\<close>

inductive job_step :: "(nat \<Rightarrow> 64 word) \<Rightarrow> srv \<times> AVL_IX_DESC option \<Rightarrow> srv \<times> AVL_IX_DESC option \<Rightarrow> bool" for addr where
  "svr_step s t \<Longrightarrow> sv_calls t = sv_calls s @ cs \<Longrightarrow> index_calls addr (job_ids t) cs x = Some y \<Longrightarrow>
   inj_on (job_ids t) (set (sv_alljobs t)) \<Longrightarrow> \<forall>j \<in> set (sv_alljobs t). NUL \<notin> set (job_ids t j) \<Longrightarrow> job_step addr (s, x) (t, y)"

text \<open>A change of the server that leaves the list of jobs, their identifiers and the index alone.\<close>

definition is_avl :: "svr_call \<Rightarrow> bool" where
  "is_avl c \<longleftrightarrow> (case c of Avl_Oper _ _ \<Rightarrow> True | _ \<Rightarrow> False)"

definition silent :: "srv \<Rightarrow> srv \<Rightarrow> bool" where
  "silent s t \<longleftrightarrow> sv_alljobs t = sv_alljobs s \<and> job_ids t = job_ids s \<and> (\<exists>cs. sv_calls t = sv_calls s @ cs \<and> list_all (\<lambda>c. \<not> is_avl c) cs)"

lemma job_ids_frame [simp]:
  "job_ids (call cs s) = job_ids s" "job_ids (s\<lparr>sv_alljobs := js\<rparr>) = job_ids s" "job_ids (s\<lparr>sv_numjobs := n\<rparr>) = job_ids s"
  "job_ids (s\<lparr>sv_jobstates := ct\<rparr>) = job_ids s" "job_ids (s\<lparr>sv_queues := qs\<rparr>) = job_ids s" "job_ids (s\<lparr>sv_cvt_buf := b\<rparr>) = job_ids s"
  "job_ids (upd_queue q g s) = job_ids s" "job_ids (s\<lparr>sv_calls := ds\<rparr>) = job_ids s"
  by (simp_all add: job_ids_def fun_eq_iff call_def upd_queue_def)

lemma silent_refl [simp]: "silent s s"
  by (simp add: silent_def)

lemma silent_trans: "silent s t \<Longrightarrow> silent t u \<Longrightarrow> silent s u"
  by (fastforce simp: silent_def)

lemma silent_call: "silent s t \<Longrightarrow> list_all (\<lambda>c. \<not> is_avl c) cs \<Longrightarrow> silent s (call cs t)"
  by (fastforce simp: silent_def call_def)

lemma silent_job: "silent s t \<Longrightarrow> js_jobid (f (sv_jobs t j)) = js_jobid (sv_jobs t j) \<Longrightarrow> silent s (upd_job j f t)"
  by (auto simp: silent_def upd_job_def fun_eq_iff job_ids_def)

lemma silent_queue: "silent s t \<Longrightarrow> silent s (upd_queue q f t)"
  by (auto simp: silent_def) (simp add: upd_queue_def)

lemma silent_fields: "silent s t \<Longrightarrow> silent s (t\<lparr>sv_numjobs := n\<rparr>)" "silent s t \<Longrightarrow> silent s (t\<lparr>sv_jobstates := ct\<rparr>)"
  "silent s t \<Longrightarrow> silent s (t\<lparr>sv_queues := qs\<rparr>)" "silent s t \<Longrightarrow> silent s (t\<lparr>sv_cvt_buf := b\<rparr>)"
  by (simp_all add: silent_def)

lemmas silent_intros = silent_call silent_job silent_queue silent_fields

lemma silent_count: "silent s t \<Longrightarrow> silent s (count_job t j)"
  by (auto simp: count_job_def Let_def split: option.split intro!: silent_intros)

lemma silent_correct: "silent s t \<Longrightarrow> silent s (correct_ct t)"
proof -
  assume "silent s t"
  moreover have f: "silent s u \<Longrightarrow> silent s (foldl count_job u js)" for u js by (induction js arbitrary: u) (auto intro: silent_count)
  ultimately show ?thesis by (auto simp: correct_ct_def Let_def intro!: f silent_fields)
qed

lemma silent_array: "silent s t \<Longrightarrow> silent s (array_states j t)"
  by (auto simp: array_states_def Let_def put_array_def split: option.split intro!: silent_intros)

lemma silent_parent: "silent s t \<Longrightarrow> silent s (tell_parent env j n t)"
  by (auto simp: tell_parent_def Let_def put_array_def is_avl_def split: option.split prod.split done_check.split intro!: silent_intros)

lemma silent_move: "silent s t \<Longrightarrow> silent s (move_counts env j n t)"
  by (auto simp: move_counts_def Let_def is_avl_def split: option.split intro!: silent_intros)

lemma silent_change: "silent s t \<Longrightarrow> silent s (fst (change_counts env j n ns t))"
  by (auto simp: change_counts_def Let_def intro!: silent_parent silent_move)

lemma jobid_eligible: "js_jobid (snd (update_eligible_time now ty p)) = js_jobid p"
  by (auto simp: update_eligible_time_def Let_def split: option.split)

lemma silent_rules:
  "silent u t \<Longrightarrow> silent u (snd (rc, t))"
  "silent u (snd a) \<Longrightarrow> silent u (snd b) \<Longrightarrow> silent u (snd (if c then a else b))"
  "silent u t \<Longrightarrow> silent u t' \<Longrightarrow> silent u (if c then t else t')"
  "silent u (snd a) \<Longrightarrow> (\<And>y. silent u (snd (f y))) \<Longrightarrow> silent u (snd (case x of None \<Rightarrow> a | Some y \<Rightarrow> f y))"
  "silent u t \<Longrightarrow> (\<And>v. silent u v \<Longrightarrow> silent u (snd (g v))) \<Longrightarrow> silent u (snd (Let t g))"
  "(\<And>v :: bool. silent u (snd (p v))) \<Longrightarrow> silent u (snd (Let d p))"
  "(\<And>v :: string option. silent u (k v)) \<Longrightarrow> silent u (Let q k)"
  "silent u t \<Longrightarrow> list_all (\<lambda>c. \<not> is_avl c) cs \<Longrightarrow> silent u (call cs t)"
  "silent u t \<Longrightarrow> js_jobid (h (sv_jobs t j)) = js_jobid (sv_jobs t j) \<Longrightarrow> silent u (upd_job j h t)"
  by (auto simp: Let_def split: option.split intro: silent_intros)

lemma silent_let_pair: "silent u (fst x) \<Longrightarrow> (\<And>t b. silent u t \<Longrightarrow> silent u (f t b)) \<Longrightarrow> silent u (Let x (\<lambda>(t, b). f t b))"
  by (auto simp: Let_def split: prod.split)

lemma silent_exec: "silent u t \<Longrightarrow> silent u (snd (enque_exec env pque j t))"
  by (auto simp: enque_exec_def Let_def is_avl_def intro!: silent_intros)

lemma silent_setjobstate: "silent s (snd (svr_setjobstate env j n ns s))"
proof -
  obtain u m c where u: "(if js_substate (sv_jobs s j) \<noteq> JOB_SUBSTATE_TRANSICM then change_counts env j n ns s else (s, n, False)) = (u, m, c)"
    by (metis prod_cases3)
  have "silent s u" using u silent_change [OF silent_refl [of s], of env j n ns] by (auto split: if_splits)
  then show ?thesis
    unfolding svr_setjobstate_def u Let_def [of "(u, m, c)"] prod.case
    by (intro silent_rules silent_refl) (simp_all add: is_avl_def set_statechar_def jobid_eligible)
qed

text \<open>A job that is added to the list of the server or taken off, with the call for the index.\<close>

definition added :: "nat \<Rightarrow> srv \<Rightarrow> srv \<Rightarrow> bool" where
  "added j s t \<longleftrightarrow> mset (sv_alljobs t) = add_mset j (mset (sv_alljobs s)) \<and> job_ids t = job_ids s \<and> sv_calls t = sv_calls s @ [Avl_Oper j False]"

definition removed :: "nat \<Rightarrow> srv \<Rightarrow> srv \<Rightarrow> bool" where
  "removed j s t \<longleftrightarrow> j \<in> set (sv_alljobs s) \<and> sv_alljobs t = remove1 j (sv_alljobs s) \<and> job_ids t = job_ids s \<and> sv_calls t = sv_calls s @ [Unlic_Delete j, Avl_Oper j True]"

lemma added_lists: "\<exists>u. added j s u \<and> silent u (enque_lists q j s)"
proof -
  let ?u = "call [Avl_Oper j False] (s\<lparr>sv_alljobs := insert_by_rank (\<lambda>i. js_qrank (sv_jobs s i)) j (sv_alljobs s)\<rparr>)"
  have "added j s ?u" by (simp add: added_def call_def insert_by_rank_mset)
  moreover have "silent ?u (enque_lists q j s)" by (auto simp: enque_lists_def Let_def silent_def call_def upd_job_def upd_queue_def fun_eq_iff job_ids_def)
  ultimately show ?thesis by blast
qed

lemma enque_shape:
  assumes "j \<notin> set (sv_alljobs s)"
  shows "silent s (snd (svr_enquejob env j s)) \<or> (\<exists>u. added j s u \<and> silent u (snd (svr_enquejob env j s)))"
proof (cases "sv_queues s (js_queue (sv_jobs s j))")
  case None
  let ?u = "call [Avl_Oper j False] (s\<lparr>sv_alljobs := sv_alljobs s @ [j]\<rparr>)"
  have "added j s ?u" by (simp add: added_def call_def)
  moreover have "silent ?u (array_states j (?u\<lparr>sv_numjobs := n, sv_jobstates := ct\<rparr>))" for n ct
    by (intro silent_array silent_fields silent_refl)
  ultimately show ?thesis using None assms by (auto simp: svr_enquejob_def Let_def)
next
  case (Some pque)
  obtain u where u: "added j s u" "silent u (enque_lists (js_queue (sv_jobs s j)) j s)" using added_lists by blast
  have "silent u (snd (svr_enquejob env j s))"
    unfolding svr_enquejob_def Let_def [of "js_queue (sv_jobs s j)"] Let_def [of "js_state (sv_jobs s j)"] Some option.case
    by (intro silent_rules silent_exec silent_array u(2)) (simp_all add: is_avl_def)
  then show ?thesis using u(1) by blast
qed

lemma deque_rest:
  assumes "silent u (fst x)"
  shows "silent u (let (s, bad) = x;
          (s, bad) = (case js_qhdr (sv_jobs s j) of None \<Rightarrow> (s, bad)
            | Some q \<Rightarrow>
              let s = call [Entity_Ct_Sum_Max j (Some q) DECR, Entity_Ct_Sum_Queued j (Some q) DECR,
                    Entity_Resc_Sum_Max j (Some q) DECR, Entity_Resc_Sum_Queued j (Some q) DECR] s;
                  linked = (case sv_queues s q of None \<Rightarrow> False | Some pque \<Rightarrow> j \<in> set (qu_jobs pque));
                  s = (if linked then upd_queue q (\<lambda>pque. pque\<lparr>qu_jobs := remove1 j (qu_jobs pque), qu_numjobs := qu_numjobs pque - 1,
                        qu_njstate := bump st (- 1) (qu_njstate pque)\<rparr>) s else s);
                  bad = (bad \<or> linked \<and> (case sv_queues s q of None \<Rightarrow> False | Some pque \<Rightarrow> qu_numjobs pque < 0 \<or> qu_njstate pque ! nat st < 0))
              in (upd_job j (\<lambda>p. p\<lparr>js_qhdr := None\<rparr>) s, bad));
          s = (if env_debug env \<and> bad then correct_ct s else s);
          s = upd_job j (\<lambda>p. p\<lparr>js_qtime := None\<rparr>) s
      in call [Clear_Default_Resc j] s)"
proof (rule silent_let_pair [OF assms], rule silent_let_pair, goal_cases)
  case (1 t b)
  then show ?case by (auto simp: Let_def is_avl_def split: option.split intro!: silent_intros)
next
  case (2 t b t' b')
  then show ?case by (auto simp: Let_def is_avl_def intro!: silent_intros silent_correct)
qed

lemma deque_shape: "silent s (svr_dequejob env j s) \<or> (\<exists>u. removed j s u \<and> silent u (svr_dequejob env j s))"
proof (cases "j \<in> set (sv_alljobs s)")
  case True
  let ?u = "call [Unlic_Delete j, Avl_Oper j True] (s\<lparr>sv_alljobs := remove1 j (sv_alljobs s)\<rparr>)"
  have "removed j s ?u" using True by (simp add: removed_def call_def)
  moreover have "silent ?u (svr_dequejob env j s)"
    unfolding svr_dequejob_def Let_def [of "js_state (sv_jobs s j)"] if_P [OF True]
    by (rule deque_rest) (simp add: silent_def call_def)
  ultimately show ?thesis by blast
next
  case False
  have "silent s (svr_dequejob env j s)"
    unfolding svr_dequejob_def Let_def [of "js_state (sv_jobs s j)"] if_not_P [OF False] by (rule deque_rest) simp
  then show ?thesis by blast
qed


lemma oper_tree:
  assumes "unique_index 0 pix" "p \<noteq> 0"
  shows "svr_avljob_oper True True p k False (Some pix) =
      map_option (\<lambda>(rc, pix'). if rc \<noteq> 0 then None else Some pix') (tree_add_del True True pix (Some k) p TREE_OP_ADD)"
    "svr_avljob_oper True True p k True (Some pix) =
      map_option (\<lambda>(rc, pix'). if rc \<noteq> 0 then None else Some pix') (tree_add_del True True pix (Some k) 0 TREE_OP_DEL)"
proof -
  have a: "avlkey_create True pix (Some k) = svr_avlkey_create True (Some k)"
    using assms(1) by (simp add: avlkey_create_def svr_avlkey_create_def unique_index_def)
  obtain pk where pk: "svr_avlkey_create True (Some k) = Some pk" "recptr pk = 0" by (simp add: svr_avlkey_create_def)
  then have "pk\<lparr>recptr := 0\<rparr> = pk" by simp
  then show "svr_avljob_oper True True p k False (Some pix) =
      map_option (\<lambda>(rc, pix'). if rc \<noteq> 0 then None else Some pix') (tree_add_del True True pix (Some k) p TREE_OP_ADD)"
    "svr_avljob_oper True True p k True (Some pix) =
      map_option (\<lambda>(rc, pix'). if rc \<noteq> 0 then None else Some pix') (tree_add_del True True pix (Some k) 0 TREE_OP_DEL)"
    using assms(2) a pk(1) by (auto simp: svr_avljob_oper_def tree_add_del_def split: option.splits prod.splits)
qed

definition job_map :: "(nat \<Rightarrow> 64 word) \<Rightarrow> (nat \<Rightarrow> string) \<Rightarrow> nat list \<Rightarrow> string \<rightharpoonup> 64 word" where
  "job_map addr jid js = map_of (map (\<lambda>j. (jid j, addr j)) js)"

text \<open>The index has the jobs of the list, under their identifiers.\<close>

definition indexed :: "(nat \<Rightarrow> 64 word) \<Rightarrow> srv \<Rightarrow> AVL_IX_DESC option \<Rightarrow> bool" where
  "indexed addr s x \<longleftrightarrow> (\<exists>pix. x = Some pix \<and> unique_index 0 pix \<and> ix_map pix = job_map addr (job_ids s) (sv_alljobs s)) \<and>
     distinct (sv_alljobs s) \<and> inj_on (job_ids s) (set (sv_alljobs s)) \<and> (\<forall>j \<in> set (sv_alljobs s). NUL \<notin> set (job_ids s j))"

lemma job_map_perm:
  assumes "mset js = mset js'" "distinct js" "inj_on jid (set js)"
  shows "job_map addr jid js = job_map addr jid js'"
proof -
  have s: "set js = set js'" "distinct js'" using assms(1,2) mset_eq_setD mset_eq_imp_distinct_iff by blast+
  have "distinct (map fst (map (\<lambda>j. (jid j, addr j)) js))" "distinct (map fst (map (\<lambda>j. (jid j, addr j)) js'))"
    using assms(2,3) s by (simp_all add: comp_def distinct_map)
  then show ?thesis unfolding job_map_def by (subst map_of_inject_set) (use s(1) in auto)
qed

lemma job_map_None: "job_map addr jid js k = None \<longleftrightarrow> k \<notin> jid ` set js"
  by (induction js) (auto simp: job_map_def)

lemma job_map_remove1:
  "distinct js \<Longrightarrow> inj_on jid (set js) \<Longrightarrow> j \<in> set js \<Longrightarrow> job_map addr jid (remove1 j js) = (job_map addr jid js)(jid j := None)"
proof (induction js)
  case (Cons i js)
  show ?case
  proof (cases "i = j")
    case True
    then have "job_map addr jid js (jid j) = None" using Cons.prems by (auto simp: job_map_None)
    then show ?thesis using True by (auto simp: job_map_def fun_eq_iff)
  next
    case False
    then have "jid i \<noteq> jid j" using Cons.prems by (auto dest: inj_onD)
    then show ?thesis using Cons False by (auto simp: job_map_def fun_upd_twist)
  qed
qed simp

lemma index_silent:
  "list_all (\<lambda>c. \<not> is_avl c) cs \<Longrightarrow> index_calls addr jid cs x = Some x"
  by (induction addr jid cs x rule: index_calls.induct) (auto simp: is_avl_def)

lemma index_append: "index_calls addr jid (cs @ ds) x = Option.bind (index_calls addr jid cs x) (index_calls addr jid ds)"
  by (induction addr jid cs x rule: index_calls.induct) (auto split: option.split)

lemma job_map_cong: "(\<And>j. j \<in> set js \<Longrightarrow> jid j = jid' j) \<Longrightarrow> job_map addr jid js = job_map addr jid' js"
  by (induction js) (auto simp: job_map_def)

lemma index_added:
  assumes "indexed addr s x" "added j s u" "j \<notin> set (sv_alljobs s)" "\<And>j. addr j \<noteq> 0" "inj_on (job_ids u) (set (sv_alljobs u))"
    "\<forall>j \<in> set (sv_alljobs u). NUL \<notin> set (job_ids u j)"
  shows "\<exists>y. index_calls addr (job_ids u) [Avl_Oper j False] x = Some y \<and> indexed addr u y"
proof -
  obtain pix where pix: "x = Some pix" "unique_index 0 pix" "ix_map pix = job_map addr (job_ids s) (sv_alljobs s)" using assms(1) by (auto simp: indexed_def)
  have u: "mset (j # sv_alljobs s) = mset (sv_alljobs u)" "job_ids u = job_ids s" using assms(2) by (simp_all add: added_def)
  have set: "set (sv_alljobs u) = insert j (set (sv_alljobs s))" using mset_eq_setD [OF u(1)] by simp
  have d: "distinct (j # sv_alljobs s)" using assms(1,3) by (simp add: indexed_def)
  then have du: "distinct (sv_alljobs u)" using u(1) mset_eq_imp_distinct_iff by blast
  have v: "valid_key 0 (job_ids s j)" using assms(6) set u(2) by (simp add: valid_key_def)
  have new: "ix_map pix (job_ids s j) = None"
    using assms(3,5) set u(2) by (auto simp: pix(3) job_map_None dest: inj_onD)
  obtain pix' where p: "tree_add_del True True pix (Some (job_ids s j)) (addr j) TREE_OP_ADD = Some (0, pix')" "unique_index 0 pix'"
    "ix_map pix' = (ix_map pix)(job_ids s j \<mapsto> addr j)" using add_tree_map [OF pix(2) v, of "addr j"] new by auto
  have "ix_map pix' = job_map addr (job_ids s) (j # sv_alljobs s)" using p(3) pix(3) by (simp add: job_map_def)
  also have "\<dots> = job_map addr (job_ids u) (sv_alljobs u)" unfolding u(2) using assms(5) set u(2) by (intro job_map_perm [OF u(1) d]) simp
  finally have "indexed addr u (Some pix')" using p(2) du assms(5,6) by (auto simp: indexed_def)
  then show ?thesis using oper_tree(1) [OF pix(2) assms(4)] p(1) pix(1) u(2) by simp
qed

lemma index_removed:
  assumes "indexed addr s x" "removed j s u" "\<And>j. addr j \<noteq> 0"
  shows "\<exists>y. index_calls addr (job_ids u) [Unlic_Delete j, Avl_Oper j True] x = Some y \<and> indexed addr u y"
proof -
  obtain pix where pix: "x = Some pix" "unique_index 0 pix" "ix_map pix = job_map addr (job_ids s) (sv_alljobs s)" using assms(1) by (auto simp: indexed_def)
  have u: "j \<in> set (sv_alljobs s)" "sv_alljobs u = remove1 j (sv_alljobs s)" "job_ids u = job_ids s" using assms(2) by (simp_all add: removed_def)
  have d: "distinct (sv_alljobs s)" "inj_on (job_ids s) (set (sv_alljobs s))" using assms(1) by (simp_all add: indexed_def)
  have v: "valid_key 0 (job_ids s j)" using assms(1) u(1) by (simp add: valid_key_def indexed_def)
  have "ix_map pix (job_ids s j) \<noteq> None" using u(1) by (simp add: pix(3) job_map_None)
  then obtain pix' where p: "tree_add_del True True pix (Some (job_ids s j)) 0 TREE_OP_DEL = Some (0, pix')" "unique_index 0 pix'"
    "ix_map pix' = (ix_map pix)(job_ids s j := None)" using del_tree_map [OF pix(2) v, of 0] by auto
  have "ix_map pix' = job_map addr (job_ids u) (sv_alljobs u)" unfolding p(3) pix(3) u(2,3) using job_map_remove1 [OF d u(1)] by simp
  moreover have "set (sv_alljobs u) \<subseteq> set (sv_alljobs s)" unfolding u(2) by (rule set_remove1_subset)
  ultimately have "indexed addr u (Some pix')" using p(2) assms(1) d u(2,3) by (auto simp: indexed_def intro: inj_on_subset)
  then show ?thesis using oper_tree(2) [OF pix(2) assms(3)] p(1) pix(1) u(3) by simp
qed

lemma index_step:
  assumes "svr_step s t" "indexed addr s x" "\<And>j. addr j \<noteq> 0" "inj_on (job_ids t) (set (sv_alljobs t))" "\<forall>j \<in> set (sv_alljobs t). NUL \<notin> set (job_ids t j)"
  shows "\<exists>cs y. sv_calls t = sv_calls s @ cs \<and> index_calls addr (job_ids t) cs x = Some y \<and> indexed addr t y"
proof -
  have same: "indexed addr u y \<Longrightarrow> indexed addr t y" if "silent u t" for u y
    using that by (auto simp: indexed_def silent_def)
  have quiet: ?thesis if "silent s t" using that same [OF that assms(2)] index_silent by (fastforce simp: silent_def)
  have via: ?thesis if "silent u t" "sv_calls u = sv_calls s @ cs" "index_calls addr (job_ids u) cs x = Some y" "indexed addr u y" for u cs y
  proof -
    from that(1) obtain ds where ds: "sv_calls t = sv_calls u @ ds" "list_all (\<lambda>c. \<not> is_avl c) ds" "job_ids t = job_ids u" by (auto simp: silent_def)
    then have "index_calls addr (job_ids t) (cs @ ds) x = Some y" using that(3) index_silent [OF ds(2)] by (simp add: index_append)
    then show ?thesis using ds(1) that(2) same [OF that(1,4)] by (intro exI [of _ "cs @ ds"] exI [of _ y]) simp
  qed
  from assms(1) show ?thesis
  proof cases
    case (alloc j p)
    then have "job_map addr (job_ids s) (sv_alljobs s) = job_map addr (job_ids t) (sv_alljobs t)" by (auto simp: job_ids_def intro!: job_map_cong)
    then have "indexed addr t x" using assms(2,4,5) alloc by (auto simp: indexed_def)
    then show ?thesis using alloc by (intro exI [of _ "[]"] exI [of _ x]) simp
  next
    case (enque j env)
    then consider "silent s t" | u where "added j s u" "silent u t" using enque_shape [OF enque(2), of env] by blast
    then show ?thesis
    proof cases
      case (2 u)
      have "sv_alljobs u = sv_alljobs t" "job_ids u = job_ids t" using 2(2) by (simp_all add: silent_def)
      then show ?thesis using index_added [OF assms(2) 2(1) enque(2) assms(3)] assms(4,5) via [OF 2(2)] 2(1) by (fastforce simp: added_def)
    qed (rule quiet)
  next
    case (deque env j)
    then consider "silent s t" | u where "removed j s u" "silent u t" using deque_shape [of s env j] by blast
    then show ?thesis
    proof cases
      case (2 u)
      then show ?thesis using index_removed [OF assms(2) 2(1) assms(3)] via [OF 2(2)] by (fastforce simp: removed_def)
    qed (rule quiet)
  qed (use quiet silent_setjobstate in auto)
qed

section \<open>Properties\<close>

lemma job_steps_indexed:
  assumes "(job_step addr)\<^sup>*\<^sup>* (s, x) (t, y)" "indexed addr s x" "\<And>j. addr j \<noteq> 0"
  shows "indexed addr t y"
  using assms(1)
proof (induction "(t, y)" arbitrary: t y rule: rtranclp_induct)
  case base
  then show ?case using assms(2) by simp
next
  case (step b)
  obtain u z where b: "b = (u, z)" by (cases b)
  then have i: "indexed addr u z" using step.hyps(3) by simp
  from step.hyps(2) [unfolded b] show ?case
  proof cases
    case (1 cs)
    then show ?thesis using index_step [OF 1(1) i assms(3) 1(4,5)] by auto
  qed
qed

lemma job_map_find: "job_map addr jid js k = map_option addr (find (\<lambda>j. jid j = k) js)"
  by (induction js) (auto simp: job_map_def)

lemma find_job_map:
  assumes "unique_index 0 pix" "NUL \<notin> set buf" "full_jobid server_name jobid = Some buf"
  shows "\<exists>y. find_job True server_name jobid (Some pix) jobs = Some (case ix_map pix buf of None \<Rightarrow> 0 | Some p \<Rightarrow> p, y)"
proof -
  have v: "valid_key 0 buf" using assms(2) by (simp add: valid_key_def)
  have a: "avlkey_create True pix (Some buf) = svr_avlkey_create True (Some buf)"
    using assms(1) by (simp add: avlkey_create_def svr_avlkey_create_def unique_index_def)
  obtain pk where pk: "svr_avlkey_create True (Some buf) = Some pk" by (simp add: svr_avlkey_create_def)
  have "fst (find_tree True pix (Some buf)) = (case ix_map pix buf of None \<Rightarrow> 0 | Some p \<Rightarrow> p)" using find_tree_map [OF assms(1) v] by auto
  then show ?thesis using a pk assms(3) by (auto simp: find_job_def find_tree_def split: prod.splits)
qed

text \<open>
  C24. Jobs are found by their identifiers. In every history of a server that starts without jobs and with an empty index, in which the jobs in
  its list have different identifiers, the index is never given up, every further step can be taken, and \<open>find_job\<close> returns the
  job in the list that has the full identifier of what it is asked for, and a null pointer when there is none.
\<close>

theorem jobs_found:
  assumes "(job_step addr)\<^sup>*\<^sup>* (s, avl_create_index AVL_NO_DUP_KEYS 0) (t, y)" "sv_alljobs s = []" "\<And>j. addr j \<noteq> 0"
  shows "y \<noteq> None \<and>
    (\<forall>u. svr_step t u \<and> inj_on (job_ids u) (set (sv_alljobs u)) \<and> (\<forall>j \<in> set (sv_alljobs u). NUL \<notin> set (job_ids u j)) \<longrightarrow> (\<exists>z. job_step addr (t, y) (u, z))) \<and>
    (\<forall>server_name jobid buf. full_jobid server_name jobid = Some buf \<and> NUL \<notin> set buf \<longrightarrow>
      (\<exists>z. find_job True server_name jobid y jobs = Some (case find (\<lambda>j. js_jobid (sv_jobs t j) = buf) (sv_alljobs t) of None \<Rightarrow> 0 | Some j \<Rightarrow> addr j, z)))"
proof -
  have "indexed addr s (avl_create_index AVL_NO_DUP_KEYS 0)"
    using assms(2) by (simp add: indexed_def avl_create_index_def unique_index_def ix_ok_def sorted_recs_def ix_map_def job_map_def)
  then have i: "indexed addr t y" using job_steps_indexed [OF assms(1) _ assms(3)] by blast
  then obtain pix where pix: "y = Some pix" "unique_index 0 pix" "ix_map pix = job_map addr (job_ids t) (sv_alljobs t)" by (auto simp: indexed_def)
  have "\<exists>z. job_step addr (t, y) (u, z)" if "svr_step t u" "inj_on (job_ids u) (set (sv_alljobs u))" "\<forall>j \<in> set (sv_alljobs u). NUL \<notin> set (job_ids u j)" for u
    using index_step [OF that(1) i assms(3) that(2,3)] that job_step.intros by blast
  moreover have "\<exists>z. find_job True server_name jobid y jobs = Some (case find (\<lambda>j. js_jobid (sv_jobs t j) = buf) (sv_alljobs t) of None \<Rightarrow> 0 | Some j \<Rightarrow> addr j, z)"
    if "full_jobid server_name jobid = Some buf" "NUL \<notin> set buf" for server_name jobid buf
    using find_job_map [OF pix(2) that(2,1), of jobs] unfolding pix(1,3) job_map_find job_ids_def
    by (cases "find (\<lambda>j. js_jobid (sv_jobs t j) = buf) (sv_alljobs t)") auto
  ultimately show ?thesis using pix(1) by blast
qed

lemma one_job_id: "js_jobid (sv_jobs one_job 0) = ''1.srv''"
  by (simp add: one_job_def svr_enquejob_def enque_lists_def enque_exec_def insert_by_rank_def empty_srv_def new_sjob_def workq_def plain_env_def Let_def)

theorem jobs_found_witness:
  "\<exists>t y z. (job_step (\<lambda>j. 8))\<^sup>*\<^sup>* (empty_srv, avl_create_index AVL_NO_DUP_KEYS 0) (t, y) \<and> find_job True ''srv'' ''1'' y [] = Some (8, z)"
proof -
  let ?x = "avl_create_index AVL_NO_DUP_KEYS 0"
  have a: "sv_alljobs empty_srv = []" by (simp add: empty_srv_def)
  have nz: "(\<lambda>j. 8 :: 64 word) j \<noteq> 0" for j :: nat by simp
  have "inj_on (job_ids one_job) (set (sv_alljobs one_job)) \<and> (\<forall>j \<in> set (sv_alljobs one_job). NUL \<notin> set (job_ids one_job j))"
    by (simp add: one_job_ok(3) one_job_id job_ids_def)
  then obtain z where z: "job_step (\<lambda>j. 8) (empty_srv, ?x) (one_job, z)"
    using jobs_found [OF rtranclp.rtrancl_refl a nz, of "[]"] one_job_ok(2) by blast
  then have steps: "(job_step (\<lambda>j. 8))\<^sup>*\<^sup>* (empty_srv, ?x) (one_job, z)" by blast
  have full: "full_jobid ''srv'' ''1'' = Some ''1.srv'' \<and> NUL \<notin> set ''1.srv''" by (simp add: full_jobid_def strchr_def in_buf_def)
  have "find (\<lambda>j. js_jobid (sv_jobs one_job j) = ''1.srv'') (sv_alljobs one_job) = Some 0" by (simp add: one_job_ok(3) one_job_id)
  then obtain y where "find_job True ''srv'' ''1'' z [] = Some (8, y)" using jobs_found [OF steps a nz, of "[]"] full by fastforce
  then show ?thesis using steps by blast
qed

lemma tolower_dot: "tolower c = CHR ''.'' \<longleftrightarrow> c = CHR ''.''"
proof
  assume c: "tolower c = CHR ''.''"
  show "c = CHR ''.''"
  proof (cases "65 \<le> uchar c \<and> uchar c \<le> 90")
    case True
    then have "uchar (tolower c) = uchar c + 32" by (simp add: tolower_def) (simp add: uchar_def of_char_of)
    moreover have "uchar CHR ''.'' = 46" by (simp add: uchar_def)
    ultimately show ?thesis using True c by simp
  qed (use c in \<open>auto simp: tolower_def split: if_splits\<close>)
qed (simp add: tolower_def uchar_def)

lemma full_jobid_plain:
  assumes "CHR ''.'' \<notin> set jobid" "CHR ''@'' \<notin> set jobid" "length jobid \<le> PBS_MAXSVRJOBID"
  shows "full_jobid server_name jobid = in_buf (jobid @ ''.'' @ server_name)"
proof -
  have "strchr jobid c = None" if "c \<notin> set jobid" for c using that by (simp add: strchr_def dropWhile_eq_Nil_conv)
  then show ?thesis using assms by (simp add: full_jobid_def Let_def)
qed

text \<open>
  C28. What \<open>find_job\<close> is asked for. An identifier without a host stands for the one with the name of the server. But nothing keeps the two
  within the buffer of the function: when they are longer it writes past its end, with any index and any list. And when the index
  has been given up, the list is searched for the identifier as it was given, so that a job is not found without its host.
\<close>

theorem find_job_host:
  assumes "CHR ''.'' \<notin> set jobid" "CHR ''@'' \<notin> set jobid" "length jobid \<le> PBS_MAXSVRJOBID"
  shows "(length jobid + length server_name < PBS_MAXSVRJOBID \<longrightarrow> full_jobid server_name jobid = Some (jobid @ ''.'' @ server_name)) \<and>
    (PBS_MAXSVRJOBID \<le> length jobid + length server_name \<longrightarrow> find_job mal server_name jobid jctx jobs = None) \<and>
    (length jobid + length server_name < PBS_MAXSVRJOBID \<and> list_all (\<lambda>(_, ji_jobid). CHR ''.'' \<in> set (take (PBS_MAXSVRJOBID + 1) ji_jobid)) jobs \<longrightarrow>
      find_job mal server_name jobid None jobs = Some (0, None))"
proof -
  have f: "full_jobid server_name jobid = in_buf (jobid @ ''.'' @ server_name)" by (rule full_jobid_plain [OF assms])
  have "strncasecmp jobid i (PBS_MAXSVRJOBID + 1) \<noteq> 0" if "CHR ''.'' \<in> set (take (PBS_MAXSVRJOBID + 1) i)" for i
  proof
    assume "strncasecmp jobid i (PBS_MAXSVRJOBID + 1) = 0"
    then have "map tolower (take (PBS_MAXSVRJOBID + 1) jobid) = map tolower (take (PBS_MAXSVRJOBID + 1) i)" by (simp add: strncasecmp_def strcasecmp_def)
    then have "tolower ` set (take (PBS_MAXSVRJOBID + 1) jobid) = tolower ` set (take (PBS_MAXSVRJOBID + 1) i)" by (metis list.set_map)
    then have "tolower CHR ''.'' \<in> tolower ` set (take (PBS_MAXSVRJOBID + 1) jobid)" using that by blast
    then obtain c where "c \<in> set jobid" "tolower c = tolower CHR ''.''" by (metis imageE in_set_takeD)
    then show False using assms(1) tolower_dot by metis
  qed
  then have "find (\<lambda>(_, ji_jobid). strncasecmp jobid ji_jobid (PBS_MAXSVRJOBID + 1) = 0) jobs = None"
    if "list_all (\<lambda>(_, ji_jobid). CHR ''.'' \<in> set (take (PBS_MAXSVRJOBID + 1) ji_jobid)) jobs"
    using that by (auto simp: find_None_iff list_all_iff)
  then show ?thesis by (auto simp: find_job_def find_in_list_def f in_buf_def)
qed


theorem find_job_host_witness:
  "full_jobid ''srv'' ''12'' = Some ''12.srv'' \<and> find_job True ''srv'' ''12'' None [(8, ''12.srv'')] = Some (0, None) \<and>
   find_job True (replicate 20 CHR ''s'') (replicate 250 CHR ''9'') None [] = None"
  using find_job_host [of "''12''" "''srv''" True None "[(8, ''12.srv'')]"]
    find_job_host [of "replicate 250 CHR ''9''" "replicate 20 CHR ''s''" True None "[]"]
  by simp

end
