(* ===== verification/Spec2Isabelle.thy ===== *)
theory Spec2Isabelle
  imports Reply_Wire Attr_Atomic Attr_Acl List_Link Pbs_Bitmap Work_Task Job_Find
begin

text \<open>
  OpenPBS is a batch system: commands, servers, execution daemons and schedulers exchange requests and replies
  about objects (jobs, queues, nodes, reservations, servers) that are described by attributes. This
  development models the two layers all of them share, down to bytes, buffers and machine words: the
  protocol that carries requests, and the attributes the requests are about; the containers they are built on; and
  above them the jobs of the server: array jobs with their subjobs, the queues and the counts kept for them, and
  the ranges of indices by which the scheduler sees arrays.

  \<^bold>\<open>Parts of the program and their theories.\<close> Paths are under \<open>src/src/\<close>.

  \<^item> \<open>Prelude\<close>: the generic lemmas and the \<open>named_theorems\<close>; decimal text of numbers.
  \<^item> \<open>Dis\<close>, \<open>Dis_Laws\<close>, \<open>Dis_Live\<close>: the Data-is-Strings library \<open>lib/Libdis\<close>. Every number is sent as its
    decimal text, a sign and counts of the digits before it. The five function pointers through which the
    library reads and writes (\<open>dis_getc\<close>, \<open>dis_gets\<close>, \<open>disr_commit\<close>, \<open>dis_puts\<close>, \<open>disw_commit\<close>) are the record
    \<open>dis_ops\<close>; the locales \<open>dis_source\<close> and \<open>dis_sink\<close> are the contract of those functions.
  \<^item> \<open>Tcp_Dis\<close>: the transport \<open>lib/Libifl/tcp_dis.c\<close>, two buffers for each descriptor with their
    leading, trailing and end indices. It interprets the two locales as \<open>tcp_in\<close> and \<open>tcp_out\<close>. The peer
    is the list of results that the next calls of \<open>CS_read\<close> and \<open>CS_write\<close> give.
  \<^item> \<open>Codec\<close>: combinators for sequences of reads and writes, and \<open>tcp_carries\<close>: whatever the writer puts on a
    descriptor, flushed and received, is read back by the reader with nothing else consumed.
  \<^item> \<open>Attr_Wire\<close>, \<open>Req_Wire\<close>, \<open>Job_Wire\<close>, \<open>Reply_Wire\<close>: the encoders \<open>lib/Libifl/enc_*.c\<close> and decoders
    \<open>lib/Libifl/dec_*.c\<close>, \<open>server/dis_read.c\<close>, \<open>server/process_request.c\<close> of attribute lists, request bodies
    and replies, with the structures of \<open>include/batch_request.h\<close>.
  \<^item> \<open>Dis_Request\<close>: whole requests, from the senders \<open>lib/Libifl/int_*2.c\<close> to \<open>dis_request_read\<close>.
  \<^item> \<open>Long_Conv\<close>: numbers as text, \<open>lib/Libattr/strTouL.c\<close>, \<open>strToL.c\<close>, \<open>uLTostr.c\<close>, \<open>LTostr.c\<close>.
  \<^item> \<open>Attr_Value\<close>, \<open>Attr_Size\<close>: the types of attributes, \<open>lib/Libattr/attr_fn_b.c\<close>, \<open>_l\<close>, \<open>_ll\<close>, \<open>_c\<close>, \<open>_str\<close>,
    \<open>_hold\<close>, \<open>_intr\<close>, \<open>_time\<close> and \<open>_size\<close>: decode, encode, set, compare and free.
  \<^item> \<open>Attr_Func\<close>: the lists of encoded attributes and the environment strings of \<open>attr_func.c\<close>.
  \<^item> \<open>Attr_Arst\<close>: arrays of strings in one packed buffer, \<open>attr_fn_arst.c\<close>.
  \<^item> \<open>Attr_Codec\<close>: the locale \<open>attr_codec\<close>, what a type of attribute promises to the code that stores and
    sends attributes without knowing their type, with an interpretation for every type above.
  \<^item> \<open>Attr_Resc\<close>: resource lists, \<open>attr_fn_resc.c\<close>, over a table of definitions; the locale \<open>resc_table\<close> asks for a table
    whose types keep that contract. \<open>resc_defs\<close> makes the table of any list of names, flags and modelled types, and the locale is shown for all of them.
  \<^item> \<open>Attr_Atomic\<close>: \<open>attr_atomic.c\<close>, which sets the attributes of an object all at once, and the loop of \<open>send_job\<close>
    (\<open>server/svr_movejob.c\<close>) that encodes them and that of \<open>req_quejob\<close> (\<open>server/req_quejob.c\<close>) that decodes them into a new job; the
    locale \<open>attr_table\<close> is shown for every table that \<open>attr_defs\<close> makes of names, flags and modelled types.

  \<^item> \<open>Attr_Acl\<close>: access control lists, \<open>attr_fn_acl.c\<close>, on the packed buffer of \<open>Attr_Arst\<close>; the locale \<open>acl_order\<close> is what
    an order of entries has to satisfy for the list to stay sorted.
  \<^item> \<open>List_Link\<close>: the doubly linked lists of \<open>lib/Libifl/list_link.c\<close> on a heap of links, with the locale of a list of objects.
  \<^item> \<open>Pbs_Bitmap\<close>: the bitmaps of \<open>scheduler/pbs_bitmap.c\<close>.
  \<^item> \<open>Sched_Range\<close>: ranges of subjob indices, \<open>scheduler/range.c\<close>; the locale \<open>index_queue\<close> is what running subjobs in order
    needs of them.
  \<^item> \<open>Job_Array\<close>: array jobs, \<open>server/array_func.c\<close>: the table that tracks the subjobs, its text forms, identifiers.
  \<^item> \<open>Svr_Job\<close>: \<open>server/svr_jobfunc.c\<close>: entering and leaving queues, changing state, with the table of the parent array of a subjob; the
    step relation \<open>svr_step\<close> is the history of a server.
  \<^item> \<open>Job_Find\<close>: the index of jobs that \<open>server/svr_jobfunc.c\<close> keeps while jobs enter and leave, and \<open>find_job\<close> of \<open>server/job_func.c\<close>: the steps of
    \<open>Svr_Job\<close> together with an index of \<open>Avl_Index\<close>.
  \<^item> \<open>Work_Task\<close>: the tasks a daemon runs between requests, \<open>lib/Libutil/work_task.c\<close>. The functions of tasks are other code,
    the parameter \<open>run\<close>.
  \<^item> \<open>Avl_Tree\<close>, \<open>Avl_Laws\<close>, \<open>Avl_Delete\<close>, \<open>Avl_Index\<close>: the index trees of \<open>lib/Libutil/avltree.c\<close>, by which jobs, nodes and streams are
    found. The locale \<open>key_order\<close> is the order of records, interpreted for every key length and treatment of duplicates;
    \<open>pointer_index\<close> is what clients rely on, interpreted on \<open>find_tree\<close> and \<open>tree_add_del\<close>.

  \<^bold>\<open>Conventions.\<close> Machine integers are words of their width. A C string is a list of characters without
  \<open>NUL\<close>; an array in which overflow matters is a list with its bound written out. Pointers into a buffer are
  offsets. Doubly linked lists are lists, which \<open>List_Link\<close> justifies. Memory allocation is a predicate \<open>mal\<close> on the size asked for: the theorems
  about failures hold for every such predicate, those about results for the one that always succeeds. Status
  codes are returned beside the new state, every early return is a branch. Where the code writes past a fixed array or leaves a stale pointer, the
  value is \<open>None\<close> or unspecified, and the properties say for which inputs.

  \<^bold>\<open>What is shown.\<close> The properties stand in the theory of their component; those of the protocol and the attributes in this
  one.

  \<^item> C1, C2, C25 (\<open>Svr_Job\<close>): the counts of jobs are right in every history of a server, arrays follow their
    subjobs; and how the counts go wrong.
  \<^item> C24, C28 (\<open>Job_Find\<close>): the index of jobs follows their list, so that jobs are found by their identifiers; and what happens to
    identifiers without a host.
  \<^item> C3, C4, C10, C23 (\<open>Job_Array\<close>): what the server writes of an array is what the scheduler reads and what another
    server restores; the table counts its subjobs; identifiers.
  \<^item> C11, C22, C26, C27 (\<open>Sched_Range\<close>): ranges are collections of indices, handed out in order, printed and parsed; ranges
    that overlap.
  \<^item> C9 (\<open>List_Link\<close>), C21 (\<open>Pbs_Bitmap\<close>): linked lists are lists, bitmaps are sets.
  \<^item> C29, C31, C38, C39 (\<open>Avl_Index\<close>): indices are sorted lists with a mark in balanced trees, and maps from keys to pointers; walking through
    them; and where they surprise.
  \<^item> C32, C37 (\<open>Work_Task\<close>): the lists of tasks stay in order, and the next tasks all run, in order, while their functions make new ones.
  \<^item> C19, C20 (\<open>Attr_Acl\<close>): access control lists stay sorted and decide by the most specific entry.
  \<^item> C5, C12 to C18, C30, C33: requests put by the senders are delivered whole; everything that is written to the protocol is
    read back unchanged, and on any other input the readers fail and put everything back, or return what they
    consumed; where the fixed-size readers stay within their arrays and where not; loops end.
  \<^item> C6 to C8, C34 to C36, C40: values, sizes, arrays of strings, resource lists and whole objects keep their
    meaning through encoding and decoding and under the operators of \<open>set\<close>; the attributes of a job that one server encodes, sends in a
    queue-job request and another decodes into a new job are the same.

  \<^bold>\<open>Bounds and fuel.\<close> The digit-count recursion of the number readers has the limit of the code, \<open>DIS_RECURSIVE_LIMIT\<close>.
  The loop of \<open>read_carray\<close> takes fuel; C30 shows that it ends, for one more step than there are characters left
  to read. The loops over linked lists, the loops of \<open>default_next_task\<close>, \<open>range_intersection\<close> and the loops over the values of a section may not end and are partial
  functions with the value \<open>None\<close> for that; the properties show when they end, and C27 that one does not. All other loops are
  structural or have a measure. Lists on the wire are limited to \<open>2 ^ 32\<close> entries and strings
  to \<open>2 ^ 31\<close> characters, as the counts of the protocol are.

  \<^bold>\<open>Not modelled.\<close> Of the daemons: request handlers (but the loop over the attributes of a new job), nodes, hooks, reservations, dependencies, limits and scheduling policy; what
  the modelled functions ask of them is a trace of calls. Operating-system and
  network calls, the TPP transport, floating-point numbers, the database, cryptography, the Windows ports, generated
  code and the commands. Logging and the release of memory leave no trace in the model. The generated tables of definitions are arguments; the
  properties hold for every table of the types that are modelled, of which entity limits, floats and the types private to one attribute are not.
\<close>

section \<open>Numbers and strings on the wire\<close>

text \<open>
  C12. Every integer, of every width and sign, survives the trip through a TCP channel: what
  \<open>diswui\<close>, \<open>diswul\<close>, \<open>diswull\<close>, \<open>diswsi\<close>, \<open>diswsl\<close> and
  \<open>diswuc\<close> write is accepted by the matching reader, which returns the same value and
  leaves exactly the input that followed.
\<close>

theorem numbers_carried:
  "tcp_carries (\<lambda>ops s. diswui ops s v) disrui v \<and>
   tcp_carries (\<lambda>ops s. diswul ops s w) disrul w \<and>
   tcp_carries (\<lambda>ops s. diswull ops s w) disrull w \<and>
   tcp_carries (\<lambda>ops s. diswsi ops s v) (\<lambda>ops. disrsi ops neg0) v \<and>
   tcp_carries (\<lambda>ops s. diswsl ops s w) (\<lambda>ops. disrsl ops neg0) w \<and>
   tcp_carries (\<lambda>ops s. diswuc ops s b) disruc b"
  by (rule tcp_carriesI [OF tcp_out.diswui_ok tcp_in.disrui_ok] tcp_carriesI [OF tcp_out.diswul_ok tcp_in.disrul_ok]
      tcp_carriesI [OF tcp_out.diswull_ok tcp_in.disrull_ok] tcp_carriesI [OF tcp_out.diswsi_ok tcp_in.disrsi_ok]
      tcp_carriesI [OF tcp_out.diswsl_ok tcp_in.disrsl_ok] tcp_carriesI [OF tcp_out.diswuc_ok tcp_in.disruc_ok] conjI)+

text \<open>
  C14. Strings survive the trip: a C string of less than 2 GB written by \<open>diswst\<close> is what
  \<open>disrst\<close> returns, and what \<open>disrfst\<close> and \<open>disrfcs\<close> store when the array
  is large enough; a counted string written by \<open>diswcs\<close> may contain NUL characters and is
  returned by \<open>disrcs\<close>.
\<close>

theorem strings_carried:
  assumes "fits STR_LIMIT str" "length str \<le> achars" "length data \<le> STR_LIMIT"
  shows "tcp_carries (\<lambda>ops s. diswst ops s str) disrst (Some str) \<and>
    tcp_carries (\<lambda>ops s. diswst ops s str) (\<lambda>ops. disrfst ops achars) (str @ [NUL]) \<and>
    tcp_carries (\<lambda>ops s. diswst ops s str) (\<lambda>ops. disrfcs ops achars) (length str, str) \<and>
    tcp_carries (\<lambda>ops s. diswcs ops s data (length data)) (\<lambda>ops. disrcs ops neg0) (Some data, length data)"
  using assms fitsD [OF assms(1)]
  by (intro conjI tcp_carriesI [OF tcp_out.diswst_ok tcp_in.disrst_ok] tcp_carriesI [OF tcp_out.diswst_ok tcp_in.disrfst_ok]
      tcp_carriesI [OF tcp_out.diswst_ok tcp_in.disrfcs_ok] tcp_carriesI [OF tcp_out.diswcs_ok tcp_in.disrcs_ok]) simp_all

theorem strings_carried_witness:
  "tcp_carries (\<lambda>ops s. diswst ops s ''a.b'') disrst (Some ''a.b'') \<and>
   tcp_carries (\<lambda>ops s. diswcs ops s [NUL, CHR ''x''] 2) (\<lambda>ops. disrcs ops True) (Some [NUL, CHR ''x''], 2)"
  using strings_carried [of "''a.b''" 3 "[NUL, CHR ''x'']" True] by (simp add: fits_def numeral_2_eq_2)

text \<open>
  C13. The number readers on arbitrary input: whatever arrives, the channel stays well-formed;
  a reader that fails has put every character back; one that succeeds has taken counts, a sign and
  digits whose value is exactly the number returned, so no value that does not fit the width is ever
  accepted.
\<close>

theorem number_readers_sound:
  "tcp_sound (\<lambda>v. num_form CHR ''+'' (unat v)) disrui \<and>
   tcp_sound (\<lambda>v. num_form CHR ''+'' (unat v)) disrul \<and>
   tcp_sound (\<lambda>v. num_form CHR ''+'' (unat v)) disrull \<and>
   tcp_sound sint_form (\<lambda>ops. disrsi ops neg0) \<and>
   tcp_sound sint_form (\<lambda>ops. disrsl ops neg0)"
  by (intro conjI tcp_soundI tcp.disrui_done tcp.disrul_done tcp.disrull_done tcp.disrsi_done tcp.disrsl_done)

text \<open>
  C15. The string readers on arbitrary input: a reader that fails puts every character back; on success the
  characters taken are a count and the string of that length. \<open>disrst\<close> and \<open>disrfst\<close> only accept strings without
  NUL. \<open>disrfcs\<close> stores at most \<open>achars\<close> characters and no terminator. \<open>disrfst\<close> accepts up to
  \<open>achars\<close> characters and stores a terminator behind them, so up to \<open>achars + 1\<close> bytes, although its comment describes
  the array as \<open>achars\<close> long; every string of exactly \<open>achars\<close> characters makes it write that one byte more.
\<close>

theorem string_readers_sound:
  assumes "fits STR_LIMIT str"
  shows "tcp_sound (\<lambda>v x. \<exists>buf. v = Some buf \<and> c_string buf \<and> str_form buf x) disrst \<and>
   tcp_sound (\<lambda>(v, n) x. \<exists>buf. v = Some buf \<and> n = length buf \<and> str_form buf x) (\<lambda>ops. disrcs ops neg0) \<and>
   tcp_sound (\<lambda>(n, v) x. n = length v \<and> n \<le> achars \<and> str_form v x) (\<lambda>ops. disrfcs ops achars) \<and>
   tcp_sound (\<lambda>v x. \<exists>buf. v = buf @ [NUL] \<and> c_string buf \<and> length v \<le> achars + 1 \<and> str_form buf x) (\<lambda>ops. disrfst ops achars) \<and>
   (\<exists>img. tcp_carries (\<lambda>ops s. diswst ops s str) (\<lambda>ops. disrfst ops (length str)) img \<and> length img = length str + 1)"
proof -
  have "tcp_carries (\<lambda>ops s. diswst ops s str) (\<lambda>ops. disrfst ops (length str)) (str @ [NUL])"
    using fitsD [OF assms] by (intro tcp_carriesI [OF tcp_out.diswst_ok tcp_in.disrfst_ok]) simp_all
  moreover have "tcp_sound (\<lambda>v x. \<exists>buf. v = buf @ [NUL] \<and> c_string buf \<and> length v \<le> achars + 1 \<and> str_form buf x) (\<lambda>ops. disrfst ops achars)"
    by (rule tcp_soundI, rule tcp.read_done_mono [OF tcp.disrfst_done]) auto
  moreover note tcp_soundI [OF tcp.disrst_done] tcp_soundI [OF tcp.disrcs_done] tcp_soundI [OF tcp.disrfcs_done]
  ultimately show ?thesis by (intro conjI exI [of _ "str @ [NUL]"]) simp_all
qed

theorem string_readers_sound_witness:
  "\<exists>img. tcp_carries (\<lambda>ops s. diswst ops s ''ab'') (\<lambda>ops. disrfst ops 2) img \<and> length img = 3"
  using string_readers_sound [of "''ab''" True 0] by (simp add: fits_def numeral_2_eq_2 numeral_3_eq_3)

section \<open>Attribute lists\<close>

text \<open>
  C16. Attribute lists survive the trip between every pair of list types the programs use: a
  client's \<open>attropl\<close> list arrives at a server as the corresponding \<open>svrattrl\<close> list and
  at a client unchanged; a client's \<open>attrl\<close> list arrives with every operator \<open>SET\<close>; and a
  server's \<open>svrattrl\<close> list arrives at a client, or at another server, with name, resource,
  value and operator preserved.
\<close>

theorem attributes_carried:
  assumes "attr_list_ok wf_attropl l" "attr_list_ok wf_svrattrl sl"
  shows "tcp_carries (\<lambda>ops. encode_DIS_attropl ops l) (\<lambda>ops. decode_DIS_svrattrl ops []) (map attropl_svr l) \<and>
    tcp_carries (\<lambda>ops. encode_DIS_attropl ops l) decode_DIS_attropl (l, False) \<and>
    tcp_carries (\<lambda>ops. encode_DIS_attrl ops l) decode_DIS_attrl (map (at_op_update (\<lambda>_. batch_op_SET)) l, False) \<and>
    tcp_carries (\<lambda>ops. encode_DIS_svrattrl ops sl) decode_DIS_attropl (map svr_attropl sl, False) \<and>
    tcp_carries (\<lambda>ops. encode_DIS_svrattrl ops sl) (\<lambda>ops. decode_DIS_svrattrl ops []) (map (attropl_svr \<circ> svr_attropl) sl)"
proof -
  note l = assms(1) attr_list_ok_svr [OF assms(2)]
  have set: "attr_list_ok wf_attropl (map (at_op_update (\<lambda>_. batch_op_SET)) l)"
    using assms(1) by (auto simp: attr_list_ok_def wf_attropl_def)
  show ?thesis
    using tcp_carriesI [OF tcp_out.encode_DIS_attropl_ok [OF l(1)] tcp_in.decode_DIS_svrattrl_ok [OF l(1), where phead = "[]"]]
      tcp_carriesI [OF tcp_out.encode_DIS_attropl_ok [OF l(1)] tcp_in.decode_DIS_attropl_ok [OF l(1)]]
      tcp_carriesI [OF tcp_out.encode_DIS_attrl_ok [OF l(1)] tcp_in.decode_DIS_attrl_ok [OF set]]
      tcp_carriesI [OF tcp_out.encode_DIS_svrattrl_ok [OF assms(2)] tcp_in.decode_DIS_attropl_ok [OF l(2)]]
      tcp_carriesI [OF tcp_out.encode_DIS_svrattrl_ok [OF assms(2)] tcp_in.decode_DIS_svrattrl_ok [OF l(2), where phead = "[]"]]
    by simp
qed

theorem attributes_carried_witness:
  "tcp_carries (\<lambda>ops. encode_DIS_attropl ops
       [\<lparr>at_name = ''Resource_List'', at_resource = Some ''ncpus'', at_value = ''4'', at_op = 0\<rparr>])
     decode_DIS_attropl ([\<lparr>at_name = ''Resource_List'', at_resource = Some ''ncpus'', at_value = ''4'', at_op = 0\<rparr>], False)"
proof -
  let ?l = "[\<lparr>at_name = ''Resource_List'', at_resource = Some ''ncpus'', at_value = ''4'', at_op = 0\<rparr>]"
  have "attr_list_ok wf_attropl ?l" "attr_list_ok wf_svrattrl []"
    by (simp_all add: attr_list_ok_def wf_attropl_def attr_ok_def attr_len_def fits_def)
  then show ?thesis using attributes_carried [of ?l "[]"] by simp
qed

section \<open>Request bodies\<close>

text \<open>
  Manager and reservation-modification requests: the server's decoder recovers command,
  object type, object name and attributes from what the client's encoder wrote.
\<close>

theorem manage_carried:
  assumes "fits PBS_MAXSVRJOBID objname" "attr_list_ok wf_attropl l"
  shows "tcp_carries (\<lambda>ops. encode_DIS_Manage ops command objtype objname l) (\<lambda>ops. decode_DIS_Manage ops r)
      \<lparr>mg_cmd = command, mg_objtype = objtype, mg_objname = objname, mg_attr = map attropl_svr l\<rparr> \<and>
    tcp_carries (\<lambda>ops. encode_DIS_ModifyResv ops (Some objname) l) (\<lambda>ops. decode_DIS_ModifyResv ops r)
      (r\<lparr>mg_objtype := MGR_OBJ_RESV, mg_objname := objname, mg_attr := map attropl_svr l\<rparr>)"
proof -
  have "fits PBS_MAXSVRJOBID (opt_str (Some objname))" using assms(1) by (simp add: opt_str_def)
  note resv = tcp_out.encode_DIS_ModifyResv_ok [OF this assms(2)]
  show ?thesis
    using tcp_carriesI [OF tcp_out.encode_DIS_Manage_ok [OF assms] tcp_in.decode_DIS_Manage_ok [OF assms]]
      tcp_carriesI [OF resv [unfolded opt_str_def option.case] tcp_in.decode_DIS_ModifyResv_ok [OF assms]] by simp
qed

theorem manage_carried_witness:
  "tcp_carries (\<lambda>ops. encode_DIS_Manage ops 2 1 ''workq'' []) (\<lambda>ops. decode_DIS_Manage ops zero_manage)
      \<lparr>mg_cmd = 2, mg_objtype = 1, mg_objname = ''workq'', mg_attr = []\<rparr>"
  using manage_carried [of "''workq''" "[]"] by (simp add: fits_def attr_list_ok_def)

text \<open>What a QueueJob leaves in a zeroed \<open>struct rq_queuejob\<close>.\<close>

definition queuejob_sent :: "string \<Rightarrow> string \<Rightarrow> attropl list \<Rightarrow> rq_queuejob" where
  "queuejob_sent jobid destin l =
     qj_store 0 (destin @ [NUL]) (qj_store (PBS_MAXDEST + 1) (jobid @ [NUL]) zero_queuejob)\<lparr>qj_attr := map attropl_svr l\<rparr>"

lemma queuejob_image:
  assumes "fits PBS_MAXSVRJOBID jobid" "fits PBS_MAXDEST destin" "attr_list_ok wf_attropl l"
  shows "tcp_in.rd_ok fd (decode_DIS_QueueJob (tcp_ops fd) zero_queuejob)
      (concat [wire_cs jobid, wire_cs destin, wire_attropls l]) (queuejob_sent jobid destin l)"
    "qj_jid (queuejob_sent jobid destin l) = jobid" "qj_destin (queuejob_sent jobid destin l) = destin"
    "qj_attr (queuejob_sent jobid destin l) = map attropl_svr l"
proof -
  show "tcp_in.rd_ok fd (decode_DIS_QueueJob (tcp_ops fd) zero_queuejob)
      (concat [wire_cs jobid, wire_cs destin, wire_attropls l]) (queuejob_sent jobid destin l)"
    unfolding queuejob_sent_def
    by (rule tcp_in.decode_DIS_QueueJob_ok) (use assms fitsD [OF assms(1)] fitsD [OF assms(2)] in simp_all)
  have "length (qj_mem zero_queuejob) = 526" by (simp add: zero_queuejob_def)
  from qj_fields [OF this assms(1,2)] show "qj_jid (queuejob_sent jobid destin l) = jobid"
    "qj_destin (queuejob_sent jobid destin l) = destin" "qj_attr (queuejob_sent jobid destin l) = map attropl_svr l"
    by (simp_all add: queuejob_sent_def qj_jid_def qj_destin_def)
qed

text \<open>
  Submission: for a QueueJob or a SubmitResv request the two character arrays of
  \<open>struct rq_queuejob\<close> hold the job identifier and the destination that were sent, and the
  attribute list is the one sent, whenever each string fits its own array.
\<close>

theorem submit_carried:
  assumes "fits PBS_MAXSVRJOBID jobid" "fits PBS_MAXDEST destin" "attr_list_ok wf_attropl l"
  shows "(\<exists>r. tcp_carries (\<lambda>ops. encode_DIS_QueueJob ops (Some jobid) (Some destin) l)
        (\<lambda>ops. decode_DIS_QueueJob ops zero_queuejob) r \<and>
      qj_jid r = jobid \<and> qj_destin r = destin \<and> qj_attr r = map attropl_svr l) \<and>
    (\<exists>r. tcp_carries (\<lambda>ops. encode_DIS_SubmitResv ops (Some jobid) l)
        (\<lambda>ops. decode_DIS_QueueJob ops zero_queuejob) r \<and>
      qj_jid r = jobid \<and> qj_destin r = [] \<and> qj_attr r = map attropl_svr l)"
proof -
  have f: "fits PBS_MAXSVRJOBID (opt_str (Some jobid))" "fits PBS_MAXDEST (opt_str (Some destin))"
    using assms(1,2) by (simp_all add: opt_str_def)
  note q = queuejob_image [OF assms(1) _ assms(3)]
  have "tcp_carries (\<lambda>ops. encode_DIS_QueueJob ops (Some jobid) (Some destin) l)
      (\<lambda>ops. decode_DIS_QueueJob ops zero_queuejob) (queuejob_sent jobid destin l)"
    using tcp_carriesI [OF tcp_out.encode_DIS_QueueJob_ok [OF f(1) _ f(2) _ assms(3)], where dec = "\<lambda>ops. decode_DIS_QueueJob ops zero_queuejob"]
      q(1) [OF assms(2)] by (simp add: opt_str_def)
  moreover have "tcp_carries (\<lambda>ops. encode_DIS_SubmitResv ops (Some jobid) l)
      (\<lambda>ops. decode_DIS_QueueJob ops zero_queuejob) (queuejob_sent jobid [] l)"
    using tcp_carriesI [OF tcp_out.encode_DIS_SubmitResv_ok [OF f(1) assms(3)], where dec = "\<lambda>ops. decode_DIS_QueueJob ops zero_queuejob"]
      q(1) [OF fits_Nil] by (simp add: opt_str_def)
  ultimately show ?thesis
    using q(2-4) [OF assms(2)] q(2-4) [OF fits_Nil] by blast
qed

theorem submit_carried_witness:
  "\<exists>r. tcp_carries (\<lambda>ops. encode_DIS_QueueJob ops (Some []) (Some ''workq@svr'') [])
        (\<lambda>ops. decode_DIS_QueueJob ops zero_queuejob) r \<and>
      qj_jid r = [] \<and> qj_destin r = ''workq@svr'' \<and> qj_attr r = []"
  using submit_carried [of "[]" "''workq@svr''" "[]"] by (simp add: fits_def attr_list_ok_def)

text \<open>
  Job scripts, job files and hook files arrive byte for byte, with their sequence number,
  their type and the job or file they belong to; so does the job identifier of a commit.
\<close>

theorem files_carried:
  assumes "fits PBS_MAXSVRJOBID jobid" "length buf \<le> STR_LIMIT" "fits mpl filename" "mpl \<le> STR_LIMIT"
  shows "tcp_carries (\<lambda>ops. encode_DIS_JobFile ops seq buf (of_nat (length buf)) (Some jobid) which)
      (\<lambda>ops. decode_DIS_JobFile ops neg0 jf)
      \<lparr>jf_sequence = seq, jf_type = which, jf_size = of_nat (length buf), jf_jobid = jobid, jf_data = Some buf\<rparr> \<and>
    tcp_carries (\<lambda>ops. encode_DIS_CopyHookFile ops seq buf (of_nat (length buf)) filename)
      (\<lambda>ops. decode_DIS_CopyHookFile ops mpl neg0 hf)
      \<lparr>hf_sequence = seq, hf_size = of_nat (length buf), hf_filename = filename, hf_data = Some buf\<rparr> \<and>
    tcp_carries (\<lambda>ops. encode_DIS_DelHookFile ops filename) (\<lambda>ops. decode_DIS_DelHookFile ops mpl hf)
      (hf\<lparr>hf_filename := filename\<rparr>) \<and>
    tcp_carries (\<lambda>ops. encode_DIS_JobId ops jobid) (\<lambda>ops. decode_DIS_JobId ops jid0) jobid"
proof -
  have f: "fits PBS_MAXSVRJOBID (opt_str (Some jobid))" using assms(1) by (simp add: opt_str_def)
  show ?thesis
    by (intro conjI tcp_carriesI [OF tcp_out.encode_DIS_JobFile_ok [OF f assms(2), unfolded opt_str_def option.case]
        tcp_in.decode_DIS_JobFile_ok [OF assms(1,2)]]
      tcp_carriesI [OF tcp_out.encode_DIS_CopyHookFile_ok [OF assms(3,4,2)] tcp_in.decode_DIS_CopyHookFile_ok [OF assms(3,4,2)]]
      tcp_carriesI [OF tcp_out.encode_DIS_DelHookFile_ok [OF assms(3,4)] tcp_in.decode_DIS_DelHookFile_ok [OF assms(3,4)]]
      tcp_carriesI [OF tcp_out.encode_DIS_JobId_ok [OF assms(1)] tcp_in.decode_DIS_JobId_ok [OF assms(1)]])
qed

theorem files_carried_witness:
  "tcp_carries (\<lambda>ops. encode_DIS_JobFile ops 0 [NUL, CHR ''x''] 2 (Some ''1.svr'') 1)
      (\<lambda>ops. decode_DIS_JobFile ops True zero_jobfile)
      \<lparr>jf_sequence = 0, jf_type = 1, jf_size = 2, jf_jobid = ''1.svr'', jf_data = Some [NUL, CHR ''x'']\<rparr>"
  using files_carried [of "''1.svr''" "[NUL, CHR ''x'']" 4096 "''h''" 0 1 True zero_jobfile zero_hookfile "[]"] by (simp add: fits_def)

text \<open>
  The operations on a job (move, run, signal, message, release of nodes, spawned Python
  script) reach the server with every argument as the client gave it; the argument and environment
  vectors of a Python spawn arrive complete and in order.
\<close>

theorem job_operations_carried:
  assumes "fits PBS_MAXSVRJOBID jobid" "fits PBS_MAXDEST destin" "fits PBS_SIGNAMESZ sig" "fits STR_LIMIT txt"
    "carray_ok argv" "carray_ok envp" "length argv < fuel" "length envp < fuel"
  shows "tcp_carries (\<lambda>ops. encode_DIS_MoveJob ops jobid destin) (\<lambda>ops. decode_DIS_MoveJob ops mv)
      \<lparr>mv_jid = jobid, mv_destin = destin\<rparr> \<and>
    tcp_carries (\<lambda>ops. encode_DIS_Run ops jobid txt arg) (\<lambda>ops. decode_DIS_Run ops rn)
      \<lparr>rn_jid = jobid, rn_destin = Some txt, rn_resch = arg\<rparr> \<and>
    tcp_carries (\<lambda>ops. encode_DIS_SignalJob ops jobid sig) (\<lambda>ops. decode_DIS_SignalJob ops sg)
      \<lparr>sg_jid = jobid, sg_signame = sig\<rparr> \<and>
    tcp_carries (\<lambda>ops. encode_DIS_MessageJob ops jobid fo txt) (\<lambda>ops. decode_DIS_MessageJob ops ms)
      \<lparr>ms_file = fo, ms_jid = jobid, ms_text = Some txt\<rparr> \<and>
    tcp_carries (\<lambda>ops. encode_DIS_RelnodesJob ops jobid txt) (\<lambda>ops. decode_DIS_RelnodesJob ops rl)
      \<lparr>rl_jid = jobid, rl_node_list = Some txt\<rparr> \<and>
    tcp_carries (\<lambda>ops. encode_DIS_PySpawn ops jobid (Some argv) (Some envp)) (\<lambda>ops. decode_DIS_PySpawn fuel ops py)
      \<lparr>py_jid = jobid, py_argv = Some argv, py_envp = Some envp\<rparr>"
proof -
  note enc = tcp_out.encode_job_ok [OF assms(1)] and dec = tcp_in.decode_job_ok [OF assms(1)]
  have py: "carray_ok (opt_list (Some argv))" "carray_ok (opt_list (Some envp))"
    using assms(5,6) by (simp_all add: opt_list_def)
  show ?thesis
    by (intro conjI tcp_carriesI [OF enc(1) [OF assms(2)] dec(1) [OF assms(2)]] tcp_carriesI [OF enc(2) [OF assms(4)] dec(2) [OF assms(4)]]
      tcp_carriesI [OF enc(3) [OF assms(3)] dec(3) [OF assms(3)]] tcp_carriesI [OF enc(4) [OF assms(4)] dec(4) [OF assms(4)]]
      tcp_carriesI [OF enc(5) [OF assms(4)] dec(5) [OF assms(4)]]
      tcp_carriesI [OF tcp_out.encode_DIS_PySpawn_ok [OF assms(1) py, unfolded opt_list_def option.case]
        tcp_in.decode_DIS_PySpawn_ok [OF assms(1,5-8)]])
qed

theorem job_operations_carried_witness:
  "tcp_carries (\<lambda>ops. encode_DIS_SignalJob ops ''7.svr'' ''SIGKILL'')
      (\<lambda>ops. decode_DIS_SignalJob ops \<lparr>sg_jid = [], sg_signame = []\<rparr>) \<lparr>sg_jid = ''7.svr'', sg_signame = ''SIGKILL''\<rparr> \<and>
   tcp_carries (\<lambda>ops. encode_DIS_PySpawn ops ''7.svr'' (Some [''a.py'', ''-v'']) (Some []))
      (\<lambda>ops. decode_DIS_PySpawn 3 ops \<lparr>py_jid = [], py_argv = None, py_envp = None\<rparr>)
      \<lparr>py_jid = ''7.svr'', py_argv = Some [''a.py'', ''-v''], py_envp = Some []\<rparr>"
  using job_operations_carried [of "''7.svr''" "''q''" "''SIGKILL''" "''m''" "[''a.py'', ''-v'']" "[]" 3]
  by (simp add: fits_def carray_ok_def)

text \<open>
  Status queries, server shutdown, job tracking, dependency registration and user migration
  reach the receiver with every field as it was given; a status query's attributes carry the
  operator \<open>SET\<close>, and a dependency keeps the part of the structure that is not sent.
\<close>

theorem server_requests_carried:
  assumes "fits STR_LIMIT objid" "attr_list_ok wf_attropl l"
    "fits PBS_MAXSVRJOBID (tk_jid tk)" "fits PBS_MAXDEST (tk_location tk)"
    "fits PBS_MAXUSER (rg_owner rg)" "fits PBS_MAXSVRJOBID (rg_parent rg)" "fits PBS_MAXCLTJOBID (rg_child rg)"
    "fits PBS_MAXHOSTNAME tohost"
  shows "tcp_carries (\<lambda>ops. encode_DIS_Status ops objid l) (\<lambda>ops. decode_DIS_Status ops neg0 st)
      \<lparr>st_id = Some objid, st_attr = map attropl_svr (map (at_op_update (\<lambda>_. batch_op_SET)) l)\<rparr> \<and>
    tcp_carries (\<lambda>ops. encode_DIS_ShutDown ops manner) (\<lambda>ops. decode_DIS_ShutDown ops sh) manner \<and>
    tcp_carries (\<lambda>ops. encode_DIS_TrackJob ops tk) (\<lambda>ops. decode_DIS_TrackJob ops tk0) tk \<and>
    tcp_carries (\<lambda>ops. encode_DIS_Register ops rg) (\<lambda>ops. decode_DIS_Register ops neg0 rg0)
      (rg\<lparr>rg_svr := rg_svr rg0\<rparr>) \<and>
    tcp_carries (\<lambda>ops. encode_DIS_UserMigrate ops tohost) (\<lambda>ops. decode_DIS_UserMigrate ops um) tohost"
proof -
  have set: "attr_list_ok wf_attropl (map (at_op_update (\<lambda>_. batch_op_SET)) l)"
    using assms(2) by (auto simp: attr_list_ok_def wf_attropl_def)
  have obj: "length objid \<le> STR_LIMIT" using fitsD(2) [OF assms(1)] .
  have tk: "tk = \<lparr>tk_hopcount = tk_hopcount tk, tk_jid = tk_jid tk, tk_location = tk_location tk, tk_state = tk_state tk\<rparr>"
    by (cases tk) simp
  have rg: "rg\<lparr>rg_svr := rg_svr rg0\<rparr> = rg0\<lparr>rg_owner := rg_owner rg, rg_parent := rg_parent rg, rg_child := rg_child rg,
      rg_dependtype := rg_dependtype rg, rg_op := rg_op rg, rg_cost := rg_cost rg\<rparr>"
    by (cases rg, cases rg0) simp
  note enc = tcp_out.encode_misc_ok and dec = tcp_in.decode_misc_ok
  have "tcp_carries (\<lambda>ops. encode_DIS_TrackJob ops tk) (\<lambda>ops. decode_DIS_TrackJob ops tk0) tk"
    by (subst (2) tk, rule tcp_carriesI [OF enc(3) [OF assms(3,4)] dec(3) [OF assms(3,4)]])
  then show ?thesis
    unfolding rg by (intro conjI tcp_carriesI [OF enc(1) [OF assms(1,2)] dec(1) [OF obj set]] tcp_carriesI [OF enc(2) dec(2)]
      tcp_carriesI [OF enc(4) [OF assms(5-7)] dec(4) [OF assms(5-7)]] tcp_carriesI [OF enc(5) [OF assms(8)] dec(5) [OF assms(8)]])
qed

theorem server_requests_carried_witness:
  "tcp_carries (\<lambda>ops. encode_DIS_TrackJob ops \<lparr>tk_hopcount = 1, tk_jid = ''7.svr'', tk_location = ''q@b'', tk_state = 81\<rparr>)
     (\<lambda>ops. decode_DIS_TrackJob ops \<lparr>tk_hopcount = 0, tk_jid = [], tk_location = [], tk_state = 0\<rparr>)
     \<lparr>tk_hopcount = 1, tk_jid = ''7.svr'', tk_location = ''q@b'', tk_state = 81\<rparr>"
  using server_requests_carried [of "''7.svr''" "[]" "\<lparr>tk_hopcount = 1, tk_jid = ''7.svr'', tk_location = ''q@b'', tk_state = 81\<rparr>"
      zero_register "''h''"]
  by (simp add: fits_def attr_list_ok_def zero_register_def)

text \<open>
  Credentials: the credential of a job, that of a user and the copy request that carries
  one arrive with type, length and every byte, NUL bytes included; the file pairs of a copy request
  arrive in order, a missing remote name as an empty string.
\<close>

theorem credentials_carried:
  assumes "length cred \<le> STR_LIMIT" "fits PBS_MAXUSER user" "wf_cpyfile cf"
  shows "tcp_carries (\<lambda>ops. encode_DIS_JobCred ops ty cred (of_nat (length cred))) (\<lambda>ops. decode_DIS_JobCred ops neg0 jc)
      \<lparr>jc_type = ty, jc_size = length cred, jc_data = Some cred\<rparr> \<and>
    tcp_carries (\<lambda>ops. encode_DIS_UserCred ops user ty cred (of_nat (length cred))) (\<lambda>ops. decode_DIS_UserCred ops neg0 uc)
      \<lparr>uc_user = user, uc_type = ty, uc_size = length cred, uc_data = Some cred\<rparr> \<and>
    tcp_carries (\<lambda>ops. encode_DIS_CopyFiles ops cf) (\<lambda>ops. decode_DIS_CopyFiles ops cf0)
      (cf\<lparr>cf_pair := map pair_sent (cf_pair cf)\<rparr>) \<and>
    tcp_carries (\<lambda>ops. encode_DIS_CopyFiles_Cred ops \<lparr>cc_copyfile = cf, cc_credtype = ty, cc_credlen = length cred, cc_pcred = Some cred\<rparr>)
      (\<lambda>ops. decode_DIS_CopyFiles_Cred ops neg0 cc0)
      \<lparr>cc_copyfile = cf\<lparr>cf_pair := map pair_sent (cf_pair cf)\<rparr>, cc_credtype = ty, cc_credlen = length cred, cc_pcred = Some cred\<rparr>"
proof -
  let ?cc = "\<lparr>cc_copyfile = cf, cc_credtype = ty, cc_credlen = length cred, cc_pcred = Some cred\<rparr>"
  have cc: "tcp_out.wr_ok fd (encode_DIS_CopyFiles_Cred (tcp_ops fd) ?cc) (concat [wire_cpyfile cf, wire_u (unat ty), wire_cs cred])" for fd
    using tcp_out.encode_DIS_CopyFiles_Cred_ok [of ?cc cred fd] assms by simp
  note enc = tcp_out.encode_cred_ok [OF assms(1)] and dec = tcp_in.decode_cred_ok [OF assms(1)]
  show ?thesis
    by (intro conjI tcp_carriesI [OF enc(1) dec(1)] tcp_carriesI [OF enc(2) [OF assms(2)] dec(2) [OF assms(2)]]
        tcp_carriesI [OF tcp_out.encode_DIS_CopyFiles_ok [OF assms(3)] tcp_in.decode_DIS_CopyFiles_ok [OF assms(3)]]
        tcp_carriesI [OF cc tcp_in.decode_DIS_CopyFiles_Cred_ok [OF assms(3,1)]])
qed

theorem credentials_carried_witness:
  "tcp_carries (\<lambda>ops. encode_DIS_UserCred ops ''bob'' 1 [NUL, NUL] 2)
      (\<lambda>ops. decode_DIS_UserCred ops True \<lparr>uc_user = [], uc_type = 0, uc_size = 0, uc_data = None\<rparr>)
      \<lparr>uc_user = ''bob'', uc_type = 1, uc_size = 2, uc_data = Some [NUL, NUL]\<rparr> \<and>
   tcp_carries (\<lambda>ops. encode_DIS_CopyFiles ops (zero_cpyfile\<lparr>cf_pair := [\<lparr>fp_flag = 1, fp_local = ''l'', fp_rmt = None\<rparr>]\<rparr>))
      (\<lambda>ops. decode_DIS_CopyFiles ops zero_cpyfile)
      (zero_cpyfile\<lparr>cf_pair := [\<lparr>fp_flag = 1, fp_local = ''l'', fp_rmt = Some []\<rparr>]\<rparr>)"
  using credentials_carried [of "[NUL, NUL]" "''bob''" "zero_cpyfile\<lparr>cf_pair := [\<lparr>fp_flag = 1, fp_local = ''l'', fp_rmt = None\<rparr>]\<rparr>" 1]
  by (simp add: fits_def wf_cpyfile_def wf_pair_def zero_cpyfile_def pair_sent_def opt_str_def numeral_2_eq_2)

section \<open>Replies\<close>

text \<open>
  C17. Replies: whatever the choice (nothing, a job identifier, a selection, a status list,
  a text, a location), a command reads back code, auxiliary code, choice and the contents that the
  server encoded, and a server that issued the request reads them too, with the status attributes in
  its own list type.
\<close>

theorem replies_carried:
  assumes "reply_form un0 choice un bs cmd svr"
  shows "tcp_carries (\<lambda>ops. encode_DIS_reply ops \<lparr>brp_code = code, brp_auxcode = aux, brp_choice = choice, brp_union = un\<rparr>)
      (\<lambda>ops. decode_DIS_replyCmd ops neg0 (r\<lparr>brp_union := un0\<rparr>))
      \<lparr>brp_code = code, brp_auxcode = aux, brp_choice = choice, brp_union = cmd\<rparr> \<and>
    tcp_carries (\<lambda>ops. encode_DIS_reply ops \<lparr>brp_code = code, brp_auxcode = aux, brp_choice = choice, brp_union = un\<rparr>)
      (\<lambda>ops. decode_DIS_replySvr ops neg0 (r\<lparr>brp_union := un0\<rparr>))
      \<lparr>brp_code = code, brp_auxcode = aux, brp_choice = choice, brp_union = svr\<rparr>"
proof -
  let ?r = "\<lparr>brp_code = code, brp_auxcode = aux, brp_choice = choice, brp_union = un\<rparr>" and ?old = "r\<lparr>brp_union := un0\<rparr>"
  have "reply_form un0 (brp_choice ?r) (brp_union ?r) bs cmd svr" "reply_form (brp_union ?old) choice un bs cmd svr"
    using assms by simp_all
  note enc = tcp_out.encode_DIS_reply_ok [OF this(1), simplified]
    and dec = tcp_in.decode_DIS_replyCmd_ok [OF this(2), simplified] tcp_in.decode_DIS_replySvr_ok [OF this(2), simplified]
  show ?thesis
    by (intro conjI tcp_carriesI [OF enc dec(1)] tcp_carriesI [OF enc dec(2)])
qed

theorem replies_carried_witness:
  "tcp_carries (\<lambda>ops. encode_DIS_reply ops \<lparr>brp_code = 0, brp_auxcode = 0, brp_choice = CHOICE_Queue, brp_union = Brp_jid ''12.svr''\<rparr>)
     (\<lambda>ops. decode_DIS_replyCmd ops True \<lparr>brp_code = 0, brp_auxcode = 0, brp_choice = 0, brp_union = Brp_none\<rparr>)
     \<lparr>brp_code = 0, brp_auxcode = 0, brp_choice = CHOICE_Queue, brp_union = Brp_jid ''12.svr''\<rparr>"
proof -
  have "reply_form Brp_none CHOICE_Queue (Brp_jid ''12.svr'') (wire_cs ''12.svr'') (Brp_jid ''12.svr'') (Brp_jid ''12.svr'')"
    by (rule form_jid) (simp_all add: fits_def)
  from replies_carried [OF this, of 0 0 True "\<lparr>brp_code = 0, brp_auxcode = 0, brp_choice = 0, brp_union = Brp_none\<rparr>"]
  show ?thesis by simp
qed

section \<open>From client to server\<close>

text \<open>
  C5. \<open>PBSD_mgr_put\<close> against \<open>dis_request_read\<close>: a manager, delete, hold, modify or
  release request put by a client is read whole by the server: same type, user, command, object,
  attributes and extension (an empty extension counts as none).
\<close>

theorem manager_request_delivered:
  assumes "fits PBS_MAXUSER user" "fits STR_LIMIT (opt_str ext)" "fits PBS_MAXSVRJOBID objname"
    "attr_list_ok wf_attropl l" "reqt \<in> {6, 7, 9, 11, 13, 72, 92}"
  shows "delivered (\<lambda>fd. PBSD_mgr_put strdup_ok fd user reqt command objtype objname l ext)
    (\<lambda>fd. dis_request_read_tcp False mpl fuel neg0 fd (alloc_br t0))
    \<lparr>rq_type = reqt, rq_user = user, rq_extend = ext_read ext,
     rq_ind = Ind_manager \<lparr>mg_cmd = command, mg_objtype = objtype, mg_objname = objname, mg_attr = map attropl_svr l\<rparr>\<rparr>"
proof -
  have "reqt \<noteq> 59" using assms(5) by auto
  then show ?thesis
    unfolding PBSD_mgr_put_def
    by (intro request_delivered [OF assms(1) _ assms(2) tcp_out.encode_DIS_Manage_ok [OF assms(3,4)]
          tcp_in.decode_body_ok(1) [OF assms(3,3-5)]])
qed

theorem manager_request_delivered_witness:
  "delivered (\<lambda>fd. PBSD_mgr_put True fd ''root'' 9 2 1 ''workq'' [] None)
    (\<lambda>fd. dis_request_read_tcp False 4096 0 True fd (alloc_br 0))
    \<lparr>rq_type = 9, rq_user = ''root'', rq_extend = None,
     rq_ind = Ind_manager \<lparr>mg_cmd = 2, mg_objtype = 1, mg_objname = ''workq'', mg_attr = []\<rparr>\<rparr>"
  using manager_request_delivered [of "''root''" None "''workq''" "[]" 9 True 2 1 4096 0 True 0]
  by (simp add: fits_def attr_list_ok_def ext_read_def opt_str_def)

text \<open>
  \<open>PBSD_status_put\<close> against \<open>dis_request_read\<close>: a status query for a job, queue,
  server, reservation, scheduler, hook or resource is read whole by the server.
\<close>

theorem status_request_delivered:
  assumes "fits PBS_MAXUSER user" "fits STR_LIMIT (opt_str ext)" "fits STR_LIMIT objid"
    "attr_list_ok wf_attropl l" "reqt \<in> {19, 20, 21, 58, 71, 81, 82, 83}"
  shows "delivered (\<lambda>fd. PBSD_status_put strdup_ok fd user reqt objid l ext)
    (\<lambda>fd. dis_request_read_tcp False mpl fuel neg0 fd (alloc_br t0))
    \<lparr>rq_type = reqt, rq_user = user, rq_extend = ext_read ext,
     rq_ind = Ind_status \<lparr>st_id = Some objid, st_attr = map attropl_svr (map (at_op_update (\<lambda>_. batch_op_SET)) l)\<rparr>\<rparr>"
proof -
  have "reqt \<noteq> 59" using assms(5) by auto
  moreover have "attr_list_ok wf_attropl (map (at_op_update (\<lambda>_. batch_op_SET)) l)"
    using assms(4) by (auto simp: attr_list_ok_def wf_attropl_def)
  ultimately show ?thesis
    unfolding PBSD_status_put_def
    by (intro request_delivered [OF assms(1) _ assms(2) tcp_out.encode_misc_ok(1) [OF assms(3,4)]
          tcp_in.decode_body_ok(6) [OF fits_Nil fitsD(2) [OF assms(3)] _ assms(5)]])
qed

theorem status_request_delivered_witness:
  "delivered (\<lambda>fd. PBSD_status_put True fd ''bob'' 19 ''12.svr'' [] (Some ''x''))
    (\<lambda>fd. dis_request_read_tcp False 4096 0 True fd (alloc_br 0))
    \<lparr>rq_type = 19, rq_user = ''bob'', rq_extend = Some ''x'', rq_ind = Ind_status \<lparr>st_id = Some ''12.svr'', st_attr = []\<rparr>\<rparr>"
  using status_request_delivered [of "''bob''" "Some ''x''" "''12.svr''" "[]" 19 True 4096 0 True 0]
  by (simp add: fits_def attr_list_ok_def ext_read_def opt_str_def)

text \<open>
  C18. The four functions that put a request about one job (signal, message, release of nodes, Python
  spawn) against \<open>dis_request_read\<close>: with texts that fit the arrays of the request, the server reads the request
  of that type with the same user, job, texts and extension (the Python request has none), by the arm of its type; the
  release of nodes is read by servers, the others by the execution daemons too. Fuel above the lengths of
  the two vectors of the Python request is enough.
\<close>

theorem job_requests_delivered:
  assumes "fits PBS_MAXUSER user" "fits STR_LIMIT (opt_str ext)" "fits PBS_MAXSVRJOBID jobid"
    "fits PBS_SIGNAMESZ sig" "fits STR_LIMIT txt" "carray_ok argv" "carray_ok envp" "length argv < fuel" "length envp < fuel"
  shows "delivered (\<lambda>fd. PBSD_sig_put strdup_ok fd user jobid sig ext) (\<lambda>fd. dis_request_read_tcp mom mpl fuel neg0 fd (alloc_br t0))
      \<lparr>rq_type = 18, rq_user = user, rq_extend = ext_read ext, rq_ind = Ind_signal \<lparr>sg_jid = jobid, sg_signame = sig\<rparr>\<rparr> \<and>
    delivered (\<lambda>fd. PBSD_msg_put fd user jobid fo txt ext) (\<lambda>fd. dis_request_read_tcp mom mpl fuel neg0 fd (alloc_br t0))
      \<lparr>rq_type = 10, rq_user = user, rq_extend = ext_read ext, rq_ind = Ind_message \<lparr>ms_file = fo, ms_jid = jobid, ms_text = Some txt\<rparr>\<rparr> \<and>
    delivered (\<lambda>fd. PBSD_relnodes_put fd user jobid txt ext) (\<lambda>fd. dis_request_read_tcp False mpl fuel neg0 fd (alloc_br t0))
      \<lparr>rq_type = 90, rq_user = user, rq_extend = ext_read ext, rq_ind = Ind_relnodes \<lparr>rl_jid = jobid, rl_node_list = Some txt\<rparr>\<rparr> \<and>
    delivered (\<lambda>fd. PBSD_py_spawn_put fd user jobid (Some argv) (Some envp)) (\<lambda>fd. dis_request_read_tcp mom mpl fuel neg0 fd (alloc_br t0))
      \<lparr>rq_type = 84, rq_user = user, rq_extend = None,
       rq_ind = Ind_py_spawn \<lparr>py_jid = jobid, py_argv = Some argv, py_envp = Some envp\<rparr>\<rparr>"
proof -
  note enc = tcp_out.encode_job_ok [OF assms(3)] and dec = tcp_in.decode_body_ok [OF assms(3)]
  note put = request_delivered [OF assms(1) _ assms(2)]
  have none: "fits STR_LIMIT (opt_str None)" "ext_read None = None" by (simp_all add: opt_str_def ext_read_def fits_def)
  have py: "carray_ok (opt_list (Some argv))" "carray_ok (opt_list (Some envp))"
    using assms(6,7) by (simp_all add: opt_list_def)
  note py_put = request_delivered [OF assms(1) _ none(1) tcp_out.encode_DIS_PySpawn_ok [OF assms(3) py, unfolded opt_list_def option.case]
      dec(5) [OF assms(6-9)], unfolded none(2)]
  show ?thesis
    unfolding PBSD_sig_put_def PBSD_msg_put_def PBSD_relnodes_put_def PBSD_py_spawn_put_def
    by (intro conjI put [OF _ enc(3) [OF assms(4)] dec(2) [OF assms(4)]] put [OF _ enc(4) [OF assms(5)] dec(3) [OF assms(5)]]
        put [OF _ enc(5) [OF assms(5)] dec(4) [OF assms(5)]] py_put) simp_all
qed

theorem job_requests_delivered_witness:
  "delivered (\<lambda>fd. PBSD_sig_put True fd ''bob'' ''7.svr'' ''SIGTERM'' None) (\<lambda>fd. dis_request_read_tcp False 4096 9 True fd (alloc_br 0))
      \<lparr>rq_type = 18, rq_user = ''bob'', rq_extend = None, rq_ind = Ind_signal \<lparr>sg_jid = ''7.svr'', sg_signame = ''SIGTERM''\<rparr>\<rparr>"
  using job_requests_delivered [of "''bob''" None "''7.svr''" "''SIGTERM''" "''m''" "[''a.py'']" "[]" 9 True False 4096 True 0]
  by (simp add: fits_def ext_read_def opt_str_def carray_ok_def)

section \<open>Any input\<close>

text \<open>
  However a request or reply is malformed and however the input is cut into portions, reading it leaves the channel
  well-formed with nothing uncommitted and its output untouched.
\<close>

theorem messages_read_safe:
  "tcp_safe (\<lambda>ops. dis_request_read mom mpl fuel neg0 ops request) \<and> tcp_safe (\<lambda>ops. decode_DIS_replyCmd ops neg0 reply) \<and>
   tcp_safe (\<lambda>ops. decode_DIS_replySvr ops neg0 reply)"
  by (intro conjI tcp_safeI tcp.rd_safe_request tcp.rd_safe_replies)

text \<open>
  C30. The loop of \<open>read_carray\<close>, which has no bound of its own, ends on every input: with more
  fuel than there are bytes to come the model never runs out of it.
\<close>

theorem read_carray_ends:
  assumes "tcp_ok fd st" "tcp_taken fd st = []" "length (tcp_avail fd st) < fuel"
  shows "fst (read_carray_loop fuel (tcp_ops fd) num carr st) \<noteq> CARRAY_FUEL"
  using assms by (rule tcp.read_carray_returns)

text \<open>A network in which the peer of every descriptor has sent \<open>d\<close>; no channel exists yet.\<close>

definition net_with :: "string \<Rightarrow> tcp_state" where
  "net_with d = \<lparr>tcparray = [], sock_in = (\<lambda>_. [InData d]), sock_out = (\<lambda>_. []), sent = (\<lambda>_. [])\<rparr>"

lemma net_with_sized: "d \<noteq> [] \<Longrightarrow> fd_sized fd (net_with d)"
  by (simp add: fd_sized_def net_with_def)

theorem read_carray_ends_witness:
  "fst (read_carray_loop 9 (tcp_ops 3) 4 [] (DIS_tcp_setup (int 3) (net_with ''+1x+0''))) \<noteq> CARRAY_FUEL"
proof -
  have "fd_sized 3 (net_with ''+1x+0'')" by (rule net_with_sized) simp
  note su = DIS_tcp_setup_law [OF this]
  have "length (tcp_avail 3 (DIS_tcp_setup (int 3) (net_with ''+1x+0''))) < 9"
    unfolding su(3) by (simp add: net_with_def)
  from read_carray_ends [OF su(1,2) this] show ?thesis .
qed

section \<open>The transport\<close>

text \<open>
  \<open>DIS_tcp_setup\<close> makes a descriptor usable whatever its history: the channel is
  well-formed and empty in both directions, what the peer has sent and not yet been read from the
  socket is all there, and nothing that was sent is touched.
\<close>

theorem setup_ready:
  assumes "fd_sized fd st"
  shows "tcp_ok fd (DIS_tcp_setup (int fd) st) \<and> tcp_taken fd (DIS_tcp_setup (int fd) st) = [] \<and>
    tcp_avail fd (DIS_tcp_setup (int fd) st) = net_avail (sock_in st fd) \<and>
    tcp_pend fd (DIS_tcp_setup (int fd) st) = [] \<and> tcp_outp fd (DIS_tcp_setup (int fd) st) = sent st fd"
  by (simp add: DIS_tcp_setup_law [OF assms])

theorem setup_ready_witness:
  "tcp_ok 3 (DIS_tcp_setup (int 3) (net_with ''+1'')) \<and> tcp_avail 3 (DIS_tcp_setup (int 3) (net_with ''+1'')) = ''+1''"
proof -
  have "fd_sized 3 (net_with ''+1'')" by (rule net_with_sized) simp
  from setup_ready [OF this] show ?thesis by (simp add: net_with_def)
qed

text \<open>
  \<open>DIS_tcp_wflush\<close>: success means the kernel has exactly the output committed so far, in
  order, and the uncommitted rest is still pending; failure means that some prefix of the committed
  output went out while the buffer still holds all of it (so that a second flush sends that prefix
  again); a kernel that accepts data makes it succeed.
\<close>

theorem wflush_result:
  assumes "tcp_ok fd st" "DIS_tcp_wflush fd st = (r, st')"
  shows "tcp_ok fd st' \<and> tcp_pend fd st' = tcp_pend fd st \<and> tcp_avail fd st' = tcp_avail fd st \<and>
    (if r = 0 then sent st' fd = tcp_outp fd st \<and> tcp_outp fd st' = tcp_outp fd st
     else r = - 1 \<and> \<not> tcp_calm fd st \<and> tcparray st' = tcparray st \<and>
       (\<exists>w k. sent st' fd = sent st fd @ w \<and> tcp_outp fd st = sent st fd @ w @ k))"
proof -
  note law = DIS_tcp_wflush_law [OF assms] and fail = DIS_tcp_wflush_fail [OF assms(2)]
  show ?thesis
  proof (cases "r = 0")
    case True
    then show ?thesis using law same_read_views [of fd st st'] by auto
  next
    case False
    then show ?thesis using law fail same_read_views [of fd st st'] by (auto simp: tcp_outp_def Let_def prefix_def)
  qed
qed

theorem wflush_result_witness:
  "\<exists>st'. DIS_tcp_wflush 3 (DIS_tcp_setup (int 3) (net_with ''+1'')) = (0, st') \<and> sent st' 3 = []"
proof -
  have "fd_sized 3 (net_with ''+1'')" by (rule net_with_sized) simp
  note su = DIS_tcp_setup_law [OF this]
  obtain r st' where f: "DIS_tcp_wflush 3 (DIS_tcp_setup (int 3) (net_with ''+1'')) = (r, st')"
    by (cases "DIS_tcp_wflush 3 (DIS_tcp_setup (int 3) (net_with ''+1''))")
  have "tcp_calm 3 (net_with ''+1'')" by (simp add: tcp_calm_def net_with_def)
  then have "r = 0" "sent st' 3 = sent (net_with ''+1'') 3"
    using wflush_result [OF su(1) f] su(5,6) by (auto split: if_splits)
  then show ?thesis using f by (simp add: net_with_def)
qed

text \<open>
  Connections do not interfere: no operation of the transport on one descriptor changes the
  buffers, the unread input or the output of another.
\<close>

theorem descriptors_isolated:
  "same_others fd st (DIS_tcp_setup (int fd) st) \<and> same_others fd st (snd (DIS_tcp_wflush fd st)) \<and>
   same_others fd st (snd (tcp_getc mal fd st)) \<and> same_others fd st (snd (snd (tcp_gets mal fd st n))) \<and>
   same_others fd st (snd (tcp_puts mal fd st str)) \<and> same_others fd st (snd (tcp_rcommit fd st b)) \<and>
   same_others fd st (snd (tcp_wcommit fd st b))"
  by (intro conjI same_others_setup same_others_wflush [OF prod.collapse [symmetric]] same_others_getc [OF prod.collapse [symmetric]]
      same_others_puts [OF prod.collapse [symmetric]] same_others_commit [OF prod.collapse [symmetric]])
    (cases "tcp_gets mal fd st n", auto dest: same_others_gets)

section \<open>Where the code departs from its intention\<close>

text \<open>
  C33. A destination longer than its array corrupts the job identifier. The decoder of QueueJob
  accepts destinations of up to \<open>PBS_MAXSVRJOBID + 1\<close> characters for an array of
  \<open>PBS_MAXDEST + 1\<close>: one of 257 to 269 characters is accepted, and the job identifier that the
  server then sees is the tail of the destination, whatever identifier was sent.
\<close>

theorem queuejob_destination_overflow:
  assumes "fits PBS_MAXSVRJOBID jobid" "c_string destin" "PBS_MAXDEST + 1 \<le> length destin"
    "length destin \<le> PBS_MAXSVRJOBID + 1" "attr_list_ok wf_attropl l"
  shows "\<exists>r. tcp_carries (\<lambda>ops. encode_DIS_QueueJob ops (Some jobid) (Some destin) l)
      (\<lambda>ops. decode_DIS_QueueJob ops zero_queuejob) r \<and> qj_jid r = drop (PBS_MAXDEST + 1) destin"
proof -
  let ?r = "queuejob_sent jobid destin l"
  have f: "fits PBS_MAXSVRJOBID (opt_str (Some jobid))" "fits (PBS_MAXSVRJOBID + 1) (opt_str (Some destin))"
    using assms by (simp_all add: opt_str_def fits_def)
  have dec: "tcp_in.rd_ok fd (decode_DIS_QueueJob (tcp_ops fd) zero_queuejob)
      (concat [wire_cs jobid, wire_cs destin, wire_attropls l]) ?r" for fd
    unfolding queuejob_sent_def by (rule tcp_in.decode_DIS_QueueJob_ok) (use assms fitsD [OF assms(1)] in simp_all)
  have "tcp_carries (\<lambda>ops. encode_DIS_QueueJob ops (Some jobid) (Some destin) l) (\<lambda>ops. decode_DIS_QueueJob ops zero_queuejob) ?r"
    using tcp_carriesI [OF tcp_out.encode_DIS_QueueJob_ok [OF f(1) _ f(2) _ assms(5)], where dec = "\<lambda>ops. decode_DIS_QueueJob ops zero_queuejob"]
      dec by (simp add: opt_str_def)
  moreover have "c_string (drop 257 destin)" using assms(2) by (auto simp: c_string_def dest: in_set_dropD)
  then have "qj_jid ?r = drop 257 destin"
    using assms(3) by (simp add: qj_jid_def queuejob_sent_def qj_store_def store_at_def)
  ultimately show ?thesis by auto
qed

theorem queuejob_destination_overflow_witness:
  "\<exists>r. tcp_carries (\<lambda>ops. encode_DIS_QueueJob ops (Some ''1.svr'') (Some (replicate 257 CHR ''x'' @ ''9.b'')) [])
      (\<lambda>ops. decode_DIS_QueueJob ops zero_queuejob) r \<and> qj_jid r = ''9.b''"
proof -
  have "drop (PBS_MAXDEST + 1) (replicate 257 CHR ''x'' @ ''9.b'') = ''9.b''" by simp
  then show ?thesis
    using queuejob_destination_overflow [of "''1.svr''" "replicate 257 CHR ''x'' @ ''9.b''" "[]"]
    by (simp add: fits_def attr_list_ok_def c_string_def)
qed

text \<open>
  A malformed ModifyResv body is never reported: the case of \<open>dis_request_read\<close> for it
  does not look at the decoder's status, so on every transport and every input the body counts as
  read and the extension is decoded from whatever follows.
\<close>

theorem modifyresv_errors_lost:
  "fst (decode_body False mpl fuel neg0 ops 91 s) = 0 \<and>
   decode_body False mpl fuel neg0 ops 91 s =
     (0, Ind_modify (fst (snd (decode_DIS_ModifyResv ops zero_manage s))), snd (snd (decode_DIS_ModifyResv ops zero_manage s)))"
  by (simp add: decode_body_defs rd_arm_def ignore_rc_def split: prod.split)

text \<open>
  \<open>tcp_rskip\<close> does not respect the end of the data: with unread characters in the buffer
  it moves the position by any requested count, since the limit it computes is \<open>lead - eod\<close>, which
  wraps around; so a count beyond the data breaks the buffer invariant.
\<close>

theorem rskip_overruns:
  assumes "tcp_ok fd st" "tdis_lead (tcp_get_readbuf fd st) < tdis_eod (tcp_get_readbuf fd st)"
    "tdis_eod (tcp_get_readbuf fd st) < 2 ^ 62" "ct < 2 ^ 31"
  shows "tdis_lead (tcp_get_readbuf fd (snd (tcp_rskip fd st ct))) = tdis_lead (tcp_get_readbuf fd st) + ct \<and>
    (tcp_ok fd (snd (tcp_rskip fd st ct)) \<longleftrightarrow> ct \<le> tdis_eod (tcp_get_readbuf fd st) - tdis_lead (tcp_get_readbuf fd st))"
proof -
  let ?tp = "tcp_get_readbuf fd st"
  have "\<not> size_sub (tdis_lead ?tp) (tdis_eod ?tp) < ct"
    using assms(2-4) by (simp add: size_sub_def)
  then have eq: "snd (tcp_rskip fd st ct) = set_readbuf fd (?tp\<lparr>tdis_lead := tdis_lead ?tp + ct\<rparr>) st"
    by (simp add: tcp_rskip_def Let_def)
  show ?thesis
    unfolding eq using assms(1,2) by (auto simp: tcp_ok_def wf_readbuf_def)
qed

theorem rskip_overruns_witness:
  "\<exists>st. tcp_ok 3 st \<and> \<not> tcp_ok 3 (snd (tcp_rskip 3 st 5))"
proof -
  let ?tp = "\<lparr>tdis_lead = 0, tdis_trail = 0, tdis_eod = 2, tdis_bufsize = 4, tdis_thebuf = ''+1..''\<rparr>"
  let ?st = "\<lparr>tcparray = replicate 4 (Some \<lparr>readbuf = ?tp, writebuf = ?tp\<rparr>), sock_in = (\<lambda>_. []), sock_out = (\<lambda>_. []), sent = (\<lambda>_. [])\<rparr>"
  have ok: "tcp_ok 3 ?st"
    by (simp add: tcp_ok_def tcp_get_readbuf_def tcp_get_writebuf_def the_chan_def wf_readbuf_def wf_writebuf_def numeral_eq_Suc)
  moreover have "\<not> tcp_ok 3 (snd (tcp_rskip 3 ?st 5))"
    using rskip_overruns [OF ok, of 5] by (simp add: tcp_get_readbuf_def the_chan_def)
  ultimately show ?thesis by blast
qed

section \<open>Attribute values\<close>

text \<open>
  Numbers as text: in every base from 2 to 36 what \<open>uLTostr\<close> writes is read back by \<open>strTouL\<close> with nothing
  left over, and in the bases 8, 10 and 16 also when the base is to be found from the prefix; \<open>LTostr\<close> never
  writes past its buffer.
\<close>

theorem numerals_read_back:
  assumes "2 \<le> b" "b \<le> 36"
  shows "strTouL (Some (fst (uLTostr v (int b) e))) (int b) errno neg = (v, Some [], errno, False) \<and>
    (b \<in> {8, 10, 16} \<longrightarrow> strTouL (Some (fst (uLTostr v (int b) e))) 0 errno neg = (v, Some [], errno, False)) \<and>
    length (fst (LTostr v base errno)) < LBUFSIZ"
  using strTouL_uLTostr [OF assms] strTouL_base0 LTostr_bound by simp

theorem numerals_read_back_witness:
  "strTouL (Some (fst (uLTostr 255 16 0))) 0 0 False = (255, Some [], 0, False)"
  using numerals_read_back [of 16 255 0 0 False 10] by simp

text \<open>
  \<open>strToL\<close>, the signed reader, accepts no negative number: whatever the digits, a number with a minus sign
  gives \<open>LONG_MIN\<close> and the range error, because \<open>strTouL\<close> has already reported one.
\<close>

theorem negative_numerals_refused:
  assumes "\<forall>c \<in> set ws. isspace c" "digits_then b ds rest" "ds \<noteq> []" "2 \<le> b" "b \<le> 36" "b \<noteq> 16" "num_val b 0 ds < 2 ^ 63"
  shows "strToL (Some (ws @ ''-'' @ ds @ rest)) (int b) errno neg = (0x8000000000000000, Some rest, ERANGE, True) \<and>
    strToL (Some (ws @ ds @ rest)) (int b) errno neg = (of_nat (num_val b 0 ds), Some rest, errno, False)"
  using strToL_numeral [OF assms(1) _ assms(2-7), of "''-''" errno neg] strToL_numeral [OF assms(1) _ assms(2-7), of "[]" errno neg]
  by (simp add: sign_str_def)

theorem negative_numerals_refused_witness:
  "strToL (Some ''-5'') 10 0 False = (0x8000000000000000, Some [], ERANGE, True)"
  using negative_numerals_refused [of "[]" 10 "''5''" "[]" 0 False]
  by (simp add: digits_then_def dig_table_def uchar_def)

text \<open>
  C34. Attribute values of every type survive the text form in which they are sent and saved: what the encoder
  of a type writes for a set attribute, its decoder reads as the same value, into any attribute. Legal times have hours of at most
  fourteen digits: longer ones overrun the buffer of \<open>encode_time\<close>.
\<close>

theorem values_kept:
  assumes "is_set a"
  shows "(legal_b (at_val a) \<longrightarrow> value_kept decode_b (encode_b (\<lambda>_. True)) same_value mode a b) \<and>
    (legal_l (at_val a) \<longrightarrow> value_kept decode_l (encode_l (\<lambda>_. True)) same_value mode a b) \<and>
    (legal_ll (at_val a) \<longrightarrow> value_kept (decode_ll e neg) (encode_ll (\<lambda>_. True)) same_value mode a b) \<and>
    (legal_c (at_val a) \<longrightarrow> value_kept decode_c (encode_c (\<lambda>_. True)) same_value mode a b) \<and>
    (legal_str (at_val a) \<longrightarrow> value_kept (decode_str (\<lambda>_. True)) (encode_str (\<lambda>_. True)) same_value mode a b) \<and>
    (legal_hold (at_val a) \<longrightarrow> value_kept decode_hold (encode_hold (\<lambda>_. True)) same_value mode a b) \<and>
    (legal_time (at_val a) \<longrightarrow> value_kept (decode_time (\<lambda>_. True)) (encode_time (\<lambda>_. True)) same_value mode a b) \<and>
    (legal_size (at_val a) \<longrightarrow> value_kept (decode_size neg) (encode_size (\<lambda>_. True)) same_value mode a b) \<and>
    (legal_arst (at_val a) \<longrightarrow> arst_ok b \<longrightarrow> mode \<noteq> ATR_ENCODE_SAVE \<longrightarrow>
       value_kept (decode_arst (\<lambda>_. True)) (encode_arst (\<lambda>_. True)) same_arst mode a b)"
  using assms
  by (intro conjI impI b.kept l.kept ll.kept c.kept str.kept hold.kept time.kept size.kept arst.kept) (simp_all add: any_value_def arst_ok_val)

theorem values_kept_witness:
  "value_kept (decode_time (\<lambda>_. True)) (encode_time (\<lambda>_. True)) same_value 0
     \<lparr>at_flags = 1, at_type = 1, at_user_encoded = None, at_priv_encoded = None, at_val = At_long 3661 :: unit attr_val\<rparr>
     \<lparr>at_flags = 0, at_type = 1, at_user_encoded = None, at_priv_encoded = None, at_val = At_zero\<rparr>"
proof -
  let ?a = "\<lparr>at_flags = 1, at_type = 1, at_user_encoded = None, at_priv_encoded = None, at_val = At_long 3661 :: unit attr_val\<rparr>"
  have "is_set ?a" "legal_time (at_val ?a)" by (simp_all add: is_set_def legal_time_def)
  then show ?thesis using values_kept [of ?a] by simp
qed

text \<open>
  C35. The comparison of sizes is the comparison of what they amount to, in units of 1024 bytes rounded up (of 1024 words
  when both are given in words), whatever their suffixes; it is right even when one cannot be expressed with the
  suffix of the other in 64 bits.
\<close>

theorem size_comparison:
  assumes "at_val a = At_size x" "at_val w = At_size y" "size_fits (both_words x y) x" "size_fits (both_words x y) y"
  shows "comp_size a w =
    (if size_kb (both_words x y) x < size_kb (both_words x y) y then - 1
     else if size_kb (both_words x y) x > size_kb (both_words x y) y then 1 else 0)"
  using comp_size_spec [of a w] assms by (simp add: cmp3_def Let_def)

theorem size_comparison_witness:
  "comp_size
     \<lparr>at_flags = 1, at_type = 5, at_user_encoded = None, at_priv_encoded = None, at_val = At_size \<lparr>atsv_num = 2, atsv_shift = 50, atsv_units = 0\<rparr> :: unit attr_val\<rparr>
     \<lparr>at_flags = 1, at_type = 5, at_user_encoded = None, at_priv_encoded = None, at_val = At_size \<lparr>atsv_num = 3000, atsv_shift = 0, atsv_units = 1\<rparr>\<rparr> = 1"
  using size_comparison [of "\<lparr>at_flags = 1, at_type = 5, at_user_encoded = None, at_priv_encoded = None, at_val = At_size \<lparr>atsv_num = 2, atsv_shift = 50, atsv_units = 0\<rparr> :: unit attr_val\<rparr>"
      "\<lparr>atsv_num = 2, atsv_shift = 50, atsv_units = 0\<rparr>" _ "\<lparr>atsv_num = 3000, atsv_shift = 0, atsv_units = 1\<rparr>"]
  by (simp add: size_fits_def wf_size_def size_units_def both_words_def size_kb_def)

text \<open>
  C36. Adding to and subtracting from a size attribute: the result amounts to exactly the sum or the
  difference; an operation whose operands or sum do not fit in 64 bits at the smaller suffix, or whose
  difference would be negative, is refused with \<open>PBSE_BADATVAL\<close> and leaves the attribute alone.
\<close>

theorem size_arithmetic:
  assumes "at_val a = At_size x" "at_val n = At_size y" "size_fits (both_words x y) x" "size_fits (both_words x y) y" "is_set a" "atsv_num x \<noteq> 0"
  shows "(if size_incr_fits x y then \<exists>z. set_size a n batch_op_INCR = (0, mark_set (a\<lparr>at_val := At_size z\<rparr>)) \<and>
        size_result x y (size_kb (both_words x y) x + size_kb (both_words x y) y) z
      else set_size a n batch_op_INCR = (PBSE_BADATVAL, a)) \<and>
    (if size_decr_fits x y then \<exists>z. set_size a n batch_op_DECR = (0, mark_set (a\<lparr>at_val := At_size z\<rparr>)) \<and>
        size_result x y (size_kb (both_words x y) x - size_kb (both_words x y) y) z
      else set_size a n batch_op_DECR = (PBSE_BADATVAL, a))"
proof -
  have v: "at_size (at_val a) = x" "at_size (at_val n) = y" using assms(1,2) by simp_all
  show ?thesis using set_size_incr [of a n, unfolded v, OF assms(3-6)] set_size_decr [of a n, unfolded v, OF assms(3,4)] by (rule conjI)
qed

theorem size_arithmetic_witness:
  "set_size
     \<lparr>at_flags = 1, at_type = 5, at_user_encoded = None, at_priv_encoded = None, at_val = At_size \<lparr>atsv_num = 1, atsv_shift = 10, atsv_units = 0\<rparr> :: unit attr_val\<rparr>
     \<lparr>at_flags = 1, at_type = 5, at_user_encoded = None, at_priv_encoded = None, at_val = At_size \<lparr>atsv_num = 2, atsv_shift = 20, atsv_units = 0\<rparr>\<rparr>
     batch_op_DECR =
   (PBSE_BADATVAL, \<lparr>at_flags = 1, at_type = 5, at_user_encoded = None, at_priv_encoded = None, at_val = At_size \<lparr>atsv_num = 1, atsv_shift = 10, atsv_units = 0\<rparr>\<rparr>)"
  using size_arithmetic [of "\<lparr>at_flags = 1, at_type = 5, at_user_encoded = None, at_priv_encoded = None, at_val = At_size \<lparr>atsv_num = 1, atsv_shift = 10, atsv_units = 0\<rparr> :: unit attr_val\<rparr>"
      "\<lparr>atsv_num = 1, atsv_shift = 10, atsv_units = 0\<rparr>"
      "\<lparr>at_flags = 1, at_type = 5, at_user_encoded = None, at_priv_encoded = None, at_val = At_size \<lparr>atsv_num = 2, atsv_shift = 20, atsv_units = 0\<rparr>\<rparr>"
      "\<lparr>atsv_num = 2, atsv_shift = 20, atsv_units = 0\<rparr>"]
  by (simp add: size_fits_def wf_size_def size_units_def both_words_def size_kb_def size_decr_fits_def is_set_def)

section \<open>Arrays of strings\<close>

text \<open>
  C8. An array of strings, one buffer with pointers into it, implements a list of strings: \<open>set_arst\<close> with
  \<open>SET\<close>, \<open>INCR\<close> and \<open>DECR\<close> replaces the list, appends to it, or removes the first occurrence of each string
  given, growing buffer and pointer block as needed. It fails only for lack of memory. A failed \<open>INCR\<close> leaves a
  well-formed array with the old list. A failed \<open>SET\<close> has lost the old list: no strings are left, and either the array is well-formed
  or it has no buffer and a stale \<open>as_next\<close>; from there \<open>SET\<close> and \<open>INCR\<close> work as from an empty array.
\<close>

theorem set_arst_refines:
  assumes "arst_ok attr \<or> arst_emptied attr \<and> opn \<noteq> batch_op_DECR" "arst_ok new" "at_arst (at_val new) = Some x" "as_npointers x \<ge> 1"
    "opn \<in> {batch_op_SET, batch_op_INCR, batch_op_DECR}"
  shows "case set_arst mal attr new opn of (rc, a) \<Rightarrow> (rc = 0 \<or> rc = PBSE_SYSTEM \<and> \<not> (\<forall>n. mal n)) \<and>
    (if rc = 0 then is_set a \<and> arst_ok a \<and> arst_list a =
       (if opn = batch_op_SET then arst_list new else if opn = batch_op_INCR then arst_list attr @ arst_list new
        else fold remove1 (arst_list new) (arst_list attr))
     else if opn = batch_op_SET then arst_list a = [] \<and> (arst_ok a \<or> arst_emptied a)
     else arst_ok a \<and> arst_list a = arst_list attr)"
  using set_arst_spec [OF assms(1-3,5,4), of mal] unfolding arst_op_def set_arst_outcome_def .

definition example_arst :: "unit attribute" where
  "example_arst = \<lparr>at_flags = 1, at_type = ATR_TYPE_ARST, at_user_encoded = None, at_priv_encoded = None,
     at_val = At_arst (Some \<lparr>as_npointers = 2, as_buf = Some (''ann'' @ [NUL] @ ''bob'' @ [NUL, NUL]), as_next = 8, as_string = [0, 4]\<rparr>)\<rparr>"

lemma example_arst_ok:
  "arst_ok example_arst" "arst_list example_arst = [''ann'', ''bob'']" "is_set example_arst"
proof -
  let ?p = "\<lparr>as_npointers = 2, as_buf = Some (''ann'' @ [NUL] @ ''bob'' @ [NUL, NUL]), as_next = 8, as_string = [0, 4]\<rparr>"
  have "arst_rep ?p [''ann'', ''bob'']" by (simp add: arst_rep_def as_bytes_def c_string_def)
  then show "arst_ok example_arst" "arst_list example_arst = [''ann'', ''bob'']"
    using arst_okI [of ?p "[''ann'', ''bob'']" example_arst] by (simp_all add: example_arst_def)
  show "is_set example_arst" by (simp add: example_arst_def is_set_def)
qed

theorem set_arst_refines_witness:
  "case set_arst (\<lambda>_. True) example_arst example_arst batch_op_INCR of (rc, a) \<Rightarrow> rc = 0 \<and> arst_list a = [''ann'', ''bob'', ''ann'', ''bob'']"
proof -
  obtain x where x: "at_arst (at_val example_arst) = Some x" "as_npointers x \<ge> 1" by (simp add: example_arst_def)
  show ?thesis
    using set_arst_refines [OF disjI1 [OF example_arst_ok(1)] example_arst_ok(1) x, of batch_op_INCR "\<lambda>_. True"] example_arst_ok(2)
    by (cases "set_arst (\<lambda>_. True) example_arst example_arst batch_op_INCR") (simp add: batch_op_SET_def)
qed

text \<open>
  Decoding an array: the substrings of the value are stored in the buffer that was allocated for them
  without overrunning it, in order and no more of them than were counted; a failure leaves the
  attribute as it was.
\<close>

theorem decode_arst_bounded:
  assumes "count_substrings (Some v) = (0, ns, w)" "c_string v" "decode_arst_direct mal a (Some v) = (rc, b)"
  shows "(rc = 0 \<or> rc = PBSE_SYSTEM \<and> b = a \<and> \<not> (\<forall>n. mal n)) \<and>
    (rc = 0 \<longrightarrow> is_set b \<and> arst_ok b \<and> arst_list b = comma_tokens parse_comma_string ns w \<and>
       (\<forall>p. at_arst (at_val b) = Some p \<longrightarrow> as_next p \<le> as_bufsize p \<and> as_usedptr p \<le> as_npointers p \<and> as_npointers p = ns))"
proof -
  have "c_string w" using assms(1,2) by (auto simp: count_substrings_def c_string_def Let_def split: if_splits dest: in_set_butlastD)
  note d = decode_direct_spec [OF token_parser_comma assms(1) this assms(3) [unfolded decode_arst_direct_def]]
  have "as_next p \<le> as_bufsize p \<and> as_usedptr p \<le> as_npointers p" if "arst_ok b" "at_arst (at_val b) = Some p" for p
  proof -
    have rep: "arst_rep p (as_strs p)" using that by (simp add: arst_ok_def)
    then have "length (as_strs p) \<le> as_npointers p" unfolding arst_rep_def by blast
    then show ?thesis using arst_rep_fits [OF rep] arst_rep_used [OF rep] by simp
  qed
  then show ?thesis using d by blast
qed

theorem decode_arst_bounded_witness:
  "arst_list (snd (decode_arst_direct (\<lambda>_. True) example_arst (Some '' a, b ,''))) = [''a'', ''b'']"
proof -
  have c: "count_substrings (Some '' a, b ,'') = (0, 2, '' a, b '')"
    by (simp add: count_substrings_def comma_end_def ESC_CHAR_def NEWLINE_def)
  have t: "comma_tokens parse_comma_string 2 '' a, b '' = [''a'', ''b'']" by code_simp
  obtain rc b where d: "decode_arst_direct (\<lambda>_. True) example_arst (Some '' a, b ,'') = (rc, b)"
    by (cases "decode_arst_direct (\<lambda>_. True) example_arst (Some '' a, b ,'')")
  then show ?thesis using decode_arst_bounded [OF c _ d] t by (simp add: c_string_def)
qed

text \<open>
  Arrays with escapes, the form of the job's environment: strings with any characters but white space at
  their ends are read back as they were written, commas, quotes and escape characters included, provided
  the last one does not end with a comma; if it does, the array is read without its last string.
\<close>

theorem escaped_arrays_kept:
  assumes "arst_ok a" "is_set a" "arst_list a = s # ss" "\<forall>t \<in> set (s # ss). trimmed t" "arst_ok b"
  shows "(last (last (s # ss)) \<noteq> CHR '','' \<longrightarrow> (\<exists>pal b'. encode_arst_bs (\<lambda>_. True) (Some a) phead nm rn mode = (1, Some (phead @ [pal]), Some pal) \<and>
      decode_arst_bs (\<lambda>_. True) b nm rn (Some (al_value pal)) = (0, b') \<and> is_set b' \<and> arst_list b' = arst_list a)) \<and>
    (last (last (s # ss)) = CHR '','' \<longrightarrow>
      fst (snd (count_substrings_bs (Some (join_with CHR '','' (escape_item s) (map escape_item ss))))) = length ss)"
proof -
  have ts: "trimmed s" "\<forall>t \<in> set ss. trimmed t" "\<forall>t \<in> set (arst_list a). trimmed t" "arst_list a \<noteq> []" using assms(3,4) by simp_all
  have "last (last (s # ss)) \<noteq> CHR '','' \<Longrightarrow> last (last (arst_list a)) \<noteq> CHR '',''" using assms(3) by simp
  then show ?thesis
    using arst_bs_roundtrip [OF assms(1,2) ts(4,3) _ assms(5), of phead nm rn mode] count_substrings_bs_drops [OF ts(1,2)] by blast
qed

theorem escaped_arrays_kept_witness:
  "\<exists>pal b'. encode_arst_bs (\<lambda>_. True) (Some example_arst) [] ''Variable_List'' None 0 = (1, Some [pal], Some pal) \<and>
     decode_arst_bs (\<lambda>_. True) example_arst ''Variable_List'' None (Some (al_value pal)) = (0, b') \<and> arst_list b' = [''ann'', ''bob'']"
proof -
  have "\<forall>t \<in> set [''ann'', ''bob'']. trimmed t" by (simp add: trimmed_def c_string_def isspace_def uchar_def)
  then show ?thesis
    using escaped_arrays_kept [OF example_arst_ok(1,3,2) _ example_arst_ok(1), of "[]" "''Variable_List''" None 0] example_arst_ok(2) by auto
qed

section \<open>Lists and strings of attributes\<close>

text \<open>
  Environments: an array of \<open>name=value\<close> strings joined by \<open>env_array_to_str\<close> is taken apart by
  \<open>str_to_str_array\<close> into the same array, when no value has a quote or an escape character directly before a
  delimiter; a value with such an escape character is cut in two.
\<close>

theorem environment_kept:
  assumes "a \<noteq> []" "\<forall>e \<in> set a. env_plain d e" "d \<noteq> ESC_CHAR" "\<not> quote_char d" "d \<noteq> CHR ''=''"
  shows "str_to_str_array (\<lambda>_. True) (env_array_to_str (\<lambda>_. True) (Some a) d) d = Some a \<and>
    str_to_str_array (\<lambda>_. True) (env_array_to_str (\<lambda>_. True) (Some [''a=b'' @ [ESC_CHAR] @ '',c'']) CHR '','') CHR '','' =
      Some [''a=b'' @ [ESC_CHAR], ''c'']"
  using env_roundtrip [OF assms] env_esc_delim_lost by simp

theorem environment_kept_witness:
  "str_to_str_array (\<lambda>_. True) (env_array_to_str (\<lambda>_. True) (Some [''A=1,2'', ''B='']) CHR '','') CHR '','' = Some [''A=1,2'', ''B='']"
proof -
  have "\<forall>e \<in> set [''A=1,2'', ''B='']. env_plain CHR '','' e"
    by (simp add: env_plain_def env_val_def env_var_def plain_str_def quote_char_def ESC_CHAR_def)
  then show ?thesis using environment_kept [of "[''A=1,2'', ''B='']" "CHR '',''"] by (simp add: quote_char_def ESC_CHAR_def)
qed

text \<open>
  The block \<open>env_array_to_str\<close> allocates holds the string it writes, terminator included, when at most one
  entry lacks the \<open>=\<close>; with two such entries the code writes past the end of the block.
\<close>

theorem environment_block:
  assumes "a \<noteq> []" "\<forall>e \<in> set a. c_string e" "length (filter no_eq a) \<le> 1" "env_array_to_str (\<lambda>_. True) (Some a) d = Some s"
  shows "length s + 1 \<le> env_len d 0 a \<and>
    (env_len CHR '','' 0 [''a'', ''b''] = 5 \<and> env_array_to_str (\<lambda>_. True) (Some [''a'', ''b'']) CHR '','' = Some ''a=,b='')"
  using env_block_bound [OF assms] env_block_overflow by blast

theorem environment_block_witness: "length ''A=1,B='' + 1 \<le> env_len CHR '','' 0 [''A=1'', ''B='']"
proof -
  have e: "env_array_to_str (\<lambda>_. True) (Some [''A=1'', ''B='']) CHR '','' = Some ''A=1,B=''"
    by (simp add: env_array_to_str_def env_entry_def env_val_def env_var_def strlen_def needs_escape_def ESC_CHAR_def)
  have "\<forall>x \<in> set [''A=1'', ''B='']. c_string x" "length (filter no_eq [''A=1'', ''B='']) \<le> 1" by (simp_all add: c_string_def no_eq_def)
  then show ?thesis using environment_block [OF _ _ _ e] by simp
qed

text \<open>
  \<open>compare_svrattrl_list\<close> decides whether two lists hold the same names with the same values equally often,
  in any order; and \<open>add_to_svrattrl_list_sorted\<close> keeps a list in the order of its names.
\<close>

theorem svrattrl_lists:
  assumes "names_sorted l"
  shows "compare_svrattrl_list (\<lambda>_. True) (Some l1) (Some l2) = (if mset (map entry_key l1) = mset (map entry_key l2) then 1 else 0) \<and>
    names_sorted (snd (add_to_svrattrl_list_sorted mal l nm rn val flag pfx))"
  using compare_svrattrl_list_mset link_sorted_sorted [OF assms] assms
  by (auto simp: add_to_svrattrl_list_sorted_def split: option.split)

theorem svrattrl_lists_witness:
  "names_sorted (snd (add_to_svrattrl_list_sorted (\<lambda>_. True) [] ''a'' None (Some ''b'') 0 None))"
  using svrattrl_lists [of "[]" "[]" "[]" "\<lambda>_. True" "''a''" None "Some ''b''" 0 None] by (simp add: names_sorted_def)

section \<open>Resource lists and whole objects\<close>

text \<open>
  Decoding one resource into a resource list: the list stays in the order of the names with one entry for each
  definition; a resource that may be written gets what its own decoder makes of its current value and no
  other resource changes; one that may not be written is refused.
\<close>

theorem resource_decoded:
  assumes "table_ok defs" "resc_wf defs a" "find_resc_def defs (Some rn) = Some i" "\<forall>n. mal n" "perm AND ATR_PERM_ALLOW_INDIRECT = 0"
    "rs_decode (defs ! i) (resc_current defs a i) nm (Some rn) val = (rv, v)"
  shows "(resc_writable defs perm i \<longrightarrow> (\<exists>b. decode_resc mal defs perm (Some a) nm (Some rn) val = (rv, Some b) \<and> is_set b \<and> resc_wf defs b \<and>
      resc_map (resc_list b) = (resc_map (resc_list a))(i \<mapsto> v))) \<and>
    (\<not> resc_writable defs perm i \<longrightarrow> fst (decode_resc mal defs perm (Some a) nm (Some rn) val) = PBSE_ATTRRO)"
  using decode_resc_known [OF assms(1-4) _ assms(5,6)] decode_resc_readonly [OF assms(1-4)] by blast

definition empty_resc :: "resource attribute" where
  "empty_resc = \<lparr>at_flags = 0, at_type = ATR_TYPE_RESC, at_user_encoded = None, at_priv_encoded = None, at_val = At_list []\<rparr>"

theorem resource_decoded_witness:
  "\<exists>b. decode_resc (\<lambda>_. True) core_resc_def 0x3F (Some empty_resc) ''Resource_List'' (Some ''ncpus'') (Some ''4'') = (0, Some b) \<and>
     resc_map (resc_list b) 3 \<noteq> None"
proof -
  have l: "resc_list empty_resc = []" by (simp add: empty_resc_def resc_list_def is_set_def)
  have n: "core_resc_def ! 3 = long_resc ''ncpus'' 0x2C43F" by (simp add: core_resc_simps)
  have f: "find_resc_def core_resc_def (Some ''ncpus'') = Some 3"
    using find_resc_def_self [OF core_names, of 3] by (simp add: n) (simp add: core_resc_simps long_resc_def)
  obtain v where v: "rs_decode (core_resc_def ! 3) (resc_current core_resc_def empty_resc 3) ''Resource_List'' (Some ''ncpus'') (Some ''4'') = (0, v)"
    by (simp add: n long_resc_def decode_l_def strlen_def is_digit_def uchar_def)
  have "resc_writable core_resc_def 0x3F 3" by (simp add: resc_writable_def n long_resc_def)
  then show ?thesis using resource_decoded [OF core_names _ f _ _ v, of "\<lambda>_. True" "0x3F"] by (auto simp: resc_wf_def l)
qed

text \<open>
  Setting a resource list: on a table whose types keep their contract, as the built-in one does, every
  resource of the new list is copied, those without a value are unset, and the resources not mentioned
  are unchanged.
\<close>

theorem resources_set:
  assumes "direct core_resc_def (\<lambda>_. any_value) old" "\<forall>r \<in> set (at_list (at_val new)). settable core_resc_def (resc_legal core_resc_kinds) (\<lambda>_. any_value) r" "distinct (map rs_defin (at_list (at_val new)))"
  shows "\<exists>b. set_resc (\<lambda>_. True) core_resc_def old new batch_op_SET = (0, b) \<and> is_set b \<and> direct core_resc_def (\<lambda>_. any_value) b \<and>
    (\<forall>r \<in> set (at_list (at_val new)). copied (\<lambda>_. same_value) r (resc_map (at_list (at_val b)) (rs_defin r))) \<and>
    (\<forall>i. i \<notin> rs_defin ` set (at_list (at_val new)) \<longrightarrow> resc_map (at_list (at_val b)) i = resc_map (at_list (at_val old)) i)"
proof -
  have "at_flags (rs_free (core_resc_def ! i) v) AND ATR_VFLAG_INDIRECT = 0" if "i < length core_resc_def" for i v
    using core_cases [OF that] by (elim insertE emptyE; simp add: core_resc_simps core_free_flags)
  then show ?thesis using core.set_loop_spec [OF assms, of "\<lambda>_. True"] by (simp add: set_resc_def any_value_def)
qed

definition ncpus_resc :: "resource attribute" where
  "ncpus_resc = \<lparr>at_flags = 1, at_type = ATR_TYPE_RESC, at_user_encoded = None, at_priv_encoded = None,
     at_val = At_list [\<lparr>rs_defin = 3, rs_value = \<lparr>at_flags = 1, at_type = 1, at_user_encoded = None, at_priv_encoded = None, at_val = At_long 4\<rparr>\<rparr>]\<rparr>"

theorem resources_set_witness:
  "\<exists>b. set_resc (\<lambda>_. True) core_resc_def empty_resc ncpus_resc batch_op_SET = (0, b) \<and> resc_map (at_list (at_val b)) 3 \<noteq> None"
proof -
  have "direct core_resc_def (\<lambda>_. any_value) empty_resc" "\<forall>r \<in> set (at_list (at_val ncpus_resc)). settable core_resc_def (resc_legal core_resc_kinds) (\<lambda>_. any_value) r" "distinct (map rs_defin (at_list (at_val ncpus_resc)))"
    by (simp_all add: direct_def empty_resc_def ncpus_resc_def settable_def core_resc_simps resc_legal_def legal_l_def any_value_def is_set_def)
  from resources_set [OF this] show ?thesis by (auto simp: ncpus_resc_def copied_def)
qed

text \<open>
  C40. A resource list that one server encodes and another decodes into a new job, entry by entry as the loop of
  \<open>req_quejob\<close> does, arrives whole: \<open>encode_resc\<close> makes one entry for every resource that has a value and that the mode
  lets through (for another server: none with a default value), and the job then holds exactly these resources, in the order of their
  names and with the same values. For any table of resources of the modelled types whose names differ; the resource \<open>neednodes\<close>, which
  the loop skips, is left out, and so is the mode for saving to disk.
\<close>

theorem resources_resent:
  assumes "table_ok (resc_defs tbl)" "is_set a" "resc_wf (resc_defs tbl) a" "mode \<noteq> ATR_ENCODE_SAVE"
    "\<forall>r \<in> set (sent_rescs (resc_defs tbl) access mode a). resc_legal tbl (rs_defin r) (at_val (rs_value r)) \<and> at_flags (rs_value r) AND ATR_VFLAG_INDIRECT = 0 \<and>
       resc_writable (resc_defs tbl) perm (rs_defin r) \<and> rs_name (resc_defs tbl ! rs_defin r) \<noteq> ''neednodes''"
    "perm AND ATR_PERM_ALLOW_INDIRECT = 0"
    "find_attr pdef nm = int i" "i < length pdef" "pdef ! i = resc_attr (resc_defs tbl) nm' fl" "fl AND perm \<noteq> 0" "length w = length pdef" "resc_list (w ! i) = []"
  shows "\<exists>ps rtnl b. encode_resc (\<lambda>_. True) (resc_defs tbl) access (Some a) (Some ph) nm None mode =
      (int (length (sent_rescs (resc_defs tbl) access mode a)), Some (ph @ ps), rtnl) \<and>
    quejob_attrs pdef unkn rsrc exec perm (map (attropl_svr \<circ> svr_attropl) ps) w = (0, None, w[i := b]) \<and> resc_wf (resc_defs tbl) b \<and>
    (\<forall>j. case resc_map (sent_rescs (resc_defs tbl) access mode a) j of None \<Rightarrow> resc_map (resc_list b) j = None
      | Some v \<Rightarrow> \<exists>u. resc_map (resc_list b) j = Some u \<and> is_set u \<and> at_val u = at_val v)"
proof -
  let ?defs = "resc_defs tbl" and ?f = "attropl_svr \<circ> svr_attropl"
  let ?l = "sent_rescs ?defs access mode a"
  note rt = resc_table.resc_roundtrip [OF resc_table_kinds [OF assms(1)]]
  have "\<forall>r \<in> set (resc_list a). rs_defin r < length ?defs" using assms(3) by (simp add: resc_wf_def resc_sorted_def)
  then have "\<forall>r \<in> set ?l. sendable ?defs (resc_legal tbl) access mode r \<and> resc_writable ?defs perm (rs_defin r)"
    using assms(5) by (auto simp: sendable_def sent_rescs_def)
  from rt [OF assms(2,3) this UNIV_I assms(6,12), of ph nm None] obtain ps rtnl b
    where r: "encode_resc (\<lambda>_. True) ?defs access (Some a) (Some ph) nm None mode = (int (length ?l), Some (ph @ ps), rtnl)"
      "list_all2 (sent_as ?defs (\<lambda>_. same_value) (\<lambda>_. any_value) nm) ?l ps"
      "decode_entries (\<lambda>_. True) ?defs perm ps (w ! i) = (0, b)" "resc_wf ?defs b"
      "\<forall>j. case resc_map ?l j of None \<Rightarrow> resc_map (resc_list b) j = None
        | Some v \<Rightarrow> \<exists>u. resc_map (resc_list b) j = Some u \<and> is_set u \<and> at_val u = at_val v"
    unfolding same_value_def by blast
  have "al_name p = nm \<and> al_resc p \<noteq> Some ''neednodes''" if "p \<in> set ps" for p
    using that list_all2_nthD2 [OF r(2)] assms(5) nth_mem list_all2_lengthD [OF r(2)] by (fastforce simp: in_set_conv_nth sent_as_def)
  then have "\<forall>p \<in> set (map ?f ps). al_name p = nm \<and> al_flags p = 0 \<and> (i = rsrc \<longrightarrow> al_resc p \<noteq> Some ''neednodes'')" by simp
  moreover have "decode_entries (\<lambda>_. True) ?defs perm (map ?f ps) (w ! i) = (0, b)"
    using resc_table.decode_entries_map [OF resc_table_kinds [OF assms(1)], of ?f] r(3) by simp
  ultimately have "quejob_attrs pdef unkn rsrc exec perm (map ?f ps) w = (0, None, w[i := b])"
    using quejob_attrs_resc [OF assms(7-11)] by blast
  then show ?thesis using r by blast
qed

theorem resources_resent_witness:
  "\<exists>ps rtnl b. encode_resc (\<lambda>_. True) (resc_defs core_resc_kinds) 0x3F (Some ncpus_resc) (Some []) ''Resource_List'' None 1 = (1, Some ps, rtnl) \<and>
     quejob_attrs [resc_attr (resc_defs core_resc_kinds) ''Resource_List'' 0x3F] 0 0 True create_perm (map (attropl_svr \<circ> svr_attropl) ps) [empty_resc] = (0, None, [b]) \<and>
     resc_map (resc_list b) 3 \<noteq> None"
proof -
  let ?defs = "resc_defs core_resc_kinds" and ?t = "[resc_attr (resc_defs core_resc_kinds) ''Resource_List'' 0x3F]"
  have n: "table_ok ?defs" using core_names by (simp add: core_resc_def_def)
  have s: "is_set ncpus_resc" by (simp add: ncpus_resc_def is_set_def)
  then have l: "resc_list ncpus_resc = [\<lparr>rs_defin = 3, rs_value = \<lparr>at_flags = 1, at_type = 1, at_user_encoded = None, at_priv_encoded = None, at_val = At_long 4\<rparr>\<rparr>]"
    by (simp add: resc_list_def ncpus_resc_def)
  have w: "resc_wf ?defs ncpus_resc" by (simp add: resc_wf_def l resc_sorted_Cons core_resc_simps)
  have sl: "sent_rescs ?defs 0x3F 1 ncpus_resc = resc_list ncpus_resc"
    by (simp add: sent_rescs_def l core_resc_simps is_set_def encode_wanted_def long_resc_def)
  have "\<forall>r \<in> set (sent_rescs ?defs 0x3F 1 ncpus_resc). resc_legal core_resc_kinds (rs_defin r) (at_val (rs_value r)) \<and> at_flags (rs_value r) AND ATR_VFLAG_INDIRECT = 0 \<and>
      resc_writable ?defs create_perm (rs_defin r) \<and> rs_name (?defs ! rs_defin r) \<noteq> ''neednodes''"
    by (simp add: sl) (simp add: l core_resc_simps resc_legal_def legal_l_def resc_writable_def long_resc_def create_perm_def)
  moreover have "resc_list empty_resc = []" by (simp add: empty_resc_def resc_list_def is_set_def)
  moreover have "find_attr ?t ''Resource_List'' = int 0" by (simp add: resc_attr_def strcasecmp_def)
  ultimately obtain ps rtnl b where r: "encode_resc (\<lambda>_. True) ?defs 0x3F (Some ncpus_resc) (Some []) ''Resource_List'' None 1 = (1, Some ps, rtnl)"
    "quejob_attrs ?t 0 0 True create_perm (map (attropl_svr \<circ> svr_attropl) ps) [empty_resc] = (0, None, [b])"
    "\<forall>j. case resc_map (resc_list ncpus_resc) j of None \<Rightarrow> resc_map (resc_list b) j = None
      | Some v \<Rightarrow> \<exists>u. resc_map (resc_list b) j = Some u \<and> is_set u \<and> at_val u = at_val v"
    using resources_resent [OF n s w, of 1 "0x3F" create_perm ?t "''Resource_List''" 0 "''Resource_List''" "0x3F" "[empty_resc]" "[]" 0 0 True]
    by (auto simp: sl create_perm_def) (auto simp: l)
  have "resc_map (resc_list b) 3 \<noteq> None" using r(3) [rule_format, of 3] by (auto simp: l resc_map_def)
  then show ?thesis using r(1,2) by blast
qed

text \<open>
  C7. \<open>attr_atomic_set\<close> sets all attributes or none: after an error every attribute of the new array has been
  freed and the index of an entry of the list is reported; after success an attribute that no entry names, or
  that the caller may not write, is as it was initialised.
\<close>

theorem atomic_all_or_nothing:
  assumes "attr_atomic_set plist old pdef unkn privil = (rc, bad, new)"
  shows "length new = length pdef \<and>
    (rc \<noteq> 0 \<longrightarrow> (\<exists>k. bad = Some k \<and> 1 \<le> k \<and> k \<le> length plist) \<and>
       (\<forall>i < length pdef. \<exists>a. new ! i = ad_free (pdef ! i) a) \<and>
       (pdef = core_job_attr_def \<longrightarrow> (\<forall>i < length pdef. \<not> is_set (new ! i)))) \<and>
    (rc = 0 \<longrightarrow> bad = None \<and>
       (\<forall>i < length pdef. (\<forall>p \<in> set plist. \<not> may_write pdef unkn privil p i) \<longrightarrow> new ! i = clear_attr (pdef ! i)))"
proof (cases "rc = 0")
  case False
  have "\<not> is_set (new ! i)" if "pdef = core_job_attr_def" "i < length pdef" for i
    using job.atomic_error_unset assms False that by blast
  then show ?thesis using atomic_set_error [OF assms False] False by blast
next
  case True
  then have a: "attr_atomic_set plist old pdef unkn privil = (0, bad, new)" using assms by simp
  have "length new = length pdef" "bad = None" using a atomic_loop_frame(1)
    by (fastforce simp: attr_atomic_set_def split: prod.splits if_splits)+
  then show ?thesis using True atomic_set_frame(1) [OF a] by blast
qed

theorem atomic_all_or_nothing_witness:
  "fst (attr_atomic_set [mk_svrattrl ''nosuch'' None ''1'' 0] (map clear_attr core_job_attr_def) core_job_attr_def (- 1) 0x3F) = PBSE_NOATTR \<and>
   list_all (\<lambda>a. \<not> is_set a) (snd (snd (attr_atomic_set [mk_svrattrl ''nosuch'' None ''1'' 0] (map clear_attr core_job_attr_def) core_job_attr_def (- 1) 0x3F)))"
proof -
  let ?r = "attr_atomic_set [mk_svrattrl ''nosuch'' None ''1'' 0] (map clear_attr core_job_attr_def) core_job_attr_def (- 1) 0x3F"
  have "find_attr core_job_attr_def ''nosuch'' = - 1"
    by (simp add: core_job_simps strcasecmp_def tolower_def uchar_def)
  then have f: "fst ?r = PBSE_NOATTR" by (simp add: attr_atomic_set_def atomic_step_def mk_svrattrl_def)
  obtain rc bad new where r: "?r = (rc, bad, new)" by (cases ?r) auto
  then show ?thesis using atomic_all_or_nothing [OF r] f r by (simp add: list_all_length)
qed

text \<open>
  The entries that \<open>encode_attrs\<close> makes of legal values, set all at once by \<open>attr_atomic_set\<close> with the privilege to write
  them, rebuild every attribute that was encoded.
\<close>

theorem attributes_set_again:
  assumes "length attrs = length core_job_attr_def" "\<forall>i < length core_job_attr_def. is_set (attrs ! i) \<longrightarrow> attr_legal core_job_kinds i (at_val (attrs ! i))"
    "mode \<noteq> ATR_ENCODE_SAVE" "\<forall>i < length core_job_attr_def. \<not> is_set (old ! i)"
    "\<forall>i < length core_job_attr_def. ad_flags (core_job_attr_def ! i) AND access \<noteq> 0 \<longrightarrow> (ad_flags (core_job_attr_def ! i) AND ATR_DFLAG_ACCESS) AND privil AND ATR_DFLAG_WRACC \<noteq> 0"
  shows "\<exists>new. attr_atomic_set (map (attropl_svr \<circ> svr_attropl) (encode_attrs access mode core_job_attr_def attrs)) old core_job_attr_def unkn privil = (0, None, new) \<and>
    (\<forall>i < length core_job_attr_def. if ad_flags (core_job_attr_def ! i) AND access \<noteq> 0 \<and> is_set (attrs ! i)
       then is_set (new ! i) \<and> attr_same core_job_kinds i (at_val (new ! i)) (at_val (attrs ! i)) else \<not> is_set (new ! i))"
  using job.atomic_set_resent [OF assms(1,2) _ assms(4,5)] assms(3) by simp

text \<open>
  C6. The attributes of a job move whole from one server to another: what \<open>send_job\<close> encodes for another server is
  passed to \<open>PBSD_queuejob\<close> as a list of \<open>attropl\<close>, carried in a queue-job request, and decoded by the loop of
  \<open>req_quejob\<close> into the attributes of the new job. The loop accepts every entry; every attribute that was set and
  sent has its value, all others are as they were. For any table of attributes of the modelled types whose names differ, in which
  another server may write what is sent; texts and lists fit the protocol, and at least one attribute is sent.
\<close>

theorem job_attributes_moved:
  assumes "names_differ (attr_defs tbl)" "length attrs = length tbl" "\<forall>i < length tbl. is_set (attrs ! i) \<longrightarrow> attr_legal tbl i (at_val (attrs ! i))"
    "length wattr = length tbl" "\<forall>i < length tbl. attr_wf tbl i (at_val (wattr ! i))"
    "\<forall>i < length tbl. ad_flags (attr_defs tbl ! i) AND move_access \<noteq> 0 \<longrightarrow> ad_flags (attr_defs tbl ! i) AND create_perm \<noteq> 0"
    "attrl = encode_attrs move_access ATR_ENCODE_SVR (attr_defs tbl) attrs" "attrl \<noteq> []" "attr_list_ok wf_svrattrl attrl"
    "fits PBS_MAXSVRJOBID jobid" "fits PBS_MAXDEST destin"
  shows "\<exists>q new. tcp_carries (\<lambda>ops. encode_DIS_QueueJob ops (Some jobid) (Some destin) (map svr_attropl attrl)) (\<lambda>ops. decode_DIS_QueueJob ops zero_queuejob) q \<and>
    qj_jid q = jobid \<and> qj_destin q = destin \<and>
    quejob_attrs (attr_defs tbl) unkn rsrc exec create_perm (qj_attr q) wattr = (0, None, new) \<and>
    (\<forall>i < length tbl. if ad_flags (attr_defs tbl ! i) AND move_access \<noteq> 0 \<and> is_set (attrs ! i)
       then is_set (new ! i) \<and> attr_same tbl i (at_val (new ! i)) (at_val (attrs ! i)) else new ! i = wattr ! i)"
proof -
  have n: "length (attr_defs tbl) = length tbl" by (simp add: attr_defs_def)
  have "ATR_ENCODE_SVR \<in> - {ATR_ENCODE_SAVE}" by simp
  then obtain new where "quejob_attrs (attr_defs tbl) unkn rsrc exec create_perm (map (attropl_svr \<circ> svr_attropl) attrl) wattr = (0, None, new)"
    "\<forall>i < length tbl. if ad_flags (attr_defs tbl ! i) AND move_access \<noteq> 0 \<and> is_set (attrs ! i)
       then is_set (new ! i) \<and> attr_same tbl i (at_val (new ! i)) (at_val (attrs ! i)) else new ! i = wattr ! i"
    using attr_table.quejob_attrs_resent [OF attr_table_kinds [OF assms(1)], of attrs ATR_ENCODE_SVR wattr move_access create_perm unkn rsrc exec] assms(2-7) n
    by auto
  moreover obtain q where "tcp_carries (\<lambda>ops. encode_DIS_QueueJob ops (Some jobid) (Some destin) (map svr_attropl attrl)) (\<lambda>ops. decode_DIS_QueueJob ops zero_queuejob) q"
    "qj_jid q = jobid" "qj_destin q = destin" "qj_attr q = map (attropl_svr \<circ> svr_attropl) attrl"
    using submit_carried [OF assms(10,11) attr_list_ok_svr [OF assms(9)]] by auto
  ultimately show ?thesis by (intro exI [of _ q] exI [of _ new]) simp
qed

definition moved_attrs :: "resource attribute list" where
  "moved_attrs = (map clear_attr core_job_attr_def)[4 := \<lparr>at_flags = 1, at_type = 1, at_user_encoded = None, at_priv_encoded = None, at_val = At_long 5\<rparr>]"

lemma core_job_length: "length core_job_attr_def = 7" "length core_job_kinds = 7"
  by (simp_all add: core_job_simps)

lemma moved_attrs_nth:
  "i < 7 \<Longrightarrow> moved_attrs ! i = (if i = 4 then \<lparr>at_flags = 1, at_type = 1, at_user_encoded = None, at_priv_encoded = None, at_val = At_long 5\<rparr> else clear_attr (core_job_attr_def ! i))"
  by (simp add: moved_attrs_def nth_list_update core_job_length)

lemma moved_attrs_sent:
  "encode_attrs move_access ATR_ENCODE_SVR core_job_attr_def moved_attrs \<noteq> []"
  "attr_list_ok wf_svrattrl (encode_attrs move_access ATR_ENCODE_SVR core_job_attr_def moved_attrs)"
proof -
  have "digit_char 5 = CHR ''5''" by code_simp
  then have "ld_str 5 = ''5''" by (simp add: ld_str_def int_str_def dec_str_rec [of 5])
  then obtain p where p: "encode_attrs move_access ATR_ENCODE_SVR core_job_attr_def moved_attrs = [p]" "al_name p = ''Priority''" "al_resc p = None" "al_value p = ''5''" "al_rescln p = 0"
    by (simp add: encode_attrs_def moved_attrs_def core_job_simps encode_attr_def clear_attr_def move_access_def
      encode_str_def encode_hold_def encode_arst_def encode_l_def encode_b_def encode_time_def is_set_def
      encode_text_def attrlist_create_def attrlist_alloc_def strlen_def Let_def attrl_fixlink_def)
  then show "encode_attrs move_access ATR_ENCODE_SVR core_job_attr_def moved_attrs \<noteq> []" by simp
  show "attr_list_ok wf_svrattrl (encode_attrs move_access ATR_ENCODE_SVR core_job_attr_def moved_attrs)"
    using p by (simp add: attr_list_ok_def wf_svrattrl_def attr_ok_def attr_len_def c_string_def)
qed

theorem job_attributes_moved_witness:
  "\<exists>(q :: rq_queuejob) new. quejob_attrs (attr_defs core_job_kinds) 0 7 True create_perm (qj_attr q) (map clear_attr (attr_defs core_job_kinds)) = (0, None, new) \<and>
     is_set (new ! 4) \<and> at_val (new ! 4) = At_long 5 \<and> \<not> is_set (new ! 1)"
proof -
  let ?t = core_job_kinds and ?w = "map clear_attr (attr_defs core_job_kinds)"
  have c: "\<not> is_set (clear_attr d)" for d by (simp add: clear_attr_def is_set_def)
  have n: "length (attr_defs ?t) = 7" using core_job_length by (simp add: core_job_attr_def_def)
  have l: "\<forall>i < length ?t. is_set (moved_attrs ! i) \<longrightarrow> attr_legal ?t i (at_val (moved_attrs ! i))"
    by (simp add: core_job_length moved_attrs_nth c) (simp add: attr_legal_def core_job_kinds_def legal_l_def)
  have m: "length moved_attrs = length ?t" "length ?w = length ?t" by (simp_all add: moved_attrs_def core_job_length n)
  have f: "\<forall>i < length ?t. ad_flags (attr_defs ?t ! i) AND move_access \<noteq> 0 \<longrightarrow> ad_flags (attr_defs ?t ! i) AND create_perm \<noteq> 0"
  proof (intro allI impI)
    fix i assume "i < length ?t" "ad_flags (attr_defs ?t ! i) AND move_access \<noteq> 0"
    then have "attr_defs ?t ! i \<in> set (attr_defs ?t)" "ad_flags (attr_defs ?t ! i) AND move_access \<noteq> 0" by (simp_all add: attr_defs_def)
    then show "ad_flags (attr_defs ?t ! i) AND create_perm \<noteq> 0" by (auto simp: core_job_simps move_access_def create_perm_def)
  qed
  have w: "\<forall>i < length ?t. attr_wf ?t i (at_val (?w ! i))"
    using job.cleared n by (simp add: core_job_attr_def_def core_job_length)
  have t: "fits PBS_MAXSVRJOBID ''1.a''" "fits PBS_MAXDEST ''q''" by (simp_all add: fits_def c_string_def)
  obtain q :: rq_queuejob and new where r: "quejob_attrs (attr_defs ?t) 0 7 True create_perm (qj_attr q) ?w = (0, None, new)"
    "\<forall>i < length ?t. if ad_flags (attr_defs ?t ! i) AND move_access \<noteq> 0 \<and> is_set (moved_attrs ! i)
       then is_set (new ! i) \<and> attr_same ?t i (at_val (new ! i)) (at_val (moved_attrs ! i)) else new ! i = ?w ! i"
    using job_attributes_moved [OF core_job_names [unfolded core_job_attr_def_def] m(1) l m(2) w f refl moved_attrs_sent [unfolded core_job_attr_def_def] t, of 0 7 True]
    by (elim exE conjE) (rule that)
  have "ad_flags (attr_defs ?t ! 4) AND move_access \<noteq> 0" "attr_same ?t 4 = same_value" by (simp_all add: core_job_simps move_access_def attr_same_def)
  moreover have "is_set (moved_attrs ! 4)" "at_val (moved_attrs ! 4) = At_long 5" "\<not> is_set (moved_attrs ! 1)" by (simp_all add: moved_attrs_nth c) (simp add: is_set_def)
  ultimately have "is_set (new ! 4) \<and> at_val (new ! 4) = At_long 5 \<and> \<not> is_set (new ! 1)"
    using r(2) [rule_format, of 4] r(2) [rule_format, of 1] by (simp add: core_job_length n c same_value_def)
  then show ?thesis using r(1) by blast
qed

end
